(* ===== verification/Enso_Prelude.thy ===== *)
theory Enso_Prelude
  imports Main "HOL-Library.Word"
begin

text \<open>
  Shared ground of the development: the machine integer types of the C++ code, the
  fact collections the component theories use, and generic lemmas on words, on
  arithmetic modulo a ring size and on lists. Nothing here models code.
\<close>

unbundle bit_operations_syntax

section \<open>Machine integers\<close>

type_synonym u8 = "8 word"
type_synonym u16 = "16 word"
type_synonym u32 = "32 word"
type_synonym u64 = "64 word"

named_theorems ring_simps \<open>positions of a ring buffer\<close>
named_theorems inv_intros \<open>introduction rules for component invariants\<close>

section \<open>Words\<close>

lemma unat_Suc_bound:
  fixes x :: "'a::len word"
  assumes "x < c"
  shows "unat (x + 1) = Suc (unat x)"
  using assms by unat_arith

lemma unat_lt_iff: "(x :: 'a::len word) < y \<longleftrightarrow> unat x < unat y"
  by (rule word_less_nat_alt)

lemma unat_le_iff: "(x :: 'a::len word) \<le> y \<longleftrightarrow> unat x \<le> unat y"
  by (rule word_le_nat_alt)

lemma unat_add_no_overflow:
  fixes x y :: "'a::len word"
  assumes "unat x + unat y < 2 ^ LENGTH('a)"
  shows "unat (x + y) = unat x + unat y"
  using assms by (simp add: unat_word_ariths)

lemma unat_sub_le:
  fixes x y :: "'a::len word"
  assumes "y \<le> x"
  shows "unat (x - y) = unat x - unat y"
  using assms by (rule unat_sub)

lemma unat_take_bit_mod:
  fixes x :: "'a::len word"
  shows "unat (take_bit k x) = unat x mod 2 ^ k"
  by (metis unsigned_take_bit_eq take_bit_eq_mod)

lemma unat_and_mask:
  fixes x :: "'a::len word"
  shows "unat (x AND mask k) = unat x mod 2 ^ k"
  by (simp only: take_bit_eq_mask [symmetric] unat_take_bit_mod)

lemma two_power_minus_one_mask: "(2 ^ k - 1 :: 'a::len word) = mask k"
  by (simp add: mask_eq_decr_exp)

lemma and_not_mask_push_drop:
  fixes x :: "'a::len word"
  shows "x AND NOT (mask k) = push_bit k (drop_bit k x)"
  by (rule bit_word_eqI) (auto simp: bit_simps)

lemma unat_and_not_mask:
  fixes x :: "'a::len word"
  shows "unat (x AND NOT (mask k)) = unat x - unat x mod 2 ^ k"
proof -
  have le: "take_bit k x \<le> x"
    by (simp add: unat_le_iff unat_take_bit_mod)
  have "x AND NOT (mask k) = x - take_bit k x"
    using bits_ident [of k x] by (simp add: and_not_mask_push_drop eq_diff_eq)
  with le show ?thesis
    by (simp add: unat_sub_le unat_take_bit_mod)
qed

lemma unat_drop_bit_div:
  fixes x :: "'a::len word"
  shows "unat (drop_bit k x) = unat x div 2 ^ k"
  using unat_drop_bit_eq [of k x] drop_bit_eq_div [of k "unat x"] by (rule trans)

lemma unat_two_power:
  assumes "k < LENGTH('a)"
  shows "unat (2 ^ k :: 'a::len word) = 2 ^ k"
  using assms by (simp add: of_nat_inverse)

lemma unat_mask:
  assumes "k < LENGTH('a)"
  shows "unat (mask k :: 'a::len word) = 2 ^ k - 1"
proof -
  have nz: "(2 :: 'a word) ^ k \<noteq> 0" using assms by simp
  show ?thesis
    by (simp only: mask_eq_decr_exp unat_minus_one [OF nz] unat_two_power [OF assms])
qed

lemma bit_unat: "bit (unat (x :: 'a::len word)) k = bit x k"
  by (simp add: bit_unsigned_iff)

lemma unat_ucast_mod: "unat (ucast (x :: 'a::len word) :: 'b::len word) = unat x mod 2 ^ LENGTH('b)"
  by (simp add: unsigned_ucast_eq take_bit_eq_mod)

section \<open>Positions in a ring\<close>

text \<open>The successor of a position computed by comparing with the capacity.\<close>

lemma ring_succ [ring_simps]:
  "(h :: nat) < c \<Longrightarrow> (if Suc h = c then 0 else Suc h) = Suc h mod c"
  by (auto simp: mod_Suc)

lemma ring_dist_lt: "0 < c \<Longrightarrow> (t + c - h) mod c < (c :: nat)"
  by simp

lemma ring_add_dist:
  assumes "(h :: nat) < c" and "t < c"
  shows "(h + (t + c - h) mod c) mod c = t"
  using assms by (simp add: mod_add_right_eq)

lemma ring_dist_inj:
  assumes "i < c" and "j < c" and "(h + i) mod c = (h + j) mod (c :: nat)"
  shows "i = j"
proof -
  define g where "g = h mod c"
  have "g < c" using assms(1) by (simp add: g_def)
  moreover have "(g + i) mod c = (g + j) mod c"
    using assms(3) by (simp add: g_def mod_add_left_eq)
  ultimately show ?thesis
    using assms(1,2) by (auto simp: mod_if split: if_splits)
qed

text \<open>
  The elements between a head and a tail position of a ring of \<open>c\<close> slots; one slot
  stays free, so equal positions mean the empty ring.
\<close>

definition ring_list :: "nat \<Rightarrow> nat \<Rightarrow> nat \<Rightarrow> 'a list \<Rightarrow> 'a list" where
  "ring_list c h t xs = map (\<lambda>i. xs ! ((h + i) mod c)) [0 ..< (t + c - h) mod c]"

lemma ring_dist_cases:
  assumes "(h :: nat) < c" and "t < c"
  shows "(t + c - h) mod c = (if h \<le> t then t - h else t + c - h)"
  using assms by (auto simp: mod_if)

lemma length_ring_list [simp]: "length (ring_list c h t xs) = (t + c - h) mod c"
  by (simp add: ring_list_def)

lemma ring_list_empty_iff:
  assumes "h < c" and "t < c"
  shows "ring_list c h t xs = [] \<longleftrightarrow> h = t"
  using assms by (auto simp: ring_list_def ring_dist_cases)

lemma ring_full_iff:
  assumes "h < c" and "t < c"
  shows "Suc t mod c = h \<longleftrightarrow> Suc ((t + c - h) mod c) = c"
  using assms by (auto simp: ring_dist_cases mod_Suc split: if_splits)

lemma ring_list_write:
  assumes h: "h < c" and t: "t < c"
  shows "ring_list c h t (xs[t := v]) = ring_list c h t xs"
proof -
  let ?n = "(t + c - h) mod c"
  have n: "?n < c" using h by simp
  have "(h + i) mod c \<noteq> t" if "i < ?n" for i
    using ring_dist_inj [of i c ?n h] ring_add_dist [OF h t] that n by auto
  then show ?thesis
    unfolding ring_list_def
    by (intro map_cong refl nth_list_update_neq) (metis atLeastLessThan_iff set_upt)
qed

lemma ring_list_push:
  assumes h: "h < c" and t: "t < c" and len: "length xs = c" and nf: "Suc t mod c \<noteq> h"
  shows "ring_list c h (Suc t mod c) (xs[t := v]) = ring_list c h t xs @ [v]"
proof -
  let ?n = "(t + c - h) mod c"
  have s: "(Suc t mod c + c - h) mod c = Suc ?n"
    using h t nf by (auto simp: ring_dist_cases mod_Suc split: if_splits)
  have "map (\<lambda>i. xs[t := v] ! ((h + i) mod c)) [0 ..< ?n] = ring_list c h t xs"
    using ring_list_write [OF h t, of xs v] by (simp add: ring_list_def)
  moreover have "(h + ?n) mod c = t" using h t by (rule ring_add_dist)
  ultimately show ?thesis
    using t len by (simp add: ring_list_def s)
qed

lemma ring_list_pop:
  assumes h: "h < c" and t: "t < c" and ne: "h \<noteq> t"
  shows "ring_list c h t xs = xs ! h # ring_list c (Suc h mod c) t xs"
proof -
  let ?m = "(t + c - Suc h mod c) mod c"
  have s: "(t + c - h) mod c = Suc ?m"
    using h t ne by (auto simp: ring_dist_cases mod_Suc split: if_splits)
  have "[0 ..< Suc ?m] = 0 # map Suc [0 ..< ?m]"
    by (simp add: map_Suc_upt upt_conv_Cons del: upt_Suc)
  then show ?thesis
    using h by (simp add: ring_list_def s mod_simps del: upt_Suc)
qed

text \<open>An access to an array that checks its bounds.\<close>

definition elem_at :: "'a list \<Rightarrow> nat \<Rightarrow> 'a option" where
  "elem_at xs i = (if i < length xs then Some (xs ! i) else None)"

end
