(* ===== verification/Round_Up.thy ===== *)
theory Round_Up
  imports Enso_Prelude
begin

text \<open>
  The integer helpers of \<^verbatim>\<open>mica/util/roundup.h\<close>: the test for a power of two, rounding up
  to a multiple of a power of two, and the next power of two. The template type
  \<^verbatim>\<open>T\<close> is a word of any width. A shift by the width of the type or more is undefined in
  C++; the recursion of \<^verbatim>\<open>next_power_of_two\<close> returns \<^const>\<open>None\<close> where the code would
  reach such a shift.
\<close>

definition is_power_of_two :: "'a::len word \<Rightarrow> bool" where
  "is_power_of_two x \<longleftrightarrow> x \<noteq> 0 \<and> x AND (x - 1) = 0"

definition roundup :: "'a::len word \<Rightarrow> 'a word \<Rightarrow> 'a word" where
  "roundup PowerOfTwoNumber x =
     (x + (PowerOfTwoNumber - 1)) AND (NOT (PowerOfTwoNumber - 1))"

function next_power_of_two_recursive :: "'a::len word \<Rightarrow> nat \<Rightarrow> 'a word option" where
  "next_power_of_two_recursive x s =
     (if LENGTH('a) \<le> s then None
      else if push_bit s 1 < x then next_power_of_two_recursive x (s + 1)
      else Some (push_bit s 1))"
  by pat_completeness auto
termination
  by (relation "measure (\<lambda>(x :: 'a word, s). LENGTH('a) - s)") auto

declare next_power_of_two_recursive.simps [simp del]

definition next_power_of_two :: "'a::len word \<Rightarrow> 'a word option" where
  "next_power_of_two x = next_power_of_two_recursive x 0"

section \<open>Rounding up\<close>

lemma roundup_unat:
  fixes x :: "'a::len word"
  assumes k: "k < LENGTH('a)" and no: "unat x + (2 ^ k - 1) < 2 ^ LENGTH('a)"
  shows "unat (roundup (2 ^ k) x) = (unat x + (2 ^ k - 1)) div 2 ^ k * 2 ^ k"
proof -
  have m: "unat (mask k :: 'a word) = 2 ^ k - 1"
    using k by (rule unat_mask)
  have "unat (x + mask k) = unat x + (2 ^ k - 1)"
    using no by (simp add: unat_add_no_overflow m)
  then show ?thesis
    by (simp add: roundup_def two_power_minus_one_mask unat_and_not_mask
        minus_mod_eq_div_mult)
qed

text \<open>The result is a multiple of the power of two, not below the argument and less
  than one unit above it.\<close>

lemma ceil_mult_bounds:
  assumes "0 < (p :: nat)"
  shows "n \<le> (n + (p - 1)) div p * p" and "(n + (p - 1)) div p * p < n + p"
proof -
  have d: "(n + (p - 1)) div p * p + (n + (p - 1)) mod p = n + (p - 1)"
    by simp
  have m: "(n + (p - 1)) mod p \<le> p - 1"
    using assms by (metis Suc_pred' less_Suc_eq_le mod_less_divisor)
  show "n \<le> (n + (p - 1)) div p * p" using d m by linarith
  show "(n + (p - 1)) div p * p < n + p" using d assms by linarith
qed

text \<open>
  \<^verbatim>\<open>roundup\<close> computes the least multiple of the power of two that is not below its
  argument, as long as the addition does not leave the type.
\<close>
theorem roundup_least_multiple:
  fixes x :: "'a::len word"
  assumes "k < LENGTH('a)" and "unat x + (2 ^ k - 1) < 2 ^ LENGTH('a)"
  shows "2 ^ k dvd unat (roundup (2 ^ k) x) \<and> unat x \<le> unat (roundup (2 ^ k) x)
     \<and> (\<forall>m. 2 ^ k dvd m \<and> unat x \<le> m \<longrightarrow> unat (roundup (2 ^ k) x) \<le> m)"
proof -
  let ?r = "(unat x + (2 ^ k - 1)) div 2 ^ k * (2 ^ k :: nat)"
  have least: "?r \<le> m" if "2 ^ k dvd m" and "unat x \<le> m" for m
  proof -
    from that(1) obtain q where q: "m = 2 ^ k * q" by (elim dvdE)
    have "?r < 2 ^ k * q + 2 ^ k"
      using ceil_mult_bounds(2) [of "2 ^ k" "unat x"] that(2) q by simp
    then have "2 ^ k * ((unat x + (2 ^ k - 1)) div 2 ^ k) < 2 ^ k * (q + 1)"
      by (simp add: algebra_simps)
    then have "(unat x + (2 ^ k - 1)) div 2 ^ k < q + 1"
      by (metis mult_less_cancel1)
    then show ?thesis by (simp add: q)
  qed
  show ?thesis
    using least ceil_mult_bounds(1) [of "2 ^ k" "unat x"] assms
    by (simp add: roundup_unat)
qed

theorem roundup_least_multiple_witness:
  "(3::nat) < LENGTH(64) \<and> unat (13 :: u64) + (2 ^ 3 - 1) < 2 ^ LENGTH(64)
   \<and> unat (13 :: u64) \<le> unat (roundup (2 ^ 3) (13 :: u64)) \<and> roundup (2 ^ 3) (13 :: u64) = 16"
  using roundup_least_multiple [of 3 "13 :: u64"] by (simp add: roundup_def)

section \<open>Powers of two\<close>

lemma bit_top:
  assumes "2 ^ k \<le> (n :: nat)" and "n < 2 ^ Suc k"
  shows "bit n k"
proof -
  have "n div 2 ^ k = 1"
    by (rule div_nat_eqI) (use assms in auto)
  then show ?thesis by (simp add: bit_iff_odd)
qed

lemma is_power_of_two_iff:
  fixes x :: "'a::len word"
  shows "is_power_of_two x \<longleftrightarrow> (\<exists>k < LENGTH('a). x = 2 ^ k)"
proof
  assume "\<exists>k < LENGTH('a). x = 2 ^ k"
  then obtain k where k: "k < LENGTH('a)" and x: "x = 2 ^ k"
    by auto
  have "x AND (x - 1) = 0"
    by (rule bit_word_eqI)
      (auto simp: x two_power_minus_one_mask bit_simps)
  moreover have "x \<noteq> 0" using k x by simp
  ultimately show "is_power_of_two x" by (simp add: is_power_of_two_def)
next
  assume p: "is_power_of_two x"
  then have nz: "x \<noteq> 0" and an: "x AND (x - 1) = 0" by (auto simp: is_power_of_two_def)
  define n where "n = unat x"
  from nz have "0 < n" by (simp add: n_def unat_gt_0)
  then obtain k where k: "2 ^ k \<le> n" "n < 2 ^ Suc k"
    using ex_power_ivl1 [of 2 n] by auto
  have "n < 2 ^ LENGTH('a)" by (simp add: n_def)
  with k(1) have "(2 :: nat) ^ k < 2 ^ LENGTH('a)" by linarith
  then have kl: "k < LENGTH('a)" by simp
  have "n = 2 ^ k"
  proof (rule ccontr)
    assume "n \<noteq> 2 ^ k"
    with k have "2 ^ k \<le> n - 1" "n - 1 < 2 ^ Suc k" by auto
    then have "bit (n - 1) k" by (rule bit_top)
    then have "bit (unat (x - 1)) k"
      using nz by (simp only: n_def unat_minus_one not_False_eq_True)
    then have "bit (x - 1) k" by (simp only: bit_unat)
    moreover have "bit x k" using bit_top [OF k] by (simp only: n_def bit_unat)
    ultimately have "bit (x AND (x - 1)) k" by (simp only: bit_and_iff)
    then show False by (simp only: an bit_0_eq) simp
  qed
  then have "x = 2 ^ k"
    by (metis kl n_def unat_two_power word_unat_eq_iff)
  with kl show "\<exists>k < LENGTH('a). x = 2 ^ k" by blast
qed

section \<open>The next power of two\<close>

lemma next_power_of_two_recursive_Some:
  fixes x :: "'a::len word"
  assumes "next_power_of_two_recursive x s = Some y"
    and "\<forall>j < s. 2 ^ j < x"
  shows "\<exists>k < LENGTH('a). y = 2 ^ k \<and> x \<le> y \<and> (\<forall>j < k. 2 ^ j < x)"
  using assms
proof (induction x s rule: next_power_of_two_recursive.induct)
  case (1 x s)
  consider "LENGTH('a) \<le> s" | "s < LENGTH('a)" "2 ^ s < x" | "s < LENGTH('a)" "\<not> 2 ^ s < x"
    by linarith
  then show ?case
    using 1 by cases (auto simp: next_power_of_two_recursive.simps [of x s] less_Suc_eq not_less)
qed

lemma next_power_of_two_recursive_defined:
  fixes x :: "'a::len word"
  assumes "s \<le> k" and "k < LENGTH('a)" and "x \<le> 2 ^ k"
  shows "next_power_of_two_recursive x s \<noteq> None"
  using assms
proof (induction x s rule: next_power_of_two_recursive.induct)
  case (1 x s)
  have "next_power_of_two_recursive x (s + 1) \<noteq> None" if "2 ^ s < x"
  proof -
    have "s \<noteq> k" using that "1.prems"(3) by auto
    with that "1.prems" "1.IH" show ?thesis by simp
  qed
  with "1.prems" show ?case
    by (auto simp: next_power_of_two_recursive.simps [of x s])
qed

text \<open>
  \<^verbatim>\<open>next_power_of_two\<close> returns, without an undefined shift, the least power of two
  that is not below its argument, whenever the type holds one; the result passes
  \<^verbatim>\<open>is_power_of_two\<close>.
\<close>
theorem next_power_of_two_least:
  fixes x :: "'a::len word"
  assumes "x \<le> 2 ^ (LENGTH('a) - 1)"
  shows "\<exists>y. next_power_of_two x = Some y \<and> is_power_of_two y \<and> x \<le> y
     \<and> (\<forall>z. is_power_of_two z \<and> x \<le> z \<longrightarrow> y \<le> z)"
proof -
  have "next_power_of_two x \<noteq> None"
    unfolding next_power_of_two_def
    by (rule next_power_of_two_recursive_defined [of _ "LENGTH('a) - 1"]) (use assms in auto)
  then obtain y where y: "next_power_of_two_recursive x 0 = Some y"
    by (auto simp: next_power_of_two_def)
  then obtain k where k: "k < LENGTH('a)" "y = 2 ^ k" "x \<le> y" "\<forall>j < k. 2 ^ j < x"
    using next_power_of_two_recursive_Some [of x 0 y] by auto
  have "y \<le> z" if z: "is_power_of_two z" "x \<le> z" for z
  proof -
    from z(1) obtain j where j: "j < LENGTH('a)" "z = 2 ^ j"
      by (auto simp: is_power_of_two_iff)
    with z(2) k(4) have "k \<le> j" by (meson leD leI)
    with j k show ?thesis by (simp add: unat_le_iff unat_two_power)
  qed
  moreover have "is_power_of_two y" using k by (auto simp: is_power_of_two_iff)
  ultimately show ?thesis using y k(3) by (auto simp: next_power_of_two_def)
qed

theorem next_power_of_two_least_witness:
  "(5 :: u8) \<le> 2 ^ (LENGTH(8) - 1) \<and>
   (\<exists>y. next_power_of_two (5 :: u8) = Some y \<and> is_power_of_two y \<and> (5 :: u8) \<le> y
     \<and> (\<forall>z. is_power_of_two z \<and> 5 \<le> z \<longrightarrow> y \<le> z))"
  using next_power_of_two_least [of "5 :: u8"] by simp

end
