(* ===== verification/Mica_Queue.thy ===== *)
theory Mica_Queue
  imports Enso_Prelude "HOL-Library.Monad_Syntax"
begin

text \<open>
  The bounded queues of \<^verbatim>\<open>mica/util/queue.h\<close>: the lock protected \<^verbatim>\<open>Queue\<close> and the
  \<^verbatim>\<open>SingleThreadedQueue\<close>. The template parameter \<^verbatim>\<open>Capacity\<close> is the argument \<open>c\<close>; positions are
  64-bit words, as \<^verbatim>\<open>size_t\<close> is. The first part runs each operation alone (an operation
  whose lock is taken would spin, which is the result \<^const>\<open>None\<close>); the theory
  \<open>Queue_Threads\<close> interleaves them.
\<close>

section \<open>Queue\<close>

record 'a mqueue =
  head_lock :: u8
  head_pos :: u64
  tail_lock :: u8
  tail_pos :: u64
  slots :: "'a list"

definition new_queue :: "'a list \<Rightarrow> 'a mqueue" where
  "new_queue garbage =
     \<lparr>head_lock = 0, head_pos = 0, tail_lock = 0, tail_pos = 0, slots = garbage\<rparr>"

definition next_pos :: "u64 \<Rightarrow> u64 \<Rightarrow> u64" where
  "next_pos c p = (let n = p + 1 in if n = c then 0 else n)"

definition approximate_empty :: "'a mqueue \<Rightarrow> bool" where
  "approximate_empty q \<longleftrightarrow> head_pos q = tail_pos q"

definition approximate_size :: "u64 \<Rightarrow> 'a mqueue \<Rightarrow> u64" where
  "approximate_size c q =
     (let size = tail_pos q - head_pos q in if size > c then size + c else size)"

definition enqueue :: "u64 \<Rightarrow> bool \<Rightarrow> 'a \<Rightarrow> 'a mqueue \<Rightarrow> (bool \<times> 'a mqueue) option" where
  "enqueue c mp v q =
     (if mp \<and> tail_lock q \<noteq> 0 then None
      else let tail = tail_pos q; tail_next = next_pos c tail in
        if tail_next = head_pos q then Some (False, q)
        else Some (True, q\<lparr>slots := (slots q)[unat tail := v], tail_pos := tail_next\<rparr>))"

definition dequeue :: "u64 \<Rightarrow> bool \<Rightarrow> 'a mqueue \<Rightarrow> ('a option \<times> 'a mqueue) option" where
  "dequeue c mc q =
     (if mc \<and> head_lock q \<noteq> 0 then None
      else let head = head_pos q; head_next = next_pos c head in
        if head = tail_pos q then Some (None, q)
        else Some (Some (slots q ! unat head), q\<lparr>head_pos := head_next\<rparr>))"

section \<open>SingleThreadedQueue\<close>

record 'a stqueue =
  st_head_pos :: u64
  st_tail_pos :: u64
  st_slots :: "'a list"

definition st_new :: "'a list \<Rightarrow> 'a stqueue" where
  "st_new garbage = \<lparr>st_head_pos = 0, st_tail_pos = 0, st_slots = garbage\<rparr>"

definition st_empty :: "'a stqueue \<Rightarrow> bool" where
  "st_empty q \<longleftrightarrow> st_head_pos q = st_tail_pos q"

definition st_full :: "u64 \<Rightarrow> 'a stqueue \<Rightarrow> bool" where
  "st_full c q \<longleftrightarrow>
     (let tail_next = st_tail_pos q + 1; tail_next = (if tail_next = c then 0 else tail_next)
      in tail_next = st_head_pos q)"

definition st_size :: "u64 \<Rightarrow> 'a stqueue \<Rightarrow> u64" where
  "st_size c q = (let size = st_tail_pos q - st_head_pos q in if size > c then size + c else size)"

definition st_head :: "'a stqueue \<Rightarrow> 'a" where
  "st_head q = st_slots q ! unat (st_head_pos q)"

definition st_pop_head :: "u64 \<Rightarrow> 'a stqueue \<Rightarrow> 'a stqueue" where
  "st_pop_head c q =
     q\<lparr>st_head_pos := (if st_head_pos q + 1 = c then 0 else st_head_pos q + 1)\<rparr>"

definition st_set_tail :: "'a \<Rightarrow> 'a stqueue \<Rightarrow> 'a stqueue" where
  "st_set_tail v q = q\<lparr>st_slots := (st_slots q)[unat (st_tail_pos q) := v]\<rparr>"

definition st_push_tail :: "u64 \<Rightarrow> 'a stqueue \<Rightarrow> 'a stqueue" where
  "st_push_tail c q =
     q\<lparr>st_tail_pos := (if st_tail_pos q + 1 = c then 0 else st_tail_pos q + 1)\<rparr>"

section \<open>Runs of queue operations\<close>

text \<open>
  A run of pushes (\<open>Some v\<close>) and pops (\<^const>\<open>None\<close>) and the answer of every call: whether
  a push was accepted, what a pop delivered. \<open>queue_run\<close> makes the calls of a \<^verbatim>\<open>Queue\<close>,
  \<open>fifo_run\<close> those of any queue whose calls always return.
\<close>

datatype 'a fifo_answer = Accepted bool | Taken "'a option"

fun fifo_run ::
  "('a \<Rightarrow> 'q \<Rightarrow> bool \<times> 'q) \<Rightarrow> ('q \<Rightarrow> 'a option \<times> 'q) \<Rightarrow> 'a option list \<Rightarrow> 'q
     \<Rightarrow> 'a fifo_answer list \<times> 'q" where
  "fifo_run push pop [] q = ([], q)"
| "fifo_run push pop (Some v # ops) q =
     (let (ok, q) = push v q; (answers, q) = fifo_run push pop ops q in (Accepted ok # answers, q))"
| "fifo_run push pop (None # ops) q =
     (let (r, q) = pop q; (answers, q) = fifo_run push pop ops q in (Taken r # answers, q))"

fun queue_run :: "u64 \<Rightarrow> bool \<Rightarrow> bool \<Rightarrow> 'a option list \<Rightarrow> 'a mqueue
     \<Rightarrow> ('a fifo_answer list \<times> 'a mqueue) option" where
  "queue_run c mp mc [] q = Some ([], q)"
| "queue_run c mp mc (Some v # ops) q =
     do { (ok, q) \<leftarrow> enqueue c mp v q; (answers, q) \<leftarrow> queue_run c mp mc ops q;
          Some (Accepted ok # answers, q) }"
| "queue_run c mp mc (None # ops) q =
     do { (r, q) \<leftarrow> dequeue c mc q; (answers, q) \<leftarrow> queue_run c mp mc ops q;
          Some (Taken r # answers, q) }"

text \<open>
  The reference: a list of at most \<open>room\<close> values. A push is accepted exactly when the list
  is shorter than that and appends its value; a pop takes the first value, and nothing
  exactly when there is none.
\<close>

fun list_run :: "nat \<Rightarrow> 'a option list \<Rightarrow> 'a list \<Rightarrow> 'a fifo_answer list \<times> 'a list" where
  "list_run room [] xs = ([], xs)"
| "list_run room (Some v # ops) xs =
     (let ok = length xs < room; (answers, xs) = list_run room ops (if ok then xs @ [v] else xs)
      in (Accepted ok # answers, xs))"
| "list_run room (None # ops) xs =
     (let (answers, ys) = list_run room ops (tl xs)
      in (Taken (if xs = [] then None else Some (hd xs)) # answers, ys))"

section \<open>What a bounded queue promises\<close>

text \<open>
  The interface the clients of both queues rely on. A push is accepted exactly when
  there is room and appends; a pop takes the oldest element.
\<close>

locale bounded_fifo =
  fixes push :: "'a \<Rightarrow> 'q \<Rightarrow> bool \<times> 'q"
    and pop :: "'q \<Rightarrow> 'a option \<times> 'q"
    and contents :: "'q \<Rightarrow> 'a list"
    and inv :: "'q \<Rightarrow> bool"
    and room :: nat
  assumes push_inv: "inv q \<Longrightarrow> inv (snd (push v q))"
    and pop_inv: "inv q \<Longrightarrow> inv (snd (pop q))"
    and push_full: "inv q \<Longrightarrow> room \<le> length (contents q) \<Longrightarrow> push v q = (False, q)"
    and push_room: "inv q \<Longrightarrow> length (contents q) < room \<Longrightarrow>
       fst (push v q) \<and> contents (snd (push v q)) = contents q @ [v]"
    and pop_empty: "inv q \<Longrightarrow> contents q = [] \<Longrightarrow> pop q = (None, q)"
    and pop_Cons: "inv q \<Longrightarrow> contents q = x # xs \<Longrightarrow>
       fst (pop q) = Some x \<and> contents (snd (pop q)) = xs"
begin

lemma push_list:
  assumes "inv q"
  shows "fst (push v q) \<longleftrightarrow> length (contents q) < room"
    and "contents (snd (push v q)) =
      (if length (contents q) < room then contents q @ [v] else contents q)"
  using push_full [OF assms, of v] push_room [OF assms, of v]
  by (cases "length (contents q) < room"; simp)+

lemma pop_list:
  assumes "inv q"
  shows "fst (pop q) = (if contents q = [] then None else Some (hd (contents q)))"
    and "contents (snd (pop q)) = tl (contents q)"
  using pop_empty [OF assms] pop_Cons [OF assms] by (cases "contents q"; simp)+

lemma run_list:
  "inv q \<Longrightarrow> (case fifo_run push pop ops q of (answers, q') \<Rightarrow>
     list_run room ops (contents q) = (answers, contents q') \<and> inv q')"
proof (induction ops arbitrary: q)
  case Nil
  then show ?case by simp
next
  case (Cons op ops)
  show ?case
  proof (cases op)
    case None
    then show ?thesis
      using Cons.IH [OF pop_inv [OF Cons.prems]] pop_list [OF Cons.prems]
      by (auto split: prod.splits simp: Let_def)
  next
    case (Some v)
    then show ?thesis
      using Cons.IH [OF push_inv [OF Cons.prems, of v]] push_list [OF Cons.prems, of v]
      by (auto split: prod.splits simp: Let_def)
  qed
qed

end

section \<open>Both queues keep the promise\<close>

lemma unat_next_pos:
  assumes "p < c"
  shows "unat (next_pos c p) = Suc (unat p) mod unat c" and "next_pos c p < c"
proof -
  have u: "unat (p + 1) = Suc (unat p)" using assms by (rule unat_Suc_bound)
  have lt: "unat p < unat c" using assms by (simp add: unat_lt_iff)
  have eq: "p + 1 = c \<longleftrightarrow> Suc (unat p) = unat c"
    by (simp add: word_unat_eq_iff u)
  show "unat (next_pos c p) = Suc (unat p) mod unat c"
    using ring_succ [OF lt] by (simp add: next_pos_def Let_def eq u split: if_splits)
  then show "next_pos c p < c"
    using lt by (simp add: unat_lt_iff)
qed

lemma next_pos_eq_iff:
  assumes "p < c" and "r < c"
  shows "next_pos c p = r \<longleftrightarrow> Suc (unat p) mod unat c = unat r"
  using unat_next_pos [OF assms(1)] by (simp add: word_unat_eq_iff)

definition queue_ok :: "u64 \<Rightarrow> 'a mqueue \<Rightarrow> bool" where
  "queue_ok c q \<longleftrightarrow> head_pos q < c \<and> tail_pos q < c \<and> length (slots q) = unat c"

definition queue_idle :: "u64 \<Rightarrow> 'a mqueue \<Rightarrow> bool" where
  "queue_idle c q \<longleftrightarrow> queue_ok c q \<and> head_lock q = 0 \<and> tail_lock q = 0"

definition queue_contents :: "u64 \<Rightarrow> 'a mqueue \<Rightarrow> 'a list" where
  "queue_contents c q =
     ring_list (unat c) (unat (head_pos q)) (unat (tail_pos q)) (slots q)"

definition queue_push :: "u64 \<Rightarrow> bool \<Rightarrow> 'a \<Rightarrow> 'a mqueue \<Rightarrow> bool \<times> 'a mqueue" where
  "queue_push c mp v q = (case enqueue c mp v q of Some r \<Rightarrow> r | None \<Rightarrow> (False, q))"

definition queue_pop :: "u64 \<Rightarrow> bool \<Rightarrow> 'a mqueue \<Rightarrow> 'a option \<times> 'a mqueue" where
  "queue_pop c mc q = (case dequeue c mc q of Some r \<Rightarrow> r | None \<Rightarrow> (None, q))"

lemma queue_okD:
  assumes "queue_ok c q"
  shows "unat (head_pos q) < unat c" and "unat (tail_pos q) < unat c"
    and "length (slots q) = unat c" and "head_pos q < c" and "tail_pos q < c"
  using assms by (auto simp: queue_ok_def unat_lt_iff)

lemma queue_contents_Nil_iff:
  assumes "queue_ok c q"
  shows "queue_contents c q = [] \<longleftrightarrow> head_pos q = tail_pos q"
  using queue_okD [OF assms]
  by (simp add: queue_contents_def ring_list_empty_iff word_unat_eq_iff)

lemma queue_full_iff:
  assumes "queue_ok c q"
  shows "next_pos c (tail_pos q) = head_pos q \<longleftrightarrow> unat c - 1 \<le> length (queue_contents c q)"
proof -
  note ok = queue_okD [OF assms]
  define n where "n = length (queue_contents c q)"
  have n: "n = (unat (tail_pos q) + unat c - unat (head_pos q)) mod unat c"
    by (simp add: n_def queue_contents_def)
  have lt: "n < unat c"
    using ok(1) by (simp add: n)
  have "next_pos c (tail_pos q) = head_pos q \<longleftrightarrow> Suc n = unat c"
    using next_pos_eq_iff [OF ok(5,4)] ring_full_iff [OF ok(1,2)] by (simp add: n)
  then show ?thesis
    using lt by (auto simp: n_def [symmetric])
qed

lemma queue_contents_write_push:
  assumes "queue_ok c q" and "next_pos c (tail_pos q) \<noteq> head_pos q"
  shows "queue_contents c (q\<lparr>slots := (slots q)[unat (tail_pos q) := v],
            tail_pos := next_pos c (tail_pos q)\<rparr>) = queue_contents c q @ [v]"
proof -
  note ok = queue_okD [OF assms(1)]
  have "Suc (unat (tail_pos q)) mod unat c \<noteq> unat (head_pos q)"
    using assms(2) next_pos_eq_iff [OF ok(5,4)] by simp
  then show ?thesis
    using ring_list_push [OF ok(1,2,3)] by (simp add: queue_contents_def unat_next_pos [OF ok(5)])
qed

lemma queue_contents_pop:
  assumes "queue_ok c q" and "head_pos q \<noteq> tail_pos q"
  shows "queue_contents c q = slots q ! unat (head_pos q) #
           queue_contents c (q\<lparr>head_pos := next_pos c (head_pos q)\<rparr>)"
proof -
  note ok = queue_okD [OF assms(1)]
  have "unat (head_pos q) \<noteq> unat (tail_pos q)"
    using assms(2) by (simp add: word_unat_eq_iff)
  then show ?thesis
    using ring_list_pop [OF ok(1,2)] by (simp add: queue_contents_def unat_next_pos [OF ok(4)])
qed

lemma queue_ok_push [inv_intros]:
  "queue_ok c q \<Longrightarrow> queue_ok c (q\<lparr>slots := (slots q)[k := v], tail_pos := next_pos c (tail_pos q)\<rparr>)"
  by (simp add: queue_ok_def unat_next_pos)

lemma queue_ok_pop [inv_intros]:
  "queue_ok c q \<Longrightarrow> queue_ok c (q\<lparr>head_pos := next_pos c (head_pos q)\<rparr>)"
  by (simp add: queue_ok_def unat_next_pos)

lemmas queue_op_defs = queue_push_def queue_pop_def enqueue_def dequeue_def Let_def

interpretation mq: bounded_fifo "queue_push c mp" "queue_pop c mc" "queue_contents c"
  "queue_idle c" "unat c - 1" for c mp mc
proof (unfold_locales, goal_cases)
  case (1 q v)
  then show ?case
    by (auto simp: queue_op_defs queue_idle_def intro: inv_intros)
next
  case (2 q)
  then show ?case
    by (auto simp: queue_op_defs queue_idle_def intro: inv_intros)
next
  case (3 q v)
  then show ?case
    by (simp add: queue_op_defs queue_idle_def queue_full_iff)
next
  case (4 q v)
  then have "queue_ok c q" and "next_pos c (tail_pos q) \<noteq> head_pos q" and "tail_lock q = 0"
    by (auto simp: queue_idle_def queue_full_iff)
  then show ?case
    by (simp add: queue_op_defs queue_contents_write_push)
next
  case (5 q)
  then show ?case
    by (simp add: queue_op_defs queue_idle_def queue_contents_Nil_iff)
next
  case (6 q x xs)
  then have ok: "queue_ok c q" and lk: "head_lock q = 0" by (auto simp: queue_idle_def)
  moreover have "head_pos q \<noteq> tail_pos q"
    using 6 queue_contents_Nil_iff [OF ok] by auto
  ultimately show ?case
    using 6 queue_contents_pop [OF ok] by (simp add: queue_op_defs)
qed

text \<open>The two classes run the same index arithmetic: a \<^verbatim>\<open>SingleThreadedQueue\<close> seen as a
  \<^verbatim>\<open>Queue\<close> with its locks free.\<close>

definition st_queue :: "'a stqueue \<Rightarrow> 'a mqueue" where
  "st_queue q = \<lparr>head_lock = 0, head_pos = st_head_pos q, tail_lock = 0,
                 tail_pos = st_tail_pos q, slots = st_slots q\<rparr>"

definition st_push :: "u64 \<Rightarrow> 'a \<Rightarrow> 'a stqueue \<Rightarrow> bool \<times> 'a stqueue" where
  "st_push c v q = (if st_full c q then (False, q) else (True, st_push_tail c (st_set_tail v q)))"

definition st_pop :: "u64 \<Rightarrow> 'a stqueue \<Rightarrow> 'a option \<times> 'a stqueue" where
  "st_pop c q = (if st_empty q then (None, q) else (Some (st_head q), st_pop_head c q))"

lemmas st_op_defs = st_push_def st_pop_def st_full_def st_empty_def st_push_tail_def
  st_set_tail_def st_pop_head_def st_head_def st_queue_def

lemma st_push_queue: "queue_push c False v (st_queue q) = map_prod id st_queue (st_push c v q)"
  by (simp add: st_op_defs queue_op_defs next_pos_def)

lemma st_pop_queue: "queue_pop c False (st_queue q) = map_prod id st_queue (st_pop c q)"
  by (simp add: st_op_defs queue_op_defs next_pos_def)

interpretation stq: bounded_fifo "st_push c" "st_pop c" "\<lambda>q. queue_contents c (st_queue q)"
  "\<lambda>q. queue_idle c (st_queue q)" "unat c - 1" for c
proof (unfold_locales, goal_cases)
  case (1 q v)
  then show ?case using mq.push_inv [of c "st_queue q" False v] by (simp add: st_push_queue)
next
  case (2 q)
  then show ?case using mq.pop_inv [of c "st_queue q" False] by (simp add: st_pop_queue)
next
  case (3 q v)
  then have "fst (queue_push c False v (st_queue q)) = False"
    using mq.push_full [of c "st_queue q" False v] by simp
  then show ?case by (simp add: st_push_queue) (simp add: st_push_def split: if_splits)
next
  case (4 q v)
  then show ?case using mq.push_room [of c "st_queue q" False v] by (simp add: st_push_queue)
next
  case (5 q)
  then have "fst (queue_pop c False (st_queue q)) = None"
    using mq.pop_empty [of c "st_queue q" False] by simp
  then show ?case by (simp add: st_pop_queue) (simp add: st_pop_def split: if_splits)
next
  case (6 q x xs)
  then show ?case using mq.pop_Cons [of c "st_queue q" x xs False] by (simp add: st_pop_queue)
qed

lemma st_queue_list:
  assumes "queue_idle c (st_queue q)"
  shows "fifo_run (st_push c) (st_pop c) ops q = (answers, q') \<Longrightarrow>
    list_run (unat c - 1) ops (queue_contents c (st_queue q)) =
      (answers, queue_contents c (st_queue q'))"
  using stq.run_list [OF assms, of ops] by simp

lemma queue_run_returns:
  "queue_idle c q \<Longrightarrow>
     queue_run c mp mc ops q = Some (fifo_run (queue_push c mp) (queue_pop c mc) ops q)"
proof (induction ops arbitrary: q)
  case Nil
  then show ?case by simp
next
  case (Cons op ops)
  have locks: "\<not> (mp \<and> tail_lock q \<noteq> 0)" "\<not> (mc \<and> head_lock q \<noteq> 0)"
    using Cons.prems by (auto simp: queue_idle_def)
  show ?case
  proof (cases op)
    case None
    obtain r q1 where p: "queue_pop c mc q = (r, q1)" by fastforce
    then have "dequeue c mc q = Some (r, q1)"
      using locks by (auto simp: queue_pop_def dequeue_def Let_def split: if_splits)
    then show ?thesis
      using p Cons.IH [OF mq.pop_inv [OF Cons.prems, of mc]] None by (simp split: prod.splits)
  next
    case (Some v)
    obtain ok q1 where p: "queue_push c mp v q = (ok, q1)" by fastforce
    then have "enqueue c mp v q = Some (ok, q1)"
      using locks by (auto simp: queue_push_def enqueue_def Let_def split: if_splits)
    then show ?thesis
      using p Cons.IH [OF mq.push_inv [OF Cons.prems, of mp v]] Some by (simp split: prod.splits)
  qed
qed

section \<open>Properties\<close>

text \<open>
  C26. Any sequence of \<^verbatim>\<open>enqueue\<close> and \<^verbatim>\<open>dequeue\<close> calls on a \<^verbatim>\<open>Queue\<close> whose locks are free
  returns, and answers exactly as a list of at most \<open>Capacity - 1\<close> values: an \<^verbatim>\<open>enqueue\<close>
  succeeds exactly when the list is shorter than that and appends, a \<^verbatim>\<open>dequeue\<close> reports
  empty exactly when there is no value and otherwise delivers the oldest; what is left in the
  queue is what is left in the list.
\<close>
theorem queue_fifo:
  assumes "queue_idle c q"
    and "list_run (unat c - 1) ops (queue_contents c q) = (answers, xs)"
  shows "\<exists>q'. queue_run c mp mc ops q = Some (answers, q') \<and> queue_contents c q' = xs \<and>
    queue_idle c q'"
  using mq.run_list [OF assms(1), of ops mp mc] queue_run_returns [OF assms(1), of mp mc ops]
    assms(2) by (auto split: prod.splits)

theorem queue_fifo_witness:
  "queue_idle 3 (new_queue [0, 0, 0 :: nat]) \<and>
   list_run 2 [Some 7, Some 8, Some 9, None, None, None] [] =
     ([Accepted True, Accepted True, Accepted False, Taken (Some 7), Taken (Some 8), Taken None], [])
   \<and> (\<exists>q'. queue_run 3 True True [Some 7, Some 8, Some 9, None, None, None]
         (new_queue [0, 0, 0 :: nat]) =
       Some ([Accepted True, Accepted True, Accepted False, Taken (Some 7), Taken (Some 8),
         Taken None], q') \<and> queue_contents 3 q' = [] \<and> queue_idle 3 q')"
proof -
  have idle: "queue_idle 3 (new_queue [0, 0, 0 :: nat])"
    by (simp add: queue_idle_def queue_ok_def new_queue_def)
  have c: "queue_contents 3 (new_queue [0, 0, 0 :: nat]) = []"
    by (simp add: queue_contents_def new_queue_def ring_list_def)
  have run: "list_run 2 [Some 7, Some 8, Some 9, None, None, None] ([] :: nat list) =
     ([Accepted True, Accepted True, Accepted False, Taken (Some 7), Taken (Some 8), Taken None], [])"
    by simp
  show ?thesis
    using queue_fifo [OF idle, of "[Some 7, Some 8, Some 9, None, None, None]"
      "[Accepted True, Accepted True, Accepted False, Taken (Some 7), Taken (Some 8), Taken None]"
      "[]" True True] idle run by (simp add: c)
qed

text \<open>
  \<^verbatim>\<open>approximate_size\<close> corrects the wrapped difference of the two positions to the
  number of elements, for every capacity below \<open>2 ^ 63\<close>.
\<close>
theorem approximate_size_exact:
  assumes "queue_ok c q" and "unat c < 2 ^ 63"
  shows "unat (approximate_size c q) = length (queue_contents c q)"
proof -
  define h t n where "h = unat (head_pos q)" and "t = unat (tail_pos q)" and "n = unat c"
  note defs = h_def t_def n_def
  have h: "h < n" and t: "t < n" and n: "n < 2 ^ 63"
    using queue_okD [OF assms(1)] assms(2) by (simp_all add: defs)
  have len: "length (queue_contents c q) = (if h \<le> t then t - h else t + n - h)"
    using h t by (simp add: queue_contents_def ring_dist_cases flip: defs)
  show ?thesis
  proof (cases "h \<le> t")
    case True
    then have d: "unat (tail_pos q - head_pos q) = t - h"
      unfolding defs by (intro unat_sub_le) (simp add: unat_le_iff)
    then have "\<not> c < tail_pos q - head_pos q"
      using t by (simp add: unat_lt_iff flip: n_def)
    with True d len show ?thesis by (simp add: approximate_size_def Let_def)
  next
    case False
    then have d: "unat (tail_pos q - head_pos q) = 2 ^ 64 + t - h"
      by (simp add: unat_sub_if' flip: defs)
    have big: "c < tail_pos q - head_pos q"
      unfolding unat_lt_iff d n_def [symmetric] using h n by simp
    have "unat (tail_pos q - head_pos q + c) = (2 ^ 64 + t - h + n) mod 2 ^ 64"
      by (simp only: unat_word_ariths d n_def [symmetric]) simp
    also have "2 ^ 64 + t - h + n = 2 ^ 64 + (t + n - h)"
      using h n by simp
    also have "\<dots> mod 2 ^ 64 = (t + n - h) mod 2 ^ 64"
      by (rule mod_add_self1)
    also have "\<dots> = t + n - h"
      by (rule mod_less) (use h n False in simp)
    finally show ?thesis
      using big False len by (simp add: approximate_size_def Let_def)
  qed
qed

theorem approximate_size_exact_witness:
  "queue_ok 4 \<lparr>head_lock = 0, head_pos = 3, tail_lock = 0, tail_pos = 1, slots = [10, 11, 12, 13 :: nat]\<rparr>
   \<and> unat (4 :: u64) < 2 ^ 63
   \<and> unat (approximate_size 4 \<lparr>head_lock = 0, head_pos = 3, tail_lock = 0, tail_pos = 1,
        slots = [10, 11, 12, 13 :: nat]\<rparr>) = length [13 :: nat, 10]"
proof -
  let ?q = "\<lparr>head_lock = 0, head_pos = 3, tail_lock = 0, tail_pos = 1, slots = [10, 11, 12, 13 :: nat]\<rparr>"
  have ok: "queue_ok 4 ?q" by (simp add: queue_ok_def)
  have "queue_contents 4 ?q = [13, 10]"
    by (simp add: queue_contents_def ring_list_def upt_rec)
  then show ?thesis
    using approximate_size_exact [OF ok] ok by simp
qed

end
