(* ===== verification/Queue_Threads.thy ===== *)
theory Queue_Threads
  imports Mica_Queue
begin

text \<open>
  \<^verbatim>\<open>Queue::enqueue\<close> and \<^verbatim>\<open>Queue::dequeue\<close> run by any number of threads. One rule per access of
  shared memory, in the order of the statements of the code: the compare-and-swap on the
  lock, the read of the own position, the test against the other position, the access of
  the slot, the store of the new position, the release of the lock. With
  \<^verbatim>\<open>MultipleProducer = false\<close> (\<^verbatim>\<open>MultipleConsumer = false\<close>) no lock is taken and only thread
  0 may call the operation, which is what the template parameter asks of the caller.
  Accesses are taken as sequentially consistent. The fields \<open>accepted\<close> and \<open>delivered\<close>
  record the history and are not part of the code.
\<close>

datatype 'a producer =
    PIdle
  | PSpin 'a
  | PRead 'a
  | PCheck 'a u64
  | PWrite 'a u64
  | PPublish 'a u64
  | PUnlock bool

datatype 'a consumer =
    CIdle
  | CSpin
  | CRead
  | CCheck u64
  | CTake u64
  | CPublish 'a u64
  | CUnlock "'a option"

record 'a threads =
  que :: "'a mqueue"
  prods :: "nat \<Rightarrow> 'a producer"
  conss :: "nat \<Rightarrow> 'a consumer"
  accepted :: "'a list"
  delivered :: "'a list"

inductive queue_step :: "u64 \<Rightarrow> bool \<Rightarrow> bool \<Rightarrow> 'a threads \<Rightarrow> 'a threads \<Rightarrow> bool"
  for c :: u64 and mp mc :: bool where
  p_call: "prods s i = PIdle \<Longrightarrow> mp \<or> i = 0 \<Longrightarrow>
     queue_step c mp mc s (s\<lparr>prods := (prods s)(i := PSpin v)\<rparr>)"
| p_lock: "prods s i = PSpin v \<Longrightarrow> mp \<Longrightarrow> tail_lock (que s) = 0 \<Longrightarrow>
     queue_step c mp mc s (s\<lparr>que := (que s)\<lparr>tail_lock := 1\<rparr>, prods := (prods s)(i := PRead v)\<rparr>)"
| p_no_lock: "prods s i = PSpin v \<Longrightarrow> \<not> mp \<Longrightarrow>
     queue_step c mp mc s (s\<lparr>prods := (prods s)(i := PRead v)\<rparr>)"
| p_read: "prods s i = PRead v \<Longrightarrow>
     queue_step c mp mc s (s\<lparr>prods := (prods s)(i := PCheck v (tail_pos (que s)))\<rparr>)"
| p_full: "prods s i = PCheck v t \<Longrightarrow> next_pos c t = head_pos (que s) \<Longrightarrow>
     queue_step c mp mc s (s\<lparr>prods := (prods s)(i := PUnlock False)\<rparr>)"
| p_room: "prods s i = PCheck v t \<Longrightarrow> next_pos c t \<noteq> head_pos (que s) \<Longrightarrow>
     queue_step c mp mc s (s\<lparr>prods := (prods s)(i := PWrite v t)\<rparr>)"
| p_write: "prods s i = PWrite v t \<Longrightarrow>
     queue_step c mp mc s (s\<lparr>que := (que s)\<lparr>slots := (slots (que s))[unat t := v]\<rparr>,
                             prods := (prods s)(i := PPublish v t)\<rparr>)"
| p_publish: "prods s i = PPublish v t \<Longrightarrow>
     queue_step c mp mc s (s\<lparr>que := (que s)\<lparr>tail_pos := next_pos c t\<rparr>,
                             prods := (prods s)(i := PUnlock True),
                             accepted := accepted s @ [v]\<rparr>)"
| p_unlock: "prods s i = PUnlock b \<Longrightarrow>
     queue_step c mp mc s (s\<lparr>que := (if mp then (que s)\<lparr>tail_lock := 0\<rparr> else que s),
                             prods := (prods s)(i := PIdle)\<rparr>)"
| c_call: "conss s i = CIdle \<Longrightarrow> mc \<or> i = 0 \<Longrightarrow>
     queue_step c mp mc s (s\<lparr>conss := (conss s)(i := CSpin)\<rparr>)"
| c_lock: "conss s i = CSpin \<Longrightarrow> mc \<Longrightarrow> head_lock (que s) = 0 \<Longrightarrow>
     queue_step c mp mc s (s\<lparr>que := (que s)\<lparr>head_lock := 1\<rparr>, conss := (conss s)(i := CRead)\<rparr>)"
| c_no_lock: "conss s i = CSpin \<Longrightarrow> \<not> mc \<Longrightarrow>
     queue_step c mp mc s (s\<lparr>conss := (conss s)(i := CRead)\<rparr>)"
| c_read: "conss s i = CRead \<Longrightarrow>
     queue_step c mp mc s (s\<lparr>conss := (conss s)(i := CCheck (head_pos (que s)))\<rparr>)"
| c_empty: "conss s i = CCheck h \<Longrightarrow> h = tail_pos (que s) \<Longrightarrow>
     queue_step c mp mc s (s\<lparr>conss := (conss s)(i := CUnlock None)\<rparr>)"
| c_some: "conss s i = CCheck h \<Longrightarrow> h \<noteq> tail_pos (que s) \<Longrightarrow>
     queue_step c mp mc s (s\<lparr>conss := (conss s)(i := CTake h)\<rparr>)"
| c_take: "conss s i = CTake h \<Longrightarrow>
     queue_step c mp mc s (s\<lparr>conss := (conss s)(i := CPublish (slots (que s) ! unat h) h)\<rparr>)"
| c_publish: "conss s i = CPublish v h \<Longrightarrow>
     queue_step c mp mc s (s\<lparr>que := (que s)\<lparr>head_pos := next_pos c h\<rparr>,
                             conss := (conss s)(i := CUnlock (Some v)),
                             delivered := delivered s @ [v]\<rparr>)"
| c_unlock: "conss s i = CUnlock r \<Longrightarrow>
     queue_step c mp mc s (s\<lparr>que := (if mc then (que s)\<lparr>head_lock := 0\<rparr> else que s),
                             conss := (conss s)(i := CIdle)\<rparr>)"

definition start_threads :: "'a list \<Rightarrow> 'a threads" where
  "start_threads garbage = \<lparr>que = new_queue garbage, prods = (\<lambda>_. PIdle), conss = (\<lambda>_. CIdle),
     accepted = [], delivered = []\<rparr>"

inductive queue_reachable :: "u64 \<Rightarrow> bool \<Rightarrow> bool \<Rightarrow> 'a list \<Rightarrow> 'a threads \<Rightarrow> bool"
  for c :: u64 and mp mc :: bool and garbage :: "'a list" where
  start: "queue_reachable c mp mc garbage (start_threads garbage)"
| step: "queue_reachable c mp mc garbage s \<Longrightarrow> queue_step c mp mc s s' \<Longrightarrow>
     queue_reachable c mp mc garbage s'"

section \<open>The invariant\<close>

text \<open>What each program point knows of the queue, and which points hold the lock.\<close>

fun p_inside :: "'a producer \<Rightarrow> bool" where
  "p_inside PIdle = False"
| "p_inside (PSpin v) = False"
| "p_inside _ = True"

fun c_inside :: "'a consumer \<Rightarrow> bool" where
  "c_inside CIdle = False"
| "c_inside CSpin = False"
| "c_inside _ = True"

fun p_knows :: "u64 \<Rightarrow> 'a mqueue \<Rightarrow> 'a producer \<Rightarrow> bool" where
  "p_knows c q (PCheck v t) \<longleftrightarrow> t = tail_pos q"
| "p_knows c q (PWrite v t) \<longleftrightarrow> t = tail_pos q \<and> next_pos c t \<noteq> head_pos q"
| "p_knows c q (PPublish v t) \<longleftrightarrow>
     t = tail_pos q \<and> next_pos c t \<noteq> head_pos q \<and> slots q ! unat t = v"
| "p_knows c q _ \<longleftrightarrow> True"

fun c_knows :: "u64 \<Rightarrow> 'a mqueue \<Rightarrow> 'a consumer \<Rightarrow> bool" where
  "c_knows c q (CCheck h) \<longleftrightarrow> h = head_pos q"
| "c_knows c q (CTake h) \<longleftrightarrow> h = head_pos q \<and> h \<noteq> tail_pos q"
| "c_knows c q (CPublish v h) \<longleftrightarrow>
     h = head_pos q \<and> h \<noteq> tail_pos q \<and> slots q ! unat h = v"
| "c_knows c q _ \<longleftrightarrow> True"

definition p_excl :: "bool \<Rightarrow> 'a threads \<Rightarrow> bool" where
  "p_excl mp s \<longleftrightarrow>
     (\<forall>i j. p_inside (prods s i) \<and> p_inside (prods s j) \<longrightarrow> i = j) \<and>
     (mp \<longrightarrow> (\<exists>i. p_inside (prods s i)) \<longrightarrow> tail_lock (que s) \<noteq> 0) \<and>
     (\<not> mp \<longrightarrow> (\<forall>i. prods s i \<noteq> PIdle \<longrightarrow> i = 0))"

definition c_excl :: "bool \<Rightarrow> 'a threads \<Rightarrow> bool" where
  "c_excl mc s \<longleftrightarrow>
     (\<forall>i j. c_inside (conss s i) \<and> c_inside (conss s j) \<longrightarrow> i = j) \<and>
     (mc \<longrightarrow> (\<exists>i. c_inside (conss s i)) \<longrightarrow> head_lock (que s) \<noteq> 0) \<and>
     (\<not> mc \<longrightarrow> (\<forall>i. conss s i \<noteq> CIdle \<longrightarrow> i = 0))"

definition knows_all :: "u64 \<Rightarrow> 'a threads \<Rightarrow> bool" where
  "knows_all c s \<longleftrightarrow>
     (\<forall>i. p_knows c (que s) (prods s i)) \<and> (\<forall>i. c_knows c (que s) (conss s i))"

definition threads_inv :: "u64 \<Rightarrow> bool \<Rightarrow> bool \<Rightarrow> 'a threads \<Rightarrow> bool" where
  "threads_inv c mp mc s \<longleftrightarrow> queue_ok c (que s) \<and> p_excl mp s \<and> c_excl mc s \<and> knows_all c s
     \<and> accepted s = delivered s @ queue_contents c (que s)"

lemma p_excl_step: "queue_step c mp mc s s' \<Longrightarrow> p_excl mp s \<Longrightarrow> p_excl mp s'"
  by (induction rule: queue_step.induct)
    (unfold p_excl_def, (simp; (metis p_inside.simps(1,2,3,4,5,6,7) producer.distinct(1)))+)

lemma c_excl_step: "queue_step c mp mc s s' \<Longrightarrow> c_excl mc s \<Longrightarrow> c_excl mc s'"
  by (induction rule: queue_step.induct)
    (unfold c_excl_def, (simp; (metis c_inside.simps consumer.distinct(1)))+)

lemma next_pos_inj:
  assumes "p < c" and "r < c"
  shows "next_pos c p = next_pos c r \<longleftrightarrow> p = r"
proof
  assume "next_pos c p = next_pos c r"
  then have "(1 + unat p) mod unat c = (1 + unat r) mod unat c"
    using unat_next_pos [OF assms(1)] unat_next_pos [OF assms(2)] by (metis Suc_eq_plus1_left)
  then have "unat p = unat r"
    by (rule ring_dist_inj [rotated 2]) (use assms in \<open>simp_all add: unat_lt_iff\<close>)
  then show "p = r" by (simp add: word_unat_eq_iff)
qed simp

lemma p_knows_outside: "\<not> p_inside p \<Longrightarrow> p_knows c q p"
  by (cases p) auto

lemma c_knows_outside: "\<not> c_inside p \<Longrightarrow> c_knows c q p"
  by (cases p) auto

lemma knows_locks [simp]:
  "p_knows c (q\<lparr>tail_lock := x\<rparr>) p = p_knows c q p"
  "p_knows c (q\<lparr>head_lock := x\<rparr>) p = p_knows c q p"
  "c_knows c (q\<lparr>tail_lock := x\<rparr>) r = c_knows c q r"
  "c_knows c (q\<lparr>head_lock := x\<rparr>) r = c_knows c q r"
  by (cases p; cases r; simp)+

lemma c_knows_write:
  assumes "c_knows c q r" and "queue_ok c q" and "t = tail_pos q"
  shows "c_knows c (q\<lparr>slots := (slots q)[unat t := v]\<rparr>) r"
  using assms by (cases r) (auto simp: nth_list_update_neq word_unat_eq_iff)

lemma c_knows_publish:
  assumes "c_knows c q r" and "next_pos c (tail_pos q) \<noteq> head_pos q"
  shows "c_knows c (q\<lparr>tail_pos := next_pos c (tail_pos q)\<rparr>) r"
  using assms by (cases r) auto

lemma p_knows_publish:
  assumes "p_knows c q p" and "queue_ok c q" and "head_pos q \<noteq> tail_pos q"
  shows "p_knows c (q\<lparr>head_pos := next_pos c (head_pos q)\<rparr>) p"
  using assms by (cases p) (auto simp: queue_ok_def next_pos_inj)

lemma threads_inv_others:
  assumes "threads_inv c mp mc s"
  shows "p_inside (prods s i) \<Longrightarrow> j \<noteq> i \<Longrightarrow> p_knows c q (prods s j)"
    and "c_inside (conss s i) \<Longrightarrow> j \<noteq> i \<Longrightarrow> c_knows c q (conss s j)"
  using assms by (auto simp: threads_inv_def p_excl_def c_excl_def
      intro!: p_knows_outside c_knows_outside)

lemma threads_invD:
  assumes "threads_inv c mp mc s"
  shows "queue_ok c (que s)" and "p_knows c (que s) (prods s i)" and "c_knows c (que s) (conss s i)"
  using assms by (auto simp: threads_inv_def knows_all_def)

lemma knows_all_step:
  assumes "queue_step c mp mc s s'" and "threads_inv c mp mc s"
  shows "knows_all c s'"
  using assms
proof (induction rule: queue_step.induct)
  case (p_write s i v t)
  note inv = threads_invD [OF p_write.prems]
  have t: "t = tail_pos (que s)" "next_pos c t \<noteq> head_pos (que s)"
    using inv(2) [of i] p_write.hyps by auto
  have "unat t < length (slots (que s))"
    using t queue_okD [OF inv(1)] by simp
  then show ?case
    using t inv c_knows_write [OF inv(3) inv(1) t(1)] p_write.hyps
      threads_inv_others(1) [OF p_write.prems, of i]
    by (auto simp: knows_all_def)
next
  case (p_publish s i v t)
  note inv = threads_invD [OF p_publish.prems]
  have t: "t = tail_pos (que s)" "next_pos c t \<noteq> head_pos (que s)"
    using inv(2) [of i] p_publish.hyps by auto
  then show ?case
    using inv c_knows_publish [OF inv(3)] p_publish.hyps
      threads_inv_others(1) [OF p_publish.prems, of i]
    by (auto simp: knows_all_def)
next
  case (c_publish s i v h)
  note inv = threads_invD [OF c_publish.prems]
  have h: "h = head_pos (que s)" "h \<noteq> tail_pos (que s)"
    using inv(3) [of i] c_publish.hyps by auto
  then show ?case
    using inv p_knows_publish [OF inv(2) inv(1)] c_publish.hyps
      threads_inv_others(2) [OF c_publish.prems, of i]
    by (auto simp: knows_all_def)
next
  case (p_room s i v t)
  then show ?case
    using threads_invD(2) [OF p_room.prems, of i] by (auto simp: threads_inv_def knows_all_def)
next
  case (c_some s i h)
  then show ?case
    using threads_invD(3) [OF c_some.prems, of i] by (auto simp: threads_inv_def knows_all_def)
next
  case (c_take s i h)
  then show ?case
    using threads_invD(3) [OF c_take.prems, of i] by (auto simp: threads_inv_def knows_all_def)
qed (auto simp: threads_inv_def knows_all_def)

lemma queue_contents_locks [simp]:
  "queue_contents c (q\<lparr>tail_lock := x\<rparr>) = queue_contents c q"
  "queue_contents c (q\<lparr>head_lock := x\<rparr>) = queue_contents c q"
  "queue_ok c (q\<lparr>tail_lock := x\<rparr>) = queue_ok c q"
  "queue_ok c (q\<lparr>head_lock := x\<rparr>) = queue_ok c q"
  by (simp_all add: queue_contents_def queue_ok_def)

lemma queue_contents_write:
  assumes "queue_ok c q"
  shows "queue_contents c (q\<lparr>slots := (slots q)[unat (tail_pos q) := v]\<rparr>) = queue_contents c q"
  using ring_list_write [OF queue_okD(1) [OF assms] queue_okD(2) [OF assms]] by (simp add: queue_contents_def)

text \<open>Writing the slot and storing the position later is one push.\<close>

lemma queue_contents_publish:
  assumes "queue_ok c q" and "next_pos c (tail_pos q) \<noteq> head_pos q"
    and "slots q ! unat (tail_pos q) = v"
  shows "queue_contents c (q\<lparr>tail_pos := next_pos c (tail_pos q)\<rparr>) = queue_contents c q @ [v]"
proof -
  have "(slots q)[unat (tail_pos q) := v] = slots q"
    using assms(3) by (metis list_update_id)
  then have "q\<lparr>slots := (slots q)[unat (tail_pos q) := v], tail_pos := next_pos c (tail_pos q)\<rparr>
      = q\<lparr>tail_pos := next_pos c (tail_pos q)\<rparr>"
    by (cases q) simp
  then show ?thesis
    using queue_contents_write_push [OF assms(1,2), of v] by simp
qed

lemma history_step:
  assumes "queue_step c mp mc s s'" and "threads_inv c mp mc s"
  shows "queue_ok c (que s') \<and> accepted s' = delivered s' @ queue_contents c (que s')"
  using assms
proof (induction rule: queue_step.induct)
  case (p_write s i v t)
  note inv = threads_invD [OF p_write.prems]
  have "t = tail_pos (que s)" using inv(2) [of i] p_write.hyps by auto
  then show ?case
    using p_write.prems by (simp add: threads_inv_def queue_contents_write) (simp add: queue_ok_def)
next
  case (p_publish s i v t)
  note inv = threads_invD [OF p_publish.prems]
  have t: "t = tail_pos (que s)" "next_pos c t \<noteq> head_pos (que s)" "slots (que s) ! unat t = v"
    using inv(2) [of i] p_publish.hyps by auto
  then show ?case
    using p_publish.prems queue_contents_publish [OF inv(1)]
    by (simp add: threads_inv_def) (simp add: queue_ok_def unat_next_pos)
next
  case (c_publish s i v h)
  note inv = threads_invD [OF c_publish.prems]
  have h: "h = head_pos (que s)" "h \<noteq> tail_pos (que s)" "slots (que s) ! unat h = v"
    using inv(3) [of i] c_publish.hyps by auto
  then show ?case
    using c_publish.prems queue_contents_pop [OF inv(1)] queue_ok_pop [OF inv(1)]
    by (simp add: threads_inv_def)
qed (auto simp: threads_inv_def)

lemma threads_inv_step:
  "queue_step c mp mc s s' \<Longrightarrow> threads_inv c mp mc s \<Longrightarrow> threads_inv c mp mc s'"
  using p_excl_step c_excl_step knows_all_step history_step
  by (metis threads_inv_def)

lemma threads_inv_reachable:
  assumes "queue_reachable c mp mc garbage s" and "0 < c" and "length garbage = unat c"
  shows "threads_inv c mp mc s"
  using assms
proof (induction rule: queue_reachable.induct)
  case start
  then show ?case
    by (simp add: threads_inv_def start_threads_def new_queue_def queue_ok_def p_excl_def
        c_excl_def knows_all_def queue_contents_def ring_list_def)
next
  case (step s s')
  then show ?case by (blast intro: threads_inv_step)
qed

text \<open>
  C14. Whatever the number of threads and however their accesses interleave, the values
  delivered by \<^verbatim>\<open>dequeue\<close> followed by those still in the queue are the values accepted by
  \<^verbatim>\<open>enqueue\<close>, in the order of acceptance: none lost, duplicated or reordered; and at most one
  producer and one consumer are ever between taking and releasing their lock.
\<close>
theorem queue_threads_linear:
  assumes "queue_reachable c mp mc garbage s" and "0 < c" and "length garbage = unat c"
  shows "accepted s = delivered s @ queue_contents c (que s)
     \<and> length (queue_contents c (que s)) < unat c
     \<and> (p_inside (prods s i) \<and> p_inside (prods s j) \<longrightarrow> i = j)
     \<and> (c_inside (conss s i) \<and> c_inside (conss s j) \<longrightarrow> i = j)"
proof -
  have inv: "threads_inv c mp mc s" using assms by (rule threads_inv_reachable)
  have "length (queue_contents c (que s)) < unat c"
    using threads_invD(1) [OF inv] queue_okD(1) by (fastforce simp: queue_contents_def)
  with inv show ?thesis
    by (simp add: threads_inv_def p_excl_def c_excl_def)
qed

section \<open>One thread alone computes the sequential operation\<close>

text \<open>
  The rules refine the sequential functions: a thread that runs a whole operation with no
  other step in between changes the queue as \<^const>\<open>enqueue\<close> and \<^const>\<open>dequeue\<close> do.
\<close>

declare rtranclp.rtrancl_into_rtrancl [trans]

lemma solo_enqueue:
  assumes idle: "prods s i = PIdle" and may: "mp \<or> i = 0"
    and e: "enqueue c mp v (que s) = Some (b, q')" and free: "tail_lock (que s) = 0"
  shows "(queue_step c mp mc)\<^sup>*\<^sup>* s
     (s\<lparr>que := q', accepted := (if b then accepted s @ [v] else accepted s)\<rparr>)"
proof -
  let ?st = "queue_step c mp mc" and ?q = "que s"
  let ?l = "if mp then ?q\<lparr>tail_lock := 1\<rparr> else ?q" and ?t = "tail_pos ?q"
  let ?w = "?l\<lparr>slots := (slots ?q)[unat ?t := v]\<rparr>"
  let ?p = "?w\<lparr>tail_pos := next_pos c ?t\<rparr>"
  define at where "at p q a = s\<lparr>que := q, prods := (prods s)(i := p), accepted := a\<rparr>" for p q a
  have upd [simp]: "(at p q a)\<lparr>prods := (prods (at p q a))(i := p')\<rparr> = at p' q a"
    "prods (at p q a) i = p" "que (at p q a) = q" "accepted (at p q a) = a"
    "(at p q a)\<lparr>que := q', prods := (prods (at p q a))(i := p')\<rparr> = at p' q' a"
    "(at p q a)\<lparr>accepted := a'\<rparr> = at p q a'"
    for p p' q q' a a' by (simp_all add: at_def)
  have unl: "mp \<Longrightarrow> ?l\<lparr>tail_lock := 0\<rparr> = ?q"
    "mp \<Longrightarrow> ?p\<lparr>tail_lock := 0\<rparr> = ?q\<lparr>slots := (slots ?q)[unat ?t := v], tail_pos := next_pos c ?t\<rparr>"
    using free by (cases ?q; simp)+
  have s: "at PIdle ?q (accepted s) = s" using idle by (simp add: at_def fun_upd_idem)
  have "?st\<^sup>*\<^sup>* s (at PIdle ?q (accepted s))" by (simp add: s)
  also have "?st (at PIdle ?q (accepted s)) (at (PSpin v) ?q (accepted s))"
    using p_call [of "at PIdle ?q (accepted s)" i mp c mc v] may by simp
  also have "?st (at (PSpin v) ?q (accepted s)) (at (PRead v) ?l (accepted s))"
    using p_lock [of "at (PSpin v) ?q (accepted s)" i v mp c mc]
      p_no_lock [of "at (PSpin v) ?q (accepted s)" i v mp c mc] free by (cases mp) simp_all
  also have "?st (at (PRead v) ?l (accepted s)) (at (PCheck v ?t) ?l (accepted s))"
    using p_read [of "at (PRead v) ?l (accepted s)" i v c mp mc] by (cases mp) simp_all
  finally have check: "?st\<^sup>*\<^sup>* s (at (PCheck v ?t) ?l (accepted s))" .
  show ?thesis
  proof (cases "next_pos c ?t = head_pos ?q")
    case True
    note check
    also have "?st (at (PCheck v ?t) ?l (accepted s)) (at (PUnlock False) ?l (accepted s))"
      using p_full [of "at (PCheck v ?t) ?l (accepted s)" i v ?t c mp mc] True
      by (cases mp) simp_all
    also have "?st (at (PUnlock False) ?l (accepted s)) (at PIdle ?q (accepted s))"
      using p_unlock [of "at (PUnlock False) ?l (accepted s)" i False c mp mc] unl(1)
      by (cases mp) simp_all
    finally have "?st\<^sup>*\<^sup>* s s" by (simp only: s)
    moreover have "q' = ?q" and "\<not> b"
      using True e free by (auto simp: enqueue_def Let_def)
    ultimately show ?thesis by simp
  next
    case False
    have "tail_lock q' = 0"
      using False e free by (auto simp: enqueue_def Let_def split: if_splits)
    then have q0: "q'\<lparr>tail_lock := 0\<rparr> = q'" by (cases q') simp
    note check
    also have "?st (at (PCheck v ?t) ?l (accepted s)) (at (PWrite v ?t) ?l (accepted s))"
      using p_room [of "at (PCheck v ?t) ?l (accepted s)" i v ?t c mp mc] False
      by (cases mp) simp_all
    also have "?st (at (PWrite v ?t) ?l (accepted s)) (at (PPublish v ?t) ?w (accepted s))"
      using p_write [of "at (PWrite v ?t) ?l (accepted s)" i v ?t c mp mc] by (cases mp) simp_all
    also have "?st (at (PPublish v ?t) ?w (accepted s)) (at (PUnlock True) ?p (accepted s @ [v]))"
      using p_publish [of "at (PPublish v ?t) ?w (accepted s)" i v ?t c mp mc]
      by (cases mp) simp_all
    also have "?st (at (PUnlock True) ?p (accepted s @ [v])) (at PIdle q' (accepted s @ [v]))"
      using p_unlock [of "at (PUnlock True) ?p (accepted s @ [v])" i True c mp mc] unl(2) q0 free False e
      by (cases mp) (simp_all add: enqueue_def Let_def)
    finally show ?thesis
      using False e free idle by (simp add: enqueue_def Let_def at_def fun_upd_idem)
  qed
qed

lemma reachable_steps:
  "(queue_step c mp mc)\<^sup>*\<^sup>* s t \<Longrightarrow> queue_reachable c mp mc garbage s \<Longrightarrow>
   queue_reachable c mp mc garbage t"
  by (induction rule: rtranclp_induct) (auto intro: queue_reachable.step)

theorem queue_threads_linear_witness:
  "\<exists>s. queue_reachable 3 True True [0, 0, 0 :: nat] s \<and> prods s 1 = PSpin 8
     \<and> accepted s = [7] \<and> accepted s = delivered s @ queue_contents 3 (que s)"
proof -
  let ?s = "start_threads [0, 0, 0 :: nat]"
  obtain q' where "enqueue 3 True 7 (que ?s) = Some (True, q')"
    by (simp add: enqueue_def start_threads_def new_queue_def next_pos_def Let_def)
  then have "(queue_step 3 True True)\<^sup>*\<^sup>* ?s (?s\<lparr>que := q', accepted := [7]\<rparr>)"
    using solo_enqueue [of ?s 0 True 3 7 True q' True]
    by (simp add: start_threads_def new_queue_def)
  then have r: "queue_reachable 3 True True [0, 0, 0] (?s\<lparr>que := q', accepted := [7]\<rparr>)"
    by (rule reachable_steps) (rule queue_reachable.start)
  have "queue_step 3 True True (?s\<lparr>que := q', accepted := [7]\<rparr>)
      ((?s\<lparr>que := q', accepted := [7]\<rparr>)\<lparr>prods := (prods ?s)(1 := PSpin 8)\<rparr>)"
    using p_call [of "?s\<lparr>que := q', accepted := [7]\<rparr>" 1 True 3 True 8]
    by (simp add: start_threads_def)
  with r have r': "queue_reachable 3 True True [0, 0, 0]
      ((?s\<lparr>que := q', accepted := [7]\<rparr>)\<lparr>prods := (prods ?s)(1 := PSpin 8)\<rparr>)"
    by (rule queue_reachable.step)
  show ?thesis
    using queue_threads_linear [OF r'] by (intro exI [of _ "?s\<lparr>que := q', accepted := [7],
      prods := (prods ?s)(1 := PSpin 8)\<rparr>"]) (use r' in simp)
qed

end
