(* ===== verification/Min_Heap.thy ===== *)
theory Min_Heap
  imports Enso_Prelude "HOL-Library.Multiset"
begin

text \<open>
  The array heap of \<^verbatim>\<open>nitrosketch/minheap.h\<close> and \<^verbatim>\<open>minheap.cpp\<close>. The node array is a
  list that \<^verbatim>\<open>realloc\<close> grows and shrinks; \<^verbatim>\<open>size\<close> is kept beside it, as in the code. Index
  arithmetic is on \<open>nat\<close>: a heap of \<open>2 ^ 30\<close> nodes or more, where \<^verbatim>\<open>2 * x + 2\<close> leaves
  \<^verbatim>\<open>int\<close>, is outside the model. A read past the array is the result \<^const>\<open>None\<close> in
  \<^verbatim>\<open>getMaxNode\<close>, the one function of the file that can do it.
\<close>

section \<open>The code\<close>

record node =
  key :: u32
  count :: int

record minHeap =
  hsize :: nat
  elem :: "node list"

definition LCHILD :: "nat \<Rightarrow> nat" where "LCHILD x = 2 * x + 1"

definition RCHILD :: "nat \<Rightarrow> nat" where "RCHILD x = 2 * x + 2"

definition PARENT :: "nat \<Rightarrow> nat" where "PARENT x = (x - 1) div 2"

text \<open>New cells of a grown array hold some value; the code writes them before it reads
  them.\<close>

definition uninit_node :: node where "uninit_node = \<lparr>key = 0, count = 0\<rparr>"

definition realloc_nodes :: "nat \<Rightarrow> node list \<Rightarrow> node list" where
  "realloc_nodes n xs = take n xs @ replicate (n - length xs) uninit_node"

definition initMinHeap :: "minHeap \<Rightarrow> int \<Rightarrow> minHeap" where
  "initMinHeap heap sz = heap\<lparr>hsize := 0\<rparr>"

definition swap_nodes :: "nat \<Rightarrow> nat \<Rightarrow> node list \<Rightarrow> node list" where
  "swap_nodes i j xs = (let temp = xs ! i in (xs[i := xs ! j])[j := temp])"

definition smallest_of :: "minHeap \<Rightarrow> nat \<Rightarrow> nat" where
  "smallest_of hp i =
     (let smallest = (if LCHILD i < hsize hp \<and> count (elem hp ! LCHILD i) < count (elem hp ! i)
                      then LCHILD i else i)
      in if RCHILD i < hsize hp \<and> count (elem hp ! RCHILD i) < count (elem hp ! smallest)
         then RCHILD i else smallest)"

lemma smallest_of_bound:
  "smallest_of hp i \<noteq> i \<Longrightarrow> i < smallest_of hp i \<and> smallest_of hp i < hsize hp"
  by (auto simp: smallest_of_def LCHILD_def RCHILD_def Let_def split: if_splits)

function heapify :: "minHeap \<Rightarrow> nat \<Rightarrow> minHeap" where
  "heapify hp i =
     (let smallest = smallest_of hp i
      in if smallest \<noteq> i
         then heapify (hp\<lparr>elem := swap_nodes i smallest (elem hp)\<rparr>) smallest
         else hp)"
  by pat_completeness auto
termination
  by (relation "measure (\<lambda>(hp, i). hsize hp - i)") (auto dest!: smallest_of_bound)

declare heapify.simps [simp del]

fun heapify_down_from :: "minHeap \<Rightarrow> nat \<Rightarrow> minHeap" where
  "heapify_down_from hp 0 = heapify hp 0"
| "heapify_down_from hp (Suc i) = heapify_down_from (heapify hp (Suc i)) i"

fun append_counts :: "minHeap \<Rightarrow> int list \<Rightarrow> minHeap" where
  "append_counts hp [] = hp"
| "append_counts hp (a # arr) =
     (let es = (if hsize hp \<noteq> 0 then realloc_nodes (hsize hp + 1) (elem hp)
                else realloc_nodes 1 []);
          nd = uninit_node\<lparr>count := a\<rparr>
      in append_counts (hp\<lparr>elem := es[hsize hp := nd], hsize := hsize hp + 1\<rparr>) arr)"

definition buildMinHeap :: "minHeap \<Rightarrow> int list \<Rightarrow> minHeap" where
  "buildMinHeap hp arr =
     (let hp' = append_counts hp arr in heapify_down_from hp' ((hsize hp' - 1) div 2))"

function sift_up :: "node list \<Rightarrow> node \<Rightarrow> nat \<Rightarrow> node list" where
  "sift_up es nd i =
     (if i \<noteq> 0 \<and> count nd < count (es ! PARENT i)
      then sift_up (es[i := es ! PARENT i]) nd (PARENT i)
      else es[i := nd])"
  by pat_completeness auto
termination
  by (relation "measure (\<lambda>(es, nd, i). i)") (auto simp: PARENT_def)

declare sift_up.simps [simp del]

definition insertNode :: "minHeap \<Rightarrow> u32 \<Rightarrow> int \<Rightarrow> minHeap" where
  "insertNode hp k c =
     (let es = (if hsize hp \<noteq> 0 then realloc_nodes (hsize hp + 1) (elem hp)
                else realloc_nodes 1 []);
          nd = \<lparr>key = k, count = c\<rparr>; i = hsize hp
      in hp\<lparr>hsize := hsize hp + 1, elem := sift_up es nd i\<rparr>)"

definition deleteNode :: "minHeap \<Rightarrow> minHeap" where
  "deleteNode hp =
     (if hsize hp \<noteq> 0
      then let n = hsize hp - 1; es = (elem hp)[0 := elem hp ! n]
           in heapify (hp\<lparr>hsize := n, elem := realloc_nodes n es\<rparr>) 0
      else hp\<lparr>elem := []\<rparr>)"

definition read_count :: "minHeap \<Rightarrow> nat \<Rightarrow> int option" where
  "read_count hp i = (if i < length (elem hp) then Some (count (elem hp ! i)) else None)"

function getMaxNode :: "minHeap \<Rightarrow> nat \<Rightarrow> int option" where
  "getMaxNode hp i =
     (if hsize hp \<le> LCHILD i then read_count hp i
      else case getMaxNode hp (LCHILD i) of None \<Rightarrow> None
        | Some l \<Rightarrow> (case getMaxNode hp (RCHILD i) of None \<Rightarrow> None
            | Some r \<Rightarrow> Some (if r \<le> l then l else r)))"
  by pat_completeness auto
termination
  by (relation "measure (\<lambda>(hp, i). hsize hp - i)") (auto simp: LCHILD_def RCHILD_def)

declare getMaxNode.simps [simp del]

definition deleteMinHeap :: "minHeap \<Rightarrow> minHeap" where
  "deleteMinHeap hp = hp\<lparr>elem := []\<rparr>"

fun find_from :: "node list \<Rightarrow> nat \<Rightarrow> nat \<Rightarrow> u32 \<Rightarrow> int" where
  "find_from es 0 i k = - 1"
| "find_from es (Suc fuel) i k = (if key (es ! i) = k then int i else find_from es fuel (i + 1) k)"

definition find_node :: "minHeap \<Rightarrow> u32 \<Rightarrow> int" where
  "find_node hp k = find_from (elem hp) (hsize hp) 0 k"

section \<open>The array holds the nodes\<close>

definition heap_ok :: "minHeap \<Rightarrow> bool" where
  "heap_ok hp \<longleftrightarrow> length (elem hp) = hsize hp"

lemma mset_swap_nodes:
  "i < length xs \<Longrightarrow> j < length xs \<Longrightarrow> mset (swap_nodes i j xs) = mset xs"
  by (simp add: swap_nodes_def Let_def mset_swap)

lemma length_swap_nodes [simp]: "length (swap_nodes i j xs) = length xs"
  by (simp add: swap_nodes_def Let_def)

lemma heapify_frame:
  assumes "heap_ok hp" and "i < hsize hp \<or> smallest_of hp i = i"
  shows "hsize (heapify hp i) = hsize hp \<and> mset (elem (heapify hp i)) = mset (elem hp)
     \<and> heap_ok (heapify hp i)"
  using assms
proof (induction hp i rule: heapify.induct)
  case (1 hp i)
  define s where "s = smallest_of hp i"
  show ?case
  proof (cases "s = i")
    case True
    with 1 show ?thesis by (simp add: heapify.simps [of hp i] s_def)
  next
    case False
    then have b: "i < s" "s < hsize hp"
      using smallest_of_bound [of hp i] by (auto simp: s_def)
    let ?hp = "hp\<lparr>elem := swap_nodes i s (elem hp)\<rparr>"
    have "hsize (heapify ?hp s) = hsize ?hp \<and> mset (elem (heapify ?hp s)) = mset (elem ?hp)
        \<and> heap_ok (heapify ?hp s)"
      using "1.IH" [OF s_def] False b "1.prems" by (simp add: heap_ok_def)
    with b "1.prems" False show ?thesis
      by (simp add: heapify.simps [of hp i] s_def [symmetric] Let_def heap_ok_def mset_swap_nodes)
  qed
qed

section \<open>Heap order\<close>

lemma child_iff: "0 < j \<and> PARENT j = i \<longleftrightarrow> j = LCHILD i \<or> j = RCHILD i"
  by (auto simp: PARENT_def LCHILD_def RCHILD_def)

lemma PARENT_less: "0 < j \<Longrightarrow> PARENT j < j"
  by (auto simp: PARENT_def)

definition edge_ok :: "node list \<Rightarrow> nat \<Rightarrow> bool" where
  "edge_ok es j \<longleftrightarrow> count (es ! PARENT j) \<le> count (es ! j)"

definition ordered_from :: "nat \<Rightarrow> node list \<Rightarrow> bool" where
  "ordered_from k es \<longleftrightarrow> (\<forall>j. 0 < j \<and> j < length es \<and> k \<le> PARENT j \<longrightarrow> edge_ok es j)"

definition heap_order :: "minHeap \<Rightarrow> bool" where
  "heap_order hp \<longleftrightarrow> heap_ok hp \<and> ordered_from 0 (elem hp)"

text \<open>Order everywhere from \<open>k\<close> on, except between \<open>i\<close> and its children.\<close>

definition broken_at :: "nat \<Rightarrow> nat \<Rightarrow> node list \<Rightarrow> bool" where
  "broken_at k i es \<longleftrightarrow>
     (\<forall>j. 0 < j \<and> j < length es \<and> k \<le> PARENT j \<and> PARENT j \<noteq> i \<longrightarrow> edge_ok es j) \<and>
     (\<forall>j. 0 < i \<and> k \<le> PARENT i \<and> 0 < j \<and> j < length es \<and> PARENT j = i \<longrightarrow>
        count (es ! PARENT i) \<le> count (es ! j))"

lemma smallest_of_least:
  assumes "heap_ok hp"
  shows "0 < j \<Longrightarrow> j < length (elem hp) \<Longrightarrow> PARENT j = i \<Longrightarrow>
           count (elem hp ! smallest_of hp i) \<le> count (elem hp ! j)"
    and "count (elem hp ! smallest_of hp i) \<le> count (elem hp ! i)"
    and "smallest_of hp i \<noteq> i \<Longrightarrow> 0 < smallest_of hp i \<and> PARENT (smallest_of hp i) = i"
  using assms child_iff [of j i] child_iff [of "smallest_of hp i" i]
  by (auto simp: smallest_of_def heap_ok_def Let_def)

lemma broken_at_swap:
  assumes ok: "heap_ok hp" and i: "i < length (elem hp)" and b: "broken_at k i (elem hp)"
    and s: "s = smallest_of hp i" "s \<noteq> i"
  shows "broken_at k s (swap_nodes i s (elem hp))"
proof -
  let ?es = "elem hp" and ?fs = "swap_nodes i s (elem hp)"
  have sl: "s < length ?es" and si: "i < s"
    using smallest_of_bound [of hp i] s ok by (auto simp: heap_ok_def)
  have sp: "0 < s" "PARENT s = i" using smallest_of_least(3) [OF ok, of i] s by auto
  have le: "count (?es ! s) \<le> count (?es ! j)" if "0 < j" "j < length ?es" "PARENT j = i" for j
    using smallest_of_least(1) [OF ok that] s by simp
  have li: "count (?es ! s) \<le> count (?es ! i)"
    using smallest_of_least(2) [OF ok, of i] s by simp
  have nth: "?fs ! j = (if j = i then ?es ! s else if j = s then ?es ! i else ?es ! j)"
    if "j < length ?es" for j
    using that i sl by (auto simp: swap_nodes_def Let_def nth_list_update)
  have edge: "edge_ok ?fs j" if j: "0 < j" "j < length ?es" "k \<le> PARENT j" "PARENT j \<noteq> s" for j
  proof -
    have pl: "PARENT j < length ?es" using PARENT_less [OF j(1)] j(2) by linarith
    consider "j = s" | "j \<noteq> s" "PARENT j = i" | "j = i" | "j \<noteq> s" "j \<noteq> i" "PARENT j \<noteq> i" by blast
    then show ?thesis
    proof cases
      case 1
      with i sl sp li si show ?thesis by (simp add: edge_ok_def nth)
    next
      case 2
      with PARENT_less [OF j(1)] le [OF j(1,2)] j pl show ?thesis by (simp add: edge_ok_def nth)
    next
      case 3
      with b j sl sp have "count (?es ! PARENT i) \<le> count (?es ! s)"
        by (auto simp: broken_at_def)
      with 3 j pl PARENT_less [OF j(1)] show ?thesis by (simp add: edge_ok_def nth)
    next
      case 4
      with b j have "edge_ok ?es j" by (auto simp: broken_at_def)
      with 4 j pl show ?thesis by (simp add: edge_ok_def nth)
    qed
  qed
  have "count (?fs ! PARENT s) \<le> count (?fs ! j)"
    if j: "k \<le> PARENT s" "0 < j" "j < length ?es" "PARENT j = s" for j
  proof -
    have "edge_ok ?es j" using b j s(2) sp si by (auto simp: broken_at_def)
    with j PARENT_less [OF j(2)] si sp i show ?thesis by (auto simp: edge_ok_def nth)
  qed
  with edge show ?thesis by (auto simp: broken_at_def)
qed

lemma broken_at_ordered:
  assumes "heap_ok hp" and "broken_at k i (elem hp)" and "smallest_of hp i = i"
  shows "ordered_from k (elem hp)"
  unfolding ordered_from_def
proof (intro allI impI)
  fix j assume j: "0 < j \<and> j < length (elem hp) \<and> k \<le> PARENT j"
  show "edge_ok (elem hp) j"
  proof (cases "PARENT j = i")
    case True
    with j smallest_of_least(1) [OF assms(1), of j i] assms(3) show ?thesis
      by (simp add: edge_ok_def)
  next
    case False
    with j assms(2) show ?thesis by (simp add: broken_at_def)
  qed
qed

lemma heapify_order:
  assumes "heap_ok hp" and "i < length (elem hp)" and "broken_at k i (elem hp)"
  shows "ordered_from k (elem (heapify hp i))"
  using assms
proof (induction hp i rule: heapify.induct)
  case (1 hp i)
  define s where "s = smallest_of hp i"
  show ?case
  proof (cases "s = i")
    case True
    with 1 broken_at_ordered show ?thesis by (simp add: heapify.simps [of hp i] s_def)
  next
    case False
    let ?hp = "hp\<lparr>elem := swap_nodes i s (elem hp)\<rparr>"
    have "s < hsize hp" using smallest_of_bound [of hp i] False by (auto simp: s_def)
    then have "ordered_from k (elem (heapify ?hp s))"
      using "1.IH" [OF s_def] False broken_at_swap [OF "1.prems" s_def] "1.prems"
      by (simp add: heap_ok_def)
    with False show ?thesis by (simp add: heapify.simps [of hp i] s_def [symmetric] Let_def)
  qed
qed

lemma ordered_from_broken: "ordered_from (Suc i) es \<Longrightarrow> broken_at i i es"
  using PARENT_less [of i] by (auto simp: ordered_from_def broken_at_def)

lemma heapify_down_from_order:
  assumes "heap_ok hp" and "ordered_from (Suc i) (elem hp)" and "i < hsize hp \<or> hsize hp = 0"
  shows "heap_order (heapify_down_from hp i) \<and> hsize (heapify_down_from hp i) = hsize hp
     \<and> mset (elem (heapify_down_from hp i)) = mset (elem hp)"
  using assms
proof (induction i arbitrary: hp)
  case 0
  have "smallest_of hp 0 = 0" if "hsize hp = 0"
    using that by (simp add: smallest_of_def LCHILD_def RCHILD_def)
  with 0 heapify_frame [of hp 0] heapify_order [of hp 0 0] ordered_from_broken
  show ?case by (auto simp: heap_order_def heap_ok_def heapify.simps [of hp 0] ordered_from_def)
next
  case (Suc i)
  let ?h = "heapify hp (Suc i)"
  have sm: "smallest_of hp (Suc i) = Suc i" if "hsize hp = 0"
    using that by (simp add: smallest_of_def)
  have fr: "hsize ?h = hsize hp \<and> mset (elem ?h) = mset (elem hp) \<and> heap_ok ?h"
    using heapify_frame [of hp "Suc i"] Suc.prems sm by auto
  have "ordered_from (Suc i) (elem ?h)"
  proof (cases "hsize hp = 0")
    case True
    with fr show ?thesis by (simp add: ordered_from_def heap_ok_def)
  next
    case False
    with Suc.prems heapify_order [of hp "Suc i" "Suc i"] ordered_from_broken show ?thesis
      by (auto simp: heap_ok_def)
  qed
  with Suc.IH [of ?h] fr Suc.prems show ?case by auto
qed

lemma ordered_from_half: "ordered_from (Suc ((length es - 1) div 2)) es"
proof -
  have "PARENT j \<le> (length es - 1) div 2" if "j < length es" for j
    unfolding PARENT_def using that by (intro div_le_mono) simp
  then show ?thesis by (fastforce simp: ordered_from_def)
qed

text \<open>
  The repair loop of the sketches and of \<^verbatim>\<open>buildMinHeap\<close> turns any array into a heap.
\<close>

lemma heapify_all_order:
  assumes "heap_ok hp"
  shows "heap_order (heapify_down_from hp ((hsize hp - 1) div 2))
     \<and> hsize (heapify_down_from hp ((hsize hp - 1) div 2)) = hsize hp
     \<and> mset (elem (heapify_down_from hp ((hsize hp - 1) div 2))) = mset (elem hp)"
  using assms ordered_from_half [of "elem hp"]
  by (intro heapify_down_from_order) (auto simp: heap_ok_def)

section \<open>Insertion\<close>

definition hole_ok :: "node list \<Rightarrow> node \<Rightarrow> nat \<Rightarrow> bool" where
  "hole_ok es nd i \<longleftrightarrow>
     (\<forall>j. 0 < j \<and> j < length es \<and> j \<noteq> i \<and> PARENT j \<noteq> i \<longrightarrow> edge_ok es j) \<and>
     (\<forall>j. 0 < j \<and> j < length es \<and> PARENT j = i \<longrightarrow>
        count nd \<le> count (es ! j) \<and> (0 < i \<longrightarrow> count (es ! PARENT i) \<le> count (es ! j)))"

lemma hole_ok_step:
  assumes h: "hole_ok es nd i" and i: "i < length es" "i \<noteq> 0"
    and lt: "count nd < count (es ! PARENT i)"
  shows "hole_ok (es[i := es ! PARENT i]) nd (PARENT i)"
proof -
  let ?p = "PARENT i" and ?fs = "es[i := es ! PARENT i]"
  have pi: "?p < i" using i by (simp add: PARENT_less)
  have nth: "?fs ! j = (if j = i then es ! ?p else es ! j)" if "j < length es" for j
    using that i by (simp add: nth_list_update)
  have old: "edge_ok es j" if "0 < j" "j < length es" "j \<noteq> i" "PARENT j \<noteq> i" for j
    using h that by (simp add: hole_ok_def)
  have edge: "edge_ok ?fs j" if j: "0 < j" "j < length es" "j \<noteq> ?p" "PARENT j \<noteq> ?p" for j
  proof (cases "PARENT j = i")
    case True
    then have "j \<noteq> i" using PARENT_less [OF j(1)] by auto
    with True h i j show ?thesis by (simp add: hole_ok_def edge_ok_def nth)
  next
    case False
    moreover have "j \<noteq> i" using j by auto
    moreover have "PARENT j < length es" using PARENT_less [OF j(1)] j(2) by linarith
    ultimately show ?thesis using old [OF j(1,2)] j by (simp add: edge_ok_def nth)
  qed
  have kids: "count nd \<le> count (?fs ! j) \<and> (0 < ?p \<longrightarrow> count (?fs ! PARENT ?p) \<le> count (?fs ! j))"
    if j: "0 < j" "j < length es" "PARENT j = ?p" for j
  proof -
    have pp: "count (es ! PARENT ?p) \<le> count (es ! ?p)" if "0 < ?p"
      using old [OF that] PARENT_less [OF that] pi i by (auto simp: edge_ok_def)
    have jp: "count (es ! ?p) \<le> count (?fs ! j)"
      using old [OF j(1,2)] j pi by (cases "j = i") (auto simp: edge_ok_def nth)
    have "PARENT ?p < i" if "0 < ?p" using PARENT_less [OF that] pi by linarith
    with pp jp lt i show ?thesis by (force simp: nth)
  qed
  show ?thesis
    using edge kids by (simp add: hole_ok_def)
qed

lemma sift_up_stop:
  "\<not> (i \<noteq> 0 \<and> count nd < count (es ! PARENT i)) \<Longrightarrow> sift_up es nd i = es[i := nd]"
  by (subst sift_up.simps) (rule if_not_P)

lemma sift_up_order:
  assumes "hole_ok es nd i" and "i < length es"
  shows "ordered_from 0 (sift_up es nd i)"
  using assms
proof (induction es nd i rule: sift_up.induct)
  case (1 es nd i)
  show ?case
  proof (cases "i \<noteq> 0 \<and> count nd < count (es ! PARENT i)")
    case True
    then have "PARENT i < i" by (simp add: PARENT_less)
    with True 1 hole_ok_step [of es nd i] show ?thesis
      by (simp add: sift_up.simps [of es nd i])
  next
    case False
    have "edge_ok (es[i := nd]) j" if j: "0 < j" "j < length es" for j
    proof -
      have "PARENT j < length es" "PARENT j \<noteq> j" using PARENT_less [OF j(1)] j(2) by linarith+
      with False j "1.prems" show ?thesis
        by (auto simp: hole_ok_def edge_ok_def nth_list_update)
    qed
    with sift_up_stop [OF False] show ?thesis by (simp add: ordered_from_def)
  qed
qed

lemma sift_up_mset:
  assumes "i < length es"
  shows "mset (sift_up es nd i) = mset (es[i := nd]) \<and> length (sift_up es nd i) = length es"
  using assms
proof (induction es nd i rule: sift_up.induct)
  case (1 es nd i)
  show ?case
  proof (cases "i \<noteq> 0 \<and> count nd < count (es ! PARENT i)")
    case True
    let ?p = "PARENT i"
    have p: "?p < i" using True by (simp add: PARENT_less)
    have "mset (sift_up es nd i) = mset (es[i := es ! ?p, ?p := nd])"
      using True 1 p by (simp add: sift_up.simps [of es nd i])
    also have "es[i := es ! ?p, ?p := nd] = (es[i := nd])[?p := es[i := nd] ! i, i := es[i := nd] ! ?p]"
      using p "1.prems" list_update_swap [of ?p i "es[i := nd]" nd "es ! ?p"] by simp
    also have "mset \<dots> = mset (es[i := nd])"
      using p "1.prems" by (intro mset_swap) auto
    finally show ?thesis using True 1 p by (simp add: sift_up.simps [of es nd i])
  next
    case False
    then show ?thesis by (simp add: sift_up_stop [OF False])
  qed
qed

lemma realloc_grow:
  "length xs = n \<Longrightarrow> realloc_nodes (Suc n) xs = xs @ [uninit_node]"
  by (simp add: realloc_nodes_def)

lemma insertNode_sift:
  assumes "heap_ok hp"
  shows "insertNode hp k c = hp\<lparr>hsize := hsize hp + 1,
    elem := sift_up (elem hp @ [uninit_node]) \<lparr>key = k, count = c\<rparr> (hsize hp)\<rparr>"
  using assms
  by (auto simp: insertNode_def Let_def heap_ok_def realloc_grow realloc_nodes_def)

lemma insertNode_order:
  assumes "heap_order hp"
  shows "heap_order (insertNode hp k c)
     \<and> mset (elem (insertNode hp k c)) = add_mset \<lparr>key = k, count = c\<rparr> (mset (elem hp))"
proof -
  let ?es = "elem hp @ [uninit_node]" and ?nd = "\<lparr>key = k, count = c\<rparr>"
  have ok: "heap_ok hp" using assms by (simp add: heap_order_def)
  have "hole_ok ?es ?nd (hsize hp)"
    unfolding hole_ok_def
  proof (intro conjI allI impI)
    fix j assume j: "0 < j \<and> j < length ?es \<and> j \<noteq> hsize hp \<and> PARENT j \<noteq> hsize hp"
    with ok have jl: "j < length (elem hp)" by (auto simp: heap_ok_def)
    with j PARENT_less [of j] have "PARENT j < length (elem hp)" by linarith
    with assms j jl show "edge_ok ?es j"
      by (simp add: heap_order_def ordered_from_def edge_ok_def nth_append)
  next
    fix j assume "0 < j \<and> j < length ?es \<and> PARENT j = hsize hp"
    with ok PARENT_less [of j] have False by (simp add: heap_ok_def)
    then show "count ?nd \<le> count (?es ! j)"
      and "count (?es ! PARENT (hsize hp)) \<le> count (?es ! j)" by simp_all
  qed
  moreover have "?es[hsize hp := ?nd] = elem hp @ [?nd]"
    using ok list_update_length [of "elem hp" uninit_node "[]"] by (simp add: heap_ok_def)
  ultimately show ?thesis
    using sift_up_order [of ?es ?nd "hsize hp"] sift_up_mset [of "hsize hp" ?es ?nd] ok
    by (simp add: insertNode_sift heap_order_def heap_ok_def)
qed

section \<open>Deletion of the minimum\<close>

lemma ordered_root:
  assumes "ordered_from 0 es" and "j < length es"
  shows "count (es ! 0) \<le> count (es ! j)"
  using assms(2)
proof (induction j rule: less_induct)
  case (less j)
  show ?case
  proof (cases "j = 0")
    case False
    then have "PARENT j < j" by (simp add: PARENT_less)
    with less have "count (es ! 0) \<le> count (es ! PARENT j)" by simp
    moreover have "edge_ok es j" using assms(1) less.prems False by (simp add: ordered_from_def)
    ultimately show ?thesis by (simp add: edge_ok_def)
  qed simp
qed

lemma mset_drop_root:
  assumes "es \<noteq> []"
  shows "mset (take (length es - 1) (es[0 := es ! (length es - 1)])) = mset es - {#es ! 0#}"
proof (cases es rule: rev_cases)
  case (snoc ys y)
  then show ?thesis by (cases ys) auto
qed (use assms in simp)

lemma deleteNode_order:
  assumes "heap_order hp"
  shows "heap_order (deleteNode hp)"
    and "hsize hp \<noteq> 0 \<Longrightarrow> mset (elem (deleteNode hp)) = mset (elem hp) - {#elem hp ! 0#}"
proof -
  have ok: "heap_ok hp" using assms by (simp add: heap_order_def)
  define n where "n = hsize hp - 1"
  define es where "es = take n ((elem hp)[0 := elem hp ! n])"
  define h where "h = hp\<lparr>hsize := n, elem := es\<rparr>"
  have D: "deleteNode hp = heapify h 0" if "hsize hp \<noteq> 0"
    using that ok by (simp add: deleteNode_def Let_def realloc_nodes_def h_def es_def n_def heap_ok_def)
  have hk: "heap_ok h" if "hsize hp \<noteq> 0"
    using that ok by (simp add: heap_ok_def h_def es_def n_def)
  have nth: "es ! j = (if j = 0 then elem hp ! n else elem hp ! j)" if "j < n" for j
    using that ok by (simp add: es_def heap_ok_def n_def nth_list_update)
  have len: "length es = n" using ok by (simp add: es_def heap_ok_def n_def)
  have "broken_at 0 0 es"
    unfolding broken_at_def
  proof (intro conjI allI impI)
    fix j assume j: "0 < j \<and> j < length es \<and> 0 \<le> PARENT j \<and> PARENT j \<noteq> 0"
    have "PARENT j < n" using j PARENT_less [of j] len by auto
    with j assms len ok show "edge_ok es j"
      by (auto simp: edge_ok_def nth heap_order_def ordered_from_def heap_ok_def n_def)
  qed simp
  then have O: "ordered_from 0 (elem (heapify h 0))" if "n \<noteq> 0"
    using heapify_order [of h 0 0] that hk len by (simp add: h_def n_def)
  have F: "hsize (heapify h 0) = n \<and> mset (elem (heapify h 0)) = mset es \<and> heap_ok (heapify h 0)"
    if "hsize hp \<noteq> 0"
    using heapify_frame [of h 0] hk [OF that]
    by (simp add: h_def smallest_of_def LCHILD_def RCHILD_def Let_def split: if_splits)
  show "heap_order (deleteNode hp)"
  proof (cases "hsize hp = 0")
    case True
    then show ?thesis by (simp add: deleteNode_def heap_order_def heap_ok_def ordered_from_def)
  next
    case False
    then show ?thesis
      using D F O by (cases "n = 0") (auto simp: heap_order_def heap_ok_def ordered_from_def)
  qed
  show "mset (elem (deleteNode hp)) = mset (elem hp) - {#elem hp ! 0#}" if "hsize hp \<noteq> 0"
    using D [OF that] F [OF that] mset_drop_root [of "elem hp"] ok that
    by (cases "elem hp = []") (simp_all add: es_def n_def heap_ok_def)
qed

section \<open>What the sketches rely on\<close>

text \<open>
  The interface of the heap as the heavy-hitter lists use it: a bag of elements with a
  rank, of which one of least rank can be seen and removed.
\<close>

fun drain :: "('q \<Rightarrow> 'q) \<Rightarrow> ('q \<Rightarrow> 'e) \<Rightarrow> nat \<Rightarrow> 'q \<Rightarrow> 'e list" where
  "drain del root 0 q = []"
| "drain del root (Suc n) q = root q # drain del root n (del q)"

locale min_queue =
  fixes insert :: "'e \<Rightarrow> 'q \<Rightarrow> 'q" and del :: "'q \<Rightarrow> 'q" and root :: "'q \<Rightarrow> 'e"
    and bag :: "'q \<Rightarrow> 'e multiset" and inv :: "'q \<Rightarrow> bool" and rank :: "'e \<Rightarrow> int"
  assumes insert_bag: "inv q \<Longrightarrow> inv (insert e q) \<and> bag (insert e q) = add_mset e (bag q)"
    and del_bag: "inv q \<Longrightarrow> bag q \<noteq> {#} \<Longrightarrow> inv (del q) \<and> bag (del q) = bag q - {#root q#}"
    and root_least: "inv q \<Longrightarrow> bag q \<noteq> {#} \<Longrightarrow>
       root q \<in># bag q \<and> (\<forall>e \<in># bag q. rank (root q) \<le> rank e)"
begin

lemma drain_sorted:
  assumes "inv q" and "size (bag q) = n"
  shows "mset (drain del root n q) = bag q \<and> sorted (map rank (drain del root n q))"
  using assms
proof (induction n arbitrary: q)
  case 0
  then show ?case by simp
next
  case (Suc n)
  then have ne: "bag q \<noteq> {#}" by auto
  note d = del_bag [OF Suc.prems(1) ne] and r = root_least [OF Suc.prems(1) ne]
  have IH: "mset (drain del root n (del q)) = bag (del q)
      \<and> sorted (map rank (drain del root n (del q)))"
    using Suc d r by (intro Suc.IH) (auto simp: size_Diff_singleton)
  have "\<forall>e \<in> set (drain del root n (del q)). rank (root q) \<le> rank e"
    using IH d r by (metis in_diffD set_mset_mset)
  with IH d r show ?case by simp
qed

text \<open>Replacing the minimum by a larger element: the size stays, and only an element of
  least rank leaves.\<close>

lemma replace_min:
  assumes "inv q" and "bag q \<noteq> {#}"
  shows "inv (insert e (del q)) \<and> bag (insert e (del q)) = add_mset e (bag q - {#root q#})
     \<and> size (bag (insert e (del q))) = size (bag q)"
  using insert_bag [of "del q" e] del_bag [OF assms] root_least [OF assms] assms(2)
  by (auto simp: size_Diff_singleton nonempty_has_size)

end

definition heap_root :: "minHeap \<Rightarrow> node" where
  "heap_root hp = elem hp ! 0"

definition heap_bag :: "minHeap \<Rightarrow> node multiset" where
  "heap_bag hp = mset (elem hp)"

interpretation mh: min_queue "\<lambda>nd hp. insertNode hp (key nd) (count nd)" deleteNode heap_root
  heap_bag heap_order count
proof (unfold_locales, goal_cases)
  case (1 hp nd)
  then show ?case using insertNode_order [of hp "key nd" "count nd"] by (simp add: heap_bag_def)
next
  case (2 hp)
  then have "hsize hp \<noteq> 0" by (cases "elem hp") (auto simp: heap_bag_def heap_order_def heap_ok_def)
  with 2 deleteNode_order [of hp] show ?case by (simp add: heap_bag_def heap_root_def)
next
  case (3 hp)
  then have "elem hp \<noteq> []" and o: "ordered_from 0 (elem hp)"
    by (auto simp: heap_bag_def heap_order_def)
  then show ?case
    using ordered_root [OF o] by (auto simp: heap_bag_def heap_root_def in_set_conv_nth)
qed

section \<open>Building a heap\<close>

lemma append_counts_ok:
  assumes "heap_ok hp"
  shows "heap_ok (append_counts hp arr)
     \<and> image_mset count (mset (elem (append_counts hp arr)))
       = image_mset count (mset (elem hp)) + mset arr
     \<and> hsize (append_counts hp arr) = hsize hp + length arr"
  using assms
proof (induction arr arbitrary: hp)
  case Nil
  then show ?case by simp
next
  case (Cons a arr)
  let ?nd = "uninit_node\<lparr>count := a\<rparr>"
  have "(if hsize hp \<noteq> 0 then realloc_nodes (hsize hp + 1) (elem hp) else realloc_nodes 1 [])
      [hsize hp := ?nd] = elem hp @ [?nd]"
    using Cons.prems list_update_length [of "elem hp" uninit_node "[]" ?nd]
    by (auto simp: heap_ok_def realloc_grow realloc_nodes_def)
  then have "append_counts hp (a # arr)
      = append_counts (hp\<lparr>elem := elem hp @ [?nd], hsize := hsize hp + 1\<rparr>) arr"
    by (simp only: append_counts.simps Let_def)
  with Cons.IH [of "hp\<lparr>elem := elem hp @ [?nd], hsize := hsize hp + 1\<rparr>"] Cons.prems
  show ?case by (simp add: heap_ok_def)
qed

section \<open>Properties\<close>

text \<open>
  C27. \<^verbatim>\<open>insertNode\<close> keeps the heap order and adds exactly the given node.
\<close>
theorem insertNode_correct:
  assumes "heap_order hp"
  shows "heap_order (insertNode hp k c)
     \<and> heap_bag (insertNode hp k c) = add_mset \<lparr>key = k, count = c\<rparr> (heap_bag hp)"
  using assms mh.insert_bag [of hp "\<lparr>key = k, count = c\<rparr>"] by simp

theorem insertNode_correct_witness:
  "heap_order \<lparr>hsize = 2, elem = [\<lparr>key = 1, count = 3\<rparr>, \<lparr>key = 2, count = 9\<rparr>]\<rparr>
   \<and> heap_order (insertNode \<lparr>hsize = 2, elem = [\<lparr>key = 1, count = 3\<rparr>, \<lparr>key = 2, count = 9\<rparr>]\<rparr> 7 1)"
proof -
  let ?h = "\<lparr>hsize = 2, elem = [\<lparr>key = 1, count = 3\<rparr>, \<lparr>key = 2, count = 9\<rparr>]\<rparr>"
  have "heap_order ?h"
    by (auto simp: heap_order_def heap_ok_def ordered_from_def edge_ok_def PARENT_def less_Suc_eq
        numeral_2_eq_2)
  then show ?thesis using insertNode_correct [of ?h 7 1] by simp
qed

text \<open>
  C28. Building a heap from an array of counts and then taking the root with
  \<^verbatim>\<open>deleteNode\<close> until it is empty yields the counts of the array, each as often as it
  occurs, in ascending order.
\<close>
theorem heap_sorts:
  assumes "heap_ok hp" and "hsize hp = 0"
  shows "map count (drain deleteNode heap_root (length arr) (buildMinHeap hp arr)) = sort arr"
proof -
  let ?h = "buildMinHeap hp arr"
  note a = append_counts_ok [OF assms(1), of arr]
  have e: "elem hp = []" using assms by (simp add: heap_ok_def)
  have o: "heap_order ?h" and b: "image_mset count (heap_bag ?h) = mset arr"
    using heapify_all_order [of "append_counts hp arr"] a e
    by (auto simp: buildMinHeap_def Let_def heap_bag_def)
  have "size (heap_bag ?h) = length arr" using b by (metis size_image_mset size_mset)
  note d = mh.drain_sorted [OF o this]
  have "mset (map count (drain deleteNode heap_root (length arr) ?h)) = mset arr"
    using d b by simp
  then show ?thesis using d by (intro properties_for_sort [symmetric]) auto
qed

theorem heap_sorts_witness:
  "heap_ok \<lparr>hsize = 0, elem = []\<rparr> \<and>
   map count (drain deleteNode heap_root (length [5, 2, 8, 2 :: int])
      (buildMinHeap \<lparr>hsize = 0, elem = []\<rparr> [5, 2, 8, 2])) = [2, 2, 5, 8]"
proof -
  have ok: "heap_ok \<lparr>hsize = 0, elem = []\<rparr>" by (simp add: heap_ok_def)
  have "sort [5, 2, 8, 2 :: int] = [2, 2, 5, 8]" by simp
  then show ?thesis
    using heap_sorts [OF ok, of "[5, 2, 8, 2]"] ok by (simp only: minHeap.select_convs simp_thms)
qed

text \<open>The search for a key.\<close>

lemma find_from_spec:
  "find_from es n i k = (if \<exists>j. i \<le> j \<and> j < i + n \<and> key (es ! j) = k
     then int (LEAST j. i \<le> j \<and> key (es ! j) = k) else - 1)"
proof (induction n arbitrary: i)
  case 0
  then show ?case by simp
next
  case (Suc n)
  show ?case
  proof (cases "key (es ! i) = k")
    case True
    then have "(LEAST j. i \<le> j \<and> key (es ! j) = k) = i"
      by (intro Least_equality) auto
    moreover have "\<exists>j. i \<le> j \<and> j < i + Suc n \<and> key (es ! j) = k"
      using True by (intro exI [of _ i]) simp
    ultimately show ?thesis using True by simp
  next
    case False
    then have e: "(i \<le> j \<and> key (es ! j) = k) = (i + 1 \<le> j \<and> key (es ! j) = k)" for j
      by (metis Suc_eq_plus1 Suc_le_eq le_less)
    then have E: "(\<exists>j. i \<le> j \<and> j < i + Suc n \<and> key (es ! j) = k)
        = (\<exists>j. i + 1 \<le> j \<and> j < i + 1 + n \<and> key (es ! j) = k)"
      by (metis add_Suc_right add_Suc_shift Suc_eq_plus1)
    show ?thesis
      unfolding E e by (simp only: find_from.simps False if_False Suc [of "i + 1"])
  qed
qed

text \<open>
  \<^verbatim>\<open>find\<close> returns the first index that holds the key, and \<open>-1\<close> exactly when no node
  of the heap has it.
\<close>
lemma find_node_correct:
  assumes "heap_ok hp"
  shows "find_node hp k = - 1 \<and> k \<notin> key ` set (elem hp) \<or>
    (\<exists>j < hsize hp. find_node hp k = int j \<and> key (elem hp ! j) = k
       \<and> (\<forall>i < j. key (elem hp ! i) \<noteq> k))"
proof (cases "\<exists>j < hsize hp. key (elem hp ! j) = k")
  case True
  then obtain j where j: "j < hsize hp" "key (elem hp ! j) = k" by blast
  let ?P = "\<lambda>j. key (elem hp ! j) = k"
  have "find_node hp k = int (LEAST j. ?P j)"
    using True by (auto simp: find_node_def find_from_spec)
  moreover have "?P (LEAST j. ?P j)" using j(2) by (rule LeastI)
  moreover have "(LEAST j. ?P j) < hsize hp"
    using j Least_le [of ?P j] by linarith
  ultimately show ?thesis using not_less_Least [of _ ?P] by blast
next
  case False
  with assms show ?thesis
    by (auto simp: find_node_def find_from_spec heap_ok_def in_set_conv_nth)
qed

lemma find_node_example:
  "heap_ok \<lparr>hsize = 1, elem = [\<lparr>key = 2, count = 9\<rparr>]\<rparr> \<and>
   find_node \<lparr>hsize = 1, elem = [\<lparr>key = 2, count = 9\<rparr>]\<rparr> 2 = 0 \<and>
   find_node \<lparr>hsize = 1, elem = [\<lparr>key = 2, count = 9\<rparr>]\<rparr> 5 = - 1"
proof -
  let ?h = "\<lparr>hsize = 1, elem = [\<lparr>key = 2, count = 9\<rparr>]\<rparr>"
  have ok: "heap_ok ?h" by (simp add: heap_ok_def)
  show ?thesis
    using find_node_correct [OF ok, of 2] find_node_correct [OF ok, of 5] ok by simp
qed

section \<open>The largest count\<close>

text \<open>
  \<^verbatim>\<open>getMaxNode\<close> calls itself on both children as soon as there is a left one. With an
  even number of nodes the last inner node has a left child only, and the call on the right
  one reads the element just past the array.
\<close>

lemma getMaxNode_leaf: "hsize hp \<le> LCHILD i \<Longrightarrow> getMaxNode hp i = read_count hp i"
  by (subst getMaxNode.simps) simp

lemma getMaxNode_inner:
  assumes "LCHILD i < hsize hp"
  shows "getMaxNode hp i = Some v \<longleftrightarrow>
    (\<exists>l r. getMaxNode hp (LCHILD i) = Some l \<and> getMaxNode hp (RCHILD i) = Some r \<and> v = max l r)"
  using assms by (subst getMaxNode.simps) (auto split: option.splits)

lemma getMaxNode_below:
  assumes "getMaxNode hp 0 = Some v" and "j \<le> hsize hp" and "0 < j \<longrightarrow> LCHILD (PARENT j) < hsize hp"
  shows "\<exists>w. getMaxNode hp j = Some w \<and> w \<le> v"
  using assms(2,3)
proof (induction j rule: less_induct)
  case (less j)
  show ?case
  proof (cases "j = 0")
    case True
    with assms(1) show ?thesis by simp
  next
    case False
    then have p: "PARENT j < j" by (simp add: PARENT_less)
    have "LCHILD (PARENT (PARENT j)) < hsize hp" if "0 < PARENT j"
      using that p less.prems(1) False by (simp add: LCHILD_def PARENT_def)
    with less p obtain u where u: "getMaxNode hp (PARENT j) = Some u" "u \<le> v"
      by (metis le_trans less_imp_le)
    with less.prems False child_iff [of j "PARENT j"] show ?thesis
      by (auto simp: getMaxNode_inner)
  qed
qed

lemma getMaxNode_above:
  assumes "heap_order hp" and "getMaxNode hp j = Some w" and "j < hsize hp"
  shows "count (elem hp ! j) \<le> w"
  using assms(2,3)
proof (induction "hsize hp - j" arbitrary: j w rule: less_induct)
  case less
  show ?case
  proof (cases "LCHILD j < hsize hp")
    case True
    then obtain l where l: "getMaxNode hp (LCHILD j) = Some l" "l \<le> w"
      using less.prems by (auto simp: getMaxNode_inner)
    have "count (elem hp ! LCHILD j) \<le> l"
      using less.hyps [OF _ l(1) True] True less.prems by (simp add: LCHILD_def)
    moreover have "edge_ok (elem hp) (LCHILD j)"
      using assms(1) True by (auto simp: heap_order_def ordered_from_def heap_ok_def LCHILD_def)
    ultimately show ?thesis using l(2) by (simp add: edge_ok_def LCHILD_def PARENT_def)
  next
    case False
    with less.prems show ?thesis by (auto simp: getMaxNode_leaf read_count_def split: if_splits)
  qed
qed

lemma getMaxNode_odd:
  assumes "heap_ok hp" and "odd (hsize hp)" and "j < hsize hp"
  shows "\<exists>w. getMaxNode hp j = Some w \<and> w \<in> count ` set (elem hp)"
  using assms(3)
proof (induction "hsize hp - j" arbitrary: j rule: less_induct)
  case less
  show ?case
  proof (cases "LCHILD j < hsize hp")
    case True
    with assms(2) have r: "RCHILD j < hsize hp"
      by (auto simp: LCHILD_def RCHILD_def) (metis Suc_lessI even_Suc even_mult_iff even_numeral)
    have "hsize hp - LCHILD j < hsize hp - j" and "hsize hp - RCHILD j < hsize hp - j"
      using less.prems by (simp_all add: LCHILD_def RCHILD_def)
    from less.hyps [OF this(1) True] less.hyps [OF this(2) r]
    obtain l r where "getMaxNode hp (LCHILD j) = Some l" "l \<in> count ` set (elem hp)"
      "getMaxNode hp (RCHILD j) = Some r" "r \<in> count ` set (elem hp)"
      by blast
    then show ?thesis using True by (auto simp: getMaxNode_inner max_def)
  next
    case False
    with less.prems assms(1) show ?thesis by (simp add: getMaxNode_leaf read_count_def heap_ok_def)
  qed
qed

lemma getMaxNode_even:
  assumes "heap_ok hp" and "even (hsize hp)" and "hsize hp \<noteq> 0"
  shows "getMaxNode hp 0 = None"
proof (rule ccontr)
  assume "getMaxNode hp 0 \<noteq> None"
  then obtain v where v: "getMaxNode hp 0 = Some v" by auto
  have "LCHILD (PARENT (hsize hp)) < hsize hp"
    using assms(2,3) by (auto simp: LCHILD_def PARENT_def elim!: evenE)
  with getMaxNode_below [OF v, of "hsize hp"] obtain w where "getMaxNode hp (hsize hp) = Some w"
    by auto
  then show False
    using assms(1) by (simp add: getMaxNode_leaf LCHILD_def read_count_def heap_ok_def)
qed

text \<open>
  On a heap with an odd number of nodes \<^verbatim>\<open>getMaxNode\<close> returns the largest count; with
  an even, non-zero number it reads past the end of the array.
\<close>
theorem getMaxNode_parity:
  assumes "heap_order hp" and "hsize hp \<noteq> 0"
  shows "getMaxNode hp 0 =
    (if odd (hsize hp) then Some (Max (count ` set (elem hp))) else None)"
proof (cases "odd (hsize hp)")
  case True
  have ok: "heap_ok hp" using assms(1) by (simp add: heap_order_def)
  obtain v where v: "getMaxNode hp 0 = Some v" "v \<in> count ` set (elem hp)"
    using getMaxNode_odd [OF ok True, of 0] assms(2) by auto
  have "count (elem hp ! j) \<le> v" if j: "j < hsize hp" for j
  proof -
    have "0 < j \<longrightarrow> LCHILD (PARENT j) < hsize hp"
      using j by (auto simp: LCHILD_def PARENT_def)
    with getMaxNode_below [OF v(1), of j] j obtain w where "getMaxNode hp j = Some w" "w \<le> v"
      by auto
    with getMaxNode_above [OF assms(1) _ j] show ?thesis by force
  qed
  then have "Max (count ` set (elem hp)) = v"
    using v(2) ok by (intro Max_eqI) (auto simp: in_set_conv_nth heap_ok_def)
  with v True show ?thesis by simp
next
  case False
  with assms getMaxNode_even show ?thesis by (simp add: heap_order_def)
qed

theorem getMaxNode_parity_witness:
  "heap_order \<lparr>hsize = 2, elem = [\<lparr>key = 1, count = 3\<rparr>, \<lparr>key = 2, count = 9\<rparr>]\<rparr>
   \<and> getMaxNode \<lparr>hsize = 2, elem = [\<lparr>key = 1, count = 3\<rparr>, \<lparr>key = 2, count = 9\<rparr>]\<rparr> 0 = None"
proof -
  let ?h = "\<lparr>hsize = 2, elem = [\<lparr>key = 1, count = 3\<rparr>, \<lparr>key = 2, count = 9\<rparr>]\<rparr>"
  have "heap_order ?h"
    by (auto simp: heap_order_def heap_ok_def ordered_from_def edge_ok_def PARENT_def less_Suc_eq
        numeral_2_eq_2)
  then show ?thesis using getMaxNode_parity [of ?h] by simp
qed

end
