(* ===== verification/Order_Stat.thy ===== *)
theory Order_Stat
  imports Complex_Main Enso_Prelude "HOL-Library.Multiset"
begin

text \<open>
  The order statistics of \<^verbatim>\<open>nitrosketch/geometric.h\<close>, which combine the five rows of a
  sketch: the minimum (Count-Min) and the median (Count Sketch). The median is a
  decision tree of nested conditional expressions, the same one for \<^verbatim>\<open>int\<close> and, in
  \<^verbatim>\<open>MedianOfFiveL\<close>, for \<^verbatim>\<open>long double\<close>, whose values that are not NaN are ordered as the reals
  are; both only compare and copy their arguments.
\<close>

section \<open>The code\<close>

definition INT_MAX :: int where "INT_MAX = 2 ^ 31 - 1"

definition MinOfFive :: "int \<Rightarrow> int \<Rightarrow> int \<Rightarrow> int \<Rightarrow> int \<Rightarrow> int" where
  "MinOfFive a b c d e =
     (let m = INT_MAX;
          m = (if a < m then a else m);
          m = (if b < m then b else m);
          m = (if c < m then c else m);
          m = (if d < m then d else m);
          m = (if e < m then e else m)
      in m)"

definition MedianOfFive :: "'a::linorder \<Rightarrow> 'a \<Rightarrow> 'a \<Rightarrow> 'a \<Rightarrow> 'a \<Rightarrow> 'a" where
  "MedianOfFive a b c d e =
    (if b < a
     then (if d < c
       then (if b < d
         then (if a < e
           then (if a < d
             then (if e < d then e else d)
             else (if c < a then c else a))
           else (if e < d
             then (if a < d then a else d)
             else (if c < e then c else e)))
         else (if c < e
           then (if b < c
             then (if a < c then a else c)
             else (if e < b then e else b))
           else (if b < e
             then (if a < e then a else e)
             else (if c < b then c else b))))
       else (if b < c
         then (if a < e
           then (if a < c
             then (if e < c then e else c)
             else (if d < a then d else a))
           else (if e < c
             then (if a < c then a else c)
             else (if d < e then d else e)))
         else (if d < e
           then (if b < d
             then (if a < d then a else d)
             else (if e < b then e else b))
           else (if b < e
             then (if a < e then a else e)
             else (if d < b then d else b)))))
     else (if d < c
       then (if a < d
         then (if b < e
           then (if b < d
             then (if e < d then e else d)
             else (if c < b then c else b))
           else (if e < d
             then (if b < d then b else d)
             else (if c < e then c else e)))
         else (if c < e
           then (if a < c
             then (if b < c then b else c)
             else (if e < a then e else a))
           else (if a < e
             then (if b < e then b else e)
             else (if c < a then c else a))))
       else (if a < c
         then (if b < e
           then (if b < c
             then (if e < c then e else c)
             else (if d < b then d else b))
           else (if e < c
             then (if b < c then b else c)
             else (if d < e then d else e)))
         else (if d < e
           then (if a < d
             then (if b < d then b else d)
             else (if e < a then e else a))
           else (if a < e
             then (if b < e then b else e)
             else (if d < a then d else a))))))"

definition MedianOfFiveL :: "real \<Rightarrow> real \<Rightarrow> real \<Rightarrow> real \<Rightarrow> real \<Rightarrow> real" where
  "MedianOfFiveL a b c d e = MedianOfFive a b c d e"

section \<open>The median\<close>

text \<open>
  The leaf of the decision tree a call reaches is right when three of the five values are on
  each side of it, itself included; the tests on the way to the leaf order the values far
  enough to name those three.
\<close>

definition three_above :: "'a::linorder \<Rightarrow> 'a \<Rightarrow> 'a \<Rightarrow> 'a \<Rightarrow> 'a \<Rightarrow> 'a \<Rightarrow> bool" where
  "three_above a b c d e m \<longleftrightarrow> 2 < length (filter (\<lambda>x. m \<le> x) [a, b, c, d, e])"

definition three_below :: "'a::linorder \<Rightarrow> 'a \<Rightarrow> 'a \<Rightarrow> 'a \<Rightarrow> 'a \<Rightarrow> 'a \<Rightarrow> bool" where
  "three_below a b c d e m \<longleftrightarrow> 2 < length (filter (\<lambda>x. x \<le> m) [a, b, c, d, e])"

lemma three_aboveI:
  "m \<le> a \<Longrightarrow> m \<le> b \<Longrightarrow> m \<le> c \<Longrightarrow> three_above a b c d e m"
  "m \<le> a \<Longrightarrow> m \<le> b \<Longrightarrow> m \<le> d \<Longrightarrow> three_above a b c d e m"
  "m \<le> a \<Longrightarrow> m \<le> b \<Longrightarrow> m \<le> e \<Longrightarrow> three_above a b c d e m"
  "m \<le> a \<Longrightarrow> m \<le> c \<Longrightarrow> m \<le> d \<Longrightarrow> three_above a b c d e m"
  "m \<le> a \<Longrightarrow> m \<le> c \<Longrightarrow> m \<le> e \<Longrightarrow> three_above a b c d e m"
  "m \<le> a \<Longrightarrow> m \<le> d \<Longrightarrow> m \<le> e \<Longrightarrow> three_above a b c d e m"
  "m \<le> b \<Longrightarrow> m \<le> c \<Longrightarrow> m \<le> d \<Longrightarrow> three_above a b c d e m"
  "m \<le> b \<Longrightarrow> m \<le> c \<Longrightarrow> m \<le> e \<Longrightarrow> three_above a b c d e m"
  "m \<le> b \<Longrightarrow> m \<le> d \<Longrightarrow> m \<le> e \<Longrightarrow> three_above a b c d e m"
  "m \<le> c \<Longrightarrow> m \<le> d \<Longrightarrow> m \<le> e \<Longrightarrow> three_above a b c d e m"
  by (simp_all add: three_above_def)

lemma three_belowI:
  "a \<le> m \<Longrightarrow> b \<le> m \<Longrightarrow> c \<le> m \<Longrightarrow> three_below a b c d e m"
  "a \<le> m \<Longrightarrow> b \<le> m \<Longrightarrow> d \<le> m \<Longrightarrow> three_below a b c d e m"
  "a \<le> m \<Longrightarrow> b \<le> m \<Longrightarrow> e \<le> m \<Longrightarrow> three_below a b c d e m"
  "a \<le> m \<Longrightarrow> c \<le> m \<Longrightarrow> d \<le> m \<Longrightarrow> three_below a b c d e m"
  "a \<le> m \<Longrightarrow> c \<le> m \<Longrightarrow> e \<le> m \<Longrightarrow> three_below a b c d e m"
  "a \<le> m \<Longrightarrow> d \<le> m \<Longrightarrow> e \<le> m \<Longrightarrow> three_below a b c d e m"
  "b \<le> m \<Longrightarrow> c \<le> m \<Longrightarrow> d \<le> m \<Longrightarrow> three_below a b c d e m"
  "b \<le> m \<Longrightarrow> c \<le> m \<Longrightarrow> e \<le> m \<Longrightarrow> three_below a b c d e m"
  "b \<le> m \<Longrightarrow> d \<le> m \<Longrightarrow> e \<le> m \<Longrightarrow> three_below a b c d e m"
  "c \<le> m \<Longrightarrow> d \<le> m \<Longrightarrow> e \<le> m \<Longrightarrow> three_below a b c d e m"
  by (simp_all add: three_below_def)

lemma branches:
  "(t \<Longrightarrow> three_above a b c d e x) \<Longrightarrow> (\<not> t \<Longrightarrow> three_above a b c d e y) \<Longrightarrow>
     three_above a b c d e (if t then x else y)"
  "(t \<Longrightarrow> three_below a b c d e x) \<Longrightarrow> (\<not> t \<Longrightarrow> three_below a b c d e y) \<Longrightarrow>
     three_below a b c d e (if t then x else y)"
  "x \<in> S \<Longrightarrow> y \<in> S \<Longrightarrow> (if t then x else y) \<in> S"
  by simp_all

lemma MedianOfFive_above: "three_above a b c d e (MedianOfFive a b c d e)"
  unfolding MedianOfFive_def
  by (intro branches; (rule three_aboveI; order))

lemma MedianOfFive_below: "three_below a b c d e (MedianOfFive a b c d e)"
  unfolding MedianOfFive_def
  by (intro branches; (rule three_belowI; order))

lemma MedianOfFive_mem: "MedianOfFive a b c d e \<in> set [a, b, c, d, e]"
  unfolding MedianOfFive_def by (intro branches) simp_all

lemma third_of_sorted:
  assumes "length ys = 5" "sorted ys" "2 < length (filter (\<lambda>x. m \<le> x) ys)"
    "2 < length (filter (\<lambda>x. x \<le> m) ys)"
  shows "ys ! 2 = m"
proof -
  obtain p q r s t where ys: "ys = [p, q, r, s, t]"
    using assms(1) by (auto simp: numeral_eq_Suc length_Suc_conv)
  have "r \<le> m"
    using assms(2,4) by (rule_tac ccontr) (auto simp: ys split: if_splits)
  moreover have "m \<le> r"
    using assms(2,3) by (rule_tac ccontr) (auto simp: ys split: if_splits)
  ultimately show ?thesis by (simp add: ys)
qed

lemma length_filter_sort: "length (filter P (sort xs)) = length (filter P xs)"
  by (metis mset_filter mset_sort size_mset)

lemma MedianOfFive_sort: "MedianOfFive a b c d e = sort [a, b, c, d, e] ! 2"
  by (rule third_of_sorted [symmetric])
     (simp_all only: length_sort sorted_sort length_filter_sort
        MedianOfFive_above [unfolded three_above_def] MedianOfFive_below [unfolded three_below_def],
      simp_all)

text \<open>
  C40. \<^verbatim>\<open>MedianOfFive\<close> and \<^verbatim>\<open>MedianOfFiveL\<close> return the third smallest of their five
  arguments, and \<^verbatim>\<open>MinOfFive\<close> the smallest one, or \<^verbatim>\<open>INT_MAX\<close> where no argument is below it.
\<close>
theorem order_statistics:
  "MedianOfFive a b c d (e::int) = sort [a, b, c, d, e] ! 2
   \<and> MedianOfFiveL u v w x y = sort [u, v, w, x, y] ! 2
   \<and> MinOfFive a b c d e = Min (set [INT_MAX, a, b, c, d, e])"
proof -
  have "MinOfFive a b c d e = Min (set [INT_MAX, a, b, c, d, e])"
    by (simp add: MinOfFive_def Let_def min_def)
  then show ?thesis
    by (simp only: MedianOfFiveL_def MedianOfFive_sort simp_thms)
qed

end
