(* ===== verification/Maglev.thy ===== *)
theory Maglev
  imports Enso_Prelude
begin

text \<open>
  The load balancer of \<^verbatim>\<open>maglev/src/maglev.hpp\<close>: the permutation of each backend, the
  population of the lookup table, the cache of hash values in front of the table, and the
  rewriting of a packet. \<^verbatim>\<open>kSize\<close> is an argument, so that small tables can be evaluated;
  the code's 65537 is \<open>kSize\<close>. DPDK's functions are arguments as well: \<open>jhash2\<close> is
  \<^verbatim>\<open>rte_jhash_32b_2hashes\<close> on one word with the initial values 0 and 1, \<open>jhash3\<close> is
  \<^verbatim>\<open>rte_jhash_32b\<close> on three words with the initial value 0, \<open>get_bucket\<close> is
  \<^verbatim>\<open>rte_fbk_hash_get_bucket\<close> on the table created by \<^verbatim>\<open>setup\<close>, and \<open>cpu_to_be\<close> is
  \<^verbatim>\<open>rte_cpu_to_be_32\<close>. A read past an array is the error \<open>OutOfRange\<close>.
\<close>

section \<open>The code\<close>

datatype maglev_error = OutOfRange

definition kSize :: nat where "kSize = 65537"

definition kEntriesPerBucket :: nat where "kEntriesPerBucket = 4"

definition free_slot :: u16 where "free_slot = 0xffff"

record maglev =
  nb_backends :: nat
  backend_ips :: "u32 list"
  hash_table :: "u16 list"
  permutations :: "u32 list list"

definition maglev_new :: "(u32 \<Rightarrow> u32) \<Rightarrow> nat \<Rightarrow> u32 list \<Rightarrow> maglev" where
  "maglev_new cpu_to_be m ips =
     \<lparr>nb_backends = length ips, backend_ips = map cpu_to_be ips,
      hash_table = replicate m free_slot,
      permutations = replicate (length ips) (replicate m 0)\<rparr>"

subsection \<open>The permutations\<close>

definition offset_of :: "(u32 \<Rightarrow> u32 \<times> u32) \<Rightarrow> nat \<Rightarrow> u32 \<Rightarrow> u32" where
  "offset_of jhash2 m ip = fst (jhash2 ip) mod of_nat m"

definition skip_of :: "(u32 \<Rightarrow> u32 \<times> u32) \<Rightarrow> nat \<Rightarrow> u32 \<Rightarrow> u32" where
  "skip_of jhash2 m ip = (snd (jhash2 ip) mod (of_nat m - 1)) + 1"

definition permutation_row :: "nat \<Rightarrow> u32 \<Rightarrow> u32 \<Rightarrow> u32 list" where
  "permutation_row m offset skip = map (\<lambda>j. (offset + of_nat j * skip) mod of_nat m) [0 ..< m]"

definition generate_permutations :: "(u32 \<Rightarrow> u32 \<times> u32) \<Rightarrow> nat \<Rightarrow> maglev \<Rightarrow> maglev" where
  "generate_permutations jhash2 m mg =
     mg\<lparr>permutations :=
          map (\<lambda>ip. permutation_row m (offset_of jhash2 m ip) (skip_of jhash2 m ip))
              (backend_ips mg)\<rparr>"

subsection \<open>The lookup table\<close>

record populating =
  table :: "u16 list"
  nexts :: "nat list"
  placed :: nat

text \<open>The inner loop: the first position from \<open>k\<close> on whose slot is free.\<close>

function seek :: "u16 list \<Rightarrow> u32 list \<Rightarrow> nat \<Rightarrow> nat option" where
  "seek tbl row k =
     (if k < length row
      then if tbl ! unat (row ! k) \<noteq> free_slot then seek tbl row (Suc k) else Some k
      else None)"
  by pat_completeness auto
termination by (relation "measure (\<lambda>(tbl, row, k). length row - k)") auto

declare seek.simps [simp del]

definition place :: "u32 list list \<Rightarrow> nat \<Rightarrow> populating \<Rightarrow> populating option" where
  "place rows i s =
     (case seek (table s) (rows ! i) (nexts s ! i) of
        None \<Rightarrow> None
      | Some k \<Rightarrow>
          Some (s\<lparr>table := (table s)[unat (rows ! i ! k) := of_nat i],
                  nexts := (nexts s)[i := Suc k],
                  placed := Suc (placed s)\<rparr>))"

fun for_backends ::
  "nat \<Rightarrow> u32 list list \<Rightarrow> nat list \<Rightarrow> populating \<Rightarrow> maglev_error + bool \<times> populating" where
  "for_backends m rows [] s = Inr (False, s)"
| "for_backends m rows (i # is) s =
     (case place rows i s of
        None \<Rightarrow> Inl OutOfRange
      | Some s' \<Rightarrow> if placed s' = m then Inr (True, s') else for_backends m rows is s')"

partial_function (option) populate_loop ::
  "nat \<Rightarrow> u32 list list \<Rightarrow> populating \<Rightarrow> (maglev_error + u16 list) option" where
  "populate_loop m rows s =
     (case for_backends m rows [0 ..< length rows] s of
        Inl e \<Rightarrow> Some (Inl e)
      | Inr (finished, s') \<Rightarrow>
          if finished then Some (Inr (table s')) else populate_loop m rows s')"

declare populate_loop.simps [code]

definition populate :: "nat \<Rightarrow> maglev \<Rightarrow> (maglev_error + maglev) option" where
  "populate m mg =
     (case populate_loop m (permutations mg)
             \<lparr>table = hash_table mg, nexts = replicate (nb_backends mg) 0, placed = 0\<rparr> of
        None \<Rightarrow> None
      | Some (Inl e) \<Rightarrow> Some (Inl e)
      | Some (Inr tbl) \<Rightarrow> Some (Inr (mg\<lparr>hash_table := tbl\<rparr>)))"

text \<open>\<^verbatim>\<open>setup\<close> after the creation of the cache, whose errors are DPDK's.\<close>

definition maglev_setup ::
  "(u32 \<Rightarrow> u32 \<times> u32) \<Rightarrow> nat \<Rightarrow> maglev \<Rightarrow> (maglev_error + maglev) option" where
  "maglev_setup jhash2 m mg = populate m (generate_permutations jhash2 m mg)"

subsection \<open>The cache of hash values\<close>

text \<open>
  \<^verbatim>\<open>union rte_fbk_hash_entry\<close>: 16 bits \<^verbatim>\<open>is_entry\<close>, 16 bits \<^verbatim>\<open>value\<close>, 32 bits \<^verbatim>\<open>key\<close>,
  from the low bits of \<^verbatim>\<open>whole_entry\<close> up.
\<close>

record fbk_table =
  fbk_t :: "u64 list"
  used_entries :: u32

definition entry_is_entry :: "u64 \<Rightarrow> u16" where "entry_is_entry e = ucast e"

definition entry_value :: "u64 \<Rightarrow> u16" where "entry_value e = ucast (drop_bit 16 e)"

definition entry_key :: "u64 \<Rightarrow> u32" where "entry_key e = ucast (drop_bit 32 e)"

definition set_is_entry :: "u16 \<Rightarrow> u64 \<Rightarrow> u64" where
  "set_is_entry v e = (e AND NOT (mask 16)) OR ucast v"

definition new_entry :: "u16 list \<Rightarrow> nat \<Rightarrow> u32 \<Rightarrow> u64" where
  "new_entry tbl m hash =
     (push_bit 32 (ucast hash) OR push_bit 16 (ucast (tbl ! (unat hash mod m)))) OR 1"

definition write_entry :: "nat \<Rightarrow> nat \<Rightarrow> u64 \<Rightarrow> u64 list \<Rightarrow> u64 list" where
  "write_entry bucket i e t =
     (let t' = t[bucket + i := e]
      in t'[bucket := set_is_entry (push_bit 1 (of_nat i) OR 1) (t' ! bucket)])"

definition replace_oldest ::
  "u16 list \<Rightarrow> nat \<Rightarrow> fbk_table \<Rightarrow> u32 \<Rightarrow> nat \<Rightarrow> fbk_table \<times> u16" where
  "replace_oldest tbl m ht hash bucket =
     (let e = new_entry tbl m hash;
          newest = unat (drop_bit 1 (entry_is_entry (fbk_t ht ! bucket)));
          entry_id = (newest + 1) AND (kEntriesPerBucket - 1)
      in (ht\<lparr>fbk_t := write_entry bucket entry_id e (fbk_t ht)\<rparr>, entry_value e))"

function bucket_loop ::
  "u16 list \<Rightarrow> nat \<Rightarrow> fbk_table \<Rightarrow> u32 \<Rightarrow> nat \<Rightarrow> nat \<Rightarrow> fbk_table \<times> u16" where
  "bucket_loop tbl m ht hash bucket i =
     (if i < kEntriesPerBucket
      then if entry_is_entry (fbk_t ht ! (bucket + i)) = 0
           then let e = new_entry tbl m hash
                in (ht\<lparr>fbk_t := write_entry bucket i e (fbk_t ht),
                       used_entries := used_entries ht + 1\<rparr>, entry_value e)
           else if entry_key (fbk_t ht ! (bucket + i)) = hash
           then (ht, entry_value (fbk_t ht ! (bucket + i)))
           else bucket_loop tbl m ht hash bucket (Suc i)
      else replace_oldest tbl m ht hash bucket)"
  by pat_completeness auto
termination
  by (relation "measure (\<lambda>(tbl, m, ht, hash, bucket, i). kEntriesPerBucket - i)") auto

declare bucket_loop.simps [simp del]

definition get_cached_hash_value_with_bucket ::
  "u16 list \<Rightarrow> nat \<Rightarrow> fbk_table \<Rightarrow> u32 \<Rightarrow> nat \<Rightarrow> fbk_table \<times> u16" where
  "get_cached_hash_value_with_bucket tbl m ht hash bucket = bucket_loop tbl m ht hash bucket 0"

definition get_cached_hash_value ::
  "(u32 \<Rightarrow> nat) \<Rightarrow> u16 list \<Rightarrow> nat \<Rightarrow> fbk_table \<Rightarrow> u32 \<Rightarrow> fbk_table \<times> u16" where
  "get_cached_hash_value get_bucket tbl m ht hash =
     get_cached_hash_value_with_bucket tbl m ht hash (get_bucket hash)"

subsection \<open>Packets\<close>

text \<open>
  The fields of a packet the balancer touches: \<open>l4_word\<close> is the word that follows the
  destination address, the two ports of a header without options.
\<close>

record packet =
  next_proto_id :: u8
  src_addr :: u32
  dst_addr :: u32
  l4_word :: u32

definition mix_proto :: "packet \<Rightarrow> packet" where
  "mix_proto pkt = pkt\<lparr>dst_addr := dst_addr pkt XOR ucast (next_proto_id pkt)\<rparr>"

definition lookup ::
  "(u32 \<Rightarrow> u32 \<Rightarrow> u32 \<Rightarrow> u32) \<Rightarrow> (u32 \<Rightarrow> nat) \<Rightarrow> nat \<Rightarrow> maglev \<Rightarrow> fbk_table \<Rightarrow> packet
     \<Rightarrow> (maglev_error + packet) \<times> fbk_table" where
  "lookup jhash3 get_bucket m mg ht pkt =
     (let pkt = mix_proto pkt;
          hash = jhash3 (src_addr pkt) (dst_addr pkt) (l4_word pkt);
          pkt = mix_proto pkt;
          (ht', backend_id) = get_cached_hash_value get_bucket (hash_table mg) m ht hash
      in (if unat backend_id < length (backend_ips mg)
          then Inr (pkt\<lparr>dst_addr := backend_ips mg ! unat backend_id\<rparr>)
          else Inl OutOfRange, ht'))"

section \<open>Population\<close>

text \<open>
  A row serves a table of \<open>m\<close> slots when it names every one of them; the invariant of the
  population says that each backend has passed over occupied slots only, and that backend
  \<open>i\<close> holds its turn's share of the slots placed so far.
\<close>

definition covers :: "nat \<Rightarrow> u32 list \<Rightarrow> bool" where
  "covers m row \<longleftrightarrow> unat ` set row = {..< m}"

definition within :: "nat \<Rightarrow> u32 list \<Rightarrow> bool" where
  "within m row \<longleftrightarrow> unat ` set row \<subseteq> {..< m}"

definition share :: "nat \<Rightarrow> nat \<Rightarrow> nat \<Rightarrow> nat" where
  "share nb n i = n div nb + (if i < n mod nb then 1 else 0)"

definition slots_of :: "u16 list \<Rightarrow> u16 \<Rightarrow> nat" where
  "slots_of tbl v = length (filter (\<lambda>x. x = v) tbl)"

definition populating_ok :: "nat \<Rightarrow> u32 list list \<Rightarrow> populating \<Rightarrow> bool" where
  "populating_ok m rows s \<longleftrightarrow>
     length (table s) = m \<and> length (nexts s) = length rows \<and>
     slots_of (table s) free_slot + placed s = m \<and>
     (\<forall>i<length rows. \<forall>p<nexts s ! i. p < length (rows ! i) \<longrightarrow>
        table s ! unat (rows ! i ! p) \<noteq> free_slot) \<and>
     (\<forall>i<length rows. slots_of (table s) (of_nat i) = share (length rows) (placed s) i) \<and>
     (\<forall>x \<in> set (table s). x = free_slot \<or> unat x < length rows)"

lemma seek_bounds: "seek tbl row k = Some q \<Longrightarrow> k \<le> q \<and> q < length row"
  by (induction tbl row k rule: seek.induct)
     (subst (asm) (2) seek.simps, fastforce split: if_splits)

lemma seek_free: "seek tbl row k = Some q \<Longrightarrow> tbl ! unat (row ! q) = free_slot"
  by (induction tbl row k rule: seek.induct)
     (subst (asm) (2) seek.simps, fastforce split: if_splits)

lemma seek_passed:
  "seek tbl row k = Some q \<Longrightarrow> k \<le> r \<Longrightarrow> r < q \<Longrightarrow> tbl ! unat (row ! r) \<noteq> free_slot"
proof (induction tbl row k rule: seek.induct)
  case (1 tbl row k)
  then show ?case
    by (cases "r = k") (auto simp: seek.simps [of tbl row k] split: if_splits)
qed

lemma seek_Some:
  assumes "p < length row" "tbl ! unat (row ! p) = free_slot" "k \<le> p"
  shows "\<exists>q. seek tbl row k = Some q \<and> k \<le> q \<and> q \<le> p \<and> tbl ! unat (row ! q) = free_slot
      \<and> (\<forall>r. k \<le> r \<longrightarrow> r < q \<longrightarrow> tbl ! unat (row ! r) \<noteq> free_slot)"
  using assms
proof (induction tbl row k rule: seek.induct)
  case (1 tbl row k)
  show ?case
  proof (cases "tbl ! unat (row ! k) = free_slot")
    case True
    then show ?thesis using 1 by (auto simp: seek.simps [of tbl row k])
  next
    case False
    then have "k \<noteq> p" using 1 by auto
    then obtain q where "seek tbl row (Suc k) = Some q" "Suc k \<le> q" "q \<le> p"
      "tbl ! unat (row ! q) = free_slot"
      "\<forall>r. Suc k \<le> r \<longrightarrow> r < q \<longrightarrow> tbl ! unat (row ! r) \<noteq> free_slot"
      using 1 False by auto
    with False 1 show ?thesis
      by (auto simp: seek.simps [of tbl row k] Suc_le_eq dest: le_neq_implies_less)
  qed
qed

lemma slots_of_update:
  assumes "c < length tbl"
  shows "slots_of (tbl[c := v]) x + (if tbl ! c = x then 1 else 0)
       = slots_of tbl x + (if v = x then 1 else 0)"
proof -
  have 1: "slots_of tbl x = slots_of (take c tbl @ tbl ! c # drop (Suc c) tbl) x"
    using id_take_nth_drop [OF assms] by simp
  have 2: "slots_of (tbl[c := v]) x = slots_of (take c tbl @ v # drop (Suc c) tbl) x"
    by (simp only: upd_conv_take_nth_drop [OF assms])
  show ?thesis unfolding 1 2 by (simp add: slots_of_def)
qed

lemma free_exists:
  assumes "0 < slots_of tbl v"
  shows "\<exists>c<length tbl. tbl ! c = v"
  using assms by (auto simp: slots_of_def length_filter_conv_card card_gt_0_iff)

lemma covers_nth:
  assumes "covers m row" "c < m"
  shows "\<exists>p<length row. unat (row ! p) = c"
proof -
  have "c \<in> unat ` set row" using assms by (simp add: covers_def)
  then show ?thesis by (auto simp: in_set_conv_nth)
qed

lemma within_bound: "within m row \<Longrightarrow> p < length row \<Longrightarrow> unat (row ! p) < m"
  by (auto simp: within_def dest: nth_mem)

lemma share_Suc:
  assumes "i < nb" "j < nb" "j = n mod nb"
  shows "share nb (Suc n) i = share nb n i + (if i = j then 1 else 0)"
  using assms by (auto simp: share_def div_Suc mod_Suc)

lemma of_nat_u16_inj:
  assumes "i < 0xffff" "j < 0xffff"
  shows "(of_nat i :: u16) = of_nat j \<longleftrightarrow> i = j" "(of_nat i :: u16) \<noteq> free_slot"
    "unat (of_nat i :: u16) = i"
  using assms by (auto simp: word_unat_eq_iff unat_of_nat free_slot_def)

lemma place_row_ends:
  assumes ok: "populating_ok m rows s" and lt: "placed s < m"
    and i: "i < length rows" and none: "place rows i s = None"
  shows "\<not> covers m (rows ! i)"
proof
  assume cov: "covers m (rows ! i)"
  have "0 < slots_of (table s) free_slot" using ok lt by (auto simp: populating_ok_def)
  then obtain c where c: "c < m" "table s ! c = free_slot"
    using free_exists [of "table s" free_slot] ok by (auto simp: populating_ok_def)
  then obtain p where p: "p < length (rows ! i)" "unat (rows ! i ! p) = c"
    using covers_nth [OF cov] by blast
  have le: "nexts s ! i \<le> p"
    using ok c p i by (force simp: populating_ok_def not_le [symmetric])
  show False
    using seek_Some [OF p(1) _ le, of "table s"] p c none by (auto simp: place_def)
qed

lemma place_ok:
  assumes ok: "populating_ok m rows s"
    and i: "i = placed s mod length rows" "rows \<noteq> []" and row: "within m (rows ! i)"
    and nb: "length rows \<le> 0xffff" and place: "place rows i s = Some s'"
  shows "populating_ok m rows s' \<and> placed s' = Suc (placed s)"
proof -
  let ?row = "rows ! i" and ?t = "table s" and ?n = "length rows"
  have il: "i < ?n" using i by simp
  obtain q where sk: "seek ?t ?row (nexts s ! i) = Some q"
    and s': "s' = s\<lparr>table := ?t[unat (?row ! q) := of_nat i], nexts := (nexts s)[i := Suc q],
       placed := Suc (placed s)\<rparr>"
    using place by (auto simp: place_def split: option.splits)
  have q: "q < length ?row" "?t ! unat (?row ! q) = free_slot"
    "\<And>r. nexts s ! i \<le> r \<Longrightarrow> r < q \<Longrightarrow> ?t ! unat (?row ! r) \<noteq> free_slot"
    using seek_bounds [OF sk] seek_free [OF sk] seek_passed [OF sk] by blast+
  define d where "d = unat (?row ! q)"
  have d: "d < length ?t"
    using within_bound [OF row q(1)] ok by (simp add: d_def populating_ok_def)
  have ii: "i < 0xffff" using il nb by simp
  have upd: "slots_of (?t[d := of_nat i]) x + (if free_slot = x then 1 else 0)
      = slots_of ?t x + (if of_nat i = x then 1 else 0)" for x
    using slots_of_update [OF d, of "of_nat i" x] q(2) by (simp add: d_def)
  have "slots_of (?t[d := of_nat i]) free_slot + Suc (placed s) = m"
    using upd [of free_slot] ok of_nat_u16_inj(2) [OF ii ii] by (simp add: populating_ok_def)
  moreover have "slots_of (?t[d := of_nat i]) (of_nat j) = share ?n (Suc (placed s)) j"
    if "j < ?n" for j
    using upd [of "of_nat j"] ok that nb il share_Suc [OF that il i(1)]
      of_nat_u16_inj [of i j] of_nat_u16_inj(2) [of j j]
    by (auto simp: populating_ok_def split: if_splits)
  moreover have "?t[d := of_nat i] ! unat (rows ! j ! r) \<noteq> free_slot"
    if "j < ?n" "r < (nexts s)[i := Suc q] ! j" "r < length (rows ! j)" for j r
  proof (cases "unat (rows ! j ! r) = d")
    case True
    then show ?thesis using d of_nat_u16_inj(2) [OF ii ii] by simp
  next
    case False
    then show ?thesis
      using that q(3) ok il
      by (auto simp: populating_ok_def nth_list_update d_def less_Suc_eq split: if_splits)
        (metis linorder_not_less)
  qed
  moreover have "\<forall>x \<in> set (?t[d := of_nat i]). x = free_slot \<or> unat x < ?n"
    using ok il of_nat_u16_inj(3) [OF ii ii] by (auto simp: populating_ok_def dest!: set_update_subset_insert [THEN subsetD])
  ultimately show ?thesis
    using ok by (simp add: populating_ok_def s' d_def)
qed

text \<open>Either a row that misses a slot runs out, or every backend of the round has taken its slot.\<close>

lemma for_backends_ok:
  assumes "populating_ok m rows s" "placed s < m" "rows \<noteq> []" "j \<le> length rows"
    "placed s mod length rows = j mod length rows" "\<forall>row \<in> set rows. within m row"
    "length rows \<le> 0xffff"
  shows "(for_backends m rows [j ..< length rows] s = Inl OutOfRange \<and> (\<exists>row \<in> set rows. \<not> covers m row)) \<or>
    (\<exists>fin s'. for_backends m rows [j ..< length rows] s = Inr (fin, s') \<and>
      populating_ok m rows s' \<and> placed s + (if j < length rows then 1 else 0) \<le> placed s' \<and>
      placed s' \<le> m \<and> (fin \<longleftrightarrow> placed s' = m) \<and> (\<not> fin \<longrightarrow> placed s' mod length rows = 0))"
  using assms
proof (induction "length rows - j" arbitrary: j s)
  case 0
  then show ?case by (auto intro: exI [of _ False])
next
  case (Suc d)
  then have j: "j < length rows" by simp
  then have row: "within m (rows ! j)" and jm: "j = placed s mod length rows"
    using Suc.prems by simp_all
  have upt: "[j ..< length rows] = j # [Suc j ..< length rows]" using j by (rule upt_conv_Cons)
  show ?case
  proof (cases "place rows j s")
    case None
    then have "\<not> covers m (rows ! j)" using place_row_ends [OF Suc.prems(1,2) j] by blast
    then show ?thesis using None j by (auto simp: upt intro!: bexI [of _ "rows ! j"])
  next
    case (Some s1)
    note s1 = place_ok [OF Suc.prems(1) jm Suc.prems(3) row Suc.prems(7) Some]
    show ?thesis
    proof (cases "placed s1 = m")
      case True
      then show ?thesis using s1 Some by (auto simp: upt intro: exI [of _ True])
    next
      case False
      then have lt: "placed s1 < m" using s1 Suc.prems(2) by simp
      have md: "placed s1 mod length rows = Suc j mod length rows"
        by (metis mod_Suc_eq s1 Suc.prems(5))
      have d: "d = length rows - Suc j" "Suc j \<le> length rows" using Suc.hyps(2) j by simp_all
      show ?thesis
        using Suc.hyps(1) [OF d(1) s1 [THEN conjunct1] lt Suc.prems(3) d(2) md Suc.prems(6,7)] s1 Some False
        by (auto simp: upt split: if_splits)
    qed
  qed
qed

lemma populate_loop_ok:
  assumes "populating_ok m rows s" "placed s < m" "rows \<noteq> []"
    "placed s mod length rows = 0" "\<forall>row \<in> set rows. within m row" "length rows \<le> 0xffff"
  shows "(populate_loop m rows s = Some (Inl OutOfRange) \<and> (\<exists>row \<in> set rows. \<not> covers m row)) \<or>
    (\<exists>s'. populate_loop m rows s = Some (Inr (table s')) \<and> populating_ok m rows s' \<and> placed s' = m)"
  using assms
proof (induction "m - placed s" arbitrary: s rule: less_induct)
  case less
  have md: "placed s mod length rows = 0 mod length rows" using less.prems(4) by simp
  consider (ends) "for_backends m rows [0 ..< length rows] s = Inl OutOfRange" "\<exists>row \<in> set rows. \<not> covers m row"
    | (goes) fin s1 where "for_backends m rows [0 ..< length rows] s = Inr (fin, s1)"
      "populating_ok m rows s1" "Suc (placed s) \<le> placed s1" "placed s1 \<le> m"
      "fin \<longleftrightarrow> placed s1 = m" "\<not> fin \<longrightarrow> placed s1 mod length rows = 0"
    using for_backends_ok [OF less.prems(1-3) _ md less.prems(5,6)] less.prems(3) by auto
  then show ?case
  proof cases
    case ends
    then show ?thesis by (subst populate_loop.simps, subst (2) populate_loop.simps) auto
  next
    case goes
    show ?thesis
    proof (cases fin)
      case True
      then have "populate_loop m rows s = Some (Inr (table s1))"
        using goes(1) by (subst populate_loop.simps) simp
      then show ?thesis using goes True by auto
    next
      case False
      then have "m - placed s1 < m - placed s" "placed s1 < m" using goes less.prems(2) by auto
      moreover have "populate_loop m rows s = populate_loop m rows s1"
        using goes(1) False by (subst populate_loop.simps) simp
      ultimately show ?thesis
        using less.hyps [OF _ goes(2) _ less.prems(3) _ less.prems(5,6)] goes(6) False by simp
    qed
  qed
qed

lemma populate_balanced_table:
  assumes "0 < m" "hash_table mg = replicate m free_slot"
    "length (permutations mg) = nb_backends mg" "0 < nb_backends mg" "nb_backends mg \<le> 0xffff"
    "\<forall>row \<in> set (permutations mg). within m row"
  shows "(populate m mg = Some (Inl OutOfRange) \<and> (\<exists>row \<in> set (permutations mg). \<not> covers m row)) \<or>
    (\<exists>tbl. populate m mg = Some (Inr (mg\<lparr>hash_table := tbl\<rparr>)) \<and> length tbl = m
    \<and> (\<forall>x \<in> set tbl. unat x < nb_backends mg)
    \<and> (\<forall>i<nb_backends mg. slots_of tbl (of_nat i) = share (nb_backends mg) m i))"
proof -
  let ?rows = "permutations mg"
  let ?s = "\<lparr>table = hash_table mg, nexts = replicate (nb_backends mg) 0, placed = 0\<rparr>"
  have ne: "?rows \<noteq> []" using assms(3,4) by auto
  have 0: "slots_of (replicate m free_slot) (of_nat i) = 0" if "i < nb_backends mg" for i
    using of_nat_u16_inj(2) [of i i] that assms(5) by (simp add: slots_of_def)
  have "populating_ok m ?rows ?s"
    using assms(2,3) 0 by (auto simp: populating_ok_def slots_of_def share_def)
  then consider (ends) "populate_loop m ?rows ?s = Some (Inl OutOfRange)" "\<exists>row \<in> set ?rows. \<not> covers m row"
    | (full) s' where "populate_loop m ?rows ?s = Some (Inr (table s'))"
      "populating_ok m ?rows s'" "placed s' = m"
    using populate_loop_ok [of m ?rows ?s] assms ne by auto
  then show ?thesis
  proof cases
    case ends
    then show ?thesis by (simp add: populate_def)
  next
    case full
    have "slots_of (table s') free_slot = 0" using full(2,3) by (simp add: populating_ok_def)
    then have "free_slot \<notin> set (table s')" by (auto simp: slots_of_def filter_empty_conv)
    then have "\<forall>x \<in> set (table s'). unat x < nb_backends mg"
      using full(2) assms(3) by (auto simp: populating_ok_def)
    then show ?thesis
      using full assms(3) by (auto simp: populate_def populating_ok_def)
  qed
qed

section \<open>Permutations\<close>

definition prime_size :: "nat \<Rightarrow> bool" where
  "prime_size m \<longleftrightarrow> 1 < m \<and> (\<forall>d. 1 < d \<longrightarrow> d < m \<longrightarrow> \<not> d dvd m)"

lemma prime_size_coprime:
  assumes "prime_size m" "0 < k" "k < m"
  shows "coprime k m"
proof -
  have "gcd k m dvd m" "gcd k m \<le> k" "gcd k m \<noteq> 0"
    using assms(2) by (simp_all add: gcd_le1_nat)
  then have "gcd k m = 1"
    using assms by (metis prime_size_def le_less_trans nat_neq_iff less_one)
  then show ?thesis by (simp add: coprime_iff_gcd_eq_1)
qed

lemma prime_size_trial:
  assumes "1 < m" "m < b * b" "\<forall>d \<in> set [2 ..< b]. m mod d \<noteq> 0"
  shows "prime_size m"
  unfolding prime_size_def
proof (intro conjI allI impI notI)
  fix d assume d: "1 < d" "d < m" "d dvd m"
  then obtain e where e: "m = d * e" by (rule_tac dvdE)
  have "1 < e" using d e by (cases e) auto
  have "d < b \<or> e < b"
    using assms(2) mult_le_mono [of b d b e] by (auto simp: e not_less [symmetric])
  then show False
    using assms(3) [rule_format, of d] assms(3) [rule_format, of e] d(1) \<open>1 < e\<close>
    by (auto simp: e)
qed (use assms in simp)

lemma kSize_prime: "prime_size kSize"
proof (rule prime_size_trial [of _ 257])
  show "\<forall>d \<in> set [2 ..< 257]. kSize mod d \<noteq> 0"
    by (simp add: kSize_def upt_rec_numeral)
qed (simp_all add: kSize_def)

lemma mod_progression_inj:
  assumes "coprime s m" "i \<le> j" "j < m" "(a + i * s) mod m = (a + j * s) mod (m :: nat)"
  shows "i = j"
proof -
  have "m dvd (a + j * s) - (a + i * s)"
    using assms(4) by (metis mod_eq_dvd_iff_nat assms(2) add_le_mono le_refl mult_le_mono1)
  moreover have "(a + j * s) - (a + i * s) = (j - i) * s"
    by (simp add: diff_mult_distrib)
  ultimately have "m dvd (j - i) * s" by simp
  then have "m dvd j - i"
    using assms(1) by (simp add: coprime_dvd_mult_left_iff coprime_commute)
  then show ?thesis using assms(2,3) by (metis dvd_imp_le le_antisym less_imp_diff_less
      linorder_not_le zero_less_diff)
qed

lemma unat_row_nth:
  assumes "j < m" "m < 2 ^ 32" "unat off + (m - 1) * unat skip < 2 ^ 32"
  shows "unat (permutation_row m off skip ! j) = (unat off + j * unat skip) mod m"
proof -
  have "j * unat skip \<le> (m - 1) * unat skip" using assms(1) by (intro mult_right_mono) auto
  then have "unat off + j * unat skip < 2 ^ 32" using assms(3) by linarith
  moreover have "(unat off + j * unat skip) mod m < 2 ^ 32"
    using assms(1,2) by (intro less_trans [OF mod_less_divisor]) auto
  ultimately show ?thesis
    using assms(1,2)
    by (simp add: permutation_row_def unat_word_ariths unat_of_nat)
qed

lemma permutation_row_covers:
  assumes "prime_size m" "m < 2 ^ 32" "0 < unat skip" "unat skip < m"
    "unat off + (m - 1) * unat skip < 2 ^ 32"
  shows "covers m (permutation_row m off skip)"
proof -
  let ?f = "\<lambda>j. (unat off + j * unat skip) mod m"
  have len: "length (permutation_row m off skip) = m" by (simp add: permutation_row_def)
  have "inj_on ?f {..< m}"
    by (rule inj_onI) (metis mod_progression_inj prime_size_coprime assms(1,3,4)
        lessThan_iff linorder_le_cases)
  then have "card (?f ` {..< m}) = m" by (simp add: card_image)
  moreover have "?f ` {..< m} \<subseteq> {..< m}" using assms(4) by auto
  ultimately have im: "?f ` {..< m} = {..< m}" by (metis card_subset_eq finite_lessThan card_lessThan)
  have "set (permutation_row m off skip) = (\<lambda>j. permutation_row m off skip ! j) ` {..< m}"
    using len by (auto simp: set_conv_nth)
  then have "unat ` set (permutation_row m off skip) = ?f ` {..< m}"
    using unat_row_nth [of _ m off skip] assms(2,5) by (simp add: image_image)
  with im show ?thesis by (simp add: covers_def)
qed

lemma wrapped_row:
  "\<not> covers kSize (permutation_row kSize off 0x10000)"
proof
  let ?row = "permutation_row kSize off 0x10000"
  assume "covers kSize ?row"
  then have c: "card (unat ` set ?row) = kSize" by (simp add: covers_def)
  have len: "length ?row = kSize" by (simp add: permutation_row_def)
  have "of_nat 65536 * 0x10000 = (0 :: u32)"
    by (simp add: word_uint_eq_iff)
  then have "?row ! 0 = ?row ! 65536"
    by (simp add: permutation_row_def kSize_def del: upt_Suc of_nat_numeral mult_numeral_left_semiring_numeral)
  then have "\<not> distinct ?row"
    using len nth_eq_iff_index_eq [of ?row 0 65536] by (auto simp: kSize_def)
  then have "card (set ?row) < kSize"
    using len card_length [of ?row] card_distinct [of ?row] by linarith
  then show False using c card_image_le [of "set ?row" unat] by simp
qed

section \<open>Setup\<close>

lemma unat_offset_of: "0 < m \<Longrightarrow> m < 2 ^ 32 \<Longrightarrow> unat (offset_of jhash2 m ip) < m"
  by (simp add: offset_of_def unat_mod_distrib unat_of_nat)

lemma mod_pred_less:
  assumes "1 < (m :: nat)"
  shows "k mod (m - 1) + 1 < m"
proof -
  have "k mod (m - 1) < m - 1" using assms by simp
  then show ?thesis by linarith
qed

lemma unat_skip_of:
  assumes "1 < m" "m < 2 ^ 32"
  shows "unat (skip_of jhash2 m ip) = unat (snd (jhash2 ip)) mod (m - 1) + 1"
proof -
  have m1: "unat (of_nat m - 1 :: u32) = m - 1"
    using assms unat_sub_le [of 1 "of_nat m :: u32"]
    by (simp add: unat_le_iff unat_of_nat)
  then have "unat (snd (jhash2 ip) mod (of_nat m - 1)) = unat (snd (jhash2 ip)) mod (m - 1)"
    by (simp add: unat_mod_distrib)
  moreover have "unat (snd (jhash2 ip)) mod (m - 1) + 1 < 2 ^ 32"
    using mod_pred_less [OF assms(1)] assms(2) by (rule less_trans)
  ultimately show ?thesis
    by (simp add: skip_of_def unat_word_ariths)
qed

definition no_wrap :: "(u32 \<Rightarrow> u32 \<times> u32) \<Rightarrow> nat \<Rightarrow> u32 \<Rightarrow> bool" where
  "no_wrap jhash2 m ip \<longleftrightarrow>
     unat (offset_of jhash2 m ip) + (m - 1) * unat (skip_of jhash2 m ip) < 2 ^ 32"

lemma backend_row_covers:
  assumes "prime_size m" "m < 2 ^ 32" "no_wrap jhash2 m ip"
  shows "covers m (permutation_row m (offset_of jhash2 m ip) (skip_of jhash2 m ip))"
proof (rule permutation_row_covers)
  have "1 < m" using assms(1) by (simp add: prime_size_def)
  moreover note mod_pred_less [OF \<open>1 < m\<close>, of "unat (snd (jhash2 ip))"]
  ultimately show "0 < unat (skip_of jhash2 m ip)" "unat (skip_of jhash2 m ip) < m"
    using assms(2) by (auto simp: unat_skip_of)
qed (use assms in \<open>auto simp: no_wrap_def\<close>)

lemma row_within: "0 < m \<Longrightarrow> m < 2 ^ 32 \<Longrightarrow> within m (permutation_row m off skip)"
  by (auto simp: within_def permutation_row_def unat_mod_distrib unat_of_nat)

text \<open>
  C21. For a prime table size and any hash function, \<^verbatim>\<open>setup\<close> returns. Either it has filled
  every slot of the table with the index of a backend, so that every backend has \<open>m div n\<close> slots,
  the first \<open>m mod n\<close> of them one more; or it has read past the end of a permutation, which it does
  only when \<^verbatim>\<open>offset + j * skip\<close> passes 32 bits for one of the backends (\<open>no_wrap\<close> fails for it;
  the lemma \<open>setup_wraps\<close> has such a case).
\<close>
theorem setup_balanced:
  assumes "prime_size m" "m < 2 ^ 32" "ips \<noteq> []" "length ips \<le> 0xffff"
  shows "(\<exists>mg. maglev_setup jhash2 m (maglev_new cpu_to_be m ips) = Some (Inr mg)
      \<and> backend_ips mg = map cpu_to_be ips \<and> length (hash_table mg) = m
      \<and> (\<forall>x \<in> set (hash_table mg). unat x < length ips)
      \<and> (\<forall>i<length ips. slots_of (hash_table mg) (of_nat i)
           = m div length ips + (if i < m mod length ips then 1 else 0)))
    \<or> (maglev_setup jhash2 m (maglev_new cpu_to_be m ips) = Some (Inl OutOfRange)
      \<and> (\<exists>ip \<in> set ips. \<not> no_wrap jhash2 m (cpu_to_be ip)))"
proof -
  let ?mg = "generate_permutations jhash2 m (maglev_new cpu_to_be m ips)"
  have m: "0 < m" using assms(1) by (simp add: prime_size_def)
  have rows: "permutations ?mg = map (\<lambda>ip. permutation_row m (offset_of jhash2 m (cpu_to_be ip))
      (skip_of jhash2 m (cpu_to_be ip))) ips"
    by (simp add: generate_permutations_def maglev_new_def)
  have miss: "\<exists>ip \<in> set ips. \<not> no_wrap jhash2 m (cpu_to_be ip)" if "\<exists>row \<in> set (permutations ?mg). \<not> covers m row"
    using that backend_row_covers [OF assms(1,2)] unfolding rows by auto
  have "\<forall>row \<in> set (permutations ?mg). within m row"
    using row_within [OF m assms(2)] unfolding rows by auto
  from populate_balanced_table [OF m _ _ _ _ this] show ?thesis
    using assms(3,4) miss
    by (auto simp: maglev_setup_def share_def generate_permutations_def maglev_new_def)
qed

theorem setup_balanced_witness:
  "\<exists>mg. maglev_setup (\<lambda>x. (x, 3 * x)) kSize (maglev_new (\<lambda>x. x) kSize [7, 9]) = Some (Inr mg)
    \<and> backend_ips mg = map (\<lambda>x. x) [7, 9] \<and> length (hash_table mg) = kSize
    \<and> (\<forall>x \<in> set (hash_table mg). unat x < length [7, 9 :: u32])
    \<and> (\<forall>i<length [7, 9 :: u32]. slots_of (hash_table mg) (of_nat i)
         = kSize div length [7, 9 :: u32]
           + (if i < kSize mod length [7, 9 :: u32] then 1 else 0))"
proof -
  have fits: "\<not> (\<exists>ip \<in> set [7, 9]. \<not> no_wrap (\<lambda>x. (x, 3 * x)) kSize ip)"
    by (simp add: kSize_def no_wrap_def offset_of_def skip_of_def unat_mod_distrib)
  have "kSize < 2 ^ 32" "[7, 9 :: u32] \<noteq> []" "length [7, 9 :: u32] \<le> 0xffff" by (simp_all add: kSize_def)
  from setup_balanced [OF kSize_prime this, of "\<lambda>x. (x, 3 * x)" "\<lambda>x. x"] fits show ?thesis by blast
qed

text \<open>
  The product wraps for the largest skips: with \<^verbatim>\<open>skip\<close> 65536 the last position of the row
  is the first one again. Populating from a row that misses a slot runs off its end.
\<close>

definition alone_ok :: "nat \<Rightarrow> u32 list \<Rightarrow> populating \<Rightarrow> bool" where
  "alone_ok m row s \<longleftrightarrow> length (nexts s) = 1 \<and> length (table s) = m \<and>
     slots_of (table s) free_slot + placed s = m \<and>
     (\<forall>c<m. table s ! c \<noteq> free_slot \<longrightarrow> c \<in> unat ` set row)"

lemma place_alone:
  assumes ok: "alone_ok m row s" and row: "unat ` set row \<subset> {..< m}"
    and p: "place [row] 0 s = Some s'"
  shows "alone_ok m row s' \<and> placed s' \<noteq> m \<and> nexts s ! 0 < nexts s' ! 0
    \<and> nexts s' ! 0 \<le> length row"
proof -
  obtain q where q: "seek (table s) row (nexts s ! 0) = Some q"
    and s': "s' = s\<lparr>table := (table s)[unat (row ! q) := 0], nexts := (nexts s)[0 := Suc q],
                   placed := Suc (placed s)\<rparr>"
    using p by (auto simp: place_def split: option.splits)
  have b: "nexts s ! 0 \<le> q" "q < length row" using seek_bounds [OF q] by auto
  then have "unat (row ! q) \<in> unat ` set row" by simp
  then have d: "unat (row ! q) < length (table s)" using row ok by (auto simp: alone_ok_def)
  have z: "(0 :: u16) \<noteq> free_slot" by (simp add: free_slot_def)
  have "Suc (slots_of (table s') free_slot) = slots_of (table s) free_slot"
    using slots_of_update [OF d, of 0 free_slot] seek_free [OF q] z by (simp add: s')
  then have ok': "alone_ok m row s'"
    using ok b z d \<open>unat (row ! q) \<in> _\<close>
    by (auto simp: alone_ok_def s' nth_list_update split: if_splits)
  obtain c where c: "c < m" "c \<notin> unat ` set row" using row by auto
  then have "table s' ! c = free_slot" using ok' by (auto simp: alone_ok_def)
  then have "0 < slots_of (table s') free_slot"
    using c(1) ok' by (auto simp: alone_ok_def slots_of_def filter_empty_conv in_set_conv_nth)
  then show ?thesis
    using ok ok' b by (auto simp: alone_ok_def s')
qed

lemma populate_loop_alone:
  assumes "alone_ok m row s" "unat ` set row \<subset> {..< m}"
  shows "populate_loop m [row] s = Some (Inl OutOfRange)"
  using assms
proof (induction "Suc (length row) - nexts s ! 0" arbitrary: s rule: less_induct)
  case less
  show ?case
  proof (cases "place [row] 0 s")
    case None
    then show ?thesis by (subst populate_loop.simps) simp
  next
    case (Some s')
    note step = place_alone [OF less.prems Some]
    then have "Suc (length row) - nexts s' ! 0 < Suc (length row) - nexts s ! 0" by auto
    then have "populate_loop m [row] s' = Some (Inl OutOfRange)" "placed s' \<noteq> m"
      using less.hyps [of s'] step less.prems(2) by blast+
    then show ?thesis using Some by (subst populate_loop.simps) simp
  qed
qed

text \<open>
  With the code's table size, a single backend whose second hash is 65535 modulo 65536
  has a row that wraps around 32 bits, names slot \<^verbatim>\<open>offset\<close> twice and misses another one:
  \<^verbatim>\<open>setup\<close> reads past the end of \<^verbatim>\<open>permutations_\<close>.
\<close>
theorem setup_wraps:
  assumes "unat (snd (jhash2 (cpu_to_be ip))) mod 65536 = 65535"
  shows "maglev_setup jhash2 kSize (maglev_new cpu_to_be kSize [ip]) = Some (Inl OutOfRange)"
proof -
  let ?off = "offset_of jhash2 kSize (cpu_to_be ip)"
  let ?row = "permutation_row kSize ?off 0x10000"
  have "unat (skip_of jhash2 kSize (cpu_to_be ip)) = 65536"
    using unat_skip_of [of kSize jhash2 "cpu_to_be ip"] assms by (simp add: kSize_def)
  then have skip: "skip_of jhash2 kSize (cpu_to_be ip) = 0x10000"
    by (simp add: word_unat_eq_iff)
  have "unat x < kSize" if "x \<in> set ?row" for x
    using that by (auto simp: permutation_row_def unat_mod_distrib kSize_def)
  then have row: "unat ` set ?row \<subset> {..< kSize}"
    using wrapped_row [of ?off] by (auto simp: covers_def)
  have "alone_ok kSize ?row \<lparr>table = replicate kSize free_slot, nexts = [0], placed = 0\<rparr>"
    by (simp add: alone_ok_def slots_of_def)
  from populate_loop_alone [OF this row] show ?thesis
    by (simp add: maglev_setup_def populate_def generate_permutations_def maglev_new_def skip)
qed

theorem setup_wraps_witness:
  "maglev_setup (\<lambda>x. (x, x)) kSize (maglev_new (\<lambda>x. x) kSize [0xc0a8ffff])
     = Some (Inl OutOfRange)"
  by (rule setup_wraps) simp

section \<open>The cache\<close>

text \<open>
  A bucket is four entries. The used ones are a prefix, and the number in the first entry is
  the position of the newest, so the keys can be listed from the oldest to the newest.
\<close>

lemma entry_simps [simp]:
  "entry_is_entry (set_is_entry v e) = v"
  "entry_value (set_is_entry v e) = entry_value e"
  "entry_key (set_is_entry v e) = entry_key e"
  "entry_is_entry (new_entry tbl m hash) = 1"
  "entry_value (new_entry tbl m hash) = tbl ! (unat hash mod m)"
  "entry_key (new_entry tbl m hash) = hash"
  by (rule bit_word_eqI, auto simp: entry_is_entry_def entry_value_def entry_key_def
      set_is_entry_def new_entry_def bit_simps dest: bit_imp_le_length)+

definition bucket_slots :: "fbk_table \<Rightarrow> nat \<Rightarrow> u64 list" where
  "bucket_slots ht b = take kEntriesPerBucket (drop b (fbk_t ht))"

definition newest_slot :: "u64 list \<Rightarrow> nat" where
  "newest_slot es = unat (drop_bit 1 (entry_is_entry (es ! 0)))"

definition used :: "u64 \<Rightarrow> bool" where "used e \<longleftrightarrow> entry_is_entry e \<noteq> 0"

definition bucket_keys :: "u64 list \<Rightarrow> u32 list" where
  "bucket_keys es =
     map entry_key (if used (last es) then rotate (Suc (newest_slot es)) es
                    else takeWhile used es)"

fun used_prefix :: "u64 list \<Rightarrow> bool" where
  "used_prefix (e # f # es) \<longleftrightarrow> (used f \<longrightarrow> used e) \<and> used_prefix (f # es)"
| "used_prefix es \<longleftrightarrow> True"

definition bucket_ok :: "u16 list \<Rightarrow> nat \<Rightarrow> u64 list \<Rightarrow> bool" where
  "bucket_ok tbl m es \<longleftrightarrow>
     length es = kEntriesPerBucket \<and> newest_slot es < kEntriesPerBucket \<and> used_prefix es \<and>
     (\<forall>e \<in> set es. used e \<longrightarrow> entry_value e = tbl ! (unat (entry_key e) mod m))"

definition cache_ok :: "u16 list \<Rightarrow> nat \<Rightarrow> fbk_table \<Rightarrow> bool" where
  "cache_ok tbl m ht \<longleftrightarrow> kEntriesPerBucket dvd length (fbk_t ht) \<and>
     (\<forall>b. kEntriesPerBucket dvd b \<longrightarrow> b < length (fbk_t ht) \<longrightarrow>
        bucket_ok tbl m (bucket_slots ht b))"

definition fifo_insert :: "nat \<Rightarrow> 'a \<Rightarrow> 'a list \<Rightarrow> 'a list" where
  "fifo_insert n x xs =
     (if x \<in> set xs then xs else if length xs < n then xs @ [x] else tl xs @ [x])"

lemma newest_written:
  assumes "i < kEntriesPerBucket"
  shows "unat (drop_bit 1 (push_bit 1 (of_nat i) OR 1 :: u16)) = i"
    "(push_bit 1 (of_nat i) OR 1 :: u16) \<noteq> 0"
proof -
  have "i \<in> {0, 1, 2, 3}" using assms by (auto simp: kEntriesPerBucket_def)
  then show "unat (drop_bit 1 (push_bit 1 (of_nat i) OR 1 :: u16)) = i"
    "(push_bit 1 (of_nat i) OR 1 :: u16) \<noteq> 0"
    by auto
qed

lemma four_cases:
  assumes "length es = kEntriesPerBucket"
  obtains a b c d where "es = [a, b, c, d]"
  using assms by (auto simp: kEntriesPerBucket_def numeral_eq_Suc length_Suc_conv)

lemma less_four: "(i :: nat) < kEntriesPerBucket \<longleftrightarrow> i = 0 \<or> i = 1 \<or> i = 2 \<or> i = 3"
  by (auto simp: kEntriesPerBucket_def)

lemma i4: "(0 :: nat) < kEntriesPerBucket" "1 < kEntriesPerBucket" "2 < kEntriesPerBucket"
    "3 < kEntriesPerBucket" "[a, b, c, d] ! 2 = c" "[a, b, c, d] ! 3 = d"
    "[a, b, c, d][2 := x] = [a, b, x, d]" "[a, b, c, d][3 := x] = [a, b, c, x]"
    "Suc 0 < kEntriesPerBucket" "length [a, b, c, d] = kEntriesPerBucket"
  by (simp_all add: kEntriesPerBucket_def numeral_eq_Suc)

lemma all_four: "(\<forall>i<kEntriesPerBucket. P i) \<longleftrightarrow> P 0 \<and> P 1 \<and> P 2 \<and> P 3"
  using less_four by auto

lemma all_below: "(\<forall>i<(0::nat). P i) \<longleftrightarrow> True" "(\<forall>i<(1::nat). P i) \<longleftrightarrow> P 0"
    "(\<forall>i<(2::nat). P i) \<longleftrightarrow> P 0 \<and> P 1" "(\<forall>i<(3::nat). P i) \<longleftrightarrow> P 0 \<and> P 1 \<and> P 2"
  by (auto simp: less_Suc_eq numeral_eq_Suc)

lemma rotate_four: "rotate (Suc 0) [a, b, c, d] = [b, c, d, a]"
    "rotate (Suc 1) [a, b, c, d] = [c, d, a, b]"
    "rotate (Suc 2) [a, b, c, d] = [d, a, b, c]"
    "rotate (Suc 3) [a, b, c, d] = [a, b, c, d]" "rotate 2 [a, b, c, d] = [c, d, a, b]"
    "rotate 3 [a, b, c, d] = [d, a, b, c]" "rotate 4 [a, b, c, d] = [a, b, c, d]"
  by (simp_all add: rotate_drop_take)

lemma bucket_ok_write_free:
  assumes "bucket_ok tbl m es" "i < kEntriesPerBucket" "\<not> used (es ! i)" "\<forall>j<i. used (es ! j)"
    "hash \<notin> set (bucket_keys es)"
  shows "bucket_ok tbl m (write_entry 0 i (new_entry tbl m hash) es)
    \<and> bucket_keys (write_entry 0 i (new_entry tbl m hash) es) = bucket_keys es @ [hash]"
proof -
  obtain a b c d where es: "es = [a, b, c, d]"
    using assms(1) by (auto simp: bucket_ok_def elim: four_cases)
  note w = newest_written [OF assms(2)]
  have u: "used (set_is_entry (push_bit 1 (of_nat i) OR 1) e)" for e
    using w(2) by (simp add: used_def)
  have n: "newest_slot (set_is_entry (push_bit 1 (of_nat i) OR 1) e # xs) = i" for e xs
    using w(1) by (simp add: newest_slot_def)
  have v: "used (new_entry tbl m hash)" by (simp add: used_def)
  note defs = es bucket_ok_def bucket_keys_def write_entry_def i4 all_below rotate_four
  from assms(2) consider "i = 0" | "i = 1" | "i = 2" | "i = 3" unfolding less_four by blast
  then show ?thesis
  proof cases
    case 1
    then show ?thesis using assms u n v by (auto simp: defs)
  next
    case 2
    then show ?thesis using assms u n v by (auto simp: defs)
  next
    case 3
    then show ?thesis using assms u n v by (auto simp: defs)
  next
    case 4
    then show ?thesis using assms u n v by (auto simp: defs)
  qed
qed

lemma bucket_ok_replace:
  assumes "bucket_ok tbl m es" "\<forall>i<kEntriesPerBucket. used (es ! i)"
    "hash \<notin> set (bucket_keys es)" "i = Suc (newest_slot es) mod kEntriesPerBucket"
  shows "bucket_ok tbl m (write_entry 0 i (new_entry tbl m hash) es)
    \<and> bucket_keys (write_entry 0 i (new_entry tbl m hash) es) = tl (bucket_keys es) @ [hash]"
proof -
  obtain a b c d where es: "es = [a, b, c, d]"
    using assms(1) by (auto simp: bucket_ok_def elim: four_cases)
  have i: "i < kEntriesPerBucket" by (simp add: assms(4) kEntriesPerBucket_def)
  note w = newest_written [OF i]
  have u: "used (set_is_entry (push_bit 1 (of_nat i) OR 1) e)" for e
    using w(2) by (simp add: used_def)
  have n: "newest_slot (set_is_entry (push_bit 1 (of_nat i) OR 1) e # xs) = i" for e xs
    using w(1) by (simp add: newest_slot_def)
  have v: "used (new_entry tbl m hash)" by (simp add: used_def)
  have "newest_slot es < kEntriesPerBucket" using assms(1) by (simp add: bucket_ok_def)
  then consider "newest_slot es = 0" "i = 1" | "newest_slot es = 1" "i = 2"
    | "newest_slot es = 2" "i = 3" | "newest_slot es = 3" "i = 0"
    using assms(4) by (auto simp: less_four) (auto simp: kEntriesPerBucket_def)
  then show ?thesis
    using assms(1-3) u n v
    by cases (simp_all add: es bucket_ok_def i4 bucket_keys_def write_entry_def all_four rotate_four)
qed

lemma used_prefix_down:
  "used_prefix es \<Longrightarrow> i \<le> j \<Longrightarrow> j < length es \<Longrightarrow> used (es ! j) \<Longrightarrow> used (es ! i)"
proof (induction es arbitrary: i j rule: used_prefix.induct)
  case (1 e f es)
  show ?case
  proof (cases i)
    case 0
    then show ?thesis
      using 1(1) [of 0 "j - 1"] 1(2-) by (cases j) auto
  next
    case (Suc k)
    then show ?thesis
      using 1(1) [of k "j - 1"] 1(2-) by (cases j) auto
  qed
qed auto

lemma bucket_slots_nth:
  assumes "b + kEntriesPerBucket \<le> length (fbk_t ht)" "i < kEntriesPerBucket"
  shows "fbk_t ht ! (b + i) = bucket_slots ht b ! i"
  using assms by (simp add: bucket_slots_def)

lemma bucket_slots_write:
  assumes "b + kEntriesPerBucket \<le> length (fbk_t ht)" "i < kEntriesPerBucket"
    "fbk_t ht' = write_entry b i e (fbk_t ht)"
  shows "bucket_slots ht' b = write_entry 0 i e (bucket_slots ht b)"
  using assms
  by (simp add: bucket_slots_def write_entry_def Let_def drop_update_swap take_update_swap
      nth_list_update)

lemma bucket_slots_other:
  assumes "kEntriesPerBucket dvd b" "kEntriesPerBucket dvd b'" "b \<noteq> b'" "i < kEntriesPerBucket"
    "fbk_t ht' = write_entry b i e (fbk_t ht)"
  shows "bucket_slots ht' b' = bucket_slots ht b'"
proof -
  obtain p q where pq: "b = kEntriesPerBucket * p" "b' = kEntriesPerBucket * q"
    using assms(1,2) by (auto simp: dvd_def)
  then have "b + i < b' \<or> b' + kEntriesPerBucket \<le> b" "b < b' \<or> b' + kEntriesPerBucket \<le> b"
    using assms(3,4) by (auto simp: kEntriesPerBucket_def)
  then show ?thesis
    using assms(5)
    by (auto simp: bucket_slots_def write_entry_def Let_def drop_update_swap list_eq_iff_nth_eq
        nth_list_update)
qed

lemma bucket_keys_used:
  assumes "bucket_ok tbl m es"
  shows "set (bucket_keys es) = {entry_key e |e. e \<in> set es \<and> used e}"
    "length (bucket_keys es) < kEntriesPerBucket \<longleftrightarrow> \<not> used (last es)"
proof -
  obtain a b c d where es: "es = [a, b, c, d]"
    using assms by (auto simp: bucket_ok_def elim: four_cases)
  show "set (bucket_keys es) = {entry_key e |e. e \<in> set es \<and> used e}"
    "length (bucket_keys es) < kEntriesPerBucket \<longleftrightarrow> \<not> used (last es)"
    using assms by (auto simp: es bucket_ok_def bucket_keys_def kEntriesPerBucket_def)
qed

definition cached_ok ::
  "u16 list \<Rightarrow> nat \<Rightarrow> fbk_table \<Rightarrow> u32 \<Rightarrow> nat \<Rightarrow> fbk_table \<times> u16 \<Rightarrow> bool" where
  "cached_ok tbl m ht hash b r \<longleftrightarrow>
     snd r = tbl ! (unat hash mod m) \<and> cache_ok tbl m (fst r) \<and>
     bucket_keys (bucket_slots (fst r) b)
       = fifo_insert kEntriesPerBucket hash (bucket_keys (bucket_slots ht b)) \<and>
     (\<forall>b'. kEntriesPerBucket dvd b' \<longrightarrow> b' \<noteq> b \<longrightarrow>
        bucket_slots (fst r) b' = bucket_slots ht b')"

lemma aligned_bucket:
  assumes "cache_ok tbl m ht" "kEntriesPerBucket dvd b" "b < length (fbk_t ht)"
  shows "b + kEntriesPerBucket \<le> length (fbk_t ht)" "bucket_ok tbl m (bucket_slots ht b)"
  using assms by (auto simp: cache_ok_def dvd_def kEntriesPerBucket_def)

lemma cached_ok_write:
  assumes ok: "cache_ok tbl m ht" and b: "kEntriesPerBucket dvd b" "b < length (fbk_t ht)"
    and i: "i < kEntriesPerBucket"
    and w: "fbk_t ht' = write_entry b i (new_entry tbl m hash) (fbk_t ht)"
    and es: "bucket_ok tbl m (write_entry 0 i (new_entry tbl m hash) (bucket_slots ht b))"
      "bucket_keys (write_entry 0 i (new_entry tbl m hash) (bucket_slots ht b))
         = fifo_insert kEntriesPerBucket hash (bucket_keys (bucket_slots ht b))"
  shows "cached_ok tbl m ht hash b (ht', entry_value (new_entry tbl m hash))"
proof -
  note here = bucket_slots_write [OF aligned_bucket(1) [OF ok b] i w]
  note other = bucket_slots_other [OF b(1) _ _ i w]
  have "length (fbk_t ht') = length (fbk_t ht)"
    by (simp add: w write_entry_def Let_def)
  then have "cache_ok tbl m ht'"
    using ok es(1) here other unfolding cache_ok_def by (metis (no_types))
  then show ?thesis
    using es(2) here other by (auto simp: cached_ok_def)
qed

lemma bucket_loop_ok:
  assumes "cache_ok tbl m ht" "kEntriesPerBucket dvd b" "b < length (fbk_t ht)"
    "i \<le> kEntriesPerBucket"
    "\<forall>j<i. used (bucket_slots ht b ! j) \<and> entry_key (bucket_slots ht b ! j) \<noteq> hash"
  shows "cached_ok tbl m ht hash b (bucket_loop tbl m ht hash b i)"
  using assms
proof (induction "kEntriesPerBucket - i" arbitrary: i)
  case 0
  let ?es = "bucket_slots ht b"
  have i: "i = kEntriesPerBucket" using 0 by simp
  note al = aligned_bucket [OF 0(2,3,4)]
  have len: "length ?es = kEntriesPerBucket" using al(2) by (simp add: bucket_ok_def)
  have all: "\<forall>j<kEntriesPerBucket. used (?es ! j)" using 0 i by blast
  have new: "hash \<notin> set (bucket_keys ?es)"
    using 0(6) i len by (auto simp: bucket_keys_used(1) [OF al(2)] in_set_conv_nth)
  have "used (last ?es)"
    using all len by (cases "?es = []") (auto simp: last_conv_nth kEntriesPerBucket_def)
  then have full: "\<not> length (bucket_keys ?es) < kEntriesPerBucket"
    by (simp add: bucket_keys_used(2) [OF al(2)])
  let ?k = "Suc (newest_slot ?es) mod kEntriesPerBucket"
  have k: "?k < kEntriesPerBucket" by (simp add: kEntriesPerBucket_def)
  have and4: "n AND (kEntriesPerBucket - 1) = n mod kEntriesPerBucket" for n :: nat
    using take_bit_eq_mask [of 2 n] by (simp add: kEntriesPerBucket_def mask_eq_exp_minus_1 take_bit_eq_mod)
  have nw: "unat (drop_bit 1 (entry_is_entry (fbk_t ht ! b))) = newest_slot ?es"
    using bucket_slots_nth [OF al(1), of 0] by (simp add: newest_slot_def kEntriesPerBucket_def)
  have "cached_ok tbl m ht hash b
      (ht\<lparr>fbk_t := write_entry b ?k (new_entry tbl m hash) (fbk_t ht)\<rparr>,
       entry_value (new_entry tbl m hash))"
    using bucket_ok_replace [OF al(2) all new refl] new full
    by (intro cached_ok_write [OF 0(2,3,4) k]) (auto simp: fifo_insert_def)
  then show ?case
    by (simp add: i bucket_loop.simps [of tbl m ht hash b] replace_oldest_def Let_def
        and4 [unfolded One_nat_def] nw [unfolded One_nat_def] del: entry_simps)
next
  case (Suc d)
  let ?es = "bucket_slots ht b"
  have i: "i < kEntriesPerBucket" using Suc.hyps(2) by simp
  note al = aligned_bucket [OF Suc.prems(1,2,3)]
  have len: "length ?es = kEntriesPerBucket" using al(2) by (simp add: bucket_ok_def)
  note nth = bucket_slots_nth [OF al(1) i]
  show ?case
  proof (cases "used (?es ! i)")
    case False
    have pre: "\<forall>j<i. used (?es ! j)" using Suc.prems(5) by blast
    have unused: "used (?es ! j) \<Longrightarrow> j < kEntriesPerBucket \<Longrightarrow> j < i" for j
      using used_prefix_down [of ?es i j] al(2) False len by (rule_tac ccontr) (simp add: bucket_ok_def not_less)
    have new: "hash \<notin> set (bucket_keys ?es)"
      using Suc.prems(5) unused len
      by (auto simp: bucket_keys_used(1) [OF al(2)] in_set_conv_nth)
    have "\<not> used (last ?es)"
      using unused [of "kEntriesPerBucket - 1"] i len
      by (cases "?es = []") (auto simp: last_conv_nth kEntriesPerBucket_def)
    then have "length (bucket_keys ?es) < kEntriesPerBucket"
      by (simp add: bucket_keys_used(2) [OF al(2)])
    then have "cached_ok tbl m ht hash b
      (ht\<lparr>fbk_t := write_entry b i (new_entry tbl m hash) (fbk_t ht),
          used_entries := used_entries ht + 1\<rparr>, entry_value (new_entry tbl m hash))"
      using bucket_ok_write_free [OF al(2) i False pre new] new
      by (intro cached_ok_write [OF Suc.prems(1,2,3) i]) (auto simp: fifo_insert_def)
    then show ?thesis
      using i False nth
      by (simp add: bucket_loop.simps [of tbl m ht hash b i] Let_def used_def del: entry_simps)
  next
    case True
    show ?thesis
    proof (cases "entry_key (?es ! i) = hash")
      case hit: True
      have mem: "?es ! i \<in> set ?es" using i len by simp
      then have "entry_value (?es ! i) = tbl ! (unat hash mod m)"
        using al(2) True hit by (auto simp: bucket_ok_def)
      moreover have "hash \<in> set (bucket_keys ?es)"
        using mem True hit by (auto simp: bucket_keys_used(1) [OF al(2)])
      ultimately show ?thesis
        using i True hit nth Suc.prems(1)
        by (simp add: bucket_loop.simps [of tbl m ht hash b i] used_def cached_ok_def
            fifo_insert_def)
    next
      case False
      then have "cached_ok tbl m ht hash b (bucket_loop tbl m ht hash b (Suc i))"
        using Suc.hyps(1) [of "Suc i"] Suc.hyps(2) Suc.prems True by (auto simp: less_Suc_eq)
      then show ?thesis
        using i True False nth by (simp add: bucket_loop.simps [of tbl m ht hash b i] used_def)
    qed
  qed
qed

text \<open>
  C31. From a cache whose entries agree with the table, a lookup returns the table's backend
  for the hash, whether it hits or misses; the cache still agrees, no other bucket changes,
  and the bucket is a FIFO queue of its last four different missed hashes.
\<close>
theorem cache_is_fifo:
  assumes "cache_ok tbl m ht" "kEntriesPerBucket dvd b" "b < length (fbk_t ht)"
    and "(ht', v) = get_cached_hash_value_with_bucket tbl m ht hash b"
  shows "v = tbl ! (unat hash mod m) \<and> cache_ok tbl m ht'
    \<and> bucket_keys (bucket_slots ht' b)
        = fifo_insert kEntriesPerBucket hash (bucket_keys (bucket_slots ht b))
    \<and> (\<forall>b'. kEntriesPerBucket dvd b' \<longrightarrow> b' \<noteq> b \<longrightarrow>
         bucket_slots ht' b' = bucket_slots ht b')"
proof -
  have "bucket_loop tbl m ht hash b 0 = (ht', v)"
    using assms(4) by (simp add: get_cached_hash_value_with_bucket_def)
  with bucket_loop_ok [OF assms(1-3), of 0 hash] show ?thesis
    by (simp add: cached_ok_def)
qed

definition empty_cache :: "nat \<Rightarrow> fbk_table" where
  "empty_cache n = \<lparr>fbk_t = replicate n 0, used_entries = 0\<rparr>"

lemma empty_cache_ok:
  assumes "kEntriesPerBucket dvd n"
  shows "cache_ok tbl m (empty_cache n)"
proof -
  have "bucket_ok tbl m (replicate 4 0)"
    by (simp add: bucket_ok_def kEntriesPerBucket_def newest_slot_def used_def entry_is_entry_def
        numeral_eq_Suc)
  moreover have "bucket_slots (empty_cache n) b = replicate 4 0"
    if "kEntriesPerBucket dvd b" "b < n" for b
    using assms that
    by (auto simp: bucket_slots_def empty_cache_def kEntriesPerBucket_def dvd_def)
  ultimately show ?thesis
    using assms by (simp add: cache_ok_def) (simp add: empty_cache_def)
qed

theorem cache_is_fifo_witness:
  "\<exists>ht' v. (ht', v) = get_cached_hash_value_with_bucket [1, 0, 2] 3 (empty_cache 8) 5 4
    \<and> v = 2 \<and> bucket_keys (bucket_slots ht' 4) = [5]"
proof -
  obtain ht' v where r: "(ht', v) = get_cached_hash_value_with_bucket [1, 0, 2] 3 (empty_cache 8) 5 4"
    by (metis surj_pair)
  have "bucket_keys (bucket_slots (empty_cache 8) 4) = []"
    by (simp add: bucket_keys_def bucket_slots_def empty_cache_def kEntriesPerBucket_def used_def
        entry_is_entry_def numeral_eq_Suc)
  with cache_is_fifo [OF empty_cache_ok _ _ r] r show ?thesis
    by (auto simp: kEntriesPerBucket_def fifo_insert_def empty_cache_def)
qed

text \<open>
  A lookup, then, has the effect of the table alone: the packet's addresses and protocol
  decide the backend, and only the destination is rewritten.
\<close>

lemma mix_proto_twice: "mix_proto (mix_proto pkt) = pkt"
  by (simp add: mix_proto_def xor.assoc)

definition flow_hash :: "(u32 \<Rightarrow> u32 \<Rightarrow> u32 \<Rightarrow> u32) \<Rightarrow> packet \<Rightarrow> u32" where
  "flow_hash jhash3 pkt =
     jhash3 (src_addr pkt) (dst_addr pkt XOR ucast (next_proto_id pkt)) (l4_word pkt)"

text \<open>
  C32. After \<^verbatim>\<open>setup\<close>, a lookup sends a packet to the backend the table holds for the hash of
  its flow, changes no other field of it, and keeps the cache in agreement with the table; so
  two packets of a flow go to the same backend, whatever the cache holds in between.
\<close>
theorem lookup_forwards:
  assumes "cache_ok (hash_table mg) m ht" "0 < m" "length (hash_table mg) = m"
    and "\<forall>x \<in> set (hash_table mg). unat x < length (backend_ips mg)"
    and "\<forall>h. kEntriesPerBucket dvd get_bucket h \<and> get_bucket h < length (fbk_t ht)"
  shows "fst (lookup jhash3 get_bucket m mg ht pkt)
      = Inr (pkt\<lparr>dst_addr :=
          backend_ips mg ! unat (hash_table mg ! (unat (flow_hash jhash3 pkt) mod m))\<rparr>)
    \<and> cache_ok (hash_table mg) m (snd (lookup jhash3 get_bucket m mg ht pkt))"
proof -
  let ?h = "flow_hash jhash3 pkt"
  have h: "jhash3 (src_addr (mix_proto pkt)) (dst_addr (mix_proto pkt)) (l4_word (mix_proto pkt)) = ?h"
    by (simp add: flow_hash_def mix_proto_def)
  obtain ht' v where r: "bucket_loop (hash_table mg) m ht ?h (get_bucket ?h) 0 = (ht', v)"
    by (rule prod.exhaust)
  have "cached_ok (hash_table mg) m ht ?h (get_bucket ?h) (ht', v)"
    using bucket_loop_ok [of "hash_table mg" m ht "get_bucket ?h" 0 ?h] assms(1,5) r by simp
  then have v: "v = hash_table mg ! (unat ?h mod m)" "cache_ok (hash_table mg) m ht'"
    by (simp_all add: cached_ok_def)
  then have "unat v < length (backend_ips mg)"
    using assms(2-4) by simp
  then show ?thesis
    using v by (simp add: lookup_def Let_def h r mix_proto_twice get_cached_hash_value_def
        get_cached_hash_value_with_bucket_def)
qed

theorem lookup_forwards_witness:
  "fst (lookup (\<lambda>a b c. a + b + c) (\<lambda>h. 4 * (unat h mod 2)) 3
        \<lparr>nb_backends = 2, backend_ips = [10, 20], hash_table = [1, 0, 1], permutations = []\<rparr>
        (empty_cache 8) \<lparr>next_proto_id = 6, src_addr = 1, dst_addr = 2, l4_word = 3\<rparr>)
     = Inr \<lparr>next_proto_id = 6, src_addr = 1, dst_addr = 20, l4_word = 3\<rparr>"
proof -
  have "(4 :: nat) * (n mod 2) < 8" for n :: nat by auto
  then show ?thesis
    using lookup_forwards [of "\<lparr>nb_backends = 2, backend_ips = [10, 20],
          hash_table = [1, 0, 1], permutations = []\<rparr>" 3 "empty_cache 8"
          "\<lambda>h. 4 * (unat h mod 2)" "\<lambda>a b c. a + b + c"
          "\<lparr>next_proto_id = 6, src_addr = 1, dst_addr = 2, l4_word = 3\<rparr>"]
    by (simp add: empty_cache_ok kEntriesPerBucket_def flow_hash_def)
      (simp add: empty_cache_def)
qed

end
