(* ===== verification/Doubles.thy ===== *)
theory Doubles
  imports Complex_Main
begin

text \<open>
  The \<^verbatim>\<open>double\<close> arithmetic of \<^verbatim>\<open>mica/util/latency.h\<close>. A \<^verbatim>\<open>double\<close> is a real with a 53-bit
  significand; \<open>double_of\<close> rounds a real to the nearest one, ties to the even significand,
  which is what the conversions, the products and the quotients of the code do (IEEE 754,
  the default rounding, results that neither overflow nor are subnormal).
\<close>

definition half_even :: "real \<Rightarrow> int" where
  "half_even m =
     (let f = \<lfloor>m\<rfloor> in if m - of_int f < 1 / 2 \<or> (m - of_int f = 1 / 2 \<and> even f) then f else f + 1)"

definition double_of :: "real \<Rightarrow> real" where
  "double_of x =
     (if x = 0 then 0
      else let e = \<lfloor>log 2 \<bar>x\<bar>\<rfloor> - 52
           in sgn x * of_int (half_even (\<bar>x\<bar> / 2 powr of_int e)) * 2 powr of_int e)"

text \<open>A cast to \<^verbatim>\<open>int64_t\<close> drops the fraction.\<close>

definition to_int64 :: "real \<Rightarrow> int" where
  "to_int64 x = (if 0 \<le> x then \<lfloor>x\<rfloor> else \<lceil>x\<rceil>)"

lemma half_even_of_int [simp]: "half_even (of_int k) = k"
  by (simp add: half_even_def)

lemma half_even_numeral [simp]: "half_even (numeral k) = numeral k"
  using half_even_of_int [of "numeral k"] by simp

lemma half_even_mono:
  assumes "x \<le> y"
  shows "half_even x \<le> half_even y"
proof (cases "\<lfloor>x\<rfloor> = \<lfloor>y\<rfloor>")
  case True
  then show ?thesis using assms by (auto simp: half_even_def Let_def)
next
  case False
  then have "\<lfloor>x\<rfloor> + 1 \<le> \<lfloor>y\<rfloor>" using floor_mono [OF assms] by simp
  moreover have "half_even x \<le> \<lfloor>x\<rfloor> + 1" "\<lfloor>y\<rfloor> \<le> half_even y" by (auto simp: half_even_def Let_def)
  ultimately show ?thesis by linarith
qed

lemma double_of_pos:
  "0 < x \<Longrightarrow> double_of x =
     of_int (half_even (x / 2 powr of_int (\<lfloor>log 2 x\<rfloor> - 52))) * 2 powr of_int (\<lfloor>log 2 x\<rfloor> - 52)"
  by (simp add: double_of_def Let_def)

lemma double_of_bounds:
  assumes "0 < x"
  shows "2 powr \<lfloor>log 2 x\<rfloor> \<le> double_of x" and "double_of x \<le> 2 powr (\<lfloor>log 2 x\<rfloor> + 1)"
proof -
  define e where "e = \<lfloor>log 2 x\<rfloor>"
  have x: "2 powr e \<le> x" "x < 2 powr (e + 1)"
    using floor_log_eq_powr_iff [of x 2 e] assms by (auto simp: e_def)
  have q: "x / 2 powr of_int (e - 52) = x / 2 powr e * 2 ^ 52"
    by (simp add: powr_diff)
  have "of_int (2 ^ 52) \<le> x / 2 powr of_int (e - 52)" "x / 2 powr of_int (e - 52) \<le> of_int (2 ^ 53)"
    unfolding q using x by (simp_all add: field_simps powr_add)
  from this [THEN half_even_mono]
  have h: "2 ^ 52 \<le> half_even (x / 2 powr of_int (e - 52))" "half_even (x / 2 powr of_int (e - 52)) \<le> 2 ^ 53"
    by (simp_all only: half_even_of_int)
  have d: "double_of x = of_int (half_even (x / 2 powr of_int (e - 52))) * 2 powr of_int (e - 52)"
    using double_of_pos [OF assms] by (simp add: e_def)
  have "of_int (2 ^ 52) * 2 powr of_int (e - 52) \<le> double_of x"
    "double_of x \<le> of_int (2 ^ 53) * 2 powr of_int (e - 52)"
    unfolding d using h by (intro mult_right_mono; simp only: of_int_le_iff; simp)+
  then show "2 powr \<lfloor>log 2 x\<rfloor> \<le> double_of x" and "double_of x \<le> 2 powr (\<lfloor>log 2 x\<rfloor> + 1)"
    by (simp_all add: powr_diff powr_add flip: e_def)
qed

lemma double_of_mono:
  assumes "0 \<le> x" "x \<le> y"
  shows "double_of x \<le> double_of y"
proof -
  consider "x = 0" "y = 0" | "x = 0" "0 < y" | "0 < x" "0 < y" using assms by linarith
  then show ?thesis
  proof cases
    case 2
    then show ?thesis using double_of_bounds(1) [of y] by (simp add: double_of_def [of 0] order_trans [OF powr_ge_zero])
  next
    case 3
    have le: "\<lfloor>log 2 x\<rfloor> \<le> \<lfloor>log 2 y\<rfloor>" using 3 assms by (intro floor_mono) simp
    show ?thesis
    proof (cases "\<lfloor>log 2 x\<rfloor> = \<lfloor>log 2 y\<rfloor>")
      case True
      then show ?thesis
        using 3 assms by (auto simp: double_of_pos intro!: mult_right_mono half_even_mono divide_right_mono)
    next
      case False
      then have "2 powr (\<lfloor>log 2 x\<rfloor> + 1) \<le> (2 :: real) powr \<lfloor>log 2 y\<rfloor>"
        using le by (intro powr_mono) linarith+
      then show ?thesis using double_of_bounds(2) [of x] double_of_bounds(1) [of y] 3 by linarith
    qed
  qed simp
qed

lemma double_of_nat:
  assumes "n \<le> 2 ^ 53"
  shows "double_of (real n) = real n"
proof (cases "n = 0")
  case True
  then show ?thesis by (simp add: double_of_def)
next
  case False
  define e where "e = \<lfloor>log 2 n\<rfloor> - 52"
  have n: "0 < real n" using False by simp
  have x: "2 powr (e + 52) \<le> real n" "real n < 2 powr (e + 53)"
    using floor_log_eq_powr_iff [of "real n" 2 "e + 52"] n by (auto simp: e_def add.commute)
  show ?thesis
  proof (cases "e \<le> 0")
    case True
    then obtain k where k: "e = - int k" by (metis nonpos_int_cases)
    have "real n / 2 powr of_int e = of_int (int (n * 2 ^ k))"
      by (simp add: k powr_minus powr_realpow field_simps)
    then have "double_of (real n) = of_int (int (n * 2 ^ k)) * 2 powr of_int e"
      using double_of_pos [OF n] by (simp only: e_def [symmetric] half_even_of_int)
    then show ?thesis by (simp add: k powr_minus powr_realpow field_simps)
  next
    case False
    then have "(2 :: real) powr 53 \<le> 2 powr (e + 52)" by (intro powr_mono) auto
    then have "(2 :: real) ^ 53 \<le> real n" using x(1) by simp
    moreover have "real n \<le> real (2 ^ 53)" using assms by (simp only: of_nat_le_iff)
    ultimately have eq: "real n = 2 powr 53" by simp
    then have "\<lfloor>log 2 (real n)\<rfloor> = 53" by (simp only: log_powr_cancel) simp
    then have "double_of (real n) = of_int (half_even (2 powr 53 / 2 powr 1)) * 2 powr 1"
      using double_of_pos [OF n] eq by simp
    also have "(2 :: real) powr 53 / 2 powr 1 = of_int (2 ^ 52)" by simp
    finally show ?thesis using eq by (simp only: half_even_of_int) simp
  qed
qed

text \<open>Rounding stays between the neighbouring integers, and a fraction of a count below it.\<close>

lemma double_of_int_between:
  assumes "0 \<le> x" "x \<le> 2 ^ 53"
  shows "\<lfloor>x\<rfloor> \<le> \<lfloor>double_of x\<rfloor>" and "\<lfloor>double_of x\<rfloor> \<le> \<lceil>x\<rceil>"
proof -
  have u: "\<lceil>x\<rceil> \<le> 2 ^ 53" using assms(2) by (simp add: ceiling_le_iff)
  have d: "double_of (of_int k) = of_int k" if "0 \<le> k" "k \<le> 2 ^ 53" for k
    using double_of_nat [of "nat k"] that by (simp add: nat_le_iff)
  have "0 \<le> \<lfloor>x\<rfloor>" "\<lfloor>x\<rfloor> \<le> \<lceil>x\<rceil>" "0 \<le> \<lceil>x\<rceil>"
    using assms(1) by (auto simp: floor_le_ceiling)
  then have "of_int \<lfloor>x\<rfloor> \<le> double_of x" "double_of x \<le> of_int \<lceil>x\<rceil>"
    using double_of_mono [of "of_int \<lfloor>x\<rfloor>" x] double_of_mono [of x "of_int \<lceil>x\<rceil>"] assms u
    by (auto simp: d)
  then show "\<lfloor>x\<rfloor> \<le> \<lfloor>double_of x\<rfloor>" and "\<lfloor>double_of x\<rfloor> \<le> \<lceil>x\<rceil>"
    by (simp add: le_floor_iff, linarith)
qed

lemma double_of_nonneg: "0 \<le> x \<Longrightarrow> 0 \<le> double_of x"
  using double_of_mono [of 0 x] by (simp add: double_of_def [of 0])

lemma half_even_nearest:
  assumes "of_int k - 1 < m" "m < of_int k - 1 / 2"
  shows "half_even m = k - 1"
proof -
  have "\<lfloor>m\<rfloor> = k - 1" using assms by (intro floor_unique) auto
  then show ?thesis using assms by (simp add: half_even_def)
qed

lemma double_below_one:
  assumes "0 \<le> p" "p < 1" "double_of p = p"
  shows "p \<le> 1 - 1 / 2 ^ 53"
proof (cases "p < 1 / 2")
  case True
  have "(1 :: real) / 2 ^ 53 \<le> 1 / 2" by simp
  then show ?thesis using True by linarith
next
  case False
  then have "\<lfloor>log 2 p\<rfloor> = -1"
    using assms(2) floor_log_eq_powr_iff [of p 2 "-1"] by (simp add: powr_minus)
  define r where "r = half_even (p / 2 powr (-53))"
  have "p = of_int r * 2 powr (-53)"
    using \<open>\<lfloor>log 2 p\<rfloor> = -1\<close> double_of_pos [of p] assms False by (simp add: r_def)
  then have p: "p = of_int r / 2 ^ 53" by (simp add: powr_minus field_simps)
  then have "of_int r < (of_int (2 ^ 53) :: real)" using assms(2) by simp
  then have "r \<le> 2 ^ 53 - 1" by (simp only: of_int_less_iff)
  then have "of_int r \<le> (of_int (2 ^ 53 - 1) :: real)" by (simp only: of_int_le_iff)
  then show ?thesis by (simp add: p field_simps)
qed

lemma double_of_scaled:
  assumes "2 ^ 52 \<le> m" "m < 2 ^ 53"
  shows "double_of (m * 2 powr of_int e) = of_int (half_even m) * 2 powr of_int e"
proof -
  have m: "0 < m" using assms(1) by (rule less_le_trans [rotated]) simp
  have "\<lfloor>log 2 (m * 2 powr of_int e)\<rfloor> = e + 52"
    using assms m by (subst floor_log_eq_powr_iff) (auto simp: powr_add)
  then show ?thesis using double_of_pos [of "m * 2 powr of_int e"] m by simp
qed

lemma double_of_fraction:
  assumes "0 < n" "n < 2 ^ 53" "0 \<le> p" "p < 1" "double_of p = p"
  shows "double_of (p * real n) < real n"
proof -
  define e where "e = \<lfloor>log 2 n\<rfloor> - 52"
  have x: "2 powr (e + 52) \<le> real n" "real n < 2 powr (e + 53)"
    using floor_log_eq_powr_iff [of "real n" 2 "e + 52"] assms(1) by (auto simp: e_def add.commute)
  have "real n < real (2 ^ 53)" using assms(2) by (simp only: of_nat_less_iff)
  then have "2 powr (e + 52) < (2 :: real) powr 53" using x(1) by simp
  then have "e \<le> 0" by (simp only: powr_less_cancel_iff [of 2])
  then obtain k where k: "e = - int k" by (metis nonpos_int_cases)
  define N where "N = int (n * 2 ^ k)"
  have n: "real n = of_int N * 2 powr of_int e"
    by (simp add: N_def k powr_minus powr_realpow)
  have N: "2 ^ 52 \<le> N" "N < 2 ^ 53"
  proof -
    have "of_int (2 ^ 52) * 2 powr of_int e \<le> of_int N * (2 powr of_int e :: real)"
      "of_int N * 2 powr of_int e < of_int (2 ^ 53) * (2 powr of_int e :: real)"
      using x unfolding n [symmetric] by (simp_all add: powr_add mult.commute)
    then show "2 ^ 52 \<le> N" "N < 2 ^ 53"
      by (simp_all only: mult_le_cancel_right_pos mult_less_cancel_right_pos powr_gt_zero of_int_le_iff of_int_less_iff)
  qed
  have "p * real n \<le> (1 - 1 / 2 ^ 53) * real n"
    using double_below_one [OF assms(3,4,5)] by (intro mult_right_mono) auto
  then have le: "double_of (p * real n) \<le> double_of ((1 - 1 / 2 ^ 53) * real n)"
    using assms by (intro double_of_mono) auto
  have "double_of ((1 - 1 / 2 ^ 53) * real n) < real n"
  proof (cases "N = 2 ^ 52")
    case True
    have y: "(1 - 1 / 2 ^ 53) * real n = of_int (2 ^ 53 - 1) * 2 powr of_int (e - 1)"
      by (simp add: n True powr_diff)
    have "double_of ((1 - 1 / 2 ^ 53) * real n) = of_int (2 ^ 53 - 1) * 2 powr of_int (e - 1)"
      unfolding y by (subst double_of_scaled) simp_all
    also have "\<dots> < real n" by (simp add: n True powr_diff)
    finally show ?thesis .
  next
    case False
    define m :: real where "m = of_int N - of_int N / 2 ^ 53"
    have y: "(1 - 1 / 2 ^ 53) * real n = m * 2 powr of_int e"
      by (simp add: n m_def algebra_simps)
    have M: "of_int (2 ^ 52 + 1) \<le> (of_int N :: real)" "of_int N < (of_int (2 ^ 53) :: real)"
      using N False by (simp_all only: of_int_le_iff of_int_less_iff)
    have "half_even m = N - 1"
      using M by (intro half_even_nearest) (simp_all add: m_def field_simps)
    moreover have "2 ^ 52 \<le> m" "m < 2 ^ 53" using M by (simp_all add: m_def field_simps)
    ultimately have "double_of ((1 - 1 / 2 ^ 53) * real n) = of_int (N - 1) * 2 powr of_int e"
      unfolding y by (subst double_of_scaled) simp_all
    also have "\<dots> < real n" by (simp add: n)
    finally show ?thesis .
  qed
  with le show ?thesis by simp
qed

end
