(* ===== verification/Latency.thy ===== *)
theory Latency
  imports Doubles Enso_Prelude "HOL-Library.Multiset"
begin

text \<open>
  The latency histogram of \<^verbatim>\<open>mica2/src/mica/util/latency.h\<close>: five arrays of 128 counters,
  of 1, 2, 4, 8 and 16 microseconds each, and a counter for the rest. The counters are 64-bit
  words; the microseconds a query returns stay below 3969 and are natural numbers. The
  \<^verbatim>\<open>double\<close>s of the average and of the percentile are rounded at every operation
  (\<open>Doubles\<close>).
\<close>

section \<open>The code\<close>

record latency =
  bin0 :: "u64 list"
  bin1 :: "u64 list"
  bin2 :: "u64 list"
  bin3 :: "u64 list"
  bin4 :: "u64 list"
  bin5 :: u64

definition lat_reset :: latency where
  "lat_reset = \<lparr>bin0 = replicate 128 0, bin1 = replicate 128 0, bin2 = replicate 128 0,
     bin3 = replicate 128 0, bin4 = replicate 128 0, bin5 = 0\<rparr>"

definition bump :: "u64 \<Rightarrow> u64 list \<Rightarrow> u64 list" where
  "bump i xs = xs[unat i := xs ! unat i + 1]"

definition lat_update :: "u64 \<Rightarrow> latency \<Rightarrow> latency" where
  "lat_update us l =
     (if us < 128 then l\<lparr>bin0 := bump us (bin0 l)\<rparr>
      else if us < 384 then l\<lparr>bin1 := bump ((us - 128) div 2) (bin1 l)\<rparr>
      else if us < 896 then l\<lparr>bin2 := bump ((us - 384) div 4) (bin2 l)\<rparr>
      else if us < 1920 then l\<lparr>bin3 := bump ((us - 896) div 8) (bin3 l)\<rparr>
      else if us < 3968 then l\<lparr>bin4 := bump ((us - 1920) div 16) (bin4 l)\<rparr>
      else l\<lparr>bin5 := bin5 l + 1\<rparr>)"

text \<open>The loops over one array: \<^verbatim>\<open>+=\<close>, \<^verbatim>\<open>count\<close> and \<^verbatim>\<open>sum\<close>.\<close>

definition add_bins :: "u64 list \<Rightarrow> u64 list \<Rightarrow> u64 list" where
  "add_bins xs ys = map (\<lambda>i. xs ! i + ys ! i) [0 ..< 128]"

definition lat_add :: "latency \<Rightarrow> latency \<Rightarrow> latency" where
  "lat_add l o' =
     \<lparr>bin0 = add_bins (bin0 l) (bin0 o'), bin1 = add_bins (bin1 l) (bin1 o'),
      bin2 = add_bins (bin2 l) (bin2 o'), bin3 = add_bins (bin3 l) (bin3 o'),
      bin4 = add_bins (bin4 l) (bin4 o'), bin5 = bin5 l + bin5 o'\<rparr>"

fun count_bins :: "u64 list \<Rightarrow> u64 \<Rightarrow> u64" where
  "count_bins [] n = n"
| "count_bins (x # xs) n = count_bins xs (n + x)"

definition lat_count :: "latency \<Rightarrow> u64" where
  "lat_count l =
     count_bins (bin4 l) (count_bins (bin3 l) (count_bins (bin2 l) (count_bins (bin1 l)
       (count_bins (bin0 l) 0)))) + bin5 l"

fun sum_bins :: "nat \<Rightarrow> nat \<Rightarrow> u64 list \<Rightarrow> u64 \<Rightarrow> u64" where
  "sum_bins us step [] n = n"
| "sum_bins us step (x # xs) n = sum_bins (us + step) step xs (n + x * of_nat us)"

definition lat_sum :: "latency \<Rightarrow> u64" where
  "lat_sum l =
     sum_bins 1920 16 (bin4 l) (sum_bins 896 8 (bin3 l) (sum_bins 384 4 (bin2 l)
       (sum_bins 128 2 (bin1 l) (sum_bins 0 1 (bin0 l) 0)))) + bin5 l * 3968"

definition lat_avg :: "latency \<Rightarrow> u64" where
  "lat_avg l = lat_sum l div max 1 (lat_count l)"

definition lat_avg_f :: "latency \<Rightarrow> real" where
  "lat_avg_f l =
     double_of (double_of (real (unat (lat_sum l))) / double_of (real (unat (max 1 (lat_count l)))))"

text \<open>The loops that return at the first counter, from below or from above, that is not 0.\<close>

fun first_bin :: "nat \<Rightarrow> nat \<Rightarrow> u64 list \<Rightarrow> nat option" where
  "first_bin us step [] = None"
| "first_bin us step (x # xs) = (if x \<noteq> 0 then Some us else first_bin (us + step) step xs)"

definition or_else :: "'a option \<Rightarrow> 'a option \<Rightarrow> 'a option" where
  "or_else a b = (case a of None \<Rightarrow> b | Some x \<Rightarrow> Some x)"

definition lat_min :: "latency \<Rightarrow> nat" where
  "lat_min l =
     (case or_else (first_bin 0 1 (bin0 l)) (or_else (first_bin 128 2 (bin1 l))
        (or_else (first_bin 384 4 (bin2 l)) (or_else (first_bin 896 8 (bin3 l))
        (first_bin 1920 16 (bin4 l))))) of
        Some us \<Rightarrow> us | None \<Rightarrow> 3968)"

fun last_bin :: "nat \<Rightarrow> nat \<Rightarrow> u64 list \<Rightarrow> nat option" where
  "last_bin us step [] = None"
| "last_bin us step (x # xs) =
     or_else (last_bin (us + step) step xs) (if x \<noteq> 0 then Some us else None)"

definition lat_max :: "latency \<Rightarrow> nat" where
  "lat_max l =
     (if bin5 l \<noteq> 0 then 3968
      else case or_else (last_bin 1920 16 (bin4 l)) (or_else (last_bin 896 8 (bin3 l))
        (or_else (last_bin 384 4 (bin2 l)) (or_else (last_bin 128 2 (bin1 l))
        (last_bin 0 1 (bin0 l))))) of
        Some us \<Rightarrow> us | None \<Rightarrow> 0)"

text \<open>One loop of the percentile: the answer, or the threshold that is left.\<close>

fun perc_bins :: "nat \<Rightarrow> nat \<Rightarrow> u64 list \<Rightarrow> int \<Rightarrow> nat + int" where
  "perc_bins us step [] thres = Inr thres"
| "perc_bins us step (x # xs) thres =
     (let thres = thres - sint x
      in if thres < 0 then Inl us else perc_bins (us + step) step xs thres)"

definition and_then :: "nat + int \<Rightarrow> (int \<Rightarrow> nat + int) \<Rightarrow> nat + int" where
  "and_then r f = (case r of Inl us \<Rightarrow> Inl us | Inr thres \<Rightarrow> f thres)"

definition lat_perc :: "latency \<Rightarrow> real \<Rightarrow> nat" where
  "lat_perc l p =
     (let thres = to_int64 (double_of (p * double_of (real (unat (lat_count l)))))
      in case and_then (and_then (and_then (and_then
                (perc_bins 0 1 (bin0 l) thres)
                (perc_bins 128 2 (bin1 l)))
                (perc_bins 384 4 (bin2 l)))
                (perc_bins 896 8 (bin3 l)))
                (perc_bins 1920 16 (bin4 l)) of
           Inl us \<Rightarrow> us | Inr thres \<Rightarrow> 3968)"

section \<open>The samples behind a histogram\<close>

text \<open>
  The specification: a sample counts as the lower bound of its bin; the counters of a
  histogram, each repeated, are the sorted list of these bounds.
\<close>

definition bin_floor :: "nat \<Rightarrow> nat" where
  "bin_floor us =
     (if us < 128 then us
      else if us < 384 then us - us mod 2
      else if us < 896 then us - us mod 4
      else if us < 1920 then us - us mod 8
      else if us < 3968 then us - us mod 16
      else 3968)"

fun bin_samples :: "nat \<Rightarrow> nat \<Rightarrow> u64 list \<Rightarrow> nat list" where
  "bin_samples us step [] = []"
| "bin_samples us step (x # xs) = replicate (unat x) us @ bin_samples (us + step) step xs"

definition samples :: "latency \<Rightarrow> nat list" where
  "samples l =
     bin_samples 0 1 (bin0 l) @ bin_samples 128 2 (bin1 l) @ bin_samples 384 4 (bin2 l)
     @ bin_samples 896 8 (bin3 l) @ bin_samples 1920 16 (bin4 l) @ replicate (unat (bin5 l)) 3968"

definition lat_ok :: "latency \<Rightarrow> bool" where
  "lat_ok l \<longleftrightarrow> length (bin0 l) = 128 \<and> length (bin1 l) = 128 \<and> length (bin2 l) = 128
     \<and> length (bin3 l) = 128 \<and> length (bin4 l) = 128"

lemma bin_samples_bounds:
  "0 < step \<Longrightarrow> y \<in> set (bin_samples us step xs) \<Longrightarrow> us \<le> y \<and> y < us + step * length xs"
  by (induction us step xs rule: bin_samples.induct) fastforce+

lemma bin_samples_sorted: "0 < step \<Longrightarrow> sorted (bin_samples us step xs)"
proof (induction us step xs rule: bin_samples.induct)
  case (2 us step x xs)
  then show ?case
    using bin_samples_bounds [of step _ "us + step" xs] by (fastforce simp: sorted_append)
qed simp

lemma samples_sorted:
  assumes "lat_ok l"
  shows "sorted (samples l)"
  using assms bin_samples_bounds [of 1 _ 0 "bin0 l"] bin_samples_bounds [of 2 _ 128 "bin1 l"]
    bin_samples_bounds [of 4 _ 384 "bin2 l"] bin_samples_bounds [of 8 _ 896 "bin3 l"]
    bin_samples_bounds [of 16 _ 1920 "bin4 l"]
  by (auto simp: samples_def sorted_append bin_samples_sorted lat_ok_def) (fastforce)+

lemma counter_le_samples:
  "i < length xs \<Longrightarrow> unat (xs ! i) \<le> length (bin_samples us step xs)"
  by (induction us step xs arbitrary: i rule: bin_samples.induct)
     (auto simp: nth_Cons' intro: trans_le_add2)

lemma bin_samples_bump:
  assumes "unat i < length xs" "length (bin_samples us step xs) < 2 ^ 64 - 1"
  shows "mset (bin_samples us step (bump i xs))
    = add_mset (us + step * unat i) (mset (bin_samples us step xs))"
proof -
  define n where "n = unat i"
  have "unat (xs ! n) < 2 ^ 64 - 1"
    using counter_le_samples [of n xs us step] assms by (simp add: n_def)
  then have inc: "unat (xs ! n + 1) = Suc (unat (xs ! n))"
    by (subst unat_add_no_overflow) auto
  have "n < length xs" using assms(1) by (simp add: n_def)
  then have "mset (bin_samples us step (xs[n := xs ! n + 1]))
    = add_mset (us + step * n) (mset (bin_samples us step xs))"
    using inc
  proof (induction us step xs arbitrary: n rule: bin_samples.induct)
    case (2 us step x xs)
    then show ?case by (cases n) (auto simp: algebra_simps)
  qed simp
  then show ?thesis by (simp add: bump_def n_def)
qed

lemma length_bump [simp]: "length (bump i xs) = length xs"
  by (simp add: bump_def)

lemma lat_ok_update: "lat_ok l \<Longrightarrow> lat_ok (lat_update us l)"
  by (simp add: lat_ok_def lat_update_def)

lemma unat_bin_index:
  assumes "lo \<le> us"
  shows "unat ((us - lo) div d) = (unat us - unat lo) div unat (d :: u64)"
  using assms by (simp add: unat_div unat_sub_le)

lemma floor_from:
  assumes "c * d \<le> (us :: nat)"
  shows "us - us mod d = c * d + d * ((us - c * d) div d)"
proof -
  obtain k where k: "us = c * d + k" using assms by (metis le_iff_add)
  have "us - us mod d = c * d + (k - k mod d)" by (simp add: k)
  also have "k - k mod d = d * (k div d)" by (rule minus_mod_eq_mult_div)
  finally show ?thesis by (simp add: k)
qed

lemma bin_floor_steps:
  "us < 128 \<Longrightarrow> bin_floor us = us"
  "128 \<le> us \<Longrightarrow> us < 384 \<Longrightarrow> bin_floor us = 128 + 2 * ((us - 128) div 2)"
  "384 \<le> us \<Longrightarrow> us < 896 \<Longrightarrow> bin_floor us = 384 + 4 * ((us - 384) div 4)"
  "896 \<le> us \<Longrightarrow> us < 1920 \<Longrightarrow> bin_floor us = 896 + 8 * ((us - 896) div 8)"
  "1920 \<le> us \<Longrightarrow> us < 3968 \<Longrightarrow> bin_floor us = 1920 + 16 * ((us - 1920) div 16)"
  "3968 \<le> us \<Longrightarrow> bin_floor us = 3968"
  using floor_from [of 64 2 us] floor_from [of 96 4 us] floor_from [of 112 8 us]
    floor_from [of 120 16 us]
  by (simp_all add: bin_floor_def)

lemma samples_update:
  assumes ok: "lat_ok l" and len: "length (samples l) < 2 ^ 64 - 1"
  shows "mset (samples (lat_update us l)) = add_mset (bin_floor (unat us)) (mset (samples l))"
proof -
  have b: "length (bin_samples 0 1 (bin0 l)) < 2 ^ 64 - 1"
    "length (bin_samples 128 2 (bin1 l)) < 2 ^ 64 - 1"
    "length (bin_samples 384 4 (bin2 l)) < 2 ^ 64 - 1"
    "length (bin_samples 896 8 (bin3 l)) < 2 ^ 64 - 1"
    "length (bin_samples 1920 16 (bin4 l)) < 2 ^ 64 - 1" "unat (bin5 l) < 2 ^ 64 - 1"
    using len by (simp_all add: samples_def)
  consider "us < 128" | "128 \<le> us" "us < 384" | "384 \<le> us" "us < 896" | "896 \<le> us" "us < 1920"
    | "1920 \<le> us" "us < 3968" | "3968 \<le> us"
    by fastforce
  then show ?thesis
  proof cases
    case 1
    then show ?thesis
      using ok bin_samples_bump [OF _ b(1), of us] bin_floor_steps(1) [of "unat us"]
      by (simp add: lat_update_def samples_def lat_ok_def unat_lt_iff)
  next
    case 2
    then have "unat ((us - 128) div 2) = (unat us - 128) div 2"
      using unat_bin_index [of 128 us 2] by simp
    with 2 show ?thesis
      using ok bin_samples_bump [OF _ b(2), of "(us - 128) div 2"] bin_floor_steps(2) [of "unat us"]
      by (simp add: lat_update_def samples_def lat_ok_def unat_lt_iff unat_le_iff)
  next
    case 3
    then have "unat ((us - 384) div 4) = (unat us - 384) div 4"
      using unat_bin_index [of 384 us 4] by simp
    with 3 show ?thesis
      using ok bin_samples_bump [OF _ b(3), of "(us - 384) div 4"] bin_floor_steps(3) [of "unat us"]
      by (simp add: lat_update_def samples_def lat_ok_def unat_lt_iff unat_le_iff)
  next
    case 4
    then have "unat ((us - 896) div 8) = (unat us - 896) div 8"
      using unat_bin_index [of 896 us 8] by simp
    with 4 show ?thesis
      using ok bin_samples_bump [OF _ b(4), of "(us - 896) div 8"] bin_floor_steps(4) [of "unat us"]
      by (simp add: lat_update_def samples_def lat_ok_def unat_lt_iff unat_le_iff)
  next
    case 5
    then have "unat ((us - 1920) div 16) = (unat us - 1920) div 16"
      using unat_bin_index [of 1920 us 16] by simp
    with 5 show ?thesis
      using ok bin_samples_bump [OF _ b(5), of "(us - 1920) div 16"] bin_floor_steps(5) [of "unat us"]
      by (simp add: lat_update_def samples_def lat_ok_def unat_lt_iff unat_le_iff)
  next
    case 6
    have "unat (bin5 l + 1) = Suc (unat (bin5 l))"
      using b(6) by (subst unat_add_no_overflow) auto
    with 6 show ?thesis
      using bin_floor_steps(6) [of "unat us"]
      by (simp add: lat_update_def samples_def unat_lt_iff unat_le_iff)
  qed
qed

definition lat_of :: "u64 list \<Rightarrow> latency" where
  "lat_of us = fold lat_update us lat_reset"

definition floors :: "u64 list \<Rightarrow> nat list" where
  "floors us = sort (map (\<lambda>u. bin_floor (unat u)) us)"

lemma bin_samples_zero: "bin_samples us step (replicate n 0) = []"
  by (induction n arbitrary: us) auto

lemma samples_reset: "lat_ok lat_reset" "samples lat_reset = []"
  by (simp_all add: lat_ok_def lat_reset_def samples_def bin_samples_zero)

lemma samples_fold:
  assumes "lat_ok l" "length (samples l) + length us < 2 ^ 64"
  shows "lat_ok (fold lat_update us l) \<and> mset (samples (fold lat_update us l))
    = mset (samples l) + mset (map (\<lambda>u. bin_floor (unat u)) us)"
  using assms
proof (induction us arbitrary: l)
  case (Cons u us)
  have "mset (samples (lat_update u l)) = add_mset (bin_floor (unat u)) (mset (samples l))"
    using Cons.prems by (intro samples_update) auto
  moreover from this have "length (samples (lat_update u l)) = Suc (length (samples l))"
    by (metis size_add_mset size_mset)
  ultimately show ?case
    using Cons.IH [of "lat_update u l"] Cons.prems lat_ok_update by simp
qed simp

lemma samples_lat_of:
  assumes "length us < 2 ^ 64"
  shows "samples (lat_of us) = floors us"
proof -
  have "mset (samples (lat_of us)) = mset (map (\<lambda>u. bin_floor (unat u)) us)"
    "sorted (samples (lat_of us))"
    using samples_fold [of lat_reset us] samples_reset assms
    by (simp_all add: lat_of_def samples_sorted)
  then show ?thesis by (simp add: floors_def properties_for_sort)
qed

section \<open>The queries\<close>

lemma count_bins_samples: "count_bins xs n = n + of_nat (length (bin_samples us step xs))"
  by (induction us step xs arbitrary: n rule: bin_samples.induct) simp_all

lemma lat_count_samples: "lat_count l = of_nat (length (samples l))"
  by (simp add: lat_count_def samples_def count_bins_samples [of "bin0 l" _ 0 1]
      count_bins_samples [of "bin1 l" _ 128 2] count_bins_samples [of "bin2 l" _ 384 4]
      count_bins_samples [of "bin3 l" _ 896 8] count_bins_samples [of "bin4 l" _ 1920 16])

lemma sum_bins_samples: "sum_bins us step xs n = n + of_nat (sum_list (bin_samples us step xs))"
  by (induction us step xs arbitrary: n rule: bin_samples.induct)
     (simp_all add: sum_list_replicate)

lemma lat_sum_samples: "lat_sum l = of_nat (sum_list (samples l))"
  by (simp add: lat_sum_def samples_def sum_bins_samples sum_list_replicate)

definition hd_of :: "'a list \<Rightarrow> 'a option" where
  "hd_of xs = (case xs of [] \<Rightarrow> None | x # _ \<Rightarrow> Some x)"

lemma hd_of_append: "hd_of (xs @ ys) = or_else (hd_of xs) (hd_of ys)"
  by (cases xs) (simp_all add: hd_of_def or_else_def)

lemma hd_of_replicate: "hd_of (replicate n x) = (if n = 0 then None else Some x)"
  by (cases n) (simp_all add: hd_of_def)

lemma or_else_assoc: "or_else (or_else a b) c = or_else a (or_else b c)"
  by (simp add: or_else_def split: option.splits)

lemma first_bin_samples: "first_bin us step xs = hd_of (bin_samples us step xs)"
  by (induction us step xs rule: bin_samples.induct)
     (auto simp: hd_of_append hd_of_replicate or_else_def unat_eq_0 hd_of_def [of "[]"])

lemma lat_min_samples:
  assumes "samples l \<noteq> []"
  shows "lat_min l = hd (samples l)"
proof -
  have "hd_of (samples l) = Some (hd (samples l))"
    using assms by (cases "samples l") (simp_all add: hd_of_def)
  moreover have "lat_min l = (case hd_of (samples l) of Some us \<Rightarrow> us | None \<Rightarrow> 3968)"
    by (auto simp: lat_min_def samples_def first_bin_samples hd_of_append hd_of_replicate
        or_else_def split: option.splits)
  ultimately show ?thesis by simp
qed

lemma last_bin_samples: "last_bin us step xs = hd_of (rev (bin_samples us step xs))"
  by (induction us step xs rule: bin_samples.induct)
     (auto simp: hd_of_append hd_of_replicate or_else_def unat_eq_0 hd_of_def [of "[]"]
       split: option.splits)

lemma lat_max_samples:
  assumes "samples l \<noteq> []"
  shows "lat_max l = last (samples l)"
proof -
  have "hd_of (rev (samples l)) = Some (last (samples l))"
    using assms by (cases "samples l" rule: rev_cases) (simp_all add: hd_of_def)
  moreover have "lat_max l = (case hd_of (rev (samples l)) of Some us \<Rightarrow> us | None \<Rightarrow> 0)"
    by (auto simp: lat_max_def samples_def last_bin_samples hd_of_append hd_of_replicate
        or_else_assoc unat_eq_0 or_else_def split: option.splits)
  ultimately show ?thesis by simp
qed

definition perc_of :: "nat list \<Rightarrow> int \<Rightarrow> nat + int" where
  "perc_of xs thres =
     (if thres < int (length xs) then Inl (xs ! nat thres) else Inr (thres - int (length xs)))"

lemma perc_of_append:
  "0 \<le> thres \<Longrightarrow> perc_of (xs @ ys) thres = and_then (perc_of xs thres) (perc_of ys)"
  by (auto simp: perc_of_def and_then_def nth_append nat_diff_distrib nat_less_iff)

lemma sint_small:
  assumes "unat (x :: u64) < 2 ^ 63"
  shows "sint x = int (unat x)"
proof -
  have "int (unat x) < int (2 ^ 63)"
    using assms by (simp only: of_nat_less_iff)
  then have "uint x < 2 ^ 63" by simp
  moreover have "- (2 ^ 63) \<le> uint x" by (rule order_trans [of _ 0]) simp_all
  ultimately show ?thesis by (simp add: sint_uint signed_take_bit_int_eq_self_iff)
qed

lemma perc_bins_samples:
  "0 \<le> thres \<Longrightarrow> length (bin_samples us step xs) < 2 ^ 63 \<Longrightarrow>
     perc_bins us step xs thres = perc_of (bin_samples us step xs) thres"
proof (induction us step xs arbitrary: thres rule: bin_samples.induct)
  case (2 us step x xs)
  have "sint x = int (unat x)" using 2(3) by (intro sint_small) simp
  then show ?case
    using 2 by (auto simp: perc_of_append perc_of_def [of "replicate _ _"] and_then_def Let_def nat_less_iff)
qed (simp add: perc_of_def)

lemma lat_perc_samples:
  assumes "0 \<le> p" "p < 1" "double_of p = p" "samples l \<noteq> []" "length (samples l) < 2 ^ 53"
  shows "lat_perc l p = samples l ! nat \<lfloor>double_of (p * real (length (samples l)))\<rfloor>"
proof -
  let ?n = "length (samples l)"
  let ?t = "\<lfloor>double_of (p * real ?n)\<rfloor>"
  have cnt: "unat (lat_count l) = ?n"
    using assms(5) by (simp add: lat_count_samples unat_of_nat)
  have d0: "0 \<le> double_of (p * real ?n)" using assms(1) by (intro double_of_nonneg) simp
  then have t0: "0 \<le> ?t" by simp
  have "double_of (p * real ?n) < real ?n" using assms by (intro double_of_fraction) auto
  then have tn: "?t < int ?n" by linarith
  have thres: "to_int64 (double_of (p * double_of (real ?n))) = ?t"
    using d0 assms(5) by (simp add: to_int64_def double_of_nat)
  have b: "length (bin_samples 0 1 (bin0 l)) < 2 ^ 63" "length (bin_samples 128 2 (bin1 l)) < 2 ^ 63"
    "length (bin_samples 384 4 (bin2 l)) < 2 ^ 63" "length (bin_samples 896 8 (bin3 l)) < 2 ^ 63"
    "length (bin_samples 1920 16 (bin4 l)) < 2 ^ 63"
    using assms(5) by (simp_all add: samples_def)
  have chain: "and_then (perc_of xs t) (perc_bins us step ys) = perc_of (xs @ bin_samples us step ys) t"
    if "0 \<le> t" "length (bin_samples us step ys) < 2 ^ 63" for xs us step ys t
    using that perc_bins_samples [of _ us step ys]
    by (auto simp: perc_of_append and_then_def perc_of_def [of xs])
  let ?fine = "bin_samples 0 1 (bin0 l) @ bin_samples 128 2 (bin1 l) @ bin_samples 384 4 (bin2 l)
     @ bin_samples 896 8 (bin3 l) @ bin_samples 1920 16 (bin4 l)"
  have "lat_perc l p = (case perc_of ?fine ?t of Inl us \<Rightarrow> us | Inr thres \<Rightarrow> 3968)"
    using chain [OF t0] b perc_bins_samples [OF t0 b(1)]
    by (simp add: lat_perc_def cnt thres)
  also have "\<dots> = samples l ! nat ?t"
  proof (cases "?t < int (length ?fine)")
    case True
    then have "nat ?t < length ?fine" using t0 by linarith
    moreover have "samples l = ?fine @ replicate (unat (bin5 l)) 3968" by (simp add: samples_def)
    ultimately show ?thesis using True by (simp only: perc_of_def nth_append sum.case if_True)
  next
    case False
    then have ge: "\<not> nat ?t < length ?fine" by linarith
    have split: "samples l = ?fine @ replicate (unat (bin5 l)) 3968" by (simp add: samples_def)
    then have len: "?n = length ?fine + unat (bin5 l)"
      by (simp only: length_append length_replicate)
    then have "nat ?t - length ?fine < unat (bin5 l)" using tn t0 ge by linarith
    then show ?thesis
      using False ge by (simp only: perc_of_def split nth_append sum.case if_False nth_replicate)
  qed
  finally show ?thesis .
qed

lemma perc_index:
  assumes "us \<noteq> []" "length us < 2 ^ 53" "0 \<le> p" "p < 1" "double_of p = p"
  shows "0 \<le> \<lfloor>double_of (p * real (length us))\<rfloor>
    \<and> nat \<lfloor>double_of (p * real (length us))\<rfloor> < length us
    \<and> \<lfloor>p * real (length us)\<rfloor> \<le> \<lfloor>double_of (p * real (length us))\<rfloor>
    \<and> \<lfloor>double_of (p * real (length us))\<rfloor> \<le> \<lceil>p * real (length us)\<rceil>"
proof -
  let ?n = "real (length us)"
  have d: "0 \<le> double_of (p * ?n)" "double_of (p * ?n) < ?n"
    using assms by (auto intro: double_of_nonneg double_of_fraction)
  have "?n < real (2 ^ 53)" using assms(2) by (simp only: of_nat_less_iff)
  moreover have "p * ?n \<le> 1 * ?n" using assms by (intro mult_right_mono) auto
  ultimately have "p * ?n \<le> 2 ^ 53" by simp
  then show ?thesis
    using d double_of_int_between [of "p * ?n"] assms(3) by (auto simp: nat_less_iff floor_less_iff)
qed

text \<open>
  C29. After recording any non-empty sequence of fewer than 2^63 samples, the count is their
  number, the sum is the sum of their bin floors modulo 2^64, and the minimum and the maximum
  are those of the floors. For fewer than 2^53 samples and a \<^verbatim>\<open>double\<close> \<open>p\<close> with
  \<open>0 \<le> p < 1\<close>, the percentile is an entry of the sorted list of the floors: the one at the
  index \<open>p * n\<close> as the \<^verbatim>\<open>double\<close> product rounds it, which is \<open>\<lfloor>p * n\<rfloor>\<close> or \<open>\<lceil>p * n\<rceil>\<close> and
  below \<open>n\<close>.
\<close>
theorem histogram_exact:
  assumes "us \<noteq> []" "length us < 2 ^ 63"
  shows "unat (lat_count (lat_of us)) = length us
    \<and> lat_sum (lat_of us) = of_nat (sum_list (map (\<lambda>u. bin_floor (unat u)) us))
    \<and> lat_min (lat_of us) = Min ((\<lambda>u. bin_floor (unat u)) ` set us)
    \<and> lat_max (lat_of us) = Max ((\<lambda>u. bin_floor (unat u)) ` set us)
    \<and> (\<forall>p. 0 \<le> p \<longrightarrow> p < 1 \<longrightarrow> double_of p = p \<longrightarrow> length us < 2 ^ 53 \<longrightarrow>
        (\<exists>i. int i = \<lfloor>double_of (p * real (length us))\<rfloor> \<and> i < length us
          \<and> \<lfloor>p * real (length us)\<rfloor> \<le> int i \<and> int i \<le> \<lceil>p * real (length us)\<rceil>
          \<and> lat_perc (lat_of us) p = floors us ! i))"
proof -
  have s: "samples (lat_of us) = floors us" using assms(2) by (intro samples_lat_of) simp
  have len: "length (floors us) = length us" by (simp add: floors_def)
  have set: "set (floors us) = (\<lambda>u. bin_floor (unat u)) ` set us" by (simp add: floors_def)
  have srt: "sorted (floors us)" by (simp add: floors_def)
  have ne: "floors us \<noteq> []" using len assms(1) by (metis length_0_conv)
  have sum: "sum_list (floors us) = sum_list (map (\<lambda>u. bin_floor (unat u)) us)"
    by (metis floors_def mset_sort sum_mset_sum_list)
  have mn: "hd (floors us) = Min (set (floors us))"
    using ne srt by (cases "floors us") (auto intro: Min_eqI [symmetric])
  have mx: "last (floors us) = Max (set (floors us))"
    using ne srt by (cases "floors us" rule: rev_cases)
      (auto simp: sorted_append intro: Max_eqI [symmetric])
  have perc: "\<exists>i. int i = \<lfloor>double_of (p * real (length us))\<rfloor> \<and> i < length us
      \<and> \<lfloor>p * real (length us)\<rfloor> \<le> int i \<and> int i \<le> \<lceil>p * real (length us)\<rceil>
      \<and> lat_perc (lat_of us) p = floors us ! i"
    if p: "0 \<le> p" "p < 1" "double_of p = p" "length us < 2 ^ 53" for p
    using perc_index [OF assms(1) p(4,1,2,3)] lat_perc_samples [OF p(1-3), of "lat_of us"] p(4) s ne len
    by (intro exI [of _ "nat \<lfloor>double_of (p * real (length us))\<rfloor>"]) simp
  show ?thesis
    using assms(2) s ne len perc
    by (simp add: lat_count_samples lat_sum_samples lat_min_samples lat_max_samples unat_of_nat
        sum mn mx set)
qed

theorem histogram_exact_witness:
  "lat_max (lat_of [3, 131, 5000]) = Max ((\<lambda>u. bin_floor (unat u)) ` set [3, 131, 5000 :: u64])
   \<and> \<lfloor>6305039478318694 / 2 ^ 53 * 10 :: real\<rfloor> = 6
   \<and> lat_perc (lat_of [0, 1, 2, 3, 4, 5, 6, 7, 8, 9]) (6305039478318694 / 2 ^ 53)
     = floors [0, 1, 2, 3, 4, 5, 6, 7, 8, 9] ! 7"
proof -
  let ?p = "6305039478318694 / 2 ^ 53 :: real"
  let ?us = "[0, 1, 2, 3, 4, 5, 6, 7, 8, 9] :: u64 list"
  have "double_of (6305039478318694 * 2 powr of_int (-53)) = 6305039478318694 * 2 powr of_int (-53)"
    by (subst double_of_scaled) simp_all
  then have p: "double_of ?p = ?p" by (simp add: powr_minus)
  have "half_even (15762598695796735 / 2) = 7881299347898368"
    by (simp add: half_even_def Let_def)
  then have "double_of (15762598695796735 / 2 * 2 powr of_int (-50)) = 7881299347898368 * 2 powr of_int (-50)"
    by (subst double_of_scaled) simp_all
  then have seven: "double_of (?p * 10) = 7" by (simp add: powr_minus)
  have ten: "real (length ?us) = 10" "length ?us < 2 ^ 53" "length ?us < 2 ^ 63" "?us \<noteq> []" by simp_all
  have "0 \<le> ?p" "?p < 1" by simp_all
  with histogram_exact [OF ten(4,3)] p ten(2) obtain i where
    i: "int i = \<lfloor>double_of (?p * real (length ?us))\<rfloor>" and v: "lat_perc (lat_of ?us) ?p = floors ?us ! i"
    by blast
  from i have "i = 7" unfolding ten seven by simp
  with v have "lat_perc (lat_of ?us) ?p = floors ?us ! 7" by simp
  moreover have "lat_max (lat_of [3, 131, 5000])
      = Max ((\<lambda>u. bin_floor (unat u)) ` set [3, 131, 5000 :: u64])"
    using histogram_exact [of "[3, 131, 5000]"] by simp
  ultimately show ?thesis by simp
qed

section \<open>Merging\<close>

lemma add_bins_bump:
  assumes "length xs = 128" "length ys = 128" "unat i < 128"
  shows "add_bins xs (bump i ys) = bump i (add_bins xs ys)"
  using assms by (auto simp: add_bins_def bump_def nth_list_update intro!: nth_equalityI)

lemma lat_add_update:
  assumes "lat_ok l" "lat_ok k"
  shows "lat_add l (lat_update us k) = lat_update us (lat_add l k)"
  using assms
  by (auto simp: lat_add_def lat_update_def lat_ok_def unat_lt_iff unat_bin_index unat_le_iff
      intro!: add_bins_bump)

text \<open>
  C30. Adding two histograms with \<^verbatim>\<open>operator+=\<close> gives the histogram of the two sequences of
  samples one after the other, counter by counter, wrapped counters included.
\<close>
theorem merge_histograms: "lat_add (lat_of us) (lat_of vs) = lat_of (us @ vs)"
proof -
  have ok: "lat_ok (lat_of ws)" for ws
    by (induction ws rule: rev_induct) (auto simp: lat_of_def samples_reset lat_ok_update)
  show ?thesis
  proof (induction vs rule: rev_induct)
    case Nil
    have "add_bins xs (replicate 128 0) = xs" if "length xs = 128" for xs
      using that by (auto simp: add_bins_def intro: nth_equalityI)
    then show ?case
      using ok [of us] by (simp add: lat_of_def [of "[]"] lat_reset_def lat_add_def lat_ok_def)
  next
    case (snoc v vs)
    have "lat_of (vs @ [v]) = lat_update v (lat_of vs)" "lat_of (us @ vs @ [v]) = lat_update v (lat_of (us @ vs))"
      by (simp_all add: lat_of_def)
    then show ?case using snoc ok by (simp add: lat_add_update)
  qed
qed

end
