(* ===== verification/Item_Pool.thy ===== *)
theory Item_Pool
  imports Enso_Prelude
begin

text \<open>
  The contract of \<^verbatim>\<open>mica/pool/pool.h\<close>: what a table may rely on when it keeps an item in a
  pool. \<open>put\<close> is an allocation followed by the write of the item's words, as the tables do
  it; \<open>live\<close> says that an offset still holds an item. A pool may give up older items when it
  allocates (the circular log does), never the contents of those it keeps.
\<close>

datatype ('o, 'w) pool_op = Put "'w list" | Release 'o

fun pool_step ::
  "('p \<Rightarrow> 'w list \<Rightarrow> ('p \<times> 'o) option) \<Rightarrow> ('o \<Rightarrow> 'p \<Rightarrow> 'p) \<Rightarrow> ('o, 'w) pool_op
     \<Rightarrow> 'p \<times> ('o \<Rightarrow> 'w list option) \<Rightarrow> 'p \<times> ('o \<Rightarrow> 'w list option)" where
  "pool_step put rel (Put ws) (p, m) =
     (case put p ws of None \<Rightarrow> (p, m) | Some (p', x) \<Rightarrow> (p', m(x \<mapsto> ws)))"
| "pool_step put rel (Release x) (p, m) = (rel x p, m)"

fun pool_run ::
  "('p \<Rightarrow> 'w list \<Rightarrow> ('p \<times> 'o) option) \<Rightarrow> ('o \<Rightarrow> 'p \<Rightarrow> 'p) \<Rightarrow> ('o, 'w) pool_op list
     \<Rightarrow> 'p \<times> ('o \<Rightarrow> 'w list option) \<Rightarrow> 'p \<times> ('o \<Rightarrow> 'w list option)" where
  "pool_run put rel [] s = s"
| "pool_run put rel (x # xs) s = pool_run put rel xs (pool_step put rel x s)"

text \<open>A client releases only what is live.\<close>

fun releases_live ::
  "('p \<Rightarrow> 'o \<Rightarrow> bool) \<Rightarrow> ('p \<Rightarrow> 'w list \<Rightarrow> ('p \<times> 'o) option) \<Rightarrow> ('o \<Rightarrow> 'p \<Rightarrow> 'p)
     \<Rightarrow> ('o, 'w) pool_op list \<Rightarrow> 'p \<Rightarrow> bool" where
  "releases_live live put rel [] p = True"
| "releases_live live put rel (Put ws # ops) p =
     (case put p ws of None \<Rightarrow> releases_live live put rel ops p
      | Some (p', x) \<Rightarrow> releases_live live put rel ops p')"
| "releases_live live put rel (Release x # ops) p =
     (live p x \<and> releases_live live put rel ops (rel x p))"

locale item_pool =
  fixes inv :: "'p \<Rightarrow> bool"
    and live :: "'p \<Rightarrow> 'o \<Rightarrow> bool"
    and contents :: "'p \<Rightarrow> 'o \<Rightarrow> 'w list"
    and put :: "'p \<Rightarrow> 'w list \<Rightarrow> ('p \<times> 'o) option"
    and rel :: "'o \<Rightarrow> 'p \<Rightarrow> 'p"
  assumes put_inv: "inv p \<Longrightarrow> put p ws = Some (p', x) \<Longrightarrow> inv p'"
    and put_new: "inv p \<Longrightarrow> put p ws = Some (p', x) \<Longrightarrow> live p' x \<and> contents p' x = ws"
    and put_old: "inv p \<Longrightarrow> put p ws = Some (p', x) \<Longrightarrow> live p' y \<Longrightarrow> y \<noteq> x \<Longrightarrow>
      live p y \<and> contents p' y = contents p y"
    and rel_inv: "inv p \<Longrightarrow> live p x \<Longrightarrow> inv (rel x p)"
    and rel_old: "inv p \<Longrightarrow> live p x \<Longrightarrow> live (rel x p) y \<Longrightarrow>
      live p y \<and> contents (rel x p) y = contents p y"
begin

definition remembers :: "'p \<Rightarrow> ('o \<Rightarrow> 'w list option) \<Rightarrow> bool" where
  "remembers p m \<longleftrightarrow> (\<forall>x. live p x \<longrightarrow> m x = Some (contents p x))"

lemma remembers_put:
  assumes "inv p" "remembers p m" "put p ws = Some (p', x)"
  shows "remembers p' (m(x \<mapsto> ws))"
  unfolding remembers_def
proof (intro allI impI)
  fix y assume "live p' y"
  then show "(m(x \<mapsto> ws)) y = Some (contents p' y)"
    using put_new [OF assms(1,3)] put_old [OF assms(1,3), of y] assms(2)
    by (cases "y = x") (auto simp: remembers_def)
qed

lemma remembers_rel:
  assumes "inv p" "remembers p m" "live p x"
  shows "remembers (rel x p) m"
  using rel_old [OF assms(1,3)] assms(2) by (auto simp: remembers_def)

text \<open>Whatever a run of the pool does, an item that is still live holds what was put there.\<close>

lemma run_remembers:
  assumes "inv p" "remembers p m" "releases_live live put rel ops p" "pool_run put rel ops (p, m) = (p', m')"
  shows "inv p' \<and> remembers p' m'"
  using assms
proof (induction ops arbitrary: p m)
  case (Cons a ops)
  show ?case
  proof (cases a)
    case (Put ws)
    then show ?thesis
      using Cons put_inv [of p ws] remembers_put [of p m ws]
      by (cases "put p ws") (auto split: prod.splits)
  next
    case (Release x)
    then show ?thesis
      using Cons rel_inv [of p x] remembers_rel [of p m x] by auto
  qed
qed simp

end

end
