(* ===== verification/Circular_Log.thy ===== *)
theory Circular_Log
  imports Item_Pool Round_Up
begin

text \<open>
  The circular log of \<^verbatim>\<open>mica/pool/circular_log.h\<close> and \<^verbatim>\<open>circular_log_impl.h\<close>. Its memory is
  a list of 64-bit cells: item sizes are multiples of 8 (\<^verbatim>\<open>push_tail\<close> asserts it), so every
  access of the log is to an aligned cell. \<^verbatim>\<open>data_\<close> is mapped a second time behind its end,
  for the first \<^verbatim>\<open>kWrapAroundSize\<close> bytes; the cell of an item that runs over the end is the
  one of the first mapping, and beyond the second mapping there is none (\<^const>\<open>None\<close>).
\<close>

section \<open>The code\<close>

record circular_log =
  cl_mode :: u8
  cl_data :: "u64 list"
  cl_size :: u64
  cl_mask :: u64
  cl_lock :: u8
  cl_head :: u64
  cl_tail :: u64

definition kMinimumLogSize :: u64 where "kMinimumLogSize = 2 * 1048576"

definition kWrapAroundSize :: u64 where "kWrapAroundSize = 2 * 1048576"

definition kOffsetMask :: u64 where "kOffsetMask = 2 ^ 48 - 1"

definition sizeof_Item :: u64 where "sizeof_Item = 8"

text \<open>The constructor, for the memory \<open>mem\<close> the allocator maps.\<close>

definition clog_new ::
  "(u64 \<Rightarrow> u64) \<Rightarrow> u64 \<Rightarrow> bool \<Rightarrow> bool \<Rightarrow> (u64 \<Rightarrow> u64 list) \<Rightarrow> circular_log option" where
  "clog_new alloc_roundup config_size concurrent_read concurrent_write mem =
     (let size = alloc_roundup (if config_size < kMinimumLogSize then kMinimumLogSize else config_size)
      in case next_power_of_two size of
           None \<Rightarrow> None
         | Some size \<Rightarrow>
             Some \<lparr>cl_mode = (if \<not> concurrent_read then 0 else if \<not> concurrent_write then 1 else 2),
                   cl_data = mem size, cl_size = size, cl_mask = size - 1, cl_lock = 0,
                   cl_head = 0, cl_tail = 0\<rparr>)"

definition clog_lock :: "circular_log \<Rightarrow> circular_log option" where
  "clog_lock l =
     (if cl_mode l = 2 then if cl_lock l = 0 then Some (l\<lparr>cl_lock := 1\<rparr>) else None else Some l)"

definition clog_unlock :: "circular_log \<Rightarrow> circular_log" where
  "clog_unlock l = (if cl_mode l = 2 then l\<lparr>cl_lock := 0\<rparr> else l)"

definition clog_reset :: "circular_log \<Rightarrow> circular_log" where
  "clog_reset l = l\<lparr>cl_head := 0, cl_tail := 0\<rparr>"

definition clog_is_valid :: "u64 \<Rightarrow> circular_log \<Rightarrow> bool" where
  "clog_is_valid offset l \<longleftrightarrow> (cl_tail l - offset) AND kOffsetMask \<le> cl_size l"

text \<open>The cell of \<^verbatim>\<open>item->size\<close>, and the one of the \<open>k\<close>-th word of \<^verbatim>\<open>item->data\<close>.\<close>

definition size_cell :: "u64 \<Rightarrow> circular_log \<Rightarrow> nat" where
  "size_cell offset l = unat (offset AND cl_mask l) div 8"

definition data_cell :: "u64 \<Rightarrow> nat \<Rightarrow> circular_log \<Rightarrow> nat option" where
  "data_cell offset k l =
     (let c = size_cell offset l + 1 + k; n = length (cl_data l)
      in if c < n then Some c
         else if c < n + unat kWrapAroundSize div 8 then Some (c - n) else None)"

definition clog_item_size :: "u64 \<Rightarrow> circular_log \<Rightarrow> u64" where
  "clog_item_size offset l = cl_data l ! size_cell offset l"

definition clog_read :: "u64 \<Rightarrow> nat \<Rightarrow> circular_log \<Rightarrow> u64 option" where
  "clog_read offset k l = map_option ((!) (cl_data l)) (data_cell offset k l)"

definition clog_write :: "u64 \<Rightarrow> nat \<Rightarrow> u64 \<Rightarrow> circular_log \<Rightarrow> circular_log option" where
  "clog_write offset k w l =
     map_option (\<lambda>c. l\<lparr>cl_data := (cl_data l)[c := w]\<rparr>) (data_cell offset k l)"

definition pop_head :: "circular_log \<Rightarrow> circular_log" where
  "pop_head l = l\<lparr>cl_head := cl_head l + clog_item_size (cl_head l) l\<rparr>"

partial_function (option) pop_until :: "u64 \<Rightarrow> circular_log \<Rightarrow> circular_log option" where
  "pop_until v l = (if v > cl_head l + cl_size l then pop_until v (pop_head l) else Some l)"

declare pop_until.simps [code]

definition push_tail :: "u64 \<Rightarrow> circular_log \<Rightarrow> (u64 \<times> circular_log) option" where
  "push_tail item_size l =
     (let offset = cl_tail l; v = offset + sizeof_Item + item_size
      in case pop_until v l of
           None \<Rightarrow> None
         | Some l \<Rightarrow>
             let l = l\<lparr>cl_data := (cl_data l)[size_cell offset l := item_size]\<rparr>;
                 l = l\<lparr>cl_tail := cl_tail l + item_size\<rparr>
             in Some (offset AND kOffsetMask, l))"

definition clog_allocate :: "u64 \<Rightarrow> circular_log \<Rightarrow> (u64 \<times> circular_log) option" where
  "clog_allocate item_size l = push_tail (item_size + sizeof_Item) l"

definition clog_release :: "u64 \<Rightarrow> circular_log \<Rightarrow> circular_log" where
  "clog_release offset l = l"

section \<open>The log as a queue of items\<close>

text \<open>
  The items from the head to the tail, given by their sizes in cells: each one's first cell
  holds its size in bytes. One cell of the log is never used.
\<close>

fun chain :: "u64 list \<Rightarrow> nat \<Rightarrow> nat list \<Rightarrow> bool" where
  "chain d h [] \<longleftrightarrow> True"
| "chain d h (c # cs) \<longleftrightarrow>
     0 < c \<and> unat (d ! (h mod length d)) = 8 * c \<and> chain d (h + c) cs"

definition head_cell :: "circular_log \<Rightarrow> nat" where "head_cell l = unat (cl_head l) div 8"

definition tail_cell :: "circular_log \<Rightarrow> nat" where "tail_cell l = unat (cl_tail l) div 8"

definition clog_shape :: "circular_log \<Rightarrow> bool" where
  "clog_shape l \<longleftrightarrow>
     (\<exists>e. 4 \<le> e \<and> e \<le> 46 \<and> cl_size l = 2 ^ e \<and> cl_mask l = mask e \<and>
        length (cl_data l) = 2 ^ (e - 3))"

definition clog_ok :: "circular_log \<Rightarrow> nat list \<Rightarrow> bool" where
  "clog_ok l cs \<longleftrightarrow> clog_shape l \<and> 8 dvd unat (cl_head l) \<and> 8 dvd unat (cl_tail l)
     \<and> tail_cell l = head_cell l + sum_list cs \<and> tail_cell l < head_cell l + length (cl_data l)
     \<and> chain (cl_data l) (head_cell l) cs"

fun items_from :: "nat \<Rightarrow> nat list \<Rightarrow> (nat \<times> nat) list" where
  "items_from h [] = []"
| "items_from h (c # cs) = (h, c) # items_from (h + c) cs"

text \<open>The word a position of the log holds, for positions of the last turn.\<close>

definition word_at :: "circular_log \<Rightarrow> nat \<Rightarrow> u64" where
  "word_at l n = cl_data l ! (n mod length (cl_data l))"

lemma cell_of_masked:
  fixes off :: u64
  assumes "3 \<le> e"
  shows "unat (off AND mask e) div 8 = (unat off div 8) mod 2 ^ (e - 3)"
proof -
  have "(2 :: nat) ^ e = 8 * 2 ^ (e - 3)"
    using assms power_add [of "2 :: nat" 3 "e - 3"] by simp
  then show ?thesis
    by (simp only: unat_and_mask) (simp add: mod_mult2_eq)
qed

lemma size_cell_eq:
  assumes "clog_shape l"
  shows "size_cell off l = (unat off div 8) mod length (cl_data l)"
  using assms cell_of_masked by (auto simp: clog_shape_def size_cell_def)

lemma clog_shape_simps [simp]:
  "clog_shape (l\<lparr>cl_head := h\<rparr>) = clog_shape l" "clog_shape (l\<lparr>cl_tail := h\<rparr>) = clog_shape l"
  "length d = length (cl_data l) \<Longrightarrow> clog_shape (l\<lparr>cl_data := d\<rparr>) = clog_shape l"
  by (simp_all add: clog_shape_def)

lemma clog_shape_size:
  assumes "clog_shape l"
  shows "unat (cl_size l) = 8 * length (cl_data l)" "2 \<le> length (cl_data l)"
    "length (cl_data l) \<le> 2 ^ 43"
proof -
  obtain e where e: "4 \<le> e" "e \<le> 46" "cl_size l = 2 ^ e" "length (cl_data l) = 2 ^ (e - 3)"
    using assms by (auto simp: clog_shape_def)
  have "(2 :: nat) ^ e = 8 * 2 ^ (e - 3)"
    using e(1) power_add [of "2 :: nat" 3 "e - 3"] by simp
  then show "unat (cl_size l) = 8 * length (cl_data l)"
    using e unat_two_power [of e, where 'a = 64] by simp
  show "2 \<le> length (cl_data l)"
    using e power_increasing [of 1 "e - 3" "2 :: nat"] by simp
  show "length (cl_data l) \<le> 2 ^ 43"
    using e power_increasing [of "e - 3" 43 "2 :: nat"] by simp
qed

lemma clog_ok_shape: "clog_ok l cs \<Longrightarrow> clog_shape l"
  by (simp add: clog_ok_def)

lemmas clog_ok_size = clog_shape_size [OF clog_ok_shape]

lemma unat_cells:
  assumes "8 dvd unat (x :: u64)"
  shows "unat x = 8 * (unat x div 8)"
  using assms by simp

lemma clog_ok_pop:
  assumes ok: "clog_ok l (c # cs)"
  shows "clog_ok (pop_head l) cs" "head_cell (pop_head l) = head_cell l + c"
    "pop_head l = l\<lparr>cl_head := cl_head (pop_head l)\<rparr>"
proof -
  have sz: "unat (clog_item_size (cl_head l) l) = 8 * c"
    using ok by (simp add: clog_item_size_def size_cell_eq [OF clog_ok_shape [OF ok]] head_cell_def)
      (simp add: clog_ok_def head_cell_def)
  have h: "unat (cl_head l) = 8 * head_cell l" "unat (cl_tail l) = 8 * tail_cell l"
    using ok by (auto simp: clog_ok_def head_cell_def tail_cell_def)
  have "unat (cl_head l) + 8 * c \<le> unat (cl_tail l)"
    using ok unfolding h by (simp add: clog_ok_def)
  then have new: "unat (cl_head (pop_head l)) = unat (cl_head l) + 8 * c"
    using sz unsigned_less [of "cl_tail l", where ?'a = nat] by (simp add: pop_head_def unat_add_no_overflow)
  then show hc: "head_cell (pop_head l) = head_cell l + c"
    by (simp add: head_cell_def)
  show "pop_head l = l\<lparr>cl_head := cl_head (pop_head l)\<rparr>" by (simp add: pop_head_def)
  have "8 dvd unat (cl_head (pop_head l))" using new ok by (simp add: clog_ok_def)
  then show "clog_ok (pop_head l) cs"
    using ok hc by (simp add: clog_ok_def) (simp add: pop_head_def tail_cell_def)
qed

lemma pop_until_ok:
  assumes "clog_ok l cs" "unat v = 8 * (tail_cell l + 1 + c)" "c < length (cl_data l)"
    "unat (cl_tail l) + 2 ^ 47 < 2 ^ 64"
  shows "\<exists>l' cs'. pop_until v l = Some l' \<and> l' = l\<lparr>cl_head := cl_head l'\<rparr> \<and> clog_ok l' cs'
    \<and> tail_cell l + 1 + c \<le> head_cell l' + length (cl_data l)
    \<and> items_from (head_cell l') cs'
        = dropWhile (\<lambda>(p, _). p + length (cl_data l) < tail_cell l + 1 + c)
            (items_from (head_cell l) cs)"
  using assms
proof (induction cs arbitrary: l)
  case (Nil l)
  note S = clog_ok_size [OF Nil.prems(1)]
  have h: "unat (cl_head l) = 8 * head_cell l" "head_cell l = tail_cell l"
    "unat (cl_tail l) = 8 * tail_cell l"
    using Nil.prems(1) by (auto simp: clog_ok_def head_cell_def tail_cell_def)
  have "unat (cl_head l + cl_size l) = 8 * (head_cell l + length (cl_data l))"
    using S(1,3) h Nil.prems(4) by (subst unat_add_no_overflow) auto
  then have "\<not> v > cl_head l + cl_size l"
    using Nil.prems(2,3) h by (simp add: unat_lt_iff)
  then show ?case
    using Nil.prems h by (subst pop_until.simps) auto
next
  case (Cons d cs l)
  note S = clog_ok_size [OF Cons.prems(1)]
  note pop = clog_ok_pop [OF Cons.prems(1)]
  have h: "unat (cl_head l) = 8 * head_cell l" "head_cell l \<le> tail_cell l"
    "unat (cl_tail l) = 8 * tail_cell l"
    using Cons.prems(1) by (auto simp: clog_ok_def head_cell_def tail_cell_def)
  have "unat (cl_head l + cl_size l) = 8 * (head_cell l + length (cl_data l))"
    using S(1,3) h Cons.prems(4) by (subst unat_add_no_overflow) auto
  then have gt: "v > cl_head l + cl_size l
      \<longleftrightarrow> head_cell l + length (cl_data l) < tail_cell l + 1 + c"
    using Cons.prems(2) by (simp add: unat_lt_iff) linarith
  have same: "cl_data (pop_head l) = cl_data l" "cl_tail (pop_head l) = cl_tail l"
    "tail_cell (pop_head l) = tail_cell l"
    by (simp_all add: pop_head_def tail_cell_def)
  show ?case
  proof (cases "v > cl_head l + cl_size l")
    case True
    obtain l' cs' where r: "pop_until v (pop_head l) = Some l'"
      "l' = pop_head l\<lparr>cl_head := cl_head l'\<rparr>" "clog_ok l' cs'"
      "tail_cell l + 1 + c \<le> head_cell l' + length (cl_data l)"
      "items_from (head_cell l') cs' = dropWhile (\<lambda>(p, _). p + length (cl_data l) < tail_cell l + 1 + c)
         (items_from (head_cell l + d) cs)"
      using Cons.IH [OF pop(1)] Cons.prems(2-4) same pop(2) by auto
    have "l' = l\<lparr>cl_head := cl_head l'\<rparr>"
      using r(2) pop(3) by (metis (no_types, lifting) circular_log.update_convs(6) circular_log.surjective circular_log.simps(6))
    then show ?thesis
      using r True gt by (subst pop_until.simps) auto
  next
    case False
    then show ?thesis
      using Cons.prems(1) gt by (subst pop_until.simps) auto
  qed
qed

lemma mod_window_neq:
  assumes "(a :: nat) < b" "b < a + n"
  shows "a mod n \<noteq> b mod n"
proof
  assume "a mod n = b mod n"
  then have "n dvd b - a" using assms(1) by (metis less_imp_le mod_eq_dvd_iff_nat)
  then have "n \<le> b - a" using assms(1) by (simp add: dvd_imp_le)
  then show False using assms by simp
qed

lemma chain_write:
  "chain d h cs \<Longrightarrow> h + sum_list cs \<le> n \<Longrightarrow> n < h + length d \<Longrightarrow>
     chain (d[n mod length d := x]) h cs"
proof (induction cs arbitrary: h)
  case (Cons c cs)
  have "h mod length d \<noteq> n mod length d"
    using Cons.prems by (intro mod_window_neq) auto
  then show ?case using Cons by auto
qed simp

lemma chain_append: "chain d h (cs @ [c]) \<longleftrightarrow> chain d h cs \<and> chain d (h + sum_list cs) [c]"
  by (induction cs arbitrary: h) (auto simp: add.assoc)

lemma items_from_append: "items_from h (cs @ [c]) = items_from h cs @ [(h + sum_list cs, c)]"
  by (induction cs arbitrary: h) (auto simp: add.assoc)

lemma push_tail_ok:
  assumes ok: "clog_ok l cs" and c: "unat sz = 8 * c" "0 < c" "c < length (cl_data l)"
    and tl: "unat (cl_tail l) + 2 ^ 47 < 2 ^ 64"
  shows "\<exists>l' cs'. push_tail sz l = Some (cl_tail l AND kOffsetMask, l') \<and> clog_ok l' cs'
    \<and> length (cl_data l') = length (cl_data l)
    \<and> items_from (head_cell l') cs'
        = dropWhile (\<lambda>(p, _). p + length (cl_data l) \<le> tail_cell l + c)
            (items_from (head_cell l) cs) @ [(tail_cell l, c)]
    \<and> unat (cl_tail l') = unat (cl_tail l) + 8 * c
    \<and> cl_data l' = (cl_data l)[tail_cell l mod length (cl_data l) := sz]"
proof -
  let ?N = "length (cl_data l)" and ?t = "tail_cell l"
  note S = clog_ok_size [OF ok]
  have t8: "unat (cl_tail l) = 8 * ?t" using ok by (auto simp: clog_ok_def tail_cell_def)
  let ?v = "cl_tail l + sizeof_Item + sz"
  have "unat sz < 2 ^ 47" using c(1,3) S(3) by simp
  then have no: "unat (cl_tail l) + unat sz < 2 ^ LENGTH(64)" using tl by simp
  have v: "unat ?v = 8 * (?t + 1 + c)"
    using tl c S(3) t8 by (simp add: sizeof_Item_def unat_word_ariths)
  obtain l1 cs1 where l1: "pop_until ?v l = Some l1" "l1 = l\<lparr>cl_head := cl_head l1\<rparr>"
    "clog_ok l1 cs1" "?t + 1 + c \<le> head_cell l1 + ?N"
    "items_from (head_cell l1) cs1 = dropWhile (\<lambda>(p, _). p + ?N < ?t + 1 + c)
       (items_from (head_cell l) cs)"
    using pop_until_ok [OF ok v c(3) tl] by blast
  have same: "cl_tail l1 = cl_tail l" "cl_data l1 = cl_data l" "tail_cell l1 = ?t"
    by (subst l1(2); simp add: tail_cell_def)+
  define l2 where "l2 = l1\<lparr>cl_data := (cl_data l)[?t mod ?N := sz], cl_tail := cl_tail l + sz\<rparr>"
  have cell: "size_cell (cl_tail l) l1 = ?t mod ?N"
    by (simp add: size_cell_eq [OF clog_ok_shape [OF l1(3)]] same tail_cell_def)
  have "push_tail sz l = Some (cl_tail l AND kOffsetMask, l2)"
    by (simp add: push_tail_def l1(1) cell same l2_def Let_def)
  moreover have tl2: "unat (cl_tail l2) = unat (cl_tail l) + 8 * c"
    using unat_add_no_overflow [OF no] c(1) by (simp add: l2_def)
  moreover from this have tc2: "tail_cell l2 = ?t + c" by (simp add: tail_cell_def)
  moreover have sum: "head_cell l1 + sum_list cs1 = ?t"
    using l1(3) same(3) by (simp add: clog_ok_def)
  moreover have "clog_ok l2 (cs1 @ [c])"
  proof -
    have "chain ((cl_data l)[?t mod ?N := sz]) (head_cell l1) cs1"
      using l1(3,4) c(2) sum same by (intro chain_write) (auto simp: clog_ok_def)
    moreover have "?t mod ?N < ?N" using S(2) by (intro mod_less_divisor) linarith
    ultimately have "chain (cl_data l2) (head_cell l2) (cs1 @ [c])"
      using sum c by (simp add: chain_append l2_def head_cell_def)
    moreover have "8 dvd unat (cl_tail l2)" using tl2 t8 by simp
    ultimately show ?thesis
      using l1(3,4) sum tc2
      by (simp add: clog_ok_def) (simp add: l2_def head_cell_def same)
  qed
  moreover have "(\<lambda>(p, _). p + ?N < ?t + 1 + c) = (\<lambda>(p :: nat, _ :: nat). p + ?N \<le> ?t + c)"
    by auto
  then have "items_from (head_cell l2) (cs1 @ [c]) = dropWhile (\<lambda>(p, _). p + ?N \<le> ?t + c)
       (items_from (head_cell l) cs) @ [(?t, c)]"
    using l1(5) sum by (simp add: items_from_append l2_def head_cell_def)
  ultimately show ?thesis
    by (intro exI [of _ l2] exI [of _ "cs1 @ [c]"]) (simp add: l2_def)
qed

section \<open>Items\<close>

text \<open>What a client does: allocate, then write the words.\<close>

fun clog_write_words :: "u64 \<Rightarrow> nat \<Rightarrow> u64 list \<Rightarrow> circular_log \<Rightarrow> circular_log option" where
  "clog_write_words offset k [] l = Some l"
| "clog_write_words offset k (w # ws) l =
     (case clog_write offset k w l of
        None \<Rightarrow> None | Some l \<Rightarrow> clog_write_words offset (Suc k) ws l)"

definition clog_fits :: "circular_log \<Rightarrow> 'a list \<Rightarrow> bool" where
  "clog_fits l ws \<longleftrightarrow> Suc (length ws) < length (cl_data l)
     \<and> 8 * Suc (length ws) \<le> unat kWrapAroundSize \<and> unat (cl_tail l) + 2 ^ 47 < 2 ^ 64"

definition clog_put :: "circular_log \<Rightarrow> u64 list \<Rightarrow> (circular_log \<times> u64) option" where
  "clog_put l ws =
     (if clog_fits l ws
      then case clog_allocate (of_nat (8 * length ws)) l of
             None \<Rightarrow> None
           | Some (offset, l) \<Rightarrow>
               (case clog_write_words offset 0 ws l of None \<Rightarrow> None | Some l \<Rightarrow> Some (l, offset))
      else None)"

definition clog_contents :: "circular_log \<Rightarrow> u64 \<Rightarrow> u64 list" where
  "clog_contents l offset =
     map (\<lambda>k. the (clog_read offset k l)) [0 ..< unat (clog_item_size offset l) div 8 - 1]"

definition clog_inv :: "circular_log \<Rightarrow> bool" where
  "clog_inv l \<longleftrightarrow> (\<exists>cs. clog_ok l cs \<and> (\<forall>c \<in> set cs. 8 * c \<le> unat kWrapAroundSize))"

text \<open>The offset the code returns for a position.\<close>

definition offset_at :: "nat \<Rightarrow> u64" where
  "offset_at p = of_nat (8 * p) AND kOffsetMask"

definition clog_live :: "circular_log \<Rightarrow> u64 \<Rightarrow> bool" where
  "clog_live l offset \<longleftrightarrow>
     (\<exists>cs p c. clog_ok l cs \<and> (p, c) \<in> set (items_from (head_cell l) cs) \<and> offset = offset_at p)"

lemma chain_unique:
  "chain d h cs \<Longrightarrow> chain d h ds \<Longrightarrow> sum_list cs = sum_list ds \<Longrightarrow> cs = ds"
proof (induction cs arbitrary: h ds)
  case Nil
  then show ?case by (cases ds) auto
next
  case (Cons c cs)
  then show ?case by (cases ds) auto
qed

lemma clog_ok_unique: "clog_ok l cs \<Longrightarrow> clog_ok l ds \<Longrightarrow> cs = ds"
  by (rule chain_unique [of "cl_data l" "head_cell l"]) (simp_all add: clog_ok_def)

lemma clog_live_iff:
  "clog_ok l cs \<Longrightarrow>
     clog_live l x \<longleftrightarrow> (\<exists>p c. (p, c) \<in> set (items_from (head_cell l) cs) \<and> x = offset_at p)"
  unfolding clog_live_def by (metis clog_ok_unique)

lemma items_from_bounds:
  "(p, c) \<in> set (items_from h cs) \<Longrightarrow> h \<le> p \<and> p + c \<le> h + sum_list cs \<and> c \<in> set cs"
  by (induction cs arbitrary: h) fastforce+

lemma items_from_header:
  "chain d h cs \<Longrightarrow> (p, c) \<in> set (items_from h cs) \<Longrightarrow> unat (d ! (p mod length d)) = 8 * c \<and> 0 < c"
  by (induction cs arbitrary: h) auto

lemma unat_offset_at:
  assumes "8 * p < 2 ^ 64"
  shows "unat (offset_at p) = (8 * p) mod 2 ^ 48"
proof -
  have "unat (of_nat (8 * p) :: u64) = 8 * p"
    using assms by (simp add: unat_of_nat del: of_nat_mult)
  then show ?thesis
    by (simp only: offset_at_def kOffsetMask_def two_power_minus_one_mask unat_and_mask)
qed

lemma size_cell_offset_at:
  assumes "clog_shape l" "8 * p < 2 ^ 64"
  shows "size_cell (offset_at p) l = p mod length (cl_data l)"
proof -
  obtain e where e: "4 \<le> e" "e \<le> 46" "length (cl_data l) = 2 ^ (e - 3)"
    using assms(1) by (auto simp: clog_shape_def)
  have "unat (offset_at p) div 8 = p mod 2 ^ 45"
    unfolding unat_offset_at [OF assms(2)] using mod_mult2_eq [of "8 * p" 8 "2 ^ 45"] by simp
  moreover have "p mod 2 ^ 45 mod 2 ^ (e - 3) = p mod 2 ^ (e - 3)"
    using e by (intro mod_mod_cancel le_imp_power_dvd) simp
  ultimately show ?thesis
    by (simp only: size_cell_eq [OF assms(1)] e(3))
qed

lemma offset_at_inj:
  assumes "offset_at p = offset_at q" "p < q + 2 ^ 45" "q < p + 2 ^ 45" "8 * p < 2 ^ 64" "8 * q < 2 ^ 64"
  shows "p = q"
proof -
  have "(8 * p) mod 2 ^ 48 = (8 * q) mod 2 ^ 48"
    using assms(1) unat_offset_at [OF assms(4)] unat_offset_at [OF assms(5)] by simp
  then show ?thesis
    using mod_window_neq [of "8 * p" "8 * q" "2 ^ 48"] mod_window_neq [of "8 * q" "8 * p" "2 ^ 48"]
      assms(2,3) by (cases p q rule: linorder_cases) auto
qed

lemma mod_once: "(a :: nat) < 2 * n \<Longrightarrow> a mod n = (if a < n then a else a - n)"
  by (simp add: le_mod_geq not_less)

lemma data_cell_eq:
  assumes ok: "clog_shape l" and p: "8 * p < 2 ^ 64" and k: "Suc k < length (cl_data l)"
    "8 * Suc k \<le> unat kWrapAroundSize"
  shows "data_cell (offset_at p) k l = Some ((p + 1 + k) mod length (cl_data l))"
proof -
  let ?N = "length (cl_data l)"
  have c: "size_cell (offset_at p) l = p mod ?N" using size_cell_offset_at [OF ok p] .
  have N: "p mod ?N < ?N" using k by (intro mod_less_divisor) linarith
  have "(p + 1 + k) mod ?N = (p mod ?N + (1 + k)) mod ?N" using mod_add_left_eq [of p ?N "1 + k"] by (simp only: add.assoc)
  also have "\<dots> = (if p mod ?N + (1 + k) < ?N then p mod ?N + (1 + k) else p mod ?N + (1 + k) - ?N)"
    using N k(1) by (intro mod_once) linarith
  finally show ?thesis
    using N k unfolding data_cell_def c Let_def by (simp add: ac_simps)
qed

lemma write_words_ok:
  assumes "clog_shape l" "8 * p < 2 ^ 64" "k + length ws < length (cl_data l)"
    "8 * (k + length ws) \<le> unat kWrapAroundSize"
  shows "\<exists>d. clog_write_words (offset_at p) k ws l = Some (l\<lparr>cl_data := d\<rparr>)
    \<and> length d = length (cl_data l)
    \<and> (\<forall>i<length ws. d ! ((p + 1 + k + i) mod length d) = ws ! i)
    \<and> (\<forall>j. (\<forall>i<length ws. (p + 1 + k + i) mod length d \<noteq> j) \<longrightarrow> d ! j = cl_data l ! j)"
  using assms
proof (induction ws arbitrary: k l)
  case Nil
  then show ?case by (intro exI [of _ "cl_data l"]) simp
next
  case (Cons w ws)
  let ?N = "length (cl_data l)"
  let ?c = "(p + 1 + k) mod ?N"
  let ?l = "l\<lparr>cl_data := (cl_data l)[?c := w]\<rparr>"
  have w: "clog_write (offset_at p) k w l = Some ?l"
    using data_cell_eq [OF Cons.prems(1,2), of k] Cons.prems(3,4) by (simp add: clog_write_def)
  obtain d where d: "clog_write_words (offset_at p) (Suc k) ws ?l = Some (?l\<lparr>cl_data := d\<rparr>)"
    "length d = ?N" "\<forall>i<length ws. d ! ((p + 1 + Suc k + i) mod ?N) = ws ! i"
    "\<forall>j. (\<forall>i<length ws. (p + 1 + Suc k + i) mod ?N \<noteq> j) \<longrightarrow> d ! j = (cl_data l)[?c := w] ! j"
    using Cons.IH [of ?l "Suc k"] Cons.prems by auto
  have N: "?c < ?N" using Cons.prems(3) by (intro mod_less_divisor) linarith
  have later: "(p + 1 + k + Suc i) mod ?N \<noteq> ?c" if "i < length ws" for i
    using mod_window_neq [of "p + 1 + k" "p + 1 + k + Suc i" ?N] that Cons.prems(3) by simp
  have "d ! ?c = w"
    using d(4) later N by (metis add_Suc_right add_Suc nth_list_update_eq)
  then have words: "\<forall>i<length (w # ws). d ! ((p + 1 + k + i) mod ?N) = (w # ws) ! i"
    using d(3) by (auto simp: less_Suc_eq_0_disj)
  have "d ! j = cl_data l ! j" if "\<forall>i<length (w # ws). (p + 1 + k + i) mod ?N \<noteq> j" for j
  proof -
    have "?c \<noteq> j" using that by force
    moreover have "\<forall>i<length ws. (p + 1 + Suc k + i) mod ?N \<noteq> j" using that by force
    ultimately show ?thesis using d(4) by simp
  qed
  then show ?case
    using w d(1,2) words by (intro exI [of _ d]) simp
qed

lemma chain_cong:
  "chain d h cs \<Longrightarrow> length d' = length d \<Longrightarrow>
     (\<forall>p c. (p, c) \<in> set (items_from h cs) \<longrightarrow> d' ! (p mod length d) = d ! (p mod length d)) \<Longrightarrow>
     chain d' h cs"
  by (induction cs arbitrary: h) auto

lemma put_ok:
  assumes ok: "clog_ok l cs" and fits: "clog_fits l ws"
  defines "N \<equiv> length (cl_data l)" and "t \<equiv> tail_cell l" and "n \<equiv> Suc (length ws)"
  shows "\<exists>l' cs'. clog_put l ws = Some (l', offset_at t) \<and> clog_ok l' cs'
    \<and> length (cl_data l') = N \<and> tail_cell l' = t + n
    \<and> items_from (head_cell l') cs'
        = dropWhile (\<lambda>(p, _). p + N \<le> t + n) (items_from (head_cell l) cs) @ [(t, n)]
    \<and> cl_data l' ! (t mod N) = of_nat (8 * n)
    \<and> (\<forall>i<length ws. cl_data l' ! ((t + 1 + i) mod N) = ws ! i)
    \<and> (\<forall>q<t. t + n \<le> q + N \<longrightarrow> cl_data l' ! (q mod N) = cl_data l ! (q mod N))"
proof -
  have f: "n < N" "8 * n \<le> unat kWrapAroundSize" "unat (cl_tail l) + 2 ^ 47 < 2 ^ 64"
    using fits by (simp_all add: clog_fits_def n_def N_def)
  have sz: "unat (of_nat (8 * length ws) + sizeof_Item :: u64) = 8 * n"
    using f(2) by (simp add: sizeof_Item_def kWrapAroundSize_def n_def unat_word_ariths unat_of_nat)
  have tl: "unat (cl_tail l) = 8 * t" using ok by (auto simp: clog_ok_def tail_cell_def t_def)
  have "cl_tail l = of_nat (unat (cl_tail l))" by simp
  then have off: "cl_tail l AND kOffsetMask = offset_at t"
    by (simp only: offset_at_def tl)
  have t8: "8 * t < 2 ^ 64" using f(3) tl by simp
  obtain l1 cs1 where l1: "push_tail (of_nat (8 * length ws) + sizeof_Item) l = Some (offset_at t, l1)"
    "clog_ok l1 cs1" "length (cl_data l1) = N"
    "items_from (head_cell l1) cs1 = dropWhile (\<lambda>(p, _). p + N \<le> t + n)
       (items_from (head_cell l) cs) @ [(t, n)]"
    "unat (cl_tail l1) = unat (cl_tail l) + 8 * n"
    "cl_data l1 = (cl_data l)[t mod N := of_nat (8 * length ws) + sizeof_Item]"
    using push_tail_ok [OF ok sz _ _ f(3)] f(1) off by (auto simp: n_def N_def t_def)
  obtain d where d: "clog_write_words (offset_at t) 0 ws l1 = Some (l1\<lparr>cl_data := d\<rparr>)"
    "length d = N" "\<forall>i<length ws. d ! ((t + 1 + i) mod N) = ws ! i"
    "\<forall>j. (\<forall>i<length ws. (t + 1 + i) mod N \<noteq> j) \<longrightarrow> d ! j = cl_data l1 ! j"
    using write_words_ok [OF clog_ok_shape [OF l1(2)] t8, of 0 ws] f l1(3) by (auto simp: n_def)
  let ?l = "l1\<lparr>cl_data := d\<rparr>"
  have keep: "d ! (q mod N) = cl_data l1 ! (q mod N)" if "q \<le> t" "t + n \<le> q + N" for q
  proof -
    have "(t + 1 + i) mod N \<noteq> q mod N" if "i < length ws" for i
      using mod_window_neq [of q "t + 1 + i" N] \<open>q \<le> t\<close> \<open>t + n \<le> q + N\<close> that by (simp add: n_def)
    then show ?thesis using d(4) by blast
  qed
  have old: "cl_data l1 ! (q mod N) = cl_data l ! (q mod N)" if "q < t" "t + n \<le> q + N" for q
    using mod_window_neq [of q t N] that l1(6) by (simp add: n_def)
  have tc: "tail_cell l1 = t + n" using l1(5) tl by (simp add: tail_cell_def)
  have hd: "t + n < head_cell l1 + N" "head_cell l1 + sum_list cs1 = t + n"
    using l1(2,3) tc by (simp_all add: clog_ok_def)
  have "chain d (head_cell l1) cs1"
  proof (rule chain_cong [of "cl_data l1"])
    show "chain (cl_data l1) (head_cell l1) cs1" using l1(2) by (simp add: clog_ok_def)
    show "length d = length (cl_data l1)" using d(2) l1(3) by simp
    have "p \<le> t \<and> t + n \<le> p + N" if "(p, c) \<in> set (items_from (head_cell l1) cs1)" for p c
    proof
      show "t + n \<le> p + N" using items_from_bounds [OF that] hd by linarith
      show "p \<le> t" using that l1(4) items_from_bounds [of p c "head_cell l" cs] ok
        by (auto simp: clog_ok_def t_def dest: set_dropWhileD)
    qed
    then show "\<forall>p c. (p, c) \<in> set (items_from (head_cell l1) cs1) \<longrightarrow>
        d ! (p mod length (cl_data l1)) = cl_data l1 ! (p mod length (cl_data l1))"
      using keep l1(3) by blast
  qed
  then have ok': "clog_ok ?l cs1"
    using l1(2,3) d(2) by (simp add: clog_ok_def head_cell_def tail_cell_def)
  have "t mod N < N" using f(1) by (intro mod_less_divisor) linarith
  then have "d ! (t mod N) = of_nat (8 * n)"
    using keep [of t] l1(6) f(1) by (simp add: n_def sizeof_Item_def N_def)
  then show ?thesis
    using ok' d keep old l1 tc fits
    by (intro exI [of _ ?l] exI [of _ cs1])
       (simp add: clog_put_def clog_allocate_def tail_cell_def head_cell_def)
qed

lemma map_snd_items: "map snd (items_from h cs) = cs"
  by (induction cs arbitrary: h) simp_all

lemma contents_item:
  assumes ok: "clog_ok l cs" and it: "(p, c) \<in> set (items_from (head_cell l) cs)"
    and c: "8 * c \<le> unat kWrapAroundSize"
  shows "clog_contents l (offset_at p)
    = map (\<lambda>k. cl_data l ! ((p + 1 + k) mod length (cl_data l))) [0 ..< c - 1]"
proof -
  let ?N = "length (cl_data l)"
  note b = items_from_bounds [OF it]
  have sum: "head_cell l + sum_list cs = tail_cell l" "tail_cell l < head_cell l + ?N"
    using ok by (simp_all add: clog_ok_def)
  have "unat (cl_tail l) = 8 * tail_cell l" using ok by (auto simp: clog_ok_def tail_cell_def)
  then have p8: "8 * p < 2 ^ 64"
    using b sum unsigned_less [of "cl_tail l", where ?'a = nat] by simp
  have "unat (clog_item_size (offset_at p) l) = 8 * c"
    using items_from_header [of "cl_data l" "head_cell l" cs p c] it ok
    by (simp add: clog_item_size_def size_cell_offset_at [OF clog_ok_shape [OF ok] p8] clog_ok_def)
  moreover have "data_cell (offset_at p) k l = Some ((p + 1 + k) mod ?N)" if "k < c - 1" for k
    using that b sum c by (intro data_cell_eq [OF clog_ok_shape [OF ok] p8]) auto
  ultimately show ?thesis
    by (simp add: clog_contents_def clog_read_def)
qed

lemma item_cells_kept:
  assumes "\<forall>q<t. t + n \<le> q + N \<longrightarrow> f (q mod N) = g (q mod N)" "p + c \<le> t" "t + n \<le> p + N"
  shows "map (\<lambda>k. f ((p + 1 + k) mod N)) [0 ..< c - 1] = map (\<lambda>k. g ((p + 1 + k) mod N)) [0 ..< c - 1]"
  using assms by (intro map_cong) auto

lemma put_SomeD:
  assumes "clog_put l ws = Some r"
  shows "clog_fits l ws"
  using assms by (simp add: clog_put_def split: if_splits)

lemma put_contents:
  assumes ok: "clog_ok l cs" and put: "clog_put l ws = Some (l', x)"
  shows "clog_contents l' x = ws"
proof -
  note f = put_SomeD [OF put]
  obtain cs' where l': "x = offset_at (tail_cell l)" "clog_ok l' cs'"
    "length (cl_data l') = length (cl_data l)"
    "items_from (head_cell l') cs' = dropWhile (\<lambda>(p, _). p + length (cl_data l) \<le> tail_cell l + Suc (length ws))
       (items_from (head_cell l) cs) @ [(tail_cell l, Suc (length ws))]"
    "\<forall>i<length ws. cl_data l' ! ((tail_cell l + 1 + i) mod length (cl_data l)) = ws ! i"
    using put_ok [OF ok f] put by auto
  have "(tail_cell l, Suc (length ws)) \<in> set (items_from (head_cell l') cs')"
    by (simp add: l'(4))
  from contents_item [OF l'(2) this]
  have "clog_contents l' x = map (\<lambda>k. cl_data l' ! ((tail_cell l + 1 + k) mod length (cl_data l)))
      [0 ..< length ws]"
    using f unfolding l'(1,3) clog_fits_def by simp
  also have "\<dots> = ws" using l'(5) by (intro nth_equalityI) simp_all
  finally show ?thesis .
qed

interpretation cl: item_pool clog_inv clog_live clog_contents clog_put clog_release
proof (unfold_locales, goal_cases)
  case (1 l ws l' x)
  then obtain cs where ok: "clog_ok l cs" "\<forall>c \<in> set cs. 8 * c \<le> unat kWrapAroundSize"
    by (auto simp: clog_inv_def)
  note f = put_SomeD [OF 1(2)]
  obtain cs' where cs': "clog_ok l' cs'" "items_from (head_cell l') cs'
      = dropWhile (\<lambda>(p, _). p + length (cl_data l) \<le> tail_cell l + Suc (length ws))
          (items_from (head_cell l) cs) @ [(tail_cell l, Suc (length ws))]"
    using put_ok [OF ok(1) f] 1(2) by auto
  have "set cs' = snd ` set (items_from (head_cell l') cs')"
    by (metis map_snd_items set_map)
  also have "\<dots> \<subseteq> insert (Suc (length ws)) (set cs)"
    using map_snd_items [of "head_cell l" cs] unfolding cs'(2)
    by (auto dest!: set_dropWhileD) (metis image_eqI set_map snd_conv)
  finally have "8 * c \<le> unat kWrapAroundSize" if "c \<in> set cs'" for c
    using that ok(2) f by (auto simp: clog_fits_def)
  then show ?case using cs'(1) by (auto simp: clog_inv_def)
next
  case (2 l ws l' x)
  then obtain cs where ok: "clog_ok l cs" by (auto simp: clog_inv_def)
  obtain cs' where "x = offset_at (tail_cell l)" "clog_ok l' cs'" "items_from (head_cell l') cs'
      = dropWhile (\<lambda>(p, _). p + length (cl_data l) \<le> tail_cell l + Suc (length ws))
          (items_from (head_cell l) cs) @ [(tail_cell l, Suc (length ws))]"
    using put_ok [OF ok put_SomeD [OF 2(2)]] 2(2) by auto
  then have "clog_ok l' cs' \<and> (tail_cell l, Suc (length ws)) \<in> set (items_from (head_cell l') cs')
      \<and> x = offset_at (tail_cell l)" by simp
  then have "clog_live l' x" unfolding clog_live_def by blast
  with put_contents [OF ok 2(2)] show ?case by simp
next
  case (3 l ws l' x y)
  then obtain cs where ok: "clog_ok l cs" "\<forall>c \<in> set cs. 8 * c \<le> unat kWrapAroundSize"
    by (auto simp: clog_inv_def)
  let ?N = "length (cl_data l)" and ?t = "tail_cell l" and ?n = "Suc (length ws)"
  obtain cs' where l': "x = offset_at ?t" "clog_ok l' cs'" "length (cl_data l') = ?N"
    "tail_cell l' = ?t + ?n"
    "items_from (head_cell l') cs' = dropWhile (\<lambda>(p, _). p + ?N \<le> ?t + ?n)
          (items_from (head_cell l) cs) @ [(?t, ?n)]"
    "\<forall>q<?t. ?t + ?n \<le> q + ?N \<longrightarrow> cl_data l' ! (q mod ?N) = cl_data l ! (q mod ?N)"
    using put_ok [OF ok(1) put_SomeD [OF 3(2)]] 3(2) by auto
  obtain p c where pc: "(p, c) \<in> set (items_from (head_cell l') cs')" "y = offset_at p"
    using 3(3) clog_live_iff [OF l'(2)] by auto
  then have old: "(p, c) \<in> set (items_from (head_cell l) cs)"
    using 3(4) l'(1,5) by (auto dest: set_dropWhileD)
  then have "clog_live l y" using ok(1) pc(2) by (auto simp: clog_live_def)
  moreover have b: "p + c \<le> ?t" "8 * c \<le> unat kWrapAroundSize"
    using items_from_bounds [OF old] ok by (auto simp: clog_ok_def)
  moreover have "?t + ?n \<le> p + ?N"
    using items_from_bounds [OF pc(1)] l'(2,3,4) by (auto simp: clog_ok_def)
  ultimately show ?case
    using contents_item [OF ok(1) old] contents_item [OF l'(2) pc(1)] l'(3)
      item_cells_kept [OF l'(6), of p c] pc(2) by simp
qed (simp_all add: clog_release_def)

text \<open>
  C18. Putting an item that fits into a well-formed log succeeds, returns the tail modulo
  2^48, keeps the log well-formed and gives up exactly the oldest items that do not leave
  room for it and one more cell; the new item is the youngest.
\<close>
theorem clog_put_evicts:
  assumes "clog_ok l cs" "clog_fits l ws"
  shows "\<exists>l' cs'. clog_put l ws = Some (l', cl_tail l AND kOffsetMask) \<and> clog_ok l' cs'
    \<and> clog_contents l' (cl_tail l AND kOffsetMask) = ws
    \<and> items_from (head_cell l') cs'
        = dropWhile (\<lambda>(p, _). p + length (cl_data l) \<le> tail_cell l + Suc (length ws))
            (items_from (head_cell l) cs) @ [(tail_cell l, Suc (length ws))]"
proof -
  have "8 * tail_cell l = unat (cl_tail l)" using assms(1) by (auto simp: clog_ok_def tail_cell_def)
  then have "offset_at (tail_cell l) = cl_tail l AND kOffsetMask"
    by (simp only: offset_at_def) simp
  then show ?thesis
    using put_ok [OF assms] put_contents [OF assms(1)] by metis
qed

definition small_log :: circular_log where
  "small_log = \<lparr>cl_mode = 0, cl_data = replicate 8 0, cl_size = 64, cl_mask = 63, cl_lock = 0,
     cl_head = 0, cl_tail = 0\<rparr>"

lemma small_log_ok: "clog_ok small_log []"
  by (simp add: clog_ok_def clog_shape_def small_log_def tail_cell_def head_cell_def mask_eq_decr_exp)
     (intro exI [of _ 6], simp)

theorem clog_put_evicts_witness:
  "\<exists>l'. clog_put small_log [5, 6] = Some (l', 0) \<and> clog_contents l' 0 = [5, 6]"
proof -
  have "clog_fits small_log [5 :: u64, 6]"
    by (simp add: clog_fits_def small_log_def kWrapAroundSize_def)
  from clog_put_evicts [OF small_log_ok this] show ?thesis
    by (auto simp: small_log_def)
qed

text \<open>
  C13. Whatever a client puts into a log that starts empty, an item the log still holds has the
  words that were last put at its offset.
\<close>
theorem clog_remembers:
  assumes "clog_ok l []" "releases_live clog_live clog_put clog_release ops l"
    "pool_run clog_put clog_release ops (l, Map.empty) = (l', m)" "clog_live l' x"
  shows "m x = Some (clog_contents l' x)"
proof -
  have "clog_inv l" using assms(1) by (auto simp: clog_inv_def)
  moreover have "cl.remembers l Map.empty"
    using clog_live_iff [OF assms(1)] by (simp add: cl.remembers_def)
  ultimately show ?thesis
    using cl.run_remembers [OF _ _ assms(2,3)] assms(4) by (simp add: cl.remembers_def)
qed

lemma small_log_put:
  "\<exists>l'. clog_put small_log [5, 6] = Some (l', 0) \<and> clog_live l' 0"
proof -
  have f: "clog_fits small_log [5 :: u64, 6]"
    by (simp add: clog_fits_def small_log_def kWrapAroundSize_def)
  obtain l' where "clog_put small_log [5, 6] = Some (l', offset_at (tail_cell small_log))"
    using put_ok [OF small_log_ok f] by blast
  moreover have "offset_at (tail_cell small_log) = 0"
    by (simp add: offset_at_def tail_cell_def small_log_def)
  moreover have "clog_inv small_log" using small_log_ok by (auto simp: clog_inv_def)
  ultimately show ?thesis using cl.put_new [of small_log "[5, 6]"] by auto
qed

theorem clog_remembers_witness:
  "\<exists>l' m. pool_run clog_put clog_release [Put [5, 6]] (small_log, Map.empty) = (l', m)
     \<and> clog_live l' 0 \<and> m 0 = Some (clog_contents l' 0)"
proof -
  obtain l' where "clog_put small_log [5, 6] = Some (l', 0)" "clog_live l' 0"
    using small_log_put by blast
  then show ?thesis
    using clog_remembers [OF small_log_ok, of "[Put [5, 6]]" l' "[0 \<mapsto> [5, 6]]" 0] by simp
qed

section \<open>Validity\<close>

text \<open>
  The check \<^verbatim>\<open>is_valid\<close>, which the table does before it trusts an offset: it compares the
  distance to the tail, modulo 2^48, with the size of the log.
\<close>

lemma is_valid_iff:
  assumes ok: "clog_ok l cs" and p: "p \<le> tail_cell l" "tail_cell l - p < 2 ^ 45"
  shows "clog_is_valid (offset_at p) l \<longleftrightarrow> tail_cell l \<le> p + length (cl_data l)"
proof -
  let ?T = "unat (cl_tail l)" and ?t = "tail_cell l"
  have T: "?T = 8 * ?t" using ok by (auto simp: clog_ok_def tail_cell_def)
  then have p8: "8 * p < 2 ^ 64" using p(1) unsigned_less [of "cl_tail l", where ?'a = nat] by simp
  have uo: "unat (offset_at p) = (8 * p) mod 2 ^ 48" using p8 by (rule unat_offset_at)
  then have le: "offset_at p \<le> cl_tail l"
    using T p(1) by (simp add: unat_le_iff)
  have "unat ((cl_tail l - offset_at p) AND kOffsetMask) = (8 * ?t - (8 * p) mod 2 ^ 48) mod 2 ^ 48"
    using uo T by (simp only: kOffsetMask_def two_power_minus_one_mask unat_and_mask unat_sub_le [OF le])
  also have "\<dots> = (8 * ?t - 8 * p) mod 2 ^ 48"
  proof -
    have "8 * ?t - (8 * p) mod 2 ^ 48 = 8 * ?t - 8 * p + 2 ^ 48 * (8 * p div 2 ^ 48)"
      using p(1) mult_div_mod_eq [of "2 ^ 48" "8 * p"] by linarith
    then show ?thesis by (simp only: mod_mult_self2)
  qed
  also have "\<dots> = 8 * (?t - p)" using p(2) by (simp add: diff_mult_distrib2)
  finally show ?thesis
    using clog_ok_size(1) [OF ok] by (simp add: clog_is_valid_def unat_le_iff) linarith
qed

fun clog_puts :: "circular_log \<Rightarrow> u64 list list \<Rightarrow> circular_log option" where
  "clog_puts l [] = Some l"
| "clog_puts l (ws # wss) =
     (case clog_put l ws of None \<Rightarrow> None | Some (l', x) \<Rightarrow> clog_puts l' wss)"

lemma puts_keep:
  assumes "clog_puts l wss = Some l'" "clog_ok l cs"
  shows "tail_cell l \<le> tail_cell l' \<and> length (cl_data l') = length (cl_data l)
    \<and> (\<exists>cs'. clog_ok l' cs')
    \<and> (\<forall>q<tail_cell l. tail_cell l' \<le> q + length (cl_data l) \<longrightarrow>
        cl_data l' ! (q mod length (cl_data l)) = cl_data l ! (q mod length (cl_data l)))"
  using assms
proof (induction wss arbitrary: l cs)
  case (Cons ws wss)
  then obtain l1 x where l1: "clog_put l ws = Some (l1, x)" "clog_puts l1 wss = Some l'"
    by (auto split: option.splits)
  obtain cs1 where put: "clog_ok l1 cs1" "length (cl_data l1) = length (cl_data l)"
    "tail_cell l1 = tail_cell l + Suc (length ws)"
    "\<forall>q<tail_cell l. tail_cell l + Suc (length ws) \<le> q + length (cl_data l) \<longrightarrow>
       cl_data l1 ! (q mod length (cl_data l)) = cl_data l ! (q mod length (cl_data l))"
    using put_ok [OF Cons.prems(2) put_SomeD [OF l1(1)]] l1(1) by auto
  have "tail_cell l1 \<le> tail_cell l' \<and> length (cl_data l') = length (cl_data l1)
    \<and> (\<exists>cs'. clog_ok l' cs')
    \<and> (\<forall>q<tail_cell l1. tail_cell l' \<le> q + length (cl_data l1) \<longrightarrow>
        cl_data l' ! (q mod length (cl_data l1)) = cl_data l1 ! (q mod length (cl_data l1)))"
    by (rule Cons.IH [OF l1(2) put(1)])
  then show ?case using put(2,3,4) by auto
qed auto

text \<open>
  C12. As long as fewer than 2^48 bytes were appended since, \<^verbatim>\<open>is_valid\<close> accepts the offset of
  an item only if its words are still the ones that were written, whatever was appended later.
\<close>
theorem valid_item_intact:
  assumes "clog_ok l cs" "clog_put l ws = Some (l1, x)" "clog_puts l1 wss = Some l2"
    "unat (cl_tail l2) - unat (cl_tail l) < 2 ^ 48" "clog_is_valid x l2"
  shows "clog_contents l2 x = ws"
proof -
  let ?N = "length (cl_data l)" and ?t = "tail_cell l" and ?n = "Suc (length ws)"
  obtain cs1 where put: "x = offset_at ?t" "clog_ok l1 cs1" "length (cl_data l1) = ?N"
    "tail_cell l1 = ?t + ?n" "cl_data l1 ! (?t mod ?N) = of_nat (8 * ?n)"
    "\<forall>i<length ws. cl_data l1 ! ((?t + 1 + i) mod ?N) = ws ! i"
    using put_ok [OF assms(1) put_SomeD [OF assms(2)]] assms(2) by auto
  obtain cs2 where l2: "?t + ?n \<le> tail_cell l2" "length (cl_data l2) = ?N" "clog_ok l2 cs2"
    "\<forall>q<?t + ?n. tail_cell l2 \<le> q + ?N \<longrightarrow> cl_data l2 ! (q mod ?N) = cl_data l1 ! (q mod ?N)"
    using puts_keep [OF assms(3) put(2)] put(3,4) by auto
  have T: "unat (cl_tail l2) = 8 * tail_cell l2" "unat (cl_tail l) = 8 * ?t"
    using l2(3) assms(1) by (auto simp: clog_ok_def tail_cell_def)
  have win: "tail_cell l2 \<le> ?t + ?N"
    using is_valid_iff [OF l2(3), of ?t] assms(4,5) l2(1,2) T put(1) by simp
  then have keep: "cl_data l2 ! (q mod ?N) = cl_data l1 ! (q mod ?N)" if "?t \<le> q" "q < ?t + ?n" for q
    using l2(4) that by simp
  have f: "?n < ?N" "8 * ?n \<le> unat kWrapAroundSize"
    using put_SomeD [OF assms(2)] by (simp_all add: clog_fits_def)
  have t8: "8 * ?t < 2 ^ 64" using T(2) unsigned_less [of "cl_tail l", where ?'a = nat] by simp
  have "clog_item_size x l2 = of_nat (8 * ?n)"
    using keep [of ?t] put(1,5) size_cell_offset_at [OF clog_ok_shape [OF l2(3)] t8] l2(2)
    by (simp add: clog_item_size_def)
  moreover have "8 * ?n < 2 ^ 64" using f(2) by (simp add: kWrapAroundSize_def)
  ultimately have sz: "unat (clog_item_size x l2) = 8 * ?n"
    by (simp only: unat_of_nat) simp
  have "clog_read x k l2 = Some (ws ! k)" if k: "k < length ws" for k
  proof -
    have "data_cell x k l2 = Some ((?t + 1 + k) mod ?N)"
      using data_cell_eq [OF clog_ok_shape [OF l2(3)] t8, of k] f k unfolding l2(2) put(1) by simp
    moreover have "cl_data l2 ! ((?t + 1 + k) mod ?N) = ws ! k"
      using keep [of "?t + 1 + k"] put(6) k by simp
    ultimately show ?thesis by (simp add: clog_read_def)
  qed
  then show ?thesis by (auto simp: clog_contents_def sz intro: nth_equalityI)
qed

theorem valid_item_intact_witness:
  "\<exists>l1. clog_put small_log [5, 6] = Some (l1, 0) \<and> clog_is_valid 0 l1 \<and> clog_contents l1 0 = [5, 6]"
proof -
  obtain l1 where l1: "clog_put small_log [5, 6] = Some (l1, 0)" using small_log_put by blast
  obtain cs1 where t1: "clog_ok l1 cs1" "tail_cell l1 = 3" "length (cl_data l1) = 8"
    using put_ok [OF small_log_ok put_SomeD [OF l1]] l1 by (auto simp: small_log_def tail_cell_def)
  then have "unat (cl_tail l1) = 24" by (auto simp: clog_ok_def tail_cell_def)
  moreover have "clog_is_valid 0 l1"
    using is_valid_iff [OF t1(1), of 0] t1(2,3) by (simp add: offset_at_def)
  ultimately show ?thesis
    using valid_item_intact [OF small_log_ok l1, of "[]" l1] l1 by simp
qed

end
