(* ===== verification/Segregated_Fit.thy ===== *)
theory Segregated_Fit
  imports Item_Pool Round_Up
begin

text \<open>
  The segregated-fit allocator of \<^verbatim>\<open>mica/pool/segregated_fit.h\<close> and
  \<^verbatim>\<open>segregated_fit_impl.h\<close>: chunks with a tag of status and size at both ends, and one
  doubly linked free list per size class, threaded through the free chunks. Pointers are
  64-bit addresses, \<^verbatim>\<open>data_\<close> the address of the memory, which is a list of 64-bit cells: all
  chunks start and end at multiples of 8 bytes. A function that reads behind the heads of the
  free lists, or does not return, has the result \<^const>\<open>None\<close>; the cells of the memory are read and written
  without a check, the invariant \<open>sf_ok\<close> keeping the offsets inside.
\<close>

section \<open>The code\<close>

record segregated_fit =
  sf_mode :: u8
  sf_data :: u64
  sf_mem :: "u64 list"
  sf_lock :: u8
  sf_free_head :: "u64 list"
  sf_size :: u64

definition kNumClasses :: nat where "kNumClasses = 32"

definition kClassIncrement :: u64 where "kClassIncrement = 8"

definition kOverhead :: u64 where "kOverhead = 24"

definition kMinimumSize :: u64 where "kMinimumSize = 32"

definition kMaximumSize :: u64 where "kMaximumSize = 2 ^ 40 - 1"

definition kStatusFree :: u64 where "kStatusFree = 0"

definition kStatusOccupied :: u64 where "kStatusOccupied = 1"

definition kInsufficientSpace :: u64 where "kInsufficientSpace = - 1"

definition get_tag_size :: "u64 \<Rightarrow> u64" where
  "get_tag_size vec = vec AND (push_bit 63 1 - 1)"

definition get_tag_status :: "u64 \<Rightarrow> u64" where
  "get_tag_status vec = drop_bit 63 vec"

definition make_tag_vec :: "u64 \<Rightarrow> u64 \<Rightarrow> u64" where
  "make_tag_vec sz status = sz OR push_bit 63 status"

definition size_to_class_roundup :: "u64 \<Rightarrow> nat" where
  "size_to_class_roundup sz =
     (if sz \<le> kMinimumSize + (of_nat kNumClasses - 1) * kClassIncrement
      then unat ((sz - kMinimumSize + kClassIncrement - 1) div kClassIncrement)
      else kNumClasses - 1)"

definition size_to_class_rounddown :: "u64 \<Rightarrow> nat" where
  "size_to_class_rounddown sz =
     (if sz < kMinimumSize + of_nat kNumClasses * kClassIncrement
      then unat ((sz - kMinimumSize) div kClassIncrement)
      else kNumClasses - 1)"

definition sf_cell :: "u64 \<Rightarrow> segregated_fit \<Rightarrow> nat" where
  "sf_cell p s = unat (p - sf_data s) div 8"

definition sf_rd :: "u64 \<Rightarrow> segregated_fit \<Rightarrow> u64" where
  "sf_rd p s = sf_mem s ! sf_cell p s"

definition sf_wr :: "u64 \<Rightarrow> u64 \<Rightarrow> segregated_fit \<Rightarrow> segregated_fit" where
  "sf_wr p v s = s\<lparr>sf_mem := (sf_mem s)[sf_cell p s := v]\<rparr>"

definition set_free_head :: "nat \<Rightarrow> u64 \<Rightarrow> segregated_fit \<Rightarrow> segregated_fit" where
  "set_free_head c p s = s\<lparr>sf_free_head := (sf_free_head s)[c := p]\<rparr>"

definition insert_free_chunk :: "u64 \<Rightarrow> u64 \<Rightarrow> segregated_fit \<Rightarrow> segregated_fit" where
  "insert_free_chunk chunk_start chunk_size s =
     (let chunk_class = size_to_class_rounddown chunk_size;
          tag = make_tag_vec chunk_size kStatusFree;
          s = sf_wr (chunk_start + chunk_size - 8) tag s;
          s = sf_wr chunk_start tag s;
          s = sf_wr (chunk_start + 8) 0 s;
          s = sf_wr (chunk_start + 16) (sf_free_head s ! chunk_class) s;
          s = (if sf_free_head s ! chunk_class \<noteq> 0
               then sf_wr (sf_free_head s ! chunk_class + 8) chunk_start s else s)
      in set_free_head chunk_class chunk_start s)"

definition remove_free_chunk_from_free_list :: "u64 \<Rightarrow> u64 \<Rightarrow> segregated_fit \<Rightarrow> segregated_fit" where
  "remove_free_chunk_from_free_list chunk_start chunk_size s =
     (let prev_chunk_start = sf_rd (chunk_start + 8) s;
          next_chunk_start = sf_rd (chunk_start + 16) s;
          s = (if prev_chunk_start \<noteq> 0
               then sf_wr (prev_chunk_start + 16) next_chunk_start s
               else set_free_head (size_to_class_rounddown chunk_size) next_chunk_start s)
      in if next_chunk_start \<noteq> 0 then sf_wr (next_chunk_start + 8) prev_chunk_start s else s)"

function scan_classes :: "u64 list \<Rightarrow> nat \<Rightarrow> nat" where
  "scan_classes heads c =
     (if c < kNumClasses then if heads ! c \<noteq> 0 then c else scan_classes heads (Suc c) else c)"
  by pat_completeness auto
termination by (relation "measure (\<lambda>(heads, c). kNumClasses - c)") auto

declare scan_classes.simps [simp del]

text \<open>The walk along the free list of a class: the null pointer, or a chunk that is large enough.\<close>

partial_function (option) walk_free_list :: "u64 \<Rightarrow> u64 \<Rightarrow> segregated_fit \<Rightarrow> u64 option" where
  "walk_free_list minimum_chunk_size chunk_start s =
     (if chunk_start = 0 then Some 0
      else if get_tag_size (sf_rd chunk_start s) \<ge> minimum_chunk_size then Some chunk_start
      else walk_free_list minimum_chunk_size (sf_rd (chunk_start + 16) s) s)"

declare walk_free_list.simps [code]

definition remove_free_chunk_from_head ::
  "u64 \<Rightarrow> segregated_fit \<Rightarrow> ((u64 \<times> u64) option \<times> segregated_fit) option" where
  "remove_free_chunk_from_head minimum_chunk_size s =
     (let chunk_class = scan_classes (sf_free_head s) (size_to_class_roundup minimum_chunk_size)
      in if chunk_class = kNumClasses then Some (None, s)
         else if chunk_class > kNumClasses then None
         else case walk_free_list minimum_chunk_size (sf_free_head s ! chunk_class) s of
                None \<Rightarrow> None
              | Some chunk_start \<Rightarrow>
                  if chunk_start = 0 then Some (None, s)
                  else let chunk_size = get_tag_size (sf_rd chunk_start s)
                       in Some (Some (chunk_start, chunk_size),
                                remove_free_chunk_from_free_list chunk_start chunk_size s))"

definition sf_reset :: "segregated_fit \<Rightarrow> segregated_fit" where
  "sf_reset s =
     insert_free_chunk (sf_data s) (sf_size s) (s\<lparr>sf_free_head := replicate kNumClasses 0\<rparr>)"

definition sf_new ::
  "(u64 \<Rightarrow> u64) \<Rightarrow> u64 \<Rightarrow> bool \<Rightarrow> bool \<Rightarrow> u64 \<Rightarrow> (u64 \<Rightarrow> u64 list) \<Rightarrow> segregated_fit option" where
  "sf_new alloc_roundup config_size concurrent_read concurrent_write addr mem =
     (let size = alloc_roundup (if config_size < kMinimumSize then kMinimumSize else config_size)
      in case next_power_of_two size of
           None \<Rightarrow> None
         | Some size \<Rightarrow>
             let size = alloc_roundup size
             in Some (sf_reset
                 \<lparr>sf_mode = (if \<not> concurrent_read then 0 else if \<not> concurrent_write then 1 else 2),
                  sf_data = addr, sf_mem = mem size, sf_lock = 0, sf_free_head = [],
                  sf_size = size\<rparr>))"

definition sf_acquire :: "segregated_fit \<Rightarrow> segregated_fit option" where
  "sf_acquire s =
     (if sf_mode s = 2 then if sf_lock s = 0 then Some (s\<lparr>sf_lock := 1\<rparr>) else None else Some s)"

definition sf_unlock :: "segregated_fit \<Rightarrow> segregated_fit" where
  "sf_unlock s = (if sf_mode s = 2 then s\<lparr>sf_lock := 0\<rparr> else s)"

definition coalese_free_chunk_left ::
  "u64 \<Rightarrow> u64 \<Rightarrow> segregated_fit \<Rightarrow> u64 \<times> u64 \<times> segregated_fit" where
  "coalese_free_chunk_left chunk_start chunk_size s =
     (if chunk_start = sf_data s then (chunk_start, chunk_size, s)
      else if get_tag_status (sf_rd (chunk_start - 8) s) = kStatusOccupied
      then (chunk_start, chunk_size, s)
      else let adj_chunk_size = get_tag_size (sf_rd (chunk_start - 8) s);
               adj_chunk_start = chunk_start - adj_chunk_size
           in (adj_chunk_start, chunk_size + adj_chunk_size,
               remove_free_chunk_from_free_list adj_chunk_start adj_chunk_size s))"

definition coalese_free_chunk_right ::
  "u64 \<Rightarrow> u64 \<Rightarrow> segregated_fit \<Rightarrow> u64 \<times> u64 \<times> segregated_fit" where
  "coalese_free_chunk_right chunk_start chunk_size s =
     (if chunk_start + chunk_size = sf_data s + sf_size s then (chunk_start, chunk_size, s)
      else if get_tag_status (sf_rd (chunk_start + chunk_size) s) = kStatusOccupied
      then (chunk_start, chunk_size, s)
      else let adj_chunk_start = chunk_start + chunk_size;
               adj_chunk_size = get_tag_size (sf_rd adj_chunk_start s)
           in (chunk_start, chunk_size + adj_chunk_size,
               remove_free_chunk_from_free_list adj_chunk_start adj_chunk_size s))"

definition sf_allocate :: "u64 \<Rightarrow> segregated_fit \<Rightarrow> (u64 \<times> segregated_fit) option" where
  "sf_allocate item_size s =
     (let minimum_chunk_size = roundup 8 item_size + kOverhead
      in case remove_free_chunk_from_head minimum_chunk_size s of
           None \<Rightarrow> None
         | Some (None, s) \<Rightarrow> Some (kInsufficientSpace, s)
         | Some (Some (chunk_start, chunk_size), s) \<Rightarrow>
             let leftover_chunk_size = chunk_size - minimum_chunk_size;
                 (chunk_size, s) =
                   (if leftover_chunk_size \<ge> kMinimumSize
                    then (minimum_chunk_size,
                          insert_free_chunk (chunk_start + minimum_chunk_size)
                            leftover_chunk_size s)
                    else (chunk_size, s));
                 tag = make_tag_vec chunk_size kStatusOccupied;
                 s = sf_wr (chunk_start + chunk_size - 8) tag s;
                 s = sf_wr chunk_start tag s;
                 s = sf_wr (chunk_start + 8) item_size s
             in Some (chunk_start + 8 - sf_data s, s))"

definition sf_release :: "u64 \<Rightarrow> segregated_fit \<Rightarrow> segregated_fit" where
  "sf_release offset s =
     (let chunk_start = sf_data s + offset - 8;
          chunk_size = get_tag_size (sf_rd chunk_start s);
          (chunk_start, chunk_size, s) = coalese_free_chunk_left chunk_start chunk_size s;
          (chunk_start, chunk_size, s) = coalese_free_chunk_right chunk_start chunk_size s
      in insert_free_chunk chunk_start chunk_size s)"

text \<open>The address of an item's data, and the length \<^verbatim>\<open>get_item\<close> reports.\<close>

definition sf_get_item :: "u64 \<Rightarrow> segregated_fit \<Rightarrow> u64" where
  "sf_get_item offset s = sf_data s + offset + 8"

definition sf_item_len :: "u64 \<Rightarrow> segregated_fit \<Rightarrow> u64" where
  "sf_item_len offset s = get_tag_size (sf_rd (sf_data s + offset) s)"

definition sf_allocate_raw :: "u64 \<Rightarrow> segregated_fit \<Rightarrow> (u64 \<times> segregated_fit) option" where
  "sf_allocate_raw item_size s =
     (case sf_allocate item_size s of
        None \<Rightarrow> None
      | Some (offset, s) \<Rightarrow>
          Some (if offset = kInsufficientSpace then 0 else sf_data s + offset + 8, s))"

definition sf_release_raw :: "u64 \<Rightarrow> segregated_fit \<Rightarrow> segregated_fit" where
  "sf_release_raw p s = (if p = 0 then s else sf_release (p - 8 - sf_data s) s)"

section \<open>Addresses and tags\<close>

text \<open>The address of a cell, the tag of a chunk of \<open>n\<close> cells, and the class of its size.\<close>

definition at_cell :: "u64 \<Rightarrow> nat \<Rightarrow> u64" where "at_cell b i = b + of_nat (8 * i)"

definition tag_of :: "nat \<Rightarrow> bool \<Rightarrow> u64" where
  "tag_of n occ = make_tag_vec (of_nat (8 * n)) (if occ then kStatusOccupied else kStatusFree)"

definition class_of :: "nat \<Rightarrow> nat" where "class_of n = (if n < 36 then n - 4 else 31)"

definition sf_shape :: "segregated_fit \<Rightarrow> bool" where
  "sf_shape s \<longleftrightarrow>
     unat (sf_size s) = 8 * length (sf_mem s) \<and> sf_data s \<noteq> 0 \<and>
     unat (sf_data s) + 8 * length (sf_mem s) \<le> 2 ^ 64 \<and>
     8 * length (sf_mem s) \<le> unat kMaximumSize + 1 \<and> length (sf_free_head s) = kNumClasses"

lemma sf_shape_simps [simp]:
  "length m = length (sf_mem s) \<Longrightarrow> sf_shape (s\<lparr>sf_mem := m\<rparr>) = sf_shape s"
  "length h = length (sf_free_head s) \<Longrightarrow> sf_shape (s\<lparr>sf_free_head := h\<rparr>) = sf_shape s"
  by (simp_all add: sf_shape_def)

lemma sf_shape_bound:
  assumes "sf_shape s"
  shows "length (sf_mem s) \<le> 2 ^ 37"
  using assms by (simp add: sf_shape_def kMaximumSize_def)

lemma at_cell_add: "at_cell b i + of_nat (8 * n) = at_cell b (i + n)"
  by (simp add: at_cell_def algebra_simps)

lemma at_cell_8: "at_cell b i + 8 = at_cell b (Suc i)" "at_cell b i + 16 = at_cell b (Suc (Suc i))"
  by (simp_all add: at_cell_def algebra_simps)

lemma at_cell_minus_8: "at_cell b (Suc i) - 8 = at_cell b i"
  by (simp add: at_cell_def algebra_simps)

lemma unat_cells_word: "n \<le> 2 ^ 38 \<Longrightarrow> unat (of_nat (8 * n) :: u64) = 8 * n"
  by (simp add: unat_of_nat del: of_nat_mult)

lemma sf_cell_at: "i \<le> 2 ^ 38 \<Longrightarrow> sf_cell (at_cell (sf_data s) i) s = i"
  by (simp add: sf_cell_def at_cell_def unat_cells_word del: of_nat_mult)

lemma at_cell_inj:
  assumes "at_cell b i = at_cell b j" "i \<le> 2 ^ 38" "j \<le> 2 ^ 38"
  shows "i = j"
proof -
  have "unat (of_nat (8 * i) :: u64) = unat (of_nat (8 * j) :: u64)"
    using assms(1) by (simp only: at_cell_def add_left_cancel)
  then show ?thesis using unat_cells_word assms(2,3) by simp
qed

lemma at_cell_nonzero:
  assumes "sf_shape s" "i < length (sf_mem s)"
  shows "at_cell (sf_data s) i \<noteq> 0"
proof -
  have i: "i \<le> 2 ^ 38" using assms sf_shape_bound [OF assms(1)] by simp
  have no: "unat (sf_data s) + unat (of_nat (8 * i) :: u64) < 2 ^ LENGTH(64)"
    unfolding unat_cells_word [OF i] using assms by (simp add: sf_shape_def)
  have "unat (at_cell (sf_data s) i) = unat (sf_data s) + 8 * i"
    unfolding at_cell_def unat_add_no_overflow [OF no] unat_cells_word [OF i] ..
  moreover have "0 < unat (sf_data s)" using assms(1) by (simp add: sf_shape_def unat_gt_0)
  ultimately show ?thesis by (auto simp: unat_eq_0 [symmetric])
qed

lemma tag_fields:
  assumes "n \<le> 2 ^ 38"
  shows "get_tag_size (tag_of n occ) = of_nat (8 * n)"
    "get_tag_status (tag_of n occ) = (if occ then kStatusOccupied else kStatusFree)"
proof -
  define w where "w = (of_nat (8 * n) :: u64)"
  have "unat w < 2 ^ 63" using unat_cells_word [OF assms] assms by (simp add: w_def)
  then have "w AND mask 63 = w"
    by (simp add: word_unat_eq_iff unat_and_mask)
  then have hi: "\<not> bit w k" if "63 \<le> k" for k
    using that by (metis bit_and_iff bit_mask_iff not_less)
  have m: "push_bit 63 (1 :: u64) - 1 = mask 63" by (simp add: mask_eq_decr_exp push_bit_eq_mult)
  show "get_tag_size (tag_of n occ) = of_nat (8 * n)"
    unfolding w_def [symmetric] get_tag_size_def tag_of_def make_tag_vec_def m
    by (rule bit_word_eqI) (use hi in \<open>auto simp: bit_simps kStatusFree_def kStatusOccupied_def
      not_le [symmetric] split: if_splits\<close>)
  show "get_tag_status (tag_of n occ) = (if occ then kStatusOccupied else kStatusFree)"
    unfolding w_def [symmetric] get_tag_status_def tag_of_def make_tag_vec_def
    by (rule bit_word_eqI) (use hi in \<open>auto simp: bit_simps kStatusFree_def kStatusOccupied_def w_def [symmetric] split: if_splits\<close>)
qed

lemma class_rounddown:
  assumes "4 \<le> n" "n \<le> 2 ^ 38"
  shows "size_to_class_rounddown (of_nat (8 * n)) = class_of n"
proof -
  define w where "w = (of_nat (8 * n) :: u64)"
  have u: "unat w = 8 * n" using unat_cells_word [OF assms(2)] by (simp add: w_def)
  have "unat ((w - 32) div 8) = n - 4"
    using u assms(1) by (simp add: unat_div unat_sub_le unat_le_iff)
  then show ?thesis
    unfolding w_def [symmetric]
    by (simp add: size_to_class_rounddown_def class_of_def kMinimumSize_def kNumClasses_def
        kClassIncrement_def unat_lt_iff u)
qed

lemma class_roundup:
  assumes "4 \<le> n" "n \<le> 2 ^ 38"
  shows "size_to_class_roundup (of_nat (8 * n)) = (if n \<le> 35 then n - 4 else 31)"
proof -
  define w where "w = (of_nat (8 * n) :: u64)"
  have u: "unat w = 8 * n" using unat_cells_word [OF assms(2)] by (simp add: w_def)
  have "w - 32 + 8 - 1 = w - 25" by simp
  then have "unat ((w - 32 + 8 - 1) div 8) = (8 * n - 25) div 8"
    using u assms(1) by (simp add: unat_div unat_sub_le unat_le_iff)
  moreover have "(8 * n - 25) div 8 = n - 4" using assms(1) by presburger
  ultimately show ?thesis
    unfolding w_def [symmetric]
    by (simp add: size_to_class_roundup_def kMinimumSize_def kNumClasses_def
        kClassIncrement_def unat_le_iff u)
qed

lemma class_of_less: "class_of n < kNumClasses"
  by (auto simp: class_of_def kNumClasses_def)

section \<open>Free lists\<close>

text \<open>
  A free list is given by the first cells of its chunks; cell \<open>x + 1\<close> holds the address of the
  previous chunk, \<open>x + 2\<close> that of the next one, 0 standing for the end.
\<close>

definition hd_ptr :: "u64 \<Rightarrow> nat list \<Rightarrow> u64" where
  "hd_ptr b xs = (case xs of [] \<Rightarrow> 0 | x # _ \<Rightarrow> at_cell b x)"

definition last_ptr :: "u64 \<Rightarrow> u64 \<Rightarrow> nat list \<Rightarrow> u64" where
  "last_ptr b p ys = (if ys = [] then p else at_cell b (last ys))"

lemma hd_ptr_simps [simp]: "hd_ptr b [] = 0" "hd_ptr b (x # xs) = at_cell b x"
  by (simp_all add: hd_ptr_def)

fun dll :: "u64 list \<Rightarrow> u64 \<Rightarrow> u64 \<Rightarrow> nat list \<Rightarrow> bool" where
  "dll mem b p [] \<longleftrightarrow> True"
| "dll mem b p (x # xs) \<longleftrightarrow>
     mem ! Suc x = p \<and> mem ! Suc (Suc x) = hd_ptr b xs \<and> dll mem b (at_cell b x) xs"

text \<open>Chunks have four cells at least, so the links of two of them never share a cell.\<close>

definition apart :: "nat \<Rightarrow> nat \<Rightarrow> bool" where
  "apart x y \<longleftrightarrow> x + 4 \<le> y \<or> y + 4 \<le> x"

lemma dll_cong:
  assumes "dll mem b p xs" "\<forall>x \<in> set xs. mem' ! Suc x = mem ! Suc x \<and> mem' ! Suc (Suc x) = mem ! Suc (Suc x)"
  shows "dll mem' b p xs"
  using assms by (induction xs arbitrary: p) auto

lemma dll_write:
  assumes "dll mem b p xs" "\<forall>x \<in> set xs. c \<noteq> Suc x \<and> c \<noteq> Suc (Suc x)"
  shows "dll (mem[c := v]) b p xs"
  using assms(1) by (rule dll_cong) (use assms(2) in auto)

lemma dll_links:
  "dll mem b p (ys @ x # zs) \<Longrightarrow> mem ! Suc x = last_ptr b p ys \<and> mem ! Suc (Suc x) = hd_ptr b zs"
proof (induction ys arbitrary: p)
  case (Cons y ys)
  have "dll mem b (at_cell b y) (ys @ x # zs)" using Cons.prems by simp
  from Cons.IH [OF this] show ?case by (simp add: last_ptr_def)
qed (simp add: last_ptr_def)

definition set_prev :: "nat list \<Rightarrow> u64 \<Rightarrow> u64 list \<Rightarrow> u64 list" where
  "set_prev zs p mem = (case zs of [] \<Rightarrow> mem | z # _ \<Rightarrow> mem[Suc z := p])"

definition set_next :: "nat list \<Rightarrow> u64 \<Rightarrow> u64 list \<Rightarrow> u64 list" where
  "set_next ys p mem = (if ys = [] then mem else mem[Suc (Suc (last ys)) := p])"

lemma length_set_links [simp]:
  "length (set_prev zs p mem) = length mem" "length (set_next zs p mem) = length mem"
  by (simp_all add: set_prev_def set_next_def split: list.splits)

lemma set_prev_nth: "(\<forall>z \<in> set zs. c \<noteq> Suc z) \<Longrightarrow> set_prev zs p mem ! c = mem ! c"
  by (cases zs) (auto simp: set_prev_def)

lemma set_next_nth: "(\<forall>y \<in> set ys. c \<noteq> Suc (Suc y)) \<Longrightarrow> set_next ys p mem ! c = mem ! c"
  by (metis last_in_set nth_list_update_neq set_next_def)

lemma dll_write_apart:
  assumes "dll mem b p xs" "\<forall>x \<in> set xs. apart y x" "c = Suc y \<or> c = Suc (Suc y)"
  shows "dll (mem[c := v]) b p xs"
  using assms(1) by (rule dll_write) (use assms(2,3) in \<open>force simp: apart_def\<close>)

lemma pairwise_apart_Cons:
  "pairwise apart (set (x # xs)) \<and> distinct (x # xs) \<longleftrightarrow>
     (\<forall>y \<in> set xs. apart x y) \<and> pairwise apart (set xs) \<and> distinct xs"
  by (auto simp: pairwise_insert apart_def)

text \<open>Putting a chunk in front of a list, and taking one out of it.\<close>

lemma dll_new_prev:
  assumes "dll mem b q zs" "\<forall>z \<in> set zs. Suc z < length mem" "pairwise apart (set zs)" "distinct zs"
  shows "dll (set_prev zs p mem) b p zs"
proof (cases zs)
  case (Cons z zs')
  have "dll (mem[Suc z := p]) b (at_cell b z) zs'"
    using assms(1,3,4) pairwise_apart_Cons [of z zs'] by (intro dll_write_apart [of _ _ _ _ z]) (simp_all add: Cons)
  moreover have "mem ! Suc (Suc z) = hd_ptr b zs'" "Suc z < length mem"
    using assms(1,2) by (simp_all add: Cons)
  ultimately show ?thesis by (simp add: Cons set_prev_def)
qed simp

lemma dll_remove:
  assumes "dll mem b p (ys @ x # zs)" "\<forall>z \<in> set (ys @ x # zs). Suc (Suc z) < length mem"
    "pairwise apart (set (ys @ x # zs))" "distinct (ys @ x # zs)"
  shows "dll (set_prev zs (last_ptr b p ys) (set_next ys (hd_ptr b zs) mem)) b p (ys @ zs)"
  using assms
proof (induction ys arbitrary: p)
  case Nil
  have "dll mem b (at_cell b x) zs" using Nil.prems(1) by simp
  then have "dll (set_prev zs p mem) b p zs"
    by (rule dll_new_prev) (use Nil.prems pairwise_apart_Cons [of x zs] in auto)
  then show ?case by (simp add: last_ptr_def set_next_def)
next
  case (Cons y ys)
  have ap: "\<forall>z \<in> set (ys @ x # zs). apart y z"
    and rest: "pairwise apart (set (ys @ x # zs))" "distinct (ys @ x # zs)"
    using Cons.prems(3,4) pairwise_apart_Cons [of y "ys @ x # zs"] by auto
  have len: "Suc (Suc y) < length mem" using Cons.prems(2) by simp
  have y: "mem ! Suc y = p" "mem ! Suc (Suc y) = hd_ptr b (ys @ x # zs)"
    "dll mem b (at_cell b y) (ys @ x # zs)"
    using Cons.prems(1) by simp_all
  show ?case
  proof (cases "ys = []")
    case True
    let ?m = "mem[Suc (Suc y) := hd_ptr b zs]"
    have "dll mem b (at_cell b x) zs" using y(3) True by simp
    then have "dll ?m b (at_cell b x) zs"
      by (rule dll_write_apart [of _ _ _ _ y]) (use ap True in auto)
    then have "dll (set_prev zs (at_cell b y) ?m) b (at_cell b y) zs"
      by (rule dll_new_prev) (use Cons.prems(2) rest True pairwise_apart_Cons [of x zs] in auto)
    moreover have "Suc y \<noteq> Suc z \<and> Suc (Suc y) \<noteq> Suc z" if "z \<in> set zs" for z
      using bspec [OF ap, of z] that by (auto simp: apart_def)
    then have "set_prev zs (at_cell b y) ?m ! Suc y = p"
      "set_prev zs (at_cell b y) ?m ! Suc (Suc y) = hd_ptr b zs"
      using len y(1) by (simp_all add: set_prev_nth)
    ultimately show ?thesis
      by (simp add: True set_next_def last_ptr_def)
  next
    case False
    let ?m = "set_prev zs (last_ptr b (at_cell b y) ys) (set_next ys (hd_ptr b zs) mem)"
    have "dll ?m b (at_cell b y) (ys @ zs)"
      using Cons.IH [OF y(3) _ rest] Cons.prems(2) by simp
    moreover have "?m ! c = mem ! c" if c: "c = Suc y \<or> c = Suc (Suc y)" for c
    proof -
      have "c \<noteq> Suc z \<and> c \<noteq> Suc (Suc z)" if "z \<in> set (ys @ x # zs)" for z
        using bspec [OF ap that] c by (auto simp: apart_def)
      then show ?thesis by (simp add: set_prev_nth set_next_nth)
    qed
    moreover have "hd_ptr b (ys @ zs) = hd_ptr b (ys @ x # zs)"
      using False by (cases ys) simp_all
    ultimately have "dll ?m b p (y # ys @ zs)" using y(1,2) by simp
    then show ?thesis using False by (simp add: set_next_def last_ptr_def)
  qed
qed

text \<open>
  The lists of all classes: together they hold the free chunks \<open>F\<close>, each in the list of its
  size class.
\<close>

definition lists_ok :: "u64 list \<Rightarrow> u64 \<Rightarrow> u64 list \<Rightarrow> nat list list \<Rightarrow> (nat \<times> nat) set \<Rightarrow> bool" where
  "lists_ok mem b heads fl F \<longleftrightarrow>
     length heads = kNumClasses \<and> length fl = kNumClasses \<and>
     (\<forall>k<kNumClasses. heads ! k = hd_ptr b (fl ! k) \<and> dll mem b 0 (fl ! k) \<and> distinct (fl ! k) \<and>
        set (fl ! k) = {x. \<exists>n. (x, n) \<in> F \<and> class_of n = k})"

definition spaced :: "nat \<Rightarrow> (nat \<times> nat) set \<Rightarrow> bool" where
  "spaced N F \<longleftrightarrow>
     (\<forall>x n. (x, n) \<in> F \<longrightarrow> 4 \<le> n \<and> x + n \<le> N) \<and>
     (\<forall>x n y m. (x, n) \<in> F \<longrightarrow> (y, m) \<in> F \<longrightarrow> x = y \<and> n = m \<or> x + n \<le> y \<or> y + m \<le> x)"

definition link_cells :: "(nat \<times> nat) set \<Rightarrow> nat set" where
  "link_cells F = {c. \<exists>(x, n) \<in> F. c = Suc x \<or> c = Suc (Suc x)}"

lemma spaced_bound: "spaced N F \<Longrightarrow> (x, n) \<in> F \<Longrightarrow> 4 \<le> n \<and> x + n \<le> N"
  unfolding spaced_def by blast

lemma spaced_pair:
  "spaced N F \<Longrightarrow> (x, n) \<in> F \<Longrightarrow> (y, m) \<in> F \<Longrightarrow> x = y \<and> n = m \<or> x + n \<le> y \<or> y + m \<le> x"
  unfolding spaced_def by blast

lemma spaced_apart:
  assumes "spaced N F" "(x, n) \<in> F" "(y, m) \<in> F" "x \<noteq> y"
  shows "apart x y"
  using spaced_pair [OF assms(1-3)] spaced_bound [OF assms(1,2)] spaced_bound [OF assms(1,3)] assms(4)
  by (auto simp: apart_def)

lemma spaced_size:
  assumes "spaced N F" "(x, n) \<in> F" "(x, m) \<in> F"
  shows "n = m"
  using spaced_pair [OF assms] spaced_bound [OF assms(1,2)] spaced_bound [OF assms(1,3)] by auto

lemma lists_okD:
  assumes "lists_ok mem b heads fl F" "k < kNumClasses"
  shows "heads ! k = hd_ptr b (fl ! k)" "dll mem b 0 (fl ! k)" "distinct (fl ! k)"
    "x \<in> set (fl ! k) \<Longrightarrow> \<exists>n. (x, n) \<in> F \<and> class_of n = k"
    "(x, n) \<in> F \<Longrightarrow> class_of n = k \<Longrightarrow> x \<in> set (fl ! k)"
  using assms by (auto simp: lists_ok_def)

lemma lists_okI:
  assumes ok: "lists_ok mem b heads fl F" and k: "k < kNumClasses"
    and "length heads' = length heads" "heads' ! k = hd_ptr b xs" "dll mem' b 0 xs" "distinct xs"
    "set xs = {x. \<exists>n. (x, n) \<in> F' \<and> class_of n = k}"
    and "\<And>j. j \<noteq> k \<Longrightarrow> heads' ! j = heads ! j"
    "\<And>j. j < kNumClasses \<Longrightarrow> j \<noteq> k \<Longrightarrow> dll mem' b 0 (fl ! j)"
    "\<And>j. j < kNumClasses \<Longrightarrow> j \<noteq> k \<Longrightarrow> set (fl ! j) = {x. \<exists>n. (x, n) \<in> F' \<and> class_of n = j}"
  shows "lists_ok mem' b heads' (fl[k := xs]) F'"
proof -
  have "heads' ! j = hd_ptr b (fl[k := xs] ! j) \<and> dll mem' b 0 (fl[k := xs] ! j)
      \<and> distinct (fl[k := xs] ! j)
      \<and> set (fl[k := xs] ! j) = {x. \<exists>n. (x, n) \<in> F' \<and> class_of n = j}"
    if j: "j < kNumClasses" for j
  proof (cases "j = k")
    case True
    then show ?thesis using assms(4-7) ok k by (simp add: lists_ok_def)
  next
    case False
    then show ?thesis
      using assms(8-10) [of j] j lists_okD(1,3) [OF ok j] by simp
  qed
  then show ?thesis using ok assms(3) by (simp add: lists_ok_def)
qed

lemma lists_apart:
  assumes "lists_ok mem b heads fl F" "spaced N F" "k < kNumClasses"
  shows "pairwise apart (set (fl ! k))" "x \<in> set (fl ! k) \<Longrightarrow> Suc (Suc x) < N"
proof -
  show "pairwise apart (set (fl ! k))"
    unfolding pairwise_def using lists_okD(4) [OF assms(1,3)] spaced_apart [OF assms(2)] by blast
  show "Suc (Suc x) < N" if x: "x \<in> set (fl ! k)"
  proof -
    obtain n where "(x, n) \<in> F" using lists_okD(4) [OF assms(1,3) x] by blast
    then show ?thesis using spaced_bound [OF assms(2)] by fastforce
  qed
qed

lemma lists_frame:
  assumes "lists_ok mem b heads fl F" "\<forall>c \<in> link_cells F. mem' ! c = mem ! c"
  shows "lists_ok mem' b heads fl F"
proof -
  have "dll mem' b 0 (fl ! k)" if k: "k < kNumClasses" for k
  proof (rule dll_cong [OF lists_okD(2) [OF assms(1) k]])
    show "\<forall>x \<in> set (fl ! k). mem' ! Suc x = mem ! Suc x \<and> mem' ! Suc (Suc x) = mem ! Suc (Suc x)"
    proof
      fix x assume "x \<in> set (fl ! k)"
      then obtain n where "(x, n) \<in> F" using lists_okD(4) [OF assms(1) k] by blast
      then have "Suc x \<in> link_cells F" "Suc (Suc x) \<in> link_cells F" by (auto simp: link_cells_def)
      then show "mem' ! Suc x = mem ! Suc x \<and> mem' ! Suc (Suc x) = mem ! Suc (Suc x)"
        using assms(2) by blast
    qed
  qed
  then show ?thesis using assms(1) by (simp add: lists_ok_def)
qed

lemma set_prev_frame:
  "set zs \<subseteq> fst ` F \<Longrightarrow> c \<notin> link_cells F \<Longrightarrow> set_prev zs p mem ! c = mem ! c"
  by (rule set_prev_nth) (fastforce simp: link_cells_def)

lemma set_next_frame:
  "set ys \<subseteq> fst ` F \<Longrightarrow> c \<notin> link_cells F \<Longrightarrow> set_next ys p mem ! c = mem ! c"
  by (rule set_next_nth) (fastforce simp: link_cells_def)

lemma lists_remove:
  assumes ok: "lists_ok mem b heads fl F" and sp: "spaced (length mem) F"
    and x: "(x, n) \<in> F" "class_of n = k"
  shows "\<exists>ys zs. fl ! k = ys @ x # zs \<and> mem ! Suc x = last_ptr b 0 ys \<and> mem ! Suc (Suc x) = hd_ptr b zs
    \<and> lists_ok (set_prev zs (last_ptr b 0 ys) (set_next ys (hd_ptr b zs) mem)) b
        (if ys = [] then heads[k := hd_ptr b zs] else heads) (fl[k := ys @ zs]) (F - {(x, n)})
    \<and> (\<forall>c. c \<notin> link_cells (F - {(x, n)}) \<longrightarrow>
          set_prev zs (last_ptr b 0 ys) (set_next ys (hd_ptr b zs) mem) ! c = mem ! c)"
proof -
  have k: "k < kNumClasses" using class_of_less x(2) by auto
  note kd = lists_okD [OF ok k]
  obtain ys zs where s: "fl ! k = ys @ x # zs"
    using kd(5) [OF x] by (auto simp: in_set_conv_decomp)
  let ?m = "set_prev zs (last_ptr b 0 ys) (set_next ys (hd_ptr b zs) mem)"
  let ?F = "F - {(x, n)}"
  note links = dll_links [OF kd(2) [unfolded s]]
  have dk: "dll ?m b 0 (ys @ zs)"
    using dll_remove [OF kd(2) [unfolded s]] lists_apart [OF ok sp k] kd(3) unfolding s by blast
  have nx: "x \<notin> set ys" "x \<notin> set zs" using kd(3) s by auto
  have sub: "set ys \<subseteq> fst ` ?F" "set zs \<subseteq> fst ` ?F"
    using kd(4) nx s by (force simp: image_iff)+
  have keep: "?m ! c = mem ! c" if "c \<notin> link_cells ?F" for c
    using set_prev_frame [OF sub(2) that] set_next_frame [OF sub(1) that] by simp
  have other: "dll ?m b 0 (fl ! j)" if j: "j < kNumClasses" "j \<noteq> k" for j
  proof (rule dll_cong [OF lists_okD(2) [OF ok j(1)]])
    have "?m ! c = mem ! c" if y: "y \<in> set (fl ! j)" and c: "c = Suc y \<or> c = Suc (Suc y)" for y c
    proof -
      obtain m where m: "(y, m) \<in> F" "class_of m = j" using lists_okD(4) [OF ok j(1) y] by blast
      have "c \<noteq> Suc z \<and> c \<noteq> Suc (Suc z)" if z: "z \<in> set ys \<union> set zs" for z
      proof -
        obtain l where l: "(z, l) \<in> F" "class_of l = k" using kd(4) [of z] z s by auto
        then have "y \<noteq> z" using spaced_size [OF sp] m j(2) by blast
        then show ?thesis using spaced_apart [OF sp m(1) l(1)] c by (auto simp: apart_def)
      qed
      then show ?thesis by (simp add: set_prev_nth set_next_nth)
    qed
    then show "\<forall>y \<in> set (fl ! j). ?m ! Suc y = mem ! Suc y \<and> ?m ! Suc (Suc y) = mem ! Suc (Suc y)"
      by blast
  qed
  have set_k: "set (ys @ zs) = {y. \<exists>l. (y, l) \<in> ?F \<and> class_of l = k}"
  proof -
    have "set (ys @ zs) = set (fl ! k) - {x}" using s nx by auto
    also have "\<dots> = {y. \<exists>l. (y, l) \<in> F \<and> class_of l = k} - {x}"
      using ok k by (simp add: lists_ok_def)
    also have "\<dots> = {y. \<exists>l. (y, l) \<in> ?F \<and> class_of l = k}"
      using spaced_size [OF sp x(1)] by blast
    finally show ?thesis .
  qed
  have set_j: "set (fl ! j) = {y. \<exists>l. (y, l) \<in> ?F \<and> class_of l = j}" if "j < kNumClasses" "j \<noteq> k" for j
    using ok that x(2) by (auto simp: lists_ok_def)
  have "heads ! k = hd_ptr b (ys @ x # zs)" using kd(1) s by simp
  then have "(if ys = [] then heads[k := hd_ptr b zs] else heads) ! k = hd_ptr b (ys @ zs)"
    using ok k by (cases ys) (simp_all add: lists_ok_def)
  moreover have "(if ys = [] then heads[k := hd_ptr b zs] else heads) ! j = heads ! j" if "j \<noteq> k" for j
    using that by simp
  ultimately have "lists_ok ?m b (if ys = [] then heads[k := hd_ptr b zs] else heads)
      (fl[k := ys @ zs]) ?F"
    using dk set_k kd(3) s other set_j by (intro lists_okI [OF ok k]) simp_all
  then show ?thesis using s links keep by blast
qed

lemma spaced_link_cells:
  assumes "spaced N F" "(x, n) \<in> F"
  shows "Suc x \<in> link_cells F" "Suc (Suc x) \<in> link_cells F"
  using assms by (auto simp: link_cells_def)

lemma lists_insert:
  assumes ok: "lists_ok mem b heads fl F" and sp: "spaced (length mem) F"
    and spx: "spaced (length mem) (insert (x, n) F)" and new: "(x, n) \<notin> F"
    and k: "class_of n = k"
    and links: "mem ! Suc x = 0" "mem ! Suc (Suc x) = heads ! k"
  shows "lists_ok (set_prev (fl ! k) (at_cell b x) mem) b (heads[k := at_cell b x])
      (fl[k := x # fl ! k]) (insert (x, n) F)
    \<and> (\<forall>c. c \<notin> link_cells F \<longrightarrow> set_prev (fl ! k) (at_cell b x) mem ! c = mem ! c)"
proof -
  have kl: "k < kNumClasses" using class_of_less k by auto
  note kd = lists_okD [OF ok kl]
  let ?m = "set_prev (fl ! k) (at_cell b x) mem"
  have sub: "set (fl ! k) \<subseteq> fst ` F" using kd(4) by (force simp: image_iff)
  have keep: "?m ! c = mem ! c" if "c \<notin> link_cells F" for c
    using set_prev_frame [OF sub that] by simp
  have fresh: "apart x y" if "(y, m) \<in> F" for y m
  proof -
    have "x \<noteq> y" using spaced_size [OF spx, of x n m] that new by auto
    then show ?thesis using spaced_apart [OF spx, of x n y m] that by simp
  qed
  have xl: "Suc x \<notin> link_cells F" "Suc (Suc x) \<notin> link_cells F"
    using fresh by (fastforce simp: link_cells_def apart_def)+
  have "dll ?m b (at_cell b x) (fl ! k)"
    by (rule dll_new_prev [OF kd(2) _ lists_apart(1) [OF ok sp kl] kd(3)])
       (use lists_apart(2) [OF ok sp kl] in fastforce)
  then have dk: "dll ?m b 0 (x # fl ! k)"
    using keep [OF xl(1)] keep [OF xl(2)] links kd(1) by simp
  have other: "dll ?m b 0 (fl ! j)" if j: "j < kNumClasses" "j \<noteq> k" for j
  proof (rule dll_cong [OF lists_okD(2) [OF ok j(1)]])
    have "?m ! c = mem ! c" if y: "y \<in> set (fl ! j)" and c: "c = Suc y \<or> c = Suc (Suc y)" for y c
    proof -
      obtain m where m: "(y, m) \<in> F" "class_of m = j" using lists_okD(4) [OF ok j(1) y] by blast
      have "c \<noteq> Suc z" if z: "z \<in> set (fl ! k)" for z
      proof -
        obtain l where l: "(z, l) \<in> F" "class_of l = k" using kd(4) z by blast
        then have "y \<noteq> z" using spaced_size [OF sp] m j(2) by blast
        then show ?thesis using spaced_apart [OF sp m(1) l(1)] c by (auto simp: apart_def)
      qed
      then show ?thesis by (simp add: set_prev_nth)
    qed
    then show "\<forall>y \<in> set (fl ! j). ?m ! Suc y = mem ! Suc y \<and> ?m ! Suc (Suc y) = mem ! Suc (Suc y)"
      by blast
  qed
  have nin: "x \<notin> set (fl ! k)" using kd(4) fresh by (force simp: apart_def)
  have "set (x # fl ! k) = {y. \<exists>l. (y, l) \<in> insert (x, n) F \<and> class_of l = k}"
    using ok kl k by (auto simp: lists_ok_def)
  moreover have "set (fl ! j) = {y. \<exists>l. (y, l) \<in> insert (x, n) F \<and> class_of l = j}"
    if "j < kNumClasses" "j \<noteq> k" for j
    using ok that k by (auto simp: lists_ok_def)
  moreover have "k < length heads" using ok kl by (simp add: lists_ok_def)
  ultimately have "lists_ok ?m b (heads[k := at_cell b x]) (fl[k := x # fl ! k]) (insert (x, n) F)"
    using dk nin kd(3) other by (intro lists_okI [OF ok kl]) simp_all
  then show ?thesis using keep by blast
qed

section \<open>The list operations of the code\<close>

lemma rd_at: "i \<le> 2 ^ 38 \<Longrightarrow> sf_rd (at_cell (sf_data s) i) s = sf_mem s ! i"
  by (simp add: sf_rd_def sf_cell_at)

lemma wr_at:
  "i \<le> 2 ^ 38 \<Longrightarrow> sf_wr (at_cell (sf_data s) i) v s = s\<lparr>sf_mem := (sf_mem s)[i := v]\<rparr>"
  by (simp add: sf_wr_def sf_cell_at)

lemma sf_free_head_wr [simp]: "sf_free_head (sf_wr p v s) = sf_free_head s"
  by (simp add: sf_wr_def)

lemma wr_at_base:
  "sf_data s = b \<Longrightarrow> i \<le> 2 ^ 38 \<Longrightarrow> sf_wr (at_cell b i) v s = s\<lparr>sf_mem := (sf_mem s)[i := v]\<rparr>"
  using wr_at by blast

lemma set_prev_code:
  assumes "sf_shape s" "sf_data s = b" "\<forall>z \<in> set zs. Suc (Suc z) < length (sf_mem s)"
  shows "(if hd_ptr b zs \<noteq> 0 then sf_wr (hd_ptr b zs + 8) p s else s)
    = s\<lparr>sf_mem := set_prev zs p (sf_mem s)\<rparr>"
proof (cases zs)
  case (Cons z zs')
  then have z: "Suc (Suc z) < length (sf_mem s)" using assms(3) by simp
  then have "at_cell b z \<noteq> 0"
    using at_cell_nonzero [OF assms(1), of z] assms(2) by simp
  moreover have "Suc z \<le> 2 ^ 38" using z sf_shape_bound [OF assms(1)] by simp
  ultimately show ?thesis
    using wr_at [of "Suc z" s p] assms(2) by (simp add: Cons at_cell_8 set_prev_def)
qed (simp add: set_prev_def)

lemma set_next_code:
  assumes "sf_shape s" "\<forall>y \<in> set ys. Suc (Suc y) < length (sf_mem s)"
  shows "(if last_ptr (sf_data s) 0 ys \<noteq> 0 then sf_wr (last_ptr (sf_data s) 0 ys + 16) p s
      else set_free_head c p s)
    = s\<lparr>sf_mem := set_next ys p (sf_mem s),
        sf_free_head := (if ys = [] then (sf_free_head s)[c := p] else sf_free_head s)\<rparr>"
proof (cases "ys = []")
  case True
  then show ?thesis by (simp add: last_ptr_def set_next_def set_free_head_def)
next
  case False
  then have z: "Suc (Suc (last ys)) < length (sf_mem s)" using assms(2) by simp
  then have "at_cell (sf_data s) (last ys) \<noteq> 0" by (intro at_cell_nonzero [OF assms(1)]) simp
  moreover have "Suc (Suc (last ys)) \<le> 2 ^ 38" using z sf_shape_bound [OF assms(1)] by simp
  ultimately show ?thesis using False by (simp add: last_ptr_def at_cell_8 wr_at set_next_def)
qed

lemma remove_chunk_ok:
  assumes sh: "sf_shape s" and ok: "lists_ok (sf_mem s) (sf_data s) (sf_free_head s) fl F"
    and sp: "spaced (length (sf_mem s)) F" and x: "(x, n) \<in> F"
  shows "\<exists>m h fl'. remove_free_chunk_from_free_list (at_cell (sf_data s) x) (of_nat (8 * n)) s
      = s\<lparr>sf_mem := m, sf_free_head := h\<rparr>
    \<and> length m = length (sf_mem s) \<and> length h = length (sf_free_head s)
    \<and> lists_ok m (sf_data s) h fl' (F - {(x, n)})
    \<and> (\<forall>c. c \<notin> link_cells (F - {(x, n)}) \<longrightarrow> m ! c = sf_mem s ! c)"
proof -
  let ?b = "sf_data s"
  obtain ys zs where s: "fl ! class_of n = ys @ x # zs" "sf_mem s ! Suc x = last_ptr ?b 0 ys"
    "sf_mem s ! Suc (Suc x) = hd_ptr ?b zs"
    and new: "lists_ok (set_prev zs (last_ptr ?b 0 ys) (set_next ys (hd_ptr ?b zs) (sf_mem s))) ?b
        (if ys = [] then (sf_free_head s)[class_of n := hd_ptr ?b zs] else sf_free_head s)
        (fl[class_of n := ys @ zs]) (F - {(x, n)})"
    and keep: "\<forall>c. c \<notin> link_cells (F - {(x, n)}) \<longrightarrow>
        set_prev zs (last_ptr ?b 0 ys) (set_next ys (hd_ptr ?b zs) (sf_mem s)) ! c = sf_mem s ! c"
    using lists_remove [OF ok sp x refl] by blast
  note N = sf_shape_bound [OF sh]
  have b: "4 \<le> n" "x + n \<le> length (sf_mem s)" using spaced_bound [OF sp x] by auto
  have in_mem: "Suc (Suc z) < length (sf_mem s)" if "z \<in> set (ys @ x # zs)" for z
    using lists_apart(2) [OF ok sp class_of_less, of z] that s(1) by metis
  have rd: "sf_rd (at_cell ?b x + 8) s = last_ptr ?b 0 ys" "sf_rd (at_cell ?b x + 16) s = hd_ptr ?b zs"
    using b N s by (simp_all add: at_cell_8 rd_at)
  have cls: "size_to_class_rounddown (of_nat (8 * n)) = class_of n"
    using b N by (intro class_rounddown) auto
  let ?s = "s\<lparr>sf_mem := set_next ys (hd_ptr ?b zs) (sf_mem s),
        sf_free_head := (if ys = [] then (sf_free_head s)[class_of n := hd_ptr ?b zs] else sf_free_head s)\<rparr>"
  have nx: "(if last_ptr ?b 0 ys \<noteq> 0 then sf_wr (last_ptr ?b 0 ys + 16) (hd_ptr ?b zs) s
      else set_free_head (class_of n) (hd_ptr ?b zs) s) = ?s"
    by (rule set_next_code [OF sh]) (use in_mem in auto)
  have "sf_shape ?s" using sh by (simp add: sf_shape_def)
  then have pv: "(if hd_ptr ?b zs \<noteq> 0 then sf_wr (hd_ptr ?b zs + 8) (last_ptr ?b 0 ys) ?s else ?s)
      = ?s\<lparr>sf_mem := set_prev zs (last_ptr ?b 0 ys) (sf_mem ?s)\<rparr>"
    by (rule set_prev_code) (use in_mem in simp_all)
  have "remove_free_chunk_from_free_list (at_cell ?b x) (of_nat (8 * n)) s
      = ?s\<lparr>sf_mem := set_prev zs (last_ptr ?b 0 ys) (sf_mem ?s)\<rparr>"
    unfolding remove_free_chunk_from_free_list_def rd cls Let_def nx pv ..
  then show ?thesis
    using new keep by (intro exI conjI) (simp, simp_all)
qed

lemma spaced_subset: "spaced N F \<Longrightarrow> F' \<subseteq> F \<Longrightarrow> spaced N F'"
  unfolding spaced_def by blast

lemma link_cells_outside:
  assumes "spaced N (insert (x, n) F)" "(x, n) \<notin> F" "x \<le> c" "c < x + n"
  shows "c \<notin> link_cells F"
proof
  assume "c \<in> link_cells F"
  then obtain y m where y: "(y, m) \<in> F" "c = Suc y \<or> c = Suc (Suc y)" by (auto simp: link_cells_def)
  then have "y + 4 \<le> y + m" using spaced_bound [OF assms(1), of y m] by simp
  then show False
    using spaced_pair [OF assms(1), of x n y m] y assms by auto
qed

lemma insert_chunk_ok:
  assumes sh: "sf_shape s" and ok: "lists_ok (sf_mem s) (sf_data s) (sf_free_head s) fl F"
    and sp: "spaced (length (sf_mem s)) (insert (x, n) F)" and new: "(x, n) \<notin> F"
  shows "\<exists>m h fl'. insert_free_chunk (at_cell (sf_data s) x) (of_nat (8 * n)) s
      = s\<lparr>sf_mem := m, sf_free_head := h\<rparr>
    \<and> length m = length (sf_mem s) \<and> length h = length (sf_free_head s)
    \<and> lists_ok m (sf_data s) h fl' (insert (x, n) F)
    \<and> m ! x = tag_of n False \<and> m ! (x + n - 1) = tag_of n False
    \<and> (\<forall>c. c \<notin> link_cells (insert (x, n) F) \<longrightarrow> c \<noteq> x \<longrightarrow> c \<noteq> x + n - 1 \<longrightarrow> m ! c = sf_mem s ! c)"
proof -
  let ?b = "sf_data s" and ?k = "class_of n" and ?mem = "sf_mem s" and ?tag = "tag_of n False"
  note N = sf_shape_bound [OF sh]
  have bd: "4 \<le> n" "x + n \<le> length ?mem" using spaced_bound [OF sp, of x n] by auto
  have kl: "?k < kNumClasses" by (rule class_of_less)
  define m0 where "m0 = ?mem[x + n - 1 := ?tag, x := ?tag, Suc x := 0, Suc (Suc x) := sf_free_head s ! ?k]"
  have out: "c \<notin> link_cells F" if "x \<le> c" "c < x + n" for c
    using link_cells_outside [OF sp new that] .
  have keep0: "m0 ! c = ?mem ! c" if "c \<noteq> x" "c \<noteq> Suc x" "c \<noteq> Suc (Suc x)" "c \<noteq> x + n - 1" for c
    using that by (simp add: m0_def)
  have l0: "lists_ok m0 ?b (sf_free_head s) fl F"
  proof (rule lists_frame [OF ok], rule ballI)
    fix c assume c: "c \<in> link_cells F"
    have "c \<noteq> x" "c \<noteq> Suc x" "c \<noteq> Suc (Suc x)" "c \<noteq> x + n - 1"
      using out [of c] c bd(1) by linarith+
    then show "m0 ! c = ?mem ! c" by (rule keep0)
  qed
  have len0: "length m0 = length ?mem" by (simp add: m0_def)
  have m0: "m0 ! Suc x = 0" "m0 ! Suc (Suc x) = sf_free_head s ! ?k" "m0 ! x = ?tag" "m0 ! (x + n - 1) = ?tag"
    using bd by (auto simp: m0_def nth_list_update)
  define m where "m = set_prev (fl ! ?k) (at_cell ?b x) m0"
  have sp0: "spaced (length m0) (insert (x, n) F)" "spaced (length m0) F"
    using sp spaced_subset [OF sp] len0 by auto
  have in_mem: "\<forall>z \<in> set (fl ! ?k). Suc (Suc z) < length ?mem"
    using lists_apart(2) [OF ok _ kl] sp0(2) len0 by simp
  note ins = lists_insert [OF l0 sp0(2,1) new refl m0(1,2), folded m_def]
  have cls: "size_to_class_rounddown (of_nat (8 * n)) = ?k"
    using bd N by (intro class_rounddown) auto
  have hd: "sf_free_head s ! ?k = hd_ptr ?b (fl ! ?k)" using lists_okD(1) [OF ok kl] .
  have end_at: "at_cell ?b x + of_nat (8 * n) - 8 = at_cell ?b (x + n - 1)"
  proof -
    have "x + n = Suc (x + n - 1)" using bd(1) by simp
    then show ?thesis unfolding at_cell_add using at_cell_minus_8 by metis
  qed
  have tag: "make_tag_vec (of_nat (8 * n)) kStatusFree = ?tag" by (simp add: tag_of_def)
  have w1: "sf_wr (at_cell ?b x + 16) (hd_ptr ?b (fl ! ?k)) (sf_wr (at_cell ?b x + 8) 0
      (sf_wr (at_cell ?b x) ?tag (sf_wr (at_cell ?b (x + n - 1)) ?tag s))) = s\<lparr>sf_mem := m0\<rparr>"
    using bd N by (simp add: m0_def at_cell_8 wr_at_base hd)
  have w2: "(if hd_ptr ?b (fl ! ?k) \<noteq> 0 then sf_wr (hd_ptr ?b (fl ! ?k) + 8) (at_cell ?b x) (s\<lparr>sf_mem := m0\<rparr>)
      else s\<lparr>sf_mem := m0\<rparr>) = s\<lparr>sf_mem := m0\<rparr>\<lparr>sf_mem := m\<rparr>"
    using set_prev_code [of "s\<lparr>sf_mem := m0\<rparr>" ?b "fl ! ?k" "at_cell ?b x"] sh len0 in_mem
    by (simp add: m_def)
  have "insert_free_chunk (at_cell ?b x) (of_nat (8 * n)) s
      = s\<lparr>sf_mem := m, sf_free_head := (sf_free_head s)[?k := at_cell ?b x]\<rparr>"
    unfolding insert_free_chunk_def Let_def cls tag end_at sf_free_head_wr hd w1
    by (simp only: segregated_fit.simps hd w2) (simp add: set_free_head_def)
  moreover have "m ! c = ?mem ! c"
    if c: "c \<notin> link_cells (insert (x, n) F)" "c \<noteq> x" "c \<noteq> x + n - 1" for c
  proof -
    have "c \<notin> link_cells F" "c \<noteq> Suc x" "c \<noteq> Suc (Suc x)"
      using c(1) by (auto simp: link_cells_def)
    then show ?thesis using ins keep0 [of c] c(2,3) by simp
  qed
  moreover have "m ! x = ?tag" "m ! (x + n - 1) = ?tag"
    using ins out [of x] out [of "x + n - 1"] bd m0 by auto
  ultimately show ?thesis
    using ins len0
    by (intro exI [of _ m] exI [of _ "(sf_free_head s)[?k := at_cell ?b x]"]
        exI [of _ "fl[?k := x # fl ! ?k]"]) (simp add: m_def)
qed

section \<open>The chunks of the memory\<close>

text \<open>
  The memory as a sequence of chunks, each with its first cell, its number of cells and
  whether it is occupied, and with its tag at both ends.
\<close>

type_synonym chunk = "nat \<times> nat \<times> bool"

fun tiles :: "u64 list \<Rightarrow> nat \<Rightarrow> chunk list \<Rightarrow> nat \<Rightarrow> bool" where
  "tiles mem i [] j \<longleftrightarrow> i = j"
| "tiles mem i ((x, n, occ) # cs) j \<longleftrightarrow>
     x = i \<and> 4 \<le> n \<and> mem ! x = tag_of n occ \<and> mem ! (x + n - 1) = tag_of n occ
     \<and> tiles mem (x + n) cs j"

definition free_of :: "chunk list \<Rightarrow> (nat \<times> nat) set" where
  "free_of cs = {(x, n). (x, n, False) \<in> set cs}"

definition occupied_cells :: "chunk list \<Rightarrow> nat set" where
  "occupied_cells cs = {c. \<exists>x n. (x, n, True) \<in> set cs \<and> x \<le> c \<and> c < x + n}"

lemma free_of_simps [simp]:
  "free_of [] = {}" "free_of ((x, n, occ) # cs) = (if occ then free_of cs else insert (x, n) (free_of cs))"
  "free_of (as @ bs) = free_of as \<union> free_of bs"
  by (auto simp: free_of_def)

lemma tiles_append: "tiles mem i (as @ bs) j \<longleftrightarrow> (\<exists>k. tiles mem i as k \<and> tiles mem k bs j)"
  by (induction mem i as j rule: tiles.induct) auto

lemma tiles_bounds:
  "tiles mem i cs j \<Longrightarrow> i \<le> j \<and> (\<forall>x n occ. (x, n, occ) \<in> set cs \<longrightarrow> i \<le> x \<and> 4 \<le> n \<and> x + n \<le> j)"
  by (induction mem i cs j rule: tiles.induct) fastforce+

lemma tiles_pair:
  "tiles mem i cs j \<Longrightarrow> (x, n, occ) \<in> set cs \<Longrightarrow> (y, m, occ') \<in> set cs \<Longrightarrow>
     (x, n, occ) = (y, m, occ') \<or> x + n \<le> y \<or> y + m \<le> x"
proof (induction cs arbitrary: i)
  case (Cons c cs)
  obtain z l o' where c: "c = (z, l, o')" by (cases c)
  have t: "tiles mem (z + l) cs j" using Cons.prems(1) c by auto
  show ?case
    using Cons.IH [OF t] Cons.prems(2,3) tiles_bounds [OF t] unfolding c by auto
qed simp

lemma tiles_cong:
  "tiles mem i cs j \<Longrightarrow>
     (\<forall>x n occ. (x, n, occ) \<in> set cs \<longrightarrow> mem' ! x = mem ! x \<and> mem' ! (x + n - 1) = mem ! (x + n - 1)) \<Longrightarrow>
     tiles mem' i cs j"
proof (induction cs arbitrary: i)
  case (Cons c cs)
  obtain z l o' where c: "c = (z, l, o')" by (cases c)
  have "tiles mem' (z + l) cs j" by (rule Cons.IH) (use Cons.prems c in auto)
  moreover have "mem' ! z = mem ! z \<and> mem' ! (z + l - 1) = mem ! (z + l - 1)"
    using Cons.prems(2) c by (metis list.set_intros(1))
  ultimately show ?case using Cons.prems(1) c by auto
qed simp

lemma tiles_in_range:
  assumes "tiles mem i cs j" "\<forall>c. i \<le> c \<and> c < j \<longrightarrow> c \<notin> link_cells (free_of cs) \<longrightarrow> mem' ! c = mem ! c"
  shows "tiles mem' i cs j"
proof (rule tiles_cong [OF assms(1)], intro allI impI)
  fix x n occ assume x: "(x, n, occ) \<in> set cs"
  have b: "i \<le> x" "4 \<le> n" "x + n \<le> j" using tiles_bounds [OF assms(1)] x by auto
  have "c \<notin> link_cells (free_of cs)" if c: "c = x \<or> c = x + n - 1" for c
  proof
    assume "c \<in> link_cells (free_of cs)"
    then obtain y m where y: "(y, m, False) \<in> set cs" "c = Suc y \<or> c = Suc (Suc y)"
      by (auto simp: link_cells_def free_of_def)
    have "4 \<le> m" using tiles_bounds [OF assms(1)] y(1) by auto
    then show False using tiles_pair [OF assms(1) x y(1)] y(2) c b(2) by auto
  qed
  moreover have "i \<le> c \<and> c < j" if "c = x \<or> c = x + n - 1" for c using that b by auto
  ultimately show "mem' ! x = mem ! x \<and> mem' ! (x + n - 1) = mem ! (x + n - 1)"
    using assms(2) by blast
qed

lemma occupied_not_link:
  assumes "tiles mem i cs j" "c \<in> occupied_cells cs"
  shows "c \<notin> link_cells (free_of cs)" "i \<le> c" "c < j"
proof -
  obtain x n where x: "(x, n, True) \<in> set cs" "x \<le> c" "c < x + n"
    using assms(2) by (auto simp: occupied_cells_def)
  show "i \<le> c" "c < j" using tiles_bounds [OF assms(1)] x by fastforce+
  show "c \<notin> link_cells (free_of cs)"
  proof
    assume "c \<in> link_cells (free_of cs)"
    then obtain y m where y: "(y, m, False) \<in> set cs" "c = Suc y \<or> c = Suc (Suc y)"
      by (auto simp: link_cells_def free_of_def)
    have "4 \<le> m" using tiles_bounds [OF assms(1)] y(1) by auto
    then show False using tiles_pair [OF assms(1) x(1) y(1)] y(2) x(2,3) by auto
  qed
qed

text \<open>
  The states between two steps of an operation: the chunks \<open>as\<close> and \<open>bs\<close> are in order, and
  the free ones of them in the lists; the cells from \<open>x\<close> to \<open>x + n\<close> belong to the operation.
\<close>

definition sf_hole :: "segregated_fit \<Rightarrow> chunk list \<Rightarrow> nat \<Rightarrow> nat \<Rightarrow> chunk list \<Rightarrow> bool" where
  "sf_hole s as x n bs \<longleftrightarrow>
     sf_shape s \<and> tiles (sf_mem s) 0 as x \<and> tiles (sf_mem s) (x + n) bs (length (sf_mem s)) \<and> 4 \<le> n
     \<and> (\<exists>fl. lists_ok (sf_mem s) (sf_data s) (sf_free_head s) fl (free_of (as @ bs)))"

definition sf_ok :: "segregated_fit \<Rightarrow> chunk list \<Rightarrow> bool" where
  "sf_ok s cs \<longleftrightarrow>
     sf_shape s \<and> tiles (sf_mem s) 0 cs (length (sf_mem s))
     \<and> (\<exists>fl. lists_ok (sf_mem s) (sf_data s) (sf_free_head s) fl (free_of cs))"

definition sf_keeps :: "segregated_fit \<Rightarrow> segregated_fit \<Rightarrow> chunk list \<Rightarrow> bool" where
  "sf_keeps s s' cs \<longleftrightarrow>
     sf_data s' = sf_data s \<and> sf_size s' = sf_size s \<and> length (sf_mem s') = length (sf_mem s)
     \<and> (\<forall>c \<in> occupied_cells cs. sf_mem s' ! c = sf_mem s ! c)"

lemma sf_keeps_trans:
  "sf_keeps s s' cs \<Longrightarrow> sf_keeps s' s'' cs' \<Longrightarrow> set ds \<subseteq> set cs \<Longrightarrow> set ds \<subseteq> set cs' \<Longrightarrow> sf_keeps s s'' ds"
proof -
  assume a: "sf_keeps s s' cs" "sf_keeps s' s'' cs'" "set ds \<subseteq> set cs" "set ds \<subseteq> set cs'"
  have "occupied_cells ds \<subseteq> occupied_cells cs" "occupied_cells ds \<subseteq> occupied_cells cs'"
    using a(3,4) unfolding occupied_cells_def by blast+
  then show ?thesis using a(1,2) unfolding sf_keeps_def by (metis subsetD)
qed

lemma sf_keeps_refl: "sf_keeps s s cs"
  by (simp add: sf_keeps_def)

lemma tiles_spaced:
  assumes "tiles mem 0 cs (length mem)"
  shows "spaced (length mem) (free_of cs)"
proof -
  have "4 \<le> n \<and> x + n \<le> length mem" if "(x, n) \<in> free_of cs" for x n
    using tiles_bounds [OF assms] that by (auto simp: free_of_def)
  moreover have "x = y \<and> n = m \<or> x + n \<le> y \<or> y + m \<le> x"
    if "(x, n) \<in> free_of cs" "(y, m) \<in> free_of cs" for x n y m
    using tiles_pair [OF assms, of x n False y m False] that by (auto simp: free_of_def)
  ultimately show ?thesis unfolding spaced_def by blast
qed

lemma hole_spaced:
  assumes "sf_hole s as x n bs" "k + 4 \<le> n" "(y, m) = (x + k, n - k)"
  shows "spaced (length (sf_mem s)) (insert (y, m) (free_of (as @ bs)))"
    "(y, m) \<notin> free_of (as @ bs)"
proof -
  note a = tiles_bounds [of "sf_mem s" 0 as x] tiles_pair [of "sf_mem s" 0 as x]
  note b = tiles_bounds [of "sf_mem s" "x + n" bs "length (sf_mem s)"]
    tiles_pair [of "sf_mem s" "x + n" bs "length (sf_mem s)"]
  have t: "tiles (sf_mem s) 0 as x" "tiles (sf_mem s) (x + n) bs (length (sf_mem s))"
    using assms(1) by (simp_all add: sf_hole_def)
  have as: "z + l \<le> x" "4 \<le> l" if "(z, l, occ) \<in> set as" for z l occ
    using a(1) [OF t(1)] that by auto
  have bs: "x + n \<le> z" "4 \<le> l" "z + l \<le> length (sf_mem s)" if "(z, l, occ) \<in> set bs" for z l occ
    using b(1) [OF t(2)] that by auto
  have N: "x + n \<le> length (sf_mem s)" using b(1) [OF t(2)] by simp
  show "(y, m) \<notin> free_of (as @ bs)"
    using as bs assms(2,3) by (fastforce simp: free_of_def)
  have bound: "4 \<le> l \<and> z + l \<le> length (sf_mem s)" if "(z, l) \<in> insert (y, m) (free_of (as @ bs))" for z l
    using that as bs N assms(2,3) by (fastforce simp: free_of_def)
  have ab: "z + l \<le> z'" if "(z, l, occ) \<in> set as" "(z', l', occ') \<in> set bs" for z l occ z' l' occ'
    using as(1) [OF that(1)] bs(1) [OF that(2)] by simp
  have "z = z' \<and> l = l' \<or> z + l \<le> z' \<or> z' + l' \<le> z"
    if "(z, l) \<in> insert (y, m) (free_of (as @ bs))" "(z', l') \<in> insert (y, m) (free_of (as @ bs))" for z l z' l'
  proof -
    have free: "u + w \<le> x \<or> x + n \<le> u" if "(u, w) \<in> free_of (as @ bs)" for u w
      using that as bs by (fastforce simp: free_of_def)
    have both: ?thesis if "(z, l) \<in> free_of (as @ bs)" "(z', l') \<in> free_of (as @ bs)"
      using that a(2) [OF t(1), of z l False z' l' False] b(2) [OF t(2), of z l False z' l' False]
        ab [of z l False z' l' False] ab [of z' l' False z l False] by (auto simp: free_of_def)
    show ?thesis
      using that both free [of z l] free [of z' l'] assms(2,3) by (auto simp del: free_of_simps)
  qed
  then show "spaced (length (sf_mem s)) (insert (y, m) (free_of (as @ bs)))"
    unfolding spaced_def using bound by blast
qed

lemma link_cells_range:
  assumes "tiles mem i cs j" "c \<in> link_cells (free_of cs)"
  shows "i < c \<and> c < j"
proof -
  obtain y m where y: "(y, m, False) \<in> set cs" "c = Suc y \<or> c = Suc (Suc y)"
    using assms(2) by (auto simp: link_cells_def free_of_def)
  then have "i \<le> y" "4 \<le> m" "y + m \<le> j" using tiles_bounds [OF assms(1)] by auto
  then show ?thesis using y(2) by auto
qed

lemma link_cells_Un: "link_cells (F \<union> G) = link_cells F \<union> link_cells G"
  by (auto simp: link_cells_def)

lemma occupied_cells_append [simp]: "occupied_cells (as @ bs) = occupied_cells as \<union> occupied_cells bs"
  by (auto simp: occupied_cells_def)

text \<open>
  The frame of a step: in the parts outside the hole it changes links of free chunks only.
\<close>

lemma hole_frame:
  assumes t: "tiles mem 0 as x" "tiles mem y bs N" "x \<le> y"
    and keep: "\<forall>c. c \<notin> link_cells (free_of (as @ bs)) \<longrightarrow> c < x \<or> y \<le> c \<longrightarrow> mem' ! c = mem ! c"
  shows "tiles mem' 0 as x" "tiles mem' y bs N"
    "\<forall>c \<in> occupied_cells (as @ bs). mem' ! c = mem ! c"
proof -
  have l: "c \<notin> link_cells (free_of (as @ bs))" if "c < x" "c \<notin> link_cells (free_of as)" for c
    using that link_cells_range [OF t(2), of c] t(3) by (auto simp: link_cells_Un)
  have r: "c \<notin> link_cells (free_of (as @ bs))" if "y \<le> c" "c \<notin> link_cells (free_of bs)" for c
    using that link_cells_range [OF t(1), of c] t(3) by (auto simp: link_cells_Un)
  show "tiles mem' 0 as x"
    by (rule tiles_in_range [OF t(1)]) (use keep l in blast)
  show "tiles mem' y bs N"
    by (rule tiles_in_range [OF t(2)]) (use keep r in blast)
  show "\<forall>c \<in> occupied_cells (as @ bs). mem' ! c = mem ! c"
    using keep l r occupied_not_link [OF t(1)] occupied_not_link [OF t(2)] by (auto simp: Un_iff)
qed

lemma hole_insert:
  assumes h: "sf_hole s as x n bs" and k: "k + 4 \<le> n"
    and r: "insert_free_chunk (at_cell (sf_data s) (x + k)) (of_nat (8 * (n - k))) s = s'"
  shows "sf_shape s' \<and> sf_keeps s s' (as @ bs) \<and> tiles (sf_mem s') 0 as x
    \<and> tiles (sf_mem s') (x + n) bs (length (sf_mem s'))
    \<and> sf_mem s' ! (x + k) = tag_of (n - k) False \<and> sf_mem s' ! (x + n - 1) = tag_of (n - k) False
    \<and> (\<exists>fl. lists_ok (sf_mem s') (sf_data s') (sf_free_head s') fl
          (insert (x + k, n - k) (free_of (as @ bs))))"
proof -
  have sh: "sf_shape s" and t: "tiles (sf_mem s) 0 as x" "tiles (sf_mem s) (x + n) bs (length (sf_mem s))"
    using h by (simp_all add: sf_hole_def)
  obtain fl where ok: "lists_ok (sf_mem s) (sf_data s) (sf_free_head s) fl (free_of (as @ bs))"
    using h by (auto simp: sf_hole_def)
  obtain m hd fl' where m: "s' = s\<lparr>sf_mem := m, sf_free_head := hd\<rparr>"
    "length m = length (sf_mem s)" "length hd = length (sf_free_head s)"
    "lists_ok m (sf_data s) hd fl' (insert (x + k, n - k) (free_of (as @ bs)))"
    "m ! (x + k) = tag_of (n - k) False" "m ! (x + k + (n - k) - 1) = tag_of (n - k) False"
    "\<forall>c. c \<notin> link_cells (insert (x + k, n - k) (free_of (as @ bs))) \<longrightarrow> c \<noteq> x + k \<longrightarrow>
        c \<noteq> x + k + (n - k) - 1 \<longrightarrow> m ! c = sf_mem s ! c"
    using insert_chunk_ok [OF sh ok hole_spaced [OF h k refl]] r by auto
  have e: "x + k + (n - k) - 1 = x + n - 1" using k by simp
  have keep: "\<forall>c. c \<notin> link_cells (free_of (as @ bs)) \<longrightarrow> c < x \<or> x + n \<le> c \<longrightarrow> m ! c = sf_mem s ! c"
  proof (intro allI impI)
    fix c assume c: "c \<notin> link_cells (free_of (as @ bs))" "c < x \<or> x + n \<le> c"
    have "c \<notin> link_cells (insert (x + k, n - k) (free_of (as @ bs)))"
      using c k by (auto simp: link_cells_def)
    then show "m ! c = sf_mem s ! c" using m(7) c(2) k by auto
  qed
  note fr = hole_frame [OF t _ keep]
  show ?thesis
    using fr m sh unfolding e by (auto simp: sf_keeps_def)
qed

lemma hole_split:
  assumes h: "sf_hole s as x n bs" and k: "k + 4 \<le> n" "4 \<le> k"
    and r: "insert_free_chunk (at_cell (sf_data s) (x + k)) (of_nat (8 * (n - k))) s = s'"
  shows "sf_hole s' as x k ((x + k, n - k, False) # bs) \<and> sf_keeps s s' (as @ bs)"
  using hole_insert [OF h k(1) r] k by (auto simp: sf_hole_def insert_commute)

lemma hole_close:
  assumes h: "sf_hole s as x n bs"
    and r: "insert_free_chunk (at_cell (sf_data s) x) (of_nat (8 * n)) s = s'"
  shows "sf_ok s' (as @ (x, n, False) # bs) \<and> sf_keeps s s' (as @ bs)"
proof -
  have n: "4 \<le> n" using h by (simp add: sf_hole_def)
  show ?thesis
    using hole_insert [OF h, of 0 s'] n r
    by (auto simp: sf_ok_def tiles_append)
qed

lemma lists_write_hole:
  assumes h: "sf_hole s as x n bs" and c: "x \<le> c" "c < x + n"
    and ok: "lists_ok (sf_mem s) (sf_data s) (sf_free_head s) fl (free_of (as @ bs))"
  shows "lists_ok ((sf_mem s)[c := v]) (sf_data s) (sf_free_head s) fl (free_of (as @ bs))"
proof (rule lists_frame [OF ok], rule ballI)
  fix d assume d: "d \<in> link_cells (free_of (as @ bs))"
  have "d < x \<or> x + n < d"
    using d link_cells_range [of "sf_mem s" 0 as x d]
      link_cells_range [of "sf_mem s" "x + n" bs "length (sf_mem s)" d] h
    by (auto simp: sf_hole_def link_cells_Un)
  then show "(sf_mem s)[c := v] ! d = sf_mem s ! d" using c by auto
qed

lemma hole_write:
  assumes h: "sf_hole s as x n bs" and c: "x \<le> c" "c < x + n"
    and r: "sf_wr (at_cell (sf_data s) c) v s = s'"
  shows "sf_hole s' as x n bs \<and> sf_keeps s s' (as @ bs) \<and> s' = s\<lparr>sf_mem := (sf_mem s)[c := v]\<rparr>
    \<and> c < length (sf_mem s)"
proof -
  have sh: "sf_shape s" and t: "tiles (sf_mem s) 0 as x" "tiles (sf_mem s) (x + n) bs (length (sf_mem s))"
    using h by (simp_all add: sf_hole_def)
  obtain fl where ok: "lists_ok (sf_mem s) (sf_data s) (sf_free_head s) fl (free_of (as @ bs))"
    using h by (auto simp: sf_hole_def)
  have cl: "c < length (sf_mem s)" using tiles_bounds [OF t(2)] c by auto
  then have "c \<le> 2 ^ 38" using sf_shape_bound [OF sh] by simp
  then have s': "s' = s\<lparr>sf_mem := (sf_mem s)[c := v]\<rparr>" using r wr_at by simp
  have "\<forall>d. d \<notin> link_cells (free_of (as @ bs)) \<longrightarrow> d < x \<or> x + n \<le> d \<longrightarrow> (sf_mem s)[c := v] ! d = sf_mem s ! d"
    using c by auto
  note fr = hole_frame [OF t _ this]
  show ?thesis
    using fr h lists_write_hole [OF h c ok] s' cl by (auto simp: sf_hole_def sf_keeps_def)
qed

lemma hole_occupy:
  assumes h: "sf_hole s as x n bs"
    and r: "sf_wr (at_cell (sf_data s) (Suc x)) v (sf_wr (at_cell (sf_data s) x) (tag_of n True)
        (sf_wr (at_cell (sf_data s) (x + n - 1)) (tag_of n True) s)) = s'"
  shows "sf_ok s' (as @ (x, n, True) # bs) \<and> sf_keeps s s' (as @ bs) \<and> sf_mem s' ! Suc x = v"
proof -
  have n: "4 \<le> n" using h by (simp add: sf_hole_def)
  obtain s1 where r1: "sf_wr (at_cell (sf_data s) (x + n - 1)) (tag_of n True) s = s1" by blast
  have b1: "x \<le> x + n - 1" "x + n - 1 < x + n" "Suc x < x + n" using n by linarith+
  note w1 = hole_write [OF h b1(1,2) r1]
  have d1: "sf_data s1 = sf_data s" using w1 by (simp add: sf_keeps_def)
  obtain s2 where r2: "sf_wr (at_cell (sf_data s1) x) (tag_of n True) s1 = s2" by blast
  note w2 = hole_write [OF conjunct1 [OF w1] le_refl _ r2]
  have d2: "sf_data s2 = sf_data s1" using w2 n by (simp add: sf_keeps_def)
  have s': "sf_wr (at_cell (sf_data s2) (Suc x)) v s2 = s'"
    using r r1 r2 by (simp add: d1 d2)
  have x: "x < x + n" using n by simp
  note w3 = hole_write [OF conjunct1 [OF w2 [OF x]] le_SucI [OF le_refl] b1(3) s']
  have "sf_mem s' = (sf_mem s)[x + n - 1 := tag_of n True, x := tag_of n True, Suc x := v]"
    using w1 w2 [OF x] w3 by (metis segregated_fit.select_convs(3) segregated_fit.surjective
        segregated_fit.update_convs(3))
  moreover have "x + n - 1 < length (sf_mem s)" using w1 by blast
  ultimately have "sf_mem s' ! x = tag_of n True" "sf_mem s' ! (x + n - 1) = tag_of n True"
    "sf_mem s' ! Suc x = v"
    using n by (auto simp: nth_list_update)
  moreover have "sf_keeps s s' (as @ bs)"
    using w1 w2 [OF x] w3 sf_keeps_trans [OF _ _ order_refl order_refl] by blast
  ultimately show ?thesis
    using w3 n by (auto simp: sf_ok_def sf_hole_def tiles_append)
qed

lemma remove_frame:
  assumes sh: "sf_shape s" and ok: "lists_ok (sf_mem s) (sf_data s) (sf_free_head s) fl F"
    and F: "F = insert (y, m) (free_of (as @ bs))" "(y, m) \<notin> free_of (as @ bs)"
    and sp: "spaced (length (sf_mem s)) F"
    and t: "tiles (sf_mem s) 0 as lo" "tiles (sf_mem s) hi bs (length (sf_mem s))" "lo + 4 \<le> hi"
    and r: "remove_free_chunk_from_free_list (at_cell (sf_data s) y) (of_nat (8 * m)) s = s'"
  shows "sf_hole s' as lo (hi - lo) bs \<and> sf_keeps s s' (as @ bs)"
proof -
  have ym: "(y, m) \<in> F" and diff: "F - {(y, m)} = free_of (as @ bs)" using F by auto
  obtain mem h fl' where m: "s' = s\<lparr>sf_mem := mem, sf_free_head := h\<rparr>"
    "length mem = length (sf_mem s)" "length h = length (sf_free_head s)"
    "lists_ok mem (sf_data s) h fl' (free_of (as @ bs))"
    "\<forall>c. c \<notin> link_cells (free_of (as @ bs)) \<longrightarrow> mem ! c = sf_mem s ! c"
    using remove_chunk_ok [OF sh ok sp ym] r unfolding diff by auto
  have "\<forall>c. c \<notin> link_cells (free_of (as @ bs)) \<longrightarrow> c < lo \<or> hi \<le> c \<longrightarrow> mem ! c = sf_mem s ! c"
    using m(5) by blast
  note fr = hole_frame [OF t(1,2) _ this]
  show ?thesis
    using fr m sh t(3) by (auto simp: sf_hole_def sf_keeps_def)
qed

lemma ok_remove:
  assumes ok: "sf_ok s (as @ (x, n, False) # bs)"
    and r: "remove_free_chunk_from_free_list (at_cell (sf_data s) x) (of_nat (8 * n)) s = s'"
  shows "sf_hole s' as x n bs \<and> sf_keeps s s' (as @ bs)"
proof -
  have t: "tiles (sf_mem s) 0 (as @ (x, n, False) # bs) (length (sf_mem s))" and sh: "sf_shape s"
    using ok by (simp_all add: sf_ok_def)
  then have u: "tiles (sf_mem s) 0 as x" "4 \<le> n" "tiles (sf_mem s) (x + n) bs (length (sf_mem s))"
    by (auto simp: tiles_append)
  obtain fl where l: "lists_ok (sf_mem s) (sf_data s) (sf_free_head s) fl (free_of (as @ (x, n, False) # bs))"
    using ok by (auto simp: sf_ok_def)
  have "(x, n) \<notin> free_of (as @ bs)"
    using tiles_bounds [OF u(1)] tiles_bounds [OF u(3)] u(2) by (fastforce simp: free_of_def)
  then show ?thesis
    using remove_frame [OF sh l _ _ tiles_spaced [OF t] u(1,3) _ r] u(2) by simp
qed

lemma hole_full_spaced:
  assumes "sf_hole s as x n bs"
  shows "spaced (length (sf_mem s)) (free_of (as @ bs))"
  by (rule spaced_subset [OF hole_spaced(1) [OF assms, of 0 x n]])
     (use assms in \<open>auto simp: sf_hole_def\<close>)

lemma hole_left:
  assumes h: "sf_hole s (as @ [(y, m, False)]) x n bs"
    and r: "remove_free_chunk_from_free_list (at_cell (sf_data s) y) (of_nat (8 * m)) s = s'"
  shows "sf_hole s' as y (m + n) bs \<and> sf_keeps s s' (as @ bs) \<and> x = y + m"
proof -
  have sh: "sf_shape s" and t: "tiles (sf_mem s) 0 as y" "y + m = x" "4 \<le> m" "4 \<le> n"
    "tiles (sf_mem s) (x + n) bs (length (sf_mem s))"
    using h by (auto simp: sf_hole_def tiles_append)
  obtain fl where l: "lists_ok (sf_mem s) (sf_data s) (sf_free_head s) fl (free_of ((as @ [(y, m, False)]) @ bs))"
    using h by (auto simp: sf_hole_def)
  have "(y, m) \<notin> free_of (as @ bs)"
    using tiles_bounds [OF t(1)] tiles_bounds [OF t(5)] t(2,3) by (fastforce simp: free_of_def)
  then have "sf_hole s' as y (x + n - y) bs \<and> sf_keeps s s' (as @ bs)"
    using t by (intro remove_frame [OF sh l _ _ hole_full_spaced [OF h] t(1,5) _ r]) auto
  then show ?thesis using t(2) by auto
qed

lemma hole_right:
  assumes h: "sf_hole s as x n ((y, m, False) # bs)"
    and r: "remove_free_chunk_from_free_list (at_cell (sf_data s) y) (of_nat (8 * m)) s = s'"
  shows "sf_hole s' as x (n + m) bs \<and> sf_keeps s s' (as @ bs) \<and> y = x + n"
proof -
  have sh: "sf_shape s" and t: "tiles (sf_mem s) 0 as x" "y = x + n" "4 \<le> m" "4 \<le> n"
    "tiles (sf_mem s) (y + m) bs (length (sf_mem s))"
    using h by (auto simp: sf_hole_def)
  obtain fl where l: "lists_ok (sf_mem s) (sf_data s) (sf_free_head s) fl (free_of (as @ (y, m, False) # bs))"
    using h by (auto simp: sf_hole_def)
  have "(y, m) \<notin> free_of (as @ bs)"
    using tiles_bounds [OF t(1)] tiles_bounds [OF t(5)] t(2-4) by (fastforce simp: free_of_def)
  then have "sf_hole s' as x (y + m - x) bs \<and> sf_keeps s s' (as @ bs)"
    using t by (intro remove_frame [OF sh l _ _ hole_full_spaced [OF h] t(1,5) _ r]) auto
  then show ?thesis using t(2) by auto
qed

section \<open>The search\<close>

lemma sf_data_wr [simp]: "sf_data (sf_wr p v s) = sf_data s"
  by (simp add: sf_wr_def)

lemma scan_classes_spec:
  "c \<le> scan_classes heads c
   \<and> (\<forall>j. c \<le> j \<longrightarrow> j < scan_classes heads c \<longrightarrow> j < kNumClasses \<longrightarrow> heads ! j = 0)
   \<and> (scan_classes heads c < kNumClasses \<longrightarrow> heads ! scan_classes heads c \<noteq> 0)
   \<and> (c \<le> kNumClasses \<longrightarrow> scan_classes heads c \<le> kNumClasses)"
proof (induction heads c rule: scan_classes.induct)
  case (1 heads c)
  show ?case
  proof (cases "c < kNumClasses \<and> heads ! c = 0")
    case True
    then have e: "scan_classes heads c = scan_classes heads (Suc c)"
      by (simp add: scan_classes.simps [of heads c])
    have "heads ! j = 0" if "c \<le> j" "j < scan_classes heads (Suc c)" "j < kNumClasses" for j
      using that True 1 by (cases "j = c") auto
    then show ?thesis using 1 True unfolding e by auto
  next
    case False
    then show ?thesis by (simp add: scan_classes.simps [of heads c])
  qed
qed

definition walk_result :: "nat \<Rightarrow> (nat \<times> nat) set \<Rightarrow> u64 \<Rightarrow> nat list \<Rightarrow> u64 option \<Rightarrow> bool" where
  "walk_result k F b xs r \<longleftrightarrow>
     (\<exists>x n. x \<in> set xs \<and> (x, n) \<in> F \<and> k \<le> n \<and> r = Some (at_cell b x)) \<or>
     ((\<forall>x n. x \<in> set xs \<longrightarrow> (x, n) \<in> F \<longrightarrow> n < k) \<and> r = Some 0)"

lemma walk_spec:
  assumes sh: "sf_shape s" and sp: "spaced (length (sf_mem s)) F"
    and tag: "\<forall>x n. (x, n) \<in> F \<longrightarrow> sf_mem s ! x = tag_of n False"
    and k: "k \<le> 2 ^ 38"
  shows "dll (sf_mem s) (sf_data s) p xs \<Longrightarrow> (\<forall>x \<in> set xs. \<exists>n. (x, n) \<in> F) \<Longrightarrow>
    walk_result k F (sf_data s) xs (walk_free_list (of_nat (8 * k)) (hd_ptr (sf_data s) xs) s)"
proof (induction xs arbitrary: p)
  case Nil
  then show ?case by (subst walk_free_list.simps) (simp add: walk_result_def)
next
  case (Cons x xs)
  obtain n where n: "(x, n) \<in> F" using Cons.prems(2) by auto
  have b: "4 \<le> n" "x + n \<le> length (sf_mem s)" using spaced_bound [OF sp n] by auto
  note N = sf_shape_bound [OF sh]
  have nz: "at_cell (sf_data s) x \<noteq> 0" by (rule at_cell_nonzero [OF sh]) (use b in simp)
  have n38: "n \<le> 2 ^ 38" "x \<le> 2 ^ 38" "Suc (Suc x) \<le> 2 ^ 38" using b N by simp_all
  have "sf_rd (at_cell (sf_data s) x) s = tag_of n False" using tag n rd_at [OF n38(2)] by simp
  then have le: "get_tag_size (sf_rd (at_cell (sf_data s) x) s) \<ge> of_nat (8 * k) \<longleftrightarrow> k \<le> n"
    by (simp only: tag_fields [OF n38(1)] unat_le_iff unat_cells_word [OF n38(1)] unat_cells_word [OF k])
      simp
  have nxt: "sf_rd (at_cell (sf_data s) x + 16) s = hd_ptr (sf_data s) xs"
    using Cons.prems(1) by (simp add: at_cell_8 rd_at [OF n38(3)])
  have IH: "walk_result k F (sf_data s) xs (walk_free_list (of_nat (8 * k)) (hd_ptr (sf_data s) xs) s)"
  proof (rule Cons.IH)
    show "dll (sf_mem s) (sf_data s) (at_cell (sf_data s) x) xs" using Cons.prems(1) by simp
  qed (use Cons.prems(2) in simp)
  show ?case
  proof (cases "k \<le> n")
    case True
    then have "walk_free_list (of_nat (8 * k)) (at_cell (sf_data s) x) s = Some (at_cell (sf_data s) x)"
      using nz le by (subst walk_free_list.simps) simp
    then show ?thesis using True n by (auto simp: walk_result_def)
  next
    case False
    then have e: "walk_free_list (of_nat (8 * k)) (at_cell (sf_data s) x) s
        = walk_free_list (of_nat (8 * k)) (hd_ptr (sf_data s) xs) s"
      using nz le nxt by (subst walk_free_list.simps) simp
    have "n' < k" if "(x, n') \<in> F" for n' using spaced_size [OF sp n that] False by simp
    then show ?thesis using IH unfolding hd_ptr_simps e walk_result_def by auto
  qed
qed

lemma class_of_cases:
  assumes "4 \<le> n" "4 \<le> k"
  shows "class_of n < (if k \<le> 35 then k - 4 else 31) \<Longrightarrow> n < k"
    "(if k \<le> 35 then k - 4 else 31) \<le> class_of n \<Longrightarrow> class_of n < 31 \<Longrightarrow> k \<le> n"
  using assms by (auto simp: class_of_def split: if_splits)

lemma ok_free_tag:
  assumes "sf_ok s cs" "(x, n) \<in> free_of cs"
  shows "sf_mem s ! x = tag_of n False"
proof -
  obtain as bs where "cs = as @ (x, n, False) # bs"
    using assms(2) by (auto simp: free_of_def in_set_conv_decomp)
  then show ?thesis using assms(1) by (auto simp: sf_ok_def tiles_append)
qed

lemma find_chunk:
  assumes ok: "sf_ok s cs" and k: "4 \<le> k" "k \<le> 2 ^ 38"
  shows "(remove_free_chunk_from_head (of_nat (8 * k)) s = Some (None, s) \<and> (\<forall>(x, n) \<in> free_of cs. n < k))
    \<or> (\<exists>x n. (x, n) \<in> free_of cs \<and> k \<le> n \<and> remove_free_chunk_from_head (of_nat (8 * k)) s
        = Some (Some (at_cell (sf_data s) x, of_nat (8 * n)),
            remove_free_chunk_from_free_list (at_cell (sf_data s) x) (of_nat (8 * n)) s))"
proof -
  let ?F = "free_of cs" and ?b = "sf_data s" and ?lo = "if k \<le> 35 then k - 4 else 31"
  let ?c = "scan_classes (sf_free_head s) ?lo"
  have sh: "sf_shape s" and sp: "spaced (length (sf_mem s)) ?F"
    using ok by (auto simp: sf_ok_def intro: tiles_spaced)
  obtain fl where l: "lists_ok (sf_mem s) ?b (sf_free_head s) fl ?F" using ok by (auto simp: sf_ok_def)
  note scan = scan_classes_spec [of ?lo "sf_free_head s"]
  have c0: "?lo < kNumClasses" using k by (auto simp: kNumClasses_def)
  have empty: "class_of n \<noteq> j" if "(x, n) \<in> ?F" "j < kNumClasses" "sf_free_head s ! j = 0" for x n j
  proof
    assume "class_of n = j"
    then have x: "x \<in> set (fl ! j)" using lists_okD(5) [OF l that(2,1)] by simp
    then obtain y ys where y: "fl ! j = y # ys" by (cases "fl ! j") auto
    then have "Suc (Suc y) < length (sf_mem s)" using lists_apart(2) [OF l sp that(2), of y] by simp
    then have "at_cell ?b y \<noteq> 0" by (intro at_cell_nonzero [OF sh]) simp
    then show False using lists_okD(1) [OF l that(2)] y that(3) by simp
  qed
  have size: "4 \<le> n \<and> n \<le> 2 ^ 38" if "(x, n) \<in> ?F" for x n
    using spaced_bound [OF sp that] sf_shape_bound [OF sh] by simp
  have below: "n < k" if "(x, n) \<in> ?F" "class_of n < ?c" for x n
  proof -
    have "class_of n < ?lo" using empty [OF that(1) class_of_less [of n]] scan that(2) class_of_less [of n]
      by (meson not_less)
    then show ?thesis using class_of_cases(1) size [OF that(1)] k(1) by blast
  qed
  have def: "remove_free_chunk_from_head (of_nat (8 * k)) s
      = (if ?c = kNumClasses then Some (None, s) else if ?c > kNumClasses then None
         else case walk_free_list (of_nat (8 * k)) (sf_free_head s ! ?c) s of None \<Rightarrow> None
           | Some p \<Rightarrow> if p = 0 then Some (None, s)
              else Some (Some (p, get_tag_size (sf_rd p s)),
                remove_free_chunk_from_free_list p (get_tag_size (sf_rd p s)) s))"
    by (simp only: remove_free_chunk_from_head_def class_roundup [OF k] Let_def)
  show ?thesis
  proof (cases "?c = kNumClasses")
    case True
    then have "\<forall>(x, n) \<in> ?F. n < k" using below class_of_less by auto
    then show ?thesis using True def by simp
  next
    case False
    then have c: "?c < kNumClasses" using scan c0 by simp
    note ld = lists_okD [OF l c]
    have "walk_result k ?F ?b (fl ! ?c) (walk_free_list (of_nat (8 * k)) (hd_ptr ?b (fl ! ?c)) s)"
      by (rule walk_spec [OF sh sp _ k(2) ld(2)]) (use ok_free_tag [OF ok] ld(4) in blast)+
    then consider x n where "x \<in> set (fl ! ?c)" "(x, n) \<in> ?F" "k \<le> n"
        "walk_free_list (of_nat (8 * k)) (sf_free_head s ! ?c) s = Some (at_cell ?b x)"
      | "\<forall>x n. x \<in> set (fl ! ?c) \<longrightarrow> (x, n) \<in> ?F \<longrightarrow> n < k"
        "walk_free_list (of_nat (8 * k)) (sf_free_head s ! ?c) s = Some 0"
      unfolding walk_result_def ld(1) by blast
    then show ?thesis
    proof cases
      case (1 x n)
      have b: "x < length (sf_mem s)" using spaced_bound [OF sp 1(2)] by simp
      have nz: "at_cell ?b x \<noteq> 0" by (rule at_cell_nonzero [OF sh b])
      have "x \<le> 2 ^ 38" using b sf_shape_bound [OF sh] by simp
      then have "get_tag_size (sf_rd (at_cell ?b x) s) = of_nat (8 * n)"
        using ok_free_tag [OF ok 1(2)] tag_fields(1) size [OF 1(2)] by (simp only: rd_at)
      then show ?thesis using 1 nz c def by (intro disjI2 exI [of _ x] exI [of _ n]) simp
    next
      case 2
      have "n < k" if "(x, n) \<in> ?F" for x n
      proof (cases "class_of n" ?c rule: linorder_cases)
        case less
        then show ?thesis using below that by blast
      next
        case equal
        then show ?thesis using ld(5) [OF that] 2(1) that by blast
      next
        case greater
        then have "?c < 31" using class_of_less [of n] by (simp add: kNumClasses_def)
        have "fl ! ?c \<noteq> []" using scan c ld(1) by auto
        then obtain y where y: "y \<in> set (fl ! ?c)" by (meson last_in_set)
        obtain m where m: "(y, m) \<in> ?F" "class_of m = ?c" using ld(4) [OF y] by blast
        then have "k \<le> m" using class_of_cases(2) [of m k] size [OF m(1)] k(1) scan \<open>?c < 31\<close> by simp
        then show ?thesis using 2(1) y m(1) by fastforce
      qed
      then have "\<forall>(x, n) \<in> ?F. n < k" by blast
      then show ?thesis using 2(2) c def by simp
    qed
  qed
qed

section \<open>Allocation and release\<close>

text \<open>The cells an item of the given size takes, its three overhead cells included.\<close>

definition cells_for :: "u64 \<Rightarrow> nat" where
  "cells_for item_size = (unat item_size + 7) div 8 + 3"

lemma minimum_chunk:
  assumes "0 < unat item_size" "unat item_size \<le> 2 ^ 39"
  shows "roundup 8 item_size + kOverhead = of_nat (8 * cells_for item_size)"
    "4 \<le> cells_for item_size" "cells_for item_size \<le> 2 ^ 37"
proof -
  have "unat (roundup (2 ^ 3) item_size) = (unat item_size + (2 ^ 3 - 1)) div 2 ^ 3 * 2 ^ 3"
    by (rule roundup_unat) (use assms(2) in simp_all)
  then have r: "unat (roundup 8 item_size) = 8 * ((unat item_size + 7) div 8)" by simp
  have d: "1 \<le> (unat item_size + 7) div 8" "(unat item_size + 7) div 8 \<le> 2 ^ 36 + 1"
    using assms by (simp_all add: div_le_mono less_eq_div_iff_mult_less_eq)
  show "4 \<le> cells_for item_size" "cells_for item_size \<le> 2 ^ 37"
    using d by (simp_all add: cells_for_def)
  then have u: "unat (of_nat (8 * cells_for item_size) :: u64) = 8 * cells_for item_size"
    by (intro unat_cells_word) simp
  have "unat (roundup 8 item_size + kOverhead) = 8 * ((unat item_size + 7) div 8) + 24"
    using r d(2) by (subst unat_add_no_overflow) (simp_all add: kOverhead_def)
  then show "roundup 8 item_size + kOverhead = of_nat (8 * cells_for item_size)"
    unfolding word_unat_eq_iff u by (simp add: cells_for_def)
qed

text \<open>
  What the two operations do to the sequence of chunks: an allocation takes a free chunk and
  splits off the rest if it can hold a free chunk itself; a release joins the chunk with the
  free neighbours on both sides.
\<close>

definition carve :: "nat \<Rightarrow> nat \<Rightarrow> nat \<Rightarrow> chunk list" where
  "carve k x n =
     (if k + 4 \<le> n then [(x, k, True), (x + k, n - k, False)] else [(x, n, True)])"

definition join_left :: "chunk list \<Rightarrow> nat \<Rightarrow> nat \<Rightarrow> chunk list \<times> nat \<times> nat" where
  "join_left as x n =
     (if as \<noteq> [] \<and> \<not> snd (snd (last as))
      then (butlast as, fst (last as), fst (snd (last as)) + n) else (as, x, n))"

definition join_right :: "nat \<Rightarrow> chunk list \<Rightarrow> nat \<times> chunk list" where
  "join_right n bs =
     (case bs of (y, m, False) # bs' \<Rightarrow> (n + m, bs') | _ \<Rightarrow> (n, bs))"

definition released :: "chunk list \<Rightarrow> nat \<Rightarrow> nat \<Rightarrow> chunk list \<Rightarrow> chunk list" where
  "released as x n bs =
     (let (as', x', n') = join_left as x n; (n'', bs') = join_right n' bs
      in as' @ (x', n'', False) # bs')"

lemma sf_allocate_ok:
  assumes ok: "sf_ok s cs" and sz: "0 < unat item_size" "unat item_size \<le> 2 ^ 39"
  shows "(sf_allocate item_size s = Some (kInsufficientSpace, s)
      \<and> (\<forall>(x, n) \<in> free_of cs. n < cells_for item_size))
    \<or> (\<exists>as x n bs s'. cs = as @ (x, n, False) # bs \<and> cells_for item_size \<le> n
      \<and> sf_allocate item_size s = Some (of_nat (8 * Suc x), s')
      \<and> sf_ok s' (as @ carve (cells_for item_size) x n @ bs)
      \<and> sf_keeps s s' (as @ bs) \<and> sf_mem s' ! Suc x = item_size)"
proof -
  let ?k = "cells_for item_size" and ?b = "sf_data s"
  note min = minimum_chunk [OF sz]
  from find_chunk [OF ok min(2), of ] min(3)
  consider (none) "remove_free_chunk_from_head (of_nat (8 * ?k)) s = Some (None, s)"
      "\<forall>(x, n) \<in> free_of cs. n < ?k"
    | (found) x n where "(x, n) \<in> free_of cs" "?k \<le> n" "remove_free_chunk_from_head (of_nat (8 * ?k)) s
        = Some (Some (at_cell ?b x, of_nat (8 * n)),
            remove_free_chunk_from_free_list (at_cell ?b x) (of_nat (8 * n)) s)"
    by fastforce
  then show ?thesis
  proof cases
    case none
    then show ?thesis by (simp add: sf_allocate_def min(1))
  next
    case (found x n)
    obtain as bs where cs: "cs = as @ (x, n, False) # bs"
      using found(1) by (auto simp: free_of_def in_set_conv_decomp)
    define s1 where "s1 = remove_free_chunk_from_free_list (at_cell ?b x) (of_nat (8 * n)) s"
    have h1: "sf_hole s1 as x n bs" "sf_keeps s s1 (as @ bs)"
      using ok_remove [OF ok [unfolded cs] s1_def [symmetric]] by auto
    have b1: "sf_data s1 = ?b" using h1(2) by (simp add: sf_keeps_def)
    have "x + n \<le> length (sf_mem s1)"
      using h1(1) tiles_bounds [of "sf_mem s1" "x + n" bs "length (sf_mem s1)"] by (simp add: sf_hole_def)
    then have n38: "n \<le> 2 ^ 38" using sf_shape_bound [of s1] h1(1) by (simp add: sf_hole_def)
    have left: "of_nat (8 * n) - of_nat (8 * ?k) = (of_nat (8 * (n - ?k)) :: u64)"
      using found(2) by (simp add: of_nat_diff right_diff_distrib')
    have "unat (of_nat (8 * (n - ?k)) :: u64) = 8 * (n - ?k)" using n38 by (intro unat_cells_word) simp
    then have ge: "of_nat (8 * (n - ?k)) \<ge> kMinimumSize \<longleftrightarrow> ?k + 4 \<le> n"
      unfolding unat_le_iff kMinimumSize_def using min(2) by auto
    define offset where "offset = (of_nat (8 * Suc x) :: u64)"
    have off: "at_cell ?b (Suc x) - ?b = offset" by (simp add: at_cell_def offset_def)
    have tag: "make_tag_vec (of_nat (8 * m)) kStatusOccupied = tag_of m True" for m
      by (simp add: tag_of_def)
    have end_at: "at_cell ?b x + of_nat (8 * m) - 8 = at_cell ?b (x + m - 1)" if "4 \<le> m" for m
      unfolding at_cell_add using that at_cell_minus_8 [of ?b "x + m - 1"] by simp
    show ?thesis
    proof (cases "?k + 4 \<le> n")
      case True
      define s2 where "s2 = insert_free_chunk (at_cell ?b (x + ?k)) (of_nat (8 * (n - ?k))) s1"
      have h2: "sf_hole s2 as x ?k ((x + ?k, n - ?k, False) # bs)" "sf_keeps s1 s2 (as @ bs)"
        using hole_split [OF h1(1) True min(2)] s2_def b1 by auto
      have b2: "sf_data s2 = ?b" using h2(2) b1 by (simp add: sf_keeps_def)
      define s3 where "s3 = sf_wr (at_cell ?b (Suc x)) item_size (sf_wr (at_cell ?b x) (tag_of ?k True)
        (sf_wr (at_cell ?b (x + ?k - 1)) (tag_of ?k True) s2))"
      have h3: "sf_ok s3 (as @ (x, ?k, True) # (x + ?k, n - ?k, False) # bs)"
          "sf_keeps s2 s3 (as @ (x + ?k, n - ?k, False) # bs)" "sf_mem s3 ! Suc x = item_size"
        using hole_occupy [OF h2(1)] s3_def b2 by auto
      have "sf_allocate item_size s = Some (offset, s3)"
        using True ge left found(3) end_at [OF min(2)]
        by (simp add: sf_allocate_def min(1) Let_def s1_def [symmetric] at_cell_add s2_def [symmetric]
            tag at_cell_8 s3_def off b1 b2 del: of_nat_mult)
      moreover have "sf_keeps s s3 (as @ bs)"
        using h1(2) h2(2) h3(2) by (auto intro!: sf_keeps_trans [of s s2 "as @ bs" s3]
            sf_keeps_trans [of s s1 "as @ bs" s2])
      ultimately show ?thesis
        using cs found(2) h3 True unfolding offset_def by (intro disjI2 exI conjI) (auto simp: carve_def)
    next
      case False
      define s3 where "s3 = sf_wr (at_cell ?b (Suc x)) item_size (sf_wr (at_cell ?b x) (tag_of n True)
        (sf_wr (at_cell ?b (x + n - 1)) (tag_of n True) s1))"
      have h3: "sf_ok s3 (as @ (x, n, True) # bs)" "sf_keeps s1 s3 (as @ bs)" "sf_mem s3 ! Suc x = item_size"
        using hole_occupy [OF h1(1)] s3_def b1 by auto
      have "sf_allocate item_size s = Some (offset, s3)"
        using False ge left found min(2) end_at [of n]
        by (simp add: sf_allocate_def min(1) Let_def s1_def [symmetric]
            tag at_cell_8 s3_def off b1 del: of_nat_mult)
      moreover have "sf_keeps s s3 (as @ bs)"
        using h1(2) h3(2) by (auto intro!: sf_keeps_trans [of s s1 "as @ bs" s3])
      ultimately show ?thesis
        using cs found(2) h3 False unfolding offset_def by (intro disjI2 exI conjI) (auto simp: carve_def)
    qed
  qed
qed

lemma hole_bounds:
  assumes "sf_hole s as x n bs"
  shows "x + n \<le> length (sf_mem s)" "x + n \<le> 2 ^ 37"
    "as = [] \<longleftrightarrow> x = 0" "bs = [] \<longleftrightarrow> x + n = length (sf_mem s)"
proof -
  have t: "sf_shape s" "tiles (sf_mem s) 0 as x" "tiles (sf_mem s) (x + n) bs (length (sf_mem s))"
    using assms by (simp_all add: sf_hole_def)
  show "x + n \<le> length (sf_mem s)" using tiles_bounds [OF t(3)] by simp
  then show "x + n \<le> 2 ^ 37" using sf_shape_bound [OF t(1)] by simp
  show "as = [] \<longleftrightarrow> x = 0" using t(2) tiles_bounds [OF t(2)] by (cases as) fastforce+
  show "bs = [] \<longleftrightarrow> x + n = length (sf_mem s)"
    using t(3) tiles_bounds [OF t(3)] by (cases bs) fastforce+
qed

lemma status_eq [simp]: "kStatusFree \<noteq> kStatusOccupied" "kStatusOccupied \<noteq> kStatusFree"
  by (simp_all add: kStatusFree_def kStatusOccupied_def)

lemma coalese_left_ok:
  assumes h: "sf_hole s as x n bs"
    and r: "coalese_free_chunk_left (at_cell (sf_data s) x) (of_nat (8 * n)) s = (p, sz, s')"
    and j: "join_left as x n = (as', x', n')"
  shows "sf_hole s' as' x' n' bs \<and> sf_keeps s s' (as' @ bs) \<and> p = at_cell (sf_data s') x' \<and> sz = of_nat (8 * n')
    \<and> set as' \<subseteq> set as"
proof (cases "as = []")
  case True
  then have "x = 0" using hole_bounds(3) [OF h] by simp
  then have "at_cell (sf_data s) x = sf_data s" by (simp add: at_cell_def)
  then show ?thesis
    using r j h True sf_keeps_refl by (auto simp: coalese_free_chunk_left_def join_left_def)
next
  case False
  obtain as1 y m occ where as: "as = as1 @ [(y, m, occ)]"
    using False by (metis append_butlast_last_id prod_cases3)
  note b = hole_bounds [OF h]
  have t: "y + m = x" "4 \<le> m" "sf_mem s ! (x - 1) = tag_of m occ"
    using h by (auto simp: sf_hole_def tiles_append as)
  have "at_cell (sf_data s) x \<noteq> at_cell (sf_data s) 0"
  proof
    assume "at_cell (sf_data s) x = at_cell (sf_data s) 0"
    then show False using at_cell_inj [of "sf_data s" x 0] b(2) t by simp
  qed
  then have ne: "at_cell (sf_data s) x \<noteq> sf_data s" by (simp add: at_cell_def)
  have "at_cell (sf_data s) x - 8 = at_cell (sf_data s) (x - 1)"
    using at_cell_minus_8 [of "sf_data s" "x - 1"] t by simp
  then have rd: "sf_rd (at_cell (sf_data s) x - 8) s = tag_of m occ"
    using rd_at [of "x - 1" s] t b(2) by simp
  have "m \<le> 2 ^ 38" using t b(2) by simp
  note tag = tag_fields [OF this]
  show ?thesis
  proof (cases occ)
    case True
    then show ?thesis
      using r j h ne rd tag sf_keeps_refl
      by (auto simp: coalese_free_chunk_left_def join_left_def as)
  next
    case False
    have adj: "at_cell (sf_data s) x - of_nat (8 * m) = at_cell (sf_data s) y"
      using at_cell_add [of "sf_data s" y m] t(1) by (simp add: algebra_simps del: of_nat_mult)
    define s1 where "s1 = remove_free_chunk_from_free_list (at_cell (sf_data s) y) (of_nat (8 * m)) s"
    have h1: "sf_hole s1 as1 y (m + n) bs" "sf_keeps s s1 (as1 @ bs)"
      using hole_left [of s as1 y m x n bs s1] h s1_def as False by auto
    then have "sf_data s1 = sf_data s" by (simp add: sf_keeps_def)
    moreover have "p = at_cell (sf_data s) y" "sz = of_nat (8 * n) + of_nat (8 * m)" "s' = s1"
      using r ne rd tag False adj
      by (auto simp: coalese_free_chunk_left_def Let_def s1_def simp del: of_nat_mult)
    moreover have "as' = as1" "x' = y" "n' = m + n"
      using j False by (auto simp: join_left_def as)
    ultimately show ?thesis using h1 as by (auto simp: algebra_simps)
  qed
qed

lemma coalese_right_ok:
  assumes h: "sf_hole s as x n bs"
    and r: "coalese_free_chunk_right (at_cell (sf_data s) x) (of_nat (8 * n)) s = (p, sz, s')"
    and j: "join_right n bs = (n', bs')"
  shows "sf_hole s' as x n' bs' \<and> sf_keeps s s' (as @ bs') \<and> p = at_cell (sf_data s') x \<and> sz = of_nat (8 * n')
    \<and> set bs' \<subseteq> set bs"
proof -
  note b = hole_bounds [OF h]
  have sh: "sf_shape s" using h by (simp add: sf_hole_def)
  have "unat (sf_size s) = 8 * length (sf_mem s)" using sh by (simp add: sf_shape_def)
  then have "sf_size s = of_nat (8 * length (sf_mem s))"
    by (metis of_nat_unat ucast_id)
  then have e: "sf_data s + sf_size s = at_cell (sf_data s) (length (sf_mem s))"
    by (simp only: at_cell_def)
  have stop: "at_cell (sf_data s) x + of_nat (8 * n) = sf_data s + sf_size s \<longleftrightarrow> bs = []"
    unfolding at_cell_add b(4) e using at_cell_inj [of "sf_data s" "x + n" "length (sf_mem s)"]
      b(2) sf_shape_bound [OF sh] by auto
  show ?thesis
  proof (cases bs)
    case Nil
    then show ?thesis
      using r j h stop sf_keeps_refl by (auto simp: coalese_free_chunk_right_def join_right_def)
  next
    case (Cons c bs1)
    obtain y m occ where c: "c = (y, m, occ)" by (cases c)
    have t: "y = x + n" "4 \<le> m" "sf_mem s ! (x + n) = tag_of m occ"
      "tiles (sf_mem s) (y + m) bs1 (length (sf_mem s))"
      using h by (auto simp: sf_hole_def Cons c)
    have "m \<le> 2 ^ 38" using tiles_bounds [OF t(4)] sf_shape_bound [OF sh] by simp
    note tag = tag_fields [OF this]
    have rd: "sf_rd (at_cell (sf_data s) (x + n)) s = tag_of m occ"
      using rd_at [of "x + n" s] t b(2) by simp
    show ?thesis
    proof (cases occ)
      case True
      then show ?thesis
        using r j h stop rd tag sf_keeps_refl
        by (auto simp: coalese_free_chunk_right_def join_right_def Cons c at_cell_add simp del: of_nat_mult)
    next
      case False
      define s1 where "s1 = remove_free_chunk_from_free_list (at_cell (sf_data s) y) (of_nat (8 * m)) s"
      have h1: "sf_hole s1 as x (n + m) bs1" "sf_keeps s s1 (as @ bs1)"
        using hole_right [of s as x n y m bs1 s1] h s1_def Cons c False by auto
      then have "sf_data s1 = sf_data s" by (simp add: sf_keeps_def)
      moreover have "p = at_cell (sf_data s) x" "sz = of_nat (8 * n) + of_nat (8 * m)" "s' = s1"
        using r stop rd tag False Cons t(1)
        by (auto simp: coalese_free_chunk_right_def Let_def s1_def at_cell_add simp del: of_nat_mult)
      moreover have "bs' = bs1" "n' = n + m"
        using j False by (auto simp: join_right_def Cons c)
      ultimately show ?thesis using h1 Cons by (auto simp: algebra_simps)
    qed
  qed
qed

lemma occupied_cells_Cons [simp]:
  "occupied_cells ((x, n, occ) # cs) = (if occ then {x ..< x + n} else {}) \<union> occupied_cells cs"
  unfolding occupied_cells_def by (cases occ) (auto, blast)

lemma join_left_occupied:
  assumes "join_left as x n = (as', x', n')"
  shows "occupied_cells as \<subseteq> occupied_cells as'"
proof (cases "as \<noteq> [] \<and> \<not> snd (snd (last as))")
  case True
  then obtain as1 y m where as: "as = as1 @ [(y, m, False)]"
    by (metis append_butlast_last_id prod.collapse)
  then show ?thesis using assms by (auto simp: join_left_def) (simp_all add: occupied_cells_def)
qed (use assms in \<open>auto simp: join_left_def\<close>)

lemma join_right_occupied:
  assumes "join_right n bs = (n', bs')"
  shows "occupied_cells bs \<subseteq> occupied_cells bs'"
  using assms by (auto simp: join_right_def split: list.splits bool.splits)

lemma sf_release_ok:
  assumes ok: "sf_ok s (as @ (x, n, True) # bs)"
  shows "sf_ok (sf_release (of_nat (8 * Suc x)) s) (released as x n bs)
    \<and> sf_keeps s (sf_release (of_nat (8 * Suc x)) s) (as @ bs)"
proof -
  let ?b = "sf_data s"
  have h: "sf_hole s as x n bs" using ok by (auto simp: sf_ok_def sf_hole_def tiles_append)
  note b = hole_bounds [OF h]
  have rd: "sf_rd (at_cell ?b x) s = tag_of n True"
    using ok rd_at [of x s] b(2) by (auto simp: sf_ok_def tiles_append)
  have "n \<le> 2 ^ 38" using b(2) by simp
  note tag = tag_fields [OF this]
  have start: "?b + of_nat (8 * Suc x) - 8 = at_cell ?b x" by (simp add: at_cell_def)
  obtain p1 z1 s1 where l: "coalese_free_chunk_left (at_cell ?b x) (of_nat (8 * n)) s = (p1, z1, s1)"
    by (metis prod_cases3)
  obtain as' x' n' where jl: "join_left as x n = (as', x', n')" by (metis prod_cases3)
  have h1: "sf_hole s1 as' x' n' bs" "sf_keeps s s1 (as' @ bs)" "p1 = at_cell (sf_data s1) x'"
    "z1 = of_nat (8 * n')" "set as' \<subseteq> set as"
    using coalese_left_ok [OF h l jl] by auto
  obtain p2 z2 s2 where r: "coalese_free_chunk_right p1 z1 s1 = (p2, z2, s2)" by (metis prod_cases3)
  obtain n'' bs' where jr: "join_right n' bs = (n'', bs')" by (metis surj_pair)
  have h2: "sf_hole s2 as' x' n'' bs'" "sf_keeps s1 s2 (as' @ bs')" "p2 = at_cell (sf_data s2) x'"
    "z2 = of_nat (8 * n'')" "set bs' \<subseteq> set bs"
    using coalese_right_ok [OF h1(1) r [unfolded h1(3,4)] jr] by auto
  define s3 where "s3 = insert_free_chunk p2 z2 s2"
  have h3: "sf_ok s3 (as' @ (x', n'', False) # bs')" "sf_keeps s2 s3 (as' @ bs')"
    using hole_close [OF h2(1)] s3_def h2(3,4) by auto
  have "sf_release (of_nat (8 * Suc x)) s = s3"
    unfolding sf_release_def Let_def start rd tag(1) l by (simp add: r s3_def)
  moreover have "occupied_cells (as @ bs) \<subseteq> occupied_cells (as' @ bs')"
    using join_left_occupied [OF jl] join_right_occupied [OF jr] by auto
  moreover have "sf_keeps s s3 (as' @ bs')"
  proof -
    have "sf_keeps s s2 (as' @ bs')"
      by (rule sf_keeps_trans [OF h1(2) h2(2)]) (use h2(5) in auto)
    then show ?thesis by (rule sf_keeps_trans [OF _ h3(2)]) auto
  qed
  ultimately show ?thesis
    using h3(1) jl jr by (auto simp: released_def sf_keeps_def)
qed

section \<open>Coalescing\<close>

fun coalesced :: "chunk list \<Rightarrow> bool" where
  "coalesced (c # d # cs) \<longleftrightarrow> (snd (snd c) \<or> snd (snd d)) \<and> coalesced (d # cs)"
| "coalesced cs \<longleftrightarrow> True"

lemma coalesced_append:
  "coalesced (as @ bs) \<longleftrightarrow> coalesced as \<and> coalesced bs
     \<and> (as = [] \<or> bs = [] \<or> snd (snd (last as)) \<or> snd (snd (hd bs)))"
  by (induction as rule: coalesced.induct) (cases bs; auto)+

lemma coalesced_Cons:
  "coalesced (c # cs) \<longleftrightarrow> coalesced cs \<and> (cs = [] \<or> snd (snd c) \<or> snd (snd (hd cs)))"
  by (cases cs) auto

lemma coalesced_carve:
  assumes "coalesced (as @ (x, n, False) # bs)"
  shows "coalesced (as @ carve k x n @ bs)"
  using assms by (auto simp: carve_def coalesced_append coalesced_Cons)

lemma coalesced_left:
  assumes "coalesced as" "join_left as x n = (as', x', n')"
  shows "coalesced as'" "as' \<noteq> [] \<longrightarrow> snd (snd (last as'))"
proof -
  have "coalesced as' \<and> (as' \<noteq> [] \<longrightarrow> snd (snd (last as')))"
  proof (cases "as \<noteq> [] \<and> \<not> snd (snd (last as))")
    case True
    then have "butlast as = as'" using assms(2) by (simp add: join_left_def)
    then have "as = as' @ [last as]" using True append_butlast_last_id by metis
    then show ?thesis using assms(1) True coalesced_append [of as' "[last as]"] by auto
  qed (use assms in \<open>auto simp: join_left_def\<close>)
  then show "coalesced as'" "as' \<noteq> [] \<longrightarrow> snd (snd (last as'))" by auto
qed

lemma coalesced_right:
  assumes "coalesced bs" "join_right n bs = (n', bs')"
  shows "coalesced bs'" "bs' \<noteq> [] \<longrightarrow> snd (snd (hd bs'))"
  using assms by (auto simp: join_right_def coalesced_Cons split: list.splits bool.splits)

lemma coalesced_released:
  assumes "coalesced (as @ (x, n, True) # bs)"
  shows "coalesced (released as x n bs)"
proof -
  obtain as' x' n' where l: "join_left as x n = (as', x', n')" by (metis prod_cases3)
  obtain n'' bs' where r: "join_right n' bs = (n'', bs')" by (metis surj_pair)
  have "coalesced as" "coalesced bs" using assms by (auto simp: coalesced_append coalesced_Cons)
  then show ?thesis
    using coalesced_left [OF _ l] coalesced_right [OF _ r]
    by (auto simp: released_def l r coalesced_append coalesced_Cons)
qed

section \<open>Items\<close>

text \<open>What a client does: allocate, then write the words at the address of the item.\<close>

fun sf_write_words :: "u64 \<Rightarrow> u64 list \<Rightarrow> segregated_fit \<Rightarrow> segregated_fit" where
  "sf_write_words p [] s = s"
| "sf_write_words p (w # ws) s = sf_write_words (p + 8) ws (sf_wr p w s)"

definition sf_put :: "segregated_fit \<Rightarrow> u64 list \<Rightarrow> (segregated_fit \<times> u64) option" where
  "sf_put s ws =
     (if ws \<noteq> [] \<and> 8 * length ws \<le> 2 ^ 39
      then case sf_allocate (of_nat (8 * length ws)) s of
             None \<Rightarrow> None
           | Some (offset, s) \<Rightarrow>
               if offset = kInsufficientSpace then None
               else Some (sf_write_words (sf_get_item offset s) ws s, offset)
      else None)"

definition sf_contents :: "segregated_fit \<Rightarrow> u64 \<Rightarrow> u64 list" where
  "sf_contents s offset =
     map (\<lambda>i. sf_rd (sf_get_item offset s + of_nat (8 * i)) s)
       [0 ..< unat (sf_item_len offset s) div 8]"

definition item_fits :: "segregated_fit \<Rightarrow> chunk list \<Rightarrow> bool" where
  "item_fits s cs \<longleftrightarrow>
     (\<forall>x n. (x, n, True) \<in> set cs \<longrightarrow> unat (sf_mem s ! Suc x) + 24 \<le> 8 * n)"

definition sf_inv :: "segregated_fit \<Rightarrow> bool" where
  "sf_inv s \<longleftrightarrow> (\<exists>cs. sf_ok s cs \<and> coalesced cs \<and> item_fits s cs)"

definition sf_live :: "segregated_fit \<Rightarrow> u64 \<Rightarrow> bool" where
  "sf_live s offset \<longleftrightarrow>
     (\<exists>cs x n. sf_ok s cs \<and> (x, n, True) \<in> set cs \<and> offset = of_nat (8 * Suc x))"

lemma tag_of_inj:
  assumes "tag_of n occ = tag_of m occ'" "n \<le> 2 ^ 38" "m \<le> 2 ^ 38"
  shows "n = m \<and> occ = occ'"
proof -
  have "(of_nat (8 * n) :: u64) = of_nat (8 * m)"
    using tag_fields(1) [OF assms(2)] tag_fields(1) [OF assms(3)] assms(1) by metis
  moreover have "(if occ then kStatusOccupied else kStatusFree) = (if occ' then kStatusOccupied else kStatusFree)"
    using tag_fields(2) [OF assms(2)] tag_fields(2) [OF assms(3)] assms(1) by metis
  ultimately show ?thesis
    using unat_cells_word [OF assms(2)] unat_cells_word [OF assms(3)] by (auto split: if_splits)
qed

lemma tiles_unique:
  assumes "tiles mem i cs j" "tiles mem i ds j" "j \<le> 2 ^ 38"
  shows "cs = ds"
  using assms
proof (induction cs arbitrary: i ds)
  case Nil
  then show ?case
    using tiles_bounds [OF Nil.prems(2)] by (cases ds) fastforce+
next
  case (Cons c cs)
  obtain n occ where c: "c = (i, n, occ)" "4 \<le> n" "mem ! i = tag_of n occ" "tiles mem (i + n) cs j"
    using Cons.prems(1) by (cases c) auto
  show ?case
  proof (cases ds)
    case Nil
    then show ?thesis using Cons.prems(2) c(2) tiles_bounds [OF c(4)] by simp
  next
    case (Cons d ds')
    obtain m occ' where d: "d = (i, m, occ')" "mem ! i = tag_of m occ'" "tiles mem (i + m) ds' j"
      using Cons.prems(2) Cons by (cases d) auto
    have "n = m \<and> occ = occ'"
      by (rule tag_of_inj) (use c d tiles_bounds [OF c(4)] tiles_bounds [OF d(3)] Cons.prems(3) in auto)
    then show ?thesis using Cons.IH [OF c(4), of ds'] d c Cons Cons.prems(3) by auto
  qed
qed

lemma sf_ok_unique:
  assumes "sf_ok s cs" "sf_ok s ds"
  shows "cs = ds"
proof (rule tiles_unique)
  show "length (sf_mem s) \<le> 2 ^ 38" using sf_shape_bound [of s] assms(1) by (simp add: sf_ok_def)
qed (use assms in \<open>auto simp: sf_ok_def\<close>)

lemma ok_bounds:
  assumes "sf_ok s cs" "(x, n, occ) \<in> set cs"
  shows "4 \<le> n" "x + n \<le> length (sf_mem s)" "x + n \<le> 2 ^ 37"
  using assms tiles_bounds [of "sf_mem s" 0 cs "length (sf_mem s)"] sf_shape_bound [of s]
  by (fastforce simp: sf_ok_def)+

lemma contents_cells:
  assumes ok: "sf_ok s cs" and x: "(x, n, True) \<in> set cs" and fits: "unat (sf_mem s ! Suc x) + 24 \<le> 8 * n"
  shows "sf_contents s (of_nat (8 * Suc x))
    = map (\<lambda>i. sf_mem s ! (x + 2 + i)) [0 ..< unat (sf_mem s ! Suc x) div 8]"
proof -
  note b = ok_bounds [OF ok x]
  let ?len = "sf_mem s ! Suc x"
  have sx: "sf_data s + of_nat (8 * Suc x) = at_cell (sf_data s) (Suc x)" by (simp only: at_cell_def)
  have "Suc x \<le> 2 ^ 38" using b by simp
  then have "sf_item_len (of_nat (8 * Suc x)) s = get_tag_size ?len"
    by (simp only: sf_item_len_def sx rd_at)
  moreover have "get_tag_size ?len = ?len"
  proof -
    have "unat ?len < 2 ^ 63" using fits b(3) by simp
    then have "?len AND mask 63 = ?len" by (simp add: word_unat_eq_iff unat_and_mask)
    moreover have "push_bit 63 (1 :: u64) - 1 = mask 63" by (simp add: mask_eq_decr_exp push_bit_eq_mult)
    ultimately show ?thesis by (simp only: get_tag_size_def)
  qed
  moreover have "sf_rd (sf_get_item (of_nat (8 * Suc x)) s + of_nat (8 * i)) s = sf_mem s ! (x + 2 + i)"
    if "i < unat ?len div 8" for i
  proof -
    have "x + 2 + i \<le> 2 ^ 38" using that fits b by simp
    moreover have "sf_get_item (of_nat (8 * Suc x)) s + of_nat (8 * i) = at_cell (sf_data s) (x + 2 + i)"
      by (simp add: sf_get_item_def at_cell_def algebra_simps)
    ultimately show ?thesis by (simp only: rd_at)
  qed
  ultimately show ?thesis by (simp add: sf_contents_def del: of_nat_mult mult_Suc_right)
qed

lemma contents_kept:
  assumes "sf_ok s cs" "sf_ok s' cs'" "(x, n, True) \<in> set cs" "(x, n, True) \<in> set cs'"
    "unat (sf_mem s ! Suc x) + 24 \<le> 8 * n" "\<forall>c. x \<le> c \<longrightarrow> c < x + n \<longrightarrow> sf_mem s' ! c = sf_mem s ! c"
  shows "sf_contents s' (of_nat (8 * Suc x)) = sf_contents s (of_nat (8 * Suc x))"
proof -
  have n: "4 \<le> n" using ok_bounds [OF assms(1,3)] by simp
  then have l: "sf_mem s' ! Suc x = sf_mem s ! Suc x" using assms(6) by simp
  show ?thesis
    unfolding contents_cells [OF assms(1,3,5)] contents_cells [OF assms(2,4) assms(5) [folded l]] l
    using assms(5,6) by (intro map_cong) auto
qed

lemma ok_write:
  assumes ok: "sf_ok s cs" and x: "(x, n, True) \<in> set cs" and c: "x < c" "Suc c < x + n"
  shows "sf_ok (sf_wr (at_cell (sf_data s) c) v s) cs
    \<and> sf_wr (at_cell (sf_data s) c) v s = s\<lparr>sf_mem := (sf_mem s)[c := v]\<rparr> \<and> c < length (sf_mem s)"
proof -
  obtain as bs where cs: "cs = as @ (x, n, True) # bs" using x by (auto simp: in_set_conv_decomp)
  have h: "sf_hole s as x n bs" using ok cs by (auto simp: sf_ok_def sf_hole_def tiles_append)
  have xc: "x \<le> c" "c < x + n" using c by simp_all
  note w = hole_write [OF h xc refl, of v]
  have "sf_mem s ! x = tag_of n True" "sf_mem s ! (x + n - 1) = tag_of n True"
    using ok cs by (auto simp: sf_ok_def tiles_append)
  then show ?thesis
    using w c cs by (auto simp: sf_ok_def sf_hole_def tiles_append)
qed

lemma sf_write_words_ok:
  assumes "sf_ok s cs" "(x, n, True) \<in> set cs" "x < c" "c + length ws < x + n"
  shows "sf_ok (sf_write_words (at_cell (sf_data s) c) ws s) cs
    \<and> length (sf_mem (sf_write_words (at_cell (sf_data s) c) ws s)) = length (sf_mem s)
    \<and> (\<forall>i<length ws. sf_mem (sf_write_words (at_cell (sf_data s) c) ws s) ! (c + i) = ws ! i)
    \<and> (\<forall>d. d < c \<or> c + length ws \<le> d \<longrightarrow>
        sf_mem (sf_write_words (at_cell (sf_data s) c) ws s) ! d = sf_mem s ! d)"
  using assms
proof (induction ws arbitrary: c s)
  case (Cons w ws)
  define s1 where "s1 = sf_wr (at_cell (sf_data s) c) w s"
  have w: "sf_ok s1 cs" "s1 = s\<lparr>sf_mem := (sf_mem s)[c := w]\<rparr>" "c < length (sf_mem s)"
    using ok_write [OF Cons.prems(1-3), of w] Cons.prems(4) by (auto simp: s1_def)
  have d: "sf_data s1 = sf_data s" by (simp add: s1_def)
  have e: "sf_write_words (at_cell (sf_data s) c) (w # ws) s
      = sf_write_words (at_cell (sf_data s1) (Suc c)) ws s1"
    by (simp add: s1_def [symmetric] at_cell_8 d)
  let ?s = "sf_write_words (at_cell (sf_data s1) (Suc c)) ws s1"
  have IH: "sf_ok ?s cs" "length (sf_mem ?s) = length (sf_mem s1)"
    "\<forall>i<length ws. sf_mem ?s ! (Suc c + i) = ws ! i"
    "\<forall>d. d < Suc c \<or> Suc c + length ws \<le> d \<longrightarrow> sf_mem ?s ! d = sf_mem s1 ! d"
    using Cons.IH [OF w(1) Cons.prems(2), of "Suc c"] Cons.prems(3,4) by auto
  have "sf_mem ?s ! (c + i) = (w # ws) ! i" if "i < length (w # ws)" for i
    using that IH(3) IH(4) w(2,3) by (cases i) auto
  moreover have "sf_mem ?s ! d = sf_mem s ! d" if "d < c \<or> c + length (w # ws) \<le> d" for d
    using that IH(4) w(2) by auto
  ultimately show ?case unfolding e using IH(1,2) w(2) by simp
qed simp

lemma kInsufficient_offset:
  assumes "x \<le> 2 ^ 37"
  shows "of_nat (8 * Suc x) \<noteq> kInsufficientSpace"
proof -
  have "Suc x \<le> 2 ^ 38" using assms by simp
  then have u: "unat (of_nat (8 * Suc x) :: u64) = 8 * Suc x" by (rule unat_cells_word)
  have k: "unat kInsufficientSpace = 2 ^ 64 - 1" by (simp add: kInsufficientSpace_def unsigned_minus_1_eq_mask mask_eq_exp_minus_1)
  have "8 * Suc x \<noteq> 2 ^ 64 - 1" using assms by simp
  then show ?thesis using u k by metis
qed

lemma offset_inj:
  assumes "of_nat (8 * Suc x) = (of_nat (8 * Suc y) :: u64)" "x \<le> 2 ^ 37" "y \<le> 2 ^ 37"
  shows "x = y"
  using arg_cong [OF assms(1), of unat] unat_cells_word [of "Suc x"] unat_cells_word [of "Suc y"]
    assms(2,3) by simp

lemma carve_occupied:
  "(y, m, True) \<in> set (carve k x n) \<longleftrightarrow> y = x \<and> m = (if k + 4 \<le> n then k else n)"
  by (auto simp: carve_def)

text \<open>The effect of a put on the chunks, the items and their words.\<close>

lemma sf_put_ok:
  assumes ok: "sf_ok s cs" "coalesced cs" "item_fits s cs" and put: "sf_put s ws = Some (s', off)"
  shows "\<exists>as x n bs. cs = as @ (x, n, False) # bs \<and> off = of_nat (8 * Suc x)
    \<and> sf_ok s' (as @ carve (length ws + 3) x n @ bs) \<and> length ws + 3 \<le> n
    \<and> coalesced (as @ carve (length ws + 3) x n @ bs)
    \<and> item_fits s' (as @ carve (length ws + 3) x n @ bs)
    \<and> sf_contents s' off = ws \<and> (\<forall>c \<in> occupied_cells (as @ bs). sf_mem s' ! c = sf_mem s ! c)"
proof -
  have ws: "ws \<noteq> []" "8 * length ws \<le> 2 ^ 39" using put by (auto simp: sf_put_def split: if_splits)
  define sz where "sz = (of_nat (8 * length ws) :: u64)"
  have u: "unat sz = 8 * length ws" unfolding sz_def using ws(2) by (intro unat_cells_word) simp
  have sz: "0 < unat sz" "unat sz \<le> 2 ^ 39" using u ws by auto
  have k: "cells_for sz = length ws + 3" by (simp add: cells_for_def u)
  from put obtain s1 where a: "sf_allocate sz s = Some (off, s1)" "off \<noteq> kInsufficientSpace"
    "s' = sf_write_words (sf_get_item off s1) ws s1"
    using ws by (auto simp: sf_put_def sz_def split: option.splits if_splits)
  obtain as x n bs where al: "cs = as @ (x, n, False) # bs" "length ws + 3 \<le> n"
    "off = of_nat (8 * Suc x)" "sf_ok s1 (as @ carve (length ws + 3) x n @ bs)"
    "sf_keeps s s1 (as @ bs)" "sf_mem s1 ! Suc x = sz"
    using sf_allocate_ok [OF ok(1) sz] a(1,2) unfolding k by auto
  let ?cs = "as @ carve (length ws + 3) x n @ bs"
  let ?m = "if length ws + 3 + 4 \<le> n then length ws + 3 else n"
  have new: "(x, ?m, True) \<in> set ?cs" using carve_occupied [of x ?m "length ws + 3" x n] by auto
  have ptr: "sf_get_item off s1 = at_cell (sf_data s1) (x + 2)"
    unfolding al(3) by (simp add: sf_get_item_def at_cell_def)
  have w: "sf_ok s' ?cs" "length (sf_mem s') = length (sf_mem s1)"
    "\<forall>i<length ws. sf_mem s' ! (x + 2 + i) = ws ! i"
    "\<forall>d. d < x + 2 \<or> x + 2 + length ws \<le> d \<longrightarrow> sf_mem s' ! d = sf_mem s1 ! d"
    using sf_write_words_ok [OF al(4) new, of "x + 2" ws] al(2) unfolding a(3) ptr by auto
  have out: "c < x \<or> x + n \<le> c" if "c \<in> occupied_cells (as @ bs)" for c
  proof -
    obtain y m where y: "(y, m, True) \<in> set as \<union> set bs" "y \<le> c" "c < y + m"
      using \<open>c \<in> _\<close> by (auto simp: occupied_cells_def)
    have "tiles (sf_mem s) 0 cs (length (sf_mem s))" using ok(1) by (simp add: sf_ok_def)
    from tiles_pair [OF this, of y m True x n False] show ?thesis using y al(1) by auto
  qed
  have keep: "sf_mem s' ! c = sf_mem s ! c" if "c \<in> occupied_cells (as @ bs)" for c
  proof -
    have "sf_mem s' ! c = sf_mem s1 ! c" using w(4) out [OF that] al(2) by auto
    then show ?thesis using al(5) that by (simp add: sf_keeps_def)
  qed
  have len: "sf_mem s' ! Suc x = sz" using w(4) al(6) by auto
  have fit_new: "unat (sf_mem s' ! Suc x) + 24 \<le> 8 * ?m" using len u al(2) by auto
  have "sf_contents s' off = map (\<lambda>i. sf_mem s' ! (x + 2 + i)) [0 ..< length ws]"
    using contents_cells [OF w(1) new fit_new] len u unfolding al(3) by simp
  also have "\<dots> = ws" using w(3) by (intro nth_equalityI) auto
  finally have cont: "sf_contents s' off = ws" .
  have "unat (sf_mem s' ! Suc y) + 24 \<le> 8 * m" if y: "(y, m, True) \<in> set ?cs" for y m
  proof (cases "(y, m, True) \<in> set (carve (length ws + 3) x n)")
    case True
    then show ?thesis using fit_new carve_occupied by simp
  next
    case False
    then have y': "(y, m, True) \<in> set cs" "(y, m, True) \<in> set as \<union> set bs" using y al(1) by auto
    then have "4 \<le> m" using ok_bounds [OF ok(1)] by blast
    then have "Suc y \<in> occupied_cells (as @ bs)" using y'(2) by (force simp: occupied_cells_def)
    then show ?thesis using keep ok(3) y'(1) by (auto simp: item_fits_def)
  qed
  then have "item_fits s' ?cs" by (simp add: item_fits_def)
  then show ?thesis
    using al(1,2,3) w(1) cont keep coalesced_carve ok(2) by blast
qed

lemma released_occupied:
  assumes "(y, m, True) \<in> set (released as x n bs)"
  shows "(y, m, True) \<in> set (as @ bs)"
proof -
  obtain as' x' n' where l: "join_left as x n = (as', x', n')" by (metis prod_cases3)
  obtain n'' bs' where r: "join_right n' bs = (n'', bs')" by (metis surj_pair)
  have "set as' \<subseteq> set as"
    using l by (auto simp: join_left_def split: if_splits dest: in_set_butlastD)
  moreover have "set bs' \<subseteq> set bs" using r by (auto simp: join_right_def split: list.splits bool.splits)
  ultimately show ?thesis using assms by (auto simp: released_def l r)
qed

lemma occupied_kept:
  assumes "(y, m, True) \<in> set cs" "\<forall>c \<in> occupied_cells cs. sf_mem s' ! c = sf_mem s ! c" "4 \<le> m"
  shows "\<forall>c. y \<le> c \<longrightarrow> c < y + m \<longrightarrow> sf_mem s' ! c = sf_mem s ! c" "sf_mem s' ! Suc y = sf_mem s ! Suc y"
proof -
  show k: "\<forall>c. y \<le> c \<longrightarrow> c < y + m \<longrightarrow> sf_mem s' ! c = sf_mem s ! c"
    using assms(1,2) by (force simp: occupied_cells_def)
  show "sf_mem s' ! Suc y = sf_mem s ! Suc y" using assms(3) by (intro k [rule_format]) auto
qed

lemma sf_liveI: "sf_ok s cs \<Longrightarrow> (x, n, True) \<in> set cs \<Longrightarrow> off = of_nat (8 * Suc x) \<Longrightarrow> sf_live s off"
  unfolding sf_live_def by blast

lemma sf_live_chunk:
  assumes "sf_live s off" "sf_ok s cs"
  obtains x n where "(x, n, True) \<in> set cs" "off = of_nat (8 * Suc x)"
  using assms sf_ok_unique unfolding sf_live_def by blast

lemma sf_put_old:
  assumes "sf_inv s" "sf_put s ws = Some (s', off)" "sf_live s' off'" "off' \<noteq> off"
  shows "sf_live s off' \<and> sf_contents s' off' = sf_contents s off'"
proof -
  obtain cs where cs: "sf_ok s cs" "coalesced cs" "item_fits s cs" using assms(1) by (auto simp: sf_inv_def)
  obtain as x n bs where p: "cs = as @ (x, n, False) # bs" "off = of_nat (8 * Suc x)"
    "sf_ok s' (as @ carve (length ws + 3) x n @ bs)"
    "\<forall>c \<in> occupied_cells (as @ bs). sf_mem s' ! c = sf_mem s ! c"
    using sf_put_ok [OF cs assms(2)] by blast
  obtain y m where y: "(y, m, True) \<in> set (as @ carve (length ws + 3) x n @ bs)" "off' = of_nat (8 * Suc y)"
    using sf_live_chunk [OF assms(3) p(3)] by blast
  have "(y, m, True) \<notin> set (carve (length ws + 3) x n)"
    using assms(4) unfolding carve_occupied y(2) p(2) by auto
  then have o: "(y, m, True) \<in> set (as @ bs)" "(y, m, True) \<in> set cs" using y(1) p(1) by auto
  have "4 \<le> m" using ok_bounds [OF cs(1) o(2)] by simp
  note k = occupied_kept [OF o(1) p(4) this]
  have "unat (sf_mem s ! Suc y) + 24 \<le> 8 * m" using cs(3) o(2) by (simp add: item_fits_def)
  then show ?thesis
    using contents_kept [OF cs(1) p(3) o(2) y(1) _ k(1)] sf_liveI [OF cs(1) o(2) y(2)] y(2) by simp
qed

lemma sf_release_inv:
  assumes "sf_inv s" "sf_live s off"
  shows "sf_inv (sf_release off s) \<and> (\<forall>off'. sf_live (sf_release off s) off' \<longrightarrow>
    sf_live s off' \<and> sf_contents (sf_release off s) off' = sf_contents s off')"
proof -
  obtain cs where cs: "sf_ok s cs" "coalesced cs" "item_fits s cs" using assms(1) by (auto simp: sf_inv_def)
  obtain x n where x: "(x, n, True) \<in> set cs" "off = of_nat (8 * Suc x)"
    using sf_live_chunk [OF assms(2) cs(1)] by blast
  obtain as bs where c: "cs = as @ (x, n, True) # bs" using x(1) by (auto simp: in_set_conv_decomp)
  let ?s = "sf_release off s" and ?cs = "released as x n bs"
  have r: "sf_ok ?s ?cs" "sf_keeps s ?s (as @ bs)"
    using sf_release_ok [OF cs(1) [unfolded c]] x(2) by auto
  have keep: "(y, m, True) \<in> set cs \<and> (\<forall>c. y \<le> c \<longrightarrow> c < y + m \<longrightarrow> sf_mem ?s ! c = sf_mem s ! c)
      \<and> sf_mem ?s ! Suc y = sf_mem s ! Suc y \<and> unat (sf_mem s ! Suc y) + 24 \<le> 8 * m"
    if "(y, m, True) \<in> set ?cs" for y m
  proof -
    have o: "(y, m, True) \<in> set (as @ bs)" "(y, m, True) \<in> set cs"
      using released_occupied [OF that] c by auto
    have "4 \<le> m" using ok_bounds [OF cs(1) o(2)] by simp
    moreover have "\<forall>c \<in> occupied_cells (as @ bs). sf_mem ?s ! c = sf_mem s ! c"
      using r(2) by (simp add: sf_keeps_def)
    ultimately show ?thesis
      using occupied_kept [OF o(1), of ?s s] o(2) cs(3) unfolding item_fits_def by blast
  qed
  have "item_fits ?s ?cs" unfolding item_fits_def using keep by metis
  then have "sf_inv ?s" using r(1) coalesced_released cs(2) c unfolding sf_inv_def by blast
  moreover have "sf_live s off' \<and> sf_contents ?s off' = sf_contents s off'" if l: "sf_live ?s off'" for off'
  proof -
    obtain y m where y: "(y, m, True) \<in> set ?cs" "off' = of_nat (8 * Suc y)"
      using sf_live_chunk [OF l r(1)] by blast
    note k = keep [OF y(1)]
    show ?thesis
      using contents_kept [OF cs(1) r(1) _ y(1)] sf_liveI [OF cs(1) conjunct1 [OF k] y(2)] k y(2) by simp
  qed
  ultimately show ?thesis by blast
qed

interpretation sf: item_pool sf_inv sf_live sf_contents sf_put sf_release
proof unfold_locales
  fix s ws s' off assume "sf_inv s" and put: "sf_put s ws = Some (s', off)"
  then obtain cs where cs: "sf_ok s cs" "coalesced cs" "item_fits s cs" by (auto simp: sf_inv_def)
  obtain as x n bs where p: "off = of_nat (8 * Suc x)"
    "sf_ok s' (as @ carve (length ws + 3) x n @ bs)" "coalesced (as @ carve (length ws + 3) x n @ bs)"
    "item_fits s' (as @ carve (length ws + 3) x n @ bs)" "sf_contents s' off = ws"
    using sf_put_ok [OF cs put] by blast
  show "sf_inv s'" using p unfolding sf_inv_def by blast
  have "(x, if length ws + 3 + 4 \<le> n then length ws + 3 else n, True)
      \<in> set (as @ carve (length ws + 3) x n @ bs)"
    using carve_occupied [of x _ "length ws + 3" x n] by auto
  then show "sf_live s' off \<and> sf_contents s' off = ws" using p(5) sf_liveI [OF p(2) _ p(1)] by simp
qed (use sf_put_old sf_release_inv in blast)+

section \<open>The properties\<close>

lemma sf_reset_ok:
  assumes "sf_shape (s\<lparr>sf_free_head := replicate kNumClasses 0\<rparr>)" "4 \<le> length (sf_mem s)"
  shows "sf_ok (sf_reset s) [(0, length (sf_mem s), False)]"
proof -
  let ?s = "s\<lparr>sf_free_head := replicate kNumClasses 0\<rparr>" and ?n = "length (sf_mem s)"
  have "lists_ok (sf_mem ?s) (sf_data ?s) (sf_free_head ?s) (replicate kNumClasses []) (free_of [])"
    by (simp add: lists_ok_def hd_ptr_def)
  then have "sf_hole ?s [] 0 ?n []" using assms unfolding sf_hole_def by auto
  from hole_close [OF this refl] have "sf_ok (insert_free_chunk (at_cell (sf_data s) 0) (of_nat (8 * ?n)) ?s) [(0, ?n, False)]"
    by simp
  moreover have "of_nat (8 * ?n) = sf_size s"
  proof -
    have "unat (sf_size s) = 8 * ?n" using assms(1) by (simp add: sf_shape_def)
    then show ?thesis by (metis of_nat_unat ucast_id)
  qed
  ultimately show ?thesis by (simp add: sf_reset_def at_cell_def del: of_nat_mult)
qed

definition small_pool :: segregated_fit where
  "small_pool = sf_reset \<lparr>sf_mode = 0, sf_data = 4096, sf_mem = replicate 64 0, sf_lock = 0,
     sf_free_head = [], sf_size = 512\<rparr>"

lemma small_pool_ok: "sf_ok small_pool [(0, 64, False)]"
  using sf_reset_ok [of "\<lparr>sf_mode = 0, sf_data = 4096, sf_mem = replicate 64 0, sf_lock = 0,
     sf_free_head = [], sf_size = 512\<rparr>"]
  by (simp add: small_pool_def sf_shape_def kMaximumSize_def)

text \<open>
  C17. An allocation in a pool whose memory is tiled by chunks succeeds exactly if some free
  chunk has room for the item and its overhead, and leaves the pool as it was otherwise. A
  successful one returns the offset of a free chunk that is large enough, splits the rest off
  as a free chunk when it can be one (so no two free chunks ever touch), records the item's
  size, and keeps every cell of the chunks in use.
\<close>
theorem sf_allocate_complete:
  assumes "sf_ok s cs" "coalesced cs" "0 < unat item_size" "unat item_size \<le> 2 ^ 39"
  shows "if \<exists>(x, n) \<in> free_of cs. cells_for item_size \<le> n
    then \<exists>as x n bs s'. cs = as @ (x, n, False) # bs \<and> cells_for item_size \<le> n
      \<and> sf_allocate item_size s = Some (of_nat (8 * Suc x), s')
      \<and> sf_ok s' (as @ carve (cells_for item_size) x n @ bs)
      \<and> coalesced (as @ carve (cells_for item_size) x n @ bs)
      \<and> (\<forall>c \<in> occupied_cells (as @ bs). sf_mem s' ! c = sf_mem s ! c) \<and> sf_mem s' ! Suc x = item_size
    else sf_allocate item_size s = Some (kInsufficientSpace, s)"
  using sf_allocate_ok [OF assms(1,3,4)]
proof (elim disjE exE conjE)
  assume "\<forall>(x, n) \<in> free_of cs. n < cells_for item_size" "sf_allocate item_size s = Some (kInsufficientSpace, s)"
  moreover from this(1) have "\<not> (\<exists>(x, n) \<in> free_of cs. cells_for item_size \<le> n)" by fastforce
  ultimately show ?thesis by (simp only: if_False)
next
  fix as x n bs s' assume a: "cs = as @ (x, n, False) # bs" "cells_for item_size \<le> n"
    "sf_allocate item_size s = Some (of_nat (8 * Suc x), s')"
    "sf_ok s' (as @ carve (cells_for item_size) x n @ bs)" "sf_keeps s s' (as @ bs)" "sf_mem s' ! Suc x = item_size"
  then have ex: "\<exists>(x, n) \<in> free_of cs. cells_for item_size \<le> n" by (auto simp: free_of_def)
  show ?thesis
    unfolding if_P [OF ex]
    using a coalesced_carve [OF assms(2) [unfolded a(1)], of "cells_for item_size"]
    by (intro exI [of _ as] exI [of _ x] exI [of _ n] exI [of _ bs] exI [of _ s']) (simp add: sf_keeps_def)
qed

theorem sf_allocate_complete_witness:
  "\<exists>s'. sf_allocate 20 small_pool = Some (8, s') \<and> sf_ok s' [(0, 6, True), (6, 58, False)]"
proof -
  obtain as x n bs s' where a: "[(0, 64, False)] = as @ (x, n, False) # bs"
      "sf_allocate 20 small_pool = Some (of_nat (8 * Suc x), s')"
      "sf_ok s' (as @ carve (cells_for 20) x n @ bs)"
    using sf_allocate_complete [OF small_pool_ok, of 20] by (auto simp: cells_for_def)
  then show ?thesis by (auto simp: carve_def cells_for_def Cons_eq_append_conv)
qed

text \<open>
  C16. Releasing the item of an occupied chunk joins it with the free chunks on both sides, so
  that no two free chunks touch afterwards either, and keeps every cell of the other chunks in
  use.
\<close>
theorem sf_release_coalesces:
  assumes "sf_ok s (as @ (x, n, True) # bs)" "coalesced (as @ (x, n, True) # bs)"
    "s' = sf_release (of_nat (8 * Suc x)) s"
  shows "sf_ok s' (released as x n bs) \<and> coalesced (released as x n bs)
    \<and> (\<forall>c \<in> occupied_cells (as @ bs). sf_mem s' ! c = sf_mem s ! c)"
  using sf_release_ok [OF assms(1)] coalesced_released [OF assms(2)] assms(3)
  by (simp add: sf_keeps_def)

theorem sf_release_coalesces_witness:
  "\<exists>s. sf_allocate 20 small_pool = Some (8, s) \<and> sf_ok (sf_release 8 s) [(0, 64, False)]"
proof -
  from sf_allocate_ok [OF small_pool_ok, of 20]
  obtain as x n bs s' where a: "[(0, 64, False)] = as @ (x, n, False) # bs"
      "sf_allocate 20 small_pool = Some (of_nat (8 * Suc x), s')"
      "sf_ok s' (as @ carve (cells_for 20) x n @ bs)"
    by (auto simp: cells_for_def)
  then have s: "sf_allocate 20 small_pool = Some (8, s')" "sf_ok s' ([] @ (0, 6, True) # [(6, 58, False)])"
    by (auto simp: carve_def cells_for_def Cons_eq_append_conv)
  from sf_release_coalesces [OF s(2) _ refl] s(1) show ?thesis
    by (simp add: released_def join_left_def join_right_def)
qed

text \<open>
  C9. Whatever sequence of allocations, writes of the items' words and releases of live
  items a client runs, the invariant of the pool holds afterwards, and every offset that is
  still live reads back the words last put there.
\<close>
theorem sf_remembers:
  assumes "sf_inv s" "\<forall>x. sf_live s x \<longrightarrow> m x = Some (sf_contents s x)"
    "releases_live sf_live sf_put sf_release ops s" "pool_run sf_put sf_release ops (s, m) = (s', m')"
  shows "sf_inv s' \<and> (\<forall>x. sf_live s' x \<longrightarrow> m' x = Some (sf_contents s' x))"
  using sf.run_remembers [OF assms(1) _ assms(3,4)] assms(2) by (simp add: sf.remembers_def)

theorem sf_remembers_witness:
  "\<exists>s' x. sf_put small_pool [5, 6] = Some (s', x) \<and> sf_live s' x \<and> sf_inv s' \<and> sf_contents s' x = [5, 6]"
proof -
  have inv: "sf_inv small_pool"
    using small_pool_ok unfolding sf_inv_def by (intro exI [of _ "[(0, 64, False)]"]) (simp add: item_fits_def)
  have none: "\<not> sf_live small_pool x" for x
    using sf_live_chunk [OF _ small_pool_ok, of x] by auto
  from sf_allocate_ok [OF small_pool_ok, of 16]
  obtain x s1 where "sf_allocate 16 small_pool = Some (of_nat (8 * Suc x), s1)" "x \<le> 2 ^ 37"
    by (force simp: cells_for_def Cons_eq_append_conv)
  then have "sf_put small_pool [5, 6] = Some (sf_write_words (sf_get_item (of_nat (8 * Suc x)) s1) [5, 6] s1, of_nat (8 * Suc x))"
    using kInsufficient_offset [of x] by (simp add: sf_put_def del: sf_write_words.simps)
  then obtain s' y where p: "sf_put small_pool [5, 6] = Some (s', y)" by blast
  have live: "sf_live s' y" using sf.put_new [OF inv p] by simp
  have "sf_inv s' \<and> (\<forall>z. sf_live s' z \<longrightarrow> [y \<mapsto> [5, 6]] z = Some (sf_contents s' z))"
    by (rule sf_remembers [OF inv, of Map.empty "[Put [5, 6]]"]) (simp_all add: none p fun_upd_def)
  then show ?thesis using p live by (intro exI [of _ s'] exI [of _ y]) force
qed

text \<open>
  Allocating an item of size 0 asks for a chunk of 24 bytes, below the minimum of 32: the
  class index wraps around to 2^61 - 1, the scan of the classes ends past them without
  meeting \<^verbatim>\<open>kNumClasses\<close>, and \<^verbatim>\<open>free_head_\<close> is read out of range, in every state of the pool.
\<close>
theorem sf_allocate_zero:
  "size_to_class_roundup (roundup 8 0 + kOverhead) = 2 ^ 61 - 1 \<and> sf_allocate 0 s = None"
proof -
  have r: "roundup 8 (0 :: u64) + kOverhead = 24" by (simp add: roundup_def kOverhead_def)
  have c: "size_to_class_roundup 24 = 2 ^ 61 - 1"
    by (simp add: size_to_class_roundup_def kMinimumSize_def kNumClasses_def kClassIncrement_def)
  have "scan_classes (sf_free_head s) (2 ^ 61 - 1) = 2 ^ 61 - 1"
    by (subst scan_classes.simps) (simp add: kNumClasses_def)
  then have "remove_free_chunk_from_head 24 s = None"
    by (simp add: remove_free_chunk_from_head_def c Let_def kNumClasses_def)
  then show ?thesis by (simp add: sf_allocate_def r c)
qed

end
