(* ===== verification/L_Table.thy ===== *)
theory L_Table
  imports Circular_Log Segregated_Fit "HOL-Library.Monad_Syntax"
begin

text \<open>
  The hash table of \<^verbatim>\<open>mica/table/ltable.h\<close> and \<^verbatim>\<open>ltable_impl/\<close>, over either item pool, for
  one thread at a time. Keys and values are lists of 64-bit words, as \<^verbatim>\<open>memcpy<8>\<close> asserts.
  A bucket is named by its index in the array that holds the buckets and, behind them, the
  extra buckets. An operation that reads or writes outside its arrays, waits for a lock for
  ever, or runs in circles has the result \<^const>\<open>None\<close>.
\<close>

section \<open>The pool of a table\<close>

datatype pool = CircularLog circular_log | SegregatedFit segregated_fit

fun is_circular :: "pool \<Rightarrow> bool" where
  "is_circular (CircularLog l) \<longleftrightarrow> True"
| "is_circular (SegregatedFit s) \<longleftrightarrow> False"

fun pool_lock :: "pool \<Rightarrow> pool option" where
  "pool_lock (CircularLog l) = map_option CircularLog (clog_lock l)"
| "pool_lock (SegregatedFit s) = map_option SegregatedFit (sf_acquire s)"

fun pool_unlock :: "pool \<Rightarrow> pool" where
  "pool_unlock (CircularLog l) = CircularLog (clog_unlock l)"
| "pool_unlock (SegregatedFit s) = SegregatedFit (sf_unlock s)"

fun pool_reset :: "pool \<Rightarrow> pool" where
  "pool_reset (CircularLog l) = CircularLog (clog_reset l)"
| "pool_reset (SegregatedFit s) = SegregatedFit (sf_reset s)"

fun pool_allocate :: "u64 \<Rightarrow> pool \<Rightarrow> (u64 \<times> pool) option" where
  "pool_allocate n (CircularLog l) = map_option (map_prod id CircularLog) (clog_allocate n l)"
| "pool_allocate n (SegregatedFit s) = map_option (map_prod id SegregatedFit) (sf_allocate n s)"

fun pool_release :: "u64 \<Rightarrow> pool \<Rightarrow> pool" where
  "pool_release offset (CircularLog l) = CircularLog (clog_release offset l)"
| "pool_release offset (SegregatedFit s) = SegregatedFit (sf_release offset s)"

text \<open>The \<open>k\<close>-th word behind the address \<^verbatim>\<open>get_item\<close> returns, and the length it reports.\<close>

fun pool_read :: "u64 \<Rightarrow> nat \<Rightarrow> pool \<Rightarrow> u64 option" where
  "pool_read offset k (CircularLog l) = clog_read offset k l"
| "pool_read offset k (SegregatedFit s) =
     (let c = sf_cell (sf_get_item offset s + of_nat (8 * k)) s
      in if c < length (sf_mem s) then Some (sf_mem s ! c) else None)"

fun pool_write :: "u64 \<Rightarrow> nat \<Rightarrow> u64 \<Rightarrow> pool \<Rightarrow> pool option" where
  "pool_write offset k w (CircularLog l) = map_option CircularLog (clog_write offset k w l)"
| "pool_write offset k w (SegregatedFit s) =
     (let c = sf_cell (sf_get_item offset s + of_nat (8 * k)) s
      in if c < length (sf_mem s) then Some (SegregatedFit (s\<lparr>sf_mem := (sf_mem s)[c := w]\<rparr>))
         else None)"

fun pool_item_len :: "u64 \<Rightarrow> pool \<Rightarrow> u64" where
  "pool_item_len offset (CircularLog l) = clog_item_size offset l"
| "pool_item_len offset (SegregatedFit s) = sf_item_len offset s"

fun get_tail :: "pool \<Rightarrow> u64" where
  "get_tail (CircularLog l) = cl_tail l"
| "get_tail (SegregatedFit s) = 0"

fun get_mask :: "pool \<Rightarrow> u64" where
  "get_mask (CircularLog l) = cl_mask l"
| "get_mask (SegregatedFit s) = 0"

fun get_size :: "pool \<Rightarrow> u64" where
  "get_size (CircularLog l) = cl_size l"
| "get_size (SegregatedFit s) = 0"

fun is_valid :: "pool \<Rightarrow> u64 \<Rightarrow> bool" where
  "is_valid (CircularLog l) offset \<longleftrightarrow> clog_is_valid offset l"
| "is_valid (SegregatedFit s) offset \<longleftrightarrow> True"

text \<open>\<^verbatim>\<open>memcpy<8>\<close> from and to an item, and between the items of one pool, word by word.\<close>

fun pool_read_words :: "u64 \<Rightarrow> nat \<Rightarrow> nat \<Rightarrow> pool \<Rightarrow> u64 list option" where
  "pool_read_words offset k 0 p = Some []"
| "pool_read_words offset k (Suc n) p =
     do { w \<leftarrow> pool_read offset k p; ws \<leftarrow> pool_read_words offset (Suc k) n p; Some (w # ws) }"

fun pool_write_words :: "u64 \<Rightarrow> nat \<Rightarrow> u64 list \<Rightarrow> pool \<Rightarrow> pool option" where
  "pool_write_words offset k [] p = Some p"
| "pool_write_words offset k (w # ws) p =
     do { p \<leftarrow> pool_write offset k w p; pool_write_words offset (Suc k) ws p }"

section \<open>The data\<close>

datatype result = KSuccess | KError | KInsufficientSpace | KExists | KNotFound | KPartialValue
  | KNotProcessed | KNotSupported | KTimedOut | KRejected

record bucket =
  b_version :: u32
  b_next :: u32
  b_items :: "u64 list"

record stats =
  s_count :: u64
  s_set_nooverwrite :: u64
  s_set_new :: u64
  s_set_inplace :: u64
  s_set_evicted :: u64
  s_get_found :: u64
  s_get_notfound :: u64
  s_test_found :: u64
  s_test_notfound :: u64
  s_delete_found :: u64
  s_delete_notfound :: u64
  s_cleanup :: u64
  s_mth_performed :: u64
  s_mth_skipped :: u64
  s_mth_failed :: u64

definition zero_stats :: stats where
  "zero_stats = \<lparr>s_count = 0, s_set_nooverwrite = 0, s_set_new = 0, s_set_inplace = 0,
     s_set_evicted = 0, s_get_found = 0, s_get_notfound = 0, s_test_found = 0,
     s_test_notfound = 0, s_delete_found = 0, s_delete_notfound = 0, s_cleanup = 0,
     s_mth_performed = 0, s_mth_skipped = 0, s_mth_failed = 0\<rparr>"

text \<open>The compile-time configuration: \<^verbatim>\<open>kCollectStats\<close>, \<^verbatim>\<open>kEviction\<close>, \<^verbatim>\<open>kBucketSize\<close>.\<close>

record ltable_config =
  kCollectStats :: bool
  kEviction :: bool
  kBucketSize :: nat

record ltable =
  lt_config :: ltable_config
  lt_pool :: pool
  lt_buckets :: "bucket list"
  lt_mode :: u8
  lt_rshift :: u8
  lt_num_buckets :: u32
  lt_num_buckets_mask :: u32
  lt_num_extra_buckets :: u32
  lt_mth_threshold :: u64
  lt_free_lock :: u8
  lt_free_head :: u32
  lt_stats :: stats

definition BasicLossyLTableConfig :: ltable_config where
  "BasicLossyLTableConfig = \<lparr>kCollectStats = False, kEviction = True, kBucketSize = 15\<rparr>"

definition BasicLosslessLTableConfig :: ltable_config where
  "BasicLosslessLTableConfig = \<lparr>kCollectStats = False, kEviction = False, kBucketSize = 7\<rparr>"

definition kMaxKeyLength :: u64 where "kMaxKeyLength = 255"

definition kMaxValueLength :: u64 where "kMaxValueLength = 1048575"

definition kKeyMask :: u32 where "kKeyMask = 2 ^ 8 - 1"

definition kValueMask :: u32 where "kValueMask = 2 ^ 24 - 1"

definition kTagMask :: u64 where "kTagMask = 2 ^ 16 - 1"

definition kItemOffsetMask :: u64 where "kItemOffsetMask = 2 ^ 48 - 1"

definition byte_len :: "u64 list \<Rightarrow> u64" where "byte_len ws = of_nat (8 * length ws)"

subsection \<open>Statistics (\<^verbatim>\<open>info.h\<close>)\<close>

definition stat_add :: "u64 \<Rightarrow> ((u64 \<Rightarrow> u64) \<Rightarrow> stats \<Rightarrow> stats) \<Rightarrow> ltable \<Rightarrow> ltable" where
  "stat_add d counter t =
     (if kCollectStats (lt_config t) then t\<lparr>lt_stats := counter (\<lambda>n. n + d) (lt_stats t)\<rparr> else t)"

definition stat_inc :: "((u64 \<Rightarrow> u64) \<Rightarrow> stats \<Rightarrow> stats) \<Rightarrow> ltable \<Rightarrow> ltable" where
  "stat_inc counter = stat_add 1 counter"

definition stat_dec :: "((u64 \<Rightarrow> u64) \<Rightarrow> stats \<Rightarrow> stats) \<Rightarrow> ltable \<Rightarrow> ltable" where
  "stat_dec counter = stat_add (- 1) counter"

definition reset_stats :: "bool \<Rightarrow> ltable \<Rightarrow> ltable" where
  "reset_stats reset_count t =
     (if kCollectStats (lt_config t)
      then t\<lparr>lt_stats := (if reset_count then zero_stats
                          else zero_stats\<lparr>s_count := s_count (lt_stats t)\<rparr>)\<rparr>
      else t)"

subsection \<open>Items (\<^verbatim>\<open>item.h\<close>)\<close>

definition get_key_length :: "u32 \<Rightarrow> u32" where "get_key_length v = drop_bit 24 v"

definition get_value_length :: "u32 \<Rightarrow> u32" where "get_value_length v = v AND kValueMask"

definition make_kv_length_vec :: "u32 \<Rightarrow> u32 \<Rightarrow> u32" where
  "make_kv_length_vec key_length value_length = push_bit 24 key_length OR value_length"

definition calc_tag :: "u64 \<Rightarrow> u16" where
  "calc_tag key_hash = (let tag = (ucast (key_hash AND kTagMask) :: u16) in if tag = 0 then 1 else tag)"

text \<open>The fields of an item: the low half of its first word, its second word, and its data.\<close>

definition item_kv_length_vec :: "u64 \<Rightarrow> pool \<Rightarrow> u32 option" where
  "item_kv_length_vec offset p = do { w \<leftarrow> pool_read offset 0 p; Some (ucast w) }"

definition set_kv_length_vec :: "u64 \<Rightarrow> u32 \<Rightarrow> pool \<Rightarrow> pool option" where
  "set_kv_length_vec offset v p =
     do { w \<leftarrow> pool_read offset 0 p; pool_write offset 0 (w AND NOT (mask 32) OR ucast v) p }"

definition item_key_hash :: "u64 \<Rightarrow> pool \<Rightarrow> u64 option" where
  "item_key_hash offset p = pool_read offset 1 p"

definition value_word :: "u64 \<Rightarrow> nat" where
  "value_word key_length = 2 + unat (roundup 8 key_length) div 8"

definition set_item :: "u64 \<Rightarrow> u64 \<Rightarrow> u64 list \<Rightarrow> u64 list \<Rightarrow> pool \<Rightarrow> pool option" where
  "set_item offset key_hash key value p =
     do {
       p \<leftarrow> set_kv_length_vec offset
              (make_kv_length_vec (ucast (byte_len key)) (ucast (byte_len value))) p;
       p \<leftarrow> pool_write offset 1 key_hash p;
       p \<leftarrow> pool_write_words offset 2 key p;
       pool_write_words offset (value_word (byte_len key)) value p
     }"

definition set_item_value :: "u64 \<Rightarrow> u64 list \<Rightarrow> pool \<Rightarrow> pool option" where
  "set_item_value offset value p =
     do {
       v \<leftarrow> item_kv_length_vec offset p;
       let key_length = get_key_length v;
       p \<leftarrow> set_kv_length_vec offset (make_kv_length_vec key_length (ucast (byte_len value))) p;
       pool_write_words offset (value_word (ucast key_length)) value p
     }"

definition compare_keys :: "u64 \<Rightarrow> u32 \<Rightarrow> u64 list \<Rightarrow> pool \<Rightarrow> bool option" where
  "compare_keys offset key1_len key p =
     (if ucast key1_len = byte_len key
      then do { ws \<leftarrow> pool_read_words offset 2 (unat (roundup 8 (ucast key1_len :: u64)) div 8) p;
                Some (ws = key) }
      else Some False)"

subsection \<open>Locks (\<^verbatim>\<open>lock.h\<close>)\<close>

text \<open>
  The buckets by index: \<^verbatim>\<open>bucket\<close> reads one, \<^verbatim>\<open>upd_bucket\<close> changes one. A lock that is
  taken is waited for without end.
\<close>

definition bucket_at :: "nat \<Rightarrow> ltable \<Rightarrow> bucket option" where
  "bucket_at b t = (if b < length (lt_buckets t) then Some (lt_buckets t ! b) else None)"

definition upd_bucket :: "nat \<Rightarrow> (bucket \<Rightarrow> bucket) \<Rightarrow> ltable \<Rightarrow> ltable" where
  "upd_bucket b f t = t\<lparr>lt_buckets := (lt_buckets t)[b := f (lt_buckets t ! b)]\<rparr>"

definition item_vec :: "nat \<Rightarrow> nat \<Rightarrow> ltable \<Rightarrow> u64" where
  "item_vec b i t = b_items (lt_buckets t ! b) ! i"

definition set_item_vec :: "nat \<Rightarrow> nat \<Rightarrow> u64 \<Rightarrow> ltable \<Rightarrow> ltable" where
  "set_item_vec b i v = upd_bucket b (\<lambda>k. k\<lparr>b_items := (b_items k)[i := v]\<rparr>)"

definition lock_bucket :: "nat \<Rightarrow> ltable \<Rightarrow> ltable option" where
  "lock_bucket b t =
     do {
       k \<leftarrow> bucket_at b t;
       if lt_mode t = 1 then Some (upd_bucket b (\<lambda>k. k\<lparr>b_version := b_version k + 1\<rparr>) t)
       else if lt_mode t = 2
       then let v = b_version k AND NOT 1; new_v = v OR 1
            in if b_version k = v then Some (upd_bucket b (\<lambda>k. k\<lparr>b_version := new_v\<rparr>) t) else None
       else Some t
     }"

definition unlock_bucket :: "nat \<Rightarrow> ltable \<Rightarrow> ltable" where
  "unlock_bucket b t =
     (if lt_mode t \<noteq> 0 then upd_bucket b (\<lambda>k. k\<lparr>b_version := b_version k + 1\<rparr>) t else t)"

definition lock_extra_bucket_free_list :: "ltable \<Rightarrow> ltable option" where
  "lock_extra_bucket_free_list t =
     (if lt_mode t = 2 then if lt_free_lock t = 0 then Some (t\<lparr>lt_free_lock := 1\<rparr>) else None
      else Some t)"

definition unlock_extra_bucket_free_list :: "ltable \<Rightarrow> ltable" where
  "unlock_extra_bucket_free_list t = (if lt_mode t = 2 then t\<lparr>lt_free_lock := 0\<rparr> else t)"

definition read_version_begin :: "nat \<Rightarrow> ltable \<Rightarrow> u32 option" where
  "read_version_begin b t =
     do {
       k \<leftarrow> bucket_at b t;
       if lt_mode t \<noteq> 0 then if b_version k AND 1 \<noteq> 0 then None else Some (b_version k) else Some 0
     }"

definition read_version_end :: "nat \<Rightarrow> ltable \<Rightarrow> u32 option" where
  "read_version_end b t =
     do { k \<leftarrow> bucket_at b t; Some (if lt_mode t \<noteq> 0 then b_version k else 0) }"

definition with_pool :: "(pool \<Rightarrow> pool option) \<Rightarrow> ltable \<Rightarrow> ltable option" where
  "with_pool f t = do { p \<leftarrow> f (lt_pool t); Some (t\<lparr>lt_pool := p\<rparr>) }"

section \<open>Buckets (\<^verbatim>\<open>bucket.h\<close>)\<close>

definition get_tag :: "u64 \<Rightarrow> u16" where "get_tag v = ucast (drop_bit 48 v)"

definition get_item_offset :: "u64 \<Rightarrow> u64" where "get_item_offset v = v AND kItemOffsetMask"

definition make_item_vec :: "u16 \<Rightarrow> u64 \<Rightarrow> u64" where
  "make_item_vec tag item_offset = push_bit 48 (ucast tag) OR item_offset"

definition calc_bucket_index :: "u64 \<Rightarrow> ltable \<Rightarrow> u32" where
  "calc_bucket_index key_hash t = ucast (drop_bit 16 key_hash) AND lt_num_buckets_mask t"

definition home_bucket :: "u64 \<Rightarrow> ltable \<Rightarrow> nat" where
  "home_bucket key_hash t = unat (calc_bucket_index key_hash t)"

definition has_extra_bucket :: "nat \<Rightarrow> ltable \<Rightarrow> bool" where
  "has_extra_bucket b t \<longleftrightarrow> \<not> kEviction (lt_config t) \<and> b_next (lt_buckets t ! b) \<noteq> 0"

definition get_extra_bucket :: "u32 \<Rightarrow> ltable \<Rightarrow> nat" where
  "get_extra_bucket e t = unat (lt_num_buckets t) + unat e - 1"

definition next_bucket :: "nat \<Rightarrow> ltable \<Rightarrow> nat" where
  "next_bucket b t = get_extra_bucket (b_next (lt_buckets t ! b)) t"

definition set_next_bucket :: "nat \<Rightarrow> u32 \<Rightarrow> ltable \<Rightarrow> ltable" where
  "set_next_bucket b e = upd_bucket b (\<lambda>k. k\<lparr>b_next := e\<rparr>)"

definition alloc_extra_bucket :: "nat \<Rightarrow> ltable \<Rightarrow> (bool \<times> ltable) option" where
  "alloc_extra_bucket b t =
     do {
       t \<leftarrow> lock_extra_bucket_free_list t;
       if lt_free_head t = 0 then Some (False, unlock_extra_bucket_free_list t)
       else do {
         let extra_bucket_index = lt_free_head t;
         let e = get_extra_bucket extra_bucket_index t;
         k \<leftarrow> bucket_at e t;
         let t = t\<lparr>lt_free_head := b_next k\<rparr>;
         let t = set_next_bucket e 0 t;
         let t = set_next_bucket b extra_bucket_index t;
         Some (True, unlock_extra_bucket_free_list t)
       }
     }"

definition free_extra_bucket :: "nat \<Rightarrow> ltable \<Rightarrow> ltable option" where
  "free_extra_bucket b t =
     do {
       let extra_bucket_index = b_next (lt_buckets t ! b);
       let e = get_extra_bucket extra_bucket_index t;
       let t = set_next_bucket b 0 t;
       t \<leftarrow> lock_extra_bucket_free_list t;
       let t = set_next_bucket e (lt_free_head t) t;
       let t = t\<lparr>lt_free_head := extra_bucket_index\<rparr>;
       Some (unlock_extra_bucket_free_list t)
     }"

text \<open>The walk to the last bucket of a chain, with the bucket before it.\<close>

partial_function (option) last_of_chain :: "nat \<Rightarrow> ltable \<Rightarrow> (nat \<times> nat) option" where
  "last_of_chain b t =
     do {
       let current_bucket = next_bucket b t;
       k \<leftarrow> bucket_at current_bucket t;
       if has_extra_bucket current_bucket t then last_of_chain current_bucket t
       else Some (b, current_bucket)
     }"

declare last_of_chain.simps [code]

text \<open>The first item of a bucket, and whether there is a second one.\<close>

fun first_used :: "nat \<Rightarrow> u64 list \<Rightarrow> nat option" where
  "first_used i [] = None"
| "first_used i (v # vs) = (if v \<noteq> 0 then Some i else first_used (Suc i) vs)"

definition last_item :: "u64 list \<Rightarrow> bool" where
  "last_item vs \<longleftrightarrow>
     (case first_used 0 vs of None \<Rightarrow> True
      | Some i \<Rightarrow> first_used (Suc i) (drop (Suc i) vs) = None)"

partial_function (option) fill_hole :: "nat \<Rightarrow> nat \<Rightarrow> ltable \<Rightarrow> ltable option" where
  "fill_hole b unused_item_index t =
     (if \<not> has_extra_bucket b t then Some t
      else do {
        (prev_extra_bucket, current_extra_bucket) \<leftarrow> last_of_chain b t;
        let vs = b_items (lt_buckets t ! current_extra_bucket);
        case first_used 0 vs of
          None \<Rightarrow> do { t \<leftarrow> free_extra_bucket prev_extra_bucket t; fill_hole b unused_item_index t }
        | Some moved_item_index \<Rightarrow> do {
            let t = set_item_vec b unused_item_index (vs ! moved_item_index) t;
            let t = set_item_vec current_extra_bucket moved_item_index 0 t;
            if last_item vs then free_extra_bucket prev_extra_bucket t else Some t
          }
      })"

declare fill_hole.simps [code]

text \<open>The searches return the located bucket and the item index, or nothing.\<close>

fun find_empty :: "nat \<Rightarrow> u64 list \<Rightarrow> nat option" where
  "find_empty i [] = None"
| "find_empty i (v # vs) = (if v = 0 then Some i else find_empty (Suc i) vs)"

partial_function (option) get_empty ::
  "nat \<Rightarrow> ltable \<Rightarrow> ((nat \<times> nat) option \<times> ltable) option" where
  "get_empty b t =
     do {
       k \<leftarrow> bucket_at b t;
       case find_empty 0 (b_items k) of
         Some i \<Rightarrow> Some (Some (b, i), t)
       | None \<Rightarrow>
           if has_extra_bucket b t then get_empty (next_bucket b t) t
           else do {
             (ok, t) \<leftarrow> alloc_extra_bucket b t;
             Some (if ok then Some (next_bucket b t, 0) else None, t)
           }
     }"

declare get_empty.simps [code]

text \<open>
  The oldest item: an empty place ends the search (\<^const>\<open>Inl\<close>), otherwise the distance, the
  bucket and the index of the oldest item so far are kept (\<^const>\<open>Inr\<close>).
\<close>

type_synonym oldest = "u64 \<times> (nat \<times> nat) option"

fun oldest_in :: "pool \<Rightarrow> nat \<Rightarrow> nat \<Rightarrow> oldest \<Rightarrow> u64 list \<Rightarrow> (nat \<times> nat) + oldest" where
  "oldest_in p b i acc [] = Inr acc"
| "oldest_in p b i (d, loc) (v # vs) =
     (if v = 0 then Inl (b, i)
      else let distance = (get_tail p - get_item_offset v) AND get_mask p
           in oldest_in p b (Suc i) (if d > distance then (distance, Some (b, i)) else (d, loc)) vs)"

partial_function (option) oldest_loop ::
  "oldest \<Rightarrow> nat \<Rightarrow> ltable \<Rightarrow> (nat \<times> nat) option option" where
  "oldest_loop acc b t =
     do {
       k \<leftarrow> bucket_at b t;
       case oldest_in (lt_pool t) b 0 acc (b_items k) of
         Inl loc \<Rightarrow> Some (Some loc)
       | Inr acc \<Rightarrow> if has_extra_bucket b t then oldest_loop acc (next_bucket b t) t else Some (snd acc)
     }"

declare oldest_loop.simps [code]

definition get_empty_or_oldest :: "nat \<Rightarrow> ltable \<Rightarrow> ((nat \<times> nat) option \<times> ltable) option" where
  "get_empty_or_oldest b t =
     (if \<not> is_circular (lt_pool t) then get_empty b t
      else do { loc \<leftarrow> oldest_loop (- 1, None) b t; Some (loc, t) })"

fun find_in :: "pool \<Rightarrow> u64 \<Rightarrow> u16 \<Rightarrow> u64 list \<Rightarrow> nat \<Rightarrow> u64 list \<Rightarrow> nat option option" where
  "find_in p key_hash tag key i [] = Some None"
| "find_in p key_hash tag key i (v # vs) =
     (if get_tag v \<noteq> tag then find_in p key_hash tag key (Suc i) vs
      else do {
        h \<leftarrow> item_key_hash (get_item_offset v) p;
        if h \<noteq> key_hash then find_in p key_hash tag key (Suc i) vs
        else do {
          kv \<leftarrow> item_kv_length_vec (get_item_offset v) p;
          eq \<leftarrow> compare_keys (get_item_offset v) (get_key_length kv) key p;
          if \<not> eq then find_in p key_hash tag key (Suc i) vs else Some (Some i)
        }
      })"

partial_function (option) find_item_index ::
  "nat \<Rightarrow> u64 \<Rightarrow> u16 \<Rightarrow> u64 list \<Rightarrow> ltable \<Rightarrow> (nat \<times> nat) option option" where
  "find_item_index b key_hash tag key t =
     do {
       k \<leftarrow> bucket_at b t;
       found \<leftarrow> find_in (lt_pool t) key_hash tag key 0 (b_items k);
       case found of
         Some i \<Rightarrow> Some (Some (b, i))
       | None \<Rightarrow>
           if has_extra_bucket b t then find_item_index (next_bucket b t) key_hash tag key t
           else Some None
     }"

declare find_item_index.simps [code]

fun tag_in :: "u16 \<Rightarrow> nat \<Rightarrow> u64 list \<Rightarrow> nat option" where
  "tag_in tag i [] = None"
| "tag_in tag i (v # vs) = (if get_tag v = tag then Some i else tag_in tag (Suc i) vs)"

partial_function (option) find_same_tag ::
  "nat \<Rightarrow> u16 \<Rightarrow> ltable \<Rightarrow> (nat \<times> nat) option option" where
  "find_same_tag b tag t =
     do {
       k \<leftarrow> bucket_at b t;
       case tag_in tag 0 (b_items k) of
         Some i \<Rightarrow> Some (Some (b, i))
       | None \<Rightarrow> if has_extra_bucket b t then find_same_tag (next_bucket b t) tag t else Some None
     }"

declare find_same_tag.simps [code]

text \<open>The cleanup of the buckets between two tails: invalid items are dropped.\<close>

fun cleanup_items :: "nat \<Rightarrow> nat \<Rightarrow> ltable \<Rightarrow> ltable" where
  "cleanup_items b 0 t = t"
| "cleanup_items b (Suc n) t =
     (let t = cleanup_items b n t in
      if item_vec b n t = 0 then t
      else if \<not> is_valid (lt_pool t) (item_vec b n t)
      then stat_dec s_count_update (stat_inc s_cleanup_update (set_item_vec b n 0 t))
      else t)"

partial_function (option) cleanup_chain :: "nat \<Rightarrow> ltable \<Rightarrow> ltable option" where
  "cleanup_chain b t =
     do {
       k \<leftarrow> bucket_at b t;
       let t = cleanup_items b (kBucketSize (lt_config t)) t;
       if has_extra_bucket b t then cleanup_chain (next_bucket b t) t else Some t
     }"

declare cleanup_chain.simps [code]

partial_function (option) cleanup_loop :: "u64 \<Rightarrow> u64 \<Rightarrow> ltable \<Rightarrow> ltable option" where
  "cleanup_loop bucket_index bucket_index_end t =
     (if bucket_index = bucket_index_end then Some t
      else do {
        let b = unat bucket_index;
        t \<leftarrow> lock_bucket b t;
        t \<leftarrow> cleanup_chain b t;
        let t = unlock_bucket b t;
        cleanup_loop ((bucket_index + 1) AND ucast (lt_num_buckets_mask t)) bucket_index_end t
      })"

declare cleanup_loop.simps [code]

definition cleanup_bucket :: "u64 \<Rightarrow> u64 \<Rightarrow> ltable \<Rightarrow> ltable option" where
  "cleanup_bucket old_tail new_tail t =
     (if \<not> is_circular (lt_pool t) then Some t
      else cleanup_loop (drop_bit (unat (lt_rshift t)) old_tail AND ucast (lt_num_buckets_mask t))
             (drop_bit (unat (lt_rshift t)) new_tail AND ucast (lt_num_buckets_mask t)) t)"

definition cleanup_all :: "ltable \<Rightarrow> ltable option" where
  "cleanup_all t =
     (if is_circular (lt_pool t)
      then do {
        t \<leftarrow> cleanup_bucket 0 (push_bit (unat (lt_rshift t)) 1) t;
        cleanup_bucket (push_bit (unat (lt_rshift t)) 1) 0 t
      }
      else Some t)"

section \<open>Operations\<close>

text \<open>The bytes an item needs, computed in 64 bits and cut to 32 (\<^verbatim>\<open>sizeof(Item)\<close> is 16).\<close>

definition kv_item_size :: "u64 \<Rightarrow> u64 \<Rightarrow> u32" where
  "kv_item_size key_length value_length = ucast (16 + roundup 8 key_length + roundup 8 value_length)"

definition move_to_head ::
  "nat \<Rightarrow> nat \<times> nat \<Rightarrow> u64 \<Rightarrow> u64 \<Rightarrow> u64 \<Rightarrow> u64 \<Rightarrow> ltable \<Rightarrow> ltable option" where
  "move_to_head b loc key_length value_length vec item_offset t =
     (if \<not> is_circular (lt_pool t) then Some t
      else
        let item_size = kv_item_size key_length value_length;
            distance_from_tail = (get_tail (lt_pool t) - item_offset) AND get_mask (lt_pool t)
        in if distance_from_tail > lt_mth_threshold t
           then do {
             t \<leftarrow> lock_bucket b t;
             t \<leftarrow> with_pool pool_lock t;
             if item_vec (fst loc) (snd loc) t = vec
             then do {
               (new_item_offset, p) \<leftarrow> pool_allocate (ucast item_size) (lt_pool t);
               let t = t\<lparr>lt_pool := p\<rparr>;
               let new_tail = get_tail p;
               t \<leftarrow> (if is_valid p item_offset
                    then do {
                      ws \<leftarrow> pool_read_words item_offset 0 (unat item_size div 8) p;
                      t \<leftarrow> with_pool (pool_write_words new_item_offset 0 ws) t;
                      let t = set_item_vec (fst loc) (snd loc)
                                (make_item_vec (get_tag vec) new_item_offset) t;
                      Some (stat_inc s_mth_performed_update t)
                    }
                    else Some (stat_inc s_mth_failed_update t));
               let t = t\<lparr>lt_pool := pool_unlock (lt_pool t)\<rparr>;
               let t = unlock_bucket b t;
               cleanup_bucket new_item_offset new_tail t
             }
             else do {
               let t = t\<lparr>lt_pool := pool_unlock (lt_pool t)\<rparr>;
               let t = unlock_bucket b t;
               Some (stat_inc s_mth_failed_update t)
             }
           }
           else Some (stat_inc s_mth_skipped_update t))"

text \<open>
  \<^verbatim>\<open>get\<close>: the result, the words copied to \<open>out_value\<close> (of which \<open>in_value_length\<close> says how
  many bytes there may be, a multiple of 8), and the table. The loop runs again when the
  version has changed.
\<close>

partial_function (option) ltable_get ::
  "u64 \<Rightarrow> u64 list \<Rightarrow> u64 \<Rightarrow> bool \<Rightarrow> ltable \<Rightarrow> (result \<times> u64 list \<times> ltable) option" where
  "ltable_get key_hash key in_value_length allow_mutation t =
     do {
       let b = home_bucket key_hash t;
       let tag = calc_tag key_hash;
       version_start \<leftarrow> read_version_begin b t;
       found \<leftarrow> find_item_index b key_hash tag key t;
       version_end \<leftarrow> read_version_end b t;
       case found of
         None \<Rightarrow>
           if version_start \<noteq> version_end then ltable_get key_hash key in_value_length allow_mutation t
           else Some (KNotFound, [], stat_inc s_get_notfound_update t)
       | Some (lb, i) \<Rightarrow> do {
           let vec = item_vec lb i t;
           let item_offset = get_item_offset vec;
           kv \<leftarrow> item_kv_length_vec item_offset (lt_pool t);
           let value_length = (ucast (get_value_length kv) :: u64);
           let out_value_length = min value_length in_value_length;
           let partial_value = (value_length \<noteq> out_value_length);
           let invalid_value_length = (value_length > kMaxValueLength);
           out_value \<leftarrow> (if invalid_value_length then Some []
              else pool_read_words item_offset (value_word (byte_len key))
                     (unat out_value_length div 8) (lt_pool t));
           if invalid_value_length \<or> \<not> is_valid (lt_pool t) item_offset
           then if version_start \<noteq> version_end
             then ltable_get key_hash key in_value_length allow_mutation t
             else do {
               t \<leftarrow> (if allow_mutation
                    then do {
                      t \<leftarrow> lock_bucket b t;
                      let t = (if item_vec lb i t \<noteq> 0
                               then stat_dec s_count_update (set_item_vec lb i 0 t) else t);
                      Some (unlock_bucket b t)
                    }
                    else Some t);
               Some (KNotFound, out_value, stat_inc s_get_notfound_update t)
             }
           else if version_start \<noteq> version_end
           then ltable_get key_hash key in_value_length allow_mutation t
           else do {
             let t = stat_inc s_get_found_update t;
             t \<leftarrow> (if allow_mutation
                  then move_to_head b (lb, i) (byte_len key) value_length vec item_offset t
                  else Some t);
             Some (if partial_value then KPartialValue else KSuccess, out_value, t)
           }
         }
     }"

declare ltable_get.simps [code]

partial_function (option) ltable_test :: "u64 \<Rightarrow> u64 list \<Rightarrow> ltable \<Rightarrow> (result \<times> ltable) option" where
  "ltable_test key_hash key t =
     do {
       let b = home_bucket key_hash t;
       version_start \<leftarrow> read_version_begin b t;
       found \<leftarrow> find_item_index b key_hash (calc_tag key_hash) key t;
       version_end \<leftarrow> read_version_end b t;
       if version_start \<noteq> version_end then ltable_test key_hash key t
       else Some (if found \<noteq> None then (KSuccess, stat_inc s_test_found_update t)
                  else (KNotFound, stat_inc s_test_notfound_update t))
     }"

declare ltable_test.simps [code]

definition ltable_del :: "u64 \<Rightarrow> u64 list \<Rightarrow> ltable \<Rightarrow> (result \<times> ltable) option" where
  "ltable_del key_hash key t =
     do {
       let b = home_bucket key_hash t;
       t \<leftarrow> lock_bucket b t;
       found \<leftarrow> find_item_index b key_hash (calc_tag key_hash) key t;
       case found of
         None \<Rightarrow> Some (KNotFound, stat_inc s_delete_notfound_update (unlock_bucket b t))
       | Some (lb, i) \<Rightarrow> do {
           t \<leftarrow> (if is_circular (lt_pool t) then Some t else with_pool pool_lock t);
           let t = t\<lparr>lt_pool := pool_release (get_item_offset (item_vec lb i t)) (lt_pool t)\<rparr>;
           let t = (if is_circular (lt_pool t) then t else t\<lparr>lt_pool := pool_unlock (lt_pool t)\<rparr>);
           let t = set_item_vec lb i 0 t;
           let t = stat_dec s_count_update t;
           t \<leftarrow> fill_hole lb i t;
           Some (KSuccess, stat_inc s_delete_found_update (unlock_bucket b t))
         }
     }"

definition ltable_increment ::
  "u64 \<Rightarrow> u64 list \<Rightarrow> u64 \<Rightarrow> ltable \<Rightarrow> (result \<times> u64 option \<times> ltable) option" where
  "ltable_increment key_hash key increment t =
     do {
       let b = home_bucket key_hash t;
       t \<leftarrow> lock_bucket b t;
       found \<leftarrow> find_item_index b key_hash (calc_tag key_hash) key t;
       case found of
         None \<Rightarrow> Some (KNotFound, None, unlock_bucket b t)
       | Some (lb, i) \<Rightarrow> do {
           let item_offset = get_item_offset (item_vec lb i t);
           let circular = is_circular (lt_pool t);
           let unlock_pool = (\<lambda>t. if circular then t\<lparr>lt_pool := pool_unlock (lt_pool t)\<rparr> else t);
           t \<leftarrow> (if circular then with_pool pool_lock t else Some t);
           if circular \<and> \<not> is_valid (lt_pool t) item_offset
           then Some (KError, None, unlock_bucket b (unlock_pool t))
           else do {
             kv \<leftarrow> item_kv_length_vec item_offset (lt_pool t);
             if get_value_length kv \<noteq> 8
             then Some (KError, None, unlock_bucket b (unlock_pool t))
             else do {
               old_value \<leftarrow> pool_read item_offset (value_word (byte_len key)) (lt_pool t);
               let new_value = old_value + increment;
               t \<leftarrow> with_pool (pool_write item_offset (value_word (byte_len key)) new_value) t;
               Some (KSuccess, Some new_value, unlock_bucket b (unlock_pool t))
             }
           }
         }
     }"

text \<open>
  \<^verbatim>\<open>set\<close> from the point where the place of the item is known: the value is written in place,
  or the item is allocated anew.
\<close>

definition set_new_item ::
  "nat \<Rightarrow> u64 \<Rightarrow> u64 list \<Rightarrow> u64 list \<Rightarrow> bool \<Rightarrow> u64 \<Rightarrow> nat \<times> nat \<Rightarrow> ltable \<Rightarrow> (result \<times> ltable) option" where
  "set_new_item b key_hash key value overwriting item_offset loc t =
     do {
       let circular = is_circular (lt_pool t);
       let new_item_size = kv_item_size (byte_len key) (byte_len value);
       (new_item_offset, p) \<leftarrow> pool_allocate (ucast new_item_size) (lt_pool t);
       let t = t\<lparr>lt_pool := p\<rparr>;
       if new_item_offset = kInsufficientSpace
       then Some (KInsufficientSpace, unlock_bucket b t)
       else do {
         let new_tail = get_tail p;
         let t = stat_inc s_set_new_update t;
         t \<leftarrow> with_pool (set_item new_item_offset key_hash key value) t;
         let t = (if circular then t\<lparr>lt_pool := pool_unlock (lt_pool t)\<rparr> else t);
         let t = (if item_vec (fst loc) (snd loc) t \<noteq> 0
                  then stat_dec s_count_update (stat_inc s_set_evicted_update t) else t);
         let t = set_item_vec (fst loc) (snd loc) (make_item_vec (calc_tag key_hash) new_item_offset) t;
         let t = unlock_bucket b t;
         t \<leftarrow> (if circular
              then do {
                t \<leftarrow> cleanup_bucket new_item_offset new_tail t;
                Some (if overwriting then t\<lparr>lt_pool := pool_release item_offset (lt_pool t)\<rparr> else t)
              }
              else if overwriting
              then do {
                t \<leftarrow> with_pool pool_lock t;
                let t = t\<lparr>lt_pool := pool_release item_offset (lt_pool t)\<rparr>;
                Some (t\<lparr>lt_pool := pool_unlock (lt_pool t)\<rparr>)
              }
              else Some t);
         Some (KSuccess, stat_inc s_count_update t)
       }
     }"

definition set_located ::
  "nat \<Rightarrow> u64 \<Rightarrow> u64 list \<Rightarrow> u64 list \<Rightarrow> bool \<Rightarrow> nat \<times> nat \<Rightarrow> ltable \<Rightarrow> (result \<times> ltable) option" where
  "set_located b key_hash key value overwriting loc t =
     do {
       let new_item_size = kv_item_size (byte_len key) (byte_len value);
       let circular = is_circular (lt_pool t);
       t \<leftarrow> (if circular then with_pool pool_lock t else Some t);
       let item_offset = (if overwriting then get_item_offset (item_vec (fst loc) (snd loc) t) else 0);
       if overwriting \<and> is_valid (lt_pool t) item_offset
          \<and> pool_item_len item_offset (lt_pool t) \<ge> ucast new_item_size
       then do {
         let t = stat_inc s_set_inplace_update t;
         t \<leftarrow> with_pool (set_item_value item_offset value) t;
         let t = (if circular then t\<lparr>lt_pool := pool_unlock (lt_pool t)\<rparr> else t);
         Some (KSuccess, unlock_bucket b t)
       }
       else set_new_item b key_hash key value overwriting item_offset loc t
     }"

definition ltable_set ::
  "u64 \<Rightarrow> u64 list \<Rightarrow> u64 list \<Rightarrow> bool \<Rightarrow> ltable \<Rightarrow> (result \<times> ltable) option" where
  "ltable_set key_hash key value overwrite t =
     do {
       let b = home_bucket key_hash t;
       let tag = calc_tag key_hash;
       t \<leftarrow> lock_bucket b t;
       found \<leftarrow> find_item_index b key_hash tag key t;
       case found of
         Some loc \<Rightarrow>
           if \<not> overwrite then Some (KExists, unlock_bucket b (stat_inc s_set_nooverwrite_update t))
           else set_located b key_hash key value True loc t
       | None \<Rightarrow>
           if kEviction (lt_config t) \<and> is_circular (lt_pool t)
           then do {
             same \<leftarrow> find_same_tag b tag t;
             (place, t) \<leftarrow> (case same of Some loc \<Rightarrow> Some (Some loc, t) | None \<Rightarrow> get_empty_or_oldest b t);
             loc \<leftarrow> place;
             set_located b key_hash key value False loc t
           }
           else do {
             (place, t) \<leftarrow> get_empty b t;
             case place of
               None \<Rightarrow> Some (KInsufficientSpace, unlock_bucket b t)
             | Some loc \<Rightarrow> set_located b key_hash key value False loc t
           }
     }"

section \<open>Construction (\<^verbatim>\<open>init.h\<close>)\<close>

fun release_items :: "u64 list \<Rightarrow> pool \<Rightarrow> pool" where
  "release_items [] p = p"
| "release_items (v # vs) p =
     release_items vs (if v \<noteq> 0 then pool_release (get_item_offset v) p else p)"

definition zero_bucket :: "ltable_config \<Rightarrow> bucket" where
  "zero_bucket c = \<lparr>b_version = 0, b_next = 0, b_items = replicate (kBucketSize c) 0\<rparr>"

text \<open>The free list after a reset: each extra bucket but the last leads to the one behind it.\<close>

definition link_extra_buckets :: "ltable \<Rightarrow> ltable" where
  "link_extra_buckets t =
     (let n = unat (lt_num_extra_buckets t)
      in if n = 0 then t\<lparr>lt_free_head := 0\<rparr>
         else (set_next_bucket (get_extra_bucket (of_nat n) t) 0
                (fold (\<lambda>e. set_next_bucket (get_extra_bucket (of_nat e) t) (of_nat e + 1)) [1..<n] t))
              \<lparr>lt_free_head := 1\<rparr>)"

definition ltable_reset :: "ltable \<Rightarrow> ltable option" where
  "ltable_reset t =
     do {
       t \<leftarrow> with_pool pool_lock t;
       let n = unat (lt_num_buckets t);
       let p = release_items (concat (map b_items (take n (lt_buckets t)))) (lt_pool t);
       let t = t\<lparr>lt_pool := pool_unlock p\<rparr>;
       let t = t\<lparr>lt_buckets := replicate (n + unat (lt_num_extra_buckets t)) (zero_bucket (lt_config t))\<rparr>;
       let t = link_extra_buckets (t\<lparr>lt_free_lock := 0\<rparr>);
       t \<leftarrow> with_pool pool_lock t;
       Some (reset_stats True (t\<lparr>lt_pool := pool_unlock (pool_reset (lt_pool t))\<rparr>))
     }"

partial_function (option) log_num_buckets :: "nat \<Rightarrow> u64 \<Rightarrow> nat option" where
  "log_num_buckets k num_buckets =
     (if 64 \<le> k then None
      else if push_bit k 1 < num_buckets then log_num_buckets (Suc k) num_buckets else Some k)"

declare log_num_buckets.simps [code]

partial_function (option) calc_rshift :: "u8 \<Rightarrow> u32 \<Rightarrow> u8 option" where
  "calc_rshift rshift num_buckets =
     (if drop_bit (unat rshift) (drop_bit 1 (kItemOffsetMask + 1)) > ucast num_buckets
      then calc_rshift (rshift + 1) num_buckets else Some rshift)"

declare calc_rshift.simps [code]

text \<open>
  The constructor. The two products in double precision, of the number of buckets with the
  part of extra buckets and of the size of the pool with the threshold, are arguments; the
  memory of the allocator is cleared. \<^verbatim>\<open>safe_cast\<close> gives 0 for a number that does not fit.
\<close>

definition safe_cast_u32 :: "u64 \<Rightarrow> u32" where
  "safe_cast_u32 x = (if x \<le> 2 ^ 32 - 1 then ucast x else 0)"

definition ltable_new ::
  "ltable_config \<Rightarrow> u64 \<Rightarrow> (u64 \<Rightarrow> u64) \<Rightarrow> (u64 \<Rightarrow> u64) \<Rightarrow> bool \<Rightarrow> bool \<Rightarrow> pool \<Rightarrow> ltable option" where
  "ltable_new c item_count extra_part mth_part concurrent_read concurrent_write p =
     do {
       let item_count = item_count * 11 div 10;
       let num_buckets = (item_count + of_nat (kBucketSize c) - 1) div of_nat (kBucketSize c);
       let num_extra = safe_cast_u32 (extra_part num_buckets);
       k \<leftarrow> log_num_buckets 0 num_buckets;
       let num = safe_cast_u32 (push_bit k 1);
       let num_mask = safe_cast_u32 (push_bit k 1 - 1);
       rshift \<leftarrow> calc_rshift 0 num;
       ltable_reset
         \<lparr>lt_config = c, lt_pool = p,
          lt_buckets = replicate (unat num + unat num_extra) (zero_bucket c),
          lt_mode = (if \<not> concurrent_read then 0 else if \<not> concurrent_write then 1 else 2),
          lt_rshift = rshift, lt_num_buckets = num, lt_num_buckets_mask = num_mask,
          lt_num_extra_buckets = num_extra, lt_mth_threshold = mth_part (get_size p),
          lt_free_lock = 0, lt_free_head = 0, lt_stats = zero_stats\<rparr>
     }"

end
