(* ===== verification/Log_Items.thy ===== *)
theory Log_Items
  imports L_Table
begin

text \<open>
  The items of a table in the circular log: the history of the log, and what \<^verbatim>\<open>set_item\<close>,
  \<^verbatim>\<open>set_item_value\<close> and the reads of \<^verbatim>\<open>ltable_impl/item.h\<close> do to the words at a position.
\<close>

section \<open>The log and its history\<close>

text \<open>
  All items ever appended to a log, by their numbers of cells. The ones the log still has
  are the last of them.
\<close>

definition clog_hist :: "circular_log \<Rightarrow> nat list \<Rightarrow> bool" where
  "clog_hist l H \<longleftrightarrow>
     (\<exists>es cs. H = es @ cs \<and> clog_ok l cs \<and> head_cell l = sum_list es) \<and> (\<forall>c \<in> set H. 0 < c)"

lemma items_from_app: "items_from h (as @ bs) = items_from h as @ items_from (h + sum_list as) bs"
  by (induction as arbitrary: h) (auto simp: add.assoc)

lemma items_pair:
  "(p, c) \<in> set (items_from h cs) \<Longrightarrow> (q, d) \<in> set (items_from h cs) \<Longrightarrow>
     (p, c) = (q, d) \<or> p + c \<le> q \<or> q + d \<le> p"
proof (induction cs arbitrary: h)
  case (Cons x cs)
  then show ?case
    using items_from_bounds [of p c "h + x" cs] items_from_bounds [of q d "h + x" cs] by auto
qed simp

lemma hist_tail: "clog_hist l H \<Longrightarrow> tail_cell l = sum_list H"
  by (auto simp: clog_hist_def clog_ok_def)

lemma hist_shape: "clog_hist l H \<Longrightarrow> clog_shape l"
  by (auto simp: clog_hist_def clog_ok_def)

lemma hist_tail8: "clog_hist l H \<Longrightarrow> unat (cl_tail l) = 8 * tail_cell l"
  by (auto simp: clog_hist_def clog_ok_def tail_cell_def)

lemma hist_bound: "clog_hist l H \<Longrightarrow> p \<le> tail_cell l \<Longrightarrow> 8 * p < 2 ^ 64"
  using hist_tail8 [of l H] unsigned_less [of "cl_tail l", where ?'a = nat] by simp

lemma hist_item:
  assumes "clog_hist l H" "(p, c) \<in> set (items_from 0 H)"
  shows "p + c \<le> tail_cell l" "0 < c"
  using items_from_bounds [OF assms(2)] hist_tail [OF assms(1)] assms(1) by (auto simp: clog_hist_def)

lemma clog_ok_lock [simp]: "clog_ok (l\<lparr>cl_lock := x\<rparr>) cs = clog_ok l cs"
  by (simp add: clog_ok_def clog_shape_def head_cell_def tail_cell_def)

lemma clog_hist_lock [simp]: "clog_hist (l\<lparr>cl_lock := x\<rparr>) H = clog_hist l H"
  by (simp add: clog_hist_def head_cell_def)

lemma hist_push:
  assumes h: "clog_hist l H" and c: "unat sz = 8 * c" "0 < c" "c < length (cl_data l)"
    and tl: "unat (cl_tail l) + 2 ^ 47 < 2 ^ 64"
  shows "\<exists>l'. push_tail sz l = Some (offset_at (tail_cell l), l') \<and> clog_hist l' (H @ [c])
    \<and> cl_data l' = (cl_data l)[tail_cell l mod length (cl_data l) := sz]
    \<and> tail_cell l' = tail_cell l + c"
proof -
  obtain es cs where e: "H = es @ cs" "clog_ok l cs" "head_cell l = sum_list es" "\<forall>c \<in> set H. 0 < c"
    using h by (auto simp: clog_hist_def)
  obtain l' cs' where p: "push_tail sz l = Some (cl_tail l AND kOffsetMask, l')" "clog_ok l' cs'"
    "items_from (head_cell l') cs' = dropWhile (\<lambda>(p, _). p + length (cl_data l) \<le> tail_cell l + c)
       (items_from (head_cell l) cs) @ [(tail_cell l, c)]"
    "unat (cl_tail l') = unat (cl_tail l) + 8 * c"
    "cl_data l' = (cl_data l)[tail_cell l mod length (cl_data l) := sz]"
    using push_tail_ok [OF e(2) c tl] by blast
  have t8: "unat (cl_tail l) = 8 * tail_cell l" using hist_tail8 [OF h] .
  have "of_nat (8 * tail_cell l) = cl_tail l" by (simp only: t8 [symmetric] of_nat_unat ucast_id)
  then have off: "cl_tail l AND kOffsetMask = offset_at (tail_cell l)" by (simp only: offset_at_def)
  have tc: "tail_cell l' = tail_cell l + c" using p(4) by (simp add: tail_cell_def)
  let ?P = "\<lambda>(p, _). p + length (cl_data l) \<le> tail_cell l + c"
  let ?I = "items_from (head_cell l) cs"
  define ts where "ts = map snd (takeWhile ?P ?I)"
  define ds where "ds = map snd (dropWhile ?P ?I)"
  have cs: "cs = ts @ ds"
    unfolding ts_def ds_def map_append [symmetric] takeWhile_dropWhile_id map_snd_items ..
  have cs': "cs' = ds @ [c]"
    using arg_cong [OF p(3), of "map snd"] by (simp add: map_snd_items ds_def)
  have "tail_cell l' = head_cell l' + sum_list cs'" "tail_cell l = head_cell l + sum_list cs"
    using p(2) e(2) by (auto simp: clog_ok_def)
  then have "head_cell l' = sum_list (es @ ts)" using tc cs cs' e(3) by simp
  then have "clog_hist l' (H @ [c])"
    unfolding clog_hist_def using p(2) cs cs' e(1,4) c(2)
    by (intro conjI exI [of _ "es @ ts"] exI [of _ cs']) auto
  then show ?thesis using p(1,5) tc off by auto
qed

lemma hist_mod_neq:
  assumes "a < b + n" "b < a + n" "a \<noteq> (b :: nat)"
  shows "a mod n \<noteq> b mod n"
  using mod_window_neq [of a b n] mod_window_neq [of b a n] assms by (cases a b rule: linorder_cases) auto

text \<open>Writing the data cells of an item of the last turn.\<close>

lemma hist_write:
  assumes h: "clog_hist l H" and i: "(p, c) \<in> set (items_from 0 H)" "tail_cell l \<le> p + length (cl_data l)"
    and d: "length d = length (cl_data l)"
      "\<forall>q. (\<forall>i. 0 < i \<longrightarrow> i < c \<longrightarrow> (p + i) mod length (cl_data l) \<noteq> q) \<longrightarrow> d ! q = cl_data l ! q"
  shows "clog_hist (l\<lparr>cl_data := d\<rparr>) H"
proof -
  let ?N = "length (cl_data l)"
  obtain es cs where e: "H = es @ cs" "clog_ok l cs" "head_cell l = sum_list es" "\<forall>c \<in> set H. 0 < c"
    using h by (auto simp: clog_hist_def)
  have ch: "chain (cl_data l) (head_cell l) cs" "tail_cell l < head_cell l + ?N"
    using e(2) by (auto simp: clog_ok_def)
  have "d ! (q mod ?N) = cl_data l ! (q mod ?N)" if q: "(q, x) \<in> set (items_from (head_cell l) cs)" for q x
  proof -
    have qH: "(q, x) \<in> set (items_from 0 H)" using q e(1,3) by (simp add: items_from_app)
    have b: "head_cell l \<le> q" "q + x \<le> tail_cell l" "0 < x"
      using items_from_bounds [OF q] hist_item [OF h qH] by auto
    have "(p + i) mod ?N \<noteq> q mod ?N" if "0 < i" "i < c" for i
    proof (rule hist_mod_neq)
      show "p + i < q + ?N" using hist_item(1) [OF h i(1)] ch(2) b(1) that by linarith
      show "q < p + i + ?N" using i(2) b by linarith
      show "p + i \<noteq> q" using items_pair [OF i(1) qH] that b by auto
    qed
    then show ?thesis using d(2) by blast
  qed
  then have "chain d (head_cell l) cs" using chain_cong [OF ch(1) d(1)] by blast
  then have "clog_ok (l\<lparr>cl_data := d\<rparr>) cs"
    using e(2) d(1) by (simp add: clog_ok_def) (simp add: head_cell_def tail_cell_def)
  then show ?thesis using e(1,3,4) unfolding clog_hist_def by (auto simp: head_cell_def)
qed

section \<open>Items in the log\<close>

definition kv_of :: "u64 list \<Rightarrow> u64 list \<Rightarrow> u32" where
  "kv_of key value = make_kv_length_vec (ucast (byte_len key)) (ucast (byte_len value))"

text \<open>The lengths for which the code's assertions hold and an item fits the log.\<close>

definition kv_fits :: "circular_log \<Rightarrow> u64 list \<Rightarrow> u64 list \<Rightarrow> bool" where
  "kv_fits l key value \<longleftrightarrow>
     length key \<le> 31 \<and> length value \<le> 131071 \<and> 3 + length key + length value < length (cl_data l)"

definition item_words :: "circular_log \<Rightarrow> nat \<Rightarrow> nat \<Rightarrow> u64 list" where
  "item_words l p n = map (\<lambda>i. word_at l (p + 1 + i)) [0..<n]"

definition holds :: "circular_log \<Rightarrow> nat \<Rightarrow> u64 \<Rightarrow> u64 list \<Rightarrow> u64 list \<Rightarrow> bool" where
  "holds l p h key value \<longleftrightarrow>
     (\<exists>w. item_words l p (2 + length key + length value) = w # h # key @ value \<and> ucast w = kv_of key value)"

lemma kv_fields:
  assumes "length key \<le> 31" "length value \<le> 131071"
  shows "unat (get_key_length (kv_of key value)) = 8 * length key"
    "unat (get_value_length (kv_of key value)) = 8 * length value"
proof -
  define a b where "a = (ucast (byte_len key) :: u32)" and "b = (ucast (byte_len value) :: u32)"
  have ab: "unat a = 8 * length key" "unat b = 8 * length value"
    using assms by (simp_all add: a_def b_def byte_len_def unat_ucast_mod unat_of_nat del: of_nat_mult)
  have "unat b < 2 ^ 24" "unat a < 2 ^ 8" using ab assms by simp_all
  then have "b AND mask 24 = b" "a AND mask 8 = a"
    by (simp_all add: word_unat_eq_iff unat_and_mask)
  then have hi: "24 \<le> k \<Longrightarrow> \<not> bit b k" "8 \<le> k \<Longrightarrow> \<not> bit a k" for k
    by (metis bit_and_iff bit_mask_iff not_less)+
  have kv: "kv_of key value = push_bit 24 a OR b" by (simp add: kv_of_def make_kv_length_vec_def a_def b_def)
  have "drop_bit 24 (push_bit 24 a OR b) = a"
    by (rule bit_word_eqI) (use hi in \<open>auto simp: bit_simps not_le [symmetric]\<close>)
  then show "unat (get_key_length (kv_of key value)) = 8 * length key"
    by (simp add: get_key_length_def kv ab)
  have "(push_bit 24 a OR b) AND mask 24 = b"
    by (rule bit_word_eqI) (use hi in \<open>auto simp: bit_simps not_le [symmetric]\<close>)
  then show "unat (get_value_length (kv_of key value)) = 8 * length value"
    by (simp only: get_value_length_def kv ab kValueMask_def two_power_minus_one_mask)
qed

lemma byte_len_unat: "length ws \<le> 2 ^ 38 \<Longrightarrow> unat (byte_len ws) = 8 * length ws"
  unfolding byte_len_def by (rule unat_cells_word)

lemma value_word_eq:
  assumes "unat n = 8 * k" "k \<le> 2 ^ 38"
  shows "value_word n = 2 + k"
proof -
  have "unat (roundup (2 ^ 3) n) = (unat n + (2 ^ 3 - 1)) div 2 ^ 3 * 2 ^ 3"
    by (rule roundup_unat) (use assms in simp_all)
  also have "\<dots> = 8 * k" unfolding assms(1) by simp
  finally show ?thesis by (simp add: value_word_def)
qed

lemma clog_read_at:
  assumes "clog_shape l" "8 * p < 2 ^ 64" "Suc k < length (cl_data l)" "k < 200000"
  shows "clog_read (offset_at p) k l = Some (word_at l (p + 1 + k))"
  using data_cell_eq [OF assms(1-3)] assms(4) by (simp add: clog_read_def word_at_def kWrapAroundSize_def)

text \<open>Even a stale offset can be read.\<close>

lemma clog_read_total:
  assumes "clog_shape l" "k < 200000"
  shows "\<exists>w. clog_read off k l = Some w"
proof -
  have "size_cell off l < length (cl_data l)"
    unfolding size_cell_eq [OF assms(1)] using clog_shape_size(2) [OF assms(1)] by (intro mod_less_divisor) linarith
  then show ?thesis
    using assms(2) by (auto simp: clog_read_def data_cell_def Let_def kWrapAroundSize_def)
qed

lemma pool_read_words_total:
  assumes "clog_shape l" "k + n \<le> 200000"
  shows "\<exists>ws. pool_read_words off k n (CircularLog l) = Some ws"
  using assms(2)
proof (induction n arbitrary: k)
  case (Suc n)
  then obtain ws where "pool_read_words off (Suc k) n (CircularLog l) = Some ws" by fastforce
  then show ?case using clog_read_total [OF assms(1), of k off] Suc.prems by auto
qed simp

lemma item_words_nth: "i < n \<Longrightarrow> item_words l p n ! i = word_at l (p + 1 + i)"
  by (simp add: item_words_def)

lemma pool_read_words_at:
  assumes "clog_shape l" "8 * p < 2 ^ 64" "k + n < length (cl_data l)" "k + n < 200000"
  shows "pool_read_words (offset_at p) k n (CircularLog l) = Some (take n (drop k (item_words l p (k + n))))"
  using assms(3,4)
proof (induction n arbitrary: k)
  case (Suc n)
  have "clog_read (offset_at p) k l = Some (word_at l (p + 1 + k))"
    using clog_read_at [OF assms(1,2), of k] Suc.prems by simp
  moreover have "pool_read_words (offset_at p) (Suc k) n (CircularLog l)
      = Some (take n (drop (Suc k) (item_words l p (Suc k + n))))"
    using Suc.IH [of "Suc k"] Suc.prems by simp
  ultimately show ?case
    using Cons_nth_drop_Suc [of k "item_words l p (k + Suc n)"]
    by (auto simp: item_words_nth) (simp add: item_words_def Cons_nth_drop_Suc [symmetric])
qed simp

lemma pool_write_words_log:
  "pool_write_words off k ws (CircularLog l) = map_option CircularLog (clog_write_words off k ws l)"
proof (induction ws arbitrary: k l)
  case (Cons w ws)
  then show ?case by (cases "clog_write off k w l") simp_all
qed simp

lemma pool_write_words_append:
  "pool_write_words off k (as @ bs) =
     (\<lambda>p. pool_write_words off k as p \<bind> pool_write_words off (k + length as) bs)"
proof
  show "pool_write_words off k (as @ bs) p
      = pool_write_words off k as p \<bind> pool_write_words off (k + length as) bs" for p
  proof (induction as arbitrary: k p)
    case (Cons a as)
    then show ?case by (cases "pool_write off k a p") simp_all
  qed simp
qed

lemma pool_write_words_Cons:
  "pool_write_words off k (w # ws) = (\<lambda>p. pool_write off k w p \<bind> pool_write_words off (Suc k) ws)"
  by (simp add: fun_eq_iff)

lemma item_words_eqI:
  assumes "length ws = n" "\<forall>i<n. word_at l (p + 1 + i) = ws ! i"
  shows "item_words l p n = ws"
  using assms by (auto simp: item_words_def intro: nth_equalityI)

definition kv_word :: "u64 \<Rightarrow> u32 \<Rightarrow> u64" where "kv_word w kv = w AND NOT (mask 32) OR ucast kv"

lemma ucast_kv_word: "ucast (kv_word w kv) = kv"
  unfolding kv_word_def by (rule bit_word_eqI) (auto simp: bit_simps)

lemma set_item_words:
  assumes "length key \<le> 31"
  shows "set_item off h key value p =
    do { w \<leftarrow> pool_read off 0 p; pool_write_words off 0 (kv_word w (kv_of key value) # h # key @ value) p }"
proof -
  have "value_word (byte_len key) = 2 + length key"
    using assms by (intro value_word_eq byte_len_unat) simp_all
  then show ?thesis
    by (cases "pool_read off 0 p")
      (simp_all add: set_item_def set_kv_length_vec_def kv_of_def kv_word_def pool_write_words_append
        pool_write_words_Cons numeral_2_eq_2)
qed

text \<open>The cells of the words of an item at position \<open>p\<close>, and a change of only them.\<close>

definition changes_words :: "circular_log \<Rightarrow> u64 list \<Rightarrow> nat \<Rightarrow> nat \<Rightarrow> bool" where
  "changes_words l d p n \<longleftrightarrow> length d = length (cl_data l)
     \<and> (\<forall>q. (\<forall>i<n. (p + 1 + i) mod length (cl_data l) \<noteq> q) \<longrightarrow> d ! q = cl_data l ! q)"

lemma set_item_log:
  assumes sh: "clog_shape l" and p: "8 * p < 2 ^ 64" and f: "kv_fits l key value"
  shows "\<exists>d. set_item (offset_at p) h key value (CircularLog l) = Some (CircularLog (l\<lparr>cl_data := d\<rparr>))
    \<and> changes_words l d p (2 + length key + length value) \<and> holds (l\<lparr>cl_data := d\<rparr>) p h key value"
proof -
  have k: "length key \<le> 31" "length value \<le> 131071" "3 + length key + length value < length (cl_data l)"
    using f by (auto simp: kv_fits_def)
  obtain w where w: "clog_read (offset_at p) 0 l = Some w" using clog_read_total [OF sh, of 0] by auto
  let ?ws = "kv_word w (kv_of key value) # h # key @ value"
  obtain d where d: "clog_write_words (offset_at p) 0 ?ws l = Some (l\<lparr>cl_data := d\<rparr>)"
    "length d = length (cl_data l)"
    "\<forall>i<length ?ws. d ! ((p + 1 + 0 + i) mod length d) = ?ws ! i"
    "\<forall>j. (\<forall>i<length ?ws. (p + 1 + 0 + i) mod length d \<noteq> j) \<longrightarrow> d ! j = cl_data l ! j"
    using Circular_Log.write_words_ok [OF sh p, of 0 ?ws] k by (auto simp: kWrapAroundSize_def)
  have "item_words (l\<lparr>cl_data := d\<rparr>) p (2 + length key + length value) = ?ws"
    using d(3) by (intro item_words_eqI) (simp_all add: word_at_def)
  then have "holds (l\<lparr>cl_data := d\<rparr>) p h key value" unfolding holds_def using ucast_kv_word by blast
  then show ?thesis
    using d k(1) w by (intro exI [of _ d]) (simp add: set_item_words pool_write_words_log changes_words_def)
qed

lemma kv_read:
  assumes "clog_shape l" "8 * p < 2 ^ 64" "kv_fits l key value" "holds l p h key value"
  shows "item_kv_length_vec (offset_at p) (CircularLog l) = Some (kv_of key value)"
    "item_key_hash (offset_at p) (CircularLog l) = Some h"
    "pool_read_words (offset_at p) 2 (length key) (CircularLog l) = Some key"
    "n \<le> length value \<Longrightarrow>
       pool_read_words (offset_at p) (2 + length key) n (CircularLog l) = Some (take n value)"
proof -
  let ?n = "2 + length key + length value"
  obtain w where w: "item_words l p ?n = w # h # key @ value" "ucast w = kv_of key value"
    using assms(4) by (auto simp: holds_def)
  have b: "?n < length (cl_data l)" "?n < 200000" using assms(3) by (auto simp: kv_fits_def)
  have rd: "clog_read (offset_at p) i l = Some ((w # h # key @ value) ! i)" if "i < ?n" for i
    using clog_read_at [OF assms(1,2), of i] that b unfolding w(1) [symmetric] item_words_nth [OF that] by simp
  show "item_kv_length_vec (offset_at p) (CircularLog l) = Some (kv_of key value)"
    using rd [of 0] w(2) by (simp add: item_kv_length_vec_def)
  show "item_key_hash (offset_at p) (CircularLog l) = Some h"
    using rd [of 1] by (simp add: item_key_hash_def)
  have words: "item_words l p m = take m (w # h # key @ value)" if "m \<le> ?n" for m
    unfolding w(1) [symmetric] using that by (simp add: item_words_def take_map take_upt del: upt_Suc)
  show "pool_read_words (offset_at p) 2 (length key) (CircularLog l) = Some key"
    using pool_read_words_at [OF assms(1,2), of 2 "length key"] b words [of "2 + length key"] by simp
  show "pool_read_words (offset_at p) (2 + length key) n (CircularLog l) = Some (take n value)"
    if "n \<le> length value"
    using pool_read_words_at [OF assms(1,2), of "2 + length key" n] b words [of "2 + length key + n"] that
    by simp
qed

lemma set_item_value_log:
  assumes sh: "clog_shape l" and p: "8 * p < 2 ^ 64" and f: "kv_fits l key old" "kv_fits l key value"
    and hd: "holds l p h key old"
  shows "\<exists>d. set_item_value (offset_at p) value (CircularLog l) = Some (CircularLog (l\<lparr>cl_data := d\<rparr>))
    \<and> changes_words l d p (2 + length key + length value) \<and> holds (l\<lparr>cl_data := d\<rparr>) p h key value"
proof -
  let ?N = "length (cl_data l)" and ?n = "2 + length key + length value" and ?kv = "kv_of key value"
  have k: "length key \<le> 31" "length value \<le> 131071" "length old \<le> 131071" "3 + length key + length value < ?N"
      "3 + length key + length old < ?N"
    using f by (auto simp: kv_fits_def)
  note kvr = kv_read [OF sh p f(1) hd]
  note kf = kv_fields(1) [OF k(1,3)]
  obtain w0 where w0: "clog_read (offset_at p) 0 l = Some w0" using clog_read_total [OF sh, of 0] by auto
  have vw: "value_word (ucast (get_key_length (kv_of key old))) = 2 + length key"
    using kf k(1) by (intro value_word_eq) (simp_all add: unat_ucast_mod)
  have "unat (get_key_length (kv_of key old)) = unat (ucast (byte_len key) :: u32)"
    using kf byte_len_unat [of key] k(1) by (simp add: unat_ucast_mod)
  then have kl: "make_kv_length_vec (get_key_length (kv_of key old)) (ucast (byte_len value)) = ?kv"
    unfolding kv_of_def by (metis word_unat_eq_iff)
  let ?w = "kv_word w0 ?kv"
  let ?l1 = "l\<lparr>cl_data := (cl_data l)[(p + 1) mod ?N := ?w]\<rparr>"
  have "data_cell (offset_at p) 0 l = Some ((p + 1 + 0) mod ?N)"
    by (rule data_cell_eq [OF sh p]) (use k in \<open>simp_all add: kWrapAroundSize_def\<close>)
  then have s1: "clog_write (offset_at p) 0 ?w l = Some ?l1" by (simp add: clog_write_def)
  obtain d where d: "clog_write_words (offset_at p) (2 + length key) value ?l1 = Some (?l1\<lparr>cl_data := d\<rparr>)"
    "length d = ?N" "\<forall>i<length value. d ! ((p + 1 + (2 + length key) + i) mod ?N) = value ! i"
    "\<forall>j. (\<forall>i<length value. (p + 1 + (2 + length key) + i) mod ?N \<noteq> j) \<longrightarrow> d ! j = (cl_data l)[(p + 1) mod ?N := ?w] ! j"
    using Circular_Log.write_words_ok [of ?l1 p "2 + length key" "value"] sh p k by (auto simp: kWrapAroundSize_def)
  have N: "(p + 1) mod ?N < ?N" using k(4) by (intro mod_less_divisor) linarith
  have call: "set_item_value (offset_at p) value (CircularLog l) = Some (CircularLog (l\<lparr>cl_data := d\<rparr>))"
    using kvr(1) w0 s1 d(1) by (simp add: set_item_value_def set_kv_length_vec_def kl vw Let_def pool_write_words_log
        kv_word_def [symmetric])
  have out: "d ! ((p + 1 + i) mod ?N) = (if i = 0 then ?w else cl_data l ! ((p + 1 + i) mod ?N))"
    if i: "i < 2 + length key" for i
  proof -
    have "(p + 1 + (2 + length key) + j) mod ?N \<noteq> (p + 1 + i) mod ?N" if "j < length value" for j
      using i that k(4) by (intro hist_mod_neq) simp_all
    moreover have "(p + 1) mod ?N \<noteq> (p + 1 + i) mod ?N" if "i \<noteq> 0"
      using i that k(4) by (intro hist_mod_neq) simp_all
    ultimately show ?thesis using d(4) N by (cases "i = 0") auto
  qed
  obtain w where w: "item_words l p (2 + length key + length old) = w # h # key @ old"
    using hd by (auto simp: holds_def)
  have old: "cl_data l ! ((p + 1 + i) mod ?N) = (w # h # key @ old) ! i" if "i < 2 + length key" for i
    using that item_words_nth [of i "2 + length key + length old" l p] unfolding w word_at_def by simp
  have "item_words (l\<lparr>cl_data := d\<rparr>) p ?n = ?w # h # key @ value"
  proof (rule nth_equalityI)
    fix i assume "i < length (item_words (l\<lparr>cl_data := d\<rparr>) p ?n)"
    then have i: "i < ?n" by (simp add: item_words_def)
    have e: "item_words (l\<lparr>cl_data := d\<rparr>) p ?n ! i = d ! ((p + 1 + i) mod ?N)"
      using item_words_nth [OF i, of "l\<lparr>cl_data := d\<rparr>" p] d(2) by (simp add: word_at_def)
    show "item_words (l\<lparr>cl_data := d\<rparr>) p ?n ! i = (?w # h # key @ value) ! i"
    proof (cases "i < 2 + length key")
      case True
      then show ?thesis unfolding e out [OF True]
        using old [OF True] by (cases i) (auto simp: nth_append nth_Cons split: nat.splits)
    next
      case False
      then obtain j where j: "i = 2 + length key + j" "j < length value" using i by (metis add_less_cancel_left le_Suc_ex not_less)
      then have "d ! ((p + 1 + i) mod ?N) = value ! j" using d(3) by (metis add.assoc)
      then show ?thesis unfolding e by (simp add: j(1) nth_append)
    qed
  qed (simp add: item_words_def)
  then have "holds (l\<lparr>cl_data := d\<rparr>) p h key value" unfolding holds_def using ucast_kv_word by blast
  moreover have "d ! q = cl_data l ! q" if q: "\<forall>i<?n. (p + 1 + i) mod ?N \<noteq> q" for q
  proof -
    have "(p + 1) mod ?N \<noteq> q" using q by force
    moreover have "\<forall>j<length value. (p + 1 + (2 + length key) + j) mod ?N \<noteq> q"
    proof (intro allI impI)
      fix j assume "j < length value"
      then show "(p + 1 + (2 + length key) + j) mod ?N \<noteq> q" using q [rule_format, of "2 + length key + j"] by (simp add: add.assoc)
    qed
    ultimately show ?thesis using d(4) by simp
  qed
  ultimately show ?thesis using call d(2) by (auto simp: changes_words_def)
qed

end
