(* ===== verification/Lossy_Inv.thy ===== *)
theory Lossy_Inv
  imports Log_Items
begin

text \<open>
  The invariant of the lossy table, over its log and its item vectors, and the steps the
  operations are made of: appending, storing and clearing an item vector, writing the words
  of an item, forgetting a key.
\<close>

section \<open>The invariant of a lossy table\<close>

text \<open>
  \<open>2 ^ k\<close> buckets, a log \<open>l\<close> with the history \<open>H\<close>, and what the table should remember, \<open>M\<close>,
  a map from hash and key to value; the values of a key all have the length \<open>vl\<close> gives. An
  item vector belongs to an item of the history. If the log still has it, its words are those
  of a key whose hash has the tag and the bucket, and of the value the map has. The other
  items are not older than the last cleanup of the bucket: the buckets have been cleaned up
  to the tail \<open>T\<close>, one bucket for each \<open>2 ^ (47 - k)\<close> bytes.
\<close>

definition home :: "nat \<Rightarrow> u64 \<Rightarrow> nat" where
  "home k h = unat ((ucast (drop_bit 16 h) :: u32) AND mask k)"

definition slot_ok ::
  "nat \<Rightarrow> circular_log \<Rightarrow> nat list \<Rightarrow> nat \<Rightarrow> (u64 \<times> u64 list \<Rightarrow> nat)
     \<Rightarrow> (u64 \<times> u64 list \<Rightarrow> u64 list option) \<Rightarrow> nat \<Rightarrow> u64 \<Rightarrow> bool" where
  "slot_ok k l H T vl M b v \<longleftrightarrow> get_tag v \<noteq> 0 \<and>
     (\<exists>p c. (p, c) \<in> set (items_from 0 H) \<and> get_item_offset v = offset_at p \<and>
       (\<forall>j. j mod 2 ^ k = b \<longrightarrow> j < T div 2 ^ (47 - k) \<longrightarrow>
         (j + 1) * 2 ^ (47 - k) \<le> 8 * (p + length (cl_data l))) \<and>
       (tail_cell l \<le> p + length (cl_data l) \<longrightarrow>
         (\<exists>h key value. holds l p h key value \<and> kv_fits l key value \<and> c = 3 + length key + length value \<and>
            word_at l p = of_nat (8 * c) \<and> calc_tag h = get_tag v \<and> home k h = b \<and>
            M (h, key) = Some value \<and> length value = vl (h, key))))"

definition bucket_ok ::
  "nat \<Rightarrow> circular_log \<Rightarrow> nat list \<Rightarrow> nat \<Rightarrow> (u64 \<times> u64 list \<Rightarrow> nat)
     \<Rightarrow> (u64 \<times> u64 list \<Rightarrow> u64 list option) \<Rightarrow> nat \<Rightarrow> u64 list \<Rightarrow> bool" where
  "bucket_ok k l H T vl M b vs \<longleftrightarrow>
     (\<forall>v \<in> set vs. v \<noteq> 0 \<longrightarrow> slot_ok k l H T vl M b v) \<and>
     (\<forall>i<length vs. \<forall>j<length vs. vs ! i \<noteq> 0 \<longrightarrow> vs ! j \<noteq> 0 \<longrightarrow>
        get_tag (vs ! i) = get_tag (vs ! j) \<longrightarrow> i = j)"

definition lossy_ok ::
  "nat \<Rightarrow> circular_log \<Rightarrow> nat list \<Rightarrow> nat \<Rightarrow> (u64 \<times> u64 list \<Rightarrow> nat)
     \<Rightarrow> (u64 \<times> u64 list \<Rightarrow> u64 list option) \<Rightarrow> u64 list list \<Rightarrow> bool" where
  "lossy_ok k l H T vl M vss \<longleftrightarrow> clog_hist l H \<and> 1 \<le> k \<and> k \<le> 31 \<and> T \<le> 8 * tail_cell l \<and>
     2 ^ k \<le> length vss \<and> (\<forall>b<2 ^ k. bucket_ok k l H T vl M b (vss ! b))"

lemma home_less: "k \<le> 31 \<Longrightarrow> home k h < 2 ^ k"
  by (simp add: home_def unat_and_mask)

lemma item_vec_fields:
  "get_tag (make_item_vec tag (offset_at p)) = tag"
  "get_item_offset (make_item_vec tag (offset_at p)) = offset_at p"
proof -
  have o: "offset_at p = of_nat (8 * p) AND mask 48"
    by (simp only: offset_at_def kOffsetMask_def two_power_minus_one_mask)
  show "get_tag (make_item_vec tag (offset_at p)) = tag"
    unfolding get_tag_def make_item_vec_def o
    by (rule bit_word_eqI) (auto simp: bit_simps)
  show "get_item_offset (make_item_vec tag (offset_at p)) = offset_at p"
    unfolding get_item_offset_def make_item_vec_def o kItemOffsetMask_def two_power_minus_one_mask
    by (rule bit_word_eqI) (auto simp: bit_simps)
qed

lemma calc_tag_nonzero: "calc_tag h \<noteq> 0"
  by (simp add: calc_tag_def Let_def)

lemma make_item_vec_nonzero: "make_item_vec (calc_tag h) (offset_at p) \<noteq> 0"
  using item_vec_fields(1) [of "calc_tag h" p] calc_tag_nonzero [of h] by (auto simp: get_tag_def)

lemma holds_unique:
  assumes "holds l p h key value" "holds l p h' key' value'" "kv_fits l key value" "kv_fits l key' value'"
    "length key + length value = length key' + length value'"
  shows "h' = h \<and> key' = key \<and> value' = value"
proof -
  obtain w where w: "item_words l p (2 + length key + length value) = w # h # key @ value"
    "ucast w = kv_of key value"
    using assms(1) by (auto simp: holds_def)
  obtain w' where w': "item_words l p (2 + length key' + length value') = w' # h' # key' @ value'"
    "ucast w' = kv_of key' value'"
    using assms(2) by (auto simp: holds_def)
  have "2 + length key + length value = 2 + length key' + length value'" using assms(5) by simp
  then have eq: "w' # h' # key' @ value' = w # h # key @ value" using w(1) w'(1) by simp
  then have "kv_of key' value' = kv_of key value" using w(2) w'(2) by simp
  then have "8 * length key' = 8 * length key"
    using kv_fields(1) [of key "value"] kv_fields(1) [of key' value'] assms(3,4) by (simp add: kv_fits_def)
  then show ?thesis using eq by simp
qed

text \<open>The age of an item vector, and the meaning of \<^verbatim>\<open>is_valid\<close> for it.\<close>

lemma mod_in_window:
  fixes b n J :: nat
  assumes "b < n" "n \<le> J"
  shows "\<exists>j. j < J \<and> J \<le> j + n \<and> j mod n = b"
proof -
  let ?q = "(J - 1 - b) div n"
  have "J - 1 - b = n * ?q + (J - 1 - b) mod n" "(J - 1 - b) mod n < n" using assms by simp_all
  then have "b + n * ?q < J" "J \<le> b + n * ?q + n" using assms by linarith+
  moreover have "(b + n * ?q) mod n = b" using assms by simp
  ultimately show ?thesis by blast
qed

lemma slot_age:
  fixes T t p N k b :: nat
  assumes aged: "\<forall>j. j mod 2 ^ k = b \<longrightarrow> j < T div 2 ^ (47 - k) \<longrightarrow> (j + 1) * 2 ^ (47 - k) \<le> 8 * (p + N)"
    and b: "b < 2 ^ k" and k: "1 \<le> k" "k \<le> 31" and t: "8 * t \<le> T + 2 ^ 23" and N: "N \<le> 2 ^ 43"
  shows "t - p < 2 ^ 45"
proof -
  let ?W = "2 ^ (47 - k) :: nat" and ?n = "2 ^ k :: nat"
  define J where "J = T div ?W"
  have nW: "?n * ?W = 2 ^ 47" using k by (simp add: power_add [symmetric])
  have "T = J * ?W + T mod ?W" using div_mult_mod_eq [of T ?W] by (simp add: J_def)
  moreover have "T mod ?W < ?W" by simp
  ultimately have J: "T < (J + 1) * ?W" unfolding add_mult_distrib by linarith
  show ?thesis
  proof (cases "?n \<le> J")
    case True
    obtain j where j: "j < J" "J \<le> j + ?n" "j mod ?n = b" using mod_in_window [OF b True] by blast
    then have "(j + 1) * ?W \<le> 8 * (p + N)" using aged by (simp add: J_def)
    moreover have "J * ?W \<le> (j + ?n) * ?W" using j(2) by (rule mult_le_mono1)
    ultimately have "T < 8 * (p + N) + 2 ^ 47" using J nW by (simp add: algebra_simps)
    then show ?thesis using t N by simp
  next
    case False
    then have "(J + 1) * ?W \<le> ?n * ?W" by (intro mult_le_mono1) simp
    then show ?thesis using J nW t by simp
  qed
qed

text \<open>Words of the window that an operation leaves alone are the same words of items.\<close>

lemma holds_cong:
  assumes "\<forall>q. p < q \<longrightarrow> q < p + (3 + length key + length value) \<longrightarrow> word_at l' q = word_at l q"
  shows "holds l' p h key value = holds l p h key value"
proof -
  have "item_words l' p (2 + length key + length value) = item_words l p (2 + length key + length value)"
    unfolding item_words_def using assms by (intro map_cong) auto
  then show ?thesis by (simp only: holds_def)
qed

text \<open>What a valid item vector stands for.\<close>

definition stands_for :: "circular_log \<Rightarrow> nat list \<Rightarrow> u64 \<Rightarrow> nat \<Rightarrow> u64 \<Rightarrow> u64 list \<Rightarrow> u64 list \<Rightarrow> bool" where
  "stands_for l H v p h key value \<longleftrightarrow> (p, 3 + length key + length value) \<in> set (items_from 0 H) \<and>
     get_item_offset v = offset_at p \<and> tail_cell l \<le> p + length (cl_data l) \<and>
     holds l p h key value \<and> kv_fits l key value"

lemma slot_ok_cong:
  assumes s: "slot_ok k l H T vl M b v" and H: "set (items_from 0 H) \<subseteq> set (items_from 0 H')"
    and N: "length (cl_data l') = length (cl_data l)" and t: "tail_cell l \<le> tail_cell l'"
    and keep: "\<And>p h key value q. stands_for l H v p h key value \<Longrightarrow> tail_cell l' \<le> p + length (cl_data l) \<Longrightarrow>
      p \<le> q \<Longrightarrow> q < p + (3 + length key + length value) \<Longrightarrow> word_at l' q = word_at l q"
    and M: "\<And>p h key value. stands_for l H v p h key value \<Longrightarrow> calc_tag h = get_tag v \<Longrightarrow> home k h = b \<Longrightarrow>
      M' (h, key) = M (h, key)"
  shows "slot_ok k l' H' T vl M' b v"
proof -
  obtain p c where p: "get_tag v \<noteq> 0" "(p, c) \<in> set (items_from 0 H)" "get_item_offset v = offset_at p"
    "\<forall>j. j mod 2 ^ k = b \<longrightarrow> j < T div 2 ^ (47 - k) \<longrightarrow> (j + 1) * 2 ^ (47 - k) \<le> 8 * (p + length (cl_data l))"
    "tail_cell l \<le> p + length (cl_data l) \<longrightarrow> (\<exists>h key value. holds l p h key value \<and> kv_fits l key value
      \<and> c = 3 + length key + length value \<and> word_at l p = of_nat (8 * c) \<and> calc_tag h = get_tag v
      \<and> home k h = b \<and> M (h, key) = Some value \<and> length value = vl (h, key))"
    using s unfolding slot_ok_def by blast
  have item: "\<exists>h key value. holds l' p h key value \<and> kv_fits l' key value
      \<and> c = 3 + length key + length value \<and> word_at l' p = of_nat (8 * c) \<and> calc_tag h = get_tag v
      \<and> home k h = b \<and> M' (h, key) = Some value \<and> length value = vl (h, key)"
    if v: "tail_cell l' \<le> p + length (cl_data l)"
  proof -
    obtain h key "value" where hk: "holds l p h key value" "kv_fits l key value" "c = 3 + length key + length value"
      "word_at l p = of_nat (8 * c)" "calc_tag h = get_tag v" "home k h = b" "M (h, key) = Some value"
      "length value = vl (h, key)"
      using p(5) v t by auto
    have st: "stands_for l H v p h key value"
      using p(2,3) hk v t unfolding stands_for_def by auto
    have w: "word_at l' q = word_at l q" if "p \<le> q" "q < p + c" for q
      using keep [OF st v] that hk(3) by simp
    have "holds l' p h key value" using holds_cong [of p key "value" l' l h] w hk(1,3) by auto
    moreover have "word_at l' p = word_at l p" using w [of p] hk(3) by simp
    moreover have "M' (h, key) = M (h, key)" using M [OF st hk(5,6)] .
    ultimately show ?thesis
      using hk N by (intro exI [of _ h] exI [of _ key] exI [of _ "value"] conjI) (simp_all add: kv_fits_def)
  qed
  show ?thesis
    unfolding slot_ok_def N
  proof (rule conjI [OF p(1)], rule exI [of _ p], rule exI [of _ c], intro conjI impI)
    show "(p, c) \<in> set (items_from 0 H')" "get_item_offset v = offset_at p"
      using p(2,3) H by auto
  qed (fact p(4), fact item)
qed

text \<open>Appending to the log (and writing to the new item).\<close>

lemma lossy_appended:
  assumes ok: "lossy_ok k l H T vl M vss" and h: "clog_hist l' (H @ [c])" "length (cl_data l') = length (cl_data l)"
    and keep: "\<forall>q<tail_cell l. tail_cell l' \<le> q + length (cl_data l) \<longrightarrow> word_at l' q = word_at l q"
  shows "lossy_ok k l' (H @ [c]) T vl M vss"
proof -
  have hl: "clog_hist l H" using ok by (simp add: lossy_ok_def)
  have t: "tail_cell l' = tail_cell l + c" using hist_tail [OF h(1)] hist_tail [OF hl] by simp
  have slot: "slot_ok k l' (H @ [c]) T vl M b v" if s: "slot_ok k l H T vl M b v" for b v
  proof (rule slot_ok_cong [OF s])
    show "set (items_from 0 H) \<subseteq> set (items_from 0 (H @ [c]))" by (auto simp: items_from_append)
    show "word_at l' q = word_at l q" if "stands_for l H v p h key value"
      "tail_cell l' \<le> p + length (cl_data l)" "p \<le> q" "q < p + (3 + length key + length value)"
      for p h key "value" q
    proof -
      have "p + (3 + length key + length value) \<le> tail_cell l"
        using that(1) hist_item(1) [OF hl] by (simp add: stands_for_def)
      then show ?thesis using keep that(2-4) by simp
    qed
  qed (use h(2) t in simp_all)
  show ?thesis
    using ok h(1) t slot unfolding lossy_ok_def bucket_ok_def by (auto intro: le_trans)
qed

lemma stands_for_position:
  assumes hl: "clog_hist l H" and "stands_for l H v p h key value" "get_item_offset v = offset_at q"
    "tail_cell l \<le> q + length (cl_data l)" "q \<le> tail_cell l"
  shows "q = p"
proof (rule offset_at_inj)
  have N: "length (cl_data l) \<le> 2 ^ 43" using clog_shape_size(3) [OF hist_shape [OF hl]] .
  have p: "p + (3 + length key + length value) \<le> tail_cell l" "tail_cell l \<le> p + length (cl_data l)"
    using assms(2) hist_item(1) [OF hl] by (auto simp: stands_for_def)
  show "offset_at q = offset_at p" using assms(2,3) by (simp add: stands_for_def)
  show "8 * q < 2 ^ 64" using hist_bound [OF hl assms(5)] .
  show "8 * p < 2 ^ 64" using hist_bound [OF hl, of p] p by simp
  show "q < p + 2 ^ 45" "p < q + 2 ^ 45"
    using p assms(4,5) N by simp_all
qed

lemma lossy_okD:
  assumes "lossy_ok k l H T vl M vss"
  shows "clog_hist l H" "1 \<le> k" "k \<le> 31" "T \<le> 8 * tail_cell l" "2 ^ k \<le> length vss"
    "b < 2 ^ k \<Longrightarrow> bucket_ok k l H T vl M b (vss ! b)"
  using assms by (auto simp: lossy_ok_def)

lemma slot_position:
  assumes ok: "lossy_ok k l H T vl M vss" and s: "slot_ok k l H T vl M b v" and b: "b < 2 ^ k"
    and t: "8 * tail_cell l \<le> T + 2 ^ 23"
  shows "\<exists>p c. (p, c) \<in> set (items_from 0 H) \<and> get_item_offset v = offset_at p
    \<and> (\<forall>j. j mod 2 ^ k = b \<longrightarrow> j < T div 2 ^ (47 - k) \<longrightarrow> (j + 1) * 2 ^ (47 - k) \<le> 8 * (p + length (cl_data l)))
    \<and> (clog_is_valid (get_item_offset v) l \<longleftrightarrow> tail_cell l \<le> p + length (cl_data l))
    \<and> (tail_cell l \<le> p + length (cl_data l) \<longrightarrow> (\<exists>h key value. stands_for l H v p h key value
      \<and> word_at l p = of_nat (8 * (3 + length key + length value)) \<and> calc_tag h = get_tag v
      \<and> home k h = b \<and> M (h, key) = Some value \<and> length value = vl (h, key)))"
proof -
  note D = lossy_okD [OF ok]
  obtain p c where p: "(p, c) \<in> set (items_from 0 H)" "get_item_offset v = offset_at p"
    "\<forall>j. j mod 2 ^ k = b \<longrightarrow> j < T div 2 ^ (47 - k) \<longrightarrow> (j + 1) * 2 ^ (47 - k) \<le> 8 * (p + length (cl_data l))"
    "tail_cell l \<le> p + length (cl_data l) \<longrightarrow> (\<exists>h key value. holds l p h key value \<and> kv_fits l key value
      \<and> c = 3 + length key + length value \<and> word_at l p = of_nat (8 * c) \<and> calc_tag h = get_tag v
      \<and> home k h = b \<and> M (h, key) = Some value \<and> length value = vl (h, key))"
    using s unfolding slot_ok_def by blast
  have age: "tail_cell l - p < 2 ^ 45"
    using slot_age [OF p(3) b D(2,3) t] clog_shape_size(3) [OF hist_shape [OF D(1)]] by simp
  have le: "p \<le> tail_cell l" using hist_item(1) [OF D(1) p(1)] by simp
  obtain cs where cs: "clog_ok l cs" using D(1) by (auto simp: clog_hist_def)
  note valid = is_valid_iff [OF cs le age, folded p(2)]
  have "\<exists>h key value. stands_for l H v p h key value
      \<and> word_at l p = of_nat (8 * (3 + length key + length value)) \<and> calc_tag h = get_tag v
      \<and> home k h = b \<and> M (h, key) = Some value \<and> length value = vl (h, key)"
    if "tail_cell l \<le> p + length (cl_data l)"
    using p(4) that p(1,2) unfolding stands_for_def by blast
  then show ?thesis using p(1,2,3) valid by blast
qed

lemma valid_slot:
  assumes "lossy_ok k l H T vl M vss" "slot_ok k l H T vl M b v" "b < 2 ^ k"
    "8 * tail_cell l \<le> T + 2 ^ 23" "clog_is_valid (get_item_offset v) l"
  obtains p h key "value" where "stands_for l H v p h key value"
    "word_at l p = of_nat (8 * (3 + length key + length value))" "calc_tag h = get_tag v"
    "home k h = b" "M (h, key) = Some value" "length value = vl (h, key)"
  using slot_position [OF assms(1-4)] assms(5) by blast

lemma stands_for_unique:
  assumes hl: "clog_hist l H" and a: "stands_for l H v p h key value" "stands_for l H v' p h' key' value'"
  shows "h' = h \<and> key' = key \<and> value' = value"
proof -
  have "(p, 3 + length key + length value) = (p, 3 + length key' + length value')"
    using items_pair [of p "3 + length key + length value" 0 H p "3 + length key' + length value'"] a
    by (auto simp: stands_for_def)
  then show ?thesis using holds_unique [of l p h key "value" h' key' value'] a by (auto simp: stands_for_def)
qed

text \<open>Changes of one place.\<close>

lemma lossy_update:
  assumes ok: "lossy_ok k l H T vl M vss" and b: "b < 2 ^ k" and k: "bucket_ok k l H T vl M' b vs"
    and others: "\<And>b' v. b' < 2 ^ k \<Longrightarrow> b' \<noteq> b \<Longrightarrow> slot_ok k l H T vl M b' v \<Longrightarrow> slot_ok k l H T vl M' b' v"
  shows "lossy_ok k l H T vl M' (vss[b := vs])"
proof -
  have "bucket_ok k l H T vl M' b' (vss[b := vs] ! b')" if "b' < 2 ^ k" for b'
  proof (cases "b' = b")
    case True
    then show ?thesis using k that lossy_okD(5) [OF ok] by simp
  next
    case False
    then show ?thesis
      using lossy_okD(6) [OF ok that] others [OF that False] by (auto simp: bucket_ok_def)
  qed
  then show ?thesis using ok by (simp add: lossy_ok_def)
qed

lemma lossy_drop:
  assumes ok: "lossy_ok k l H T vl M vss" and b: "b < 2 ^ k"
    and vs: "length vs = length (vss ! b)" "\<forall>i<length vs. vs ! i \<noteq> 0 \<longrightarrow> vs ! i = vss ! b ! i"
  shows "lossy_ok k l H T vl M (vss[b := vs])"
proof (rule lossy_update [OF ok b])
  have k: "bucket_ok k l H T vl M b (vss ! b)" using lossy_okD(6) [OF ok b] .
  have "slot_ok k l H T vl M b v" if v: "v \<in> set vs" "v \<noteq> 0" for v
  proof -
    obtain i where i: "i < length vs" "v = vs ! i" using v(1) by (auto simp: in_set_conv_nth)
    then have "v \<in> set (vss ! b)" using v(2) vs nth_mem [of i "vss ! b"] by simp
    then show ?thesis using k v(2) by (simp add: bucket_ok_def)
  qed
  then show "bucket_ok k l H T vl M b vs" using k vs unfolding bucket_ok_def by metis
qed

lemma lossy_clear:
  assumes "lossy_ok k l H T vl M vss" "b < 2 ^ k"
  shows "lossy_ok k l H T vl M (vss[b := (vss ! b)[i := 0]])"
proof (rule lossy_drop [OF assms])
  show "\<forall>x<length ((vss ! b)[i := 0]). (vss ! b)[i := 0] ! x \<noteq> 0 \<longrightarrow> (vss ! b)[i := 0] ! x = vss ! b ! x"
  proof (intro allI impI)
    fix x assume "x < length ((vss ! b)[i := 0])" "(vss ! b)[i := 0] ! x \<noteq> 0"
    then show "(vss ! b)[i := 0] ! x = vss ! b ! x" by (cases "x = i") auto
  qed
qed simp

lemma lossy_store:
  assumes ok: "lossy_ok k l H T vl M vss" and s: "stands_for l H v p h key value"
    and w: "word_at l p = of_nat (8 * (3 + length key + length value))" "get_tag v = calc_tag h"
      "length value = vl (h, key)"
    and b: "b = home k h" "i < length (vss ! b)"
    and tags: "\<forall>j<length (vss ! b). j \<noteq> i \<longrightarrow> vss ! b ! j \<noteq> 0 \<longrightarrow> get_tag (vss ! b ! j) \<noteq> calc_tag h"
  shows "lossy_ok k l H T vl (M((h, key) \<mapsto> value)) (vss[b := (vss ! b)[i := v]])"
proof (rule lossy_update [OF ok])
  note D = lossy_okD [OF ok]
  let ?M = "M((h, key) \<mapsto> value)" and ?vs = "(vss ! b)[i := v]"
  show b2: "b < 2 ^ k" using home_less [OF D(3)] b(1) by simp
  have keep: "slot_ok k l H T vl ?M b' u"
    if s: "slot_ok k l H T vl M b' u" and ne: "b' \<noteq> b \<or> get_tag u \<noteq> calc_tag h" for b' u
    by (rule slot_ok_cong [OF s]) (use ne b(1) in auto)
  then show "slot_ok k l H T vl ?M b' u" if "b' \<noteq> b" "slot_ok k l H T vl M b' u" for b' u
    using that by blast
  have new: "slot_ok k l H T vl ?M b v"
    unfolding slot_ok_def
  proof (rule conjI, simp add: w(2) calc_tag_nonzero, rule exI [of _ p],
      rule exI [of _ "3 + length key + length value"], intro conjI allI impI)
    fix j assume "j < T div 2 ^ (47 - k)"
    then have "(j + 1) * 2 ^ (47 - k) \<le> T div 2 ^ (47 - k) * 2 ^ (47 - k)" by (intro mult_le_mono1) simp
    also have "\<dots> \<le> T" by simp
    finally show "(j + 1) * 2 ^ (47 - k) \<le> 8 * (p + length (cl_data l))"
      using D(4) s by (simp add: stands_for_def)
  next
    show "\<exists>h' key' value'. holds l p h' key' value' \<and> kv_fits l key' value'
      \<and> 3 + length key + length value = 3 + length key' + length value'
      \<and> word_at l p = of_nat (8 * (3 + length key + length value)) \<and> calc_tag h' = get_tag v \<and> home k h' = b
      \<and> ?M (h', key') = Some value' \<and> length value' = vl (h', key')"
      using s w b(1) unfolding stands_for_def
      by (intro exI [of _ h] exI [of _ key] exI [of _ "value"] conjI) auto
  qed (use s in \<open>simp_all add: stands_for_def\<close>)
  have k: "bucket_ok k l H T vl M b (vss ! b)" using D(6) [OF b2] .
  have "slot_ok k l H T vl ?M b (?vs ! x)" if "x < length ?vs" "?vs ! x \<noteq> 0" for x
  proof (cases "x = i")
    case False
    then show ?thesis using that k tags by (intro keep) (auto simp: bucket_ok_def)
  qed (use new b(2) in simp)
  moreover have "x = y" if "x < length ?vs" "y < length ?vs" "?vs ! x \<noteq> 0" "?vs ! y \<noteq> 0"
    "get_tag (?vs ! x) = get_tag (?vs ! y)" for x y
    using that k tags w(2) b(2) by (cases "x = i"; cases "y = i") (auto simp: bucket_ok_def)
  ultimately show "bucket_ok k l H T vl ?M b ?vs"
    unfolding bucket_ok_def by (metis in_set_conv_nth)
qed

lemma lossy_forget:
  assumes ok: "lossy_ok k l H T vl M vss"
    and none: "\<And>v p value. v \<in> set (vss ! home k h) \<Longrightarrow> v \<noteq> 0 \<Longrightarrow> get_tag v = calc_tag h \<Longrightarrow> \<not> stands_for l H v p h key value"
  shows "lossy_ok k l H T vl (M((h, key) := None)) vss"
proof -
  let ?M = "M((h, key) := None)"
  have "slot_ok k l H T vl ?M b v"
    if b: "b < 2 ^ k" and v: "v \<in> set (vss ! b)" "v \<noteq> 0" and s: "slot_ok k l H T vl M b v" for b v
  proof (rule slot_ok_cong [OF s])
    fix p h' key' and "value" :: "u64 list"
    assume "stands_for l H v p h' key' value" "calc_tag h' = get_tag v" "home k h' = b"
    then show "?M (h', key') = M (h', key')"
      using none [of v p "value"] v by auto
  qed simp_all
  then show ?thesis using ok by (auto simp: lossy_ok_def bucket_ok_def)
qed

lemma lossy_written:
  assumes ok: "lossy_ok k l H T vl M vss" and i: "(p, c) \<in> set (items_from 0 H)" "tail_cell l \<le> p + length (cl_data l)"
    and d: "changes_words l d p n" "n < c"
    and free: "\<And>b v h key value. b < 2 ^ k \<Longrightarrow> v \<in> set (vss ! b) \<Longrightarrow> v \<noteq> 0 \<Longrightarrow> \<not> stands_for l H v p h key value"
  shows "lossy_ok k (l\<lparr>cl_data := d\<rparr>) H T vl M vss"
proof -
  let ?l = "l\<lparr>cl_data := d\<rparr>" and ?N = "length (cl_data l)"
  note D = lossy_okD [OF ok]
  have len: "length d = ?N" using d(1) by (simp add: changes_words_def)
  have "d ! q = cl_data l ! q" if "\<forall>i. 0 < i \<longrightarrow> i < c \<longrightarrow> (p + i) mod ?N \<noteq> q" for q
  proof -
    have "(p + 1 + i) mod ?N \<noteq> q" if "i < n" for i
      using \<open>\<forall>i. _ i\<close> [rule_format, of "Suc i"] that d(2) by simp
    then show ?thesis using d(1) by (simp add: changes_words_def)
  qed
  then have h: "clog_hist ?l H" using hist_write [OF D(1) i len] by blast
  have pc: "p + c \<le> tail_cell l" using hist_item(1) [OF D(1) i(1)] .
  have tl: "tail_cell ?l = tail_cell l" by (simp add: tail_cell_def)
  have "slot_ok k ?l H T vl M b v"
    if b: "b < 2 ^ k" and v: "v \<in> set (vss ! b)" "v \<noteq> 0" and s: "slot_ok k l H T vl M b v" for b v
  proof (rule slot_ok_cong [OF s])
    fix p' h' q and key' value' :: "u64 list"
    let ?c' = "3 + length key' + length value'"
    assume a: "stands_for l H v p' h' key' value'" "tail_cell ?l \<le> p' + ?N" "p' \<le> q" "q < p' + ?c'"
    then have a1: "(p', ?c') \<in> set (items_from 0 H)" by (simp add: stands_for_def)
    have "p' \<noteq> p" using free [OF b v] a(1) by blast
    then have "p' + ?c' \<le> p \<or> p + c \<le> p'" using items_pair [OF a1 i(1)] by auto
    moreover have "q < tail_cell l" using hist_item(1) [OF D(1) a1] a(4) by simp
    ultimately have "(p + 1 + j) mod ?N \<noteq> q mod ?N" if "j < n" for j
      using that a(2-4) d(2) pc i(2) unfolding tl by (intro hist_mod_neq) auto
    then show "word_at ?l q = word_at l q" using d(1) len by (simp add: changes_words_def word_at_def)
  qed (simp_all add: len tl)
  then show ?thesis using ok h tl by (auto simp: lossy_ok_def bucket_ok_def)
qed

lemma stands_for_le:
  "clog_hist l H \<Longrightarrow> stands_for l H v p h key value \<Longrightarrow> p + (3 + length key + length value) \<le> tail_cell l"
  using hist_item(1) by (simp add: stands_for_def)

lemma stands_for_valid:
  assumes "clog_hist l H" "stands_for l H v p h key value"
  shows "clog_is_valid (get_item_offset v) l"
proof -
  obtain cs where cs: "clog_ok l cs" using assms(1) by (auto simp: clog_hist_def)
  have p: "p \<le> tail_cell l" "tail_cell l \<le> p + length (cl_data l)" "get_item_offset v = offset_at p"
    using assms(2) stands_for_le [OF assms] by (auto simp: stands_for_def)
  have "tail_cell l - p < 2 ^ 45"
    using p clog_shape_size(3) [OF hist_shape [OF assms(1)]] by simp
  then show ?thesis using is_valid_iff [OF cs p(1)] p by simp
qed

lemma stands_slot:
  assumes ok: "lossy_ok k l H T vl M vss" "slot_ok k l H T vl M b v" "b < 2 ^ k" "8 * tail_cell l \<le> T + 2 ^ 23"
    and st: "stands_for l H v p h key value"
  shows "calc_tag h = get_tag v \<and> home k h = b \<and> M (h, key) = Some value
    \<and> word_at l p = of_nat (8 * (3 + length key + length value)) \<and> length value = vl (h, key)"
proof -
  note D = lossy_okD [OF ok(1)]
  obtain p' h' key' value' where s: "stands_for l H v p' h' key' value'"
    "word_at l p' = of_nat (8 * (3 + length key' + length value'))" "calc_tag h' = get_tag v"
    "home k h' = b" "M (h', key') = Some value'" "length value' = vl (h', key')"
    by (rule valid_slot [OF ok stands_for_valid [OF D(1) st]])
  have "p \<le> tail_cell l" using stands_for_le [OF D(1) st] by simp
  then have "p = p'"
    using stands_for_position [OF D(1) s(1), of p] st by (simp add: stands_for_def)
  then show ?thesis using stands_for_unique [OF D(1) st, of v h' key' value'] s by simp
qed

lemma lossy_rewrite:
  assumes ok: "lossy_ok k l H T vl M vss" "8 * tail_cell l \<le> T + 2 ^ 23"
    and st: "stands_for l H v p h key old" and len: "length value = length old"
    and v: "v = vss ! home k h ! i" "v \<noteq> 0" "i < length (vss ! home k h)"
    and d: "changes_words l d p (2 + length key + length value)" "holds (l\<lparr>cl_data := d\<rparr>) p h key value"
  shows "lossy_ok k (l\<lparr>cl_data := d\<rparr>) H T vl (M((h, key) \<mapsto> value)) vss"
proof -
  let ?b = "home k h" and ?l = "l\<lparr>cl_data := d\<rparr>" and ?N = "length (cl_data l)"
  note D = lossy_okD [OF ok(1)]
  have b: "?b < 2 ^ k" using home_less [OF D(3)] .
  have bl: "?b < length vss" using b D(5) by simp
  note bk = D(6) [OF b]
  have "slot_ok k l H T vl M ?b v" using bk v by (auto simp: bucket_ok_def)
  note sv = stands_slot [OF ok(1) this b ok(2) st]
  have it: "(p, 3 + length key + length value) \<in> set (items_from 0 H)" "tail_cell l \<le> p + ?N" "kv_fits l key value"
    "get_item_offset v = offset_at p"
    using st len by (auto simp: stands_for_def kv_fits_def)
  define vss0 where "vss0 = vss[?b := (vss ! ?b)[i := 0]]"
  have ok0: "lossy_ok k l H T vl M vss0" unfolding vss0_def by (rule lossy_clear [OF ok(1) b])
  have tags: "j = i" if "j < length (vss ! ?b)" "vss ! ?b ! j \<noteq> 0" "get_tag (vss ! ?b ! j) = calc_tag h" for j
    using bk that v sv unfolding bucket_ok_def by metis
  have "lossy_ok k ?l H T vl M vss0"
  proof (rule lossy_written [OF ok0 it(1,2) d(1)])
    fix b' u h' and key' value' :: "u64 list"
    assume u: "b' < 2 ^ k" "u \<in> set (vss0 ! b')" "u \<noteq> 0"
    show "\<not> stands_for l H u p h' key' value'"
    proof
      assume s: "stands_for l H u p h' key' value'"
      have "slot_ok k l H T vl M b' u" using lossy_okD(6) [OF ok0 u(1)] u by (auto simp: bucket_ok_def)
      note su = stands_slot [OF ok0 this u(1) ok(2) s]
      have "h' = h" using stands_for_unique [OF D(1) st s] by simp
      then have "b' = ?b" "get_tag u = calc_tag h" using su by simp_all
      then show False using u tags bl v(3) by (auto simp: vss0_def in_set_conv_nth nth_list_update split: if_splits)
    qed
  qed simp
  moreover have "stands_for ?l H v p h key value"
    using it d by (auto simp: stands_for_def kv_fits_def tail_cell_def changes_words_def)
  moreover have "word_at ?l p = of_nat (8 * (3 + length key + length value))"
  proof -
    have "(p + 1 + j) mod ?N \<noteq> p mod ?N" if "j < 2 + length key + length value" for j
      using that it(3) by (intro hist_mod_neq) (auto simp: kv_fits_def)
    then have "word_at ?l p = word_at l p" using d(1) by (simp add: changes_words_def word_at_def)
    then show ?thesis using sv len by simp
  qed
  ultimately have "lossy_ok k ?l H T vl (M((h, key) \<mapsto> value)) (vss0[?b := (vss0 ! ?b)[i := v]])"
    using sv len v(3) bl tags
    by (intro lossy_store) (auto simp: vss0_def nth_list_update)
  moreover have "vss0[?b := (vss0 ! ?b)[i := v]] = vss"
    using bl v(1) by (simp add: vss0_def)
  ultimately show ?thesis by simp
qed

lemma lossy_clean:
  assumes ok: "lossy_ok k l H T vl M vss" and T: "T \<le> T'" "T' \<le> 8 * tail_cell l" "8 * tail_cell l \<le> T + 2 ^ 23"
    and clean: "\<And>j v. T div 2 ^ (47 - k) \<le> j \<Longrightarrow> j < T' div 2 ^ (47 - k) \<Longrightarrow>
      v \<in> set (vss ! (j mod 2 ^ k)) \<Longrightarrow> v \<noteq> 0 \<Longrightarrow> clog_is_valid (get_item_offset v) l"
  shows "lossy_ok k l H T' vl M vss"
proof -
  let ?W = "2 ^ (47 - k) :: nat"
  have "slot_ok k l H T' vl M b v"
    if b: "b < 2 ^ k" and v: "v \<in> set (vss ! b)" "v \<noteq> 0" and s: "slot_ok k l H T vl M b v" for b v
  proof -
    obtain p c where p: "(p, c) \<in> set (items_from 0 H)" "get_item_offset v = offset_at p"
      "\<forall>j. j mod 2 ^ k = b \<longrightarrow> j < T div ?W \<longrightarrow> (j + 1) * ?W \<le> 8 * (p + length (cl_data l))"
      "clog_is_valid (get_item_offset v) l \<longleftrightarrow> tail_cell l \<le> p + length (cl_data l)"
      using slot_position [OF ok s b T(3)] by blast
    have "(j + 1) * ?W \<le> 8 * (p + length (cl_data l))" if j: "j mod 2 ^ k = b" "j < T' div ?W" for j
    proof (cases "j < T div ?W")
      case False
      then have "tail_cell l \<le> p + length (cl_data l)" using clean [of j v] v j p(4) by simp
      then have "8 * tail_cell l \<le> 8 * (p + length (cl_data l))" by simp
      then have "T' \<le> 8 * (p + length (cl_data l))" by (rule le_trans [OF T(2)])
      moreover have "(j + 1) * ?W \<le> T' div ?W * ?W" using j(2) by (intro mult_le_mono1) simp
      moreover have "T' div ?W * ?W \<le> T'" by simp
      ultimately show ?thesis by (meson le_trans)
    qed (use p(3) j in blast)
    moreover have "\<exists>h key value. holds l p h key value \<and> kv_fits l key value \<and> c = 3 + length key + length value
        \<and> word_at l p = of_nat (8 * c) \<and> calc_tag h = get_tag v \<and> home k h = b \<and> M (h, key) = Some value
        \<and> length value = vl (h, key)" if val: "tail_cell l \<le> p + length (cl_data l)"
    proof -
      obtain p' h key "value" where st: "stands_for l H v p' h key value"
        by (rule valid_slot [OF ok s b T(3)]) (use val p(4) in auto)
      have "p \<le> tail_cell l" using hist_item(1) [OF lossy_okD(1) [OF ok] p(1)] by simp
      then have "p = p'" using stands_for_position [OF lossy_okD(1) [OF ok] st p(2) val] by simp
      moreover from this have "c = 3 + length key + length value"
        using st p(1) items_pair [of p c 0 H p "3 + length key + length value"]
          hist_item(2) [OF lossy_okD(1) [OF ok] p(1)] by (auto simp: stands_for_def)
      ultimately show ?thesis using st stands_slot [OF ok s b T(3) st]
        unfolding stands_for_def by blast
    qed
    moreover have "get_tag v \<noteq> 0" using s by (simp add: slot_ok_def)
    ultimately show ?thesis using p(1,2) unfolding slot_ok_def by blast
  qed
  then show ?thesis using ok T(2) by (auto simp: lossy_ok_def bucket_ok_def)
qed

end
