(* ===== verification/Lossy_Table.thy ===== *)
theory Lossy_Table
  imports Lossy_Inv
begin

text \<open>
  A lossy table around its log and its item vectors: what the locks, the search of a bucket,
  the cleanup of buckets and the appending of an item do to \<^verbatim>\<open>ltable\<close> values.
\<close>

section \<open>The table around its log and its item vectors\<close>

declare stat_inc_def [simp] stat_dec_def [simp]

definition vecs :: "ltable \<Rightarrow> u64 list list" where "vecs t = map b_items (lt_buckets t)"

definition lossy_at :: "nat \<Rightarrow> circular_log \<Rightarrow> u64 list list \<Rightarrow> ltable \<Rightarrow> bool" where
  "lossy_at k l vss t \<longleftrightarrow>
     kEviction (lt_config t) \<and> lt_pool t = CircularLog l \<and> vecs t = vss \<and> 2 ^ k \<le> length vss \<and>
     1 \<le> k \<and> k \<le> 31 \<and> lt_num_buckets_mask t = mask k \<and> unat (lt_rshift t) = 47 - k \<and>
     0 < kBucketSize (lt_config t) \<and> (\<forall>b<2 ^ k. length (vss ! b) = kBucketSize (lt_config t))"

text \<open>No bucket is locked, or only \<open>b\<close> is; the lock of the log is free or held.\<close>

definition quiet :: "ltable \<Rightarrow> bool" where
  "quiet t \<longleftrightarrow> lt_mode t \<in> {0, 1, 2} \<and>
     (lt_mode t \<noteq> 0 \<longrightarrow> (\<forall>b<length (lt_buckets t). even (unat (b_version (lt_buckets t ! b)))))"

definition held :: "nat \<Rightarrow> ltable \<Rightarrow> bool" where
  "held b t \<longleftrightarrow> lt_mode t \<in> {0, 1, 2} \<and> b < length (lt_buckets t) \<and>
     (lt_mode t \<noteq> 0 \<longrightarrow>
       (\<forall>b'<length (lt_buckets t). even (unat (b_version (lt_buckets t ! b'))) \<longleftrightarrow> b' \<noteq> b))"

definition log_free :: "circular_log \<Rightarrow> bool" where "log_free l \<longleftrightarrow> cl_mode l = 2 \<longrightarrow> cl_lock l = 0"

lemma and_1_even: "x AND 1 = 0 \<longleftrightarrow> even (unat (x :: 'a::len word))"
proof -
  have "x AND 1 = x AND mask 1" by simp
  then have "unat (x AND 1) = unat x mod 2" using unat_and_mask [of x 1] by (simp del: mask_1)
  then show ?thesis by (metis even_iff_mod_2_eq_zero unat_eq_0)
qed

lemma or_1_odd: "odd (unat (x OR 1 :: 'a::len word))"
proof -
  have "(x OR 1) AND 1 = 1" by (rule bit_word_eqI) (auto simp: bit_simps)
  then show ?thesis by (metis and_1_even zero_neq_one)
qed

lemma even_succ: "even (unat (x + 1 :: u32)) \<longleftrightarrow> odd (unat x)"
  by (simp add: unat_word_ariths mod_2_eq_odd [symmetric] even_iff_mod_2_eq_zero mod_mod_cancel) presburger

lemma and_not_1_even: "even (unat x) \<Longrightarrow> (x :: 'a::len word) AND NOT 1 = x"
proof -
  assume "even (unat x)"
  then have "x AND 1 = 0" by (simp add: and_1_even)
  then have b: "\<not> bit x 0" by (auto simp: bit_eq_iff bit_simps)
  show ?thesis by (rule bit_word_eqI) (use b in \<open>auto simp: bit_simps intro: ccontr\<close>)
qed

lemma vecs_upd [simp]:
  "vecs (upd_bucket b (\<lambda>k. k\<lparr>b_version := f k\<rparr>) t) = vecs t"
  by (simp add: vecs_def upd_bucket_def map_update) (metis list_update_id map_update bucket.simps(3) list_update_beyond nth_map not_less length_map)

lemma upd_bucket_sel [simp]:
  "lt_config (upd_bucket b f t) = lt_config t" "lt_pool (upd_bucket b f t) = lt_pool t"
  "lt_mode (upd_bucket b f t) = lt_mode t" "lt_rshift (upd_bucket b f t) = lt_rshift t"
  "lt_num_buckets (upd_bucket b f t) = lt_num_buckets t"
  "lt_num_buckets_mask (upd_bucket b f t) = lt_num_buckets_mask t"
  "lt_num_extra_buckets (upd_bucket b f t) = lt_num_extra_buckets t"
  "lt_mth_threshold (upd_bucket b f t) = lt_mth_threshold t"
  "lt_free_lock (upd_bucket b f t) = lt_free_lock t" "lt_free_head (upd_bucket b f t) = lt_free_head t"
  "lt_stats (upd_bucket b f t) = lt_stats t"
  "lt_buckets (upd_bucket b f t) = (lt_buckets t)[b := f (lt_buckets t ! b)]"
  by (simp_all add: upd_bucket_def)

lemma stat_add_sel [simp]:
  "lt_config (stat_add d c t) = lt_config t" "lt_pool (stat_add d c t) = lt_pool t"
  "lt_mode (stat_add d c t) = lt_mode t" "lt_rshift (stat_add d c t) = lt_rshift t"
  "lt_num_buckets (stat_add d c t) = lt_num_buckets t"
  "lt_num_buckets_mask (stat_add d c t) = lt_num_buckets_mask t"
  "lt_num_extra_buckets (stat_add d c t) = lt_num_extra_buckets t"
  "lt_mth_threshold (stat_add d c t) = lt_mth_threshold t"
  "lt_free_lock (stat_add d c t) = lt_free_lock t" "lt_free_head (stat_add d c t) = lt_free_head t"
  "lt_buckets (stat_add d c t) = lt_buckets t"
  by (simp_all add: stat_add_def)

lemma stat_pool [simp]: "(stat_add d c t)\<lparr>lt_pool := p\<rparr> = stat_add d c (t\<lparr>lt_pool := p\<rparr>)"
  by (simp add: stat_add_def)

lemma item_vec_sel [simp]:
  "item_vec b i (stat_add d c t) = item_vec b i t" "item_vec b i (t\<lparr>lt_pool := p\<rparr>) = item_vec b i t"
  by (simp_all add: item_vec_def)

lemma vecs_stat [simp]: "vecs (stat_add d c t) = vecs t"
  by (simp add: vecs_def)

lemma vecs_pool [simp]: "vecs (t\<lparr>lt_pool := p\<rparr>) = vecs t"
  by (simp add: vecs_def)

lemma vecs_set [simp]: "vecs (set_item_vec b i v t) = (vecs t)[b := (vecs t ! b)[i := v]]"
proof (cases "b < length (lt_buckets t)")
  case False
  then show ?thesis by (simp add: vecs_def set_item_vec_def list_update_beyond)
qed (simp add: vecs_def set_item_vec_def map_update)

lemma length_vecs [simp]: "length (vecs t) = length (lt_buckets t)"
  by (simp add: vecs_def)

lemma item_vec_vecs: "b < length (lt_buckets t) \<Longrightarrow> item_vec b i t = vecs t ! b ! i"
  by (simp add: item_vec_def vecs_def)

lemma lossy_atD:
  assumes "lossy_at k l vss t"
  shows "kEviction (lt_config t)" "lt_pool t = CircularLog l" "vecs t = vss" "2 ^ k \<le> length vss"
    "1 \<le> k" "k \<le> 31" "lt_num_buckets_mask t = mask k" "unat (lt_rshift t) = 47 - k"
    "0 < kBucketSize (lt_config t)" "b < 2 ^ k \<Longrightarrow> length (vss ! b) = kBucketSize (lt_config t)"
    "length (lt_buckets t) = length vss"
  using assms length_vecs [of t] by (auto simp: lossy_at_def)

lemma lossy_at_stat [simp]: "lossy_at k l vss (stat_add d c t) = lossy_at k l vss t"
  by (simp add: lossy_at_def)

lemma lossy_at_pool: "lossy_at k l vss t \<Longrightarrow> lossy_at k l' vss (t\<lparr>lt_pool := CircularLog l'\<rparr>)"
  by (simp add: lossy_at_def)

lemma lossy_at_set:
  "lossy_at k l vss t \<Longrightarrow> lossy_at k l (vss[b := (vss ! b)[i := v]]) (set_item_vec b i v t)"
proof -
  assume a: "lossy_at k l vss t"
  have "length (vss[b := (vss ! b)[i := v]] ! b') = length (vss ! b')" for b'
    by (cases "b < length vss"; cases "b' = b") (auto simp: list_update_beyond)
  then show ?thesis using a by (auto simp: lossy_at_def) (simp_all add: set_item_vec_def)
qed

lemma quiet_simps [simp]:
  "quiet (stat_add d c t) = quiet t" "held b (stat_add d c t) = held b t"
  "quiet (t\<lparr>lt_pool := p\<rparr>) = quiet t" "held b (t\<lparr>lt_pool := p\<rparr>) = held b t"
  by (simp_all add: quiet_def held_def)

lemma version_set: "b_version ((lt_buckets (set_item_vec b i v t)) ! b') = b_version (lt_buckets t ! b')"
proof (cases "b < length (lt_buckets t)")
  case True
  then show ?thesis by (cases "b' = b") (auto simp: set_item_vec_def)
qed (simp add: set_item_vec_def list_update_beyond)

lemma quiet_set [simp]:
  "quiet (set_item_vec b i v t) = quiet t" "held b' (set_item_vec b i v t) = held b' t"
  unfolding quiet_def held_def version_set by (simp_all add: set_item_vec_def)

lemma lock_ok:
  assumes "lossy_at k l vss t" "quiet t" "b < 2 ^ k"
  shows "\<exists>t'. lock_bucket b t = Some t' \<and> lossy_at k l vss t' \<and> held b t'
    \<and> lt_mth_threshold t' = lt_mth_threshold t"
proof -
  note D = lossy_atD [OF assms(1)]
  have b: "b < length (lt_buckets t)" using assms(3) D(4,11) by simp
  have at: "lossy_at k l vss (upd_bucket b (\<lambda>k. k\<lparr>b_version := f k\<rparr>) t)" for f
    using assms(1) by (simp add: lossy_at_def)
  have one: "held b (upd_bucket b (\<lambda>k. k\<lparr>b_version := f k\<rparr>) t)"
    if "lt_mode t \<noteq> 0" "odd (unat (f (lt_buckets t ! b)))" for f
    using assms(2) b that by (auto simp: held_def quiet_def nth_list_update)
  consider "lt_mode t = 0" | "lt_mode t = 1" | "lt_mode t = 2"
    using assms(2) by (auto simp: quiet_def)
  then show ?thesis
  proof cases
    case 1
    then show ?thesis using assms b by (auto simp: lock_bucket_def bucket_at_def held_def)
  next
    case 2
    then have "even (unat (b_version (lt_buckets t ! b)))" using assms(2) b by (auto simp: quiet_def)
    then show ?thesis
      using 2 at one [of "\<lambda>k. b_version k + 1"] b by (auto simp: lock_bucket_def bucket_at_def even_succ)
  next
    case 3
    then have "even (unat (b_version (lt_buckets t ! b)))" using assms(2) b by (auto simp: quiet_def)
    then have "b_version (lt_buckets t ! b) AND NOT 1 = b_version (lt_buckets t ! b)" by (rule and_not_1_even)
    then show ?thesis
      using 3 at one [of "\<lambda>_. b_version (lt_buckets t ! b) OR 1"] b or_1_odd
      by (auto simp: lock_bucket_def bucket_at_def Let_def)
  qed
qed

lemma unlock_ok:
  assumes "lossy_at k l vss t" "held b t"
  shows "lossy_at k l vss (unlock_bucket b t)" "quiet (unlock_bucket b t)"
proof -
  show "lossy_at k l vss (unlock_bucket b t)"
    using assms(1) by (simp add: unlock_bucket_def lossy_at_def)
  show "quiet (unlock_bucket b t)"
    using assms(2) even_succ [of "b_version (lt_buckets t ! b)"]
    by (auto simp: unlock_bucket_def held_def quiet_def nth_list_update)
qed

lemma read_version_ok:
  assumes "lossy_at k l vss t" "quiet t" "b < 2 ^ k"
  shows "\<exists>v. read_version_begin b t = Some v \<and> read_version_end b t = Some v"
proof -
  have b: "b < length (lt_buckets t)" using assms(3) lossy_atD(4,11) [OF assms(1)] by simp
  then show ?thesis
    using assms(2) by (auto simp: read_version_begin_def read_version_end_def bucket_at_def quiet_def and_1_even)
qed

lemma home_bucket_home:
  assumes "lossy_at k l vss t"
  shows "home_bucket h t = home k h"
  using lossy_atD(7) [OF assms] by (simp add: home_bucket_def calc_bucket_index_def home_def)

section \<open>Search\<close>

text \<open>The comparison of a key with the item of an item vector.\<close>

definition matches :: "pool \<Rightarrow> u64 \<Rightarrow> u64 list \<Rightarrow> u64 \<Rightarrow> bool option" where
  "matches p key_hash key v =
     do {
       h \<leftarrow> item_key_hash (get_item_offset v) p;
       if h \<noteq> key_hash then Some False
       else do {
         kv \<leftarrow> item_kv_length_vec (get_item_offset v) p;
         compare_keys (get_item_offset v) (get_key_length kv) key p
       }
     }"

lemma find_in_matches:
  "find_in p h tag key i (v # vs) =
     (if get_tag v \<noteq> tag then find_in p h tag key (Suc i) vs
      else do { m \<leftarrow> matches p h key v; if m then Some (Some i) else find_in p h tag key (Suc i) vs })"
proof (cases "item_key_hash (get_item_offset v) p")
  case (Some hh)
  then show ?thesis
    by (cases "item_kv_length_vec (get_item_offset v) p";
        cases "compare_keys (get_item_offset v) (get_key_length (the (item_kv_length_vec (get_item_offset v) p))) key p")
      (auto simp: matches_def)
qed (simp add: matches_def)

declare find_in.simps(2) [simp del]

lemma find_in_spec:
  assumes "\<And>v. v \<in> set vs \<Longrightarrow> get_tag v = tag \<Longrightarrow> matches p h key v \<noteq> None"
  shows "\<exists>r. find_in p h tag key i vs = Some r \<and>
    (case r of None \<Rightarrow> \<forall>v\<in>set vs. get_tag v = tag \<longrightarrow> matches p h key v = Some False
     | Some j \<Rightarrow> i \<le> j \<and> j - i < length vs \<and> get_tag (vs ! (j - i)) = tag \<and> matches p h key (vs ! (j - i)) = Some True)"
  using assms
proof (induction vs arbitrary: i)
  case (Cons v vs)
  obtain r where r: "find_in p h tag key (Suc i) vs = Some r"
    "case r of None \<Rightarrow> \<forall>v\<in>set vs. get_tag v = tag \<longrightarrow> matches p h key v = Some False
     | Some j \<Rightarrow> Suc i \<le> j \<and> j - Suc i < length vs \<and> get_tag (vs ! (j - Suc i)) = tag
         \<and> matches p h key (vs ! (j - Suc i)) = Some True"
    using Cons.IH [of "Suc i"] Cons.prems by auto
  have later: "\<exists>r. Some r' = Some r \<and>
    (case r of None \<Rightarrow> \<forall>v\<in>set (v # vs). get_tag v = tag \<longrightarrow> matches p h key v = Some False
     | Some j \<Rightarrow> i \<le> j \<and> j - i < length (v # vs) \<and> get_tag ((v # vs) ! (j - i)) = tag
         \<and> matches p h key ((v # vs) ! (j - i)) = Some True)"
    if "r' = r" "get_tag v = tag \<Longrightarrow> matches p h key v = Some False" for r'
  proof (cases r)
    case (Some j)
    then have "Suc i \<le> j" using r(2) by simp
    then obtain m where "j = Suc i + m" using le_Suc_ex by blast
    then show ?thesis using Some r(2) that(1) by simp
  qed (use that r(2) in auto)
  show ?case
  proof (cases "get_tag v = tag \<and> matches p h key v = Some True")
    case True
    then show ?thesis by (auto simp: find_in_matches)
  next
    case False
    then have "find_in p h tag key i (v # vs) = Some r" "get_tag v = tag \<Longrightarrow> matches p h key v = Some False"
      using r(1) Cons.prems [of v] by (auto simp: find_in_matches)
    then show ?thesis using later [of r] by simp
  qed
qed simp

lemma matches_total:
  assumes "clog_shape l" "length key \<le> 31"
  shows "matches (CircularLog l) h key v \<noteq> None"
proof -
  let ?o = "get_item_offset v"
  obtain w0 w1 where w: "clog_read ?o 0 l = Some w0" "clog_read ?o 1 l = Some w1"
    using clog_read_total [OF assms(1), of 0 ?o] clog_read_total [OF assms(1), of 1 ?o] by auto
  have "compare_keys ?o (get_key_length (ucast w0)) key (CircularLog l) \<noteq> None"
  proof (cases "ucast (get_key_length (ucast w0)) = byte_len key")
    case True
    have "unat (byte_len key) = 8 * length key" using assms(2) by (intro byte_len_unat) simp
    then have "unat (roundup 8 (byte_len key)) div 8 = length key"
      using value_word_eq [of "byte_len key" "length key"] assms(2) unfolding value_word_def by simp
    moreover obtain ws where "pool_read_words ?o 2 (length key) (CircularLog l) = Some ws"
      using pool_read_words_total [OF assms(1), of 2 "length key" ?o] assms(2) by auto
    ultimately show ?thesis by (simp add: compare_keys_def True)
  qed (simp add: compare_keys_def)
  then obtain m where "compare_keys ?o (get_key_length (ucast w0)) key (CircularLog l) = Some m" by blast
  then show ?thesis
    using w by (simp add: matches_def item_key_hash_def item_kv_length_vec_def del: not_None_eq)
qed

lemma matches_stands:
  assumes hl: "clog_hist l H" and st: "stands_for l H v p h' key' value" and key: "length key \<le> 31"
  shows "matches (CircularLog l) h key v = Some (h = h' \<and> key = key')"
proof -
  have s: "get_item_offset v = offset_at p" "holds l p h' key' value" "kv_fits l key' value"
    using st by (auto simp: stands_for_def)
  have p: "8 * p < 2 ^ 64" using hist_bound [OF hl, of p] stands_for_le [OF hl st] by simp
  note r = kv_read [OF hist_shape [OF hl] p s(3,2)]
  have l: "length key' \<le> 31" "length value \<le> 131071" using s(3) by (auto simp: kv_fits_def)
  note kf = kv_fields(1) [OF l]
  have kl: "ucast (get_key_length (kv_of key' value)) = byte_len key \<longleftrightarrow> length key' = length key"
    using kf byte_len_unat [of key] key l by (simp add: word_unat_eq_iff unat_ucast_mod)
  have "unat (roundup 8 (ucast (get_key_length (kv_of key' value)) :: u64)) div 8 = length key'"
    using value_word_eq [of "ucast (get_key_length (kv_of key' value))" "length key'"] kf l
    by (simp add: value_word_def unat_ucast_mod)
  then show ?thesis
    using r(1-3) kl by (auto simp: matches_def compare_keys_def s(1))
qed

lemma no_extra:
  assumes "lossy_at k l vss t"
  shows "\<not> has_extra_bucket b t"
  using lossy_atD(1) [OF assms] by (simp add: has_extra_bucket_def)

lemma bucket_at_ok:
  assumes "lossy_at k l vss t" "b < 2 ^ k"
  shows "bucket_at b t = Some (lt_buckets t ! b)" "b_items (lt_buckets t ! b) = vss ! b"
proof -
  have b: "b < length (lt_buckets t)" using assms(2) lossy_atD(4,11) [OF assms(1)] by simp
  then show "bucket_at b t = Some (lt_buckets t ! b)" by (simp add: bucket_at_def)
  show "b_items (lt_buckets t ! b) = vss ! b"
    unfolding lossy_atD(3) [OF assms(1), symmetric] vecs_def using b by simp
qed

lemma find_ok:
  assumes at: "lossy_at k l vss t" and b: "b < 2 ^ k" and sh: "clog_shape l" and key: "length key \<le> 31"
  shows "\<exists>r. find_item_index b h tag key t = Some r \<and>
    (case r of None \<Rightarrow> \<forall>v\<in>set (vss ! b). get_tag v = tag \<longrightarrow> matches (CircularLog l) h key v = Some False
     | Some (b', i) \<Rightarrow> b' = b \<and> i < length (vss ! b) \<and> get_tag (vss ! b ! i) = tag
         \<and> matches (CircularLog l) h key (vss ! b ! i) = Some True)"
proof -
  obtain r where r: "find_in (CircularLog l) h tag key 0 (vss ! b) = Some r"
    "case r of None \<Rightarrow> \<forall>v\<in>set (vss ! b). get_tag v = tag \<longrightarrow> matches (CircularLog l) h key v = Some False
     | Some j \<Rightarrow> 0 \<le> j \<and> j - 0 < length (vss ! b) \<and> get_tag (vss ! b ! (j - 0)) = tag
         \<and> matches (CircularLog l) h key (vss ! b ! (j - 0)) = Some True"
    using find_in_spec [of "vss ! b" tag "CircularLog l" h key 0] matches_total [OF sh key] by blast
  then show ?thesis
    using bucket_at_ok [OF at b] no_extra [OF at] lossy_atD(2) [OF at]
    by (subst find_item_index.simps) (auto split: option.splits)
qed

section \<open>Cleanup\<close>

definition drop_stale :: "circular_log \<Rightarrow> u64 \<Rightarrow> u64" where
  "drop_stale l v = (if v \<noteq> 0 \<and> \<not> clog_is_valid (get_item_offset v) l then 0 else v)"

definition clean_bucket :: "circular_log \<Rightarrow> nat \<Rightarrow> u64 list list \<Rightarrow> u64 list list" where
  "clean_bucket l b vss = vss[b := map (drop_stale l) (vss ! b)]"

text \<open>\<^verbatim>\<open>is_valid\<close> is called with the whole item vector; the tag does not matter.\<close>

lemma is_valid_vec: "clog_is_valid v l = clog_is_valid (get_item_offset v) l"
proof -
  have u: "uint (w AND mask 48) = uint w mod 2 ^ 48" for w :: u64
    by (simp only: take_bit_eq_mask [symmetric] unsigned_take_bit_eq) (simp add: take_bit_eq_mod)
  have d: "uint (x - y) mod 2 ^ 48 = (uint x - uint y) mod 2 ^ 48" for x y :: u64
    by (simp only: uint_word_ariths) (simp add: mod_mod_cancel)
  have "uint ((cl_tail l - v) AND mask 48) = uint ((cl_tail l - (v AND mask 48)) AND mask 48)"
    unfolding u d by (simp only: mod_diff_right_eq)
  then have "(cl_tail l - v) AND mask 48 = (cl_tail l - (v AND mask 48)) AND mask 48"
    by (simp only: word_uint_eq_iff)
  then show ?thesis
    by (simp only: clog_is_valid_def kOffsetMask_def get_item_offset_def kItemOffsetMask_def two_power_minus_one_mask)
qed

lemma cleanup_items_ok:
  assumes "lossy_at k l vss t" "b < 2 ^ k" "n \<le> length (vss ! b)"
  shows "lossy_at k l (vss[b := map (drop_stale l) (take n (vss ! b)) @ drop n (vss ! b)]) (cleanup_items b n t)
    \<and> (held b' (cleanup_items b n t) \<longleftrightarrow> held b' t) \<and> lt_mth_threshold (cleanup_items b n t) = lt_mth_threshold t
    \<and> lt_config (cleanup_items b n t) = lt_config t"
  using assms(3)
proof (induction n)
  case 0
  then show ?case using assms(1) by simp
next
  case (Suc n)
  let ?vs = "vss ! b" and ?t = "cleanup_items b n t"
  let ?u = "map (drop_stale l) (take n ?vs) @ drop n ?vs"
  have IH: "lossy_at k l (vss[b := ?u]) ?t" "held b' ?t \<longleftrightarrow> held b' t"
    "lt_mth_threshold ?t = lt_mth_threshold t" "lt_config ?t = lt_config t"
    using Suc by auto
  have b: "b < length vss" using assms(2) lossy_atD(4) [OF assms(1)] by simp
  have D: "length (lt_buckets ?t) = length vss" "vecs ?t = vss[b := ?u]" "lt_pool ?t = CircularLog l"
    using lossy_atD(2,3,11) [OF IH(1)] by auto
  have v: "item_vec b n ?t = ?vs ! n"
    using b D Suc.prems by (simp add: item_vec_vecs nth_append Cons_nth_drop_Suc [symmetric])
  have drop: "drop n ?vs = ?vs ! n # drop (Suc n) ?vs" using Suc.prems by (simp add: Cons_nth_drop_Suc)
  have u: "map (drop_stale l) (take (Suc n) ?vs) @ drop (Suc n) ?vs = ?u[n := drop_stale l (?vs ! n)]"
    using Suc.prems by (simp add: take_Suc_conv_app_nth drop list_update_append)
  have same: "drop_stale l (?vs ! n) = ?vs ! n \<Longrightarrow> ?u[n := drop_stale l (?vs ! n)] = ?u"
    using Suc.prems by (simp add: drop list_update_append)
  show ?case
  proof (cases "drop_stale l (?vs ! n) = ?vs ! n")
    case True
    then have "cleanup_items b (Suc n) t = ?t"
      using v D(3) is_valid_vec [of "?vs ! n" l] by (auto simp: drop_stale_def Let_def split: if_splits)
    then show ?thesis unfolding u same [OF True] using IH by simp
  next
    case False
    then have "cleanup_items b (Suc n) t
        = stat_dec s_count_update (stat_inc s_cleanup_update (set_item_vec b n 0 ?t))" "drop_stale l (?vs ! n) = 0"
      using v D(3) is_valid_vec [of "?vs ! n" l] by (auto simp: drop_stale_def Let_def split: if_splits)
    then show ?thesis
      unfolding u using IH lossy_at_set [OF IH(1), of b n 0] b
      by (simp add: stat_dec_def stat_inc_def) (simp add: set_item_vec_def)
  qed
qed

lemma cleanup_chain_ok:
  assumes at: "lossy_at k l vss t" and b: "b < 2 ^ k"
  shows "\<exists>t'. cleanup_chain b t = Some t' \<and> lossy_at k l (clean_bucket l b vss) t'
    \<and> (held b' t' \<longleftrightarrow> held b' t) \<and> lt_mth_threshold t' = lt_mth_threshold t"
proof -
  let ?t = "cleanup_items b (kBucketSize (lt_config t)) t"
  have n: "kBucketSize (lt_config t) = length (vss ! b)" using lossy_atD(10) [OF at b] by simp
  have c: "lossy_at k l (clean_bucket l b vss) ?t" "held b' ?t \<longleftrightarrow> held b' t"
    "lt_mth_threshold ?t = lt_mth_threshold t"
    using cleanup_items_ok [OF at b, of "length (vss ! b)" b'] unfolding n by (simp_all add: clean_bucket_def)
  then show ?thesis
    using bucket_at_ok(1) [OF at b] no_extra [OF c(1)] by (subst cleanup_chain.simps) simp
qed

definition clean_range :: "nat \<Rightarrow> circular_log \<Rightarrow> nat list \<Rightarrow> u64 list list \<Rightarrow> u64 list list" where
  "clean_range k l js vss = fold (\<lambda>j. clean_bucket l (j mod 2 ^ k)) js vss"

lemma ucast_mask: "k \<le> 31 \<Longrightarrow> (ucast (mask k :: u32) :: u64) = mask k"
  by (rule bit_word_eqI) (auto simp: bit_simps)

lemma unat_index: "k \<le> 31 \<Longrightarrow> unat (of_nat (j mod 2 ^ k) :: u64) = j mod 2 ^ k"
proof -
  assume "k \<le> 31"
  then have "(2 :: nat) ^ k \<le> 2 ^ 31" by (intro power_increasing) simp_all
  moreover have "j mod 2 ^ k < 2 ^ k" "(2 :: nat) ^ 31 < 2 ^ 64 - 1" by simp_all
  ultimately have "j mod 2 ^ k < 2 ^ 64" by linarith
  then show ?thesis by (simp add: unat_of_nat)
qed

lemma next_index:
  assumes "k \<le> 31"
  shows "(of_nat (j mod 2 ^ k) + 1) AND mask k = (of_nat (Suc j mod 2 ^ k) :: u64)"
proof -
  have "(2 :: nat) ^ k \<le> 2 ^ 31" using assms by (intro power_increasing) simp_all
  moreover have "j mod 2 ^ k < 2 ^ k" "(2 :: nat) ^ 31 < 2 ^ 64 - 1" by simp_all
  ultimately have "Suc (j mod 2 ^ k) < 2 ^ 64" by linarith
  then have "unat (of_nat (j mod 2 ^ k) + 1 :: u64) = Suc (j mod 2 ^ k)"
    using unat_index [OF assms, of j] by (simp add: unat_word_ariths)
  then show ?thesis
    using unat_index [OF assms, of "Suc j"] by (simp add: word_unat_eq_iff unat_and_mask mod_Suc_eq)
qed

lemma cleanup_loop_ok:
  assumes "lossy_at k l vss t" "quiet t" "d < 2 ^ k"
  shows "\<exists>t'. cleanup_loop (of_nat (j mod 2 ^ k)) (of_nat ((j + d) mod 2 ^ k)) t = Some t'
    \<and> lossy_at k l (clean_range k l [j..<j + d] vss) t' \<and> quiet t' \<and> lt_mth_threshold t' = lt_mth_threshold t"
  using assms
proof (induction d arbitrary: j vss t)
  case 0
  then show ?case by (subst cleanup_loop.simps) (simp add: clean_range_def)
next
  case (Suc d)
  let ?b = "j mod 2 ^ k"
  note D = lossy_atD [OF Suc.prems(1)]
  have b: "?b < 2 ^ k" by simp
  have "?b \<noteq> (j + Suc d) mod 2 ^ k" using Suc.prems(3) by (intro hist_mod_neq) simp_all
  then have ne: "(of_nat ?b :: u64) \<noteq> of_nat ((j + Suc d) mod 2 ^ k)"
    using unat_index [OF D(6), of j] unat_index [OF D(6), of "j + Suc d"] by metis
  obtain t1 where t1: "lock_bucket ?b t = Some t1" "lossy_at k l vss t1" "held ?b t1"
    "lt_mth_threshold t1 = lt_mth_threshold t"
    using lock_ok [OF Suc.prems(1,2) b] by blast
  obtain t2 where t2: "cleanup_chain ?b t1 = Some t2" "lossy_at k l (clean_bucket l ?b vss) t2" "held ?b t2"
    "lt_mth_threshold t2 = lt_mth_threshold t1"
    using cleanup_chain_ok [OF t1(2) b, of ?b] t1(3) by blast
  note u = unlock_ok [OF t2(2,3)]
  obtain t' where t': "cleanup_loop (of_nat (Suc j mod 2 ^ k)) (of_nat ((Suc j + d) mod 2 ^ k)) (unlock_bucket ?b t2) = Some t'"
    "lossy_at k l (clean_range k l [Suc j..<Suc j + d] (clean_bucket l ?b vss)) t'" "quiet t'"
    "lt_mth_threshold t' = lt_mth_threshold (unlock_bucket ?b t2)"
    using Suc.IH [OF u, of "Suc j"] Suc.prems(3) by auto
  have "ucast (lt_num_buckets_mask (unlock_bucket ?b t2)) = (mask k :: u64)"
    using lossy_atD(7) [OF u(1)] ucast_mask [OF D(6)] by simp
  then have "cleanup_loop (of_nat ?b) (of_nat ((j + Suc d) mod 2 ^ k)) t = Some t'"
    using ne t1(1) t2(1) t'(1) next_index [OF D(6), of j]
    by (subst cleanup_loop.simps) (simp add: unat_index [OF D(6)])
  moreover have "lt_mth_threshold (unlock_bucket ?b t2) = lt_mth_threshold t2"
    by (simp add: unlock_bucket_def)
  moreover have "clean_range k l [j..<j + Suc d] vss = clean_range k l [Suc j..<Suc j + d] (clean_bucket l ?b vss)"
    by (simp add: clean_range_def upt_conv_Cons del: upt_Suc)
  ultimately show ?case using t'(2-4) t1(4) t2(4) by simp
qed

lemma tail_index:
  assumes k: "k \<le> 31" and r: "unat r = 47 - k" and x: "unat x mod 2 ^ 48 = n mod 2 ^ 48"
  shows "drop_bit (unat r) x AND mask k = (of_nat (n div 2 ^ (47 - k) mod 2 ^ k) :: u64)"
proof -
  let ?W = "2 ^ (47 - k) :: nat"
  have "(2 :: nat) ^ 48 = ?W * 2 ^ (k + 1)" unfolding power_add [symmetric] using k by simp
  then have m: "y mod 2 ^ 48 div ?W mod 2 ^ k = y div ?W mod 2 ^ k" for y
    unfolding \<open>(2 :: nat) ^ 48 = _\<close> mod_mult2_eq by (simp add: mod_mod_cancel)
  have "unat (drop_bit (unat r) x AND mask k) = unat x div ?W mod 2 ^ k"
    by (simp add: unat_and_mask unat_drop_bit_div r)
  also have "\<dots> = n div ?W mod 2 ^ k" using m [of "unat x"] m [of n] x by simp
  finally show ?thesis unfolding word_unat_eq_iff unat_index [OF k] .
qed

lemma cleanup_ok:
  assumes at: "lossy_at k l vss t" and q: "quiet t" and old: "8 * p < 2 ^ 64" "p \<le> tail_cell l"
    and tl: "unat (cl_tail l) = 8 * tail_cell l" and d: "8 * tail_cell l < 8 * p + 2 ^ 46"
  shows "\<exists>t'. cleanup_bucket (offset_at p) (cl_tail l) t = Some t'
    \<and> lossy_at k l (clean_range k l [8 * p div 2 ^ (47 - k)..<8 * tail_cell l div 2 ^ (47 - k)] vss) t'
    \<and> quiet t' \<and> lt_mth_threshold t' = lt_mth_threshold t"
proof -
  let ?W = "2 ^ (47 - k) :: nat"
  note D = lossy_atD [OF at]
  let ?j = "8 * p div ?W" and ?e = "8 * tail_cell l div ?W"
  have le: "?j \<le> ?e" using old(2) by (intro div_le_mono) simp
  have W: "2 ^ k * ?W = 2 ^ 47" using D(5,6) by (simp add: power_add [symmetric])
  have "?W \<le> 2 ^ 46" using D(5) by (intro power_increasing) simp_all
  have "?e * ?W \<le> 8 * tail_cell l" by simp
  moreover have "8 * p mod ?W < ?W" by simp
  then have "8 * p < (?j + 1) * ?W"
    using div_mult_mod_eq [of "8 * p" ?W] unfolding add_mult_distrib mult_1 by linarith
  ultimately have "?e * ?W < (?j + 1) * ?W + 2 ^ 46" using d by linarith
  also have "\<dots> \<le> (?j + 2 ^ k) * ?W"
  proof -
    have "2 ^ 47 \<le> (2 ^ 46 :: nat) + 2 ^ 46" by simp
    then show ?thesis using W \<open>?W \<le> 2 ^ 46\<close> unfolding add_mult_distrib by simp
  qed
  finally have "?e < ?j + 2 ^ k" by simp
  then have lt: "?e - ?j < 2 ^ k" using le by linarith
  have "unat (offset_at p) mod 2 ^ 48 = 8 * p mod 2 ^ 48" using unat_offset_at [OF old(1)] by simp
  note i1 = tail_index [OF D(6,8) this]
  have "unat (cl_tail l) mod 2 ^ 48 = 8 * tail_cell l mod 2 ^ 48" using tl by simp
  note i2 = tail_index [OF D(6,8) this]
  have "cleanup_bucket (offset_at p) (cl_tail l) t
      = cleanup_loop (of_nat (?j mod 2 ^ k)) (of_nat ((?j + (?e - ?j)) mod 2 ^ k)) t"
    using le D(2,7) by (simp add: cleanup_bucket_def i1 i2 ucast_mask [OF D(6)])
  then show ?thesis using cleanup_loop_ok [OF at q lt, of ?j] le by simp
qed

text \<open>What a cleanup of a range of buckets does to the invariant.\<close>

lemma clean_range_keeps:
  "length (clean_range k l js vss) = length vss"
  "length (clean_range k l js vss ! b) = length (vss ! b)"
  "vss ! b ! i = 0 \<or> clog_is_valid (get_item_offset (vss ! b ! i)) l \<Longrightarrow> i < length (vss ! b) \<Longrightarrow>
     clean_range k l js vss ! b ! i = vss ! b ! i"
proof -
  have l: "length (clean_bucket l x vss) = length vss" "length (clean_bucket l x vss ! b) = length (vss ! b)" for x vss
    by (cases "b = x"; cases "x < length vss"; simp add: clean_bucket_def list_update_beyond)+
  have one: "clean_bucket l x vss ! b ! i = vss ! b ! i"
    if "vss ! b ! i = 0 \<or> clog_is_valid (get_item_offset (vss ! b ! i)) l" "i < length (vss ! b)" for x vss
    using that by (cases "b = x"; cases "x < length vss") (auto simp: clean_bucket_def list_update_beyond drop_stale_def)
  show "length (clean_range k l js vss) = length vss"
    by (induction js arbitrary: vss) (auto simp: clean_range_def l)
  show "length (clean_range k l js vss ! b) = length (vss ! b)"
    by (induction js arbitrary: vss) (auto simp: clean_range_def l)
  show "clean_range k l js vss ! b ! i = vss ! b ! i"
    if "vss ! b ! i = 0 \<or> clog_is_valid (get_item_offset (vss ! b ! i)) l" "i < length (vss ! b)"
    using that by (induction js arbitrary: vss) (auto simp: clean_range_def l one)
qed

lemma clean_range_ok:
  assumes "lossy_ok k l H T vl M vss"
  shows "lossy_ok k l H T vl M (clean_range k l js vss) \<and>
    (\<forall>j \<in> set js. \<forall>v \<in> set (clean_range k l js vss ! (j mod 2 ^ k)). v \<noteq> 0 \<longrightarrow> clog_is_valid (get_item_offset v) l)"
  using assms
proof (induction js arbitrary: vss)
  case (Cons j js)
  let ?b = "j mod 2 ^ k" and ?vss = "clean_bucket l (j mod 2 ^ k) vss"
  let ?r = "clean_range k l js ?vss"
  have "?b < 2 ^ k" by simp
  then have b: "?b < length vss" using lossy_okD(5) [OF Cons.prems] by linarith
  have "lossy_ok k l H T vl M ?vss"
    unfolding clean_bucket_def by (rule lossy_drop [OF Cons.prems]) (simp_all add: drop_stale_def)
  note IH = Cons.IH [OF this]
  have "clog_is_valid (get_item_offset v) l" if v: "v \<in> set (?r ! ?b)" "v \<noteq> 0" for v
  proof -
    obtain i where i: "i < length (?r ! ?b)" "v = ?r ! ?b ! i" using v(1) by (auto simp: in_set_conv_nth)
    then have i': "i < length (?vss ! ?b)" by (simp add: clean_range_keeps(2))
    have "?vss ! ?b ! i = 0 \<or> clog_is_valid (get_item_offset (?vss ! ?b ! i)) l"
      using b i' by (auto simp: clean_bucket_def drop_stale_def)
    then show ?thesis using clean_range_keeps(3) [of ?vss ?b i l k js] i i' v(2) by auto
  qed
  then show ?case using IH by (auto simp: clean_range_def)
qed (simp add: clean_range_def)

section \<open>Appending an item\<close>

lemma lock_irrelevant [simp]:
  "word_at (l\<lparr>cl_lock := x\<rparr>) = word_at l" "tail_cell (l\<lparr>cl_lock := x\<rparr>) = tail_cell l"
  "holds (l\<lparr>cl_lock := x\<rparr>) = holds l" "kv_fits (l\<lparr>cl_lock := x\<rparr>) = kv_fits l"
  "stands_for (l\<lparr>cl_lock := x\<rparr>) = stands_for l"
  by (simp_all add: fun_eq_iff word_at_def tail_cell_def holds_def item_words_def kv_fits_def stands_for_def)

lemma lossy_ok_lock [simp]: "lossy_ok k (l\<lparr>cl_lock := x\<rparr>) H T vl M vss = lossy_ok k l H T vl M vss"
  by (simp add: lossy_ok_def bucket_ok_def slot_ok_def)

lemma unlock_cases: "clog_unlock l = l\<lparr>cl_lock := (if cl_mode l = 2 then 0 else cl_lock l)\<rparr>"
  by (simp add: clog_unlock_def)

lemma lossy_ok_unlock [simp]: "lossy_ok k (clog_unlock l) H T vl M vss = lossy_ok k l H T vl M vss"
  by (simp add: unlock_cases)

lemma unlock_simps [simp]:
  "cl_tail (clog_unlock l) = cl_tail l" "tail_cell (clog_unlock l) = tail_cell l"
  "stands_for (clog_unlock l) = stands_for l" "log_free (clog_unlock l)" "cl_data (clog_unlock l) = cl_data l"
  by (simp_all add: unlock_cases log_free_def)

lemma log_lock_ok: "log_free l \<Longrightarrow> \<exists>x. clog_lock l = Some (l\<lparr>cl_lock := x\<rparr>)"
  by (cases l) (auto simp: log_free_def clog_lock_def)

lemma item_size_unat:
  assumes "length key \<le> 31" "length value \<le> 131071"
  shows "unat (kv_item_size (byte_len key) (byte_len value)) = 8 * (2 + length key + length value)"
proof -
  have r: "unat (roundup 8 (byte_len ws)) = 8 * length ws" if "length ws \<le> 131071" for ws
  proof -
    have "unat (byte_len ws) = 8 * length ws" using that by (intro byte_len_unat) simp
    moreover have "unat (roundup (2 ^ 3) (byte_len ws)) = (unat (byte_len ws) + (2 ^ 3 - 1)) div 2 ^ 3 * 2 ^ 3"
      by (rule roundup_unat) (use calculation that in simp_all)
    ultimately show ?thesis by simp
  qed
  show ?thesis
    using assms r [of key] r [of "value"] by (simp add: kv_item_size_def unat_ucast_mod unat_word_ariths)
qed

lemma allocate_ok:
  assumes h: "clog_hist l H" and f: "kv_fits l key value" and room: "unat (cl_tail l) + 2 ^ 47 < 2 ^ 64"
  shows "\<exists>l'. pool_allocate (ucast (kv_item_size (byte_len key) (byte_len value))) (CircularLog l)
      = Some (offset_at (tail_cell l), CircularLog l')
    \<and> clog_hist l' (H @ [3 + length key + length value])
    \<and> cl_data l' = (cl_data l)[tail_cell l mod length (cl_data l) := of_nat (8 * (3 + length key + length value))]
    \<and> tail_cell l' = tail_cell l + (3 + length key + length value)"
proof -
  let ?c = "3 + length key + length value"
  have k: "length key \<le> 31" "length value \<le> 131071" "?c < length (cl_data l)" using f by (auto simp: kv_fits_def)
  let ?sz = "ucast (kv_item_size (byte_len key) (byte_len value)) + sizeof_Item :: u64"
  have u: "unat ?sz = 8 * ?c"
    using item_size_unat [OF k(1,2)] k by (simp add: unat_word_ariths unat_ucast_mod sizeof_Item_def)
  obtain l' where "push_tail ?sz l = Some (offset_at (tail_cell l), l')" "clog_hist l' (H @ [?c])"
    "cl_data l' = (cl_data l)[tail_cell l mod length (cl_data l) := ?sz]" "tail_cell l' = tail_cell l + ?c"
    using hist_push [OF h u _ k(3) room] by auto
  moreover have "?sz = of_nat (8 * ?c)" unfolding u [symmetric] by simp
  ultimately show ?thesis by (simp add: clog_allocate_def)
qed

text \<open>After an allocation, the new item may be written.\<close>

lemma written_item:
  assumes ok: "lossy_ok k l H T vl M vss"
    and a: "clog_hist l1 (H @ [c])" "cl_data l1 = (cl_data l)[tail_cell l mod length (cl_data l) := of_nat (8 * c)]"
      "tail_cell l1 = tail_cell l + c" "c = 3 + length key + length value" "kv_fits l key value"
    and d: "changes_words l1 d (tail_cell l) (2 + length key + length value)"
      "holds (l1\<lparr>cl_data := d\<rparr>) (tail_cell l) h key value"
    and v: "get_item_offset v = offset_at (tail_cell l)"
  shows "lossy_ok k (l1\<lparr>cl_data := d\<rparr>) (H @ [c]) T vl M vss"
    "stands_for (l1\<lparr>cl_data := d\<rparr>) (H @ [c]) v (tail_cell l) h key value"
    "word_at (l1\<lparr>cl_data := d\<rparr>) (tail_cell l) = of_nat (8 * c)"
proof -
  let ?l = "l1\<lparr>cl_data := d\<rparr>" and ?N = "length (cl_data l)" and ?p = "tail_cell l"
  have N: "length (cl_data l1) = ?N" "length d = ?N" using a(2) d(1) by (simp_all add: changes_words_def)
  have cN: "c < ?N" using a(4,5) by (simp add: kv_fits_def)
  have it: "(?p, c) \<in> set (items_from 0 (H @ [c]))"
    using hist_tail [OF lossy_okD(1) [OF ok]] by (simp add: items_from_append)
  have same: "d ! q = cl_data l1 ! q" if "\<forall>i. 0 < i \<longrightarrow> i < c \<longrightarrow> (?p + i) mod ?N \<noteq> q" for q
  proof -
    have "(?p + 1 + i) mod ?N \<noteq> q" if "i < 2 + length key + length value" for i
      using \<open>\<forall>i. _ i\<close> [rule_format, of "Suc i"] that a(4) by simp
    then show ?thesis using d(1) N(1) by (simp add: changes_words_def)
  qed
  have h: "clog_hist ?l (H @ [c])"
    by (rule hist_write [OF a(1) it]) (use a(3) cN N same in auto)
  have "?p mod ?N < ?N" using cN by (intro mod_less_divisor) linarith
  have keep: "word_at ?l q = word_at l q" if q: "q < ?p" "?p + c \<le> q + ?N" for q
  proof -
    have "(?p + i) mod ?N \<noteq> q mod ?N" if "i < c" for i
      using q that by (intro hist_mod_neq) simp_all
    then have "d ! (q mod ?N) = cl_data l1 ! (q mod ?N)" by (intro same) simp
    moreover have "?p mod ?N \<noteq> q mod ?N" using \<open>\<And>i. i < c \<Longrightarrow> (?p + i) mod ?N \<noteq> q mod ?N\<close> [of 0] a(4) by simp
    ultimately show ?thesis using N(2) a(2) by (simp add: word_at_def)
  qed
  have tl: "tail_cell ?l = ?p + c" using a(3) by (simp add: tail_cell_def)
  show "lossy_ok k ?l (H @ [c]) T vl M vss"
    by (rule lossy_appended [OF ok h]) (use N(2) tl keep in simp_all)
  show "stands_for ?l (H @ [c]) v ?p h key value"
    using it a(4,5) v d(2) tl cN N(2) by (simp add: stands_for_def kv_fits_def)
  have "(?p + i) mod ?N \<noteq> ?p mod ?N" if "0 < i" "i < c" for i
    using that cN by (intro hist_mod_neq) simp_all
  then have "d ! (?p mod ?N) = cl_data l1 ! (?p mod ?N)" by (intro same) simp
  then show "word_at ?l ?p = of_nat (8 * c)"
    using N(2) a(2) \<open>?p mod ?N < ?N\<close> by (simp add: word_at_def)
qed

text \<open>The cleanup at the end of an operation that appended.\<close>

lemma finish_ok:
  assumes at: "lossy_at k l vss t" "quiet t" and ok: "lossy_ok k l H (8 * p) vl M vss"
    and p: "p \<le> tail_cell l" "tail_cell l \<le> p + 2 ^ 20"
  shows "\<exists>t' vss'. cleanup_bucket (offset_at p) (cl_tail l) t = Some t' \<and> lossy_at k l vss' t' \<and> quiet t'
    \<and> lossy_ok k l H (8 * tail_cell l) vl M vss'
    \<and> (\<forall>b i. i < length (vss ! b) \<longrightarrow> vss ! b ! i \<noteq> 0 \<longrightarrow> clog_is_valid (get_item_offset (vss ! b ! i)) l \<longrightarrow>
        i < length (vss' ! b) \<and> vss' ! b ! i = vss ! b ! i)"
proof -
  note D = lossy_okD [OF ok]
  let ?js = "[8 * p div 2 ^ (47 - k)..<8 * tail_cell l div 2 ^ (47 - k)]"
  have "8 * tail_cell l < 8 * p + 2 ^ 46" using p(2) by simp
  then obtain t' where t': "cleanup_bucket (offset_at p) (cl_tail l) t = Some t'"
    "lossy_at k l (clean_range k l ?js vss) t'" "quiet t'"
    using cleanup_ok [OF at hist_bound [OF D(1) p(1)] p(1) hist_tail8 [OF D(1)]] by blast
  have c: "lossy_ok k l H (8 * p) vl M (clean_range k l ?js vss)"
    "\<forall>j \<in> set ?js. \<forall>v \<in> set (clean_range k l ?js vss ! (j mod 2 ^ k)). v \<noteq> 0 \<longrightarrow> clog_is_valid (get_item_offset v) l"
    using clean_range_ok [OF ok] by blast+
  have "lossy_ok k l H (8 * tail_cell l) vl M (clean_range k l ?js vss)"
    by (rule lossy_clean [OF c(1)]) (use p c(2) in simp_all)
  then show ?thesis
    using t' clean_range_keeps(2) [of k l ?js vss] clean_range_keeps(3) [of vss _ _ l k ?js]
    by (intro exI [of _ t'] exI [of _ "clean_range k l ?js vss"]) simp
qed

end
