(* ===== verification/Lossy_Ops.thy ===== *)
theory Lossy_Ops
  imports Lossy_Table
begin

text \<open>
  The operations of a lossy table, each under the invariant \<^verbatim>\<open>lossy_state\<close>: it returns, keeps the
  invariant for the map it leaves, and its answer is one that map allows.
\<close>

section \<open>The operations\<close>

definition lossy_state ::
  "nat \<Rightarrow> circular_log \<Rightarrow> nat list \<Rightarrow> (u64 \<times> u64 list \<Rightarrow> nat) \<Rightarrow> (u64 \<times> u64 list \<Rightarrow> u64 list option)
     \<Rightarrow> u64 list list \<Rightarrow> ltable \<Rightarrow> bool" where
  "lossy_state k l H vl M vss t \<longleftrightarrow>
     lossy_at k l vss t \<and> quiet t \<and> log_free l \<and> lossy_ok k l H (8 * tail_cell l) vl M vss"

definition stored :: "nat \<Rightarrow> circular_log \<Rightarrow> nat list \<Rightarrow> u64 list list \<Rightarrow> u64 \<Rightarrow> u64 list \<Rightarrow> bool" where
  "stored k l H vss h key \<longleftrightarrow>
     (\<exists>i<length (vss ! home k h). vss ! home k h ! i \<noteq> 0 \<and> (\<exists>p value. stands_for l H (vss ! home k h ! i) p h key value))"

lemma stored_lock [simp]: "stored k (l\<lparr>cl_lock := x\<rparr>) H vss h key = stored k l H vss h key"
  by (simp add: stored_def)

lemma stored_unlock [simp]: "stored k (clog_unlock l) H vss h key = stored k l H vss h key"
  by (simp add: unlock_cases)

definition room :: "circular_log \<Rightarrow> bool" where "room l \<longleftrightarrow> unat (cl_tail l) + 2 ^ 47 < 2 ^ 64"

lemma room_lock [simp]: "room (l\<lparr>cl_lock := x\<rparr>) = room l"
  by (simp add: room_def)

lemma offset_not_insufficient: "8 * p < 2 ^ 64 \<Longrightarrow> offset_at p \<noteq> kInsufficientSpace"
proof
  assume p: "8 * p < 2 ^ 64" and e: "offset_at p = kInsufficientSpace"
  have "unat kInsufficientSpace = 2 ^ 64 - 1" by (simp add: kInsufficientSpace_def unsigned_minus_1_eq_mask mask_eq_exp_minus_1)
  moreover have "unat (offset_at p) < 2 ^ 48" unfolding unat_offset_at [OF p] by simp
  ultimately show False using e by simp
qed

lemma append_item:
  assumes ok: "lossy_ok k l H T vl M vss" and f: "kv_fits l key value" "length value = vl (h, key)" and r: "room l"
    and i: "i < length (vss ! home k h)"
      "\<forall>j<length (vss ! home k h). j \<noteq> i \<longrightarrow> vss ! home k h ! j \<noteq> 0 \<longrightarrow> get_tag (vss ! home k h ! j) \<noteq> calc_tag h"
    and al: "clog_hist l1 (H @ [3 + length key + length value])"
      "cl_data l1 = (cl_data l)[tail_cell l mod length (cl_data l) := of_nat (8 * (3 + length key + length value))]"
      "tail_cell l1 = tail_cell l + (3 + length key + length value)"
    and d: "changes_words l1 d (tail_cell l) (2 + length key + length value)"
      "holds (l1\<lparr>cl_data := d\<rparr>) (tail_cell l) h key value"
  defines "v \<equiv> make_item_vec (calc_tag h) (offset_at (tail_cell l))" and "b \<equiv> home k h"
  shows "lossy_ok k (l1\<lparr>cl_data := d\<rparr>) (H @ [3 + length key + length value]) T vl (M((h, key) \<mapsto> value))
      (vss[b := (vss ! b)[i := v]])"
    "stands_for (l1\<lparr>cl_data := d\<rparr>) (H @ [3 + length key + length value]) v (tail_cell l) h key value"
proof -
  have v: "get_item_offset v = offset_at (tail_cell l)" "get_tag v = calc_tag h"
    by (simp_all add: v_def item_vec_fields)
  note w = written_item [OF ok al(1,2,3) refl f(1) d v(1)]
  show "stands_for (l1\<lparr>cl_data := d\<rparr>) (H @ [3 + length key + length value]) v (tail_cell l) h key value"
    by (rule w(2))
  show "lossy_ok k (l1\<lparr>cl_data := d\<rparr>) (H @ [3 + length key + length value]) T vl (M((h, key) \<mapsto> value))
      (vss[b := (vss ! b)[i := v]])"
    by (rule lossy_store [OF w(1,2,3) v(2) f(2) meta_eq_to_obj_eq [OF b_def]]) (use i in \<open>simp_all add: b_def\<close>)
qed

lemma set_append_ok:
  assumes ok: "lossy_ok k l H T vl M vss" and f: "kv_fits l key value" "length value = vl (h, key)" and r: "room l"
    and i: "i < length (vss ! home k h)"
      "\<forall>j<length (vss ! home k h). j \<noteq> i \<longrightarrow> vss ! home k h ! j \<noteq> 0 \<longrightarrow> get_tag (vss ! home k h ! j) \<noteq> calc_tag h"
  defines "v \<equiv> make_item_vec (calc_tag h) (offset_at (tail_cell l))" and "b \<equiv> home k h"
  shows "\<exists>l1 l2. pool_allocate (ucast (kv_item_size (byte_len key) (byte_len value))) (CircularLog l)
        = Some (offset_at (tail_cell l), CircularLog l1)
    \<and> set_item (offset_at (tail_cell l)) h key value (CircularLog l1) = Some (CircularLog l2)
    \<and> cl_tail l2 = cl_tail l1 \<and> tail_cell l2 = tail_cell l + (3 + length key + length value)
    \<and> length (cl_data l2) = length (cl_data l)
    \<and> lossy_ok k l2 (H @ [3 + length key + length value]) T vl (M((h, key) \<mapsto> value)) (vss[b := (vss ! b)[i := v]])
    \<and> stands_for l2 (H @ [3 + length key + length value]) v (tail_cell l) h key value"
proof -
  obtain l1 where l1: "pool_allocate (ucast (kv_item_size (byte_len key) (byte_len value))) (CircularLog l)
      = Some (offset_at (tail_cell l), CircularLog l1)"
    "clog_hist l1 (H @ [3 + length key + length value])"
    "cl_data l1 = (cl_data l)[tail_cell l mod length (cl_data l) := of_nat (8 * (3 + length key + length value))]"
    "tail_cell l1 = tail_cell l + (3 + length key + length value)"
    using allocate_ok [OF lossy_okD(1) [OF ok] f(1)] r by (auto simp: room_def)
  have "kv_fits l1 key value" using f(1) l1(3) by (simp add: kv_fits_def)
  moreover have "8 * tail_cell l < 2 ^ 64" using hist_bound [OF lossy_okD(1) [OF ok], of "tail_cell l"] by simp
  ultimately obtain d where d: "set_item (offset_at (tail_cell l)) h key value (CircularLog l1) = Some (CircularLog (l1\<lparr>cl_data := d\<rparr>))"
    "changes_words l1 d (tail_cell l) (2 + length key + length value)" "holds (l1\<lparr>cl_data := d\<rparr>) (tail_cell l) h key value"
    using set_item_log [OF hist_shape [OF l1(2)]] by blast
  note a = append_item [OF ok f r i l1(2,3,4) d(2,3), folded v_def b_def]
  have "length d = length (cl_data l)" using d(2) l1(3) by (simp add: changes_words_def)
  then show ?thesis
    using l1(1,4) d(1) a by (intro exI [of _ l1] exI [of _ "l1\<lparr>cl_data := d\<rparr>"]) (simp add: tail_cell_def)
qed

definition grows :: "circular_log \<Rightarrow> circular_log \<Rightarrow> bool" where
  "grows l l' \<longleftrightarrow> length (cl_data l') = length (cl_data l) \<and> tail_cell l \<le> tail_cell l' \<and> tail_cell l' \<le> tail_cell l + 2 ^ 18"

lemma grows_refl [simp]: "grows l l" by (simp add: grows_def)

lemma set_new_item_ok:
  assumes at: "lossy_at k l vss t" "held b t" and ok: "lossy_ok k l H (8 * tail_cell l) vl M vss"
    and f: "kv_fits l key value" "length value = vl (h, key)" and r: "room l" and b: "b = home k h"
    and i: "i < length (vss ! b)"
      "\<forall>j<length (vss ! b). j \<noteq> i \<longrightarrow> vss ! b ! j \<noteq> 0 \<longrightarrow> get_tag (vss ! b ! j) \<noteq> calc_tag h"
  shows "\<exists>t' l' H' vss'. set_new_item b h key value overwriting off (b, i) t = Some (KSuccess, t')
    \<and> lossy_state k l' H' vl (M((h, key) \<mapsto> value)) vss' t' \<and> stored k l' H' vss' h key \<and> grows l l'"
proof -
  note D = lossy_okD [OF ok]
  let ?p = "tail_cell l" and ?c = "3 + length key + length value" and ?H = "H @ [3 + length key + length value]"
  let ?v = "make_item_vec (calc_tag h) (offset_at ?p)" and ?M = "M((h, key) \<mapsto> value)"
  have bk: "b < 2 ^ k" using home_less [OF D(3)] b by simp
  have bl: "b < length vss" "b < length (lt_buckets t)" using bk D(5) lossy_atD(11) [OF at(1)] by simp_all
  have pt: "lt_pool t = CircularLog l" using lossy_atD(2) [OF at(1)] .
  obtain l1 l2 where a: "pool_allocate (ucast (kv_item_size (byte_len key) (byte_len value))) (CircularLog l)
        = Some (offset_at ?p, CircularLog l1)"
    "set_item (offset_at ?p) h key value (CircularLog l1) = Some (CircularLog l2)"
    "cl_tail l2 = cl_tail l1" "tail_cell l2 = ?p + ?c" "length (cl_data l2) = length (cl_data l)"
    "lossy_ok k l2 ?H (8 * ?p) vl ?M (vss[b := (vss ! b)[i := ?v]])" "stands_for l2 ?H ?v ?p h key value"
    using set_append_ok [OF ok f r, of i] i b by (auto simp del: pool_allocate.simps)
  let ?l3 = "clog_unlock l2"
  let ?vss = "vss[b := (vss ! b)[i := ?v]]"
  have c: "?c \<le> 2 ^ 18" using f(1) by (simp add: kv_fits_def)
  have p: "8 * ?p < 2 ^ 64" using hist_bound [OF D(1), of ?p] by simp
  define t3 where "t3 = stat_add 1 s_set_new_update (t\<lparr>lt_pool := CircularLog ?l3\<rparr>)"
  define t4 where "t4 = set_item_vec b i ?v (if item_vec b i t3 \<noteq> 0
      then stat_add (- 1) s_count_update (stat_add 1 s_set_evicted_update t3) else t3)"
  have t4: "lossy_at k ?l3 ?vss t4" "held b t4"
  proof -
    have "lossy_at k ?l3 vss t3" unfolding t3_def using lossy_at_pool [OF at(1)] by simp
    then show "lossy_at k ?l3 ?vss t4" unfolding t4_def by (intro lossy_at_set) simp
    show "held b t4" using at(2) by (simp add: t4_def t3_def)
  qed
  note u = unlock_ok [OF t4]
  have "lossy_ok k ?l3 ?H (8 * ?p) vl ?M ?vss" using a(6) by simp
  moreover have "tail_cell ?l3 = ?p + ?c" using a(4) by simp
  ultimately obtain t' vss' where t': "cleanup_bucket (offset_at ?p) (cl_tail ?l3) (unlock_bucket b t4) = Some t'"
    "lossy_at k ?l3 vss' t'" "quiet t'" "lossy_ok k ?l3 ?H (8 * tail_cell ?l3) vl ?M vss'"
    "i < length (?vss ! b) \<longrightarrow> ?vss ! b ! i \<noteq> 0 \<longrightarrow> clog_is_valid (get_item_offset (?vss ! b ! i)) ?l3 \<longrightarrow>
        i < length (vss' ! b) \<and> vss' ! b ! i = ?vss ! b ! i"
    using finish_ok [OF u, of ?H ?p vl ?M] c by auto
  have st3: "stands_for ?l3 ?H ?v ?p h key value" using a(7) by simp
  then have "clog_is_valid (get_item_offset ?v) ?l3" by (rule stands_for_valid [OF lossy_okD(1) [OF t'(4)]])
  then have "i < length (vss' ! b)" "vss' ! b ! i = ?v" using t'(5) i(1) bl(1) make_item_vec_nonzero by simp_all
  then have st: "stored k ?l3 ?H vss' h key"
    using st3 make_item_vec_nonzero [of h ?p] b unfolding stored_def
    by (intro exI [of _ i] conjI exI [of _ ?p] exI [of _ "value"]) simp_all
  have pt': "lt_pool t' = CircularLog ?l3" using lossy_atD(2) [OF t'(2)] .
  then have same: "t'\<lparr>lt_pool := CircularLog ?l3\<rparr> = t'" by (cases t') simp
  have ne: "offset_at ?p \<noteq> kInsufficientSpace" using offset_not_insufficient [OF p] .
  have c1: "item_vec b i t3 \<noteq> 0 \<Longrightarrow> cleanup_bucket (offset_at ?p) (cl_tail l1) (unlock_bucket b
      (set_item_vec b i ?v (stat_add (- 1) s_count_update (stat_add 1 s_set_evicted_update t3)))) = Some t'"
    and c2: "item_vec b i t3 = 0 \<Longrightarrow>
      cleanup_bucket (offset_at ?p) (cl_tail l1) (unlock_bucket b (set_item_vec b i ?v t3)) = Some t'"
    using t'(1) a(3) by (simp_all add: t4_def)
  have "set_new_item b h key value overwriting off (b, i) t = Some (KSuccess, stat_add 1 s_count_update t')"
    by (simp add: set_new_item_def Let_def with_pool_def pt a(1-3) ne t3_def [symmetric] c1 c2 pt' same
        clog_release_def del: pool_allocate.simps)
  moreover have "lossy_state k ?l3 ?H vl ?M vss' (stat_add 1 s_count_update t')"
    using t' by (simp add: lossy_state_def)
  moreover have "grows l ?l3" using a(4,5) c by (simp add: grows_def)
  ultimately show ?thesis using st by blast
qed

lemma slot_of_match:
  assumes ok: "lossy_ok k l H (8 * tail_cell l) vl M vss" and key: "length key \<le> 31"
    and b: "b = home k h" "i < length (vss ! b)" and v: "v = vss ! b ! i" "get_tag v = calc_tag h"
    and m: "matches (CircularLog l) h key v = Some True"
  shows "v \<noteq> 0" "\<forall>j<length (vss ! b). j \<noteq> i \<longrightarrow> vss ! b ! j \<noteq> 0 \<longrightarrow> get_tag (vss ! b ! j) \<noteq> calc_tag h"
    "clog_is_valid (get_item_offset v) l \<Longrightarrow> \<exists>p value. stands_for l H v p h key value
       \<and> word_at l p = of_nat (8 * (3 + length key + length value)) \<and> M (h, key) = Some value \<and> length value = vl (h, key)"
proof -
  note D = lossy_okD [OF ok]
  have bk: "b < 2 ^ k" using home_less [OF D(3)] b(1) by simp
  show nz: "v \<noteq> 0" using v(2) calc_tag_nonzero [of h] by (auto simp: get_tag_def)
  then show "\<forall>j<length (vss ! b). j \<noteq> i \<longrightarrow> vss ! b ! j \<noteq> 0 \<longrightarrow> get_tag (vss ! b ! j) \<noteq> calc_tag h"
    using D(6) [OF bk] b(2) v unfolding bucket_ok_def by metis
  have s: "slot_ok k l H (8 * tail_cell l) vl M b v"
    using D(6) [OF bk] b(2) v(1) nz by (auto simp: bucket_ok_def)
  show "\<exists>p value. stands_for l H v p h key value
      \<and> word_at l p = of_nat (8 * (3 + length key + length value)) \<and> M (h, key) = Some value \<and> length value = vl (h, key)"
    if val: "clog_is_valid (get_item_offset v) l"
  proof -
    obtain p h' key' "value" where st: "stands_for l H v p h' key' value"
      "word_at l p = of_nat (8 * (3 + length key' + length value))" "M (h', key') = Some value"
      "length value = vl (h', key')"
      by (rule valid_slot [OF ok s bk _ val]) (auto intro: that)
    moreover have "h = h' \<and> key = key'" using matches_stands [OF D(1) st(1) key, of h] m by simp
    ultimately show ?thesis by blast
  qed
qed

lemma not_stored:
  assumes ok: "lossy_ok k l H (8 * tail_cell l) vl M vss" and key: "length key \<le> 31"
    and none: "\<forall>v \<in> set (vss ! home k h). get_tag v = calc_tag h \<longrightarrow> matches (CircularLog l) h key v = Some False"
  shows "v \<in> set (vss ! home k h) \<Longrightarrow> get_tag v = calc_tag h \<Longrightarrow> \<not> stands_for l H v p h key value"
  using none matches_stands [OF lossy_okD(1) [OF ok] _ key, of v p h key "value" h] by auto

lemma set_located_ok:
  assumes at: "lossy_at k l vss t" "held b t" "log_free l" and ok: "lossy_ok k l H (8 * tail_cell l) vl M vss"
    and f: "kv_fits l key value" "length value = vl (h, key)" and r: "room l" and b: "b = home k h"
    and i: "i < length (vss ! b)"
      "\<forall>j<length (vss ! b). j \<noteq> i \<longrightarrow> vss ! b ! j \<noteq> 0 \<longrightarrow> get_tag (vss ! b ! j) \<noteq> calc_tag h"
    and ow: "overwriting \<Longrightarrow> get_tag (vss ! b ! i) = calc_tag h \<and> matches (CircularLog l) h key (vss ! b ! i) = Some True"
  shows "\<exists>t' l' H' vss'. set_located b h key value overwriting (b, i) t = Some (KSuccess, t')
    \<and> lossy_state k l' H' vl (M((h, key) \<mapsto> value)) vss' t' \<and> stored k l' H' vss' h key \<and> grows l l'"
proof -
  note D = lossy_okD [OF ok]
  have bk: "b < 2 ^ k" using home_less [OF D(3)] b by simp
  have bl: "b < length (lt_buckets t)" using bk D(5) lossy_atD(11) [OF at(1)] by simp
  have pt: "lt_pool t = CircularLog l" using lossy_atD(2) [OF at(1)] .
  have k31: "length key \<le> 31" "length value \<le> 131071" using f(1) by (auto simp: kv_fits_def)
  obtain x where x: "clog_lock l = Some (l\<lparr>cl_lock := x\<rparr>)" using log_lock_ok [OF at(3)] by blast
  let ?lx = "l\<lparr>cl_lock := x\<rparr>" and ?v = "vss ! b ! i"
  have iv: "item_vec b i t = ?v"
    using bl item_vec_vecs [of b t i] lossy_atD(3) [OF at(1)] by simp
  let ?t1 = "t\<lparr>lt_pool := CircularLog ?lx\<rparr>"
  have t1: "lossy_at k ?lx vss ?t1" "held b ?t1" using lossy_at_pool [OF at(1)] at(2) by simp_all
  show ?thesis
  proof (cases "overwriting \<and> clog_is_valid (get_item_offset ?v) l")
    case False
    then have "set_located b h key value overwriting (b, i) t
        = set_new_item b h key value overwriting (if overwriting then get_item_offset ?v else 0) (b, i) ?t1"
      by (auto simp: set_located_def Let_def with_pool_def pt x iv clog_is_valid_def)
    moreover have okx: "lossy_ok k ?lx H (8 * tail_cell ?lx) vl M vss" "kv_fits ?lx key value" "room ?lx"
      using ok f(1) r by simp_all
    moreover have "grows ?lx l' = grows l l'" for l' by (simp add: grows_def)
    ultimately show ?thesis
      using set_new_item_ok [where vl = vl, OF t1 okx(1,2) f(2) okx(3) b i] by metis
  next
    case True
    note m = slot_of_match [OF ok k31(1) b i(1) refl]
    obtain p old where st: "stands_for l H ?v p h key old" "word_at l p = of_nat (8 * (3 + length key + length old))"
      "M (h, key) = Some old" "length old = vl (h, key)"
      using m(3) ow True by blast
    have nz: "?v \<noteq> 0" using m(1) ow True by blast
    have le: "p \<le> tail_cell l" using stands_for_le [OF D(1) st(1)] by simp
    have p8: "8 * p < 2 ^ 64" using hist_bound [OF D(1) le] .
    have s: "get_item_offset ?v = offset_at p" "holds l p h key old" "kv_fits l key old" using st(1) by (auto simp: stands_for_def)
    have "clog_item_size (get_item_offset ?v) ?lx = word_at l p"
      using size_cell_offset_at [OF hist_shape [OF D(1)] p8] s(1)
      by (simp add: clog_item_size_def word_at_def size_cell_def)
    moreover have "ucast (kv_item_size (byte_len key) (byte_len value)) \<le> (of_nat (8 * (3 + length key + length old)) :: u64)"
    proof -
      have len: "length old = length value" using st(4) f(2) by simp
      have "unat (of_nat (8 * (3 + length key + length old)) :: u64) = 8 * (3 + length key + length old)"
        using k31 len by (intro unat_cells_word) simp
      then show ?thesis
        unfolding unat_le_iff using item_size_unat [OF k31] k31 len by (simp add: unat_ucast_mod)
    qed
    moreover have "is_valid (CircularLog ?lx) (get_item_offset ?v)" using True by (simp add: clog_is_valid_def)
    moreover obtain d where d: "set_item_value (offset_at p) value (CircularLog ?lx) = Some (CircularLog (?lx\<lparr>cl_data := d\<rparr>))"
      "changes_words ?lx d p (2 + length key + length value)" "holds (?lx\<lparr>cl_data := d\<rparr>) p h key value"
      using set_item_value_log [of ?lx p key old "value" h] hist_shape [OF D(1)] p8 s f(1)
      by (auto simp: clog_shape_def)
    ultimately have run: "set_located b h key value overwriting (b, i) t = Some (KSuccess, unlock_bucket b
        (stat_add 1 s_set_inplace_update (t\<lparr>lt_pool := CircularLog (clog_unlock (?lx\<lparr>cl_data := d\<rparr>))\<rparr>)))"
      using True s(1) st(2) by (simp add: set_located_def Let_def with_pool_def pt x iv)
    let ?l2 = "?lx\<lparr>cl_data := d\<rparr>"
    let ?t2 = "stat_add 1 s_set_inplace_update (t\<lparr>lt_pool := CircularLog (clog_unlock ?l2)\<rparr>)"
    have "lossy_ok k ?l2 H (8 * tail_cell l) vl (M((h, key) \<mapsto> value)) vss"
      by (rule lossy_rewrite [where v = ?v and i = i and old = old])
        (use ok st(1,4) f(2) nz b i(1) d(2,3) in simp_all)
    moreover have t2: "lossy_at k (clog_unlock ?l2) vss ?t2" "held b ?t2" using lossy_at_pool [OF at(1)] at(2) by simp_all
    note unlock_ok [OF t2]
    moreover have "tail_cell (clog_unlock ?l2) = tail_cell l" by (simp add: tail_cell_def)
    ultimately have "lossy_state k (clog_unlock ?l2) H vl (M((h, key) \<mapsto> value)) vss (unlock_bucket b ?t2)"
      by (simp add: lossy_state_def)
    moreover have "stored k (clog_unlock ?l2) H vss h key"
    proof -
      have "stands_for (clog_unlock ?l2) H ?v p h key value"
        using st(1,4) f d by (auto simp: stands_for_def tail_cell_def kv_fits_def changes_words_def)
      then show ?thesis using nz i(1) b unfolding stored_def by blast
    qed
    moreover have "grows l (clog_unlock ?l2)" using d(2) by (simp add: grows_def tail_cell_def changes_words_def)
    ultimately show ?thesis using run by blast
  qed
qed

lemma tag_in_spec:
  "case tag_in tag i vs of None \<Rightarrow> \<forall>v\<in>set vs. get_tag v \<noteq> tag
   | Some j \<Rightarrow> i \<le> j \<and> j < i + length vs \<and> get_tag (vs ! (j - i)) = tag"
proof (induction vs arbitrary: i)
  case (Cons v vs)
  show ?case
  proof (cases "get_tag v = tag")
    case False
    show ?thesis
    proof (cases "tag_in tag (Suc i) vs")
      case (Some j)
      then have j: "Suc i \<le> j" "j < Suc i + length vs" "get_tag (vs ! (j - Suc i)) = tag" using Cons.IH [of "Suc i"] by auto
      then obtain m where "j = Suc i + m" using le_Suc_ex by blast
      then show ?thesis using False Some j by simp
    qed (use False Cons.IH [of "Suc i"] in simp)
  qed simp
qed simp

lemma find_same_tag_ok:
  assumes at: "lossy_at k l vss t" and b: "b < 2 ^ k"
  shows "\<exists>r. find_same_tag b tag t = Some r \<and>
    (case r of None \<Rightarrow> \<forall>v\<in>set (vss ! b). get_tag v \<noteq> tag
     | Some (b', i) \<Rightarrow> b' = b \<and> i < length (vss ! b) \<and> get_tag (vss ! b ! i) = tag)"
  using bucket_at_ok [OF at b] no_extra [OF at] tag_in_spec [where tag = tag and i = 0 and vs = "vss ! b"]
  by (subst find_same_tag.simps) (auto split: option.splits)

lemma oldest_in_spec:
  assumes "loc = None \<longrightarrow> d = - 1" "loc = None \<longrightarrow> vs \<noteq> []" "\<forall>d. (d AND get_mask p) < - 1"
    "\<forall>b' j. loc = Some (b', j) \<longrightarrow> b' = b \<and> j < i + length vs"
  shows "\<exists>j. j < i + length vs \<and> (oldest_in p b i (d, loc) vs = Inl (b, j) \<or>
    (\<exists>d'. oldest_in p b i (d, loc) vs = Inr (d', Some (b, j))))"
  using assms
proof (induction vs arbitrary: i d loc)
  case Nil
  then show ?case by (cases loc) auto
next
  case (Cons v vs)
  show ?case
  proof (cases "v = 0")
    case False
    let ?e = "(get_tail p - get_item_offset v) AND get_mask p"
    let ?acc = "if d > ?e then (?e, Some (b, i)) else (d, loc)"
    have "snd ?acc \<noteq> None" using Cons.prems(1,3) by (cases loc) auto
    moreover have "\<forall>b' j. snd ?acc = Some (b', j) \<longrightarrow> b' = b \<and> j < Suc i + length vs"
      using Cons.prems(4) by auto
    ultimately show ?thesis
      using Cons.IH [of "snd ?acc" "fst ?acc" "Suc i"] Cons.prems(3) False
      by (simp only: oldest_in.simps if_False Let_def prod.collapse list.size add_Suc_right add_Suc) auto
  qed simp
qed

lemma mask_less_max: "e \<le> 63 \<Longrightarrow> ((d :: u64) AND mask e) < - 1"
proof -
  assume e: "e \<le> 63"
  have "unat (d AND mask e) < 2 ^ e" unfolding unat_and_mask by simp
  also have "(2 :: nat) ^ e \<le> 2 ^ 63" using e by (intro power_increasing) simp_all
  finally show ?thesis by (simp add: unat_lt_iff unsigned_minus_1_eq_mask mask_eq_exp_minus_1)
qed

lemma oldest_ok:
  assumes at: "lossy_at k l vss t" and b: "b < 2 ^ k" and sh: "clog_shape l"
  shows "\<exists>i<length (vss ! b). get_empty_or_oldest b t = Some (Some (b, i), t)"
proof -
  have "vss ! b \<noteq> []" using lossy_atD(9,10) [OF at] b by fastforce
  moreover have "\<forall>d. (d AND get_mask (CircularLog l)) < - 1"
    using sh mask_less_max by (auto simp: clog_shape_def)
  ultimately obtain j where "j < length (vss ! b)"
    "oldest_in (CircularLog l) b 0 (- 1, None) (vss ! b) = Inl (b, j) \<or>
      (\<exists>d'. oldest_in (CircularLog l) b 0 (- 1, None) (vss ! b) = Inr (d', Some (b, j)))"
    using oldest_in_spec [of None "- 1" "vss ! b" "CircularLog l" b 0] by auto
  then show ?thesis
    using bucket_at_ok [OF at b] no_extra [OF at] lossy_atD(2) [OF at]
    by (auto simp: get_empty_or_oldest_def oldest_loop.simps [of _ b])
qed

lemma lossy_stateD:
  assumes "lossy_state k l H vl M vss t"
  shows "lossy_at k l vss t" "quiet t" "log_free l" "lossy_ok k l H (8 * tail_cell l) vl M vss"
    "home_bucket h t = home k h" "home k h < 2 ^ k"
  using assms home_bucket_home [of k l vss t h] home_less [of k h] by (auto simp: lossy_state_def lossy_ok_def)

lemma stored_matches:
  assumes ok: "lossy_ok k l H (8 * tail_cell l) vl M vss" and key: "length key \<le> 31" and s: "stored k l H vss h key"
  shows "\<exists>v \<in> set (vss ! home k h). get_tag v = calc_tag h \<and> matches (CircularLog l) h key v = Some True"
proof -
  note D = lossy_okD [OF ok]
  have b: "home k h < 2 ^ k" using home_less [OF D(3)] .
  obtain i p "value" where i: "i < length (vss ! home k h)" "vss ! home k h ! i \<noteq> 0"
    "stands_for l H (vss ! home k h ! i) p h key value"
    using s by (auto simp: stored_def)
  let ?v = "vss ! home k h ! i"
  have "slot_ok k l H (8 * tail_cell l) vl M (home k h) ?v" using D(6) [OF b] i(1,2) by (auto simp: bucket_ok_def)
  then have "calc_tag h = get_tag ?v" using stands_slot [OF ok _ b _ i(3)] by simp
  then show ?thesis using matches_stands [OF D(1) i(3) key, of h] nth_mem [OF i(1)] by auto
qed

text \<open>If a table holds a key, the slot that matches it is where.\<close>

lemma stored_at:
  assumes st: "lossy_state k l H vl M vss t" and key: "length key \<le> 31"
    and i: "i < length (vss ! home k h)" "get_tag (vss ! home k h ! i) = calc_tag h"
      "matches (CircularLog l) h key (vss ! home k h ! i) = Some True"
    and s: "stored k l H vss h key"
  shows "\<exists>p value. stands_for l H (vss ! home k h ! i) p h key value \<and> M (h, key) = Some value"
proof -
  note S = lossy_stateD [OF st]
  let ?b = "home k h"
  obtain j p "value" where j: "j < length (vss ! ?b)" "vss ! ?b ! j \<noteq> 0" "stands_for l H (vss ! ?b ! j) p h key value"
    using s by (auto simp: stored_def)
  have "slot_ok k l H (8 * tail_cell l) vl M ?b (vss ! ?b ! j)"
    using lossy_okD(6) [OF S(4) S(6)] j(1,2) by (auto simp: bucket_ok_def)
  note v = stands_slot [OF S(4) this S(6) _ j(3)]
  then have "j = i" using slot_of_match(2) [OF S(4) key refl i(1) refl i(2,3)] j(1,2) by auto
  then show ?thesis using j(3) v by auto
qed

text \<open>Emptying the slot that matches a key leaves every other key stored.\<close>

lemma stored_clear:
  assumes ok: "lossy_ok k l H (8 * tail_cell l) vl M vss" and key: "length key \<le> 31"
    and m: "matches (CircularLog l) h key (vss ! home k h ! i) = Some True"
    and s: "stored k l H vss h' key'" "(h', key') \<noteq> (h, key)"
  shows "stored k l H (vss[home k h := (vss ! home k h)[i := 0]]) h' key'"
proof -
  obtain j p "value" where j: "j < length (vss ! home k h')" "vss ! home k h' ! j \<noteq> 0"
    "stands_for l H (vss ! home k h' ! j) p h' key' value"
    using s(1) by (auto simp: stored_def)
  have "home k h' \<noteq> home k h \<or> j \<noteq> i"
  proof (rule ccontr)
    assume "\<not> (home k h' \<noteq> home k h \<or> j \<noteq> i)"
    then have "matches (CircularLog l) h key (vss ! home k h ! i) = Some (h = h' \<and> key = key')"
      using matches_stands [OF lossy_okD(1) [OF ok] j(3) key, of h] by simp
    then show False using m s(2) by simp
  qed
  define vss' where "vss' = vss[home k h := (vss ! home k h)[i := 0]]"
  have bl: "home k h < length vss"
    using home_less [OF lossy_okD(3) [OF ok], of h] lossy_okD(5) [OF ok] by simp
  have "vss' ! home k h' ! j = vss ! home k h' ! j"
    using \<open>home k h' \<noteq> home k h \<or> j \<noteq> i\<close> bl
    by (cases "home k h' = home k h") (auto simp: vss'_def)
  moreover have "length (vss' ! home k h') = length (vss ! home k h')"
    using bl by (cases "home k h' = home k h") (auto simp: vss'_def)
  ultimately have "stored k l H vss' h' key'"
    unfolding stored_def using j by (intro exI [of _ j] conjI exI [of _ p] exI [of _ "value"]) simp_all
  then show ?thesis by (simp only: vss'_def)
qed

lemma set_ok:
  assumes st: "lossy_state k l H vl M vss t" and f: "kv_fits l key value" "length value = vl (h, key)" and r: "room l"
  shows "\<exists>res t' l' H' vss'. ltable_set h key value overwrite t = Some (res, t') \<and> grows l l' \<and>
    (res = KSuccess \<and> (overwrite \<or> \<not> stored k l H vss h key)
       \<and> lossy_state k l' H' vl (M((h, key) \<mapsto> value)) vss' t' \<and> stored k l' H' vss' h key
     \<or> res = KExists \<and> \<not> overwrite \<and> l' = l \<and> H' = H \<and> vss' = vss \<and> lossy_state k l H vl M vss t')"
proof -
  have s: "lossy_at k l vss t" "quiet t" "log_free l" "lossy_ok k l H (8 * tail_cell l) vl M vss"
    using st by (auto simp: lossy_state_def)
  note D = lossy_okD [OF s(4)]
  define b where "b = home k h"
  have bk: "b < 2 ^ k" using home_less [OF D(3)] by (simp add: b_def)
  have hb: "home_bucket h t = b" using home_bucket_home [OF s(1)] by (simp add: b_def)
  have k31: "length key \<le> 31" using f(1) by (simp add: kv_fits_def)
  obtain t1 where t1: "lock_bucket b t = Some t1" "lossy_at k l vss t1" "held b t1"
    using lock_ok [OF s(1,2) bk] by blast
  have cfg: "kEviction (lt_config t1)" "is_circular (lt_pool t1)"
    using lossy_atD(1,2) [OF t1(2)] by simp_all
  note bo = D(6) [OF bk]
  obtain found where fi: "find_item_index b h (calc_tag h) key t1 = Some found"
    "case found of None \<Rightarrow> \<forall>v\<in>set (vss ! b). get_tag v = calc_tag h \<longrightarrow> matches (CircularLog l) h key v = Some False
     | Some (b', i) \<Rightarrow> b' = b \<and> i < length (vss ! b) \<and> get_tag (vss ! b ! i) = calc_tag h
         \<and> matches (CircularLog l) h key (vss ! b ! i) = Some True"
    using find_ok [OF t1(2) bk hist_shape [OF D(1)] k31] by blast
  note loc = set_located_ok [OF t1(2,3) s(3,4) f r b_def]
  show ?thesis
  proof (cases found)
    case (Some p)
    then obtain i where i: "found = Some (b, i)" "i < length (vss ! b)" "get_tag (vss ! b ! i) = calc_tag h"
      "matches (CircularLog l) h key (vss ! b ! i) = Some True"
      using fi(2) by (cases p) auto
    show ?thesis
    proof (cases overwrite)
      case True
      then have eq: "ltable_set h key value overwrite t = set_located b h key value True (b, i) t1"
        using fi(1) i(1) t1(1) by (simp add: ltable_set_def hb Let_def)
      show ?thesis
        unfolding eq using True loc [OF i(2), of True] slot_of_match(2) [OF s(4) k31 b_def i(2) refl i(3,4)] i(3,4) by blast
    next
      case False
      let ?t' = "unlock_bucket b (stat_add 1 s_set_nooverwrite_update t1)"
      have "ltable_set h key value overwrite t = Some (KExists, ?t')"
        using fi(1) i(1) t1(1) False by (simp add: ltable_set_def hb Let_def)
      moreover have "lossy_state k l H vl M vss ?t'"
        using unlock_ok [of k l vss "stat_add 1 s_set_nooverwrite_update t1" b] t1(2,3) s(3,4) by (simp add: lossy_state_def)
      ultimately show ?thesis using False grows_refl by blast
    qed
  next
    case None
    obtain same where fs: "find_same_tag b (calc_tag h) t1 = Some same"
      "case same of None \<Rightarrow> \<forall>v\<in>set (vss ! b). get_tag v \<noteq> calc_tag h
       | Some (b', i) \<Rightarrow> b' = b \<and> i < length (vss ! b) \<and> get_tag (vss ! b ! i) = calc_tag h"
      using find_same_tag_ok [OF t1(2) bk] by blast
    obtain j where j: "j < length (vss ! b)" "get_empty_or_oldest b t1 = Some (Some (b, j), t1)"
      using oldest_ok [OF t1(2) bk hist_shape [OF D(1)]] by blast
    obtain i where i: "ltable_set h key value overwrite t = set_located b h key value False (b, i) t1"
      "i < length (vss ! b)"
      "\<forall>j<length (vss ! b). j \<noteq> i \<longrightarrow> vss ! b ! j \<noteq> 0 \<longrightarrow> get_tag (vss ! b ! j) \<noteq> calc_tag h"
    proof (cases same)
      case sn: None
      have "ltable_set h key value overwrite t = set_located b h key value False (b, j) t1"
        using fi(1) None t1(1) fs(1) sn j(2) cfg by (simp add: ltable_set_def hb Let_def)
      then show ?thesis using that [of j] j(1) fs(2) sn nth_mem by fastforce
    next
      case (Some p)
      then obtain i where i: "same = Some (b, i)" "i < length (vss ! b)" "get_tag (vss ! b ! i) = calc_tag h"
        using fs(2) by (cases p) auto
      have "ltable_set h key value overwrite t = set_located b h key value False (b, i) t1"
        using fi(1) None t1(1) fs(1) i(1) cfg by (simp add: ltable_set_def hb Let_def)
      moreover have "vss ! b ! i \<noteq> 0" using i(3) calc_tag_nonzero [of h] by (auto simp: get_tag_def)
      ultimately show ?thesis using that [of i] i bo unfolding bucket_ok_def by metis
    qed
    moreover have "\<not> stored k l H vss h key"
      using fi(2) None stored_matches [OF s(4) k31] by (fastforce simp: b_def)
    ultimately show ?thesis unfolding i(1) using loc [OF i(2,3), of False] by blast
  qed
qed

lemma test_ok:
  assumes st: "lossy_state k l H vl M vss t" and key: "length key \<le> 31"
  shows "\<exists>res t'. ltable_test h key t = Some (res, t') \<and> lossy_state k l H vl M vss t'
    \<and> (res = KSuccess \<or> res = KNotFound \<and> \<not> stored k l H vss h key)"
proof -
  note s = lossy_stateD [OF st]
  note D = lossy_okD [OF s(4)]
  let ?b = "home k h"
  obtain ver where ver: "read_version_begin ?b t = Some ver" "read_version_end ?b t = Some ver"
    using read_version_ok [OF s(1,2,6)] by blast
  obtain found where fi: "find_item_index ?b h (calc_tag h) key t = Some found"
    "case found of None \<Rightarrow> \<forall>v\<in>set (vss ! ?b). get_tag v = calc_tag h \<longrightarrow> matches (CircularLog l) h key v = Some False
     | Some (b', i) \<Rightarrow> b' = ?b \<and> i < length (vss ! ?b) \<and> get_tag (vss ! ?b ! i) = calc_tag h
         \<and> matches (CircularLog l) h key (vss ! ?b ! i) = Some True"
    using find_ok [OF s(1,6) hist_shape [OF D(1)] key] by blast
  have "ltable_test h key t = Some (if found \<noteq> None then (KSuccess, stat_add 1 s_test_found_update t)
      else (KNotFound, stat_add 1 s_test_notfound_update t))"
    using ver fi(1) by (subst ltable_test.simps) (simp add: s(5) Let_def)
  moreover have "found = None \<Longrightarrow> \<not> stored k l H vss h key"
    using fi(2) stored_matches [OF s(4) key] by fastforce
  ultimately show ?thesis using st by (cases found) (auto simp: lossy_state_def)
qed

lemma del_ok:
  assumes st: "lossy_state k l H vl M vss t" and key: "length key \<le> 31"
  shows "\<exists>res t' vss'. ltable_del h key t = Some (res, t')
    \<and> (res = KSuccess \<or> res = KNotFound \<and> \<not> stored k l H vss h key)
    \<and> lossy_state k l H vl (M((h, key) := None)) vss' t'
    \<and> (\<forall>h' key'. (h', key') \<noteq> (h, key) \<longrightarrow> stored k l H vss h' key' \<longrightarrow> stored k l H vss' h' key')"
proof -
  note s = lossy_stateD [OF st]
  note D = lossy_okD [OF s(4)]
  let ?b = "home k h"
  have bl: "?b < length vss" using s(6) [of h] D(5) by simp
  obtain t1 where t1: "lock_bucket ?b t = Some t1" "lossy_at k l vss t1" "held ?b t1"
    using lock_ok [OF s(1,2,6)] by blast
  obtain found where fi: "find_item_index ?b h (calc_tag h) key t1 = Some found"
    "case found of None \<Rightarrow> \<forall>v\<in>set (vss ! ?b). get_tag v = calc_tag h \<longrightarrow> matches (CircularLog l) h key v = Some False
     | Some (b', i) \<Rightarrow> b' = ?b \<and> i < length (vss ! ?b) \<and> get_tag (vss ! ?b ! i) = calc_tag h
         \<and> matches (CircularLog l) h key (vss ! ?b ! i) = Some True"
    using find_ok [OF t1(2) s(6) hist_shape [OF D(1)] key] by blast
  show ?thesis
  proof (cases found)
    case None
    let ?t' = "stat_add 1 s_delete_notfound_update (unlock_bucket ?b t1)"
    have "ltable_del h key t = Some (KNotFound, ?t')"
      using t1(1) fi(1) None by (simp add: ltable_del_def s(5) Let_def)
    moreover have "lossy_ok k l H (8 * tail_cell l) vl (M((h, key) := None)) vss"
      by (rule lossy_forget [OF s(4)]) (use fi(2) None not_stored [OF s(4) key] in auto)
    then have "lossy_state k l H vl (M((h, key) := None)) vss ?t'"
      using unlock_ok [OF t1(2,3)] s(3) by (simp add: lossy_state_def)
    moreover have "\<not> stored k l H vss h key" using fi(2) None stored_matches [OF s(4) key] by fastforce
    ultimately show ?thesis by blast
  next
    case (Some p)
    then obtain i where i: "found = Some (?b, i)" "i < length (vss ! ?b)" "get_tag (vss ! ?b ! i) = calc_tag h"
      "matches (CircularLog l) h key (vss ! ?b ! i) = Some True"
      using fi(2) by (cases p) auto
    let ?vss = "vss[?b := (vss ! ?b)[i := 0]]"
    let ?t2 = "stat_add (- 1) s_count_update (set_item_vec ?b i 0 t1)"
    have same: "t1\<lparr>lt_pool := CircularLog l\<rparr> = t1" using lossy_atD(2) [OF t1(2)] by (cases t1) simp
    have at2: "lossy_at k l ?vss ?t2" "held ?b ?t2" using lossy_at_set [OF t1(2)] t1(3) by simp_all
    have "fill_hole ?b i ?t2 = Some ?t2" using no_extra [OF at2(1)] by (subst fill_hole.simps) simp
    then have "ltable_del h key t = Some (KSuccess, stat_add 1 s_delete_found_update (unlock_bucket ?b ?t2))"
      using t1(1) fi(1) i(1) lossy_atD(2) [OF t1(2)]
      by (simp add: ltable_del_def s(5) Let_def clog_release_def same)
    moreover have ok2: "lossy_ok k l H (8 * tail_cell l) vl M ?vss" by (rule lossy_clear [OF s(4,6)])
    moreover have "lossy_ok k l H (8 * tail_cell l) vl (M((h, key) := None)) ?vss"
    proof (rule lossy_forget [OF ok2])
      fix v p and "value" :: "u64 list" assume v: "v \<in> set (?vss ! ?b)" "v \<noteq> 0" "get_tag v = calc_tag h"
      then obtain j where j: "j < length (vss ! ?b)" "v = (vss ! ?b)[i := 0] ! j" using bl by (auto simp: in_set_conv_nth)
      then have "j \<noteq> i" using v(2) i(2) by auto
      then show "\<not> stands_for l H v p h key value"
        using slot_of_match(2) [OF s(4) key refl i(2) refl i(3,4)] j v by auto
    qed
    then have "lossy_state k l H vl (M((h, key) := None)) ?vss (stat_add 1 s_delete_found_update (unlock_bucket ?b ?t2))"
      using unlock_ok [OF at2] s(3) by (simp add: lossy_state_def)
    ultimately show ?thesis using stored_clear [OF s(4) key i(4)] by blast
  qed
qed

lemma increment_ok:
  assumes st: "lossy_state k l H vl M vss t" and key: "length key \<le> 31"
  shows "\<exists>res out t' l' M'. ltable_increment h key inc t = Some (res, out, t') \<and> grows l l'
    \<and> lossy_state k l' H vl M' vss t' \<and>
    (res = KSuccess \<and> (\<exists>v. M (h, key) = Some [v] \<and> out = Some (v + inc) \<and> M' = M((h, key) \<mapsto> [v + inc]))
       \<and> stored k l' H vss h key
     \<or> (res = KNotFound \<and> \<not> stored k l H vss h key
         \<or> res = KError \<and> (stored k l H vss h key \<longrightarrow> (\<forall>v. M (h, key) \<noteq> Some [v])))
       \<and> out = None \<and> M' = M \<and> (\<forall>h' key'. stored k l' H vss h' key' = stored k l H vss h' key'))"
proof -
  note s = lossy_stateD [OF st]
  note D = lossy_okD [OF s(4)]
  let ?b = "home k h"
  have bl: "?b < length vss" using s(6) [of h] D(5) by simp
  obtain t1 where t1: "lock_bucket ?b t = Some t1" "lossy_at k l vss t1" "held ?b t1"
    using lock_ok [OF s(1,2,6)] by blast
  obtain found where fi: "find_item_index ?b h (calc_tag h) key t1 = Some found"
    "case found of None \<Rightarrow> \<forall>v\<in>set (vss ! ?b). get_tag v = calc_tag h \<longrightarrow> matches (CircularLog l) h key v = Some False
     | Some (b', i) \<Rightarrow> b' = ?b \<and> i < length (vss ! ?b) \<and> get_tag (vss ! ?b ! i) = calc_tag h
         \<and> matches (CircularLog l) h key (vss ! ?b ! i) = Some True"
    using find_ok [OF t1(2) s(6) hist_shape [OF D(1)] key] by blast
  have pt: "lt_pool t1 = CircularLog l" using lossy_atD(2) [OF t1(2)] .
  obtain x where x: "clog_lock l = Some (l\<lparr>cl_lock := x\<rparr>)" using log_lock_ok [OF s(3)] by blast
  let ?lx = "l\<lparr>cl_lock := x\<rparr>"
  show ?thesis
  proof (cases found)
    case None
    have "ltable_increment h key inc t = Some (KNotFound, None, unlock_bucket ?b t1)"
      using t1(1) fi(1) None by (simp add: ltable_increment_def s(5) Let_def)
    moreover have "lossy_state k l H vl M vss (unlock_bucket ?b t1)"
      using unlock_ok [OF t1(2,3)] s(3,4) by (simp add: lossy_state_def)
    moreover have "\<not> stored k l H vss h key" using fi(2) None stored_matches [OF s(4) key] by fastforce
    ultimately show ?thesis using grows_refl by blast
  next
    case (Some p)
    then obtain i where i: "found = Some (?b, i)" "i < length (vss ! ?b)" "get_tag (vss ! ?b ! i) = calc_tag h"
      "matches (CircularLog l) h key (vss ! ?b ! i) = Some True"
      using fi(2) by (cases p) auto
    let ?v = "vss ! ?b ! i"
    have iv: "item_vec ?b i t1 = ?v"
      using bl item_vec_vecs [of ?b t1 i] lossy_atD(3,11) [OF t1(2)] by simp
    let ?stop = "unlock_bucket ?b (t1\<lparr>lt_pool := CircularLog (clog_unlock ?lx)\<rparr>)"
    have stop: "lossy_state k (clog_unlock ?lx) H vl M vss ?stop" "grows l (clog_unlock ?lx)"
    proof -
      have "lossy_at k (clog_unlock ?lx) vss (t1\<lparr>lt_pool := CircularLog (clog_unlock ?lx)\<rparr>)"
        using lossy_at_pool [OF t1(2)] .
      from unlock_ok [OF this] show "lossy_state k (clog_unlock ?lx) H vl M vss ?stop"
        using t1(3) s(4) by (simp add: lossy_state_def)
    qed (simp add: grows_def)
    have at: "\<exists>p value. stands_for l H ?v p h key value \<and> M (h, key) = Some value" if "stored k l H vss h key"
      using stored_at [OF st key i(2-4) that] .
    show ?thesis
    proof (cases "clog_is_valid (get_item_offset ?v) l")
      case False
      then have "\<not> stored k l H vss h key" using at stands_for_valid [OF D(1)] by blast
      moreover from False have "ltable_increment h key inc t = Some (KError, None, ?stop)"
        using t1(1) fi(1) i(1) pt iv x
        by (simp add: ltable_increment_def s(5) Let_def with_pool_def clog_is_valid_def)
      moreover have "\<forall>h' key'. stored k (clog_unlock ?lx) H vss h' key' = stored k l H vss h' key'" by simp
      ultimately show ?thesis using stop by blast
    next
      case True
      obtain p old where o: "stands_for l H ?v p h key old" "M (h, key) = Some old" "length old = vl (h, key)"
        using slot_of_match(3) [OF s(4) key refl i(2) refl i(3,4) True] by blast
      have so: "get_item_offset ?v = offset_at p" "holds ?lx p h key old" "kv_fits ?lx key old" "kv_fits l key old"
        using o(1) by (auto simp: stands_for_def)
      have p8: "8 * p < 2 ^ 64" using hist_bound [OF D(1), of p] stands_for_le [OF D(1) o(1)] by simp
      have shx: "clog_shape ?lx" using hist_shape [OF D(1)] by (simp add: clog_shape_def)
      note kr = kv_read [OF shx p8 so(3,2)]
      have l31: "length old \<le> 131071" using so(3) by (simp add: kv_fits_def)
      have vlen: "get_value_length (kv_of key old) = 8 \<longleftrightarrow> length old = 1"
        using kv_fields(2) [OF key l31] by (auto simp: word_unat_eq_iff)
      have val: "clog_is_valid (offset_at p) ?lx" using True so(1) by (simp add: clog_is_valid_def)
      show ?thesis
      proof (cases "length old = 1")
        case False
        then have "ltable_increment h key inc t = Some (KError, None, ?stop)"
          using t1(1) fi(1) i(1) pt iv x kr(1) vlen val so(1)
          by (simp add: ltable_increment_def s(5) Let_def with_pool_def)
        moreover have "\<forall>v. M (h, key) \<noteq> Some [v]" using o(2) False by auto
        moreover have "\<forall>h' key'. stored k (clog_unlock ?lx) H vss h' key' = stored k l H vss h' key'" by simp
        ultimately show ?thesis using stop by blast
      next
        case len: True
        then obtain v where v: "old = [v]" by (cases old) auto
        let ?N = "length (cl_data l)" and ?j = "2 + length key"
        let ?d = "(cl_data l)[(p + 1 + ?j) mod ?N := v + inc]"
        have vw: "value_word (byte_len key) = ?j"
          using key by (intro value_word_eq byte_len_unat) simp_all
        have N: "3 + length key + 1 < ?N" using so(4) v by (simp add: kv_fits_def)
        have rd: "clog_read (offset_at p) ?j ?lx = Some v"
          using kr(4) [of 1] v by (auto split: option.splits bind_splits)
        have "data_cell (offset_at p) ?j ?lx = Some ((p + 1 + ?j) mod ?N)"
          using data_cell_eq [OF shx p8, of ?j] N key by (simp add: kWrapAroundSize_def)
        then have wr: "clog_write (offset_at p) ?j (v + inc) ?lx = Some (?lx\<lparr>cl_data := ?d\<rparr>)"
          by (simp add: clog_write_def)
        let ?l2 = "?lx\<lparr>cl_data := ?d\<rparr>"
        let ?t2 = "t1\<lparr>lt_pool := CircularLog (clog_unlock ?l2)\<rparr>"
        have run: "ltable_increment h key inc t = Some (KSuccess, Some (v + inc), unlock_bucket ?b ?t2)"
          using t1(1) fi(1) i(1) pt iv x kr(1) vlen val so(1) len rd wr vw
          by (simp add: ltable_increment_def s(5) Let_def with_pool_def)
        have Nl: "(p + 1 + ?j) mod ?N < ?N" using N by (intro mod_less_divisor) linarith
        have ch: "changes_words ?lx ?d p (2 + length key + length [v + inc])"
          by (auto simp: changes_words_def)
        have hold2: "holds ?l2 p h key [v + inc]"
        proof -
          obtain w where w: "item_words l p (2 + length key + length old) = w # h # key @ old" "ucast w = kv_of key old"
            using so(2) by (auto simp: holds_def)
          have "item_words ?l2 p (2 + length key + length [v + inc]) = w # h # key @ [v + inc]"
          proof (rule item_words_eqI)
            show "\<forall>x<2 + length key + length [v + inc]. word_at ?l2 (p + 1 + x) = (w # h # key @ [v + inc]) ! x"
            proof (intro allI impI)
              fix y assume "y < 2 + length key + length [v + inc]"
              then have y: "y < ?j \<or> y = ?j" by auto
              then show "word_at ?l2 (p + 1 + y) = (w # h # key @ [v + inc]) ! y"
              proof
                assume yj: "y < ?j"
                then have "(p + 1 + ?j) mod ?N \<noteq> (p + 1 + y) mod ?N" using N by (intro hist_mod_neq) simp_all
                then have "word_at ?l2 (p + 1 + y) = word_at l (p + 1 + y)" by (simp add: word_at_def)
                also have "\<dots> = (w # h # key @ old) ! y"
                  using item_words_nth [of y "2 + length key + length old" l p] yj unfolding w(1) by simp
                also have "\<dots> = (w # h # key @ [v + inc]) ! y" using yj v by (auto simp: nth_append nth_Cons split: nat.splits)
                finally show ?thesis .
              next
                assume "y = ?j"
                then show ?thesis using Nl by (simp add: word_at_def nth_append)
              qed
            qed
          qed simp
          moreover have "kv_of key [v + inc] = kv_of key old" by (simp add: kv_of_def byte_len_def v)
          ultimately show ?thesis using w(2) unfolding holds_def by auto
        qed
        then have "lossy_ok k ?l2 H (8 * tail_cell l) vl (M((h, key) \<mapsto> [v + inc])) vss"
          using ch by (intro lossy_rewrite [where v = ?v and i = i and old = old])
            (use s(4) o(1) len i(2) slot_of_match(1) [OF s(4) key refl i(2) refl i(3,4)] in simp_all)
        moreover have t2: "lossy_at k (clog_unlock ?l2) vss ?t2" "held ?b ?t2" using lossy_at_pool [OF t1(2)] t1(3) by simp_all
        note unlock_ok [OF t2]
        moreover have "tail_cell (clog_unlock ?l2) = tail_cell l" by (simp add: tail_cell_def)
        ultimately have "lossy_state k (clog_unlock ?l2) H vl (M((h, key) \<mapsto> [v + inc])) vss (unlock_bucket ?b ?t2)"
          by (simp add: lossy_state_def)
        moreover have "grows l (clog_unlock ?l2)" by (simp add: grows_def tail_cell_def)
        moreover have "stored k (clog_unlock ?l2) H vss h key"
        proof -
          have "stands_for ?l2 H ?v p h key [v + inc]"
            using o(1) hold2 v by (auto simp: stands_for_def kv_fits_def tail_cell_def)
          then show ?thesis
            using i(2) slot_of_match(1) [OF s(4) key refl i(2) refl i(3,4)]
            unfolding stored_unlock unfolding stored_def by blast
        qed
        ultimately show ?thesis using run o(2) v by blast
      qed
    qed
  qed
qed

lemma set_vec_sel [simp]:
  "lt_pool (set_item_vec b i v t) = lt_pool t" "lt_mode (set_item_vec b i v t) = lt_mode t"
  "lt_config (set_item_vec b i v t) = lt_config t" "lt_mth_threshold (set_item_vec b i v t) = lt_mth_threshold t"
  by (simp_all add: set_item_vec_def)

lemma item_copy:
  assumes sh: "clog_shape l" and p: "8 * p < 2 ^ 64" "8 * q < 2 ^ 64" and f: "kv_fits l key value"
    and hd: "holds l p h key value"
  shows "\<exists>ws d. pool_read_words (offset_at p) 0 (2 + length key + length value) (CircularLog l) = Some ws
    \<and> pool_write_words (offset_at q) 0 ws (CircularLog l) = Some (CircularLog (l\<lparr>cl_data := d\<rparr>))
    \<and> changes_words l d q (2 + length key + length value) \<and> holds (l\<lparr>cl_data := d\<rparr>) q h key value"
proof -
  let ?n = "2 + length key + length value"
  obtain w where w: "item_words l p ?n = w # h # key @ value" "ucast w = kv_of key value"
    using hd by (auto simp: holds_def)
  have n: "?n < length (cl_data l)" "?n < 200000" using f by (auto simp: kv_fits_def)
  have rd: "pool_read_words (offset_at p) 0 ?n (CircularLog l) = Some (w # h # key @ value)"
    using pool_read_words_at [OF sh p(1), of 0 ?n] n w(1) by simp
  let ?ws = "w # h # key @ value"
  obtain d where d: "clog_write_words (offset_at q) 0 ?ws l = Some (l\<lparr>cl_data := d\<rparr>)" "length d = length (cl_data l)"
    "\<forall>i<length ?ws. d ! ((q + 1 + 0 + i) mod length d) = ?ws ! i"
    "\<forall>j. (\<forall>i<length ?ws. (q + 1 + 0 + i) mod length d \<noteq> j) \<longrightarrow> d ! j = cl_data l ! j"
    using Circular_Log.write_words_ok [OF sh p(2), of 0 ?ws] n by (auto simp: kWrapAroundSize_def)
  have "item_words (l\<lparr>cl_data := d\<rparr>) q ?n = ?ws"
    using d(3) by (intro item_words_eqI) (simp_all add: word_at_def)
  then have "holds (l\<lparr>cl_data := d\<rparr>) q h key value" using w(2) unfolding holds_def by blast
  then show ?thesis
    using rd d by (intro exI [of _ ?ws] exI [of _ d]) (simp add: pool_write_words_log changes_words_def)
qed

lemma move_to_head_ok:
  assumes st: "lossy_state k l H vl M vss t" and i: "i < length (vss ! home k h)" and v: "v = vss ! home k h ! i" "v \<noteq> 0"
    and s: "stands_for l H v p h key value" and r: "room l"
  shows "\<exists>t' l' H' vss'. move_to_head (home k h) (home k h, i) (byte_len key) (byte_len value) v (get_item_offset v) t
      = Some t' \<and> lossy_state k l' H' vl M vss' t' \<and> grows l l'"
proof -
  note S = lossy_stateD [OF st]
  note D = lossy_okD [OF S(4)]
  let ?b = "home k h" and ?p = "tail_cell l" and ?c = "3 + length key + length value"
  have bl: "?b < length vss" using S(6) [of h] D(5) by simp
  have sv: "get_item_offset v = offset_at p" "holds l p h key value" "kv_fits l key value" "tail_cell l \<le> p + length (cl_data l)"
    using s by (auto simp: stands_for_def)
  have slot: "slot_ok k l H (8 * ?p) vl M ?b v" using D(6) [OF S(6)] i v by (auto simp: bucket_ok_def)
  have tv: "get_tag v = calc_tag h" "M (h, key) = Some value" "length value = vl (h, key)"
    using stands_slot [OF S(4) slot S(6) _ s] by simp_all
  have M: "M((h, key) \<mapsto> value) = M" using tv(2) by (simp add: fun_upd_idem)
  have others: "\<forall>j<length (vss ! ?b). j \<noteq> i \<longrightarrow> vss ! ?b ! j \<noteq> 0 \<longrightarrow> get_tag (vss ! ?b ! j) \<noteq> calc_tag h"
    using D(6) [OF S(6)] i v tv(1) unfolding bucket_ok_def by metis
  have pt: "lt_pool t = CircularLog l" using lossy_atD(2) [OF S(1)] .
  have p_le: "p + ?c \<le> ?p" using stands_for_le [OF D(1) s] .
  have p8: "8 * p < 2 ^ 64" "8 * ?p < 2 ^ 64" using hist_bound [OF D(1)] p_le by simp_all
  have k31: "length key \<le> 31" "length value \<le> 131071" using sv(3) by (auto simp: kv_fits_def)
  define sz where "sz = kv_item_size (byte_len key) (byte_len value)"
  have szu: "unat sz div 8 = 2 + length key + length value" using item_size_unat [OF k31] by (simp add: sz_def)
  let ?dist = "(get_tail (CircularLog l) - get_item_offset v) AND get_mask (CircularLog l)"
  show ?thesis
  proof (cases "?dist > lt_mth_threshold t")
    case False
    then have "move_to_head ?b (?b, i) (byte_len key) (byte_len value) v (get_item_offset v) t
        = Some (stat_add 1 s_mth_skipped_update t)"
      by (simp add: move_to_head_def Let_def pt)
    moreover have "lossy_state k l H vl M vss (stat_add 1 s_mth_skipped_update t)" using st by (simp add: lossy_state_def)
    ultimately show ?thesis using grows_refl by blast
  next
    case far: True
    obtain t1 where t1: "lock_bucket ?b t = Some t1" "lossy_at k l vss t1" "held ?b t1"
      using lock_ok [OF S(1,2,6)] by blast
    have pt1: "lt_pool t1 = CircularLog l" using lossy_atD(2) [OF t1(2)] .
    have iv: "item_vec ?b i t1 = v"
      using bl item_vec_vecs [of ?b t1 i] lossy_atD(3,11) [OF t1(2)] v by simp
    obtain x where x: "clog_lock l = Some (l\<lparr>cl_lock := x\<rparr>)" using log_lock_ok [OF S(3)] by blast
    let ?lx = "l\<lparr>cl_lock := x\<rparr>"
    have okx: "lossy_ok k ?lx H (8 * ?p) vl M vss" "kv_fits ?lx key value" "room ?lx" "clog_hist ?lx H"
      using S(4) sv(3) r D(1) by simp_all
    obtain l1 where l1: "pool_allocate (ucast sz) (CircularLog ?lx) = Some (offset_at ?p, CircularLog l1)"
      "clog_hist l1 (H @ [?c])"
      "cl_data l1 = (cl_data l)[?p mod length (cl_data l) := of_nat (8 * ?c)]" "tail_cell l1 = ?p + ?c"
      using allocate_ok [OF okx(4,2)] okx(3) by (auto simp: room_def sz_def simp del: pool_allocate.simps)
    have c: "?c \<le> 2 ^ 18" using k31 by simp
    have len1: "length (cl_data l1) = length (cl_data l)" using l1(3) by simp
    have keep: "word_at l1 q = word_at l q" if "q < ?p" "?p + ?c \<le> q + length (cl_data l)" for q
    proof -
      have "?p mod length (cl_data l) \<noteq> q mod length (cl_data l)" using that by (intro hist_mod_neq) simp_all
      then show ?thesis by (simp add: word_at_def l1(3))
    qed
    obtain cs1 where cs1: "clog_ok l1 cs1" using l1(2) by (auto simp: clog_hist_def)
    have val: "clog_is_valid (offset_at p) l1 \<longleftrightarrow> ?p + ?c \<le> p + length (cl_data l)"
    proof -
      have "length (cl_data l) \<le> 2 ^ 43" using clog_shape_size(3) [OF hist_shape [OF D(1)]] .
      then have "tail_cell l1 - p < 2 ^ 45" using l1(4) sv(4) c by simp
      then show ?thesis using is_valid_iff [OF cs1, of p] l1(4) p_le len1 by simp
    qed
    let ?move = "move_to_head ?b (?b, i) (byte_len key) (byte_len value) v (get_item_offset v) t"
    show ?thesis
    proof (cases "clog_is_valid (offset_at p) l1")
      case True
      have "holds l1 p h key value"
        using holds_cong [of p key "value" l1 l h] keep val True p_le sv(2) by simp
      moreover have "kv_fits l1 key value" using sv(3) len1 by (simp add: kv_fits_def)
      ultimately obtain ws d where d: "pool_read_words (offset_at p) 0 (2 + length key + length value) (CircularLog l1) = Some ws"
        "pool_write_words (offset_at ?p) 0 ws (CircularLog l1) = Some (CircularLog (l1\<lparr>cl_data := d\<rparr>))"
        "changes_words l1 d ?p (2 + length key + length value)" "holds (l1\<lparr>cl_data := d\<rparr>) ?p h key value"
        using item_copy [OF hist_shape [OF l1(2)] p8] by blast
      let ?l2 = "l1\<lparr>cl_data := d\<rparr>" and ?v = "make_item_vec (calc_tag h) (offset_at ?p)"
      let ?vss = "vss[?b := (vss ! ?b)[i := ?v]]"
      have a: "lossy_ok k ?l2 (H @ [?c]) (8 * ?p) vl M ?vss"
        using append_item(1) [where vl = vl, OF okx(1,2) tv(3) okx(3) i others, of l1 d] l1 d(3,4) M by simp
      define t3 where "t3 = stat_add 1 s_mth_performed_update
        (set_item_vec ?b i ?v (t1\<lparr>lt_pool := CircularLog (clog_unlock ?l2)\<rparr>))"
      have t3: "lossy_at k (clog_unlock ?l2) ?vss t3" "held ?b t3"
        unfolding t3_def using lossy_at_set [OF lossy_at_pool [OF t1(2)]] t1(3) by simp_all
      note u = unlock_ok [OF t3]
      have "lossy_ok k (clog_unlock ?l2) (H @ [?c]) (8 * ?p) vl M ?vss" using a by simp
      moreover have tc: "tail_cell (clog_unlock ?l2) = ?p + ?c" using l1(4) by (simp add: tail_cell_def)
      ultimately obtain t' vss' where t': "cleanup_bucket (offset_at ?p) (cl_tail (clog_unlock ?l2)) (unlock_bucket ?b t3) = Some t'"
        "lossy_at k (clog_unlock ?l2) vss' t'" "quiet t'"
        "lossy_ok k (clog_unlock ?l2) (H @ [?c]) (8 * tail_cell (clog_unlock ?l2)) vl M vss'"
        using finish_ok [OF u, of "H @ [?c]" ?p vl M] c by auto
      have up: "set_item_vec b' i' v' (t\<lparr>lt_pool := q\<rparr>)\<lparr>lt_pool := q'\<rparr> = set_item_vec b' i' v' (t\<lparr>lt_pool := q'\<rparr>)"
        for b' i' v' t q q' by (simp add: set_item_vec_def upd_bucket_def)
      have "?move = Some t'"
        using far t1(1) x l1(1) True d(1,2) t'(1)
        by (simp add: move_to_head_def Let_def pt pt1 with_pool_def iv sz_def [symmetric] szu sv(1) tv(1) up t3_def
            del: pool_allocate.simps)
      moreover have "lossy_state k (clog_unlock ?l2) (H @ [?c]) vl M vss' t'" using t' by (simp add: lossy_state_def)
      moreover have "grows l (clog_unlock ?l2)" using tc d(3) len1 c by (simp add: grows_def changes_words_def)
      ultimately show ?thesis by blast
    next
      case False
      have a: "lossy_ok k l1 (H @ [?c]) (8 * ?p) vl M vss"
        by (rule lossy_appended [OF okx(1) l1(2)]) (use len1 keep l1(4) in simp_all)
      define t3 where "t3 = stat_add 1 s_mth_failed_update (t1\<lparr>lt_pool := CircularLog (clog_unlock l1)\<rparr>)"
      have t3: "lossy_at k (clog_unlock l1) vss t3" "held ?b t3"
        unfolding t3_def using lossy_at_pool [OF t1(2)] t1(3) by simp_all
      note u = unlock_ok [OF t3]
      have "lossy_ok k (clog_unlock l1) (H @ [?c]) (8 * ?p) vl M vss" using a by simp
      then obtain t' vss' where t': "cleanup_bucket (offset_at ?p) (cl_tail (clog_unlock l1)) (unlock_bucket ?b t3) = Some t'"
        "lossy_at k (clog_unlock l1) vss' t'" "quiet t'"
        "lossy_ok k (clog_unlock l1) (H @ [?c]) (8 * tail_cell (clog_unlock l1)) vl M vss'"
        using finish_ok [OF u, of "H @ [?c]" ?p vl M] c l1(4) by auto
      have "?move = Some t'"
        using far t1(1) x l1(1) False t'(1)
        by (simp add: move_to_head_def Let_def pt pt1 with_pool_def iv sz_def [symmetric] szu sv(1) tv(1) t3_def
            del: pool_allocate.simps)
      moreover have "lossy_state k (clog_unlock l1) (H @ [?c]) vl M vss' t'" using t' by (simp add: lossy_state_def)
      moreover have "grows l (clog_unlock l1)" using l1(4) len1 c by (simp add: grows_def)
      ultimately show ?thesis by blast
    qed
  qed
qed

lemma get_ok:
  assumes st: "lossy_state k l H vl M vss t" and key: "length key \<le> 31" and r: "room l"
  shows "\<exists>res out t' l' H' vss'. ltable_get h key n mut t = Some (res, out, t') \<and> grows l l'
    \<and> lossy_state k l' H' vl M vss' t' \<and> (\<not> mut \<longrightarrow> l' = l \<and> H' = H \<and> vss' = vss) \<and>
    (res = KNotFound \<and> \<not> stored k l H vss h key
     \<or> (\<exists>value. M (h, key) = Some value \<and> out = take (unat n div 8) value
         \<and> res = (if 8 * length value \<le> unat n then KSuccess else KPartialValue)))"
proof -
  note s = lossy_stateD [OF st]
  note D = lossy_okD [OF s(4)]
  let ?b = "home k h"
  have bl: "?b < length vss" using s(6) [of h] D(5) by simp
  have pt: "lt_pool t = CircularLog l" using lossy_atD(2) [OF s(1)] .
  have sh: "clog_shape l" using hist_shape [OF D(1)] .
  obtain ver where ver: "read_version_begin ?b t = Some ver" "read_version_end ?b t = Some ver"
    using read_version_ok [OF s(1,2,6)] by blast
  obtain found where fi: "find_item_index ?b h (calc_tag h) key t = Some found"
    "case found of None \<Rightarrow> \<forall>v\<in>set (vss ! ?b). get_tag v = calc_tag h \<longrightarrow> matches (CircularLog l) h key v = Some False
     | Some (b', i) \<Rightarrow> b' = ?b \<and> i < length (vss ! ?b) \<and> get_tag (vss ! ?b ! i) = calc_tag h
         \<and> matches (CircularLog l) h key (vss ! ?b ! i) = Some True"
    using find_ok [OF s(1,6) sh key] by blast
  show ?thesis
  proof (cases found)
    case None
    have "ltable_get h key n mut t = Some (KNotFound, [], stat_add 1 s_get_notfound_update t)"
      using ver fi(1) None by (subst ltable_get.simps) (simp add: s(5) Let_def)
    moreover have "\<not> stored k l H vss h key" using fi(2) None stored_matches [OF s(4) key] by fastforce
    moreover have "lossy_state k l H vl M vss (stat_add 1 s_get_notfound_update t)" using st by (simp add: lossy_state_def)
    ultimately show ?thesis using grows_refl by blast
  next
    case (Some pr)
    then obtain i where i: "found = Some (?b, i)" "i < length (vss ! ?b)" "get_tag (vss ! ?b ! i) = calc_tag h"
      "matches (CircularLog l) h key (vss ! ?b ! i) = Some True"
      using fi(2) by (cases pr) auto
    let ?v = "vss ! ?b ! i" and ?o = "get_item_offset (vss ! ?b ! i)"
    have iv: "item_vec ?b i t = ?v"
      using bl item_vec_vecs [of ?b t i] lossy_atD(3,11) [OF s(1)] by simp
    note m = slot_of_match [OF s(4) key refl i(2) refl i(3,4)]
    obtain kv where kv: "item_kv_length_vec ?o (CircularLog l) = Some kv"
      using clog_read_total [OF sh, of 0 ?o] by (auto simp: item_kv_length_vec_def)
    define len where "len = (ucast (get_value_length kv) :: u64)"
    have vw: "value_word (byte_len key) = 2 + length key"
      using key by (intro value_word_eq byte_len_unat) simp_all
    show ?thesis
    proof (cases "len > kMaxValueLength \<or> \<not> clog_is_valid ?o l")
      case True
      have "\<exists>ws. (if len > kMaxValueLength then Some []
          else pool_read_words ?o (2 + length key) (unat (min len n) div 8) (CircularLog l)) = Some ws"
      proof (cases "len > kMaxValueLength")
        case False
        then have "unat len \<le> unat kMaxValueLength" by (simp add: word_le_nat_alt not_less)
        then have "unat len \<le> 1048575" by (simp add: kMaxValueLength_def)
        moreover have "unat (min len n) \<le> unat len" by (simp add: word_le_nat_alt [symmetric])
        ultimately have "2 + length key + unat (min len n) div 8 \<le> 200000" using key by linarith
        then show ?thesis using pool_read_words_total [OF sh, of "2 + length key"] False by simp
      qed simp
      then obtain ws where ws: "(if len > kMaxValueLength then Some []
          else pool_read_words ?o (2 + length key) (unat (min len n) div 8) (CircularLog l)) = Some ws" by blast
      obtain t1 where t1: "lock_bucket ?b t = Some t1" "lossy_at k l vss t1" "held ?b t1"
        using lock_ok [OF s(1,2,6)] by blast
      have iv1: "item_vec ?b i t1 = ?v"
        using bl item_vec_vecs [of ?b t1 i] lossy_atD(3,11) [OF t1(2)] by simp
      let ?vss = "vss[?b := (vss ! ?b)[i := 0]]"
      let ?t2 = "unlock_bucket ?b (stat_add (- 1) s_count_update (set_item_vec ?b i 0 t1))"
      have u: "lossy_at k l ?vss ?t2" "quiet ?t2"
        using unlock_ok [of k l ?vss "stat_add (- 1) s_count_update (set_item_vec ?b i 0 t1)" ?b]
          lossy_at_set [OF t1(2), of ?b i 0] t1(3) by simp_all
      have "lossy_ok k l H (8 * tail_cell l) vl M ?vss" by (rule lossy_clear [OF s(4,6)])
      then have s2: "lossy_state k l H vl M ?vss (stat_add 1 s_get_notfound_update ?t2)"
        using u s(3) by (simp add: lossy_state_def)
      have s1: "lossy_state k l H vl M vss (stat_add 1 s_get_notfound_update t)"
        using st by (simp add: lossy_state_def)
      have "ltable_get h key n mut t
          = Some (KNotFound, ws, stat_add 1 s_get_notfound_update (if mut then ?t2 else t))"
        using ver fi(1) i(1) kv True ws t1(1) iv1 m(1)
        by (subst ltable_get.simps, cases "len > kMaxValueLength")
          (simp_all add: s(5) Let_def pt iv len_def [symmetric] vw)
      moreover have "\<not> stored k l H vss h key"
      proof
        assume "stored k l H vss h key"
        then obtain p "value" where st': "stands_for l H ?v p h key value"
          using stored_at [OF st key i(2-4)] by blast
        then have "clog_is_valid ?o l" using stands_for_valid [OF D(1)] by blast
        moreover have "len \<le> kMaxValueLength"
        proof -
          have f: "kv_fits l key value" "holds l p h key value" "?o = offset_at p" using st' by (auto simp: stands_for_def)
          have "8 * p < 2 ^ 64" using hist_bound [OF D(1), of p] stands_for_le [OF D(1) st'] by simp
          then have "kv = kv_of key value" using kv_read(1) [OF sh _ f(1,2)] f(3) kv by simp
          then have "unat len = 8 * length value"
            using kv_fields(2) [of key "value"] f(1) by (simp add: len_def kv_fits_def unat_ucast_mod)
          then show ?thesis using f(1) by (simp add: word_le_nat_alt kMaxValueLength_def kv_fits_def)
        qed
        ultimately show False using True by auto
      qed
      moreover have "\<exists>vss'. lossy_state k l H vl M vss' (stat_add 1 s_get_notfound_update (if mut then ?t2 else t))
          \<and> (\<not> mut \<longrightarrow> vss' = vss)"
        using s1 s2 by (cases mut) auto
      ultimately show ?thesis using grows_refl by blast
    next
      case False
      then obtain p "value" where o: "stands_for l H ?v p h key value" "M (h, key) = Some value"
        using m(3) by blast
      have f: "kv_fits l key value" "holds l p h key value" "?o = offset_at p" using o(1) by (auto simp: stands_for_def)
      have "8 * p < 2 ^ 64" using hist_bound [OF D(1), of p] stands_for_le [OF D(1) o(1)] by simp
      note kr = kv_read [OF sh this f(1,2)]
      have "kv = kv_of key value" using kr(1) f(3) kv by simp
      then have len: "unat len = 8 * length value"
        using kv_fields(2) [of key "value"] f(1) by (simp add: len_def kv_fits_def unat_ucast_mod)
      then have len': "len = byte_len value"
        using byte_len_unat [of "value"] f(1) by (simp add: kv_fits_def word_unat_eq_iff)
      let ?out = "take (unat n div 8) value"
      have cnt: "unat (min len n) = min (8 * length value) (unat n)"
        using len by (simp add: min_def word_le_nat_alt)
      have "unat (min len n) div 8 \<le> length value" using cnt by simp
      moreover have "take (unat (min len n) div 8) value = ?out"
        using cnt by (simp add: min_def)
      ultimately have rd: "pool_read_words ?o (2 + length key) (unat (min len n) div 8) (CircularLog l) = Some ?out"
        using kr(4) f(3) by simp
      have part: "len \<noteq> min len n \<longleftrightarrow> \<not> 8 * length value \<le> unat n"
        using len by (auto simp: min_def word_le_nat_alt)
      let ?t1 = "stat_add 1 s_get_found_update t"
      have s1: "lossy_state k l H vl M vss ?t1" using st by (simp add: lossy_state_def)
      obtain t' l' H' vss' where t': "move_to_head ?b (?b, i) (byte_len key) (byte_len value) ?v ?o ?t1 = Some t'"
        "lossy_state k l' H' vl M vss' t'" "grows l l'"
        using move_to_head_ok [OF s1 i(2) refl m(1) o(1) r] by blast
      have go: "ltable_get h key n mut t = Some (if 8 * length value \<le> unat n then KSuccess else KPartialValue, ?out,
          if mut then t' else ?t1)"
        using ver fi(1) i(1) kv False rd t'(1) part
        by (subst ltable_get.simps) (simp add: s(5) Let_def pt iv len_def [symmetric] len' [symmetric] vw)
      show ?thesis
      proof (cases mut)
        case True
        then show ?thesis using go t' o(2) by auto
      next
        case False
        then have "ltable_get h key n mut t
            = Some (if 8 * length value \<le> unat n then KSuccess else KPartialValue, ?out, ?t1)" using go by simp
        then show ?thesis using s1 o(2) grows_refl by blast
      qed
    qed
  qed
qed

end
