(* ===== verification/L_Lossy.thy ===== *)
theory L_Lossy
  imports Lossy_Ops
begin

text \<open>
  The lossy table from its constructor on: what the constructor computes, runs of operations,
  the map of what was last set as their specification, and the properties.
\<close>

section \<open>The loops of the constructor\<close>

lemma log_num_buckets_ok:
  assumes "unat n \<le> 2 ^ m" "m \<le> 31" "k \<le> m" "k = 0 \<or> 2 ^ (k - 1) < unat n"
  shows "\<exists>k'\<le>m. log_num_buckets k n = Some k' \<and> unat n \<le> 2 ^ k' \<and> (k' = 0 \<or> 2 ^ (k' - 1) < unat n)"
  using assms(3,4)
proof (induction "m - k" arbitrary: k)
  case (0 k)
  then have "k = m" by simp
  moreover have "\<not> push_bit k 1 < n"
    using assms(1,2) \<open>k = m\<close> by (simp add: word_less_nat_alt push_bit_eq_mult unat_two_power)
  ultimately show ?case
    using 0 assms(1,2) by (intro exI [of _ k]) (simp add: log_num_buckets.simps [of m])
next
  case (Suc d k)
  then have k: "k < m" by simp
  have u: "unat (push_bit k 1 :: u64) = 2 ^ k"
    using k assms(2) by (simp add: push_bit_eq_mult unat_two_power)
  show ?case
  proof (cases "push_bit k 1 < n")
    case True
    then have "2 ^ (Suc k - 1) < unat n" using u by (simp add: word_less_nat_alt)
    then obtain k' where "k' \<le> m" "log_num_buckets (Suc k) n = Some k'" "unat n \<le> 2 ^ k'"
      "k' = 0 \<or> 2 ^ (k' - 1) < unat n"
      using Suc.hyps(1) [of "Suc k"] Suc.hyps(2) k by fastforce
    then show ?thesis using True k assms(2) by (intro exI [of _ k']) (simp add: log_num_buckets.simps [of k])
  next
    case False
    then have "unat n \<le> 2 ^ k" using u by (simp add: word_less_nat_alt not_less)
    then show ?thesis using False k assms(2) Suc.prems
      by (intro exI [of _ k]) (simp add: log_num_buckets.simps [of k])
  qed
qed

lemma half_offsets: "unat (drop_bit n (drop_bit 1 (kItemOffsetMask + 1))) = 2 ^ 47 div 2 ^ n"
proof -
  have "unat (kItemOffsetMask + 1) = 2 ^ 48" by (simp add: kItemOffsetMask_def)
  then have "unat (drop_bit 1 (kItemOffsetMask + 1)) = 2 ^ 47" by (simp add: unat_drop_bit_div)
  then show ?thesis by (simp only: unat_drop_bit_div)
qed

lemma calc_rshift_ok:
  assumes n: "unat n = 2 ^ k" "k \<le> 31" and r: "unat r \<le> 47 - k"
  shows "\<exists>r'. calc_rshift r n = Some r' \<and> unat r' = 47 - k"
  using r
proof (induction "47 - k - unat r" arbitrary: r)
  case (0 r)
  then have e: "unat r = 47 - k" by simp
  have "unat (drop_bit (unat r) (drop_bit 1 (kItemOffsetMask + 1))) = 2 ^ 47 div 2 ^ unat r"
    by (rule half_offsets)
  also have "\<dots> = 2 ^ 47 div 2 ^ (47 - k)" unfolding e ..
  also have "\<dots> = 2 ^ k" using n(2) by (subst power_diff [symmetric]) simp_all
  finally have "unat (drop_bit (unat r) (drop_bit 1 (kItemOffsetMask + 1))) = 2 ^ k" .
  moreover have "unat (ucast n :: u64) = 2 ^ k"
    using n power_increasing [of k 31 "2 :: nat"] by (simp add: unat_ucast_mod)
  ultimately have "\<not> drop_bit (unat r) (drop_bit 1 (kItemOffsetMask + 1)) > ucast n"
    by (simp only: word_less_nat_alt)
  then show ?case using e by (simp add: calc_rshift.simps [of r])
next
  case (Suc d r)
  then have lt: "unat r < 47 - k" by simp
  have "unat (drop_bit (unat r) (drop_bit 1 (kItemOffsetMask + 1))) = 2 ^ 47 div 2 ^ unat r"
    by (rule half_offsets)
  also have "\<dots> = 2 ^ (47 - unat r)" using lt by (simp add: power_diff)
  finally have u: "unat (drop_bit (unat r) (drop_bit 1 (kItemOffsetMask + 1))) = 2 ^ (47 - unat r)" .
  have "(2 :: nat) ^ k < 2 ^ (47 - unat r)" using lt n(2) by (intro power_strict_increasing) simp_all
  moreover have "unat (ucast n :: u64) = 2 ^ k"
    using n power_increasing [of k 31 "2 :: nat"] by (simp add: unat_ucast_mod)
  ultimately have gt: "drop_bit (unat r) (drop_bit 1 (kItemOffsetMask + 1)) > ucast n"
    using u by (simp only: word_less_nat_alt)
  have "unat (r + 1) = unat r + 1" using lt unat_add_no_overflow [of r 1] by simp
  then show ?case using Suc.hyps(1) [of "r + 1"] Suc.hyps(2) lt gt by (simp add: calc_rshift.simps [of r])
qed

section \<open>A new table\<close>

lemma map_update_same: "b < length xs \<Longrightarrow> (map f xs)[b := f (xs ! b)] = map f xs"
  by (metis list_update_id nth_map)

lemma vecs_next [simp]: "vecs (set_next_bucket b e t) = vecs t"
proof (cases "b < length (lt_buckets t)")
  case True
  then show ?thesis by (simp add: vecs_def set_next_bucket_def map_update map_update_same)
qed (simp add: vecs_def set_next_bucket_def list_update_beyond)

lemma next_sel [simp]:
  "lt_config (set_next_bucket b e t) = lt_config t" "lt_pool (set_next_bucket b e t) = lt_pool t"
  "lt_mode (set_next_bucket b e t) = lt_mode t" "lt_rshift (set_next_bucket b e t) = lt_rshift t"
  "lt_num_buckets_mask (set_next_bucket b e t) = lt_num_buckets_mask t"
  "length (lt_buckets (set_next_bucket b e t)) = length (lt_buckets t)"
  "map b_version (lt_buckets (set_next_bucket b e t)) = map b_version (lt_buckets t)"
proof -
  show "map b_version (lt_buckets (set_next_bucket b e t)) = map b_version (lt_buckets t)"
  proof (cases "b < length (lt_buckets t)")
    case True
    then show ?thesis by (simp add: set_next_bucket_def map_update map_update_same)
  qed (simp add: set_next_bucket_def list_update_beyond)
qed (simp_all add: set_next_bucket_def)

text \<open>What linking the extra buckets leaves alone.\<close>

definition same_but_links :: "ltable \<Rightarrow> ltable \<Rightarrow> bool" where
  "same_but_links t' t \<longleftrightarrow> vecs t' = vecs t \<and> map b_version (lt_buckets t') = map b_version (lt_buckets t) \<and>
     lt_config t' = lt_config t \<and> lt_pool t' = lt_pool t \<and> lt_mode t' = lt_mode t \<and> lt_rshift t' = lt_rshift t \<and>
     lt_num_buckets_mask t' = lt_num_buckets_mask t"

lemma same_next: "same_but_links t' t \<Longrightarrow> same_but_links (set_next_bucket b e t') t"
  by (simp add: same_but_links_def)

lemma same_fold: "same_but_links t' t \<Longrightarrow> same_but_links (fold (\<lambda>e. set_next_bucket (f e) (g e)) es t') t"
  by (induction es arbitrary: t') (auto intro: same_next)

lemma same_link: "same_but_links (link_extra_buckets t) t"
proof -
  let ?t' = "set_next_bucket (get_extra_bucket (of_nat (unat (lt_num_extra_buckets t))) t) 0
    (fold (\<lambda>e. set_next_bucket (get_extra_bucket (of_nat e) t) (of_nat e + 1)) [1..<unat (lt_num_extra_buckets t)] t)"
  have "same_but_links t t" by (simp add: same_but_links_def)
  from same_next [OF same_fold [OF this]] have "same_but_links ?t' t" .
  moreover have "same_but_links (u\<lparr>lt_free_head := x\<rparr>) t = same_but_links u t" for u x
    by (simp add: same_but_links_def vecs_def)
  ultimately show ?thesis
    using \<open>same_but_links t t\<close> unfolding link_extra_buckets_def Let_def by simp
qed

lemma release_items_log [simp]: "release_items vs (CircularLog l) = CircularLog l"
  by (induction vs) (simp_all add: clog_release_def)

lemma reset_stats_sel [simp]:
  "lt_config (reset_stats r t) = lt_config t" "lt_pool (reset_stats r t) = lt_pool t"
  "lt_mode (reset_stats r t) = lt_mode t" "lt_rshift (reset_stats r t) = lt_rshift t"
  "lt_num_buckets_mask (reset_stats r t) = lt_num_buckets_mask t"
  "lt_buckets (reset_stats r t) = lt_buckets t"
  by (simp_all add: reset_stats_def)

definition empty_log :: "circular_log \<Rightarrow> circular_log" where
  "empty_log l = (if cl_mode l = 2 then l\<lparr>cl_lock := 0, cl_head := 0, cl_tail := 0\<rparr>
     else l\<lparr>cl_head := 0, cl_tail := 0\<rparr>)"

lemma empty_log_ok:
  assumes "clog_shape l"
  shows "clog_hist (empty_log l) []" "log_free (empty_log l)" "tail_cell (empty_log l) = 0"
    "length (cl_data (empty_log l)) = length (cl_data l)"
proof -
  have N: "0 < length (cl_data l)" using clog_shape_size(2) [OF assms] by linarith
  have "clog_shape (empty_log l)" using assms by (simp add: empty_log_def clog_shape_def)
  then have "clog_ok (empty_log l) []"
    using N by (simp add: clog_ok_def empty_log_def head_cell_def tail_cell_def)
  then show "clog_hist (empty_log l) []" by (simp add: clog_hist_def empty_log_def head_cell_def)
qed (simp_all add: empty_log_def log_free_def tail_cell_def)

lemma lossy_reset:
  assumes t: "lt_pool t = CircularLog l" "clog_shape l" "log_free l" and ev: "kEviction (lt_config t)"
    and k: "1 \<le> k" "k \<le> 31" "unat (lt_num_buckets t) = 2 ^ k" "lt_num_buckets_mask t = mask k"
      "unat (lt_rshift t) = 47 - k" and B: "0 < kBucketSize (lt_config t)" and mode: "lt_mode t \<in> {0, 1, 2}"
  shows "\<exists>t' vss. ltable_reset t = Some t' \<and> lossy_state k (empty_log l) [] vl Map.empty vss t'"
proof -
  define n where "n = unat (lt_num_buckets t) + unat (lt_num_extra_buckets t)"
  have n: "2 ^ k \<le> n" using k(3) by (simp add: n_def)
  obtain x where x: "clog_lock l = Some (l\<lparr>cl_lock := x\<rparr>)" using log_lock_ok [OF t(3)] by blast
  define l1 where "l1 = clog_unlock (l\<lparr>cl_lock := x\<rparr>)"
  have "log_free l1" by (simp add: l1_def log_free_def clog_unlock_def)
  then obtain y where y: "clog_lock l1 = Some (l1\<lparr>cl_lock := y\<rparr>)" using log_lock_ok by blast
  have el: "clog_unlock (clog_reset (l1\<lparr>cl_lock := y\<rparr>)) = empty_log l"
    using x y by (cases l) (auto simp: l1_def clog_unlock_def clog_reset_def empty_log_def clog_lock_def split: if_splits)
  let ?vss = "replicate n (replicate (kBucketSize (lt_config t)) 0)"
  define t1 where "t1 = t\<lparr>lt_pool := CircularLog l1, lt_buckets := replicate n (zero_bucket (lt_config t)), lt_free_lock := 0\<rparr>"
  define t2 where "t2 = link_extra_buckets t1"
  define t' where "t' = reset_stats True (t2\<lparr>lt_pool := CircularLog (empty_log l)\<rparr>)"
  have "same_but_links t2 t1" unfolding t2_def by (rule same_link)
  then have s: "vecs t2 = ?vss" "map b_version (lt_buckets t2) = replicate n 0" "lt_config t2 = lt_config t"
    "lt_pool t2 = CircularLog l1" "lt_mode t2 = lt_mode t" "lt_rshift t2 = lt_rshift t"
    "lt_num_buckets_mask t2 = lt_num_buckets_mask t"
    by (simp_all add: same_but_links_def t1_def vecs_def zero_bucket_def)
  have "ltable_reset t = Some t'"
    using x y s(4) el by (simp add: ltable_reset_def with_pool_def t(1) l1_def t1_def t2_def t'_def n_def)
  moreover have "lossy_at k (empty_log l) ?vss t'"
  proof -
    have "vecs t' = ?vss" using s(1) by (simp add: t'_def vecs_def)
    moreover have "length (?vss ! b) = kBucketSize (lt_config t)" if "b < 2 ^ k" for b using that n by simp
    ultimately show ?thesis
      unfolding lossy_at_def using ev k B n s by (simp add: t'_def)
  qed
  moreover have "quiet t'"
  proof -
    have "b_version (lt_buckets t2 ! b) = 0" if "b < length (lt_buckets t2)" for b
      using s(2) that by (metis length_map length_replicate nth_map nth_replicate)
    then show ?thesis using mode s(5) by (auto simp: quiet_def t'_def)
  qed
  moreover have "lossy_ok k (empty_log l) [] (8 * tail_cell (empty_log l)) vl Map.empty ?vss"
  proof -
    have "bucket_ok k (empty_log l) [] T vl Map.empty b (?vss ! b)" if "b < 2 ^ k" for b T
      using that n by (simp add: bucket_ok_def)
    then show ?thesis using k n empty_log_ok(1) [OF t(2)] by (simp add: lossy_ok_def)
  qed
  ultimately show ?thesis using empty_log_ok(2) [OF t(2)] unfolding lossy_state_def by blast
qed

lemma lossy_new:
  assumes c: "kEviction c" "0 < kBucketSize c" "kBucketSize c < 2 ^ 32"
    and n: "unat item_count * 11 < 2 ^ 63" "kBucketSize c < unat item_count * 11 div 10"
      "unat item_count * 11 div 10 \<le> 2 ^ 31 * kBucketSize c"
    and l: "clog_shape l" "log_free l"
  shows "\<exists>k t vss. ltable_new c item_count extra_part mth_part cr cw (CircularLog l) = Some t
    \<and> lossy_state k (empty_log l) [] vl Map.empty vss t"
proof -
  let ?B = "kBucketSize c" and ?m = "unat item_count * 11 div 10"
  define nb where "nb = (item_count * 11 div 10 + of_nat ?B - 1) div of_nat ?B"
  have uB: "unat (of_nat ?B :: u64) = ?B" using c(3) by (simp add: unat_of_nat)
  have "unat (item_count * 11) = unat item_count * 11" using n(1) by (simp add: unat_word_ariths)
  then have um: "unat (item_count * 11 div 10) = ?m" by (simp add: unat_div)
  have m: "?m < 2 ^ 63" using n(1) by linarith
  have ua: "unat (item_count * 11 div 10 + of_nat ?B) = ?m + ?B"
    by (subst unat_add_no_overflow) (use um uB m c(3) in simp_all)
  have "unat (item_count * 11 div 10 + of_nat ?B - 1) = ?m + ?B - 1"
    by (subst unat_sub_le) (use ua c(2) in \<open>simp_all add: word_le_nat_alt\<close>)
  then have unb: "unat nb = (?m + ?B - 1) div ?B" using uB by (simp add: nb_def unat_div)
  have "unat nb \<le> 2 ^ 31"
  proof -
    have "?m + ?B - 1 < (2 ^ 31 + 1) * ?B" using n(3) c(2) by (simp add: add_mult_distrib)
    then have "unat nb < 2 ^ 31 + 1" unfolding unb by (simp add: less_mult_imp_div_less)
    then show ?thesis by simp
  qed
  then obtain k where k: "k \<le> 31" "log_num_buckets 0 nb = Some k" "unat nb \<le> 2 ^ k"
    using log_num_buckets_ok [of nb 31 0] by auto
  have "2 * ?B \<le> ?m + ?B - 1" using n(2) by simp
  then have "2 \<le> unat nb" unfolding unb using c(2) div_le_mono [of "2 * ?B" "?m + ?B - 1" ?B] by simp
  then have k1: "1 \<le> k" using k(3) by (cases k) auto
  have pk: "(2 :: nat) ^ k \<le> 2 ^ 31" using k(1) by (intro power_increasing) simp_all
  have p64: "(push_bit k 1 :: u64) = 2 ^ k" by (simp add: push_bit_eq_mult)
  have u64: "unat (2 ^ k :: u64) = 2 ^ k" using k(1) by (intro unat_two_power) simp
  define num where "num = safe_cast_u32 (push_bit k 1)"
  have num: "unat num = 2 ^ k"
    using pk u64 by (simp add: num_def safe_cast_u32_def p64 word_le_nat_alt unat_ucast_mod)
  have nm: "safe_cast_u32 (push_bit k 1 - 1) = mask k"
  proof -
    have "(push_bit k 1 - 1 :: u64) = mask k" by (simp add: p64 mask_eq_decr_exp)
    moreover have "unat (mask k :: u64) = 2 ^ k - 1" using k(1) by (intro unat_mask) simp
    moreover have "(ucast (mask k :: u64) :: u32) = mask k"
      using k(1) by (intro bit_word_eqI) (auto simp: bit_simps)
    moreover have "(2 :: nat) ^ k - 1 \<le> 2 ^ 32 - 1" using pk by simp
    ultimately show ?thesis by (simp add: safe_cast_u32_def word_le_nat_alt)
  qed
  obtain r where r: "calc_rshift 0 num = Some r" "unat r = 47 - k"
    using calc_rshift_ok [OF num k(1), of 0] by auto
  let ?t = "\<lparr>lt_config = c, lt_pool = CircularLog l,
    lt_buckets = replicate (unat num + unat (safe_cast_u32 (extra_part nb))) (zero_bucket c),
    lt_mode = (if \<not> cr then 0 else if \<not> cw then 1 else 2),
    lt_rshift = r, lt_num_buckets = num, lt_num_buckets_mask = mask k,
    lt_num_extra_buckets = safe_cast_u32 (extra_part nb), lt_mth_threshold = mth_part (get_size (CircularLog l)),
    lt_free_lock = 0, lt_free_head = 0, lt_stats = zero_stats\<rparr>"
  have "ltable_new c item_count extra_part mth_part cr cw (CircularLog l) = ltable_reset ?t"
    using k(2) r(1) nm by (simp add: ltable_new_def nb_def num_def Let_def)
  moreover have "lt_mode ?t \<in> {0, 1, 2}" by (cases cr; cases cw) simp_all
  then have "\<exists>t vss. ltable_reset ?t = Some t \<and> lossy_state k (empty_log l) [] vl Map.empty vss t"
    by (intro lossy_reset) (use l c k1 k(1) num r(2) in simp_all)
  ultimately show ?thesis by metis
qed

section \<open>Sequences of operations\<close>

datatype table_op =
    Op_Set u64 "u64 list" "u64 list" bool
  | Op_Get u64 "u64 list" u64 bool
  | Op_Test u64 "u64 list"
  | Op_Del u64 "u64 list"
  | Op_Increment u64 "u64 list" u64

datatype table_answer = Done result | Got result "u64 list" | Counted result "u64 option"

fun table_step :: "table_op \<Rightarrow> ltable \<Rightarrow> (table_answer \<times> ltable) option" where
  "table_step (Op_Set h key value overwrite) t =
     do { (r, t) \<leftarrow> ltable_set h key value overwrite t; Some (Done r, t) }"
| "table_step (Op_Get h key n mut) t = do { (r, out, t) \<leftarrow> ltable_get h key n mut t; Some (Got r out, t) }"
| "table_step (Op_Test h key) t = do { (r, t) \<leftarrow> ltable_test h key t; Some (Done r, t) }"
| "table_step (Op_Del h key) t = do { (r, t) \<leftarrow> ltable_del h key t; Some (Done r, t) }"
| "table_step (Op_Increment h key d) t =
     do { (r, out, t) \<leftarrow> ltable_increment h key d t; Some (Counted r out, t) }"

fun table_run :: "table_op list \<Rightarrow> ltable \<Rightarrow> (table_answer list \<times> ltable) option" where
  "table_run [] t = Some ([], t)"
| "table_run (op # ops) t =
     do { (a, t) \<leftarrow> table_step op t; (as, t) \<leftarrow> table_run ops t; Some (a # as, t) }"

text \<open>
  The specification: a map \<open>M\<close> of what was last set, of which the table may forget anything when it
  writes to its log, and the keys \<open>F\<close> that it may not have forgotten yet. The answers that are
  allowed, and the map and the keys after an answer. A set that succeeds keeps its own key and, in
  the tables that share a log with it (\<open>same\<close>), no other; so does an increment, and a get with the right
  to change the table may move its item and keeps none.
\<close>

type_synonym kv_map = "u64 \<times> u64 list \<Rightarrow> u64 list option"

type_synonym kv_keys = "(u64 \<times> u64 list) set"

fun lossy_allows :: "kv_map \<Rightarrow> kv_keys \<Rightarrow> table_op \<Rightarrow> table_answer \<Rightarrow> bool" where
  "lossy_allows M F (Op_Set h key value overwrite) (Done r) \<longleftrightarrow>
     r = KSuccess \<and> (overwrite \<or> (h, key) \<notin> F) \<or> r = KExists \<and> \<not> overwrite"
| "lossy_allows M F (Op_Get h key n mut) (Got r out) \<longleftrightarrow> r = KNotFound \<and> (h, key) \<notin> F \<or>
     (case M (h, key) of None \<Rightarrow> False
      | Some value \<Rightarrow> out = take (unat n div 8) value
          \<and> r = (if 8 * length value \<le> unat n then KSuccess else KPartialValue))"
| "lossy_allows M F (Op_Test h key) (Done r) \<longleftrightarrow> r = KSuccess \<or> r = KNotFound \<and> (h, key) \<notin> F"
| "lossy_allows M F (Op_Del h key) (Done r) \<longleftrightarrow> r = KSuccess \<or> r = KNotFound \<and> (h, key) \<notin> F"
| "lossy_allows M F (Op_Increment h key d) (Counted r None) \<longleftrightarrow>
     r = KNotFound \<and> (h, key) \<notin> F \<or> r = KError \<and> ((h, key) \<in> F \<longrightarrow> (\<forall>v. M (h, key) \<noteq> Some [v]))"
| "lossy_allows M F (Op_Increment h key d) (Counted r (Some n)) \<longleftrightarrow> r = KSuccess \<and> M (h, key) = Some [n - d]"
| "lossy_allows M F op a \<longleftrightarrow> False"

fun lossy_next :: "kv_map \<Rightarrow> table_op \<Rightarrow> table_answer \<Rightarrow> kv_map" where
  "lossy_next M (Op_Set h key value overwrite) (Done KSuccess) = M((h, key) \<mapsto> value)"
| "lossy_next M (Op_Del h key) a = M((h, key) := None)"
| "lossy_next M (Op_Increment h key d) (Counted r (Some n)) = M((h, key) \<mapsto> [n])"
| "lossy_next M op a = M"

fun lossy_keeps :: "(u64 \<times> u64 list \<Rightarrow> u64 \<times> u64 list \<Rightarrow> bool) \<Rightarrow> kv_keys \<Rightarrow> table_op \<Rightarrow> table_answer \<Rightarrow> kv_keys" where
  "lossy_keeps same F (Op_Set h key value overwrite) (Done KSuccess) = insert (h, key) {x \<in> F. \<not> same x (h, key)}"
| "lossy_keeps same F (Op_Get h key n mut) a = (if mut then {x \<in> F. \<not> same x (h, key)} else F)"
| "lossy_keeps same F (Op_Del h key) a = F - {(h, key)}"
| "lossy_keeps same F (Op_Increment h key d) (Counted r (Some n)) = insert (h, key) {x \<in> F. \<not> same x (h, key)}"
| "lossy_keeps same F op a = F"

text \<open>The answers of one table.\<close>

fun lossy_answers :: "kv_map \<Rightarrow> kv_keys \<Rightarrow> table_op list \<Rightarrow> table_answer list \<Rightarrow> bool" where
  "lossy_answers M F [] [] \<longleftrightarrow> True"
| "lossy_answers M F (op # ops) (a # as) \<longleftrightarrow>
     lossy_allows M F op a \<and> lossy_answers (lossy_next M op a) (lossy_keeps (\<lambda>_ _. True) F op a) ops as"
| "lossy_answers M F ops as \<longleftrightarrow> False"

text \<open>
  The operations within the lengths the code asserts and the log can hold, where each key has
  values of one length.
\<close>

fun op_fits :: "nat \<Rightarrow> (u64 \<times> u64 list \<Rightarrow> nat) \<Rightarrow> table_op \<Rightarrow> bool" where
  "op_fits N vl (Op_Set h key value overwrite) \<longleftrightarrow> length key \<le> 31 \<and> length value \<le> 131071
     \<and> 3 + length key + length value < N \<and> length value = vl (h, key)"
| "op_fits N vl (Op_Get h key n mut) \<longleftrightarrow> length key \<le> 31"
| "op_fits N vl (Op_Test h key) \<longleftrightarrow> length key \<le> 31"
| "op_fits N vl (Op_Del h key) \<longleftrightarrow> length key \<le> 31"
| "op_fits N vl (Op_Increment h key d) \<longleftrightarrow> length key \<le> 31"

text \<open>The invariant between operations, with at most \<open>n\<close> of them done.\<close>

definition lossy_inv :: "nat \<Rightarrow> (u64 \<times> u64 list \<Rightarrow> nat) \<Rightarrow> nat \<Rightarrow> kv_map \<Rightarrow> kv_keys \<Rightarrow> ltable \<Rightarrow> bool" where
  "lossy_inv N vl n M F t \<longleftrightarrow> (\<exists>k l H vss. lossy_state k l H vl M vss t \<and> length (cl_data l) = N
     \<and> tail_cell l \<le> n * 2 ^ 18 \<and> (\<forall>(h, key) \<in> F. stored k l H vss h key))"

lemma room_bound:
  assumes "lossy_state k l H vl M vss t" "tail_cell l \<le> n * 2 ^ 18" "n \<le> 2 ^ 42"
  shows "room l"
proof -
  have "unat (cl_tail l) = 8 * tail_cell l" using hist_tail8 lossy_okD(1) lossy_stateD(4) [OF assms(1)] by blast
  moreover have "n * 2 ^ 18 \<le> 2 ^ 42 * 2 ^ 18" using assms(3) by (rule mult_le_mono1)
  ultimately show ?thesis using assms(2) by (simp add: room_def)
qed

lemma grows_inv:
  assumes "lossy_state k l' H vl M vss t" "grows l l'" "length (cl_data l) = N" "tail_cell l \<le> n * 2 ^ 18"
    and "\<forall>(h, key) \<in> F. stored k l' H vss h key"
  shows "lossy_inv N vl (Suc n) M F t"
  using assms unfolding lossy_inv_def grows_def
  by (intro exI [of _ k] exI [of _ l'] exI [of _ H] exI [of _ vss]) simp

lemma table_step_ok:
  assumes inv: "lossy_inv N vl n M F t" and f: "op_fits N vl op" and n: "n \<le> 2 ^ 42"
  shows "\<exists>a t'. table_step op t = Some (a, t') \<and> lossy_allows M F op a
    \<and> lossy_inv N vl (Suc n) (lossy_next M op a) (lossy_keeps (\<lambda>_ _. True) F op a) t'"
proof -
  obtain k l H vss where s: "lossy_state k l H vl M vss t" "length (cl_data l) = N" "tail_cell l \<le> n * 2 ^ 18"
    and F: "\<forall>(h, key) \<in> F. stored k l H vss h key"
    using inv unfolding lossy_inv_def by blast
  note r = room_bound [OF s(1,3) n]
  note g = grows_inv [OF _ _ s(2,3)]
  have in_F: "(h, key) \<in> F \<Longrightarrow> stored k l H vss h key" for h key using F by blast
  show ?thesis
  proof (cases op)
    case (Op_Set h key "value" overwrite)
    have kv: "kv_fits l key value" "length value = vl (h, key)" using f s(2) Op_Set by (auto simp: kv_fits_def)
    obtain res t' l' H' vss' where o: "ltable_set h key value overwrite t = Some (res, t')" "grows l l'"
      "res = KSuccess \<and> (overwrite \<or> \<not> stored k l H vss h key)
         \<and> lossy_state k l' H' vl (M((h, key) \<mapsto> value)) vss' t' \<and> stored k l' H' vss' h key \<or>
       res = KExists \<and> \<not> overwrite \<and> l' = l \<and> H' = H \<and> vss' = vss \<and> lossy_state k l H vl M vss t'"
      using set_ok [OF s(1) kv r, of overwrite] by blast
    from o(3) show ?thesis
    proof
      assume a: "res = KSuccess \<and> (overwrite \<or> \<not> stored k l H vss h key)
         \<and> lossy_state k l' H' vl (M((h, key) \<mapsto> value)) vss' t' \<and> stored k l' H' vss' h key"
      have "lossy_inv N vl (Suc n) (M((h, key) \<mapsto> value)) {(h, key)} t'" by (rule g [OF conjunct1 [OF conjunct2 [OF conjunct2 [OF a]]] o(2)]) (use a in simp)
      then show ?thesis using a o(1) in_F Op_Set by auto
    next
      assume a: "res = KExists \<and> \<not> overwrite \<and> l' = l \<and> H' = H \<and> vss' = vss \<and> lossy_state k l H vl M vss t'"
      then show ?thesis using g [OF _ grows_refl F] o(1) Op_Set by auto
    qed
  next
    case (Op_Get h key m mut)
    have len31: "length key \<le> 31" using f Op_Get by simp
    obtain res out t' l' H' vss' where o: "ltable_get h key m mut t = Some (res, out, t')" "grows l l'"
      "lossy_state k l' H' vl M vss' t'" "\<not> mut \<longrightarrow> l' = l \<and> H' = H \<and> vss' = vss"
      "res = KNotFound \<and> \<not> stored k l H vss h key \<or> (\<exists>value. M (h, key) = Some value \<and> out = take (unat m div 8) value
         \<and> res = (if 8 * length value \<le> unat m then KSuccess else KPartialValue))"
      using get_ok [OF s(1) len31 r, of h m mut] by blast
    have "lossy_allows M F op (Got res out)" using o(5) in_F Op_Get by auto
    moreover have "\<forall>(h', key') \<in> (if mut then {} else F). stored k l' H' vss' h' key'" using o(4) F by auto
    ultimately show ?thesis using g [OF o(3,2)] o(1) Op_Get by auto
  next
    case (Op_Test h key)
    have len31: "length key \<le> 31" using f Op_Test by simp
    obtain res t' where "ltable_test h key t = Some (res, t')" "lossy_state k l H vl M vss t'"
      "res = KSuccess \<or> res = KNotFound \<and> \<not> stored k l H vss h key"
      using test_ok [OF s(1) len31, of h] by blast
    then show ?thesis using g [OF _ grows_refl F] in_F Op_Test by auto
  next
    case (Op_Del h key)
    have len31: "length key \<le> 31" using f Op_Del by simp
    obtain res t' vss' where o: "ltable_del h key t = Some (res, t')"
      "res = KSuccess \<or> res = KNotFound \<and> \<not> stored k l H vss h key"
      "lossy_state k l H vl (M((h, key) := None)) vss' t'"
      "\<forall>h' key'. (h', key') \<noteq> (h, key) \<longrightarrow> stored k l H vss h' key' \<longrightarrow> stored k l H vss' h' key'"
      using del_ok [OF s(1) len31, of h] by blast
    have "\<forall>(h', key') \<in> F - {(h, key)}. stored k l H vss' h' key'" using o(4) in_F by blast
    then show ?thesis using g [OF o(3) grows_refl] o(1,2) in_F Op_Del by auto
  next
    case (Op_Increment h key d)
    have len31: "length key \<le> 31" using f Op_Increment by simp
    obtain res out t' l' M' where o: "ltable_increment h key d t = Some (res, out, t')" "grows l l'"
      "lossy_state k l' H vl M' vss t'"
      "res = KSuccess \<and> (\<exists>v. M (h, key) = Some [v] \<and> out = Some (v + d) \<and> M' = M((h, key) \<mapsto> [v + d]))
         \<and> stored k l' H vss h key \<or>
       (res = KNotFound \<and> \<not> stored k l H vss h key \<or> res = KError \<and> (stored k l H vss h key \<longrightarrow> (\<forall>v. M (h, key) \<noteq> Some [v])))
         \<and> out = None \<and> M' = M \<and> (\<forall>h' key'. stored k l' H vss h' key' = stored k l H vss h' key')"
      using increment_ok [OF s(1) len31, of h d] by blast
    have "lossy_allows M F op (Counted res out)" "lossy_next M op (Counted res out) = M'"
      using o(4) in_F Op_Increment by auto
    moreover have "\<forall>(h', key') \<in> lossy_keeps (\<lambda>_ _. True) F op (Counted res out). stored k l' H vss h' key'"
      using o(4) F Op_Increment by auto
    ultimately show ?thesis using g [OF o(3,2)] o(1) Op_Increment by auto
  qed
qed

lemma table_run_ok:
  assumes "lossy_inv N vl n M F t" "\<forall>op \<in> set ops. op_fits N vl op" "n + length ops \<le> 2 ^ 42"
  shows "\<exists>as t' M' F'. table_run ops t = Some (as, t') \<and> lossy_answers M F ops as \<and> lossy_inv N vl (n + length ops) M' F' t'"
  using assms
proof (induction ops arbitrary: n M F t)
  case (Cons op ops)
  obtain a t1 where a: "table_step op t = Some (a, t1)" "lossy_allows M F op a"
    "lossy_inv N vl (Suc n) (lossy_next M op a) (lossy_keeps (\<lambda>_ _. True) F op a) t1"
    using table_step_ok [OF Cons.prems(1), of op] Cons.prems(2,3) by auto
  then show ?case using Cons.IH [OF a(3)] Cons.prems(2,3) by fastforce
qed auto

lemma table_run_append:
  "table_run (xs @ ys) t = do { (as, t) \<leftarrow> table_run xs t; (bs, t) \<leftarrow> table_run ys t; Some (as @ bs, t) }"
proof (induction xs arbitrary: t)
  case Nil
  then show ?case by (cases "table_run ys t") auto
next
  case (Cons x xs)
  then show ?case by (cases "table_step x t"; cases "table_run xs (snd (the (table_step x t)))") (auto split: prod.splits bind_splits)
qed

text \<open>A configuration of a lossy table with at least two and at most \<open>2 ^ 31\<close> buckets, and its log.\<close>

definition lossy_setup :: "ltable_config \<Rightarrow> u64 \<Rightarrow> circular_log \<Rightarrow> bool" where
  "lossy_setup c item_count l \<longleftrightarrow> kEviction c \<and> 0 < kBucketSize c \<and> kBucketSize c < 2 ^ 32
     \<and> unat item_count * 11 < 2 ^ 63 \<and> kBucketSize c < unat item_count * 11 div 10
     \<and> unat item_count * 11 div 10 \<le> 2 ^ 31 * kBucketSize c \<and> clog_shape l \<and> (cl_mode l = 2 \<longrightarrow> cl_lock l = 0)"

lemma lossy_setup_inv:
  assumes "lossy_setup c item_count l"
  shows "\<exists>t. ltable_new c item_count extra_part mth_part cr cw (CircularLog l) = Some t
    \<and> lossy_inv (length (cl_data l)) vl 0 Map.empty {} t"
proof -
  obtain k t vss where "ltable_new c item_count extra_part mth_part cr cw (CircularLog l) = Some t"
    "lossy_state k (empty_log l) [] vl Map.empty vss t" "clog_shape l"
    using lossy_new [of c item_count l extra_part mth_part cr cw vl] assms
    by (auto simp: lossy_setup_def log_free_def)
  then show ?thesis using empty_log_ok(3,4) [of l] unfolding lossy_inv_def by fastforce
qed

lemma lossy_run_from_new:
  assumes "lossy_setup c item_count l" "\<forall>op \<in> set ops. op_fits (length (cl_data l)) vl op" "length ops \<le> 2 ^ 42"
  shows "\<exists>t as t' M F. ltable_new c item_count extra_part mth_part cr cw (CircularLog l) = Some t
    \<and> table_run ops t = Some (as, t') \<and> lossy_answers Map.empty {} ops as
    \<and> lossy_inv (length (cl_data l)) vl (length ops) M F t'"
  using lossy_setup_inv [OF assms(1), of extra_part mth_part cr cw vl] table_run_ok [OF _ assms(2), of 0 Map.empty "{}"] assms(3)
  by fastforce

lemma set_then_get:
  assumes inv: "lossy_inv N vl n M F t" and n: "n + 2 \<le> 2 ^ 42" and f: "op_fits N vl (Op_Set h key value True)"
    and m: "8 * length value \<le> unat m"
  shows "\<exists>t'. table_run [Op_Set h key value True, Op_Get h key m mut] t = Some ([Done KSuccess, Got KSuccess value], t')"
proof -
  obtain k l H vss where s: "lossy_state k l H vl M vss t" "length (cl_data l) = N" "tail_cell l \<le> n * 2 ^ 18"
    using inv unfolding lossy_inv_def by blast
  have kv: "kv_fits l key value" "length value = vl (h, key)" using f s(2) by (auto simp: kv_fits_def)
  obtain t1 l1 H1 vss1 where t1: "ltable_set h key value True t = Some (KSuccess, t1)" "grows l l1"
    "lossy_state k l1 H1 vl (M((h, key) \<mapsto> value)) vss1 t1" "stored k l1 H1 vss1 h key"
    using set_ok [OF s(1) kv room_bound [OF s(1,3)], of True] n by auto
  have "tail_cell l1 \<le> Suc n * 2 ^ 18" using t1(2) s(3) by (simp add: grows_def)
  moreover have "Suc n \<le> 2 ^ 42" using n by simp
  ultimately have r: "room l1" by (rule room_bound [OF t1(3)])
  obtain res out t2 where t2: "ltable_get h key m mut t1 = Some (res, out, t2)"
    "out = take (unat m div 8) value" "res = (if 8 * length value \<le> unat m then KSuccess else KPartialValue)"
    using get_ok [OF t1(3) _ r, of key h m mut] t1(4) f by auto
  have "length value \<le> unat m div 8" using m by simp
  then show ?thesis using t1(1) t2 m by simp
qed

lemma del_then_get:
  assumes inv: "lossy_inv N vl n M F t" and n: "n + 2 \<le> 2 ^ 42" and key: "length key \<le> 31"
  shows "\<exists>r out t'. table_run [Op_Del h key, Op_Get h key m mut] t = Some ([Done r, Got KNotFound out], t')"
proof -
  obtain k l H vss where s: "lossy_state k l H vl M vss t" "length (cl_data l) = N" "tail_cell l \<le> n * 2 ^ 18"
    using inv unfolding lossy_inv_def by blast
  obtain res t1 vss1 where t1: "ltable_del h key t = Some (res, t1)"
    "lossy_state k l H vl (M((h, key) := None)) vss1 t1"
    using del_ok [OF s(1) key, of h] by auto
  obtain out t2 where "ltable_get h key m mut t1 = Some (KNotFound, out, t2)"
    using get_ok [OF t1(2) key room_bound [OF s(1,3)], of h m mut] n by auto
  then show ?thesis using t1(1) by simp
qed

section \<open>Properties\<close>

text \<open>
  C5. A lossy table over a circular log, from its construction through any operations, up to
  \<open>2 ^ 42\<close> of them, is a cache of the map of what was last set. Keys are at most 31 words long, values
  fit the log, and all the values set for one key have one length (\<open>lossy_set_overflows\<close> shows what
  happens otherwise). Then every operation returns; a get gives the value last set and not deleted or
  changed since, cut to the room for it, or nothing; an increment adds to that value; a set succeeds,
  unless it may not overwrite. A key that was set or incremented is found by gets, tests, increments
  and deletes, and may not be set without overwriting, until the next set or increment that succeeds, a
  get that may change the table, or its delete (\<open>lossy_keeps\<close>). The code finds an item by its bytes
  in the log alone, so a test, a delete or a set that may not overwrite can still take a forgotten key
  for present; only a get and an increment check that the item is valid.
\<close>
theorem lossy_table_refines:
  assumes "lossy_setup c item_count l" "\<forall>op \<in> set ops. op_fits (length (cl_data l)) vl op" "length ops \<le> 2 ^ 42"
  shows "\<exists>t as t'. ltable_new c item_count extra_part mth_part cr cw (CircularLog l) = Some t
    \<and> table_run ops t = Some (as, t') \<and> lossy_answers Map.empty {} ops as"
  using lossy_run_from_new [OF assms] by blast

lemma small_setup: "lossy_setup (BasicLossyLTableConfig\<lparr>kBucketSize := 2\<rparr>) 3 small_log"
  using clog_ok_shape [OF small_log_ok]
  by (simp add: lossy_setup_def BasicLossyLTableConfig_def) (simp add: small_log_def)

lemma small_size: "length (cl_data small_log) = 8"
  by (simp add: small_log_def)

theorem lossy_table_refines_witness:
  "\<exists>t as t'. ltable_new (BasicLossyLTableConfig\<lparr>kBucketSize := 2\<rparr>) 3 (\<lambda>_. 0) (\<lambda>n. n div 2) True True (CircularLog small_log) = Some t
    \<and> table_run [Op_Set 5 [1] [10] True, Op_Test 5 [1], Op_Get 5 [1] 8 True, Op_Increment 5 [1] 3, Op_Del 5 [1], Op_Test 5 [1]] t
      = Some (Done KSuccess # Done KSuccess # Got KSuccess [10] # as, t')
    \<and> lossy_answers Map.empty {}
        [Op_Set 5 [1] [10] True, Op_Test 5 [1], Op_Get 5 [1] 8 True, Op_Increment 5 [1] 3, Op_Del 5 [1], Op_Test 5 [1]]
        (Done KSuccess # Done KSuccess # Got KSuccess [10] # as)"
proof -
  let ?ops = "[Op_Set 5 [1] [10] True, Op_Test 5 [1], Op_Get 5 [1] 8 True, Op_Increment 5 [1] 3, Op_Del 5 [1], Op_Test 5 [1]]"
  have "\<forall>op \<in> set ?ops. op_fits (length (cl_data small_log)) (\<lambda>_. 1) op" by (simp add: small_size)
  from lossy_table_refines [OF small_setup this, of "\<lambda>_. 0" "\<lambda>n. n div 2" True True]
  obtain t as t' where t: "ltable_new (BasicLossyLTableConfig\<lparr>kBucketSize := 2\<rparr>) 3 (\<lambda>_. 0) (\<lambda>n. n div 2) True True (CircularLog small_log) = Some t"
    "table_run ?ops t = Some (as, t')" "lossy_answers Map.empty {} ?ops as" by auto
  obtain a as1 where a: "as = a # as1" "lossy_allows Map.empty {} (Op_Set 5 [1] [10] True) a"
    "lossy_answers (lossy_next Map.empty (Op_Set 5 [1] [10] True) a)
       (lossy_keeps (\<lambda>_ _. True) {} (Op_Set 5 [1] [10] True) a) (tl ?ops) as1"
    using t(3) by (cases as) auto
  have a1: "a = Done KSuccess" using a(2) by (cases a) auto
  let ?M = "Map.empty((5 :: u64, [1 :: u64]) \<mapsto> [10 :: u64])" and ?F = "{(5 :: u64, [1 :: u64])}"
  obtain b as2 where b: "as1 = b # as2" "lossy_allows ?M ?F (Op_Test 5 [1]) b"
    "lossy_answers ?M ?F (drop 2 ?ops) as2"
    using a(3) by (cases as1) (auto simp: a1)
  have b1: "b = Done KSuccess" using b(2) by (cases b) auto
  obtain c as3 where c: "as2 = c # as3" "lossy_allows ?M ?F (Op_Get 5 [1] 8 True) c"
    using b(3) by (cases as2) auto
  have "c = Got KSuccess [10]" using c(2) by (cases c) auto
  with a(1) b(1) c(1) a1 b1 have "as = Done KSuccess # Done KSuccess # Got KSuccess [10] # as3" by simp
  with t show ?thesis by blast
qed

text \<open>Whatever was done before, a value that is set is what a get finds right after.\<close>
theorem lossy_set_get:
  assumes "lossy_setup c item_count l" "\<forall>op \<in> set ops. op_fits (length (cl_data l)) vl op"
    "op_fits (length (cl_data l)) vl (Op_Set h key value True)" "length ops + 2 \<le> 2 ^ 42" "8 * length value \<le> unat n"
  shows "\<exists>t as t'. ltable_new c item_count extra_part mth_part cr cw (CircularLog l) = Some t
    \<and> table_run (ops @ [Op_Set h key value True, Op_Get h key n mut]) t
      = Some (as @ [Done KSuccess, Got KSuccess value], t')"
proof -
  obtain t as t1 M F where t: "ltable_new c item_count extra_part mth_part cr cw (CircularLog l) = Some t"
    "table_run ops t = Some (as, t1)" "lossy_inv (length (cl_data l)) vl (length ops) M F t1"
    using lossy_run_from_new [OF assms(1,2)] assms(4) by fastforce
  then show ?thesis
    using set_then_get [OF t(3) assms(4,3,5), of mut] by (fastforce simp: table_run_append simp del: table_run.simps)
qed

theorem lossy_set_get_witness:
  "\<exists>t as t'. ltable_new (BasicLossyLTableConfig\<lparr>kBucketSize := 2\<rparr>) 3 (\<lambda>_. 0) (\<lambda>n. n div 2) True True (CircularLog small_log) = Some t
    \<and> table_run ([Op_Set 9 [2] [4] False] @ [Op_Set 5 [1] [10] True, Op_Get 5 [1] 8 True]) t
      = Some (as @ [Done KSuccess, Got KSuccess [10]], t')"
  by (rule lossy_set_get [OF small_setup, where vl = "\<lambda>_. 1"]) (simp_all add: small_size)

text \<open>Whatever was done before, a key that is deleted is not found right after.\<close>
theorem lossy_del_get:
  assumes "lossy_setup c item_count l" "\<forall>op \<in> set ops. op_fits (length (cl_data l)) vl op"
    "length key \<le> 31" "length ops + 2 \<le> 2 ^ 42"
  shows "\<exists>t as r out t'. ltable_new c item_count extra_part mth_part cr cw (CircularLog l) = Some t
    \<and> table_run (ops @ [Op_Del h key, Op_Get h key n mut]) t = Some (as @ [Done r, Got KNotFound out], t')"
proof -
  obtain t as t1 M F where t: "ltable_new c item_count extra_part mth_part cr cw (CircularLog l) = Some t"
    "table_run ops t = Some (as, t1)" "lossy_inv (length (cl_data l)) vl (length ops) M F t1"
    using lossy_run_from_new [OF assms(1,2)] assms(4) by fastforce
  then show ?thesis
    using del_then_get [OF t(3) assms(4,3), of h n mut] by (fastforce simp: table_run_append simp del: table_run.simps)
qed

theorem lossy_del_get_witness:
  "\<exists>t as r out t'. ltable_new (BasicLossyLTableConfig\<lparr>kBucketSize := 2\<rparr>) 3 (\<lambda>_. 0) (\<lambda>n. n div 2) True True (CircularLog small_log) = Some t
    \<and> table_run ([Op_Set 5 [1] [10] True] @ [Op_Del 5 [1], Op_Get 5 [1] 8 True]) t = Some (as @ [Done r, Got KNotFound out], t')"
  by (rule lossy_del_get [OF small_setup, where vl = "\<lambda>_. 1"]) (simp_all add: small_size)

definition small_table :: ltable where
  "small_table = \<lparr>lt_config = BasicLossyLTableConfig\<lparr>kBucketSize := 2\<rparr>, lt_pool = CircularLog small_log,
     lt_buckets = replicate 2 \<lparr>b_version = 0, b_next = 0, b_items = [0, 0]\<rparr>,
     lt_mode = 0, lt_rshift = 46, lt_num_buckets = 2, lt_num_buckets_mask = 1, lt_num_extra_buckets = 0,
     lt_mth_threshold = 32, lt_free_lock = 0, lt_free_head = 0, lt_stats = zero_stats\<rparr>"

text \<open>
  C36. The size \<^verbatim>\<open>CircularLog::get_item\<close> reports is that of the cell, with the 8 bytes of its
  header, where \<^verbatim>\<open>set\<close> compares it with the size of the item alone. So a value one word longer
  than the one it replaces is written in place, and its last word is the first of the next
  item: after the next set it is gone, and a get finds the size of that item instead.
\<close>
theorem lossy_set_overflows:
  "map_option fst (table_run [Op_Set 5 [] [10] True, Op_Set 5 [] [30, 31] True, Op_Get 5 [] 16 False,
       Op_Set 9 [] [4] True, Op_Get 5 [] 16 False] small_table) =
   Some [Done KSuccess, Done KSuccess, Got KSuccess [30, 31], Done KSuccess, Got KSuccess [30, 32]]"
  by code_simp

end
