(* ===== verification/Partitions.thy ===== *)
theory Partitions
  imports Mica_Queue Round_Up L_Table
begin

text \<open>
  The request processors of \<^verbatim>\<open>mica/processor/\<close>: the key space split into partitions, each with
  a table of its own and an owner core (\<^verbatim>\<open>partitions.h\<close>, \<^verbatim>\<open>partitions_impl/\<close>), the request
  pipeline, the hand-over of partitions between cores and the balancing of the load, and the
  processor with one table (\<^verbatim>\<open>simple_processor.h\<close>). Keys and values are lists of 64-bit words.
  Prefetching changes nothing, but it reads through the pointer of the table, so that every
  request that is executed needs the table of its partition. A read through a pointer that was never set, or outside an
  array, has the result \<^const>\<open>None\<close>.
\<close>

section \<open>Requests (\<^verbatim>\<open>types.h\<close>, \<^verbatim>\<open>request_accessor.h\<close>)\<close>

text \<open>\<open>KOther\<close> is a value of the type that no enumerator has, as a byte of a request can be.\<close>

datatype operation = KReset | KNoopRead | KNoopWrite | KAdd | KSet | KGet | KTest | KDelete | KIncrement | KOther u8

text \<open>
  The arrays of a \<^verbatim>\<open>RequestArrayAccessor\<close> as one list of requests, \<^verbatim>\<open>count_\<close> its length. The
  outputs are what the pointers \<^verbatim>\<open>out_values_\<close>, \<^verbatim>\<open>out_value_lengths_\<close> and \<^verbatim>\<open>out_results_\<close> lead
  to; no two requests share one.
\<close>

record request =
  r_operation :: operation
  r_key_hash :: u64
  r_key :: "u64 list"
  r_value :: "u64 list"
  r_out_value :: "u64 list"
  r_out_value_length :: u64
  r_result :: result

definition prepare :: "u64 \<Rightarrow> request list \<Rightarrow> bool" where
  "prepare index rs \<longleftrightarrow> unat index < length rs"

definition request_at :: "u64 \<Rightarrow> request list \<Rightarrow> request option" where
  "request_at index rs = (if unat index < length rs then Some (rs ! unat index) else None)"

definition answer :: "u64 \<Rightarrow> result \<Rightarrow> request \<Rightarrow> request" where
  "answer len res r = r\<lparr>r_out_value_length := len, r_result := res\<rparr>"

definition fill_out :: "u64 list \<Rightarrow> request \<Rightarrow> request" where
  "fill_out out r = r\<lparr>r_out_value := out @ drop (length out) (r_out_value r)\<rparr>"

section \<open>The state (\<^verbatim>\<open>partitions.h\<close>)\<close>

record partitions_config =
  kSkipPrefetchingForRecentKeyHashes :: bool
  kRecentKeyHashBuckets :: u64
  kRecentKeyHashAssociativity :: nat
  kAutoStageGap :: bool

definition BasicPartitionsConfig :: partitions_config where
  "BasicPartitionsConfig = \<lparr>kSkipPrefetchingForRecentKeyHashes = True, kRecentKeyHashBuckets = 128,
     kRecentKeyHashAssociativity = 1, kAutoStageGap = False\<rparr>"

definition kMaxLCoreCount :: nat where "kMaxLCoreCount = 64"

definition kMaxPartitionCount :: nat where "kMaxPartitionCount = 256"

record load_stats =
  ls_request_count :: "u32 list"
  ls_processing_time :: u64
  ls_stage_gap :: u64

text \<open>
  A change of owner is the partition and its new owner. The queues have 16 slots, with the
  lock of the producers. \<^verbatim>\<open>tables_\<close> has \<^const>\<open>None\<close> where the pointer was never set.
\<close>

record partitions =
  pa_config :: partitions_config
  pa_concurrent_read :: bool
  pa_concurrent_write :: bool
  pa_target_stage_gap_time :: u16
  pa_partition_count :: u16
  pa_lcores :: "u16 list"
  pa_owner_lcore_ids :: "u16 list"
  pa_tables :: "ltable option list"
  pa_pending :: "(u16 \<times> u16) mqueue list"
  pa_load_stats :: "load_stats list"
  pa_recent :: "u16 list list"

section \<open>Information and owners (\<^verbatim>\<open>info.h\<close>)\<close>

definition get_table_count :: "partitions \<Rightarrow> u16" where "get_table_count p = pa_partition_count p"

definition get_table :: "nat \<Rightarrow> partitions \<Rightarrow> ltable option" where
  "get_table index p = do { t \<leftarrow> elem_at (pa_tables p) index; t }"

definition get_owner_lcore_id :: "nat \<Rightarrow> partitions \<Rightarrow> u16 option" where
  "get_owner_lcore_id index p = elem_at (pa_owner_lcore_ids p) index"

definition get_partition_id :: "u64 \<Rightarrow> partitions \<Rightarrow> u16" where
  "get_partition_id key_hash p = ucast (drop_bit 48 key_hash mod ucast (pa_partition_count p))"

definition reset_load_stats :: "partitions \<Rightarrow> partitions" where
  "reset_load_stats p = p\<lparr>pa_load_stats := map (\<lambda>s. s\<lparr>ls_request_count := replicate kMaxPartitionCount 0,
     ls_processing_time := 0\<rparr>) (pa_load_stats p)\<rparr>"

definition get_request_count :: "u16 \<Rightarrow> u16 \<Rightarrow> partitions \<Rightarrow> u32 option" where
  "get_request_count lcore_id index p =
     do { s \<leftarrow> elem_at (pa_load_stats p) (unat lcore_id); elem_at (ls_request_count s) (unat index) }"

definition get_processing_time :: "u16 \<Rightarrow> partitions \<Rightarrow> u64 option" where
  "get_processing_time lcore_id p = do { s \<leftarrow> elem_at (pa_load_stats p) (unat lcore_id); Some (ls_processing_time s) }"

text \<open>A change enters the queue of the current owner; a full queue drops it.\<close>

definition enqueue_change :: "u16 \<Rightarrow> u16 \<times> u16 \<Rightarrow> partitions \<Rightarrow> partitions option" where
  "enqueue_change lcore_id c p =
     do {
       q \<leftarrow> elem_at (pa_pending p) (unat lcore_id);
       (ok, q) \<leftarrow> enqueue 16 True c q;
       Some (p\<lparr>pa_pending := (pa_pending p)[unat lcore_id := q]\<rparr>)
     }"

definition set_new_owner_lcore_id :: "u16 \<Rightarrow> u16 \<Rightarrow> partitions \<Rightarrow> partitions option" where
  "set_new_owner_lcore_id index lcore_id p =
     do {
       owner \<leftarrow> elem_at (pa_owner_lcore_ids p) (unat index);
       if owner = lcore_id then Some p else enqueue_change owner (index, lcore_id) p
     }"

partial_function (option) apply_changes :: "u16 \<Rightarrow> partitions \<Rightarrow> partitions option" where
  "apply_changes lcore_id p =
     do {
       q \<leftarrow> elem_at (pa_pending p) (unat lcore_id);
       (c, q) \<leftarrow> dequeue 16 False q;
       let p = p\<lparr>pa_pending := (pa_pending p)[unat lcore_id := q]\<rparr>;
       case c of
         None \<Rightarrow> Some p
       | Some (partition_id, new_owner) \<Rightarrow> do {
           owner \<leftarrow> elem_at (pa_owner_lcore_ids p) (unat partition_id);
           p \<leftarrow> (if owner = lcore_id
                then Some (p\<lparr>pa_owner_lcore_ids := (pa_owner_lcore_ids p)[unat partition_id := new_owner]\<rparr>)
                else enqueue_change owner (partition_id, new_owner) p);
           apply_changes lcore_id p
         }
     }"

declare apply_changes.simps [code]

definition apply_pending_owner_lcore_changes :: "u16 \<Rightarrow> partitions \<Rightarrow> partitions option" where
  "apply_pending_owner_lcore_changes lcore_id p =
     do {
       q \<leftarrow> elem_at (pa_pending p) (unat lcore_id);
       if \<not> approximate_empty q then apply_changes lcore_id p else Some p
     }"

section \<open>Balancing the load (\<^verbatim>\<open>rebalance_load\<close>)\<close>

text \<open>
  \<open>numa\<close> is \<^verbatim>\<open>lcore.numa_id\<close>. A bin is a partition and its requests; \<^verbatim>\<open>stable_sort\<close> by
  descending requests is an insertion behind the bins that are not smaller.
\<close>

type_synonym bin = "u16 \<times> u64"

definition numa_lcores :: "(u16 \<Rightarrow> nat) \<Rightarrow> nat \<Rightarrow> partitions \<Rightarrow> u16 list" where
  "numa_lcores numa n p = filter (\<lambda>c. numa c = n) (pa_lcores p)"

fun sum_requests :: "u16 list \<Rightarrow> u16 \<Rightarrow> partitions \<Rightarrow> u64 \<Rightarrow> u64 option" where
  "sum_requests [] partition_id p count = Some count"
| "sum_requests (c # cs) partition_id p count =
     do { n \<leftarrow> get_request_count c partition_id p; sum_requests cs partition_id p (count + ucast n) }"

fun collect_bins :: "(u16 \<Rightarrow> nat) \<Rightarrow> nat \<Rightarrow> u16 list \<Rightarrow> nat \<Rightarrow> partitions \<Rightarrow> bin list option" where
  "collect_bins numa n lcores 0 p = Some []"
| "collect_bins numa n lcores (Suc i) p =
     do {
       bins \<leftarrow> collect_bins numa n lcores i p;
       owner \<leftarrow> elem_at (pa_owner_lcore_ids p) i;
       if numa owner \<noteq> n then Some bins
       else do { count \<leftarrow> sum_requests lcores (of_nat i) p 0; Some (bins @ [(of_nat i, count)]) }
     }"

fun insert_bin :: "bin \<Rightarrow> bin list \<Rightarrow> bin list" where
  "insert_bin b [] = [b]"
| "insert_bin b (c # cs) = (if snd b > snd c then b # c # cs else c # insert_bin b cs)"

definition sort_bins :: "bin list \<Rightarrow> bin list" where
  "sort_bins bins = fold insert_bin bins []"

text \<open>The first least loaded core: the scan keeps the least load so far and its index.\<close>

fun least_loaded :: "u64 list \<Rightarrow> nat \<Rightarrow> u64 \<times> nat \<Rightarrow> u64 \<times> nat" where
  "least_loaded [] i acc = acc"
| "least_loaded (x # xs) i (m, k) = least_loaded xs (Suc i) (if m > x then (x, i) else (m, k))"

fun pack_bins :: "u16 list \<Rightarrow> u64 list \<Rightarrow> bin list \<Rightarrow> partitions \<Rightarrow> (u64 list \<times> partitions) option" where
  "pack_bins lcores loads [] p = Some (loads, p)"
| "pack_bins lcores loads ((partition_id, count) # bins) p =
     do {
       let k = snd (least_loaded loads 0 (- 1, 0));
       load \<leftarrow> elem_at loads k;
       c \<leftarrow> elem_at lcores k;
       p \<leftarrow> set_new_owner_lcore_id partition_id c p;
       pack_bins lcores (loads[k := load + count]) bins p
     }"

definition rebalance_numa :: "(u16 \<Rightarrow> nat) \<Rightarrow> nat \<Rightarrow> partitions \<Rightarrow> partitions option" where
  "rebalance_numa numa n p =
     do {
       let lcores = numa_lcores numa n p;
       bins \<leftarrow> collect_bins numa n lcores (unat (pa_partition_count p)) p;
       let bins = sort_bins bins;
       if bins = [] \<or> snd (hd bins) = 0 then Some p
       else do { (loads, p) \<leftarrow> pack_bins lcores (replicate (length lcores) 0) bins p; Some p }
     }"

fun rebalance_numas :: "(u16 \<Rightarrow> nat) \<Rightarrow> nat list \<Rightarrow> partitions \<Rightarrow> partitions option" where
  "rebalance_numas numa [] p = Some p"
| "rebalance_numas numa (n # ns) p = do { p \<leftarrow> rebalance_numa numa n p; rebalance_numas numa ns p }"

definition rebalance_load :: "(u16 \<Rightarrow> nat) \<Rightarrow> nat \<Rightarrow> partitions \<Rightarrow> partitions option" where
  "rebalance_load numa numa_count p =
     do { p \<leftarrow> rebalance_numas numa [0..<numa_count] p; Some (reset_load_stats p) }"

section \<open>Recent key hashes (\<^verbatim>\<open>recent_key_hash.h\<close>)\<close>

definition recent_index :: "u64 \<Rightarrow> partitions_config \<Rightarrow> nat" where
  "recent_index key_hash c =
     unat (drop_bit 32 key_hash AND (kRecentKeyHashBuckets c - 1)) * kRecentKeyHashAssociativity c"

definition is_recent_key_hash :: "u16 \<Rightarrow> u64 \<Rightarrow> partitions \<Rightarrow> bool" where
  "is_recent_key_hash lcore_id key_hash p =
     (let c = pa_config p; index = recent_index key_hash c; tag = (ucast key_hash :: u16);
          v = pa_recent p ! unat lcore_id
      in \<exists>i<kRecentKeyHashAssociativity c. v ! (index + i) = tag)"

text \<open>The slot a hash moves from: its own from the second on, otherwise the last.\<close>

function recent_slot :: "u16 list \<Rightarrow> nat \<Rightarrow> u16 \<Rightarrow> nat \<Rightarrow> nat \<Rightarrow> nat" where
  "recent_slot v index tag n i =
     (if i < n - 1 then if v ! (index + i) = tag then i else recent_slot v index tag n (Suc i) else i)"
  by pat_completeness auto
termination by (relation "measure (\<lambda>(v, index, tag, n, i). n - i)") auto

declare recent_slot.simps [simp del]

fun shift_recent :: "nat \<Rightarrow> nat \<Rightarrow> u16 list \<Rightarrow> u16 list" where
  "shift_recent index 0 v = v"
| "shift_recent index (Suc j) v = shift_recent index j (v[index + Suc j := v ! (index + j)])"

definition update_recent :: "u64 \<Rightarrow> partitions_config \<Rightarrow> u16 list \<Rightarrow> u16 list" where
  "update_recent key_hash c v =
     (let index = recent_index key_hash c; tag = (ucast key_hash :: u16); n = kRecentKeyHashAssociativity c
      in if v ! index = tag then v
         else let v = (if n > 1 then shift_recent index (recent_slot v index tag n 1) v else v)
              in v[index := tag])"

definition update_recent_key_hash :: "u16 \<Rightarrow> u64 \<Rightarrow> partitions \<Rightarrow> partitions" where
  "update_recent_key_hash lcore_id key_hash p =
     p\<lparr>pa_recent := (pa_recent p)[unat lcore_id := update_recent key_hash (pa_config p) (pa_recent p ! unat lcore_id)]\<rparr>"

section \<open>One request (\<^verbatim>\<open>process.h\<close>)\<close>

definition count_request :: "u16 \<Rightarrow> u16 \<Rightarrow> partitions \<Rightarrow> partitions option" where
  "count_request lcore_id partition_id p =
     do {
       s \<leftarrow> elem_at (pa_load_stats p) (unat lcore_id);
       n \<leftarrow> elem_at (ls_request_count s) (unat partition_id);
       Some (p\<lparr>pa_load_stats := (pa_load_stats p)[unat lcore_id :=
         s\<lparr>ls_request_count := (ls_request_count s)[unat partition_id := n + 1]\<rparr>]\<rparr>)
     }"

definition put_table :: "u16 \<Rightarrow> ltable \<Rightarrow> partitions \<Rightarrow> partitions" where
  "put_table partition_id t p = p\<lparr>pa_tables := (pa_tables p)[unat partition_id := Some t]\<rparr>"

text \<open>\<^verbatim>\<open>kReset\<close> resets every table of the array, those never set included.\<close>

fun reset_tables :: "ltable option list \<Rightarrow> ltable option list option" where
  "reset_tables [] = Some []"
| "reset_tables (t # ts) =
     do { t \<leftarrow> t; t \<leftarrow> ltable_reset t; ts \<leftarrow> reset_tables ts; Some (Some t # ts) }"

definition accepts :: "operation \<Rightarrow> bool \<Rightarrow> partitions \<Rightarrow> bool" where
  "accepts op own p =
     (case op of
        KNoopRead \<Rightarrow> pa_concurrent_read p \<or> own
      | KGet \<Rightarrow> pa_concurrent_read p \<or> own
      | KTest \<Rightarrow> pa_concurrent_read p \<or> own
      | KReset \<Rightarrow> pa_concurrent_write p \<or> own
      | KNoopWrite \<Rightarrow> pa_concurrent_write p \<or> own
      | KAdd \<Rightarrow> pa_concurrent_write p \<or> own
      | KSet \<Rightarrow> pa_concurrent_write p \<or> own
      | KDelete \<Rightarrow> pa_concurrent_write p \<or> own
      | KIncrement \<Rightarrow> pa_concurrent_write p \<or> own
      | KOther code \<Rightarrow> True)"

definition execute :: "u16 \<Rightarrow> bool \<Rightarrow> request \<Rightarrow> partitions \<Rightarrow> (request \<times> partitions) option" where
  "execute partition_id own r p =
     do {
       table \<leftarrow> get_table (unat partition_id) p;
       case r_operation r of
         KReset \<Rightarrow> do { ts \<leftarrow> reset_tables (pa_tables p); Some (answer 0 KSuccess r, p\<lparr>pa_tables := ts\<rparr>) }
       | KNoopRead \<Rightarrow> Some (answer 0 KSuccess r, p)
       | KNoopWrite \<Rightarrow> Some (answer 0 KSuccess r, p)
       | KAdd \<Rightarrow> do {
           (res, table) \<leftarrow> ltable_set (r_key_hash r) (r_key r) (r_value r) False table;
           Some (answer 0 res r, put_table partition_id table p)
         }
       | KSet \<Rightarrow> do {
           (res, table) \<leftarrow> ltable_set (r_key_hash r) (r_key r) (r_value r) True table;
           Some (answer 0 res r, put_table partition_id table p)
         }
       | KGet \<Rightarrow> do {
           (res, out, table) \<leftarrow> ltable_get (r_key_hash r) (r_key r) (r_out_value_length r) own table;
           Some (answer (if res = KSuccess \<or> res = KPartialValue then byte_len out else 0) res (fill_out out r),
             put_table partition_id table p)
         }
       | KTest \<Rightarrow> do {
           (res, table) \<leftarrow> ltable_test (r_key_hash r) (r_key r) table;
           Some (answer 0 res r, put_table partition_id table p)
         }
       | KDelete \<Rightarrow> do {
           (res, table) \<leftarrow> ltable_del (r_key_hash r) (r_key r) table;
           Some (answer 0 res r, put_table partition_id table p)
         }
       | KIncrement \<Rightarrow>
           if byte_len (r_value r) \<noteq> 8 \<or> r_out_value_length r < 8 then Some (answer 0 KError r, p)
           else do {
             (res, out, table) \<leftarrow> ltable_increment (r_key_hash r) (r_key r) (hd (r_value r)) table;
             Some (answer (if res = KSuccess then 8 else 0) res
                 (case out of None \<Rightarrow> r | Some n \<Rightarrow> fill_out [n] r), put_table partition_id table p)
           }
       | KOther code \<Rightarrow> Some (answer 0 KError r, p)
     }"

definition process_request :: "u16 \<Rightarrow> u16 \<Rightarrow> request \<Rightarrow> partitions \<Rightarrow> (request \<times> partitions) option" where
  "process_request lcore_id partition_id r p =
     do {
       owner \<leftarrow> get_owner_lcore_id (unat partition_id) p;
       let own = (owner = lcore_id);
       if \<not> accepts (r_operation r) own p then Some (answer 0 KRejected r, p)
       else do { p \<leftarrow> count_request lcore_id partition_id p; execute partition_id own r p }
     }"

section \<open>The pipeline (\<^verbatim>\<open>process.h\<close>)\<close>

text \<open>
  The variables of the loop: \<open>pl_ids\<close> is \<^verbatim>\<open>partition_ids\<close>, indexed by request modulo the size of
  the pipeline. \<open>clock\<close> gives what \<^verbatim>\<open>rdtsc\<close> reads when the gap is adapted in an iteration.
\<close>

record pipeline =
  pl_i :: u64
  pl_count :: u64
  pl_count_plus_gap :: u64
  pl_stage_gap :: u64
  pl_last_gap_update_t :: u64
  pl_ids :: "u16 list"
  pl_requests :: "request list"
  pl_partitions :: partitions

definition no_count :: u64 where "no_count = ucast (- 1 :: u32)"

definition gap_update_interval :: u64 where "gap_update_interval = 0x10000"

definition stage_prepare :: "u64 \<Rightarrow> pipeline \<Rightarrow> pipeline" where
  "stage_prepare index s =
     (if pl_count s = no_count \<and> \<not> prepare index (pl_requests s)
      then s\<lparr>pl_count := index, pl_count_plus_gap := index + 3 * pl_stage_gap s\<rparr> else s)"

definition stage_partition :: "u64 \<Rightarrow> u64 \<Rightarrow> pipeline \<Rightarrow> pipeline option" where
  "stage_partition pipeline_size_mask index s =
     (if index < pl_count s
      then do {
        r \<leftarrow> request_at index (pl_requests s);
        let partition_id = get_partition_id (r_key_hash r) (pl_partitions s);
        Some (s\<lparr>pl_ids := (pl_ids s)[unat (index AND pipeline_size_mask) := partition_id]\<rparr>)
      }
      else Some s)"

definition adapt_gap :: "u64 \<Rightarrow> u64 \<Rightarrow> u64 \<Rightarrow> u64" where
  "adapt_gap target diff stage_gap =
     (let gap_time = stage_gap * diff div gap_update_interval;
          stage_gap = (if gap_time > 0 then (stage_gap * target + (gap_time - 1)) div gap_time else stage_gap);
          stage_gap = (if stage_gap < 1 then 1 else stage_gap)
      in if stage_gap > 16 then 16 else stage_gap)"

definition adapt_stage_gap :: "u64 \<Rightarrow> pipeline \<Rightarrow> pipeline" where
  "adapt_stage_gap now s =
     s\<lparr>pl_last_gap_update_t := now,
       pl_stage_gap := adapt_gap (ucast (pa_target_stage_gap_time (pl_partitions s)))
         (now - pl_last_gap_update_t s) (pl_stage_gap s)\<rparr>"

definition stage_process :: "(u64 \<Rightarrow> u64) \<Rightarrow> u16 \<Rightarrow> u64 \<Rightarrow> u64 \<Rightarrow> pipeline \<Rightarrow> pipeline option" where
  "stage_process clock lcore_id pipeline_size_mask index s =
     (if index < pl_count s
      then do {
        r \<leftarrow> request_at index (pl_requests s);
        partition_id \<leftarrow> elem_at (pl_ids s) (unat (index AND pipeline_size_mask));
        (r', p) \<leftarrow> process_request lcore_id partition_id r (pl_partitions s);
        let p = (if kSkipPrefetchingForRecentKeyHashes (pa_config p)
                 then update_recent_key_hash lcore_id (r_key_hash r) p else p);
        let s = s\<lparr>pl_requests := (pl_requests s)[unat index := r'], pl_partitions := p\<rparr>;
        Some (if kAutoStageGap (pa_config p)
                \<and> pl_i s AND (gap_update_interval - 1) = gap_update_interval - 1 \<and> pa_target_stage_gap_time p \<noteq> 0
              then adapt_stage_gap (clock (pl_i s)) s else s)
      }
      else Some s)"

text \<open>One iteration, and the loop. Of the stages that only prefetch the steps of the index are left.\<close>

definition pipeline_step :: "(u64 \<Rightarrow> u64) \<Rightarrow> u16 \<Rightarrow> u64 \<Rightarrow> pipeline \<Rightarrow> pipeline option" where
  "pipeline_step clock lcore_id pipeline_size_mask s =
     do {
       let index = pl_i s;
       let s = stage_prepare index s;
       let index = index - pl_stage_gap s;
       s \<leftarrow> stage_partition pipeline_size_mask index s;
       let index = index - pl_stage_gap s;
       let index = index - pl_stage_gap s;
       s \<leftarrow> stage_process clock lcore_id pipeline_size_mask index s;
       Some (s\<lparr>pl_i := pl_i s + 1\<rparr>)
     }"

partial_function (option) pipeline_loop :: "(u64 \<Rightarrow> u64) \<Rightarrow> u16 \<Rightarrow> u64 \<Rightarrow> pipeline \<Rightarrow> pipeline option" where
  "pipeline_loop clock lcore_id pipeline_size_mask s =
     (if pl_i s < pl_count_plus_gap s
      then do {
        s \<leftarrow> pipeline_step clock lcore_id pipeline_size_mask s;
        pipeline_loop clock lcore_id pipeline_size_mask s
      }
      else Some s)"

declare pipeline_loop.simps [code]

text \<open>
  \<^verbatim>\<open>process\<close>, with what \<^verbatim>\<open>rdtsc\<close> reads at its start and its end, and what the array of
  partition ids holds at first.
\<close>

definition finish_process :: "u16 \<Rightarrow> u64 \<Rightarrow> u64 \<Rightarrow> pipeline \<Rightarrow> partitions option" where
  "finish_process lcore_id start_t now s =
     do {
       let p = pl_partitions s;
       let auto = kAutoStageGap (pa_config p);
       let s = (if auto \<and> pl_count_plus_gap s < gap_update_interval - 1 \<and> pa_target_stage_gap_time p \<noteq> 0
                then adapt_stage_gap now s else s);
       st \<leftarrow> elem_at (pa_load_stats p) (unat lcore_id);
       let st = (if auto then st\<lparr>ls_stage_gap := pl_stage_gap s\<rparr> else st);
       let st = st\<lparr>ls_processing_time := ls_processing_time st + (now - start_t)\<rparr>;
       apply_pending_owner_lcore_changes lcore_id (p\<lparr>pa_load_stats := (pa_load_stats p)[unat lcore_id := st]\<rparr>)
     }"

definition process ::
  "(u64 \<Rightarrow> u64) \<Rightarrow> u64 \<Rightarrow> u64 \<Rightarrow> (nat \<Rightarrow> u16) \<Rightarrow> u16 \<Rightarrow> request list \<Rightarrow> partitions
     \<Rightarrow> (request list \<times> partitions) option" where
  "process clock start_t now garbage lcore_id rs p =
     do {
       st \<leftarrow> elem_at (pa_load_stats p) (unat lcore_id);
       let stage_gap = ls_stage_gap st;
       pipeline_size \<leftarrow> next_power_of_two (3 * stage_gap);
       s \<leftarrow> pipeline_loop clock lcore_id (pipeline_size - 1)
         \<lparr>pl_i = 0, pl_count = no_count, pl_count_plus_gap = no_count + 3 * stage_gap, pl_stage_gap = stage_gap,
          pl_last_gap_update_t = start_t, pl_ids = map garbage [0..<unat pipeline_size],
          pl_requests = rs, pl_partitions = p\<rparr>;
       p \<leftarrow> finish_process lcore_id start_t now s;
       Some (pl_requests s, p)
     }"

section \<open>The processor with one table (\<^verbatim>\<open>simple_processor.h\<close>)\<close>

definition simple_request :: "request \<Rightarrow> ltable \<Rightarrow> (request \<times> ltable) option" where
  "simple_request r table =
     (case r_operation r of
        KReset \<Rightarrow> do { table \<leftarrow> ltable_reset table; Some (answer 0 KSuccess r, table) }
      | KNoopRead \<Rightarrow> Some (answer 0 KSuccess r, table)
      | KNoopWrite \<Rightarrow> Some (answer 0 KSuccess r, table)
      | KAdd \<Rightarrow> do {
          (res, table) \<leftarrow> ltable_set (r_key_hash r) (r_key r) (r_value r) False table;
          Some (answer 0 res r, table)
        }
      | KSet \<Rightarrow> do {
          (res, table) \<leftarrow> ltable_set (r_key_hash r) (r_key r) (r_value r) True table;
          Some (answer 0 res r, table)
        }
      | KGet \<Rightarrow> do {
          (res, out, table) \<leftarrow> ltable_get (r_key_hash r) (r_key r) (r_out_value_length r) True table;
          Some (answer (if res = KSuccess \<or> res = KPartialValue then byte_len out else 0) res (fill_out out r), table)
        }
      | KTest \<Rightarrow> do {
          (res, table) \<leftarrow> ltable_test (r_key_hash r) (r_key r) table;
          Some (answer 0 res r, table)
        }
      | KDelete \<Rightarrow> do {
          (res, table) \<leftarrow> ltable_del (r_key_hash r) (r_key r) table;
          Some (answer 0 res r, table)
        }
      | KIncrement \<Rightarrow>
          if byte_len (r_value r) \<noteq> 8 \<or> r_out_value_length r < 8 then Some (answer 0 KError r, table)
          else do {
            (res, out, table) \<leftarrow> ltable_increment (r_key_hash r) (r_key r) (hd (r_value r)) table;
            Some (answer (if res = KSuccess then 8 else 0) res
                (case out of None \<Rightarrow> r | Some n \<Rightarrow> fill_out [n] r), table)
          }
      | KOther code \<Rightarrow> Some (answer 0 KError r, table))"

partial_function (option) simple_loop :: "u64 \<Rightarrow> request list \<Rightarrow> ltable \<Rightarrow> (request list \<times> ltable) option" where
  "simple_loop index rs table =
     (if \<not> prepare index rs then Some (rs, table)
      else do {
        r \<leftarrow> request_at index rs;
        (r, table) \<leftarrow> simple_request r table;
        simple_loop (index + 1) (rs[unat index := r]) table
      })"

declare simple_loop.simps [code]

definition simple_process :: "request list \<Rightarrow> ltable \<Rightarrow> (request list \<times> ltable) option" where
  "simple_process rs table = simple_loop 0 rs table"

section \<open>Construction (\<^verbatim>\<open>init.h\<close>)\<close>

text \<open>
  The partitions are given to the cores in turn. \<open>new_table\<close> makes the pool and the table of a
  partition, from the size of the pool and the number of items.
\<close>

fun initialize ::
  "(u64 \<Rightarrow> u64 \<Rightarrow> ltable option) \<Rightarrow> u64 \<Rightarrow> u64 \<Rightarrow> nat \<Rightarrow> nat \<Rightarrow> nat \<Rightarrow> partitions \<Rightarrow> partitions option" where
  "initialize new_table total_size total_item_count 0 i current_lcore_index p = Some p"
| "initialize new_table total_size total_item_count (Suc n) i current_lcore_index p =
     do {
       current_lcore_id \<leftarrow> elem_at (pa_lcores p) current_lcore_index;
       let count = ucast (pa_partition_count p);
       t \<leftarrow> new_table (total_size div count) (total_item_count div count);
       initialize new_table total_size total_item_count n (Suc i) ((current_lcore_index + 1) mod length (pa_lcores p))
         (p\<lparr>pa_owner_lcore_ids := (pa_owner_lcore_ids p)[i := current_lcore_id],
            pa_tables := (pa_tables p)[i := Some t]\<rparr>)
     }"

definition safe_cast_u16 :: "u64 \<Rightarrow> u16" where
  "safe_cast_u16 x = (if x \<le> 2 ^ 16 - 1 then ucast x else 0)"

definition safe_cast_u8 :: "u64 \<Rightarrow> u8" where
  "safe_cast_u8 x = (if x \<le> 2 ^ 8 - 1 then ucast x else 0)"

definition partitions_new ::
  "partitions_config \<Rightarrow> u64 list \<Rightarrow> u64 \<Rightarrow> u64 \<Rightarrow> u64 \<Rightarrow> bool \<Rightarrow> bool \<Rightarrow> u64 \<Rightarrow> u64
     \<Rightarrow> (u64 \<Rightarrow> u64 \<Rightarrow> ltable option) \<Rightarrow> partitions option" where
  "partitions_new c lcores partition_count total_size total_item_count concurrent_read concurrent_write
     stage_gap target_stage_gap_time new_table =
     (let count = safe_cast_u16 partition_count
      in initialize new_table total_size total_item_count (unat count) 0 0
        \<lparr>pa_config = c, pa_concurrent_read = concurrent_read, pa_concurrent_write = concurrent_write,
         pa_target_stage_gap_time = safe_cast_u16 target_stage_gap_time, pa_partition_count = count,
         pa_lcores = map safe_cast_u16 lcores, pa_owner_lcore_ids = replicate kMaxPartitionCount 0,
         pa_tables = replicate kMaxPartitionCount None,
         pa_pending = replicate kMaxLCoreCount (new_queue (replicate 16 (0, 0))),
         pa_load_stats = replicate kMaxLCoreCount
           \<lparr>ls_request_count = replicate kMaxPartitionCount 0, ls_processing_time = 0,
            ls_stage_gap = ucast (safe_cast_u8 stage_gap)\<rparr>,
         pa_recent = replicate kMaxLCoreCount
           (replicate (unat (kRecentKeyHashBuckets c) * kRecentKeyHashAssociativity c) 0)\<rparr>)"

end
