(* ===== verification/Partitions_Pipeline.thy ===== *)
theory Partitions_Pipeline
  imports Partitions
begin

text \<open>
  The pipeline of \<^verbatim>\<open>Partitions::process\<close> is a loop over the requests: \<open>pipe_at\<close> relates the
  state of the pipeline before an iteration to the requests served so far, \<open>pipe_step\<close> and
  \<open>pipe_loop\<close> carry it to the end.
\<close>

section \<open>The pipeline is a loop over the requests\<close>

text \<open>The requests one after the other.\<close>

definition serve_one :: "u16 \<Rightarrow> request \<Rightarrow> partitions \<Rightarrow> (request \<times> partitions) option" where
  "serve_one lcore_id r p =
     do {
       (r', p) \<leftarrow> process_request lcore_id (get_partition_id (r_key_hash r) p) r p;
       Some (r', if kSkipPrefetchingForRecentKeyHashes (pa_config p)
                 then update_recent_key_hash lcore_id (r_key_hash r) p else p)
     }"

fun serve :: "u16 \<Rightarrow> request list \<Rightarrow> partitions \<Rightarrow> (request list \<times> partitions) option" where
  "serve lcore_id [] p = Some ([], p)"
| "serve lcore_id (r # rs) p =
     do { (r, p) \<leftarrow> serve_one lcore_id r p; (rs, p) \<leftarrow> serve lcore_id rs p; Some (r # rs, p) }"

text \<open>What serving a request leaves alone.\<close>

definition same_setup :: "partitions \<Rightarrow> partitions \<Rightarrow> bool" where
  "same_setup p' p \<longleftrightarrow> pa_config p' = pa_config p \<and> pa_partition_count p' = pa_partition_count p
     \<and> pa_concurrent_read p' = pa_concurrent_read p \<and> pa_concurrent_write p' = pa_concurrent_write p
     \<and> pa_target_stage_gap_time p' = pa_target_stage_gap_time p \<and> pa_lcores p' = pa_lcores p
     \<and> pa_owner_lcore_ids p' = pa_owner_lcore_ids p \<and> pa_pending p' = pa_pending p
     \<and> length (pa_tables p') = length (pa_tables p)
     \<and> map ls_stage_gap (pa_load_stats p') = map ls_stage_gap (pa_load_stats p)"

lemma same_refl [simp]: "same_setup p p"
  by (simp add: same_setup_def)

lemma same_trans: "same_setup p' p \<Longrightarrow> same_setup q p' \<Longrightarrow> same_setup q p"
  by (simp add: same_setup_def)

lemma put_same [simp]: "same_setup (put_table i t p) p"
  by (simp add: same_setup_def put_table_def)

lemma recent_same [simp]: "same_setup (update_recent_key_hash c h p) p"
  by (simp add: same_setup_def update_recent_key_hash_def)

lemma reset_tables_length: "reset_tables ts = Some ts' \<Longrightarrow> length ts' = length ts"
  by (induction ts arbitrary: ts') (auto split: bind_splits)

lemma count_request_same: "count_request c i p = Some p' \<Longrightarrow> same_setup p' p"
  by (auto simp: count_request_def same_setup_def elem_at_def map_update split: if_splits bind_splits)
    (metis list_update_id nth_map)

lemma execute_same: "execute i own r p = Some (r', p') \<Longrightarrow> same_setup p' p"
  by (cases "r_operation r")
    (auto simp: execute_def split: if_splits bind_splits prod.splits,
     auto simp: same_setup_def dest: reset_tables_length)

lemma process_request_same: "process_request c i r p = Some (r', p') \<Longrightarrow> same_setup p' p"
  unfolding process_request_def
  by (auto simp: Let_def split: if_splits bind_splits dest!: count_request_same execute_same intro: same_trans)

lemma serve_one_same: "serve_one c r p = Some (r', p') \<Longrightarrow> same_setup p' p"
  unfolding serve_one_def
  by (auto split: bind_splits prod.splits dest!: process_request_same intro: same_trans)

lemma partition_id_same: "same_setup p' p \<Longrightarrow> get_partition_id h p' = get_partition_id h p"
  by (simp add: same_setup_def get_partition_id_def)

lemma serve_append:
  "serve c (xs @ ys) p = do { (xs, p) \<leftarrow> serve c xs p; (ys, p) \<leftarrow> serve c ys p; Some (xs @ ys, p) }"
  by (induction xs arbitrary: p) (auto split: bind_splits prod.splits)

text \<open>Indices that run below 0 wrap round to numbers above every count.\<close>

lemma index_less:
  assumes "i < 2 ^ 33" "m < 2 ^ 12" "c < 2 ^ 33"
  shows "(of_nat i - of_nat m :: u64) < of_nat c \<longleftrightarrow> m \<le> i \<and> i - m < c"
    "m \<le> i \<Longrightarrow> unat (of_nat i - of_nat m :: u64) = i - m"
proof -
  have u: "unat (of_nat i :: u64) = i" "unat (of_nat m :: u64) = m" "unat (of_nat c :: u64) = c"
    using assms by (simp_all add: unat_of_nat)
  have le: "unat (of_nat i - of_nat m :: u64) = i - m" if "m \<le> i"
    using that u by (simp add: unat_sub_le word_le_nat_alt)
  then show "m \<le> i \<Longrightarrow> unat (of_nat i - of_nat m :: u64) = i - m" .
  show "(of_nat i - of_nat m :: u64) < of_nat c \<longleftrightarrow> m \<le> i \<and> i - m < c"
  proof (cases "m \<le> i")
    case False
    then have "of_nat i < (of_nat m :: u64)" using u by (simp add: word_less_nat_alt)
    then have "unat (of_nat i - of_nat m :: u64) = 2 ^ 64 + i - m"
      using u by (simp add: unat_sub_if_size word_size word_less_nat_alt not_le)
    then show ?thesis using False assms u by (simp add: word_less_nat_alt)
  qed (use le u in \<open>simp add: word_less_nat_alt\<close>)
qed

text \<open>
  The state of the pipeline before iteration \<open>i\<close>: the requests from the third gap on are done,
  and the partitions of those between the first and the third gap are known.
\<close>

definition pipe_at ::
  "u16 \<Rightarrow> nat \<Rightarrow> nat \<Rightarrow> request list \<Rightarrow> partitions \<Rightarrow> nat \<Rightarrow> pipeline \<Rightarrow> bool" where
  "pipe_at c k g rs p i s \<longleftrightarrow>
     pl_i s = of_nat i \<and> pl_stage_gap s = of_nat g \<and>
     pl_count s = (if i \<le> length rs then no_count else of_nat (length rs)) \<and>
     pl_count_plus_gap s = pl_count s + 3 * of_nat g \<and>
     length (pl_ids s) = 2 ^ k \<and>
     (\<forall>j<length rs. i \<le> j + 3 * g \<longrightarrow> j + g < i \<longrightarrow>
        pl_ids s ! (j mod 2 ^ k) = get_partition_id (r_key_hash (rs ! j)) p) \<and>
     (\<exists>done. serve c (take (i - 3 * g) rs) p = Some (done, pl_partitions s) \<and>
        pl_requests s = done @ drop (i - 3 * g) rs)"

lemma serve_same: "serve c rs p = Some (rs', p') \<Longrightarrow> same_setup p' p \<and> length rs' = length rs"
proof (induction rs arbitrary: p rs' p')
  case (Cons r rs)
  then show ?case by (fastforce split: bind_splits prod.splits dest: serve_one_same intro: same_trans)
qed simp

lemma no_count_eq: "no_count = of_nat (2 ^ 32 - 1)"
  by (simp add: no_count_def word_unat_eq_iff unat_ucast_mod unsigned_minus_1_eq_mask mask_eq_exp_minus_1)

lemma of_nat_3: "(3 * of_nat g :: u64) = of_nat (3 * g)"
  by simp

lemma mask_index:
  assumes "k < 64" "i < 2 ^ 33" "m < 2 ^ 12" "m \<le> i"
  shows "unat ((of_nat i - of_nat m :: u64) AND (2 ^ k - 1)) = (i - m) mod 2 ^ k"
  using index_less(2) [of i m 1] assms by (simp add: two_power_minus_one_mask unat_and_mask)

lemma window_mod:
  assumes "j < b" "b \<le> j + 2 * g" "0 < g" "3 * g \<le> (n :: nat)"
  shows "j mod n \<noteq> b mod n"
  by (rule mod_window_neq) (use assms in linarith)+

lemma stage_prepare_at:
  assumes s: "pipe_at c k g rs p i s" and N: "length rs < 2 ^ 32 - 1" "i < 2 ^ 33"
    and c: "cnt = (if i < length rs then 2 ^ 32 - 1 else length rs)"
  shows "stage_prepare (pl_i s) s = s\<lparr>pl_count := of_nat cnt, pl_count_plus_gap := of_nat (cnt + 3 * g)\<rparr>"
proof -
  have len: "length (pl_requests s) = length rs"
    using s serve_same by (fastforce simp: pipe_at_def)
  have i: "unat (pl_i s) = i" using s N(2) by (simp add: pipe_at_def unat_of_nat)
  have ne: "(of_nat (length rs) :: u64) \<noteq> no_count"
    using N(1) by (auto simp: no_count_eq word_unat_eq_iff unat_of_nat)
  have f: "pl_i s = of_nat i" "pl_stage_gap s = of_nat g"
    "pl_count s = (if i \<le> length rs then no_count else of_nat (length rs))"
    "pl_count_plus_gap s = pl_count s + 3 * of_nat g"
    using s by (simp_all add: pipe_at_def)
  consider "i < length rs" | "i = length rs" | "length rs < i" by linarith
  then show ?thesis
  proof cases
    case 1
    then have "stage_prepare (pl_i s) s = s" using i len by (simp add: stage_prepare_def prepare_def)
    then show ?thesis using 1 f c by (cases s) (simp add: no_count_eq)
  next
    case 2
    then show ?thesis using f c i len by (simp add: stage_prepare_def prepare_def)
  next
    case 3
    then have "stage_prepare (pl_i s) s = s" using f ne by (simp add: stage_prepare_def)
    then show ?thesis using 3 f c by (cases s) simp
  qed
qed

lemma stage_partition_at:
  assumes s: "pipe_at c k g rs p i s" and N: "length rs < 2 ^ 32 - 1" "i < 2 ^ 33" "g < 2 ^ 8" "3 * g \<le> 2 ^ k" "k < 64"
    and c: "cnt = (if i < length rs then 2 ^ 32 - 1 else length rs)"
    and s1: "s1 = s\<lparr>pl_count := of_nat cnt, pl_count_plus_gap := of_nat (cnt + 3 * g)\<rparr>"
  shows "\<exists>ids. stage_partition (2 ^ k - 1) (of_nat i - of_nat g) s1 = Some (s1\<lparr>pl_ids := ids\<rparr>) \<and> length ids = 2 ^ k
    \<and> (\<forall>j<length rs. i \<le> j + 3 * g \<longrightarrow> j + g \<le> i \<longrightarrow> ids ! (j mod 2 ^ k) = get_partition_id (r_key_hash (rs ! j)) p)"
proof -
  let ?N = "length rs" and ?d = "i - 3 * g"
  obtain ps ids where f: "pl_ids s = ids" "length ids = 2 ^ k" "serve c (take ?d rs) p = Some (ps, pl_partitions s)"
    "pl_requests s = ps @ drop ?d rs"
    "\<And>j. j < ?N \<Longrightarrow> i \<le> j + 3 * g \<Longrightarrow> j + g < i \<Longrightarrow> ids ! (j mod 2 ^ k) = get_partition_id (r_key_hash (rs ! j)) p"
    using s by (auto simp: pipe_at_def)
  have same: "same_setup (pl_partitions s) p" "length ps = min ?d ?N"
    using serve_same [OF f(3)] by auto
  have "cnt < 2 ^ 33" using c N(1) by auto
  then have cond: "(of_nat i - of_nat g :: u64) < of_nat cnt \<longleftrightarrow> g \<le> i \<and> i - g < ?N"
    using index_less(1) [of i g cnt] N c by auto
  show ?thesis
  proof (cases "g \<le> i \<and> i - g < ?N")
    case False
    then show ?thesis
      using cond f by (intro exI [of _ ids]) (cases s, auto simp: stage_partition_def s1)
  next
    case True
    let ?b = "i - g"
    have ub: "unat (of_nat i - of_nat g :: u64) = ?b" using index_less(2) [of i g 1] N True by simp
    have "(ps @ drop ?d rs) ! ?b = rs ! ?b"
    proof -
      have "?d \<le> ?b" "?b < ?N" using True by linarith+
      then have "length ps = ?d" "drop ?d rs ! (?b - ?d) = rs ! ?b" using same(2) le_add_diff_inverse [of ?d ?b] by auto
      then show ?thesis using \<open>?d \<le> ?b\<close> by (simp add: nth_append)
    qed
    then have r: "request_at (of_nat i - of_nat g) (pl_requests s) = Some (rs ! ?b)"
    proof -
      have "length (ps @ drop ?d rs) = ?N" using same(2) by auto
      then show ?thesis unfolding request_at_def ub f(4) using True \<open>(ps @ drop ?d rs) ! ?b = rs ! ?b\<close> by simp
    qed
    let ?ids = "ids[?b mod 2 ^ k := get_partition_id (r_key_hash (rs ! ?b)) p]"
    have "stage_partition (2 ^ k - 1) (of_nat i - of_nat g) s1 = Some (s1\<lparr>pl_ids := ?ids\<rparr>)"
      using True cond r f(1) mask_index [of k i g] N partition_id_same [OF same(1)]
      by (simp add: stage_partition_def s1)
    moreover have "?ids ! (j mod 2 ^ k) = get_partition_id (r_key_hash (rs ! j)) p"
      if j: "j < ?N" "i \<le> j + 3 * g" "j + g \<le> i" for j
    proof (cases "j = ?b")
      case False
      then have "j + g < i" using j by simp
      moreover have "j mod 2 ^ k \<noteq> ?b mod 2 ^ k" using False j N(4) by (intro window_mod) simp_all
      ultimately show ?thesis using f(5) j by simp
    qed (use f(2) in simp)
    ultimately show ?thesis using f(2) by (intro exI [of _ ?ids]) simp
  qed
qed

lemma pipe_step:
  assumes s: "pipe_at c k g rs p i s" and N: "length rs < 2 ^ 32 - 1" "i < 2 ^ 33" "g < 2 ^ 8" "3 * g \<le> 2 ^ k" "k < 64"
    and auto: "\<not> kAutoStageGap (pa_config p)"
  shows "(\<exists>s'. pipeline_step clock c (2 ^ k - 1) s = Some s' \<and> pipe_at c k g rs p (Suc i) s')
    \<or> pipeline_step clock c (2 ^ k - 1) s = None \<and> serve c rs p = None"
proof -
  let ?N = "length rs" and ?d = "i - 3 * g"
  define cnt where "cnt = (if i < ?N then 2 ^ 32 - 1 else ?N)"
  define s1 where "s1 = s\<lparr>pl_count := of_nat cnt, pl_count_plus_gap := of_nat (cnt + 3 * g)\<rparr>"
  have s1: "stage_prepare (pl_i s) s = s1" unfolding s1_def by (rule stage_prepare_at [OF s N(1,2) cnt_def])
  obtain ids where ids: "stage_partition (2 ^ k - 1) (of_nat i - of_nat g) s1 = Some (s1\<lparr>pl_ids := ids\<rparr>)"
    "length ids = 2 ^ k"
    "\<And>j. j < ?N \<Longrightarrow> i \<le> j + 3 * g \<Longrightarrow> j + g \<le> i \<Longrightarrow> ids ! (j mod 2 ^ k) = get_partition_id (r_key_hash (rs ! j)) p"
    using stage_partition_at [OF s N cnt_def s1_def] by blast
  obtain ps where f: "pl_i s = of_nat i" "pl_stage_gap s = of_nat g" "serve c (take ?d rs) p = Some (ps, pl_partitions s)"
    "pl_requests s = ps @ drop ?d rs"
    using s by (auto simp: pipe_at_def)
  have same: "same_setup (pl_partitions s) p" "length ps = min ?d ?N"
    using serve_same [OF f(3)] by auto
  let ?s2 = "s1\<lparr>pl_ids := ids\<rparr>" and ?index = "of_nat i - of_nat (3 * g) :: u64"
  have ix: "of_nat i - of_nat g - of_nat g - of_nat g = ?index" by simp
  have step: "pipeline_step clock c (2 ^ k - 1) s
      = do { s \<leftarrow> stage_process clock c (2 ^ k - 1) ?index ?s2; Some (s\<lparr>pl_i := pl_i s + 1\<rparr>) }"
    unfolding pipeline_step_def Let_def s1 using ids(1) f(1,2) ix by (simp add: s1_def)
  have "cnt < 2 ^ 33" using cnt_def N(1) by auto
  then have cond: "?index < of_nat cnt \<longleftrightarrow> 3 * g \<le> i \<and> ?d < ?N"
    using index_less(1) [of i "3 * g" cnt] N cnt_def by auto
  have count: "of_nat cnt = (if Suc i \<le> ?N then no_count else of_nat ?N)"
    by (auto simp: cnt_def no_count_eq)
  have at: "pipe_at c k g rs p (Suc i) (s1\<lparr>pl_ids := ids, pl_requests := ps' @ drop (Suc i - 3 * g) rs,
      pl_partitions := p', pl_i := of_nat i + 1\<rparr>)"
    if "serve c (take (Suc i - 3 * g) rs) p = Some (ps', p')" for ps' p'
    using that ids(2,3) f(2) count by (auto simp: pipe_at_def s1_def)
  show ?thesis
  proof (cases "3 * g \<le> i \<and> ?d < ?N")
    case False
    then have d: "take (Suc i - 3 * g) rs = take ?d rs" "drop (Suc i - 3 * g) rs = drop ?d rs" by auto
    have "pipeline_step clock c (2 ^ k - 1) s = Some (?s2\<lparr>pl_i := of_nat i + 1\<rparr>)"
      unfolding step using cond [unfolded of_nat_mult] False f(1) by (auto simp: stage_process_def s1_def)
    moreover have "?s2\<lparr>pl_i := of_nat i + 1\<rparr> = s1\<lparr>pl_ids := ids, pl_requests := ps @ drop (Suc i - 3 * g) rs,
        pl_partitions := pl_partitions s, pl_i := of_nat i + 1\<rparr>"
      using f(4) d by (cases s) (simp add: s1_def)
    ultimately show ?thesis using at [of ps "pl_partitions s"] f(3) d by simp
  next
    case True
    have ud: "unat ?index = ?d" using index_less(2) [of i "3 * g" 1] N True by simp
    have sd: "Suc i - 3 * g = Suc ?d" using True by (simp add: Suc_diff_le)
    have r: "request_at ?index (ps @ drop ?d rs) = Some (rs ! ?d)"
    proof -
      have "length (ps @ drop ?d rs) = ?N" using same(2) by auto
      moreover have "(ps @ drop ?d rs) ! ?d = rs ! ?d" using True same(2) by (simp add: nth_append)
      ultimately show ?thesis unfolding request_at_def ud using True by simp
    qed
    have id: "elem_at ids (unat (?index AND (2 ^ k - 1))) = Some (get_partition_id (r_key_hash (rs ! ?d)) (pl_partitions s))"
      using ids(2) ids(3) [of ?d] mask_index [of k i "3 * g"] N True partition_id_same [OF same(1)]
      by (simp add: elem_at_def del: of_nat_mult)
    have split: "take (Suc i - 3 * g) rs = take ?d rs @ [rs ! ?d]" "drop ?d rs = rs ! ?d # drop (Suc i - 3 * g) rs"
      using True sd by (simp_all add: take_Suc_conv_app_nth Cons_nth_drop_Suc)
    have rs: "rs = take ?d rs @ rs ! ?d # drop (Suc ?d) rs" using True by (simp add: id_take_nth_drop)
    show ?thesis
    proof (cases "serve_one c (rs ! ?d) (pl_partitions s)")
      case None
      then have "process_request c (get_partition_id (r_key_hash (rs ! ?d)) (pl_partitions s)) (rs ! ?d) (pl_partitions s) = None"
        by (auto simp: serve_one_def split: bind_splits prod.splits)
      then have "pipeline_step clock c (2 ^ k - 1) s = None"
        unfolding step using True cond r id f(4) by (simp add: stage_process_def s1_def del: of_nat_mult)
      moreover have "serve c rs p = None" by (subst rs) (simp add: serve_append f(3) None)
      ultimately show ?thesis by simp
    next
      case (Some rp)
      then obtain r' p1 where o: "process_request c (get_partition_id (r_key_hash (rs ! ?d)) (pl_partitions s)) (rs ! ?d) (pl_partitions s)
          = Some (r', p1)"
        "rp = (r', if kSkipPrefetchingForRecentKeyHashes (pa_config p1)
                 then update_recent_key_hash c (r_key_hash (rs ! ?d)) p1 else p1)"
        by (auto simp: serve_one_def split: bind_splits prod.splits)
      let ?p2 = "snd rp"
      have sv: "serve c (take (Suc i - 3 * g) rs) p = Some (ps @ [r'], ?p2)"
        unfolding split(1) using f(3) Some o(2) by (simp add: serve_append)
      have "pa_config ?p2 = pa_config p" using serve_same [OF sv] by (simp add: same_setup_def)
      then have na: "\<not> kAutoStageGap (pa_config ?p2)" using auto by simp
      have upd: "(ps @ drop ?d rs)[?d := r'] = (ps @ [r']) @ drop (Suc i - 3 * g) rs"
        using same(2) True unfolding split(2) by (simp add: list_update_append)
      have "stage_process clock c (2 ^ k - 1) ?index ?s2 = Some (?s2\<lparr>pl_requests := (ps @ [r']) @ drop (Suc i - 3 * g) rs, pl_partitions := ?p2\<rparr>)"
        using True cond r id f(4) o na ud upd by (simp add: stage_process_def Let_def s1_def del: of_nat_mult split: if_splits)
      then have "pipeline_step clock c (2 ^ k - 1) s = Some (s1\<lparr>pl_ids := ids, pl_requests := (ps @ [r']) @ drop (Suc i - 3 * g) rs,
          pl_partitions := ?p2, pl_i := of_nat i + 1\<rparr>)"
        unfolding step using f(1) by (simp add: s1_def)
      then show ?thesis using at [OF sv] by blast
    qed
  qed
qed

lemma pipe_loop:
  assumes "pipe_at c k g rs p i s" "i \<le> max (length rs + 1) (length rs + 3 * g)"
    and N: "length rs < 2 ^ 32 - 1" "g < 2 ^ 8" "3 * g \<le> 2 ^ k" "k < 64" and auto: "\<not> kAutoStageGap (pa_config p)"
  shows "(\<exists>s'. pipeline_loop clock c (2 ^ k - 1) s = Some s'
      \<and> pipe_at c k g rs p (max (length rs + 1) (length rs + 3 * g)) s')
    \<or> pipeline_loop clock c (2 ^ k - 1) s = None \<and> serve c rs p = None"
  using assms(1,2)
proof (induction "max (length rs + 1) (length rs + 3 * g) - i" arbitrary: i s)
  let ?N = "length rs" and ?E = "max (length rs + 1) (length rs + 3 * g)"
  have test: "pl_i s < pl_count_plus_gap s \<longleftrightarrow> i < ?E" if s: "pipe_at c k g rs p i s" and i: "i \<le> ?E" for i s
  proof -
    let ?C = "if i \<le> ?N then 2 ^ 32 - 1 + 3 * g else ?N + 3 * g"
    have "pl_count_plus_gap s = of_nat ?C" using s by (auto simp: pipe_at_def no_count_eq)
    moreover have "pl_i s = of_nat i" using s by (simp add: pipe_at_def)
    moreover have "unat (of_nat i :: u64) = i" "unat (of_nat ?C :: u64) = ?C"
      using i N by (auto simp: unat_of_nat)
    ultimately have "pl_i s < pl_count_plus_gap s \<longleftrightarrow> i < ?C" by (simp only: word_less_nat_alt)
    also have "\<dots> \<longleftrightarrow> i < ?E" using N i by auto
    finally show ?thesis .
  qed
  {
    case (0 i s)
    then have "i = ?E" by linarith
    then show ?case using 0 test [of i s] by (simp add: pipeline_loop.simps [of clock c _ s])
  next
    case (Suc d i s)
    have lt: "i < ?E" using Suc.hyps(2) by simp
    then have i33: "i < 2 ^ 33" using N by auto
    have unfold: "pipeline_loop clock c (2 ^ k - 1) s
        = do { s \<leftarrow> pipeline_step clock c (2 ^ k - 1) s; pipeline_loop clock c (2 ^ k - 1) s }"
      using test [OF Suc.prems] lt by (simp add: pipeline_loop.simps [of clock c _ s])
    from pipe_step [OF Suc.prems(1) N(1) i33 N(2-4) auto, of clock] show ?case
    proof
      assume "\<exists>s'. pipeline_step clock c (2 ^ k - 1) s = Some s' \<and> pipe_at c k g rs p (Suc i) s'"
      then obtain s' where s': "pipeline_step clock c (2 ^ k - 1) s = Some s'" "pipe_at c k g rs p (Suc i) s'" by blast
      have "d = ?E - Suc i" "Suc i \<le> ?E" using Suc.hyps(2) lt by simp_all
      from Suc.hyps(1) [OF this(1) s'(2) this(2)] show ?thesis using s'(1) by (simp add: unfold)
    qed (simp add: unfold)
  }
qed

definition add_processing_time :: "u16 \<Rightarrow> u64 \<Rightarrow> partitions \<Rightarrow> partitions option" where
  "add_processing_time c diff p =
     do {
       st \<leftarrow> elem_at (pa_load_stats p) (unat c);
       Some (p\<lparr>pa_load_stats := (pa_load_stats p)[unat c :=
         st\<lparr>ls_processing_time := ls_processing_time st + diff\<rparr>]\<rparr>)
     }"

lemma pipeline_size:
  assumes "g < 2 ^ 8"
  shows "\<exists>k<64. next_power_of_two (3 * of_nat g :: u64) = Some (2 ^ k) \<and> 3 * g \<le> 2 ^ k"
proof -
  have u: "unat (3 * of_nat g :: u64) = 3 * g" using assms by (simp add: unat_word_ariths unat_of_nat)
  then have "next_power_of_two_recursive (3 * of_nat g :: u64) 0 \<noteq> None"
    using assms by (intro next_power_of_two_recursive_defined [where k = 10]) (simp_all add: word_le_nat_alt)
  then obtain y where y: "next_power_of_two_recursive (3 * of_nat g :: u64) 0 = Some y" by blast
  obtain k where "k < 64" "y = 2 ^ k" "3 * of_nat g \<le> y"
    using next_power_of_two_recursive_Some [OF y] by auto
  then show ?thesis
    using y u unat_two_power [of k, where 'a = 64] by (intro exI [of _ k]) (simp add: next_power_of_two_def word_le_nat_alt)
qed

lemma process_serve:
  assumes "\<not> kAutoStageGap (pa_config p)" "elem_at (pa_load_stats p) (unat c) = Some st"
    "ls_stage_gap st < 2 ^ 8" "length rs < 2 ^ 32 - 1"
  shows "process clock start_t now garbage c rs p =
    do {
      (rs', p') \<leftarrow> serve c rs p;
      p' \<leftarrow> add_processing_time c (now - start_t) p';
      p' \<leftarrow> apply_pending_owner_lcore_changes c p';
      Some (rs', p')
    }"
proof -
  define g where "g = unat (ls_stage_gap st)"
  have gw: "ls_stage_gap st = of_nat g" by (simp add: g_def)
  have g8: "g < 2 ^ 8" using assms(3) by (simp add: g_def word_less_nat_alt)
  obtain k where k: "k < 64" "next_power_of_two (3 * of_nat g :: u64) = Some (2 ^ k)" "3 * g \<le> 2 ^ k"
    using pipeline_size [OF g8] by blast
  let ?s0 = "\<lparr>pl_i = 0, pl_count = no_count, pl_count_plus_gap = no_count + 3 * of_nat g, pl_stage_gap = of_nat g,
    pl_last_gap_update_t = start_t, pl_ids = map garbage [0..<unat (2 ^ k :: u64)], pl_requests = rs, pl_partitions = p\<rparr>"
  have run: "process clock start_t now garbage c rs p = do {
      s \<leftarrow> pipeline_loop clock c (2 ^ k - 1) ?s0; p \<leftarrow> finish_process c start_t now s; Some (pl_requests s, p) }"
    using assms(2) k(2) by (simp add: process_def Let_def gw)
  have s0: "pipe_at c k g rs p 0 ?s0"
    using unat_two_power [of k, where 'a = 64] k(1) by (simp add: pipe_at_def)
  from pipe_loop [OF s0 le0 assms(4) g8 k(3,1) assms(1), of clock] show ?thesis
  proof (elim disjE exE conjE)
    fix s' assume s': "pipeline_loop clock c (2 ^ k - 1) ?s0 = Some s'"
      "pipe_at c k g rs p (max (length rs + 1) (length rs + 3 * g)) s'"
    have "length rs \<le> max (length rs + 1) (length rs + 3 * g) - 3 * g" by simp
    then have sv: "serve c rs p = Some (pl_requests s', pl_partitions s')"
      using s'(2) by (auto simp: pipe_at_def)
    then have "\<not> kAutoStageGap (pa_config (pl_partitions s'))"
      using serve_same [OF sv] assms(1) by (simp add: same_setup_def)
    then show ?thesis unfolding run s'(1) sv
      by (simp add: finish_process_def add_processing_time_def Let_def)
  qed (simp_all add: run)
qed


text \<open>
  C8. Without the adaptation of the gap, the pipeline does what a loop over the requests does:
  whatever the gap, what the array of partition ids held before and how far the indices run
  below 0 and past the end, each request is executed once, in order, by the table of its
  partition, and then the pending changes of owner are applied.
\<close>
theorem process_sequential:
  assumes "\<not> kAutoStageGap (pa_config p)" "elem_at (pa_load_stats p) (unat c) = Some st"
    "ls_stage_gap st < 2 ^ 8" "length rs < 2 ^ 32 - 1"
  shows "process clock start_t now garbage c rs p =
    do {
      (rs', p') \<leftarrow> serve c rs p;
      p' \<leftarrow> add_processing_time c (now - start_t) p';
      p' \<leftarrow> apply_pending_owner_lcore_changes c p';
      Some (rs', p')
    }"
  by (rule process_serve [OF assms])

end
