(* ===== verification/Partitions_Owners.thy ===== *)
theory Partitions_Owners
  imports Partitions_Pipeline "HOL-Library.Multiset"
begin

text \<open>
  The hand-over of partitions through the queues of changes, seen as lists (\<open>give\<close>, \<open>post\<close>),
  and the balancing of the load as a plan of owners (\<open>plan_bins\<close>) whose loads are even.
\<close>

section \<open>The owners of the partitions\<close>

text \<open>
  The queues of changes as lists. A queue takes 15 changes; what comes after is dropped.
\<close>

type_synonym change = "u16 \<times> u16"

definition queues :: "partitions \<Rightarrow> change list list" where
  "queues p = map (queue_contents 16) (pa_pending p)"

definition post :: "u16 \<Rightarrow> change \<Rightarrow> change list list \<Rightarrow> change list list" where
  "post c v qs = qs[unat c := take 15 (qs ! unat c @ [v])]"

definition owners_ok :: "partitions \<Rightarrow> bool" where
  "owners_ok p \<longleftrightarrow> (\<forall>q \<in> set (pa_pending p). queue_idle 16 q \<and>
       (\<forall>(i, n) \<in> set (queue_contents 16 q). unat i < length (pa_owner_lcore_ids p) \<and> unat n < length (pa_pending p)))
     \<and> (\<forall>c \<in> set (pa_owner_lcore_ids p). unat c < length (pa_pending p))"

lemma queue_16:
  assumes "queue_idle 16 q"
  shows "\<exists>ok q'. enqueue 16 True v q = Some (ok, q') \<and> queue_idle 16 q'
      \<and> queue_contents 16 q' = take 15 (queue_contents 16 q @ [v])"
    "\<exists>q'. dequeue 16 False q = Some (case queue_contents 16 q of [] \<Rightarrow> None | x # _ \<Rightarrow> Some x, q') \<and> queue_idle 16 q'
      \<and> queue_contents 16 q' = tl (queue_contents 16 q)"
proof -
  let ?cs = "queue_contents 16 q"
  have len: "length ?cs \<le> 15"
  proof -
    have "length ?cs < unat (16 :: u64)" by (simp add: queue_contents_def)
    then show ?thesis by simp
  qed
  obtain ok q' where e: "enqueue 16 True v q = Some (ok, q')"
    using assms by (cases "next_pos 16 (tail_pos q) = head_pos q") (auto simp: enqueue_def queue_idle_def Let_def)
  then have p: "queue_push 16 True v q = (ok, q')" by (simp add: queue_push_def)
  have "queue_idle 16 q'" using mq.push_inv [OF assms, of True v] p by simp
  moreover have "queue_contents 16 q' = take 15 (?cs @ [v])"
  proof (cases "length ?cs = 15")
    case True
    then show ?thesis using mq.push_full [OF assms, of True v] p by simp
  next
    case False
    then show ?thesis using mq.push_room [OF assms, of True v] p len by simp
  qed
  ultimately show "\<exists>ok q'. enqueue 16 True v q = Some (ok, q') \<and> queue_idle 16 q'
      \<and> queue_contents 16 q' = take 15 (?cs @ [v])" using e by blast
  obtain r q2 where d: "dequeue 16 False q = Some (r, q2)" by (cases "dequeue 16 False q") (auto simp: dequeue_def Let_def split: if_splits)
  then have p2: "queue_pop 16 False q = (r, q2)" by (simp add: queue_pop_def)
  have "queue_idle 16 q2" using mq.pop_inv [OF assms, of False] p2 by simp
  moreover have "r = (case ?cs of [] \<Rightarrow> None | x # _ \<Rightarrow> Some x) \<and> queue_contents 16 q2 = tl ?cs"
  proof (cases ?cs)
    case Nil
    then show ?thesis using mq.pop_empty [OF assms Nil, of False] p2 by simp
  next
    case (Cons x xs)
    then show ?thesis using mq.pop_Cons [OF assms Cons, of False] p2 by simp
  qed
  ultimately show "\<exists>q'. dequeue 16 False q = Some (case ?cs of [] \<Rightarrow> None | x # _ \<Rightarrow> Some x, q') \<and> queue_idle 16 q'
      \<and> queue_contents 16 q' = tl ?cs" using d by blast
qed

lemma owners_okD:
  assumes "owners_ok p" "unat c < length (pa_pending p)"
  shows "queue_idle 16 (pa_pending p ! unat c)" "queues p ! unat c = queue_contents 16 (pa_pending p ! unat c)"
    "(i, n) \<in> set (queues p ! unat c) \<Longrightarrow> unat i < length (pa_owner_lcore_ids p) \<and> unat n < length (pa_pending p)"
  using assms nth_mem [OF assms(2)] by (fastforce simp: owners_ok_def queues_def)+

lemma owners_ok_pending:
  assumes ok: "owners_ok p" and q: "queue_idle 16 q"
    "\<forall>(i, n) \<in> set (queue_contents 16 q). unat i < length (pa_owner_lcore_ids p) \<and> unat n < length (pa_pending p)"
  shows "owners_ok (p\<lparr>pa_pending := (pa_pending p)[c := q]\<rparr>)"
  using ok q set_update_subset_insert [of "pa_pending p" c q] unfolding owners_ok_def by (auto 0 3)

lemma enqueue_change_ok:
  assumes ok: "owners_ok p" and c: "unat c < length (pa_pending p)"
    and v: "unat (fst v) < length (pa_owner_lcore_ids p)" "unat (snd v) < length (pa_pending p)"
  shows "\<exists>p'. enqueue_change c v p = Some p' \<and> queues p' = post c v (queues p) \<and> owners_ok p'
    \<and> p' = p\<lparr>pa_pending := pa_pending p'\<rparr> \<and> length (pa_pending p') = length (pa_pending p)"
proof -
  note D = owners_okD [OF ok c]
  obtain b q where q: "enqueue 16 True v (pa_pending p ! unat c) = Some (b, q)" "queue_idle 16 q"
    "queue_contents 16 q = take 15 (queue_contents 16 (pa_pending p ! unat c) @ [v])"
    using queue_16(1) [OF D(1)] by blast
  let ?p' = "p\<lparr>pa_pending := (pa_pending p)[unat c := q]\<rparr>"
  have "owners_ok ?p'"
  proof (rule owners_ok_pending [OF ok q(2)])
    have "set (queue_contents 16 q) \<subseteq> insert v (set (queues p ! unat c))"
      using set_take_subset [of 15 "queue_contents 16 (pa_pending p ! unat c) @ [v]"] by (auto simp: q(3) D(2))
    then show "\<forall>(i, n) \<in> set (queue_contents 16 q). unat i < length (pa_owner_lcore_ids p) \<and> unat n < length (pa_pending p)"
      using D(3) v by fastforce
  qed
  moreover have "queues ?p' = post c v (queues p)"
    using c q(3) by (simp add: queues_def post_def map_update)
  moreover have "enqueue_change c v p = Some ?p'" using c q(1) by (simp add: enqueue_change_def elem_at_def)
  ultimately show ?thesis by (intro exI [of _ ?p']) simp
qed

text \<open>The hand-over of the changes in a queue.\<close>

fun give :: "u16 \<Rightarrow> change list \<Rightarrow> u16 list \<times> change list list \<Rightarrow> u16 list \<times> change list list" where
  "give c [] s = s"
| "give c ((i, n) # cs) (owners, qs) =
     give c cs (if owners ! unat i = c then (owners[unat i := n], qs) else (owners, post (owners ! unat i) (i, n) qs))"

lemma owners_ok_owner:
  assumes "owners_ok p" "unat n < length (pa_pending p)"
  shows "owners_ok (p\<lparr>pa_owner_lcore_ids := (pa_owner_lcore_ids p)[i := n]\<rparr>)"
  using assms set_update_subset_insert [of "pa_owner_lcore_ids p" i n] unfolding owners_ok_def by (auto 0 3)

definition only_owners :: "partitions \<Rightarrow> partitions \<Rightarrow> bool" where
  "only_owners p' p \<longleftrightarrow> p' = p\<lparr>pa_owner_lcore_ids := pa_owner_lcore_ids p', pa_pending := pa_pending p'\<rparr>"

lemma apply_changes_ok:
  assumes "owners_ok p" "unat c < length (pa_pending p)"
  shows "\<exists>p'. apply_changes c p = Some p' \<and> owners_ok p' \<and> only_owners p' p
    \<and> (pa_owner_lcore_ids p', queues p') = give c (queues p ! unat c) (pa_owner_lcore_ids p, (queues p)[unat c := []])"
  using assms
proof (induction "length (queues p ! unat c)" arbitrary: p)
  case 0
  note D = owners_okD [OF 0(2,3)]
  have nil: "queues p ! unat c = []" using 0(1) by simp
  obtain q where q: "dequeue 16 False (pa_pending p ! unat c) = Some (None, q)" "queue_idle 16 q" "queue_contents 16 q = []"
    using queue_16(2) [OF D(1)] nil D(2) by auto
  let ?p' = "p\<lparr>pa_pending := (pa_pending p)[unat c := q]\<rparr>"
  have "apply_changes c p = Some ?p'"
    using 0(3) q(1) by (simp add: apply_changes.simps [of c p] elem_at_def)
  moreover have "owners_ok ?p'" using owners_ok_pending [OF 0(2) q(2)] q(3) by simp
  moreover have "queues ?p' = (queues p)[unat c := []]" using q(3) by (simp add: queues_def map_update)
  ultimately show ?case using nil by (auto simp: only_owners_def)
next
  case (Suc m)
  note D = owners_okD [OF Suc(3,4)]
  obtain i n cs where qs: "queues p ! unat c = (i, n) # cs" using Suc(2) by (cases "queues p ! unat c") auto
  obtain q where q: "dequeue 16 False (pa_pending p ! unat c) = Some (Some (i, n), q)" "queue_idle 16 q" "queue_contents 16 q = cs"
    using queue_16(2) [OF D(1)] qs D(2) by auto
  let ?p1 = "p\<lparr>pa_pending := (pa_pending p)[unat c := q]\<rparr>" and ?o = "pa_owner_lcore_ids p ! unat i"
  have v: "unat i < length (pa_owner_lcore_ids p)" "unat n < length (pa_pending p)" using D(3) [of i n] qs by simp_all
  have ok1: "owners_ok ?p1" using D(3) qs by (intro owners_ok_pending [OF Suc(3) q(2)]) (auto simp: q(3))
  have q1: "queues ?p1 = (queues p)[unat c := cs]" using q(3) by (simp add: queues_def map_update)
  have cl: "unat c < length (queues p)" using Suc(4) by (simp add: queues_def)
  have o: "unat ?o < length (pa_pending p)" using Suc(3) v(1) nth_mem by (auto simp: owners_ok_def)
  show ?case
  proof (cases "?o = c")
    case True
    let ?p2 = "?p1\<lparr>pa_owner_lcore_ids := (pa_owner_lcore_ids p)[unat i := n]\<rparr>"
    have ok2: "owners_ok ?p2" using owners_ok_owner [OF ok1, of n "unat i"] v(2) by simp
    have q2: "queues ?p2 = (queues p)[unat c := cs]" using q1 by (simp add: queues_def)
    then have "m = length (queues ?p2 ! unat c)" using Suc(2) qs cl by simp
    from Suc(1) [OF this ok2] obtain p' where p': "apply_changes c ?p2 = Some p'" "owners_ok p'" "only_owners p' ?p2"
      "(pa_owner_lcore_ids p', queues p') = give c (queues ?p2 ! unat c) (pa_owner_lcore_ids ?p2, (queues ?p2)[unat c := []])"
      using Suc(4) by auto
    have "apply_changes c p = Some p'"
      using Suc(4) q(1) v(1) True p'(1) by (simp add: apply_changes.simps [of c p] elem_at_def)
    then show ?thesis using p'(2-4) cl q2 True by (auto simp: qs only_owners_def)
  next
    case False
    obtain p2 where p2: "enqueue_change ?o (i, n) ?p1 = Some p2" "queues p2 = post ?o (i, n) (queues ?p1)" "owners_ok p2"
      "p2 = ?p1\<lparr>pa_pending := pa_pending p2\<rparr>" "length (pa_pending p2) = length (pa_pending ?p1)"
      using enqueue_change_ok [OF ok1, of ?o "(i, n)"] v o by auto
    have ne: "unat ?o \<noteq> unat c" using False by (simp add: word_unat_eq_iff)
    have q2: "queues p2 ! unat c = cs" "(queues p2)[unat c := []] = post ?o (i, n) ((queues p)[unat c := []])"
      using p2(2) q1 cl ne by (simp_all add: post_def list_update_swap)
    have own: "pa_owner_lcore_ids p2 = pa_owner_lcore_ids p" by (subst p2(4)) simp
    have "m = length (queues p2 ! unat c)" using Suc(2) qs q2 by simp
    from Suc(1) [OF this p2(3)] obtain p' where p': "apply_changes c p2 = Some p'" "owners_ok p'" "only_owners p' p2"
      "(pa_owner_lcore_ids p', queues p') = give c (queues p2 ! unat c) (pa_owner_lcore_ids p2, (queues p2)[unat c := []])"
      using Suc(4) p2(5) by auto
    have "apply_changes c p = Some p'"
      using Suc(4) q(1) v(1) False p'(1) p2(1) by (simp add: apply_changes.simps [of c p] elem_at_def)
    moreover have "only_owners p' p"
    proof -
      have "p' = p2\<lparr>pa_owner_lcore_ids := pa_owner_lcore_ids p', pa_pending := pa_pending p'\<rparr>"
        using p'(3) by (simp add: only_owners_def)
      then show ?thesis unfolding only_owners_def by (subst (asm) p2(4)) simp
    qed
    ultimately show ?thesis using p'(2,4) q2 own False by (simp add: qs)
  qed
qed

section \<open>The balancing of the load\<close>

text \<open>Where the bins go, and the loads that follow.\<close>

fun plan_bins :: "u16 list \<Rightarrow> u64 list \<Rightarrow> bin list \<Rightarrow> (bin \<times> u16) list \<times> u64 list" where
  "plan_bins lcores loads [] = ([], loads)"
| "plan_bins lcores loads (b # bins) =
     (let k = snd (least_loaded loads 0 (- 1, 0)); (a, l) = plan_bins lcores (loads[k := loads ! k + snd b]) bins
      in ((b, lcores ! k) # a, l))"

fun set_owners :: "(bin \<times> u16) list \<Rightarrow> partitions \<Rightarrow> partitions option" where
  "set_owners [] p = Some p"
| "set_owners ((b, c) # a) p = do { p \<leftarrow> set_new_owner_lcore_id (fst b) c p; set_owners a p }"

text \<open>The requests of the bins a plan gives to a core.\<close>

definition load_on :: "(bin \<times> u16) list \<Rightarrow> u16 \<Rightarrow> nat" where
  "load_on a c = sum_list (map (\<lambda>(b, c'). if c' = c then unat (snd b) else 0) a)"

lemma least_loaded_spec:
  "least_loaded xs i (m, k) = (m', k') \<Longrightarrow>
     m' = m \<and> k' = k \<and> (\<forall>x \<in> set xs. m \<le> x)
     \<or> i \<le> k' \<and> k' < i + length xs \<and> m' = xs ! (k' - i) \<and> m' < m \<and> (\<forall>x \<in> set xs. m' \<le> x)"
proof (induction xs arbitrary: i m k)
  case (Cons x xs)
  show ?case
  proof (cases "m > x")
    case True
    then have "least_loaded xs (Suc i) (x, i) = (m', k')" using Cons.prems by simp
    from Cons.IH [OF this] True show ?thesis by (auto simp: nth_Cons')
  next
    case False
    then have "least_loaded xs (Suc i) (m, k) = (m', k')" using Cons.prems by simp
    from Cons.IH [OF this] False show ?thesis by (auto simp: nth_Cons')
  qed
qed simp

lemma least_loaded_least:
  assumes "loads \<noteq> []"
  shows "snd (least_loaded loads 0 (- 1, 0)) < length loads"
    "x \<in> set loads \<Longrightarrow> loads ! snd (least_loaded loads 0 (- 1, 0)) \<le> x"
proof -
  obtain m k where l: "least_loaded loads 0 (- 1, 0) = (m, k)" by (cases "least_loaded loads 0 (- 1, 0)") auto
  have max: "y = - 1" if "- 1 \<le> y" for y :: u64 using that word_order.extremum_unique by blast
  from least_loaded_spec [OF l] have s: "k < length loads \<and> (\<forall>x \<in> set loads. loads ! k \<le> x)"
  proof
    assume "m = - 1 \<and> k = 0 \<and> (\<forall>x \<in> set loads. - 1 \<le> x)"
    moreover from this have "\<forall>x \<in> set loads. x = - 1" using max by blast
    ultimately show ?thesis using assms by (auto simp: max)
  qed auto
  show "snd (least_loaded loads 0 (- 1, 0)) < length loads" using s l by simp
  show "x \<in> set loads \<Longrightarrow> loads ! snd (least_loaded loads 0 (- 1, 0)) \<le> x" using s l by simp
qed

lemma pack_plan:
  assumes "loads \<noteq> []" "length lcores = length loads"
  shows "pack_bins lcores loads bins p = do {
    p \<leftarrow> set_owners (fst (plan_bins lcores loads bins)) p; Some (snd (plan_bins lcores loads bins), p) }"
  using assms
proof (induction bins arbitrary: loads p)
  case (Cons b bins)
  obtain i n where b: "b = (i, n)" by (cases b)
  let ?k = "snd (least_loaded loads 0 (- 1, 0))"
  have k: "?k < length loads" using least_loaded_least(1) [OF Cons.prems(1)] .
  have "pack_bins lcores (loads[?k := loads ! ?k + n]) bins p' = do {
      p \<leftarrow> set_owners (fst (plan_bins lcores (loads[?k := loads ! ?k + n]) bins)) p';
      Some (snd (plan_bins lcores (loads[?k := loads ! ?k + n]) bins), p) }" for p'
    using Cons.IH [of "loads[?k := loads ! ?k + n]" p'] Cons.prems by simp
  then show ?case
    using k Cons.prems(2) by (cases "set_new_owner_lcore_id i (lcores ! ?k) p")
      (simp_all add: b elem_at_def Let_def split_beta)
qed simp

lemma plan_bins_facts:
  assumes "plan_bins lcores loads bins = (a, l)" "loads \<noteq> []" "length lcores = length loads" "distinct lcores"
    and "sum_list (map unat loads) + sum_list (map (unat \<circ> snd) bins) < 2 ^ 64"
    and "\<forall>b \<in> set bins. unat (snd b) \<le> B" "\<forall>x \<in> set loads. \<forall>y \<in> set loads. unat x \<le> unat y + B"
  shows "map fst a = bins \<and> set (map snd a) \<subseteq> set lcores \<and> length l = length loads
    \<and> (\<forall>k<length lcores. unat (l ! k) = unat (loads ! k) + load_on a (lcores ! k))
    \<and> (\<forall>x \<in> set l. \<forall>y \<in> set l. unat x \<le> unat y + B)"
  using assms(1-3,5-)
proof (induction bins arbitrary: loads a)
  case Nil
  then show ?case by (auto simp: load_on_def)
next
  case (Cons b bins)
  let ?k = "snd (least_loaded loads 0 (- 1, 0))" and ?n = "snd b"
  let ?loads = "loads[?k := loads ! ?k + ?n]"
  have k: "?k < length loads" "\<And>x. x \<in> set loads \<Longrightarrow> loads ! ?k \<le> x"
    using least_loaded_least [OF Cons.prems(2)] by simp_all
  obtain a' where a': "plan_bins lcores ?loads bins = (a', l)" "a = (b, lcores ! ?k) # a'"
    using Cons.prems(1) by (auto simp: Let_def split: prod.splits)
  have "unat (loads ! ?k) \<le> sum_list (map unat loads)"
    using k(1) by (intro member_le_sum_list) simp_all
  then have add: "unat (loads ! ?k + ?n) = unat (loads ! ?k) + unat ?n"
    using Cons.prems(4) by (intro unat_add_no_overflow) simp
  have "sum_list (map unat ?loads) = sum_list (map unat loads) + unat ?n"
    using k(1) add elem_le_sum_list [of ?k "map unat loads"] by (simp add: map_update sum_list_update)
  then have sum: "sum_list (map unat ?loads) + sum_list (map (unat \<circ> snd) bins) < 2 ^ 64" using Cons.prems(4) by (simp add: o_def)
  have bal: "\<forall>x \<in> set ?loads. \<forall>y \<in> set ?loads. unat x \<le> unat y + B"
  proof (intro ballI)
    fix x y assume xy: "x \<in> set ?loads" "y \<in> set ?loads"
    have in_loads: "z = loads ! ?k + ?n \<or> z \<in> set loads" if "z \<in> set ?loads" for z
      using that set_update_subset_insert [of loads ?k "loads ! ?k + ?n"] by blast
    have n: "unat ?n \<le> B" using Cons.prems(5) by simp
    have least: "unat (loads ! ?k) \<le> unat z" if "z \<in> set loads" for z
      using k(2) [OF that] by (simp add: word_le_nat_alt)
    have "loads ! ?k \<in> set loads" using k(1) by simp
    then have near: "unat z \<le> unat (loads ! ?k) + B" if "z \<in> set loads" for z using that Cons.prems(6) by blast
    from in_loads [OF xy(1)] in_loads [OF xy(2)] show "unat x \<le> unat y + B"
      using add n least near Cons.prems(6) by (elim disjE) fastforce+
  qed
  have IH: "map fst a' = bins \<and> set (map snd a') \<subseteq> set lcores \<and> length l = length ?loads
    \<and> (\<forall>k<length lcores. unat (l ! k) = unat (?loads ! k) + load_on a' (lcores ! k))
    \<and> (\<forall>x \<in> set l. \<forall>y \<in> set l. unat x \<le> unat y + B)"
    by (rule Cons.IH [OF a'(1) _ _ sum _ bal]) (use Cons.prems in auto)
  have "unat (l ! j) = unat (loads ! j) + load_on a (lcores ! j)" if j: "j < length lcores" for j
  proof (cases "j = ?k")
    case True
    then show ?thesis using IH k(1) add j by (simp add: a'(2) load_on_def)
  next
    case False
    then have "lcores ! ?k \<noteq> lcores ! j" using assms(4) j k(1) Cons.prems(3) by (simp add: nth_eq_iff_index_eq)
    then show ?thesis using IH False j by (simp add: a'(2) load_on_def)
  qed
  moreover have "lcores ! ?k \<in> set lcores" using k(1) Cons.prems(3) by simp
  ultimately show ?case using IH a'(2) by simp
qed

lemma insert_bin_facts:
  "mset (insert_bin b bs) = add_mset b (mset bs)"
  "sorted_wrt (\<lambda>x y. snd x \<ge> snd y) bs \<Longrightarrow> sorted_wrt (\<lambda>x y. snd x \<ge> snd y) (insert_bin b bs)"
proof -
  show m: "mset (insert_bin b bs) = add_mset b (mset bs)" for b bs by (induction bs) auto
  have s: "set (insert_bin b bs) = insert b (set bs)" for bs
    using arg_cong [OF m [of b bs], of set_mset] by simp
  show "sorted_wrt (\<lambda>x y. snd x \<ge> snd y) bs \<Longrightarrow> sorted_wrt (\<lambda>x y. snd x \<ge> snd y) (insert_bin b bs)"
    by (induction bs) (auto simp: s)
qed

lemma sort_bins_facts:
  "mset (sort_bins bins) = mset bins" "sorted_wrt (\<lambda>x y. snd x \<ge> snd y) (sort_bins bins)"
proof -
  have "mset (fold insert_bin bins acc) = mset bins + mset acc" for acc
    by (induction bins arbitrary: acc) (auto simp: insert_bin_facts)
  then show "mset (sort_bins bins) = mset bins" by (simp add: sort_bins_def)
  have "sorted_wrt (\<lambda>x y. snd x \<ge> snd y) acc \<Longrightarrow> sorted_wrt (\<lambda>x y. snd x \<ge> snd y) (fold insert_bin bins acc)" for acc
    by (induction bins arbitrary: acc) (auto simp: insert_bin_facts)
  then show "sorted_wrt (\<lambda>x y. snd x \<ge> snd y) (sort_bins bins)" by (simp add: sort_bins_def)
qed

lemma sum_requests_bound:
  "sum_requests cs i p n = Some m \<Longrightarrow> unat n + length cs * 2 ^ 32 < 2 ^ 64 \<Longrightarrow> unat m \<le> unat n + length cs * 2 ^ 32"
proof (induction cs arbitrary: n)
  case (Cons c cs)
  obtain r where r: "get_request_count c i p = Some r" "sum_requests cs i p (n + ucast r) = Some m"
    using Cons.prems(1) by (auto split: bind_splits)
  have "unat (ucast r :: u64) < 2 ^ 32" using unsigned_less [of r, where ?'a = nat] by (simp add: unat_ucast_mod)
  moreover from this have "unat (n + ucast r) = unat n + unat (ucast r :: u64)"
    using Cons.prems(2) by (intro unat_add_no_overflow) simp
  ultimately show ?case using Cons.IH [OF r(2)] Cons.prems(2) by simp
qed simp

lemma collect_bins_bound:
  "collect_bins numa n cs m p = Some bins \<Longrightarrow> length cs \<le> 64 \<Longrightarrow>
     length bins \<le> m \<and> (\<forall>b \<in> set bins. unat (snd b) \<le> 2 ^ 38)"
proof (induction m arbitrary: bins)
  case (Suc m)
  obtain bs own where b: "collect_bins numa n cs m p = Some bs" "elem_at (pa_owner_lcore_ids p) m = Some own"
    using Suc.prems(1) by (auto split: bind_splits)
  note IH = Suc.IH [OF b(1) Suc.prems(2)]
  show ?case
  proof (cases "numa own = n")
    case True
    then obtain k where k: "sum_requests cs (of_nat m) p 0 = Some k" "bins = bs @ [(of_nat m, k)]"
      using Suc.prems(1) b by (auto split: bind_splits)
    have "unat k \<le> length cs * 2 ^ 32" using sum_requests_bound [OF k(1)] Suc.prems(2) by simp
    then show ?thesis using IH k(2) Suc.prems(2) by auto
  next
    case False
    then show ?thesis using Suc.prems(1) b IH by auto
  qed
qed simp

lemma sum_list_bound: "\<forall>x \<in> set xs. f x \<le> (b :: nat) \<Longrightarrow> sum_list (map f xs) \<le> length xs * b"
  by (induction xs) auto

lemma set_owners_ok:
  assumes "owners_ok p" "\<forall>(b, c) \<in> set a. unat (fst b) < length (pa_owner_lcore_ids p) \<and> unat c < length (pa_pending p)"
  shows "\<exists>p'. set_owners a p = Some p' \<and> owners_ok p' \<and> p' = p\<lparr>pa_pending := pa_pending p'\<rparr>
    \<and> length (pa_pending p') = length (pa_pending p)"
  using assms
proof (induction a arbitrary: p)
  case (Cons x a)
  obtain i n c where x: "x = ((i, n), c)" by (metis prod.collapse)
  let ?o = "pa_owner_lcore_ids p ! unat i"
  have i: "unat i < length (pa_owner_lcore_ids p)" "unat c < length (pa_pending p)" using Cons.prems(2) x by auto
  have o: "unat ?o < length (pa_pending p)" using Cons.prems(1) i(1) nth_mem by (auto simp: owners_ok_def)
  obtain p1 where p1: "set_new_owner_lcore_id i c p = Some p1" "owners_ok p1" "p1 = p\<lparr>pa_pending := pa_pending p1\<rparr>"
    "length (pa_pending p1) = length (pa_pending p)"
  proof (cases "?o = c")
    case True
    then show ?thesis using i Cons.prems(1) that [of p] by (simp add: set_new_owner_lcore_id_def elem_at_def)
  next
    case False
    then show ?thesis
      using i o enqueue_change_ok [OF Cons.prems(1) o, of "(i, c)"] that
      by (auto simp: set_new_owner_lcore_id_def elem_at_def)
  qed
  have "pa_owner_lcore_ids p1 = pa_owner_lcore_ids p" by (subst p1(3)) simp
  then obtain p' where p': "set_owners a p1 = Some p'" "owners_ok p'" "p' = p1\<lparr>pa_pending := pa_pending p'\<rparr>"
    "length (pa_pending p') = length (pa_pending p)"
    using Cons.IH [OF p1(2)] Cons.prems(2) p1(4) by auto
  have "p' = p\<lparr>pa_pending := pa_pending p'\<rparr>" by (subst p'(3), subst p1(3)) simp
  then show ?case using p1(1) p'(1,2,4) x by simp
qed simp

lemma rebalance_plan:
  assumes bins: "collect_bins numa n (numa_lcores numa n p) (unat (pa_partition_count p)) p = Some bins"
    and cs: "distinct (numa_lcores numa n p)" "numa_lcores numa n p \<noteq> []" "length (numa_lcores numa n p) \<le> 64"
    and busy: "\<exists>b \<in> set bins. snd b \<noteq> 0" and B: "\<forall>b \<in> set bins. unat (snd b) \<le> B"
  shows "\<exists>a. rebalance_numa numa n p = set_owners a p \<and> mset (map fst a) = mset bins
    \<and> set (map snd a) \<subseteq> set (numa_lcores numa n p)
    \<and> (\<forall>c \<in> set (numa_lcores numa n p). \<forall>c' \<in> set (numa_lcores numa n p). load_on a c \<le> load_on a c' + B)"
proof -
  let ?cs = "numa_lcores numa n p"
  define loads where "loads = replicate (length ?cs) (0 :: u64)"
  obtain a l where a: "plan_bins ?cs loads (sort_bins bins) = (a, l)" by fastforce
  note bb = collect_bins_bound [OF bins cs(3)]
  have s: "set (sort_bins bins) = set bins" "length (sort_bins bins) = length bins"
    using sort_bins_facts(1) [of bins] mset_eq_setD mset_eq_length by blast+
  have "unat (pa_partition_count p) < 2 ^ 16" using unsigned_less [of "pa_partition_count p", where ?'a = nat] by simp
  then have len: "length bins < 2 ^ 16" using bb by simp
  have "sum_list (map (unat \<circ> snd) (sort_bins bins)) \<le> length bins * 2 ^ 38"
    using sum_list_bound [of "sort_bins bins" "unat \<circ> snd" "2 ^ 38"] bb s by simp
  also have "\<dots> < 2 ^ 64" using len by simp
  finally have sum: "sum_list (map unat loads) + sum_list (map (unat \<circ> snd) (sort_bins bins)) < 2 ^ 64"
    by (simp add: loads_def sum_list_replicate)
  have f: "map fst a = sort_bins bins \<and> set (map snd a) \<subseteq> set ?cs \<and> length l = length loads
    \<and> (\<forall>k<length ?cs. unat (l ! k) = unat (loads ! k) + load_on a (?cs ! k))
    \<and> (\<forall>x \<in> set l. \<forall>y \<in> set l. unat x \<le> unat y + B)"
    by (rule plan_bins_facts [OF a _ _ cs(1) sum]) (use cs(2) B s in \<open>auto simp: loads_def\<close>)
  have "bins \<noteq> []" using busy by auto
  then have ne: "sort_bins bins \<noteq> []" using s(2) by auto
  moreover have "snd (hd (sort_bins bins)) \<noteq> 0"
  proof -
    obtain b where b: "b \<in> set (sort_bins bins)" "snd b \<noteq> 0" using busy s(1) by blast
    have "snd b \<le> snd (hd (sort_bins bins))"
      using sort_bins_facts(2) [of bins] b(1) by (cases "sort_bins bins") auto
    then show ?thesis using b(2) by (metis word_le_0_iff)
  qed
  ultimately have "rebalance_numa numa n p = do { (loads, p) \<leftarrow> pack_bins ?cs loads (sort_bins bins) p; Some p }"
    using bins by (simp add: rebalance_numa_def Let_def loads_def)
  also have "pack_bins ?cs loads (sort_bins bins) p = do { p \<leftarrow> set_owners a p; Some (l, p) }"
  proof -
    have "loads \<noteq> []" "length ?cs = length loads" using cs(2) by (simp_all add: loads_def)
    from pack_plan [OF this, of "sort_bins bins" p] show ?thesis by (simp add: a)
  qed
  also have "(do { (loads, p) \<leftarrow> do { p \<leftarrow> set_owners a p; Some (l, p) }; Some p }) = set_owners a p"
    by (cases "set_owners a p") simp_all
  finally have "rebalance_numa numa n p = set_owners a p" .
  moreover have "load_on a c \<le> load_on a c' + B" if c: "c \<in> set ?cs" "c' \<in> set ?cs" for c c'
  proof -
    obtain i j where ij: "i < length ?cs" "c = ?cs ! i" "j < length ?cs" "c' = ?cs ! j"
      using c by (auto simp: in_set_conv_nth)
    have "l ! i \<in> set l" "l ! j \<in> set l" using f ij(1,3) by (simp_all add: loads_def)
    then have "unat (l ! i) \<le> unat (l ! j) + B" using f by blast
    moreover have "unat (l ! i) = load_on a c" "unat (l ! j) = load_on a c'" using f ij by (simp_all add: loads_def)
    ultimately show ?thesis by simp
  qed
  ultimately show ?thesis using f sort_bins_facts(1) [of bins] by metis
qed

lemma apply_pending_ok:
  assumes "owners_ok p" "unat c < length (pa_pending p)"
  shows "\<exists>p'. apply_pending_owner_lcore_changes c p = Some p' \<and> owners_ok p' \<and> only_owners p' p
    \<and> (pa_owner_lcore_ids p', queues p') = give c (queues p ! unat c) (pa_owner_lcore_ids p, (queues p)[unat c := []])"
proof (cases "approximate_empty (pa_pending p ! unat c)")
  case True
  note D = owners_okD [OF assms]
  have "queues p ! unat c = []"
    using True D(1,2) queue_contents_Nil_iff [of 16 "pa_pending p ! unat c"]
    by (simp add: approximate_empty_def queue_idle_def)
  moreover from this have "(queues p)[unat c := []] = queues p" by (metis list_update_id)
  ultimately show ?thesis
    using True assms by (auto simp: apply_pending_owner_lcore_changes_def elem_at_def only_owners_def)
next
  case False
  then show ?thesis
    using apply_changes_ok [OF assms] assms(2) by (simp add: apply_pending_owner_lcore_changes_def elem_at_def)
qed

section \<open>From the plan to the owners\<close>

text \<open>The changes that a plan puts into the queue of the core \<open>c\<close>, when the partitions are owned as \<open>own\<close> says.\<close>

definition moves :: "u16 list \<Rightarrow> (bin \<times> u16) list \<Rightarrow> u16 \<Rightarrow> change list" where
  "moves own a c = map (\<lambda>(b, c'). (fst b, c')) (filter (\<lambda>(b, c'). own ! unat (fst b) = c \<and> c' \<noteq> c) a)"

lemma moves_Cons [simp]:
  "moves own ((b, c') # a) c = (if own ! unat (fst b) = c \<and> c' \<noteq> c then [(fst b, c')] else []) @ moves own a c"
  by (simp add: moves_def)

lemma set_owners_queues:
  assumes "owners_ok p" "\<forall>(b, c) \<in> set a. unat (fst b) < length (pa_owner_lcore_ids p) \<and> unat c < length (pa_pending p)"
    and "set_owners a p = Some p'" "unat c < length (pa_pending p)"
    and "length (queues p ! unat c @ moves (pa_owner_lcore_ids p) a c) \<le> 15"
  shows "queues p' ! unat c = queues p ! unat c @ moves (pa_owner_lcore_ids p) a c"
  using assms
proof (induction a arbitrary: p)
  case (Cons x a)
  obtain i n c' where x: "x = ((i, n), c')" by (metis prod.collapse)
  let ?o = "pa_owner_lcore_ids p ! unat i" and ?own = "pa_owner_lcore_ids p"
  have i: "unat i < length ?own" "unat c' < length (pa_pending p)" using Cons.prems(2) x by auto
  have o: "unat ?o < length (pa_pending p)" using Cons.prems(1) i(1) nth_mem by (auto simp: owners_ok_def)
  show ?case
  proof (cases "?o = c'")
    case True
    then have "set_owners a p = Some p'" using Cons.prems(3) i(1) by (simp add: x set_new_owner_lcore_id_def elem_at_def)
    then show ?thesis using Cons.IH [OF Cons.prems(1) _ _ Cons.prems(4)] Cons.prems(2,5) True by (auto simp: x)
  next
    case False
    obtain p1 where p1: "enqueue_change ?o (i, c') p = Some p1" "queues p1 = post ?o (i, c') (queues p)" "owners_ok p1"
      "p1 = p\<lparr>pa_pending := pa_pending p1\<rparr>" "length (pa_pending p1) = length (pa_pending p)"
      using enqueue_change_ok [OF Cons.prems(1) o, of "(i, c')"] i by auto
    have own: "pa_owner_lcore_ids p1 = ?own" by (subst p1(4)) simp
    have run: "set_owners a p1 = Some p'"
      using Cons.prems(3) i(1) False p1(1) by (simp add: x set_new_owner_lcore_id_def elem_at_def)
    have len: "length (queues p) = length (pa_pending p)" by (simp add: queues_def)
    have q: "queues p1 ! unat c = queues p ! unat c @ (if ?o = c then [(i, c')] else [])"
      using Cons.prems(4,5) o len False by (auto simp: p1(2) post_def x word_unat_eq_iff nth_list_update split: if_splits)
    have "queues p' ! unat c = queues p1 ! unat c @ moves (pa_owner_lcore_ids p1) a c"
      by (rule Cons.IH [OF p1(3) _ run]) (use Cons.prems(2,4,5) p1(5) q own False in \<open>auto simp: x split: if_splits\<close>)
    then show ?thesis using q own False by (auto simp: x)
  qed
qed (simp add: moves_def)

text \<open>Changes of partitions that their core owns are made, one after the other.\<close>

fun assign :: "change list \<Rightarrow> u16 list \<Rightarrow> u16 list" where
  "assign [] own = own"
| "assign ((i, n) # cs) own = assign cs (own[unat i := n])"

lemma give_owned:
  assumes "\<forall>(i, n) \<in> set cs. own ! unat i = c" "distinct (map fst cs)"
  shows "give c cs (own, qs) = (assign cs own, qs)"
  using assms
proof (induction cs arbitrary: own)
  case (Cons x cs)
  obtain i n where x: "x = (i, n)" by (cases x)
  have "own[unat i := n] ! unat j = c" if "(j, m) \<in> set cs" for j m
  proof -
    have "j \<noteq> i" using Cons.prems(2) that by (force simp: x)
    then show ?thesis using Cons.prems(1) that by (auto simp: word_unat_eq_iff)
  qed
  then have "give c cs (own[unat i := n], qs) = (assign cs (own[unat i := n]), qs)"
    using Cons.prems(2) by (intro Cons.IH) (auto simp: x)
  then show ?case using Cons.prems(1) by (simp add: x)
qed simp

lemma length_assign [simp]: "length (assign cs own) = length own"
  by (induction cs own rule: assign.induct) simp_all

lemma assign_other: "\<forall>(i, n) \<in> set cs. unat i \<noteq> j \<Longrightarrow> assign cs own ! j = own ! j"
  by (induction cs own rule: assign.induct) auto

lemma assign_nth:
  assumes "(i, n) \<in> set cs" "distinct (map fst cs)" "unat i < length own"
  shows "assign cs own ! unat i = n"
  using assms
proof (induction cs own rule: assign.induct)
  case (2 j m cs own)
  show ?case
  proof (cases "(i, n) = (j, m)")
    case True
    have "\<forall>(k, l) \<in> set cs. unat k \<noteq> unat i"
      using 2(3) True by (force simp: word_unat_eq_iff [symmetric])
    then show ?thesis using True 2(4) assign_other [of cs "unat i" "own[unat j := m]"] by simp
  next
    case False
    then show ?thesis using 2 by auto
  qed
qed simp

text \<open>Every core of a list applies its pending changes.\<close>

fun apply_all :: "u16 list \<Rightarrow> partitions \<Rightarrow> partitions option" where
  "apply_all [] p = Some p"
| "apply_all (c # cs) p = do { p \<leftarrow> apply_pending_owner_lcore_changes c p; apply_all cs p }"

lemma only_owners_trans: "only_owners r q \<Longrightarrow> only_owners q p \<Longrightarrow> only_owners r p"
  unfolding only_owners_def by (metis (no_types, lifting) partitions.surjective partitions.update_convs(7,9))

lemma apply_all_ok:
  assumes "owners_ok p" "distinct cs" "\<forall>c \<in> set cs. unat c < length (pa_pending p)"
    and "\<forall>c \<in> set cs. (\<forall>(i, n) \<in> set (queues p ! unat c). pa_owner_lcore_ids p ! unat i = c)
       \<and> distinct (map fst (queues p ! unat c))"
  shows "\<exists>p'. apply_all cs p = Some p' \<and> owners_ok p' \<and> only_owners p' p
    \<and> (\<forall>c \<in> set cs. \<forall>(i, n) \<in> set (queues p ! unat c). pa_owner_lcore_ids p' ! unat i = n)
    \<and> (\<forall>j. (\<forall>c \<in> set cs. \<forall>(i, n) \<in> set (queues p ! unat c). unat i \<noteq> j) \<longrightarrow>
         pa_owner_lcore_ids p' ! j = pa_owner_lcore_ids p ! j)"
  using assms
proof (induction cs arbitrary: p)
  case Nil
  then show ?case by (simp add: only_owners_def)
next
  case (Cons c cs)
  let ?own = "pa_owner_lcore_ids p" and ?q = "queues p ! unat c"
  have c: "unat c < length (pa_pending p)" using Cons.prems(3) by simp
  have cq: "\<forall>(i, n) \<in> set ?q. ?own ! unat i = c" "distinct (map fst ?q)" using Cons.prems(4) by simp_all
  obtain p1 where p1: "apply_pending_owner_lcore_changes c p = Some p1" "owners_ok p1" "only_owners p1 p"
    "pa_owner_lcore_ids p1 = assign ?q ?own" "queues p1 = (queues p)[unat c := []]"
    using apply_pending_ok [OF Cons.prems(1) c] give_owned [OF cq, of "(queues p)[unat c := []]"] by auto
  have len: "length (pa_pending p1) = length (pa_pending p)"
    using arg_cong [OF p1(5), of length] by (simp add: queues_def)
  have other: "queues p1 ! unat d = queues p ! unat d" if "d \<in> set cs" for d
  proof -
    have "c \<noteq> d" using Cons.prems(2) that by auto
    then have "unat c \<noteq> unat d" by (simp add: word_unat_eq_iff)
    then show ?thesis by (simp add: p1(5))
  qed
  have apart: "\<forall>(k, m) \<in> set ?q. unat k \<noteq> unat i" if "d \<in> set cs" "(i, n) \<in> set (queues p ! unat d)" for d i n
    using Cons.prems(2,4) cq(1) that by fastforce
  have IH: "\<exists>p'. apply_all cs p1 = Some p' \<and> owners_ok p' \<and> only_owners p' p1
    \<and> (\<forall>d \<in> set cs. \<forall>(i, n) \<in> set (queues p1 ! unat d). pa_owner_lcore_ids p' ! unat i = n)
    \<and> (\<forall>j. (\<forall>d \<in> set cs. \<forall>(i, n) \<in> set (queues p1 ! unat d). unat i \<noteq> j) \<longrightarrow>
         pa_owner_lcore_ids p' ! j = pa_owner_lcore_ids p1 ! j)"
  proof (rule Cons.IH [OF p1(2)])
    show "\<forall>d \<in> set cs. (\<forall>(i, n) \<in> set (queues p1 ! unat d). pa_owner_lcore_ids p1 ! unat i = d)
       \<and> distinct (map fst (queues p1 ! unat d))"
    proof (intro ballI conjI)
      fix d assume d: "d \<in> set cs"
      show "distinct (map fst (queues p1 ! unat d))" using Cons.prems(4) other [OF d] d by simp
      show "case x of (i, n) \<Rightarrow> pa_owner_lcore_ids p1 ! unat i = d" if "x \<in> set (queues p1 ! unat d)" for x
      proof -
        obtain i n where x: "x = (i, n)" by (cases x)
        have m: "(i, n) \<in> set (queues p ! unat d)" using that other [OF d] by (simp add: x)
        have "?own ! unat i = d" using Cons.prems(4) d m by fastforce
        then show ?thesis using assign_other [OF apart [OF d m], of ?own] by (simp add: x p1(4))
      qed
    qed
  qed (use Cons.prems len in auto)
  then obtain p' where p': "apply_all cs p1 = Some p'" "owners_ok p'" "only_owners p' p1"
    "\<forall>d \<in> set cs. \<forall>(i, n) \<in> set (queues p1 ! unat d). pa_owner_lcore_ids p' ! unat i = n"
    "\<And>j. \<forall>d \<in> set cs. \<forall>(i, n) \<in> set (queues p1 ! unat d). unat i \<noteq> j \<Longrightarrow>
         pa_owner_lcore_ids p' ! j = pa_owner_lcore_ids p1 ! j"
    by blast
  have first: "pa_owner_lcore_ids p' ! unat i = n" if m: "(i, n) \<in> set ?q" for i n
  proof -
    have "\<forall>d \<in> set cs. \<forall>(k, l) \<in> set (queues p1 ! unat d). unat k \<noteq> unat i"
      using apart m other by fastforce
    then have "pa_owner_lcore_ids p' ! unat i = assign ?q ?own ! unat i" using p'(5) p1(4) by simp
    moreover have "unat i < length ?own"
      using owners_okD(3) [OF Cons.prems(1) c] m by simp
    ultimately show ?thesis using assign_nth [OF m cq(2)] by simp
  qed
  have rest: "pa_owner_lcore_ids p' ! unat i = n" if "d \<in> set cs" "(i, n) \<in> set (queues p ! unat d)" for d i n
    using p'(4) that other [OF that(1)] by fastforce
  have untouched: "pa_owner_lcore_ids p' ! j = ?own ! j"
    if "\<forall>d \<in> set (c # cs). \<forall>(i, n) \<in> set (queues p ! unat d). unat i \<noteq> j" for j
    using p'(5) [of j] that other assign_other [of ?q j ?own] by (simp add: p1(4))
  show ?case
    using p1(1) p'(1,2) only_owners_trans [OF p'(3) p1(3)] first rest untouched
    by (intro exI [of _ p']) auto
qed

text \<open>The partitions of the bins and the requests of those that a core owns.\<close>

lemma collect_bins_distinct:
  "collect_bins numa n cs m p = Some bins \<Longrightarrow> m \<le> 2 ^ 16 \<Longrightarrow>
     distinct (map fst bins) \<and> (\<forall>b \<in> set bins. unat (fst b) < m \<and> unat (fst b) < length (pa_owner_lcore_ids p))"
proof (induction m arbitrary: bins)
  case (Suc m)
  obtain bs own where b: "collect_bins numa n cs m p = Some bs" "elem_at (pa_owner_lcore_ids p) m = Some own"
    using Suc.prems(1) by (auto split: bind_splits)
  have IH: "distinct (map fst bs)" "\<forall>b \<in> set bs. unat (fst b) < m \<and> unat (fst b) < length (pa_owner_lcore_ids p)"
    using Suc.IH [OF b(1)] Suc.prems(2) by simp_all
  have own: "m < length (pa_owner_lcore_ids p)" using b(2) by (simp add: elem_at_def split: if_splits)
  have m: "unat (of_nat m :: u16) = m" using Suc.prems(2) by (simp add: unat_of_nat)
  show ?case
  proof (cases "numa own = n")
    case True
    then obtain k where k: "bins = bs @ [(of_nat m, k)]"
      using Suc.prems(1) b by (auto split: bind_splits)
    then show ?thesis using IH m own by fastforce
  next
    case False
    then show ?thesis using Suc.prems(1) b IH by fastforce
  qed
qed simp

definition owned_load :: "u16 list \<Rightarrow> bin list \<Rightarrow> u16 \<Rightarrow> nat" where
  "owned_load own bins c = sum_list (map (\<lambda>b. if own ! unat (fst b) = c then unat (snd b) else 0) bins)"

lemma owned_load_plan:
  assumes "mset (map fst a) = mset bins" "\<forall>(b, c) \<in> set a. own ! unat (fst b) = c"
  shows "owned_load own bins c = load_on a c"
proof -
  let ?f = "\<lambda>b. if own ! unat (fst b) = c then unat (snd b) else 0"
  have "owned_load own bins c = sum_mset (image_mset ?f (mset bins))"
    by (simp add: owned_load_def sum_mset_sum_list [symmetric])
  also have "\<dots> = sum_list (map ?f (map fst a))"
    by (simp only: assms(1) [symmetric] mset_map [symmetric] sum_mset_sum_list)
  also have "\<dots> = load_on a c"
    unfolding load_on_def map_map using assms(2) by (intro arg_cong [of _ _ sum_list] map_cong) auto
  finally show ?thesis .
qed

lemma plan_applied:
  assumes ok: "owners_ok p" and a: "\<forall>(b, c) \<in> set a. unat (fst b) < length (pa_owner_lcore_ids p) \<and> unat c < length (pa_pending p)"
    and dist: "distinct (map (fst \<circ> fst) a)" and run: "set_owners a p = Some p'"
    and cs: "distinct cs" "\<forall>c \<in> set cs. unat c < length (pa_pending p)" "\<forall>c \<in> set cs. queues p ! unat c = []"
    and owned: "\<forall>(b, c) \<in> set a. pa_owner_lcore_ids p ! unat (fst b) \<in> set cs"
    and few: "\<forall>c \<in> set cs. length (moves (pa_owner_lcore_ids p) a c) \<le> 15"
  shows "\<exists>p''. apply_all cs p' = Some p'' \<and> owners_ok p'' \<and> only_owners p'' p
    \<and> (\<forall>(b, c) \<in> set a. pa_owner_lcore_ids p'' ! unat (fst b) = c)
    \<and> (\<forall>j. j \<notin> (\<lambda>x. unat (fst (fst x))) ` set a \<longrightarrow> pa_owner_lcore_ids p'' ! j = pa_owner_lcore_ids p ! j)"
proof -
  let ?own = "pa_owner_lcore_ids p"
  have p': "owners_ok p'" "p' = p\<lparr>pa_pending := pa_pending p'\<rparr>" and len: "length (pa_pending p') = length (pa_pending p)"
    using set_owners_ok [OF ok a] run by auto
  have own: "pa_owner_lcore_ids p' = ?own" by (subst p'(2)) simp
  have q: "queues p' ! unat c = moves ?own a c" if "c \<in> set cs" for c
    using set_owners_queues [OF ok a run, of c] cs(2,3) few that by simp
  have mv: "set (moves ?own a c) \<subseteq> {(fst b, c') |b c'. (b, c') \<in> set a \<and> ?own ! unat (fst b) = c \<and> c' \<noteq> c}" for c
    by (auto simp: moves_def)
  have md: "distinct (map fst (moves ?own a c))" for c
  proof -
    have "map fst (moves ?own a c) = map (fst \<circ> fst) (filter (\<lambda>(b, c'). ?own ! unat (fst b) = c \<and> c' \<noteq> c) a)"
      by (simp add: moves_def split_beta)
    then show ?thesis using dist by (simp add: distinct_map_filter)
  qed
  have "\<forall>c \<in> set cs. (\<forall>(i, n) \<in> set (queues p' ! unat c). pa_owner_lcore_ids p' ! unat i = c)
       \<and> distinct (map fst (queues p' ! unat c))"
    using q own mv md by (fastforce simp: own)
  from apply_all_ok [OF p'(1) cs(1) _ this] len cs(2) obtain p'' where p'': "apply_all cs p' = Some p''"
    "owners_ok p''" "only_owners p'' p'"
    "\<forall>c \<in> set cs. \<forall>(i, n) \<in> set (queues p' ! unat c). pa_owner_lcore_ids p'' ! unat i = n"
    "\<And>j. \<forall>c \<in> set cs. \<forall>(i, n) \<in> set (queues p' ! unat c). unat i \<noteq> j \<Longrightarrow> pa_owner_lcore_ids p'' ! j = ?own ! j"
    by (auto simp: own)
  have uniq: "x = y" if "x \<in> set a" "y \<in> set a" "fst (fst x) = fst (fst y)" for x y
    using dist that unfolding distinct_map inj_on_def comp_def by blast
  have "pa_owner_lcore_ids p'' ! unat (fst b) = c" if m: "(b, c) \<in> set a" for b c
  proof (cases "?own ! unat (fst b) = c")
    case True
    have "\<forall>d \<in> set cs. \<forall>(i, n) \<in> set (queues p' ! unat d). unat i \<noteq> unat (fst b)"
    proof (intro ballI, clarify)
      fix d i n assume d: "d \<in> set cs" "(i, n) \<in> set (queues p' ! unat d)" "unat i = unat (fst b)"
      then obtain b' where b': "i = fst b'" "(b', n) \<in> set a" "?own ! unat (fst b') = d" "n \<noteq> d"
        using q mv by fastforce
      then have "(b', n) = (b, c)" using d(3) m by (intro uniq) (auto simp: word_unat_eq_iff)
      then show False using b'(3,4) True by simp
    qed
    then show ?thesis using p''(5) True by simp
  next
    case False
    let ?d = "?own ! unat (fst b)"
    have d: "?d \<in> set cs" using owned m by auto
    have "(fst b, c) \<in> set (moves ?own a ?d)" using m False by (force simp: moves_def)
    then show ?thesis using p''(4) d q [OF d] by fastforce
  qed
  moreover have "pa_owner_lcore_ids p'' ! j = ?own ! j" if "j \<notin> (\<lambda>x. unat (fst (fst x))) ` set a" for j
  proof (rule p''(5), intro ballI)
    fix c x assume "c \<in> set cs" "x \<in> set (queues p' ! unat c)"
    then obtain b where "fst x = fst b" "(b, snd x) \<in> set a" using q mv by fastforce
    then have "unat (fst x) \<in> (\<lambda>x. unat (fst (fst x))) ` set a" by force
    then show "case x of (i, n) \<Rightarrow> unat i \<noteq> j" using that by (auto simp: split_beta)
  qed
  moreover have "only_owners p'' p"
    using only_owners_trans [OF p''(3)] p'(2) own by (simp add: only_owners_def)
  ultimately show ?thesis using p''(1,2) by auto
qed

section \<open>Properties of owners and loads\<close>

text \<open>
  C25. A core that applies its pending changes returns with its queue empty: the partitions it
  owns are given away in the order of the changes, each other change goes to the queue of the
  core that owns the partition by then, which drops what it has no room for, and nothing else
  changes.
\<close>
theorem pending_changes_applied:
  assumes "owners_ok p" "unat c < length (pa_pending p)"
  shows "\<exists>p'. apply_pending_owner_lcore_changes c p = Some p' \<and> owners_ok p' \<and> only_owners p' p
    \<and> (pa_owner_lcore_ids p', queues p') = give c (queues p ! unat c) (pa_owner_lcore_ids p, (queues p)[unat c := []])"
  using assms by (rule apply_pending_ok)

definition two_cores :: partitions where
  "two_cores = \<lparr>pa_config = BasicPartitionsConfig, pa_concurrent_read = False, pa_concurrent_write = False,
     pa_target_stage_gap_time = 0, pa_partition_count = 3, pa_lcores = [0, 1], pa_owner_lcore_ids = [0, 0, 1],
     pa_tables = [None, None, None], pa_pending = replicate 2 (new_queue (replicate 16 (0, 0))),
     pa_load_stats = replicate 2 \<lparr>ls_request_count = [7, 4, 2], ls_processing_time = 0, ls_stage_gap = 2\<rparr>,
     pa_recent = replicate 2 (replicate 128 0)\<rparr>"

lemma two_cores_ok: "owners_ok two_cores"
  by (auto simp: owners_ok_def two_cores_def queue_idle_def queue_ok_def new_queue_def queue_contents_def ring_list_def)

theorem pending_changes_applied_witness:
  "\<exists>p'. apply_pending_owner_lcore_changes 0 two_cores = Some p' \<and> owners_ok p' \<and> only_owners p' two_cores
    \<and> (pa_owner_lcore_ids p', queues p')
      = give 0 (queues two_cores ! unat (0 :: u16)) (pa_owner_lcore_ids two_cores, (queues two_cores)[unat (0 :: u16) := []])"
  by (rule pending_changes_applied [OF two_cores_ok]) (simp add: two_cores_def)

lemma rebalance_idle:
  assumes "collect_bins numa n (numa_lcores numa n p) (unat (pa_partition_count p)) p = Some bins"
    and "\<forall>b \<in> set bins. snd b = 0"
  shows "rebalance_numa numa n p = Some p"
proof -
  have "set (sort_bins bins) = set bins" using sort_bins_facts(1) [of bins] mset_eq_setD by blast
  then have "sort_bins bins = [] \<or> snd (hd (sort_bins bins)) = 0" using assms(2) by (cases "sort_bins bins") auto
  then show ?thesis using assms(1) by (auto simp: rebalance_numa_def Let_def)
qed

lemma moves_few:
  assumes "mset (map fst a) = mset bins"
  shows "length (moves own a c) \<le> length (filter (\<lambda>b. own ! unat (fst b) = c) bins)"
proof -
  have "length (moves own a c) \<le> length (filter (\<lambda>b. own ! unat (fst b) = c) (map fst a))"
    unfolding moves_def by (induction a) auto
  also have "\<dots> = length (filter (\<lambda>b. own ! unat (fst b) = c) bins)"
    by (metis assms mset_filter size_mset)
  finally show ?thesis .
qed

text \<open>
  C19. Let the cores of a NUMA domain own its partitions, at most 15 each (a queue takes no more
  changes), and let their queues of changes be empty. When the load of the domain has been balanced
  and each of its cores has applied its pending changes, in any order, every partition of the domain
  is owned by one of them, no other partition has changed its owner, and the loads of no two cores, by
  the requests counted for the partitions that they own now, differ by more than the requests of one
  partition. The sums do not overflow.
\<close>
theorem rebalance_balanced:
  assumes "owners_ok p"
    and "collect_bins numa n (numa_lcores numa n p) (unat (pa_partition_count p)) p = Some bins"
    and "distinct (numa_lcores numa n p)" "numa_lcores numa n p \<noteq> []" "length (numa_lcores numa n p) \<le> 64"
    and "\<forall>c \<in> set (numa_lcores numa n p). unat c < length (pa_pending p) \<and> queues p ! unat c = []
      \<and> length (filter (\<lambda>b. pa_owner_lcore_ids p ! unat (fst b) = c) bins) \<le> 15"
    and "\<forall>b \<in> set bins. pa_owner_lcore_ids p ! unat (fst b) \<in> set (numa_lcores numa n p)"
    and "\<forall>b \<in> set bins. unat (snd b) \<le> B"
    and "distinct cs" "set cs = set (numa_lcores numa n p)"
  shows "\<exists>p' p''. rebalance_numa numa n p = Some p' \<and> apply_all cs p' = Some p'' \<and> owners_ok p'' \<and> only_owners p'' p
    \<and> (\<forall>b \<in> set bins. pa_owner_lcore_ids p'' ! unat (fst b) \<in> set cs)
    \<and> (\<forall>j. (\<forall>b \<in> set bins. unat (fst b) \<noteq> j) \<longrightarrow> pa_owner_lcore_ids p'' ! j = pa_owner_lcore_ids p ! j)
    \<and> (\<forall>c \<in> set cs. \<forall>c' \<in> set cs. owned_load (pa_owner_lcore_ids p'') bins c
         \<le> owned_load (pa_owner_lcore_ids p'') bins c' + B)"
proof -
  let ?own = "pa_owner_lcore_ids p"
  have ones: "distinct (map fst bins)" "\<forall>b \<in> set bins. unat (fst b) < length ?own"
    using collect_bins_distinct [OF assms(2)] unsigned_less [of "pa_partition_count p", where ?'a = nat] by auto
  have cs: "\<forall>c \<in> set cs. unat c < length (pa_pending p)" "\<forall>c \<in> set cs. queues p ! unat c = []"
    using assms(6,10) by auto
  show ?thesis
  proof (cases "\<exists>b \<in> set bins. snd b \<noteq> 0")
    case True
    obtain a where a: "rebalance_numa numa n p = set_owners a p" "mset (map fst a) = mset bins"
      "set (map snd a) \<subseteq> set (numa_lcores numa n p)"
      "\<forall>c \<in> set (numa_lcores numa n p). \<forall>c' \<in> set (numa_lcores numa n p). load_on a c \<le> load_on a c' + B"
      using rebalance_plan [OF assms(2-5) True assms(8)] by blast
    have bins: "fst ` set a = set bins" using mset_eq_setD [OF a(2)] by simp
    have in_a: "fst x \<in> set bins \<and> snd x \<in> set cs" if "x \<in> set a" for x
      using that bins a(3) assms(10) by auto
    have fit: "\<forall>(b, c) \<in> set a. unat (fst b) < length ?own \<and> unat c < length (pa_pending p)"
      using in_a ones(2) cs(1) by fastforce
    obtain p' where p': "set_owners a p = Some p'" using set_owners_ok [OF assms(1) fit] by blast
    have "mset (map (fst \<circ> fst) a) = mset (map fst bins)"
      using arg_cong [OF a(2), of "image_mset fst"] by (simp only: map_map [symmetric] mset_map)
    then have dist: "distinct (map (fst \<circ> fst) a)" using ones(1) mset_eq_imp_distinct_iff by blast
    have owned: "\<forall>(b, c) \<in> set a. ?own ! unat (fst b) \<in> set cs" using in_a assms(7,10) by fastforce
    have few: "\<forall>c \<in> set cs. length (moves ?own a c) \<le> 15"
    proof
      fix c assume "c \<in> set cs"
      then have "length (filter (\<lambda>b. ?own ! unat (fst b) = c) bins) \<le> 15" using assms(6,10) by blast
      then show "length (moves ?own a c) \<le> 15" using moves_few [OF a(2), of ?own c] by simp
    qed
    obtain p'' where p'': "apply_all cs p' = Some p''" "owners_ok p''" "only_owners p'' p"
      "\<forall>(b, c) \<in> set a. pa_owner_lcore_ids p'' ! unat (fst b) = c"
      "\<forall>j. j \<notin> (\<lambda>x. unat (fst (fst x))) ` set a \<longrightarrow> pa_owner_lcore_ids p'' ! j = ?own ! j"
      using plan_applied [OF assms(1) fit dist p' assms(9) cs owned few] by blast
    have "\<forall>b \<in> set bins. pa_owner_lcore_ids p'' ! unat (fst b) \<in> set cs"
      using bins p''(4) in_a by fastforce
    moreover have "\<forall>j. (\<forall>b \<in> set bins. unat (fst b) \<noteq> j) \<longrightarrow> pa_owner_lcore_ids p'' ! j = ?own ! j"
    proof (intro allI impI)
      fix j assume "\<forall>b \<in> set bins. unat (fst b) \<noteq> j"
      then have "j \<notin> (\<lambda>x. unat (fst (fst x))) ` set a" using in_a by blast
      then show "pa_owner_lcore_ids p'' ! j = ?own ! j" using p''(5) by blast
    qed
    moreover have "owned_load (pa_owner_lcore_ids p'') bins c = load_on a c" for c
      by (rule owned_load_plan [OF a(2) p''(4)])
    then have "\<forall>c \<in> set cs. \<forall>c' \<in> set cs. owned_load (pa_owner_lcore_ids p'') bins c
        \<le> owned_load (pa_owner_lcore_ids p'') bins c' + B"
      using a(4) unfolding assms(10) by (simp only:)
    moreover have "rebalance_numa numa n p = Some p'" using a(1) p' by simp
    ultimately show ?thesis using p''(1-3) by blast
  next
    case False
    then have run: "rebalance_numa numa n p = Some p" using rebalance_idle [OF assms(2)] by blast
    obtain p'' where p'': "apply_all cs p = Some p''" "owners_ok p''" "only_owners p'' p"
      "\<forall>j. pa_owner_lcore_ids p'' ! j = ?own ! j"
      using plan_applied [OF assms(1), of "[]" p cs] assms(9) cs by (auto simp: moves_def)
    have "owned_load own bins c = 0" for own c
      using False by (auto simp: owned_load_def sum_list_eq_0_iff)
    moreover have "\<forall>b \<in> set bins. pa_owner_lcore_ids p'' ! unat (fst b) \<in> set cs"
      using p''(4) assms(7,10) by simp
    ultimately show ?thesis using run p'' by (intro exI [of _ p] exI [of _ p'']) simp
  qed
qed

definition two_cores_loads :: "bin list" where
  "two_cores_loads = [(0, 14), (1, 8), (2, 4)]"

lemma two_cores_bins: "collect_bins (\<lambda>_. 0) 0 (numa_lcores (\<lambda>_. 0) 0 two_cores) (unat (pa_partition_count two_cores)) two_cores
    = Some two_cores_loads"
  by code_simp

lemma two_cores_numa: "numa_lcores (\<lambda>_. 0) 0 two_cores = [0, 1]"
  by (simp add: two_cores_def numa_lcores_def)

theorem rebalance_balanced_witness:
  "\<exists>p' p''. rebalance_numa (\<lambda>_. 0) 0 two_cores = Some p' \<and> apply_all [1, 0] p' = Some p'' \<and> owners_ok p''
    \<and> only_owners p'' two_cores
    \<and> (\<forall>b \<in> set two_cores_loads. pa_owner_lcore_ids p'' ! unat (fst b) \<in> set [1, 0])
    \<and> (\<forall>j. (\<forall>b \<in> set two_cores_loads. unat (fst b) \<noteq> j)
        \<longrightarrow> pa_owner_lcore_ids p'' ! j = pa_owner_lcore_ids two_cores ! j)
    \<and> (\<forall>c \<in> set [1, 0]. \<forall>c' \<in> set [1, 0]. owned_load (pa_owner_lcore_ids p'') two_cores_loads c
         \<le> owned_load (pa_owner_lcore_ids p'') two_cores_loads c' + 14)"
proof (rule rebalance_balanced [OF two_cores_ok two_cores_bins])
  have "queue_contents 16 (new_queue (replicate 16 (0, 0)) :: change mqueue) = []"
    by (simp add: queue_contents_def new_queue_def ring_list_def)
  then show "\<forall>c \<in> set (numa_lcores (\<lambda>_. 0) 0 two_cores). unat c < length (pa_pending two_cores)
      \<and> queues two_cores ! unat c = []
      \<and> length (filter (\<lambda>b. pa_owner_lcore_ids two_cores ! unat (fst b) = c) two_cores_loads) \<le> 15"
    by (simp add: two_cores_numa) (simp add: two_cores_def two_cores_loads_def queues_def numeral_2_eq_2)
qed (simp_all add: two_cores_numa, auto simp: two_cores_def two_cores_loads_def)

text \<open>
  \<^verbatim>\<open>set_new_owner_lcore_id\<close> loses a change without a sign of it when the queue of the owner
  is full: it returns with every queue and every owner as before.
\<close>
theorem full_queue_drops_change:
  assumes "owners_ok p" "unat i < length (pa_owner_lcore_ids p)" "unat n < length (pa_pending p)"
    and "pa_owner_lcore_ids p ! unat i = c" "length (queues p ! unat c) = 15"
  shows "\<exists>p'. set_new_owner_lcore_id i n p = Some p' \<and> queues p' = queues p \<and> pa_owner_lcore_ids p' = pa_owner_lcore_ids p"
proof (cases "c = n")
  case True
  then show ?thesis using assms by (simp add: set_new_owner_lcore_id_def elem_at_def)
next
  case False
  have c: "unat c < length (pa_pending p)" using assms(1,2,4) nth_mem by (fastforce simp: owners_ok_def)
  obtain p' where p': "enqueue_change c (i, n) p = Some p'" "queues p' = post c (i, n) (queues p)" "p' = p\<lparr>pa_pending := pa_pending p'\<rparr>"
    using enqueue_change_ok [OF assms(1) c, of "(i, n)"] assms(2,3) by auto
  have "pa_owner_lcore_ids p' = pa_owner_lcore_ids p" by (subst p'(3)) simp
  moreover have "post c (i, n) (queues p) = queues p" using assms(5) by (simp add: post_def)
  ultimately show ?thesis using p'(1,2) False assms(2,4) by (simp add: set_new_owner_lcore_id_def elem_at_def)
qed

definition full_queue :: partitions where
  "full_queue = two_cores\<lparr>pa_pending :=
     [(new_queue (replicate 16 (2, 1)))\<lparr>tail_pos := 15\<rparr>, new_queue (replicate 16 (0, 0))]\<rparr>"

lemma full_queue_ok: "owners_ok full_queue" "length (queues full_queue ! 0) = 15"
  by (auto simp: full_queue_def owners_ok_def two_cores_def queue_idle_def queue_ok_def new_queue_def queue_contents_def ring_list_def queues_def)

theorem full_queue_drops_change_witness:
  "\<exists>p'. set_new_owner_lcore_id 1 1 full_queue = Some p' \<and> queues p' = queues full_queue
    \<and> pa_owner_lcore_ids p' = pa_owner_lcore_ids full_queue"
  by (rule full_queue_drops_change [OF full_queue_ok(1), where c = 0])
    (use full_queue_ok(2) in \<open>simp_all add: full_queue_def two_cores_def\<close>)

end
