(* ===== verification/Simple_Processor.thy ===== *)
theory Simple_Processor
  imports Partitions
begin

text \<open>
  \<^verbatim>\<open>SimpleProcessor::process\<close> is a loop that answers the requests of its array one after the other, and
  what one answer puts into the outputs of its request.
\<close>

fun simple_serve :: "request list \<Rightarrow> ltable \<Rightarrow> (request list \<times> ltable) option" where
  "simple_serve [] t = Some ([], t)"
| "simple_serve (r # rs) t =
     do { (r, t) \<leftarrow> simple_request r t; (rs, t) \<leftarrow> simple_serve rs t; Some (r # rs, t) }"

lemma simple_loop_serve:
  assumes "length xs + length rs < 2 ^ 64"
  shows "simple_loop (of_nat (length xs)) (xs @ rs) t
    = do { (rs', t') \<leftarrow> simple_serve rs t; Some (xs @ rs', t') }"
  using assms
proof (induction rs arbitrary: xs t)
  case Nil
  then have "unat (of_nat (length xs) :: u64) = length xs" by (simp add: unat_of_nat)
  then show ?case by (simp add: simple_loop.simps [of _ xs] prepare_def)
next
  case (Cons r rs)
  then have u: "unat (of_nat (length xs) :: u64) = length xs" by (simp add: unat_of_nat)
  show ?case
  proof (cases "simple_request r t")
    case None
    then show ?thesis using u by (simp add: simple_loop.simps [of _ "xs @ r # rs"] prepare_def request_at_def)
  next
    case (Some rt)
    then obtain r' t' where rt: "simple_request r t = Some (r', t')" by (cases rt) auto
    have "simple_loop (of_nat (length (xs @ [r']))) ((xs @ [r']) @ rs) t'
        = do { (rs', t') \<leftarrow> simple_serve rs t'; Some ((xs @ [r']) @ rs', t') }"
      by (rule Cons.IH) (use Cons.prems in simp)
    then show ?thesis
      using u rt by (cases "simple_serve rs t'")
        (auto simp: simple_loop.simps [of _ "xs @ r # rs"] prepare_def request_at_def add.commute)
  qed
qed

lemma simple_process_serve: "length rs < 2 ^ 64 \<Longrightarrow> simple_process rs t = simple_serve rs t"
  using simple_loop_serve [of "[]" rs t] by (cases "simple_serve rs t") (simp_all add: simple_process_def split_beta)

lemma simple_serve_append:
  "simple_serve (xs @ ys) t = do { (xs, t) \<leftarrow> simple_serve xs t; (ys, t) \<leftarrow> simple_serve ys t; Some (xs @ ys, t) }"
  by (induction xs arbitrary: t) (auto split: bind_splits prod.splits)

lemma simple_serve_length: "simple_serve rs t = Some (rs', t') \<Longrightarrow> length rs' = length rs"
  by (induction rs arbitrary: t rs') (auto split: bind_splits prod.splits)

lemma increment_counts: "ltable_increment h key d t = Some (res, out, t') \<Longrightarrow> (res = KSuccess) = (out \<noteq> None)"
  by (auto simp: ltable_increment_def Let_def split: bind_splits option.splits prod.splits if_splits)

text \<open>The length that is answered is that of the bytes written, or 0.\<close>

lemma simple_request_out:
  assumes "simple_request r t = Some (r', t')" "r_out_value r = []"
  shows "r_out_value_length r' \<in> {0, byte_len (r_out_value r')}"
proof (cases "r_operation r = KIncrement")
  case True
  then show ?thesis
    using assms
    by (auto simp: simple_request_def answer_def fill_out_def byte_len_def dest: increment_counts
      split: bind_splits if_splits prod.splits option.splits)
next
  case False
  then show ?thesis
    using assms
    by (cases "r_operation r") (auto simp: simple_request_def answer_def fill_out_def split: bind_splits prod.splits)
qed

end
