(* ===== verification/Partitions_Cache.thy ===== *)
theory Partitions_Cache
  imports Partitions_Owners L_Lossy Simple_Processor
begin

text \<open>
  Partitions of lossy tables, behind \<^verbatim>\<open>process\<close>, are one cache of the map of what was last
  set; with one partition they do what the processor with one table does; resets.
\<close>

section \<open>Partitions of lossy tables are one cache\<close>

text \<open>What a request asks of the table of its partition, and the reply to an answer.\<close>

definition bad_increment :: "request \<Rightarrow> bool" where
  "bad_increment r \<longleftrightarrow> byte_len (r_value r) \<noteq> 8 \<or> r_out_value_length r < 8"

definition request_op :: "bool \<Rightarrow> request \<Rightarrow> table_op option" where
  "request_op own r =
     (case r_operation r of
        KAdd \<Rightarrow> Some (Op_Set (r_key_hash r) (r_key r) (r_value r) False)
      | KSet \<Rightarrow> Some (Op_Set (r_key_hash r) (r_key r) (r_value r) True)
      | KGet \<Rightarrow> Some (Op_Get (r_key_hash r) (r_key r) (r_out_value_length r) own)
      | KTest \<Rightarrow> Some (Op_Test (r_key_hash r) (r_key r))
      | KDelete \<Rightarrow> Some (Op_Del (r_key_hash r) (r_key r))
      | KIncrement \<Rightarrow> if bad_increment r then None else Some (Op_Increment (r_key_hash r) (r_key r) (hd (r_value r)))
      | _ \<Rightarrow> None)"

fun respond :: "request \<Rightarrow> table_answer \<Rightarrow> request" where
  "respond r (Done res) = answer 0 res r"
| "respond r (Got res out) = answer (if res = KSuccess \<or> res = KPartialValue then byte_len out else 0) res (fill_out out r)"
| "respond r (Counted res out) =
     answer (if res = KSuccess then 8 else 0) res (case out of None \<Rightarrow> r | Some n \<Rightarrow> fill_out [n] r)"

text \<open>
  Which requests a core may have served: those for the partitions it owns, what only reads from tables
  that others may read, what writes to tables that others may write, and codes of no operation.
\<close>

definition owns :: "u16 \<Rightarrow> partitions \<Rightarrow> request \<Rightarrow> bool" where
  "owns c p r \<longleftrightarrow> pa_owner_lcore_ids p ! unat (get_partition_id (r_key_hash r) p) = c"

definition may_serve :: "u16 \<Rightarrow> partitions \<Rightarrow> request \<Rightarrow> bool" where
  "may_serve c p r \<longleftrightarrow> owns c p r
     \<or> pa_concurrent_read p \<and> r_operation r \<in> {KNoopRead, KGet, KTest}
     \<or> pa_concurrent_write p \<and> r_operation r \<in> {KReset, KNoopWrite, KAdd, KSet, KDelete, KIncrement}
     \<or> r_operation r \<in> range KOther"

text \<open>
  What a cache may answer to a request: a core that may not serve it rejects it; a request that asks
  nothing of the table has one answer; the others are answered from the map of what was last set and the
  keys that are not forgotten yet, which a set forgets in its own partition only.
\<close>

type_synonym cache = "kv_map \<times> kv_keys"

definition same_part :: "partitions \<Rightarrow> u64 \<times> u64 list \<Rightarrow> u64 \<times> u64 list \<Rightarrow> bool" where
  "same_part p x y \<longleftrightarrow> get_partition_id (fst x) p = get_partition_id (fst y) p"

definition explained :: "u16 \<Rightarrow> partitions \<Rightarrow> cache \<Rightarrow> request \<Rightarrow> request \<Rightarrow> cache \<Rightarrow> bool" where
  "explained c p s r r' s' \<longleftrightarrow>
     (if \<not> may_serve c p r then r' = answer 0 KRejected r \<and> s' = s
      else case request_op (owns c p r) r of
             None \<Rightarrow> r' = answer 0 (if r_operation r \<in> {KNoopRead, KNoopWrite} then KSuccess else KError) r \<and> s' = s
           | Some op \<Rightarrow> \<exists>a. lossy_allows (fst s) (snd s) op a \<and> r' = respond r a
               \<and> s' = (lossy_next (fst s) op a, lossy_keeps (same_part p) (snd s) op a))"

fun cache_replies :: "u16 \<Rightarrow> partitions \<Rightarrow> cache \<Rightarrow> request list \<Rightarrow> request list \<Rightarrow> cache \<Rightarrow> bool" where
  "cache_replies c p s [] [] s' \<longleftrightarrow> s' = s"
| "cache_replies c p s (r # rs) (r' # rs') s' \<longleftrightarrow> (\<exists>s1. explained c p s r r' s1 \<and> cache_replies c p s1 rs rs' s')"
| "cache_replies c p s rs rs' s' \<longleftrightarrow> False"

lemma explained_same: "same_setup p' p \<Longrightarrow> explained c p' = explained c p"
proof -
  assume s: "same_setup p' p"
  have "owns c p' = owns c p" "same_part p' = same_part p"
    by (intro ext; simp add: owns_def same_part_def same_setup_def [THEN iffD1, OF s] partition_id_same [OF s])+
  moreover from this(1) have "may_serve c p' = may_serve c p"
    by (intro ext) (simp add: may_serve_def same_setup_def [THEN iffD1, OF s])
  ultimately show ?thesis by (intro ext) (simp only: explained_def)
qed

lemma cache_replies_same: "same_setup p' p \<Longrightarrow> cache_replies c p' s rs rs' s' = cache_replies c p s rs rs' s'"
  by (induction c p s rs rs' s' rule: cache_replies.induct) (simp_all add: explained_same)

definition lossy_parts ::
  "nat \<Rightarrow> (u64 \<times> u64 list \<Rightarrow> nat) \<Rightarrow> nat \<Rightarrow> (u16 \<Rightarrow> kv_map) \<Rightarrow> (u16 \<Rightarrow> kv_keys) \<Rightarrow> partitions \<Rightarrow> bool" where
  "lossy_parts N vl n Ms Fs p \<longleftrightarrow> pa_partition_count p \<noteq> 0
     \<and> (\<forall>i<pa_partition_count p. unat i < length (pa_owner_lcore_ids p) \<and> unat i < length (pa_tables p)
          \<and> (\<exists>t. pa_tables p ! unat i = Some t \<and> lossy_inv N vl n (Ms i) (Fs i) t))
     \<and> (\<forall>st \<in> set (pa_load_stats p). unat (pa_partition_count p) \<le> length (ls_request_count st))"

lemma partition_id_less: "pa_partition_count p \<noteq> 0 \<Longrightarrow> get_partition_id h p < pa_partition_count p"
proof -
  assume n: "pa_partition_count p \<noteq> 0"
  let ?c = "ucast (pa_partition_count p) :: u64"
  have u: "unat ?c = unat (pa_partition_count p)"
    using unsigned_less [of "pa_partition_count p", where ?'a = nat] by (simp add: unat_ucast_mod)
  have "0 < unat (pa_partition_count p)" using n by (simp add: unat_gt_0)
  then have l: "unat (drop_bit 48 h) mod unat ?c < unat (pa_partition_count p)" using u by simp
  then have "unat (get_partition_id h p) = unat (drop_bit 48 h) mod unat ?c"
    using unsigned_less [of "pa_partition_count p", where ?'a = nat]
    by (simp add: get_partition_id_def unat_ucast_mod unat_mod)
  then show ?thesis using l by (simp add: word_less_nat_alt)
qed

lemma execute_op:
  assumes "request_op own r = Some op" "get_table (unat i) p = Some t" "table_step op t = Some (a, t')"
  shows "execute i own r p = Some (respond r a, put_table i t' p)"
  using assms
  by (cases "r_operation r")
    (auto simp: execute_def request_op_def bad_increment_def split: if_splits bind_splits prod.splits)

lemma lossy_inv_Suc: "lossy_inv N vl n M F t \<Longrightarrow> lossy_inv N vl (Suc n) M F t"
  unfolding lossy_inv_def by (elim exE, intro exI) auto

fun op_key :: "table_op \<Rightarrow> u64 \<times> u64 list" where
  "op_key (Op_Set h key v w) = (h, key)"
| "op_key (Op_Get h key n m) = (h, key)"
| "op_key (Op_Test h key) = (h, key)"
| "op_key (Op_Del h key) = (h, key)"
| "op_key (Op_Increment h key d) = (h, key)"

lemma lossy_allows_key:
  "M (op_key op) = M' (op_key op) \<Longrightarrow> (op_key op \<in> F) = (op_key op \<in> F')
    \<Longrightarrow> lossy_allows M F op a = lossy_allows M' F' op a"
  by (cases "(M, F, op, a)" rule: lossy_allows.cases) auto

lemma lossy_next_key:
  "x \<noteq> op_key op \<Longrightarrow> lossy_next M op a x = M x"
  "M (op_key op) = M' (op_key op) \<Longrightarrow> lossy_next M op a (op_key op) = lossy_next M' op a (op_key op)"
  by (cases "(M, op, a)" rule: lossy_next.cases; auto)+

text \<open>The maps and the keys of the partitions as those of one cache.\<close>

definition all_maps :: "partitions \<Rightarrow> (u16 \<Rightarrow> kv_map) \<Rightarrow> kv_map" where
  "all_maps p Ms = (\<lambda>(h, key). Ms (get_partition_id h p) (h, key))"

definition all_keys :: "partitions \<Rightarrow> (u16 \<Rightarrow> kv_keys) \<Rightarrow> kv_keys" where
  "all_keys p Fs = {x. x \<in> Fs (get_partition_id (fst x) p)}"

lemma all_maps_next:
  assumes "op_key op = (h, key)"
  shows "lossy_allows (all_maps p Ms) (all_keys p Fs) op a
      = lossy_allows (Ms (get_partition_id h p)) (Fs (get_partition_id h p)) op a"
    "lossy_next (all_maps p Ms) op a
      = all_maps p (Ms(get_partition_id h p := lossy_next (Ms (get_partition_id h p)) op a))"
    "lossy_keeps (same_part p) (all_keys p Fs) op a
      = all_keys p (Fs(get_partition_id h p := lossy_keeps (\<lambda>_ _. True) (Fs (get_partition_id h p)) op a))"
proof -
  let ?i = "get_partition_id h p"
  have eq: "all_maps p Ms (op_key op) = Ms ?i (op_key op)" by (simp add: assms all_maps_def)
  have eqk: "(op_key op \<in> all_keys p Fs) = (op_key op \<in> Fs ?i)" by (simp add: assms all_keys_def)
  show "lossy_allows (all_maps p Ms) (all_keys p Fs) op a = lossy_allows (Ms ?i) (Fs ?i) op a"
    using eq eqk by (rule lossy_allows_key)
  show "lossy_next (all_maps p Ms) op a = all_maps p (Ms(?i := lossy_next (Ms ?i) op a))"
  proof
    fix x :: "u64 \<times> u64 list"
    obtain h' key' where x: "x = (h', key')" by (cases x)
    show "lossy_next (all_maps p Ms) op a x = all_maps p (Ms(?i := lossy_next (Ms ?i) op a)) x"
    proof (cases "x = op_key op")
      case True
      then show ?thesis using lossy_next_key(2) [of "all_maps p Ms" op "Ms ?i" a] eq by (simp add: assms all_maps_def)
    next
      case False
      have "lossy_next (all_maps p Ms) op a x = Ms (get_partition_id h' p) x"
        using lossy_next_key(1) [OF False] by (simp add: x all_maps_def)
      moreover have "lossy_next (Ms ?i) op a x = Ms ?i x" using lossy_next_key(1) [OF False] .
      ultimately show ?thesis by (simp add: x all_maps_def)
    qed
  qed
  show "lossy_keeps (same_part p) (all_keys p Fs) op a
      = all_keys p (Fs(?i := lossy_keeps (\<lambda>_ _. True) (Fs ?i) op a))"
    using assms
    by (cases "(same_part p, all_keys p Fs, op, a)" rule: lossy_keeps.cases)
      (auto simp: all_keys_def same_part_def split: if_splits)
qed

lemma lossy_parts_recent: "lossy_parts N vl n Ms Fs (update_recent_key_hash c h p) = lossy_parts N vl n Ms Fs p"
  by (simp add: lossy_parts_def update_recent_key_hash_def)

lemma lossy_parts_Suc: "lossy_parts N vl n Ms Fs p \<Longrightarrow> lossy_parts N vl (Suc n) Ms Fs p"
  unfolding lossy_parts_def using lossy_inv_Suc by blast

lemma lossy_parts_put:
  assumes p: "lossy_parts N vl n Ms Fs p" and t: "lossy_inv N vl (Suc n) M F t"
  shows "lossy_parts N vl (Suc n) (Ms(i := M)) (Fs(i := F)) (put_table i t p)"
proof -
  have "\<exists>t'. (pa_tables p)[unat i := Some t] ! unat j = Some t' \<and> lossy_inv N vl (Suc n) ((Ms(i := M)) j) ((Fs(i := F)) j) t'"
    if "unat j < length (pa_tables p)" "\<exists>t. pa_tables p ! unat j = Some t \<and> lossy_inv N vl n (Ms j) (Fs j) t" for j
    using that t lossy_inv_Suc by (cases "j = i") (auto simp: word_unat_eq_iff)
  then show ?thesis using p by (simp add: lossy_parts_def put_table_def)
qed

lemma count_request_ok:
  assumes "lossy_parts N vl n Ms Fs p" "unat c < length (pa_load_stats p)" "i < pa_partition_count p"
  shows "\<exists>p'. count_request c i p = Some p' \<and> lossy_parts N vl n Ms Fs p' \<and> pa_tables p' = pa_tables p
    \<and> length (pa_load_stats p') = length (pa_load_stats p)"
proof -
  let ?st = "pa_load_stats p ! unat c"
  have "unat (pa_partition_count p) \<le> length (ls_request_count ?st)"
    using assms(1,2) nth_mem by (fastforce simp: lossy_parts_def)
  moreover have "unat i < unat (pa_partition_count p)" using assms(3) by (simp add: word_less_nat_alt)
  ultimately have i: "unat i < length (ls_request_count ?st)" by simp
  let ?p' = "p\<lparr>pa_load_stats := (pa_load_stats p)[unat c :=
    ?st\<lparr>ls_request_count := (ls_request_count ?st)[unat i := ls_request_count ?st ! unat i + 1]\<rparr>]\<rparr>"
  have "count_request c i p = Some ?p'" using assms(2) i by (simp add: count_request_def elem_at_def)
  moreover have "lossy_parts N vl n Ms Fs ?p'"
  proof -
    have "\<forall>st \<in> set (pa_load_stats ?p'). unat (pa_partition_count p) \<le> length (ls_request_count st)"
      using assms(1) \<open>unat (pa_partition_count p) \<le> length (ls_request_count ?st)\<close>
      by (auto simp: lossy_parts_def dest!: set_update_subset_insert [THEN subsetD])
    then show ?thesis using assms(1) by (simp add: lossy_parts_def)
  qed
  ultimately show ?thesis by (intro exI [of _ ?p']) simp
qed

lemma request_op_key: "request_op own r = Some op \<Longrightarrow> op_key op = (r_key_hash r, r_key r)"
  by (cases "r_operation r") (auto simp: request_op_def split: if_splits)

definition request_fits :: "nat \<Rightarrow> (u64 \<times> u64 list \<Rightarrow> nat) \<Rightarrow> request \<Rightarrow> bool" where
  "request_fits N vl r \<longleftrightarrow> r_operation r \<noteq> KReset \<and> length (r_key r) \<le> 31 \<and>
     (r_operation r \<in> {KAdd, KSet} \<longrightarrow> length (r_value r) \<le> 131071 \<and> 3 + length (r_key r) + length (r_value r) < N
        \<and> length (r_value r) = vl (r_key_hash r, r_key r))"

lemma request_op_fits: "request_fits N vl r \<Longrightarrow> request_op own r = Some op \<Longrightarrow> op_fits N vl op"
  by (cases "r_operation r") (auto simp: request_fits_def request_op_def split: if_splits)

lemma execute_ok:
  assumes p: "lossy_parts N vl n Ms Fs p" and f: "request_fits N vl r" and n: "n \<le> 2 ^ 42"
    and i: "i = get_partition_id (r_key_hash r) p" and ms: "may_serve c p r"
  shows "\<exists>r' p' Ms' Fs'. execute i (owns c p r) r p = Some (r', p')
    \<and> explained c p (all_maps p Ms, all_keys p Fs) r r' (all_maps p Ms', all_keys p Fs')
    \<and> lossy_parts N vl (Suc n) Ms' Fs' p' \<and> length (pa_load_stats p') = length (pa_load_stats p)"
proof -
  have il: "i < pa_partition_count p" unfolding i using p by (intro partition_id_less) (simp add: lossy_parts_def)
  then obtain t where t: "get_table (unat i) p = Some t" "lossy_inv N vl n (Ms i) (Fs i) t"
    using p by (auto simp: lossy_parts_def get_table_def elem_at_def)
  show ?thesis
  proof (cases "request_op (owns c p r) r")
    case (Some op)
    let ?keeps = "lossy_keeps (\<lambda>_ _. True) (Fs i) op"
    obtain a t' where a: "table_step op t = Some (a, t')" "lossy_allows (Ms i) (Fs i) op a"
      "lossy_inv N vl (Suc n) (lossy_next (Ms i) op a) (?keeps a) t'"
      using table_step_ok [OF t(2) request_op_fits [OF f Some] n] by blast
    note key = all_maps_next [OF request_op_key [OF Some], of p, folded i]
    have "explained c p (all_maps p Ms, all_keys p Fs) r (respond r a)
      (all_maps p (Ms(i := lossy_next (Ms i) op a)), all_keys p (Fs(i := ?keeps a)))"
      unfolding explained_def using Some a(2) ms key by auto
    then show ?thesis
      using execute_op [OF Some t(1) a(1)] lossy_parts_put [OF p a(3)]
      by (intro exI [of _ "respond r a"] exI [of _ "put_table i t' p"]) (auto simp: put_table_def)
  next
    case None
    have ne: "r_operation r \<noteq> KReset" using f by (simp add: request_fits_def)
    let ?r = "answer 0 (if r_operation r \<in> {KNoopRead, KNoopWrite} then KSuccess else KError) r"
    have "execute i (owns c p r) r p = Some (?r, p)"
      using None t(1) ne
      by (cases "r_operation r") (auto simp: request_op_def execute_def bad_increment_def split: if_splits)
    moreover have "explained c p s r ?r s" for s using None ms by (simp add: explained_def)
    ultimately show ?thesis using lossy_parts_Suc [OF p] by blast
  qed
qed

lemma accepts_may_serve:
  assumes "get_owner_lcore_id (unat (get_partition_id (r_key_hash r) p)) p = Some own"
  shows "accepts (r_operation r) (own = c) p \<longleftrightarrow> may_serve c p r" "owns c p r \<longleftrightarrow> own = c"
proof -
  show o: "owns c p r \<longleftrightarrow> own = c"
    using assms by (auto simp: owns_def get_owner_lcore_id_def elem_at_def split: if_splits)
  show "accepts (r_operation r) (own = c) p \<longleftrightarrow> may_serve c p r"
    unfolding may_serve_def o by (cases "r_operation r") (auto simp: accepts_def)
qed

lemma serve_one_ok:
  assumes p: "lossy_parts N vl n Ms Fs p" and f: "request_fits N vl r" and n: "n \<le> 2 ^ 42"
    and c: "unat c < length (pa_load_stats p)"
  shows "\<exists>r' p' Ms' Fs'. serve_one c r p = Some (r', p')
    \<and> explained c p (all_maps p Ms, all_keys p Fs) r r' (all_maps p Ms', all_keys p Fs')
    \<and> lossy_parts N vl (Suc n) Ms' Fs' p' \<and> length (pa_load_stats p') = length (pa_load_stats p)"
proof -
  let ?i = "get_partition_id (r_key_hash r) p"
  have il: "?i < pa_partition_count p" using p by (intro partition_id_less) (simp add: lossy_parts_def)
  then obtain own where own: "get_owner_lcore_id (unat ?i) p = Some own"
    using p by (auto simp: lossy_parts_def get_owner_lcore_id_def elem_at_def)
  note ms = accepts_may_serve [OF own, of c]
  have "\<exists>r' p' Ms' Fs'. process_request c ?i r p = Some (r', p')
    \<and> explained c p (all_maps p Ms, all_keys p Fs) r r' (all_maps p Ms', all_keys p Fs')
    \<and> lossy_parts N vl (Suc n) Ms' Fs' p' \<and> length (pa_load_stats p') = length (pa_load_stats p)"
  proof (cases "may_serve c p r")
    case False
    then have "process_request c ?i r p = Some (answer 0 KRejected r, p)" using own ms by (simp add: process_request_def)
    then show ?thesis using lossy_parts_Suc [OF p] False by (auto simp: explained_def)
  next
    case True
    obtain p1 where p1: "count_request c ?i p = Some p1" "lossy_parts N vl n Ms Fs p1" "pa_tables p1 = pa_tables p"
      "length (pa_load_stats p1) = length (pa_load_stats p)"
      using count_request_ok [OF p c il] by blast
    have s1: "same_setup p1 p" using count_request_same [OF p1(1)] .
    have i1: "?i = get_partition_id (r_key_hash r) p1" "all_maps p1 = all_maps p" "all_keys p1 = all_keys p"
      using partition_id_same [OF s1] by (simp_all add: all_maps_def [abs_def] all_keys_def [abs_def])
    have o1: "owns c p1 r = owns c p r" "may_serve c p1 r"
      using True s1 by (simp_all add: owns_def may_serve_def same_setup_def get_partition_id_def)
    obtain r' p' Ms' Fs' where "execute ?i (owns c p r) r p1 = Some (r', p')"
      "explained c p (all_maps p Ms, all_keys p Fs) r r' (all_maps p Ms', all_keys p Fs')"
      "lossy_parts N vl (Suc n) Ms' Fs' p'" "length (pa_load_stats p') = length (pa_load_stats p)"
      using execute_ok [OF p1(2) f n i1(1) o1(2)] unfolding i1(2,3) o1(1) explained_same [OF s1] p1(4) by blast
    moreover from this(1) have "process_request c ?i r p = Some (r', p')"
      using own True ms p1(1) by (simp add: process_request_def)
    ultimately show ?thesis by blast
  qed
  then obtain r' p' Ms' Fs' where o: "process_request c ?i r p = Some (r', p')"
    "explained c p (all_maps p Ms, all_keys p Fs) r r' (all_maps p Ms', all_keys p Fs')"
    "lossy_parts N vl (Suc n) Ms' Fs' p'" "length (pa_load_stats p') = length (pa_load_stats p)" by blast
  let ?p = "if kSkipPrefetchingForRecentKeyHashes (pa_config p') then update_recent_key_hash c (r_key_hash r) p' else p'"
  have "serve_one c r p = Some (r', ?p)" using o(1) by (simp add: serve_one_def)
  moreover have "lossy_parts N vl (Suc n) Ms' Fs' ?p" using o(3) by (simp add: lossy_parts_recent)
  moreover have "length (pa_load_stats ?p) = length (pa_load_stats p)" using o(4) by (simp add: update_recent_key_hash_def)
  ultimately show ?thesis using o(2) by blast
qed

lemma serve_ok:
  assumes "lossy_parts N vl n Ms Fs p" "\<forall>r \<in> set rs. request_fits N vl r" "n + length rs \<le> 2 ^ 42"
    "unat c < length (pa_load_stats p)"
  shows "\<exists>rs' p' Ms' Fs'. serve c rs p = Some (rs', p')
    \<and> cache_replies c p (all_maps p Ms, all_keys p Fs) rs rs' (all_maps p Ms', all_keys p Fs')
    \<and> lossy_parts N vl (n + length rs) Ms' Fs' p' \<and> length (pa_load_stats p') = length (pa_load_stats p)"
  using assms
proof (induction rs arbitrary: n Ms Fs p)
  case (Cons r rs)
  obtain r' p1 Ms1 Fs1 where o: "serve_one c r p = Some (r', p1)"
    "explained c p (all_maps p Ms, all_keys p Fs) r r' (all_maps p Ms1, all_keys p Fs1)"
    "lossy_parts N vl (Suc n) Ms1 Fs1 p1" "length (pa_load_stats p1) = length (pa_load_stats p)"
    using serve_one_ok [OF Cons.prems(1) _ _ Cons.prems(4), of r] Cons.prems(2,3) by auto
  have s1: "same_setup p1 p" using serve_one_same [OF o(1)] .
  have eq: "all_maps p1 = all_maps p" "all_keys p1 = all_keys p"
    using partition_id_same [OF s1] by (simp_all add: all_maps_def [abs_def] all_keys_def [abs_def])
  have "\<exists>rs' p' Ms' Fs'. serve c rs p1 = Some (rs', p')
    \<and> cache_replies c p1 (all_maps p1 Ms1, all_keys p1 Fs1) rs rs' (all_maps p1 Ms', all_keys p1 Fs')
    \<and> lossy_parts N vl (Suc n + length rs) Ms' Fs' p' \<and> length (pa_load_stats p') = length (pa_load_stats p1)"
    by (rule Cons.IH [OF o(3)]) (use Cons.prems o(4) in simp_all)
  then obtain rs' p' Ms' Fs' where "serve c rs p1 = Some (rs', p')"
    "cache_replies c p (all_maps p Ms1, all_keys p Fs1) rs rs' (all_maps p Ms', all_keys p Fs')"
    "lossy_parts N vl (Suc n + length rs) Ms' Fs' p'" "length (pa_load_stats p') = length (pa_load_stats p1)"
    unfolding eq cache_replies_same [OF s1] by blast
  then show ?case using o
    by (intro exI [of _ "r' # rs'"] exI [of _ p'] exI [of _ Ms'] exI [of _ Fs']) auto
qed auto

lemma owners_ok_cong:
  "pa_owner_lcore_ids p' = pa_owner_lcore_ids p \<Longrightarrow> pa_pending p' = pa_pending p \<Longrightarrow> owners_ok p' = owners_ok p"
  by (simp add: owners_ok_def)

lemma only_owners_sel:
  assumes "only_owners p' p"
  shows "pa_partition_count p' = pa_partition_count p" "pa_tables p' = pa_tables p" "pa_load_stats p' = pa_load_stats p"
  by (subst assms [unfolded only_owners_def], simp)+

lemma give_length: "length (fst (give c changes s)) = length (fst s)"
  by (induction c changes s rule: give.induct) (simp_all add: Let_def)

lemma lossy_parts_owners:
  assumes "lossy_parts N vl n Ms Fs p" "pa_partition_count p' = pa_partition_count p" "pa_tables p' = pa_tables p"
    "length (pa_owner_lcore_ids p') = length (pa_owner_lcore_ids p)"
    "map ls_request_count (pa_load_stats p') = map ls_request_count (pa_load_stats p)"
  shows "lossy_parts N vl n Ms Fs p'"
proof -
  have "ls_request_count ` set (pa_load_stats p') = ls_request_count ` set (pa_load_stats p)"
    using assms(5) by (metis list.set_map)
  then have "\<forall>st \<in> set (pa_load_stats p'). \<exists>st' \<in> set (pa_load_stats p). ls_request_count st = ls_request_count st'"
    by (metis imageE imageI)
  then show ?thesis using assms(1-4) unfolding lossy_parts_def by metis
qed

text \<open>
  C4. Partitions of lossy tables over circular logs, without \<^verbatim>\<open>kAutoStageGap\<close>, answer the batches given to
  \<^verbatim>\<open>process\<close> as one cache, up to \<open>2 ^ 42\<close> requests in all. The requests are any but \<^verbatim>\<open>kReset\<close>, with keys of at
  most 31 words, values that fit the log and values of one length for each key. Each request is answered in order:
  it is rejected if and only if the core may not serve it (\<open>may_serve\<close>: it does not own the partition, and
  others may not read, or write, the tables); otherwise its answer is the one that the map of all that
  was set before allows, where nothing that was set last in its partition may be missing
  (\<open>explained\<close>). The state is again one of a cache, with the map and the keys after the answers.
\<close>
theorem process_is_cache:
  assumes "lossy_parts N vl n Ms Fs p" "\<forall>r \<in> set rs. request_fits N vl r" "n + length rs \<le> 2 ^ 42"
    "length rs < 2 ^ 32 - 1" "owners_ok p" "unat c < length (pa_pending p)"
    "elem_at (pa_load_stats p) (unat c) = Some st" "ls_stage_gap st < 2 ^ 8" "\<not> kAutoStageGap (pa_config p)"
  shows "\<exists>rs' p' Ms' Fs'. process clock start_t now garbage c rs p = Some (rs', p')
    \<and> cache_replies c p (all_maps p Ms, all_keys p Fs) rs rs' (all_maps p' Ms', all_keys p' Fs')
    \<and> lossy_parts N vl (n + length rs) Ms' Fs' p' \<and> owners_ok p'"
proof -
  have c: "unat c < length (pa_load_stats p)" using assms(7) by (simp add: elem_at_def split: if_splits)
  obtain rs' p1 Ms' Fs' where s: "serve c rs p = Some (rs', p1)"
    "cache_replies c p (all_maps p Ms, all_keys p Fs) rs rs' (all_maps p Ms', all_keys p Fs')"
    "lossy_parts N vl (n + length rs) Ms' Fs' p1" "length (pa_load_stats p1) = length (pa_load_stats p)"
    using serve_ok [OF assms(1-3) c] by blast
  have same: "pa_owner_lcore_ids p1 = pa_owner_lcore_ids p" "pa_pending p1 = pa_pending p"
    "pa_partition_count p1 = pa_partition_count p"
    using serve_same [OF s(1)] by (simp_all add: same_setup_def)
  obtain p2 where p2: "add_processing_time c (now - start_t) p1 = Some p2" "pa_owner_lcore_ids p2 = pa_owner_lcore_ids p"
    "pa_pending p2 = pa_pending p" "pa_partition_count p2 = pa_partition_count p" "pa_tables p2 = pa_tables p1"
    "map ls_request_count (pa_load_stats p2) = map ls_request_count (pa_load_stats p1)"
    using c s(4) same by (auto simp: add_processing_time_def elem_at_def map_update map_update_same)
  have "owners_ok p2" using owners_ok_cong [OF p2(2,3)] assms(5) by simp
  then obtain p3 where p3: "apply_pending_owner_lcore_changes c p2 = Some p3" "owners_ok p3" "only_owners p3 p2"
    "(pa_owner_lcore_ids p3, queues p3) = give c (queues p2 ! unat c) (pa_owner_lcore_ids p2, (queues p2)[unat c := []])"
    using apply_pending_ok [of p2 c] assms(6) p2(3) by auto
  have p3_sel: "pa_partition_count p3 = pa_partition_count p2" "pa_tables p3 = pa_tables p2" "pa_load_stats p3 = pa_load_stats p2"
    using only_owners_sel [OF p3(3)] by simp_all
  have "length (pa_owner_lcore_ids p3) = length (pa_owner_lcore_ids p2)"
    using give_length [of c "queues p2 ! unat c" "(pa_owner_lcore_ids p2, (queues p2)[unat c := []])"] p3(4) [symmetric]
    by simp
  then have "lossy_parts N vl (n + length rs) Ms' Fs' p3"
    using lossy_parts_owners [OF s(3)] p2 p3_sel same by simp
  moreover have "all_maps p3 = all_maps p" "all_keys p3 = all_keys p"
    using p2(4) p3_sel(1) by (simp_all add: all_maps_def [abs_def] all_keys_def [abs_def] get_partition_id_def)
  moreover have "process clock start_t now garbage c rs p = Some (rs', p3)"
    using process_serve [OF assms(9,7,8,4)] s(1) p2(1) p3(1) by simp
  ultimately show ?thesis using s(2) p3(2) by auto
qed

definition one_partition :: "ltable \<Rightarrow> partitions" where
  "one_partition t = two_cores\<lparr>pa_partition_count := 1, pa_owner_lcore_ids := [0], pa_tables := [Some t]\<rparr>"

lemma one_partition_ok:
  "lossy_inv 8 (\<lambda>_. 1) 0 Map.empty {} t \<Longrightarrow> lossy_parts 8 (\<lambda>_. 1) 0 (\<lambda>_. Map.empty) (\<lambda>_. {}) (one_partition t)"
  "owners_ok (one_partition t)"
proof -
  show "lossy_inv 8 (\<lambda>_. 1) 0 Map.empty {} t \<Longrightarrow> lossy_parts 8 (\<lambda>_. 1) 0 (\<lambda>_. Map.empty) (\<lambda>_. {}) (one_partition t)"
    by (auto simp: lossy_parts_def one_partition_def two_cores_def)
  show "owners_ok (one_partition t)"
    using two_cores_ok by (simp add: owners_ok_def one_partition_def two_cores_def queue_contents_def ring_list_def new_queue_def)
qed

definition cache_batch :: "request list" where
  "cache_batch =
     [\<lparr>r_operation = KSet, r_key_hash = 5, r_key = [1], r_value = [10], r_out_value = [], r_out_value_length = 0, r_result = KError\<rparr>,
      \<lparr>r_operation = KGet, r_key_hash = 5, r_key = [1], r_value = [], r_out_value = [0], r_out_value_length = 8, r_result = KError\<rparr>]"

theorem process_is_cache_witness:
  "\<exists>p rs' p' Ms' Fs'. process (\<lambda>_. 0) 0 9 (\<lambda>_. 7) 0 cache_batch p = Some (rs', p')
    \<and> cache_replies 0 p (all_maps p (\<lambda>_. Map.empty), all_keys p (\<lambda>_. {})) cache_batch rs' (all_maps p' Ms', all_keys p' Fs')
    \<and> lossy_parts 8 (\<lambda>_. 1) (0 + length cache_batch) Ms' Fs' p' \<and> owners_ok p'"
proof -
  obtain t where t: "lossy_inv 8 (\<lambda>_. 1) 0 Map.empty {} t"
    using lossy_setup_inv [OF small_setup, where vl = "\<lambda>_. 1"] unfolding small_size by blast
  show ?thesis
    by (rule exI [of _ "one_partition t"], rule process_is_cache [OF one_partition_ok(1) [OF t] _ _ _ one_partition_ok(2)])
      (auto simp: cache_batch_def request_fits_def one_partition_def two_cores_def elem_at_def BasicPartitionsConfig_def)
qed

section \<open>The processor with one table\<close>

lemma put_same_table:
  assumes "get_table 0 p = Some t"
  shows "put_table 0 t p = p"
proof -
  have "pa_tables p ! 0 = Some t" using assms by (auto simp: get_table_def elem_at_def split: if_splits)
  then have "(pa_tables p)[0 := Some t] = pa_tables p" by (metis list_update_id)
  then show ?thesis by (cases p) (simp add: put_table_def)
qed

lemma only_owners_tables: "only_owners p' p \<Longrightarrow> pa_tables p' = pa_tables p"
  unfolding only_owners_def by (drule arg_cong [where f = pa_tables]) simp

lemma apply_pending_tables:
  assumes "owners_ok p" "unat c < length (pa_pending p)"
  shows "\<exists>p'. apply_pending_owner_lcore_changes c p = Some p' \<and> pa_tables p' = pa_tables p"
proof (cases "approximate_empty (pa_pending p ! unat c)")
  case True
  then show ?thesis using assms(2) by (simp add: apply_pending_owner_lcore_changes_def elem_at_def)
next
  case False
  then show ?thesis using apply_changes_ok [OF assms] only_owners_tables assms(2)
    by (auto simp: apply_pending_owner_lcore_changes_def elem_at_def)
qed

lemma simple_execute:
  assumes "r_operation r \<noteq> KReset" "get_table 0 p = Some t"
  shows "execute 0 True r p = do { (r', t') \<leftarrow> simple_request r t; Some (r', put_table 0 t' p) }"
  using assms put_same_table [OF assms(2)]
  by (cases "r_operation r") (auto simp: execute_def simple_request_def split_beta split: bind_splits)

lemma simple_request_op:
  assumes "request_op True r = Some op" "table_step op t = Some (a, t')"
  shows "simple_request r t = Some (respond r a, t')"
  using assms
  by (cases "r_operation r")
    (auto simp: simple_request_def request_op_def bad_increment_def split: if_splits bind_splits prod.splits)

text \<open>On a lossy table the processor returns.\<close>

lemma simple_process_returns:
  assumes "lossy_inv N vl n M F t" "\<forall>r \<in> set rs. request_fits N vl r" "n + length rs \<le> 2 ^ 42"
  shows "\<exists>rs' t' M' F'. simple_process rs t = Some (rs', t') \<and> lossy_inv N vl (n + length rs) M' F' t'"
proof -
  have one: "\<exists>r' t' M' F'. simple_request r t = Some (r', t') \<and> lossy_inv N vl (Suc n) M' F' t'"
    if "lossy_inv N vl n M F t" "request_fits N vl r" "n \<le> 2 ^ 42" for n M F t r
  proof (cases "request_op True r")
    case (Some op)
    then show ?thesis
      using table_step_ok [OF that(1) request_op_fits [OF that(2) Some] that(3)] simple_request_op [OF Some] by blast
  next
    case None
    have "r_operation r \<noteq> KReset" using that(2) by (simp add: request_fits_def)
    then have "\<exists>r'. simple_request r t = Some (r', t)"
      using None by (cases "r_operation r") (auto simp: request_op_def bad_increment_def simple_request_def split: if_splits)
    then show ?thesis using lossy_inv_Suc [OF that(1)] by blast
  qed
  have "\<exists>rs' t' M' F'. simple_serve rs t = Some (rs', t') \<and> lossy_inv N vl (n + length rs) M' F' t'"
    using assms
  proof (induction rs arbitrary: n M F t)
    case (Cons r rs)
    obtain r' t1 M1 F1 where o: "simple_request r t = Some (r', t1)" "lossy_inv N vl (Suc n) M1 F1 t1"
      using one [OF Cons.prems(1), of r] Cons.prems(2,3) by auto
    then show ?case using Cons.IH [OF o(2)] Cons.prems(2,3) by fastforce
  qed auto
  then show ?thesis using assms(3) by (simp add: simple_process_serve)
qed

definition sole_owner :: "u16 \<Rightarrow> partitions \<Rightarrow> bool" where
  "sole_owner c p \<longleftrightarrow> pa_partition_count p = 1 \<and> get_owner_lcore_id 0 p = Some c
     \<and> (\<exists>st. elem_at (pa_load_stats p) (unat c) = Some st \<and> ls_request_count st \<noteq> [])"

lemma sole_owner_accepts: "accepts op True p"
  by (cases op) (simp_all add: accepts_def)

lemma sole_owner_count:
  assumes "sole_owner c p"
  shows "\<exists>p'. count_request c 0 p = Some p' \<and> sole_owner c p' \<and> pa_tables p' = pa_tables p"
  using assms
  by (auto simp: sole_owner_def count_request_def elem_at_def get_owner_lcore_id_def split: if_splits)

lemma sole_owner_put: "sole_owner c (put_table i t p) = sole_owner c p"
  by (simp add: sole_owner_def put_table_def get_owner_lcore_id_def)

lemma sole_owner_recent: "sole_owner c (update_recent_key_hash l h p) = sole_owner c p"
  by (simp add: sole_owner_def update_recent_key_hash_def get_owner_lcore_id_def)

lemma serve_simple:
  assumes "sole_owner c p" "get_table 0 p = Some t" "\<forall>r \<in> set rs. r_operation r \<noteq> KReset"
  shows "map_option (map_prod id (get_table 0)) (serve c rs p) = map_option (map_prod id Some) (simple_serve rs t)"
  using assms
proof (induction rs arbitrary: p t)
  case (Cons r rs)
  have id: "get_partition_id h p = 0" for h using Cons.prems(1) by (simp add: sole_owner_def get_partition_id_def)
  obtain p1 where p1: "count_request c 0 p = Some p1" "sole_owner c p1" "pa_tables p1 = pa_tables p"
    using sole_owner_count [OF Cons.prems(1)] by blast
  have t1: "get_table 0 p1 = Some t" using Cons.prems(2) p1(3) by (simp add: get_table_def)
  have pr: "process_request c 0 r p = do { (r', t') \<leftarrow> simple_request r t; Some (r', put_table 0 t' p1) }"
    using Cons.prems(1,3) p1(1) simple_execute [OF _ t1, of r] sole_owner_accepts
    by (simp add: process_request_def sole_owner_def)
  show ?case
  proof (cases "simple_request r t")
    case None
    then show ?thesis by (simp add: serve_one_def id pr)
  next
    case (Some rt)
    then obtain r' t' where rt: "simple_request r t = Some (r', t')" by (cases rt) auto
    define p2 where "p2 = (if kSkipPrefetchingForRecentKeyHashes (pa_config (put_table 0 t' p1))
      then update_recent_key_hash c (r_key_hash r) (put_table 0 t' p1) else put_table 0 t' p1)"
    have p2: "sole_owner c p2" "get_table 0 p2 = Some t'"
    proof -
      show "sole_owner c p2" using p1(2) by (simp add: p2_def sole_owner_put sole_owner_recent)
      show "get_table 0 p2 = Some t'"
        using t1 by (auto simp: p2_def get_table_def put_table_def update_recent_key_hash_def elem_at_def split: if_splits)
    qed
    have one: "serve_one c r p = Some (r', p2)" by (simp add: serve_one_def id pr rt p2_def)
    have "map_option (map_prod id (get_table 0)) (serve c rs p2) = map_option (map_prod id Some) (simple_serve rs t')"
      by (rule Cons.IH [OF p2]) (use Cons.prems(3) in simp)
    then show ?thesis using one rt by (cases "serve c rs p2"; cases "simple_serve rs t'") auto
  qed
qed simp

text \<open>
  C22. With one partition, owned by the core that serves the requests, and without \<^verbatim>\<open>kAutoStageGap\<close>,
  \<^verbatim>\<open>Partitions::process\<close> gives the replies and leaves the table of \<^verbatim>\<open>SimpleProcessor::process\<close>
  for a batch of fewer than \<open>2 ^ 32 - 1\<close> requests with no \<^verbatim>\<open>kReset\<close> among them. (A reset runs through pointers
  that were never set, \<open>reset_never_succeeds\<close>, and a gap that changes during the loop can lose
  or repeat requests.)
\<close>
theorem partitions_simple:
  assumes "sole_owner c p" "get_table 0 p = Some t" "\<forall>r \<in> set rs. r_operation r \<noteq> KReset"
    and "owners_ok p" "unat c < length (pa_pending p)" "elem_at (pa_load_stats p) (unat c) = Some st"
    and "ls_stage_gap st < 2 ^ 8" "\<not> kAutoStageGap (pa_config p)" "length rs < 2 ^ 32 - 1"
  shows "map_option (map_prod id (get_table 0)) (process clock start_t now garbage c rs p)
    = map_option (map_prod id Some) (simple_process rs t)"
proof -
  have sv: "map_option (map_prod id (get_table 0)) (serve c rs p) = map_option (map_prod id Some) (simple_process rs t)"
    using serve_simple [OF assms(1-3)] simple_process_serve [of rs t] assms(9) by simp
  show ?thesis
  proof (cases "serve c rs p")
    case None
    then show ?thesis using sv process_serve [OF assms(8,6,7,9)] by simp
  next
    case (Some rp)
    then obtain rs' p1 where s: "serve c rs p = Some (rs', p1)" by (cases rp) auto
    have same: "pa_owner_lcore_ids p1 = pa_owner_lcore_ids p" "pa_pending p1 = pa_pending p"
      "length (map ls_stage_gap (pa_load_stats p1)) = length (map ls_stage_gap (pa_load_stats p))"
      using serve_same [OF s] by (simp_all add: same_setup_def)
    obtain p2 where p2: "add_processing_time c (now - start_t) p1 = Some p2" "pa_owner_lcore_ids p2 = pa_owner_lcore_ids p"
      "pa_pending p2 = pa_pending p" "pa_tables p2 = pa_tables p1"
      using assms(6) same by (auto simp: add_processing_time_def elem_at_def split: if_splits)
    have "owners_ok p2" using owners_ok_cong [OF p2(2,3)] assms(4) by simp
    then obtain p3 where p3: "apply_pending_owner_lcore_changes c p2 = Some p3" "pa_tables p3 = pa_tables p2"
      using apply_pending_tables [of p2 c] assms(5) p2(3) by auto
    have "process clock start_t now garbage c rs p = Some (rs', p3)"
      using process_serve [OF assms(8,6,7,9)] s p2(1) p3(1) by simp
    then show ?thesis using sv s p3(2) p2(4) by (simp add: get_table_def)
  qed
qed

lemma one_partition_sole: "sole_owner 0 (one_partition t)"
  by (simp add: sole_owner_def one_partition_def two_cores_def get_owner_lcore_id_def elem_at_def)

theorem process_sequential_witness:
  "process (\<lambda>_. 0) 0 9 (\<lambda>_. 7) 0
      [\<lparr>r_operation = KSet, r_key_hash = 5, r_key = [1], r_value = [10], r_out_value = [], r_out_value_length = 0, r_result = KError\<rparr>]
      (one_partition small_table) =
    do {
      (rs', p') \<leftarrow> serve 0 [\<lparr>r_operation = KSet, r_key_hash = 5, r_key = [1], r_value = [10], r_out_value = [],
        r_out_value_length = 0, r_result = KError\<rparr>] (one_partition small_table);
      p' \<leftarrow> add_processing_time 0 (9 - 0) p';
      p' \<leftarrow> apply_pending_owner_lcore_changes 0 p';
      Some (rs', p')
    }"
  by (rule process_sequential [where st = "pa_load_stats two_cores ! 0"])
    (simp_all add: one_partition_def two_cores_def BasicPartitionsConfig_def elem_at_def)

theorem partitions_simple_witness:
  "map_option (map_prod id (get_table 0)) (process (\<lambda>_. 0) 0 9 (\<lambda>_. 7) 0
      [\<lparr>r_operation = KSet, r_key_hash = 5, r_key = [1], r_value = [10], r_out_value = [], r_out_value_length = 0, r_result = KError\<rparr>,
       \<lparr>r_operation = KGet, r_key_hash = 5, r_key = [1], r_value = [], r_out_value = [0], r_out_value_length = 8, r_result = KError\<rparr>]
      (one_partition small_table))
    = map_option (map_prod id Some) (simple_process
      [\<lparr>r_operation = KSet, r_key_hash = 5, r_key = [1], r_value = [10], r_out_value = [], r_out_value_length = 0, r_result = KError\<rparr>,
       \<lparr>r_operation = KGet, r_key_hash = 5, r_key = [1], r_value = [], r_out_value = [0], r_out_value_length = 8, r_result = KError\<rparr>]
      small_table)"
proof (rule partitions_simple [OF one_partition_sole _ _ one_partition_ok(2)])
  show "elem_at (pa_load_stats (one_partition small_table)) (unat (0 :: u16)) = Some (pa_load_stats two_cores ! 0)"
    by (simp add: one_partition_def two_cores_def elem_at_def)
qed (simp_all add: one_partition_def two_cores_def BasicPartitionsConfig_def get_table_def elem_at_def)

section \<open>Resets\<close>

lemma initialize_tables:
  assumes "initialize new_table ts ti n i l p = Some p'" "i + n \<le> j"
  shows "length (pa_tables p') = length (pa_tables p)" "j < length (pa_tables p) \<Longrightarrow> pa_tables p' ! j = pa_tables p ! j"
    "length (pa_owner_lcore_ids p') = length (pa_owner_lcore_ids p)"
proof -
  have "length (pa_tables p') = length (pa_tables p) \<and> (j < length (pa_tables p) \<longrightarrow> pa_tables p' ! j = pa_tables p ! j)
    \<and> length (pa_owner_lcore_ids p') = length (pa_owner_lcore_ids p)"
    using assms
  proof (induction n arbitrary: i l p)
    case (Suc n)
    then obtain c t where ct: "initialize new_table ts ti n (Suc i) ((l + 1) mod length (pa_lcores p))
        (p\<lparr>pa_owner_lcore_ids := (pa_owner_lcore_ids p)[i := c], pa_tables := (pa_tables p)[i := Some t]\<rparr>) = Some p'"
      by (auto simp: Let_def split: bind_splits)
    have "Suc i + n \<le> j" "i \<noteq> j" using Suc.prems(2) by simp_all
    then show ?case using Suc.IH [OF ct] by simp
  qed simp
  then show "length (pa_tables p') = length (pa_tables p)" "j < length (pa_tables p) \<Longrightarrow> pa_tables p' ! j = pa_tables p ! j"
    "length (pa_owner_lcore_ids p') = length (pa_owner_lcore_ids p)" by simp_all
qed

lemma reset_tables_None: "None \<in> set ts \<Longrightarrow> reset_tables ts = None"
  by (induction ts) (auto split: bind_splits)

lemma reset_fails:
  assumes "r_operation r = KReset" "None \<in> set (pa_tables p)" "unat i < length (pa_owner_lcore_ids p)"
  shows "process_request c i r p =
    (if pa_concurrent_write p \<or> pa_owner_lcore_ids p ! unat i = c then None else Some (answer 0 KRejected r, p))"
proof -
  have "execute i own r p' = None" if "pa_tables p' = pa_tables p" for own p'
    using assms that reset_tables_None by (auto simp: execute_def split: bind_splits)
  moreover have "pa_tables p' = pa_tables p" if "count_request c i p = Some p'" for p'
    using that by (auto simp: count_request_def elem_at_def split: if_splits bind_splits)
  ultimately show ?thesis using assms(1,3)
    by (cases "count_request c i p")
      (simp_all add: process_request_def Let_def get_owner_lcore_id_def elem_at_def accepts_def)
qed

lemma partitions_new_tables:
  assumes "partitions_new cfg lcores n sz items cr cw gap target new_table = Some p" "unat (safe_cast_u16 n) < kMaxPartitionCount"
  shows "None \<in> set (pa_tables p)" "length (pa_owner_lcore_ids p) = kMaxPartitionCount"
proof -
  let ?n = "unat (safe_cast_u16 n)"
  note i = initialize_tables [OF assms(1) [unfolded partitions_new_def Let_def], of ?n]
  have "length (pa_tables p) = kMaxPartitionCount" "pa_tables p ! ?n = None" using i(1,2) assms(2) by simp_all
  then show "None \<in> set (pa_tables p)" using assms(2) by (metis nth_mem)
  show "length (pa_owner_lcore_ids p) = kMaxPartitionCount" using i(3) by simp
qed

text \<open>
  A reset never succeeds: after the construction with fewer partitions than the array of
  tables has room for, every \<^verbatim>\<open>kReset\<close> that is not rejected goes on to the pointers that were
  never set, the owner's own included.
\<close>
theorem reset_never_succeeds:
  assumes "partitions_new cfg lcores n sz items cr cw gap target new_table = Some p"
    "unat (safe_cast_u16 n) < kMaxPartitionCount" "r_operation r = KReset" "unat i < kMaxPartitionCount"
  shows "process_request c i r p =
    (if pa_concurrent_write p \<or> pa_owner_lcore_ids p ! unat i = c then None else Some (answer 0 KRejected r, p))"
  by (rule reset_fails [OF assms(3) partitions_new_tables(1) [OF assms(1,2)]])
    (use partitions_new_tables(2) [OF assms(1,2)] assms(4) in simp)

theorem reset_never_succeeds_witness:
  "\<exists>p. process_request 0 0 \<lparr>r_operation = KReset, r_key_hash = 5, r_key = [1], r_value = [], r_out_value = [],
      r_out_value_length = 0, r_result = KError\<rparr> p
    = (if pa_concurrent_write p \<or> pa_owner_lcore_ids p ! unat (0 :: u16) = 0 then None
      else Some (answer 0 KRejected \<lparr>r_operation = KReset, r_key_hash = 5, r_key = [1], r_value = [], r_out_value = [],
        r_out_value_length = 0, r_result = KError\<rparr>, p))"
proof -
  have one: "safe_cast_u16 1 = 1" by (simp add: safe_cast_u16_def)
  obtain p where p: "partitions_new BasicPartitionsConfig [0, 1] 1 100 10 False False 2 0 (\<lambda>_ _. Some small_table) = Some p"
    unfolding partitions_new_def Let_def one by (simp add: elem_at_def)
  show ?thesis by (rule exI [of _ p], rule reset_never_succeeds [OF p]) (simp_all add: safe_cast_u16_def kMaxPartitionCount_def)
qed

end
