(* ===== verification/Datagram_Protocol.thy ===== *)
theory Datagram_Protocol
  imports Partitions
begin

text \<open>
  The packets of \<^verbatim>\<open>mica/datagram/datagram_protocol.h\<close>: a batch of requests or responses behind
  an Ethernet, an IPv4 and a UDP header. A packet is its bytes, a pointer into it the offset
  from \<^verbatim>\<open>get_data()\<close>; fields are little endian unless the code swaps them. \<open>enso\<close> tells whether
  \<^verbatim>\<open>USE_ENSO\<close> is defined. A read or a write outside the buffer has the result \<^const>\<open>None\<close>.
\<close>

section \<open>Bytes\<close>

fun le_bytes :: "nat \<Rightarrow> 'a::len word \<Rightarrow> u8 list" where
  "le_bytes 0 x = []"
| "le_bytes (Suc n) x = ucast x # le_bytes n (drop_bit 8 x)"

fun le_word :: "u8 list \<Rightarrow> 'a::len word" where
  "le_word [] = 0"
| "le_word (b # bs) = ucast b OR push_bit 8 (le_word bs)"

definition get_bytes :: "nat \<Rightarrow> nat \<Rightarrow> u8 list \<Rightarrow> u8 list option" where
  "get_bytes offset n data = (if offset + n \<le> length data then Some (take n (drop offset data)) else None)"

definition put_bytes :: "nat \<Rightarrow> u8 list \<Rightarrow> u8 list \<Rightarrow> u8 list option" where
  "put_bytes offset bs data =
     (if offset + length bs \<le> length data
      then Some (take offset data @ bs @ drop (offset + length bs) data) else None)"

definition get_word :: "nat \<Rightarrow> u8 list \<Rightarrow> 'a::len word option" where
  "get_word offset data = map_option le_word (get_bytes offset (LENGTH('a) div 8) data)"

definition put_word :: "nat \<Rightarrow> 'a::len word \<Rightarrow> u8 list \<Rightarrow> u8 list option" where
  "put_word offset x data = put_bytes offset (le_bytes (LENGTH('a) div 8) x) data"

text \<open>\<^verbatim>\<open>rte_cpu_to_be_16\<close> and \<^verbatim>\<open>rte_be_to_cpu_16\<close> on a little endian machine.\<close>

definition swap16 :: "u16 \<Rightarrow> u16" where
  "swap16 x = push_bit 8 x OR drop_bit 8 x"

section \<open>The layout of a packet\<close>

definition ether_hdr_size :: nat where "ether_hdr_size = 14"

definition ipv4_hdr_size :: nat where "ipv4_hdr_size = 20"

definition udp_hdr_size :: nat where "udp_hdr_size = 8"

definition batch_header_size :: nat where
  "batch_header_size = ether_hdr_size + ipv4_hdr_size + udp_hdr_size + 6"

definition request_header_size :: nat where "request_header_size = 24"

definition ether_max_len :: nat where "ether_max_len = 1518"

definition ether_crc_len :: nat where "ether_crc_len = 4"

definition kMaxPacketValueLength :: u16 where
  "kMaxPacketValueLength = of_nat (ether_max_len - ether_crc_len - batch_header_size - request_header_size)"

fun operation_code :: "operation \<Rightarrow> u8" where
  "operation_code KReset = 0"
| "operation_code KNoopRead = 1"
| "operation_code KNoopWrite = 2"
| "operation_code KAdd = 3"
| "operation_code KSet = 4"
| "operation_code KGet = 5"
| "operation_code KTest = 6"
| "operation_code KDelete = 7"
| "operation_code KIncrement = 8"
| "operation_code (KOther code) = code"

fun result_code :: "result \<Rightarrow> u8" where
  "result_code KSuccess = 0"
| "result_code KError = 1"
| "result_code KInsufficientSpace = 2"
| "result_code KExists = 3"
| "result_code KNotFound = 4"
| "result_code KPartialValue = 5"
| "result_code KNotProcessed = 6"
| "result_code KNotSupported = 7"
| "result_code KTimedOut = 8"
| "result_code KRejected = 9"

text \<open>A packet: the bytes of its buffer, and the length that the buffer was given.\<close>

type_synonym packet = "u8 list \<times> u16"

section \<open>\<^verbatim>\<open>RequestBatchReader\<close>\<close>

record reader =
  rd_data :: "u8 list"
  rd_buf_length :: u16
  rd_total_length :: u16
  rd_h :: "nat option"

definition reader_new :: "u8 list \<Rightarrow> u16 \<Rightarrow> reader" where
  "reader_new data len = \<lparr>rd_data = data, rd_buf_length = len, rd_total_length = 0, rd_h = None\<rparr>"

definition valid_headers :: "bool \<Rightarrow> reader \<Rightarrow> (bool \<times> reader) option" where
  "valid_headers enso r =
     do {
       let data = rd_data r;
       ether_type \<leftarrow> (get_word 12 data :: u16 option);
       version_ihl \<leftarrow> (get_word 14 data :: u8 option);
       packet_id \<leftarrow> (get_word 18 data :: u16 option);
       fragment_offset \<leftarrow> (get_word 20 data :: u16 option);
       ip_total_length \<leftarrow> (get_word 16 data :: u16 option);
       next_proto_id \<leftarrow> (get_word 23 data :: u8 option);
       dgram_len \<leftarrow> (get_word 38 data :: u16 option);
       magic \<leftarrow> (get_word 42 data :: u8 option);
       let ip_length = swap16 ip_total_length;
       if ether_type \<noteq> swap16 0x0800 then Some (False, r)
       else if version_ihl \<noteq> 0x40 OR 0x05 then Some (False, r)
       else if packet_id \<noteq> 0 \<or> fragment_offset \<noteq> 0 then Some (False, r)
       else do {
         let r = (if enso then r\<lparr>rd_total_length := ip_length + of_nat ether_hdr_size\<rparr> else r);
         if \<not> enso \<and> (ucast ip_length :: u64) \<noteq> ucast (rd_total_length r) - of_nat ether_hdr_size then Some (False, r)
         else if next_proto_id \<noteq> 17 then Some (False, r)
         else if (ucast (swap16 dgram_len) :: u64) \<noteq> ucast ip_length - of_nat ipv4_hdr_size then Some (False, r)
         else Some (magic = 0x78 \<or> magic = 0x79, r)
       }
     }"

definition is_valid :: "bool \<Rightarrow> reader \<Rightarrow> (bool \<times> reader) option" where
  "is_valid enso r =
     (if enso then valid_headers enso r
      else let r = r\<lparr>rd_total_length := rd_buf_length r\<rparr>
        in if unat (rd_total_length r) < batch_header_size then Some (False, r) else valid_headers enso r)"

definition get_src_mac_addr :: "reader \<Rightarrow> u8 list option" where
  "get_src_mac_addr r = get_bytes 6 6 (rd_data r)"

definition get_dest_mac_addr :: "reader \<Rightarrow> u8 list option" where
  "get_dest_mac_addr r = get_bytes 0 6 (rd_data r)"

definition get_src_ipv4_addr :: "reader \<Rightarrow> u32 option" where
  "get_src_ipv4_addr r = get_word 26 (rd_data r)"

definition get_dest_ipv4_addr :: "reader \<Rightarrow> u32 option" where
  "get_dest_ipv4_addr r = get_word 30 (rd_data r)"

definition get_src_udp_port :: "reader \<Rightarrow> u16 option" where
  "get_src_udp_port r = get_word 34 (rd_data r)"

definition get_dest_udp_port :: "reader \<Rightarrow> u16 option" where
  "get_dest_udp_port r = get_word 36 (rd_data r)"

definition is_request :: "reader \<Rightarrow> bool option" where
  "is_request r = map_option (\<lambda>magic. magic = (0x78 :: u8)) (get_word 42 (rd_data r))"

definition is_response :: "reader \<Rightarrow> bool option" where
  "is_response r = map_option (\<lambda>magic. magic = (0x79 :: u8)) (get_word 42 (rd_data r))"

definition get_operation :: "reader \<Rightarrow> u8 option" where
  "get_operation r = do { h \<leftarrow> rd_h r; get_word h (rd_data r) }"

definition get_result :: "reader \<Rightarrow> u8 option" where
  "get_result r = do { h \<leftarrow> rd_h r; get_word (h + 1) (rd_data r) }"

definition get_opaque :: "reader \<Rightarrow> u32 option" where
  "get_opaque r = do { h \<leftarrow> rd_h r; get_word (h + 16) (rd_data r) }"

definition get_key_hash :: "reader \<Rightarrow> u64 option" where
  "get_key_hash r = do { h \<leftarrow> rd_h r; get_word (h + 8) (rd_data r) }"

definition reader_key_length :: "reader \<Rightarrow> u64 option" where
  "reader_key_length r = do { h \<leftarrow> rd_h r; kv \<leftarrow> (get_word (h + 4) (rd_data r) :: u32 option); Some (ucast (drop_bit 24 kv)) }"

definition reader_value_length :: "reader \<Rightarrow> u64 option" where
  "reader_value_length r =
     do { h \<leftarrow> rd_h r; kv \<leftarrow> (get_word (h + 4) (rd_data r) :: u32 option); Some (ucast (kv AND (push_bit 24 1 - 1))) }"

definition get_key :: "reader \<Rightarrow> nat option" where
  "get_key r = do { h \<leftarrow> rd_h r; Some (h + request_header_size) }"

definition get_value :: "reader \<Rightarrow> nat option" where
  "get_value r = do { k \<leftarrow> get_key r; n \<leftarrow> reader_key_length r; Some (k + unat (roundup 8 n)) }"

text \<open>The offset behind the request the reader is at.\<close>

definition request_end :: "reader \<Rightarrow> nat option" where
  "request_end r =
     do {
       h \<leftarrow> rd_h r;
       key_length \<leftarrow> reader_key_length r;
       value_length \<leftarrow> reader_value_length r;
       Some (h + request_header_size + unat (roundup 8 key_length) + unat (roundup 8 value_length))
     }"

definition find_next :: "reader \<Rightarrow> (bool \<times> reader) option" where
  "find_next r =
     do {
       h \<leftarrow> (case rd_h r of None \<Rightarrow> Some batch_header_size | Some _ \<Rightarrow> request_end r);
       let r = r\<lparr>rd_h := Some h\<rparr>;
       if h + request_header_size > unat (rd_total_length r) then Some (False, r)
       else do {
         e \<leftarrow> request_end r;
         Some (e \<le> unat (rd_total_length r), r)
       }
     }"

section \<open>\<^verbatim>\<open>RequestBatchBuilder\<close>\<close>

record builder =
  bd_data :: "u8 list"
  bd_buf_length :: u16
  bd_h :: nat
  bd_remaining_space :: u16
  bd_count :: u16

definition builder_new :: "u8 list \<Rightarrow> u16 \<Rightarrow> builder" where
  "builder_new data len = \<lparr>bd_data = data, bd_buf_length = len, bd_h = batch_header_size,
     bd_remaining_space = kMaxPacketValueLength, bd_count = 0\<rparr>"

definition put_data :: "nat \<Rightarrow> u8 list \<Rightarrow> builder \<Rightarrow> builder option" where
  "put_data offset bs b = do { data \<leftarrow> put_bytes offset bs (bd_data b); Some (b\<lparr>bd_data := data\<rparr>) }"

definition put_field :: "nat \<Rightarrow> 'a::len word \<Rightarrow> builder \<Rightarrow> builder option" where
  "put_field offset x b = do { data \<leftarrow> put_word offset x (bd_data b); Some (b\<lparr>bd_data := data\<rparr>) }"

definition set_src_mac_addr :: "u8 list \<Rightarrow> builder \<Rightarrow> builder option" where
  "set_src_mac_addr v b = put_data 6 v b"

definition set_dest_mac_addr :: "u8 list \<Rightarrow> builder \<Rightarrow> builder option" where
  "set_dest_mac_addr v b = put_data 0 v b"

definition set_src_ipv4_addr :: "u32 \<Rightarrow> builder \<Rightarrow> builder option" where
  "set_src_ipv4_addr v b = put_field 26 v b"

definition set_dest_ipv4_addr :: "u32 \<Rightarrow> builder \<Rightarrow> builder option" where
  "set_dest_ipv4_addr v b = put_field 30 v b"

definition set_src_udp_port :: "u16 \<Rightarrow> builder \<Rightarrow> builder option" where
  "set_src_udp_port v b = put_field 34 v b"

definition set_dest_udp_port :: "u16 \<Rightarrow> builder \<Rightarrow> builder option" where
  "set_dest_udp_port v b = put_field 36 v b"

definition set_request :: "builder \<Rightarrow> builder option" where
  "set_request b = put_field 42 (0x78 :: u8) b"

definition set_response :: "builder \<Rightarrow> builder option" where
  "set_response b = put_field 42 (0x79 :: u8) b"

definition has_sufficient_space :: "u64 \<Rightarrow> u64 \<Rightarrow> builder \<Rightarrow> bool" where
  "has_sufficient_space key_length value_length b \<longleftrightarrow>
     roundup 8 key_length + roundup 8 value_length \<le> ucast (bd_remaining_space b)"

definition get_out_key :: "builder \<Rightarrow> nat" where
  "get_out_key b = bd_h b + request_header_size"

definition get_max_out_key_length :: "builder \<Rightarrow> u64" where
  "get_max_out_key_length b = ucast (bd_remaining_space b)"

definition get_out_value :: "u64 \<Rightarrow> builder \<Rightarrow> nat" where
  "get_out_value key_length b = bd_h b + request_header_size + unat (roundup 8 key_length)"

definition get_max_out_value_length :: "u64 \<Rightarrow> builder \<Rightarrow> u64" where
  "get_max_out_value_length key_length b = ucast (bd_remaining_space b) - roundup 8 key_length"

definition put_request_header ::
  "u8 \<Rightarrow> u8 \<Rightarrow> u32 \<Rightarrow> u64 \<Rightarrow> u64 \<Rightarrow> u64 \<Rightarrow> builder \<Rightarrow> builder option" where
  "put_request_header operation result opaque key_hash key_length value_length b =
     do {
       b \<leftarrow> put_field (bd_h b) operation b;
       b \<leftarrow> put_field (bd_h b + 1) result b;
       b \<leftarrow> put_field (bd_h b + 8) key_hash b;
       b \<leftarrow> put_field (bd_h b + 16) opaque b;
       b \<leftarrow> put_field (bd_h b + 2) (0 :: u16) b;
       put_field (bd_h b + 4) (ucast (push_bit 24 key_length OR value_length) :: u32) b
     }"

definition append_request_no_key_value ::
  "u8 \<Rightarrow> u8 \<Rightarrow> u32 \<Rightarrow> u64 \<Rightarrow> u64 \<Rightarrow> u64 \<Rightarrow> builder \<Rightarrow> builder option" where
  "append_request_no_key_value operation result opaque key_hash key_length value_length b =
     do {
       b \<leftarrow> put_request_header operation result opaque key_hash key_length value_length b;
       Some (b\<lparr>bd_h := bd_h b + request_header_size + unat (roundup 8 key_length) + unat (roundup 8 value_length),
               bd_count := bd_count b + 1\<rparr>)
     }"

text \<open>\<open>key\<close> and \<open>value\<close> are the bytes at the pointers; the copy takes a multiple of 8 of them.\<close>

definition append_request ::
  "u8 \<Rightarrow> u8 \<Rightarrow> u32 \<Rightarrow> u64 \<Rightarrow> u8 list \<Rightarrow> u64 \<Rightarrow> u8 list \<Rightarrow> u64 \<Rightarrow> builder \<Rightarrow> builder option" where
  "append_request operation result opaque key_hash key key_length val value_length b =
     do {
       b \<leftarrow> put_request_header operation result opaque key_hash key_length value_length b;
       let p = bd_h b + request_header_size;
       k \<leftarrow> get_bytes 0 (unat (roundup 8 key_length)) key;
       b \<leftarrow> put_data p k b;
       let p = p + unat (roundup 8 key_length);
       v \<leftarrow> get_bytes 0 (unat (roundup 8 value_length)) val;
       b \<leftarrow> put_data p v b;
       let p = p + unat (roundup 8 value_length);
       Some (b\<lparr>bd_h := p, bd_count := bd_count b + 1\<rparr>)
     }"

definition finalize :: "bool \<Rightarrow> builder \<Rightarrow> builder option" where
  "finalize enso b =
     do {
       let packet_length = (of_nat (bd_h b) :: u64);
       let b = (if enso then b else b\<lparr>bd_buf_length := ucast packet_length\<rparr>);
       b \<leftarrow> put_field 16 (swap16 (ucast (packet_length - of_nat ether_hdr_size))) b;
       b \<leftarrow> put_field 38 (swap16 (ucast (packet_length - of_nat ether_hdr_size - of_nat ipv4_hdr_size))) b;
       b \<leftarrow> put_field 12 (swap16 0x0800) b;
       b \<leftarrow> put_field 14 (0x40 OR 0x05 :: u8) b;
       b \<leftarrow> put_field 15 (0 :: u8) b;
       b \<leftarrow> put_field 18 (0 :: u16) b;
       b \<leftarrow> put_field 20 (0 :: u16) b;
       b \<leftarrow> put_field 22 (64 :: u8) b;
       b \<leftarrow> put_field 23 (17 :: u8) b;
       b \<leftarrow> put_field 24 (0 :: u16) b;
       b \<leftarrow> put_field 40 (0 :: u16) b;
       put_field 43 (ucast (bd_count b) :: u8) b
     }"

end
