(* ===== verification/Datagram_Client.thy ===== *)
theory Datagram_Client
  imports Datagram_Protocol
begin

text \<open>
  The client of \<^verbatim>\<open>mica/datagram/datagram_client.h\<close> and \<^verbatim>\<open>datagram_client_impl.h\<close> on one core: the
  table of request descriptors, the batches of requests by server and partition, the packets
  waiting to be sent by local endpoint, responses and timeouts. The network is what
  \<^verbatim>\<open>receive\<close> returns, burst by burst, and the packets that were sent; the handler of responses
  is the list of its calls. A read or a write outside an array has the result \<^const>\<open>None\<close>.
\<close>

section \<open>Configuration and state (\<^verbatim>\<open>datagram_client.h\<close>)\<close>

record client_config =
  kMaxRequestBatchSize :: u16
  kMaxOutstandingRequestCount :: u32
  kRequestTimeout :: u16
  kRXBurst :: u16
  kTXBurst :: u16
  kTXMinBurst :: u16
  kTXBurstTimeout :: u16
  kMaxEndpointsPerServer :: u16
  kSkipRX :: bool
  kIgnoreServerPartition :: bool

definition BasicDatagramClientConfig :: client_config where
  "BasicDatagramClientConfig = \<lparr>kMaxRequestBatchSize = 1, kMaxOutstandingRequestCount = 1024, kRequestTimeout = 1000,
     kRXBurst = 32, kTXBurst = 32, kTXMinBurst = 32, kTXBurstTimeout = 10, kMaxEndpointsPerServer = 32,
     kSkipRX = False, kIgnoreServerPartition = False\<rparr>"

definition kNullRD :: u16 where "kNullRD = - 1"

record 'a rd_item =
  rdi_next :: u16
  rdi_prev :: u16
  rdi_epoch :: u16
  rdi_expire_time :: u64
  rdi_arg :: 'a

text \<open>The descriptors of a \<^verbatim>\<open>ThreadState\<close>.\<close>

record 'a descriptors =
  rd_items :: "'a rd_item list"
  rd_unused_first :: u16
  rd_active_first :: u16
  rd_active_last :: u16
  outstanding_request_count :: u16

type_synonym mac_addr = "u8 list"

record server_endpoint =
  sei_mac_addr :: mac_addr
  sei_ipv4_addr :: u32
  sei_udp_port :: u16
  sei_eid :: u32
  sei_owner_lcore_id :: u16

text \<open>The owner core of a partition is all that is kept of it; the counts are those of the lists.\<close>

record server =
  sv_concurrent_read :: bool
  sv_concurrent_write :: bool
  sv_endpoints :: "server_endpoint list"
  sv_partitions :: "u16 list"

record request_batch =
  prb_b :: builder
  prb_remote_eid_index :: u16
  prb_round_robin :: bool

record request_state =
  rs_local_eid_index :: "u16 list"
  rs_c :: request_batch
  rs_e :: "request_batch list"

record rxtx_state =
  rt_eid :: u32
  rt_pending :: "packet list"
  rt_oldest_time :: u64

record worker_stats =
  num_operations_done :: u64
  num_operations_succeeded :: u64
  num_operations_rejected :: u64
  num_operations_timeout :: u64

datatype 'a handler_call = Handle (hc_rd: u16) (hc_result: u8) (hc_value: "u8 list") (hc_arg: 'a)

record 'a client =
  cl_rds :: "'a descriptors"
  cl_rx_tx_states :: "rxtx_state list"
  cl_servers :: "server list"
  cl_request_states :: "request_state list"
  cl_need_to_update_remote_eid :: bool
  cl_stats :: worker_stats
  cl_handled :: "'a handler_call list"
  cl_sent :: "(u32 \<times> packet list) list"

text \<open>
  What the client takes from outside: the cycles of a microsecond, the address of a local
  endpoint, and the bytes of a new packet buffer.
\<close>

record client_env =
  ce_config :: client_config
  ce_c_1_usec :: u64
  ce_endpoint_info :: "u32 \<Rightarrow> mac_addr \<times> u32 \<times> u16"
  ce_buffer :: "u8 list"

section \<open>Request descriptors\<close>

definition init_rds :: "client_config \<Rightarrow> 'a descriptors \<Rightarrow> 'a descriptors" where
  "init_rds c ds =
     (let n = unat (kMaxOutstandingRequestCount c)
      in ds\<lparr>rd_items := map (\<lambda>(i, it). it\<lparr>rdi_next := if Suc i = n then kNullRD else of_nat (Suc i), rdi_epoch := 0\<rparr>)
              (zip [0..<n] (rd_items ds)),
            rd_unused_first := 0, rd_active_first := kNullRD, rd_active_last := kNullRD, outstanding_request_count := 0\<rparr>)"

definition rd_item :: "u16 \<Rightarrow> 'a descriptors \<Rightarrow> 'a rd_item option" where
  "rd_item rd ds = elem_at (rd_items ds) (unat rd)"

text \<open>An assignment to members of \<^verbatim>\<open>rd_items[rd]\<close>.\<close>

definition put_item :: "u16 \<Rightarrow> ('a rd_item \<Rightarrow> 'a rd_item) \<Rightarrow> 'a descriptors \<Rightarrow> 'a descriptors option" where
  "put_item rd f ds = do { it \<leftarrow> rd_item rd ds; Some (ds\<lparr>rd_items := (rd_items ds)[unat rd := f it]\<rparr>) }"

definition allocate_rd :: "client_env \<Rightarrow> u64 \<Rightarrow> 'a \<Rightarrow> 'a descriptors \<Rightarrow> (u16 \<times> 'a descriptors) option" where
  "allocate_rd env now arg ds =
     do {
       let rd = rd_unused_first ds;
       it \<leftarrow> rd_item rd ds;
       let ds = ds\<lparr>rd_unused_first := rdi_next it\<rparr>;
       ds \<leftarrow> put_item rd (\<lambda>it. it\<lparr>rdi_prev := rd_active_last ds, rdi_next := kNullRD\<rparr>) ds;
       ds \<leftarrow> (if rd_active_first ds = kNullRD then Some (ds\<lparr>rd_active_first := rd, rd_active_last := rd\<rparr>)
         else do {
           ds \<leftarrow> put_item (rd_active_last ds) (\<lambda>it. it\<lparr>rdi_next := rd\<rparr>) ds;
           Some (ds\<lparr>rd_active_last := rd\<rparr>)
         });
       ds \<leftarrow> put_item rd (\<lambda>it. it\<lparr>rdi_expire_time := now + ce_c_1_usec env * ucast (kRequestTimeout (ce_config env)),
         rdi_arg := arg\<rparr>) ds;
       Some (rd, ds\<lparr>outstanding_request_count := outstanding_request_count ds + 1\<rparr>)
     }"

definition release_rd :: "u16 \<Rightarrow> 'a descriptors \<Rightarrow> 'a descriptors option" where
  "release_rd rd ds =
     do {
       it \<leftarrow> rd_item rd ds;
       ds \<leftarrow> (if rdi_next it \<noteq> kNullRD then put_item (rdi_next it) (\<lambda>nx. nx\<lparr>rdi_prev := rdi_prev it\<rparr>) ds else Some ds);
       it \<leftarrow> rd_item rd ds;
       ds \<leftarrow> (if rdi_prev it \<noteq> kNullRD then put_item (rdi_prev it) (\<lambda>pv. pv\<lparr>rdi_next := rdi_next it\<rparr>) ds else Some ds);
       it \<leftarrow> rd_item rd ds;
       let ds = (if rd_active_first ds = rd then ds\<lparr>rd_active_first := rdi_next it\<rparr> else ds);
       let ds = (if rd_active_last ds = rd then ds\<lparr>rd_active_last := rdi_prev it\<rparr> else ds);
       ds \<leftarrow> put_item rd (\<lambda>it. it\<lparr>rdi_next := rd_unused_first ds\<rparr>) ds;
       let ds = ds\<lparr>rd_unused_first := rd\<rparr>;
       ds \<leftarrow> put_item rd (\<lambda>it. it\<lparr>rdi_epoch := rdi_epoch it + 1\<rparr>) ds;
       Some (ds\<lparr>outstanding_request_count := outstanding_request_count ds - 1\<rparr>)
     }"

definition can_request :: "client_config \<Rightarrow> 'a descriptors \<Rightarrow> bool" where
  "can_request c ds \<longleftrightarrow> (ucast (outstanding_request_count ds) :: u32) < kMaxOutstandingRequestCount c"

text \<open>The number that a request carries and its response echoes.\<close>

definition make_opaque :: "u16 \<Rightarrow> u16 \<Rightarrow> u32" where
  "make_opaque rd epoch = push_bit 16 (ucast rd) OR ucast epoch"

definition opaque_rd :: "u32 \<Rightarrow> u16" where "opaque_rd opaque = ucast (drop_bit 16 opaque)"

definition opaque_epoch :: "u32 \<Rightarrow> u16" where "opaque_epoch opaque = ucast (opaque AND (push_bit 16 1 - 1))"

section \<open>Responses and timeouts (\<^verbatim>\<open>handle_response\<close>)\<close>

definition count_response :: "u8 \<Rightarrow> worker_stats \<Rightarrow> worker_stats" where
  "count_response res w =
     (let w = w\<lparr>num_operations_done := num_operations_done w + 1\<rparr>
      in if res = result_code KSuccess then w\<lparr>num_operations_succeeded := num_operations_succeeded w + 1\<rparr>
         else if res = result_code KRejected then w\<lparr>num_operations_rejected := num_operations_rejected w + 1\<rparr>
         else w)"

text \<open>A response is its opaque number and, read only when that matches, its result and value.\<close>

definition deliver :: "client_config \<Rightarrow> u32 \<Rightarrow> (u8 \<times> u8 list) option \<Rightarrow> 'a client \<Rightarrow> 'a client option" where
  "deliver c opaque body cl =
     (let rd = opaque_rd opaque in
      if (ucast rd :: u32) \<ge> kMaxOutstandingRequestCount c then Some cl
      else do {
        it \<leftarrow> rd_item rd (cl_rds cl);
        if rdi_epoch it \<noteq> opaque_epoch opaque then Some cl
        else do {
          (res, val) \<leftarrow> body;
          let cl = cl\<lparr>cl_handled := cl_handled cl @ [Handle rd res val (rdi_arg it)]\<rparr>;
          ds \<leftarrow> release_rd rd (cl_rds cl);
          Some (cl\<lparr>cl_rds := ds, cl_stats := count_response res (cl_stats cl)\<rparr>)
        }
      })"

definition handle_one :: "client_config \<Rightarrow> reader \<Rightarrow> 'a client \<Rightarrow> 'a client option" where
  "handle_one c r cl =
     do {
       opaque \<leftarrow> get_opaque r;
       deliver c opaque (do {
         res \<leftarrow> get_result r;
         v \<leftarrow> get_value r;
         n \<leftarrow> reader_value_length r;
         val \<leftarrow> get_bytes v (unat n) (rd_data r);
         Some (res, val)
       }) cl
     }"

partial_function (option) handle_all :: "client_config \<Rightarrow> reader \<Rightarrow> 'a client \<Rightarrow> 'a client option" where
  "handle_all c r cl =
     do {
       (more, r) \<leftarrow> find_next r;
       if more then do { cl \<leftarrow> handle_one c r cl; handle_all c r cl } else Some cl
     }"

declare handle_all.simps [code]

definition handle_packet :: "bool \<Rightarrow> client_config \<Rightarrow> packet \<Rightarrow> 'a client \<Rightarrow> 'a client option" where
  "handle_packet enso c p cl =
     do {
       (valid, r) \<leftarrow> is_valid enso (reader_new (fst p) (snd p));
       if \<not> valid then Some cl
       else do {
         response \<leftarrow> is_response r;
         if \<not> response then Some cl else handle_all c r cl
       }
     }"

fun handle_packets :: "bool \<Rightarrow> client_config \<Rightarrow> packet list \<Rightarrow> 'a client \<Rightarrow> 'a client option" where
  "handle_packets enso c [] cl = Some cl"
| "handle_packets enso c (p # ps) cl = do { cl \<leftarrow> handle_packet enso c p cl; handle_packets enso c ps cl }"

text \<open>
  The bursts that \<^verbatim>\<open>receive\<close> returns for an endpoint, until one is short; without a next burst
  the loop has no result.
\<close>

fun receive_bursts :: "bool \<Rightarrow> client_config \<Rightarrow> packet list list \<Rightarrow> 'a client \<Rightarrow> 'a client option" where
  "receive_bursts enso c [] cl = None"
| "receive_bursts enso c (ps # bursts) cl =
     do {
       let ps = (if kSkipRX c then [] else ps);
       cl \<leftarrow> handle_packets enso c ps cl;
       if length ps < unat (kRXBurst c) then Some cl else receive_bursts enso c bursts cl
     }"

partial_function (option) expire_requests :: "client_config \<Rightarrow> u64 \<Rightarrow> 'a client \<Rightarrow> 'a client option" where
  "expire_requests c now cl =
     (let rd = rd_active_first (cl_rds cl) in
      if rd = kNullRD then Some cl
      else do {
        it \<leftarrow> rd_item rd (cl_rds cl);
        if kSkipRX c \<or> sint (now - rdi_expire_time it) \<ge> 0
        then do {
          let cl = cl\<lparr>cl_handled := cl_handled cl @ [Handle rd (result_code KTimedOut) [] (rdi_arg it)]\<rparr>;
          ds \<leftarrow> release_rd rd (cl_rds cl);
          let w = cl_stats cl;
          expire_requests c now (cl\<lparr>cl_rds := ds, cl_stats := w\<lparr>num_operations_done := num_operations_done w + 1,
            num_operations_timeout := num_operations_timeout w + 1\<rparr>\<rparr>)
        }
        else Some cl
      })"

declare expire_requests.simps [code]

section \<open>Sending\<close>

definition send_pending :: "nat \<Rightarrow> 'a client \<Rightarrow> 'a client option" where
  "send_pending eindex cl =
     do {
       s \<leftarrow> elem_at (cl_rx_tx_states cl) eindex;
       Some (cl\<lparr>cl_sent := cl_sent cl @ [(rt_eid s, rt_pending s)],
                cl_rx_tx_states := (cl_rx_tx_states cl)[eindex := s\<lparr>rt_pending := []\<rparr>]\<rparr>)
     }"

definition check_pending_tx_full :: "client_config \<Rightarrow> nat \<Rightarrow> 'a client \<Rightarrow> 'a client option" where
  "check_pending_tx_full c eindex cl =
     do {
       s \<leftarrow> elem_at (cl_rx_tx_states cl) eindex;
       if length (rt_pending s) < unat (kTXBurst c) then Some cl else send_pending eindex cl
     }"

definition check_pending_tx_min :: "client_config \<Rightarrow> nat \<Rightarrow> 'a client \<Rightarrow> 'a client option" where
  "check_pending_tx_min c eindex cl =
     do {
       s \<leftarrow> elem_at (cl_rx_tx_states cl) eindex;
       if length (rt_pending s) < unat (kTXMinBurst c) then Some cl else send_pending eindex cl
     }"

definition check_pending_tx_timeout :: "client_env \<Rightarrow> nat \<Rightarrow> u64 \<Rightarrow> 'a client \<Rightarrow> 'a client option" where
  "check_pending_tx_timeout env eindex now cl =
     do {
       s \<leftarrow> elem_at (cl_rx_tx_states cl) eindex;
       if rt_pending s = [] then Some cl
       else if now - rt_oldest_time s < ce_c_1_usec env * ucast (kTXBurstTimeout (ce_config env)) then Some cl
       else send_pending eindex cl
     }"

text \<open>The remote endpoint of a partition is one of the core that owns it.\<close>

fun find_remote_eid :: "server_endpoint list \<Rightarrow> u16 \<Rightarrow> u16 \<Rightarrow> u16 \<Rightarrow> u16" where
  "find_remote_eid [] i owner current = current"
| "find_remote_eid (e # es) i owner current =
     (if sei_owner_lcore_id e \<noteq> owner then find_remote_eid es (i + 1) owner current
      else if current = i then find_remote_eid es (i + 1) owner current
      else i)"

definition update_batch :: "server \<Rightarrow> nat \<Rightarrow> request_batch \<Rightarrow> request_batch" where
  "update_batch s partition_id b =
     b\<lparr>prb_remote_eid_index := find_remote_eid (sv_endpoints s) 0 (sv_partitions s ! partition_id) (prb_remote_eid_index b)\<rparr>"

definition update_request_state :: "server \<Rightarrow> request_state \<Rightarrow> request_state" where
  "update_request_state s rs =
     rs\<lparr>rs_e := map (\<lambda>(i, b). if i < length (sv_partitions s) then update_batch s i b else b)
       (zip [0..<length (rs_e rs)] (rs_e rs))\<rparr>"

definition update_remote_eid :: "'a client \<Rightarrow> 'a client" where
  "update_remote_eid cl = cl\<lparr>cl_request_states := map2 update_request_state (cl_servers cl) (cl_request_states cl)\<rparr>"

fun poll_endpoints :: "bool \<Rightarrow> client_env \<Rightarrow> u64 \<Rightarrow> nat \<Rightarrow> packet list list list \<Rightarrow> 'a client \<Rightarrow> 'a client option" where
  "poll_endpoints enso env now eindex [] cl = Some cl"
| "poll_endpoints enso env now eindex (bursts # rest) cl =
     do {
       cl \<leftarrow> (if enso then Some cl else check_pending_tx_min (ce_config env) eindex cl);
       cl \<leftarrow> check_pending_tx_timeout env eindex now cl;
       cl \<leftarrow> receive_bursts enso (ce_config env) bursts cl;
       poll_endpoints enso env now (Suc eindex) rest cl
     }"

definition handle_response :: "bool \<Rightarrow> client_env \<Rightarrow> u64 \<Rightarrow> packet list list list \<Rightarrow> 'a client \<Rightarrow> 'a client option" where
  "handle_response enso env now arrivals cl =
     do {
       cl \<leftarrow> poll_endpoints enso env now 0 arrivals cl;
       cl \<leftarrow> expire_requests (ce_config env) now cl;
       Some (if cl_need_to_update_remote_eid cl
             then update_remote_eid (cl\<lparr>cl_need_to_update_remote_eid := False\<rparr>) else cl)
     }"

section \<open>Requests (\<^verbatim>\<open>append_request\<close>)\<close>

definition calc_server_index :: "u64 \<Rightarrow> nat \<Rightarrow> nat option" where
  "calc_server_index key_hash server_count =
     (if server_count = 0 then None
      else Some (unat (drop_bit 32 key_hash AND (push_bit 16 1 - 1)) mod server_count))"

definition calc_partition_id :: "u64 \<Rightarrow> nat \<Rightarrow> nat option" where
  "calc_partition_id key_hash partition_count =
     (if partition_count = 0 then None else Some (unat (drop_bit 48 key_hash) mod partition_count))"

text \<open>The pending batch of a request: one for concurrent access, or that of a partition.\<close>

datatype batch_ref = Concurrent | Exclusive nat

fun get_batch :: "batch_ref \<Rightarrow> request_state \<Rightarrow> request_batch option" where
  "get_batch Concurrent rs = Some (rs_c rs)"
| "get_batch (Exclusive i) rs = elem_at (rs_e rs) i"

fun put_batch :: "batch_ref \<Rightarrow> request_batch \<Rightarrow> request_state \<Rightarrow> request_state" where
  "put_batch Concurrent b rs = rs\<lparr>rs_c := b\<rparr>"
| "put_batch (Exclusive i) b rs = rs\<lparr>rs_e := (rs_e rs)[i := b]\<rparr>"

definition choose_batch :: "client_config \<Rightarrow> operation \<Rightarrow> u64 \<Rightarrow> server \<Rightarrow> batch_ref option" where
  "choose_batch c op key_hash s =
     (let spread = (if kIgnoreServerPartition c then True
                    else if op \<in> {KNoopRead, KGet, KTest} then sv_concurrent_read s else sv_concurrent_write s)
      in if spread then Some Concurrent
         else map_option Exclusive (calc_partition_id key_hash (length (sv_partitions s))))"

definition make_new_pending_request_batch :: "client_env \<Rightarrow> request_batch \<Rightarrow> request_batch" where
  "make_new_pending_request_batch env b = b\<lparr>prb_b := builder_new (ce_buffer env) 0\<rparr>"

text \<open>\<^verbatim>\<open>rte_cpu_to_be_32\<close> on a little endian machine.\<close>

definition swap32 :: "u32 \<Rightarrow> u32" where
  "swap32 x = push_bit 24 x OR push_bit 8 (x AND 0xff00) OR drop_bit 8 (x AND 0xff0000) OR drop_bit 24 x"

definition address_packet :: "bool \<Rightarrow> client_env \<Rightarrow> u32 \<Rightarrow> server_endpoint \<Rightarrow> builder \<Rightarrow> builder option" where
  "address_packet enso env eid sei b =
     do {
       let (mac, ip, port) = ce_endpoint_info env eid;
       b \<leftarrow> set_src_mac_addr mac b;
       b \<leftarrow> set_dest_mac_addr (sei_mac_addr sei) b;
       b \<leftarrow> set_src_ipv4_addr (swap32 ip) b;
       b \<leftarrow> set_dest_ipv4_addr (swap32 (sei_ipv4_addr sei)) b;
       b \<leftarrow> set_src_udp_port (swap16 port) b;
       b \<leftarrow> set_dest_udp_port (swap16 (sei_udp_port sei)) b;
       b \<leftarrow> set_request b;
       finalize enso b
     }"

definition next_remote :: "server \<Rightarrow> request_batch \<Rightarrow> request_batch" where
  "next_remote s b =
     (if prb_round_robin b
      then let i = prb_remote_eid_index b + 1
           in b\<lparr>prb_remote_eid_index := if unat i = length (sv_endpoints s) then 0 else i\<rparr>
      else b)"

text \<open>A finished batch joins the packets waiting at a local endpoint.\<close>

definition queue_packet ::
  "bool \<Rightarrow> client_env \<Rightarrow> nat \<Rightarrow> batch_ref \<Rightarrow> nat \<Rightarrow> u64 \<Rightarrow> 'a client \<Rightarrow> 'a client option" where
  "queue_packet enso env server_index ref eindex now cl =
     do {
       s \<leftarrow> elem_at (cl_servers cl) server_index;
       rs \<leftarrow> elem_at (cl_request_states cl) server_index;
       prb \<leftarrow> get_batch ref rs;
       sei \<leftarrow> elem_at (sv_endpoints s) (unat (prb_remote_eid_index prb));
       rt \<leftarrow> elem_at (cl_rx_tx_states cl) eindex;
       let rt = (if rt_pending rt = [] then rt\<lparr>rt_oldest_time := now\<rparr> else rt);
       b \<leftarrow> address_packet enso env (rt_eid rt) sei (prb_b prb);
       let rt = rt\<lparr>rt_pending := rt_pending rt @ [(bd_data b, bd_buf_length b)]\<rparr>;
       let rs = put_batch ref (next_remote s (prb\<lparr>prb_b := b\<rparr>)) rs;
       check_pending_tx_full (ce_config env) eindex
         (cl\<lparr>cl_rx_tx_states := (cl_rx_tx_states cl)[eindex := rt],
             cl_request_states := (cl_request_states cl)[server_index := rs]\<rparr>)
     }"

text \<open>The local endpoint that reaches the remote endpoint of a batch, if any.\<close>

definition local_endpoint :: "client_config \<Rightarrow> request_batch \<Rightarrow> request_state \<Rightarrow> nat option option" where
  "local_endpoint c prb rs =
     (if prb_remote_eid_index prb = kMaxEndpointsPerServer c then Some None
      else do {
        eindex \<leftarrow> elem_at (rs_local_eid_index rs) (unat (prb_remote_eid_index prb));
        Some (if eindex = kMaxEndpointsPerServer c then None else Some (unat eindex))
      })"

text \<open>Without \<^verbatim>\<open>USE_ENSO\<close>, a batch that no endpoint can send is dropped when it is flushed.\<close>

definition flush_pending_request_batch ::
  "client_env \<Rightarrow> nat \<Rightarrow> batch_ref \<Rightarrow> u64 \<Rightarrow> 'a client \<Rightarrow> 'a client option" where
  "flush_pending_request_batch env server_index ref now cl =
     do {
       rs \<leftarrow> elem_at (cl_request_states cl) server_index;
       prb \<leftarrow> get_batch ref rs;
       e \<leftarrow> local_endpoint (ce_config env) prb rs;
       case e of
         None \<Rightarrow> Some cl
       | Some eindex \<Rightarrow> queue_packet False env server_index ref eindex now cl
     }"

definition update_request_batch ::
  "nat \<Rightarrow> batch_ref \<Rightarrow> (request_batch \<Rightarrow> request_batch option) \<Rightarrow> 'a client \<Rightarrow> 'a client option" where
  "update_request_batch server_index ref f cl =
     do {
       rs \<leftarrow> elem_at (cl_request_states cl) server_index;
       prb \<leftarrow> get_batch ref rs;
       prb \<leftarrow> f prb;
       Some (cl\<lparr>cl_request_states := (cl_request_states cl)[server_index := put_batch ref prb rs]\<rparr>)
     }"

definition append_to_batch ::
  "client_env \<Rightarrow> operation \<Rightarrow> u64 \<Rightarrow> u8 list \<Rightarrow> u64 \<Rightarrow> u8 list \<Rightarrow> u64 \<Rightarrow> 'a \<Rightarrow> nat \<Rightarrow> batch_ref \<Rightarrow> u64 \<Rightarrow> 'a client
     \<Rightarrow> (u16 \<times> 'a client) option" where
  "append_to_batch env op key_hash key key_length val value_length arg server_index ref now cl =
     do {
       (rd, ds) \<leftarrow> allocate_rd env now arg (cl_rds cl);
       it \<leftarrow> rd_item rd ds;
       cl \<leftarrow> update_request_batch server_index ref (\<lambda>prb. do {
           b \<leftarrow> append_request (operation_code op) (result_code KSuccess) (make_opaque rd (rdi_epoch it)) key_hash key key_length val value_length (prb_b prb);
           Some (prb\<lparr>prb_b := b\<rparr>)
         }) (cl\<lparr>cl_rds := ds\<rparr>);
       Some (rd, cl)
     }"

definition batch_full :: "client_config \<Rightarrow> nat \<Rightarrow> batch_ref \<Rightarrow> 'a client \<Rightarrow> bool option" where
  "batch_full c server_index ref cl =
     do {
       rs \<leftarrow> elem_at (cl_request_states cl) server_index;
       prb \<leftarrow> get_batch ref rs;
       Some (bd_count (prb_b prb) \<ge> kMaxRequestBatchSize c)
     }"

definition client_append_request ::
  "bool \<Rightarrow> client_env \<Rightarrow> operation \<Rightarrow> u64 \<Rightarrow> u8 list \<Rightarrow> u64 \<Rightarrow> u8 list \<Rightarrow> u64 \<Rightarrow> 'a \<Rightarrow> u64 \<Rightarrow> 'a client
     \<Rightarrow> (u16 \<times> 'a client) option" where
  "client_append_request enso env op key_hash key key_length val value_length arg now cl =
     do {
       let c = ce_config env;
       server_index \<leftarrow> calc_server_index key_hash (length (cl_servers cl));
       s \<leftarrow> elem_at (cl_servers cl) server_index;
       rs \<leftarrow> elem_at (cl_request_states cl) server_index;
       ref \<leftarrow> choose_batch c op key_hash s;
       if enso
       then do {
         prb \<leftarrow> get_batch ref rs;
         e \<leftarrow> local_endpoint c prb rs;
         case e of
           None \<Rightarrow> Some (kNullRD, cl)
         | Some eindex \<Rightarrow> do {
             cl \<leftarrow> update_request_batch server_index ref (\<lambda>prb. Some (make_new_pending_request_batch env prb)) cl;
             (rd, cl) \<leftarrow> append_to_batch env op key_hash key key_length val value_length arg server_index ref now cl;
             full \<leftarrow> batch_full c server_index ref cl;
             cl \<leftarrow> (if full then queue_packet True env server_index ref eindex now cl else Some cl);
             Some (rd, cl)
           }
       }
       else do {
         (rd, cl) \<leftarrow> append_to_batch env op key_hash key key_length val value_length arg server_index ref now cl;
         full \<leftarrow> batch_full c server_index ref cl;
         cl \<leftarrow> (if full
               then do {
                 cl \<leftarrow> flush_pending_request_batch env server_index ref now cl;
                 update_request_batch server_index ref (\<lambda>prb. Some (make_new_pending_request_batch env prb)) cl
               }
               else Some cl);
         Some (rd, cl)
       }
     }"

text \<open>The operations of the client.\<close>

definition client_noop_read where
  "client_noop_read enso env key_hash key key_length =
     client_append_request enso env KNoopRead key_hash key key_length [] 0"

definition client_noop_write where
  "client_noop_write enso env key_hash key key_length val value_length =
     client_append_request enso env KNoopWrite key_hash key key_length val value_length"

definition client_del where
  "client_del enso env key_hash key key_length = client_append_request enso env KDelete key_hash key key_length [] 0"

definition client_get where
  "client_get enso env key_hash key key_length = client_append_request enso env KGet key_hash key key_length [] 0"

definition client_increment where
  "client_increment enso env key_hash key key_length (increment :: u64) =
     client_append_request enso env KIncrement key_hash key key_length (le_bytes 8 increment) 8"

definition client_set where
  "client_set enso env key_hash key key_length val value_length overwrite =
     client_append_request enso env (if overwrite then KSet else KAdd) key_hash key key_length val value_length"

definition client_test where
  "client_test enso env key_hash key key_length = client_append_request enso env KTest key_hash key key_length [] 0"

end
