(* ===== verification/Datagram_Descriptors.thy ===== *)
theory Datagram_Descriptors
  imports Datagram_Client "HOL-Library.Multiset"
begin

text \<open>
  The request descriptors of a client thread, an array with two lists threaded through it:
  \<open>rd_lists n ds act un\<close> says that \<open>act\<close> is the list of the outstanding requests, oldest first,
  and \<open>un\<close> the list of the free descriptors. Each operation of the code is one of these lists.
\<close>

section \<open>Chains of descriptors\<close>

text \<open>Each element leads to the next one, the last to \<open>e\<close>; each leads back, the first to \<open>s\<close>.\<close>

fun nexts :: "(u16 \<Rightarrow> u16) \<Rightarrow> u16 list \<Rightarrow> u16 \<Rightarrow> bool" where
  "nexts f [] e \<longleftrightarrow> True"
| "nexts f (x # xs) e \<longleftrightarrow> f x = hd (xs @ [e]) \<and> nexts f xs e"

fun prevs :: "(u16 \<Rightarrow> u16) \<Rightarrow> u16 \<Rightarrow> u16 list \<Rightarrow> bool" where
  "prevs f s [] \<longleftrightarrow> True"
| "prevs f s (x # xs) \<longleftrightarrow> f x = s \<and> prevs f x xs"

lemma nexts_append: "nexts f (xs @ ys) e \<longleftrightarrow> nexts f xs (hd (ys @ [e])) \<and> nexts f ys e"
  by (induction xs) (auto simp: hd_append)

lemma prevs_append: "prevs f s (xs @ ys) \<longleftrightarrow> prevs f s xs \<and> prevs f (last (s # xs)) ys"
  by (induction xs arbitrary: s) auto

lemma nexts_cong: "(\<And>x. x \<in> set xs \<Longrightarrow> f x = g x) \<Longrightarrow> nexts f xs e = nexts g xs e"
  by (induction xs) auto

lemma prevs_cong: "(\<And>x. x \<in> set xs \<Longrightarrow> f x = g x) \<Longrightarrow> prevs f s xs = prevs g s xs"
  by (induction xs arbitrary: s) auto

lemma nexts_end:
  assumes "nexts f xs e" "distinct xs" "xs \<noteq> []" "\<And>x. x \<in> set xs \<Longrightarrow> g x = (if x = last xs then e' else f x)"
  shows "nexts g xs e'"
  using assms
proof (induction xs)
  case (Cons x xs)
  show ?case
  proof (cases "xs = []")
    case True
    then show ?thesis using Cons.prems(4) by simp
  next
    case False
    then have "x \<noteq> last xs" using Cons.prems(2) by auto
    then show ?thesis using Cons False by (cases xs) auto
  qed
qed simp

lemma prevs_start:
  assumes "prevs f s ys" "distinct ys" "\<And>x. x \<in> set ys \<Longrightarrow> g x = (if x = hd ys then s' else f x)"
  shows "prevs g s' ys"
proof (cases ys)
  case (Cons y zs)
  then have "prevs g y zs = prevs f y zs" using assms(2,3) by (intro prevs_cong) auto
  then show ?thesis using assms Cons by simp
qed simp

section \<open>The lists of a descriptor table\<close>

definition next_of :: "'a descriptors \<Rightarrow> u16 \<Rightarrow> u16" where
  "next_of ds x = rdi_next (rd_items ds ! unat x)"

definition prev_of :: "'a descriptors \<Rightarrow> u16 \<Rightarrow> u16" where
  "prev_of ds x = rdi_prev (rd_items ds ! unat x)"

text \<open>\<open>act\<close> are the descriptors in use, oldest first, \<open>un\<close> the unused ones.\<close>

definition rd_lists :: "nat \<Rightarrow> 'a descriptors \<Rightarrow> u16 list \<Rightarrow> u16 list \<Rightarrow> bool" where
  "rd_lists n ds act un \<longleftrightarrow> length (rd_items ds) = n \<and> n < 2 ^ 16
     \<and> distinct (act @ un) \<and> set (act @ un) = {rd. unat rd < n}
     \<and> rd_active_first ds = hd (act @ [kNullRD]) \<and> rd_active_last ds = last (kNullRD # act)
     \<and> nexts (next_of ds) act kNullRD \<and> prevs (prev_of ds) kNullRD act
     \<and> rd_unused_first ds = hd (un @ [kNullRD]) \<and> nexts (next_of ds) un kNullRD
     \<and> outstanding_request_count ds = of_nat (length act)"

lemma null_outside: "n < 2 ^ 16 \<Longrightarrow> unat rd < n \<Longrightarrow> rd \<noteq> kNullRD"
proof -
  have "unat kNullRD = 65535" by (simp add: kNullRD_def unsigned_minus_1_eq_mask mask_eq_exp_minus_1)
  then show "n < 2 ^ 16 \<Longrightarrow> unat rd < n \<Longrightarrow> rd \<noteq> kNullRD" by auto
qed

lemma rd_listsD:
  assumes "rd_lists n ds act un"
  shows "rd \<in> set act \<or> rd \<in> set un \<longleftrightarrow> unat rd < n" "rd \<in> set act \<Longrightarrow> rd \<noteq> kNullRD" "rd \<in> set un \<Longrightarrow> rd \<noteq> kNullRD"
    "length act + length un = n"
proof -
  have s: "set act \<union> set un = {rd. unat rd < n}" "distinct (act @ un)" "n < 2 ^ 16" using assms by (simp_all add: rd_lists_def)
  show "rd \<in> set act \<or> rd \<in> set un \<longleftrightarrow> unat rd < n" using s(1) by blast
  then show "rd \<in> set act \<Longrightarrow> rd \<noteq> kNullRD" "rd \<in> set un \<Longrightarrow> rd \<noteq> kNullRD" using null_outside [OF s(3)] by blast+
  have "card (set (act @ un)) = length (act @ un)" using s(2) by (rule distinct_card)
  moreover have "{rd :: u16. unat rd < n} = of_nat ` {..<n}"
  proof (intro equalityI subsetI)
    fix rd :: u16 assume "rd \<in> {rd. unat rd < n}"
    then show "rd \<in> of_nat ` {..<n}" by (intro image_eqI [of _ _ "unat rd"]) simp_all
  next
    fix rd :: u16 assume "rd \<in> of_nat ` {..<n}"
    then obtain i where "rd = of_nat i" "i < n" by blast
    then show "rd \<in> {rd. unat rd < n}" using s(3) by (simp add: unat_of_nat)
  qed
  moreover have "inj_on (of_nat :: nat \<Rightarrow> u16) {..<n}"
  proof (rule inj_onI)
    fix i j assume "i \<in> {..<n}" "j \<in> {..<n}" "(of_nat i :: u16) = of_nat j"
    then have "unat (of_nat i :: u16) = unat (of_nat j :: u16)" "i < 2 ^ 16" "j < 2 ^ 16" using s(3) by simp_all
    then show "i = j" by (simp add: unat_of_nat)
  qed
  ultimately show "length act + length un = n" using s(1) by (simp add: card_image)
qed

lemma item_update: "unat rd < length items \<Longrightarrow> items[unat rd := v] ! unat x = (if x = rd then v else items ! unat x)"
  by (simp add: nth_list_update word_unat_eq_iff)

lemma put_item_Some:
  "unat rd < length (rd_items ds) \<Longrightarrow> put_item rd f ds = Some (ds\<lparr>rd_items := (rd_items ds)[unat rd := f (rd_items ds ! unat rd)]\<rparr>)"
  by (simp add: put_item_def rd_item_def elem_at_def)

lemma rd_item_Some: "unat rd < length (rd_items ds) \<Longrightarrow> rd_item rd ds = Some (rd_items ds ! unat rd)"
  by (simp add: rd_item_def elem_at_def)

text \<open>What the operations leave of the other members.\<close>

definition epoch_of :: "'a descriptors \<Rightarrow> u16 \<Rightarrow> u16" where "epoch_of ds x = rdi_epoch (rd_items ds ! unat x)"

definition expire_of :: "'a descriptors \<Rightarrow> u16 \<Rightarrow> u64" where "expire_of ds x = rdi_expire_time (rd_items ds ! unat x)"

definition arg_of :: "'a descriptors \<Rightarrow> u16 \<Rightarrow> 'a" where "arg_of ds x = rdi_arg (rd_items ds ! unat x)"

definition expiry :: "client_env \<Rightarrow> u64 \<Rightarrow> u64" where
  "expiry env now = now + ce_c_1_usec env * ucast (kRequestTimeout (ce_config env))"

lemma allocate_rd_ok:
  assumes rep: "rd_lists n ds act (u # us)"
  shows "\<exists>ds'. allocate_rd env now arg ds = Some (u, ds') \<and> rd_lists n ds' (act @ [u]) us
    \<and> epoch_of ds' = epoch_of ds \<and> expire_of ds' = (expire_of ds)(u := expiry env now) \<and> arg_of ds' = (arg_of ds)(u := arg)"
proof -
  note D = rd_listsD [OF rep]
  have r: "length (rd_items ds) = n" "n < 2 ^ 16" "distinct (act @ u # us)" "set (act @ u # us) = {rd. unat rd < n}"
    "rd_active_first ds = hd (act @ [kNullRD])" "rd_active_last ds = last (kNullRD # act)"
    "nexts (next_of ds) act kNullRD" "prevs (prev_of ds) kNullRD act"
    "rd_unused_first ds = u" "next_of ds u = hd (us @ [kNullRD])" "nexts (next_of ds) us kNullRD"
    "outstanding_request_count ds = of_nat (length act)"
    using rep by (simp_all add: rd_lists_def)
  have u: "unat u < length (rd_items ds)" using D(1) [of u] r(1) by simp
  show ?thesis
  proof (cases "act = []")
    case True
    let ?it = "rd_items ds ! unat u"
    let ?ds = "ds\<lparr>rd_unused_first := rdi_next ?it, rd_items := (rd_items ds)[unat u := ?it\<lparr>rdi_prev := rd_active_last ds,
        rdi_next := kNullRD, rdi_expire_time := expiry env now, rdi_arg := arg\<rparr>],
      rd_active_first := u, rd_active_last := u, outstanding_request_count := outstanding_request_count ds + 1\<rparr>"
    have "allocate_rd env now arg ds = Some (u, ?ds)"
      using u r(5,9) True by (simp add: allocate_rd_def rd_item_Some put_item_Some expiry_def)
    moreover have "rd_lists n ?ds [u] us"
    proof -
      have "nexts (next_of ?ds) us kNullRD"
        using r(3,11) u by (subst nexts_cong [of _ _ "next_of ds"]) (auto simp: next_of_def item_update)
      then show ?thesis using r True u by (simp add: rd_lists_def next_of_def prev_of_def item_update)
    qed
    moreover have "epoch_of ?ds = epoch_of ds" "expire_of ?ds = (expire_of ds)(u := expiry env now)" "arg_of ?ds = (arg_of ds)(u := arg)"
      using u by (auto simp: fun_eq_iff epoch_of_def expire_of_def arg_of_def item_update)
    ultimately show ?thesis using True by (intro exI [of _ ?ds]) simp
  next
    case False
    define l where "l = last act"
    have l: "l \<in> set act" "l \<noteq> u" "rd_active_last ds = l" "unat l < length (rd_items ds)"
      using False r(1,3,6) D(1) [of l] by (auto simp: l_def)
    let ?it = "rd_items ds ! unat u" and ?lt = "rd_items ds ! unat l"
    let ?items = "(rd_items ds)[unat u := ?it\<lparr>rdi_prev := l, rdi_next := kNullRD\<rparr>, unat l := ?lt\<lparr>rdi_next := u\<rparr>,
      unat u := ?it\<lparr>rdi_prev := l, rdi_next := kNullRD, rdi_expire_time := expiry env now, rdi_arg := arg\<rparr>]"
    let ?ds = "ds\<lparr>rd_unused_first := rdi_next ?it, rd_items := ?items, rd_active_last := u,
      outstanding_request_count := outstanding_request_count ds + 1\<rparr>"
    have ne: "rd_active_first ds \<noteq> kNullRD" using r(5) False D(2) by (cases act) auto
    have "allocate_rd env now arg ds = Some (u, ?ds)"
      using u l r(9) ne by (simp add: allocate_rd_def rd_item_Some put_item_Some expiry_def item_update)
    moreover have "rd_lists n ?ds (act @ [u]) us"
    proof -
      have nx: "next_of ?ds x = (if x = u then kNullRD else if x = l then u else next_of ds x)" for x
        using u l by (simp add: next_of_def item_update)
      have pv: "prev_of ?ds x = (if x = u then l else prev_of ds x)" for x
        using u l by (simp add: prev_of_def item_update)
      have "nexts (next_of ?ds) act u"
        by (rule nexts_end [OF r(7) _ False]) (use r(3) nx l_def in auto)
      moreover have "nexts (next_of ?ds) us kNullRD"
        using r(3,11) l(1) nx by (subst nexts_cong [of _ _ "next_of ds"]) auto
      moreover have "prevs (prev_of ?ds) kNullRD act"
        using r(3,8) pv by (subst prevs_cong [of _ _ "prev_of ds"]) auto
      ultimately show ?thesis
        using r False nx pv by (simp add: rd_lists_def nexts_append prevs_append l_def next_of_def [of ds])
    qed
    moreover have "epoch_of ?ds = epoch_of ds" "expire_of ?ds = (expire_of ds)(u := expiry env now)" "arg_of ?ds = (arg_of ds)(u := arg)"
      using u l by (auto simp: fun_eq_iff epoch_of_def expire_of_def arg_of_def item_update)
    ultimately show ?thesis by (intro exI [of _ ?ds]) simp
  qed
qed

lemma put_item_ok:
  assumes "unat rd < length (rd_items ds)"
  shows "\<exists>ds'. put_item rd f ds = Some ds' \<and> ds' = ds\<lparr>rd_items := rd_items ds'\<rparr> \<and> length (rd_items ds') = length (rd_items ds)
    \<and> (\<forall>x. rd_items ds' ! unat x = (if x = rd then f (rd_items ds ! unat rd) else rd_items ds ! unat x))"
  using assms by (simp add: put_item_Some item_update)

lemma maybe_put_item_ok:
  assumes "b \<Longrightarrow> unat rd < length (rd_items ds)"
  shows "\<exists>ds'. (if b then put_item rd f ds else Some ds) = Some ds' \<and> ds' = ds\<lparr>rd_items := rd_items ds'\<rparr>
    \<and> length (rd_items ds') = length (rd_items ds)
    \<and> (\<forall>x. rd_items ds' ! unat x = (if b \<and> x = rd then f (rd_items ds ! unat rd) else rd_items ds ! unat x))"
  using put_item_ok [of rd ds f] assms by (cases b) auto

lemma updated_item:
  shows "rdi_next (if b then it\<lparr>rdi_next := u, rdi_epoch := e\<rparr> else if c then jt\<lparr>rdi_next := y\<rparr> else if d then jt\<lparr>rdi_prev := p\<rparr> else jt) = (if b then u else if c then y else rdi_next jt)"
    "rdi_prev (if b then it\<lparr>rdi_next := u, rdi_epoch := e\<rparr> else if c then jt\<lparr>rdi_next := y\<rparr> else if d then jt\<lparr>rdi_prev := p\<rparr> else jt) = (if b then rdi_prev it else if \<not> c \<and> d then p else rdi_prev jt)"
    "rdi_epoch (if b then it\<lparr>rdi_next := u, rdi_epoch := e\<rparr> else if c then jt\<lparr>rdi_next := y\<rparr> else if d then jt\<lparr>rdi_prev := p\<rparr> else jt) = (if b then e else rdi_epoch jt)"
    "rdi_expire_time (if b then it\<lparr>rdi_next := u, rdi_epoch := e\<rparr> else if c then jt\<lparr>rdi_next := y\<rparr> else if d then jt\<lparr>rdi_prev := p\<rparr> else jt) = (if b then rdi_expire_time it else rdi_expire_time jt)"
    "rdi_arg (if b then it\<lparr>rdi_next := u, rdi_epoch := e\<rparr> else if c then jt\<lparr>rdi_next := y\<rparr> else if d then jt\<lparr>rdi_prev := p\<rparr> else jt) = (if b then rdi_arg it else rdi_arg jt)"
  by simp_all

lemma same_but_items:
  assumes "ds' = ds\<lparr>rd_items := rd_items ds'\<rparr>"
  shows "rd_unused_first ds' = rd_unused_first ds" "rd_active_first ds' = rd_active_first ds"
    "rd_active_last ds' = rd_active_last ds" "outstanding_request_count ds' = outstanding_request_count ds"
  by (subst assms, simp)+

lemma release_rd_ok:
  assumes rep: "rd_lists n ds (xs @ rd # ys) un"
  shows "\<exists>ds'. release_rd rd ds = Some ds' \<and> rd_lists n ds' (xs @ ys) (rd # un)
    \<and> epoch_of ds' = (epoch_of ds)(rd := epoch_of ds rd + 1) \<and> expire_of ds' = expire_of ds \<and> arg_of ds' = arg_of ds"
proof -
  note D = rd_listsD [OF rep]
  have r: "length (rd_items ds) = n" "n < 2 ^ 16" "distinct ((xs @ rd # ys) @ un)" "set ((xs @ rd # ys) @ un) = {rd. unat rd < n}"
    "rd_active_first ds = hd (xs @ rd # ys @ [kNullRD])" "rd_active_last ds = last (rd # ys)"
    "nexts (next_of ds) xs rd" "next_of ds rd = hd (ys @ [kNullRD])" "nexts (next_of ds) ys kNullRD"
    "prevs (prev_of ds) kNullRD xs" "prev_of ds rd = last (kNullRD # xs)" "prevs (prev_of ds) rd ys"
    "rd_unused_first ds = hd (un @ [kNullRD])" "nexts (next_of ds) un kNullRD"
    "outstanding_request_count ds = of_nat (Suc (length (xs @ ys)))"
    using rep by (simp_all add: rd_lists_def nexts_append prevs_append)
  have rd: "unat rd < length (rd_items ds)" "rd \<noteq> kNullRD" using D(1,2) [of rd] r(1) by auto
  let ?y = "next_of ds rd" and ?p = "prev_of ds rd"
  have y: "?y \<noteq> kNullRD \<longleftrightarrow> ys \<noteq> []" "?y \<noteq> kNullRD \<Longrightarrow> ?y = hd ys \<and> ?y \<in> set ys \<and> unat ?y < length (rd_items ds)"
    using r(1,8) D(1,2) [of "hd ys"] by (cases ys; auto)+
  have p: "?p \<noteq> kNullRD \<longleftrightarrow> xs \<noteq> []" "?p \<noteq> kNullRD \<Longrightarrow> ?p = last xs \<and> ?p \<in> set xs \<and> unat ?p < length (rd_items ds)"
  proof -
    have "last xs \<in> set xs" if "xs \<noteq> []" using that by simp
    then show "?p \<noteq> kNullRD \<longleftrightarrow> xs \<noteq> []" "?p \<noteq> kNullRD \<Longrightarrow> ?p = last xs \<and> ?p \<in> set xs \<and> unat ?p < length (rd_items ds)"
      using r(1,11) D(1,2) [of "last xs"] by (auto split: if_splits)
  qed
  have ne: "?y \<noteq> kNullRD \<Longrightarrow> ?y \<noteq> rd" "?p \<noteq> kNullRD \<Longrightarrow> ?p \<noteq> rd" "?y \<noteq> kNullRD \<Longrightarrow> ?p \<noteq> kNullRD \<Longrightarrow> ?p \<noteq> ?y"
    using y(2) p(2) r(3) by auto
  obtain ds1 where d1: "(if ?y \<noteq> kNullRD then put_item ?y (\<lambda>nx. nx\<lparr>rdi_prev := ?p\<rparr>) ds else Some ds) = Some ds1"
    "ds1 = ds\<lparr>rd_items := rd_items ds1\<rparr>" "length (rd_items ds1) = length (rd_items ds)"
    "\<forall>x. rd_items ds1 ! unat x = (if ?y \<noteq> kNullRD \<and> x = ?y then (rd_items ds ! unat ?y)\<lparr>rdi_prev := ?p\<rparr> else rd_items ds ! unat x)"
    using maybe_put_item_ok [of "?y \<noteq> kNullRD" ?y ds "\<lambda>nx. nx\<lparr>rdi_prev := ?p\<rparr>"] y(2) by blast
  obtain ds2 where d2: "(if ?p \<noteq> kNullRD then put_item ?p (\<lambda>pv. pv\<lparr>rdi_next := ?y\<rparr>) ds1 else Some ds1) = Some ds2"
    "ds2 = ds1\<lparr>rd_items := rd_items ds2\<rparr>" "length (rd_items ds2) = length (rd_items ds1)"
    "\<forall>x. rd_items ds2 ! unat x = (if ?p \<noteq> kNullRD \<and> x = ?p then (rd_items ds1 ! unat ?p)\<lparr>rdi_next := ?y\<rparr> else rd_items ds1 ! unat x)"
    using maybe_put_item_ok [of "?p \<noteq> kNullRD" ?p ds1 "\<lambda>pv. pv\<lparr>rdi_next := ?y\<rparr>"] p(2) d1(3) by auto
  have nr: "\<not> (?y \<noteq> kNullRD \<and> rd = ?y)" "\<not> (?p \<noteq> kNullRD \<and> rd = ?p)" using ne(1,2) by metis+
  have it: "rd_items ds1 ! unat rd = rd_items ds ! unat rd" "rd_items ds2 ! unat rd = rd_items ds ! unat rd"
    by (simp_all only: d1(4) [rule_format, of rd] d2(4) [rule_format, of rd] nr if_False)
  define ds3 where "ds3 = ds2\<lparr>rd_active_first := if rd_active_first ds2 = rd then ?y else rd_active_first ds2,
    rd_active_last := if rd_active_last ds2 = rd then ?p else rd_active_last ds2,
    rd_items := (rd_items ds2)[unat rd := (rd_items ds ! unat rd)\<lparr>rdi_next := rd_unused_first ds, rdi_epoch := epoch_of ds rd + 1\<rparr>],
    rd_unused_first := rd, outstanding_request_count := outstanding_request_count ds - 1\<rparr>"
  have same: "rd_unused_first ds2 = rd_unused_first ds" "rd_active_first ds2 = rd_active_first ds"
    "rd_active_last ds2 = rd_active_last ds" "outstanding_request_count ds2 = outstanding_request_count ds"
    using same_but_items [OF d1(2)] same_but_items [OF d2(2)] by simp_all
  have rd2: "unat rd < length (rd_items ds1)" "unat rd < length (rd_items ds2)" using rd(1) d1(3) d2(3) by simp_all
  have fold: "rdi_next (rd_items ds ! unat rd) = ?y" "rdi_prev (rd_items ds ! unat rd) = ?p"
    by (simp_all add: next_of_def prev_of_def)
  have rest: "do {
      ds' \<leftarrow> put_item rd (\<lambda>it. it\<lparr>rdi_next := rd_unused_first d\<rparr>) d;
      let ds' = ds'\<lparr>rd_unused_first := rd\<rparr>;
      ds' \<leftarrow> put_item rd (\<lambda>it. it\<lparr>rdi_epoch := rdi_epoch it + 1\<rparr>) ds';
      Some (ds'\<lparr>outstanding_request_count := outstanding_request_count ds' - 1\<rparr>)
    } = Some (d\<lparr>rd_items := (rd_items d)[unat rd := (rd_items d ! unat rd)\<lparr>rdi_next := rd_unused_first d,
        rdi_epoch := rdi_epoch (rd_items d ! unat rd) + 1\<rparr>],
      rd_unused_first := rd, outstanding_request_count := outstanding_request_count d - 1\<rparr>)"
    if "unat rd < length (rd_items d)" for d
    using that by (simp add: put_item_Some)
  have "release_rd rd ds = Some ds3"
    unfolding release_rd_def rd_item_Some [OF rd(1)] Option.bind_lunit fold d1(1) rd_item_Some [OF rd2(1)] it d2(1)
      rd_item_Some [OF rd2(2)] Let_def
    by (subst rest [unfolded Let_def])
      (use rd2(2) same it in \<open>simp_all add: ds3_def epoch_of_def\<close>)
  moreover have items: "rd_items ds3 ! unat x = (if x = rd then (rd_items ds ! unat rd)\<lparr>rdi_next := rd_unused_first ds, rdi_epoch := epoch_of ds rd + 1\<rparr>
      else if ?p \<noteq> kNullRD \<and> x = ?p then (rd_items ds ! unat x)\<lparr>rdi_next := ?y\<rparr>
      else if ?y \<noteq> kNullRD \<and> x = ?y then (rd_items ds ! unat x)\<lparr>rdi_prev := ?p\<rparr>
      else rd_items ds ! unat x)" for x
  proof (cases "x = rd")
    case True
    then show ?thesis using rd2(2) by (simp add: ds3_def)
  next
    case False
    then have "rd_items ds3 ! unat x = rd_items ds2 ! unat x" using rd2(2) by (simp add: ds3_def item_update)
    moreover have "rd_items ds1 ! unat ?p = rd_items ds ! unat ?p" if "?p \<noteq> kNullRD"
    proof -
      have "\<not> (?y \<noteq> kNullRD \<and> ?p = ?y)" using ne(3) that by metis
      then show ?thesis by (simp only: d1(4) [rule_format, of ?p] if_False)
    qed
    ultimately show ?thesis
      using False d1(4) [rule_format, of x] d2(4) [rule_format, of x] by (cases "?p \<noteq> kNullRD \<and> x = ?p"; cases "?y \<noteq> kNullRD \<and> x = ?y") (simp_all only: simp_thms if_True if_False)
  qed
  have P: "(?p \<noteq> kNullRD \<and> x = ?p) = (xs \<noteq> [] \<and> x = last xs)" "(?y \<noteq> kNullRD \<and> x = ?y) = (ys \<noteq> [] \<and> x = hd ys)" for x
    using p y by metis+
  have apart: "ys \<noteq> [] \<and> x = hd ys \<Longrightarrow> x \<noteq> rd \<and> \<not> (xs \<noteq> [] \<and> x = last xs)" for x
  proof -
    have "set xs \<inter> set ys = {}" "rd \<notin> set ys" using r(3) by auto
    then show "ys \<noteq> [] \<and> x = hd ys \<Longrightarrow> x \<noteq> rd \<and> \<not> (xs \<noteq> [] \<and> x = last xs)"
      by (metis disjoint_iff hd_in_set last_in_set)
  qed
  have nx: "next_of ds3 x = (if x = rd then rd_unused_first ds else if xs \<noteq> [] \<and> x = last xs then ?y else next_of ds x)" for x
    by (simp only: next_of_def items updated_item(1) P [unfolded next_of_def])
  have pv: "prev_of ds3 x = (if ys \<noteq> [] \<and> x = hd ys then ?p else prev_of ds x)" for x
    by (simp only: prev_of_def items updated_item(2) P [unfolded prev_of_def]) (use apart [of x] in \<open>simp split: if_splits\<close>)
  have ends: "xs \<noteq> [] \<Longrightarrow> last xs \<notin> set ys" "xs \<noteq> [] \<Longrightarrow> last xs \<notin> set un" "ys \<noteq> [] \<Longrightarrow> hd ys \<notin> set xs"
  proof -
    have "set xs \<inter> set ys = {}" "set xs \<inter> set un = {}" using r(3) by auto
    then show "xs \<noteq> [] \<Longrightarrow> last xs \<notin> set ys" "xs \<noteq> [] \<Longrightarrow> last xs \<notin> set un" "ys \<noteq> [] \<Longrightarrow> hd ys \<notin> set xs"
      by (metis disjoint_iff hd_in_set last_in_set)+
  qed
  have "rd_lists n ds3 (xs @ ys) (rd # un)"
  proof -
    have "nexts (next_of ds3) xs (hd (ys @ [kNullRD]))"
    proof (cases "xs = []")
      case False
      show ?thesis by (rule nexts_end [OF r(7) _ False]) (use r(3,8) nx in auto)
    qed simp
    moreover have "nexts (next_of ds3) ys kNullRD"
      using r(3,9) nx ends(1) by (subst nexts_cong [of _ _ "next_of ds"]) auto
    moreover have "prevs (prev_of ds3) kNullRD xs"
      using r(3,10) pv ends(3) by (subst prevs_cong [of _ _ "prev_of ds"]) auto
    moreover have "prevs (prev_of ds3) (last (kNullRD # xs)) ys"
    proof (cases "ys = []")
      case False
      show ?thesis by (rule prevs_start [OF r(12)]) (use r(3,11) pv False in auto)
    qed simp
    moreover have "nexts (next_of ds3) un kNullRD"
      using r(3,14) nx ends(2) by (subst nexts_cong [of _ _ "next_of ds"]) auto
    moreover have "rd_active_first ds3 = hd ((xs @ ys) @ [kNullRD])"
      using r(3,5,8) same(2) by (cases xs) (auto simp: ds3_def)
    moreover have "rd_active_last ds3 = last (kNullRD # xs @ ys)"
    proof (cases "ys = []")
      case True
      then show ?thesis using r(6,11) same(3) by (simp add: ds3_def)
    next
      case False
      then have "last ys \<in> set ys" by simp
      then have "rd_active_last ds2 \<noteq> rd" using r(3,6) same(3) False by auto
      then show ?thesis using r(6) same(3) False by (simp add: ds3_def)
    qed
    moreover have "length (rd_items ds3) = n" using r(1) d1(3) d2(3) by (simp add: ds3_def)
    ultimately show ?thesis
      using r(2-4,13,15) nx [of rd] by (auto simp: rd_lists_def nexts_append prevs_append ds3_def)
  qed
  moreover have "epoch_of ds3 = (epoch_of ds)(rd := epoch_of ds rd + 1)"
    by (rule ext) (simp only: epoch_of_def items updated_item(3) fun_upd_apply)
  moreover have "expire_of ds3 = expire_of ds"
    by (rule ext) (simp add: expire_of_def items updated_item(4))
  moreover have "arg_of ds3 = arg_of ds"
    by (rule ext) (simp add: arg_of_def items updated_item(5))
  ultimately show ?thesis by blast
qed

section \<open>The table refines two lists\<close>

lemma nexts_upt:
  assumes "\<And>i. i < n \<Longrightarrow> f (of_nat i) = (if Suc i = n then e else of_nat (Suc i))" "k \<le> n"
  shows "nexts f (map of_nat [k..<n]) e"
  using assms(2)
proof (induction "n - k" arbitrary: k)
  case (Suc m)
  then have k: "k < n" "m = n - Suc k" by simp_all
  then have "nexts f (map of_nat [Suc k..<n]) e" using Suc.hyps(1) [of "Suc k"] by simp
  moreover have "f (of_nat k) = hd (map of_nat [Suc k..<n] @ [e])"
    using assms(1) [OF k(1)] k(1) by (cases "Suc k = n") (simp_all add: upt_rec [of "Suc k" n])
  ultimately show ?case using k(1) by (simp add: upt_rec [of k n])
qed simp

lemma u16_below:
  assumes "n \<le> 2 ^ 16"
  shows "of_nat ` {..<n} = {rd :: u16. unat rd < n}" "distinct (map (of_nat :: nat \<Rightarrow> u16) [0..<n])"
proof -
  show "of_nat ` {..<n} = {rd :: u16. unat rd < n}"
  proof (intro equalityI subsetI)
    fix rd :: u16 assume "rd \<in> {rd. unat rd < n}"
    then show "rd \<in> of_nat ` {..<n}" by (intro image_eqI [of _ _ "unat rd"]) simp_all
  next
    fix rd :: u16 assume "rd \<in> of_nat ` {..<n}"
    then obtain i where "rd = of_nat i" "i < n" by blast
    then show "rd \<in> {rd. unat rd < n}" using assms by (simp add: unat_of_nat)
  qed
  have "inj_on (of_nat :: nat \<Rightarrow> u16) (set [0..<n])"
  proof (rule inj_onI)
    fix i j assume "i \<in> set [0..<n]" "j \<in> set [0..<n]" "(of_nat i :: u16) = of_nat j"
    then have "unat (of_nat i :: u16) = unat (of_nat j :: u16)" "i < 2 ^ 16" "j < 2 ^ 16" using assms by simp_all
    then show "i = j" by (simp add: unat_of_nat)
  qed
  then show "distinct (map (of_nat :: nat \<Rightarrow> u16) [0..<n])" by (simp add: distinct_map)
qed

lemma init_rds_ok:
  assumes n: "unat (kMaxOutstandingRequestCount c) = n" "0 < n" "n < 2 ^ 16" "length (rd_items ds) = n"
  shows "rd_lists n (init_rds c ds) [] (map of_nat [0..<n])" "epoch_of (init_rds c ds) rd = 0 \<or> n \<le> unat rd"
proof -
  let ?ds = "init_rds c ds"
  have at: "rd_items ?ds ! i = (rd_items ds ! i)\<lparr>rdi_next := if Suc i = n then kNullRD else of_nat (Suc i), rdi_epoch := 0\<rparr>" if "i < n" for i
    using that n by (simp add: init_rds_def Let_def)
  have "next_of ?ds (of_nat i) = (if Suc i = n then kNullRD else of_nat (Suc i))" if "i < n" for i
    using at [OF that] that n(3) by (simp add: next_of_def unat_of_nat)
  from nexts_upt [OF this, of 0] have "nexts (next_of ?ds) (map of_nat [0..<n]) kNullRD" by simp
  moreover have "hd (map of_nat [0..<n] @ [kNullRD]) = (0 :: u16)" using n(2) by (simp add: upt_rec [of 0 n])
  ultimately show "rd_lists n ?ds [] (map of_nat [0..<n])"
    using n u16_below [of n] by (simp add: rd_lists_def) (simp add: init_rds_def Let_def atLeast0LessThan)
  show "epoch_of ?ds rd = 0 \<or> n \<le> unat rd" using at [of "unat rd"] by (cases "unat rd < n") (simp_all add: epoch_of_def)
qed

lemma can_request_iff:
  assumes "rd_lists n ds act un" "unat (kMaxOutstandingRequestCount c) = n"
  shows "can_request c ds \<longleftrightarrow> un \<noteq> []"
proof -
  have l: "length act + length un = n" "n < 2 ^ 16" "outstanding_request_count ds = of_nat (length act)"
    using rd_listsD(4) [OF assms(1)] assms(1) by (simp_all add: rd_lists_def)
  then have "unat (ucast (outstanding_request_count ds) :: u32) = length act"
    by (simp add: unat_ucast_mod unat_of_nat)
  then show ?thesis using l(1) assms(2) by (auto simp: can_request_def word_less_nat_alt)
qed

datatype 'a rd_op = Allocate u64 'a | Release u16

fun rd_ops :: "client_env \<Rightarrow> 'a rd_op list \<Rightarrow> 'a descriptors \<Rightarrow> 'a descriptors option" where
  "rd_ops env [] ds = Some ds"
| "rd_ops env (Allocate now arg # ops) ds = do { (rd, ds) \<leftarrow> allocate_rd env now arg ds; rd_ops env ops ds }"
| "rd_ops env (Release rd # ops) ds = do { ds \<leftarrow> release_rd rd ds; rd_ops env ops ds }"

text \<open>The same operations on a queue of used and a stack of unused descriptors.\<close>

fun list_ops :: "'a rd_op list \<Rightarrow> u16 list \<times> u16 list \<Rightarrow> (u16 list \<times> u16 list) option" where
  "list_ops [] s = Some s"
| "list_ops (Allocate now arg # ops) (act, un) = (case un of [] \<Rightarrow> None | u # us \<Rightarrow> list_ops ops (act @ [u], us))"
| "list_ops (Release rd # ops) (act, un) = (if rd \<in> set act then list_ops ops (remove1 rd act, rd # un) else None)"

lemma release_member:
  assumes "rd_lists n ds act un" "rd \<in> set act"
  shows "\<exists>ds'. release_rd rd ds = Some ds' \<and> rd_lists n ds' (remove1 rd act) (rd # un)
    \<and> epoch_of ds' = (epoch_of ds)(rd := epoch_of ds rd + 1) \<and> expire_of ds' = expire_of ds \<and> arg_of ds' = arg_of ds"
proof -
  obtain xs ys where s: "act = xs @ rd # ys" using assms(2) by (auto simp: in_set_conv_decomp)
  have "distinct act" using assms(1) by (simp add: rd_lists_def)
  then have "remove1 rd act = xs @ ys" using s by (simp add: remove1_append)
  then show ?thesis using release_rd_ok [of n ds xs rd ys un] assms(1) s by simp
qed

lemma rd_ops_ok:
  assumes "rd_lists n ds act un" "list_ops ops (act, un) = Some (act', un')"
  shows "\<exists>ds'. rd_ops env ops ds = Some ds' \<and> rd_lists n ds' act' un'"
  using assms
proof (induction ops arbitrary: ds act un)
  case (Cons op ops)
  show ?case
  proof (cases op)
    case (Allocate now arg)
    then obtain u us where un: "un = u # us" "list_ops ops (act @ [u], us) = Some (act', un')"
      using Cons.prems(2) by (auto split: list.splits)
    obtain ds1 where "allocate_rd env now arg ds = Some (u, ds1)" "rd_lists n ds1 (act @ [u]) us"
      using allocate_rd_ok [of n ds act u us env now arg] Cons.prems(1) un(1) by auto
    then show ?thesis using Cons.IH [OF _ un(2)] Allocate by simp
  next
    case (Release rd)
    then have rd: "rd \<in> set act" "list_ops ops (remove1 rd act, rd # un) = Some (act', un')"
      using Cons.prems(2) by (auto split: if_splits)
    obtain ds1 where "release_rd rd ds = Some ds1" "rd_lists n ds1 (remove1 rd act) (rd # un)"
      using release_member [OF Cons.prems(1) rd(1)] by blast
    then show ?thesis using Cons.IH [OF _ rd(2)] Release by simp
  qed
qed simp

text \<open>
  C7. The table of request descriptors, two lists threaded through one array, refines a queue of
  used and a stack of unused descriptors: from \<^verbatim>\<open>init_rds\<close> on, any allocations and releases of
  descriptors in use leave the links of what the lists hold, and \<^verbatim>\<open>can_request\<close> tells whether a
  descriptor is left.
\<close>
theorem descriptors_refine_lists:
  assumes "unat (kMaxOutstandingRequestCount c) = n" "0 < n" "n < 2 ^ 16" "length (rd_items ds) = n"
    and "list_ops ops ([], map of_nat [0..<n]) = Some (act, un)"
  shows "\<exists>ds'. rd_ops env ops (init_rds c ds) = Some ds' \<and> rd_lists n ds' act un \<and> (can_request c ds' \<longleftrightarrow> un \<noteq> [])"
proof -
  obtain ds' where ds': "rd_ops env ops (init_rds c ds) = Some ds'" "rd_lists n ds' act un"
    using rd_ops_ok [OF init_rds_ok(1) [OF assms(1-4)] assms(5)] by blast
  then show ?thesis using can_request_iff [OF ds'(2) assms(1)] by blast
qed

definition small_client_config :: client_config where
  "small_client_config = BasicDatagramClientConfig\<lparr>kMaxOutstandingRequestCount := 3\<rparr>"

definition small_env :: client_env where
  "small_env = \<lparr>ce_config = small_client_config, ce_c_1_usec = 1, ce_endpoint_info = (\<lambda>_. (replicate 6 0, 0, 0)),
     ce_buffer = replicate 1536 0\<rparr>"

definition raw_descriptors :: "nat descriptors" where
  "raw_descriptors = \<lparr>rd_items = replicate 3 \<lparr>rdi_next = 9, rdi_prev = 9, rdi_epoch = 9, rdi_expire_time = 9, rdi_arg = 0\<rparr>,
     rd_unused_first = 9, rd_active_first = 9, rd_active_last = 9, outstanding_request_count = 9\<rparr>"

theorem descriptors_refine_lists_witness:
  "\<exists>ds'. rd_ops small_env [Allocate 5 1, Allocate 6 2, Allocate 7 3, Release 1, Allocate 8 4, Release 0] (init_rds small_client_config raw_descriptors) = Some ds'
    \<and> rd_lists 3 ds' [2, 1] [0] \<and> (can_request small_client_config ds' \<longleftrightarrow> [0 :: u16] \<noteq> [])"
proof -
  have l: "map of_nat [0..<3] = [0, 1, 2 :: u16]" by (simp add: upt_rec)
  show ?thesis by (rule descriptors_refine_lists) (simp_all add: l small_client_config_def raw_descriptors_def)
qed

end
