(* ===== verification/Datagram_Requests.thy ===== *)
theory Datagram_Requests
  imports Datagram_Descriptors
begin

text \<open>
  The life of a request: a client thread sends requests, receives responses (in any order, again,
  or never) and looks at the clock (\<open>client_step\<close>); \<open>world_inv\<close> ties the outstanding requests
  and the calls of the handler to the requests made.
\<close>

section \<open>Timeouts\<close>

definition late :: "client_config \<Rightarrow> u64 \<Rightarrow> u64 \<Rightarrow> bool" where
  "late c now t \<longleftrightarrow> kSkipRX c \<or> sint (now - t) \<ge> 0"

lemma sint_nonneg_iff: "sint (x :: u64) \<ge> 0 \<longleftrightarrow> unat x < 2 ^ 63"
proof -
  have "sint x \<ge> 0 \<longleftrightarrow> \<not> bit (unat x) 63"
    by (simp add: sint_uint bit_unat bit_uint_iff)
  also have "\<dots> \<longleftrightarrow> even (unat x div 2 ^ 63)" by (simp add: bit_iff_odd)
  also have "\<dots> \<longleftrightarrow> unat x < 2 ^ 63"
  proof -
    have "unat x < 2 ^ 64" using unsigned_less [of x, where ?'a = nat] by simp
    then have "unat x div 2 ^ 63 < 2" by (simp add: div_less_iff_less_mult)
    then show ?thesis by (cases "unat x div 2 ^ 63 = 0") (auto simp: div_eq_0_iff less_2_cases_iff)
  qed
  finally show ?thesis .
qed

lemma late_iff:
  assumes "\<not> kSkipRX c" "unat now < 2 ^ 63" "unat t < 2 ^ 63"
  shows "late c now t \<longleftrightarrow> unat t \<le> unat now"
proof -
  have "unat (now - t) < 2 ^ 63 \<longleftrightarrow> unat t \<le> unat now"
  proof (cases "t \<le> now")
    case True
    then show ?thesis using assms(2) by (simp add: unat_sub_le word_le_nat_alt)
  next
    case False
    then have "unat (now - t) = 2 ^ 64 + unat now - unat t"
      by (simp add: unat_sub_if_size word_size word_le_nat_alt)
    then show ?thesis using False assms(3) by (simp add: word_le_nat_alt)
  qed
  then show ?thesis using assms(1) by (simp add: late_def sint_nonneg_iff)
qed

lemma expire_requests_ok:
  assumes "rd_lists n (cl_rds cl) act un"
  shows "\<exists>cl'. expire_requests c now cl = Some cl'
    \<and> rd_lists n (cl_rds cl') (dropWhile (\<lambda>rd. late c now (expire_of (cl_rds cl) rd)) act)
        (rev (takeWhile (\<lambda>rd. late c now (expire_of (cl_rds cl) rd)) act) @ un)
    \<and> cl_handled cl' = cl_handled cl @ map (\<lambda>rd. Handle rd (result_code KTimedOut) [] (arg_of (cl_rds cl) rd))
        (takeWhile (\<lambda>rd. late c now (expire_of (cl_rds cl) rd)) act)
    \<and> expire_of (cl_rds cl') = expire_of (cl_rds cl) \<and> arg_of (cl_rds cl') = arg_of (cl_rds cl)
    \<and> (\<forall>rd. epoch_of (cl_rds cl') rd = epoch_of (cl_rds cl) rd
        + (if rd \<in> set (takeWhile (\<lambda>rd. late c now (expire_of (cl_rds cl) rd)) act) then 1 else 0))"
  using assms
proof (induction act arbitrary: cl un)
  case Nil
  then have "rd_active_first (cl_rds cl) = kNullRD" by (simp add: rd_lists_def)
  then show ?case using Nil by (simp add: expire_requests.simps [of c now cl])
next
  case (Cons rd act)
  note D = rd_listsD [OF Cons.prems]
  have first: "rd_active_first (cl_rds cl) = rd" "rd \<noteq> kNullRD" "unat rd < length (rd_items (cl_rds cl))" "rd \<notin> set act"
    using Cons.prems D(1,2) [of rd] by (auto simp: rd_lists_def)
  let ?it = "rd_items (cl_rds cl) ! unat rd"
  show ?case
  proof (cases "late c now (expire_of (cl_rds cl) rd)")
    case False
    then have "expire_requests c now cl = Some cl"
      using first by (simp add: expire_requests.simps [of c now cl] rd_item_Some late_def expire_of_def)
    then show ?thesis using False Cons.prems by simp
  next
    case True
    obtain ds where ds: "release_rd rd (cl_rds cl) = Some ds" "rd_lists n ds act (rd # un)"
      "epoch_of ds = (epoch_of (cl_rds cl))(rd := epoch_of (cl_rds cl) rd + 1)"
      "expire_of ds = expire_of (cl_rds cl)" "arg_of ds = arg_of (cl_rds cl)"
      using release_rd_ok [of n "cl_rds cl" "[]" rd act un] Cons.prems by auto
    let ?w = "cl_stats cl"
    let ?cl = "cl\<lparr>cl_handled := cl_handled cl @ [Handle rd (result_code KTimedOut) [] (arg_of (cl_rds cl) rd)], cl_rds := ds,
      cl_stats := ?w\<lparr>num_operations_done := num_operations_done ?w + 1, num_operations_timeout := num_operations_timeout ?w + 1\<rparr>\<rparr>"
    have step: "expire_requests c now cl = expire_requests c now ?cl"
      using True first ds(1) by (subst expire_requests.simps) (simp add: rd_item_Some late_def expire_of_def arg_of_def Let_def)
    have "rd_lists n (cl_rds ?cl) act (rd # un)" using ds(2) by simp
    from Cons.IH [OF this] show ?thesis
      using True first(4) unfolding step by (auto simp: ds(3-5) dest: set_takeWhileD)
  qed
qed

section \<open>Every request completes once\<close>

text \<open>
  The client between its users and the network: requests are made while a descriptor is left, responses
  come in, and the clock goes on. The arguments of the requests and their opaque numbers are recorded.
  A response may carry any opaque number at all, that of an outstanding request, of a late one or of one that
  was answered before, or a forged one, with one exception: a number that no request had and that still
  names a descriptor under its current epoch, because the code accepts it although
  the descriptor is not in use.
\<close>

record 'a world =
  w_now :: u64
  w_client :: "'a client"
  w_args :: "'a list"
  w_opaques :: "u32 list"

definition matches_epoch :: "client_config \<Rightarrow> 'a descriptors \<Rightarrow> u32 \<Rightarrow> bool" where
  "matches_epoch c ds opaque \<longleftrightarrow> (ucast (opaque_rd opaque) :: u32) < kMaxOutstandingRequestCount c
     \<and> epoch_of ds (opaque_rd opaque) = opaque_epoch opaque"

definition may_arrive :: "client_env \<Rightarrow> 'a world \<Rightarrow> u32 \<Rightarrow> bool" where
  "may_arrive env w opaque \<longleftrightarrow>
     opaque \<in> set (w_opaques w) \<or> \<not> matches_epoch (ce_config env) (cl_rds (w_client w)) opaque"

inductive client_step :: "client_env \<Rightarrow> 'a world \<Rightarrow> 'a world \<Rightarrow> bool" for env where
  send: "w_now w \<le> t \<Longrightarrow> can_request (ce_config env) (cl_rds (w_client w))
    \<Longrightarrow> allocate_rd env t arg (cl_rds (w_client w)) = Some (rd, ds)
    \<Longrightarrow> client_step env w (w\<lparr>w_now := t, w_client := (w_client w)\<lparr>cl_rds := ds\<rparr>, w_args := arg # w_args w,
          w_opaques := make_opaque rd (epoch_of ds rd) # w_opaques w\<rparr>)"
| response: "may_arrive env w opaque \<Longrightarrow> deliver (ce_config env) opaque (Some (res, val)) (w_client w) = Some cl
    \<Longrightarrow> client_step env w (w\<lparr>w_client := cl\<rparr>)"
| timeouts: "w_now w \<le> t \<Longrightarrow> expire_requests (ce_config env) t (w_client w) = Some cl
    \<Longrightarrow> client_step env w (w\<lparr>w_now := t, w_client := cl\<rparr>)"

definition world_start :: "client_env \<Rightarrow> 'a client \<Rightarrow> 'a world \<Rightarrow> bool" where
  "world_start env cl w \<longleftrightarrow> w_client w = cl\<lparr>cl_rds := init_rds (ce_config env) (cl_rds cl), cl_handled := []\<rparr>
     \<and> w_args w = [] \<and> w_opaques w = []"

definition request_cycles :: "client_env \<Rightarrow> u64" where
  "request_cycles env = ce_c_1_usec env * ucast (kRequestTimeout (ce_config env))"

definition world_inv :: "client_env \<Rightarrow> nat \<Rightarrow> u16 list \<Rightarrow> u16 list \<Rightarrow> 'a world \<Rightarrow> bool" where
  "world_inv env n act un w \<longleftrightarrow>
     (let ds = cl_rds (w_client w); handled = cl_handled (w_client w) in
      rd_lists n ds act un
      \<and> mset (map hc_arg handled) + mset (map (arg_of ds) act) = mset (w_args w)
      \<and> (\<forall>rd. unat rd < n \<longrightarrow> unat (epoch_of ds rd) \<le> length handled)
      \<and> (\<forall>opaque \<in> set (w_opaques w). unat (opaque_rd opaque) < n
           \<and> unat (opaque_epoch opaque) \<le> unat (epoch_of ds (opaque_rd opaque))
           \<and> (opaque_epoch opaque = epoch_of ds (opaque_rd opaque) \<longrightarrow> opaque_rd opaque \<in> set act))
      \<and> sorted (map (\<lambda>rd. unat (expire_of ds rd)) act)
      \<and> (\<forall>rd \<in> set act. unat (expire_of ds rd) \<le> unat (w_now w) + unat (request_cycles env)))"

lemma opaque_parts: "opaque_rd (make_opaque rd epoch) = rd" "opaque_epoch (make_opaque rd epoch) = epoch"
proof -
  show "opaque_rd (make_opaque rd epoch) = rd"
    unfolding opaque_rd_def make_opaque_def by (rule bit_word_eqI) (auto simp: bit_simps dest: bit_imp_le_length)
  have m: "(push_bit 16 1 - 1 :: u32) = mask 16" by (simp add: mask_eq_decr_exp push_bit_eq_mult)
  show "opaque_epoch (make_opaque rd epoch) = epoch"
    unfolding opaque_epoch_def make_opaque_def m by (rule bit_word_eqI) (auto simp: bit_simps)
qed

lemma world_handled_length:
  assumes "world_inv env n act un w"
  shows "length (cl_handled (w_client w)) + length act = length (w_args w)"
proof -
  have "mset (map hc_arg (cl_handled (w_client w))) + mset (map (arg_of (cl_rds (w_client w))) act) = mset (w_args w)"
    using assms by (simp add: world_inv_def Let_def)
  then have "size (mset (map hc_arg (cl_handled (w_client w))) + mset (map (arg_of (cl_rds (w_client w))) act)) = size (mset (w_args w))"
    by (rule arg_cong)
  then show ?thesis by simp
qed

lemma world_inv_start:
  assumes "world_start env cl w" "unat (kMaxOutstandingRequestCount (ce_config env)) = n" "0 < n" "n < 2 ^ 16"
    "length (rd_items (cl_rds cl)) = n"
  shows "world_inv env n [] (map of_nat [0..<n]) w"
proof -
  note I = init_rds_ok [OF assms(2-5)]
  have "unat (epoch_of (init_rds (ce_config env) (cl_rds cl)) rd) = 0" if "unat rd < n" for rd
    using I(2) [of rd] that by auto
  then show ?thesis using assms(1) I(1) by (simp add: world_inv_def world_start_def Let_def)
qed

lemma world_inv_send:
  assumes inv: "world_inv env n act un w" and t: "w_now w \<le> t" "unat t + unat (request_cycles env) < 2 ^ 63"
    and kn: "unat (kMaxOutstandingRequestCount (ce_config env)) = n"
    and can: "can_request (ce_config env) (cl_rds (w_client w))"
    and al: "allocate_rd env t arg (cl_rds (w_client w)) = Some (rd, ds)"
  shows "\<exists>us. un = rd # us \<and> world_inv env n (act @ [rd]) us
    (w\<lparr>w_now := t, w_client := (w_client w)\<lparr>cl_rds := ds\<rparr>, w_args := arg # w_args w,
          w_opaques := make_opaque rd (epoch_of ds rd) # w_opaques w\<rparr>)"
proof -
  let ?ds = "cl_rds (w_client w)"
  have rep: "rd_lists n ?ds act un" using inv by (simp add: world_inv_def Let_def)
  obtain u us where un: "un = u # us" using can can_request_iff [OF rep kn] by (cases un) auto
  have a: "rd = u" "rd_lists n ds (act @ [u]) us" "epoch_of ds = epoch_of ?ds"
    "expire_of ds = (expire_of ?ds)(u := expiry env t)" "arg_of ds = (arg_of ?ds)(u := arg)"
    using allocate_rd_ok [of n ?ds act u us env t arg] rep un al by auto
  have D: "unat u < n" "u \<notin> set act" using rep un rd_listsD(1) [OF rep, of u] by (auto simp: rd_lists_def)
  have e: "unat (expiry env t) = unat t + unat (request_cycles env)"
    using t(2) unat_add_no_overflow [of t "request_cycles env"] by (simp add: expiry_def request_cycles_def)
  have old: "unat (expire_of ?ds x) \<le> unat (w_now w) + unat (request_cycles env)" if "x \<in> set act" for x
    using inv that by (simp add: world_inv_def Let_def)
  have now: "unat (w_now w) \<le> unat t" using t(1) by (simp add: word_le_nat_alt)
  have same: "map (arg_of ds) act = map (arg_of ?ds) act"
    "map (\<lambda>x. unat (expire_of ds x)) act = map (\<lambda>x. unat (expire_of ?ds x)) act"
    by (rule map_cong [OF refl], use D(2) a(4,5) in auto)+
  have s0: "sorted (map (\<lambda>x. unat (expire_of ?ds x)) act)" using inv by (simp add: world_inv_def Let_def)
  have eu: "unat (expire_of ds u) = unat t + unat (request_cycles env)" using e by (simp add: a(4))
  have le: "unat (expire_of ds x) \<le> unat t + unat (request_cycles env)" if "x \<in> set (act @ [u])" for x
  proof (cases "x = u")
    case False
    then have "unat (expire_of ds x) \<le> unat (w_now w) + unat (request_cycles env)" using that old [of x] by (simp add: a(4))
    then show ?thesis using now by linarith
  qed (simp add: eu)
  have "sorted (map (\<lambda>x. unat (expire_of ds x)) act @ [unat (expire_of ds u)])"
  proof -
    have "sorted (map (\<lambda>x. unat (expire_of ds x)) act)" using s0 by (simp only: same(2))
    then show ?thesis using le by (auto simp: sorted_append eu)
  qed
  then have "sorted (map (\<lambda>x. unat (expire_of ds x)) (act @ [u]))" by simp
  moreover have "\<forall>x \<in> set (act @ [u]). unat (expire_of ds x) \<le> unat t + unat (request_cycles env)" using le by blast
  moreover have "\<forall>opaque \<in> set (make_opaque rd (epoch_of ds rd) # w_opaques w). unat (opaque_rd opaque) < n
      \<and> unat (opaque_epoch opaque) \<le> unat (epoch_of ds (opaque_rd opaque))
      \<and> (opaque_epoch opaque = epoch_of ds (opaque_rd opaque) \<longrightarrow> opaque_rd opaque \<in> set (act @ [u]))"
    using inv a(1,3) D(1) by (auto simp: world_inv_def Let_def opaque_parts)
  moreover have "mset (map hc_arg (cl_handled (w_client w))) + mset (map (arg_of ds) (act @ [u])) = mset (arg # w_args w)"
  proof -
    have "map (arg_of ds) (act @ [u]) = map (arg_of ?ds) act @ [arg]" unfolding map_append same(1) by (simp add: a(5))
    moreover have "mset (map hc_arg (cl_handled (w_client w))) + mset (map (arg_of ?ds) act) = mset (w_args w)"
      using inv by (simp add: world_inv_def Let_def)
    ultimately show ?thesis by (simp only: mset_append mset.simps) simp
  qed
  moreover have "\<forall>x. unat x < n \<longrightarrow> unat (epoch_of ds x) \<le> length (cl_handled (w_client w))"
    using inv by (simp add: world_inv_def Let_def a(3))
  ultimately show ?thesis using un a(1,2) by (simp add: world_inv_def Let_def)
qed

lemma world_inv_response:
  assumes inv: "world_inv env n act un w" and kn: "unat (kMaxOutstandingRequestCount (ce_config env)) = n" "n < 2 ^ 16"
    and few: "length (w_args w) < 2 ^ 16" and op: "may_arrive env w opaque"
  shows "\<exists>cl act' un'. deliver (ce_config env) opaque (Some (res, val)) (w_client w) = Some cl
    \<and> world_inv env n act' un' (w\<lparr>w_client := cl\<rparr>)"
proof -
  let ?cl = "w_client w" and ?rd = "opaque_rd opaque"
  let ?ds = "cl_rds ?cl"
  have rep: "rd_lists n ?ds act un" using inv by (simp add: world_inv_def Let_def)
  have len: "length (rd_items ?ds) = n" using rep by (simp add: rd_lists_def)
  have u32: "unat (ucast ?rd :: u32) = unat ?rd"
    using unsigned_less [of ?rd, where ?'a = nat] by (simp add: unat_ucast_mod)
  show ?thesis
  proof (cases "matches_epoch (ce_config env) ?ds opaque")
    case False
    have "deliver (ce_config env) opaque (Some (res, val)) ?cl = Some ?cl"
    proof (cases "(ucast ?rd :: u32) \<ge> kMaxOutstandingRequestCount (ce_config env)")
      case False
      then have "unat ?rd < n" using kn(1) u32 by (simp add: word_le_nat_alt)
      then have "rd_item ?rd ?ds = Some (rd_items ?ds ! unat ?rd)" using len by (intro rd_item_Some) simp
      then show ?thesis
        using False \<open>\<not> matches_epoch (ce_config env) ?ds opaque\<close>
        by (simp add: deliver_def Let_def epoch_of_def matches_epoch_def not_le)
    qed (simp add: deliver_def Let_def)
    moreover have "w\<lparr>w_client := w_client w\<rparr> = w" by simp
    ultimately show ?thesis using inv by metis
  next
    case True
    then have in_range: "\<not> (ucast ?rd :: u32) \<ge> kMaxOutstandingRequestCount (ce_config env)"
      and ep_eq: "epoch_of ?ds ?rd = opaque_epoch opaque"
      and mem_op: "opaque \<in> set (w_opaques w)"
      using op by (simp_all add: matches_epoch_def may_arrive_def not_le)
    have o: "unat ?rd < n" and mem: "?rd \<in> set act"
      using inv mem_op ep_eq by (simp_all add: world_inv_def Let_def)
    have it: "rd_item ?rd ?ds = Some (rd_items ?ds ! unat ?rd)" using len o by (intro rd_item_Some) simp
    obtain ds where ds: "release_rd ?rd ?ds = Some ds" "rd_lists n ds (remove1 ?rd act) (?rd # un)"
      "epoch_of ds = (epoch_of ?ds)(?rd := epoch_of ?ds ?rd + 1)" "expire_of ds = expire_of ?ds" "arg_of ds = arg_of ?ds"
      using release_member [OF rep mem] by blast
    let ?cl' = "?cl\<lparr>cl_handled := cl_handled ?cl @ [Handle ?rd res val (arg_of ?ds ?rd)], cl_rds := ds,
      cl_stats := count_response res (cl_stats ?cl)\<rparr>"
    have "deliver (ce_config env) opaque (Some (res, val)) ?cl = Some ?cl'"
      using in_range it ep_eq ds(1) by (simp add: deliver_def Let_def epoch_of_def arg_of_def)
    moreover have "world_inv env n (remove1 ?rd act) (?rd # un) (w\<lparr>w_client := ?cl'\<rparr>)"
    proof -
      have len: "length (cl_handled ?cl) < length (w_args w)"
        using world_handled_length [OF inv] mem by (cases act) auto
      have ep: "unat (epoch_of ?ds x) \<le> length (cl_handled ?cl)" if "unat x < n" for x
        using inv that by (simp add: world_inv_def Let_def)
      have up: "unat (epoch_of ?ds ?rd + 1) = Suc (unat (epoch_of ?ds ?rd))"
        using ep [OF o] len few by (subst unat_add_no_overflow) simp_all
      have "mset (map (arg_of ?ds) act) = add_mset (arg_of ?ds ?rd) (mset (map (arg_of ?ds) (remove1 ?rd act)))"
      proof -
        have "mset act = add_mset ?rd (mset (remove1 ?rd act))" using mem by simp
        then have "image_mset (arg_of ?ds) (mset act) = image_mset (arg_of ?ds) (add_mset ?rd (mset (remove1 ?rd act)))" by (rule arg_cong)
        then show ?thesis by (simp only: mset_map image_mset_add_mset)
      qed
      moreover have "unat (epoch_of ds x) \<le> Suc (length (cl_handled ?cl))" if "unat x < n" for x
        using ep [OF that] up by (cases "x = ?rd") (simp_all add: ds(3))
      moreover have "unat (opaque_rd x) < n \<and> unat (opaque_epoch x) \<le> unat (epoch_of ds (opaque_rd x))
          \<and> (opaque_epoch x = epoch_of ds (opaque_rd x) \<longrightarrow> opaque_rd x \<in> set (remove1 ?rd act))" if "x \<in> set (w_opaques w)" for x
      proof -
        have x: "unat (opaque_rd x) < n" "unat (opaque_epoch x) \<le> unat (epoch_of ?ds (opaque_rd x))"
          "opaque_epoch x = epoch_of ?ds (opaque_rd x) \<Longrightarrow> opaque_rd x \<in> set act"
          using inv that by (simp_all add: world_inv_def Let_def)
        show ?thesis
        proof (cases "opaque_rd x = ?rd")
          case True
          then have "unat (opaque_epoch x) < unat (epoch_of ds (opaque_rd x))" using x(2) up by (simp add: ds(3))
          then show ?thesis using x(1) by auto
        next
          case False
          then show ?thesis using x by (simp add: ds(3))
        qed
      qed
      moreover have "sorted (map (\<lambda>x. unat (expire_of ?ds x)) (remove1 ?rd act))"
        using inv by (simp add: world_inv_def Let_def sorted_map_remove1)
      moreover have "set (remove1 ?rd act) \<subseteq> set act" by (rule set_remove1_subset)
      ultimately show ?thesis using inv ds(2,4,5) by (auto simp: world_inv_def Let_def)
    qed
    ultimately show ?thesis by blast
  qed
qed

lemma world_inv_timeouts:
  assumes inv: "world_inv env n act un w" and t: "w_now w \<le> t" and few: "length (w_args w) < 2 ^ 16"
  shows "\<exists>cl. expire_requests (ce_config env) t (w_client w) = Some cl
    \<and> world_inv env n (dropWhile (\<lambda>rd. late (ce_config env) t (expire_of (cl_rds (w_client w)) rd)) act)
        (rev (takeWhile (\<lambda>rd. late (ce_config env) t (expire_of (cl_rds (w_client w)) rd)) act) @ un)
        (w\<lparr>w_now := t, w_client := cl\<rparr>)"
proof -
  let ?cl = "w_client w"
  let ?ds = "cl_rds ?cl" and ?P = "\<lambda>rd. late (ce_config env) t (expire_of (cl_rds (w_client w)) rd)"
  let ?out = "takeWhile ?P act" and ?in = "dropWhile ?P act"
  have rep: "rd_lists n ?ds act un" using inv by (simp add: world_inv_def Let_def)
  obtain cl where cl: "expire_requests (ce_config env) t ?cl = Some cl" "rd_lists n (cl_rds cl) ?in (rev ?out @ un)"
    "cl_handled cl = cl_handled ?cl @ map (\<lambda>rd. Handle rd (result_code KTimedOut) [] (arg_of ?ds rd)) ?out"
    "expire_of (cl_rds cl) = expire_of ?ds" "arg_of (cl_rds cl) = arg_of ?ds"
    "\<forall>rd. epoch_of (cl_rds cl) rd = epoch_of ?ds rd + (if rd \<in> set ?out then 1 else 0)"
    using expire_requests_ok [OF rep, of "ce_config env" t] by (elim exE conjE) (rule that)
  have act: "act = ?out @ ?in" by simp
  have args: "mset (map hc_arg (cl_handled cl)) + mset (map (arg_of (cl_rds cl)) ?in) = mset (w_args w)"
  proof -
    have "mset (map hc_arg (cl_handled cl)) + mset (map (arg_of (cl_rds cl)) ?in)
        = mset (map hc_arg (cl_handled ?cl)) + mset (map (arg_of ?ds) (?out @ ?in))"
      unfolding cl(3,5) map_append mset_append by (simp add: comp_def)
    then show ?thesis using inv by (simp add: world_inv_def Let_def)
  qed
  have len: "length (cl_handled ?cl) + length act = length (w_args w)" by (rule world_handled_length [OF inv])
  have ep: "unat (epoch_of ?ds x) \<le> length (cl_handled ?cl)" if "unat x < n" for x
    using inv that by (simp add: world_inv_def Let_def)
  have up: "unat (epoch_of (cl_rds cl) x) = Suc (unat (epoch_of ?ds x))" if "x \<in> set ?out" for x
  proof -
    have x: "x \<in> set act" using that by (rule set_takeWhileD [THEN conjunct1])
    then have "act \<noteq> []" "unat x < n" using rd_listsD(1) [OF rep, of x] by auto
    then have "unat (epoch_of ?ds x) < 2 ^ 16 - 1" using ep [of x] len few by (cases act) auto
    then have "unat (epoch_of ?ds x + 1) = Suc (unat (epoch_of ?ds x))" by (subst unat_add_no_overflow) simp_all
    then show ?thesis using that cl(6) by simp
  qed
  have keep: "epoch_of (cl_rds cl) x = epoch_of ?ds x" if "x \<notin> set ?out" for x using that cl(6) by simp
  have "unat (epoch_of (cl_rds cl) x) \<le> length (cl_handled cl)" if "unat x < n" for x
  proof (cases "x \<in> set ?out")
    case True
    then have "0 < length ?out" by (rule length_pos_if_in_set)
    moreover have "length (cl_handled cl) = length (cl_handled ?cl) + length ?out" by (simp add: cl(3))
    ultimately show ?thesis using ep [OF that] up [OF True] by linarith
  next
    case False
    then show ?thesis using ep [OF that] keep [OF False] by (simp add: cl(3))
  qed
  moreover have "unat (opaque_rd x) < n \<and> unat (opaque_epoch x) \<le> unat (epoch_of (cl_rds cl) (opaque_rd x))
      \<and> (opaque_epoch x = epoch_of (cl_rds cl) (opaque_rd x) \<longrightarrow> opaque_rd x \<in> set ?in)" if "x \<in> set (w_opaques w)" for x
  proof -
    have x: "unat (opaque_rd x) < n" "unat (opaque_epoch x) \<le> unat (epoch_of ?ds (opaque_rd x))"
      "opaque_epoch x = epoch_of ?ds (opaque_rd x) \<Longrightarrow> opaque_rd x \<in> set act"
      using inv that by (simp_all add: world_inv_def Let_def)
    show ?thesis
    proof (cases "opaque_rd x \<in> set ?out")
      case True
      then have "unat (opaque_epoch x) < unat (epoch_of (cl_rds cl) (opaque_rd x))" using x(2) up by simp
      then show ?thesis using x(1) by auto
    next
      case False
      moreover have "set act = set ?out \<union> set ?in" by (subst act) (simp only: set_append)
      ultimately show ?thesis using x keep [OF False] by auto
    qed
  qed
  moreover have "sorted (map (\<lambda>x. unat (expire_of ?ds x)) ?in)"
  proof -
    have "sorted (map (\<lambda>x. unat (expire_of ?ds x)) (?out @ ?in))" using inv by (simp add: world_inv_def Let_def)
    then show ?thesis unfolding map_append sorted_append by blast
  qed
  moreover have "\<forall>x \<in> set ?in. unat (expire_of ?ds x) \<le> unat t + unat (request_cycles env)"
  proof
    fix x assume "x \<in> set ?in"
    then have "x \<in> set act" by (rule set_dropWhileD)
    then have "unat (expire_of ?ds x) \<le> unat (w_now w) + unat (request_cycles env)" using inv by (simp add: world_inv_def Let_def)
    then show "unat (expire_of ?ds x) \<le> unat t + unat (request_cycles env)" using t by (simp add: word_le_nat_alt)
  qed
  ultimately have "world_inv env n ?in (rev ?out @ un) (w\<lparr>w_now := t, w_client := cl\<rparr>)"
    using cl(2,4) args by (simp add: world_inv_def Let_def)
  then show ?thesis using cl(1) by blast
qed

lemma client_step_mono: "client_step env w w' \<Longrightarrow> length (w_args w) \<le> length (w_args w') \<and> w_now w \<le> w_now w'"
  by (induction rule: client_step.induct) auto

lemma client_reach:
  assumes "world_start env cl w0" "rtranclp (client_step env) w0 w"
    and n: "unat (kMaxOutstandingRequestCount (ce_config env)) = n" "0 < n" "n < 2 ^ 16" "length (rd_items (cl_rds cl)) = n"
    and "length (w_args w) < 2 ^ 16" "unat (w_now w) + unat (request_cycles env) < 2 ^ 63"
  shows "\<exists>act un. world_inv env n act un w"
  using assms(2,7,8)
proof (induction rule: rtranclp_induct)
  case base
  then show ?case using world_inv_start [OF assms(1) n] by blast
next
  case (step w w')
  have m: "length (w_args w) \<le> length (w_args w')" "w_now w \<le> w_now w'" using client_step_mono [OF step.hyps(2)] by simp_all
  then have few: "length (w_args w) < 2 ^ 16" and "unat (w_now w) + unat (request_cycles env) < 2 ^ 63"
    using step.prems by (simp_all add: word_le_nat_alt)
  then obtain act un where inv: "world_inv env n act un w" using step.IH by blast
  show ?case using step.hyps(2)
  proof cases
    case (send t arg rd ds)
    then show ?thesis
      using world_inv_send [OF inv send(2) _ n(1) send(3,4)] step.prems(2) by auto
  next
    case (response opaque res val cl)
    then show ?thesis
      using world_inv_response [OF inv n(1,3) few response(2), of res val] by auto
  next
    case (timeouts t cl)
    then show ?thesis using world_inv_timeouts [OF inv timeouts(2) few] by auto
  qed
qed

lemma all_complete:
  assumes inv: "world_inv env n act un w" and few: "length (w_args w) < 2 ^ 16"
    and t: "unat (w_now w) + unat (request_cycles env) \<le> unat t" "unat t < 2 ^ 63"
  shows "\<exists>cl' un'. expire_requests (ce_config env) t (w_client w) = Some cl'
    \<and> rd_lists n (cl_rds cl') [] un' \<and> mset (map hc_arg (cl_handled cl')) = mset (w_args w)"
proof -
  let ?P = "\<lambda>rd. late (ce_config env) t (expire_of (cl_rds (w_client w)) rd)"
  have "?P x" if "x \<in> set act" for x
  proof -
    have e: "unat (expire_of (cl_rds (w_client w)) x) \<le> unat (w_now w) + unat (request_cycles env)"
      using inv that by (simp add: world_inv_def Let_def)
    then show ?thesis using late_iff [of "ce_config env" t "expire_of (cl_rds (w_client w)) x"] t
      by (cases "kSkipRX (ce_config env)") (simp_all add: late_def)
  qed
  then have d: "dropWhile ?P act = []" by simp
  have "w_now w \<le> t" using t(1) by (simp add: word_le_nat_alt)
  from world_inv_timeouts [OF inv this few] obtain cl' where cl': "expire_requests (ce_config env) t (w_client w) = Some cl'"
    "world_inv env n [] (rev (takeWhile ?P act) @ un) (w\<lparr>w_now := t, w_client := cl'\<rparr>)"
    unfolding d by blast
  then show ?thesis by (auto simp: world_inv_def Let_def)
qed

section \<open>Properties of the client\<close>

text \<open>
  C1. Every request completes, of fewer than 65536 made while the clock is below \<open>2 ^ 63\<close>. Responses may
  come late, twice, not at all, or with forged numbers, except a number that no request had and that names
  a descriptor under its current epoch (\<open>may_arrive\<close>). Each of them can be taken in; and at the first look
  at the clock after the timeout of the requests made so far, the loop over the timeouts ends, each
  request's handler has been called exactly once, and every descriptor is free again.
\<close>
theorem requests_complete:
  assumes "world_start env cl w0" "rtranclp (client_step env) w0 w"
    and "unat (kMaxOutstandingRequestCount (ce_config env)) = n" "0 < n" "n < 2 ^ 16" "length (rd_items (cl_rds cl)) = n"
    and "length (w_args w) < 2 ^ 16" "unat (w_now w) + unat (request_cycles env) \<le> unat t" "unat t < 2 ^ 63"
  shows "(\<forall>opaque res val. may_arrive env w opaque
      \<longrightarrow> (\<exists>cl'. deliver (ce_config env) opaque (Some (res, val)) (w_client w) = Some cl'))
    \<and> (\<exists>cl' un'. expire_requests (ce_config env) t (w_client w) = Some cl'
      \<and> rd_lists n (cl_rds cl') [] un' \<and> mset (map hc_arg (cl_handled cl')) = mset (w_args w))"
proof -
  have "unat (w_now w) + unat (request_cycles env) < 2 ^ 63" using assms(8,9) by linarith
  then obtain act un where inv: "world_inv env n act un w" using client_reach [OF assms(1-7)] by blast
  then show ?thesis
    using all_complete [OF inv assms(7-9)] world_inv_response [OF inv assms(3,5,7)] by blast
qed

text \<open>
  C15. No request completes twice: at any time every request made is either outstanding or has
  had its handler called, once, as long as fewer than 65536 requests were made, so that no epoch
  comes round again, and no response carries a number that no request had and that names a
  descriptor under its current epoch.
\<close>
theorem requests_complete_once:
  assumes "world_start env cl w0" "rtranclp (client_step env) w0 w"
    and "unat (kMaxOutstandingRequestCount (ce_config env)) = n" "0 < n" "n < 2 ^ 16" "length (rd_items (cl_rds cl)) = n"
    and "length (w_args w) < 2 ^ 16" "unat (w_now w) + unat (request_cycles env) < 2 ^ 63"
  shows "\<exists>act un. rd_lists n (cl_rds (w_client w)) act un
    \<and> mset (map hc_arg (cl_handled (w_client w))) + mset (map (arg_of (cl_rds (w_client w))) act) = mset (w_args w)"
proof -
  obtain act un where "world_inv env n act un w" using client_reach [OF assms] by blast
  then show ?thesis by (auto simp: world_inv_def Let_def)
qed

definition small_client :: "nat client" where
  "small_client = \<lparr>cl_rds = raw_descriptors, cl_rx_tx_states = [], cl_servers = [], cl_request_states = [],
     cl_need_to_update_remote_eid = False,
     cl_stats = \<lparr>num_operations_done = 0, num_operations_succeeded = 0, num_operations_rejected = 0, num_operations_timeout = 0\<rparr>,
     cl_handled = [], cl_sent = []\<rparr>"

definition small_world :: "nat world" where
  "small_world = \<lparr>w_now = 4, w_client = small_client\<lparr>cl_rds := init_rds small_client_config raw_descriptors, cl_handled := []\<rparr>,
     w_args = [], w_opaques = []\<rparr>"

lemma small_start: "world_start small_env small_client small_world"
  by (simp add: world_start_def small_world_def small_env_def small_client_def)

lemma small_sizes:
  "unat (kMaxOutstandingRequestCount (ce_config small_env)) = 3" "length (rd_items (cl_rds small_client)) = 3"
  "unat (request_cycles small_env) = 1000"
  by (simp_all add: small_env_def small_client_config_def small_client_def raw_descriptors_def request_cycles_def BasicDatagramClientConfig_def)

lemma small_send: "\<exists>w :: nat world. client_step small_env small_world w \<and> w_args w = [42] \<and> w_now w = 7"
proof -
  have r: "rd_lists 3 (cl_rds (w_client small_world)) [] (map of_nat [0..<3])"
    using init_rds_ok(1) [of small_client_config 3 raw_descriptors] small_sizes
    by (simp add: small_env_def small_client_def small_world_def)
  have l: "map of_nat [0..<3] = [0, 1, 2 :: u16]" by (simp add: upt_rec)
  obtain ds where ds: "allocate_rd small_env 7 42 (cl_rds (w_client small_world)) = Some (0, ds)"
    using allocate_rd_ok [of 3 "cl_rds (w_client small_world)" "[]" 0 "[1, 2]" small_env 7 42] r unfolding l by auto
  have "can_request (ce_config small_env) (cl_rds (w_client small_world))"
    using can_request_iff [OF r small_sizes(1)] unfolding l by simp
  then show ?thesis
    using client_step.send [of small_world 7 small_env 42 0 ds] ds by (auto simp: small_world_def)
qed

theorem requests_complete_witness:
  "\<exists>w :: nat world. w_args w = [42]
    \<and> (\<forall>opaque res val. may_arrive small_env w opaque
      \<longrightarrow> (\<exists>cl'. deliver (ce_config small_env) opaque (Some (res, val)) (w_client w) = Some cl'))
    \<and> (\<exists>(cl' :: nat client) un'. expire_requests (ce_config small_env) 2000 (w_client w) = Some cl'
      \<and> rd_lists 3 (cl_rds cl') [] un' \<and> mset (map hc_arg (cl_handled cl')) = mset (w_args w))"
proof -
  obtain w where w: "client_step small_env small_world w" "w_args w = [42]" "w_now w = 7" using small_send by blast
  show ?thesis
    by (rule exI [of _ w], rule conjI, rule w(2), rule requests_complete [OF small_start r_into_rtranclp [of "client_step small_env", OF w(1)]])
      (simp_all add: small_sizes w(2,3))
qed

theorem requests_complete_once_witness:
  "\<exists>w :: nat world. w_args w = [42] \<and> (\<exists>act un. rd_lists 3 (cl_rds (w_client w)) act un
    \<and> mset (map hc_arg (cl_handled (w_client w))) + mset (map (arg_of (cl_rds (w_client w))) act) = mset (w_args w))"
proof -
  obtain w where w: "client_step small_env small_world w" "w_args w = [42]" "w_now w = 7" using small_send by blast
  show ?thesis
    by (rule exI [of _ w], rule conjI, rule w(2), rule requests_complete_once [OF small_start r_into_rtranclp [of "client_step small_env", OF w(1)]])
      (simp_all add: small_sizes w(2,3))
qed

end
