(* ===== verification/Datagram_Server.thy ===== *)
theory Datagram_Server
  imports Datagram_Protocol Partitions
begin

text \<open>
  The server of \<^verbatim>\<open>mica/datagram/datagram_server.h\<close> and \<^verbatim>\<open>datagram_server_impl.h\<close> on one core: the
  \<^verbatim>\<open>RequestAccessor\<close> through which the processor takes the requests out of the packets received
  and puts its answers into packets of responses, the loop of \<^verbatim>\<open>SimpleProcessor::process\<close> over it, with
  its table, and the rounds of the worker. The network is a parameter: the packets received. A
  read or a write outside an array or a packet, and a loop that does not end, have the result
  \<^const>\<open>None\<close>.
\<close>

section \<open>State (\<^verbatim>\<open>datagram_server.h\<close>)\<close>

record server_config =
  sc_kTXBurst :: u16
  sc_kTXMinBurst :: u16
  sc_kTXBurstTimeout :: u16
  sc_kMaxParsedRequestCount :: u64

definition BasicDatagramServerConfig :: server_config where
  "BasicDatagramServerConfig = \<lparr>sc_kTXBurst = 32, sc_kTXMinBurst = 1, sc_kTXBurstTimeout = 10, sc_kMaxParsedRequestCount = 128\<rparr>"

text \<open>\<open>pr_key\<close> and \<open>pr_value\<close> are offsets into the bytes of \<open>pr_src_buf\<close>.\<close>

record parsed_request =
  pr_src_buf :: packet
  pr_key :: nat
  pr_value :: nat
  pr_key_hash :: u64
  pr_value_length :: u32
  pr_opaque :: u32
  pr_key_length :: u8
  pr_operation :: u8
  pr_last_in_packet :: bool

text \<open>The packets that wait to be sent, and the bursts that were.\<close>

record server_tx =
  tx_pending :: "packet list"
  tx_oldest_time :: u64
  tx_sent :: "packet list list"

record server_stats =
  ss_operations_done :: u64
  ss_operations_succeeded :: u64

text \<open>
  \<open>ra_next_packet\<close> is the index of the next packet of \<open>ra_bufs\<close> to parse: \<^verbatim>\<open>buf_iter_\<close> with
  \<^verbatim>\<open>USE_ENSO\<close>, else \<^verbatim>\<open>next_packet_index_to_parse_\<close>. \<open>ra_released\<close> holds the request packets given
  back to the network.
\<close>

record accessor =
  ra_bufs :: "packet list"
  ra_next_packet :: nat
  ra_now :: u64
  ra_requests :: "parsed_request list"
  ra_b :: builder
  ra_value_length :: u64
  ra_result :: u8
  ra_next_index_to_prepare :: u16
  ra_next_index_to_retire :: u16
  ra_tx :: server_tx
  ra_released :: "packet list"
  ra_stats :: server_stats

text \<open>From outside: the bytes of a new packet buffer and the cycles of a microsecond.\<close>

record server_env =
  se_config :: server_config
  se_buffer :: "u8 list"
  se_c_1_usec :: u64

definition kParsedRequestMask :: "server_env \<Rightarrow> u64" where
  "kParsedRequestMask env = sc_kMaxParsedRequestCount (se_config env) - 1"

section \<open>Parsing (\<^verbatim>\<open>parse_request_batch\<close>)\<close>

definition read_parsed :: "packet \<Rightarrow> reader \<Rightarrow> parsed_request option" where
  "read_parsed buf r =
     do {
       op \<leftarrow> get_operation r;
       key_hash \<leftarrow> get_key_hash r;
       key \<leftarrow> get_key r;
       key_length \<leftarrow> reader_key_length r;
       val \<leftarrow> get_value r;
       value_length \<leftarrow> reader_value_length r;
       opaque \<leftarrow> get_opaque r;
       Some \<lparr>pr_src_buf = buf, pr_key = key, pr_value = val, pr_key_hash = key_hash, pr_value_length = ucast value_length,
         pr_opaque = opaque, pr_key_length = ucast key_length, pr_operation = op, pr_last_in_packet = False\<rparr>
     }"

text \<open>An assignment to \<^verbatim>\<open>requests_[i]\<close>.\<close>

definition put_request :: "u64 \<Rightarrow> (parsed_request \<Rightarrow> parsed_request) \<Rightarrow> accessor \<Rightarrow> accessor option" where
  "put_request i f ra =
     do { pr \<leftarrow> elem_at (ra_requests ra) (unat i); Some (ra\<lparr>ra_requests := (ra_requests ra)[unat i := f pr]\<rparr>) }"

partial_function (option) parse_requests :: "server_env \<Rightarrow> packet \<Rightarrow> reader \<Rightarrow> accessor \<Rightarrow> accessor option" where
  "parse_requests env buf r ra =
     do {
       (more, r) \<leftarrow> find_next r;
       if \<not> more then Some ra
       else do {
         pr \<leftarrow> read_parsed buf r;
         ra \<leftarrow> put_request (ucast (ra_next_index_to_prepare ra) AND kParsedRequestMask env) (\<lambda>_. pr) ra;
         parse_requests env buf r (ra\<lparr>ra_next_index_to_prepare := ra_next_index_to_prepare ra + 1\<rparr>)
       }
     }"

declare parse_requests.simps [code]

text \<open>
  One turn of the loop over the packets: with the value to return, or with \<^const>\<open>None\<close> for another
  turn. With \<^verbatim>\<open>USE_ENSO\<close>, \<^verbatim>\<open>buf_iter_\<close> moves on only behind a packet with a request; without, the
  index moves on first.
\<close>

definition parse_turn :: "bool \<Rightarrow> server_env \<Rightarrow> accessor \<Rightarrow> (bool option \<times> accessor) option" where
  "parse_turn enso env ra =
     (if length (ra_bufs ra) \<le> ra_next_packet ra then Some (Some False, ra)
      else do {
        let buf = ra_bufs ra ! ra_next_packet ra;
        let ra = (if enso then ra else ra\<lparr>ra_next_packet := ra_next_packet ra + 1\<rparr>);
        (valid, r) \<leftarrow> is_valid enso (reader_new (fst buf) (snd buf));
        req \<leftarrow> (if valid then is_request r else Some False);
        if \<not> req then Some (None, ra)
        else do {
          let org_next_index_to_prepare = ra_next_index_to_prepare ra;
          ra \<leftarrow> parse_requests env buf r ra;
          if ra_next_index_to_prepare ra = org_next_index_to_prepare
          then Some (None, if enso then ra else ra\<lparr>ra_released := ra_released ra @ [buf]\<rparr>)
          else do {
            let last_prepared = (ucast (ra_next_index_to_prepare ra) + kParsedRequestMask env) AND kParsedRequestMask env;
            ra \<leftarrow> put_request last_prepared (\<lambda>pr. pr\<lparr>pr_last_in_packet := True\<rparr>) ra;
            Some (Some True, if enso then ra\<lparr>ra_next_packet := ra_next_packet ra + 1\<rparr> else ra)
          }
        }
      })"

partial_function (option) parse_request_batch :: "bool \<Rightarrow> server_env \<Rightarrow> accessor \<Rightarrow> (bool \<times> accessor) option" where
  "parse_request_batch enso env ra =
     do {
       (res, ra) \<leftarrow> parse_turn enso env ra;
       case res of None \<Rightarrow> parse_request_batch enso env ra | Some found \<Rightarrow> Some (found, ra)
     }"

declare parse_request_batch.simps [code]

section \<open>\<^verbatim>\<open>RequestAccessor\<close>\<close>

definition accessor_prepare :: "bool \<Rightarrow> server_env \<Rightarrow> u64 \<Rightarrow> accessor \<Rightarrow> (bool \<times> accessor) option" where
  "accessor_prepare enso env index ra =
     (if index = ucast (ra_next_index_to_prepare ra) then parse_request_batch enso env ra else Some (True, ra))"

definition parsed_at :: "server_env \<Rightarrow> u64 \<Rightarrow> accessor \<Rightarrow> parsed_request option" where
  "parsed_at env index ra = elem_at (ra_requests ra) (unat (index AND kParsedRequestMask env))"

definition accessor_get_operation :: "server_env \<Rightarrow> u64 \<Rightarrow> accessor \<Rightarrow> u8 option" where
  "accessor_get_operation env index ra = map_option pr_operation (parsed_at env index ra)"

definition accessor_get_key_hash :: "server_env \<Rightarrow> u64 \<Rightarrow> accessor \<Rightarrow> u64 option" where
  "accessor_get_key_hash env index ra = map_option pr_key_hash (parsed_at env index ra)"

definition accessor_get_key :: "server_env \<Rightarrow> u64 \<Rightarrow> accessor \<Rightarrow> nat option" where
  "accessor_get_key env index ra = map_option pr_key (parsed_at env index ra)"

definition accessor_get_key_length :: "server_env \<Rightarrow> u64 \<Rightarrow> accessor \<Rightarrow> u64 option" where
  "accessor_get_key_length env index ra = map_option (\<lambda>pr. ucast (pr_key_length pr)) (parsed_at env index ra)"

definition accessor_get_value :: "server_env \<Rightarrow> u64 \<Rightarrow> accessor \<Rightarrow> nat option" where
  "accessor_get_value env index ra = map_option pr_value (parsed_at env index ra)"

definition accessor_get_value_length :: "server_env \<Rightarrow> u64 \<Rightarrow> accessor \<Rightarrow> u64 option" where
  "accessor_get_value_length env index ra = map_option (\<lambda>pr. ucast (pr_value_length pr)) (parsed_at env index ra)"

definition accessor_get_opaque :: "server_env \<Rightarrow> u64 \<Rightarrow> accessor \<Rightarrow> u32 option" where
  "accessor_get_opaque env index ra = map_option pr_opaque (parsed_at env index ra)"

definition accessor_get_out_value :: "accessor \<Rightarrow> nat" where
  "accessor_get_out_value ra = get_out_value 0 (ra_b ra)"

definition accessor_get_out_value_length :: "accessor \<Rightarrow> u64" where
  "accessor_get_out_value_length ra = get_max_out_value_length 0 (ra_b ra)"

definition accessor_set_out_value_length :: "u64 \<Rightarrow> accessor \<Rightarrow> accessor" where
  "accessor_set_out_value_length len ra = ra\<lparr>ra_value_length := len\<rparr>"

definition accessor_set_result :: "u8 \<Rightarrow> accessor \<Rightarrow> accessor" where
  "accessor_set_result res ra = ra\<lparr>ra_result := res\<rparr>"

definition make_new_pending_response_batch :: "server_env \<Rightarrow> accessor \<Rightarrow> accessor" where
  "make_new_pending_response_batch env ra = ra\<lparr>ra_b := builder_new (se_buffer env) 0\<rparr>"

definition accessor_new :: "bool \<Rightarrow> server_env \<Rightarrow> accessor \<Rightarrow> accessor" where
  "accessor_new enso env ra = (if enso then ra else make_new_pending_response_batch env ra)"

definition accessor_setup :: "bool \<Rightarrow> server_env \<Rightarrow> packet list \<Rightarrow> u64 \<Rightarrow> accessor \<Rightarrow> accessor" where
  "accessor_setup enso env bufs now ra =
     (let ra = ra\<lparr>ra_bufs := bufs, ra_next_packet := 0, ra_now := now\<rparr>;
          ra = (if enso then make_new_pending_response_batch env ra else ra)
      in ra\<lparr>ra_next_index_to_prepare := 0, ra_next_index_to_retire := 0\<rparr>)"

section \<open>Responses (\<^verbatim>\<open>retire\<close>)\<close>

definition server_send_pending :: "server_tx \<Rightarrow> server_tx" where
  "server_send_pending tx = tx\<lparr>tx_sent := tx_sent tx @ [tx_pending tx], tx_pending := []\<rparr>"

definition server_check_pending_tx_full :: "server_env \<Rightarrow> server_tx \<Rightarrow> server_tx" where
  "server_check_pending_tx_full env tx =
     (if length (tx_pending tx) \<noteq> unat (sc_kTXBurst (se_config env)) then tx else server_send_pending tx)"

definition server_check_pending_tx_min :: "server_env \<Rightarrow> server_tx \<Rightarrow> server_tx" where
  "server_check_pending_tx_min env tx =
     (if length (tx_pending tx) \<noteq> unat (sc_kTXMinBurst (se_config env)) then tx else server_send_pending tx)"

definition server_check_pending_tx_timeout :: "server_env \<Rightarrow> u64 \<Rightarrow> server_tx \<Rightarrow> server_tx" where
  "server_check_pending_tx_timeout env now tx =
     (if tx_pending tx = [] then tx
      else if now - tx_oldest_time tx < se_c_1_usec env * ucast (sc_kTXBurstTimeout (se_config env)) then tx
      else server_send_pending tx)"

text \<open>The response goes back to where the request came from.\<close>

definition address_response :: "reader \<Rightarrow> builder \<Rightarrow> builder option" where
  "address_response src_r b =
     do {
       dest_mac \<leftarrow> get_dest_mac_addr src_r;
       b \<leftarrow> set_src_mac_addr dest_mac b;
       src_mac \<leftarrow> get_src_mac_addr src_r;
       b \<leftarrow> set_dest_mac_addr src_mac b;
       dest_ip \<leftarrow> get_dest_ipv4_addr src_r;
       b \<leftarrow> set_src_ipv4_addr dest_ip b;
       src_ip \<leftarrow> get_src_ipv4_addr src_r;
       b \<leftarrow> set_dest_ipv4_addr src_ip b;
       dest_port \<leftarrow> get_dest_udp_port src_r;
       b \<leftarrow> set_src_udp_port dest_port b;
       src_port \<leftarrow> get_src_udp_port src_r;
       b \<leftarrow> set_dest_udp_port src_port b;
       set_response b
     }"

definition flush_pending_response_batch :: "bool \<Rightarrow> server_env \<Rightarrow> packet \<Rightarrow> accessor \<Rightarrow> accessor option" where
  "flush_pending_response_batch enso env src_buf ra =
     do {
       b \<leftarrow> address_response (reader_new (fst src_buf) (snd src_buf)) (ra_b ra);
       b \<leftarrow> finalize enso b;
       let tx = ra_tx ra;
       let tx = (if tx_pending tx = [] then tx\<lparr>tx_oldest_time := ra_now ra\<rparr> else tx);
       let tx = tx\<lparr>tx_pending := tx_pending tx @ [(bd_data b, bd_buf_length b)]\<rparr>;
       Some (ra\<lparr>ra_b := b, ra_tx := if enso then tx else server_check_pending_tx_full env tx\<rparr>)
     }"

definition accessor_retire :: "bool \<Rightarrow> server_env \<Rightarrow> u64 \<Rightarrow> accessor \<Rightarrow> accessor option" where
  "accessor_retire enso env index ra =
     do {
       op \<leftarrow> accessor_get_operation env index ra;
       opaque \<leftarrow> accessor_get_opaque env index ra;
       key_hash \<leftarrow> accessor_get_key_hash env index ra;
       b \<leftarrow> append_request_no_key_value op (ra_result ra) opaque key_hash 0 (ra_value_length ra) (ra_b ra);
       let ra = ra\<lparr>ra_b := b\<rparr>;
       pr \<leftarrow> parsed_at env index ra;
       let flush_response = (pr_last_in_packet pr \<or> get_max_out_key_length (ra_b ra) = 0);
       ra \<leftarrow> (if flush_response
             then map_option (make_new_pending_response_batch env) (flush_pending_response_batch enso env (pr_src_buf pr) ra)
             else Some ra);
       let ra = (if \<not> enso \<and> pr_last_in_packet pr then ra\<lparr>ra_released := ra_released ra @ [pr_src_buf pr]\<rparr> else ra);
       let w = (ra_stats ra)\<lparr>ss_operations_done := ss_operations_done (ra_stats ra) + 1\<rparr>;
       let w = (if ra_result ra = result_code KSuccess then w\<lparr>ss_operations_succeeded := ss_operations_succeeded w + 1\<rparr> else w);
       Some (ra\<lparr>ra_stats := w, ra_next_index_to_retire := ra_next_index_to_retire ra + 1\<rparr>)
     }"

section \<open>The processor behind the accessor (\<^verbatim>\<open>SimpleProcessor::process\<close>)\<close>

text \<open>
  The loop of \<^verbatim>\<open>simple_processor.h\<close> over this accessor. The table takes keys and values of whole 64-bit
  words, in the byte order of the machine; a request with a key or a value of another length is outside of
  the model (\<^const>\<open>None\<close>), and so is a value that fills the room for it, which the code may cut inside a word.
\<close>

definition operation_of :: "u8 \<Rightarrow> operation" where
  "operation_of code =
     (if code = 0 then KReset else if code = 1 then KNoopRead else if code = 2 then KNoopWrite
      else if code = 3 then KAdd else if code = 4 then KSet else if code = 5 then KGet
      else if code = 6 then KTest else if code = 7 then KDelete else if code = 8 then KIncrement else KOther code)"

fun read_words :: "nat \<Rightarrow> u8 list \<Rightarrow> u64 list option" where
  "read_words 0 bs = (if bs = [] then Some [] else None)"
| "read_words (Suc n) bs = do { w \<leftarrow> get_word 0 bs; ws \<leftarrow> read_words n (drop 8 bs); Some (w # ws) }"

definition words_of :: "u8 list \<Rightarrow> u64 list option" where
  "words_of bs = read_words (length bs div 8) bs"

definition words_bytes :: "u64 list \<Rightarrow> u8 list" where
  "words_bytes ws = concat (map (le_bytes 8) ws)"

definition make_request :: "u64 \<Rightarrow> u8 \<Rightarrow> u64 \<Rightarrow> u8 list \<Rightarrow> u8 list \<Rightarrow> request option" where
  "make_request room op key_hash key val =
     do {
       key \<leftarrow> words_of key;
       val \<leftarrow> words_of val;
       Some \<lparr>r_operation = operation_of op, r_key_hash = key_hash, r_key = key, r_value = val, r_out_value = [],
         r_out_value_length = room, r_result = KNotProcessed\<rparr>
     }"

text \<open>What the processor reads of a request through the accessor, and one turn of its loop.\<close>

definition accessor_request :: "server_env \<Rightarrow> u64 \<Rightarrow> accessor \<Rightarrow> request option" where
  "accessor_request env index ra =
     do {
       pr \<leftarrow> parsed_at env index ra;
       op \<leftarrow> accessor_get_operation env index ra;
       key_hash \<leftarrow> accessor_get_key_hash env index ra;
       k \<leftarrow> accessor_get_key env index ra;
       kl \<leftarrow> accessor_get_key_length env index ra;
       key \<leftarrow> get_bytes k (unat kl) (fst (pr_src_buf pr));
       v \<leftarrow> accessor_get_value env index ra;
       vl \<leftarrow> accessor_get_value_length env index ra;
       val \<leftarrow> get_bytes v (unat vl) (fst (pr_src_buf pr));
       make_request (accessor_get_out_value_length ra) op key_hash key val
     }"

definition answer_request :: "bool \<Rightarrow> server_env \<Rightarrow> u64 \<Rightarrow> accessor \<Rightarrow> ltable \<Rightarrow> (accessor \<times> ltable) option" where
  "answer_request enso env index ra table =
     do {
       r \<leftarrow> accessor_request env index ra;
       (r, table) \<leftarrow> simple_request r table;
       if unat (accessor_get_out_value_length ra) div 8 \<le> length (r_out_value r) then None
       else do {
         b \<leftarrow> put_data (accessor_get_out_value ra) (words_bytes (r_out_value r)) (ra_b ra);
         let ra = accessor_set_out_value_length (r_out_value_length r) (ra\<lparr>ra_b := b\<rparr>);
         let ra = accessor_set_result (result_code (r_result r)) ra;
         ra \<leftarrow> accessor_retire enso env index ra;
         Some (ra, table)
       }
     }"

partial_function (option) accessor_process ::
  "bool \<Rightarrow> server_env \<Rightarrow> u64 \<Rightarrow> accessor \<Rightarrow> ltable \<Rightarrow> (accessor \<times> ltable) option" where
  "accessor_process enso env index ra table =
     do {
       (found, ra) \<leftarrow> accessor_prepare enso env index ra;
       if \<not> found then Some (ra, table)
       else do {
         (ra, table) \<leftarrow> answer_request enso env index ra table;
         accessor_process enso env (index + 1) ra table
       }
     }"

declare accessor_process.simps [code]

section \<open>A round of the worker (\<^verbatim>\<open>worker_proc\<close>)\<close>

text \<open>\<open>proc\<close> is \<^verbatim>\<open>process\<close> of the processor, and \<open>s\<close> the state of the processor.\<close>

definition worker_round ::
  "bool \<Rightarrow> server_env \<Rightarrow> (accessor \<Rightarrow> 's \<Rightarrow> (accessor \<times> 's) option) \<Rightarrow> packet list \<Rightarrow> u64 \<Rightarrow> accessor \<Rightarrow> 's
     \<Rightarrow> (accessor \<times> 's) option" where
  "worker_round enso env proc bufs now ra s =
     (if enso
      then do {
        (ra, s) \<leftarrow> proc (accessor_setup enso env bufs now ra) s;
        let tx = ra_tx ra;
        Some (ra\<lparr>ra_tx := if tx_pending tx = [] then tx else server_send_pending tx\<rparr>, s)
      }
      else do {
        (ra, s) \<leftarrow> (if bufs = [] then Some (ra, s) else proc (accessor_setup enso env bufs now ra) s);
        Some (ra\<lparr>ra_tx := server_check_pending_tx_timeout env now (server_check_pending_tx_min env (ra_tx ra))\<rparr>, s)
      })"

end
