(* ===== verification/Datagram_Bytes.thy ===== *)
theory Datagram_Bytes
  imports Datagram_Protocol
begin

text \<open>
  What the writers of a batch leave in its bytes: \<open>wrote lo hi b b'\<close> says that only the bytes of
  a range changed, \<open>request_there\<close> that a request lies at an offset, \<open>wire_view\<close> what the
  reader shows of it.
\<close>

section \<open>Bytes\<close>

lemma length_le_bytes [simp]: "length (le_bytes n x) = n"
  by (induction n arbitrary: x) auto

lemma le_word_bytes: "le_word (le_bytes n x) = take_bit (8 * n) (x :: 'a::len word)"
proof (induction n arbitrary: x)
  case (Suc n)
  have "(ucast (ucast x :: u8) :: 'a word) = take_bit 8 x"
    by (rule bit_word_eqI) (auto simp: bit_simps)
  then have "le_word (le_bytes (Suc n) x) = take_bit 8 x OR push_bit 8 (take_bit (8 * n) (drop_bit 8 x))"
    by (simp add: Suc.IH)
  also have "\<dots> = take_bit (8 * Suc n) x"
    by (rule bit_word_eqI) (auto simp: bit_simps)
  finally show ?case .
qed simp

lemma put_bytes_Some:
  "offset + length bs \<le> length data \<Longrightarrow> \<exists>data'. put_bytes offset bs data = Some data' \<and> length data' = length data"
  by (simp add: put_bytes_def)

lemma put_bytesD:
  assumes "put_bytes offset bs data = Some data'"
  shows "length data' = length data" "offset + length bs \<le> length data"
    "get_bytes offset (length bs) data' = Some bs"
    "i + n \<le> offset \<or> offset + length bs \<le> i \<Longrightarrow> get_bytes i n data' = get_bytes i n data"
proof -
  have le: "offset + length bs \<le> length data" and d: "data' = take offset data @ bs @ drop (offset + length bs) data"
    using assms by (auto simp: put_bytes_def split: if_splits)
  show len: "length data' = length data" "offset + length bs \<le> length data" using le d by auto
  show "get_bytes offset (length bs) data' = Some bs" using le d by (simp add: get_bytes_def)
  show "get_bytes i n data' = get_bytes i n data" if "i + n \<le> offset \<or> offset + length bs \<le> i"
  proof -
    have "take n (drop i data') = take n (drop i data)" if "i + n \<le> length data"
    proof (rule nth_equalityI)
      show "length (take n (drop i data')) = length (take n (drop i data))" using len by simp
      fix j assume "j < length (take n (drop i data'))"
      then have j: "j < n" "i + j < length data" using len by auto
      consider "i + n \<le> offset" | "offset + length bs \<le> i" using \<open>i + n \<le> offset \<or> offset + length bs \<le> i\<close> by blast
      then have "data' ! (i + j) = data ! (i + j)"
      proof cases
        case 1
        then show ?thesis using j d le by (simp add: nth_append)
      next
        case 2
        then have "\<not> i + j < offset" "\<not> i + j - offset < length bs" by simp_all
        then show ?thesis using j d le 2 by (simp add: nth_append)
      qed
      then show "take n (drop i data') ! j = take n (drop i data) ! j" using j len by simp
    qed
    then show ?thesis using len by (simp add: get_bytes_def)
  qed
qed

section \<open>Writing through the builder\<close>

text \<open>From one state of the builder to the next, only bytes of a range of offsets changed.\<close>

definition wrote :: "nat \<Rightarrow> nat \<Rightarrow> builder \<Rightarrow> builder \<Rightarrow> bool" where
  "wrote lo hi b b' \<longleftrightarrow> b' = b\<lparr>bd_data := bd_data b'\<rparr> \<and> length (bd_data b') = length (bd_data b)
     \<and> (\<forall>k n. k + n \<le> lo \<or> hi \<le> k \<longrightarrow> get_bytes k n (bd_data b') = get_bytes k n (bd_data b))"

lemma wroteD:
  assumes "wrote lo hi b b'"
  shows "length (bd_data b') = length (bd_data b)" "bd_h b' = bd_h b" "bd_count b' = bd_count b"
    "bd_remaining_space b' = bd_remaining_space b" "bd_buf_length b' = bd_buf_length b"
    "k + n \<le> lo \<or> hi \<le> k \<Longrightarrow> get_bytes k n (bd_data b') = get_bytes k n (bd_data b)"
    "k + LENGTH('a) div 8 \<le> lo \<or> hi \<le> k \<Longrightarrow> (get_word k (bd_data b') :: 'a::len word option) = get_word k (bd_data b)"
proof -
  have eq: "b' = b\<lparr>bd_data := bd_data b'\<rparr>" using assms by (simp add: wrote_def)
  show "bd_h b' = bd_h b" "bd_count b' = bd_count b" "bd_remaining_space b' = bd_remaining_space b"
    "bd_buf_length b' = bd_buf_length b" by (subst eq, simp)+
  show "length (bd_data b') = length (bd_data b)"
    "k + n \<le> lo \<or> hi \<le> k \<Longrightarrow> get_bytes k n (bd_data b') = get_bytes k n (bd_data b)"
    "k + LENGTH('a) div 8 \<le> lo \<or> hi \<le> k \<Longrightarrow> (get_word k (bd_data b') :: 'a::len word option) = get_word k (bd_data b)"
    using assms by (auto simp: wrote_def get_word_def)
qed

lemma wrote_refl [simp]: "wrote lo hi b b"
  by (simp add: wrote_def)

lemma wrote_trans:
  assumes "wrote lo hi b b'" "wrote lo' hi' b' b''"
  shows "wrote (min lo lo') (max hi hi') b b''"
proof -
  have "b' = b\<lparr>bd_data := bd_data b'\<rparr>" "b'' = b'\<lparr>bd_data := bd_data b''\<rparr>" using assms by (simp_all add: wrote_def)
  then have "b'' = b\<lparr>bd_data := bd_data b''\<rparr>" by (metis (no_types) builder.update_convs(1) builder.surjective)
  then show ?thesis using wroteD(1,6) [OF assms(1)] wroteD(1,6) [OF assms(2)] by (simp add: wrote_def)
qed

lemma wrote_weaken: "wrote lo hi b b' \<Longrightarrow> lo' \<le> lo \<Longrightarrow> hi \<le> hi' \<Longrightarrow> wrote lo' hi' b b'"
  unfolding wrote_def by (meson order_trans)

lemma wrote_within: "wrote lo hi b b' \<Longrightarrow> wrote lo' hi' b' b'' \<Longrightarrow> lo \<le> lo' \<Longrightarrow> hi' \<le> hi \<Longrightarrow> wrote lo hi b b''"
  using wrote_trans [of lo hi b b' lo hi b''] wrote_weaken [of lo' hi' b' b'' lo hi] by simp

lemma put_data_ok:
  assumes "offset + length bs \<le> length (bd_data b)"
  shows "\<exists>b'. put_data offset bs b = Some b' \<and> wrote offset (offset + length bs) b b'
    \<and> get_bytes offset (length bs) (bd_data b') = Some bs"
proof -
  obtain data where d: "put_bytes offset bs (bd_data b) = Some data"
    using put_bytes_Some [OF assms] by blast
  then have "wrote offset (offset + length bs) b (b\<lparr>bd_data := data\<rparr>)"
    using put_bytesD(1,4) [OF d] by (auto simp: wrote_def)
  then show ?thesis using d put_bytesD(3) [OF d] by (intro exI [of _ "b\<lparr>bd_data := data\<rparr>"]) (simp add: put_data_def)
qed

lemma put_field_data: "put_field offset (x :: 'a::len word) b = put_data offset (le_bytes (LENGTH('a) div 8) x) b"
  by (simp add: put_field_def put_data_def put_word_def)

text \<open>Several writes apart from one another.\<close>

fun put_all :: "(nat \<times> u8 list) list \<Rightarrow> builder \<Rightarrow> builder option" where
  "put_all [] b = Some b"
| "put_all ((offset, bs) # ws) b = do { b \<leftarrow> put_data offset bs b; put_all ws b }"

fun apart :: "nat \<Rightarrow> nat \<Rightarrow> (nat \<times> u8 list) list \<Rightarrow> bool" where
  "apart lo hi [] \<longleftrightarrow> True"
| "apart lo hi ((offset, bs) # ws) \<longleftrightarrow> lo \<le> offset \<and> offset + length bs \<le> hi
     \<and> (\<forall>(i, cs) \<in> set ws. offset + length bs \<le> i \<or> i + length cs \<le> offset) \<and> apart lo hi ws"

lemma put_all_kept:
  assumes "put_all ws b = Some b'" "\<forall>(i, cs) \<in> set ws. offset + n \<le> i \<or> i + length cs \<le> offset"
  shows "get_bytes offset n (bd_data b') = get_bytes offset n (bd_data b)"
  using assms
proof (induction ws arbitrary: b)
  case (Cons v ws)
  then obtain i cs d where v: "v = (i, cs)" "put_bytes i cs (bd_data b) = Some d" "put_all ws (b\<lparr>bd_data := d\<rparr>) = Some b'"
    by (cases v) (auto simp: put_data_def split: bind_splits)
  have "get_bytes offset n d = get_bytes offset n (bd_data b)"
    by (rule put_bytesD(4) [OF v(2)]) (use Cons.prems(2) v(1) in auto)
  then show ?case using Cons.IH [OF v(3)] Cons.prems(2) by simp
qed simp

lemma put_all_ok:
  assumes "apart lo hi ws" "hi \<le> length (bd_data b)"
  shows "\<exists>b'. put_all ws b = Some b' \<and> wrote lo hi b b'
    \<and> (\<forall>(offset, bs) \<in> set ws. get_bytes offset (length bs) (bd_data b') = Some bs)"
  using assms
proof (induction ws arbitrary: b)
  case (Cons w ws)
  obtain offset bs where w: "w = (offset, bs)" by (cases w)
  obtain b1 where b1: "put_data offset bs b = Some b1" "wrote offset (offset + length bs) b b1"
    "get_bytes offset (length bs) (bd_data b1) = Some bs"
    using put_data_ok [of offset bs b] Cons.prems w by auto
  have ap: "apart lo hi ws" "hi \<le> length (bd_data b1)" using Cons.prems w wroteD(1) [OF b1(2)] by auto
  obtain b' where b': "put_all ws b1 = Some b'" "wrote lo hi b1 b'"
    "\<forall>(offset, bs) \<in> set ws. get_bytes offset (length bs) (bd_data b') = Some bs"
    using Cons.IH [OF ap] by blast
  have "wrote lo hi b b1" using b1(2) by (rule wrote_weaken) (use Cons.prems(1) w in auto)
  then have "wrote lo hi b b'" using wrote_within [OF _ b'(2)] by simp
  moreover have "get_bytes offset (length bs) (bd_data b') = Some bs"
    using put_all_kept [OF b'(1)] Cons.prems(1) w b1(3) by simp
  ultimately show ?case using w b1(1) b'(1,3) by auto
qed simp

lemma get_word_le_bytes:
  assumes "get_bytes offset n data = Some (le_bytes n (x :: 'a::len word))" "n = LENGTH('a) div 8" "8 dvd LENGTH('a)"
  shows "get_word offset data = Some x"
proof -
  have "8 * (LENGTH('a) div 8) = LENGTH('a)" using assms(3) by simp
  then have "take_bit (8 * (LENGTH('a) div 8)) x = x" by (metis take_bit_word_eq_self order_refl)
  then show ?thesis using assms(1,2) by (simp add: get_word_def le_word_bytes)
qed

section \<open>One request\<close>

record wire_request =
  wq_operation :: u8
  wq_result :: u8
  wq_opaque :: u32
  wq_key_hash :: u64
  wq_key :: "u8 list"
  wq_value :: "u8 list"

text \<open>The bytes of a key or a value behind its pointer: the copy rounds their number up.\<close>

definition padded :: "u8 list \<Rightarrow> u8 list" where
  "padded bs = bs @ replicate (unat (roundup 8 (of_nat (length bs) :: u64)) - length bs) 0"

definition append_wire :: "wire_request \<Rightarrow> builder \<Rightarrow> builder option" where
  "append_wire q b = append_request (wq_operation q) (wq_result q) (wq_opaque q) (wq_key_hash q)
     (padded (wq_key q)) (of_nat (length (wq_key q))) (padded (wq_value q)) (of_nat (length (wq_value q))) b"

definition wire_size :: "wire_request \<Rightarrow> nat" where
  "wire_size q = request_header_size + length (padded (wq_key q)) + length (padded (wq_value q))"

definition wire_ok :: "wire_request \<Rightarrow> bool" where
  "wire_ok q \<longleftrightarrow> length (wq_key q) < 2 ^ 8 \<and> length (wq_value q) < 2 ^ 24"

lemma roundup8_length:
  assumes "n < 2 ^ 32"
  shows "n \<le> unat (roundup 8 (of_nat n :: u64))" "unat (roundup 8 (of_nat n :: u64)) < n + 8"
proof -
  have u: "unat (of_nat n :: u64) = n" using assms by (simp add: unat_of_nat)
  have "unat (roundup (2 ^ 3) (of_nat n :: u64)) = (n + 7) div 8 * 8"
    using roundup_unat [of 3 "of_nat n :: u64"] assms u by simp
  then have eq: "unat (roundup 8 (of_nat n :: u64)) = (n + 7) div 8 * 8" by simp
  show "n \<le> unat (roundup 8 (of_nat n :: u64))" "unat (roundup 8 (of_nat n :: u64)) < n + 8"
    using ceil_mult_bounds [of 8 n] by (simp_all add: eq)
qed

lemma length_padded: "length bs < 2 ^ 32 \<Longrightarrow> length (padded bs) = unat (roundup 8 (of_nat (length bs) :: u64))"
  using roundup8_length(1) [of "length bs"] by (simp add: padded_def)

lemma take_padded [simp]: "take (length bs) (padded bs) = bs"
  by (simp add: padded_def)

lemma get_bytes_prefix: "get_bytes i n data = Some bs \<Longrightarrow> m \<le> n \<Longrightarrow> get_bytes i m data = Some (take m bs)"
  by (auto simp: get_bytes_def split: if_splits)

text \<open>What a reader at an offset sees.\<close>

definition request_there :: "u8 list \<Rightarrow> nat \<Rightarrow> wire_request \<Rightarrow> bool" where
  "request_there data h q \<longleftrightarrow>
     get_word h data = Some (wq_operation q)
     \<and> get_word (h + 1) data = Some (wq_result q)
     \<and> get_word (h + 8) data = Some (wq_key_hash q)
     \<and> get_word (h + 16) data = Some (wq_opaque q)
     \<and> get_word (h + 4) data = Some (ucast (push_bit 24 (of_nat (length (wq_key q))) OR of_nat (length (wq_value q)) :: u64) :: u32)
     \<and> get_bytes (h + request_header_size) (length (wq_key q)) data = Some (wq_key q)
     \<and> get_bytes (h + request_header_size + length (padded (wq_key q))) (length (wq_value q)) data = Some (wq_value q)"

lemma length_padded_le: "length bs \<le> length (padded bs)"
  by (simp add: padded_def)

lemma request_there_wrote:
  assumes "wrote lo hi b b'" "h + wire_size q \<le> lo \<or> hi \<le> h" "request_there (bd_data b) h q"
  shows "request_there (bd_data b') h q"
proof -
  let ?k = "length (padded (wq_key q))" and ?v = "length (padded (wq_value q))"
  note W = wroteD [OF assms(1)] and P = length_padded_le [of "wq_key q"] length_padded_le [of "wq_value q"]
  have d: "lo \<ge> h + 24 + ?k + ?v \<or> hi \<le> h" using assms(2) by (auto simp: wire_size_def request_header_size_def)
  have "get_word h (bd_data b') = (get_word h (bd_data b) :: u8 option)"
    "get_word (h + 1) (bd_data b') = (get_word (h + 1) (bd_data b) :: u8 option)"
    "get_word (h + 8) (bd_data b') = (get_word (h + 8) (bd_data b) :: u64 option)"
    "get_word (h + 16) (bd_data b') = (get_word (h + 16) (bd_data b) :: u32 option)"
    "get_word (h + 4) (bd_data b') = (get_word (h + 4) (bd_data b) :: u32 option)"
    using d by (auto intro!: W(7))
  moreover have "get_bytes (h + request_header_size) (length (wq_key q)) (bd_data b')
      = get_bytes (h + request_header_size) (length (wq_key q)) (bd_data b)"
    "get_bytes (h + request_header_size + ?k) (length (wq_value q)) (bd_data b')
      = get_bytes (h + request_header_size + ?k) (length (wq_value q)) (bd_data b)"
    using d P by (auto intro!: W(6) simp: request_header_size_def)
  ultimately show ?thesis using assms(3) by (simp add: request_there_def)
qed

lemma put_request_header_all:
  "put_request_header op res opaque key_hash kl vl b =
    put_all [(bd_h b, le_bytes 1 op), (bd_h b + 1, le_bytes 1 res), (bd_h b + 8, le_bytes 8 key_hash),
      (bd_h b + 16, le_bytes 4 opaque), (bd_h b + 2, le_bytes 2 (0 :: u16)),
      (bd_h b + 4, le_bytes 4 (ucast (push_bit 24 kl OR vl) :: u32))] b"
  by (simp add: put_request_header_def put_field_data put_data_def Option.bind_assoc
    del: le_bytes.simps split: bind_splits)

lemma put_request_header_ok:
  assumes "bd_h b + request_header_size \<le> length (bd_data b)"
  shows "\<exists>b'. put_request_header op res opaque key_hash kl vl b = Some b' \<and> wrote (bd_h b) (bd_h b + request_header_size) b b'
    \<and> get_word (bd_h b) (bd_data b') = Some op
    \<and> get_word (bd_h b + 1) (bd_data b') = Some res
    \<and> get_word (bd_h b + 8) (bd_data b') = Some key_hash
    \<and> get_word (bd_h b + 16) (bd_data b') = Some opaque
    \<and> get_word (bd_h b + 4) (bd_data b') = Some (ucast (push_bit 24 kl OR vl) :: u32)"
proof -
  let ?h = "bd_h b" and ?kv = "ucast (push_bit 24 kl OR vl) :: u32"
  let ?ws = "[(?h, le_bytes 1 op), (?h + 1, le_bytes 1 res), (?h + 8, le_bytes 8 key_hash),
    (?h + 16, le_bytes 4 opaque), (?h + 2, le_bytes 2 (0 :: u16)), (?h + 4, le_bytes 4 ?kv)]"
  have "apart ?h (?h + 24) ?ws" by simp
  then obtain b' where b': "put_all ?ws b = Some b'" "wrote ?h (?h + 24) b b'"
    "\<forall>(offset, bs) \<in> set ?ws. get_bytes offset (length bs) (bd_data b') = Some bs"
    using put_all_ok [of ?h "?h + 24" ?ws b] assms by (auto simp: request_header_size_def simp del: apart.simps)
  have "put_request_header op res opaque key_hash kl vl b = put_all ?ws b" by (rule put_request_header_all)
  moreover have "get_word ?h (bd_data b') = Some op" "get_word (?h + 1) (bd_data b') = Some res"
    "get_word (?h + 8) (bd_data b') = Some key_hash" "get_word (?h + 16) (bd_data b') = Some opaque"
    "get_word (?h + 4) (bd_data b') = Some ?kv"
    using b'(3) by (auto intro!: get_word_le_bytes simp del: le_bytes.simps)
  ultimately show ?thesis using b'(1,2) by (simp add: request_header_size_def)
qed

lemma append_wire_ok:
  assumes ok: "wire_ok q" and L: "bd_h b + wire_size q \<le> length (bd_data b)"
  shows "\<exists>b'. append_wire q b = Some b' \<and> request_there (bd_data b') (bd_h b) q
    \<and> bd_h b' = bd_h b + wire_size q \<and> bd_count b' = bd_count b + 1 \<and> bd_remaining_space b' = bd_remaining_space b
    \<and> bd_buf_length b' = bd_buf_length b \<and> wrote (bd_h b) (bd_h b + wire_size q) b (b'\<lparr>bd_h := bd_h b, bd_count := bd_count b\<rparr>)"
proof -
  let ?h = "bd_h b" and ?kl = "of_nat (length (wq_key q)) :: u64" and ?vl = "of_nat (length (wq_value q)) :: u64"
  let ?k = "padded (wq_key q)" and ?v = "padded (wq_value q)"
  have kv: "unat (roundup 8 ?kl) = length ?k" "unat (roundup 8 ?vl) = length ?v"
    using ok by (simp_all add: wire_ok_def length_padded)
  have L': "?h + request_header_size + length ?k + length ?v \<le> length (bd_data b)" using L by (simp add: wire_size_def)
  obtain b1 where b1: "put_request_header (wq_operation q) (wq_result q) (wq_opaque q) (wq_key_hash q) ?kl ?vl b = Some b1"
    "wrote ?h (?h + request_header_size) b b1"
    "get_word ?h (bd_data b1) = Some (wq_operation q)"
    "get_word (?h + 1) (bd_data b1) = Some (wq_result q)"
    "get_word (?h + 8) (bd_data b1) = Some (wq_key_hash q)"
    "get_word (?h + 16) (bd_data b1) = Some (wq_opaque q)"
    "get_word (?h + 4) (bd_data b1) = Some (ucast (push_bit 24 ?kl OR ?vl) :: u32)"
    using put_request_header_ok [of b "wq_operation q" "wq_result q" "wq_opaque q" "wq_key_hash q" ?kl ?vl] L' by auto
  note W1 = wroteD [OF b1(2)]
  obtain b2 where b2: "put_data (?h + request_header_size) ?k b1 = Some b2"
    "wrote (?h + request_header_size) (?h + request_header_size + length ?k) b1 b2"
    "get_bytes (?h + request_header_size) (length ?k) (bd_data b2) = Some ?k"
    using put_data_ok [of "?h + request_header_size" ?k b1] L' W1(1) by auto
  note W2 = wroteD [OF b2(2)]
  obtain b3 where b3: "put_data (?h + request_header_size + length ?k) ?v b2 = Some b3"
    "wrote (?h + request_header_size + length ?k) (?h + request_header_size + length ?k + length ?v) b2 b3"
    "get_bytes (?h + request_header_size + length ?k) (length ?v) (bd_data b3) = Some ?v"
    using put_data_ok [of "?h + request_header_size + length ?k" ?v b2] L' W1(1) W2(1) by auto
  note W3 = wroteD [OF b3(2)]
  let ?b' = "b3\<lparr>bd_h := ?h + wire_size q, bd_count := bd_count b + 1\<rparr>"
  have "append_wire q b = Some ?b'"
    using b1(1) b2(1) b3(1) W1(2) W2(2,3) W3(3) W1(3)
    by (simp add: append_wire_def append_request_def kv get_bytes_def wire_size_def add.assoc Let_def)
  moreover have "wrote ?h (?h + wire_size q) b b3"
  proof -
    have "wrote ?h (?h + wire_size q) b b1" using b1(2) by (rule wrote_weaken) (simp_all add: wire_size_def)
    from wrote_within [OF this b2(2)] have "wrote ?h (?h + wire_size q) b b2" by (simp add: wire_size_def)
    from wrote_within [OF this b3(2)] show ?thesis by (simp add: wire_size_def)
  qed
  moreover have "b3\<lparr>bd_h := ?h, bd_count := bd_count b\<rparr> = b3"
    using W1(2,3) W2(2,3) W3(2,3) by (simp add: builder.equality)
  moreover have "request_there (bd_data b3) ?h q"
  proof -
    have "?h + 24 \<le> ?h + request_header_size" by (simp add: request_header_size_def)
    then have "get_word ?h (bd_data b3) = Some (wq_operation q)"
      "get_word (?h + 1) (bd_data b3) = Some (wq_result q)"
      "get_word (?h + 8) (bd_data b3) = Some (wq_key_hash q)"
      "get_word (?h + 16) (bd_data b3) = Some (wq_opaque q)"
      "get_word (?h + 4) (bd_data b3) = Some (ucast (push_bit 24 ?kl OR ?vl) :: u32)"
      using b1(3-7) by (simp_all add: W2(7) W3(7))
    moreover have "get_bytes (?h + request_header_size) (length ?k) (bd_data b3) = Some ?k"
      using b2(3) W3(6) [of "?h + request_header_size" "length ?k"] by simp
    ultimately show ?thesis
      using get_bytes_prefix [OF _ length_padded_le, of _ "wq_key q" "bd_data b3" ?k]
        get_bytes_prefix [OF b3(3) length_padded_le] by (simp add: request_there_def)
  qed
  ultimately show ?thesis
    using W1(4,5) W2(4,5) W3(4,5) by (intro exI [of _ ?b']) simp
qed

section \<open>The batch\<close>

text \<open>The fields that \<^verbatim>\<open>finalize\<close> writes, in its order.\<close>

definition finalize_writes :: "builder \<Rightarrow> (nat \<times> u8 list) list" where
  "finalize_writes b =
     [(16, le_bytes 2 (swap16 (ucast (of_nat (bd_h b) - of_nat ether_hdr_size :: u64)))),
      (38, le_bytes 2 (swap16 (ucast (of_nat (bd_h b) - of_nat ether_hdr_size - of_nat ipv4_hdr_size :: u64)))),
      (12, le_bytes 2 (swap16 0x0800)), (14, le_bytes 1 (0x45 :: u8)), (15, le_bytes 1 (0 :: u8)), (18, le_bytes 2 (0 :: u16)),
      (20, le_bytes 2 (0 :: u16)), (22, le_bytes 1 (64 :: u8)), (23, le_bytes 1 (17 :: u8)), (24, le_bytes 2 (0 :: u16)),
      (40, le_bytes 2 (0 :: u16)), (43, le_bytes 1 (ucast (bd_count b) :: u8))]"

lemma finalize_all:
  "finalize enso b = put_all (finalize_writes b) (if enso then b else b\<lparr>bd_buf_length := ucast (of_nat (bd_h b) :: u64)\<rparr>)"
  by (simp add: finalize_def finalize_writes_def put_field_data put_data_def Option.bind_assoc Let_def
    del: le_bytes.simps split: bind_splits)

lemma finalize_keeps:
  assumes "finalize enso b = Some b'" "k + n \<le> 12 \<or> 26 \<le> k \<and> k + n \<le> 38 \<or> 42 \<le> k \<and> k + n \<le> 43 \<or> 44 \<le> k"
  shows "get_bytes k n (bd_data b') = get_bytes k n (bd_data b)"
proof -
  have "\<forall>(i, cs) \<in> set (finalize_writes b). k + n \<le> i \<or> i + length cs \<le> k"
    using assms(2) by (auto simp: finalize_writes_def simp del: le_bytes.simps)
  from put_all_kept [OF assms(1) [unfolded finalize_all] this] show ?thesis by (cases enso) simp_all
qed

lemma finalize_ok:
  assumes "44 \<le> length (bd_data b)"
  shows "\<exists>b'. finalize enso b = Some b'
    \<and> wrote 12 44 (if enso then b else b\<lparr>bd_buf_length := ucast (of_nat (bd_h b) :: u64)\<rparr>) b'
    \<and> get_word 12 (bd_data b') = Some (swap16 0x0800)
    \<and> get_word 14 (bd_data b') = Some (0x45 :: u8)
    \<and> get_word 16 (bd_data b') = Some (swap16 (ucast (of_nat (bd_h b) - of_nat ether_hdr_size :: u64)))
    \<and> get_word 18 (bd_data b') = Some (0 :: u16) \<and> get_word 20 (bd_data b') = Some (0 :: u16)
    \<and> get_word 23 (bd_data b') = Some (17 :: u8)
    \<and> get_word 38 (bd_data b') = Some (swap16 (ucast (of_nat (bd_h b) - of_nat ether_hdr_size - of_nat ipv4_hdr_size :: u64)))
    \<and> (get_word 42 (bd_data b') :: u8 option) = get_word 42 (bd_data b)"
proof -
  let ?b = "if enso then b else b\<lparr>bd_buf_length := ucast (of_nat (bd_h b) :: u64)\<rparr>"
  have ap: "apart 12 44 (finalize_writes b)" by (simp add: finalize_writes_def)
  have hi: "44 \<le> length (bd_data ?b)" using assms by simp
  from put_all_ok [OF ap hi] obtain b' where b': "put_all (finalize_writes b) ?b = Some b'" "wrote 12 44 ?b b'"
    "\<forall>(offset, bs) \<in> set (finalize_writes b). get_bytes offset (length bs) (bd_data b') = Some bs"
    by (elim exE conjE) (rule that)
  have fin: "finalize enso b = Some b'" using b'(1) by (simp only: finalize_all)
  moreover have "(get_word 42 (bd_data b') :: u8 option) = get_word 42 (bd_data b)"
    using finalize_keeps [OF fin, of 42 1] by (simp add: get_word_def)
  moreover have "get_word 12 (bd_data b') = Some (swap16 0x0800)" "get_word 14 (bd_data b') = Some (0x45 :: u8)"
    "get_word 16 (bd_data b') = Some (swap16 (ucast (of_nat (bd_h b) - of_nat ether_hdr_size :: u64)))"
    "get_word 18 (bd_data b') = Some (0 :: u16)" "get_word 20 (bd_data b') = Some (0 :: u16)"
    "get_word 23 (bd_data b') = Some (17 :: u8)"
    "get_word 38 (bd_data b') = Some (swap16 (ucast (of_nat (bd_h b) - of_nat ether_hdr_size - of_nat ipv4_hdr_size :: u64)))"
    using b'(3) unfolding finalize_writes_def by (auto intro!: get_word_le_bytes simp del: le_bytes.simps)
  ultimately show ?thesis using b'(2) by blast
qed

lemma swap16_swap16 [simp]: "swap16 (swap16 x) = x"
  unfolding swap16_def by (rule bit_word_eqI) (auto simp: bit_simps)

text \<open>What a receiver makes of a packet: the requests the reader finds one after the other.\<close>

definition read_request :: "reader \<Rightarrow> (u8 \<times> u8 \<times> u32 \<times> u64 \<times> u8 list \<times> u8 list) option" where
  "read_request r =
     do {
       operation \<leftarrow> get_operation r; result \<leftarrow> get_result r; opaque \<leftarrow> get_opaque r; key_hash \<leftarrow> get_key_hash r;
       k \<leftarrow> get_key r; kl \<leftarrow> reader_key_length r; key \<leftarrow> get_bytes k (unat kl) (rd_data r);
       v \<leftarrow> get_value r; vl \<leftarrow> reader_value_length r; val \<leftarrow> get_bytes v (unat vl) (rd_data r);
       Some (operation, result, opaque, key_hash, key, val)
     }"

partial_function (option) read_requests ::
  "reader \<Rightarrow> (u8 \<times> u8 \<times> u32 \<times> u64 \<times> u8 list \<times> u8 list) list option" where
  "read_requests r =
     do {
       (more, r) \<leftarrow> find_next r;
       if more then do { q \<leftarrow> read_request r; qs \<leftarrow> read_requests r; Some (q # qs) } else Some []
     }"

declare read_requests.simps [code]

definition wire_view :: "wire_request \<Rightarrow> u8 \<times> u8 \<times> u32 \<times> u64 \<times> u8 list \<times> u8 list" where
  "wire_view q = (wq_operation q, wq_result q, wq_opaque q, wq_key_hash q, wq_key q, wq_value q)"

lemma kv_length_vec_parts:
  fixes k v :: u64
  assumes "unat k < 2 ^ 8" "unat v < 2 ^ 24"
  shows "ucast (drop_bit 24 (ucast (push_bit 24 k OR v) :: u32)) = k"
    "ucast ((ucast (push_bit 24 k OR v) :: u32) AND (push_bit 24 1 - 1)) = v"
proof -
  have k8: "take_bit 8 k = k" and v24: "take_bit 24 v = v"
    using assms by (simp_all add: word_unat_eq_iff unat_take_bit_mod)
  have bk: "\<not> bit k n" if "8 \<le> n" for n using k8 that by (metis bit_take_bit_iff not_less)
  have bv: "\<not> bit v n" if "24 \<le> n" for n using v24 that by (metis bit_take_bit_iff not_less)
  have k40: "n < 40" "n < 8" if "bit k n" for n using bk [of n] that by (cases "n < 8"; simp)+
  show "ucast (drop_bit 24 (ucast (push_bit 24 k OR v) :: u32)) = k"
    by (rule bit_word_eqI) (auto simp: bit_simps bv dest: k40)
  have m: "(push_bit 24 1 - 1 :: u32) = mask 24" by (simp add: mask_eq_decr_exp push_bit_eq_mult)
  show "ucast ((ucast (push_bit 24 k OR v) :: u32) AND (push_bit 24 1 - 1)) = v"
    unfolding m
  proof (rule bit_word_eqI)
    fix n :: nat
    show "bit (ucast ((ucast (push_bit 24 k OR v) :: u32) AND mask 24) :: u64) n = bit v n"
      by (cases "n < 24") (simp_all add: bit_simps bv)
  qed
qed

lemma lengths_there:
  assumes "request_there (rd_data r) h q" "wire_ok q" "rd_h r = Some h"
  shows "reader_key_length r = Some (of_nat (length (wq_key q)))" "reader_value_length r = Some (of_nat (length (wq_value q)))"
proof -
  have "unat (of_nat (length (wq_key q)) :: u64) < 2 ^ 8" "unat (of_nat (length (wq_value q)) :: u64) < 2 ^ 24"
    using assms(2) by (simp_all add: wire_ok_def unat_of_nat)
  from kv_length_vec_parts [OF this] show "reader_key_length r = Some (of_nat (length (wq_key q)))"
      "reader_value_length r = Some (of_nat (length (wq_value q)))"
    using assms(1,3) by (simp_all only: reader_key_length_def reader_value_length_def request_there_def Option.bind_lunit)
qed

lemma read_request_there:
  assumes "request_there (rd_data r) h q" "wire_ok q" "rd_h r = Some h"
  shows "read_request r = Some (wire_view q)" "request_end r = Some (h + wire_size q)"
proof -
  note L = lengths_there [OF assms]
  have n: "length (wq_key q) < 2 ^ 32" "length (wq_value q) < 2 ^ 32" using assms(2) by (simp_all add: wire_ok_def)
  have u: "unat (of_nat (length (wq_key q)) :: u64) = length (wq_key q)" "unat (of_nat (length (wq_value q)) :: u64) = length (wq_value q)"
    using n by (simp_all add: unat_of_nat)
  note R = length_padded [OF n(1)] length_padded [OF n(2)]
  show "read_request r = Some (wire_view q)"
    using assms(1,3) L u R
    by (simp add: read_request_def get_operation_def get_result_def get_opaque_def get_key_hash_def get_key_def get_value_def
      request_there_def wire_view_def)
  show "request_end r = Some (h + wire_size q)"
    using L assms(3) R by (simp add: request_end_def wire_size_def add.assoc)
qed

end
