(* ===== verification/Datagram_Batches.thy ===== *)
theory Datagram_Batches
  imports Datagram_Bytes
begin

text \<open>
  Batches of requests: what \<^verbatim>\<open>RequestBatchBuilder\<close> writes, \<^verbatim>\<open>RequestBatchReader\<close> reads back.
\<close>

definition changed :: "nat \<Rightarrow> nat \<Rightarrow> u8 list \<Rightarrow> u8 list \<Rightarrow> bool" where
  "changed lo hi data data' \<longleftrightarrow> length data' = length data
     \<and> (\<forall>k n. k + n \<le> lo \<or> hi \<le> k \<longrightarrow> get_bytes k n data' = get_bytes k n data)"

lemma wrote_changed: "wrote lo hi b b' \<Longrightarrow> changed lo hi (bd_data b) (bd_data b')"
  by (simp add: wrote_def changed_def)

lemma changed_refl [simp]: "changed lo hi data data"
  by (simp add: changed_def)

lemma changed_within:
  "changed lo hi a b \<Longrightarrow> changed lo' hi' b c \<Longrightarrow> lo \<le> lo' \<Longrightarrow> hi' \<le> hi' \<Longrightarrow> hi \<le> hi' \<Longrightarrow> changed lo hi' a c"
  unfolding changed_def by (auto dest: order_trans)

lemma request_there_changed:
  assumes "changed lo hi data data'" "h + wire_size q \<le> lo \<or> hi \<le> h" "request_there data h q"
  shows "request_there data' h q"
  using request_there_wrote [of lo hi "builder_new data 0" "builder_new data' 0" h q] assms
  by (simp add: wrote_def changed_def builder_new_def)

fun append_all :: "wire_request list \<Rightarrow> builder \<Rightarrow> builder option" where
  "append_all [] b = Some b"
| "append_all (q # qs) b = do { b \<leftarrow> append_wire q b; append_all qs b }"

fun all_there :: "u8 list \<Rightarrow> nat \<Rightarrow> wire_request list \<Rightarrow> bool" where
  "all_there data h [] \<longleftrightarrow> True"
| "all_there data h (q # qs) \<longleftrightarrow> request_there data h q \<and> all_there data (h + wire_size q) qs"

definition batch_size :: "wire_request list \<Rightarrow> nat" where
  "batch_size qs = sum_list (map wire_size qs)"

lemma all_there_append: "all_there data h (xs @ ys) \<longleftrightarrow> all_there data h xs \<and> all_there data (h + batch_size xs) ys"
  by (induction xs arbitrary: h) (auto simp: batch_size_def add.assoc)

lemma all_there_changed:
  "changed lo hi data data' \<Longrightarrow> h + batch_size qs \<le> lo \<or> hi \<le> h \<Longrightarrow> all_there data h qs \<Longrightarrow> all_there data' h qs"
  by (induction qs arbitrary: h) (auto simp: batch_size_def intro: request_there_changed)

lemma append_all_ok:
  assumes "\<forall>q \<in> set qs. wire_ok q" "bd_h b + batch_size qs \<le> length (bd_data b)"
  shows "\<exists>b'. append_all qs b = Some b' \<and> all_there (bd_data b') (bd_h b) qs \<and> bd_h b' = bd_h b + batch_size qs
    \<and> changed (bd_h b) (bd_h b + batch_size qs) (bd_data b) (bd_data b')
    \<and> bd_remaining_space b' = bd_remaining_space b \<and> bd_count b' = bd_count b + of_nat (length qs)"
  using assms
proof (induction qs arbitrary: b)
  case (Cons q qs)
  let ?h = "bd_h b"
  obtain b1 where b1: "append_wire q b = Some b1" "request_there (bd_data b1) ?h q" "bd_h b1 = ?h + wire_size q"
    "bd_count b1 = bd_count b + 1" "bd_remaining_space b1 = bd_remaining_space b"
    "wrote ?h (?h + wire_size q) b (b1\<lparr>bd_h := ?h, bd_count := bd_count b\<rparr>)"
    using append_wire_ok [of q b] Cons.prems by (auto simp: batch_size_def)
  have c1: "changed ?h (?h + wire_size q) (bd_data b) (bd_data b1)" using wrote_changed [OF b1(6)] by simp
  then have len: "length (bd_data b1) = length (bd_data b)" by (simp add: changed_def)
  obtain b' where b': "append_all qs b1 = Some b'" "all_there (bd_data b') (?h + wire_size q) qs"
    "bd_h b' = ?h + wire_size q + batch_size qs"
    "changed (?h + wire_size q) (?h + wire_size q + batch_size qs) (bd_data b1) (bd_data b')"
    "bd_remaining_space b' = bd_remaining_space b" "bd_count b' = bd_count b + 1 + of_nat (length qs)"
    using Cons.IH [of b1] Cons.prems len b1(3,4,5) by (auto simp: batch_size_def add.assoc)
  have "request_there (bd_data b') ?h q" by (rule request_there_changed [OF b'(4) _ b1(2)]) simp
  moreover have "changed ?h (?h + wire_size q + batch_size qs) (bd_data b) (bd_data b')"
    by (rule changed_within [OF c1 b'(4)]) simp_all
  ultimately show ?case using b1(1) b' by (simp add: batch_size_def add.assoc)
qed (simp add: batch_size_def)

lemma read_requests_there:
  assumes "all_there (rd_data r) h qs" "\<forall>q \<in> set qs. wire_ok q" "unat (rd_total_length r) = h + batch_size qs"
    and "case rd_h r of None \<Rightarrow> h = batch_header_size | Some _ \<Rightarrow> request_end r = Some h"
  shows "read_requests r = Some (map wire_view qs)"
  using assms
proof (induction qs arbitrary: r h)
  case Nil
  then have "find_next r = Some (False, r\<lparr>rd_h := Some h\<rparr>)"
    by (auto simp: find_next_def request_header_size_def batch_size_def Let_def split: option.splits)
  then show ?case by (simp add: read_requests.simps [of r])
next
  case (Cons q qs)
  let ?r = "r\<lparr>rd_h := Some h\<rparr>"
  have q: "request_there (rd_data ?r) h q" "wire_ok q" "rd_h ?r = Some h" using Cons.prems(1,2) by simp_all
  note R = read_request_there [OF q]
  have "h + request_header_size \<le> unat (rd_total_length r)" "h + wire_size q \<le> unat (rd_total_length r)"
    using Cons.prems(3) by (simp_all add: batch_size_def wire_size_def)
  then have "find_next r = Some (True, ?r)"
    using Cons.prems(4) R(2) by (auto simp: find_next_def Let_def split: option.splits)
  moreover have "read_requests ?r = Some (map wire_view qs)"
    by (rule Cons.IH [of _ "h + wire_size q"]) (use Cons.prems(1-3) R(2) in \<open>simp_all add: batch_size_def\<close>)
  ultimately show ?case using R(1) by (simp add: read_requests.simps [of r])
qed

lemma u16_of_small:
  assumes "48 \<le> h" "h < 2 ^ 16"
  shows "(ucast (of_nat h :: u64) :: u16) = of_nat h"
    "(ucast (of_nat h - 14 :: u64) :: u16) = of_nat (h - 14)"
    "(ucast (of_nat h - 14 - 20 :: u64) :: u16) = of_nat (h - 34)"
    "(ucast (of_nat (h - 14) :: u16) :: u64) = of_nat h - 14"
    "(ucast (of_nat (h - 34) :: u16) :: u64) = ucast (of_nat (h - 14) :: u16) - 20"
    "(ucast (of_nat h :: u16) :: u64) = of_nat h"
    "(of_nat (h - 14) :: u16) + 14 = of_nat h"
proof -
  have A: "(ucast (of_nat n :: u64) :: u16) = of_nat n" and B: "(ucast (of_nat n :: u16) :: u64) = of_nat n" if "n < 2 ^ 16" for n
    using that by (simp_all add: word_unat_eq_iff unat_ucast_mod unat_of_nat)
  have s: "(of_nat h - 14 :: u64) = of_nat (h - 14)" "(of_nat h - 14 - 20 :: u64) = of_nat (h - 34)"
    "(of_nat (h - 14) - 20 :: u64) = of_nat (h - 34)"
    using assms by (simp_all add: of_nat_diff)
  have n: "h - 14 < 2 ^ 16" "h - 34 < 2 ^ 16" using assms by simp_all
  show "(ucast (of_nat h :: u64) :: u16) = of_nat h" "(ucast (of_nat h :: u16) :: u64) = of_nat h"
    by (rule A [OF assms(2)]) (rule B [OF assms(2)])
  show "(ucast (of_nat h - 14 :: u64) :: u16) = of_nat (h - 14)" unfolding s by (rule A [OF n(1)])
  show "(ucast (of_nat h - 14 - 20 :: u64) :: u16) = of_nat (h - 34)" unfolding s by (rule A [OF n(2)])
  show "(ucast (of_nat (h - 14) :: u16) :: u64) = of_nat h - 14" unfolding s by (rule B [OF n(1)])
  show "(ucast (of_nat (h - 34) :: u16) :: u64) = ucast (of_nat (h - 14) :: u16) - 20"
    unfolding B [OF n(1)] s by (rule B [OF n(2)])
  show "(of_nat (h - 14) :: u16) + 14 = of_nat h" using assms by (simp add: of_nat_diff)
qed

lemma is_valid_finalized:
  assumes "finalize enso b = Some b'" "44 \<le> length (bd_data b)" "48 \<le> bd_h b" "bd_h b < 2 ^ 16"
    and "get_word 42 (bd_data b) = Some magic" "magic = 0x78 \<or> magic = (0x79 :: u8)"
  shows "is_valid enso (reader_new (bd_data b') (bd_buf_length b'))
    = Some (True, (reader_new (bd_data b') (bd_buf_length b'))\<lparr>rd_total_length := of_nat (bd_h b)\<rparr>)"
proof -
  have eq: "b0 = b'" if "finalize enso b = Some b0" for b0 using that assms(1) by simp
  note F = finalize_ok [OF assms(2), of enso]
  then have W: "wrote 12 44 (if enso then b else b\<lparr>bd_buf_length := ucast (of_nat (bd_h b) :: u64)\<rparr>) b'"
    "get_word 12 (bd_data b') = Some (swap16 0x0800)" "get_word 14 (bd_data b') = Some (0x45 :: u8)"
    "get_word 16 (bd_data b') = Some (swap16 (ucast (of_nat (bd_h b) - of_nat ether_hdr_size :: u64)))"
    "get_word 18 (bd_data b') = Some (0 :: u16)" "get_word 20 (bd_data b') = Some (0 :: u16)"
    "get_word 23 (bd_data b') = Some (17 :: u8)"
    "get_word 38 (bd_data b') = Some (swap16 (ucast (of_nat (bd_h b) - of_nat ether_hdr_size - of_nat ipv4_hdr_size :: u64)))"
    "get_word 42 (bd_data b') = Some magic"
    using assms(5) by (auto dest!: eq)
  note U = u16_of_small [OF assms(3,4)]
  have len: "bd_buf_length b' = of_nat (bd_h b)" if "\<not> enso"
    using wroteD(5) [OF W(1)] U(1) that by simp
  have unat: "unat (of_nat (bd_h b) :: u16) = bd_h b" using assms(4) by (simp add: unat_of_nat)
  show ?thesis
    using assms(3,6) len unat W(2-9) U
    by (cases enso) (simp_all add: is_valid_def valid_headers_def reader_new_def Let_def ether_hdr_size_def ipv4_hdr_size_def
      batch_header_size_def udp_hdr_size_def)
qed

definition read_packet ::
  "bool \<Rightarrow> u8 list \<Rightarrow> u16 \<Rightarrow> (bool \<times> (u8 \<times> u8 \<times> u32 \<times> u64 \<times> u8 list \<times> u8 list) list) option option" where
  "read_packet enso data len =
     do {
       (valid, r) \<leftarrow> is_valid enso (reader_new data len);
       if valid then do { req \<leftarrow> is_request r; qs \<leftarrow> read_requests r; Some (Some (req, qs)) } else Some None
     }"

lemma header_size: "batch_header_size = 48"
  by (simp add: batch_header_size_def ether_hdr_size_def ipv4_hdr_size_def udp_hdr_size_def)

text \<open>A packet that was built and finalized is read as what was built.\<close>

lemma finalized_reads:
  assumes qs: "all_there (bd_data b) 48 qs" "\<forall>q \<in> set qs. wire_ok q" and h: "bd_h b = 48 + batch_size qs" "bd_h b < 2 ^ 16"
    and L: "44 \<le> length (bd_data b)" and m: "get_word 42 (bd_data b) = Some (if request then 0x78 else 0x79 :: u8)"
  shows "\<exists>b'. finalize enso b = Some b' \<and> read_packet enso (bd_data b') (bd_buf_length b') = Some (Some (request, map wire_view qs))"
proof -
  from finalize_ok [OF L, of enso] obtain b2 where b2: "finalize enso b = Some b2"
    "wrote 12 44 (if enso then b else b\<lparr>bd_buf_length := ucast (of_nat (bd_h b) :: u64)\<rparr>) b2"
    "(get_word 42 (bd_data b2) :: u8 option) = get_word 42 (bd_data b)"
    by (elim exE conjE) (rule that)
  have v: "is_valid enso (reader_new (bd_data b2) (bd_buf_length b2))
    = Some (True, (reader_new (bd_data b2) (bd_buf_length b2))\<lparr>rd_total_length := of_nat (bd_h b)\<rparr>)"
    by (rule is_valid_finalized [OF b2(1) L _ _ m]) (use h in auto)
  have c2: "changed 12 44 (bd_data b) (bd_data b2)" using wrote_changed [OF b2(2)] by (cases enso) simp_all
  have there: "all_there (bd_data b2) 48 qs" by (rule all_there_changed [OF c2 _ qs(1)]) simp
  let ?r = "(reader_new (bd_data b2) (bd_buf_length b2))\<lparr>rd_total_length := of_nat (bd_h b)\<rparr>"
  have "unat (of_nat (bd_h b) :: u16) = 48 + batch_size qs"
    using h by (simp only: unat_of_nat) simp
  then have "read_requests ?r = Some (map wire_view qs)"
    by (intro read_requests_there [where h = 48])
      (use there qs(2) header_size in \<open>simp_all add: reader_new_def\<close>)
  moreover have "is_request ?r = Some request" using b2(3) m by (simp add: is_request_def reader_new_def)
  ultimately have "read_packet enso (bd_data b2) (bd_buf_length b2) = Some (Some (request, map wire_view qs))"
    using v by (simp add: read_packet_def)
  then show ?thesis using b2(1) by blast
qed

lemma batch_round:
  assumes "\<forall>q \<in> set qs. wire_ok q" "batch_header_size + batch_size qs \<le> length data" "batch_header_size + batch_size qs < 2 ^ 16"
  shows "\<exists>b b1 b2. append_all qs (builder_new data len) = Some b \<and> (if request then set_request b else set_response b) = Some b1
    \<and> finalize enso b1 = Some b2 \<and> read_packet enso (bd_data b2) (bd_buf_length b2) = Some (Some (request, map wire_view qs))"
proof -
  obtain b where b: "append_all qs (builder_new data len) = Some b" "all_there (bd_data b) 48 qs" "bd_h b = 48 + batch_size qs"
    "changed 48 (48 + batch_size qs) data (bd_data b)"
    using append_all_ok [of qs "builder_new data len"] assms(1,2) by (auto simp: builder_new_def header_size)
  have L: "48 \<le> length (bd_data b)" using assms(2) b(4) by (simp add: changed_def header_size)
  let ?m = "if request then 0x78 else 0x79 :: u8"
  obtain b1 where b1: "put_data 42 (le_bytes 1 ?m) b = Some b1" "wrote 42 43 b b1"
    "get_bytes 42 1 (bd_data b1) = Some (le_bytes 1 ?m)"
    using put_data_ok [of 42 "le_bytes 1 ?m" b] L by auto
  have s: "(if request then set_request b else set_response b) = Some b1"
    using b1(1) by (cases request) (simp_all add: set_request_def set_response_def put_field_data)
  have m: "get_word 42 (bd_data b1) = Some ?m" by (rule get_word_le_bytes [OF b1(3)]) simp_all
  have "all_there (bd_data b1) 48 qs" by (rule all_there_changed [OF wrote_changed [OF b1(2)] _ b(2)]) simp
  then show ?thesis
    using finalized_reads [OF _ assms(1) _ _ _ m, of enso] b(1,3) s wroteD(1,2) [OF b1(2)] assms(3) L header_size by auto
qed

text \<open>
  C6. A batch that was built comes out of the packet: whatever the buffer held, with or without
  \<^verbatim>\<open>USE_ENSO\<close>, a packet of requests or of responses that fit into it is valid for the reader,
  which finds the same requests in the same order.
\<close>
theorem batch_roundtrip:
  assumes "\<forall>q \<in> set qs. wire_ok q" "batch_header_size + batch_size qs \<le> length data" "batch_header_size + batch_size qs < 2 ^ 16"
  shows "\<exists>b b1 b2. append_all qs (builder_new data len) = Some b \<and> (if request then set_request b else set_response b) = Some b1
    \<and> finalize enso b1 = Some b2 \<and> read_packet enso (bd_data b2) (bd_buf_length b2) = Some (Some (request, map wire_view qs))"
  by (rule batch_round [OF assms])

definition two_requests :: "wire_request list" where
  "two_requests = [\<lparr>wq_operation = operation_code KSet, wq_result = result_code KSuccess, wq_opaque = 7, wq_key_hash = 5, wq_key = [1, 2, 3], wq_value = [9]\<rparr>,
     \<lparr>wq_operation = operation_code KGet, wq_result = result_code KSuccess, wq_opaque = 8, wq_key_hash = 5, wq_key = [1, 2, 3], wq_value = []\<rparr>]"

lemma two_requests_size: "batch_size two_requests = 72"
  by code_simp

theorem batch_roundtrip_witness:
  "\<exists>b b1 b2. append_all two_requests (builder_new (replicate 1514 0xff) 0) = Some b \<and> (if True then set_request b else set_response b) = Some b1
    \<and> finalize False b1 = Some b2 \<and> read_packet False (bd_data b2) (bd_buf_length b2) = Some (Some (True, map wire_view two_requests))"
  by (rule batch_roundtrip)
    (simp_all add: two_requests_size, simp_all add: two_requests_def wire_ok_def batch_header_size_def ether_hdr_size_def
      ipv4_hdr_size_def udp_hdr_size_def)

lemma put_all_keeps:
  "put_all ws b = Some b' \<Longrightarrow> bd_h b' = bd_h b \<and> length (bd_data b') = length (bd_data b) \<and> bd_remaining_space b' = bd_remaining_space b"
proof (induction ws arbitrary: b)
  case (Cons w ws)
  then obtain i cs d where "put_bytes i cs (bd_data b) = Some d" "put_all ws (b\<lparr>bd_data := d\<rparr>) = Some b'"
    by (cases w) (auto simp: put_data_def split: bind_splits)
  then show ?case using Cons.IH [of "b\<lparr>bd_data := d\<rparr>"] put_bytesD(1) by fastforce
qed simp

lemma append_wire_fits:
  assumes "append_wire q b = Some b'" "wire_ok q"
  shows "bd_h b + wire_size q \<le> length (bd_data b)" "bd_remaining_space b' = bd_remaining_space b"
proof -
  let ?kl = "of_nat (length (wq_key q)) :: u64" and ?vl = "of_nat (length (wq_value q)) :: u64"
  obtain b1 k b2 v b3 where a: "put_request_header (wq_operation q) (wq_result q) (wq_opaque q) (wq_key_hash q) ?kl ?vl b = Some b1"
      "put_data (bd_h b1 + request_header_size) k b1 = Some b2"
      "get_bytes 0 (unat (roundup 8 ?vl)) (padded (wq_value q)) = Some v"
      "put_data (bd_h b1 + request_header_size + unat (roundup 8 ?kl)) v b2 = Some b3"
      "bd_remaining_space b' = bd_remaining_space b3"
    using assms(1) by (auto simp: append_wire_def append_request_def Let_def split: bind_splits)
  have p: "unat (roundup 8 ?kl) = length (padded (wq_key q))" "unat (roundup 8 ?vl) = length (padded (wq_value q))"
    using assms(2) by (simp_all add: wire_ok_def length_padded)
  have k1: "bd_h b1 = bd_h b" "length (bd_data b1) = length (bd_data b)" "bd_remaining_space b1 = bd_remaining_space b"
    using put_all_keeps [OF a(1) [unfolded put_request_header_all]] by simp_all
  obtain d where d: "put_bytes (bd_h b1 + request_header_size) k (bd_data b1) = Some d" "b2 = b1\<lparr>bd_data := d\<rparr>"
    using a(2) by (auto simp: put_data_def split: bind_splits)
  obtain e where e: "put_bytes (bd_h b1 + request_header_size + unat (roundup 8 ?kl)) v (bd_data b2) = Some e" "b3 = b2\<lparr>bd_data := e\<rparr>"
    using a(4) by (auto simp: put_data_def split: bind_splits)
  have "length v = length (padded (wq_value q))" using a(3) p(2) by (auto simp: get_bytes_def split: if_splits)
  then show "bd_h b + wire_size q \<le> length (bd_data b)"
    using put_bytesD(2) [OF e(1)] put_bytesD(1) [OF d(1)] d(2) k1 p by (simp add: wire_size_def add.assoc)
  show "bd_remaining_space b' = bd_remaining_space b" using a(5) e(2) d(2) k1(3) by simp
qed

text \<open>
  C39. The builder never lowers the room it reports: a request that has sufficient space in the
  empty batch still has it in a batch that is full, and its second copy runs past the end of
  the packet.
\<close>
theorem space_never_shrinks:
  assumes "wire_ok q" "has_sufficient_space (of_nat (length (wq_key q))) (of_nat (length (wq_value q))) (builder_new data len)"
    and "batch_header_size + wire_size q \<le> length data" "length data < batch_header_size + 2 * wire_size q"
  shows "\<exists>b. append_wire q (builder_new data len) = Some b
    \<and> has_sufficient_space (of_nat (length (wq_key q))) (of_nat (length (wq_value q))) b \<and> append_wire q b = None"
proof -
  obtain b where b: "append_wire q (builder_new data len) = Some b" "bd_h b = batch_header_size + wire_size q"
    "bd_remaining_space b = bd_remaining_space (builder_new data len)"
    "wrote batch_header_size (batch_header_size + wire_size q) (builder_new data len)
      (b\<lparr>bd_h := batch_header_size, bd_count := 0\<rparr>)"
    using append_wire_ok [of q "builder_new data len"] assms(1,3) by (auto simp: builder_new_def)
  have "length (bd_data b) = length data" using wroteD(1) [OF b(4)] by (simp add: builder_new_def)
  then have "append_wire q b = None"
    using append_wire_fits(1) [of q b] assms(1,4) b(2) by (cases "append_wire q b") auto
  then show ?thesis using b(1,3) assms(2) by (auto simp: has_sufficient_space_def)
qed

definition large_request :: wire_request where
  "large_request = \<lparr>wq_operation = operation_code KSet, wq_result = result_code KSuccess, wq_opaque = 7, wq_key_hash = 5, wq_key = [], wq_value = replicate 1440 0\<rparr>"

lemma large_request_size: "wire_size large_request = 1464"
proof -
  have "unat (roundup 8 (1440 :: u64)) = 1440" by code_simp
  then show ?thesis by (simp add: large_request_def wire_size_def padded_def request_header_size_def roundup_def)
qed

theorem space_never_shrinks_witness:
  "\<exists>b. append_wire large_request (builder_new (replicate 1536 0) 0) = Some b
    \<and> has_sufficient_space (of_nat (length (wq_key large_request))) (of_nat (length (wq_value large_request))) b
    \<and> append_wire large_request b = None"
proof (rule space_never_shrinks)
  have r: "roundup 8 (0 :: u64) = 0" "roundup 8 (1440 :: u64) = 1440" "(ucast kMaxPacketValueLength :: u64) = 1442" by code_simp+
  show "has_sufficient_space (of_nat (length (wq_key large_request))) (of_nat (length (wq_value large_request)))
      (builder_new (replicate 1536 0) 0)"
    by (simp add: has_sufficient_space_def large_request_def builder_new_def r)
qed (simp_all add: large_request_size, simp_all add: large_request_def wire_ok_def batch_header_size_def ether_hdr_size_def
  ipv4_hdr_size_def udp_hdr_size_def)

end
