(* ===== verification/Datagram_Ring.thy ===== *)
theory Datagram_Ring
  imports Datagram_Server Datagram_Batches
begin

text \<open>
  The ring of parsed requests of the server: after \<^verbatim>\<open>parse_request_batch\<close> the slots from an index
  on show the requests of the next packet (\<open>stored\<close>, \<open>took_packet\<close>), as the reader finds them.
\<close>

section \<open>Requests of a packet in the ring\<close>

type_synonym view = "u8 \<times> u8 \<times> u32 \<times> u64 \<times> u8 list \<times> u8 list"

text \<open>What the processor reads through a slot of \<^verbatim>\<open>requests_\<close>.\<close>

definition slot_shows :: "packet \<Rightarrow> bool \<Rightarrow> parsed_request \<Rightarrow> view \<Rightarrow> bool" where
  "slot_shows buf l pr v \<longleftrightarrow> (case v of (op, res, opaque, key_hash, key, val) \<Rightarrow>
     pr_operation pr = op \<and> pr_opaque pr = opaque \<and> pr_key_hash pr = key_hash \<and> pr_src_buf pr = buf
     \<and> pr_last_in_packet pr = l
     \<and> get_bytes (pr_key pr) (unat (pr_key_length pr)) (fst buf) = Some key
     \<and> get_bytes (pr_value pr) (unat (pr_value_length pr)) (fst buf) = Some val)"

lemma read_parsed_shows:
  assumes "read_request r = Some v" "rd_data r = fst buf"
  shows "\<exists>pr. read_parsed buf r = Some pr \<and> slot_shows buf False pr v"
proof -
  obtain op res opaque key_hash k kl key w vl val where g: "get_operation r = Some op" "get_result r = Some res"
    "get_opaque r = Some opaque" "get_key_hash r = Some key_hash" "get_key r = Some k" "reader_key_length r = Some kl"
    "get_bytes k (unat kl) (rd_data r) = Some key" "get_value r = Some w" "reader_value_length r = Some vl"
    "get_bytes w (unat vl) (rd_data r) = Some val" "v = (op, res, opaque, key_hash, key, val)"
    using assms(1) by (auto simp: read_request_def split: bind_splits)
  obtain c :: u32 where c: "kl = ucast (drop_bit 24 c)" "vl = ucast (c AND (push_bit 24 1 - 1))"
    using g(6,9) by (auto simp: reader_key_length_def reader_value_length_def split: bind_splits)
  have "unat (ucast kl :: u8) = unat kl" "unat (ucast vl :: u32) = unat vl"
  proof -
    have "unat (drop_bit 24 c) < 2 ^ 8"
      using unsigned_less [of c, where ?'a = nat] by (simp add: drop_bit_eq_div unat_div less_mult_imp_div_less)
    then show "unat (ucast kl :: u8) = unat kl" by (simp add: c(1) unat_ucast_mod)
    show "unat (ucast vl :: u32) = unat vl"
      using unsigned_less [of "c AND (push_bit 24 1 - 1)", where ?'a = nat] by (simp add: c(2) unat_ucast_mod)
  qed
  then show ?thesis using g assms(2) by (simp add: read_parsed_def slot_shows_def)
qed

text \<open>The slots of the requests from index \<open>p\<close> on, in a ring of \<open>2 ^ k\<close>.\<close>

definition stored :: "nat \<Rightarrow> packet \<Rightarrow> (nat \<Rightarrow> bool) \<Rightarrow> nat \<Rightarrow> parsed_request list \<Rightarrow> view list \<Rightarrow> bool" where
  "stored k buf ends p prs vs \<longleftrightarrow> (\<forall>i < length vs. slot_shows buf (ends i) (prs ! ((p + i) mod 2 ^ k)) (vs ! i))"

lemma mod_window:
  assumes "(p + i) mod n = (p + j) mod n" "i < n" "j < n"
  shows "i = (j :: nat)"
proof -
  have "i = j" if "i \<le> j" "(p + j) mod n = (p + i) mod n" "j < n" for i j
  proof -
    have "n dvd p + j - (p + i)" using that(1,2) by (subst mod_eq_dvd_iff_nat [symmetric]) simp_all
    then have "n dvd j - i" by simp
    then have "j - i = 0" using that(3) by (metis dvd_imp_le gr_zeroI less_imp_diff_less not_less)
    then show ?thesis using that(1) by simp
  qed
  then show ?thesis using assms by (metis nat_le_linear)
qed

lemma put_request_ok:
  assumes "unat i < length (ra_requests ra)"
  shows "put_request i f ra = Some (ra\<lparr>ra_requests := (ra_requests ra)[unat i := f (ra_requests ra ! unat i)]\<rparr>)"
  using assms by (simp add: put_request_def elem_at_def)

text \<open>Only the ring and the count of the requests prepared change.\<close>

definition prepared :: "nat \<Rightarrow> nat \<Rightarrow> accessor \<Rightarrow> accessor \<Rightarrow> bool" where
  "prepared k n ra ra' \<longleftrightarrow>
     ra' = ra\<lparr>ra_requests := ra_requests ra', ra_next_index_to_prepare := ra_next_index_to_prepare ra + of_nat n\<rparr>
     \<and> length (ra_requests ra') = length (ra_requests ra)
     \<and> (\<forall>j < 2 ^ k. (\<forall>i < n. (unat (ra_next_index_to_prepare ra) + i) mod 2 ^ k \<noteq> j) \<longrightarrow> ra_requests ra' ! j = ra_requests ra ! j)"

lemma slot_index: "unat (ucast (i :: u16) AND mask k :: u64) = unat i mod 2 ^ k"
proof -
  have "unat i < 2 ^ 64" using unsigned_less [of i, where ?'a = nat] by simp
  then show ?thesis by (simp add: unat_and_mask unat_ucast_mod)
qed

lemma prepared_first:
  fixes ra :: accessor
  assumes "prepared k (length qs) (ra\<lparr>ra_requests := (ra_requests ra)[p mod 2 ^ k := pr],
      ra_next_index_to_prepare := ra_next_index_to_prepare ra + 1\<rparr>) ra'" (is "prepared k _ ?ra ra'")
    and "stored k buf (\<lambda>_. False) (Suc p) (ra_requests ra') qs" "slot_shows buf False pr q"
    and "p = unat (ra_next_index_to_prepare ra)" "unat (ra_next_index_to_prepare ra + 1) = Suc p"
    and "length (ra_requests ra) = 2 ^ k" "length (q # qs) \<le> 2 ^ k"
  shows "prepared k (length (q # qs)) ra ra'" "stored k buf (\<lambda>_. False) p (ra_requests ra') (q # qs)"
proof -
  have eq: "ra' = ?ra\<lparr>ra_requests := ra_requests ra', ra_next_index_to_prepare := ra_next_index_to_prepare ?ra + of_nat (length qs)\<rparr>"
    and len: "length (ra_requests ra') = length (ra_requests ra)"
    and fr: "\<And>j. j < 2 ^ k \<Longrightarrow> \<forall>i < length qs. (Suc p + i) mod 2 ^ k \<noteq> j \<Longrightarrow> ra_requests ra' ! j = ra_requests ?ra ! j"
    using assms(1,5) by (simp_all add: prepared_def)
  have "(Suc p + j) mod 2 ^ k \<noteq> p mod 2 ^ k" if "j < length qs" for j
    using mod_window [of p "Suc j" "2 ^ k" 0] that assms(7) by auto
  then have "ra_requests ra' ! (p mod 2 ^ k) = pr" using fr [of "p mod 2 ^ k"] assms(6) by simp
  then show "stored k buf (\<lambda>_. False) p (ra_requests ra') (q # qs)"
    using assms(2,3) by (auto simp: stored_def less_Suc_eq_0_disj)
  have "ra_requests ra' ! j = ra_requests ra ! j" if j: "j < 2 ^ k" "\<forall>i < length (q # qs). (p + i) mod 2 ^ k \<noteq> j" for j
  proof -
    have "\<forall>i < length qs. (Suc p + i) mod 2 ^ k \<noteq> j" "p mod 2 ^ k \<noteq> j"
      using j(2) by (auto dest: spec [of _ "Suc _"] spec [of _ 0])
    then show ?thesis using fr [OF j(1)] by simp
  qed
  moreover have "ra' = ra\<lparr>ra_requests := ra_requests ra', ra_next_index_to_prepare := ra_next_index_to_prepare ra + of_nat (length (q # qs))\<rparr>"
    by (subst eq) (simp add: add.assoc)
  ultimately show "prepared k (length (q # qs)) ra ra'" using len assms(4) by (simp add: prepared_def)
qed

text \<open>The loop over the requests of a packet does what the reader's own loop does.\<close>

definition parses :: "nat \<Rightarrow> server_env \<Rightarrow> packet \<Rightarrow> reader \<Rightarrow> view list \<Rightarrow> bool" where
  "parses k env buf r vs \<longleftrightarrow> (\<forall>ra. rd_data r = fst buf \<longrightarrow> length (ra_requests ra) = 2 ^ k \<longrightarrow> length vs \<le> 2 ^ k
    \<longrightarrow> unat (ra_next_index_to_prepare ra) + length vs < 2 ^ 16
    \<longrightarrow> (\<exists>ra'. parse_requests env buf r ra = Some ra' \<and> prepared k (length vs) ra ra'
      \<and> stored k buf (\<lambda>_. False) (unat (ra_next_index_to_prepare ra)) (ra_requests ra') vs))"

lemma parses_step:
  assumes mask: "kParsedRequestMask env = mask k" and n: "find_next r = Some (True, r')"
    and q: "read_request r' = Some q" and IH: "parses k env buf r' qs"
  shows "parses k env buf r (q # qs)"
  unfolding parses_def
proof (intro allI impI)
  fix ra :: accessor
  assume d: "rd_data r = fst buf" and L: "length (ra_requests ra) = 2 ^ k" "length (q # qs) \<le> 2 ^ k"
    "unat (ra_next_index_to_prepare ra) + length (q # qs) < 2 ^ 16"
  have d': "rd_data r' = fst buf" using n d by (auto simp: find_next_def Let_def split: bind_splits if_splits option.splits)
  obtain pr where pr: "read_parsed buf r' = Some pr" "slot_shows buf False pr q"
    using read_parsed_shows [of r' q buf] q d' by blast
  let ?p = "unat (ra_next_index_to_prepare ra)"
  let ?i = "ucast (ra_next_index_to_prepare ra) AND kParsedRequestMask env"
  let ?ra = "ra\<lparr>ra_requests := (ra_requests ra)[?p mod 2 ^ k := pr], ra_next_index_to_prepare := ra_next_index_to_prepare ra + 1\<rparr>"
  have i: "unat ?i = ?p mod 2 ^ k" by (simp add: mask slot_index)
  have p1: "unat (ra_next_index_to_prepare ra + 1) = Suc ?p" using L(3) by (simp add: unat_word_ariths)
  have step: "parse_requests env buf r ra = parse_requests env buf r' ?ra"
    using n pr(1) put_request_ok [of ?i ra "\<lambda>_. pr"] i L(1) by (simp add: parse_requests.simps [of env buf r])
  obtain ra' where ra': "parse_requests env buf r' ?ra = Some ra'" "prepared k (length qs) ?ra ra'"
    "stored k buf (\<lambda>_. False) (Suc ?p) (ra_requests ra') qs"
    using IH [unfolded parses_def, rule_format, of ?ra] d' L p1 by auto
  show "\<exists>ra'. parse_requests env buf r ra = Some ra' \<and> prepared k (length (q # qs)) ra ra'
      \<and> stored k buf (\<lambda>_. False) ?p (ra_requests ra') (q # qs)"
    using step ra'(1) prepared_first [OF ra'(2,3) pr(2) refl p1 L(1,2)] by metis
qed

lemma parse_requests_ok:
  assumes "read_requests r = Some vs" "kParsedRequestMask env = mask k"
  shows "parses k env buf r vs"
  using assms(1)
proof (rule read_requests.raw_induct [rotated])
  fix f r vs
  assume IH: "\<And>r vs. f r = Some vs \<Longrightarrow> parses k env buf r vs"
    and body: "do { (more, r) \<leftarrow> find_next r;
        if more then do { q \<leftarrow> read_request r; qs \<leftarrow> f r; Some (q # qs) } else Some [] } = Some vs"
  obtain more r' where n: "find_next r = Some (more, r')" using body by (auto split: bind_splits)
  show "parses k env buf r vs"
  proof (cases more)
    case False
    then have "vs = []" "\<And>ra. parse_requests env buf r ra = Some ra" using body n by (simp_all add: parse_requests.simps [of env buf r])
    then show ?thesis by (simp add: parses_def prepared_def stored_def)
  next
    case True
    then obtain q qs where q: "read_request r' = Some q" "f r' = Some qs" "vs = q # qs" using body n by (auto split: bind_splits)
    then show ?thesis using parses_step [OF assms(2), of r r' q buf qs] IH [OF q(2)] n True by simp
  qed
qed

section \<open>A packet of requests\<close>

lemma is_valid_data: "is_valid enso r = Some (v, r') \<Longrightarrow> rd_data r' = rd_data r"
  by (auto simp: is_valid_def valid_headers_def Let_def split: bind_splits if_splits)

lemma read_packetD:
  assumes "read_packet enso data len = Some (Some (req, vs))"
  shows "\<exists>r. is_valid enso (reader_new data len) = Some (True, r) \<and> is_request r = Some req \<and> read_requests r = Some vs
    \<and> rd_data r = data"
  using assms is_valid_data [of enso "reader_new data len"]
  by (fastforce simp: read_packet_def reader_new_def split: bind_splits if_splits)

lemma last_slot:
  assumes "k \<le> 16" "0 < unat (i :: u16)"
  shows "unat ((ucast i + mask k) AND mask k :: u64) = (unat i - 1) mod 2 ^ k"
proof -
  have i: "unat i < 2 ^ 16" using unsigned_less [of i, where ?'a = nat] by simp
  have k: "(2 :: nat) ^ k \<le> 2 ^ 16" using assms(1) by (intro power_increasing) simp_all
  have m: "unat (mask k :: u64) = 2 ^ k - 1" using assms(1) by (intro unat_mask) simp
  have "unat (ucast i + mask k :: u64) = (unat i + (2 ^ k - 1)) mod 2 ^ 64"
    using i by (simp add: unat_word_ariths m unat_ucast_mod)
  also have "\<dots> = unat i + (2 ^ k - 1)" using i k by simp
  also have "\<dots> = unat i - 1 + 2 ^ k" using assms(2) by simp
  finally show ?thesis by (simp add: unat_and_mask)
qed

text \<open>After \<^verbatim>\<open>parse_request_batch\<close>, the next packet has its requests in the ring.\<close>

definition took_packet :: "nat \<Rightarrow> packet \<Rightarrow> view list \<Rightarrow> accessor \<Rightarrow> accessor \<Rightarrow> bool" where
  "took_packet k buf vs ra ra' \<longleftrightarrow>
     ra' = ra\<lparr>ra_requests := ra_requests ra', ra_next_index_to_prepare := ra_next_index_to_prepare ra + of_nat (length vs),
       ra_next_packet := Suc (ra_next_packet ra)\<rparr>
     \<and> length (ra_requests ra') = 2 ^ k
     \<and> stored k buf (\<lambda>i. Suc i = length vs) (unat (ra_next_index_to_prepare ra)) (ra_requests ra') vs"

lemma mark_last:
  assumes "stored k buf (\<lambda>_. False) p prs vs" "vs \<noteq> []" "length vs \<le> 2 ^ k" "length prs = 2 ^ k" "l = (p + length vs - 1) mod 2 ^ k"
  shows "stored k buf (\<lambda>i. Suc i = length vs) p (prs[l := (prs ! l)\<lparr>pr_last_in_packet := True\<rparr>]) vs"
  unfolding stored_def
proof (intro allI impI)
  fix i assume i: "i < length vs"
  have sh: "slot_shows buf False (prs ! ((p + i) mod 2 ^ k)) (vs ! i)" using assms(1) i by (simp add: stored_def)
  have l: "l = (p + (length vs - 1)) mod 2 ^ k" "l < 2 ^ k" using assms(2,5) by (simp_all add: Suc_leI)
  have "(p + i) mod 2 ^ k = l \<longleftrightarrow> Suc i = length vs"
  proof
    assume "(p + i) mod 2 ^ k = l"
    then have "i = length vs - 1" using mod_window [of p i "2 ^ k" "length vs - 1"] l(1) i assms(3) by simp
    then show "Suc i = length vs" using i by simp
  next
    assume "Suc i = length vs"
    then have "i = length vs - 1" by simp
    then show "(p + i) mod 2 ^ k = l" using l(1) by simp
  qed
  then show "slot_shows buf (Suc i = length vs) (prs[l := (prs ! l)\<lparr>pr_last_in_packet := True\<rparr>] ! ((p + i) mod 2 ^ k)) (vs ! i)"
    using sh l(2) assms(4) by (auto simp: slot_shows_def split: prod.splits)
qed

lemma parse_request_batch_ok:
  assumes "read_packet enso (fst buf) (snd buf) = Some (Some (True, vs))" "vs \<noteq> []" "length vs \<le> 2 ^ k"
    and "ra_next_packet ra < length (ra_bufs ra)" "buf = ra_bufs ra ! ra_next_packet ra"
    and "kParsedRequestMask env = mask k" "k \<le> 16" "length (ra_requests ra) = 2 ^ k"
    and "unat (ra_next_index_to_prepare ra) + length vs < 2 ^ 16"
  shows "\<exists>ra'. parse_request_batch enso env ra = Some (True, ra') \<and> took_packet k buf vs ra ra'"
proof -
  obtain r where r: "is_valid enso (reader_new (fst buf) (snd buf)) = Some (True, r)" "is_request r = Some True"
    "read_requests r = Some vs" "rd_data r = fst buf"
    using read_packetD [OF assms(1)] by blast
  let ?ra = "if enso then ra else ra\<lparr>ra_next_packet := ra_next_packet ra + 1\<rparr>"
  let ?p = "unat (ra_next_index_to_prepare ra)"
  have pk: "ra_requests ?ra = ra_requests ra" "ra_next_index_to_prepare ?ra = ra_next_index_to_prepare ra" by simp_all
  obtain ra1 where ra1: "parse_requests env buf r ?ra = Some ra1" "prepared k (length vs) ?ra ra1"
    "stored k buf (\<lambda>_. False) ?p (ra_requests ra1) vs"
    using parse_requests_ok [OF r(3) assms(6), of buf, unfolded parses_def, rule_format, of ?ra] r(4) assms(3,8,9) pk by auto
  obtain rs where eq1: "ra1 = ?ra\<lparr>ra_requests := rs, ra_next_index_to_prepare := ra_next_index_to_prepare ra + of_nat (length vs)\<rparr>"
    using ra1(2) pk by (auto simp: prepared_def)
  have len1: "length (ra_requests ra1) = 2 ^ k" using ra1(2) assms(8) pk by (simp add: prepared_def)
  have n1: "unat (ra_next_index_to_prepare ra1) = ?p + length vs"
    using assms(9) by (simp add: eq1 unat_word_ariths unat_of_nat)
  let ?l = "(?p + length vs - 1) mod 2 ^ k"
  let ?ra2 = "ra1\<lparr>ra_requests := (ra_requests ra1)[?l := (ra_requests ra1 ! ?l)\<lparr>pr_last_in_packet := True\<rparr>]\<rparr>"
  have l: "unat ((ucast (ra_next_index_to_prepare ra1) + mask k) AND mask k :: u64) = ?l"
    using last_slot [OF assms(7), of "ra_next_index_to_prepare ra1"] n1 assms(2) by simp
  have "ra_next_index_to_prepare ra1 \<noteq> ra_next_index_to_prepare ?ra" using n1 assms(2) pk(2) by auto
  then have "parse_turn enso env ra = Some (Some True, if enso then ?ra2\<lparr>ra_next_packet := ra_next_packet ?ra2 + 1\<rparr> else ?ra2)"
    using r(1,2) ra1(1) assms(4,5,6) len1
      put_request_ok [of "(ucast (ra_next_index_to_prepare ra1) + mask k) AND mask k" ra1] l
    by (simp add: parse_turn_def Let_def)
  moreover have "took_packet k buf vs ra (if enso then ?ra2\<lparr>ra_next_packet := ra_next_packet ?ra2 + 1\<rparr> else ?ra2)"
    using mark_last [OF ra1(3) assms(2,3) len1 refl] len1
    by (cases enso) (simp_all add: took_packet_def eq1)
  ultimately show ?thesis by (simp add: parse_request_batch.simps [of enso env ra])
qed

lemma parse_request_batch_end:
  assumes "length (ra_bufs ra) \<le> ra_next_packet ra"
  shows "parse_request_batch enso env ra = Some (False, ra)"
  using assms by (simp add: parse_request_batch.simps [of enso env ra] parse_turn_def)

end
