(* ===== verification/Datagram_Replies.thy ===== *)
theory Datagram_Replies
  imports Datagram_Ring Simple_Processor
begin

text \<open>
  Responses: the batch under construction (\<open>building\<close>), the packet it becomes and where that goes
  (\<open>sent_back\<close>), and the loop of the processor over the packets received (\<open>serve_all\<close>): it answers them as
  \<^verbatim>\<open>SimpleProcessor::process\<close> answers the array of their requests.
\<close>

section \<open>One response\<close>

lemma roundup8_0 [simp]: "roundup 8 (0 :: u64) = 0"
  by code_simp

lemma padded_Nil [simp]: "padded [] = []"
  by (simp add: padded_def)

text \<open>
  The bytes \<open>bs\<close> are written behind the header, of which the value of the response is the beginning: a get
  that finds an item that is not valid has copied its value already.
\<close>

lemma append_reply_ok:
  assumes key: "wq_key q = []" and ok: "wire_ok q" and L: "bd_h b + wire_size q \<le> length (bd_data b)"
    and bs: "take (length (wq_value q)) bs = wq_value q" "bd_h b + 24 + length bs \<le> length (bd_data b)"
  shows "\<exists>b1 b'. put_data (get_out_value 0 b) bs b = Some b1
    \<and> append_request_no_key_value (wq_operation q) (wq_result q) (wq_opaque q) (wq_key_hash q) 0 (of_nat (length (wq_value q))) b1 = Some b'
    \<and> request_there (bd_data b') (bd_h b) q \<and> bd_h b' = bd_h b + wire_size q \<and> bd_remaining_space b' = bd_remaining_space b
    \<and> changed (bd_h b) (length (bd_data b)) (bd_data b) (bd_data b')"
proof -
  let ?h = "bd_h b" and ?v = "wq_value q" and ?vl = "of_nat (length (wq_value q)) :: u64"
  have pk: "padded (wq_key q) = []" by (simp add: key padded_def)
  have vl: "unat (roundup 8 ?vl) = length (padded ?v)" using ok by (simp add: wire_ok_def length_padded)
  have size: "wire_size q = 24 + length (padded ?v)" by (simp add: wire_size_def request_header_size_def pk)
  have le: "length ?v \<le> length bs" using arg_cong [OF bs(1), of length] by simp
  obtain b1 where b1: "put_data (?h + 24) bs b = Some b1" "wrote (?h + 24) (?h + 24 + length bs) b b1"
    "get_bytes (?h + 24) (length bs) (bd_data b1) = Some bs"
    using put_data_ok [of "?h + 24" bs b] bs(2) by auto
  note W1 = wroteD [OF b1(2)]
  have v1: "get_bytes (?h + 24) (length ?v) (bd_data b1) = Some ?v"
  proof -
    have "take (length bs) (drop (?h + 24) (bd_data b1)) = bs" using b1(3) by (auto simp: get_bytes_def split: if_splits)
    then have "take (length ?v) (drop (?h + 24) (bd_data b1)) = take (length ?v) bs"
      using le by (metis min.absorb1 take_take)
    then show ?thesis using bs le W1(1) by (simp add: get_bytes_def)
  qed
  obtain b2 where b2: "put_request_header (wq_operation q) (wq_result q) (wq_opaque q) (wq_key_hash q) 0 ?vl b1 = Some b2"
    "wrote ?h (?h + 24) b1 b2" "get_word ?h (bd_data b2) = Some (wq_operation q)" "get_word (?h + 1) (bd_data b2) = Some (wq_result q)"
    "get_word (?h + 8) (bd_data b2) = Some (wq_key_hash q)" "get_word (?h + 16) (bd_data b2) = Some (wq_opaque q)"
    "get_word (?h + 4) (bd_data b2) = Some (ucast (push_bit 24 0 OR ?vl) :: u32)"
    using put_request_header_ok [of b1 "wq_operation q" "wq_result q" "wq_opaque q" "wq_key_hash q" 0 ?vl] W1(1,2) bs(2)
    unfolding request_header_size_def by auto
  note W2 = wroteD [OF b2(2)]
  let ?b = "b2\<lparr>bd_h := ?h + wire_size q, bd_count := bd_count b2 + 1\<rparr>"
  have "append_request_no_key_value (wq_operation q) (wq_result q) (wq_opaque q) (wq_key_hash q) 0 ?vl b1 = Some ?b"
    using b2(1) W1(2) W2(2) by (simp add: append_request_no_key_value_def vl size request_header_size_def)
  moreover have "request_there (bd_data ?b) ?h q"
    using b2(3-7) W2(6) [of "?h + 24" "length ?v"] v1 get_bytes_def [of "?h + 24" 0] W1(1) W2(1) bs(2)
    by (simp add: request_there_def key pk request_header_size_def)
  moreover have "wrote ?h (length (bd_data b)) b b2"
  proof (rule wrote_within [OF wrote_weaken [OF b1(2)] b2(2)])
  qed (use bs(2) in auto)
  ultimately show ?thesis
    using b1(1) W1(4) W2(4) wrote_changed [of ?h "length (bd_data b)" b b2]
    by (intro exI [of _ b1] exI [of _ ?b]) (simp add: get_out_value_def request_header_size_def)
qed

text \<open>A batch of responses under construction.\<close>

definition building :: "nat \<Rightarrow> wire_request list \<Rightarrow> builder \<Rightarrow> bool" where
  "building n qs b \<longleftrightarrow> all_there (bd_data b) 48 qs \<and> bd_h b = 48 + batch_size qs \<and> length (bd_data b) = n
     \<and> bd_remaining_space b = kMaxPacketValueLength"

lemma building_new: "building (length data) [] (builder_new data len)"
  by (simp add: building_def builder_new_def header_size batch_size_def)

lemma building_append:
  assumes "building n qs b" "wq_key q = []" "wire_ok q" "48 + batch_size (qs @ [q]) \<le> n"
    and bs: "take (length (wq_value q)) bs = wq_value q" "48 + batch_size qs + 24 + length bs \<le> n"
  shows "\<exists>b1 b'. put_data (get_out_value 0 b) bs b = Some b1
    \<and> append_request_no_key_value (wq_operation q) (wq_result q) (wq_opaque q) (wq_key_hash q) 0 (of_nat (length (wq_value q))) b1 = Some b'
    \<and> building n (qs @ [q]) b'"
proof -
  have h: "bd_h b = 48 + batch_size qs" and n: "length (bd_data b) = n" and th: "all_there (bd_data b) 48 qs"
    using assms(1) by (simp_all add: building_def)
  have s: "batch_size (qs @ [q]) = batch_size qs + wire_size q" by (simp add: batch_size_def)
  from append_reply_ok [OF assms(2,3), of b bs] obtain b1 b' where b: "put_data (get_out_value 0 b) bs b = Some b1"
    "append_request_no_key_value (wq_operation q) (wq_result q) (wq_opaque q) (wq_key_hash q) 0 (of_nat (length (wq_value q))) b1 = Some b'"
    "request_there (bd_data b') (bd_h b) q" "bd_h b' = bd_h b + wire_size q" "bd_remaining_space b' = bd_remaining_space b"
    "changed (bd_h b) (length (bd_data b)) (bd_data b) (bd_data b')"
    using assms(4) bs h n s by auto
  have "all_there (bd_data b') 48 qs" by (rule all_there_changed [OF b(6) _ th]) (simp add: h)
  then have "building n (qs @ [q]) b'"
    using b(3-6) assms(1) h s by (simp add: building_def all_there_append changed_def add.assoc)
  then show ?thesis using b(1,2) by blast
qed

section \<open>The response packet\<close>

definition sent_back :: "packet \<Rightarrow> packet \<Rightarrow> bool" where
  "sent_back p p' \<longleftrightarrow> (let r = reader_new (fst p) (snd p); r' = reader_new (fst p') (snd p') in
     get_src_mac_addr r' = get_dest_mac_addr r \<and> get_dest_mac_addr r' = get_src_mac_addr r
     \<and> get_src_ipv4_addr r' = get_dest_ipv4_addr r \<and> get_dest_ipv4_addr r' = get_src_ipv4_addr r
     \<and> get_src_udp_port r' = get_dest_udp_port r \<and> get_dest_udp_port r' = get_src_udp_port r)"

lemma get_word_kept: "get_bytes i (LENGTH('a) div 8) data' = get_bytes i (LENGTH('a) div 8) data
    \<Longrightarrow> (get_word i data' :: 'a::len word option) = get_word i data"
  by (simp add: get_word_def)

lemma addresses_readable:
  assumes "43 \<le> length (fst p)"
  obtains dm sm dip sip dport sport where
    "get_dest_mac_addr (reader_new (fst p) (snd p)) = Some dm" "length dm = 6"
    "get_src_mac_addr (reader_new (fst p) (snd p)) = Some sm" "length sm = 6"
    "get_dest_ipv4_addr (reader_new (fst p) (snd p)) = Some dip" "get_src_ipv4_addr (reader_new (fst p) (snd p)) = Some sip"
    "get_dest_udp_port (reader_new (fst p) (snd p)) = Some dport" "get_src_udp_port (reader_new (fst p) (snd p)) = Some sport"
  using assms that
  by (simp add: get_dest_mac_addr_def get_src_mac_addr_def get_dest_ipv4_addr_def get_src_ipv4_addr_def get_dest_udp_port_def
    get_src_udp_port_def reader_new_def get_word_def get_bytes_def)

lemma address_response_ok:
  assumes "43 \<le> length (fst p)" "44 \<le> length (bd_data b)"
  shows "\<exists>b'. address_response (reader_new (fst p) (snd p)) b = Some b' \<and> wrote 0 43 b b'
    \<and> get_word 42 (bd_data b') = Some (0x79 :: u8) \<and> sent_back p (bd_data b', l)"
proof -
  obtain dm sm dip sip dport sport where g:
    "get_dest_mac_addr (reader_new (fst p) (snd p)) = Some dm" "length dm = 6"
    "get_src_mac_addr (reader_new (fst p) (snd p)) = Some sm" "length sm = 6"
    "get_dest_ipv4_addr (reader_new (fst p) (snd p)) = Some dip" "get_src_ipv4_addr (reader_new (fst p) (snd p)) = Some sip"
    "get_dest_udp_port (reader_new (fst p) (snd p)) = Some dport" "get_src_udp_port (reader_new (fst p) (snd p)) = Some sport"
    by (rule addresses_readable [OF assms(1)])
  let ?ws = "[(6, dm), (0, sm), (26, le_bytes 4 dip), (30, le_bytes 4 sip), (34, le_bytes 2 dport), (36, le_bytes 2 sport),
    (42, le_bytes 1 (0x79 :: u8))]"
  have "address_response (reader_new (fst p) (snd p)) b = put_all ?ws b"
    by (simp add: address_response_def g set_src_mac_addr_def set_dest_mac_addr_def set_src_ipv4_addr_def set_dest_ipv4_addr_def
      set_src_udp_port_def set_dest_udp_port_def set_response_def put_field_data del: le_bytes.simps split: bind_splits)
  moreover have "apart 0 43 ?ws" by (simp add: g)
  from put_all_ok [OF this, of b] assms(2) obtain b' where b': "put_all ?ws b = Some b'" "wrote 0 43 b b'"
    "\<forall>(offset, bs) \<in> set ?ws. get_bytes offset (length bs) (bd_data b') = Some bs"
    by (auto simp del: apart.simps)
  moreover have "get_bytes 6 6 (bd_data b') = Some dm" "get_bytes 0 6 (bd_data b') = Some sm"
    "get_word 26 (bd_data b') = Some dip" "get_word 30 (bd_data b') = Some sip" "get_word 34 (bd_data b') = Some dport"
    "get_word 36 (bd_data b') = Some sport" "get_word 42 (bd_data b') = Some (0x79 :: u8)"
    using b'(3) g(2,4) by (auto intro!: get_word_le_bytes simp del: le_bytes.simps)
  ultimately show ?thesis using g(1,3,5-8)
    by (simp add: sent_back_def reader_new_def get_dest_mac_addr_def get_src_mac_addr_def get_dest_ipv4_addr_def
      get_src_ipv4_addr_def get_dest_udp_port_def get_src_udp_port_def)
qed

lemma sent_back_finalize:
  assumes "finalize enso b = Some b'" "sent_back p (bd_data b, l)"
  shows "sent_back p (bd_data b', l')"
proof -
  note K = finalize_keeps [OF assms(1)]
  show ?thesis using assms(2) K [of 6 6] K [of 0 6]
      get_word_kept [of 26 "bd_data b'" "bd_data b", where ?'a = 32] K [of 26 4] get_word_kept [of 30 "bd_data b'" "bd_data b", where ?'a = 32] K [of 30 4]
      get_word_kept [of 34 "bd_data b'" "bd_data b", where ?'a = 16] K [of 34 2] get_word_kept [of 36 "bd_data b'" "bd_data b", where ?'a = 16] K [of 36 2]
    by (simp add: sent_back_def reader_new_def get_dest_mac_addr_def get_src_mac_addr_def get_dest_ipv4_addr_def
      get_src_ipv4_addr_def get_dest_udp_port_def get_src_udp_port_def)
qed

lemma flush_builds:
  assumes "building n qs b" "\<forall>q \<in> set qs. wire_ok q" "48 + batch_size qs \<le> n" "n < 2 ^ 16" "43 \<le> length (fst p)"
  shows "\<exists>b1 b2. address_response (reader_new (fst p) (snd p)) b = Some b1 \<and> finalize enso b1 = Some b2
    \<and> read_packet enso (bd_data b2) (bd_buf_length b2) = Some (Some (False, map wire_view qs))
    \<and> sent_back p (bd_data b2, bd_buf_length b2)"
proof -
  have B: "all_there (bd_data b) 48 qs" "bd_h b = 48 + batch_size qs" "length (bd_data b) = n" using assms(1) by (simp_all add: building_def)
  obtain b1 where b1: "address_response (reader_new (fst p) (snd p)) b = Some b1" "wrote 0 43 b b1"
    "get_word 42 (bd_data b1) = Some (0x79 :: u8)" "sent_back p (bd_data b1, 0)"
    using address_response_ok [OF assms(5), of b] assms(3) B(3) by auto
  have "all_there (bd_data b1) 48 qs" by (rule all_there_changed [OF wrote_changed [OF b1(2)] _ B(1)]) simp
  then obtain b2 where b2: "finalize enso b1 = Some b2"
      "read_packet enso (bd_data b2) (bd_buf_length b2) = Some (Some (False, map wire_view qs))"
    using finalized_reads [of b1 qs False enso] assms(2-4) B wroteD(1,2) [OF b1(2)] b1(3) by auto
  then show ?thesis using b1(1) sent_back_finalize [OF b2(1) b1(4)] by blast
qed

section \<open>What the processor answers\<close>

text \<open>
  The request that the processor sees behind a view of the packet, with the room for a value that the
  builder reports, and the response made of its outputs.
\<close>

definition reply_room :: u64 where "reply_room = ucast kMaxPacketValueLength"

lemma reply_room: "unat reply_room div 8 = 180"
  by code_simp

definition request_of :: "view \<Rightarrow> request option" where
  "request_of v = (case v of (op, res, opaque, key_hash, key, val) \<Rightarrow> make_request reply_room op key_hash key val)"

definition reply_value :: "request \<Rightarrow> u8 list" where
  "reply_value r = take (unat (r_out_value_length r)) (words_bytes (r_out_value r))"

definition response :: "view \<Rightarrow> request \<Rightarrow> wire_request" where
  "response v r = (case v of (op, res, opaque, key_hash, key, val) \<Rightarrow>
     \<lparr>wq_operation = op, wq_result = result_code (r_result r), wq_opaque = opaque, wq_key_hash = key_hash, wq_key = [],
      wq_value = reply_value r\<rparr>)"

text \<open>
  The responses fit into a buffer of \<open>n\<close> bytes from \<open>h\<close> on: each value, written in full before its
  length is known, and each response. A value is shorter than 180 words (the room is 1442 bytes).
\<close>

fun replies_fit :: "nat \<Rightarrow> nat \<Rightarrow> request list \<Rightarrow> bool" where
  "replies_fit n h [] \<longleftrightarrow> True"
| "replies_fit n h (r # rs) \<longleftrightarrow> length (r_out_value r) < 180 \<and> h + request_header_size + 8 * length (r_out_value r) \<le> n
     \<and> replies_fit n (h + request_header_size + length (reply_value r)) rs"

definition whole_reply :: "request \<Rightarrow> bool" where
  "whole_reply r \<longleftrightarrow> r_out_value_length r \<in> {0, byte_len (r_out_value r)}"

lemma length_words_bytes [simp]: "length (words_bytes ws) = 8 * length ws"
  by (induction ws) (simp_all add: words_bytes_def del: le_bytes.simps)

lemma padded_whole: "length bs mod 8 = 0 \<Longrightarrow> length bs < 2 ^ 16 \<Longrightarrow> length (padded bs) = length bs"
proof -
  assume a: "length bs mod 8 = 0" "length bs < 2 ^ 16"
  then obtain m where m: "length bs = 8 * m" by (metis mod_0_imp_dvd dvd_def)
  have u: "unat (of_nat (length bs) :: u64) = length bs" using a(2) by (simp add: unat_of_nat)
  have "unat (roundup (2 ^ 3) (of_nat (length bs) :: u64)) = (length bs + 7) div 8 * 8"
    using roundup_unat [of 3 "of_nat (length bs) :: u64"] a(2) u by simp
  then have "unat (roundup 8 (of_nat (length bs) :: u64)) = (length bs + 7) div 8 * 8" by simp
  also have "\<dots> = length bs" unfolding m by simp
  finally have "unat (roundup 8 (of_nat (length bs) :: u64)) = length bs" .
  then show ?thesis using a(2) by (simp add: length_padded)
qed

lemma whole_replyD:
  assumes "whole_reply r" "length (r_out_value r) < 180"
  shows "length (reply_value r) = unat (r_out_value_length r)" "length (reply_value r) \<le> 8 * length (r_out_value r)"
    "length (padded (reply_value r)) = length (reply_value r)" "take (length (reply_value r)) (words_bytes (r_out_value r)) = reply_value r"
proof -
  have l: "unat (byte_len (r_out_value r)) = 8 * length (r_out_value r)" using assms(2) by (simp add: byte_len_def unat_word_ariths unat_of_nat)
  then have u: "unat (r_out_value_length r) \<in> {0, 8 * length (r_out_value r)}" using assms(1) by (auto simp: whole_reply_def)
  then show len: "length (reply_value r) = unat (r_out_value_length r)" by (auto simp: reply_value_def)
  show le: "length (reply_value r) \<le> 8 * length (r_out_value r)" using len u by auto
  have "length (reply_value r) mod 8 = 0" using u unfolding len by auto
  then show "length (padded (reply_value r)) = length (reply_value r)" using padded_whole le assms(2) by simp
  show "take (length (reply_value r)) (words_bytes (r_out_value r)) = reply_value r" using len by (simp add: reply_value_def)
qed

lemma response_ok:
  assumes "whole_reply r" "length (r_out_value r) < 180"
  shows "wq_key (response v r) = []" "wq_value (response v r) = reply_value r" "wire_ok (response v r)"
    "wire_size (response v r) = request_header_size + length (reply_value r)"
  using whole_replyD [OF assms] assms(2)
  by (auto simp: response_def wire_ok_def wire_size_def split: prod.splits)

lemma request_of_whole:
  assumes "request_of v = Some r" "simple_request r t = Some (r', t')"
  shows "whole_reply r'"
proof -
  have "r_out_value r = []" using assms(1) by (auto simp: request_of_def make_request_def split: prod.splits bind_splits)
  then show ?thesis using simple_request_out [OF assms(2)] by (simp add: whole_reply_def)
qed

text \<open>The packet that answers the packet \<open>p\<close>, with the responses \<open>qs\<close>.\<close>

definition answers :: "bool \<Rightarrow> packet \<Rightarrow> wire_request list \<Rightarrow> packet \<Rightarrow> bool" where
  "answers enso p qs p' \<longleftrightarrow>
     read_packet enso (fst p') (snd p') = Some (Some (False, map wire_view qs)) \<and> sent_back p p'"

definition flow :: "server_tx \<Rightarrow> packet list" where
  "flow tx = concat (tx_sent tx) @ tx_pending tx"

lemma flow_full [simp]: "flow (server_check_pending_tx_full env tx) = flow tx"
  by (simp add: flow_def server_check_pending_tx_full_def server_send_pending_def)

definition same_input :: "accessor \<Rightarrow> accessor \<Rightarrow> bool" where
  "same_input ra ra' \<longleftrightarrow> ra_bufs ra' = ra_bufs ra \<and> ra_next_packet ra' = ra_next_packet ra \<and> ra_requests ra' = ra_requests ra
     \<and> ra_next_index_to_prepare ra' = ra_next_index_to_prepare ra"

text \<open>One response packet more, and a batch of responses to begin.\<close>

definition responded :: "bool \<Rightarrow> server_env \<Rightarrow> packet \<Rightarrow> wire_request list \<Rightarrow> accessor \<Rightarrow> accessor \<Rightarrow> bool" where
  "responded enso env p qs ra ra' \<longleftrightarrow> ra_b ra' = builder_new (se_buffer env) 0
     \<and> ra_released ra' = ra_released ra @ (if enso then [] else [p])
     \<and> (\<exists>p'. flow (ra_tx ra') = flow (ra_tx ra) @ [p'] \<and> answers enso p qs p')"

lemma flush_responds:
  assumes B: "building (length (se_buffer env)) qs b" "\<forall>q \<in> set qs. wire_ok q"
    and n: "48 + batch_size qs \<le> length (se_buffer env)" "length (se_buffer env) < 2 ^ 16" and p: "43 \<le> length (fst p)"
  shows "\<exists>b' tx' p'. flush_pending_response_batch enso env p (ra\<lparr>ra_b := b\<rparr>) = Some (ra\<lparr>ra_b := b', ra_tx := tx'\<rparr>)
    \<and> flow tx' = flow (ra_tx ra) @ [p'] \<and> answers enso p qs p'"
proof -
  from flush_builds [OF B n p, of enso] obtain b1 b2 where b:
    "address_response (reader_new (fst p) (snd p)) b = Some b1" "finalize enso b1 = Some b2"
    "read_packet enso (bd_data b2) (bd_buf_length b2) = Some (Some (False, map wire_view qs))"
    "sent_back p (bd_data b2, bd_buf_length b2)"
    by (elim exE conjE) (rule that)
  let ?p' = "(bd_data b2, bd_buf_length b2)"
  let ?tx = "(if tx_pending (ra_tx ra) = [] then (ra_tx ra)\<lparr>tx_oldest_time := ra_now ra\<rparr> else ra_tx ra)"
  let ?tx' = "?tx\<lparr>tx_pending := tx_pending ?tx @ [?p']\<rparr>"
  have "flush_pending_response_batch enso env p (ra\<lparr>ra_b := b\<rparr>)
      = Some (ra\<lparr>ra_b := b2, ra_tx := if enso then ?tx' else server_check_pending_tx_full env ?tx'\<rparr>)"
    by (simp add: flush_pending_response_batch_def b(1,2) Let_def)
  moreover have "flow (if enso then ?tx' else server_check_pending_tx_full env ?tx') = flow (ra_tx ra) @ [?p']"
    by (simp add: flow_def [of ?tx'] flow_def [of "ra_tx ra"])
  moreover have "answers enso p qs ?p'" using b(3,4) by (simp add: answers_def)
  ultimately show ?thesis by blast
qed

lemma accessor_retire_ok:
  assumes pr: "parsed_at env index ra = Some pr"
    and b: "append_request_no_key_value (pr_operation pr) (ra_result ra) (pr_opaque pr) (pr_key_hash pr) 0 (ra_value_length ra) (ra_b ra) = Some b"
    and room: "bd_remaining_space b = kMaxPacketValueLength"
    and fl: "pr_last_in_packet pr \<Longrightarrow> flush_pending_response_batch enso env (pr_src_buf pr) (ra\<lparr>ra_b := b\<rparr>) = Some (ra\<lparr>ra_b := b', ra_tx := tx'\<rparr>)"
  shows "\<exists>ra'. accessor_retire enso env index ra = Some ra' \<and> same_input ra ra'
    \<and> ra_b ra' = (if pr_last_in_packet pr then builder_new (se_buffer env) 0 else b)
    \<and> ra_tx ra' = (if pr_last_in_packet pr then tx' else ra_tx ra)
    \<and> ra_released ra' = ra_released ra @ (if pr_last_in_packet pr \<and> \<not> enso then [pr_src_buf pr] else [])"
proof -
  have at: "parsed_at env index (ra\<lparr>ra_b := b\<rparr>) = Some pr" using pr by (simp add: parsed_at_def)
  have "(ucast kMaxPacketValueLength :: u64) \<noteq> 0"
    by code_simp
  then have "get_max_out_key_length b \<noteq> 0" using room by (simp add: get_max_out_key_length_def)
  then show ?thesis
    using fl
    by (simp add: accessor_retire_def accessor_get_operation_def accessor_get_opaque_def accessor_get_key_hash_def pr b at
      make_new_pending_response_batch_def same_input_def Let_def)
qed

lemma building_room: "building n qs b \<Longrightarrow> get_max_out_value_length 0 b = reply_room"
  by (simp add: building_def get_max_out_value_length_def reply_room_def)

lemma accessor_request_shows:
  assumes pr: "parsed_at env index ra = Some pr" and sh: "slot_shows buf l pr v" and b: "building n qs (ra_b ra)"
  shows "accessor_request env index ra = request_of v"
proof -
  have "unat (ucast (pr_key_length pr) :: u64) = unat (pr_key_length pr)" "unat (ucast (pr_value_length pr) :: u64) = unat (pr_value_length pr)"
    using unsigned_less [of "pr_key_length pr", where ?'a = nat] unsigned_less [of "pr_value_length pr", where ?'a = nat]
    by (simp_all add: unat_ucast_mod)
  then show ?thesis
    using sh building_room [OF b]
    by (cases v) (simp add: accessor_request_def accessor_get_operation_def accessor_get_key_hash_def accessor_get_key_def
      accessor_get_key_length_def accessor_get_value_def accessor_get_value_length_def accessor_get_out_value_length_def
      slot_shows_def pr request_of_def)
qed

text \<open>One request: its response is appended, and behind the last one of a packet the batch is sent.\<close>

lemma answer_request_ok:
  assumes mask: "kParsedRequestMask env = mask k" and p: "unat index = i"
    and sh: "slot_shows buf l (ra_requests ra ! (i mod 2 ^ k)) v" "length (ra_requests ra) = 2 ^ k"
    and B: "building (length (se_buffer env)) qs (ra_b ra)" "\<forall>q \<in> set qs. wire_ok q"
    and r: "request_of v = Some r" "simple_request r t = Some (r', t')"
    and fit: "replies_fit (length (se_buffer env)) (48 + batch_size qs) [r']" and n: "length (se_buffer env) < 2 ^ 16"
    and buf: "43 \<le> length (fst buf)"
  shows "\<exists>ra'. answer_request enso env index ra t = Some (ra', t') \<and> same_input ra ra'
    \<and> (if l then responded enso env buf (qs @ [response v r']) ra ra'
       else building (length (se_buffer env)) (qs @ [response v r']) (ra_b ra') \<and> ra_released ra' = ra_released ra \<and> ra_tx ra' = ra_tx ra)"
proof -
  let ?pr = "ra_requests ra ! (i mod 2 ^ k)" and ?q = "response v r'" and ?bs = "words_bytes (r_out_value r')"
  have at: "parsed_at env index ra = Some ?pr" using sh(2) by (simp add: parsed_at_def mask unat_and_mask p elem_at_def)
  have out: "whole_reply r'" "length (r_out_value r') < 180" "48 + batch_size qs + 24 + 8 * length (r_out_value r') \<le> length (se_buffer env)"
    using request_of_whole [OF r] fit by (simp_all add: request_header_size_def)
  note W = whole_replyD [OF out(1,2)] and Q = response_ok [OF out(1,2), of v]
  obtain op res opaque key_hash key val where v: "v = (op, res, opaque, key_hash, key, val)" by (cases v)
  have q: "wq_operation ?q = op" "wq_result ?q = result_code (r_result r')" "wq_opaque ?q = opaque" "wq_key_hash ?q = key_hash"
    by (simp_all add: response_def v)
  have S: "pr_operation ?pr = op" "pr_opaque ?pr = opaque" "pr_key_hash ?pr = key_hash" "pr_src_buf ?pr = buf" "pr_last_in_packet ?pr = l"
    using sh(1) by (simp_all add: slot_shows_def v)
  have size: "48 + batch_size (qs @ [?q]) \<le> length (se_buffer env)"
    using out(3) W(2) Q(4) by (simp add: batch_size_def request_header_size_def)
  have len: "of_nat (length (reply_value r')) = r_out_value_length r'" using W(1) by simp
  obtain b1 b2 where b: "put_data (get_out_value 0 (ra_b ra)) ?bs (ra_b ra) = Some b1"
    "append_request_no_key_value op (result_code (r_result r')) opaque key_hash 0 (r_out_value_length r') b1 = Some b2"
    "building (length (se_buffer env)) (qs @ [?q]) b2"
    using building_append [OF B(1) Q(1,3) size, of ?bs] W(4) out(3) unfolding Q(2) q len by auto
  have ok: "\<forall>q \<in> set (qs @ [?q]). wire_ok q" using B(2) Q(3) by simp
  let ?ra = "ra\<lparr>ra_b := b1, ra_value_length := r_out_value_length r', ra_result := result_code (r_result r')\<rparr>"
  from flush_responds [OF b(3) ok size n buf, of enso ?ra] obtain b' tx' p' where fl:
    "flush_pending_response_batch enso env buf (?ra\<lparr>ra_b := b2\<rparr>) = Some (?ra\<lparr>ra_b := b', ra_tx := tx'\<rparr>)"
    "flow tx' = flow (ra_tx ?ra) @ [p']" "answers enso buf (qs @ [?q]) p'"
    by (elim exE conjE) (rule that)
  have at1: "parsed_at env index ?ra = Some ?pr" using at by (simp add: parsed_at_def)
  obtain ra' where ra': "accessor_retire enso env index ?ra = Some ra'" "same_input ?ra ra'"
    "ra_b ra' = (if l then builder_new (se_buffer env) 0 else b2)" "ra_tx ra' = (if l then tx' else ra_tx ?ra)"
    "ra_released ra' = ra_released ?ra @ (if l \<and> \<not> enso then [buf] else [])"
    using accessor_retire_ok [OF at1, where b = b2 and enso = enso and b' = b' and tx' = tx'] b(2,3) fl(1) by (auto simp: S building_def)
  have "accessor_request env index ra = Some r" using accessor_request_shows [OF at sh(1) B(1)] r(1) by simp
  then have "answer_request enso env index ra t = Some (ra', t')"
    using r(2) out(2) b(1) ra'(1) building_room [OF B(1)] reply_room
    by (simp add: answer_request_def accessor_get_out_value_length_def accessor_get_out_value_def
      accessor_set_out_value_length_def accessor_set_result_def Let_def)
  moreover have "same_input ra ra'" using ra'(2) by (simp add: same_input_def)
  moreover have "if l then responded enso env buf (qs @ [?q]) ra ra'
       else building (length (se_buffer env)) (qs @ [?q]) (ra_b ra') \<and> ra_released ra' = ra_released ra \<and> ra_tx ra' = ra_tx ra"
    using ra'(3-5) fl(2,3) b(3) by (auto simp: responded_def)
  ultimately show ?thesis by blast
qed

section \<open>The loop of the processor\<close>

lemma process_answer:
  assumes "index \<noteq> ucast (ra_next_index_to_prepare ra)" "answer_request enso env index ra t = Some (ra', t')"
  shows "accessor_process enso env index ra t = accessor_process enso env (index + 1) ra' t'"
  using assms by (simp add: accessor_process.simps [of enso env index ra] accessor_prepare_def)

lemma process_end:
  "parse_request_batch enso env ra = Some (False, ra') \<Longrightarrow> index = ucast (ra_next_index_to_prepare ra)
    \<Longrightarrow> accessor_process enso env index ra t = Some (ra', t)"
  by (simp add: accessor_process.simps [of enso env _ ra] accessor_prepare_def)

lemma process_more:
  assumes "parse_request_batch enso env ra = Some (True, ra')"
    and "index = ucast (ra_next_index_to_prepare ra)" "index \<noteq> ucast (ra_next_index_to_prepare ra')"
  shows "accessor_process enso env index ra t = accessor_process enso env index ra' t"
proof -
  have "accessor_prepare enso env index ra = Some (True, ra')" "accessor_prepare enso env index ra' = Some (True, ra')"
    using assms by (simp_all add: accessor_prepare_def)
  then show ?thesis by (simp add: accessor_process.simps [of enso env index ra] accessor_process.simps [of enso env index ra'])
qed

lemma index_of_nat:
  assumes "n < 2 ^ 16"
  shows "unat (of_nat n :: u64) = n" "(of_nat n :: u64) = ucast (i :: u16) \<longleftrightarrow> n = unat i"
proof -
  show u: "unat (of_nat n :: u64) = n" using assms by (simp add: unat_of_nat)
  have "unat i < 2 ^ 64" using unsigned_less [of i, where ?'a = nat] by simp
  then show "(of_nat n :: u64) = ucast i \<longleftrightarrow> n = unat i" using u by (simp add: word_unat_eq_iff unat_ucast_mod)
qed

text \<open>All requests of a packet.\<close>

lemma serve_batch:
  assumes mask: "kParsedRequestMask env = mask k" and len: "length (ra_requests ra) = 2 ^ k"
    and st: "stored k buf (\<lambda>i. Suc i = length vs) p (ra_requests ra) vs" "vs \<noteq> []"
    and idx: "unat (ra_next_index_to_prepare ra) = p + length vs" "p + length vs < 2 ^ 16"
    and B: "building (length (se_buffer env)) qs (ra_b ra)" "\<forall>q \<in> set qs. wire_ok q"
    and rs: "map request_of vs = map Some rs" "simple_serve rs t = Some (rs', t')"
    and fit: "replies_fit (length (se_buffer env)) (48 + batch_size qs) rs'" and n: "length (se_buffer env) < 2 ^ 16"
    and buf: "43 \<le> length (fst buf)"
  shows "\<exists>ra'. accessor_process enso env (of_nat p) ra t = accessor_process enso env (of_nat (p + length vs)) ra' t' \<and> same_input ra ra'
    \<and> responded enso env buf (qs @ map2 response vs rs') ra ra'"
  using len st idx B rs fit
proof (induction vs arbitrary: p ra qs rs rs' t)
  case (Cons v vs)
  obtain r rs0 where r: "rs = r # rs0" "request_of v = Some r" "map request_of vs = map Some rs0"
    using Cons.prems(8) by (cases rs) auto
  obtain r' t1 rs1 where r': "simple_request r t = Some (r', t1)" "simple_serve rs0 t1 = Some (rs1, t')" "rs' = r' # rs1"
    using Cons.prems(9) r(1) by (auto split: bind_splits prod.splits)
  have at: "slot_shows buf (vs = []) (ra_requests ra ! (p mod 2 ^ k)) v"
    using Cons.prems(2) by (auto simp: stored_def dest: spec [of _ 0])
  have fit1: "replies_fit (length (se_buffer env)) (48 + batch_size qs) [r']" using Cons.prems(10) r'(3) by simp
  have ip: "unat (of_nat p :: u64) = p" "(of_nat p :: u64) \<noteq> ucast (ra_next_index_to_prepare ra)"
    using index_of_nat [of p] Cons.prems(4,5) by simp_all
  obtain ra1 where ra1: "answer_request enso env (of_nat p) ra t = Some (ra1, t1)" "same_input ra ra1"
    "if vs = [] then responded enso env buf (qs @ [response v r']) ra ra1
     else building (length (se_buffer env)) (qs @ [response v r']) (ra_b ra1) \<and> ra_released ra1 = ra_released ra \<and> ra_tx ra1 = ra_tx ra"
    using answer_request_ok [OF mask ip(1) at Cons.prems(1,6,7) r(2) r'(1) fit1 n buf, of enso] by blast
  have step: "accessor_process enso env (of_nat p) ra t = accessor_process enso env (of_nat (Suc p)) ra1 t1"
    using process_answer [OF ip(2) ra1(1)] by (simp add: add.commute)
  show ?case
  proof (cases "vs = []")
    case True
    then have "rs0 = []" using r(3) by simp
    then show ?thesis using True step ra1(2,3) r'(2,3) by auto
  next
    case False
    have same: "ra_requests ra1 = ra_requests ra" "ra_next_index_to_prepare ra1 = ra_next_index_to_prepare ra"
      using ra1(2) by (simp_all add: same_input_def)
    have tl: "stored k buf (\<lambda>i. Suc i = length vs) (Suc p) (ra_requests ra1) vs"
      using Cons.prems(2) by (auto simp: stored_def same dest: spec [of _ "Suc _"])
    have R: "wire_ok (response v r')" "48 + batch_size (qs @ [response v r']) = 48 + batch_size qs + request_header_size + length (reply_value r')"
      using response_ok(3,4) [OF request_of_whole [OF r(2) r'(1)], of v] fit1 by (simp_all add: batch_size_def)
    have "\<exists>ra'. accessor_process enso env (of_nat (Suc p)) ra1 t1 = accessor_process enso env (of_nat (Suc p + length vs)) ra' t'
      \<and> same_input ra1 ra' \<and> responded enso env buf ((qs @ [response v r']) @ map2 response vs rs1) ra1 ra'"
    proof (rule Cons.IH [OF _ tl False _ _ _ _ r(3) r'(2)])
      show "replies_fit (length (se_buffer env)) (48 + batch_size (qs @ [response v r'])) rs1"
        unfolding R(2) using Cons.prems(10) r'(3) by simp
    qed (use Cons.prems(1,4,5,7) same False ra1(3) R(1) in auto)
    then obtain ra' where ra': "accessor_process enso env (of_nat (Suc p)) ra1 t1 = accessor_process enso env (of_nat (Suc p + length vs)) ra' t'"
      "same_input ra1 ra'" "responded enso env buf (qs @ response v r' # map2 response vs rs1) ra1 ra'"
      by auto
    have "responded enso env buf (qs @ map2 response (v # vs) rs') ra ra'" using ra'(3) ra1(3) False r'(3) by (simp add: responded_def)
    then show ?thesis using step ra'(1,2) ra1(2) by (auto simp: same_input_def)
  qed
qed simp

text \<open>A packet of one or more requests, not more than the ring holds.\<close>

definition servable :: "bool \<Rightarrow> server_env \<Rightarrow> packet \<times> view list \<Rightarrow> bool" where
  "servable enso env req \<longleftrightarrow> (case req of (p, vs) \<Rightarrow>
     read_packet enso (fst p) (snd p) = Some (Some (True, vs)) \<and> vs \<noteq> []
     \<and> length vs \<le> unat (sc_kMaxParsedRequestCount (se_config env)))"

lemma read_packet_length: "read_packet enso data len = Some (Some x) \<Longrightarrow> 43 \<le> length data"
  using read_packetD [of enso data len "fst x" "snd x"]
  by (auto simp: is_request_def get_word_def get_bytes_def split: bind_splits if_splits)

lemma serve_packet:
  assumes mask: "kParsedRequestMask env = mask k" "k \<le> 16" "unat (sc_kMaxParsedRequestCount (se_config env)) = 2 ^ k"
    and len: "length (ra_requests ra) = 2 ^ k"
    and req: "servable enso env (buf, vs)" "ra_next_packet ra < length (ra_bufs ra)" "buf = ra_bufs ra ! ra_next_packet ra"
    and idx: "p = unat (ra_next_index_to_prepare ra)" "p + length vs < 2 ^ 16"
    and b: "ra_b ra = builder_new (se_buffer env) 0" "length (se_buffer env) < 2 ^ 16"
    and rs: "map request_of vs = map Some rs" "simple_serve rs t = Some (rs', t')" "replies_fit (length (se_buffer env)) 48 rs'"
  shows "\<exists>ra'. accessor_process enso env (of_nat p) ra t = accessor_process enso env (of_nat (p + length vs)) ra' t' \<and> ra_bufs ra' = ra_bufs ra
    \<and> ra_next_packet ra' = Suc (ra_next_packet ra) \<and> length (ra_requests ra') = 2 ^ k
    \<and> unat (ra_next_index_to_prepare ra') = p + length vs \<and> responded enso env buf (map2 response vs rs') ra ra'"
proof -
  have S: "read_packet enso (fst buf) (snd buf) = Some (Some (True, vs))" "vs \<noteq> []" "length vs \<le> 2 ^ k"
    using req(1) mask(3) by (simp_all add: servable_def)
  from parse_request_batch_ok [OF S req(2,3) mask(1,2) len] idx obtain ra1 where ra1:
    "parse_request_batch enso env ra = Some (True, ra1)" "took_packet k buf vs ra ra1"
    by auto
  obtain prs where eq: "ra1 = ra\<lparr>ra_requests := prs, ra_next_index_to_prepare := ra_next_index_to_prepare ra + of_nat (length vs),
       ra_next_packet := Suc (ra_next_packet ra)\<rparr>"
    and T: "length prs = 2 ^ k" "stored k buf (\<lambda>i. Suc i = length vs) p prs vs"
    using ra1(2) by (auto simp: took_packet_def idx(1))
  have i1: "unat (ra_next_index_to_prepare ra1) = p + length vs" using idx by (simp add: eq unat_word_ariths unat_of_nat)
  have ip: "(of_nat p :: u64) = ucast (ra_next_index_to_prepare ra)" "(of_nat p :: u64) \<noteq> ucast (ra_next_index_to_prepare ra1)"
    using index_of_nat [of p] idx i1 S(2) by simp_all
  have B: "building (length (se_buffer env)) [] (ra_b ra1)" by (simp add: eq b(1) building_new)
  have st1: "length (ra_requests ra1) = 2 ^ k" "stored k buf (\<lambda>i. Suc i = length vs) p (ra_requests ra1) vs" using T by (simp_all add: eq)
  have fit1: "replies_fit (length (se_buffer env)) (48 + batch_size []) rs'" using rs(3) by (simp add: batch_size_def)
  have "accessor_process enso env (of_nat p) ra t = accessor_process enso env (of_nat p) ra1 t"
    using ra1(1) ip by (rule process_more)
  moreover obtain ra' where "accessor_process enso env (of_nat p) ra1 t = accessor_process enso env (of_nat (p + length vs)) ra' t'" "same_input ra1 ra'"
    "responded enso env buf ([] @ map2 response vs rs') ra1 ra'"
    using serve_batch [OF mask(1) st1 S(2) i1 idx(2) B _ rs(1,2) fit1 b(2) read_packet_length [OF S(1)], of enso] by auto
  ultimately show ?thesis
    using T(1) i1 by (intro exI [of _ ra']) (auto simp: same_input_def responded_def eq)
qed

text \<open>
  The packets \<open>ps\<close> answer the packets received, with the answered requests \<open>rs\<close> of all of them; they fit into
  the buffers.
\<close>

fun packets_answer :: "bool \<Rightarrow> (packet \<times> view list) list \<Rightarrow> request list \<Rightarrow> packet list \<Rightarrow> bool" where
  "packets_answer enso [] rs ps \<longleftrightarrow> rs = [] \<and> ps = []"
| "packets_answer enso ((p, vs) # reqs) rs (p' # ps) \<longleftrightarrow> answers enso p (map2 response vs (take (length vs) rs)) p'
     \<and> packets_answer enso reqs (drop (length vs) rs) ps"
| "packets_answer enso (req # reqs) rs [] \<longleftrightarrow> False"

fun packets_fit :: "nat \<Rightarrow> (packet \<times> view list) list \<Rightarrow> request list \<Rightarrow> bool" where
  "packets_fit n [] rs \<longleftrightarrow> True"
| "packets_fit n ((p, vs) # reqs) rs \<longleftrightarrow> replies_fit n batch_header_size (take (length vs) rs) \<and> packets_fit n reqs (drop (length vs) rs)"

lemma serve_all:
  assumes mask: "kParsedRequestMask env = mask k" "k \<le> 16" "unat (sc_kMaxParsedRequestCount (se_config env)) = 2 ^ k"
    and "length (ra_requests ra) = 2 ^ k" "\<forall>req \<in> set reqs. servable enso env req"
    and "drop (ra_next_packet ra) (ra_bufs ra) = map fst reqs" "ra_next_packet ra \<le> length (ra_bufs ra)"
    and "p = unat (ra_next_index_to_prepare ra)" "p + sum_list (map (length \<circ> snd) reqs) < 2 ^ 16"
    and "ra_b ra = builder_new (se_buffer env) 0" and small: "length (se_buffer env) < 2 ^ 16"
    and "map request_of (concat (map snd reqs)) = map Some rs" "simple_serve rs t = Some (rs', t')"
      "packets_fit (length (se_buffer env)) reqs rs'"
  shows "\<exists>ra' ps. accessor_process enso env (of_nat p) ra t = Some (ra', t') \<and> packets_answer enso reqs rs' ps
    \<and> flow (ra_tx ra') = flow (ra_tx ra) @ ps \<and> ra_released ra' = ra_released ra @ (if enso then [] else map fst reqs)"
  using assms(4-10,12-14)
proof (induction reqs arbitrary: p ra rs rs' t)
  case Nil
  then have ip: "(of_nat p :: u64) = ucast (ra_next_index_to_prepare ra)" using index_of_nat(2) [of p] by simp
  have "parse_request_batch enso env ra = Some (False, ra)" using Nil.prems(3) by (intro parse_request_batch_end) simp
  then have "accessor_process enso env (of_nat p) ra t = Some (ra, t)"
    using ip by (rule process_end)
  then show ?case using Nil.prems by simp
next
  case (Cons req reqs)
  obtain buf vs where req: "req = (buf, vs)" by (cases req)
  have nx: "ra_next_packet ra < length (ra_bufs ra)" "buf = ra_bufs ra ! ra_next_packet ra" "drop (Suc (ra_next_packet ra)) (ra_bufs ra) = map fst reqs"
  proof -
    have d: "drop (ra_next_packet ra) (ra_bufs ra) = buf # map fst reqs" using Cons.prems(3) req by simp
    then show lt: "ra_next_packet ra < length (ra_bufs ra)" by (metis drop_all list.distinct(1) not_less)
    show "buf = ra_bufs ra ! ra_next_packet ra" "drop (Suc (ra_next_packet ra)) (ra_bufs ra) = map fst reqs"
      using d Cons_nth_drop_Suc [OF lt] by simp_all
  qed
  have sv: "servable enso env (buf, vs)" "p + length vs < 2 ^ 16" using Cons.prems(2,6) req by simp_all
  obtain rs1 rs2 where rs: "rs = rs1 @ rs2" "map request_of vs = map Some rs1" "map request_of (concat (map snd reqs)) = map Some rs2"
    using Cons.prems(8) req by (auto simp: append_eq_map_conv)
  obtain rs1' t1 rs2' where s: "simple_serve rs1 t = Some (rs1', t1)" "simple_serve rs2 t1 = Some (rs2', t')" "rs' = rs1' @ rs2'"
    using Cons.prems(9) rs(1) by (auto simp: simple_serve_append split: bind_splits prod.splits)
  have len: "length rs1' = length vs" using simple_serve_length [OF s(1)] rs(2) by (metis length_map)
  have fit: "replies_fit (length (se_buffer env)) 48 rs1'" "packets_fit (length (se_buffer env)) reqs rs2'"
    using Cons.prems(10) req s(3) len by (simp_all add: header_size)
  obtain ra1 where ra1: "accessor_process enso env (of_nat p) ra t = accessor_process enso env (of_nat (p + length vs)) ra1 t1" "ra_bufs ra1 = ra_bufs ra"
    "ra_next_packet ra1 = Suc (ra_next_packet ra)" "length (ra_requests ra1) = 2 ^ k"
    "unat (ra_next_index_to_prepare ra1) = p + length vs" "responded enso env buf (map2 response vs rs1') ra ra1"
    using serve_packet [OF mask Cons.prems(1) sv(1) nx(1,2) Cons.prems(5) sv(2) Cons.prems(7) small rs(2) s(1) fit(1)] by blast
  obtain p' where p': "flow (ra_tx ra1) = flow (ra_tx ra) @ [p']" "answers enso buf (map2 response vs rs1') p'"
    and b1: "ra_b ra1 = builder_new (se_buffer env) 0" "ra_released ra1 = ra_released ra @ (if enso then [] else [buf])"
    using ra1(6) by (auto simp: responded_def)
  have "\<exists>ra' ps. accessor_process enso env (of_nat (p + length vs)) ra1 t1 = Some (ra', t') \<and> packets_answer enso reqs rs2' ps
    \<and> flow (ra_tx ra') = flow (ra_tx ra1) @ ps \<and> ra_released ra' = ra_released ra1 @ (if enso then [] else map fst reqs)"
    by (rule Cons.IH [OF ra1(4) _ _ _ _ _ b1(1) rs(3) s(2) fit(2)]) (use ra1(2-5) Cons.prems(2,6) nx req in auto)
  then obtain ra' ps where ra': "accessor_process enso env (of_nat (p + length vs)) ra1 t1 = Some (ra', t')" "packets_answer enso reqs rs2' ps"
    "flow (ra_tx ra') = flow (ra_tx ra1) @ ps" "ra_released ra' = ra_released ra1 @ (if enso then [] else map fst reqs)"
    by (elim exE conjE) (rule that)
  have "packets_answer enso (req # reqs) rs' (p' # ps)" using p'(2) ra'(2) len by (simp add: req s(3))
  then show ?case using ra1(1) ra' p'(1) b1(2) req by (intro exI [of _ ra'] exI [of _ "p' # ps"]) simp
qed

end
