(* ===== verification/Datagram_Serve.thy ===== *)
theory Datagram_Serve
  imports Datagram_Replies L_Lossy
begin

text \<open>
  What a round of the server's worker does to a burst of packets.
\<close>

section \<open>Properties of the server\<close>

lemma flow_sent [simp]: "flow (server_send_pending tx) = flow tx"
  by (simp add: flow_def server_send_pending_def)

lemma flow_checks [simp]:
  "flow (server_check_pending_tx_min env tx) = flow tx" "flow (server_check_pending_tx_timeout env now tx) = flow tx"
  by (simp_all add: server_check_pending_tx_min_def server_check_pending_tx_timeout_def)

lemma request_mask:
  assumes "unat (sc_kMaxParsedRequestCount (se_config env)) = 2 ^ k" "k \<le> 16"
  shows "kParsedRequestMask env = mask k"
proof -
  have "sc_kMaxParsedRequestCount (se_config env) = 2 ^ k"
    using assms unat_two_power [of k, where 'a = 64] by (simp add: word_unat_eq_iff)
  then show ?thesis by (simp add: kParsedRequestMask_def two_power_minus_one_mask)
qed

lemma serve_setup:
  assumes ring: "unat (sc_kMaxParsedRequestCount (se_config env)) = 2 ^ k" "k \<le> 16" "length (ra_requests ra) = 2 ^ k"
    and reqs: "\<forall>req \<in> set reqs. servable enso env req" "sum_list (map (length \<circ> snd) reqs) < 2 ^ 16"
    and small: "length (se_buffer env) < 2 ^ 16"
    and rs: "map request_of (concat (map snd reqs)) = map Some rs" "simple_process rs t = Some (rs', t')"
      "packets_fit (length (se_buffer env)) reqs rs'"
  shows "\<exists>ra' ps. accessor_process enso env 0 (accessor_setup enso env (map fst reqs) now (accessor_new enso env ra)) t = Some (ra', t')
    \<and> packets_answer enso reqs rs' ps \<and> flow (ra_tx ra') = flow (ra_tx ra) @ ps
    \<and> ra_released ra' = ra_released ra @ (if enso then [] else map fst reqs)"
proof -
  have "length rs = sum_list (map (length \<circ> snd) reqs)"
    using arg_cong [OF rs(1), of length] by (simp add: length_concat comp_def)
  then have "simple_serve rs t = Some (rs', t')" using simple_process_serve [of rs t] rs(2) reqs(2) by simp
  then show ?thesis
    using serve_all [OF request_mask [OF ring(1,2)] ring(2,1), of "accessor_setup enso env (map fst reqs) now (accessor_new enso env ra)"
      reqs enso 0 rs t rs' t'] assms
    by (cases enso) (simp_all add: accessor_setup_def accessor_new_def make_new_pending_response_batch_def Let_def)
qed

lemma round_answers:
  assumes "unat (sc_kMaxParsedRequestCount (se_config env)) = 2 ^ k" "k \<le> 16" "length (ra_requests ra) = 2 ^ k"
    and "\<forall>req \<in> set reqs. servable enso env req" "sum_list (map (length \<circ> snd) reqs) < 2 ^ 16"
    and "length (se_buffer env) < 2 ^ 16"
    and "map request_of (concat (map snd reqs)) = map Some rs" "simple_process rs t = Some (rs', t')"
      "packets_fit (length (se_buffer env)) reqs rs'"
  shows "\<exists>ra' ps. worker_round enso env (accessor_process enso env 0) (map fst reqs) now (accessor_new enso env ra) t = Some (ra', t')
    \<and> packets_answer enso reqs rs' ps \<and> flow (ra_tx ra') = flow (ra_tx ra) @ ps
    \<and> ra_released ra' = ra_released ra @ (if enso then [] else map fst reqs)"
proof -
  from serve_setup [OF assms, of now] obtain ra' ps where
    r: "accessor_process enso env 0 (accessor_setup enso env (map fst reqs) now (accessor_new enso env ra)) t = Some (ra', t')"
    "packets_answer enso reqs rs' ps" "flow (ra_tx ra') = flow (ra_tx ra) @ ps"
    "ra_released ra' = ra_released ra @ (if enso then [] else map fst reqs)"
    by (elim exE conjE) (rule that)
  show ?thesis
  proof (cases "\<not> enso \<and> reqs = []")
    case True
    then have "rs = []" using assms(7) by simp
    then have "t' = t" "rs' = []" using assms(8) by (simp_all add: simple_process_serve)
    then show ?thesis using True by (simp add: worker_round_def accessor_new_def make_new_pending_response_batch_def)
  next
    case False
    then show ?thesis using r by (auto simp: worker_round_def Let_def)
  qed
qed

text \<open>
  C3. The server answers what it receives. \<^verbatim>\<open>SimpleProcessor::process\<close> over the accessor of the server, in a
  round of the worker on a burst of packets of requests, answers as it does on one array of the requests
  of all the packets, and leaves the same table: exactly one packet of responses for each packet of
  requests, in order, valid for the reader and addressed to the sender, with the results and values of its
  requests in order under their opaque numbers; each packet is given back to the network once (without
  \<^verbatim>\<open>USE_ENSO\<close>). This is under the conditions that each packet has a request and no more than the ring
  of parsed requests holds, the burst has fewer than 65536, the keys and values are whole 64-bit words,
  the processor returns on the array, the values it writes are below 1440 bytes, and the responses of each packet fit
  into one buffer (\<open>packets_fit\<close>; \<open>space_never_shrinks\<close> shows what happens otherwise).
\<close>
theorem server_answers:
  assumes "unat (sc_kMaxParsedRequestCount (se_config env)) = 2 ^ k" "k \<le> 16" "length (ra_requests ra) = 2 ^ k"
    and "\<forall>req \<in> set reqs. servable enso env req" "sum_list (map (length \<circ> snd) reqs) < 2 ^ 16"
    and "length (se_buffer env) < 2 ^ 16"
    and "map request_of (concat (map snd reqs)) = map Some rs" "simple_process rs t = Some (rs', t')"
      "packets_fit (length (se_buffer env)) reqs rs'"
  shows "\<exists>ra' ps. worker_round enso env (accessor_process enso env 0) (map fst reqs) now (accessor_new enso env ra) t = Some (ra', t')
    \<and> packets_answer enso reqs rs' ps \<and> flow (ra_tx ra') = flow (ra_tx ra) @ ps
    \<and> ra_released ra' = ra_released ra @ (if enso then [] else map fst reqs)"
  by (rule round_answers [OF assms])

definition small_server_env :: server_env where
  "small_server_env = \<lparr>se_config = BasicDatagramServerConfig, se_buffer = replicate 1514 0xff, se_c_1_usec = 2\<rparr>"

definition small_accessor :: accessor where
  "small_accessor = \<lparr>ra_bufs = [], ra_next_packet = 0, ra_now = 0,
     ra_requests = replicate 128 \<lparr>pr_src_buf = ([], 0), pr_key = 0, pr_value = 0, pr_key_hash = 0, pr_value_length = 0, pr_opaque = 0,
       pr_key_length = 0, pr_operation = 0, pr_last_in_packet = False\<rparr>,
     ra_b = builder_new [] 0, ra_value_length = 0, ra_result = 0, ra_next_index_to_prepare = 0, ra_next_index_to_retire = 0,
     ra_tx = \<lparr>tx_pending = [], tx_oldest_time = 0, tx_sent = []\<rparr>, ra_released = [],
     ra_stats = \<lparr>ss_operations_done = 0, ss_operations_succeeded = 0\<rparr>\<rparr>"

text \<open>A packet that sets the value of a key and gets it.\<close>

definition word_requests :: "wire_request list" where
  "word_requests = [\<lparr>wq_operation = operation_code KSet, wq_result = result_code KSuccess, wq_opaque = 7, wq_key_hash = 5,
       wq_key = words_bytes [1], wq_value = words_bytes [10]\<rparr>,
     \<lparr>wq_operation = operation_code KGet, wq_result = result_code KSuccess, wq_opaque = 8, wq_key_hash = 5,
       wq_key = words_bytes [1], wq_value = []\<rparr>]"

definition word_request :: "operation \<Rightarrow> u64 list \<Rightarrow> request" where
  "word_request op val = \<lparr>r_operation = op, r_key_hash = 5, r_key = [1], r_value = val, r_out_value = [],
     r_out_value_length = reply_room, r_result = KNotProcessed\<rparr>"

lemma word_requests_seen: "map request_of (map wire_view word_requests) = map Some [word_request KSet [10], word_request KGet []]"
  by code_simp

definition word_replies :: "request list" where
  "word_replies = [answer 0 KSuccess (word_request KSet [10]),
     answer 8 KSuccess (fill_out [10] (word_request KGet []))]"

lemma word_requests_answered:
  "map_option fst (simple_process [word_request KSet [10], word_request KGet []] small_table) = Some word_replies"
  by code_simp

lemma word_replies_fit: "replies_fit 1514 batch_header_size word_replies"
  by code_simp

theorem server_answers_witness:
  "\<exists>p t' ra' ps. worker_round False small_server_env (accessor_process False small_server_env 0) (map fst [(p, map wire_view word_requests)]) 5
      (accessor_new False small_server_env small_accessor) small_table = Some (ra', t')
    \<and> packets_answer False [(p, map wire_view word_requests)] word_replies ps \<and> flow (ra_tx ra') = flow (ra_tx small_accessor) @ ps
    \<and> ra_released ra' = ra_released small_accessor @ (if False then [] else map fst [(p, map wire_view word_requests)])"
proof -
  have ok: "\<forall>q \<in> set word_requests. wire_ok q" by (simp add: word_requests_def wire_ok_def)
  have "batch_size word_requests = 72" by code_simp
  then obtain p where
    p: "read_packet False (fst p) (snd p) = Some (Some (True, map wire_view word_requests))"
    using batch_round [OF ok, of "replicate 1514 0" 0 True False] by (auto simp: header_size)
  obtain t' where t: "simple_process [word_request KSet [10], word_request KGet []] small_table = Some (word_replies, t')"
    using word_requests_answered by auto
  have "servable False small_server_env (p, map wire_view word_requests)"
    using p by (simp add: servable_def small_server_env_def BasicDatagramServerConfig_def word_requests_def)
  moreover have "length (map wire_view word_requests) = 2" "length word_replies = 2" by (simp_all add: word_requests_def word_replies_def)
  ultimately show ?thesis
    using word_requests_seen word_replies_fit
    by (intro exI [of _ p] exI [of _ t'] server_answers [where k = 7, OF _ _ _ _ _ _ _ t])
      (simp_all add: small_server_env_def BasicDatagramServerConfig_def small_accessor_def)
qed

lemma enso_turn_stays:
  assumes at: "ra_next_packet ra < length (ra_bufs ra)" "buf = ra_bufs ra ! ra_next_packet ra"
    and bad: "read_packet True (fst buf) (snd buf) = Some x" "\<forall>vs. x = Some (True, vs) \<longrightarrow> vs = []"
  shows "parse_turn True env ra = Some (None, ra)"
proof -
  obtain valid r where v: "is_valid True (reader_new (fst buf) (snd buf)) = Some (valid, r)"
    using bad(1) by (auto simp: read_packet_def split: bind_splits)
  show ?thesis
  proof (cases "valid \<and> is_request r = Some True")
    case True
    then have "read_requests r = Some []" using v bad by (auto simp: read_packet_def split: bind_splits)
    then obtain r' where "find_next r = Some (False, r')"
      by (auto simp: read_requests.simps [of r] split: bind_splits if_splits)
    then have "parse_requests env buf r ra = Some ra" by (simp add: parse_requests.simps [of env buf r])
    then show ?thesis using v True at by (simp add: parse_turn_def)
  next
    case False
    then show ?thesis using v at bad(1) by (auto simp: parse_turn_def read_packet_def split: bind_splits)
  qed
qed

lemma parse_stuck:
  assumes "parse_turn enso env ra = Some (None, ra)"
  shows "parse_request_batch enso env ra = None"
proof -
  have "\<not> (e = enso \<and> v = env \<and> r = ra)" if "parse_request_batch e v r = Some y" for e v r y
    using that
  proof (rule parse_request_batch.raw_induct [rotated])
    fix f :: "bool \<Rightarrow> server_env \<Rightarrow> accessor \<Rightarrow> (bool \<times> accessor) option" and e v r y
    assume IH: "\<And>e v r y. f e v r = Some y \<Longrightarrow> \<not> (e = enso \<and> v = env \<and> r = ra)"
      and body: "do { (res, ra) \<leftarrow> parse_turn e v r; case res of None \<Rightarrow> f e v ra | Some found \<Rightarrow> Some (found, ra) } = Some y"
    show "\<not> (e = enso \<and> v = env \<and> r = ra)"
    proof
      assume "e = enso \<and> v = env \<and> r = ra"
      then have "f enso env ra = Some y" using body assms by simp
      then show False using IH by blast
    qed
  qed
  then show ?thesis by (metis not_None_eq)
qed

text \<open>
  C34. With \<^verbatim>\<open>USE_ENSO\<close>, one packet that is no batch of requests (its headers are not valid, or it is
  a response, or it has no request) stops the server: a turn of the loop over the packets leaves
  \<^verbatim>\<open>buf_iter_\<close> and everything else as it is, the loop never ends, and the processor that asks for the next
  request never returns.
\<close>
theorem enso_parse_hangs:
  assumes "ra_next_packet ra < length (ra_bufs ra)" "buf = ra_bufs ra ! ra_next_packet ra"
    and "read_packet True (fst buf) (snd buf) = Some x" "\<forall>vs. x = Some (True, vs) \<longrightarrow> vs = []"
  shows "parse_turn True env ra = Some (None, ra) \<and> parse_request_batch True env ra = None
    \<and> accessor_process True env (ucast (ra_next_index_to_prepare ra)) ra t = None"
  using enso_turn_stays [OF assms] parse_stuck [OF enso_turn_stays [OF assms]]
  by (simp add: accessor_process.simps [of True env _ ra] accessor_prepare_def)

definition stray :: packet where "stray = (replicate 64 0, 64)"

theorem enso_parse_hangs_witness:
  "let ra = small_accessor\<lparr>ra_bufs := [stray]\<rparr> in
     parse_turn True small_server_env ra = Some (None, ra) \<and> parse_request_batch True small_server_env ra = None
     \<and> accessor_process True small_server_env (ucast (ra_next_index_to_prepare ra)) ra small_table = None"
  unfolding Let_def
proof (rule enso_parse_hangs)
  show "read_packet True (fst stray) (snd stray) = Some None" by code_simp
qed (simp_all add: small_accessor_def)

end
