(* ===== verification/Datagram_Calls.thy ===== *)
theory Datagram_Calls
  imports Datagram_Requests Datagram_Serve
begin

text \<open>
  The client of \<^verbatim>\<open>datagram_client_impl.h\<close> and the server of \<^verbatim>\<open>datagram_server_impl.h\<close> together: calls
  fill a batch (\<open>submit_all\<close>), the batch becomes a packet (\<open>queue_packet_ok\<close>), the server answers it, and
  the client reads the answer (\<open>handle_packet_views\<close>).
\<close>

section \<open>The client reads a response packet\<close>

fun deliver_views :: "client_config \<Rightarrow> view list \<Rightarrow> 'a client \<Rightarrow> 'a client option" where
  "deliver_views c [] cl = Some cl"
| "deliver_views c ((op, res, opaque, key_hash, key, val) # vs) cl =
     do { cl \<leftarrow> deliver c opaque (Some (res, val)) cl; deliver_views c vs cl }"

lemma handle_one_view:
  assumes "read_request r = Some (op, res, opaque, key_hash, key, val)"
  shows "handle_one c r cl = deliver c opaque (Some (res, val)) cl"
  using assms by (auto simp: read_request_def handle_one_def split: bind_splits)

lemma handle_all_views:
  assumes "read_requests r = Some vs"
  shows "handle_all c r = (deliver_views c vs :: 'a client \<Rightarrow> 'a client option)"
  using assms
proof (rule read_requests.raw_induct [rotated])
  fix f r vs
  assume IH: "\<And>r vs. f r = Some vs \<Longrightarrow> handle_all c r = (deliver_views c vs :: 'a client \<Rightarrow> 'a client option)"
    and body: "do { (found, r) \<leftarrow> find_next r;
        if found then do { q \<leftarrow> read_request r; qs \<leftarrow> f r; Some (q # qs) } else Some [] } = Some vs"
  obtain found r' where n: "find_next r = Some (found, r')" using body by (auto split: bind_splits)
  show "handle_all c r = (deliver_views c vs :: 'a client \<Rightarrow> 'a client option)"
  proof (cases found)
    case False
    then show ?thesis using body n by (simp add: fun_eq_iff handle_all.simps [of c r])
  next
    case True
    then obtain q qs where q: "read_request r' = Some q" "f r' = Some qs" "vs = q # qs" using body n by (auto split: bind_splits)
    then show ?thesis
      using n True IH [OF q(2)] by (intro ext, cases q) (simp add: handle_all.simps [of c r] handle_one_view)
  qed
qed

lemma is_valid_magic:
  assumes "is_valid enso r = Some (True, r')" "is_request r' = Some False"
  shows "is_response r' = Some True"
  using assms
  by (auto simp: is_valid_def valid_headers_def is_request_def is_response_def Let_def split: bind_splits if_splits)

lemma handle_packet_views:
  assumes "read_packet enso (fst p) (snd p) = Some (Some (False, vs))"
  shows "handle_packet enso c p cl = deliver_views c vs cl"
proof -
  obtain r where r: "is_valid enso (reader_new (fst p) (snd p)) = Some (True, r)" "is_request r = Some False" "read_requests r = Some vs"
    using read_packetD [OF assms] by blast
  then show ?thesis using is_valid_magic [OF r(1,2)] by (simp add: handle_packet_def handle_all_views [OF r(3)])
qed

text \<open>The responses to outstanding requests, each under its number.\<close>

definition completes :: "(u16 \<times> u8 \<times> u8 list) list \<Rightarrow> 'a client \<Rightarrow> 'a client \<Rightarrow> bool" where
  "completes rs cl cl' \<longleftrightarrow>
     cl_handled cl' = cl_handled cl @ map (\<lambda>(rd, res, val). Handle rd res val (arg_of (cl_rds cl) rd)) rs"

lemma deliver_outstanding:
  assumes rep: "rd_lists n (cl_rds cl) act un" and rd: "rd \<in> set act" "opaque = make_opaque rd (epoch_of (cl_rds cl) rd)"
    and n: "unat (kMaxOutstandingRequestCount c) = n"
  shows "\<exists>cl'. deliver c opaque (Some (res, val)) cl = Some cl' \<and> rd_lists n (cl_rds cl') (remove1 rd act) (rd # un)
    \<and> completes [(rd, res, val)] cl cl' \<and> arg_of (cl_rds cl') = arg_of (cl_rds cl)
    \<and> epoch_of (cl_rds cl') = (epoch_of (cl_rds cl))(rd := epoch_of (cl_rds cl) rd + 1)"
proof -
  have lt: "unat rd < n" "unat rd < length (rd_items (cl_rds cl))" using rep rd(1) rd_listsD(1) [OF rep, of rd] by (auto simp: rd_lists_def)
  have in_range: "\<not> (ucast rd :: u32) \<ge> kMaxOutstandingRequestCount c"
  proof -
    have "unat (ucast rd :: u32) = unat rd" using unsigned_less [of rd, where ?'a = nat] by (simp add: unat_ucast_mod)
    then show ?thesis using lt(1) n by (simp add: word_le_nat_alt)
  qed
  obtain ds where ds: "release_rd rd (cl_rds cl) = Some ds" "rd_lists n ds (remove1 rd act) (rd # un)"
      "epoch_of ds = (epoch_of (cl_rds cl))(rd := epoch_of (cl_rds cl) rd + 1)" "arg_of ds = arg_of (cl_rds cl)"
    using release_member [OF rep rd(1)] by blast
  let ?cl = "cl\<lparr>cl_handled := cl_handled cl @ [Handle rd res val (arg_of (cl_rds cl) rd)], cl_rds := ds,
      cl_stats := count_response res (cl_stats cl)\<rparr>"
  have "deliver c opaque (Some (res, val)) cl = Some ?cl"
    using in_range lt(2) ds(1) by (simp add: deliver_def Let_def rd(2) opaque_parts rd_item_Some epoch_of_def arg_of_def)
  then show ?thesis using ds(2-4) by (intro exI [of _ ?cl]) (simp add: completes_def)
qed

fun view_of :: "(u16 \<Rightarrow> u16) \<Rightarrow> u16 \<times> u8 \<times> u8 list \<Rightarrow> view \<Rightarrow> bool" where
  "view_of epochs (rd, res, val) (op, res', opaque, key_hash, key, val') \<longleftrightarrow>
     opaque = make_opaque rd (epochs rd) \<and> res' = res \<and> val' = val"

lemma deliver_views_ok:
  assumes "rd_lists n (cl_rds cl) (act @ map fst rs) un" "unat (kMaxOutstandingRequestCount c) = n"
    and "list_all2 (view_of (epoch_of (cl_rds cl))) rs vs"
  shows "\<exists>cl'. deliver_views c vs cl = Some cl' \<and> rd_lists n (cl_rds cl') act (rev (map fst rs) @ un) \<and> completes rs cl cl'"
  using assms
proof (induction rs arbitrary: vs cl un)
  case Nil
  then show ?case by (simp add: completes_def)
next
  case (Cons r rs)
  obtain rd res val where r: "r = (rd, res, val)" by (cases r)
  obtain v vs' op opaque key_hash key where vs: "vs = v # vs'" "v = (op, res, opaque, key_hash, key, val)"
      "opaque = make_opaque rd (epoch_of (cl_rds cl) rd)" "list_all2 (view_of (epoch_of (cl_rds cl))) rs vs'"
    using Cons.prems(3) r by (auto simp: list_all2_Cons1)
  have D: "rd \<notin> set act" "rd \<notin> set (map fst rs)" using Cons.prems(1) r by (auto simp: rd_lists_def)
  have rem: "remove1 rd (act @ map fst (r # rs)) = act @ map fst rs" using D r by (simp add: remove1_append)
  obtain cl1 where cl1: "deliver c opaque (Some (res, val)) cl = Some cl1" "rd_lists n (cl_rds cl1) (act @ map fst rs) (rd # un)"
    "completes [(rd, res, val)] cl cl1" "arg_of (cl_rds cl1) = arg_of (cl_rds cl)"
    "epoch_of (cl_rds cl1) = (epoch_of (cl_rds cl))(rd := epoch_of (cl_rds cl) rd + 1)"
    using deliver_outstanding [OF Cons.prems(1) _ vs(3) Cons.prems(2), of res val] rem r by auto
  have "list_all2 (view_of (epoch_of (cl_rds cl1))) rs vs'"
    using vs(4)
  proof (rule list.rel_mono_strong)
    fix x y assume "x \<in> set rs" "view_of (epoch_of (cl_rds cl)) x y"
    moreover obtain xr xs xv yo yr yq yh yk yv where "x = (xr, xs, xv)" "y = (yo, yr, yq, yh, yk, yv)" by (cases x, cases y) blast
    moreover from this \<open>x \<in> set rs\<close> have "xr \<noteq> rd" using D(2) by force
    ultimately show "view_of (epoch_of (cl_rds cl1)) x y" using cl1(5) by simp
  qed
  from Cons.IH [OF cl1(2) Cons.prems(2) this] obtain cl' where cl': "deliver_views c vs' cl1 = Some cl'"
    "rd_lists n (cl_rds cl') act (rev (map fst rs) @ rd # un)" "completes rs cl1 cl'"
    by blast
  then show ?case using cl1 vs(1,2) r by (simp add: completes_def)
qed

section \<open>The client makes a request packet\<close>

record 'a call =
  ca_op :: operation
  ca_hash :: u64
  ca_key :: "u8 list"
  ca_value :: "u8 list"
  ca_arg :: 'a

definition submit :: "bool \<Rightarrow> client_env \<Rightarrow> u64 \<Rightarrow> 'a call \<Rightarrow> 'a client \<Rightarrow> (u16 \<times> 'a client) option" where
  "submit enso env now q = client_append_request enso env (ca_op q) (ca_hash q) (padded (ca_key q)) (of_nat (length (ca_key q)))
     (padded (ca_value q)) (of_nat (length (ca_value q))) (ca_arg q) now"

fun submit_all :: "bool \<Rightarrow> client_env \<Rightarrow> u64 \<Rightarrow> 'a call list \<Rightarrow> 'a client \<Rightarrow> (u16 list \<times> 'a client) option" where
  "submit_all enso env now [] cl = Some ([], cl)"
| "submit_all enso env now (q # qs) cl =
     do { (rd, cl) \<leftarrow> submit enso env now q cl; (rds, cl) \<leftarrow> submit_all enso env now qs cl; Some (rd # rds, cl) }"

definition call_wire :: "u16 \<Rightarrow> u16 \<Rightarrow> 'a call \<Rightarrow> wire_request" where
  "call_wire rd epoch q = \<lparr>wq_operation = operation_code (ca_op q), wq_result = result_code KSuccess,
     wq_opaque = make_opaque rd epoch, wq_key_hash = ca_hash q, wq_key = ca_key q, wq_value = ca_value q\<rparr>"

definition call_size :: "'a call \<Rightarrow> nat" where
  "call_size q = request_header_size + length (padded (ca_key q)) + length (padded (ca_value q))"

definition call_ok :: "'a call \<Rightarrow> bool" where
  "call_ok q \<longleftrightarrow> length (ca_key q) < 2 ^ 8 \<and> length (ca_value q) < 2 ^ 24"

lemma call_wire_size [simp]: "wire_size (call_wire rd epoch q) = call_size q"
  by (simp add: call_wire_def wire_size_def call_size_def)

lemma call_wire_ok [simp]: "wire_ok (call_wire rd epoch q) \<longleftrightarrow> call_ok q"
  by (simp add: call_wire_def wire_ok_def call_ok_def)

text \<open>The batch of a server that a call goes to.\<close>

definition at_batch :: "nat \<Rightarrow> batch_ref \<Rightarrow> 'a client \<Rightarrow> request_state \<Rightarrow> request_batch \<Rightarrow> bool" where
  "at_batch si ref cl rs prb \<longleftrightarrow> elem_at (cl_request_states cl) si = Some rs \<and> get_batch ref rs = Some prb"

definition with_batch :: "nat \<Rightarrow> batch_ref \<Rightarrow> request_batch \<Rightarrow> request_state \<Rightarrow> 'a client \<Rightarrow> 'a client" where
  "with_batch si ref prb rs cl = cl\<lparr>cl_request_states := (cl_request_states cl)[si := put_batch ref prb rs]\<rparr>"

definition routed :: "client_config \<Rightarrow> nat \<Rightarrow> server \<Rightarrow> batch_ref \<Rightarrow> 'a client \<Rightarrow> 'a call \<Rightarrow> bool" where
  "routed c si s ref cl q \<longleftrightarrow> calc_server_index (ca_hash q) (length (cl_servers cl)) = Some si
     \<and> elem_at (cl_servers cl) si = Some s \<and> choose_batch c (ca_op q) (ca_hash q) s = Some ref"

lemma elem_at_update: "elem_at xs i = Some x \<Longrightarrow> elem_at (xs[i := y]) i = Some y"
  by (auto simp: elem_at_def split: if_splits)

lemma get_put_batch: "get_batch ref rs = Some prb0 \<Longrightarrow> get_batch ref (put_batch ref prb rs) = Some prb"
  by (cases ref) (auto intro: elem_at_update)

lemma put_put_batch [simp]: "put_batch ref prb' (put_batch ref prb rs) = put_batch ref prb' rs"
  by (cases ref) simp_all

lemma at_with_batch: "at_batch si ref cl rs prb0 \<Longrightarrow> at_batch si ref (with_batch si ref prb rs cl) (put_batch ref prb rs) prb"
  by (auto simp: at_batch_def with_batch_def intro: elem_at_update get_put_batch)

lemma at_batch_rds [simp]: "at_batch si ref (cl\<lparr>cl_rds := ds\<rparr>) rs prb \<longleftrightarrow> at_batch si ref cl rs prb"
  by (simp add: at_batch_def)

lemma with_with_batch [simp]: "with_batch si ref prb' (put_batch ref prb rs) (with_batch si ref prb rs cl) = with_batch si ref prb' rs cl"
  by (simp add: with_batch_def)

lemma with_batch_simps [simp]:
  "cl_rds (with_batch si ref prb rs cl) = cl_rds cl" "cl_servers (with_batch si ref prb rs cl) = cl_servers cl"
  "cl_rx_tx_states (with_batch si ref prb rs cl) = cl_rx_tx_states cl" "cl_sent (with_batch si ref prb rs cl) = cl_sent cl"
  "cl_handled (with_batch si ref prb rs cl) = cl_handled cl"
  "(with_batch si ref prb rs cl)\<lparr>cl_rds := ds\<rparr> = with_batch si ref prb rs (cl\<lparr>cl_rds := ds\<rparr>)"
  by (simp_all add: with_batch_def)

lemma update_at_batch:
  "at_batch si ref cl rs prb \<Longrightarrow> f prb = Some prb' \<Longrightarrow> update_request_batch si ref f cl = Some (with_batch si ref prb' rs cl)"
  by (simp add: at_batch_def update_request_batch_def with_batch_def)

lemma batch_full_at:
  "at_batch si ref cl rs prb \<Longrightarrow> batch_full c si ref cl = Some (bd_count (prb_b prb) \<ge> kMaxRequestBatchSize c)"
  by (simp add: at_batch_def batch_full_def)

lemma append_to_batch_ok:
  assumes rep: "rd_lists n (cl_rds cl) act (u # us)" and at: "at_batch si ref cl rs prb"
    and ok: "call_ok q" "bd_h (prb_b prb) + call_size q \<le> length (bd_data (prb_b prb))"
  shows "\<exists>ds b. append_to_batch env (ca_op q) (ca_hash q) (padded (ca_key q)) (of_nat (length (ca_key q)))
      (padded (ca_value q)) (of_nat (length (ca_value q))) (ca_arg q) si ref now cl
        = Some (u, with_batch si ref (prb\<lparr>prb_b := b\<rparr>) rs (cl\<lparr>cl_rds := ds\<rparr>))
    \<and> append_wire (call_wire u (epoch_of (cl_rds cl) u) q) (prb_b prb) = Some b
    \<and> rd_lists n ds (act @ [u]) us \<and> epoch_of ds = epoch_of (cl_rds cl) \<and> arg_of ds = (arg_of (cl_rds cl))(u := ca_arg q)"
proof -
  obtain ds where ds: "allocate_rd env now (ca_arg q) (cl_rds cl) = Some (u, ds)" "rd_lists n ds (act @ [u]) us"
    "epoch_of ds = epoch_of (cl_rds cl)" "arg_of ds = (arg_of (cl_rds cl))(u := ca_arg q)"
    using allocate_rd_ok [OF rep, of env now "ca_arg q"] by blast
  let ?w = "call_wire u (epoch_of (cl_rds cl) u) q"
  have "unat u < length (rd_items ds)" using ds(2) rd_listsD(1) [OF ds(2), of u] by (simp add: rd_lists_def)
  then have it: "rd_item u ds = Some (rd_items ds ! unat u)" by (rule rd_item_Some)
  have ep: "rdi_epoch (rd_items ds ! unat u) = epoch_of (cl_rds cl) u" using ds(3) by (simp add: fun_eq_iff epoch_of_def)
  obtain b where b: "append_wire ?w (prb_b prb) = Some b" using append_wire_ok [of ?w "prb_b prb"] ok by auto
  have "update_request_batch si ref (\<lambda>prb. do {
           b \<leftarrow> append_request (operation_code (ca_op q)) (result_code KSuccess) (make_opaque u (epoch_of (cl_rds cl) u)) (ca_hash q)
             (padded (ca_key q)) (of_nat (length (ca_key q))) (padded (ca_value q)) (of_nat (length (ca_value q))) (prb_b prb);
           Some (prb\<lparr>prb_b := b\<rparr>)
         }) (cl\<lparr>cl_rds := ds\<rparr>) = Some (with_batch si ref (prb\<lparr>prb_b := b\<rparr>) rs (cl\<lparr>cl_rds := ds\<rparr>))"
  proof (rule update_at_batch)
    have "append_request (operation_code (ca_op q)) (result_code KSuccess) (make_opaque u (epoch_of (cl_rds cl) u)) (ca_hash q)
             (padded (ca_key q)) (of_nat (length (ca_key q))) (padded (ca_value q)) (of_nat (length (ca_value q))) (prb_b prb) = Some b"
      using b by (simp add: append_wire_def call_wire_def)
    then show "do {
           b \<leftarrow> append_request (operation_code (ca_op q)) (result_code KSuccess) (make_opaque u (epoch_of (cl_rds cl) u)) (ca_hash q)
             (padded (ca_key q)) (of_nat (length (ca_key q))) (padded (ca_value q)) (of_nat (length (ca_value q))) (prb_b prb);
           Some (prb\<lparr>prb_b := b\<rparr>)
         } = Some (prb\<lparr>prb_b := b\<rparr>)" by simp
  qed (simp add: at)
  then show ?thesis using ds b by (intro exI [of _ ds] exI [of _ b]) (simp add: append_to_batch_def it ep)
qed

text \<open>Calls that do not fill the batch yet.\<close>

lemma submit_step:
  assumes "rd_lists n (cl_rds cl) act (u # us)" "at_batch si ref cl rs prb" "routed (ce_config env) si s ref cl q"
    and "call_ok q" "bd_h (prb_b prb) + call_size q \<le> length (bd_data (prb_b prb))"
    and room: "Suc (unat (bd_count (prb_b prb))) < unat (kMaxRequestBatchSize (ce_config env))"
  shows "\<exists>ds b. submit False env now q cl = Some (u, with_batch si ref (prb\<lparr>prb_b := b\<rparr>) rs (cl\<lparr>cl_rds := ds\<rparr>))
    \<and> append_wire (call_wire u (epoch_of (cl_rds cl) u) q) (prb_b prb) = Some b
    \<and> rd_lists n ds (act @ [u]) us \<and> epoch_of ds = epoch_of (cl_rds cl) \<and> arg_of ds = (arg_of (cl_rds cl))(u := ca_arg q)"
proof -
  from append_to_batch_ok [OF assms(1,2,4,5), of env now] obtain ds b where a:
    "append_to_batch env (ca_op q) (ca_hash q) (padded (ca_key q)) (of_nat (length (ca_key q)))
      (padded (ca_value q)) (of_nat (length (ca_value q))) (ca_arg q) si ref now cl
        = Some (u, with_batch si ref (prb\<lparr>prb_b := b\<rparr>) rs (cl\<lparr>cl_rds := ds\<rparr>))"
    "append_wire (call_wire u (epoch_of (cl_rds cl) u) q) (prb_b prb) = Some b"
    "rd_lists n ds (act @ [u]) us" "epoch_of ds = epoch_of (cl_rds cl)" "arg_of ds = (arg_of (cl_rds cl))(u := ca_arg q)"
    by (elim exE conjE) (rule that)
  have "bd_count b = bd_count (prb_b prb) + 1"
    using append_wire_ok [of "call_wire u (epoch_of (cl_rds cl) u) q" "prb_b prb"] assms(4,5) a(2) by simp
  moreover have "unat (bd_count (prb_b prb) + 1) = Suc (unat (bd_count (prb_b prb)))"
    using room unsigned_less [of "kMaxRequestBatchSize (ce_config env)", where ?'a = nat] by (subst unat_add_no_overflow) simp_all
  ultimately have "\<not> bd_count b \<ge> kMaxRequestBatchSize (ce_config env)" using room by (simp add: word_le_nat_alt)
  then have "batch_full (ce_config env) si ref (with_batch si ref (prb\<lparr>prb_b := b\<rparr>) rs (cl\<lparr>cl_rds := ds\<rparr>)) = Some False"
    using assms(2) by (subst batch_full_at [OF at_with_batch]) auto
  moreover have "\<exists>rs. elem_at (cl_request_states cl) si = Some rs" using assms(2) by (simp add: at_batch_def)
  ultimately show ?thesis
    using a assms(3) by (auto simp: submit_def client_append_request_def routed_def Let_def)
qed

definition call_wires :: "(u16 \<Rightarrow> u16) \<Rightarrow> u16 list \<Rightarrow> 'a call list \<Rightarrow> wire_request list" where
  "call_wires epochs us qs = map2 (\<lambda>u. call_wire u (epochs u)) us qs"

definition calls_size :: "'a call list \<Rightarrow> nat" where
  "calls_size qs = sum_list (map call_size qs)"

lemma call_wires_size: "length us = length qs \<Longrightarrow> batch_size (call_wires epochs us qs) = calls_size qs"
  by (induction us qs rule: list_induct2) (simp_all add: batch_size_def call_wires_def calls_size_def)

lemma call_wires_ok: "length us = length qs \<Longrightarrow> \<forall>q \<in> set qs. call_ok q \<Longrightarrow> \<forall>w \<in> set (call_wires epochs us qs). wire_ok w"
  by (induction us qs rule: list_induct2) (simp_all add: call_wires_def)

lemma with_batch_same:
  assumes "at_batch si ref cl rs prb"
  shows "with_batch si ref prb rs cl = cl"
proof -
  have p: "put_batch ref prb rs = rs" using assms by (cases ref) (auto simp: at_batch_def elem_at_def split: if_splits)
  have "(cl_request_states cl)[si := rs] = cl_request_states cl"
    using assms by (auto simp: at_batch_def elem_at_def split: if_splits)
  then show ?thesis by (simp add: with_batch_def p)
qed

definition took :: "nat \<Rightarrow> u16 list \<Rightarrow> u16 list \<Rightarrow> u16 list \<Rightarrow> 'a call list \<Rightarrow> 'a descriptors \<Rightarrow> 'a descriptors \<Rightarrow> bool" where
  "took n act us un qs ds ds' \<longleftrightarrow> rd_lists n ds' (act @ us) un \<and> epoch_of ds' = epoch_of ds \<and> map (arg_of ds') us = map ca_arg qs
     \<and> (\<forall>x. x \<notin> set us \<longrightarrow> arg_of ds' x = arg_of ds x)"

lemma took_Cons:
  assumes "rd_lists n ds (act @ [u]) (us @ un)" "epoch_of ds = epoch_of ds0" "arg_of ds = (arg_of ds0)(u := ca_arg q)"
    and "took n (act @ [u]) us un qs ds ds'"
  shows "took n act (u # us) un (q # qs) ds0 ds'"
proof -
  have "u \<notin> set us" using assms(1) by (auto simp: rd_lists_def)
  then show ?thesis using assms(2-4) by (simp add: took_def)
qed

lemma submit_filling:
  assumes "length us = length qs" "rd_lists n (cl_rds cl) act (us @ un)" "at_batch si ref cl rs prb"
    and "\<forall>q \<in> set qs. routed (ce_config env) si s ref cl q \<and> call_ok q"
    and "bd_h (prb_b prb) + calls_size qs \<le> length (bd_data (prb_b prb))"
    and "unat (bd_count (prb_b prb)) + length qs < unat (kMaxRequestBatchSize (ce_config env))"
  shows "\<exists>ds b. submit_all False env now qs cl = Some (us, with_batch si ref (prb\<lparr>prb_b := b\<rparr>) rs (cl\<lparr>cl_rds := ds\<rparr>))
    \<and> append_all (call_wires (epoch_of (cl_rds cl)) us qs) (prb_b prb) = Some b \<and> took n act us un qs (cl_rds cl) ds"
  using assms
proof (induction us qs arbitrary: cl act prb rs rule: list_induct2)
  case Nil
  then show ?case by (intro exI [of _ "cl_rds cl"] exI [of _ "prb_b prb"]) (simp add: with_batch_same call_wires_def took_def)
next
  case (Cons u us q qs)
  let ?c = "ce_config env"
  have q: "routed ?c si s ref cl q" "call_ok q" "bd_h (prb_b prb) + call_size q \<le> length (bd_data (prb_b prb))"
    "Suc (unat (bd_count (prb_b prb))) < unat (kMaxRequestBatchSize ?c)" "rd_lists n (cl_rds cl) act (u # us @ un)"
    using Cons.prems by (simp_all add: calls_size_def)
  from submit_step [OF q(5) Cons.prems(2) q(1-4), of now] obtain ds b where b:
    "submit False env now q cl = Some (u, with_batch si ref (prb\<lparr>prb_b := b\<rparr>) rs (cl\<lparr>cl_rds := ds\<rparr>))"
    "append_wire (call_wire u (epoch_of (cl_rds cl) u) q) (prb_b prb) = Some b"
    "rd_lists n ds (act @ [u]) (us @ un)" "epoch_of ds = epoch_of (cl_rds cl)" "arg_of ds = (arg_of (cl_rds cl))(u := ca_arg q)"
    by (elim exE conjE) (rule that)
  let ?cl = "with_batch si ref (prb\<lparr>prb_b := b\<rparr>) rs (cl\<lparr>cl_rds := ds\<rparr>)"
  have w: "bd_h b = bd_h (prb_b prb) + call_size q" "bd_count b = bd_count (prb_b prb) + 1"
      "length (bd_data b) = length (bd_data (prb_b prb))"
    using append_wire_ok [of "call_wire u (epoch_of (cl_rds cl) u) q" "prb_b prb"] q(2,3) b(2) wroteD(1) by fastforce+
  have "unat (bd_count b) = Suc (unat (bd_count (prb_b prb)))"
    using q(4) unsigned_less [of "kMaxRequestBatchSize ?c", where ?'a = nat] w(2) by (simp only: w(2)) (subst unat_add_no_overflow, simp_all)
  then have IH: "\<exists>ds' b'. submit_all False env now qs ?cl = Some (us, with_batch si ref ((prb\<lparr>prb_b := b\<rparr>)\<lparr>prb_b := b'\<rparr>)
      (put_batch ref (prb\<lparr>prb_b := b\<rparr>) rs) (?cl\<lparr>cl_rds := ds'\<rparr>))
    \<and> append_all (call_wires (epoch_of (cl_rds ?cl)) us qs) (prb_b (prb\<lparr>prb_b := b\<rparr>)) = Some b'
    \<and> took n (act @ [u]) us un qs (cl_rds ?cl) ds'"
    using Cons.prems b(3) w by (intro Cons.IH at_with_batch) (auto simp: routed_def calls_size_def)
  then obtain ds' b' where b': "submit_all False env now qs ?cl = Some (us, with_batch si ref (prb\<lparr>prb_b := b'\<rparr>) rs (cl\<lparr>cl_rds := ds'\<rparr>))"
    "append_all (call_wires (epoch_of ds) us qs) b = Some b'" "took n (act @ [u]) us un qs ds ds'"
    by (auto simp: with_batch_def)
  have "took n act (u # us) un (q # qs) (cl_rds cl) ds'" using took_Cons [OF b(3-5) b'(3)] .
  then show ?case using b(1,2,4) b'(1,2) by (intro exI [of _ ds'] exI [of _ b']) (simp add: call_wires_def)
qed

section \<open>A finished batch\<close>

type_synonym endpoint_address = "mac_addr \<times> u32 \<times> u16"

definition between :: "packet \<Rightarrow> endpoint_address \<Rightarrow> endpoint_address \<Rightarrow> bool" where
  "between p src dest \<longleftrightarrow> (let r = reader_new (fst p) (snd p) in
     get_src_mac_addr r = Some (fst src) \<and> get_src_ipv4_addr r = Some (swap32 (fst (snd src))) \<and> get_src_udp_port r = Some (swap16 (snd (snd src)))
     \<and> get_dest_mac_addr r = Some (fst dest) \<and> get_dest_ipv4_addr r = Some (swap32 (fst (snd dest)))
     \<and> get_dest_udp_port r = Some (swap16 (snd (snd dest))))"

lemma between_sent_back: "between p src dest \<Longrightarrow> sent_back p p' \<Longrightarrow> between p' dest src"
  by (simp add: between_def sent_back_def Let_def)

lemma between_finalize:
  assumes "finalize enso b = Some b'" "between (bd_data b, l) src dest"
  shows "between (bd_data b', l') src dest"
proof -
  note K = finalize_keeps [OF assms(1)]
  show ?thesis using assms(2) K [of 6 6] K [of 0 6]
      get_word_kept [of 26 "bd_data b'" "bd_data b", where ?'a = 32] K [of 26 4] get_word_kept [of 30 "bd_data b'" "bd_data b", where ?'a = 32] K [of 30 4]
      get_word_kept [of 34 "bd_data b'" "bd_data b", where ?'a = 16] K [of 34 2] get_word_kept [of 36 "bd_data b'" "bd_data b", where ?'a = 16] K [of 36 2]
    by (simp add: between_def reader_new_def get_dest_mac_addr_def get_src_mac_addr_def get_dest_ipv4_addr_def
      get_src_ipv4_addr_def get_dest_udp_port_def get_src_udp_port_def)
qed

definition remote_address :: "server_endpoint \<Rightarrow> endpoint_address" where
  "remote_address sei = (sei_mac_addr sei, sei_ipv4_addr sei, sei_udp_port sei)"

lemma address_packet_ok:
  assumes qs: "all_there (bd_data b) 48 qs" "\<forall>q \<in> set qs. wire_ok q" "bd_h b = 48 + batch_size qs" "bd_h b < 2 ^ 16"
    and L: "44 \<le> length (bd_data b)"
    and mac: "length (fst (ce_endpoint_info env eid)) = 6" "length (sei_mac_addr sei) = 6"
  shows "\<exists>b'. address_packet enso env eid sei b = Some b'
    \<and> read_packet enso (bd_data b') (bd_buf_length b') = Some (Some (True, map wire_view qs))
    \<and> between (bd_data b', bd_buf_length b') (ce_endpoint_info env eid) (remote_address sei)"
proof -
  obtain m ip port where info: "ce_endpoint_info env eid = (m, ip, port)" by (metis prod_cases3)
  let ?ws = "[(6, m), (0, sei_mac_addr sei), (26, le_bytes 4 (swap32 ip)), (30, le_bytes 4 (swap32 (sei_ipv4_addr sei))),
    (34, le_bytes 2 (swap16 port)), (36, le_bytes 2 (swap16 (sei_udp_port sei))), (42, le_bytes 1 (0x78 :: u8))]"
  have "apart 0 43 ?ws" using mac by (simp add: info)
  from put_all_ok [OF this, of b] L obtain b1 where b1: "put_all ?ws b = Some b1" "wrote 0 43 b b1"
    "\<forall>(offset, bs) \<in> set ?ws. get_bytes offset (length bs) (bd_data b1) = Some bs"
    by (auto simp del: apart.simps)
  have "address_packet enso env eid sei b = put_all ?ws b \<bind> finalize enso"
    by (simp add: address_packet_def info set_src_mac_addr_def set_dest_mac_addr_def set_src_ipv4_addr_def set_dest_ipv4_addr_def
      set_src_udp_port_def set_dest_udp_port_def set_request_def put_field_data Option.bind_assoc del: le_bytes.simps)
  then have eq: "address_packet enso env eid sei b = finalize enso b1" using b1(1) by (simp del: put_all.simps)
  have g: "get_bytes 6 6 (bd_data b1) = Some m" "get_bytes 0 6 (bd_data b1) = Some (sei_mac_addr sei)"
    "get_word 26 (bd_data b1) = Some (swap32 ip)" "get_word 30 (bd_data b1) = Some (swap32 (sei_ipv4_addr sei))"
    "get_word 34 (bd_data b1) = Some (swap16 port)" "get_word 36 (bd_data b1) = Some (swap16 (sei_udp_port sei))"
    "get_word 42 (bd_data b1) = Some (0x78 :: u8)"
    using b1(3) mac by (auto simp: info intro!: get_word_le_bytes simp del: le_bytes.simps)
  have bt: "between (bd_data b1, 0) (ce_endpoint_info env eid) (remote_address sei)"
    using g by (simp add: between_def info remote_address_def reader_new_def get_dest_mac_addr_def get_src_mac_addr_def
      get_dest_ipv4_addr_def get_src_ipv4_addr_def get_dest_udp_port_def get_src_udp_port_def)
  have "all_there (bd_data b1) 48 qs" by (rule all_there_changed [OF wrote_changed [OF b1(2)] _ qs(1)]) simp
  from finalized_reads [OF this qs(2), of True enso] obtain b' where
    "finalize enso b1 = Some b'" "read_packet enso (bd_data b') (bd_buf_length b') = Some (Some (True, map wire_view qs))"
    using qs(3,4) L wroteD(1,2) [OF b1(2)] g(7) by auto
  then show ?thesis using eq between_finalize [OF _ bt] by auto
qed

text \<open>All packets of a local endpoint so far, sent or waiting.\<close>

definition outgoing :: "nat \<Rightarrow> 'a client \<Rightarrow> packet list" where
  "outgoing e cl = (let rt = cl_rx_tx_states cl ! e in
     concat (map snd (filter (\<lambda>s. fst s = rt_eid rt) (cl_sent cl))) @ rt_pending rt)"

definition ready :: "client_env \<Rightarrow> nat \<Rightarrow> server \<Rightarrow> batch_ref \<Rightarrow> nat \<Rightarrow> server_endpoint \<Rightarrow> u32 \<Rightarrow> request_state \<Rightarrow> request_batch
    \<Rightarrow> 'a client \<Rightarrow> bool" where
  "ready env si s ref e sei eid rs prb cl \<longleftrightarrow> elem_at (cl_servers cl) si = Some s \<and> at_batch si ref cl rs prb
     \<and> local_endpoint (ce_config env) prb rs = Some (Some e)
     \<and> elem_at (sv_endpoints s) (unat (prb_remote_eid_index prb)) = Some sei
     \<and> (\<exists>rt. elem_at (cl_rx_tx_states cl) e = Some rt \<and> rt_eid rt = eid)"

lemma ready_with_batch:
  assumes "ready env si s ref e sei eid rs prb cl"
  shows "ready env si s ref e sei eid (put_batch ref (prb\<lparr>prb_b := b\<rparr>) rs) (prb\<lparr>prb_b := b\<rparr>)
    (with_batch si ref (prb\<lparr>prb_b := b\<rparr>) rs (cl\<lparr>cl_rds := ds\<rparr>))"
proof -
  have "rs_local_eid_index (put_batch ref (prb\<lparr>prb_b := b\<rparr>) rs) = rs_local_eid_index rs" by (cases ref) simp_all
  then have "local_endpoint c (prb\<lparr>prb_b := b\<rparr>) (put_batch ref (prb\<lparr>prb_b := b\<rparr>) rs) = local_endpoint c prb rs" for c
    by (simp add: local_endpoint_def)
  then show ?thesis
    using assms at_with_batch [of si ref "cl\<lparr>cl_rds := ds\<rparr>" rs prb "prb\<lparr>prb_b := b\<rparr>"] by (simp add: ready_def)
qed

lemma elem_atD: "elem_at xs i = Some x \<Longrightarrow> i < length xs \<and> xs ! i = x"
  by (auto simp: elem_at_def split: if_splits)

lemma check_full_outgoing:
  assumes "e < length (cl_rx_tx_states cl)"
  shows "\<exists>cl'. check_pending_tx_full c e cl = Some cl' \<and> outgoing e cl' = outgoing e cl \<and> cl_rds cl' = cl_rds cl
    \<and> cl_handled cl' = cl_handled cl \<and> cl_request_states cl' = cl_request_states cl"
  using assms by (auto simp: check_pending_tx_full_def send_pending_def elem_at_def outgoing_def Let_def)

lemma queue_packet_ok:
  assumes r: "ready env si s ref e sei eid rs prb cl"
    and b: "all_there (bd_data (prb_b prb)) 48 ws" "\<forall>q \<in> set ws. wire_ok q" "bd_h (prb_b prb) = 48 + batch_size ws"
      "bd_h (prb_b prb) < 2 ^ 16" "44 \<le> length (bd_data (prb_b prb))"
    and mac: "length (fst (ce_endpoint_info env eid)) = 6" "length (sei_mac_addr sei) = 6"
  shows "\<exists>cl' p rs' prb'. queue_packet enso env si ref e now cl = Some cl' \<and> outgoing e cl' = outgoing e cl @ [p]
    \<and> read_packet enso (fst p) (snd p) = Some (Some (True, map wire_view ws))
    \<and> between p (ce_endpoint_info env eid) (remote_address sei)
    \<and> cl_rds cl' = cl_rds cl \<and> cl_handled cl' = cl_handled cl \<and> at_batch si ref cl' rs' prb'"
proof -
  obtain rt where rt: "elem_at (cl_rx_tx_states cl) e = Some rt" "rt_eid rt = eid" using r by (auto simp: ready_def)
  note e = elem_atD [OF rt(1)]
  obtain b' where b': "address_packet enso env eid sei (prb_b prb) = Some b'"
      "read_packet enso (bd_data b') (bd_buf_length b') = Some (Some (True, map wire_view ws))"
      "between (bd_data b', bd_buf_length b') (ce_endpoint_info env eid) (remote_address sei)"
    using address_packet_ok [OF b mac] by blast
  let ?p = "(bd_data b', bd_buf_length b')"
  let ?rt0 = "if rt_pending rt = [] then rt\<lparr>rt_oldest_time := now\<rparr> else rt"
  let ?prb = "next_remote s (prb\<lparr>prb_b := b'\<rparr>)"
  let ?cl = "cl\<lparr>cl_rx_tx_states := (cl_rx_tx_states cl)[e := ?rt0\<lparr>rt_pending := rt_pending ?rt0 @ [?p]\<rparr>],
             cl_request_states := (cl_request_states cl)[si := put_batch ref ?prb rs]\<rparr>"
  have "queue_packet enso env si ref e now cl = check_pending_tx_full (ce_config env) e ?cl"
    using r rt b'(1) by (simp add: queue_packet_def ready_def at_batch_def Let_def)
  moreover obtain cl' where cl': "check_pending_tx_full (ce_config env) e ?cl = Some cl'" "outgoing e cl' = outgoing e ?cl"
    "cl_rds cl' = cl_rds ?cl" "cl_handled cl' = cl_handled ?cl" "cl_request_states cl' = cl_request_states ?cl"
    using check_full_outgoing [of e ?cl "ce_config env"] e by auto
  moreover have "outgoing e ?cl = outgoing e cl @ [?p]" using e by (simp add: outgoing_def Let_def)
  moreover have "at_batch si ref cl' (put_batch ref ?prb rs) ?prb"
    using cl'(5) at_with_batch [of si ref cl rs prb ?prb] r by (simp add: at_batch_def with_batch_def ready_def)
  ultimately show ?thesis using b'(2,3) by (intro exI [of _ cl'] exI [of _ ?p] exI [of _ "put_batch ref ?prb rs"] exI [of _ ?prb]) simp
qed

text \<open>The call that fills the batch.\<close>

lemma submit_last:
  assumes r: "ready env si s ref e sei eid rs prb cl" and rt: "routed (ce_config env) si s ref cl q"
    and rep: "rd_lists n (cl_rds cl) act (u # us)"
    and b: "all_there (bd_data (prb_b prb)) 48 ws" "\<forall>q \<in> set ws. wire_ok q" "bd_h (prb_b prb) = 48 + batch_size ws" "call_ok q"
      "bd_h (prb_b prb) + call_size q \<le> length (bd_data (prb_b prb))" "length (bd_data (prb_b prb)) < 2 ^ 16"
    and full: "Suc (unat (bd_count (prb_b prb))) = unat (kMaxRequestBatchSize (ce_config env))"
    and mac: "length (fst (ce_endpoint_info env eid)) = 6" "length (sei_mac_addr sei) = 6"
    and enso: "enso \<longrightarrow> prb_b prb = builder_new (ce_buffer env) 0"
  shows "\<exists>cl' p. submit enso env now q cl = Some (u, cl') \<and> outgoing e cl' = outgoing e cl @ [p]
    \<and> read_packet enso (fst p) (snd p) = Some (Some (True, map wire_view (ws @ [call_wire u (epoch_of (cl_rds cl) u) q])))
    \<and> between p (ce_endpoint_info env eid) (remote_address sei)
    \<and> took n act [u] us [q] (cl_rds cl) (cl_rds cl') \<and> cl_handled cl' = cl_handled cl"
proof -
  let ?w = "call_wire u (epoch_of (cl_rds cl) u) q"
  have at: "at_batch si ref cl rs prb" using r by (simp add: ready_def)
  from append_to_batch_ok [OF rep at b(4,5), of env now] obtain ds b1 where a:
    "append_to_batch env (ca_op q) (ca_hash q) (padded (ca_key q)) (of_nat (length (ca_key q)))
      (padded (ca_value q)) (of_nat (length (ca_value q))) (ca_arg q) si ref now cl
        = Some (u, with_batch si ref (prb\<lparr>prb_b := b1\<rparr>) rs (cl\<lparr>cl_rds := ds\<rparr>))"
    "append_wire ?w (prb_b prb) = Some b1"
    "rd_lists n ds (act @ [u]) us" "epoch_of ds = epoch_of (cl_rds cl)" "arg_of ds = (arg_of (cl_rds cl))(u := ca_arg q)"
    by (elim exE conjE) (rule that)
  let ?cl = "with_batch si ref (prb\<lparr>prb_b := b1\<rparr>) rs (cl\<lparr>cl_rds := ds\<rparr>)"
  obtain B: "request_there (bd_data b1) (bd_h (prb_b prb)) ?w" "bd_h b1 = bd_h (prb_b prb) + call_size q"
    "bd_count b1 = bd_count (prb_b prb) + 1"
    "wrote (bd_h (prb_b prb)) (bd_h (prb_b prb) + call_size q) (prb_b prb) (b1\<lparr>bd_h := bd_h (prb_b prb), bd_count := bd_count (prb_b prb)\<rparr>)"
    using append_wire_ok [of ?w "prb_b prb"] b(4,5) a(2) by auto
  have len: "length (bd_data b1) = length (bd_data (prb_b prb))" using wroteD(1) [OF B(4)] by simp
  have "all_there (bd_data b1) 48 ws"
    using all_there_changed [OF wrote_changed [OF B(4)] _ b(1)] b(3) by simp
  then have there: "all_there (bd_data b1) 48 (ws @ [?w])" using B(1) b(3) by (simp add: all_there_append)
  have size: "bd_h b1 = 48 + batch_size (ws @ [?w])" using B(2) b(3) by (simp add: batch_size_def)
  have ok: "\<forall>q \<in> set (ws @ [?w]). wire_ok q" using b(2,4) by simp
  have lens: "bd_h b1 < 2 ^ 16" "44 \<le> length (bd_data b1)" using B(2) b(3,5,6) len by simp_all
  have "unat (kMaxRequestBatchSize (ce_config env)) \<le> unat (bd_count b1)"
    using full unsigned_less [of "kMaxRequestBatchSize (ce_config env)", where ?'a = nat]
    by (simp only: B(3)) (subst unat_add_no_overflow, simp_all)
  then have fl: "batch_full (ce_config env) si ref ?cl = Some True"
    using batch_full_at [OF at_with_batch [of si ref "cl\<lparr>cl_rds := ds\<rparr>" rs prb "prb\<lparr>prb_b := b1\<rparr>"], of "ce_config env"] at
    by (simp add: word_le_nat_alt)
  have r1: "ready env si s ref e sei eid (put_batch ref (prb\<lparr>prb_b := b1\<rparr>) rs) (prb\<lparr>prb_b := b1\<rparr>) ?cl"
    by (rule ready_with_batch [OF r])
  have B1: "all_there (bd_data (prb_b (prb\<lparr>prb_b := b1\<rparr>))) 48 (ws @ [?w])" "bd_h (prb_b (prb\<lparr>prb_b := b1\<rparr>)) = 48 + batch_size (ws @ [?w])"
    "bd_h (prb_b (prb\<lparr>prb_b := b1\<rparr>)) < 2 ^ 16" "44 \<le> length (bd_data (prb_b (prb\<lparr>prb_b := b1\<rparr>)))"
    using there size lens by simp_all
  obtain cl' p rs' prb' where Q: "queue_packet enso env si ref e now ?cl = Some cl'" "outgoing e cl' = outgoing e ?cl @ [p]"
    "read_packet enso (fst p) (snd p) = Some (Some (True, map wire_view (ws @ [?w])))"
    "between p (ce_endpoint_info env eid) (remote_address sei)" "cl_rds cl' = cl_rds ?cl" "cl_handled cl' = cl_handled ?cl"
    "at_batch si ref cl' rs' prb'"
    using queue_packet_ok [OF r1 B1(1) ok B1(2-4) mac, of enso now] by (elim exE conjE) (rule that)
  have og: "outgoing e ?cl = outgoing e cl" by (simp add: outgoing_def with_batch_def)
  have tk: "took n act [u] us [q] (cl_rds cl) ds" using a(3-5) by (simp add: took_def)
  obtain rt0: "calc_server_index (ca_hash q) (length (cl_servers cl)) = Some si" "elem_at (cl_servers cl) si = Some s"
    "choose_batch (ce_config env) (ca_op q) (ca_hash q) s = Some ref" "elem_at (cl_request_states cl) si = Some rs"
    "get_batch ref rs = Some prb" "local_endpoint (ce_config env) prb rs = Some (Some e)"
    using rt r by (simp add: routed_def ready_def at_batch_def)
  show ?thesis
  proof (cases enso)
    case True
    have "make_new_pending_request_batch env prb = prb" using True enso by (simp add: make_new_pending_request_batch_def)
    then have "update_request_batch si ref (\<lambda>prb. Some (make_new_pending_request_batch env prb)) cl = Some cl"
      using update_at_batch [OF at, of "\<lambda>prb. Some (make_new_pending_request_batch env prb)" prb] with_batch_same [OF at] by simp
    then have "submit enso env now q cl = Some (u, cl')"
      using True rt0 a(1) fl Q(1) by (simp add: submit_def client_append_request_def Let_def)
    then show ?thesis using Q(2-6) og tk by (intro exI [of _ cl'] exI [of _ p]) simp
  next
    case False
    let ?new = "make_new_pending_request_batch env prb'"
    have "flush_pending_request_batch env si ref now ?cl = Some cl'"
      using r1 Q(1) False by (simp add: flush_pending_request_batch_def ready_def at_batch_def)
    moreover have "update_request_batch si ref (\<lambda>prb. Some (make_new_pending_request_batch env prb)) cl' = Some (with_batch si ref ?new rs' cl')"
      using Q(7) by (rule update_at_batch) simp
    ultimately have "submit enso env now q cl = Some (u, with_batch si ref ?new rs' cl')"
      using False rt0 a(1) fl by (simp add: submit_def client_append_request_def Let_def)
    moreover have "outgoing e (with_batch si ref ?new rs' cl') = outgoing e cl'" by (simp add: outgoing_def with_batch_def)
    ultimately show ?thesis using Q(2-6) og tk by (intro exI [of _ "with_batch si ref ?new rs' cl'"] exI [of _ p]) simp
  qed
qed

lemma submit_all_append:
  "submit_all enso env now (xs @ ys) cl
    = do { (r, cl) \<leftarrow> submit_all enso env now xs cl; (r', cl) \<leftarrow> submit_all enso env now ys cl; Some (r @ r', cl) }"
proof (induction xs arbitrary: cl)
  case Nil
  have "(\<lambda>a. case a of (r', cl) \<Rightarrow> Some (r', cl)) = (Some :: u16 list \<times> 'a client \<Rightarrow> _)" by (auto simp: fun_eq_iff)
  then show ?case by simp
next
  case (Cons q qs)
  then show ?case by (simp split: bind_splits)
qed

lemma took_append:
  assumes "took n act us (us' @ un) qs ds ds1" "took n (act @ us) us' un qs' ds1 ds2" "length us = length qs"
  shows "took n act (us @ us') un (qs @ qs') ds ds2"
proof -
  have "distinct (act @ us @ us')" using assms(2) by (auto simp: took_def rd_lists_def)
  then have "map (arg_of ds2) us = map (arg_of ds1) us" using assms(2) by (auto simp: took_def)
  then have "map (arg_of ds2) us = map ca_arg qs" using assms(1) by (simp only: took_def)
  then show ?thesis using assms by (simp add: took_def)
qed

lemma submit_all_ok:
  assumes r: "ready env si s ref e sei eid rs prb cl" "prb_b prb = builder_new (ce_buffer env) 0"
    and rep: "rd_lists n (cl_rds cl) act (us @ un)"
    and qs: "length us = length qs" "length qs = unat (kMaxRequestBatchSize (ce_config env))" "qs \<noteq> []" "enso \<longrightarrow> length qs = 1"
      "\<forall>q \<in> set qs. routed (ce_config env) si s ref cl q \<and> call_ok q"
    and fit: "48 + calls_size qs \<le> length (ce_buffer env)" "length (ce_buffer env) < 2 ^ 16"
    and mac: "length (fst (ce_endpoint_info env eid)) = 6" "length (sei_mac_addr sei) = 6"
  shows "\<exists>cl' p. submit_all enso env now qs cl = Some (us, cl') \<and> outgoing e cl' = outgoing e cl @ [p]
    \<and> read_packet enso (fst p) (snd p) = Some (Some (True, map wire_view (call_wires (epoch_of (cl_rds cl)) us qs)))
    \<and> between p (ce_endpoint_info env eid) (remote_address sei)
    \<and> took n act us un qs (cl_rds cl) (cl_rds cl') \<and> cl_handled cl' = cl_handled cl"
proof -
  obtain qs0 q where q: "qs = qs0 @ [q]" using qs(3) by (cases qs rule: rev_cases) auto
  then obtain us0 u where u: "us = us0 @ [u]" "length us0 = length qs0" using qs(1) by (cases us rule: rev_cases) auto
  let ?c = "ce_config env" and ?b0 = "builder_new (ce_buffer env) 0" and ?ep = "epoch_of (cl_rds cl)"
  let ?ws = "call_wires ?ep us0 qs0"
  have b0: "bd_h ?b0 = 48" "bd_count ?b0 = 0" "bd_data ?b0 = ce_buffer env" by (simp_all add: builder_new_def header_size)
  have cs: "calls_size qs = calls_size qs0 + call_size q" by (simp add: q calls_size_def)
  have at: "at_batch si ref cl rs prb" using r(1) by (simp add: ready_def)
  have "\<exists>ds b. submit_all False env now qs0 cl = Some (us0, with_batch si ref (prb\<lparr>prb_b := b\<rparr>) rs (cl\<lparr>cl_rds := ds\<rparr>))
    \<and> append_all ?ws (prb_b prb) = Some b \<and> took n act us0 (u # un) qs0 (cl_rds cl) ds"
    by (rule submit_filling [OF u(2) _ at, of _ _ _ _ s]) (use rep u qs fit q cs in \<open>simp_all add: r(2) b0\<close>)
  then obtain ds b where f: "submit_all False env now qs0 cl = Some (us0, with_batch si ref (prb\<lparr>prb_b := b\<rparr>) rs (cl\<lparr>cl_rds := ds\<rparr>))"
    "append_all ?ws ?b0 = Some b" "took n act us0 (u # un) qs0 (cl_rds cl) ds"
    unfolding r(2) by (elim exE conjE) (rule that)
  let ?cl = "with_batch si ref (prb\<lparr>prb_b := b\<rparr>) rs (cl\<lparr>cl_rds := ds\<rparr>)"
  have ep: "epoch_of ds = ?ep" using f(3) by (simp add: took_def)
  have sz: "batch_size ?ws = calls_size qs0" by (rule call_wires_size [OF u(2)])
  have wok: "\<forall>w \<in> set ?ws. wire_ok w" by (rule call_wires_ok [OF u(2)]) (use qs(5) q in simp)
  have B: "all_there (bd_data b) 48 ?ws" "bd_h b = 48 + batch_size ?ws" "length (bd_data b) = length (ce_buffer env)"
    "bd_count b = of_nat (length qs0)"
    using append_all_ok [OF wok, of ?b0] f(2) b0 sz cs fit(1) u(2) by (auto simp: changed_def call_wires_def)
  have lt: "Suc (length qs0) < 2 ^ 16" using qs(2) q unsigned_less [of "kMaxRequestBatchSize ?c", where ?'a = nat] by simp
  have count: "Suc (unat (bd_count (prb_b (prb\<lparr>prb_b := b\<rparr>)))) = unat (kMaxRequestBatchSize ?c)"
    using qs(2) q lt B(4) by (simp add: unat_of_nat)
  have first: "submit_all enso env now qs0 cl = submit_all False env now qs0 cl" "enso \<longrightarrow> b = ?b0"
    using qs(4) q f(2) by (cases enso; simp add: call_wires_def)+
  have r1: "ready env si s ref e sei eid (put_batch ref (prb\<lparr>prb_b := b\<rparr>) rs) (prb\<lparr>prb_b := b\<rparr>) ?cl" by (rule ready_with_batch [OF r(1)])
  have rt1: "routed ?c si s ref ?cl q" and rep1: "rd_lists n (cl_rds ?cl) (act @ us0) (u # un)" and cok: "call_ok q"
    using qs(5) q f(3) by (simp_all add: routed_def took_def)
  have L: "\<exists>cl' p. submit enso env now q ?cl = Some (u, cl') \<and> outgoing e cl' = outgoing e ?cl @ [p]
    \<and> read_packet enso (fst p) (snd p) = Some (Some (True, map wire_view (?ws @ [call_wire u (epoch_of (cl_rds ?cl) u) q])))
    \<and> between p (ce_endpoint_info env eid) (remote_address sei)
    \<and> took n (act @ us0) [u] un [q] (cl_rds ?cl) (cl_rds cl') \<and> cl_handled cl' = cl_handled ?cl"
    by (rule submit_last [OF r1 rt1 rep1 _ wok _ cok _ _ count mac]) (use B sz cs fit first(2) in simp_all)
  then obtain cl' p where cl': "submit enso env now q ?cl = Some (u, cl')" "outgoing e cl' = outgoing e cl @ [p]"
    "read_packet enso (fst p) (snd p) = Some (Some (True, map wire_view (?ws @ [call_wire u (?ep u) q])))"
    "between p (ce_endpoint_info env eid) (remote_address sei)"
    "took n (act @ us0) [u] un [q] ds (cl_rds cl')" "cl_handled cl' = cl_handled cl"
    by (auto simp: ep outgoing_def with_batch_def)
  have "submit_all enso env now qs cl = Some (us, cl')" using first(1) f(1) cl'(1) by (simp add: q u(1) submit_all_append)
  moreover have "took n act us un qs (cl_rds cl) (cl_rds cl')"
    unfolding q u(1) by (rule took_append [OF _ cl'(5) u(2)]) (use f(3) in simp)
  moreover have "call_wires ?ep us qs = ?ws @ [call_wire u (?ep u) q]" using u(2) by (simp add: q u(1) call_wires_def)
  ultimately show ?thesis using cl'(2-4,6) by (intro exI [of _ cl'] exI [of _ p]) simp
qed

section \<open>There and back\<close>

text \<open>The request that the processor sees of a call, and the call of the handler for its answer.\<close>

definition call_request :: "'a call \<Rightarrow> request option" where
  "call_request q = make_request reply_room (operation_code (ca_op q)) (ca_hash q) (ca_key q) (ca_value q)"

definition handled_call :: "u16 \<Rightarrow> 'a call \<Rightarrow> request \<Rightarrow> 'a handler_call" where
  "handled_call u q r = Handle u (result_code (r_result r)) (reply_value r) (ca_arg q)"

definition handled_calls :: "u16 list \<Rightarrow> 'a call list \<Rightarrow> request list \<Rightarrow> 'a handler_call list" where
  "handled_calls us qs rs = map (\<lambda>(u, q, r). handled_call u q r) (zip us (zip qs rs))"

definition call_results :: "u16 list \<Rightarrow> request list \<Rightarrow> (u16 \<times> u8 \<times> u8 list) list" where
  "call_results us rs = map2 (\<lambda>u r. (u, result_code (r_result r), reply_value r)) us rs"

lemma calls_requests:
  "length us = length qs \<Longrightarrow> map request_of (map wire_view (call_wires ep us qs)) = map call_request qs"
  by (induction us qs rule: list_induct2)
    (simp_all add: call_wires_def request_of_def wire_view_def call_wire_def call_request_def)

lemma calls_views:
  "length us = length qs \<Longrightarrow> length qs = length rs
    \<Longrightarrow> list_all2 (view_of ep) (call_results us rs) (map wire_view (map2 response (map wire_view (call_wires ep us qs)) rs))"
proof (induction us qs rs rule: list_induct3)
  case (Cons u us q qs r rs)
  have "view_of ep (u, result_code (r_result r), reply_value r) (wire_view (response (wire_view (call_wire u (ep u) q)) r))"
    by (simp add: wire_view_def call_wire_def response_def)
  then show ?case using Cons by (simp add: call_wires_def call_results_def)
qed (simp add: call_wires_def call_results_def)

lemma calls_complete:
  assumes "completes (call_results us rs) cl cl'" "length us = length qs" "length qs = length rs"
    "map (arg_of (cl_rds cl)) us = map ca_arg qs"
  shows "cl_handled cl' = cl_handled cl @ handled_calls us qs rs"
proof -
  have "map (\<lambda>(rd, res, val). Handle rd res val (a rd)) (call_results us rs) = handled_calls us qs rs"
    if "map a us = map ca_arg qs" for a
    using assms(2,3) that
    by (induction us qs rs rule: list_induct3) (simp_all add: call_results_def handled_calls_def handled_call_def)
  from this [OF assms(4)] show ?thesis using assms(1) by (simp add: completes_def)
qed

text \<open>
  C2. Calls are answered: the calls that fill the batch of a partition of a server leave as one packet from the local
  endpoint to the server; a round of the server's worker on it, with \<^verbatim>\<open>SimpleProcessor\<close> and its table,
  makes one packet of responses, from the server's endpoint to that of the client, and leaves the table
  that \<^verbatim>\<open>SimpleProcessor::process\<close> leaves on the array of the requests of the calls; and the client that reads the
  packet calls the handler of each call once, in order, with the result and the value of its
  request and with the call's argument, and frees its descriptors. The calls are not spread (the
  code asserts that), they fit into a packet and into the ring of the server, their keys and values are whole 64-bit
  words, the processor returns, and its values are below 1440 bytes and fit into one buffer.
\<close>
theorem calls_answered:
  assumes batch: "ready env si s (Exclusive i) e sei eid rst prb cl" "prb_b prb = builder_new (ce_buffer env) 0"
    and rds: "rd_lists n (cl_rds cl) act (us @ un)" "unat (kMaxOutstandingRequestCount (ce_config env)) = n"
    and qs: "length us = length qs" "length qs = unat (kMaxRequestBatchSize (ce_config env))" "qs \<noteq> []" "enso \<longrightarrow> length qs = 1"
      "\<forall>q \<in> set qs. routed (ce_config env) si s (Exclusive i) cl q \<and> call_ok q"
    and fit: "48 + calls_size qs \<le> length (ce_buffer env)" "length (ce_buffer env) < 2 ^ 16"
    and mac: "length (fst (ce_endpoint_info env eid)) = 6" "length (sei_mac_addr sei) = 6"
    and ring: "unat (sc_kMaxParsedRequestCount (se_config senv)) = 2 ^ k" "k \<le> 16" "length (ra_requests ra) = 2 ^ k" "length qs \<le> 2 ^ k"
    and proc: "map call_request qs = map Some rs" "simple_process rs t = Some (rs', t')"
    and out: "replies_fit (length (se_buffer senv)) batch_header_size rs'" "length (se_buffer senv) < 2 ^ 16"
  shows "\<exists>cl1 p ra' p' cl2. submit_all enso env now qs cl = Some (us, cl1)
    \<and> outgoing e cl1 = outgoing e cl @ [p] \<and> between p (ce_endpoint_info env eid) (remote_address sei)
    \<and> worker_round enso senv (accessor_process enso senv 0) [p] clock (accessor_new enso senv ra) t = Some (ra', t')
    \<and> flow (ra_tx ra') = flow (ra_tx ra) @ [p'] \<and> between p' (remote_address sei) (ce_endpoint_info env eid)
    \<and> handle_packet enso (ce_config env) p' cl1 = Some cl2
    \<and> cl_handled cl2 = cl_handled cl @ handled_calls us qs rs' \<and> rd_lists n (cl_rds cl2) act (rev us @ un)"
proof -
  let ?ep = "epoch_of (cl_rds cl)" and ?res = "call_results us rs'"
  let ?ws = "call_wires ?ep us qs"
  obtain cl1 p where c: "submit_all enso env now qs cl = Some (us, cl1)" "outgoing e cl1 = outgoing e cl @ [p]"
    "read_packet enso (fst p) (snd p) = Some (Some (True, map wire_view ?ws))"
    "between p (ce_endpoint_info env eid) (remote_address sei)" "took n act us un qs (cl_rds cl) (cl_rds cl1)" "cl_handled cl1 = cl_handled cl"
    using submit_all_ok [OF batch rds(1) qs fit mac, of now] by (elim exE conjE) (rule that)
  have len: "length ?ws = length qs" using qs(1) by (simp add: call_wires_def)
  then have sv: "servable enso senv (p, map wire_view ?ws)" using c(3) qs(3) ring(1,4) by (auto simp: servable_def)
  have few: "length qs < 2 ^ 16" using qs(2) unsigned_less [of "kMaxRequestBatchSize (ce_config env)", where ?'a = nat] by simp
  have rl: "length rs = length qs" using arg_cong [OF proc(1), of length] by simp
  then have "simple_serve rs t = Some (rs', t')" using simple_process_serve [of rs t] proc(2) few by simp
  then have rl': "length rs' = length qs" using simple_serve_length rl by metis
  have rs: "map request_of (concat (map snd [(p, map wire_view ?ws)])) = map Some rs"
    using calls_requests [OF qs(1), of ?ep] proc(1) by simp
  have pf: "packets_fit (length (se_buffer senv)) [(p, map wire_view ?ws)] rs'" using out(1) rl' len by simp
  have "\<exists>ra' ps. worker_round enso senv (accessor_process enso senv 0) (map fst [(p, map wire_view ?ws)]) clock (accessor_new enso senv ra) t
      = Some (ra', t')
    \<and> packets_answer enso [(p, map wire_view ?ws)] rs' ps \<and> flow (ra_tx ra') = flow (ra_tx ra) @ ps
    \<and> ra_released ra' = ra_released ra @ (if enso then [] else map fst [(p, map wire_view ?ws)])"
    by (rule round_answers [OF ring(1-3) _ _ out(2) rs proc(2) pf]) (use sv len few in simp_all)
  then obtain ra' ps where s: "worker_round enso senv (accessor_process enso senv 0) [p] clock (accessor_new enso senv ra) t = Some (ra', t')"
    "packets_answer enso [(p, map wire_view ?ws)] rs' ps" "flow (ra_tx ra') = flow (ra_tx ra) @ ps"
    by auto
  obtain p' where p': "ps = [p']" "answers enso p (map2 response (map wire_view ?ws) rs') p'"
    using s(2) rl' len by (cases ps) auto
  have ans: "read_packet enso (fst p') (snd p') = Some (Some (False, map wire_view (map2 response (map wire_view ?ws) rs')))"
    "between p' (remote_address sei) (ce_endpoint_info env eid)"
    using p'(2) between_sent_back [OF c(4)] by (simp_all add: answers_def)
  have fst_res: "map fst ?res = us" using qs(1) rl' by (simp add: call_results_def comp_def case_prod_unfold)
  have e1: "epoch_of (cl_rds cl1) = ?ep" "map (arg_of (cl_rds cl1)) us = map ca_arg qs"
    "rd_lists n (cl_rds cl1) (act @ map fst ?res) un"
    using c(5) by (simp_all only: fst_res took_def)
  have "list_all2 (view_of (epoch_of (cl_rds cl1))) ?res (map wire_view (map2 response (map wire_view ?ws) rs'))"
    unfolding e1(1) by (rule calls_views [OF qs(1) rl' [symmetric]])
  from deliver_views_ok [OF e1(3) rds(2) this] obtain cl2 where
    d: "deliver_views (ce_config env) (map wire_view (map2 response (map wire_view ?ws) rs')) cl1 = Some cl2"
    "rd_lists n (cl_rds cl2) act (rev us @ un)" "completes ?res cl1 cl2"
    unfolding fst_res by (elim exE conjE) (rule that)
  have "handle_packet enso (ce_config env) p' cl1 = Some cl2" unfolding handle_packet_views [OF ans(1)] by (rule d(1))
  then show ?thesis using c(1,2,4,6) s(1,3) p'(1) ans(2) d(2) calls_complete [OF d(3) qs(1) rl' [symmetric] e1(2)]
    by (intro exI [of _ cl1] exI [of _ p] exI [of _ ra'] exI [of _ p'] exI [of _ cl2]) simp
qed

definition pair_env :: client_env where
  "pair_env = small_env\<lparr>ce_config := small_client_config\<lparr>kMaxRequestBatchSize := 2\<rparr>\<rparr>"

definition near_endpoint :: server_endpoint where
  "near_endpoint = \<lparr>sei_mac_addr = replicate 6 1, sei_ipv4_addr = 9, sei_udp_port = 80, sei_eid = 4, sei_owner_lcore_id = 0\<rparr>"

definition near_server :: server where
  "near_server = \<lparr>sv_concurrent_read = False, sv_concurrent_write = False, sv_endpoints = [near_endpoint], sv_partitions = [0]\<rparr>"

definition pair_batch :: request_batch where
  "pair_batch = \<lparr>prb_b = builder_new (ce_buffer pair_env) 0, prb_remote_eid_index = 0, prb_round_robin = False\<rparr>"

definition pair_state :: request_state where
  "pair_state = \<lparr>rs_local_eid_index = [0], rs_c = pair_batch, rs_e = [pair_batch]\<rparr>"

definition pair_client :: "nat client" where
  "pair_client = small_client\<lparr>cl_rds := init_rds small_client_config raw_descriptors, cl_servers := [near_server],
     cl_request_states := [pair_state], cl_rx_tx_states := [\<lparr>rt_eid = 7, rt_pending = [], rt_oldest_time = 0\<rparr>]\<rparr>"

definition two_calls :: "nat call list" where
  "two_calls = [\<lparr>ca_op = KSet, ca_hash = 5, ca_key = words_bytes [1], ca_value = words_bytes [10], ca_arg = 41\<rparr>,
     \<lparr>ca_op = KGet, ca_hash = 5, ca_key = words_bytes [1], ca_value = [], ca_arg = 42\<rparr>]"

lemmas pair_defs = pair_env_def pair_client_def pair_state_def pair_batch_def near_server_def near_endpoint_def two_calls_def
  small_env_def small_client_config_def BasicDatagramClientConfig_def small_server_env_def BasicDatagramServerConfig_def

lemma two_calls_seen: "map call_request two_calls = map Some [word_request KSet [10], word_request KGet []]"
  by code_simp

theorem calls_answered_witness:
  "\<exists>t' cl1 p ra' p' cl2. submit_all False pair_env 3 two_calls pair_client = Some ([0, 1], cl1)
    \<and> outgoing 0 cl1 = outgoing 0 pair_client @ [p] \<and> between p (ce_endpoint_info pair_env 7) (remote_address near_endpoint)
    \<and> worker_round False small_server_env (accessor_process False small_server_env 0) [p] 5 (accessor_new False small_server_env small_accessor)
        small_table = Some (ra', t')
    \<and> flow (ra_tx ra') = flow (ra_tx small_accessor) @ [p'] \<and> between p' (remote_address near_endpoint) (ce_endpoint_info pair_env 7)
    \<and> handle_packet False (ce_config pair_env) p' cl1 = Some cl2
    \<and> cl_handled cl2 = cl_handled pair_client @ handled_calls [0, 1] two_calls word_replies
    \<and> rd_lists 3 (cl_rds cl2) [] (rev [0, 1] @ [2])"
proof -
  obtain t' where t: "simple_process [word_request KSet [10], word_request KGet []] small_table = Some (word_replies, t')"
    using word_requests_answered by auto
  show ?thesis
  proof (rule exI [of _ t'], rule calls_answered [OF _ _ _ _ _ _ _ _ _ _ _ _ _ _ _ _ _ two_calls_seen t])
    show "ready pair_env 0 near_server (Exclusive 0) 0 near_endpoint 7 pair_state pair_batch pair_client"
      by (simp add: ready_def at_batch_def elem_at_def local_endpoint_def pair_defs)
    have l: "map of_nat [0..<3] = [0, 1, 2 :: u16]" by (simp add: upt_rec)
    show "rd_lists 3 (cl_rds pair_client) [] ([0, 1] @ [2])"
      using init_rds_ok(1) [of small_client_config 3 raw_descriptors] by (simp add: l pair_client_def small_client_config_def raw_descriptors_def)
    show "\<forall>q \<in> set two_calls. routed (ce_config pair_env) 0 near_server (Exclusive 0) pair_client q \<and> call_ok q"
      by (simp add: routed_def call_ok_def calc_server_index_def calc_partition_id_def choose_batch_def elem_at_def Let_def pair_defs)
    have "calls_size two_calls = 72" by code_simp
    then show "48 + calls_size two_calls \<le> length (ce_buffer pair_env)" by (simp add: pair_env_def small_env_def)
    show "unat (sc_kMaxParsedRequestCount (se_config small_server_env)) = 2 ^ 7" "length (ra_requests small_accessor) = 2 ^ 7"
      by (simp_all add: small_server_env_def BasicDatagramServerConfig_def small_accessor_def)
    show "replies_fit (length (se_buffer small_server_env)) batch_header_size word_replies"
      using word_replies_fit by (simp add: small_server_env_def)
  qed (simp_all add: pair_defs)
qed

end
