(* ===== verification/Nitro_Sketch.thy ===== *)
theory Nitro_Sketch
  imports Enso_Prelude "HOL-Library.Monad_Syntax"
begin

text \<open>
  The Count-Min sketch of \<^verbatim>\<open>nitrosketch/nitrosketch.h\<close>, as \<^verbatim>\<open>constants.h\<close> configures it
  (\<^verbatim>\<open>NITRO_CMS\<close>, \<^verbatim>\<open>FASTRAND_GEO\<close>, no \<^verbatim>\<open>TOPK\<close>), and the loop of \<^verbatim>\<open>enso_nitrosketch.cpp\<close> and
  \<^verbatim>\<open>dpdk_nitrosketch.cpp\<close> that feeds it packets. The hash \<^verbatim>\<open>XXH64\<close>, the random seeds and the table
  \<^verbatim>\<open>geoArr\<close> of geometric samples are parameters. A signed overflow, an access outside an array and
  a loop without end have the result \<^const>\<open>None\<close>.
\<close>

section \<open>The code\<close>

definition CM_ROW_NO :: nat where "CM_ROW_NO = 5"

definition CM_COL_NO :: nat where "CM_COL_NO = 102400"

text \<open>\<open>cm_geoIdx\<close> is the global \<^verbatim>\<open>geoIdx\<close>.\<close>

record CountMinSketch =
  cm_seed1 :: "u32 list"
  cm_sketch :: "int list list"
  cm_line_to_update :: u32
  cm_gap :: int
  cm_nextUpdate :: u32
  cm_geoIdx :: u16

definition nth_sample :: "u32 list \<Rightarrow> u16 \<Rightarrow> u32 option" where
  "nth_sample geoArr i = (if unat i < length geoArr then Some (geoArr ! unat i) else None)"

definition cm_init :: "u32 list \<Rightarrow> u32 list \<Rightarrow> int \<Rightarrow> CountMinSketch option" where
  "cm_init geoArr seeds gap =
     do {
       line \<leftarrow> nth_sample geoArr 1;
       Some \<lparr>cm_seed1 = seeds, cm_sketch = replicate CM_ROW_NO (replicate CM_COL_NO 0),
         cm_line_to_update = line mod of_nat CM_ROW_NO, cm_gap = gap, cm_nextUpdate = line div of_nat CM_ROW_NO, cm_geoIdx = 1\<rparr>
     }"

definition col_loc :: "(u64 \<Rightarrow> u32 \<Rightarrow> u64) \<Rightarrow> u64 \<Rightarrow> u32 \<Rightarrow> nat" where
  "col_loc XXH64 key seed = unat (XXH64 key seed) mod CM_COL_NO"

definition add_int :: "int \<Rightarrow> int \<Rightarrow> int option" where
  "add_int a b = (if - (2 ^ 31) \<le> a + b \<and> a + b < 2 ^ 31 then Some (a + b) else None)"

definition cm_processing :: "(u64 \<Rightarrow> u32 \<Rightarrow> u64) \<Rightarrow> u32 list \<Rightarrow> u64 \<Rightarrow> CountMinSketch \<Rightarrow> CountMinSketch option" where
  "cm_processing XXH64 geoArr key cm =
     do {
       let row = unat (cm_line_to_update cm);
       if row < length (cm_seed1 cm) \<and> row < length (cm_sketch cm) then
         do {
           let col = col_loc XXH64 key (cm_seed1 cm ! row);
           counters \<leftarrow> Some (cm_sketch cm ! row);
           n \<leftarrow> (if col < length counters then add_int (counters ! col) (cm_gap cm) else None);
           sample \<leftarrow> nth_sample geoArr (cm_geoIdx cm + 1);
           let line = cm_line_to_update cm + sample;
           Some (cm\<lparr>cm_sketch := (cm_sketch cm)[row := counters[col := n]],
             cm_geoIdx := cm_geoIdx cm + 1,
             cm_nextUpdate := cm_nextUpdate cm + line div of_nat CM_ROW_NO,
             cm_line_to_update := line mod of_nat CM_ROW_NO\<rparr>)
         }
       else None
     }"

text \<open>The loop over the updates that are due at a packet, and a packet.\<close>

partial_function (option) due_updates ::
  "(u64 \<Rightarrow> u32 \<Rightarrow> u64) \<Rightarrow> u32 list \<Rightarrow> u64 \<Rightarrow> u64 \<Rightarrow> CountMinSketch \<Rightarrow> CountMinSketch option" where
  "due_updates XXH64 geoArr pkt_count flow_key cm =
     (if pkt_count \<ge> ucast (cm_nextUpdate cm)
      then do { cm \<leftarrow> cm_processing XXH64 geoArr flow_key cm; due_updates XXH64 geoArr pkt_count flow_key cm }
      else Some cm)"

declare due_updates.simps [code]

definition flow_key :: "u32 \<Rightarrow> u32 \<Rightarrow> u64" where
  "flow_key src_addr dst_addr = ucast src_addr OR push_bit 32 (ucast dst_addr)"

record ip_packet =
  ip_ipv4 :: bool
  ip_src_addr :: u32
  ip_dst_addr :: u32

definition sketch_packet ::
  "(u64 \<Rightarrow> u32 \<Rightarrow> u64) \<Rightarrow> u32 list \<Rightarrow> ip_packet \<Rightarrow> u64 \<times> CountMinSketch \<Rightarrow> (u64 \<times> CountMinSketch) option" where
  "sketch_packet XXH64 geoArr p s =
     do {
       let pkt_count = fst s + 1;
       cm \<leftarrow> (if ip_ipv4 p then due_updates XXH64 geoArr pkt_count (flow_key (ip_src_addr p) (ip_dst_addr p)) (snd s) else Some (snd s));
       Some (pkt_count, cm)
     }"

fun sketch_packets ::
  "(u64 \<Rightarrow> u32 \<Rightarrow> u64) \<Rightarrow> u32 list \<Rightarrow> ip_packet list \<Rightarrow> u64 \<times> CountMinSketch \<Rightarrow> (u64 \<times> CountMinSketch) option" where
  "sketch_packets XXH64 geoArr [] s = Some s"
| "sketch_packets XXH64 geoArr (p # ps) s = do { s \<leftarrow> sketch_packet XXH64 geoArr p s; sketch_packets XXH64 geoArr ps s }"

section \<open>Samples\<close>

text \<open>
  The slots of a run are numbered: packet \<open>m\<close> has the slots \<open>5 * m\<close> to \<open>5 * m + 4\<close>, one for each
  row. The \<open>j\<close>-th update is that of the slot \<open>position g j\<close>, the sum of the samples drawn so far.
\<close>

definition position :: "u32 list \<Rightarrow> nat \<Rightarrow> nat" where
  "position g j = (\<Sum>i \<le> j. unat (g ! (Suc i mod 2 ^ 16)))"

definition packet_key :: "ip_packet \<Rightarrow> u64" where
  "packet_key p = flow_key (ip_src_addr p) (ip_dst_addr p)"

text \<open>The slots of the packet 0, which does not exist, go to the first packet.\<close>

definition sampled_key :: "u32 list \<Rightarrow> ip_packet list \<Rightarrow> nat \<Rightarrow> u64" where
  "sampled_key g ps j = packet_key (ps ! (position g j div 5 - 1))"

definition hits :: "(u64 \<Rightarrow> u32 \<Rightarrow> u64) \<Rightarrow> u32 list \<Rightarrow> u32 list \<Rightarrow> ip_packet list \<Rightarrow> nat \<Rightarrow> nat \<Rightarrow> nat \<Rightarrow> bool" where
  "hits XXH64 g seeds ps r c j \<longleftrightarrow> position g j mod 5 = r \<and> col_loc XXH64 (sampled_key g ps j) (seeds ! r) = c"

definition samples_ok :: "u32 list \<Rightarrow> bool" where
  "samples_ok g \<longleftrightarrow> length g = 2 ^ 16 \<and> (\<forall>x \<in> set g. 0 < unat x \<and> unat x < 2 ^ 31)"

lemma sample_bounds:
  assumes "samples_ok g"
  shows "0 < unat (g ! (i mod 2 ^ 16))" "unat (g ! (i mod 2 ^ 16)) < 2 ^ 31"
proof -
  have "g ! (i mod 2 ^ 16) \<in> set g" using assms by (simp add: samples_ok_def)
  then show "0 < unat (g ! (i mod 2 ^ 16))" "unat (g ! (i mod 2 ^ 16)) < 2 ^ 31" using assms by (simp_all add: samples_ok_def)
qed

lemma position_Suc: "position g (Suc j) = position g j + unat (g ! (Suc (Suc j) mod 2 ^ 16))"
  by (simp add: position_def)

lemma position_mono:
  assumes "samples_ok g"
  shows "i < j \<Longrightarrow> position g i < position g j"
  by (rule lift_Suc_mono_less [of "position g"]) (use sample_bounds(1) [OF assms] in \<open>simp_all only: position_Suc less_add_same_cancel1\<close>)

definition sketched ::
  "(u64 \<Rightarrow> u32 \<Rightarrow> u64) \<Rightarrow> u32 list \<Rightarrow> u32 list \<Rightarrow> int \<Rightarrow> ip_packet list \<Rightarrow> nat \<Rightarrow> CountMinSketch \<Rightarrow> bool" where
  "sketched XXH64 g seeds gap ps J cm \<longleftrightarrow> cm_seed1 cm = seeds \<and> cm_gap cm = gap \<and> cm_geoIdx cm = of_nat (Suc J)
     \<and> 5 * unat (cm_nextUpdate cm) + unat (cm_line_to_update cm) = position g J \<and> unat (cm_line_to_update cm) < 5
     \<and> length (cm_sketch cm) = 5 \<and> (\<forall>r < 5. length (cm_sketch cm ! r) = CM_COL_NO)
     \<and> (\<forall>r < 5. \<forall>c < CM_COL_NO. cm_sketch cm ! r ! c = gap * int (card {j. j < J \<and> hits XXH64 g seeds ps r c j}))"

lemma card_Suc: "card {j. j < Suc J \<and> P j} = card {j. j < J \<and> P j} + (if P J then 1 else 0)"
proof -
  have "{j. j < Suc J \<and> P j} = {j. j < J \<and> P j} \<union> (if P J then {J} else {})"
    by (auto simp: less_Suc_eq)
  then show ?thesis by (simp add: card_insert_if)
qed

lemma next_slot:
  fixes line sample nxt :: u32
  assumes "unat line < 5" "unat sample < 2 ^ 31" "unat nxt < 2 ^ 31"
  shows "5 * unat (nxt + (line + sample) div 5) + unat ((line + sample) mod 5) = 5 * unat nxt + unat line + unat sample"
    "unat ((line + sample) mod 5) < 5"
proof -
  have s: "unat (line + sample) = unat line + unat sample" using assms by (simp add: unat_word_ariths)
  have d: "unat ((line + sample) div 5) = (unat line + unat sample) div 5" "unat ((line + sample) mod 5) = (unat line + unat sample) mod 5"
    by (simp_all add: unat_div unat_mod s)
  have "(unat line + unat sample) div 5 < 2 ^ 31" using assms by linarith
  then have "unat (nxt + (line + sample) div 5) = unat nxt + (unat line + unat sample) div 5"
    using assms d by (simp add: unat_word_ariths)
  then show "5 * unat (nxt + (line + sample) div 5) + unat ((line + sample) mod 5) = 5 * unat nxt + unat line + unat sample"
    by (simp add: d)
  show "unat ((line + sample) mod 5) < 5" by (simp add: d)
qed

lemma add_int_ok: "0 \<le> a + b \<Longrightarrow> a + b < 2 ^ 31 \<Longrightarrow> add_int a b = Some (a + b)"
  by (simp add: add_int_def)

lemma cm_processing_ok:
  assumes rep: "sketched XXH64 g seeds gap ps J cm" and g: "samples_ok g" and seeds: "length seeds = 5"
    and n: "unat (cm_nextUpdate cm) < 2 ^ 31" and key: "key = sampled_key g ps J" and gap: "0 \<le> gap"
    and room: "gap * int (card {j. j < Suc J \<and> hits XXH64 g seeds ps (position g J mod 5) (col_loc XXH64 key (seeds ! (position g J mod 5))) j}) < 2 ^ 31"
  shows "\<exists>cm'. cm_processing XXH64 g key cm = Some cm' \<and> sketched XXH64 g seeds gap ps (Suc J) cm'"
proof -
  let ?r = "unat (cm_line_to_update cm)" and ?s = "g ! (Suc (Suc J) mod 2 ^ 16)"
  let ?c = "col_loc XXH64 key (seeds ! ?r)"
  let ?card = "\<lambda>J r c. gap * int (card {j. j < J \<and> hits XXH64 g seeds ps r c j})"
  note R = rep [unfolded sketched_def]
  have slot: "position g J = 5 * unat (cm_nextUpdate cm) + ?r" using R by simp
  have r: "?r < 5" "position g J mod 5 = ?r" using R by (simp_all add: slot)
  have c: "?c < CM_COL_NO" by (simp add: col_loc_def CM_COL_NO_def)
  have idx: "unat (cm_geoIdx cm + 1) = Suc (Suc J) mod 2 ^ 16"
  proof -
    have "cm_geoIdx cm + 1 = of_nat (Suc (Suc J))" using R by simp
    then show ?thesis by (simp only: unat_of_nat) simp
  qed
  have smp: "nth_sample g (cm_geoIdx cm + 1) = Some ?s" using g by (simp add: nth_sample_def idx samples_ok_def)
  have hit: "hits XXH64 g seeds ps ?r ?c J" by (simp add: hits_def r(2) key)
  have new: "cm_sketch cm ! ?r ! ?c + cm_gap cm = ?card (Suc J) ?r ?c"
    using R r(1) c hit by (simp add: card_Suc distrib_left)
  have add: "add_int (cm_sketch cm ! ?r ! ?c) (cm_gap cm) = Some (?card (Suc J) ?r ?c)"
    using add_int_ok [of "cm_sketch cm ! ?r ! ?c" "cm_gap cm"] room gap r(2) unfolding new by simp
  let ?line = "cm_line_to_update cm + ?s"
  let ?cm = "cm\<lparr>cm_sketch := (cm_sketch cm)[?r := (cm_sketch cm ! ?r)[?c := ?card (Suc J) ?r ?c]], cm_geoIdx := cm_geoIdx cm + 1,
    cm_nextUpdate := cm_nextUpdate cm + ?line div 5, cm_line_to_update := ?line mod 5\<rparr>"
  have "cm_processing XXH64 g key cm = Some ?cm"
    using R r(1) c add smp seeds by (simp add: cm_processing_def CM_ROW_NO_def Let_def)
  moreover have "(cm_sketch ?cm) ! r ! c = ?card (Suc J) r c" if "r < 5" "c < CM_COL_NO" for r c
  proof (cases "r = ?r \<and> c = ?c")
    case True
    then show ?thesis using R that by simp
  next
    case False
    then have "\<not> hits XXH64 g seeds ps r c J" by (auto simp: hits_def r(2) key)
    then show ?thesis using R that False by (auto simp: card_Suc nth_list_update)
  qed
  moreover have "length (cm_sketch ?cm ! r) = CM_COL_NO" if "r < 5" for r using R that by (simp add: nth_list_update)
  moreover have "5 * unat (cm_nextUpdate ?cm) + unat (cm_line_to_update ?cm) = position g (Suc J)" "unat (cm_line_to_update ?cm) < 5"
    using next_slot [OF r(1) sample_bounds(2) [OF g, of "Suc (Suc J)"] n] R by (simp_all add: position_Suc)
  ultimately show ?thesis using R by (intro exI [of _ ?cm]) (simp add: sketched_def)
qed

section \<open>A run\<close>

text \<open>The samples up to packet \<open>n\<close>.\<close>

definition due :: "u32 list \<Rightarrow> nat \<Rightarrow> nat set" where
  "due g n = {j. position g j < 5 * Suc n}"

text \<open>No counter overflows within \<open>n\<close> packets.\<close>

definition counters_fit :: "(u64 \<Rightarrow> u32 \<Rightarrow> u64) \<Rightarrow> u32 list \<Rightarrow> u32 list \<Rightarrow> int \<Rightarrow> ip_packet list \<Rightarrow> nat \<Rightarrow> bool" where
  "counters_fit XXH64 g seeds gap ps n \<longleftrightarrow> 0 \<le> gap
     \<and> (\<forall>r < 5. \<forall>c < CM_COL_NO. gap * int (card {j \<in> due g n. hits XXH64 g seeds ps r c j}) < 2 ^ 31)"

lemma due_below:
  assumes "samples_ok g"
  shows "due g n \<subseteq> {..< 5 * Suc n}" "finite (due g n)"
proof -
  have "j \<le> position g j" for j
  proof (induction j)
    case (Suc j)
    then show ?case using position_mono [OF assms, of j "Suc j"] by simp
  qed simp
  then show "due g n \<subseteq> {..< 5 * Suc n}" by (auto simp: due_def intro: le_less_trans)
  then show "finite (due g n)" using finite_subset by blast
qed

lemma due_mono: "n \<le> m \<Longrightarrow> due g n \<subseteq> due g m"
  by (auto simp: due_def)

lemma due_before:
  assumes "samples_ok g" "j \<in> due g n" "i \<le> j"
  shows "i \<in> due g n"
  using assms position_mono [OF assms(1), of i j] by (cases "i = j") (auto simp: due_def)

lemma due_updates_ok:
  assumes g: "samples_ok g" and seeds: "length seeds = 5" and fit: "counters_fit XXH64 g seeds gap ps m"
    and n: "unat pkt_count = n" "1 \<le> n" "n \<le> m" "m < 2 ^ 31"
    and rep: "sketched XXH64 g seeds gap ps J cm" and J: "{..< J} \<subseteq> due g n" "n \<le> max 1 (position g J div 5)"
  shows "\<exists>J' cm'. due_updates XXH64 g pkt_count (packet_key (ps ! (n - 1))) cm = Some cm'
    \<and> sketched XXH64 g seeds gap ps J' cm' \<and> due g n = {..< J'}"
  using rep J
proof (induction "5 * Suc n - position g J" arbitrary: J cm rule: less_induct)
  case less
  let ?p = "position g J" and ?key = "packet_key (ps ! (n - 1))"
  have slot: "?p = 5 * unat (cm_nextUpdate cm) + unat (cm_line_to_update cm)" "unat (cm_line_to_update cm) < 5"
    using less.prems(1) by (simp_all add: sketched_def)
  have "unat (cm_nextUpdate cm) < 2 ^ 64" using unsigned_less [of "cm_nextUpdate cm", where ?'a = nat] by simp
  then have test: "pkt_count \<ge> ucast (cm_nextUpdate cm) \<longleftrightarrow> J \<in> due g n"
    using slot n(1) by (auto simp: due_def word_le_nat_alt unat_ucast_mod)
  show ?case
  proof (cases "J \<in> due g n")
    case True
    then have next_n: "unat (cm_nextUpdate cm) \<le> n" using slot by (simp add: due_def)
    have "?p div 5 - 1 = n - 1" using less.prems(3) slot next_n by simp
    then have key: "?key = sampled_key g ps J" by (simp add: sampled_key_def)
    have up: "{..< Suc J} \<subseteq> due g n" using less.prems(2) True by (auto simp: less_Suc_eq)
    have "gap * int (card {j. j < Suc J \<and> hits XXH64 g seeds ps (?p mod 5) (col_loc XXH64 ?key (seeds ! (?p mod 5))) j}) < 2 ^ 31"
    proof (rule le_less_trans)
      let ?h = "hits XXH64 g seeds ps (?p mod 5) (col_loc XXH64 ?key (seeds ! (?p mod 5)))"
      show "gap * int (card {j. j < Suc J \<and> ?h j}) \<le> gap * int (card {j \<in> due g m. ?h j})"
        using up due_mono [OF n(3), of g] due_below(2) [OF g, of m] fit
        by (intro mult_left_mono) (auto simp: counters_fit_def intro!: card_mono)
      show "gap * int (card {j \<in> due g m. ?h j}) < 2 ^ 31"
        using fit by (simp add: counters_fit_def col_loc_def CM_COL_NO_def)
    qed
    then obtain cm1 where cm1: "cm_processing XXH64 g ?key cm = Some cm1" "sketched XXH64 g seeds gap ps (Suc J) cm1"
      using cm_processing_ok [OF less.prems(1) g seeds _ key] fit next_n n(3,4) by (auto simp: counters_fit_def)
    have lt: "?p < position g (Suc J)" by (rule position_mono [OF g]) simp
    have "5 * Suc n - position g (Suc J) < 5 * Suc n - ?p" using True lt by (simp add: due_def)
    moreover have "n \<le> max 1 (position g (Suc J) div 5)"
      using less.prems(3) lt div_le_mono [of ?p "position g (Suc J)" 5] by (auto simp: max_def split: if_splits)
    moreover have "due_updates XXH64 g pkt_count ?key cm = due_updates XXH64 g pkt_count ?key cm1"
      using cm1(1) test True by (subst due_updates.simps) simp
    ultimately show ?thesis using less.hyps [of "Suc J" cm1] cm1(2) up by simp
  next
    case False
    then have "due g n = {..< J}" using less.prems(2) due_before [OF g, of _ n J] by (auto simp: not_less intro: leI)
    then show ?thesis using less.prems(1) test False by (auto simp: due_updates.simps [of XXH64 g pkt_count _ cm])
  qed
qed

lemma sketch_packets_ok:
  assumes g: "samples_ok g" and seeds: "length seeds = 5" and fit: "counters_fit XXH64 g seeds gap ps (length ps)"
    and v4: "\<forall>p \<in> set ps. ip_ipv4 p" and m: "length ps < 2 ^ 31"
    and rep: "sketched XXH64 g seeds gap ps J cm" "i \<le> length ps" "{..< J} \<subseteq> due g (max 1 i)" "Suc i \<le> max 1 (position g J div 5)"
    and pk: "unat pkt_count = i" "i = 0 \<Longrightarrow> J = 0" "0 < i \<Longrightarrow> due g i = {..< J}"
  shows "\<exists>J' cm'. sketch_packets XXH64 g (drop i ps) (pkt_count, cm) = Some (of_nat (length ps), cm')
    \<and> sketched XXH64 g seeds gap ps J' cm' \<and> (if ps = [] then J' = 0 else due g (length ps) = {..< J'})"
  using rep pk
proof (induction "length ps - i" arbitrary: i J cm pkt_count)
  case 0
  then have i: "i = length ps" by simp
  moreover have "of_nat (unat pkt_count) = pkt_count" by simp
  ultimately have "pkt_count = of_nat (length ps)" using 0 by simp
  then show ?case using 0 i by auto
next
  case (Suc k)
  then have lt: "i < length ps" by simp
  let ?n = "Suc i"
  have d: "drop i ps = ps ! i # drop ?n ps" using lt by (simp add: Cons_nth_drop_Suc)
  have pc: "unat (pkt_count + 1) = ?n" using Suc.prems(5) lt m by (simp add: unat_word_ariths)
  have "{..< J} \<subseteq> due g ?n" using Suc.prems(3) due_mono [of "max 1 i" ?n g] by auto
  then obtain J1 cm1 where u: "due_updates XXH64 g (pkt_count + 1) (packet_key (ps ! (?n - 1))) cm = Some cm1"
    "sketched XXH64 g seeds gap ps J1 cm1" "due g ?n = {..< J1}"
    using due_updates_ok [OF g seeds fit pc _ _ m Suc.prems(1)] lt Suc.prems(4) by auto
  have "J1 \<notin> due g ?n" using u(3) by simp
  then have "5 * Suc ?n \<le> position g J1" by (simp add: due_def)
  then have ge: "Suc ?n \<le> max 1 (position g J1 div 5)" by simp
  have "sketch_packet XXH64 g (ps ! i) (pkt_count, cm) = Some (pkt_count + 1, cm1)"
    using u(1) v4 lt by (simp add: sketch_packet_def packet_key_def)
  then show ?case using Suc.hyps(1) [of ?n J1 cm1 "pkt_count + 1"] Suc.hyps(2) u(2,3) ge pc lt d by auto
qed

lemma cm_init_sketched:
  assumes "samples_ok g" "length seeds = 5"
  shows "\<exists>cm. cm_init g seeds gap = Some cm \<and> sketched XXH64 g seeds gap ps 0 cm"
proof -
  have l: "1 < length g" using assms(1) by (simp add: samples_ok_def)
  have p: "position g 0 = unat (g ! 1)" by (simp add: position_def)
  have d: "unat ((g ! 1) div 5) = unat (g ! 1) div 5" "unat ((g ! 1) mod 5) = unat (g ! 1) mod 5" by (simp_all add: unat_div unat_mod)
  show ?thesis using l
    by (simp add: cm_init_def nth_sample_def sketched_def CM_ROW_NO_def p [simplified] d [simplified])
qed

lemma counters_fit_small:
  assumes "samples_ok g" "0 \<le> gap" "gap * int (5 * Suc n) < 2 ^ 31"
  shows "counters_fit XXH64 g seeds gap ps n"
proof -
  have "gap * int (card {j \<in> due g n. P j}) < 2 ^ 31" for P
  proof (rule le_less_trans [OF _ assms(3)])
    have "card {j \<in> due g n. P j} \<le> card {..< 5 * Suc n}" using due_below [OF assms(1), of n] by (intro card_mono) auto
    then show "gap * int (card {j \<in> due g n. P j}) \<le> gap * int (5 * Suc n)" using assms(2) by (intro mult_left_mono) simp_all
  qed
  then show ?thesis using assms(2) by (simp add: counters_fit_def)
qed

section \<open>Properties of the sketch\<close>

text \<open>
  C33. The sketch counts the samples: after a run over IPv4 packets the counter of a row and a
  column is the gap times the number of sampled slots of the row whose packet's key the hash
  sends to the column, where the sampled slots are the sums of the samples drawn so far; the
  loop at each packet ends and makes exactly the updates that are due.
\<close>
theorem sketch_counts:
  assumes "samples_ok g" "length seeds = 5" "counters_fit XXH64 g seeds gap ps (length ps)"
    and "\<forall>p \<in> set ps. ip_ipv4 p" "ps \<noteq> []" "length ps < 2 ^ 31"
  shows "\<exists>cm cm'. cm_init g seeds gap = Some cm \<and> sketch_packets XXH64 g ps (0, cm) = Some (of_nat (length ps), cm')
    \<and> (\<forall>r < 5. \<forall>c < CM_COL_NO. cm_sketch cm' ! r ! c = gap * int (card {j \<in> due g (length ps). hits XXH64 g seeds ps r c j}))"
proof -
  obtain cm where cm: "cm_init g seeds gap = Some cm" "sketched XXH64 g seeds gap ps 0 cm"
    using cm_init_sketched [OF assms(1,2)] by blast
  from sketch_packets_ok [OF assms(1-4,6) cm(2), of 0 0] obtain J cm' where
    r: "sketch_packets XXH64 g ps (0, cm) = Some (of_nat (length ps), cm')" "sketched XXH64 g seeds gap ps J cm'" "due g (length ps) = {..< J}"
    using assms(5) by auto
  then show ?thesis using cm(1) by (auto simp: sketched_def)
qed

definition one_packet :: ip_packet where "one_packet = \<lparr>ip_ipv4 = True, ip_src_addr = 5, ip_dst_addr = 7\<rparr>"

theorem sketch_counts_witness:
  "\<exists>cm cm'. cm_init (replicate (2 ^ 16) 3) [1, 2, 3, 4, 5] 100 = Some cm
    \<and> sketch_packets (\<lambda>key seed. key + ucast seed) (replicate (2 ^ 16) 3) [one_packet] (0, cm) = Some (of_nat (length [one_packet]), cm')
    \<and> (\<forall>r < 5. \<forall>c < CM_COL_NO. cm_sketch cm' ! r ! c = 100 * int (card {j \<in> due (replicate (2 ^ 16) 3) (length [one_packet]).
        hits (\<lambda>key seed. key + ucast seed) (replicate (2 ^ 16) 3) [1, 2, 3, 4, 5] [one_packet] r c j}))"
proof -
  have g: "samples_ok (replicate (2 ^ 16) 3)" by (simp only: samples_ok_def length_replicate) simp
  show ?thesis
    by (rule sketch_counts [OF g _ counters_fit_small [OF g]]) (simp_all add: one_packet_def)
qed

lemma due_for_ever:
  fixes pkt_count :: u64
  assumes "2 ^ 32 - 1 \<le> unat pkt_count"
  shows "ucast (cm_nextUpdate cm) \<le> pkt_count"
proof -
  have "unat (cm_nextUpdate cm) \<le> 2 ^ 32 - 1" using unsigned_less [of "cm_nextUpdate cm", where ?'a = nat] by simp
  then show ?thesis using assms by (simp add: word_le_nat_alt unat_ucast_mod)
qed

text \<open>
  C35. The loop over the due updates ends no more once \<open>2 ^ 32 - 1\<close> packets were counted: the
  count has 64 bits, but the number of the next packet to sample has 32 and is never above it.
\<close>
theorem sketch_hangs:
  assumes "2 ^ 32 - 1 \<le> unat pkt_count"
  shows "(\<forall>cm. ucast (cm_nextUpdate cm) \<le> pkt_count) \<and> due_updates XXH64 g pkt_count key cm = None"
proof -
  have "pc = pkt_count \<longrightarrow> False" if "due_updates h v pc k m = Some y" for h v pc k m y
    using that
  proof (rule due_updates.raw_induct [rotated])
    fix f and h :: "u64 \<Rightarrow> u32 \<Rightarrow> u64" and v pc k m y
    assume IH: "\<And>h v pc k m y. f h v pc k m = Some y \<Longrightarrow> pc = pkt_count \<longrightarrow> False"
      and body: "(if pc \<ge> ucast (cm_nextUpdate m) then do { m \<leftarrow> cm_processing h v k m; f h v pc k m } else Some m) = Some y"
    show "pc = pkt_count \<longrightarrow> False"
    proof
      assume pc: "pc = pkt_count"
      then obtain m' where "f h v pc k m' = Some y" using body due_for_ever [OF assms, of m] by (auto split: bind_splits)
      then show False using IH pc by blast
    qed
  qed
  then have "due_updates XXH64 g pkt_count key cm = None"
    by (cases "due_updates XXH64 g pkt_count key cm") blast+
  then show ?thesis using due_for_ever [OF assms] by blast
qed

theorem sketch_hangs_witness:
  "(\<forall>cm. ucast (cm_nextUpdate cm) \<le> (2 ^ 32 :: u64)) \<and> due_updates (\<lambda>key seed. key) (replicate (2 ^ 16) 3) (2 ^ 32) 9
    \<lparr>cm_seed1 = [1, 2, 3, 4, 5], cm_sketch = replicate CM_ROW_NO (replicate CM_COL_NO 0), cm_line_to_update = 3, cm_gap = 100,
     cm_nextUpdate = 0, cm_geoIdx = 1\<rparr> = None"
  by (rule sketch_hangs) (simp add: unat_two_power)

end
