(* ===== verification/Shared_Memory.thy ===== *)
theory Shared_Memory
  imports Round_Up "HOL-Library.Monad_Syntax"
begin

text \<open>
  The allocator of huge pages, \<^verbatim>\<open>HugeTLBFS_SHM\<close> of \<^verbatim>\<open>mica/alloc/hugetlbfs_shm.h\<close> and
  \<^verbatim>\<open>hugetlbfs_shm.cc\<close>: pages, entries (the pages of an allocation, with a count of references)
  and mappings (of an entry into the address space). The system is a parameter: where a new
  mapping of anonymous memory goes, and what becomes of each attempt to open and map the file of
  a page. What it keeps, the file behind each mapped page and the words of memory that the
  allocator writes, is part of the state. A pointer is a word, \<^verbatim>\<open>nullptr\<close> is 0. \<^verbatim>\<open>find_free_address\<close> maps
  anonymous memory to find a place and unmaps a page less than it mapped; the rest, which the code leaves
  mapped, is not kept in the state.
\<close>

section \<open>State\<close>

record page =
  pg_file_id :: u64
  pg_addr :: u64
  pg_paddr :: u64
  pg_numa_node :: u64
  pg_in_use :: bool

record entry =
  en_refcount :: u64
  en_to_remove :: bool
  en_length :: u64
  en_num_pages :: u64
  en_page_ids :: "nat list"

record mapping =
  mp_entry_id :: nat
  mp_addr :: u64
  mp_length :: u64
  mp_page_offset :: u64
  mp_num_pages :: u64

record shm =
  sh_pages :: "page list"
  sh_entries :: "entry list"
  sh_mappings :: "mapping list"
  sh_used_memory :: u64
  sh_table :: "u64 \<Rightarrow> u64 option"
  sh_memory :: "u64 \<Rightarrow> u64"
  sh_calls :: nat

text \<open>What becomes of an attempt to open the file of a page and map it at an address.\<close>

datatype map_outcome = Not_opened | Map_failed | Mapped_elsewhere u64 | Mapped_there

record system =
  sy_place :: "nat \<Rightarrow> (u64 \<Rightarrow> u64 option) \<Rightarrow> u64 \<Rightarrow> u64 option"
  sy_map :: "nat \<Rightarrow> map_outcome"
  sy_numa_count :: u64
  sy_numa_ids :: "u64 list"
  sy_lcore_id :: nat

definition kPageSize :: u64 where "kPageSize = 2 * 1048576"

definition shm_roundup :: "u64 \<Rightarrow> u64" where "shm_roundup sz = roundup kPageSize sz"

definition unused_entry :: entry where
  "unused_entry = \<lparr>en_refcount = 0, en_to_remove = False, en_length = 0, en_num_pages = 0, en_page_ids = []\<rparr>"

definition unused_mapping :: mapping where
  "unused_mapping = \<lparr>mp_entry_id = 0, mp_addr = 0, mp_length = 0, mp_page_offset = 0, mp_num_pages = 0\<rparr>"

text \<open>The loops that look for the first element of a kind end at its index, or at the size.\<close>

fun first_index :: "('a \<Rightarrow> bool) \<Rightarrow> 'a list \<Rightarrow> nat" where
  "first_index P [] = 0"
| "first_index P (x # xs) = (if P x then 0 else Suc (first_index P xs))"

definition core_numa_id :: "system \<Rightarrow> nat \<Rightarrow> u64 option" where
  "core_numa_id sys lcore = elem_at (sy_numa_ids sys) lcore"

section \<open>Entries\<close>

fun pick_pages :: "u64 \<Rightarrow> nat \<Rightarrow> nat \<Rightarrow> page list \<Rightarrow> nat list" where
  "pick_pages numa_node page_id missing [] = []"
| "pick_pages numa_node page_id missing (pg # pgs) =
     (if missing = 0 then []
      else if pg_addr pg = 0 then pick_pages numa_node (Suc page_id) missing pgs
      else if pg_in_use pg \<or> pg_numa_node pg \<noteq> numa_node then pick_pages numa_node (Suc page_id) missing pgs
      else page_id # pick_pages numa_node (Suc page_id) (missing - 1) pgs)"

fun set_in_use :: "bool \<Rightarrow> nat list \<Rightarrow> page list \<Rightarrow> page list" where
  "set_in_use b [] pgs = pgs"
| "set_in_use b (i # ids) pgs = set_in_use b ids (pgs[i := (pgs ! i)\<lparr>pg_in_use := b\<rparr>])"

definition pages_for :: "u64 \<Rightarrow> u64" where
  "pages_for len = (len + (kPageSize - 1)) div kPageSize"

definition shm_alloc :: "system \<Rightarrow> u64 \<Rightarrow> u64 \<Rightarrow> shm \<Rightarrow> (nat option \<times> shm) option" where
  "shm_alloc sys len numa_node s =
     do {
       numa_node \<leftarrow> (if numa_node = - 1 then core_numa_id sys (sy_lcore_id sys) else Some numa_node);
       if numa_node = - 1 then Some (None, s)
       else do {
         let entry_id = first_index (\<lambda>e. en_page_ids e = []) (sh_entries s);
         let es = (if entry_id = length (sh_entries s) then sh_entries s @ [unused_entry] else sh_entries s);
         let num_pages = pages_for len;
         let ids = pick_pages numa_node 0 (unat num_pages) (sh_pages s);
         if unat num_pages \<noteq> length ids
         then Some (None, s\<lparr>sh_entries := es[entry_id := unused_entry]\<rparr>)
         else Some (Some entry_id, s\<lparr>sh_entries := es[entry_id := (es ! entry_id)\<lparr>en_length := len, en_num_pages := num_pages,
                en_page_ids := ids\<rparr>],
              sh_pages := set_in_use True ids (sh_pages s)\<rparr>)
       }
     }"

definition check_release :: "nat \<Rightarrow> shm \<Rightarrow> shm option" where
  "check_release entry_id s =
     do {
       e \<leftarrow> elem_at (sh_entries s) entry_id;
       Some (if en_refcount e = 0 \<and> en_to_remove e
         then let s = s\<lparr>sh_pages := set_in_use False (take (unat (en_num_pages e)) (en_page_ids e)) (sh_pages s)\<rparr>;
                  s = s\<lparr>sh_entries := (sh_entries s)[entry_id := unused_entry]\<rparr>
              in s\<lparr>sh_used_memory := sh_used_memory s - en_num_pages (sh_entries s ! entry_id) * kPageSize\<rparr>
         else s)
     }"

definition schedule_release :: "nat \<Rightarrow> shm \<Rightarrow> (bool \<times> shm) option" where
  "schedule_release entry_id s =
     do {
       e \<leftarrow> elem_at (sh_entries s) entry_id;
       if en_page_ids e = [] then Some (False, s)
       else do {
         s \<leftarrow> check_release entry_id (s\<lparr>sh_entries := (sh_entries s)[entry_id := e\<lparr>en_to_remove := True\<rparr>]\<rparr>);
         Some (True, s)
       }
     }"

section \<open>Mappings\<close>

text \<open>The pages \<open>page_index\<close> to \<open>page_index_end\<close> of an entry, mapped at \<open>p\<close> and on: whether all were, and how far it came.\<close>

function map_pages :: "system \<Rightarrow> nat list \<Rightarrow> u64 \<Rightarrow> u64 \<Rightarrow> u64 \<Rightarrow> shm \<Rightarrow> (bool \<times> u64 \<times> shm) option" where
  "map_pages sys page_ids page_index page_index_end p s =
     (if page_index < page_index_end
      then do {
        page_id \<leftarrow> elem_at page_ids (unat page_index);
        pg \<leftarrow> elem_at (sh_pages s) page_id;
        let outcome = sy_map sys (sh_calls s);
        let s = s\<lparr>sh_calls := Suc (sh_calls s)\<rparr>;
        case outcome of
          Mapped_there \<Rightarrow> map_pages sys page_ids (page_index + 1) page_index_end (p + kPageSize)
            (s\<lparr>sh_table := (sh_table s)(p \<mapsto> pg_file_id pg)\<rparr>)
        | Mapped_elsewhere q \<Rightarrow> Some (False, page_index, s\<lparr>sh_table := (sh_table s)(q \<mapsto> pg_file_id pg)\<rparr>)
        | _ \<Rightarrow> Some (False, page_index, s)
      }
      else Some (True, page_index, s))"
  by pat_completeness auto
termination
  by (relation "measure (\<lambda>(sys, ids, i, e, p, s). unat e - unat i)") (auto simp: unat_Suc_bound word_less_nat_alt)

declare map_pages.simps [simp del]

fun unmap_pages :: "nat \<Rightarrow> u64 \<Rightarrow> (u64 \<Rightarrow> u64 option) \<Rightarrow> (u64 \<Rightarrow> u64 option)" where
  "unmap_pages 0 p table = table"
| "unmap_pages (Suc n) p table = unmap_pages n (p + kPageSize) (table(p := None))"

definition register_mapping :: "nat \<Rightarrow> nat \<Rightarrow> u64 \<Rightarrow> u64 \<Rightarrow> u64 \<Rightarrow> u64 \<Rightarrow> entry \<Rightarrow> shm \<Rightarrow> shm" where
  "register_mapping mapping_id entry_id ptr len page_offset num_pages e s =
     s\<lparr>sh_used_memory := (if en_refcount e = 0 then sh_used_memory s + en_num_pages e * kPageSize else sh_used_memory s),
       sh_entries := (sh_entries s)[entry_id := e\<lparr>en_refcount := en_refcount e + 1\<rparr>],
       sh_mappings := (sh_mappings s)[mapping_id := \<lparr>mp_entry_id = entry_id, mp_addr = ptr, mp_length = len,
         mp_page_offset = page_offset, mp_num_pages = num_pages\<rparr>]\<rparr>"

definition shm_map :: "system \<Rightarrow> nat \<Rightarrow> u64 \<Rightarrow> u64 \<Rightarrow> u64 \<Rightarrow> shm \<Rightarrow> (bool \<times> shm) option" where
  "shm_map sys entry_id ptr offset len s =
     (if ptr AND NOT (kPageSize - 1) \<noteq> ptr then Some (False, s)
      else if offset AND NOT (kPageSize - 1) \<noteq> offset then Some (False, s)
      else do {
        e \<leftarrow> elem_at (sh_entries s) entry_id;
        if en_page_ids e = [] then Some (False, s)
        else if offset > en_length e then Some (False, s)
        else if offset + len > en_length e then Some (False, s)
        else do {
          let mapping_id = first_index (\<lambda>m. mp_addr m = 0) (sh_mappings s);
          let s = (if mapping_id = length (sh_mappings s) then s\<lparr>sh_mappings := sh_mappings s @ [unused_mapping]\<rparr> else s);
          let page_offset = offset div kPageSize;
          let num_pages = pages_for len;
          (ok, page_index, s) \<leftarrow> map_pages sys (en_page_ids e) page_offset (page_offset + num_pages) ptr s;
          if \<not> ok
          then Some (False, s\<lparr>sh_table := unmap_pages (unat (page_index - page_offset)) ptr (sh_table s)\<rparr>)
          else Some (True, register_mapping mapping_id entry_id ptr len page_offset num_pages e s)
        }
      })"

definition shm_unmap :: "u64 \<Rightarrow> shm \<Rightarrow> (bool \<times> shm) option" where
  "shm_unmap ptr s =
     (let mapping_id = first_index (\<lambda>m. mp_addr m = ptr) (sh_mappings s)
      in if mapping_id = length (sh_mappings s) then Some (False, s)
      else do {
        let m = sh_mappings s ! mapping_id;
        let s = s\<lparr>sh_table := unmap_pages (unat (mp_num_pages m)) ptr (sh_table s)\<rparr>;
        e \<leftarrow> elem_at (sh_entries s) (mp_entry_id m);
        s \<leftarrow> check_release (mp_entry_id m) (s\<lparr>sh_entries := (sh_entries s)[mp_entry_id m := e\<lparr>en_refcount := en_refcount e - 1\<rparr>]\<rparr>);
        Some (True, s\<lparr>sh_mappings := (sh_mappings s)[mapping_id := unused_mapping]\<rparr>)
      })"

section \<open>Blocks of memory\<close>

text \<open>A place for a block, 0 if the system finds none.\<close>

definition find_free_address :: "system \<Rightarrow> u64 \<Rightarrow> shm \<Rightarrow> u64 \<times> shm" where
  "find_free_address sys sz s =
     (case sy_place sys (sh_calls s) (sh_table s) (sz + kPageSize) of
        None \<Rightarrow> 0
      | Some p \<Rightarrow> (p + (kPageSize - 1)) AND NOT (kPageSize - 1),
      s\<lparr>sh_calls := Suc (sh_calls s)\<rparr>)"

partial_function (option) map_contiguous :: "system \<Rightarrow> nat \<Rightarrow> u64 \<Rightarrow> shm \<Rightarrow> (u64 \<times> shm) option" where
  "map_contiguous sys entry_id sz s =
     (let (p, s) = find_free_address sys sz s in
      if p = 0 then do { (_, s) \<leftarrow> schedule_release entry_id s; Some (0, s) }
      else do {
        (ok, s) \<leftarrow> shm_map sys entry_id p 0 sz s;
        if ok then do { (_, s) \<leftarrow> schedule_release entry_id s; Some (p, s) }
        else map_contiguous sys entry_id sz s
      })"

declare map_contiguous.simps [code]

definition malloc_contiguous :: "system \<Rightarrow> u64 \<Rightarrow> nat \<Rightarrow> shm \<Rightarrow> (u64 \<times> shm) option" where
  "malloc_contiguous sys sz lcore s =
     do {
       let sz = shm_roundup sz;
       numa_node \<leftarrow> core_numa_id sys lcore;
       if numa_node = - 1 then Some (0, s)
       else do {
         (r, s) \<leftarrow> shm_alloc sys sz numa_node s;
         case r of None \<Rightarrow> Some (0, s) | Some entry_id \<Rightarrow> map_contiguous sys entry_id sz s
       }
     }"

definition malloc_contiguous_local :: "system \<Rightarrow> u64 \<Rightarrow> shm \<Rightarrow> (u64 \<times> shm) option" where
  "malloc_contiguous_local sys sz s = malloc_contiguous sys sz (sy_lcore_id sys) s"

text \<open>The trials left, one for each core; a trial that fails is the result.\<close>

fun try_cores :: "system \<Rightarrow> u64 \<Rightarrow> nat \<Rightarrow> nat \<Rightarrow> shm \<Rightarrow> (u64 \<times> shm) option" where
  "try_cores sys sz lcore 0 s = Some (0, s)"
| "try_cores sys sz lcore (Suc trials) s =
     do {
       (p, s) \<leftarrow> malloc_contiguous sys sz lcore s;
       if p = 0 then Some (p, s)
       else try_cores sys sz (if Suc lcore = length (sy_numa_ids sys) then 0 else Suc lcore) trials s
     }"

definition malloc_contiguous_any :: "system \<Rightarrow> u64 \<Rightarrow> shm \<Rightarrow> (u64 \<times> shm) option" where
  "malloc_contiguous_any sys sz s = try_cores sys sz 0 (length (sy_numa_ids sys)) s"

definition free_contiguous :: "u64 \<Rightarrow> shm \<Rightarrow> shm option" where
  "free_contiguous ptr s = map_option snd (shm_unmap ptr s)"

text \<open>The pages of a striped block, taken in turn from the entries of the NUMA domains: how far it came.\<close>

partial_function (option) map_stripes :: "system \<Rightarrow> nat list \<Rightarrow> u64 \<Rightarrow> u64 \<Rightarrow> u64 \<Rightarrow> u64 \<Rightarrow> u64 \<Rightarrow> shm \<Rightarrow> (u64 \<times> shm) option" where
  "map_stripes sys ids sz numa_node offset_in_stripe mapped p s =
     (if mapped < sz
      then do {
        entry_id \<leftarrow> elem_at ids (unat numa_node);
        (ok, s) \<leftarrow> shm_map sys entry_id p offset_in_stripe kPageSize s;
        if \<not> ok then Some (mapped, s)
        else do {
          let numa_node = (if numa_node + 1 = sy_numa_count sys then 0 else numa_node + 1);
          map_stripes sys ids sz numa_node (if numa_node = 0 then offset_in_stripe + kPageSize else offset_in_stripe)
            (mapped + kPageSize) (p + kPageSize) s
        }
      }
      else Some (mapped, s))"

declare map_stripes.simps [code]

text \<open>The loops over the pages below \<open>bound\<close> that unmap each.\<close>

partial_function (option) unmap_all :: "u64 \<Rightarrow> u64 \<Rightarrow> u64 \<Rightarrow> shm \<Rightarrow> shm option" where
  "unmap_all bound mapped p s =
     (if mapped < bound
      then do { (_, s) \<leftarrow> shm_unmap p s; unmap_all bound (mapped + kPageSize) (p + kPageSize) s }
      else Some s)"

declare unmap_all.simps [code]

partial_function (option) map_striped :: "system \<Rightarrow> nat list \<Rightarrow> u64 \<Rightarrow> shm \<Rightarrow> (u64 \<times> shm) option" where
  "map_striped sys ids sz s =
     (let (base, s) = find_free_address sys sz s in
      if base = 0
      then do {
        (_, s) \<leftarrow> schedule_release (ids ! 0) s;
        (_, s) \<leftarrow> schedule_release (ids ! 1) s;
        Some (0, s)
      }
      else do {
        (mapped, s) \<leftarrow> map_stripes sys ids sz 0 0 0 base s;
        if mapped < sz then do { s \<leftarrow> unmap_all mapped 0 base s; map_striped sys ids sz s }
        else do {
          (_, s) \<leftarrow> schedule_release (ids ! 0) s;
          (_, s) \<leftarrow> schedule_release (ids ! 1) s;
          Some (base + 2 * kPageSize, s\<lparr>sh_memory := (sh_memory s)(base := sz)\<rparr>)
        }
      })"

declare map_striped.simps [code]

definition malloc_striped :: "system \<Rightarrow> u64 \<Rightarrow> shm \<Rightarrow> (u64 \<times> shm) option" where
  "malloc_striped sys sz s =
     (if sy_numa_count sys = 1 then malloc_contiguous sys sz 0 s
      else do {
        let sz = sz + 2 * kPageSize;
        let sz_2 = shm_roundup ((sz + 1) div 2);
        (r0, s) \<leftarrow> shm_alloc sys sz_2 0 s;
        case r0 of None \<Rightarrow> Some (0, s)
        | Some e0 \<Rightarrow> do {
            (r1, s) \<leftarrow> shm_alloc sys sz_2 1 s;
            case r1 of None \<Rightarrow> do { (_, s) \<leftarrow> schedule_release e0 s; Some (0, s) }
            | Some e1 \<Rightarrow> map_striped sys [e0, e1] sz s
          }
      })"

definition free_striped :: "system \<Rightarrow> u64 \<Rightarrow> shm \<Rightarrow> shm option" where
  "free_striped sys ptr s =
     (if sy_numa_count sys = 1 then free_contiguous ptr s
      else let base = ptr - 2 * kPageSize in unmap_all (sh_memory s base) 0 base s)"

definition get_memuse :: "shm \<Rightarrow> u64" where "get_memuse s = sh_used_memory s"

end
