(* ===== verification/Shared_Memory_Inv.thy ===== *)
theory Shared_Memory_Inv
  imports Shared_Memory
begin

text \<open>
  The invariant of the huge page allocator: the pages in use are shared out among the entries, an
  entry counts the mappings of it, and each mapping leads, page by page, to the pages of its entry.
  Addresses are runs of pages of 2 MiB. Allocating and releasing an entry keep the invariant.
\<close>

section \<open>Pages of addresses\<close>

lemma page_size [simp]: "unat kPageSize = 2 ^ 21" "kPageSize - 1 = mask 21"
  by (simp_all add: kPageSize_def mask_eq_decr_exp)

lemma aligned_iff: "x AND NOT (kPageSize - 1) = x \<longleftrightarrow> unat x mod 2 ^ 21 = 0"
proof -
  have "x AND NOT (mask 21) = x \<longleftrightarrow> unat x - unat x mod 2 ^ 21 = unat x"
    by (simp only: word_unat_eq_iff unat_and_not_mask)
  also have "\<dots> \<longleftrightarrow> unat x mod 2 ^ 21 = 0"
    using mod_less_eq_dividend [of "unat x" "2 ^ 21"] by linarith
  finally show ?thesis by simp
qed

definition nth_page :: "u64 \<Rightarrow> nat \<Rightarrow> u64" where
  "nth_page p j = p + of_nat j * kPageSize"

lemma nth_page_0 [simp]: "nth_page p 0 = p"
  by (simp add: nth_page_def)

lemma nth_page_Suc: "nth_page (p + kPageSize) j = nth_page p (Suc j)"
  by (simp add: nth_page_def algebra_simps)

lemma unat_nth_page:
  assumes "unat p + n * 2 ^ 21 \<le> 2 ^ 64" "j < n"
  shows "unat (nth_page p j) = unat p + j * 2 ^ 21"
proof -
  have "j * 2 ^ 21 + 2 ^ 21 \<le> n * 2 ^ 21" using assms(2) by (simp flip: add_mult_distrib2)
  then have b: "unat p + j * 2 ^ 21 < 2 ^ 64" using assms(1) by simp
  then have j: "unat (of_nat j :: u64) = j" by (simp add: unat_of_nat)
  have "unat (of_nat j * kPageSize) = j * 2 ^ 21" using b j by (simp add: unat_word_ariths)
  then show ?thesis using b by (simp add: nth_page_def unat_add_no_overflow)
qed

lemma nth_page_inj:
  assumes "unat p + n * 2 ^ 21 \<le> 2 ^ 64" "i < n" "j < n" "nth_page p i = nth_page p j"
  shows "i = j"
proof -
  have "unat p + i * 2 ^ 21 = unat p + j * 2 ^ 21"
    using unat_nth_page [OF assms(1,2)] unat_nth_page [OF assms(1,3)] assms(4) by metis
  then show ?thesis by simp
qed

text \<open>The page numbers of a range of memory.\<close>

definition page_set :: "u64 \<Rightarrow> nat \<Rightarrow> nat set" where
  "page_set p n = {unat p div 2 ^ 21 ..< unat p div 2 ^ 21 + n}"

definition in_memory :: "u64 \<Rightarrow> nat \<Rightarrow> bool" where
  "in_memory p n \<longleftrightarrow> unat p mod 2 ^ 21 = 0 \<and> unat p + n * 2 ^ 21 \<le> 2 ^ 64"

lemma nth_page_number:
  assumes "in_memory p n" "j < n"
  shows "unat (nth_page p j) = (unat p div 2 ^ 21 + j) * 2 ^ 21"
  using assms unat_nth_page [of p n j] by (auto simp: in_memory_def add_mult_distrib)

lemma nth_page_apart:
  assumes "in_memory p n" "in_memory q m" "page_set p n \<inter> page_set q m = {}" "i < n" "j < m"
  shows "nth_page p i \<noteq> nth_page q j"
proof
  assume "nth_page p i = nth_page q j"
  then have "unat p div 2 ^ 21 + i = unat q div 2 ^ 21 + j"
    using nth_page_number [OF assms(1,4)] nth_page_number [OF assms(2,5)] by simp
  then show False using assms(3-5) by (auto simp: page_set_def disjoint_iff dest: spec [of _ "unat p div 2 ^ 21 + i"])
qed

definition fresh_pages :: "(u64 \<Rightarrow> u64 option) \<Rightarrow> u64 \<Rightarrow> nat \<Rightarrow> bool" where
  "fresh_pages t p n \<longleftrightarrow> (\<forall>j<n. t (nth_page p j) = None)"

lemma unmap_pages_at:
  assumes "in_memory p n"
  shows "unmap_pages n p t q = (if \<exists>j<n. q = nth_page p j then None else t q)"
proof -
  have "unmap_pages n p t q = (if \<exists>j<n. q = nth_page p j then None else t q)" for n p t
  proof (induction n arbitrary: p t)
    case (Suc n)
    have "(\<exists>j<Suc n. q = nth_page p j) \<longleftrightarrow> q = p \<or> (\<exists>j<n. q = nth_page (p + kPageSize) j)"
      by (auto simp: nth_page_Suc less_Suc_eq_0_disj)
    then show ?case using Suc by auto
  qed simp
  then show ?thesis .
qed

fun put_pages :: "u64 list \<Rightarrow> u64 \<Rightarrow> (u64 \<Rightarrow> u64 option) \<Rightarrow> (u64 \<Rightarrow> u64 option)" where
  "put_pages [] p t = t"
| "put_pages (f # fs) p t = put_pages fs (p + kPageSize) (t(p \<mapsto> f))"

lemma put_pages_other: "\<forall>j<length fs. q \<noteq> nth_page p j \<Longrightarrow> put_pages fs p t q = t q"
proof (induction fs arbitrary: p t)
  case (Cons f fs)
  have "\<forall>j<length fs. q \<noteq> nth_page (p + kPageSize) j" using Cons.prems by (auto simp: nth_page_Suc)
  moreover have "q \<noteq> p" using Cons.prems by (auto dest: spec [of _ 0])
  ultimately show ?case using Cons.IH by simp
qed simp

lemma put_pages_at:
  "unat p + length fs * 2 ^ 21 \<le> 2 ^ 64 \<Longrightarrow> j < length fs \<Longrightarrow> put_pages fs p t (nth_page p j) = Some (fs ! j)"
proof (induction fs arbitrary: p t j)
  case (Cons f fs)
  have ne: "nth_page p 0 \<noteq> nth_page p (Suc i)" if "i < length fs" for i
    using nth_page_inj [OF Cons.prems(1), of 0 "Suc i"] that by auto
  show ?case
  proof (cases j)
    case 0
    have "\<forall>i<length fs. p \<noteq> nth_page (p + kPageSize) i" using ne by (simp add: nth_page_Suc)
    then show ?thesis using 0 by (simp add: put_pages_other)
  next
    case (Suc i)
    then have "unat (p + kPageSize) + length fs * 2 ^ 21 \<le> 2 ^ 64"
    proof (cases "fs = []")
      case False
      then have "unat p + 2 ^ 21 < 2 ^ 64" using Cons.prems(1) by (cases fs) simp_all
      then show ?thesis using Cons.prems(1) by (simp add: unat_add_no_overflow)
    qed (use Cons.prems Suc in simp)
    then show ?thesis using Cons.IH [of "p + kPageSize" i] Cons.prems(2) Suc by (simp add: nth_page_Suc)
  qed
qed simp

lemma unmap_put_pages:
  assumes "in_memory p (length fs)" "fresh_pages t p (length fs)"
  shows "unmap_pages (length fs) p (put_pages fs p t) = t"
proof
  fix q
  show "unmap_pages (length fs) p (put_pages fs p t) q = t q"
    using assms put_pages_other [of fs q p t] by (auto simp: unmap_pages_at fresh_pages_def)
qed

section \<open>Lists whose elements stay apart\<close>

definition apart_by :: "('a \<Rightarrow> nat set) \<Rightarrow> 'a list \<Rightarrow> bool" where
  "apart_by f xs \<longleftrightarrow> (\<forall>i<length xs. \<forall>j<length xs. i \<noteq> j \<longrightarrow> f (xs ! i) \<inter> f (xs ! j) = {})"

lemma apart_byD: "apart_by f xs \<Longrightarrow> i < length xs \<Longrightarrow> j < length xs \<Longrightarrow> i \<noteq> j \<Longrightarrow> f (xs ! i) \<inter> f (xs ! j) = {}"
  by (simp add: apart_by_def)

lemma apart_by_update:
  assumes "apart_by f xs" "\<And>i. i < length xs \<Longrightarrow> i \<noteq> k \<Longrightarrow> f (xs ! i) \<inter> f y = {}"
  shows "apart_by f (xs[k := y])"
  unfolding apart_by_def
proof (intro allI impI)
  fix i j assume ij: "i < length (xs[k := y])" "j < length (xs[k := y])" "i \<noteq> j"
  show "f (xs[k := y] ! i) \<inter> f (xs[k := y] ! j) = {}"
    using ij assms(2) [of i] assms(2) [of j] apart_byD [OF assms(1), of i j]
    by (cases "i = k"; cases "j = k") (simp_all add: Int_commute)
qed

lemma apart_by_snoc: "apart_by f xs \<Longrightarrow> f y = {} \<Longrightarrow> apart_by f (xs @ [y])"
  by (auto simp: apart_by_def nth_append less_Suc_eq)

lemma first_index_le: "first_index P xs \<le> length xs"
  by (induction xs) simp_all

lemma first_index_found: "first_index P xs \<noteq> length xs \<Longrightarrow> first_index P xs < length xs \<and> P (xs ! first_index P xs)"
  by (induction xs) (auto split: if_splits)

lemma first_index_none: "first_index P xs = length xs \<longleftrightarrow> (\<forall>x \<in> set xs. \<not> P x)"
  by (induction xs) (auto simp: first_index_le le_less_Suc_eq)

section \<open>Choosing pages\<close>

definition eligible :: "u64 \<Rightarrow> page \<Rightarrow> bool" where
  "eligible node pg \<longleftrightarrow> pg_addr pg \<noteq> 0 \<and> \<not> pg_in_use pg \<and> pg_numa_node pg = node"

definition free_pages :: "u64 \<Rightarrow> page list \<Rightarrow> nat list" where
  "free_pages node pgs = filter (\<lambda>i. eligible node (pgs ! i)) [0..<length pgs]"

lemma pick_pages_take: "pick_pages node 0 n pgs = take n (free_pages node pgs)"
proof -
  have "pick_pages node k n pgs = take n (filter (\<lambda>i. eligible node (pgs ! (i - k))) [k..<k + length pgs])" for k
  proof (induction pgs arbitrary: k n)
    case (Cons pg pgs)
    have f: "filter (\<lambda>i. eligible node ((pg # pgs) ! (i - k))) [Suc k..<k + length (pg # pgs)]
      = filter (\<lambda>i. eligible node (pgs ! (i - Suc k))) [Suc k..<Suc k + length pgs]"
      by (rule filter_cong) (auto simp: nth_Cons')
    have "[k..<k + length (pg # pgs)] = k # [Suc k..<k + length (pg # pgs)]"
      by (rule upt_conv_Cons) simp
    then show ?case
      using Cons.IH [of "Suc k" n] Cons.IH [of "Suc k" "n - 1"] f
      by (cases n) (auto simp: eligible_def)
  qed simp
  from this [of 0] show ?thesis by (simp add: free_pages_def)
qed

lemma free_pages_distinct [simp]: "distinct (free_pages node pgs)"
  by (simp add: free_pages_def)

lemma free_pages_iff: "i \<in> set (free_pages node pgs) \<longleftrightarrow> i < length pgs \<and> eligible node (pgs ! i)"
  by (auto simp: free_pages_def)

lemma length_set_in_use [simp]: "length (set_in_use b ids pgs) = length pgs"
  by (induction ids arbitrary: pgs) simp_all

lemma set_in_use_nth:
  "i < length pgs \<Longrightarrow> set_in_use b ids pgs ! i = (if i \<in> set ids then (pgs ! i)\<lparr>pg_in_use := b\<rparr> else pgs ! i)"
proof (induction ids arbitrary: pgs)
  case (Cons j ids)
  then show ?case by (cases "i = j") simp_all
qed simp

lemma set_in_use_file [simp]: "pg_file_id (set_in_use b ids pgs ! i) = pg_file_id (pgs ! i)"
proof (induction ids arbitrary: pgs)
  case (Cons j ids)
  have "pg_file_id (pgs[j := (pgs ! j)\<lparr>pg_in_use := b\<rparr>] ! i) = pg_file_id (pgs ! i)"
    by (cases "j < length pgs"; cases "i = j") (simp_all add: list_update_beyond)
  then show ?case using Cons by simp
qed simp

section \<open>The invariant of the allocator\<close>

definition refs :: "mapping list \<Rightarrow> nat \<Rightarrow> nat" where
  "refs ms i = length (filter (\<lambda>m. mp_addr m \<noteq> 0 \<and> mp_entry_id m = i) ms)"

definition entry_pages :: "entry \<Rightarrow> nat set" where
  "entry_pages e = set (en_page_ids e)"

text \<open>The pages in use are those of the entries, each in one entry.\<close>

definition pages_ok :: "page list \<Rightarrow> entry list \<Rightarrow> bool" where
  "pages_ok pgs es \<longleftrightarrow> apart_by entry_pages es \<and> (\<forall>e \<in> set es. distinct (en_page_ids e))
     \<and> {i. i < length pgs \<and> pg_in_use (pgs ! i)} = (\<Union>e \<in> set es. entry_pages e)"

text \<open>An entry counts the mappings of it, and is given back with the last of them.\<close>

definition entry_ok :: "nat \<Rightarrow> bool \<Rightarrow> entry \<Rightarrow> bool" where
  "entry_ok n waits e \<longleftrightarrow> unat (en_refcount e) = n \<and> unat (en_num_pages e) = length (en_page_ids e)
     \<and> (en_to_remove e \<longrightarrow> waits \<or> 0 < n)
     \<and> (if en_page_ids e = [] then n = 0 \<and> \<not> en_to_remove e
        else unat (en_length e) + mask 21 < 2 ^ 64 \<and> (unat (en_length e) + mask 21) div 2 ^ 21 = length (en_page_ids e))"

text \<open>\<open>waits\<close> is an entry that may be about to be given back.\<close>

definition entries_ok :: "nat option \<Rightarrow> entry list \<Rightarrow> mapping list \<Rightarrow> bool" where
  "entries_ok waits es ms \<longleftrightarrow> (\<forall>i<length es. entry_ok (refs ms i) (waits = Some i) (es ! i))"

definition mapping_file :: "page list \<Rightarrow> entry list \<Rightarrow> mapping \<Rightarrow> nat \<Rightarrow> u64" where
  "mapping_file pgs es m j = pg_file_id (pgs ! (en_page_ids (es ! mp_entry_id m) ! (unat (mp_page_offset m) + j)))"

text \<open>The pages of addresses of a mapping lead to the files of its pages of the entry.\<close>

definition mapping_ok :: "page list \<Rightarrow> entry list \<Rightarrow> (u64 \<Rightarrow> u64 option) \<Rightarrow> mapping \<Rightarrow> bool" where
  "mapping_ok pgs es t m \<longleftrightarrow> mp_entry_id m < length es \<and> in_memory (mp_addr m) (unat (mp_num_pages m))
     \<and> unat (mp_page_offset m) + unat (mp_num_pages m) \<le> length (en_page_ids (es ! mp_entry_id m))
     \<and> (\<forall>j<unat (mp_num_pages m). t (nth_page (mp_addr m) j) = Some (mapping_file pgs es m j))"

definition mapping_pages :: "mapping \<Rightarrow> nat set" where
  "mapping_pages m = (if mp_addr m = 0 then {} else page_set (mp_addr m) (unat (mp_num_pages m)))"

definition mappings_ok :: "page list \<Rightarrow> entry list \<Rightarrow> (u64 \<Rightarrow> u64 option) \<Rightarrow> mapping list \<Rightarrow> bool" where
  "mappings_ok pgs es t ms \<longleftrightarrow> apart_by mapping_pages ms \<and> (\<forall>m \<in> set ms. mp_addr m \<noteq> 0 \<longrightarrow> mapping_ok pgs es t m)"

definition shm_inv :: "nat option \<Rightarrow> shm \<Rightarrow> bool" where
  "shm_inv waits s \<longleftrightarrow> pages_ok (sh_pages s) (sh_entries s) \<and> entries_ok waits (sh_entries s) (sh_mappings s)
     \<and> mappings_ok (sh_pages s) (sh_entries s) (sh_table s) (sh_mappings s)"

abbreviation shm_ok :: "shm \<Rightarrow> bool" where "shm_ok \<equiv> shm_inv None"

lemma refs_zero:
  assumes "mappings_ok pgs es t ms" "length es \<le> i"
  shows "refs ms i = 0"
  using assms by (auto simp: refs_def mappings_ok_def mapping_ok_def filter_empty_conv)

lemma refs_pos: "m \<in> set ms \<Longrightarrow> mp_addr m \<noteq> 0 \<Longrightarrow> 0 < refs ms (mp_entry_id m)"
  by (auto simp: refs_def filter_empty_conv)

lemma refs_le: "refs ms i \<le> length ms"
  by (simp add: refs_def)

lemma refs_update:
  assumes "k < length ms"
  shows "refs (ms[k := m]) i + (if mp_addr (ms ! k) \<noteq> 0 \<and> mp_entry_id (ms ! k) = i then 1 else 0)
    = refs ms i + (if mp_addr m \<noteq> 0 \<and> mp_entry_id m = i then 1 else 0)"
proof -
  have "ms = take k ms @ ms ! k # drop (Suc k) ms" using assms by (rule id_take_nth_drop)
  then have "refs ms i = refs (take k ms @ ms ! k # drop (Suc k) ms) i" by (rule arg_cong)
  moreover have "ms[k := m] = take k ms @ m # drop (Suc k) ms" using assms by (rule upd_conv_take_nth_drop)
  ultimately show ?thesis by (simp add: refs_def)
qed

text \<open>Room for one more entry, one more mapping.\<close>

lemma grow_entries:
  assumes "shm_ok s"
  shows "shm_ok (s\<lparr>sh_entries := sh_entries s @ [unused_entry]\<rparr>)"
proof -
  let ?es = "sh_entries s @ [unused_entry]"
  have m: "mappings_ok (sh_pages s) (sh_entries s) (sh_table s) (sh_mappings s)" using assms by (simp add: shm_inv_def)
  have "pages_ok (sh_pages s) ?es" using assms by (auto simp: shm_inv_def pages_ok_def entry_pages_def unused_entry_def intro!: apart_by_snoc)
  moreover have "entries_ok None ?es (sh_mappings s)"
    using assms refs_zero [OF m, of "length (sh_entries s)"]
    by (auto simp: shm_inv_def entries_ok_def nth_append less_Suc_eq entry_ok_def unused_entry_def)
  moreover have "mappings_ok (sh_pages s) ?es (sh_table s) (sh_mappings s)"
    using m by (auto simp: mappings_ok_def mapping_ok_def mapping_file_def nth_append)
  ultimately show ?thesis by (simp add: shm_inv_def)
qed

lemma grow_mappings:
  assumes "shm_ok s"
  shows "shm_ok (s\<lparr>sh_mappings := sh_mappings s @ [unused_mapping]\<rparr>)"
proof -
  have "refs (sh_mappings s @ [unused_mapping]) i = refs (sh_mappings s) i" for i by (simp add: refs_def unused_mapping_def)
  then show ?thesis
    using assms by (auto simp: shm_inv_def entries_ok_def mappings_ok_def unused_mapping_def mapping_pages_def intro!: apart_by_snoc)
qed

text \<open>An entry without pages can be set to anything without pages.\<close>

lemma entry_pages_update:
  assumes "k < length es"
  shows "(\<Union>e \<in> set (es[k := e']). entry_pages e) = (\<Union>i \<in> {..<length es} - {k}. entry_pages (es ! i)) \<union> entry_pages e'"
proof -
  have "(\<Union>e \<in> set (es[k := e']). entry_pages e) = (\<Union>i<length es. entry_pages (es[k := e'] ! i))"
    by (simp add: set_conv_nth [of "es[k := e']"]) blast
  also have "\<dots> = (\<Union>i \<in> {..<length es} - {k}. entry_pages (es ! i)) \<union> entry_pages e'"
    using assms by (auto simp: nth_list_update split: if_splits)
  finally show ?thesis .
qed

lemma mapping_ok_other:
  assumes "mapping_ok pgs es t m" "mp_entry_id m \<noteq> k" "\<And>i. pg_file_id (pgs' ! i) = pg_file_id (pgs ! i)"
  shows "mapping_ok pgs' (es[k := e]) t m"
  using assms by (simp add: mapping_ok_def mapping_file_def)

lemma unreferenced:
  assumes "shm_inv waits s" "k < length (sh_entries s)" "refs (sh_mappings s) k = 0" "m \<in> set (sh_mappings s)" "mp_addr m \<noteq> 0"
  shows "mp_entry_id m \<noteq> k"
  using assms refs_pos [of m "sh_mappings s"] by auto

lemma entries_ok_update:
  assumes "entries_ok waits es ms" "waits = None \<or> waits = Some k" "entry_ok (refs ms k) False e"
  shows "entries_ok None (es[k := e]) ms"
  unfolding entries_ok_def
proof (intro allI impI)
  fix i assume "i < length (es[k := e])"
  then show "entry_ok (refs ms i) (None = Some i) (es[k := e] ! i)"
    using assms by (cases "i = k") (auto simp: entries_ok_def)
qed

lemma take_pages:
  assumes inv: "shm_ok s" and k: "k < length (sh_entries s)" "en_page_ids (sh_entries s ! k) = []"
    and ids: "distinct ids" "\<forall>i \<in> set ids. i < length (sh_pages s) \<and> \<not> pg_in_use (sh_pages s ! i)"
    and e: "entry_ok 0 False e" "en_page_ids e = ids"
  shows "shm_ok (s\<lparr>sh_entries := (sh_entries s)[k := e], sh_pages := set_in_use True ids (sh_pages s)\<rparr>)"
proof -
  let ?es = "sh_entries s" and ?pgs = "sh_pages s"
  have P: "apart_by entry_pages ?es" "\<forall>e \<in> set ?es. distinct (en_page_ids e)"
    "{i. i < length ?pgs \<and> pg_in_use (?pgs ! i)} = (\<Union>e \<in> set ?es. entry_pages e)"
    using inv by (simp_all add: shm_inv_def pages_ok_def)
  have r0: "refs (sh_mappings s) k = 0" using inv k by (auto simp: shm_inv_def entries_ok_def entry_ok_def)
  have apart: "apart_by entry_pages (?es[k := e])"
  proof (rule apart_by_update [OF P(1)])
    fix i assume "i < length ?es" "i \<noteq> k"
    then have "entry_pages (?es ! i) \<subseteq> {i. i < length ?pgs \<and> pg_in_use (?pgs ! i)}" unfolding P(3) by (auto intro: nth_mem)
    then show "entry_pages (?es ! i) \<inter> entry_pages e = {}" using ids(2) e(2) by (auto simp: entry_pages_def)
  qed
  have U: "(\<Union>i \<in> {..<length ?es} - {k}. entry_pages (?es ! i)) = {i. i < length ?pgs \<and> pg_in_use (?pgs ! i)}"
    using entry_pages_update [OF k(1), of "?es ! k"] P(3) k(2) by (simp add: entry_pages_def)
  have "(\<Union>e \<in> set (?es[k := e]). entry_pages e) = {i. i < length ?pgs \<and> pg_in_use (set_in_use True ids ?pgs ! i)}"
    using ids(2) e(2) unfolding entry_pages_update [OF k(1)] U by (auto simp: set_in_use_nth entry_pages_def)
  moreover have "\<forall>e \<in> set (?es[k := e]). distinct (en_page_ids e)"
    using P(2) ids(1) e(2) by (auto dest!: set_update_subset_insert [THEN subsetD])
  moreover have "entries_ok None (?es[k := e]) (sh_mappings s)"
    using inv e(1) r0 by (auto simp: shm_inv_def intro: entries_ok_update)
  moreover have "mappings_ok (set_in_use True ids ?pgs) (?es[k := e]) (sh_table s) (sh_mappings s)"
    using inv unreferenced [OF inv k(1) r0] by (auto simp: shm_inv_def mappings_ok_def intro!: mapping_ok_other)
  ultimately show ?thesis using apart by (simp add: shm_inv_def pages_ok_def)
qed

lemma give_pages:
  assumes inv: "shm_inv (Some k) s" and k: "k < length (sh_entries s)" "refs (sh_mappings s) k = 0"
  shows "shm_ok (s\<lparr>sh_entries := (sh_entries s)[k := unused_entry],
    sh_pages := set_in_use False (en_page_ids (sh_entries s ! k)) (sh_pages s)\<rparr>)"
proof -
  let ?es = "sh_entries s" and ?pgs = "sh_pages s"
  let ?ids = "en_page_ids (?es ! k)"
  have P: "apart_by entry_pages ?es" "\<forall>e \<in> set ?es. distinct (en_page_ids e)"
    "{i. i < length ?pgs \<and> pg_in_use (?pgs ! i)} = (\<Union>e \<in> set ?es. entry_pages e)"
    using inv by (simp_all add: shm_inv_def pages_ok_def)
  have apart: "apart_by entry_pages (?es[k := unused_entry])"
    by (rule apart_by_update [OF P(1)]) (simp add: entry_pages_def unused_entry_def)
  have U: "(\<Union>i \<in> {..<length ?es} - {k}. entry_pages (?es ! i)) \<union> set ?ids = {i. i < length ?pgs \<and> pg_in_use (?pgs ! i)}"
    using entry_pages_update [OF k(1), of "?es ! k"] P(3) by (simp add: entry_pages_def)
  have D: "(\<Union>i \<in> {..<length ?es} - {k}. entry_pages (?es ! i)) \<inter> set ?ids = {}"
    using apart_byD [OF P(1) _ k(1)] by (fastforce simp: entry_pages_def)
  have "(\<Union>e \<in> set (?es[k := unused_entry]). entry_pages e) = {i. i < length ?pgs \<and> pg_in_use (set_in_use False ?ids ?pgs ! i)}"
  proof -
    let ?V = "\<Union>i \<in> {..<length ?es} - {k}. entry_pages (?es ! i)"
    have "?V = {i. i < length ?pgs \<and> pg_in_use (?pgs ! i)} - set ?ids" using U D by blast
    also have "\<dots> = {i. i < length ?pgs \<and> pg_in_use (set_in_use False ?ids ?pgs ! i)}"
      by (auto simp: set_in_use_nth split: if_splits)
    finally show ?thesis unfolding entry_pages_update [OF k(1)] by (simp add: entry_pages_def unused_entry_def)
  qed
  moreover have "\<forall>e \<in> set (?es[k := unused_entry]). distinct (en_page_ids e)"
    using P(2) by (auto simp: unused_entry_def dest!: set_update_subset_insert [THEN subsetD])
  moreover have "entries_ok None (?es[k := unused_entry]) (sh_mappings s)"
    using inv k(2) by (auto simp: shm_inv_def entry_ok_def unused_entry_def intro: entries_ok_update)
  moreover have "mappings_ok (set_in_use False ?ids ?pgs) (?es[k := unused_entry]) (sh_table s) (sh_mappings s)"
    using inv unreferenced [OF inv k] by (auto simp: shm_inv_def mappings_ok_def intro!: mapping_ok_other)
  ultimately show ?thesis using apart by (simp add: shm_inv_def pages_ok_def)
qed

section \<open>Every step keeps the invariant\<close>

lemma pages_for_unat:
  "pages_for len \<noteq> 0 \<Longrightarrow> unat len + mask 21 < 2 ^ 64 \<and> unat (pages_for len) = (unat len + mask 21) div 2 ^ 21"
proof -
  assume ne: "pages_for len \<noteq> 0"
  have u: "unat (pages_for len) = unat (len + mask 21) div 2 ^ 21" by (simp add: pages_for_def unat_div)
  have m: "unat (mask 21 :: u64) = mask 21" by (simp add: unat_mask mask_eq_exp_minus_1)
  have lt: "unat len + mask 21 < 2 ^ 64"
  proof (rule ccontr)
    assume "\<not> unat len + mask 21 < 2 ^ 64"
    moreover have "unat len < 2 ^ 64" using unsigned_less [of len, where ?'a = nat] by simp
    ultimately have "unat (len + mask 21) < 2 ^ 21"
      by (simp add: unat_word_ariths m mask_eq_exp_minus_1 mod_if) linarith
    then have "unat (pages_for len) = 0" using u by simp
    then show False using ne by (simp add: unat_eq_0)
  qed
  then have "unat (len + mask 21) = unat len + mask 21" by (simp add: unat_add_no_overflow m)
  then show ?thesis using u lt by simp
qed

definition alloc_places :: "shm \<Rightarrow> nat \<times> entry list" where
  "alloc_places s = (let i = first_index (\<lambda>e. en_page_ids e = []) (sh_entries s) in
     (i, if i = length (sh_entries s) then sh_entries s @ [unused_entry] else sh_entries s))"

lemma alloc_place_ok:
  assumes "shm_ok s" "alloc_places s = (i, es)"
  shows "shm_ok (s\<lparr>sh_entries := es\<rparr>)" "i < length es" "en_page_ids (es ! i) = []" "es ! i = unused_entry \<or> i < length (sh_entries s)"
proof -
  have "shm_ok (s\<lparr>sh_entries := es\<rparr>) \<and> i < length es \<and> en_page_ids (es ! i) = [] \<and> (es ! i = unused_entry \<or> i < length (sh_entries s))"
  proof (cases "i = length (sh_entries s)")
    case True
    then show ?thesis using assms grow_entries [OF assms(1)] by (auto simp: alloc_places_def Let_def unused_entry_def)
  next
    case False
    then show ?thesis
      using assms first_index_found [of "\<lambda>e. en_page_ids e = []" "sh_entries s"] by (auto simp: alloc_places_def Let_def)
  qed
  then show "shm_ok (s\<lparr>sh_entries := es\<rparr>)" "i < length es" "en_page_ids (es ! i) = []" "es ! i = unused_entry \<or> i < length (sh_entries s)"
    by blast+
qed

lemma unused_entry_ok: "entry_ok 0 False unused_entry"
  by (simp add: entry_ok_def unused_entry_def)

text \<open>An allocation takes the first free pages of the NUMA domain, if there are enough.\<close>

definition allocated :: "nat \<Rightarrow> u64 \<Rightarrow> nat list \<Rightarrow> shm \<Rightarrow> shm \<Rightarrow> bool" where
  "allocated i len ids s s' \<longleftrightarrow> (let (k, es) = alloc_places s in i = k
     \<and> s' = s\<lparr>sh_entries := es[k := \<lparr>en_refcount = 0, en_to_remove = False, en_length = len, en_num_pages = pages_for len,
         en_page_ids = ids\<rparr>], sh_pages := set_in_use True ids (sh_pages s)\<rparr>)"

lemma shm_alloc_ok:
  assumes inv: "shm_ok s" and node: "node \<noteq> - 1"
  shows "if unat (pages_for len) \<le> length (free_pages node (sh_pages s))
    then \<exists>i s'. shm_alloc sys len node s = Some (Some i, s') \<and> shm_ok s'
      \<and> allocated i len (take (unat (pages_for len)) (free_pages node (sh_pages s))) s s'
    else \<exists>es. shm_alloc sys len node s = Some (None, s\<lparr>sh_entries := es\<rparr>) \<and> shm_ok (s\<lparr>sh_entries := es\<rparr>)"
proof -
  obtain k es where ke: "alloc_places s = (k, es)" by (cases "alloc_places s")
  note A = alloc_place_ok [OF inv ke]
  let ?n = "unat (pages_for len)" and ?free = "free_pages node (sh_pages s)"
  let ?ids = "take ?n ?free"
  have e: "entry_ok 0 False (es ! k)"
    using A(1-3) by (auto simp: shm_inv_def entries_ok_def entry_ok_def)
  then have ek: "en_refcount (es ! k) = 0" "\<not> en_to_remove (es ! k)" using A(3) by (auto simp: entry_ok_def unat_eq_0)
  let ?e = "\<lparr>en_refcount = 0, en_to_remove = False, en_length = len, en_num_pages = pages_for len, en_page_ids = ?ids\<rparr>"
  have ee: "(es ! k)\<lparr>en_length := len, en_num_pages := pages_for len, en_page_ids := ?ids\<rparr> = ?e" using ek by simp
  have run: "shm_alloc sys len node s = (if ?n \<noteq> length ?ids then Some (None, s\<lparr>sh_entries := es[k := unused_entry]\<rparr>)
      else Some (Some k, s\<lparr>sh_entries := es[k := ?e], sh_pages := set_in_use True ?ids (sh_pages s)\<rparr>))"
    using ke node unfolding ee [symmetric] by (auto simp: shm_alloc_def pick_pages_take alloc_places_def Let_def split: if_splits)
  show ?thesis
  proof (cases "?n \<le> length ?free")
    case True
    have free: "\<forall>i \<in> set ?ids. i < length (sh_pages s) \<and> \<not> pg_in_use (sh_pages s ! i)"
      using set_take_subset [of ?n ?free] by (auto simp: free_pages_iff eligible_def dest!: subsetD)
    have ne: "?ids = [] \<longleftrightarrow> pages_for len = 0" using True by (cases "?n") (auto simp: unat_eq_0)
    have "entry_ok 0 False ?e"
      using True ne pages_for_unat [of len] by (auto simp: entry_ok_def)
    then have "shm_ok (s\<lparr>sh_entries := es[k := ?e], sh_pages := set_in_use True ?ids (sh_pages s)\<rparr>)"
      using take_pages [OF A(1), of k ?ids ?e] A(2,3) free by simp
    then show ?thesis using True run ke by (simp add: allocated_def)
  next
    case False
    have "shm_ok (s\<lparr>sh_entries := es[k := unused_entry]\<rparr>)"
      using take_pages [OF A(1), of k "[]" unused_entry] A(2,3) unused_entry_ok by (simp add: unused_entry_def)
    then show ?thesis using False run by (intro if_not_P [THEN iffD2] exI [of _ "es[k := unused_entry]"]) auto
  qed
qed

lemma check_release_ok:
  assumes "shm_inv (Some k) s" "k < length (sh_entries s)" "length (sh_mappings s) < 2 ^ 64"
  shows "\<exists>s'. check_release k s = Some s' \<and> shm_ok s' \<and> sh_mappings s' = sh_mappings s \<and> sh_table s' = sh_table s
    \<and> sh_calls s' = sh_calls s \<and> sh_memory s' = sh_memory s"
proof -
  let ?e = "sh_entries s ! k"
  have e: "entry_ok (refs (sh_mappings s) k) True ?e" using assms by (auto simp: shm_inv_def entries_ok_def)
  show ?thesis
  proof (cases "en_refcount ?e = 0 \<and> en_to_remove ?e")
    case True
    then have r: "refs (sh_mappings s) k = 0" using e by (simp add: entry_ok_def)
    have "take (unat (en_num_pages ?e)) (en_page_ids ?e) = en_page_ids ?e" using e by (simp add: entry_ok_def)
    then show ?thesis using True assms(2) give_pages [OF assms(1,2) r]
      by (simp add: check_release_def elem_at_def Let_def shm_inv_def)
  next
    case False
    moreover have "en_refcount ?e = 0 \<longleftrightarrow> refs (sh_mappings s) k = 0"
      using e unfolding entry_ok_def by (metis unat_eq_0)
    ultimately have "entry_ok (refs (sh_mappings s) k) False ?e" using e by (auto simp: entry_ok_def)
    then have "entries_ok None ((sh_entries s)[k := ?e]) (sh_mappings s)"
      using assms(1) by (intro entries_ok_update [of "Some k"]) (simp_all add: shm_inv_def)
    then have "shm_ok s" using assms(1) by (simp add: shm_inv_def)
    then show ?thesis using False assms(2) by (auto simp: check_release_def elem_at_def)
  qed
qed

end
