(* ===== verification/Shared_Memory_Maps.thy ===== *)
theory Shared_Memory_Maps
  imports Shared_Memory_Inv
begin

text \<open>
  Mapping an entry into the address space and unmapping it: what each does to the table of pages,
  whether calls of the system succeed or fail half way, and that both keep the invariant.
\<close>

lemma check_release_mappings:
  "check_release k (s\<lparr>sh_mappings := ms\<rparr>) = map_option (\<lambda>s. s\<lparr>sh_mappings := ms\<rparr>) (check_release k s)"
  by (auto simp: check_release_def elem_at_def Let_def)

text \<open>What an update of the counts of one entry keeps.\<close>

lemma counts_update:
  assumes inv: "shm_inv waits s" and k: "k < length (sh_entries s)" "waits = None \<or> waits = Some k"
    and e: "en_page_ids e = en_page_ids (sh_entries s ! k)" "entry_ok (refs ms k) waiting e" "waiting \<longrightarrow> waits' = Some k"
    and ms: "\<And>i. i \<noteq> k \<Longrightarrow> refs ms i = refs (sh_mappings s) i" "mappings_ok (sh_pages s) (sh_entries s) t ms"
  shows "shm_inv waits' (s\<lparr>sh_entries := (sh_entries s)[k := e], sh_mappings := ms, sh_table := t\<rparr>)"
proof -
  let ?es = "sh_entries s"
  have P: "apart_by entry_pages ?es" "\<forall>e \<in> set ?es. distinct (en_page_ids e)"
    "{i. i < length (sh_pages s) \<and> pg_in_use (sh_pages s ! i)} = (\<Union>e \<in> set ?es. entry_pages e)"
    using inv by (simp_all add: shm_inv_def pages_ok_def)
  have same: "en_page_ids (?es[k := e] ! i) = en_page_ids (?es ! i)" for i
    using e(1) by (cases "i = k") (simp_all add: k(1))
  then have ids: "map en_page_ids (?es[k := e]) = map en_page_ids ?es" by (intro nth_equalityI) simp_all
  have sets: "set (map en_page_ids (?es[k := e])) = set (map en_page_ids ?es)" by (simp only: ids)
  have "(\<Union>e \<in> set (?es[k := e]). entry_pages e) = (\<Union>xs \<in> set (map en_page_ids (?es[k := e])). set xs)" by (simp add: entry_pages_def)
  also have "\<dots> = (\<Union>e \<in> set ?es. entry_pages e)" unfolding sets by (simp add: entry_pages_def)
  finally have u: "(\<Union>e \<in> set (?es[k := e]). entry_pages e) = (\<Union>e \<in> set ?es. entry_pages e)" .
  have d: "\<forall>e \<in> set (?es[k := e]). distinct (en_page_ids e)"
  proof -
    have "\<forall>xs \<in> set (map en_page_ids (?es[k := e])). distinct xs" unfolding sets using P(2) by simp
    then show ?thesis by simp
  qed
  have "apart_by entry_pages (?es[k := e])" using P(1) by (simp add: apart_by_def entry_pages_def same)
  then have "pages_ok (sh_pages s) (?es[k := e])" using d P(3) u by (simp add: pages_ok_def)
  moreover have "entries_ok waits' (?es[k := e]) ms"
    unfolding entries_ok_def
  proof (intro allI impI)
    fix i assume i: "i < length (?es[k := e])"
    show "entry_ok (refs ms i) (waits' = Some i) (?es[k := e] ! i)"
    proof (cases "i = k")
      case True
      then show ?thesis using e(2,3) k(1) by (cases waiting) (auto simp: entry_ok_def)
    next
      case False
      then have "entry_ok (refs ms i) False (?es ! i)"
        using inv k(2) i ms(1) [OF False] by (auto simp: shm_inv_def entries_ok_def)
      then show ?thesis using False by (auto simp: entry_ok_def)
    qed
  qed
  moreover have "mappings_ok (sh_pages s) (?es[k := e]) t ms"
    using ms(2) by (simp add: mappings_ok_def mapping_ok_def mapping_file_def same)
  ultimately show ?thesis by (simp add: shm_inv_def)
qed

lemma schedule_release_ok:
  assumes inv: "shm_ok s" and k: "k < length (sh_entries s)" and len: "length (sh_mappings s) < 2 ^ 64"
  shows "\<exists>b s'. schedule_release k s = Some (b, s') \<and> shm_ok s' \<and> sh_mappings s' = sh_mappings s \<and> sh_table s' = sh_table s
    \<and> sh_calls s' = sh_calls s \<and> sh_memory s' = sh_memory s"
proof -
  let ?e = "sh_entries s ! k"
  let ?s = "s\<lparr>sh_entries := (sh_entries s)[k := ?e\<lparr>en_to_remove := True\<rparr>]\<rparr>"
  have e: "entry_ok (refs (sh_mappings s) k) False ?e" using inv k by (simp add: shm_inv_def entries_ok_def)
  show ?thesis
  proof (cases "en_page_ids ?e = []")
    case True
    then show ?thesis using inv k by (intro exI [of _ False] exI [of _ s]) (simp add: schedule_release_def elem_at_def)
  next
    case False
    have "entry_ok (refs (sh_mappings s) k) True (?e\<lparr>en_to_remove := True\<rparr>)" using e False by (auto simp: entry_ok_def)
    then have "shm_inv (Some k) (s\<lparr>sh_entries := (sh_entries s)[k := ?e\<lparr>en_to_remove := True\<rparr>],
        sh_mappings := sh_mappings s, sh_table := sh_table s\<rparr>)"
      by (intro counts_update [OF inv k]) (use inv in \<open>simp_all add: shm_inv_def\<close>)
    then have "shm_inv (Some k) ?s" by simp
    from check_release_ok [OF this] obtain s' where "check_release k ?s = Some s'" "shm_ok s'" "sh_mappings s' = sh_mappings s"
      "sh_table s' = sh_table s" "sh_calls s' = sh_calls s" "sh_memory s' = sh_memory s"
      using k len by auto
    then show ?thesis using False k by (intro exI [of _ True] exI [of _ s']) (simp add: schedule_release_def elem_at_def)
  qed
qed

section \<open>Mapping an entry\<close>

definition places_exactly :: "system \<Rightarrow> bool" where
  "places_exactly sys \<longleftrightarrow> (\<forall>n q. sy_map sys n \<noteq> Mapped_elsewhere q)"

lemma map_pages_ok:
  assumes sys: "places_exactly sys" and ids: "unat e \<le> length ids" "\<forall>i \<in> set ids. i < length (sh_pages s)" and "i \<le> e"
  shows "\<exists>ok i' n. map_pages sys ids i e p s = Some (ok, i', s\<lparr>sh_calls := n,
      sh_table := put_pages (map (\<lambda>j. pg_file_id (sh_pages s ! j)) (take (unat i' - unat i) (drop (unat i) ids))) p (sh_table s)\<rparr>)
    \<and> i \<le> i' \<and> i' \<le> e \<and> sh_calls s \<le> n \<and> (ok \<longrightarrow> i' = e) \<and> (ok \<longleftrightarrow> (\<forall>c. sh_calls s \<le> c \<and> c < sh_calls s + (unat e - unat i) \<longrightarrow> sy_map sys c = Mapped_there))"
  using assms(3,4)
proof (induction "unat e - unat i" arbitrary: i p s)
  case 0
  then have "i = e" by (simp add: word_le_nat_alt word_unat_eq_iff)
  then show ?case by (intro exI [of _ True] exI [of _ e] exI [of _ "sh_calls s"]) (auto simp: map_pages.simps [of sys ids e e])
next
  case (Suc d)
  then have lt: "i < e" and ui: "unat i < length ids" and u1: "unat (i + 1) = Suc (unat i)"
    using ids(1) by (simp_all add: word_less_nat_alt unat_Suc_bound [of i e])
  let ?f = "pg_file_id (sh_pages s ! (ids ! unat i))"
  have pg: "ids ! unat i < length (sh_pages s)" using Suc.prems(1) ui by simp
  show ?case
  proof (cases "sy_map sys (sh_calls s) = Mapped_there")
    case True
    let ?s = "s\<lparr>sh_calls := Suc (sh_calls s), sh_table := (sh_table s)(p \<mapsto> ?f)\<rparr>"
    have "d = unat e - unat (i + 1)" "i + 1 \<le> e" using Suc.hyps(2) u1 lt by (simp_all add: word_le_nat_alt word_less_nat_alt)
    from Suc.hyps(1) [OF this(1) _ this(2), of ?s "p + kPageSize"] Suc.prems(1) obtain ok i' n where IH:
      "map_pages sys ids (i + 1) e (p + kPageSize) ?s = Some (ok, i', ?s\<lparr>sh_calls := n,
        sh_table := put_pages (map (\<lambda>j. pg_file_id (sh_pages ?s ! j)) (take (unat i' - unat (i + 1)) (drop (unat (i + 1)) ids)))
          (p + kPageSize) (sh_table ?s)\<rparr>)"
      "i + 1 \<le> i'" "i' \<le> e" "sh_calls ?s \<le> n" "ok \<longrightarrow> i' = e"
      "ok \<longleftrightarrow> (\<forall>c. sh_calls ?s \<le> c \<and> c < sh_calls ?s + (unat e - unat (i + 1)) \<longrightarrow> sy_map sys c = Mapped_there)"
      by auto
    have i': "unat i' - unat i = Suc (unat i' - unat (i + 1))" using IH(2) u1 by (simp add: word_le_nat_alt)
    have dr: "drop (unat i) ids = ids ! unat i # drop (unat (i + 1)) ids" using ui u1 by (simp add: Cons_nth_drop_Suc)
    have all: "(\<forall>c. sh_calls s \<le> c \<and> c < sh_calls s + (unat e - unat i) \<longrightarrow> sy_map sys c = Mapped_there)
      \<longleftrightarrow> (\<forall>c. Suc (sh_calls s) \<le> c \<and> c < Suc (sh_calls s) + (unat e - unat (i + 1)) \<longrightarrow> sy_map sys c = Mapped_there)"
    proof -
      have "(\<forall>c. n \<le> c \<and> c < n + Suc d \<longrightarrow> P c) \<longleftrightarrow> P n \<and> (\<forall>c. Suc n \<le> c \<and> c < Suc n + d \<longrightarrow> P c)" for n d :: nat and P
        by (auto simp: Suc_le_eq) (metis le_neq_implies_less)
      moreover have "unat e - unat i = Suc (unat e - unat (i + 1))" using Suc.hyps(2) u1 by simp
      ultimately show ?thesis using True by simp
    qed
    have step: "map_pages sys ids i e p s = map_pages sys ids (i + 1) e (p + kPageSize) ?s"
      using lt ui pg True by (simp add: map_pages.simps [of sys ids i e p s] elem_at_def)
    have "i \<le> i'" using IH(2) u1 by (simp add: word_le_nat_alt)
    then show ?thesis
      using IH(1,3,4,5,6) all unfolding step dr
      by (intro exI [of _ ok] exI [of _ i'] exI [of _ n]) (simp add: i')
  next
    case False
    then have "sy_map sys (sh_calls s) = Not_opened \<or> sy_map sys (sh_calls s) = Map_failed"
      using sys by (cases "sy_map sys (sh_calls s)") (auto simp: places_exactly_def)
    then have "map_pages sys ids i e p s = Some (False, i, s\<lparr>sh_calls := Suc (sh_calls s)\<rparr>)"
      using lt ui pg by (auto simp: map_pages.simps [of sys ids i e p s] elem_at_def)
    then show ?thesis
      using False Suc.hyps(2) lt
      by (intro exI [of _ False] exI [of _ i] exI [of _ "Suc (sh_calls s)"]) (auto intro!: exI [of _ "sh_calls s"])
  qed
qed

lemma pages_for_small: "unat len + mask 21 < 2 ^ 64 \<Longrightarrow> unat (pages_for len) = (unat len + mask 21) div 2 ^ 21"
proof -
  assume "unat len + mask 21 < 2 ^ 64"
  moreover have "unat (mask 21 :: u64) = mask 21" by (simp add: unat_mask mask_eq_exp_minus_1)
  ultimately have "unat (len + mask 21) = unat len + mask 21" by (simp add: unat_add_no_overflow)
  then show ?thesis by (simp add: pages_for_def unat_div)
qed

text \<open>A range of an entry, in pages.\<close>

lemma range_in_entry:
  assumes e: "entry_ok n w e" "en_page_ids e \<noteq> []" and off: "unat off mod 2 ^ 21 = 0" "unat off + unat len \<le> unat (en_length e)"
  shows "unat (off div kPageSize) = unat off div 2 ^ 21" "unat off div 2 ^ 21 + unat (pages_for len) \<le> length (en_page_ids e)"
    "unat (off div kPageSize + pages_for len) = unat off div 2 ^ 21 + unat (pages_for len)"
    "unat (pages_for len) = (unat len + mask 21) div 2 ^ 21"
proof -
  have E: "unat (en_length e) + mask 21 < 2 ^ 64" "(unat (en_length e) + mask 21) div 2 ^ 21 = length (en_page_ids e)"
      "unat (en_num_pages e) = length (en_page_ids e)"
    using e by (simp_all add: entry_ok_def)
  have len: "unat len + mask 21 < 2 ^ 64" using E(1) off(2) by linarith
  show n: "unat (pages_for len) = (unat len + mask 21) div 2 ^ 21" by (rule pages_for_small [OF len])
  show o: "unat (off div kPageSize) = unat off div 2 ^ 21" by (simp add: unat_div)
  obtain a where a: "unat off = 2 ^ 21 * a" using off(1) by (metis dvdE mod_0_imp_dvd)
  have "(unat off + (unat len + mask 21)) div 2 ^ 21 \<le> (unat (en_length e) + mask 21) div 2 ^ 21"
    using off(2) by (intro div_le_mono) simp
  then show le: "unat off div 2 ^ 21 + unat (pages_for len) \<le> length (en_page_ids e)"
    unfolding n a E(2) by (simp add: div_mult_self4)
  have "length (en_page_ids e) < 2 ^ 64" using E(3) unsigned_less [of "en_num_pages e", where ?'a = nat] by simp
  then show "unat (off div kPageSize + pages_for len) = unat off div 2 ^ 21 + unat (pages_for len)"
    using le o by (subst unat_add_no_overflow) simp_all
qed

lemma in_memory_less: "in_memory p n \<Longrightarrow> m \<le> n \<Longrightarrow> in_memory p m"
  by (auto simp: in_memory_def dest!: mult_le_mono1 [of m n "2 ^ 21"])

lemma mapped_not_fresh:
  assumes "mapping_ok pgs es t m" "in_memory p n" "fresh_pages t p n"
  shows "page_set (mp_addr m) (unat (mp_num_pages m)) \<inter> page_set p n = {}"
proof (rule ccontr)
  assume "\<not> ?thesis"
  then obtain a where "a \<in> page_set (mp_addr m) (unat (mp_num_pages m))" "a \<in> page_set p n" by blast
  then obtain i j where ij: "i < unat (mp_num_pages m)" "j < n" "unat (mp_addr m) div 2 ^ 21 + i = unat p div 2 ^ 21 + j"
    by (intro that [of "a - unat (mp_addr m) div 2 ^ 21" "a - unat p div 2 ^ 21"]) (auto simp: page_set_def)
  have "unat (nth_page (mp_addr m) i) = unat (nth_page p j)"
    using nth_page_number [OF _ ij(1)] nth_page_number [OF assms(2) ij(2)] assms(1) ij(3) by (simp add: mapping_ok_def)
  then have "nth_page (mp_addr m) i = nth_page p j" by (simp add: word_unat_eq_iff)
  then show False using assms(1,3) ij(1,2) by (auto simp: mapping_ok_def fresh_pages_def)
qed

text \<open>The mapping \<open>mid\<close> of the list, unused before.\<close>

lemma add_mapping:
  assumes M: "mappings_ok pgs es t ms" and mid: "mid < length ms" "mp_addr (ms ! mid) = 0"
    and m: "mp_addr m \<noteq> 0" "mp_entry_id m < length es" "in_memory (mp_addr m) (length fs)" "unat (mp_num_pages m) = length fs"
      "unat (mp_page_offset m) + length fs \<le> length (en_page_ids (es ! mp_entry_id m))"
      "\<forall>j<length fs. fs ! j = mapping_file pgs es m j"
    and fresh: "fresh_pages t (mp_addr m) (length fs)"
  shows "mappings_ok pgs es (put_pages fs (mp_addr m) t) (ms[mid := m])"
proof -
  let ?t = "put_pages fs (mp_addr m) t"
  have A: "apart_by mapping_pages ms" and ok: "\<And>x. x \<in> set ms \<Longrightarrow> mp_addr x \<noteq> 0 \<Longrightarrow> mapping_ok pgs es t x"
    using M by (simp_all add: mappings_ok_def)
  have dis: "page_set (mp_addr x) (unat (mp_num_pages x)) \<inter> page_set (mp_addr m) (length fs) = {}"
    if "x \<in> set ms" "mp_addr x \<noteq> 0" for x
    by (rule mapped_not_fresh [OF ok [OF that] m(3) fresh])
  have "apart_by mapping_pages (ms[mid := m])"
    by (rule apart_by_update [OF A]) (use dis m(1,4) in \<open>auto simp: mapping_pages_def\<close>)
  moreover have "mapping_ok pgs es ?t m"
    using m put_pages_at [of "mp_addr m" fs] by (simp add: mapping_ok_def in_memory_def)
  moreover have "mapping_ok pgs es ?t x" if "x \<in> set ms" "mp_addr x \<noteq> 0" for x
  proof -
    note X = ok [OF that]
    have "?t (nth_page (mp_addr x) j) = t (nth_page (mp_addr x) j)" if "j < unat (mp_num_pages x)" for j
      using X nth_page_apart [OF _ m(3) dis [OF \<open>x \<in> set ms\<close> \<open>mp_addr x \<noteq> 0\<close>] that]
      by (intro put_pages_other) (auto simp: mapping_ok_def)
    then show ?thesis using X by (simp add: mapping_ok_def)
  qed
  ultimately show ?thesis
    by (auto simp: mappings_ok_def dest!: set_update_subset_insert [THEN subsetD])
qed

lemma drop_mapping:
  assumes M: "mappings_ok pgs es t ms" and mid: "mid < length ms" "mp_addr (ms ! mid) \<noteq> 0"
  shows "mappings_ok pgs es (unmap_pages (unat (mp_num_pages (ms ! mid))) (mp_addr (ms ! mid)) t) (ms[mid := unused_mapping])"
proof -
  let ?m = "ms ! mid"
  let ?t = "unmap_pages (unat (mp_num_pages ?m)) (mp_addr ?m) t"
  have A: "apart_by mapping_pages ms" and ok: "\<And>x. x \<in> set ms \<Longrightarrow> mp_addr x \<noteq> 0 \<Longrightarrow> mapping_ok pgs es t x"
    using M by (simp_all add: mappings_ok_def)
  have m: "mapping_ok pgs es t ?m" using ok mid by simp
  have "mapping_ok pgs es ?t (ms ! i)" if i: "i < length ms" "i \<noteq> mid" "mp_addr (ms ! i) \<noteq> 0" for i
  proof -
    have X: "mapping_ok pgs es t (ms ! i)" using ok i by simp
    have d: "page_set (mp_addr (ms ! i)) (unat (mp_num_pages (ms ! i))) \<inter> page_set (mp_addr ?m) (unat (mp_num_pages ?m)) = {}"
      using apart_byD [OF A i(1) mid(1) i(2)] i(3) mid(2) by (simp add: mapping_pages_def)
    have "?t (nth_page (mp_addr (ms ! i)) j) = t (nth_page (mp_addr (ms ! i)) j)" if "j < unat (mp_num_pages (ms ! i))" for j
      using X m nth_page_apart [OF _ _ d that] by (auto simp: mapping_ok_def unmap_pages_at)
    then show ?thesis using X by (simp add: mapping_ok_def)
  qed
  moreover have "apart_by mapping_pages (ms[mid := unused_mapping])"
    by (rule apart_by_update [OF A]) (simp add: mapping_pages_def unused_mapping_def)
  moreover have "x = unused_mapping \<or> (\<exists>i<length ms. i \<noteq> mid \<and> x = ms ! i)" if "x \<in> set (ms[mid := unused_mapping])" for x
  proof -
    from that obtain i where "i < length ms" "x = ms[mid := unused_mapping] ! i" by (auto simp: in_set_conv_nth)
    then show ?thesis by (cases "i = mid") auto
  qed
  ultimately have "mapping_ok pgs es ?t x" if "x \<in> set (ms[mid := unused_mapping])" "mp_addr x \<noteq> 0" for x
    using that by (metis (no_types) unused_mapping_def mapping.select_convs(2))
  then show ?thesis using \<open>apart_by mapping_pages (ms[mid := unused_mapping])\<close> by (simp add: mappings_ok_def)
qed

lemma shm_unmap_ok:
  assumes inv: "shm_ok s" and ptr: "ptr \<noteq> 0" and len: "length (sh_mappings s) < 2 ^ 64"
  shows "\<exists>b s'. shm_unmap ptr s = Some (b, s') \<and> shm_ok s' \<and> length (sh_mappings s') = length (sh_mappings s)"
proof -
  let ?ms = "sh_mappings s"
  let ?mid = "first_index (\<lambda>m. mp_addr m = ptr) ?ms"
  show ?thesis
  proof (cases "?mid = length ?ms")
    case True
    then show ?thesis using inv by (intro exI [of _ False] exI [of _ s]) (simp add: shm_unmap_def)
  next
    case False
    then have mid: "?mid < length ?ms" "mp_addr (?ms ! ?mid) = ptr" using first_index_found [OF False] by simp_all
    let ?m = "?ms ! ?mid"
    let ?k = "mp_entry_id ?m"
    let ?e = "sh_entries s ! ?k" and ?t = "unmap_pages (unat (mp_num_pages ?m)) ptr (sh_table s)"
    have M: "mappings_ok (sh_pages s) (sh_entries s) (sh_table s) ?ms" using inv by (simp add: shm_inv_def)
    have k: "?k < length (sh_entries s)" using M mid ptr by (auto simp: mappings_ok_def mapping_ok_def)
    have e: "entry_ok (refs ?ms ?k) False ?e" using inv k by (simp add: shm_inv_def entries_ok_def)
    let ?ms' = "?ms[?mid := unused_mapping]"
    have r: "refs ?ms' i + (if ?k = i then 1 else 0) = refs ?ms i" for i
      using refs_update [OF mid(1), of unused_mapping i] mid(2) ptr by (simp add: unused_mapping_def)
    have "unat (en_refcount ?e - 1) = refs ?ms' ?k"
      using e r [of ?k] by (simp add: entry_ok_def unat_sub_le word_le_nat_alt)
    then have e': "entry_ok (refs ?ms' ?k) True (?e\<lparr>en_refcount := en_refcount ?e - 1\<rparr>)"
      using e r [of ?k] by (auto simp: entry_ok_def split: if_splits)
    have M': "mappings_ok (sh_pages s) (sh_entries s) ?t ?ms'" using drop_mapping [OF M mid(1)] mid(2) ptr by simp
    let ?s = "s\<lparr>sh_entries := (sh_entries s)[?k := ?e\<lparr>en_refcount := en_refcount ?e - 1\<rparr>], sh_mappings := ?ms', sh_table := ?t\<rparr>"
    have r': "refs ?ms' i = refs ?ms i" if "i \<noteq> ?k" for i using r [of i] that by simp
    have "shm_inv (Some ?k) ?s"
      by (rule counts_update [OF inv k _ _ e' _ r' M']) simp_all
    from check_release_ok [OF this] obtain s' where s': "check_release ?k ?s = Some s'" "shm_ok s'" "sh_mappings s' = ?ms'"
      using k len by auto
    let ?u = "s\<lparr>sh_table := ?t, sh_entries := (sh_entries s)[?k := ?e\<lparr>en_refcount := en_refcount ?e - 1\<rparr>]\<rparr>"
    have eq: "?s = ?u\<lparr>sh_mappings := ?ms'\<rparr>" by simp
    have "map_option (\<lambda>s. s\<lparr>sh_mappings := ?ms'\<rparr>) (check_release ?k ?u) = Some s'"
      using s'(1) unfolding eq check_release_mappings .
    then obtain s0 where s0: "check_release ?k ?u = Some s0" "s' = s0\<lparr>sh_mappings := ?ms'\<rparr>" by auto
    have "sh_mappings s0 = ?ms" using s0(1) by (auto simp: check_release_def elem_at_def Let_def split: if_splits)
    then have "shm_unmap ptr s = Some (True, s')"
      using False k s0 by (simp add: shm_unmap_def elem_at_def Let_def)
    then show ?thesis using s'(2,3) by auto
  qed
qed

definition map_places :: "shm \<Rightarrow> nat \<times> mapping list" where
  "map_places s = (let i = first_index (\<lambda>m. mp_addr m = 0) (sh_mappings s) in
     (i, if i = length (sh_mappings s) then sh_mappings s @ [unused_mapping] else sh_mappings s))"

lemma map_place_ok:
  assumes "shm_ok s" "map_places s = (i, ms)"
  shows "shm_ok (s\<lparr>sh_mappings := ms\<rparr>)" "i < length ms" "mp_addr (ms ! i) = 0"
    "length (sh_mappings s) \<le> length ms" "length ms \<le> Suc (length (sh_mappings s))"
proof -
  have "shm_ok (s\<lparr>sh_mappings := ms\<rparr>) \<and> i < length ms \<and> mp_addr (ms ! i) = 0
    \<and> length (sh_mappings s) \<le> length ms \<and> length ms \<le> Suc (length (sh_mappings s))"
  proof (cases "i = length (sh_mappings s)")
    case True
    then show ?thesis using assms grow_mappings [OF assms(1)] by (auto simp: map_places_def Let_def unused_mapping_def)
  next
    case False
    then show ?thesis
      using assms first_index_found [of "\<lambda>m. mp_addr m = 0" "sh_mappings s"] by (auto simp: map_places_def Let_def)
  qed
  then show "shm_ok (s\<lparr>sh_mappings := ms\<rparr>)" "i < length ms" "mp_addr (ms ! i) = 0"
    "length (sh_mappings s) \<le> length ms" "length ms \<le> Suc (length (sh_mappings s))"
    by blast+
qed

text \<open>A map that fails leaves memory as it was; one that succeeds adds a mapping.\<close>

definition same_memory :: "shm \<Rightarrow> shm \<Rightarrow> bool" where
  "same_memory s s' \<longleftrightarrow> sh_table s' = sh_table s \<and> sh_entries s' = sh_entries s \<and> sh_pages s' = sh_pages s \<and> sh_memory s' = sh_memory s
     \<and> (sh_mappings s' = sh_mappings s \<or> sh_mappings s' = snd (map_places s))"

definition entry_files :: "shm \<Rightarrow> nat \<Rightarrow> nat \<Rightarrow> nat \<Rightarrow> u64 list" where
  "entry_files s k from n = map (\<lambda>i. pg_file_id (sh_pages s ! i)) (take n (drop from (en_page_ids (sh_entries s ! k))))"

definition mapped :: "nat \<Rightarrow> u64 \<Rightarrow> u64 \<Rightarrow> u64 \<Rightarrow> shm \<Rightarrow> shm \<Rightarrow> bool" where
  "mapped k ptr off len s s' \<longleftrightarrow> (\<exists>calls. s' = register_mapping (fst (map_places s)) k ptr len (off div kPageSize) (pages_for len)
     (sh_entries s ! k) (s\<lparr>sh_mappings := snd (map_places s), sh_calls := calls,
       sh_table := put_pages (entry_files s k (unat off div 2 ^ 21) (unat (pages_for len))) ptr (sh_table s)\<rparr>))"

definition all_mapped :: "system \<Rightarrow> nat \<Rightarrow> nat \<Rightarrow> bool" where
  "all_mapped sys c n \<longleftrightarrow> (\<forall>i. c \<le> i \<and> i < c + n \<longrightarrow> sy_map sys i = Mapped_there)"

lemma register_mapping_ok:
  assumes inv: "shm_ok s" and k: "k < length (sh_entries s)" "en_page_ids (sh_entries s ! k) \<noteq> []"
    and ptr: "ptr \<noteq> 0" "in_memory ptr (unat (pages_for len))" "fresh_pages (sh_table s) ptr (unat (pages_for len))"
    and off: "unat off mod 2 ^ 21 = 0" "unat off + unat len \<le> unat (en_length (sh_entries s ! k))"
    and few: "length (sh_mappings s) < 2 ^ 64 - 1"
    and m: "mapped k ptr off len s s'"
  shows "shm_ok s'"
proof -
  obtain mid ms where mm: "map_places s = (mid, ms)" by (cases "map_places s")
  note G = map_place_ok [OF inv mm]
  let ?e = "sh_entries s ! k" and ?n = "unat (pages_for len)" and ?pgs = "sh_pages s" and ?es = "sh_entries s"
  let ?fs = "entry_files s k (unat off div 2 ^ 21) ?n"
  let ?m = "\<lparr>mp_entry_id = k, mp_addr = ptr, mp_length = len, mp_page_offset = off div kPageSize, mp_num_pages = pages_for len\<rparr>"
  have e: "entry_ok (refs ms k) False ?e" using G(1) k(1) by (simp add: shm_inv_def entries_ok_def)
  note R = range_in_entry [OF e k(2) off]
  have fs: "length ?fs = ?n" using R(2) by (simp add: entry_files_def)
  have M: "mappings_ok ?pgs ?es (put_pages ?fs (mp_addr ?m) (sh_table s)) (ms[mid := ?m])"
  proof (rule add_mapping [OF _ G(2,3)])
    show "mappings_ok ?pgs ?es (sh_table s) ms" using G(1) by (simp add: shm_inv_def)
    show "\<forall>j<length ?fs. ?fs ! j = mapping_file ?pgs ?es ?m j"
      using R(1,2) fs by (simp add: mapping_file_def entry_files_def)
  qed (use ptr k fs R in simp_all)
  have r: "refs (ms[mid := ?m]) i = refs ms i + (if k = i then 1 else 0)" for i
    using refs_update [OF G(2), of ?m i] G(3) ptr(1) by simp
  have "refs ms k < 2 ^ 64 - 1"
  proof -
    have "refs ms k = refs (sh_mappings s) k"
      using mm by (auto simp: map_places_def Let_def refs_def unused_mapping_def split: if_splits)
    then show ?thesis using refs_le [of "sh_mappings s" k] few by linarith
  qed
  then have "unat (en_refcount ?e + 1) = Suc (refs ms k)" using e by (subst unat_add_no_overflow) (simp_all add: entry_ok_def)
  then have e': "entry_ok (refs (ms[mid := ?m]) k) False (?e\<lparr>en_refcount := en_refcount ?e + 1\<rparr>)"
    using e k(2) r [of k] by (auto simp: entry_ok_def)
  have r': "refs (ms[mid := ?m]) i = refs (sh_mappings (s\<lparr>sh_mappings := ms\<rparr>)) i" if "i \<noteq> k" for i using r [of i] that by simp
  have "shm_ok ((s\<lparr>sh_mappings := ms\<rparr>)\<lparr>sh_entries := (sh_entries (s\<lparr>sh_mappings := ms\<rparr>))[k := ?e\<lparr>en_refcount := en_refcount ?e + 1\<rparr>],
      sh_mappings := ms[mid := ?m], sh_table := put_pages ?fs ptr (sh_table s)\<rparr>)"
    by (rule counts_update [OF G(1) _ _ _ e' _ r']) (use k M in simp_all)
  then show ?thesis using m mm by (auto simp: mapped_def register_mapping_def shm_inv_def)
qed

lemma shm_map_ok:
  assumes inv: "shm_ok s" and sys: "places_exactly sys" and k: "k < length (sh_entries s)"
    and ptr: "ptr \<noteq> 0" "unat ptr + unat (pages_for len) * 2 ^ 21 \<le> 2 ^ 64" "fresh_pages (sh_table s) ptr (unat (pages_for len))"
    and nowrap: "unat off + unat len < 2 ^ 64" and few: "length (sh_mappings s) < 2 ^ 64 - 1"
  shows "\<exists>b s'. shm_map sys k ptr off len s = Some (b, s') \<and> shm_ok s' \<and> (if b then mapped k ptr off len s s' else same_memory s s')
    \<and> sh_calls s \<le> sh_calls s'
    \<and> (unat ptr mod 2 ^ 21 = 0 \<and> unat off mod 2 ^ 21 = 0 \<and> en_page_ids (sh_entries s ! k) \<noteq> []
        \<and> unat off + unat len \<le> unat (en_length (sh_entries s ! k))
      \<longrightarrow> b = all_mapped sys (sh_calls s) (unat (pages_for len)))"
proof -
  let ?e = "sh_entries s ! k" and ?n = "unat (pages_for len)" and ?po = "off div kPageSize"
  have sum: "unat (off + len) = unat off + unat len" using nowrap by (simp add: unat_add_no_overflow)
  have gt: "en_length ?e < off + len \<longleftrightarrow> unat (en_length ?e) < unat off + unat len"
    "en_length ?e < off \<longleftrightarrow> unat (en_length ?e) < unat off"
    by (simp_all add: word_less_nat_alt sum)
  show ?thesis
  proof (cases "unat ptr mod 2 ^ 21 = 0 \<and> unat off mod 2 ^ 21 = 0 \<and> en_page_ids ?e \<noteq> [] \<and> unat off + unat len \<le> unat (en_length ?e)")
    case False
    then have "shm_map sys k ptr off len s = Some (False, s)"
      using k by (auto simp: shm_map_def aligned_iff [simplified] elem_at_def gt)
    then show ?thesis using False inv by (intro exI [of _ False] exI [of _ s]) (auto simp: same_memory_def)
  next
    case True
    obtain mid ms where mm: "map_places s = (mid, ms)" by (cases "map_places s")
    note G = map_place_ok [OF inv mm]
    let ?s = "s\<lparr>sh_mappings := ms\<rparr>"
    have e: "entry_ok (refs (sh_mappings s) k) False ?e" using inv k by (simp add: shm_inv_def entries_ok_def)
    have pok: "pages_ok (sh_pages s) (sh_entries s)" using inv by (simp add: shm_inv_def)
    have ids: "\<forall>i \<in> set (en_page_ids ?e). i < length (sh_pages ?s)"
    proof -
      have "entry_pages ?e \<subseteq> (\<Union>e \<in> set (sh_entries s). entry_pages e)" using k by (auto intro: nth_mem)
      then show ?thesis using pok unfolding pages_ok_def by (auto simp: entry_pages_def)
    qed
    note R = range_in_entry [OF e, of off len]
    have R': "unat ?po = unat off div 2 ^ 21" "unat off div 2 ^ 21 + ?n \<le> length (en_page_ids ?e)"
      "unat (?po + pages_for len) = unat off div 2 ^ 21 + ?n"
      using R True by simp_all
    have im: "in_memory ptr ?n" using True ptr(2) by (simp add: in_memory_def)
    have "?po \<le> ?po + pages_for len" using R' by (simp add: word_le_nat_alt)
    moreover have "unat (?po + pages_for len) \<le> length (en_page_ids ?e)" using R' by simp
    ultimately obtain ok i' c where mp: "map_pages sys (en_page_ids ?e) ?po (?po + pages_for len) ptr ?s
        = Some (ok, i', ?s\<lparr>sh_calls := c, sh_table := put_pages (map (\<lambda>j. pg_file_id (sh_pages ?s ! j))
            (take (unat i' - unat ?po) (drop (unat ?po) (en_page_ids ?e)))) ptr (sh_table ?s)\<rparr>)"
      "?po \<le> i'" "i' \<le> ?po + pages_for len" "sh_calls s \<le> c" "ok \<longrightarrow> i' = ?po + pages_for len"
      "ok \<longleftrightarrow> (\<forall>c. sh_calls ?s \<le> c \<and> c < sh_calls ?s + (unat (?po + pages_for len) - unat ?po) \<longrightarrow> sy_map sys c = Mapped_there)"
      using map_pages_ok [OF sys _ ids, of "?po + pages_for len" ?po ptr] by auto
    have okall: "ok = all_mapped sys (sh_calls s) ?n" using mp(6) R' by (simp add: all_mapped_def)
    have run: "shm_map sys k ptr off len s = (if \<not> ok then Some (False, ?s\<lparr>sh_calls := c, sh_table := unmap_pages (unat (i' - ?po)) ptr
          (put_pages (entry_files s k (unat ?po) (unat i' - unat ?po)) ptr (sh_table s))\<rparr>)
        else Some (True, register_mapping mid k ptr len ?po (pages_for len) ?e (?s\<lparr>sh_calls := c,
          sh_table := put_pages (entry_files s k (unat ?po) (unat i' - unat ?po)) ptr (sh_table s)\<rparr>)))"
      using True k mm mp(1)
      by (auto simp: shm_map_def aligned_iff [simplified] elem_at_def gt map_places_def Let_def entry_files_def)
    show ?thesis
    proof (cases ok)
      case True
      then have i': "unat i' - unat ?po = ?n" using mp(5) R' by simp
      let ?r = "register_mapping mid k ptr len ?po (pages_for len) ?e (?s\<lparr>sh_calls := c,
          sh_table := put_pages (entry_files s k (unat ?po) (unat i' - unat ?po)) ptr (sh_table s)\<rparr>)"
      have m: "mapped k ptr off len s ?r" using mm R'(1) i' by (auto simp: mapped_def)
      have "shm_ok ?r"
        by (rule register_mapping_ok [OF inv k _ ptr(1) im ptr(3) _ _ few m]) (use \<open>unat ptr mod 2 ^ 21 = 0 \<and> _\<close> in simp_all)
      moreover have "sh_calls ?r = c" by (simp add: register_mapping_def)
      ultimately show ?thesis using run True m okall mp(4) by (intro exI [of _ True] exI [of _ ?r]) simp
    next
      case False
      let ?d = "unat i' - unat ?po"
      have d: "unat (i' - ?po) = ?d" "?d \<le> ?n" using mp(2,3) R' by (simp_all add: unat_sub_le word_le_nat_alt)
      have len: "length (entry_files s k (unat ?po) ?d) = ?d" using d(2) R' by (simp add: entry_files_def)
      have "unmap_pages (length (entry_files s k (unat ?po) ?d)) ptr (put_pages (entry_files s k (unat ?po) ?d) ptr (sh_table s)) = sh_table s"
        by (rule unmap_put_pages) (use im ptr(3) d(2) len in \<open>auto simp: fresh_pages_def intro: in_memory_less\<close>)
      then have t: "unmap_pages (unat (i' - ?po)) ptr (put_pages (entry_files s k (unat ?po) ?d) ptr (sh_table s)) = sh_table s"
        by (simp only: len d(1))
      let ?r = "?s\<lparr>sh_calls := c, sh_table := sh_table s\<rparr>"
      have "shm_map sys k ptr off len s = Some (False, ?r)" using run False t by simp
      moreover have "shm_ok ?r" using G(1) by (simp add: shm_inv_def)
      ultimately show ?thesis using False okall mm mp(4) by (intro exI [of _ False] exI [of _ ?r]) (simp add: same_memory_def)
    qed
  qed
qed

end
