(* ===== verification/Shared_Memory_Blocks.thy ===== *)
theory Shared_Memory_Blocks
  imports Shared_Memory_Maps
begin

text \<open>
  Blocks: an allocation that succeeds gives a block of its own, at addresses that no mapping had,
  with the pages of its entry behind it; freeing it gives the pages back; and both leave the other
  blocks alone. What is relied on of the system is \<open>system_ok\<close>: a new mapping of anonymous memory is
  where nothing is mapped, and a page that is mapped at a free address lands there or not at all.
\<close>

section \<open>The list of mappings never shrinks\<close>

definition shm_grows :: "shm \<Rightarrow> shm \<Rightarrow> bool" where
  "shm_grows s s' \<longleftrightarrow> length (sh_mappings s) \<le> length (sh_mappings s')"

lemma shm_grows_refl [simp]: "shm_grows s s" and shm_grows_trans: "shm_grows a b \<Longrightarrow> shm_grows b c \<Longrightarrow> shm_grows a c"
  by (simp_all add: shm_grows_def)

lemma check_release_grows: "check_release k s = Some s' \<Longrightarrow> sh_mappings s' = sh_mappings s"
  by (auto simp: check_release_def elem_at_def Let_def split: if_splits)

lemma schedule_release_grows: "schedule_release k s = Some (b, s') \<Longrightarrow> sh_mappings s' = sh_mappings s"
  by (auto simp: schedule_release_def elem_at_def dest!: check_release_grows split: if_splits Option.bind_splits)

lemma map_pages_grows: "map_pages sys ids i e p s = Some (ok, i', s') \<Longrightarrow> sh_mappings s' = sh_mappings s"
proof (induction sys ids i e p s rule: map_pages.induct)
  case (1 sys ids i e p s)
  show ?case
  proof (cases "sy_map sys (sh_calls s) = Mapped_there \<and> i < e \<and> unat i < length ids \<and> ids ! unat i < length (sh_pages s)")
    case True
    then show ?thesis using 1 by (simp add: map_pages.simps [of sys ids i e p s] elem_at_def)
  next
    case False
    then show ?thesis using "1.prems"
      by (auto simp: map_pages.simps [of sys ids i e p s] elem_at_def Let_def split: if_splits map_outcome.splits)
  qed
qed

lemma shm_map_grows: "shm_map sys k ptr off len s = Some (b, s') \<Longrightarrow> shm_grows s s'"
  by (auto simp: shm_map_def Let_def shm_grows_def register_mapping_def split: if_splits Option.bind_splits dest!: map_pages_grows)

lemma shm_alloc_grows: "shm_alloc sys len node s = Some (r, s') \<Longrightarrow> sh_mappings s' = sh_mappings s"
  by (auto simp: shm_alloc_def Let_def split: if_splits Option.bind_splits)

lemma shm_unmap_grows: "shm_unmap ptr s = Some (b, s') \<Longrightarrow> shm_grows s s'"
  by (auto simp: shm_unmap_def Let_def shm_grows_def dest!: check_release_grows split: if_splits Option.bind_splits)

lemma find_free_mappings: "find_free_address sys sz s = (p, s') \<Longrightarrow> s' = s\<lparr>sh_calls := Suc (sh_calls s)\<rparr>"
  by (auto simp: find_free_address_def)

text \<open>One round of the loop of \<^const>\<open>map_contiguous\<close>.\<close>

definition contiguous_round ::
  "(system \<Rightarrow> nat \<Rightarrow> u64 \<Rightarrow> shm \<Rightarrow> (u64 \<times> shm) option) \<Rightarrow> system \<Rightarrow> nat \<Rightarrow> u64 \<Rightarrow> shm \<Rightarrow> (u64 \<times> shm) option" where
  "contiguous_round f sys k sz s = (let (p, s) = find_free_address sys sz s in
      if p = 0 then do { (_, s) \<leftarrow> schedule_release k s; Some (0, s) }
      else do {
        (ok, s) \<leftarrow> shm_map sys k p 0 sz s;
        if ok then do { (_, s) \<leftarrow> schedule_release k s; Some (p, s) }
        else f sys k sz s
      })"

lemma contiguous_unfold: "map_contiguous sys k sz s = contiguous_round map_contiguous sys k sz s"
  unfolding contiguous_round_def by (rule map_contiguous.simps)

lemmas contiguous_induct = map_contiguous.raw_induct [folded contiguous_round_def, rotated]

lemma contiguous_round_grows:
  assumes IH: "\<And>sys k sz s r. f sys k sz s = Some r \<Longrightarrow> shm_grows s (snd r)" and body: "contiguous_round f sys k sz s = Some r"
  shows "shm_grows s (snd r)"
proof -
  obtain q s1 where q: "find_free_address sys sz s = (q, s1)" by (cases "find_free_address sys sz s")
  have g: "shm_grows s s1" using find_free_mappings [OF q] by (simp add: shm_grows_def)
  have rel: "shm_grows a b" if "schedule_release k a = Some (x, b)" for a b x using schedule_release_grows [OF that] by (simp add: shm_grows_def)
  have "shm_grows s1 (snd r)"
    using body q by (auto simp: contiguous_round_def split: if_splits Option.bind_splits dest!: rel shm_map_grows) (metis shm_grows_trans IH snd_conv)+
  then show ?thesis by (rule shm_grows_trans [OF g])
qed

section \<open>The system\<close>

text \<open>
  Anonymous memory is put where no page is mapped, and a file is mapped at the address asked for
  or not at all (\<^verbatim>\<open>MAP_FIXED\<close>).
\<close>

definition finds_room :: "system \<Rightarrow> bool" where
  "finds_room sys \<longleftrightarrow> (\<forall>n t len p. sy_place sys n t len = Some p \<longrightarrow> p \<noteq> 0 \<and> unat p + unat len \<le> 2 ^ 64
     \<and> (\<forall>a. unat p \<le> a * 2 ^ 21 \<and> a * 2 ^ 21 < unat p + unat len \<longrightarrow> t (of_nat (a * 2 ^ 21)) = None))"

definition system_ok :: "system \<Rightarrow> bool" where
  "system_ok sys \<longleftrightarrow> places_exactly sys \<and> finds_room sys"

lemma find_free_ok:
  assumes sys: "system_ok sys" and sz: "unat sz + 2 ^ 21 < 2 ^ 64" and f: "find_free_address sys sz s = (p, s')" and p: "p \<noteq> 0"
    and n: "n * 2 ^ 21 \<le> unat sz"
  shows "in_memory p n" "fresh_pages (sh_table s) p n" "unat p mod 2 ^ 21 = 0" "unat p + unat sz \<le> 2 ^ 64"
proof -
  obtain q where q: "sy_place sys (sh_calls s) (sh_table s) (sz + kPageSize) = Some q" "p = (q + mask 21) AND NOT (mask 21)"
    using f p by (auto simp: find_free_address_def split: option.splits)
  have len: "unat (sz + kPageSize) = unat sz + 2 ^ 21" using sz by (simp add: unat_add_no_overflow)
  have Q: "q \<noteq> 0" "unat q + (unat sz + 2 ^ 21) \<le> 2 ^ 64"
    "\<And>a. unat q \<le> a * 2 ^ 21 \<Longrightarrow> a * 2 ^ 21 < unat q + (unat sz + 2 ^ 21) \<Longrightarrow> sh_table s (of_nat (a * 2 ^ 21)) = None"
    using sys q(1) len unfolding system_ok_def finds_room_def by (metis, metis, metis)
  have m: "unat (mask 21 :: u64) = 2 ^ 21 - 1" by (simp add: unat_mask)
  have x: "unat (q + mask 21) = unat q + (2 ^ 21 - 1)" using Q(2) m by (simp add: unat_add_no_overflow)
  have up: "unat p = (unat q + (2 ^ 21 - 1)) div 2 ^ 21 * 2 ^ 21"
    unfolding q(2) unat_and_not_mask x by (simp only: minus_mod_eq_div_mult)
  note B = ceil_mult_bounds [of "2 ^ 21" "unat q"]
  have lo: "unat q \<le> unat p" "unat p < unat q + 2 ^ 21" using B unfolding up by simp_all
  show al: "unat p mod 2 ^ 21 = 0" unfolding up by simp
  show hi: "unat p + unat sz \<le> 2 ^ 64" using lo(2) Q(2) by linarith
  then show im: "in_memory p n" using al n by (simp add: in_memory_def)
  show "fresh_pages (sh_table s) p n"
    unfolding fresh_pages_def
  proof (intro allI impI)
    fix j assume j: "j < n"
    let ?a = "unat p div 2 ^ 21 + j"
    have a: "unat (nth_page p j) = ?a * 2 ^ 21" by (rule nth_page_number [OF im j])
    have pa: "?a * 2 ^ 21 = unat p + j * 2 ^ 21" using al by (auto simp: add_mult_distrib)
    have "Suc j * 2 ^ 21 \<le> n * 2 ^ 21" using j by (intro mult_le_mono1) simp
    then have "?a * 2 ^ 21 < unat q + (unat sz + 2 ^ 21)" "unat q \<le> ?a * 2 ^ 21" using lo n unfolding pa by simp_all
    then have "sh_table s (of_nat (?a * 2 ^ 21)) = None" using Q(3) by blast
    then show "sh_table s (nth_page p j) = None" unfolding a [symmetric] by simp
  qed
qed

section \<open>What an operation on one entry leaves alone\<close>

definition others :: "nat \<Rightarrow> shm \<Rightarrow> shm \<Rightarrow> bool" where
  "others k s s' \<longleftrightarrow> length (sh_entries s) \<le> length (sh_entries s')
     \<and> (\<forall>j<length (sh_entries s'). j \<noteq> k \<longrightarrow> (if j < length (sh_entries s) then sh_entries s' ! j = sh_entries s ! j
          else en_page_ids (sh_entries s' ! j) = []))
     \<and> (\<forall>j. j \<noteq> k \<longrightarrow> refs (sh_mappings s') j = refs (sh_mappings s) j)
     \<and> (\<forall>i<length (sh_mappings s). mp_addr (sh_mappings s ! i) \<noteq> 0 \<and> mp_entry_id (sh_mappings s ! i) \<noteq> k
          \<longrightarrow> i < length (sh_mappings s') \<and> sh_mappings s' ! i = sh_mappings s ! i)
     \<and> length (sh_pages s') = length (sh_pages s) \<and> (\<forall>i. pg_file_id (sh_pages s' ! i) = pg_file_id (sh_pages s ! i))"

lemma others_refl [simp]: "others k s s"
  by (simp add: others_def)

lemma others_trans: "others k a b \<Longrightarrow> others k b c \<Longrightarrow> others k a c"
  unfolding others_def by (auto split: if_splits) (metis order_less_le_trans)+

definition mark_released :: "nat \<Rightarrow> shm \<Rightarrow> shm" where
  "mark_released k s = s\<lparr>sh_entries := (sh_entries s)[k := (sh_entries s ! k)\<lparr>en_to_remove := True\<rparr>]\<rparr>"

definition give_back :: "nat \<Rightarrow> shm \<Rightarrow> shm" where
  "give_back k s = s\<lparr>sh_pages := set_in_use False (en_page_ids (sh_entries s ! k)) (sh_pages s),
     sh_entries := (sh_entries s)[k := unused_entry]\<rparr>"

lemma check_release_cases:
  assumes "k < length (sh_entries s)" "unat (en_num_pages (sh_entries s ! k)) = length (en_page_ids (sh_entries s ! k))"
  shows "check_release k s = Some (if en_refcount (sh_entries s ! k) = 0 \<and> en_to_remove (sh_entries s ! k) then give_back k s else s)"
  using assms by (simp add: check_release_def elem_at_def Let_def give_back_def unused_entry_def)

lemma schedule_release_cases:
  assumes "k < length (sh_entries s)" "en_page_ids (sh_entries s ! k) \<noteq> []"
    and "unat (en_num_pages (sh_entries s ! k)) = length (en_page_ids (sh_entries s ! k))"
  shows "schedule_release k s = Some (True, if en_refcount (sh_entries s ! k) = 0 then give_back k s else mark_released k s)"
proof -
  have "give_back k (mark_released k s) = give_back k s" using assms(1) by (simp add: give_back_def mark_released_def)
  then show ?thesis
    using assms check_release_cases [of k "mark_released k s"]
    by (simp add: schedule_release_def elem_at_def) (simp add: mark_released_def)
qed

lemma others_give_back: "others k s (give_back k s)"
  by (auto simp: others_def give_back_def)

lemma others_mark_released: "others k s (mark_released k s)"
  by (auto simp: others_def mark_released_def)

lemma refs_grown [simp]: "refs (ms @ [unused_mapping]) i = refs ms i"
  by (simp add: refs_def unused_mapping_def)

lemma map_places_refs: "map_places s = (mid, ms) \<Longrightarrow> refs ms i = refs (sh_mappings s) i"
  by (auto simp: map_places_def Let_def split: if_splits)

lemma map_places_nth: "map_places s = (mid, ms) \<Longrightarrow> i < length (sh_mappings s) \<Longrightarrow> ms ! i = sh_mappings s ! i \<and> i < length ms"
  by (auto simp: map_places_def Let_def nth_append split: if_splits)

lemma others_same_memory:
  assumes "same_memory s s'"
  shows "others k s s'"
proof -
  obtain mid ms where mm: "map_places s = (mid, ms)" by (cases "map_places s")
  then show ?thesis
    using assms map_places_refs [OF mm] map_places_nth [OF mm] by (auto simp: others_def same_memory_def)
qed

lemma others_mapped:
  assumes "shm_ok s" "mapped k ptr off len s s'"
  shows "others k s s'"
proof -
  obtain mid ms where mm: "map_places s = (mid, ms)" by (cases "map_places s")
  note G = map_place_ok [OF assms(1) mm]
  let ?m = "\<lparr>mp_entry_id = k, mp_addr = ptr, mp_length = len, mp_page_offset = off div kPageSize, mp_num_pages = pages_for len\<rparr>"
  obtain calls t where s': "s' = register_mapping mid k ptr len (off div kPageSize) (pages_for len)
     (sh_entries s ! k) (s\<lparr>sh_mappings := ms, sh_calls := calls, sh_table := t\<rparr>)"
    using assms(2) mm by (auto simp: mapped_def)
  have "refs (ms[mid := ?m]) j = refs (sh_mappings s) j" if "j \<noteq> k" for j
    using refs_update [OF G(2), of ?m j] G(3) that map_places_refs [OF mm, of j] by simp
  moreover have "i < length (ms[mid := ?m]) \<and> ms[mid := ?m] ! i = sh_mappings s ! i"
    if "i < length (sh_mappings s)" "mp_addr (sh_mappings s ! i) \<noteq> 0" for i
    using map_places_nth [OF mm that(1)] that(2) G(3) by (cases "i = mid") auto
  ultimately show ?thesis by (auto simp: others_def s' register_mapping_def)
qed

lemma others_allocated:
  assumes "shm_ok s" "allocated k len ids s s'"
  shows "others k s s'"
  using assms alloc_place_ok(2) [OF assms(1)]
  by (auto simp: others_def allocated_def alloc_places_def Let_def nth_append split: if_splits prod.splits)

section \<open>Blocks\<close>

text \<open>The block at \<open>p\<close> over the files \<open>fs\<close>, in the mapping \<open>mid\<close>: all of an entry, which goes with it.\<close>

definition block_at :: "shm \<Rightarrow> u64 \<Rightarrow> u64 list \<Rightarrow> nat \<Rightarrow> nat \<Rightarrow> bool" where
  "block_at s p fs mid k \<longleftrightarrow> mid < length (sh_mappings s) \<and> k < length (sh_entries s)
     \<and> (let m = sh_mappings s ! mid; e = sh_entries s ! k in
        mp_entry_id m = k \<and> mp_addr m = p \<and> p \<noteq> 0 \<and> unat (mp_page_offset m) = 0 \<and> unat (mp_num_pages m) = length fs
        \<and> en_to_remove e \<and> refs (sh_mappings s) k = 1 \<and> fs \<noteq> [] \<and> fs = map (\<lambda>i. pg_file_id (sh_pages s ! i)) (en_page_ids e))"

lemma block_others:
  assumes b: "block_at s p fs mid j" and o: "others k s s'" "j \<noteq> k"
  shows "block_at s' p fs mid j"
proof -
  have B: "mid < length (sh_mappings s)" "j < length (sh_entries s)" "mp_entry_id (sh_mappings s ! mid) = j"
    "mp_addr (sh_mappings s ! mid) = p" "p \<noteq> 0"
    using b by (simp_all add: block_at_def Let_def)
  have "mid < length (sh_mappings s') \<and> sh_mappings s' ! mid = sh_mappings s ! mid"
    using o B by (auto simp: others_def)
  moreover have "j < length (sh_entries s') \<and> sh_entries s' ! j = sh_entries s ! j" using o B by (auto simp: others_def)
  moreover have "refs (sh_mappings s') j = refs (sh_mappings s) j" using o by (auto simp: others_def)
  moreover have "pg_file_id (sh_pages s' ! i) = pg_file_id (sh_pages s ! i)" for i using o(1) by (simp add: others_def)
  ultimately show ?thesis using b by (auto simp: block_at_def Let_def)
qed

lemma block_table:
  assumes "shm_ok s" "block_at s p fs mid k" "j < length fs"
  shows "sh_table s (nth_page p j) = Some (fs ! j)"
proof -
  let ?m = "sh_mappings s ! mid"
  have "mapping_ok (sh_pages s) (sh_entries s) (sh_table s) ?m"
    using assms(1,2) by (auto simp: shm_inv_def mappings_ok_def block_at_def Let_def)
  moreover have "mp_addr ?m = p" "unat (mp_num_pages ?m) = length fs" "mp_entry_id ?m = k" "unat (mp_page_offset ?m) = 0"
    "fs = map (\<lambda>i. pg_file_id (sh_pages s ! i)) (en_page_ids (sh_entries s ! k))"
    using assms(2) by (simp_all add: block_at_def Let_def)
  ultimately show ?thesis using assms(3) by (auto simp: mapping_ok_def mapping_file_def)
qed

lemma refs_one:
  assumes "refs ms k = 1" "i < length ms" "j < length ms" "mp_addr (ms ! i) \<noteq> 0" "mp_entry_id (ms ! i) = k"
    "mp_addr (ms ! j) \<noteq> 0" "mp_entry_id (ms ! j) = k"
  shows "i = j"
proof (rule ccontr)
  assume ne: "i \<noteq> j"
  have "refs (ms[i := unused_mapping]) k = 0"
    using refs_update [OF assms(2), of unused_mapping k] assms(1,4,5) by (simp add: unused_mapping_def)
  moreover have "ms ! j \<in> set (ms[i := unused_mapping])" using assms(3) ne by (metis length_list_update nth_list_update_neq nth_mem)
  ultimately show False using refs_pos [of "ms ! j" "ms[i := unused_mapping]"] assms(6,7) by simp
qed

section \<open>Mapping a block\<close>

text \<open>An entry of \<open>sz\<close> bytes that no mapping refers to yet.\<close>

definition pending :: "nat \<Rightarrow> u64 \<Rightarrow> shm \<Rightarrow> bool" where
  "pending k sz s \<longleftrightarrow> shm_ok s \<and> k < length (sh_entries s) \<and> unat sz mod 2 ^ 21 = 0 \<and> unat sz + 2 ^ 21 < 2 ^ 64
     \<and> (let e = sh_entries s ! k in en_page_ids e \<noteq> [] \<and> \<not> en_to_remove e \<and> refs (sh_mappings s) k = 0 \<and> en_length e = sz)"

lemma pages_for_aligned: "unat sz mod 2 ^ 21 = 0 \<Longrightarrow> unat sz + 2 ^ 21 < 2 ^ 64 \<Longrightarrow> unat (pages_for sz) = unat sz div 2 ^ 21"
proof -
  assume a: "unat sz mod 2 ^ 21 = 0" "unat sz + 2 ^ 21 < 2 ^ 64"
  have "unat (pages_for sz) = (unat sz + mask 21) div 2 ^ 21" by (rule pages_for_small) (use a(2) in \<open>simp add: mask_eq_exp_minus_1\<close>)
  moreover obtain q where "unat sz = 2 ^ 21 * q" using a(1) by (metis dvdE mod_0_imp_dvd)
  moreover have "(mask 21 :: nat) < 2 ^ 21" by (simp add: mask_eq_exp_minus_1)
  ultimately show ?thesis by (simp add: div_mult_self4)
qed

lemma pending_entry:
  assumes "pending k sz s"
  shows "entry_ok 0 False (sh_entries s ! k)" "en_refcount (sh_entries s ! k) = 0"
    "length (en_page_ids (sh_entries s ! k)) = unat (pages_for sz)"
    "unat (en_num_pages (sh_entries s ! k)) = length (en_page_ids (sh_entries s ! k))"
proof -
  let ?e = "sh_entries s ! k"
  have P: "shm_ok s" "k < length (sh_entries s)" "refs (sh_mappings s) k = 0" "en_page_ids ?e \<noteq> []" "en_length ?e = sz"
    "unat sz mod 2 ^ 21 = 0" "unat sz + 2 ^ 21 < 2 ^ 64"
    using assms by (simp_all add: pending_def Let_def)
  then show e: "entry_ok 0 False ?e" by (auto simp: shm_inv_def entries_ok_def)
  then show "en_refcount ?e = 0" "unat (en_num_pages ?e) = length (en_page_ids ?e)" by (simp_all add: entry_ok_def unat_eq_0)
  have "length (en_page_ids ?e) = (unat sz + mask 21) div 2 ^ 21" using e P(4,5) by (simp add: entry_ok_def)
  then show "length (en_page_ids ?e) = unat (pages_for sz)"
    using pages_for_small [of sz] P(7) by (simp add: mask_eq_exp_minus_1)
qed

lemma pending_same:
  assumes "pending k sz s" "same_memory s s'" "shm_ok s'"
  shows "pending k sz s'"
proof -
  obtain mid ms where mm: "map_places s = (mid, ms)" by (cases "map_places s")
  show ?thesis using assms map_places_refs [OF mm, of k] mm by (auto simp: pending_def same_memory_def Let_def)
qed

lemma pending_calls: "pending k sz s \<Longrightarrow> pending k sz (s\<lparr>sh_calls := n\<rparr>)"
  by (simp add: pending_def shm_inv_def)

text \<open>The block once it is mapped.\<close>

lemma mapped_block:
  assumes p: "pending k sz s" and m: "mapped k ptr 0 sz s s'" and ptr: "ptr \<noteq> 0" "shm_ok s'" "length (sh_mappings s') < 2 ^ 64"
  shows "\<exists>s'' mid. schedule_release k s' = Some (True, s'') \<and> shm_ok s'' \<and> others k s s''
    \<and> block_at s'' ptr (map (\<lambda>i. pg_file_id (sh_pages s ! i)) (en_page_ids (sh_entries s ! k))) mid k
    \<and> sh_pages s'' = sh_pages s \<and> sh_mappings s'' = sh_mappings s'"
proof -
  obtain mid ms where mm: "map_places s = (mid, ms)" by (cases "map_places s")
  let ?e = "sh_entries s ! k"
  have P: "shm_ok s" "k < length (sh_entries s)" "refs (sh_mappings s) k = 0" "en_page_ids ?e \<noteq> []" using p by (simp_all add: pending_def Let_def)
  note E = pending_entry [OF p] and G = map_place_ok [OF P(1) mm]
  let ?m = "\<lparr>mp_entry_id = k, mp_addr = ptr, mp_length = sz, mp_page_offset = 0 div kPageSize, mp_num_pages = pages_for sz\<rparr>"
  obtain calls t where s': "s' = register_mapping mid k ptr sz (0 div kPageSize) (pages_for sz) ?e
    (s\<lparr>sh_mappings := ms, sh_calls := calls, sh_table := t\<rparr>)"
    using m mm by (auto simp: mapped_def)
  have es: "sh_entries s' = (sh_entries s)[k := ?e\<lparr>en_refcount := 1\<rparr>]" and ms: "sh_mappings s' = ms[mid := ?m]" and pgs: "sh_pages s' = sh_pages s"
    using E(2) by (simp_all add: s' register_mapping_def)
  have r: "refs (sh_mappings s') k = 1"
    using refs_update [OF G(2), of ?m k] G(3) ptr(1) map_places_refs [OF mm, of k] P(3) by (simp add: ms)
  let ?r = "mark_released k s'"
  have rel: "schedule_release k s' = Some (True, ?r)"
    using schedule_release_cases [of k s'] P(2,4) E(4) by (simp add: es)
  have "shm_ok ?r" using schedule_release_ok [OF ptr(2) _ ptr(3), of k] rel P(2) by (auto simp: es)
  moreover have "others k s ?r" using others_trans [OF others_mapped [OF P(1) m] others_mark_released] .
  moreover have "block_at ?r ptr (map (\<lambda>i. pg_file_id (sh_pages s ! i)) (en_page_ids ?e)) mid k"
    using G(2) P(2,4) ptr(1) r E(3) by (simp add: block_at_def mark_released_def es ms pgs Let_def)
  moreover have "sh_pages ?r = sh_pages s" "sh_mappings ?r = sh_mappings s'" by (simp_all add: mark_released_def pgs)
  ultimately show ?thesis using rel by blast
qed

definition block_result :: "nat \<Rightarrow> shm \<Rightarrow> u64 \<times> shm \<Rightarrow> bool" where
  "block_result k s r \<longleftrightarrow> (case r of (p, s') \<Rightarrow> shm_ok s' \<and> others k s s'
     \<and> (if p = 0 then sh_table s' = sh_table s \<and> (k < length (sh_entries s') \<longrightarrow> en_page_ids (sh_entries s' ! k) = [])
        else \<exists>mid. block_at s' p (map (\<lambda>i. pg_file_id (sh_pages s ! i)) (en_page_ids (sh_entries s ! k))) mid k
          \<and> sh_pages s' = sh_pages s))"

lemma block_result_same:
  assumes "same_memory s s'" "block_result k s' r"
  shows "block_result k s r"
  using assms others_trans [OF others_same_memory [OF assms(1)]]
  by (cases r) (auto simp: block_result_def same_memory_def)

lemma block_result_calls: "block_result k (s\<lparr>sh_calls := n\<rparr>) r \<longleftrightarrow> block_result k s r"
  by (simp add: block_result_def others_def)

text \<open>One round of the loop.\<close>

lemma map_contiguous_round:
  assumes sys: "system_ok sys" and p: "pending k sz s" and few: "length (sh_mappings s) < 2 ^ 64 - 1"
    and f: "find_free_address sys sz s = (q, s1)" "q \<noteq> 0"
  shows "\<exists>b s2. shm_map sys k q 0 sz s1 = Some (b, s2) \<and> shm_ok s2 \<and> sh_calls s1 \<le> sh_calls s2
    \<and> (if b then mapped k q 0 sz s1 s2 else same_memory s1 s2) \<and> (b \<longleftrightarrow> all_mapped sys (sh_calls s1) (unat (pages_for sz)))"
proof -
  have s1: "s1 = s\<lparr>sh_calls := Suc (sh_calls s)\<rparr>" by (rule find_free_mappings [OF f(1)])
  have P: "shm_ok s1" "k < length (sh_entries s1)" "unat sz mod 2 ^ 21 = 0" "unat sz + 2 ^ 21 < 2 ^ 64"
    "en_page_ids (sh_entries s1 ! k) \<noteq> []" "en_length (sh_entries s1 ! k) = sz"
    using pending_calls [OF p, of "Suc (sh_calls s)"] by (simp_all add: pending_def Let_def s1)
  let ?n = "unat (pages_for sz)"
  have n: "?n * 2 ^ 21 \<le> unat sz" using pages_for_aligned [OF P(3,4)] by simp
  note F = find_free_ok [OF sys P(4) f n]
  have "places_exactly sys" using sys by (simp add: system_ok_def)
  moreover have "fresh_pages (sh_table s1) q ?n" using F(2) by (simp add: s1)
  moreover have "unat q + ?n * 2 ^ 21 \<le> 2 ^ 64" using F(1) by (simp add: in_memory_def)
  ultimately show ?thesis
    using shm_map_ok [OF P(1) _ P(2) f(2), of sys sz 0] P few F(3) by (auto simp: s1)
qed

lemma give_back_result:
  assumes p: "pending k sz s" "length (sh_mappings s) < 2 ^ 64" and r: "schedule_release k s = Some (b, s')"
  shows "block_result k s (0, s')"
proof -
  have P: "shm_ok s" "k < length (sh_entries s)" "en_page_ids (sh_entries s ! k) \<noteq> []" using p(1) by (simp_all add: pending_def Let_def)
  have s': "s' = give_back k s" using schedule_release_cases [OF P(2,3)] pending_entry [OF p(1)] r by simp
  have "shm_ok s'" using schedule_release_ok [OF P(1,2) p(2)] r by auto
  then show ?thesis using others_give_back [of k s] P(2) by (simp add: block_result_def s') (simp add: give_back_def unused_entry_def)
qed

lemma map_contiguous_induct:
  assumes "map_contiguous sys k sz s = Some r"
  shows "shm_grows s (snd r) \<and> (system_ok sys \<longrightarrow> pending k sz s \<longrightarrow> length (sh_mappings (snd r)) < 2 ^ 64 - 1 \<longrightarrow> block_result k s r)"
  using assms
proof (rule contiguous_induct)
  fix f sys k sz s r
  assume IH: "\<And>sys k sz s r. f sys k sz s = Some r \<Longrightarrow> shm_grows s (snd r)
      \<and> (system_ok sys \<longrightarrow> pending k sz s \<longrightarrow> length (sh_mappings (snd r)) < 2 ^ 64 - 1 \<longrightarrow> block_result k s r)"
    and body: "contiguous_round f sys k sz s = Some r"
  have g: "shm_grows s (snd r)" by (rule contiguous_round_grows [OF conjunct1 [OF IH] body])
  moreover have "block_result k s r"
    if sys: "system_ok sys" and p: "pending k sz s" and few: "length (sh_mappings (snd r)) < 2 ^ 64 - 1"
  proof -
    obtain q s1 where q: "find_free_address sys sz s = (q, s1)" by (cases "find_free_address sys sz s")
    note s1 = find_free_mappings [OF q]
    have few0: "length (sh_mappings s) < 2 ^ 64 - 1" using g few by (simp add: shm_grows_def)
    have p1: "pending k sz s1" unfolding s1 by (rule pending_calls [OF p])
    have "block_result k s1 r"
    proof (cases "q = 0")
      case True
      then obtain b s' where "schedule_release k s1 = Some (b, s')" "r = (0, s')"
        using body q by (auto simp: contiguous_round_def split: Option.bind_splits)
      then show ?thesis using give_back_result [OF p1] few0 by (simp add: s1)
    next
      case False
      obtain b s2 where m: "shm_map sys k q 0 sz s1 = Some (b, s2)" "shm_ok s2"
        "if b then mapped k q 0 sz s1 s2 else same_memory s1 s2"
        using map_contiguous_round [OF sys p few0 q False] by blast
      show ?thesis
      proof (cases b)
        case True
        then obtain x s3 where s3: "schedule_release k s2 = Some (x, s3)" "r = (q, s3)"
          using body q False m(1) by (auto simp: contiguous_round_def split: Option.bind_splits)
        have "length (sh_mappings s2) < 2 ^ 64" using schedule_release_grows [OF s3(1)] s3(2) few by simp
        from mapped_block [OF p1 _ False m(2) this] True m(3) show ?thesis
          using s3 False by (auto simp: block_result_def)
      next
        case False
        then have "f sys k sz s2 = Some r" using body q \<open>q \<noteq> 0\<close> m(1) by (simp add: contiguous_round_def)
        then have "block_result k s2 r" using IH sys few pending_same [OF p1 _ m(2)] m(3) False by auto
        then show ?thesis using block_result_same [of s1 s2] m(3) False by simp
      qed
    qed
    then show ?thesis unfolding s1 block_result_calls .
  qed
  ultimately show "shm_grows s (snd r) \<and> (system_ok sys \<longrightarrow> pending k sz s \<longrightarrow> length (sh_mappings (snd r)) < 2 ^ 64 - 1 \<longrightarrow> block_result k s r)"
    by blast
qed

text \<open>An entry of no pages is never mapped.\<close>

lemma map_nothing:
  assumes "k < length (sh_entries s)" "en_page_ids (sh_entries s ! k) = []"
  shows "shm_map sys k p off len s = Some (False, s)" "schedule_release k s = Some (False, s)"
  using assms by (simp_all add: shm_map_def elem_at_def schedule_release_def)

lemma map_contiguous_nothing:
  assumes "map_contiguous sys k sz s = Some r"
  shows "k < length (sh_entries s) \<longrightarrow> en_page_ids (sh_entries s ! k) = [] \<longrightarrow> (\<exists>n. r = (0, s\<lparr>sh_calls := n\<rparr>))"
  using assms
proof (rule contiguous_induct)
  fix f sys k sz s r
  assume IH: "\<And>sys k sz s r. f sys k sz s = Some r
      \<Longrightarrow> k < length (sh_entries s) \<longrightarrow> en_page_ids (sh_entries s ! k) = [] \<longrightarrow> (\<exists>n. r = (0, s\<lparr>sh_calls := n\<rparr>))"
    and body: "contiguous_round f sys k sz s = Some r"
  show "k < length (sh_entries s) \<longrightarrow> en_page_ids (sh_entries s ! k) = [] \<longrightarrow> (\<exists>n. r = (0, s\<lparr>sh_calls := n\<rparr>))"
  proof (intro impI)
    assume k: "k < length (sh_entries s)" "en_page_ids (sh_entries s ! k) = []"
    obtain q s1 where q: "find_free_address sys sz s = (q, s1)" by (cases "find_free_address sys sz s")
    note s1 = find_free_mappings [OF q]
    have k1: "k < length (sh_entries s1)" "en_page_ids (sh_entries s1 ! k) = []" using k by (simp_all add: s1)
    show "\<exists>n. r = (0, s\<lparr>sh_calls := n\<rparr>)"
      using body q map_nothing [OF k1] IH [of sys k sz s1 r] k1
      by (cases "q = 0") (auto simp: contiguous_round_def s1)
  qed
qed

section \<open>Allocating and freeing a block\<close>

definition unused_in :: "nat \<Rightarrow> shm \<Rightarrow> bool" where
  "unused_in k s \<longleftrightarrow> (k < length (sh_entries s) \<longrightarrow> en_page_ids (sh_entries s ! k) = [])"

definition malloc_result :: "u64 \<Rightarrow> shm \<Rightarrow> u64 \<times> shm \<Rightarrow> bool" where
  "malloc_result sz s r \<longleftrightarrow> (case r of (p, s') \<Rightarrow> shm_ok s' \<and> (\<exists>k. unused_in k s \<and> others k s s'
     \<and> (if p = 0 then unused_in k s' else \<exists>mid fs. block_at s' p fs mid k \<and> length fs = unat (pages_for (shm_roundup sz)))))"

lemma roundup_aligned: "unat (shm_roundup sz) mod 2 ^ 21 = 0"
  by (simp add: shm_roundup_def roundup_def unat_and_not_mask minus_mod_eq_div_mult)

lemma roundup_few:
  assumes "unat (pages_for (shm_roundup sz)) \<le> m" "m < 2 ^ 40" "pages_for (shm_roundup sz) \<noteq> 0"
  shows "unat (shm_roundup sz) + 2 ^ 21 < 2 ^ 64"
proof -
  have "(unat (shm_roundup sz) + mask 21) div 2 ^ 21 < 2 ^ 40" using assms pages_for_unat [OF assms(3)] by simp
  then have "unat (shm_roundup sz) + mask 21 < 2 ^ 40 * 2 ^ 21" by (simp add: div_less_iff_less_mult)
  then show ?thesis by simp
qed

lemma malloc_contiguous_ok:
  assumes run: "malloc_contiguous sys sz lcore s = Some r" and inv: "shm_ok s" and sys: "system_ok sys"
    and few: "length (sh_mappings (snd r)) < 2 ^ 64 - 1" "length (sh_pages s) < 2 ^ 40"
  shows "malloc_result sz s r"
proof -
  let ?sz = "shm_roundup sz"
  obtain node where node: "core_numa_id sys lcore = Some node" using run by (cases "core_numa_id sys lcore") (simp_all add: malloc_contiguous_def Let_def)
  have none: "malloc_result sz s (0, s)" using inv by (auto simp: malloc_result_def unused_in_def intro!: exI [of _ "length (sh_entries s)"])
  show ?thesis
  proof (cases "node = - 1")
    case True
    then show ?thesis using run node none by (simp add: malloc_contiguous_def)
  next
    case False
    let ?n = "unat (pages_for ?sz)" and ?free = "free_pages node (sh_pages s)"
    show ?thesis
    proof (cases "?n \<le> length ?free")
      case False
      then obtain es where a: "shm_alloc sys ?sz node s = Some (None, s\<lparr>sh_entries := es\<rparr>)" "shm_ok (s\<lparr>sh_entries := es\<rparr>)"
        using shm_alloc_ok [OF inv \<open>node \<noteq> - 1\<close>, of ?sz sys] by auto
      obtain k es0 where ke: "alloc_places s = (k, es0)" by (cases "alloc_places s")
      note A = alloc_place_ok [OF inv ke]
      have "s\<lparr>sh_entries := es0[k := unused_entry]\<rparr> = s\<lparr>sh_entries := es\<rparr>"
        using a(1) ke \<open>node \<noteq> - 1\<close> False
        by (auto simp: shm_alloc_def pick_pages_take alloc_places_def Let_def split: if_splits)
      then have "sh_entries (s\<lparr>sh_entries := es0[k := unused_entry]\<rparr>) = sh_entries (s\<lparr>sh_entries := es\<rparr>)" by (rule arg_cong)
      then have es: "es = es0[k := unused_entry]" by simp
      have "unused_in k s" "others k s (s\<lparr>sh_entries := es\<rparr>)" "unused_in k (s\<lparr>sh_entries := es\<rparr>)"
        using ke A(2,3) by (auto simp: es unused_in_def others_def alloc_places_def Let_def nth_append unused_entry_def split: if_splits)
      then show ?thesis using run node \<open>node \<noteq> - 1\<close> a by (auto simp: malloc_contiguous_def malloc_result_def)
    next
      case True
      let ?ids = "take ?n ?free"
      obtain k s1 where a: "shm_alloc sys ?sz node s = Some (Some k, s1)" "shm_ok s1" "allocated k ?sz ?ids s s1"
        using shm_alloc_ok [OF inv \<open>node \<noteq> - 1\<close>, of ?sz sys] True by auto
      have mc: "map_contiguous sys k ?sz s1 = Some r" using run node \<open>node \<noteq> - 1\<close> a(1) by (simp add: malloc_contiguous_def)
      obtain es0 where ke: "alloc_places s = (k, es0)" using a(3) by (auto simp: allocated_def split: prod.splits)
      note A = alloc_place_ok [OF inv ke]
      let ?e = "\<lparr>en_refcount = 0, en_to_remove = False, en_length = ?sz, en_num_pages = pages_for ?sz, en_page_ids = ?ids\<rparr>"
      have s1: "s1 = s\<lparr>sh_entries := es0[k := ?e], sh_pages := set_in_use True ?ids (sh_pages s)\<rparr>"
        using a(3) ke by (simp add: allocated_def)
      have k1: "k < length (sh_entries s1)" "sh_entries s1 ! k = ?e" using A(2) by (simp_all add: s1)
      have u: "unused_in k s" using ke A(3) by (auto simp: unused_in_def alloc_places_def Let_def split: if_splits)
      have o: "others k s s1" by (rule others_allocated [OF inv a(3)])
      have len: "length ?ids = ?n" using True by simp
      show ?thesis
      proof (cases "?n = 0")
        case n0: True
        then obtain c where r: "r = (0, s1\<lparr>sh_calls := c\<rparr>)" using map_contiguous_nothing [OF mc] k1 by auto
        have "shm_ok (s1\<lparr>sh_calls := c\<rparr>)" "others k s (s1\<lparr>sh_calls := c\<rparr>)" "unused_in k (s1\<lparr>sh_calls := c\<rparr>)"
          using a(2) o k1 n0 by (simp_all add: shm_inv_def others_def unused_in_def)
        then show ?thesis using r u by (auto simp: malloc_result_def)
      next
        case n1: False
        have "?n \<le> length (sh_pages s)"
        proof -
          have "length ?free \<le> length [0..<length (sh_pages s)]" unfolding free_pages_def by (rule length_filter_le)
          then show ?thesis using True by simp
        qed
        then have small: "unat ?sz + 2 ^ 21 < 2 ^ 64" using roundup_few [OF _ few(2)] n1 by (auto simp: unat_eq_0)
        have "entry_ok (refs (sh_mappings s1) k) False ?e" using a(2) k1 by (auto simp: shm_inv_def entries_ok_def dest: spec [of _ k])
        then have r0: "refs (sh_mappings s1) k = 0" by (simp add: entry_ok_def)
        have "?ids \<noteq> []" using n1 len by auto
        then have p: "pending k ?sz s1" using a(2) k1 roundup_aligned small r0 by (simp add: pending_def Let_def)
        have B: "block_result k s1 r" using map_contiguous_induct [OF mc] sys p few(1) by blast
        obtain q s2 where r: "r = (q, s2)" by (cases r)
        have s2: "shm_ok s2" "others k s s2" using B others_trans [OF o] by (auto simp: block_result_def r)
        show ?thesis
        proof (cases "q = 0")
          case True
          then have "unused_in k s2" using B by (simp add: block_result_def r unused_in_def)
          then show ?thesis using u s2 True by (auto simp: malloc_result_def r)
        next
          case False
          then obtain mid where "block_at s2 q (map (\<lambda>i. pg_file_id (sh_pages s1 ! i)) (en_page_ids (sh_entries s1 ! k))) mid k"
            using B by (auto simp: block_result_def r)
          moreover have "length (map (\<lambda>i. pg_file_id (sh_pages s1 ! i)) (en_page_ids (sh_entries s1 ! k))) = ?n" using k1 len by simp
          ultimately have "\<exists>mid fs. block_at s2 q fs mid k \<and> length fs = ?n" by blast
          then show ?thesis using u s2 False unfolding malloc_result_def r by simp blast
        qed
      qed
    qed
  qed
qed

lemma block_pages:
  assumes "shm_ok s" "block_at s p fs mid k"
  shows "mapping_pages (sh_mappings s ! mid) \<noteq> {}" "unat p div 2 ^ 21 \<in> mapping_pages (sh_mappings s ! mid)"
  using assms by (auto simp: block_at_def Let_def mapping_pages_def page_set_def)

lemma block_unique:
  assumes "shm_ok s" "block_at s p fs mid k" "block_at s p fs' mid' k'"
  shows "mid = mid' \<and> k = k' \<and> fs = fs'"
proof -
  have A: "apart_by mapping_pages (sh_mappings s)" using assms(1) by (simp add: shm_inv_def mappings_ok_def)
  have "mid = mid'"
  proof (rule ccontr)
    assume "mid \<noteq> mid'"
    moreover have "mid < length (sh_mappings s)" "mid' < length (sh_mappings s)" using assms(2,3) by (simp_all add: block_at_def)
    ultimately show False
      using apart_byD [OF A, of mid mid'] block_pages(2) [OF assms(1,2)] block_pages(2) [OF assms(1,3)] by auto
  qed
  then show ?thesis using assms(2,3) by (auto simp: block_at_def Let_def)
qed

definition blocks_ok :: "(u64 \<times> u64 list) list \<Rightarrow> shm \<Rightarrow> bool" where
  "blocks_ok B s \<longleftrightarrow> distinct (map fst B) \<and> (\<forall>b \<in> set B. \<exists>mid k. block_at s (fst b) (snd b) mid k)
     \<and> (\<forall>k<length (sh_entries s). en_page_ids (sh_entries s ! k) \<noteq> [] \<longrightarrow> (\<exists>b \<in> set B. \<exists>mid. block_at s (fst b) (snd b) mid k))"

lemma block_entry: "block_at s p fs mid k \<Longrightarrow> k < length (sh_entries s) \<and> en_page_ids (sh_entries s ! k) \<noteq> []"
  by (auto simp: block_at_def Let_def)

text \<open>Every mapping in use is that of a block, and there is only one at each address.\<close>

lemma block_found:
  assumes inv: "shm_ok s" and B: "blocks_ok B s" and b: "block_at s p fs mid k"
  shows "first_index (\<lambda>m. mp_addr m = p) (sh_mappings s) = mid"
proof -
  let ?ms = "sh_mappings s"
  let ?i = "first_index (\<lambda>m. mp_addr m = p) ?ms"
  have mid: "mid < length ?ms" "mp_addr (?ms ! mid) = p" "p \<noteq> 0" using b by (simp_all add: block_at_def Let_def)
  then have "?i \<noteq> length ?ms" by (auto simp: first_index_none)
  then have i: "?i < length ?ms" "mp_addr (?ms ! ?i) = p" using first_index_found by blast+
  let ?k = "mp_entry_id (?ms ! ?i)"
  have k: "?k < length (sh_entries s)" using inv i mid(3) by (auto simp: shm_inv_def mappings_ok_def mapping_ok_def)
  have "0 < refs ?ms ?k" using refs_pos [of "?ms ! ?i" ?ms] i mid(3) by simp
  then have "en_page_ids (sh_entries s ! ?k) \<noteq> []" using inv k by (auto simp: shm_inv_def entries_ok_def entry_ok_def)
  then obtain q fs' mid' where b': "block_at s q fs' mid' ?k" using B k by (auto simp: blocks_ok_def)
  then have "mid' = ?i"
    using refs_one [of ?ms ?k mid' ?i] i mid(3) by (auto simp: block_at_def Let_def)
  then have "block_at s p fs' ?i ?k" using b' i by (auto simp: block_at_def Let_def)
  then show ?thesis using block_unique [OF inv b] by blast
qed

lemma others_unmapped:
  assumes "mid < length (sh_mappings s)" "mp_entry_id (sh_mappings s ! mid) = k" "sh_entries s' = (sh_entries s)[k := e]"
    "sh_mappings s' = (sh_mappings s)[mid := unused_mapping]" "length (sh_pages s') = length (sh_pages s)"
    "\<And>i. pg_file_id (sh_pages s' ! i) = pg_file_id (sh_pages s ! i)"
  shows "others k s s'"
proof -
  have "refs (sh_mappings s') j = refs (sh_mappings s) j" if "j \<noteq> k" for j
    using refs_update [OF assms(1), of unused_mapping j] assms(2,4) that by (simp add: unused_mapping_def)
  moreover have "i < length (sh_mappings s') \<and> sh_mappings s' ! i = sh_mappings s ! i"
    if "i < length (sh_mappings s)" "mp_entry_id (sh_mappings s ! i) \<noteq> k" for i
    using that assms(2,4) by (cases "i = mid") auto
  ultimately show ?thesis using assms(3,5,6) by (auto simp: others_def)
qed

lemma free_block:
  assumes inv: "shm_ok s" and B: "blocks_ok B s" and b: "block_at s p fs mid k" and few: "length (sh_mappings s) < 2 ^ 64"
  shows "\<exists>s'. free_contiguous p s = Some s' \<and> shm_ok s' \<and> others k s s' \<and> unused_in k s' \<and> sh_mappings s' = (sh_mappings s)[mid := unused_mapping]"
proof -
  let ?ms = "sh_mappings s" and ?e = "sh_entries s ! k"
  have m: "mid < length ?ms" "k < length (sh_entries s)" "mp_entry_id (?ms ! mid) = k" "mp_addr (?ms ! mid) = p" "p \<noteq> 0"
    "en_to_remove ?e" "refs ?ms k = 1"
    using b by (simp_all add: block_at_def Let_def)
  have "entry_ok 1 False ?e" using inv m(2,7) by (auto simp: shm_inv_def entries_ok_def dest: spec [of _ k])
  then have e: "en_refcount ?e = 1" "unat (en_num_pages ?e) = length (en_page_ids ?e)"
    by (simp_all add: entry_ok_def word_unat_eq_iff)
  let ?t = "unmap_pages (unat (mp_num_pages (?ms ! mid))) p (sh_table s)"
  let ?u = "s\<lparr>sh_table := ?t, sh_entries := (sh_entries s)[k := ?e\<lparr>en_refcount := 0\<rparr>]\<rparr>"
  have cr: "check_release k ?u = Some (give_back k ?u)"
    using check_release_cases [of k ?u] m(2,6) e(2) by simp
  let ?s = "(give_back k ?u)\<lparr>sh_mappings := ?ms[mid := unused_mapping]\<rparr>"
  have gm: "sh_mappings (give_back k ?u) = ?ms" by (simp add: give_back_def)
  have run: "shm_unmap p s = Some (True, ?s)"
    using block_found [OF inv B b] m(1-3) e(1) cr gm by (simp add: shm_unmap_def elem_at_def Let_def)
  have "shm_ok ?s" using shm_unmap_ok [OF inv m(5) few] run by auto
  moreover have "others k s ?s" by (rule others_unmapped [OF m(1,3), of _ unused_entry]) (simp_all add: give_back_def)
  moreover have "unused_in k ?s" using m(2) by (simp add: unused_in_def give_back_def unused_entry_def)
  ultimately show ?thesis using run by (simp add: free_contiguous_def)
qed

lemma blocks_malloc:
  assumes B: "blocks_ok B s" and o: "others k s s'" "unused_in k s" and inv: "shm_ok s'"
    and new: "case nb of None \<Rightarrow> unused_in k s' | Some b \<Rightarrow> \<exists>mid. block_at s' (fst b) (snd b) mid k"
  shows "blocks_ok (case nb of None \<Rightarrow> B | Some b \<Rightarrow> b # B) s'"
proof -
  have old: "block_at s' (fst b) (snd b) mid j" if "block_at s (fst b) (snd b) mid j" for b mid j
    using block_others [OF that o(1)] block_entry [OF that] o(2) by (auto simp: unused_in_def)
  have ne: "j \<noteq> k" if "block_at s (fst b) (snd b) mid j" for b mid j
    using block_entry [OF that] o(2) by (auto simp: unused_in_def)
  have all: "\<forall>b \<in> set B. \<exists>mid j. block_at s' (fst b) (snd b) mid j \<and> j \<noteq> k" using B old ne unfolding blocks_ok_def by blast
  have cover: "\<exists>b \<in> set B. \<exists>mid. block_at s' (fst b) (snd b) mid j"
    if "j < length (sh_entries s')" "en_page_ids (sh_entries s' ! j) \<noteq> []" "j \<noteq> k" for j
  proof -
    have "j < length (sh_entries s) \<and> en_page_ids (sh_entries s ! j) \<noteq> []" using o(1) that by (auto simp: others_def split: if_splits)
    then show ?thesis using B old unfolding blocks_ok_def by blast
  qed
  have d: "distinct (map fst B)" using B by (simp add: blocks_ok_def)
  show ?thesis
  proof (cases nb)
    case None
    then have "unused_in k s'" using new by simp
    then show ?thesis using None d all cover unfolding blocks_ok_def unused_in_def by (simp, metis)
  next
    case (Some b)
    then obtain mid where b: "block_at s' (fst b) (snd b) mid k" using new by auto
    have "fst b \<notin> set (map fst B)"
    proof
      assume "fst b \<in> set (map fst B)"
      then obtain c where "c \<in> set B" "fst c = fst b" by auto
      then obtain mid' j where "block_at s' (fst b) (snd c) mid' j" "j \<noteq> k" using all by metis
      then show False using block_unique [OF inv b] by blast
    qed
    then show ?thesis using Some d all b cover unfolding blocks_ok_def by simp metis
  qed
qed

lemma blocks_free:
  assumes B: "blocks_ok B s" and inv: "shm_ok s" and b: "block_at s p fs mid k" and o: "others k s s'" "unused_in k s'"
  shows "blocks_ok (filter (\<lambda>b. fst b \<noteq> p) B) s'"
proof -
  have keep: "block_at s' (fst c) (snd c) mid' j" if "block_at s (fst c) (snd c) mid' j" "fst c \<noteq> p" for c mid' j
  proof -
    have "j \<noteq> k"
    proof
      assume "j = k"
      then have "mid' = mid" using that(1) b refs_one [of "sh_mappings s" k mid' mid] by (auto simp: block_at_def Let_def)
      then show False using that b by (auto simp: block_at_def Let_def)
    qed
    then show ?thesis using block_others [OF that(1) o(1)] by simp
  qed
  have "\<exists>c \<in> set (filter (\<lambda>b. fst b \<noteq> p) B). \<exists>mid. block_at s' (fst c) (snd c) mid j"
    if j: "j < length (sh_entries s')" "en_page_ids (sh_entries s' ! j) \<noteq> []" for j
  proof -
    have "j \<noteq> k" using o(2) j by (auto simp: unused_in_def)
    then have "j < length (sh_entries s) \<and> en_page_ids (sh_entries s ! j) \<noteq> []" using o(1) j by (auto simp: others_def split: if_splits)
    then obtain c mid' where c: "c \<in> set B" "block_at s (fst c) (snd c) mid' j" using B unfolding blocks_ok_def by blast
    have "fst c \<noteq> p" using block_unique [OF inv b] c(2) \<open>j \<noteq> k\<close> by metis
    then show ?thesis using c(1) keep [OF c(2)] by (intro bexI [of _ c]) auto
  qed
  moreover have "\<forall>c \<in> set (filter (\<lambda>b. fst b \<noteq> p) B). \<exists>mid j. block_at s' (fst c) (snd c) mid j"
    using B keep unfolding blocks_ok_def by fastforce
  moreover have "distinct (map fst (filter (\<lambda>b. fst b \<noteq> p) B))" using B by (simp add: blocks_ok_def distinct_map_filter)
  ultimately show ?thesis by (simp add: blocks_ok_def)
qed

end
