(* ===== verification/Shared_Memory_Runs.thy ===== *)
theory Shared_Memory_Runs
  imports Shared_Memory_Blocks
begin

text \<open>
  Runs of allocations and releases and the properties of the allocator: memory is shared out among
  the blocks, an allocation returns, and the two arguments that break it: the null pointer and a
  size that rounds to 0.
\<close>

section \<open>Runs of allocations and releases\<close>

datatype shm_op = Malloc u64 nat | Free u64

text \<open>A user keeps the blocks it was given, with the files found behind them, and frees only those.\<close>

definition files_at :: "(u64 \<Rightarrow> u64 option) \<Rightarrow> u64 \<Rightarrow> nat \<Rightarrow> u64 list" where
  "files_at t p n = map (\<lambda>j. case t (p + of_nat j * kPageSize) of Some f \<Rightarrow> f | None \<Rightarrow> 0) [0..<n]"

fun run_shm :: "system \<Rightarrow> shm_op list \<Rightarrow> (u64 \<times> u64 list) list \<Rightarrow> shm \<Rightarrow> ((u64 \<times> u64 list) list \<times> shm) option" where
  "run_shm sys [] B s = Some (B, s)"
| "run_shm sys (Malloc sz lcore # ops) B s =
     do {
       (p, s) \<leftarrow> malloc_contiguous sys sz lcore s;
       run_shm sys ops (if p = 0 then B else (p, files_at (sh_table s) p (unat (pages_for (shm_roundup sz)))) # B) s
     }"
| "run_shm sys (Free p # ops) B s =
     (if p \<in> set (map fst B) then do { s \<leftarrow> free_contiguous p s; run_shm sys ops (filter (\<lambda>b. fst b \<noteq> p) B) s } else None)"

lemma files_at_block:
  assumes "shm_ok s" "block_at s p fs mid k"
  shows "files_at (sh_table s) p (length fs) = fs"
  using block_table [OF assms] by (intro nth_equalityI) (simp_all add: files_at_def nth_page_def)

definition start_shm :: "shm \<Rightarrow> bool" where
  "start_shm s \<longleftrightarrow> sh_entries s = [] \<and> sh_mappings s = [] \<and> (\<forall>pg \<in> set (sh_pages s). \<not> pg_in_use pg)
     \<and> distinct (map pg_file_id (sh_pages s)) \<and> length (sh_pages s) < 2 ^ 40"

definition run_ok :: "u64 list \<Rightarrow> (u64 \<times> u64 list) list \<Rightarrow> shm \<Rightarrow> bool" where
  "run_ok files B s \<longleftrightarrow> shm_ok s \<and> blocks_ok B s \<and> map pg_file_id (sh_pages s) = files"

lemma run_ok_start: "start_shm s \<Longrightarrow> run_ok (map pg_file_id (sh_pages s)) [] s"
  by (auto simp: run_ok_def start_shm_def shm_inv_def pages_ok_def apart_by_def entries_ok_def mappings_ok_def blocks_ok_def
    dest: nth_mem)

lemma others_files: "others k s s' \<Longrightarrow> map pg_file_id (sh_pages s') = map pg_file_id (sh_pages s)"
  by (rule nth_equalityI) (auto simp: others_def)

lemma malloc_grows: "malloc_contiguous sys sz lcore s = Some r \<Longrightarrow> shm_grows s (snd r)"
proof -
  assume m: "malloc_contiguous sys sz lcore s = Some r"
  obtain node where node: "core_numa_id sys lcore = Some node" using m by (cases "core_numa_id sys lcore") (simp_all add: malloc_contiguous_def Let_def)
  show ?thesis
  proof (cases "node = - 1")
    case False
    then obtain q s1 where a: "shm_alloc sys (shm_roundup sz) node s = Some (q, s1)"
      "(case q of None \<Rightarrow> Some (0, s1) | Some k \<Rightarrow> map_contiguous sys k (shm_roundup sz) s1) = Some r"
      using m node by (auto simp: malloc_contiguous_def Let_def split: Option.bind_splits)
    have "shm_grows s s1" using shm_alloc_grows [OF a(1)] by (simp add: shm_grows_def)
    moreover have "shm_grows s1 (snd r)" using a(2) map_contiguous_induct by (cases q) auto
    ultimately show ?thesis by (rule shm_grows_trans)
  qed (use m node in \<open>auto simp: malloc_contiguous_def\<close>)
qed

lemma run_malloc:
  assumes I: "run_ok files B s" and sys: "system_ok sys" and m: "malloc_contiguous sys sz lcore s = Some (p, s')"
    and few: "length (sh_mappings s') < 2 ^ 64 - 1" "length files < 2 ^ 40"
  shows "run_ok files (if p = 0 then B else (p, files_at (sh_table s') p (unat (pages_for (shm_roundup sz)))) # B) s'"
proof -
  have R: "shm_ok s" "blocks_ok B s" "map pg_file_id (sh_pages s) = files" using I by (simp_all add: run_ok_def)
  have "length (sh_pages s) < 2 ^ 40" using few(2) R(3) by (metis length_map)
  then have "malloc_result sz s (p, s')" using malloc_contiguous_ok [OF m R(1) sys] few(1) by simp
  then obtain k where k: "shm_ok s'" "unused_in k s" "others k s s'"
    "if p = 0 then unused_in k s' else \<exists>mid fs. block_at s' p fs mid k \<and> length fs = unat (pages_for (shm_roundup sz))"
    by (auto simp: malloc_result_def)
  have f: "map pg_file_id (sh_pages s') = files" using others_files [OF k(3)] R(3) by simp
  show ?thesis
  proof (cases "p = 0")
    case True
    then show ?thesis using blocks_malloc [OF R(2) k(3,2,1), of None] k f by (simp add: run_ok_def)
  next
    case False
    then obtain mid fs where b: "block_at s' p fs mid k" "length fs = unat (pages_for (shm_roundup sz))" using k(4) by auto
    then have "files_at (sh_table s') p (unat (pages_for (shm_roundup sz))) = fs" using files_at_block [OF k(1) b(1)] by simp
    then show ?thesis using blocks_malloc [OF R(2) k(3,2,1), of "Some (p, fs)"] b(1) k(1) f False by (auto simp: run_ok_def)
  qed
qed

lemma run_free:
  assumes I: "run_ok files B s" and p: "p \<in> set (map fst B)" and few: "length (sh_mappings s) < 2 ^ 64"
  shows "\<exists>s'. free_contiguous p s = Some s' \<and> run_ok files (filter (\<lambda>b. fst b \<noteq> p) B) s' \<and> length (sh_mappings s') = length (sh_mappings s)"
proof -
  have R: "shm_ok s" "blocks_ok B s" "map pg_file_id (sh_pages s) = files" using I by (simp_all add: run_ok_def)
  obtain fs mid k where b: "block_at s p fs mid k" using p R(2) by (fastforce simp: blocks_ok_def)
  obtain s' where s': "free_contiguous p s = Some s'" "shm_ok s'" "others k s s'" "unused_in k s'" "sh_mappings s' = (sh_mappings s)[mid := unused_mapping]"
    using free_block [OF R(1,2) b few] by blast
  then show ?thesis using blocks_free [OF R(2,1) b s'(3,4)] others_files [OF s'(3)] R(3) by (simp add: run_ok_def)
qed

lemma run_shm_grows: "run_shm sys ops B s = Some (B', s') \<Longrightarrow> shm_grows s s'"
proof (induction sys ops B s rule: run_shm.induct)
  case (2 sys sz lcore ops B s)
  obtain p s1 where m: "malloc_contiguous sys sz lcore s = Some (p, s1)"
    "run_shm sys ops (if p = 0 then B else (p, files_at (sh_table s1) p (unat (pages_for (shm_roundup sz)))) # B) s1 = Some (B', s')"
    using "2.prems" by (auto split: Option.bind_splits)
  have "shm_grows s s1" using malloc_grows [OF m(1)] by (simp only: snd_conv)
  then show ?case using "2.IH" [OF m(1) refl m(2)] by (rule shm_grows_trans)
next
  case (3 sys p ops B s)
  obtain s1 b where m: "p \<in> set (map fst B)" "free_contiguous p s = Some s1" "shm_unmap p s = Some (b, s1)"
    "run_shm sys ops (filter (\<lambda>b. fst b \<noteq> p) B) s1 = Some (B', s')"
    using "3.prems" by (auto simp: free_contiguous_def split: if_splits Option.bind_splits)
  show ?case using shm_unmap_grows [OF m(3)] "3.IH" [OF m(1,2,4)] by (rule shm_grows_trans)
qed simp

lemma run_shm_ok:
  assumes "run_ok files B s" "run_shm sys ops B s = Some (B', s')" "system_ok sys" "length files < 2 ^ 40" "length (sh_mappings s') < 2 ^ 64 - 1"
  shows "run_ok files B' s'"
  using assms
proof (induction sys ops B s rule: run_shm.induct)
  case (2 sys sz lcore ops B s)
  obtain p s1 where m: "malloc_contiguous sys sz lcore s = Some (p, s1)"
    "run_shm sys ops (if p = 0 then B else (p, files_at (sh_table s1) p (unat (pages_for (shm_roundup sz)))) # B) s1 = Some (B', s')"
    using "2.prems"(2) by (auto split: Option.bind_splits)
  have "length (sh_mappings s1) < 2 ^ 64 - 1" using run_shm_grows [OF m(2)] "2.prems"(5) by (simp add: shm_grows_def)
  from run_malloc [OF "2.prems"(1,3) m(1) this "2.prems"(4)] show ?case using "2.IH" [OF m(1) refl] m(2) "2.prems"(3-5) by blast
next
  case (3 sys p ops B s)
  have p: "p \<in> set (map fst B)" using "3.prems"(2) by (auto split: if_splits)
  have "shm_grows s s'" by (rule run_shm_grows [OF "3.prems"(2)])
  then have "length (sh_mappings s) < 2 ^ 64" using "3.prems"(5) by (simp add: shm_grows_def)
  from run_free [OF "3.prems"(1) p this] obtain s1 where "free_contiguous p s = Some s1" "run_ok files (filter (\<lambda>b. fst b \<noteq> p) B) s1"
    by blast
  then show ?case using "3.IH" [OF p, of s1] "3.prems"(2-5) p by simp
qed simp

text \<open>What a run comes to: the pages in use are shared out among the blocks.\<close>

lemma run_shared_out:
  assumes I: "run_ok files B s" and d: "distinct files"
  shows "distinct (concat (map snd B))" "set (concat (map snd B)) = pg_file_id ` {pg \<in> set (sh_pages s). pg_in_use pg}"
proof -
  let ?es = "sh_entries s" and ?pgs = "sh_pages s"
  have R: "shm_ok s" "blocks_ok B s" "map pg_file_id ?pgs = files" using I by (simp_all add: run_ok_def)
  have P: "apart_by entry_pages ?es" "\<forall>e \<in> set ?es. distinct (en_page_ids e)"
    "{i. i < length ?pgs \<and> pg_in_use (?pgs ! i)} = (\<Union>e \<in> set ?es. entry_pages e)"
    using R(1) by (simp_all add: shm_inv_def pages_ok_def)
  have bl: "\<exists>mid k. block_at s (fst b) (snd b) mid k" if "b \<in> set B" for b using R(2) that by (simp add: blocks_ok_def)
  have bf: "snd b = map (\<lambda>i. pg_file_id (?pgs ! i)) (en_page_ids (?es ! k))" "k < length ?es"
    if "block_at s (fst b) (snd b) mid k" for b mid k
    using that by (simp_all add: block_at_def Let_def)
  have in_range: "i < length ?pgs \<and> pg_in_use (?pgs ! i)" if "i \<in> set (en_page_ids (?es ! k))" "k < length ?es" for i k
  proof -
    have "i \<in> (\<Union>e \<in> set ?es. entry_pages e)" using that by (auto simp: entry_pages_def intro!: bexI [of _ "?es ! k"])
    then show ?thesis using P(3) by blast
  qed
  have inj: "i = j" if "i < length ?pgs" "j < length ?pgs" "pg_file_id (?pgs ! i) = pg_file_id (?pgs ! j)" for i j
    using d that nth_eq_iff_index_eq [of "map pg_file_id ?pgs" i j] unfolding R(3) [symmetric] by simp
  have one: "distinct (snd b)" if b: "b \<in> set B" for b
  proof -
    obtain mid k where k: "block_at s (fst b) (snd b) mid k" using bl [OF b] by blast
    have "distinct (en_page_ids (?es ! k))" using P(2) bf(2) [OF k] by simp
    then show ?thesis unfolding bf(1) [OF k] using inj in_range bf(2) [OF k] by (auto simp: distinct_map inj_on_def)
  qed
  have two: "set (snd b) \<inter> set (snd c) = {}" if bc: "b \<in> set B" "c \<in> set B" "b \<noteq> c" for b c
  proof -
    obtain mid k mid' k' where k: "block_at s (fst b) (snd b) mid k" "block_at s (fst c) (snd c) mid' k'"
      using bl [OF bc(1)] bl [OF bc(2)] by blast
    have "k \<noteq> k'"
    proof
      assume "k = k'"
      then have "mid = mid'" using k refs_one [of "sh_mappings s" k mid mid'] by (auto simp: block_at_def Let_def)
      then have "fst b = fst c" "snd b = snd c" using k \<open>k = k'\<close> by (auto simp: block_at_def Let_def)
      then show False using bc(3) by (simp add: prod_eq_iff)
    qed
    then have dis: "set (en_page_ids (?es ! k)) \<inter> set (en_page_ids (?es ! k')) = {}"
      using apart_byD [OF P(1) bf(2) [OF k(1)] bf(2) [OF k(2)]] by (simp add: entry_pages_def)
    show ?thesis
    proof (rule ccontr)
      assume "\<not> ?thesis"
      then obtain i j where ij: "i \<in> set (en_page_ids (?es ! k))" "j \<in> set (en_page_ids (?es ! k'))"
        "pg_file_id (?pgs ! i) = pg_file_id (?pgs ! j)"
        unfolding bf(1) [OF k(1)] bf(1) [OF k(2)] by auto
      have "i = j" by (rule inj) (use in_range ij bf(2) [OF k(1)] bf(2) [OF k(2)] in auto)
      then show False using dis ij by blast
    qed
  qed
  have "distinct B" using R(2) by (simp add: blocks_ok_def distinct_map)
  then show "distinct (concat (map snd B))"
    using one two
  proof (induction B)
    case (Cons b B)
    then have "distinct (concat (map snd B))" by simp
    moreover have "set (snd b) \<inter> (\<Union>c \<in> set B. set (snd c)) = {}" using Cons.prems(1,3) by fastforce
    ultimately show ?case using Cons.prems(2) by simp
  qed simp
  show "set (concat (map snd B)) = pg_file_id ` {pg \<in> set ?pgs. pg_in_use pg}"
  proof (intro equalityI subsetI)
    fix x assume "x \<in> set (concat (map snd B))"
    then obtain b where b: "b \<in> set B" "x \<in> set (snd b)" by auto
    obtain mid k where k: "block_at s (fst b) (snd b) mid k" using bl [OF b(1)] by blast
    obtain i where "i \<in> set (en_page_ids (?es ! k))" "x = pg_file_id (?pgs ! i)" using b(2) unfolding bf(1) [OF k] by auto
    then show "x \<in> pg_file_id ` {pg \<in> set ?pgs. pg_in_use pg}" using in_range bf(2) [OF k] by auto
  next
    fix x assume "x \<in> pg_file_id ` {pg \<in> set ?pgs. pg_in_use pg}"
    then obtain i where i: "i < length ?pgs" "pg_in_use (?pgs ! i)" "x = pg_file_id (?pgs ! i)" by (auto simp: in_set_conv_nth)
    then have "i \<in> (\<Union>e \<in> set ?es. entry_pages e)" using P(3) by blast
    then obtain e where e: "e \<in> set ?es" "i \<in> set (en_page_ids e)" by (auto simp: entry_pages_def)
    then obtain k where k: "k < length ?es" "i \<in> set (en_page_ids (?es ! k))" by (metis in_set_conv_nth)
    then have "en_page_ids (?es ! k) \<noteq> []" by auto
    then obtain b mid where b: "b \<in> set B" "block_at s (fst b) (snd b) mid k" using R(2) k(1) unfolding blocks_ok_def by blast
    then have "x \<in> set (snd b)" unfolding bf(1) [OF b(2)] using k(2) i(3) by simp
    then show "x \<in> set (concat (map snd B))" using b(1) by auto
  qed
qed

lemma find_free_zero:
  assumes sys: "system_ok sys" and sz: "unat sz + 2 ^ 21 < 2 ^ 64" and f: "find_free_address sys sz s = (0, s')"
  shows "sy_place sys (sh_calls s) (sh_table s) (sz + kPageSize) = None"
proof (rule ccontr)
  assume "sy_place sys (sh_calls s) (sh_table s) (sz + kPageSize) \<noteq> None"
  then obtain q where q: "sy_place sys (sh_calls s) (sh_table s) (sz + kPageSize) = Some q" "(q + mask 21) AND NOT (mask 21) = 0"
    using f by (auto simp: find_free_address_def)
  have len: "unat (sz + kPageSize) = unat sz + 2 ^ 21" using sz by (simp add: unat_add_no_overflow)
  have Q: "q \<noteq> 0" "unat q + (unat sz + 2 ^ 21) \<le> 2 ^ 64"
    using sys q(1) len unfolding system_ok_def finds_room_def by (metis, metis)
  have m: "unat (mask 21 :: u64) = 2 ^ 21 - 1" by (simp add: unat_mask)
  have x: "unat (q + mask 21) = unat q + (2 ^ 21 - 1)" using Q(2) m by (simp add: unat_add_no_overflow)
  have "unat ((q + mask 21) AND NOT (mask 21)) = (unat q + (2 ^ 21 - 1)) div 2 ^ 21 * 2 ^ 21"
    unfolding unat_and_not_mask x by (simp only: minus_mod_eq_div_mult)
  moreover have "unat q \<le> (unat q + (2 ^ 21 - 1)) div 2 ^ 21 * 2 ^ 21" by (rule ceil_mult_bounds) simp
  ultimately have "unat q = 0" using q(2) by simp
  then show False using Q(1) by (simp add: unat_eq_0)
qed

section \<open>Allocations return\<close>

lemma first_index_snoc: "P x \<Longrightarrow> first_index P (xs @ [x]) \<le> length xs"
  by (induction xs) simp_all

lemma map_places_same: "same_memory s s' \<Longrightarrow> length (snd (map_places s')) = length (snd (map_places s))"
  using first_index_snoc [of "\<lambda>m. mp_addr m = 0" unused_mapping "sh_mappings s"]
  by (auto simp: same_memory_def map_places_def Let_def unused_mapping_def split: if_splits)

lemma map_contiguous_returns:
  assumes sys: "system_ok sys" and N: "\<forall>c. N \<le> c \<longrightarrow> sy_map sys c = Mapped_there"
  shows "pending k sz s \<Longrightarrow> length (snd (map_places s)) < 2 ^ 64 - 1
    \<Longrightarrow> \<exists>r. map_contiguous sys k sz s = Some r \<and> length (sh_mappings (snd r)) < 2 ^ 64 - 1
      \<and> (fst r = 0 \<longrightarrow> (\<exists>c. sy_place sys c (sh_table s) (sz + kPageSize) = None))"
proof (induction "N - sh_calls s" arbitrary: s rule: less_induct)
  case less
  note p = less.prems(1)
  obtain q s1 where q: "find_free_address sys sz s = (q, s1)" by (cases "find_free_address sys sz s")
  note s1 = find_free_mappings [OF q]
  have p1: "pending k sz s1" unfolding s1 by (rule pending_calls [OF p])
  have mp: "map_places s1 = map_places s" by (simp add: map_places_def s1 Let_def)
  have few: "length (sh_mappings s) < 2 ^ 64 - 1"
    using less.prems(2) by (auto simp: map_places_def Let_def split: if_splits)
  have P: "shm_ok s1" "k < length (sh_entries s1)" "unat sz + 2 ^ 21 < 2 ^ 64" "en_page_ids (sh_entries s1 ! k) \<noteq> []"
    using p1 by (simp_all add: pending_def Let_def)
  show ?case
  proof (cases "q = 0")
    case True
    obtain b s' where r: "schedule_release k s1 = Some (b, s')" "sh_mappings s' = sh_mappings s1"
      using schedule_release_ok [OF P(1,2)] few by (auto simp: s1)
    have "map_contiguous sys k sz s = Some (0, s')"
      using q True r(1) by (simp add: contiguous_unfold [of sys k sz s] contiguous_round_def)
    then show ?thesis using find_free_zero [OF sys P(3)] q True r(2) few by (auto simp: s1)
  next
    case False
    obtain b s2 where m: "shm_map sys k q 0 sz s1 = Some (b, s2)" "shm_ok s2" "sh_calls s1 \<le> sh_calls s2"
      "if b then mapped k q 0 sz s1 s2 else same_memory s1 s2" "b \<longleftrightarrow> all_mapped sys (sh_calls s1) (unat (pages_for sz))"
      using map_contiguous_round [OF sys p few q False] by blast
    show ?thesis
    proof (cases b)
      case True
      have l2: "length (sh_mappings s2) < 2 ^ 64 - 1"
        using m(4) True less.prems(2) by (auto simp: mapped_def register_mapping_def mp)
      obtain s3 where s3: "schedule_release k s2 = Some (True, s3)" "sh_mappings s3 = sh_mappings s2"
        using mapped_block [OF p1 _ False m(2)] m(4) True l2 by auto
      have "map_contiguous sys k sz s = Some (q, s3)"
        using q False m(1) True s3(1) by (simp add: contiguous_unfold [of sys k sz s] contiguous_round_def)
      then show ?thesis using False s3(2) l2 by simp
    next
      case nb: False
      have sm: "same_memory s1 s2" using m(4) nb by simp
      have "\<not> N \<le> sh_calls s1" using m(5) nb N by (auto simp: all_mapped_def dest: order_trans)
      then have "N - sh_calls s2 < N - sh_calls s" using m(3) by (simp add: s1)
      then have "\<exists>r. map_contiguous sys k sz s2 = Some r \<and> length (sh_mappings (snd r)) < 2 ^ 64 - 1
          \<and> (fst r = 0 \<longrightarrow> (\<exists>c. sy_place sys c (sh_table s2) (sz + kPageSize) = None))"
        by (rule less.hyps [OF _ pending_same [OF p1 sm m(2)]]) (use map_places_same [OF sm] less.prems(2) mp in simp)
      then obtain r where r: "map_contiguous sys k sz s2 = Some r" "length (sh_mappings (snd r)) < 2 ^ 64 - 1"
        "fst r = 0 \<longrightarrow> (\<exists>c. sy_place sys c (sh_table s2) (sz + kPageSize) = None)"
        by (elim exE conjE) (rule that)
      have "map_contiguous sys k sz s = Some r"
        using q False m(1) nb r(1) by (simp add: contiguous_unfold [of sys k sz s] contiguous_round_def)
      then show ?thesis using r(2,3) sm by (auto simp: same_memory_def s1)
    qed
  qed
qed

lemma malloc_returns:
  assumes inv: "shm_ok s" and sys: "system_ok sys" and N: "\<forall>c. N \<le> c \<longrightarrow> sy_map sys c = Mapped_there"
    and node: "core_numa_id sys lcore = Some node" "node \<noteq> - 1"
    and n: "n = unat (pages_for (shm_roundup sz))" "0 < n"
    and few: "Suc (length (sh_mappings s)) < 2 ^ 64 - 1" "length (sh_pages s) < 2 ^ 40"
  shows "\<exists>p s'. malloc_contiguous sys sz lcore s = Some (p, s')
    \<and> (p = 0 \<longrightarrow> length (free_pages node (sh_pages s)) < n \<or> (\<exists>c. sy_place sys c (sh_table s) (shm_roundup sz + kPageSize) = None))
    \<and> (p \<noteq> 0 \<longrightarrow> n \<le> length (free_pages node (sh_pages s)) \<and> sh_pages s' = set_in_use True (take n (free_pages node (sh_pages s))) (sh_pages s)
        \<and> files_at (sh_table s') p n = map (\<lambda>i. pg_file_id (sh_pages s ! i)) (take n (free_pages node (sh_pages s))))"
proof (cases "n \<le> length (free_pages node (sh_pages s))")
  let ?sz = "shm_roundup sz" and ?free = "free_pages node (sh_pages s)"
  case False
  then obtain es where "shm_alloc sys ?sz node s = Some (None, s\<lparr>sh_entries := es\<rparr>)"
    using shm_alloc_ok [OF inv node(2), of ?sz sys] n(1) by auto
  then show ?thesis using node False by (simp add: malloc_contiguous_def)
next
  let ?sz = "shm_roundup sz" and ?free = "free_pages node (sh_pages s)"
  let ?ids = "take n ?free"
  case True
  obtain k s1 where a: "shm_alloc sys ?sz node s = Some (Some k, s1)" "shm_ok s1" "allocated k ?sz ?ids s s1"
    using shm_alloc_ok [OF inv node(2), of ?sz sys] True n(1) by auto
  obtain es0 where ke: "alloc_places s = (k, es0)" using a(3) by (auto simp: allocated_def split: prod.splits)
  let ?e = "\<lparr>en_refcount = 0, en_to_remove = False, en_length = ?sz, en_num_pages = pages_for ?sz, en_page_ids = ?ids\<rparr>"
  have s1: "s1 = s\<lparr>sh_entries := es0[k := ?e], sh_pages := set_in_use True ?ids (sh_pages s)\<rparr>"
    using a(3) ke by (simp add: allocated_def)
  have k1: "k < length (sh_entries s1)" "sh_entries s1 ! k = ?e" using alloc_place_ok(2) [OF inv ke] by (simp_all add: s1)
  have "length ?free \<le> length [0..<length (sh_pages s)]" unfolding free_pages_def by (rule length_filter_le)
  then have "n \<le> length (sh_pages s)" using True by simp
  then have small: "unat ?sz + 2 ^ 21 < 2 ^ 64" using roundup_few [OF _ few(2), of sz] n by (metis less_irrefl unat_0)
  have "entry_ok (refs (sh_mappings s1) k) False ?e" using a(2) k1 by (auto simp: shm_inv_def entries_ok_def dest: spec [of _ k])
  then have r0: "refs (sh_mappings s1) k = 0" by (simp add: entry_ok_def)
  have ne: "?ids \<noteq> []" using True n(2) by (cases ?free) auto
  then have p: "pending k ?sz s1" using a(2) k1 roundup_aligned small r0 by (simp add: pending_def Let_def)
  have "length (snd (map_places s1)) < 2 ^ 64 - 1" using few(1) by (auto simp: map_places_def Let_def s1)
  from map_contiguous_returns [OF sys N p this] obtain r where r: "map_contiguous sys k ?sz s1 = Some r"
    "length (sh_mappings (snd r)) < 2 ^ 64 - 1" "fst r = 0 \<longrightarrow> (\<exists>c. sy_place sys c (sh_table s1) (?sz + kPageSize) = None)"
    by blast
  obtain q s2 where q: "r = (q, s2)" by (cases r)
  have B: "block_result k s1 (q, s2)" using map_contiguous_induct [OF r(1)] sys p r(2) unfolding q by blast
  have run: "malloc_contiguous sys sz lcore s = Some (q, s2)" using node a(1) r(1) by (simp add: malloc_contiguous_def q)
  have "sh_pages s2 = set_in_use True ?ids (sh_pages s) \<and> files_at (sh_table s2) q n = map (\<lambda>i. pg_file_id (sh_pages s ! i)) ?ids"
    if q0: "q \<noteq> 0"
  proof -
    obtain mid where b: "block_at s2 q (map (\<lambda>i. pg_file_id (sh_pages s1 ! i)) (en_page_ids (sh_entries s1 ! k))) mid k"
      "sh_pages s2 = sh_pages s1" "shm_ok s2"
      using B q0 by (auto simp: block_result_def)
    have "map (\<lambda>i. pg_file_id (sh_pages s1 ! i)) (en_page_ids (sh_entries s1 ! k)) = map (\<lambda>i. pg_file_id (sh_pages s ! i)) ?ids"
      by (simp add: k1(2)) (simp add: s1)
    then show ?thesis using files_at_block [OF b(3,1)] b(2) True by (simp add: s1)
  qed
  then show ?thesis using run r(3) True by (intro exI [of _ q] exI [of _ s2]) (simp add: q s1)
qed

section \<open>An allocation of no bytes\<close>

lemma map_nothing_hangs:
  assumes k: "k < length (sh_entries s)" "en_page_ids (sh_entries s ! k) = []" and sys: "system_ok sys"
    and room: "\<forall>c. sy_place sys c (sh_table s) kPageSize \<noteq> None"
  shows "map_contiguous sys k 0 s = None"
proof -
  have "\<not> (y = sys \<and> i = k \<and> sz = 0 \<and> sh_entries u = sh_entries s \<and> sh_table u = sh_table s)"
    if "map_contiguous y i sz u = Some r" for y i sz u r
    using that
  proof (rule contiguous_induct)
    fix f y i sz u r
    assume IH: "\<And>y i sz u r. f y i sz u = Some r
        \<Longrightarrow> \<not> (y = sys \<and> i = k \<and> sz = 0 \<and> sh_entries u = sh_entries s \<and> sh_table u = sh_table s)"
      and body: "contiguous_round f y i sz u = Some r"
    show "\<not> (y = sys \<and> i = k \<and> sz = 0 \<and> sh_entries u = sh_entries s \<and> sh_table u = sh_table s)"
    proof
      assume e: "y = sys \<and> i = k \<and> sz = 0 \<and> sh_entries u = sh_entries s \<and> sh_table u = sh_table s"
      obtain q u1 where q: "find_free_address sys 0 u = (q, u1)" by (cases "find_free_address sys 0 u")
      note u1 = find_free_mappings [OF q]
      have "q \<noteq> 0"
      proof
        assume "q = 0"
        then have "sy_place sys (sh_calls u) (sh_table u) kPageSize = None" using find_free_zero [OF sys, of 0 u u1] q by simp
        then show False using room e by simp
      qed
      moreover have "shm_map sys k q 0 0 u1 = Some (False, u1)" using map_nothing(1) [of k u1] k e by (simp add: u1)
      ultimately have "f sys k 0 u1 = Some r" using body e q by (simp add: contiguous_round_def)
      then show False using IH [of sys k 0 u1 r] e by (simp add: u1)
    qed
  qed
  then show ?thesis by (cases "map_contiguous sys k 0 s") blast+
qed

lemma malloc_nothing_hangs:
  assumes z: "shm_roundup sz = 0" and inv: "shm_ok s" and sys: "system_ok sys"
    and node: "core_numa_id sys lcore = Some node" "node \<noteq> - 1" and room: "\<forall>c. sy_place sys c (sh_table s) kPageSize \<noteq> None"
  shows "malloc_contiguous sys sz lcore s = None"
proof -
  have p0: "pages_for 0 = 0" by (simp add: pages_for_def word_unat_eq_iff unat_div unat_mask)
  obtain k s1 where a: "shm_alloc sys 0 node s = Some (Some k, s1)" "allocated k 0 [] s s1"
    using shm_alloc_ok [OF inv node(2), of 0 sys] p0 by auto
  obtain es0 where ke: "alloc_places s = (k, es0)" using a(2) by (auto simp: allocated_def split: prod.splits)
  have s1: "s1 = s\<lparr>sh_entries := es0[k := unused_entry]\<rparr>"
    using a(2) ke p0 by (simp add: allocated_def unused_entry_def)
  have "map_contiguous sys k 0 s1 = None"
    using alloc_place_ok(2) [OF inv ke] room by (intro map_nothing_hangs [OF _ _ sys]) (simp_all add: s1 unused_entry_def)
  then show ?thesis using node a(1) z by (simp add: malloc_contiguous_def)
qed

section \<open>Freeing a null pointer\<close>

lemma free_null_gives_back:
  assumes I: "run_ok files B s" and b: "block_at s p fs mid 0" and d: "distinct files"
    and u: "i = first_index (\<lambda>m. mp_addr m = 0) (sh_mappings s)" "i < length (sh_mappings s)" "sh_mappings s ! i = unused_mapping"
  shows "\<exists>s'. free_contiguous 0 s = Some s' \<and> files_at (sh_table s') p (length fs) = fs
    \<and> (\<forall>pg \<in> set (sh_pages s'). pg_file_id pg \<in> set fs \<longrightarrow> \<not> pg_in_use pg)"
proof -
  let ?e = "sh_entries s ! 0" and ?pgs = "sh_pages s"
  have inv: "shm_ok s" "map pg_file_id ?pgs = files" using I by (simp_all add: run_ok_def)
  have k: "0 < length (sh_entries s)" "en_to_remove ?e" "refs (sh_mappings s) 0 = 1" "fs = map (\<lambda>i. pg_file_id (?pgs ! i)) (en_page_ids ?e)"
    using b by (simp_all add: block_at_def Let_def)
  have "entry_ok 1 False ?e" using inv(1) k(1,3) by (auto simp: shm_inv_def entries_ok_def dest: spec [of _ 0])
  then have e: "en_refcount ?e = 1" "unat (en_num_pages ?e) = length (en_page_ids ?e)"
    by (simp_all add: entry_ok_def word_unat_eq_iff)
  let ?u = "s\<lparr>sh_table := sh_table s, sh_entries := (sh_entries s)[0 := ?e\<lparr>en_refcount := 0\<rparr>]\<rparr>"
  have cr: "check_release 0 ?u = Some (give_back 0 ?u)"
    using check_release_cases [of 0 ?u] k(1,2) e(2) by simp
  let ?s = "(give_back 0 ?u)\<lparr>sh_mappings := (sh_mappings s)[i := unused_mapping]\<rparr>"
  have gm: "sh_mappings (give_back 0 ?u) = sh_mappings s" by (simp add: give_back_def)
  have "shm_unmap 0 s = Some (True, ?s)"
    using u k(1) e(1) cr gm by (simp add: shm_unmap_def elem_at_def Let_def unused_mapping_def)
  then have run: "free_contiguous 0 s = Some ?s" by (simp add: free_contiguous_def)
  have t: "sh_table ?s = sh_table s" by (simp add: give_back_def)
  have pg: "sh_pages ?s = set_in_use False (en_page_ids ?e) ?pgs" using k(1) by (simp add: give_back_def)
  have "\<not> pg_in_use (sh_pages ?s ! j)" if j: "j < length ?pgs" "pg_file_id (sh_pages ?s ! j) \<in> set fs" for j
  proof -
    have f: "pg_file_id (?pgs ! j) \<in> set fs" using j(2) unfolding pg by simp
    obtain l where l: "l \<in> set (en_page_ids ?e)" "pg_file_id (?pgs ! j) = pg_file_id (?pgs ! l)" using f unfolding k(4) by auto
    have "l \<in> (\<Union>e \<in> set (sh_entries s). entry_pages e)" using l(1) k(1) by (auto simp: entry_pages_def intro!: bexI [of _ ?e])
    moreover have "{i. i < length ?pgs \<and> pg_in_use (?pgs ! i)} = (\<Union>e \<in> set (sh_entries s). entry_pages e)"
      using inv(1) by (simp add: shm_inv_def pages_ok_def)
    ultimately have "l < length ?pgs" by blast
    then have "j = l" using nth_eq_iff_index_eq [OF d, of j l] inv(2) j(1) l(2) by (metis length_map nth_map)
    then show ?thesis using l(1) j(1) unfolding pg by (simp add: set_in_use_nth)
  qed
  then have "\<forall>x \<in> set (sh_pages ?s). pg_file_id x \<in> set fs \<longrightarrow> \<not> pg_in_use x"
    unfolding pg by (metis in_set_conv_nth length_set_in_use)
  then show ?thesis using run t files_at_block [OF inv(1) b] by (intro exI [of _ ?s]) simp
qed

section \<open>Properties of the allocator\<close>

text \<open>
  C10. Memory is shared out: after any run of allocations and releases, in which calls of the
  system may fail and be tried again, each block still leads to the pages it was given, no page
  is in two blocks, and the pages in use are those of the blocks.
\<close>
theorem blocks_shared_out:
  assumes "start_shm s0" "system_ok sys" "run_shm sys ops [] s0 = Some (B, s)" "length (sh_mappings s) < 2 ^ 64 - 1"
  shows "(\<forall>b \<in> set B. files_at (sh_table s) (fst b) (length (snd b)) = snd b) \<and> distinct (concat (map snd B))
    \<and> set (concat (map snd B)) = pg_file_id ` {pg \<in> set (sh_pages s). pg_in_use pg}"
proof -
  have d: "distinct (map pg_file_id (sh_pages s0))" "length (map pg_file_id (sh_pages s0)) < 2 ^ 40"
    using assms(1) by (simp_all add: start_shm_def)
  have I: "run_ok (map pg_file_id (sh_pages s0)) B s"
    using run_shm_ok [OF run_ok_start [OF assms(1)] assms(3,2) d(2) assms(4)] .
  then have "\<forall>b \<in> set B. files_at (sh_table s) (fst b) (length (snd b)) = snd b"
    by (auto simp: run_ok_def blocks_ok_def dest!: bspec intro: files_at_block)
  then show ?thesis using run_shared_out [OF I d(1)] by blast
qed

text \<open>
  C24. The tables of the allocator are well formed after any run: the pages of an entry exist and are
  in use, and are as many as its length needs; an entry counts the mappings of it; and a mapping
  in use is of pages that its entry has.
\<close>
theorem tables_well_formed:
  assumes "start_shm s0" "system_ok sys" "run_shm sys ops [] s0 = Some (B, s)" "length (sh_mappings s) < 2 ^ 64 - 1"
  shows "(\<forall>e \<in> set (sh_entries s). (\<forall>i \<in> set (en_page_ids e). i < length (sh_pages s) \<and> pg_in_use (sh_pages s ! i))
        \<and> unat (en_num_pages e) = length (en_page_ids e) \<and> (en_page_ids e \<noteq> [] \<longrightarrow> pages_for (en_length e) = en_num_pages e))
    \<and> (\<forall>k<length (sh_entries s). unat (en_refcount (sh_entries s ! k)) = length (filter (\<lambda>m. mp_addr m \<noteq> 0 \<and> mp_entry_id m = k) (sh_mappings s)))
    \<and> (\<forall>m \<in> set (sh_mappings s). mp_addr m \<noteq> 0 \<longrightarrow> mp_entry_id m < length (sh_entries s)
        \<and> unat (mp_page_offset m) + unat (mp_num_pages m) \<le> length (en_page_ids (sh_entries s ! mp_entry_id m)))"
proof -
  have "run_ok (map pg_file_id (sh_pages s0)) B s"
    by (rule run_shm_ok [OF run_ok_start [OF assms(1)] assms(3,2) _ assms(4)]) (use assms(1) in \<open>simp add: start_shm_def\<close>)
  then have inv: "shm_ok s" by (simp add: run_ok_def)
  have E: "(\<forall>i \<in> set (en_page_ids e). i < length (sh_pages s) \<and> pg_in_use (sh_pages s ! i))
      \<and> unat (en_num_pages e) = length (en_page_ids e) \<and> (en_page_ids e \<noteq> [] \<longrightarrow> pages_for (en_length e) = en_num_pages e)"
    if e: "e \<in> set (sh_entries s)" for e
  proof (intro conjI ballI impI)
    obtain k where k: "k < length (sh_entries s)" "e = sh_entries s ! k" using e by (auto simp: in_set_conv_nth)
    then have ok: "entry_ok (refs (sh_mappings s) k) False e" using inv by (simp add: shm_inv_def entries_ok_def)
    then show n: "unat (en_num_pages e) = length (en_page_ids e)" by (simp add: entry_ok_def)
    show "pages_for (en_length e) = en_num_pages e" if "en_page_ids e \<noteq> []"
      using ok that pages_for_small [of "en_length e"] n by (simp add: entry_ok_def word_unat_eq_iff)
    fix i assume "i \<in> set (en_page_ids e)"
    then have "i \<in> (\<Union>e \<in> set (sh_entries s). entry_pages e)" using e by (auto simp: entry_pages_def)
    then show "i < length (sh_pages s)" "pg_in_use (sh_pages s ! i)" using inv unfolding shm_inv_def pages_ok_def by blast+
  qed
  have "unat (en_refcount (sh_entries s ! k)) = refs (sh_mappings s) k" if "k < length (sh_entries s)" for k
    using inv that by (simp add: shm_inv_def entries_ok_def entry_ok_def)
  moreover have "mapping_ok (sh_pages s) (sh_entries s) (sh_table s) m" if "m \<in> set (sh_mappings s)" "mp_addr m \<noteq> 0" for m
    using inv that by (simp add: shm_inv_def mappings_ok_def)
  ultimately show ?thesis using E unfolding refs_def mapping_ok_def by blast
qed

text \<open>
  C23. An allocation returns: if the system fails to map pages only finitely often, it ends, with
  the first free pages of the core's NUMA domain, mapped one after the other; it fails only if
  there are too few of them, or no room in the address space.
\<close>
theorem malloc_contiguous_returns:
  assumes "shm_ok s" "system_ok sys" "\<forall>c. N \<le> c \<longrightarrow> sy_map sys c = Mapped_there"
    and "core_numa_id sys lcore = Some node" "node \<noteq> - 1"
    and "n = unat (pages_for (shm_roundup sz))" "0 < n"
    and "Suc (length (sh_mappings s)) < 2 ^ 64 - 1" "length (sh_pages s) < 2 ^ 40"
  shows "\<exists>p s'. malloc_contiguous sys sz lcore s = Some (p, s')
    \<and> (p = 0 \<longrightarrow> length (free_pages node (sh_pages s)) < n \<or> (\<exists>c. sy_place sys c (sh_table s) (shm_roundup sz + kPageSize) = None))
    \<and> (p \<noteq> 0 \<longrightarrow> n \<le> length (free_pages node (sh_pages s)) \<and> sh_pages s' = set_in_use True (take n (free_pages node (sh_pages s))) (sh_pages s)
        \<and> files_at (sh_table s') p n = map (\<lambda>i. pg_file_id (sh_pages s ! i)) (take n (free_pages node (sh_pages s))))"
  by (rule malloc_returns [OF assms])

text \<open>
  C37. \<^verbatim>\<open>free_contiguous(nullptr)\<close> gives away the memory of another block: it takes an unused mapping
  for that of the null pointer and drops a reference of entry 0, so that the pages of the block
  there are free for the next allocation while the block is still mapped.
\<close>
theorem free_null_releases:
  assumes "start_shm s0" "system_ok sys" "run_shm sys ops [] s0 = Some (B, s)" "length (sh_mappings s) < 2 ^ 64 - 1"
    and "block_at s p fs mid 0"
    and "i = first_index (\<lambda>m. mp_addr m = 0) (sh_mappings s)" "i < length (sh_mappings s)" "sh_mappings s ! i = unused_mapping"
  shows "\<exists>s'. free_contiguous 0 s = Some s' \<and> files_at (sh_table s') p (length fs) = fs
    \<and> (\<forall>pg \<in> set (sh_pages s'). pg_file_id pg \<in> set fs \<longrightarrow> \<not> pg_in_use pg)"
proof -
  have d: "distinct (map pg_file_id (sh_pages s0))" "length (map pg_file_id (sh_pages s0)) < 2 ^ 40"
    using assms(1) by (simp_all add: start_shm_def)
  show ?thesis
    by (rule free_null_gives_back [OF run_shm_ok [OF run_ok_start [OF assms(1)] assms(3,2) d(2) assms(4)] assms(5) d(1) assms(6-8)])
qed

text \<open>
  An allocation whose size rounds to 0, that is of no bytes or of almost \<open>2 ^ 64\<close>, never
  returns: it gets an entry without pages, which counts as unused, and tries for ever to map it.
\<close>
theorem malloc_zero_hangs:
  assumes "shm_roundup sz = 0" "shm_ok s" "system_ok sys" "core_numa_id sys lcore = Some node" "node \<noteq> - 1"
    and "\<forall>c. sy_place sys c (sh_table s) kPageSize \<noteq> None"
  shows "malloc_contiguous sys sz lcore s = None"
  by (rule malloc_nothing_hangs [OF assms])

subsection \<open>A small system\<close>

definition demo_place :: "nat \<Rightarrow> (u64 \<Rightarrow> u64 option) \<Rightarrow> u64 \<Rightarrow> u64 option" where
  "demo_place c t len = (let a = 2 ^ 40 * of_nat (Suc (c mod 8)) in
     if len \<le> 2 ^ 43 \<and> list_all (\<lambda>j. t (a + of_nat j * kPageSize) = None) [0..<Suc (unat (len div kPageSize))] then Some a else None)"

definition demo_system :: system where
  "demo_system = \<lparr>sy_place = demo_place, sy_map = (\<lambda>c. if c = 1 then Map_failed else Mapped_there), sy_numa_count = 2,
     sy_numa_ids = [0, 1], sy_lcore_id = 0\<rparr>"

definition demo_page :: "u64 \<Rightarrow> u64 \<Rightarrow> page" where
  "demo_page i node = \<lparr>pg_file_id = i, pg_addr = 2 ^ 30 + i * kPageSize, pg_paddr = 2 ^ 33 + i * kPageSize, pg_numa_node = node,
     pg_in_use = False\<rparr>"

definition demo_start :: shm where
  "demo_start = \<lparr>sh_pages = [demo_page 0 0, demo_page 1 0, demo_page 2 1, demo_page 3 0], sh_entries = [], sh_mappings = [],
     sh_used_memory = 0, sh_table = (\<lambda>_. None), sh_memory = (\<lambda>_. 0), sh_calls = 0\<rparr>"

lemma demo_system_ok: "system_ok demo_system"
proof -
  have "p \<noteq> 0 \<and> unat p + unat len \<le> 2 ^ 64 \<and> (\<forall>a. unat p \<le> a * 2 ^ 21 \<and> a * 2 ^ 21 < unat p + unat len \<longrightarrow> t (of_nat (a * 2 ^ 21)) = None)"
    if "demo_place c t len = Some p" for c t len p
  proof -
    let ?b = "2 ^ 19 * Suc (c mod 8)"
    have P: "p = 2 ^ 40 * of_nat (Suc (c mod 8))" "len \<le> 2 ^ 43" "\<forall>j \<in> {0..<Suc (unat (len div kPageSize))}. t (p + of_nat j * kPageSize) = None"
      using that unfolding demo_place_def Let_def list_all_iff set_upt by (metis option.distinct(1) option.inject)+
    have n: "unat (len div kPageSize) = unat len div 2 ^ 21" by (simp add: unat_div_distrib kPageSize_def)
    have pb: "p = of_nat (?b * 2 ^ 21)" unfolding P(1) by simp
    have l: "unat len \<le> 2 ^ 43" using P(2) by (simp add: word_le_nat_alt)
    have "Suc (c mod 8) \<le> 8" by simp
    then have b: "?b * 2 ^ 21 \<le> 2 ^ 43" by simp
    then have up: "unat p = ?b * 2 ^ 21" unfolding pb by (simp only: unat_of_nat) simp
    have "t (of_nat (a * 2 ^ 21)) = None" if a: "unat p \<le> a * 2 ^ 21" "a * 2 ^ 21 < unat p + unat len" for a
    proof -
      have ab: "?b \<le> a" "(a - ?b) * 2 ^ 21 < unat len" using a unfolding up by (simp_all add: diff_mult_distrib)
      then have "a - ?b \<le> unat len div 2 ^ 21" by (simp add: less_eq_div_iff_mult_less_eq)
      then have "t (p + of_nat (a - ?b) * kPageSize) = None" by (intro bspec [OF P(3)]) (simp add: n)
      moreover have "p + of_nat (a - ?b) * kPageSize = of_nat ((?b + (a - ?b)) * 2 ^ 21)"
        unfolding pb by (simp only: of_nat_add of_nat_mult distrib_right) (simp add: kPageSize_def)
      ultimately show ?thesis using ab(1) by (simp only: le_add_diff_inverse)
    qed
    moreover have "p \<noteq> 0" using up by (auto simp: word_unat_eq_iff)
    moreover have "unat p + unat len \<le> 2 ^ 64" using up b l by simp
    ultimately show ?thesis by blast
  qed
  then show ?thesis by (simp add: system_ok_def places_exactly_def finds_room_def demo_system_def)
qed

lemma demo_start_ok: "start_shm demo_start"
  by (simp add: start_shm_def demo_start_def demo_page_def)

definition demo_ops :: "shm_op list" where
  "demo_ops = [Malloc 3000000 0, Malloc 5 0, Free (2 ^ 40 * 6)]"

definition demo_mapping :: mapping where
  "demo_mapping = \<lparr>mp_entry_id = 0, mp_addr = 2 ^ 40 * 3, mp_length = 4194304, mp_page_offset = 0, mp_num_pages = 2\<rparr>"

lemma demo_run_eval: "case run_shm demo_system demo_ops [] demo_start of None \<Rightarrow> False
    | Some (B, s) \<Rightarrow> B = [(2 ^ 40 * 3, [0, 1])] \<and> sh_mappings s = [demo_mapping, unused_mapping] \<and> map pg_file_id (sh_pages s) = [0, 1, 2, 3]
      \<and> sh_entries s = [\<lparr>en_refcount = 1, en_to_remove = True, en_length = 4194304, en_num_pages = 2, en_page_ids = [0, 1]\<rparr>, unused_entry]"
  by code_simp

lemma demo_run: "\<exists>B s. run_shm demo_system demo_ops [] demo_start = Some (B, s) \<and> B = [(2 ^ 40 * 3, [0, 1])]
    \<and> sh_mappings s = [demo_mapping, unused_mapping] \<and> map pg_file_id (sh_pages s) = [0, 1, 2, 3]
    \<and> sh_entries s = [\<lparr>en_refcount = 1, en_to_remove = True, en_length = 4194304, en_num_pages = 2, en_page_ids = [0, 1]\<rparr>, unused_entry]"
  using demo_run_eval by (simp split: option.splits prod.splits)

text \<open>Three operations, with a call of the system that fails.\<close>

lemma blocks_shared_out_witness:
  "\<exists>B s. run_shm demo_system demo_ops [] demo_start = Some (B, s) \<and> B = [(2 ^ 40 * 3, [0, 1])]
    \<and> (\<forall>b \<in> set B. files_at (sh_table s) (fst b) (length (snd b)) = snd b)
    \<and> set (concat (map snd B)) = pg_file_id ` {pg \<in> set (sh_pages s). pg_in_use pg}"
proof -
  obtain B s where r: "run_shm demo_system demo_ops [] demo_start = Some (B, s)" "B = [(2 ^ 40 * 3, [0, 1])]"
    "sh_mappings s = [demo_mapping, unused_mapping]"
    using demo_run by blast
  have "length (sh_mappings s) < 2 ^ 64 - 1" by (simp add: r(3))
  from blocks_shared_out [OF demo_start_ok demo_system_ok r(1) this] r(1,2) show ?thesis by blast
qed

lemma tables_well_formed_witness:
  "\<exists>B s. run_shm demo_system demo_ops [] demo_start = Some (B, s) \<and> sh_entries s \<noteq> []
    \<and> (\<forall>e \<in> set (sh_entries s). \<forall>i \<in> set (en_page_ids e). i < length (sh_pages s) \<and> pg_in_use (sh_pages s ! i))"
proof -
  obtain B s e where r: "run_shm demo_system demo_ops [] demo_start = Some (B, s)" "sh_mappings s = [demo_mapping, unused_mapping]"
    "sh_entries s = [e, unused_entry]"
    using demo_run by (elim exE conjE) (rule that; assumption)
  have "length (sh_mappings s) < 2 ^ 64 - 1" by (simp add: r(2))
  from tables_well_formed [OF demo_start_ok demo_system_ok r(1) this] r(1,3) show ?thesis by (intro exI [of _ B] exI [of _ s]) auto
qed

lemma malloc_contiguous_returns_witness:
  "\<exists>p s'. malloc_contiguous demo_system 3000000 0 demo_start = Some (p, s')
    \<and> (p \<noteq> 0 \<longrightarrow> files_at (sh_table s') p 2 = map (\<lambda>i. pg_file_id (sh_pages demo_start ! i)) (take 2 (free_pages 0 (sh_pages demo_start))))"
proof -
  have n: "2 = unat (pages_for (shm_roundup 3000000))" by code_simp
  have "shm_ok demo_start" using run_ok_start [OF demo_start_ok] by (simp add: run_ok_def)
  from malloc_contiguous_returns [OF this demo_system_ok _ _ _ n, of 2 0 0] show ?thesis
    by (fastforce simp: demo_system_def demo_start_def core_numa_id_def elem_at_def)
qed

lemma free_null_releases_witness:
  "\<exists>s s'. run_shm demo_system demo_ops [] demo_start = Some ([(2 ^ 40 * 3, [0, 1])], s) \<and> free_contiguous 0 s = Some s'
    \<and> files_at (sh_table s') (2 ^ 40 * 3) 2 = [0, 1] \<and> (\<forall>pg \<in> set (sh_pages s'). pg_file_id pg \<in> {0, 1} \<longrightarrow> \<not> pg_in_use pg)"
proof -
  obtain s where r: "run_shm demo_system demo_ops [] demo_start = Some ([(2 ^ 40 * 3, [0, 1])], s)"
    "sh_mappings s = [demo_mapping, unused_mapping]" "map pg_file_id (sh_pages s) = [0, 1, 2, 3]"
    "sh_entries s = [\<lparr>en_refcount = 1, en_to_remove = True, en_length = 4194304, en_num_pages = 2, en_page_ids = [0, 1]\<rparr>, unused_entry]"
    using demo_run by (elim exE conjE) (rule that; simp only:)
  have m: "length (sh_mappings s) < 2 ^ 64 - 1" "1 = first_index (\<lambda>m. mp_addr m = 0) (sh_mappings s)" "1 < length (sh_mappings s)"
    "sh_mappings s ! 1 = unused_mapping"
    by (simp_all add: r(2) demo_mapping_def unused_mapping_def)
  have l: "length (sh_pages s) = 4" using arg_cong [OF r(3), of length] by simp
  have "pg_file_id (sh_pages s ! 0) = 0" "pg_file_id (sh_pages s ! 1) = 1"
    using arg_cong [OF r(3), of "\<lambda>xs. xs ! 0"] arg_cong [OF r(3), of "\<lambda>xs. xs ! 1"] l by simp_all
  then have "block_at s (2 ^ 40 * 3) [0, 1] 0 0"
    by (simp add: block_at_def r(2,4) demo_mapping_def unused_mapping_def refs_def)
  from free_null_releases [OF demo_start_ok demo_system_ok r(1) m(1) this m(2-4)] r(1) show ?thesis by (auto simp: numeral_2_eq_2)
qed

lemma malloc_zero_hangs_witness: "malloc_contiguous demo_system 0 0 demo_start = None"
proof -
  have s: "shm_ok demo_start" using run_ok_start [OF demo_start_ok] by (simp add: run_ok_def)
  have p: "\<forall>c. sy_place demo_system c (sh_table demo_start) kPageSize \<noteq> None"
    by (simp add: demo_system_def demo_start_def demo_place_def list_all_iff kPageSize_def)
  have z: "shm_roundup 0 = 0" by code_simp
  have n: "core_numa_id demo_system 0 = Some 0" by (simp add: demo_system_def core_numa_id_def elem_at_def)
  show ?thesis by (rule malloc_zero_hangs [OF z s demo_system_ok n _ p]) simp
qed

end
