(* ===== verification/Packet_Copy.thy ===== *)
theory Packet_Copy
  imports Enso_Prelude "HOL-Library.Monad_Syntax"
begin

text \<open>
  The program that sends packets back, \<^verbatim>\<open>src/pktcopy/enso_pktcpy.cc\<close>, with its ring allocators,
  \<^verbatim>\<open>RingBufferMemoryAllocator\<close> and \<^verbatim>\<open>TXPacketQueueManager\<close> of \<^verbatim>\<open>enso_userlib.h\<close> and
  \<^verbatim>\<open>enso_userlib.cc\<close>. A ring is memory of \<open>rb_size\<close> bytes that is mapped twice in a row, so that a
  block which passes its end goes on at its start; a pointer into it is the offset from
  \<^verbatim>\<open>buffer_vaddr_\<close>. What the Enso library receives and reports is the input of a turn of the main
  loop, what the loop gives it to send is part of the state. Definitions only: what holds of them
  is in \<open>Packet_Flights\<close>.
\<close>

section \<open>A ring of memory\<close>

definition kHugePageSize :: u64 where "kHugePageSize = 2048 * 1024"

definition kMaxBufferSize :: u64 where "kMaxBufferSize = kHugePageSize"

record ring_memory =
  rb_data :: "u64 \<Rightarrow> u8"
  rb_size :: u64
  rb_paddr :: u64
  rb_alloc_offset :: u64
  rb_free_capacity :: u64

definition ring_initialize :: "u64 \<Rightarrow> u64 \<Rightarrow> ring_memory" where
  "ring_initialize buffer_size paddr =
     \<lparr>rb_data = (\<lambda>_. 0), rb_size = buffer_size, rb_paddr = paddr, rb_alloc_offset = 0, rb_free_capacity = buffer_size\<rparr>"

definition ring_allocate :: "u64 \<Rightarrow> ring_memory \<Rightarrow> u64 option \<times> ring_memory" where
  "ring_allocate sz r =
     (if rb_free_capacity r < sz then (None, r)
      else (Some (rb_alloc_offset r),
        r\<lparr>rb_alloc_offset := (rb_alloc_offset r + sz) mod kMaxBufferSize, rb_free_capacity := rb_free_capacity r - sz\<rparr>))"

definition ring_deallocate :: "u64 \<Rightarrow> ring_memory \<Rightarrow> ring_memory" where
  "ring_deallocate sz r = r\<lparr>rb_free_capacity := rb_free_capacity r + sz\<rparr>"

definition get_alloc_paddr :: "ring_memory \<Rightarrow> u64" where
  "get_alloc_paddr r = rb_paddr r + rb_alloc_offset r"

text \<open>Writes and reads through the two mappings.\<close>

fun put_ring :: "u64 \<Rightarrow> u64 \<Rightarrow> u8 list \<Rightarrow> (u64 \<Rightarrow> u8) \<Rightarrow> (u64 \<Rightarrow> u8)" where
  "put_ring sz p [] d = d"
| "put_ring sz p (b # bs) d = put_ring sz (p + 1) bs (d(p mod sz := b))"

definition ring_write :: "u64 \<Rightarrow> u8 list \<Rightarrow> ring_memory \<Rightarrow> ring_memory option" where
  "ring_write p bs r =
     (if unat p + length bs \<le> 2 * unat (rb_size r) then Some (r\<lparr>rb_data := put_ring (rb_size r) p bs (rb_data r)\<rparr>) else None)"

definition get_ring :: "u64 \<Rightarrow> u64 \<Rightarrow> nat \<Rightarrow> (u64 \<Rightarrow> u8) \<Rightarrow> u8 list" where
  "get_ring sz p n d = map (\<lambda>j. d ((p + of_nat j) mod sz)) [0..<n]"

definition ring_read :: "u64 \<Rightarrow> nat \<Rightarrow> ring_memory \<Rightarrow> u8 list option" where
  "ring_read p n r = (if unat p + n \<le> 2 * unat (rb_size r) then Some (get_ring (rb_size r) p n (rb_data r)) else None)"

section \<open>The copier\<close>

definition kNumAllocators :: u8 where "kNumAllocators = 16"

text \<open>What is given to \<^verbatim>\<open>enso::send\<close>: the queue, the ring, the physical address and the length.\<close>

type_synonym transmission = "int \<times> nat \<times> u64 \<times> int"

record copier =
  pc_rings :: "ring_memory list"
  pc_rr_idx :: u8
  pc_pending :: "(u8 \<times> u64) option list"
  pc_head :: u32
  pc_tail :: u32
  pc_recv_bytes :: u64
  pc_nb_batches :: u64
  pc_nb_pkts :: u64
  pc_sent :: "transmission list"

text \<open>
  The Enso library: how it reads the length of a packet from its bytes, and how many transmissions
  it holds at most.
\<close>

record enso_library =
  el_pkt_len :: "u8 list \<Rightarrow> u16"
  el_max_pending :: u32

definition copier_start :: "enso_library \<Rightarrow> (nat \<Rightarrow> u64) \<Rightarrow> copier" where
  "copier_start lib paddr =
     \<lparr>pc_rings = map (\<lambda>i. ring_initialize kHugePageSize (paddr i)) [0..<unat kNumAllocators], pc_rr_idx = 0,
      pc_pending = replicate (unat (el_max_pending lib + 1)) None, pc_head = 0, pc_tail = 0,
      pc_recv_bytes = 0, pc_nb_batches = 0, pc_nb_pkts = 0, pc_sent = []\<rparr>"

text \<open>The length of a packet in whole cache lines, in 16 bits; \<open>pkt_len - 1\<close> is an \<^verbatim>\<open>int\<close>.\<close>

definition pkt_aligned_len :: "u16 \<Rightarrow> u16" where
  "pkt_aligned_len pkt_len =
     (let nb_flits = of_nat ((unat pkt_len - 1) div 64 + 1) :: u16 in nb_flits * 64)"

text \<open>The bytes 0 to 5 of a packet are its destination, 6 to 11 its source.\<close>

definition swap_macs :: "u64 \<Rightarrow> ring_memory \<Rightarrow> ring_memory option" where
  "swap_macs response r =
     do {
       original_src_mac \<leftarrow> ring_read (response + 6) 6 r;
       d_addr \<leftarrow> ring_read response 6 r;
       r \<leftarrow> ring_write (response + 6) d_addr r;
       ring_write response original_src_mac r
     }"

text \<open>A packet of a batch, the one at \<open>processed_bytes\<close>: where the next one is, and the copier after it.\<close>

definition copy_packet :: "enso_library \<Rightarrow> u8 list \<Rightarrow> nat \<Rightarrow> copier \<Rightarrow> (nat \<times> copier) option" where
  "copy_packet lib buf processed_bytes c =
     do {
       let pkt = drop processed_bytes buf;
       let aligned = pkt_aligned_len (el_pkt_len lib pkt);
       r \<leftarrow> elem_at (pc_rings c) (unat (pc_rr_idx c));
       let (response, r) = ring_allocate (ucast aligned) r;
       response \<leftarrow> response;
       r \<leftarrow> (if unat aligned \<le> length pkt then ring_write response (take (unat aligned) pkt) r else None);
       r \<leftarrow> swap_macs response r;
       Some (processed_bytes + unat aligned,
         c\<lparr>pc_rings := (pc_rings c)[unat (pc_rr_idx c) := r], pc_nb_pkts := pc_nb_pkts c + 1\<rparr>)
     }"

partial_function (option) copy_packets :: "enso_library \<Rightarrow> u8 list \<Rightarrow> int \<Rightarrow> nat \<Rightarrow> copier \<Rightarrow> copier option" where
  "copy_packets lib buf recv_len processed_bytes c =
     (if int processed_bytes < recv_len
      then do {
        (processed_bytes, c) \<leftarrow> copy_packet lib buf processed_bytes c;
        copy_packets lib buf recv_len processed_bytes c
      }
      else Some c)"

declare copy_packets.simps [code]

text \<open>A batch of \<open>recv_len > 0\<close> bytes: copied, sent, and noted to be freed once it has left.\<close>

definition copy_batch :: "enso_library \<Rightarrow> int \<Rightarrow> int \<Rightarrow> u8 list \<Rightarrow> copier \<Rightarrow> copier option" where
  "copy_batch lib socket_fd recv_len buf c =
     do {
       r \<leftarrow> elem_at (pc_rings c) (unat (pc_rr_idx c));
       let phys_addr = get_alloc_paddr r;
       c \<leftarrow> copy_packets lib buf recv_len 0 c;
       let c = c\<lparr>pc_nb_batches := pc_nb_batches c + 1, pc_recv_bytes := pc_recv_bytes c + of_int recv_len,
           pc_sent := pc_sent c @ [(socket_fd, unat (pc_rr_idx c), phys_addr, recv_len)]\<rparr>;
       _ \<leftarrow> elem_at (pc_pending c) (unat (pc_tail c));
       Some (c\<lparr>pc_pending := (pc_pending c)[unat (pc_tail c) := Some (pc_rr_idx c, of_int recv_len)],
          pc_tail := (pc_tail c + 1) mod (el_max_pending lib + 1),
          pc_rr_idx := (pc_rr_idx c + 1) mod kNumAllocators\<rparr>)
     }"

text \<open>One completion: the oldest transmission is freed. A slot that was never written is undefined.\<close>

definition complete_one :: "enso_library \<Rightarrow> copier \<Rightarrow> copier option" where
  "complete_one lib c =
     do {
       slot \<leftarrow> elem_at (pc_pending c) (unat (pc_head c));
       (alloc_idx, len) \<leftarrow> slot;
       r \<leftarrow> elem_at (pc_rings c) (unat alloc_idx);
       Some (c\<lparr>pc_rings := (pc_rings c)[unat alloc_idx := ring_deallocate len r],
          pc_head := (pc_head c + 1) mod (el_max_pending lib + 1)\<rparr>)
     }"

fun complete_sent :: "enso_library \<Rightarrow> nat \<Rightarrow> copier \<Rightarrow> copier option" where
  "complete_sent lib 0 c = Some c"
| "complete_sent lib (Suc n) c = do { c \<leftarrow> complete_one lib c; complete_sent lib n c }"

text \<open>A turn of the main loop; a negative length makes the program exit.\<close>

datatype turned = Exits | Goes_on copier

definition copy_turn :: "enso_library \<Rightarrow> int \<Rightarrow> int \<Rightarrow> u8 list \<Rightarrow> nat \<Rightarrow> copier \<Rightarrow> turned option" where
  "copy_turn lib socket_fd recv_len buf nb_tx_completions c =
     (if recv_len < 0 then Some Exits
      else do {
        c \<leftarrow> (if recv_len > 0 then copy_batch lib socket_fd recv_len buf c else Some c);
        c \<leftarrow> complete_sent lib nb_tx_completions c;
        Some (Goes_on c)
      })"

end
