(* ===== verification/Packet_Flights.thy ===== *)
theory Packet_Flights
  imports Packet_Copy
begin

text \<open>
  What the copier of \<open>Packet_Copy\<close> does with the packets it is given. A ring \<open>holds\<close> the bytes that are
  not free, oldest first: an allocation appends, a release drops from the front. A batch appends its
  packets, turned round, and the pending requests are the batches in flight. \<open>flights\<close> says what is in
  flight without any of this; the runs of the copier implement it, as long as the turns fit
  (\<open>turns_fit\<close>).
\<close>

section \<open>What a ring holds\<close>

lemma max_size [simp]: "unat kMaxBufferSize = 2 ^ 21"
  by (simp add: kMaxBufferSize_def kHugePageSize_def)

definition cell :: "ring_memory \<Rightarrow> nat \<Rightarrow> u8" where
  "cell r i = rb_data r (of_nat (i mod 2 ^ 21))"

text \<open>Where the oldest byte lies that is not free, up to turns of the ring.\<close>

definition base :: "ring_memory \<Rightarrow> nat" where
  "base r = unat (rb_alloc_offset r) + unat (rb_free_capacity r)"

definition holds :: "ring_memory \<Rightarrow> u8 list \<Rightarrow> bool" where
  "holds r bs \<longleftrightarrow> rb_size r = kMaxBufferSize \<and> unat (rb_alloc_offset r) < 2 ^ 21 \<and> length bs + unat (rb_free_capacity r) = 2 ^ 21
     \<and> (\<forall>j<length bs. cell r (base r + j) = bs ! j)"

text \<open>The pointer \<open>q\<close> is to byte \<open>i\<close> of what is held.\<close>

definition points :: "ring_memory \<Rightarrow> nat \<Rightarrow> u64 \<Rightarrow> bool" where
  "points r i q \<longleftrightarrow> unat q < 2 ^ 22 \<and> unat q mod 2 ^ 21 = (base r + i) mod 2 ^ 21"

lemma word_mod_size: "(p :: u64) mod kMaxBufferSize = of_nat (unat p mod 2 ^ 21)"
  by (rule word_unat_eq_iff [THEN iffD2]) (simp add: unat_mod_distrib unat_of_nat mod_less [OF less_trans])

lemma of_nat_mod_inj: "(of_nat (i mod 2 ^ 21) :: u64) = of_nat (j mod 2 ^ 21) \<longleftrightarrow> i mod 2 ^ 21 = j mod 2 ^ (21 :: nat)"
proof -
  have "unat (of_nat (k mod 2 ^ 21) :: u64) = k mod 2 ^ 21" for k :: nat
    by (simp add: unat_of_nat mod_less [OF less_trans])
  then show ?thesis by metis
qed

text \<open>A write changes the next positions of the ring and no others.\<close>

lemma put_ring_cells:
  assumes "length bs \<le> 2 ^ 21" "k < 2 ^ 21" "unat p + length bs < 2 ^ 64"
  shows "put_ring kMaxBufferSize p bs d (of_nat ((unat p + k) mod 2 ^ 21))
    = (if k < length bs then bs ! k else d (of_nat ((unat p + k) mod 2 ^ 21)))"
  using assms
proof (induction bs arbitrary: p d k)
  case (Cons b bs)
  have p1: "unat (p + 1) = Suc (unat p)" using Cons.prems(3) by (simp add: unat_add_no_overflow)
  show ?case
  proof (cases k)
    case 0
    have "(unat p) mod 2 ^ 21 = (unat (p + 1) + (2 ^ 21 - 1)) mod 2 ^ 21"
      using mod_add_self2 [of "unat p" "2 ^ 21"] p1 by simp
    moreover have "put_ring kMaxBufferSize (p + 1) bs (d(p mod kMaxBufferSize := b)) (of_nat ((unat (p + 1) + (2 ^ 21 - 1)) mod 2 ^ 21))
      = (d(p mod kMaxBufferSize := b)) (of_nat ((unat (p + 1) + (2 ^ 21 - 1)) mod 2 ^ 21))"
      using Cons.IH [of "2 ^ 21 - 1" "p + 1"] Cons.prems p1 by simp
    ultimately show ?thesis using 0 by (simp add: word_mod_size)
  next
    case (Suc j)
    have e: "unat (p + 1) + j = unat p + k" using p1 Suc by simp
    have ne: "(unat p + k) mod 2 ^ 21 \<noteq> unat p mod 2 ^ 21"
      using ring_dist_inj [of k "2 ^ 21" 0 "unat p"] Suc Cons.prems(2) by auto
    have "put_ring kMaxBufferSize (p + 1) bs (d(p mod kMaxBufferSize := b)) (of_nat ((unat p + k) mod 2 ^ 21))
      = (if j < length bs then bs ! j else (d(p mod kMaxBufferSize := b)) (of_nat ((unat p + k) mod 2 ^ 21)))"
      using Cons.IH [of j "p + 1"] Cons.prems p1 Suc e by simp
    then show ?thesis using Suc ne of_nat_mod_inj [of "unat p + k" "unat p"] by (simp add: word_mod_size del: of_nat_mod)
  qed
qed simp

lemma points_add: "points r i q \<Longrightarrow> unat q + n < 2 ^ 22 \<Longrightarrow> points r (i + n) (q + of_nat n)"
proof -
  assume a: "points r i q" "unat q + n < 2 ^ 22"
  have n: "unat (of_nat n :: u64) = n" using a(2) by (simp add: unat_of_nat)
  have u: "unat (q + of_nat n) = unat q + n" using a(2) n by (simp add: unat_add_no_overflow)
  have "(unat q + n) mod 2 ^ 21 = (base r + i + n) mod 2 ^ 21"
    using a(1) unfolding points_def by (intro mod_add_cong) simp_all
  then show ?thesis using a(2) unfolding points_def u by (simp add: add.assoc)
qed

lemma holds_read:
  assumes h: "holds r bs" and q: "points r i q" and n: "i + n \<le> length bs"
  shows "get_ring kMaxBufferSize q n (rb_data r) = take n (drop i bs)"
proof (rule nth_equalityI)
  show "length (get_ring kMaxBufferSize q n (rb_data r)) = length (take n (drop i bs))" using n by (simp add: get_ring_def)
  fix j assume "j < length (get_ring kMaxBufferSize q n (rb_data r))"
  then have j: "j < n" by (simp add: get_ring_def)
  have b: "n \<le> 2 ^ 21" using h n by (simp add: holds_def)
  have "unat (q + of_nat j) = unat q + j" using q j b by (simp add: points_def unat_add_no_overflow unat_of_nat)
  then have "(q + of_nat j) mod kMaxBufferSize = of_nat ((base r + i + j) mod 2 ^ 21)"
    unfolding word_mod_size using q by (metis points_def mod_add_left_eq)
  then have "get_ring kMaxBufferSize q n (rb_data r) ! j = cell r (base r + (i + j))"
    using j by (simp add: get_ring_def cell_def add.assoc)
  then show "get_ring kMaxBufferSize q n (rb_data r) ! j = take n (drop i bs) ! j"
    using h n j by (simp add: holds_def)
qed

lemma holds_ring_read:
  assumes "holds r bs" "points r i q" "i + n \<le> length bs" "unat q + n \<le> 2 ^ 22"
  shows "ring_read q n r = Some (take n (drop i bs))"
  using assms holds_read [OF assms(1-3)] by (simp add: ring_read_def holds_def)

lemma holds_write:
  assumes h: "holds r bs" and q: "points r i q" and n: "i + length xs \<le> length bs" and u: "unat q + length xs \<le> 2 ^ 22"
  shows "\<exists>d. ring_write q xs r = Some (r\<lparr>rb_data := d\<rparr>) \<and> holds (r\<lparr>rb_data := d\<rparr>) (take i bs @ xs @ drop (i + length xs) bs)"
proof -
  let ?d = "put_ring kMaxBufferSize q xs (rb_data r)" and ?bs = "take i bs @ xs @ drop (i + length xs) bs"
  have sz: "rb_size r = kMaxBufferSize" "length bs \<le> 2 ^ 21" using h by (simp_all add: holds_def)
  have "cell (r\<lparr>rb_data := ?d\<rparr>) (base r + j) = ?bs ! j" if j: "j < length bs" for j
  proof -
    let ?k = "(j + 2 ^ 21 - i) mod 2 ^ 21"
    have i: "i \<le> length bs" using n by simp
    have k: "?k < 2 ^ 21" "?k = (if i \<le> j then j - i else j + 2 ^ 21 - i)" using j i sz(2) by (auto simp: mod_if)
    have "(unat q + ?k) mod 2 ^ 21 = (base r + i + ?k) mod 2 ^ 21" using q by (metis points_def mod_add_left_eq)
    also have "\<dots> = (base r + i + (j + 2 ^ 21 - i)) mod 2 ^ 21" by (rule mod_add_right_eq)
    also have "base r + i + (j + 2 ^ 21 - i) = base r + j + 2 ^ 21" using i sz(2) by simp
    finally have pos: "(unat q + ?k) mod 2 ^ 21 = (base r + j) mod 2 ^ 21" by simp
    have "cell (r\<lparr>rb_data := ?d\<rparr>) (base r + j) = (if ?k < length xs then xs ! ?k else cell r (base r + j))"
      using put_ring_cells [of xs ?k q "rb_data r"] n sz(2) k(1) u unfolding pos by (simp add: cell_def)
    also have "\<dots> = ?bs ! j" using h j k(2) n i sz(2) by (auto simp: holds_def nth_append)
    finally show ?thesis .
  qed
  then have "holds (r\<lparr>rb_data := ?d\<rparr>) ?bs" using h n by (simp add: holds_def base_def)
  moreover have "ring_write q xs r = Some (r\<lparr>rb_data := ?d\<rparr>)" using sz(1) u by (simp add: ring_write_def)
  ultimately show ?thesis by blast
qed

definition same_base :: "ring_memory \<Rightarrow> ring_memory \<Rightarrow> bool" where
  "same_base r r' \<longleftrightarrow> base r' mod 2 ^ 21 = base r mod 2 ^ 21 \<and> rb_paddr r' = rb_paddr r"

lemma same_base_refl [simp]: "same_base r r" "same_base r (r\<lparr>rb_data := d\<rparr>)"
  by (simp_all add: same_base_def base_def)

lemma same_base_trans: "same_base r s \<Longrightarrow> same_base s t \<Longrightarrow> same_base r t"
  by (simp add: same_base_def)

lemma points_base: "same_base r r' \<Longrightarrow> points r' i q \<longleftrightarrow> points r i q"
  unfolding points_def same_base_def by (metis mod_add_left_eq)

lemma cell_mod: "i mod 2 ^ 21 = j mod 2 ^ 21 \<Longrightarrow> cell r i = cell r j"
  by (simp add: cell_def)

text \<open>An allocation takes over the bytes that were there.\<close>

lemma holds_allocate:
  assumes h: "holds r bs" and n: "unat sz = n" "length bs + n \<le> 2 ^ 21"
  shows "\<exists>r' old. ring_allocate sz r = (Some (rb_alloc_offset r), r') \<and> holds r' (bs @ old) \<and> length old = n
    \<and> same_base r r' \<and> points r (length bs) (rb_alloc_offset r)"
proof -
  let ?o = "unat (rb_alloc_offset r)" and ?f = "unat (rb_free_capacity r)"
  let ?r = "r\<lparr>rb_alloc_offset := (rb_alloc_offset r + sz) mod kMaxBufferSize, rb_free_capacity := rb_free_capacity r - sz\<rparr>"
  have H: "?o < 2 ^ 21" "length bs + ?f = 2 ^ 21" "rb_size r = kMaxBufferSize" using h by (simp_all add: holds_def)
  have le: "sz \<le> rb_free_capacity r" using H(2) n by (simp add: word_le_nat_alt)
  have f: "unat (rb_free_capacity ?r) = ?f - n" using unat_sub_le [OF le] n(1) by simp
  have o: "unat (rb_alloc_offset ?r) = (?o + n) mod 2 ^ 21"
    using H(1) n by (simp add: unat_mod_distrib unat_add_no_overflow)
  have "base ?r mod 2 ^ 21 = (?o + n + (?f - n)) mod 2 ^ 21" unfolding base_def o f by (rule mod_add_left_eq)
  then have b: "same_base r ?r" using H(2) n(2) by (simp add: same_base_def base_def)
  let ?old = "map (\<lambda>j. cell r (base r + (length bs + j))) [0..<n]"
  have "cell ?r (base ?r + j) = (bs @ ?old) ! j" if "j < length bs + n" for j
  proof -
    have "cell ?r (base ?r + j) = cell r (base r + j)"
      using b by (simp add: same_base_def cell_def) (metis mod_add_left_eq)
    then show ?thesis using h that by (auto simp: holds_def nth_append)
  qed
  then have "holds ?r (bs @ ?old)" using H n f o unfolding holds_def by simp
  moreover have "points r (length bs) (rb_alloc_offset r)"
  proof -
    have "base r + length bs = ?o + 2 ^ 21" using H(2) by (simp add: base_def)
    then show ?thesis using H(1) by (simp add: points_def)
  qed
  moreover have "ring_allocate sz r = (Some (rb_alloc_offset r), ?r)" using le by (simp add: ring_allocate_def not_less)
  ultimately show ?thesis using b by (intro exI [of _ ?r] exI [of _ ?old]) simp
qed

text \<open>A release gives up the oldest bytes.\<close>

lemma holds_deallocate:
  assumes h: "holds r bs" and n: "unat sz = n" "n \<le> length bs"
  shows "holds (ring_deallocate sz r) (drop n bs)" "base (ring_deallocate sz r) = base r + n"
proof -
  have f: "unat (rb_free_capacity (ring_deallocate sz r)) = unat (rb_free_capacity r) + n"
    using h n by (simp add: ring_deallocate_def holds_def unat_add_no_overflow)
  then show b: "base (ring_deallocate sz r) = base r + n" by (simp add: base_def ring_deallocate_def)
  have "cell (ring_deallocate sz r) (base r + n + j) = drop n bs ! j" if "j < length bs - n" for j
    using h that n(2) by (simp add: holds_def ring_deallocate_def cell_def add.assoc)
  then show "holds (ring_deallocate sz r) (drop n bs)" using h n f b by (simp add: holds_def ring_deallocate_def)
qed

section \<open>Copying the packets of a batch\<close>

definition turn_macs :: "u8 list \<Rightarrow> u8 list" where
  "turn_macs pkt = take 6 (drop 6 pkt) @ take 6 pkt @ drop 12 pkt"

lemma length_turn_macs [simp]: "12 \<le> length pkt \<Longrightarrow> length (turn_macs pkt) = length pkt"
  by (simp add: turn_macs_def)

lemma swap_macs_ok:
  assumes h: "holds r (bs @ pkt)" and q: "points r (length bs) q" and n: "12 \<le> length pkt" and u: "unat q < 2 ^ 21"
  shows "\<exists>d. swap_macs q r = Some (r\<lparr>rb_data := d\<rparr>) \<and> holds (r\<lparr>rb_data := d\<rparr>) (bs @ turn_macs pkt)"
proof -
  have q6: "points r (length bs + 6) (q + 6)" using points_add [OF q, of 6] u by simp
  have u6: "unat (q + 6) = unat q + 6" using u by (simp add: unat_add_no_overflow)
  have s: "ring_read (q + 6) 6 r = Some (take 6 (drop 6 pkt))"
    using holds_ring_read [OF h q6, of 6] n u u6 by simp
  have d: "ring_read q 6 r = Some (take 6 pkt)"
    using holds_ring_read [OF h q, of 6] n u by simp
  obtain d1 where d1: "ring_write (q + 6) (take 6 pkt) r = Some (r\<lparr>rb_data := d1\<rparr>)"
    "holds (r\<lparr>rb_data := d1\<rparr>) (take (length bs + 6) (bs @ pkt) @ take 6 pkt @ drop (length bs + 12) (bs @ pkt))"
    using holds_write [OF h q6, of "take 6 pkt"] n u u6 by auto
  have q': "points (r\<lparr>rb_data := d1\<rparr>) (length bs) q" using q by (simp add: points_base [OF same_base_refl(2)])
  obtain d2 where d2: "ring_write q (take 6 (drop 6 pkt)) (r\<lparr>rb_data := d1\<rparr>) = Some (r\<lparr>rb_data := d2\<rparr>)"
    "holds (r\<lparr>rb_data := d2\<rparr>) (bs @ turn_macs pkt)"
    using holds_write [OF d1(2) q', of "take 6 (drop 6 pkt)"] n u by (auto simp: turn_macs_def)
  then show ?thesis using s d d1(1) by (intro exI [of _ d2]) (simp add: swap_macs_def)
qed

lemma copy_one:
  assumes h: "holds r bs" and n: "length bs + length pkt \<le> 2 ^ 21" "12 \<le> length pkt" "unat sz = length pkt"
  shows "\<exists>r1 r2 r'. ring_allocate sz r = (Some (rb_alloc_offset r), r1) \<and> ring_write (rb_alloc_offset r) pkt r1 = Some r2
    \<and> swap_macs (rb_alloc_offset r) r2 = Some r' \<and> holds r' (bs @ turn_macs pkt) \<and> same_base r r'"
proof -
  obtain r1 old where r1: "ring_allocate sz r = (Some (rb_alloc_offset r), r1)" "holds r1 (bs @ old)" "length old = length pkt"
    "same_base r r1" "points r (length bs) (rb_alloc_offset r)"
    using holds_allocate [OF h n(3,1)] by blast
  have u: "unat (rb_alloc_offset r) < 2 ^ 21" using h by (simp add: holds_def)
  have p1: "points r1 (length bs) (rb_alloc_offset r)" using r1(5) points_base [OF r1(4)] by simp
  obtain d where d: "ring_write (rb_alloc_offset r) pkt r1 = Some (r1\<lparr>rb_data := d\<rparr>)" "holds (r1\<lparr>rb_data := d\<rparr>) (bs @ pkt)"
    using holds_write [OF r1(2) p1, of pkt] r1(3) n(1) u by auto
  have p2: "points (r1\<lparr>rb_data := d\<rparr>) (length bs) (rb_alloc_offset r)" using p1 by (simp add: points_base [OF same_base_refl(2)])
  obtain d' where d': "swap_macs (rb_alloc_offset r) (r1\<lparr>rb_data := d\<rparr>) = Some (r1\<lparr>rb_data := d'\<rparr>)"
    "holds (r1\<lparr>rb_data := d'\<rparr>) (bs @ turn_macs pkt)"
    using swap_macs_ok [OF d(2) p2 n(2) u] by auto
  then show ?thesis using r1(1,4) d(1) by (intro exI [of _ r1] exI [of _ "r1\<lparr>rb_data := d\<rparr>"] exI [of _ "r1\<lparr>rb_data := d'\<rparr>"])
    (simp add: same_base_def base_def)
qed

text \<open>The bytes of a batch, in packets of whole cache lines.\<close>

fun packets_in :: "enso_library \<Rightarrow> u8 list list \<Rightarrow> u8 list \<Rightarrow> bool" where
  "packets_in lib [] buf \<longleftrightarrow> True"
| "packets_in lib (p # ps) buf \<longleftrightarrow> length p \<le> length buf \<and> p = take (length p) buf \<and> p \<noteq> []
     \<and> length p = unat (pkt_aligned_len (el_pkt_len lib buf)) \<and> packets_in lib ps (drop (length p) buf)"

lemma aligned_lines: "unat (pkt_aligned_len n) mod 64 = 0"
  unfolding pkt_aligned_len_def Let_def unat_word_ariths by (simp add: mod_mult_mult1 [of 64 _ 1024, simplified] mod_mod_cancel)

lemma packet_size: "packets_in lib (p # ps) buf \<Longrightarrow> 12 \<le> length p"
proof -
  assume a: "packets_in lib (p # ps) buf"
  then have "length p mod 64 = 0" "0 < length p" using aligned_lines by auto
  then show ?thesis by (cases "length p < 64") simp_all
qed

lemma copy_packets_ok:
  assumes "packets_in lib ps (drop k buf)" "unat (pc_rr_idx c) < length (pc_rings c)" "pc_rings c ! unat (pc_rr_idx c) = r"
    "holds r bs" "length bs + length (concat ps) \<le> 2 ^ 21"
  shows "\<exists>r'. copy_packets lib buf (int (k + length (concat ps))) k c
      = Some (c\<lparr>pc_rings := (pc_rings c)[unat (pc_rr_idx c) := r'], pc_nb_pkts := pc_nb_pkts c + of_nat (length ps)\<rparr>)
    \<and> holds r' (bs @ concat (map turn_macs ps)) \<and> same_base r r'"
  using assms
proof (induction ps arbitrary: k c r bs)
  case Nil
  have "c\<lparr>pc_rings := (pc_rings c)[unat (pc_rr_idx c) := r], pc_nb_pkts := pc_nb_pkts c\<rparr> = c" using Nil.prems(3) by auto
  then show ?case using Nil by (subst copy_packets.simps) (auto intro!: exI [of _ r])
next
  case (Cons p ps)
  let ?i = "unat (pc_rr_idx c)" and ?al = "pkt_aligned_len (el_pkt_len lib (drop k buf))"
  have p: "length p \<le> length (drop k buf)" "p = take (length p) (drop k buf)" "length p = unat ?al" "packets_in lib ps (drop (k + length p) buf)"
    using Cons.prems(1) unfolding packets_in.simps drop_drop add.commute [of "length p" k] by blast+
  have n: "12 \<le> length p" by (rule packet_size [OF Cons.prems(1)])
  have sz: "unat (ucast ?al :: u64) = length p" unfolding p(3) using unsigned_less [of ?al, where ?'a = nat] by (simp add: unat_ucast_mod)
  obtain r1 r2 r' where r: "ring_allocate (ucast ?al) r = (Some (rb_alloc_offset r), r1)" "ring_write (rb_alloc_offset r) p r1 = Some r2"
    "swap_macs (rb_alloc_offset r) r2 = Some r'" "holds r' (bs @ turn_macs p)" "same_base r r'"
    using copy_one [OF Cons.prems(4) _ n sz] Cons.prems(5) by auto
  let ?c = "c\<lparr>pc_rings := (pc_rings c)[?i := r'], pc_nb_pkts := pc_nb_pkts c + 1\<rparr>"
  have step: "copy_packets lib buf (int (k + length (concat (p # ps)))) k c
      = copy_packets lib buf (int ((k + length p) + length (concat ps))) (k + length p) ?c"
    using Cons.prems(2,3) r(1-3) p(1,2) n by (subst copy_packets.simps) (simp add: copy_packet_def elem_at_def p(3) [symmetric] Let_def add.assoc)
  obtain r'' where r'': "copy_packets lib buf (int ((k + length p) + length (concat ps))) (k + length p) ?c
      = Some (?c\<lparr>pc_rings := (pc_rings ?c)[?i := r''], pc_nb_pkts := pc_nb_pkts ?c + of_nat (length ps)\<rparr>)"
    "holds r'' ((bs @ turn_macs p) @ concat (map turn_macs ps))" "same_base r' r''"
    using Cons.IH [OF p(4), of ?c r' "bs @ turn_macs p"] Cons.prems(2,5) r(4) n by auto
  then show ?case using step same_base_trans [OF r(5)] by (intro exI [of _ r'']) (simp add: algebra_simps)
qed

section \<open>Packets in flight\<close>

text \<open>What has been given to the library and not been reported back: the ring and the bytes of each batch, oldest first.\<close>

type_synonym flight = "(nat \<times> u8 list) list"

definition held :: "nat \<Rightarrow> flight \<Rightarrow> u8 list" where
  "held i fl = concat (map snd (filter (\<lambda>e. fst e = i) fl))"

definition slot :: "nat \<times> u8 list \<Rightarrow> (u8 \<times> u64) option" where
  "slot e = Some (of_nat (fst e), of_nat (length (snd e)))"

definition sent_as :: "ring_memory list \<Rightarrow> flight \<Rightarrow> nat \<Rightarrow> transmission \<Rightarrow> bool" where
  "sent_as rings fl j tx = (case tx of (fd, i, a, len) \<Rightarrow> i = fst (fl ! j) \<and> len = int (length (snd (fl ! j)))
     \<and> points (rings ! i) (length (held i (take j fl))) (a - rb_paddr (rings ! i)))"

definition copier_ok :: "enso_library \<Rightarrow> copier \<Rightarrow> flight \<Rightarrow> bool" where
  "copier_ok lib c fl \<longleftrightarrow> (let cap = unat (el_max_pending lib + 1); h = unat (pc_head c); t = unat (pc_tail c) in
     length (pc_pending c) = cap \<and> h < cap \<and> t < cap \<and> ring_list cap h t (pc_pending c) = map slot fl)
   \<and> length (pc_rings c) = 16 \<and> unat (pc_rr_idx c) < 16 \<and> (\<forall>e \<in> set fl. fst e < 16)
   \<and> (\<forall>i<16. holds (pc_rings c ! i) (held i fl))
   \<and> length fl \<le> length (pc_sent c)
   \<and> (\<forall>j<length fl. sent_as (pc_rings c) fl j (pc_sent c ! (length (pc_sent c) - length fl + j)))"

lemma held_simps [simp]:
  "held i [] = []" "held i (e # fl) = (if fst e = i then snd e else []) @ held i fl"
  "held i (fl @ gl) = held i fl @ held i gl"
  by (simp_all add: held_def)

lemma holds_points: "holds r bs \<Longrightarrow> points r (length bs) (rb_alloc_offset r)"
proof -
  assume h: "holds r bs"
  then have "base r + length bs = unat (rb_alloc_offset r) + 2 ^ 21" by (simp add: holds_def base_def)
  then show ?thesis using h by (simp add: points_def holds_def)
qed

lemma length_turned: "packets_in lib ps buf \<Longrightarrow> length (concat (map turn_macs ps)) = length (concat ps)"
proof (induction lib ps buf rule: packets_in.induct)
  case (2 lib p ps buf)
  have "packets_in lib ps (drop (length p) buf)" using "2.prems" unfolding packets_in.simps by blast
  then show ?case using "2.IH" packet_size [OF "2.prems"] by simp
qed simp

lemma ring_push_pending:
  assumes "length xs = c" "h < c" "t < c" "ring_list c h t xs = map slot fl" "Suc (length fl) < c"
  shows "ring_list c h (Suc t mod c) (xs[t := v]) = map slot fl @ [v]"
proof -
  have "Suc t mod c \<noteq> h"
    using ring_full_iff [OF assms(2,3)] assms(5) arg_cong [OF assms(4), of length] by simp
  then show ?thesis using ring_list_push [OF assms(2,3,1)] assms(4) by simp
qed

lemma unat_next_slot: "unat (t :: u32) < unat (k + 1) \<Longrightarrow> unat ((t + 1) mod (k + 1)) = Suc (unat t) mod unat (k + 1)"
proof -
  assume a: "unat t < unat (k + 1)"
  then have "t < k + 1" by (simp add: word_less_nat_alt)
  then show ?thesis by (simp only: unat_mod_distrib unat_Suc_bound)
qed

lemma copy_batch_ok:
  assumes ok: "copier_ok lib c fl" and ps: "packets_in lib ps buf" and few: "length fl < unat (el_max_pending lib)" "el_max_pending lib < - 1"
    and room: "length (held (unat (pc_rr_idx c)) fl) + length (concat ps) \<le> 2 ^ 21"
  shows "\<exists>c' a. copy_batch lib fd (int (length (concat ps))) buf c = Some c'
    \<and> copier_ok lib c' (fl @ [(unat (pc_rr_idx c), concat (map turn_macs ps))]) \<and> unat (pc_rr_idx c') = Suc (unat (pc_rr_idx c)) mod 16
    \<and> pc_sent c' = pc_sent c @ [(fd, a)]"
proof -
  let ?i = "unat (pc_rr_idx c)" and ?cap = "unat (el_max_pending lib + 1)" and ?n = "length (concat ps)"
  let ?e = "(?i, concat (map turn_macs ps))"
  have cap: "?cap = Suc (unat (el_max_pending lib))" by (rule unat_Suc_bound [OF few(2)])
  have P: "length (pc_pending c) = ?cap" "unat (pc_head c) < ?cap" "unat (pc_tail c) < ?cap"
    "ring_list ?cap (unat (pc_head c)) (unat (pc_tail c)) (pc_pending c) = map slot fl"
    and R: "length (pc_rings c) = 16" "?i < 16" "\<forall>e \<in> set fl. fst e < 16" "\<forall>i<16. holds (pc_rings c ! i) (held i fl)"
    and S: "length fl \<le> length (pc_sent c)" "\<forall>j<length fl. sent_as (pc_rings c) fl j (pc_sent c ! (length (pc_sent c) - length fl + j))"
    using ok unfolding copier_ok_def Let_def by blast+
  define r where "r = pc_rings c ! ?i"
  have h: "holds r (held ?i fl)" using R by (simp add: r_def)
  obtain r' where r': "copy_packets lib buf (int ?n) 0 c
      = Some (c\<lparr>pc_rings := (pc_rings c)[?i := r'], pc_nb_pkts := pc_nb_pkts c + of_nat (length ps)\<rparr>)"
    "holds r' (held ?i fl @ concat (map turn_macs ps))" "same_base r r'"
    using copy_packets_ok [of lib ps 0 buf c r "held ?i fl"] ps R(1,2) r_def h room by auto
  let ?tx = "(fd, ?i, get_alloc_paddr r, int ?n)"
  let ?c = "c\<lparr>pc_rings := (pc_rings c)[?i := r'], pc_pending := (pc_pending c)[unat (pc_tail c) := Some (pc_rr_idx c, of_int (int ?n))],
     pc_tail := (pc_tail c + 1) mod (el_max_pending lib + 1), pc_rr_idx := (pc_rr_idx c + 1) mod kNumAllocators,
     pc_recv_bytes := pc_recv_bytes c + of_int (int ?n), pc_nb_batches := pc_nb_batches c + 1, pc_nb_pkts := pc_nb_pkts c + of_nat (length ps),
     pc_sent := pc_sent c @ [?tx]\<rparr>"
  have run: "copy_batch lib fd (int ?n) buf c = Some ?c"
    using R(1,2) P(1,3) r'(1) by (simp add: copy_batch_def elem_at_def r_def Let_def)
  have rr: "unat (pc_rr_idx ?c) = Suc ?i mod 16"
    using R(2) by (simp add: kNumAllocators_def unat_mod_distrib unat_add_no_overflow)
  have "Some (pc_rr_idx c, of_int (int ?n)) = slot ?e" using length_turned [OF ps] by (simp add: slot_def)
  then have pend: "ring_list ?cap (unat (pc_head ?c)) (unat (pc_tail ?c)) (pc_pending ?c) = map slot (fl @ [?e])"
    using ring_push_pending [OF P, of "slot ?e"] few(1) cap by (simp add: unat_next_slot [OF P(3)])
  have tail: "unat (pc_tail ?c) < ?cap" using cap by (simp add: unat_next_slot [OF P(3)])
  have points: "points (pc_rings ?c ! i) k q \<longleftrightarrow> points (pc_rings c ! i) k q" "rb_paddr (pc_rings ?c ! i) = rb_paddr (pc_rings c ! i)" for i k q
    using r'(3) points_base [OF r'(3)] R(1,2) by (auto simp: nth_list_update same_base_def r_def)
  have rings: "\<forall>i<16. holds (pc_rings ?c ! i) (held i (fl @ [?e]))" using R r'(2) by (simp add: nth_list_update)
  have "sent_as (pc_rings ?c) (fl @ [?e]) j (pc_sent ?c ! (length (pc_sent ?c) - length (fl @ [?e]) + j))" if "j < Suc (length fl)" for j
  proof (cases "j = length fl")
    case True
    have "points r (length (held ?i fl)) (get_alloc_paddr r - rb_paddr r)" using holds_points [OF h] by (simp add: get_alloc_paddr_def)
    then have "sent_as (pc_rings ?c) (fl @ [?e]) j ?tx"
      unfolding sent_as_def split points using True length_turned [OF ps] by (simp add: r_def)
    moreover have "pc_sent ?c ! (length (pc_sent ?c) - length (fl @ [?e]) + j) = ?tx" using True S(1) by (simp add: nth_append)
    ultimately show ?thesis by (simp only:)
  next
    case False
    then have j: "j < length fl" using that by simp
    then have "sent_as (pc_rings ?c) (fl @ [?e]) j tx = sent_as (pc_rings c) fl j tx" for tx
      unfolding sent_as_def points by (simp add: nth_append)
    moreover have "pc_sent ?c ! (length (pc_sent ?c) - length (fl @ [?e]) + j) = pc_sent c ! (length (pc_sent c) - length fl + j)"
    proof -
      have "length (pc_sent c) - length fl + j < length (pc_sent c)" using j S(1) by arith
      from nth_append_left [OF this, of "[?tx]"]
      have "(pc_sent c @ [?tx]) ! (length (pc_sent c) - length fl + j) = pc_sent c ! (length (pc_sent c) - length fl + j)" .
      moreover have "length (pc_sent ?c) - length (fl @ [?e]) = length (pc_sent c) - length fl" "pc_sent ?c = pc_sent c @ [?tx]" by simp_all
      ultimately show ?thesis by (simp only:)
    qed
    ultimately show ?thesis using S(2) j by simp
  qed
  then have "copier_ok lib ?c (fl @ [?e])"
    using pend tail rings rr R P S(1) unfolding copier_ok_def Let_def by simp
  then show ?thesis using run rr by (intro exI [of _ ?c] exI [of _ "(?i, get_alloc_paddr r, int ?n)"]) simp
qed

lemma complete_one_ok:
  assumes ok: "copier_ok lib c (e # fl)"
  shows "\<exists>c'. complete_one lib c = Some c' \<and> copier_ok lib c' fl \<and> pc_rr_idx c' = pc_rr_idx c \<and> pc_sent c' = pc_sent c"
proof -
  let ?i = "fst e" and ?cap = "unat (el_max_pending lib + 1)" and ?n = "length (snd e)"
  have P: "length (pc_pending c) = ?cap" "unat (pc_head c) < ?cap" "unat (pc_tail c) < ?cap"
    "ring_list ?cap (unat (pc_head c)) (unat (pc_tail c)) (pc_pending c) = map slot (e # fl)"
    and R: "length (pc_rings c) = 16" "unat (pc_rr_idx c) < 16" "\<forall>e \<in> set (e # fl). fst e < 16" "\<forall>i<16. holds (pc_rings c ! i) (held i (e # fl))"
    and S: "length (e # fl) \<le> length (pc_sent c)"
      "\<forall>j<length (e # fl). sent_as (pc_rings c) (e # fl) j (pc_sent c ! (length (pc_sent c) - length (e # fl) + j))"
    using ok unfolding copier_ok_def Let_def by blast+
  define r where "r = pc_rings c ! ?i"
  have i: "?i < 16" using R(3) by simp
  have h: "holds r (snd e @ held ?i fl)" using R(4) [rule_format, OF i] by (simp add: r_def)
  then have n: "unat (of_nat ?n :: u64) = ?n" "unat (of_nat ?i :: u8) = ?i" using i by (simp_all add: holds_def unat_of_nat)
  have "unat (pc_head c) \<noteq> unat (pc_tail c)" using ring_list_empty_iff [OF P(2,3), of "pc_pending c"] P(4) by simp
  from ring_list_pop [OF P(2,3) this, of "pc_pending c"]
  have pop: "pc_pending c ! unat (pc_head c) = slot e"
    "ring_list ?cap (Suc (unat (pc_head c)) mod ?cap) (unat (pc_tail c)) (pc_pending c) = map slot fl"
    unfolding P(4) by simp_all
  let ?r = "ring_deallocate (of_nat ?n) r"
  let ?c = "c\<lparr>pc_rings := (pc_rings c)[?i := ?r], pc_head := (pc_head c + 1) mod (el_max_pending lib + 1)\<rparr>"
  have run: "complete_one lib c = Some ?c"
    using P(1,2) R(1) i pop(1) n(2) by (simp add: complete_one_def elem_at_def slot_def r_def)
  have d: "holds ?r (held ?i fl)" "base ?r = base r + ?n" using holds_deallocate [OF h n(1)] by simp_all
  have rings: "\<forall>i<16. holds (pc_rings ?c ! i) (held i fl)" 
  proof (intro allI impI)
    fix k assume "k < (16 :: nat)"
    from R(4) [rule_format, OF this] R(1) this d(1) show "holds (pc_rings ?c ! k) (held k fl)" by (cases "?i = k") simp_all
  qed
  have pa: "rb_paddr ?r = rb_paddr r" by (simp add: ring_deallocate_def)
  have pt: "points ?r k q \<longleftrightarrow> points r (?n + k) q" for k q by (simp add: points_def d(2) add.assoc)
  have "sent_as (pc_rings ?c) fl j tx = sent_as (pc_rings c) (e # fl) (Suc j) tx" if "j < length fl" for j tx
    using pt pa R(1) i unfolding sent_as_def by (auto simp: r_def nth_list_update split: prod.splits)
  moreover have "length (pc_sent c) - length (e # fl) + Suc j = length (pc_sent c) - length fl + j" for j using S(1) by simp
  ultimately have "\<forall>j<length fl. sent_as (pc_rings ?c) fl j (pc_sent c ! (length (pc_sent c) - length fl + j))"
    using S(2) by (metis Suc_less_eq length_Cons)
  then have "copier_ok lib ?c fl"
    using rings R S(1) P pop(2) unfolding copier_ok_def Let_def by (simp add: unat_next_slot [OF P(2)])
  then show ?thesis using run by (intro exI [of _ ?c]) simp
qed

lemma complete_sent_ok:
  "copier_ok lib c fl \<Longrightarrow> n \<le> length fl
    \<Longrightarrow> \<exists>c'. complete_sent lib n c = Some c' \<and> copier_ok lib c' (drop n fl) \<and> pc_rr_idx c' = pc_rr_idx c \<and> pc_sent c' = pc_sent c"
proof (induction n arbitrary: c fl)
  case (Suc n)
  then obtain e gl where fl: "fl = e # gl" by (cases fl) auto
  obtain c1 where "complete_one lib c = Some c1" "copier_ok lib c1 gl" "pc_rr_idx c1 = pc_rr_idx c" "pc_sent c1 = pc_sent c"
    using complete_one_ok Suc.prems(1) unfolding fl by blast
  then show ?case using Suc.IH [of c1 gl] Suc.prems(2) fl by auto
qed auto

section \<open>Runs of the copier\<close>

text \<open>
  A turn brings a batch or nothing, and completions. A batch is its queue, its bytes and the
  packets that they are; it is \<^verbatim>\<open>recv_len\<close> bytes long, the packets together.
\<close>

type_synonym arrival = "int \<times> u8 list \<times> u8 list list"

text \<open>
  What is in flight after some turns, without rings, pointers or counters: a batch is added at the
  end, and completions take away from the front.
\<close>

fun flights :: "nat \<Rightarrow> flight \<Rightarrow> (arrival option \<times> nat) list \<Rightarrow> flight" where
  "flights rr fl [] = fl"
| "flights rr fl ((None, n) # ts) = flights rr (drop n fl) ts"
| "flights rr fl ((Some (fd, buf, ps), n) # ts) =
     flights (Suc rr mod 16) (drop n (fl @ [(rr, concat (map turn_macs ps))])) ts"

text \<open>
  What the turns have to be. A batch is one or more packets of whole cache lines, as its headers say;
  fewer transmissions than the library holds at most are in flight when it comes, and what its ring
  still holds leaves room for it. The library reports only what was sent. What happens to a packet
  without room is \<open>full_ring_crashes\<close>, to one whose length is not kept by its 16 bits \<open>long_packet_hangs\<close>.
\<close>

fun turns_fit :: "enso_library \<Rightarrow> nat \<Rightarrow> flight \<Rightarrow> (arrival option \<times> nat) list \<Rightarrow> bool" where
  "turns_fit lib rr fl [] \<longleftrightarrow> True"
| "turns_fit lib rr fl ((None, n) # ts) \<longleftrightarrow> n \<le> length fl \<and> turns_fit lib rr (drop n fl) ts"
| "turns_fit lib rr fl ((Some (fd, buf, ps), n) # ts) \<longleftrightarrow>
     ps \<noteq> [] \<and> packets_in lib ps buf \<and> length fl < unat (el_max_pending lib)
     \<and> length (held rr fl) + length (concat ps) \<le> 2 ^ 21 \<and> n \<le> Suc (length fl)
     \<and> turns_fit lib (Suc rr mod 16) (drop n (fl @ [(rr, concat (map turn_macs ps))])) ts"

fun run_copier :: "enso_library \<Rightarrow> (arrival option \<times> nat) list \<Rightarrow> copier \<Rightarrow> copier option" where
  "run_copier lib [] c = Some c"
| "run_copier lib ((None, n) # ts) c =
     do { t \<leftarrow> copy_turn lib 0 0 [] n c; case t of Exits \<Rightarrow> None | Goes_on c \<Rightarrow> run_copier lib ts c }"
| "run_copier lib ((Some (fd, buf, ps), n) # ts) c =
     do { t \<leftarrow> copy_turn lib fd (int (length (concat ps))) buf n c; case t of Exits \<Rightarrow> None | Goes_on c \<Rightarrow> run_copier lib ts c }"

definition queues :: "(arrival option \<times> nat) list \<Rightarrow> int list" where
  "queues ts = map fst (List.map_filter fst ts)"

lemma run_copier_ok:
  assumes "turns_fit lib rr fl ts" "copier_ok lib c fl" "unat (pc_rr_idx c) = rr" "el_max_pending lib < - 1"
  shows "\<exists>c'. run_copier lib ts c = Some c' \<and> copier_ok lib c' (flights rr fl ts) \<and> map fst (pc_sent c') = map fst (pc_sent c) @ queues ts"
  using assms
proof (induction lib rr fl ts arbitrary: c rule: turns_fit.induct)
  case (2 lib rr fl n ts)
  have n: "n \<le> length fl" "turns_fit lib rr (drop n fl) ts" using "2.prems"(1) by simp_all
  obtain c1 where c1: "complete_sent lib n c = Some c1" "copier_ok lib c1 (drop n fl)" "pc_rr_idx c1 = pc_rr_idx c" "pc_sent c1 = pc_sent c"
    using complete_sent_ok [OF "2.prems"(2) n(1)] by blast
  show ?case using "2.IH" [OF n(2) c1(2) _ "2.prems"(4)] c1(1,3,4) "2.prems"(3)
    by (simp add: copy_turn_def queues_def List.map_filter_def)
next
  case (3 lib rr fl fd buf ps n ts)
  let ?e = "(rr, concat (map turn_macs ps))"
  have B: "ps \<noteq> []" "packets_in lib ps buf" "length fl < unat (el_max_pending lib)"
    "length (held rr fl) + length (concat ps) \<le> 2 ^ 21" "n \<le> Suc (length fl)"
    and f: "turns_fit lib (Suc rr mod 16) (drop n (fl @ [?e])) ts"
    using "3.prems"(1) unfolding turns_fit.simps by blast+
  obtain c1 a where c1: "copy_batch lib fd (int (length (concat ps))) buf c = Some c1" "copier_ok lib c1 (fl @ [?e])"
    "unat (pc_rr_idx c1) = Suc rr mod 16" "pc_sent c1 = pc_sent c @ [(fd, a)]"
    using copy_batch_ok [OF "3.prems"(2) B(2,3) "3.prems"(4), of fd] B(4) unfolding "3.prems"(3) by blast
  have "n \<le> length (fl @ [?e])" using B(5) by simp
  then obtain c2 where c2: "complete_sent lib n c1 = Some c2" "copier_ok lib c2 (drop n (fl @ [?e]))" "pc_rr_idx c2 = pc_rr_idx c1"
    "pc_sent c2 = pc_sent c1"
    using complete_sent_ok [OF c1(2)] by blast
  obtain p qs where p: "ps = p # qs" using B(1) by (cases ps) auto
  have "12 \<le> length p" using B(2) unfolding p by (rule packet_size)
  then have "0 < length (concat ps)" unfolding p concat.simps length_append by arith
  then have t: "copy_turn lib fd (int (length (concat ps))) buf n c = Some (Goes_on c2)"
    using c1(1) c2(1) by (simp add: copy_turn_def)
  obtain c' where "run_copier lib ts c2 = Some c'"
    "copier_ok lib c' (flights (Suc rr mod 16) (drop n (fl @ [?e])) ts)" "map fst (pc_sent c') = map fst (pc_sent c2) @ queues ts"
    using "3.IH" [OF f c2(2) _ "3.prems"(4)] c1(3) c2(3) by auto
  then show ?case using t c1(4) c2(4) by (auto simp: queues_def List.map_filter_def)
qed (simp add: queues_def List.map_filter_def)

lemma copier_start_ok: "el_max_pending lib < - 1 \<Longrightarrow> copier_ok lib (copier_start lib paddr) []"
proof -
  assume few: "el_max_pending lib < - 1"
  have "unat (el_max_pending lib + 1) = Suc (unat (el_max_pending lib))" by (rule unat_Suc_bound [OF few])
  moreover have "unat kHugePageSize = 2 ^ 21" by (simp add: kHugePageSize_def)
  then have h: "holds (ring_initialize kHugePageSize a) []" for a
    by (simp add: holds_def ring_initialize_def kMaxBufferSize_def)
  let ?c = "copier_start lib paddr"
  have n: "unat kNumAllocators = 16" by (simp add: kNumAllocators_def)
  have "length (pc_rings ?c) = 16" "\<forall>i<16. pc_rings ?c ! i = ring_initialize kHugePageSize (paddr i)"
    unfolding copier_start_def n by (simp_all del: upt_rec_numeral)
  moreover have "length (pc_pending ?c) = unat (el_max_pending lib + 1)" "pc_head ?c = 0" "pc_tail ?c = 0" "pc_rr_idx ?c = 0"
    by (simp_all add: copier_start_def)
  ultimately show ?thesis unfolding copier_ok_def Let_def by (simp add: ring_list_def h)
qed

lemma held_split:
  assumes "j < length fl" "fl ! j = (i, bs)"
  shows "held i fl = held i (take j fl) @ bs @ held i (drop (Suc j) fl)"
  using arg_cong [OF id_take_nth_drop [OF assms(1)], of "held i"]
  unfolding assms(2) held_simps by (simp only: fst_conv snd_conv refl if_True)

text \<open>The bytes that the adapter reads from memory: those behind a physical address, in the page of the ring.\<close>

definition bytes_at :: "copier \<Rightarrow> transmission \<Rightarrow> u8 list" where
  "bytes_at c tx = (case tx of (fd, i, a, len) \<Rightarrow> let r = pc_rings c ! i in
     get_ring (rb_size r) (a - rb_paddr r) (nat len) (rb_data r))"

lemma copier_bytes:
  assumes ok: "copier_ok lib c fl" and j: "j < length fl"
  shows "bytes_at c (pc_sent c ! (length (pc_sent c) - length fl + j)) = snd (fl ! j)"
proof -
  obtain i bs where e: "fl ! j = (i, bs)" by (cases "fl ! j")
  let ?tx = "pc_sent c ! (length (pc_sent c) - length fl + j)"
  have ok': "sent_as (pc_rings c) fl j ?tx" "\<forall>e \<in> set fl. fst e < 16"
    using ok j unfolding copier_ok_def by blast+
  obtain fd i' a len where q: "?tx = (fd, i', a, len)" by (cases ?tx)
  have tx: "?tx = (fd, i, a, int (length bs))" "points (pc_rings c ! i) (length (held i (take j fl))) (a - rb_paddr (pc_rings c ! i))"
    using ok'(1) unfolding q sent_as_def by (auto simp: e)
  have i: "i < 16" using ok'(2) nth_mem [OF j] e by fastforce
  then have h: "holds (pc_rings c ! i) (held i fl)" using ok by (simp add: copier_ok_def)
  note split = held_split [OF j e]
  then have l: "length (held i (take j fl)) + length bs \<le> length (held i fl)" by simp
  have "take (length bs) (drop (length (held i (take j fl))) (held i fl)) = bs" by (subst split) simp
  then show ?thesis using holds_read [OF h tx(2) l] h by (simp add: bytes_at_def tx(1) e holds_def)
qed

section \<open>Properties\<close>

text \<open>
  C11. Packets come back. Let every batch that arrives consist of packets of whole cache lines, let
  fewer transmissions than the library's maximum be in flight and the ring whose turn it is have room
  for the batch when it arrives, and let completions be reported only for what was sent. Then the
  copier returns from every turn, each batch is sent once, on the queue it came from, the batches in
  flight are those sent whose completion was not reported, and the memory of each of them holds its
  packets with source and destination exchanged.
\<close>
theorem packets_come_back:
  assumes "turns_fit lib 0 [] ts" "el_max_pending lib < - 1"
  shows "\<exists>c. run_copier lib ts (copier_start lib paddr) = Some c \<and> map fst (pc_sent c) = queues ts
    \<and> map (bytes_at c) (drop (length (pc_sent c) - length (flights 0 [] ts)) (pc_sent c)) = map snd (flights 0 [] ts)"
proof -
  let ?fl = "flights 0 [] ts"
  obtain c where c: "run_copier lib ts (copier_start lib paddr) = Some c" "copier_ok lib c ?fl" "map fst (pc_sent c) = queues ts"
    using run_copier_ok [OF assms(1) copier_start_ok [OF assms(2)] _ assms(2), of paddr] by (auto simp: copier_start_def)
  have l: "length ?fl \<le> length (pc_sent c)" using c(2) by (simp add: copier_ok_def)
  have "map (bytes_at c) (drop (length (pc_sent c) - length ?fl) (pc_sent c)) = map snd ?fl"
    by (rule nth_equalityI) (use l copier_bytes [OF c(2)] in simp_all)
  then show ?thesis using c(1,3) by blast
qed

lemma long_packet_len:
  assumes "65472 < unat n"
  shows "pkt_aligned_len n = 0"
proof -
  have "unat n \<le> 65535" using unsigned_less [of n, where ?'a = nat] by simp
  then have "(unat n - 1) div 64 = 1023" using assms by simp
  then show ?thesis by (simp add: pkt_aligned_len_def)
qed

text \<open>A ring as \<^verbatim>\<open>initialize\<close> and every \<^verbatim>\<open>allocate\<close> leave it: two mappings of 2 MB, an offset into the first.\<close>

definition ring_mapped :: "ring_memory \<Rightarrow> bool" where
  "ring_mapped r \<longleftrightarrow> rb_size r = kMaxBufferSize \<and> unat (rb_alloc_offset r) < 2 ^ 21"

lemma swap_macs_mapped:
  assumes "ring_mapped r"
  shows "\<exists>r'. swap_macs (rb_alloc_offset r) r = Some r' \<and> ring_mapped r' \<and> rb_alloc_offset r' = rb_alloc_offset r"
proof -
  have "unat (rb_alloc_offset r + 6) = unat (rb_alloc_offset r) + 6"
    using assms by (simp add: ring_mapped_def unat_add_no_overflow)
  then show ?thesis
    using assms by (simp add: ring_mapped_def swap_macs_def ring_read_def ring_write_def get_ring_def)
qed

text \<open>\<open>n\<close> times round the loop over the packets, whatever its test says.\<close>

fun packet_turns :: "enso_library \<Rightarrow> u8 list \<Rightarrow> nat \<Rightarrow> nat \<times> copier \<Rightarrow> (nat \<times> copier) option" where
  "packet_turns lib buf 0 s = Some s"
| "packet_turns lib buf (Suc n) s =
     do { (processed_bytes, c) \<leftarrow> packet_turns lib buf n s; copy_packet lib buf processed_bytes c }"

lemma copy_packet_stuck:
  assumes "65472 < unat (el_pkt_len lib buf)" "elem_at (pc_rings c) (unat (pc_rr_idx c)) = Some r" "ring_mapped r"
  shows "\<exists>c' r'. copy_packet lib buf 0 c = Some (0, c') \<and> elem_at (pc_rings c') (unat (pc_rr_idx c')) = Some r' \<and> ring_mapped r'"
proof -
  have "rb_alloc_offset r mod kMaxBufferSize = rb_alloc_offset r"
    using assms(3) by (simp add: word_mod_size ring_mapped_def)
  then have "ring_allocate 0 r = (Some (rb_alloc_offset r), r)" by (simp add: ring_allocate_def)
  moreover have "ring_write (rb_alloc_offset r) [] r = Some r"
    using assms(3) by (simp add: ring_write_def ring_mapped_def)
  moreover obtain r' where "swap_macs (rb_alloc_offset r) r = Some r'" "ring_mapped r'"
    using swap_macs_mapped [OF assms(3)] by blast
  ultimately show ?thesis
    using assms(2) long_packet_len [OF assms(1)]
    by (auto simp: copy_packet_def Let_def elem_at_def split: if_splits)
qed

lemma packet_turns_stuck:
  assumes "65472 < unat (el_pkt_len lib buf)" "elem_at (pc_rings c) (unat (pc_rr_idx c)) = Some r" "ring_mapped r"
  shows "\<exists>c' r'. packet_turns lib buf n (0, c) = Some (0, c') \<and> elem_at (pc_rings c') (unat (pc_rr_idx c')) = Some r' \<and> ring_mapped r'"
proof (induction n)
  case (Suc n)
  then obtain c1 r1 where c1: "packet_turns lib buf n (0, c) = Some (0, c1)"
    "elem_at (pc_rings c1) (unat (pc_rr_idx c1)) = Some r1" "ring_mapped r1" by blast
  show ?case using copy_packet_stuck [OF assms(1) c1(2,3)] c1(1) by auto
qed (use assms in simp)

lemma copy_packets_stuck:
  assumes "65472 < unat (el_pkt_len lib buf)" "0 < recv_len"
  shows "copy_packets lib buf recv_len 0 c = None"
proof -
  have stuck: "lib' = lib \<and> buf' = buf \<and> n = recv_len \<and> k = 0 \<longrightarrow> False" if "copy_packets lib' buf' n k c = Some y" for lib' buf' n k c y
    using that
  proof (rule copy_packets.raw_induct [rotated])
    fix f and lib' :: enso_library and buf' n k c y
    assume IH: "\<And>lib' buf' n k c y. f lib' buf' n k c = Some y \<Longrightarrow> lib' = lib \<and> buf' = buf \<and> n = recv_len \<and> k = 0 \<longrightarrow> False"
      and body: "(if int k < n then do { (k, c) \<leftarrow> copy_packet lib' buf' k c; f lib' buf' n k c } else Some c) = Some y"
    show "lib' = lib \<and> buf' = buf \<and> n = recv_len \<and> k = 0 \<longrightarrow> False"
    proof
      assume "lib' = lib \<and> buf' = buf \<and> n = recv_len \<and> k = 0"
      then obtain k' c' where "copy_packet lib buf 0 c = Some (k', c')" "f lib buf recv_len k' c' = Some y"
        using body assms(2) by (auto split: Option.bind_splits prod.splits)
      moreover from this(1) have "k' = 0"
        by (auto simp: copy_packet_def long_packet_len [OF assms(1)] Let_def split: Option.bind_splits prod.splits if_splits)
      ultimately show False using IH by blast
    qed
  qed
  then show ?thesis by (cases "copy_packets lib buf recv_len 0 c") blast+
qed

text \<open>
  C38. A packet whose header says that it is longer than 65472 bytes stops the program. Its length in
  whole cache lines is 0 in 16 bits; the ring has room for 0 bytes, full or not, so that every turn of
  the loop over the batch goes through, however often it is taken, and leaves \<^verbatim>\<open>processed_bytes\<close> at 0,
  below \<^verbatim>\<open>recv_len\<close>: the loop does not crash, it never ends.
\<close>
theorem long_packet_hangs:
  assumes "65472 < unat (el_pkt_len lib buf)" "0 < recv_len"
    and "elem_at (pc_rings c) (unat (pc_rr_idx c)) = Some r" "ring_mapped r"
  shows "pkt_aligned_len (el_pkt_len lib buf) = 0
    \<and> (\<forall>n. \<exists>c'. packet_turns lib buf n (0, c) = Some (0, c'))
    \<and> copy_packets lib buf recv_len 0 c = None \<and> copy_batch lib fd recv_len buf c = None"
  using long_packet_len [OF assms(1)] packet_turns_stuck [OF assms(1,3,4)]
    copy_packets_stuck [OF assms(1,2)] assms(3) by (auto simp: copy_batch_def Let_def)

text \<open>
  A batch that its ring has no room for is written through a null pointer: that an allocation
  succeeded is asserted only.
\<close>

lemma full_ring_crashes:
  assumes "unat (pc_rr_idx c) < length (pc_rings c)" "0 < recv_len"
    and "rb_free_capacity (pc_rings c ! unat (pc_rr_idx c)) < ucast (pkt_aligned_len (el_pkt_len lib buf))"
  shows "copy_batch lib fd recv_len buf c = None"
proof -
  have "copy_packets lib buf recv_len 0 c = None"
    using assms by (subst copy_packets.simps) (simp add: copy_packet_def elem_at_def ring_allocate_def)
  then show ?thesis using assms(1) by (simp add: copy_batch_def elem_at_def Let_def)
qed

subsection \<open>A small library\<close>

text \<open>The byte 17 of a packet is its length; two transmissions may be in flight.\<close>

definition demo_library :: enso_library where
  "demo_library = \<lparr>el_pkt_len = (\<lambda>pkt. if length pkt < 64 then 0 else ucast (pkt ! 17)), el_max_pending = 2\<rparr>"

definition demo_packet :: "u8 \<Rightarrow> u8 list" where
  "demo_packet n = [1, 1, 1, 1, 1, 1, 2, 2, 2, 2, 2, 2, 8, 0, 69, 0, 0, 60] @ replicate 46 n"

definition demo_turns :: "(arrival option \<times> nat) list" where
  "demo_turns = [(Some (3, demo_packet 7 @ demo_packet 8, [demo_packet 7, demo_packet 8]), 0), (Some (4, demo_packet 9, [demo_packet 9]), 1)]"

lemma demo_packet_simps:
  "length (demo_packet n) = 64" "demo_packet n \<noteq> []" "demo_packet n ! 17 = 60" "(demo_packet n @ xs) ! 17 = 60"
  "turn_macs (demo_packet n) = [2, 2, 2, 2, 2, 2, 1, 1, 1, 1, 1, 1, 8, 0, 69, 0, 0, 60] @ replicate 46 n"
  by (simp_all add: demo_packet_def turn_macs_def nth_append)

lemma demo_pkt_len: "pkt_aligned_len (el_pkt_len demo_library (demo_packet n @ xs)) = 64"
  "pkt_aligned_len (el_pkt_len demo_library (demo_packet n)) = 64"
  by (simp_all add: demo_library_def demo_packet_simps pkt_aligned_len_def)

lemma demo_flights: "turns_fit demo_library 0 [] demo_turns"
  "flights 0 [] demo_turns = [(1, [2, 2, 2, 2, 2, 2, 1, 1, 1, 1, 1, 1, 8, 0, 69, 0, 0, 60] @ replicate 46 9)]"
  by (simp add: demo_turns_def demo_packet_simps demo_pkt_len, simp add: demo_library_def)
    (simp add: demo_turns_def demo_packet_simps)

lemma packets_come_back_witness:
  "\<exists>c. run_copier demo_library demo_turns (copier_start demo_library (\<lambda>i. 2 ^ 30 + of_nat i * 2 ^ 21)) = Some c
    \<and> map fst (pc_sent c) = [3, 4]
    \<and> map (bytes_at c) (drop (length (pc_sent c) - 1) (pc_sent c)) = [[2, 2, 2, 2, 2, 2, 1, 1, 1, 1, 1, 1, 8, 0, 69, 0, 0, 60] @ replicate 46 9]"
proof -
  have "queues demo_turns = [3, 4]" by (simp add: queues_def demo_turns_def List.map_filter_def)
  moreover have "el_max_pending demo_library < - 1" by (simp add: demo_library_def)
  ultimately show ?thesis using packets_come_back [OF demo_flights(1), of "\<lambda>i. 2 ^ 30 + of_nat i * 2 ^ 21"]
    by (simp only: demo_flights(2) list.map list.size snd_conv plus_1_eq_Suc One_nat_def add_0)
qed

lemma long_packet_hangs_witness:
  "let lib = \<lparr>el_pkt_len = (\<lambda>pkt. 65500), el_max_pending = 2\<rparr>; c = copier_start lib (\<lambda>i. 0) in
     (\<forall>n. \<exists>c'. packet_turns lib (demo_packet 1) n (0, c) = Some (0, c'))
     \<and> copy_batch lib 3 64 (demo_packet 1) c = None"
proof -
  let ?lib = "\<lparr>el_pkt_len = (\<lambda>pkt. 65500), el_max_pending = 2\<rparr>"
  have "elem_at (pc_rings (copier_start ?lib (\<lambda>i. 0))) (unat (pc_rr_idx (copier_start ?lib (\<lambda>i. 0))))
      = Some (ring_initialize kHugePageSize 0)"
    by (simp add: copier_start_def elem_at_def kNumAllocators_def del: upt_rec_numeral)
  moreover have "ring_mapped (ring_initialize kHugePageSize 0)"
    by (simp add: ring_mapped_def ring_initialize_def kMaxBufferSize_def)
  ultimately show ?thesis
    using long_packet_hangs [of ?lib "demo_packet 1" 64] by (simp add: Let_def)
qed

end
