(* ===== verification/Rate_Limiter.thy ===== *)
theory Rate_Limiter
  imports Enso_Prelude "HOL-Library.Monad_Syntax" Complex_Main
begin

text \<open>
  The token buckets of \<^verbatim>\<open>util/rate_limiter.h\<close> and the generator of \<^verbatim>\<open>util/rand.h\<close> they draw from.
  Floating point is a parameter, \<open>floats\<close>: the operations that the code uses on \<^verbatim>\<open>double\<close>. So is the
  clock, the answer to each call of \<^verbatim>\<open>Stopwatch::now\<close>. The properties that need more of the numbers than
  that they are there take real ones: they are about the code with exact arithmetic.
\<close>

section \<open>The generator\<close>

definition rand_step :: "u64 \<Rightarrow> u64" where
  "rand_step state = (state * 0x5deece66d + 0xb) AND (push_bit 48 1 - 1)"

definition next_u32 :: "u64 \<Rightarrow> u32 \<times> u64" where
  "next_u32 state = (let state = rand_step state in (ucast (drop_bit (48 - 32) state), state))"

section \<open>Numbers and limiters\<close>

record 'd floats =
  fl_add :: "'d \<Rightarrow> 'd \<Rightarrow> 'd"
  fl_sub :: "'d \<Rightarrow> 'd \<Rightarrow> 'd"
  fl_mul :: "'d \<Rightarrow> 'd \<Rightarrow> 'd"
  fl_div :: "'d \<Rightarrow> 'd \<Rightarrow> 'd"
  fl_less :: "'d \<Rightarrow> 'd \<Rightarrow> bool"
  fl_ge :: "'d \<Rightarrow> 'd \<Rightarrow> bool"
  fl_of_u64 :: "u64 \<Rightarrow> 'd"
  fl_to_u64 :: "'d \<Rightarrow> u64"
  fl_log :: "'d \<Rightarrow> 'd"
  fl_neg :: "'d \<Rightarrow> 'd"

definition next_f64 :: "'d floats \<Rightarrow> u64 \<Rightarrow> 'd \<times> u64" where
  "next_f64 F state = (let state = rand_step state in (fl_div F (fl_of_u64 F state) (fl_of_u64 F (push_bit 48 1 - 1)), state))"

text \<open>\<^verbatim>\<open>std::min\<close>.\<close>

definition fl_min :: "'d floats \<Rightarrow> 'd \<Rightarrow> 'd \<Rightarrow> 'd" where
  "fl_min F a b = (if fl_less F b a then b else a)"

record 'd limiter =
  rl_tokens :: 'd
  rl_max_tokens :: 'd
  rl_new_tokens_per_cycle :: 'd
  rl_last_time :: u64
  rl_calls :: nat

definition limiter_new :: "(nat \<Rightarrow> u64) \<Rightarrow> 'd \<Rightarrow> 'd \<Rightarrow> 'd \<Rightarrow> 'd limiter" where
  "limiter_new now initial_tokens max_tokens new_tokens_per_cycle =
     \<lparr>rl_tokens = initial_tokens, rl_max_tokens = max_tokens, rl_new_tokens_per_cycle = new_tokens_per_cycle,
      rl_last_time = now 0, rl_calls = 1\<rparr>"

definition update_tokens :: "'d floats \<Rightarrow> (nat \<Rightarrow> u64) \<Rightarrow> 'd limiter \<Rightarrow> 'd limiter" where
  "update_tokens F now l =
     (let current_time = now (rl_calls l);
          new_cycles = fl_of_u64 F (current_time - rl_last_time l)
      in l\<lparr>rl_calls := Suc (rl_calls l), rl_last_time := current_time,
           rl_tokens := fl_min F (rl_max_tokens l) (fl_add F (rl_tokens l) (fl_mul F new_cycles (rl_new_tokens_per_cycle l)))\<rparr>)"

partial_function (option) remove_tokens :: "'d floats \<Rightarrow> (nat \<Rightarrow> u64) \<Rightarrow> 'd \<Rightarrow> 'd limiter \<Rightarrow> 'd limiter option" where
  "remove_tokens F now v l =
     (let l = update_tokens F now l in
      if fl_less F (rl_tokens l) v then remove_tokens F now v l
      else remove_tokens F now v (l\<lparr>rl_tokens := fl_sub F (rl_tokens l) v\<rparr>))"

declare remove_tokens.simps [code]

definition try_remove_tokens :: "'d floats \<Rightarrow> (nat \<Rightarrow> u64) \<Rightarrow> 'd \<Rightarrow> 'd limiter \<Rightarrow> bool \<times> 'd limiter" where
  "try_remove_tokens F now v l =
     (let l = update_tokens F now l in
      if fl_less F (rl_tokens l) v then (False, l) else (True, l\<lparr>rl_tokens := fl_sub F (rl_tokens l) v\<rparr>))"

definition remove_tokens_nowait :: "'d floats \<Rightarrow> 'd \<Rightarrow> ('d, 'z) limiter_scheme \<Rightarrow> ('d, 'z) limiter_scheme" where
  "remove_tokens_nowait F v l = l\<lparr>rl_tokens := fl_sub F (rl_tokens l) v\<rparr>"

definition add_tokens :: "'d floats \<Rightarrow> 'd \<Rightarrow> ('d, 'z) limiter_scheme \<Rightarrow> ('d, 'z) limiter_scheme" where
  "add_tokens F v l = l\<lparr>rl_tokens := fl_add F (rl_tokens l) v\<rparr>"

section \<open>The exponential limiter\<close>

record 'd exp_limiter = "'d limiter" +
  rl_cycles_per_new_token :: 'd
  rl_rand :: u64
  rl_cycles_for_next_token :: u64

partial_function (option) draw_below_one :: "'d floats \<Rightarrow> u64 \<Rightarrow> ('d \<times> u64) option" where
  "draw_below_one F state =
     (let (z, state) = next_f64 F state in
      if fl_ge F z (fl_of_u64 F 1) then draw_below_one F state else Some (z, state))"

declare draw_below_one.simps [code]

definition update_cycles_for_next_token :: "'d floats \<Rightarrow> 'd exp_limiter \<Rightarrow> 'd exp_limiter option" where
  "update_cycles_for_next_token F l =
     do {
       (z, state) \<leftarrow> draw_below_one F (rl_rand l);
       Some (l\<lparr>rl_rand := state, rl_cycles_for_next_token :=
         fl_to_u64 F (fl_mul F (fl_neg F (rl_cycles_per_new_token l)) (fl_log F (fl_sub F (fl_of_u64 F 1) z)))\<rparr>)
     }"

partial_function (option) add_due_tokens :: "'d floats \<Rightarrow> u64 \<Rightarrow> u64 \<Rightarrow> 'd exp_limiter \<Rightarrow> 'd exp_limiter option" where
  "add_due_tokens F current_time new_cycles l =
     (if new_cycles \<ge> rl_cycles_for_next_token l
      then do {
        let wait = rl_cycles_for_next_token l;
        l \<leftarrow> update_cycles_for_next_token F
          (l\<lparr>rl_tokens := fl_add F (rl_tokens l) (fl_of_u64 F 1), rl_last_time := rl_last_time l + wait\<rparr>);
        if fl_ge F (rl_tokens l) (rl_max_tokens l)
        then Some (l\<lparr>rl_tokens := rl_max_tokens l, rl_last_time := current_time\<rparr>)
        else add_due_tokens F current_time (new_cycles - wait) l
      }
      else Some l)"

declare add_due_tokens.simps [code]

definition exp_update_tokens :: "'d floats \<Rightarrow> (nat \<Rightarrow> u64) \<Rightarrow> 'd exp_limiter \<Rightarrow> 'd exp_limiter option" where
  "exp_update_tokens F now l =
     (let current_time = now (rl_calls l) in
      add_due_tokens F current_time (current_time - rl_last_time l) (l\<lparr>rl_calls := Suc (rl_calls l)\<rparr>))"

definition exp_limiter_new :: "'d floats \<Rightarrow> (nat \<Rightarrow> u64) \<Rightarrow> 'd \<Rightarrow> 'd \<Rightarrow> 'd \<Rightarrow> u64 \<Rightarrow> 'd exp_limiter option" where
  "exp_limiter_new F now initial_tokens max_tokens new_tokens_per_cycle seed =
     update_cycles_for_next_token F
       \<lparr>rl_tokens = initial_tokens, rl_max_tokens = max_tokens, rl_new_tokens_per_cycle = new_tokens_per_cycle,
        rl_last_time = now 0, rl_calls = 1, rl_cycles_per_new_token = fl_div F (fl_of_u64 F 1) new_tokens_per_cycle,
        rl_rand = seed, rl_cycles_for_next_token = 0\<rparr>"

partial_function (option) exp_remove_tokens :: "'d floats \<Rightarrow> (nat \<Rightarrow> u64) \<Rightarrow> 'd \<Rightarrow> 'd exp_limiter \<Rightarrow> 'd exp_limiter option" where
  "exp_remove_tokens F now v l =
     do {
       l \<leftarrow> exp_update_tokens F now l;
       if fl_less F (rl_tokens l) v then exp_remove_tokens F now v l
       else exp_remove_tokens F now v (l\<lparr>rl_tokens := fl_sub F (rl_tokens l) v\<rparr>)
     }"

declare exp_remove_tokens.simps [code]

definition exp_try_remove_tokens :: "'d floats \<Rightarrow> (nat \<Rightarrow> u64) \<Rightarrow> 'd \<Rightarrow> 'd exp_limiter \<Rightarrow> (bool \<times> 'd exp_limiter) option" where
  "exp_try_remove_tokens F now v l =
     do {
       l \<leftarrow> exp_update_tokens F now l;
       Some (if fl_less F (rl_tokens l) v then (False, l) else (True, l\<lparr>rl_tokens := fl_sub F (rl_tokens l) v\<rparr>))
     }"

section \<open>What the generator does\<close>

lemma rand_step_unat: "unat (rand_step s) = (unat s * 25214903917 + 11) mod 2 ^ 48"
proof -
  have m: "push_bit 48 1 - 1 = (mask 48 :: u64)" by (simp add: mask_eq_decr_exp push_bit_eq_mult)
  have "unat (s * 0x5deece66d + 0xb) mod 2 ^ 48 = (unat s * 25214903917 + 11) mod 2 ^ 64 mod 2 ^ 48"
    by (simp add: unat_word_ariths mod_simps)
  also have "\<dots> = (unat s * 25214903917 + 11) mod 2 ^ 48" by (rule mod_mod_cancel) (simp add: le_imp_power_dvd)
  finally show ?thesis unfolding rand_step_def m unat_and_mask .
qed

text \<open>The state keeps to 48 bits, and no two states have the same successor.\<close>

lemma rand_step_permutes:
  assumes "unat s < 2 ^ 48" "unat t < 2 ^ 48" "rand_step s = rand_step t"
  shows "s = t"
proof -
  have inside: "(c * (a mod m + b)) mod m = (c * (a + b)) mod m" for a b c m :: nat by (metis mod_add_left_eq mod_mult_right_eq)
  have undo: "(246154705703781 * (unat (rand_step x) + (2 ^ 48 - 11))) mod 2 ^ 48 = unat x" if "unat x < 2 ^ 48" for x
  proof -
    have "(246154705703781 * (unat (rand_step x) + (2 ^ 48 - 11))) mod 2 ^ 48 = (246154705703781 * (unat x * 25214903917 + 11 + (2 ^ 48 - 11))) mod 2 ^ 48"
      unfolding rand_step_unat by (rule inside)
    also have "246154705703781 * (unat x * 25214903917 + 11 + (2 ^ 48 - 11)) = unat x + (22050866921 * unat x + 246154705703781) * 2 ^ 48" by simp
    also have "\<dots> mod 2 ^ 48 = unat x" using that by (simp only: mod_mult_self1 mod_less)
    finally show ?thesis .
  qed
  have "unat s = unat t" using undo [OF assms(1)] undo [OF assms(2)] assms(3) by metis
  then show ?thesis by (simp add: word_unat_eq_iff)
qed

section \<open>The limiters do what they can\<close>

text \<open>\<^verbatim>\<open>remove_tokens\<close> has no way out of its loop: it takes tokens again and again.\<close>

lemma remove_tokens_hangs:
  fixes F :: "'d floats"
  shows "remove_tokens F now v l = None"
proof -
  have "False" if "remove_tokens F now v l = Some y" for F :: "'d floats" and now v l y
    using that
  proof (rule remove_tokens.raw_induct [rotated])
    fix f and F :: "'d floats" and now v l y
    assume IH: "\<And>F now v l y. f F now v l = Some y \<Longrightarrow> False"
      and body: "(let l = update_tokens F now l in
        if fl_less F (rl_tokens l) v then f F now v l else f F now v (l\<lparr>rl_tokens := fl_sub F (rl_tokens l) v\<rparr>)) = Some y"
    then show False by (metis (mono_tags))
  qed
  then show ?thesis by (cases "remove_tokens F now v l") blast+
qed

text \<open>Requests, one after the other, and what of them was granted.\<close>

fun try_all :: "'d floats \<Rightarrow> (nat \<Rightarrow> u64) \<Rightarrow> 'd list \<Rightarrow> 'd limiter \<Rightarrow> bool list \<times> 'd limiter" where
  "try_all F now [] l = ([], l)"
| "try_all F now (v # vs) l = (let (b, l) = try_remove_tokens F now v l; (bs, l) = try_all F now vs l in (b # bs, l))"

definition granted :: "real list \<Rightarrow> bool list \<Rightarrow> real" where
  "granted vs bs = sum_list (map fst (filter snd (zip vs bs)))"

definition exact :: "real floats" where
  "exact = \<lparr>fl_add = (+), fl_sub = (-), fl_mul = (*), fl_div = (/), fl_less = (<), fl_ge = (\<ge>), fl_of_u64 = (\<lambda>w. real (unat w)),
     fl_to_u64 = (\<lambda>x. of_nat (nat \<lfloor>x\<rfloor>)), fl_log = ln, fl_neg = uminus\<rparr>"

definition limiter_ok :: "(nat \<Rightarrow> u64) \<Rightarrow> nat \<Rightarrow> real limiter \<Rightarrow> bool" where
  "limiter_ok now n l \<longleftrightarrow> 0 \<le> rl_tokens l \<and> rl_tokens l \<le> rl_max_tokens l \<and> 0 \<le> rl_new_tokens_per_cycle l
     \<and> rl_calls l = Suc n \<and> rl_last_time l = now n"

lemma try_exact:
  assumes ok: "limiter_ok now n l" and clock: "now n \<le> now (Suc n)" and t: "try_remove_tokens exact now v l = (b, l')" and v: "0 \<le> v"
  shows "limiter_ok now (Suc n) l' \<and> rl_max_tokens l' = rl_max_tokens l \<and> rl_new_tokens_per_cycle l' = rl_new_tokens_per_cycle l
    \<and> granted [v] [b] + rl_tokens l' \<le> rl_tokens l + rl_new_tokens_per_cycle l * (real (unat (now (Suc n))) - real (unat (now n)))"
proof -
  let ?e = "real (unat (now (Suc n))) - real (unat (now n))"
  have "unat (now n) \<le> unat (now (Suc n))" using clock by (simp only: word_le_nat_alt)
  note le = this
  then have "real (unat (now (Suc n) - now n)) = ?e" unfolding unat_sub_le [OF clock] by (rule of_nat_diff)
  then have u: "update_tokens exact now l = l\<lparr>rl_tokens := min (rl_max_tokens l) (rl_tokens l + ?e * rl_new_tokens_per_cycle l),
      rl_last_time := now (Suc n), rl_calls := Suc (Suc n)\<rparr>"
    using ok by (simp add: update_tokens_def exact_def fl_min_def limiter_ok_def Let_def min_def)
  have "0 \<le> ?e" using le by (simp only: diff_ge_0_iff_ge of_nat_le_iff)
  then have e: "0 \<le> ?e * rl_new_tokens_per_cycle l" using ok by (simp add: limiter_ok_def)
  then have pos: "0 \<le> min (rl_max_tokens l) (rl_tokens l + ?e * rl_new_tokens_per_cycle l)" using ok by (simp add: limiter_ok_def)
  show ?thesis
  proof (cases b)
    case True
    then have "v \<le> min (rl_max_tokens l) (rl_tokens l + ?e * rl_new_tokens_per_cycle l)"
      "l' = (update_tokens exact now l)\<lparr>rl_tokens := min (rl_max_tokens l) (rl_tokens l + ?e * rl_new_tokens_per_cycle l) - v\<rparr>"
      using t u by (auto simp: try_remove_tokens_def exact_def Let_def split: if_splits)
    then show ?thesis using ok u v True by (simp add: limiter_ok_def granted_def mult.commute)
  next
    case False
    then have "l' = update_tokens exact now l" using t by (auto simp: try_remove_tokens_def Let_def split: if_splits)
    then show ?thesis using ok u pos False by (simp add: limiter_ok_def granted_def mult.commute)
  qed
qed

lemma try_all_exact:
  assumes "limiter_ok now n l" "\<forall>i. now i \<le> now (Suc i)" "try_all exact now vs l = (bs, l')" "\<forall>v \<in> set vs. 0 \<le> v"
  shows "limiter_ok now (n + length vs) l' \<and> rl_max_tokens l' = rl_max_tokens l \<and> rl_new_tokens_per_cycle l' = rl_new_tokens_per_cycle l
    \<and> granted vs bs + rl_tokens l' \<le> rl_tokens l + rl_new_tokens_per_cycle l * (real (unat (now (n + length vs))) - real (unat (now n)))"
  using assms
proof (induction vs arbitrary: n l bs)
  case (Cons v vs)
  obtain b l1 where t: "try_remove_tokens exact now v l = (b, l1)" by fastforce
  obtain cs l2 where ts: "try_all exact now vs l1 = (cs, l2)" by fastforce
  have bs: "bs = b # cs" "l' = l2" using Cons.prems(3) t ts by simp_all
  have one: "limiter_ok now (Suc n) l1" "rl_max_tokens l1 = rl_max_tokens l" "rl_new_tokens_per_cycle l1 = rl_new_tokens_per_cycle l"
    "granted [v] [b] + rl_tokens l1 \<le> rl_tokens l + rl_new_tokens_per_cycle l * (real (unat (now (Suc n))) - real (unat (now n)))"
    using try_exact [OF Cons.prems(1) _ t] Cons.prems(2,4) by simp_all
  have "granted (v # vs) bs = granted [v] [b] + granted vs cs" by (simp add: granted_def bs)
  then show ?case using Cons.IH [OF one(1) Cons.prems(2) ts [folded bs(2)]] Cons.prems(4) one(2-4) bs(2) by (simp add: algebra_simps)
qed (simp add: granted_def)

text \<open>
  C20. The rate is limited: with exact arithmetic, of any requests in a row those granted come to no
  more than a full bucket and what the time between the first look at the clock and the last brings.
\<close>
theorem rate_limited:
  assumes "\<forall>i. now i \<le> now (Suc i)" "0 \<le> initial" "initial \<le> limit" "0 \<le> rate" "\<forall>v \<in> set us \<union> set vs. 0 \<le> v"
    and "try_all exact now us (limiter_new now initial limit rate) = (as, l1)" "try_all exact now vs l1 = (bs, l2)"
  shows "granted vs bs \<le> limit + rate * (real (unat (now (length us + length vs))) - real (unat (now (length us))))"
proof -
  have "limiter_ok now 0 (limiter_new now initial limit rate)" using assms(2-4) by (simp add: limiter_ok_def limiter_new_def)
  from try_all_exact [OF this assms(1,6)] assms(5)
  have l1: "limiter_ok now (length us) l1" "rl_max_tokens l1 = limit" "rl_new_tokens_per_cycle l1 = rate"
    by (simp_all add: limiter_new_def)
  from try_all_exact [OF l1(1) assms(1,7)] assms(5) l1 show ?thesis by (simp add: limiter_ok_def)
qed

lemma rate_limited_witness:
  "\<exists>bs l. try_all exact (\<lambda>i. of_nat (min i 100)) [5, 5, 5] (limiter_new (\<lambda>i. of_nat (min i 100)) 10 10 1) = (bs, l) \<and> granted [5, 5, 5] bs \<le> 13"
proof -
  have "(of_nat (min i 100) :: u64) \<le> of_nat (min (Suc i) 100)" for i
  proof -
    have "unat (of_nat (min k 100) :: u64) = min k 100" for k by (simp only: unat_of_nat) (simp add: min_def)
    then show ?thesis by (simp only: word_le_nat_alt)
  qed
  moreover obtain bs l where "try_all exact (\<lambda>i. of_nat (min i 100)) [5, 5, 5] (limiter_new (\<lambda>i. of_nat (min i 100)) 10 10 1) = (bs, l)"
    by fastforce
  ultimately show ?thesis using rate_limited [of "\<lambda>i. of_nat (min i 100)" 10 10 1 "[]" "[5, 5, 5]" "[]" _ bs l] by simp
qed

end
