(* ===== verification/Spec2Isabelle.thy ===== *)
theory Spec2Isabelle
  imports Round_Up Mica_Queue Queue_Threads Min_Heap Order_Stat Maglev Latency Circular_Log
    Segregated_Fit L_Lossy Partitions_Cache Datagram_Calls Nitro_Sketch
    Shared_Memory_Runs Packet_Flights Rate_Limiter
begin

text \<open>
  A verification development for the programs with which the Enso network interface is
  evaluated: the key-value store MICA (\<^verbatim>\<open>src/mica2\<close>), the load balancer Maglev (\<^verbatim>\<open>src/maglev\<close>),
  the flow monitor NitroSketch (\<^verbatim>\<open>src/nitrosketch\<close>) and a program that sends packets back
  (\<^verbatim>\<open>src/pktcopy\<close>).

  \<^bold>\<open>The program.\<close> A client of MICA turns the operations of its user into requests, each under an
  opaque number, and packs them into packets. A server takes the requests out of the packets it
  receives, hands them to a processor, and packs the answers into packets of responses. The
  processor finds the partition of a request from the hash of its key and the core that owns it,
  and runs the operation on the table of that partition. A table is a hash index whose items lie
  in a pool: a circular log, which overwrites what is oldest, or a segregated-fit allocator, in huge
  pages that an allocator of its own maps. The client matches a response to its request by the opaque
  number, or gives the request up after a timeout. Maglev maps each flow to a backend by a table and a cache of hashes; NitroSketch counts
  a sample of the packets of each flow in a sketch and keeps the flows seen most in a heap. The
  packet copier writes each batch that it receives, its addresses exchanged, into one of sixteen rings,
  hands it to the adapter and frees it when the adapter has sent it.

  \<^bold>\<open>The theories,\<close> each behind the file it models (under \<^verbatim>\<open>src/mica2/src/mica/\<close> unless said
  otherwise):

    \<^item> \<open>Enso_Prelude\<close>: types of words, \<open>named_theorems\<close>, lemmas on words, lists and options.
    \<^item> \<open>Round_Up\<close>: \<^verbatim>\<open>util/roundup.h\<close>, powers of two.
    \<^item> \<open>Mica_Queue\<close>, \<open>Queue_Threads\<close>: \<^verbatim>\<open>util/queue.h\<close>, a ring buffer, called by one thread and by many,
      whose steps interleave.
    \<^item> \<open>Doubles\<close>, \<open>Latency\<close>: the roundings of \<^verbatim>\<open>double\<close> that the code relies on, and \<^verbatim>\<open>util/latency.h\<close>, a
      histogram.
    \<^item> \<open>Item_Pool\<close>, \<open>Circular_Log\<close>, \<open>Segregated_Fit\<close>: \<^verbatim>\<open>pool/\<close>. \<open>Item_Pool\<close> holds the interface of a
      pool as locales; both pools interpret it.
    \<^item> \<open>Shared_Memory\<close>: \<^verbatim>\<open>alloc/hugetlbfs_shm.h\<close> and \<^verbatim>\<open>hugetlbfs_shm.cc\<close>, the allocator of huge pages.
      \<open>Shared_Memory_Inv\<close>, \<open>Shared_Memory_Maps\<close>, \<open>Shared_Memory_Blocks\<close>, \<open>Shared_Memory_Runs\<close>: its
      invariant, mapping and unmapping, blocks, and runs of allocations and releases.
    \<^item> \<open>L_Table\<close>: \<^verbatim>\<open>table/ltable.h\<close> and \<^verbatim>\<open>table/ltable_impl/\<close>, the index of buckets and every operation
      on it, over either pool. \<open>Log_Items\<close>, \<open>Lossy_Inv\<close>, \<open>Lossy_Table\<close>, \<open>Lossy_Ops\<close>, \<open>L_Lossy\<close>: what a
      table over a circular log does, against a map of what was last set.
    \<^item> \<open>Partitions\<close>: \<^verbatim>\<open>processor/partitions.h\<close>, \<^verbatim>\<open>processor/partitions_impl/\<close> and
      \<^verbatim>\<open>processor/simple_processor.h\<close>. \<open>Simple_Processor\<close>, \<open>Partitions_Pipeline\<close>, \<open>Partitions_Owners\<close>, \<open>Partitions_Cache\<close>:
      the processor with one table as a loop over its requests, the software pipeline, the owners of the
      partitions, and the tables behind them.
    \<^item> \<open>Datagram_Protocol\<close>: \<^verbatim>\<open>datagram/datagram_protocol.h\<close>, the bytes of a packet. \<open>Datagram_Bytes\<close>,
      \<open>Datagram_Batches\<close>: what the builder writes and the reader reads.
    \<^item> \<open>Datagram_Client\<close>: \<^verbatim>\<open>datagram/datagram_client.h\<close> and \<^verbatim>\<open>datagram_client_impl.h\<close>.
      \<open>Datagram_Descriptors\<close>, \<open>Datagram_Requests\<close>: the table of request descriptors as two lists, and
      the life of a request as a step relation.
    \<^item> \<open>Datagram_Server\<close>: \<^verbatim>\<open>datagram/datagram_server.h\<close> and \<^verbatim>\<open>datagram_server_impl.h\<close>, with
      \<^verbatim>\<open>SimpleProcessor::process\<close> over its accessor. \<open>Datagram_Ring\<close>,
      \<open>Datagram_Replies\<close>, \<open>Datagram_Serve\<close>: the ring of parsed requests, the packets of responses, and
      a round of the worker. \<open>Datagram_Calls\<close>: client and server together, from calls to handlers.
    \<^item> \<open>Maglev\<close>: \<^verbatim>\<open>src/maglev/src/maglev.hpp\<close>.
    \<^item> \<open>Min_Heap\<close>, \<open>Order_Stat\<close>: \<^verbatim>\<open>src/nitrosketch/minheap.cpp\<close> and the order statistics of
      \<^verbatim>\<open>src/nitrosketch/geometric.h\<close>.
    \<^item> \<open>Nitro_Sketch\<close>: the Count-Min sketch of \<^verbatim>\<open>src/nitrosketch/nitrosketch.h\<close> and the loop over the
      packets of \<^verbatim>\<open>enso_nitrosketch.cpp\<close> and \<^verbatim>\<open>dpdk_nitrosketch.cpp\<close>.
    \<^item> \<open>Packet_Copy\<close>, \<open>Packet_Flights\<close>: \<^verbatim>\<open>src/pktcopy/enso_userlib.h\<close>, \<^verbatim>\<open>enso_userlib.cc\<close> and the loop of
      \<^verbatim>\<open>enso_pktcpy.cc\<close>: rings of memory for the packets that are sent back, and the packets in flight.
    \<^item> \<open>Rate_Limiter\<close>: \<^verbatim>\<open>util/rate_limiter.h\<close>, token buckets, and \<^verbatim>\<open>util/rand.h\<close>.

  \<^bold>\<open>How state and operations are modelled.\<close> A class is a record and an operation a function of its
  state that returns the state after it; integers keep their width and wrap, sizes and offsets
  into a list are natural numbers where the code cannot make them wrap. A read or a write outside
  an array, through a pointer that was never set, or an undefined shift is the result \<^const>\<open>None\<close>, and so
  is a loop that never ends (\<open>partial_function (option)\<close>), so that a theorem which says \<open>Some\<close> says
  that the code is defined and returns. Where the code's own bound or the invariant of the
  properties keeps an index inside, lists are read and written without that check: so the memory of the
  segregated fit (\<open>sf_rd\<close>, \<open>sf_wr\<close>, \<open>sf_release\<close>) and the slots of recent key hashes, which only steer
  the prefetching. Structures that the code reaches through pointers (chunks
  of a pool, extra buckets, intrusive lists, slots of a ring) are lists and indices, with the links
  that the code keeps. Assertions are compiled out. Templates are parameters: configurations are
  records, and what the code takes from libraries (hashes, the clock, the network) are arguments.

  \<^bold>\<open>What the lemmas show.\<close> Each component has an invariant that its operations keep (\<open>heap_ok\<close>, the
  ring of a queue, the chunks of a pool, \<open>rd_lists\<close>, \<open>world_inv\<close>, \<open>building\<close>), and an abstract form that
  they implement: a queue is a list, a log a list of items with the oldest evicted, an allocator a
  list of chunks, a lossy table a cache of a map, the partitions one such cache, the descriptors
  two lists, a packet the list of its requests, shared memory the pages of each block, the copier a queue of batches in flight. The
  properties are numbered by importance; each is followed by a theorem that applies it to a concrete
  input.

  \<^bold>\<open>Bounds.\<close> No loop of the model runs on fuel: the recursions are structural, carry a termination
  proof, or are \<open>partial_function\<close>s of which it is proved that they return. Bounds in hypotheses are
  those of the code's widths: fewer than \<open>2 ^ 16\<close> requests of a client, so that no epoch comes round, descriptors
  below \<open>2 ^ 16\<close>, times below \<open>2 ^ 63\<close> (the sign of a difference of time stamps is read), packets
  shorter than \<open>2 ^ 16\<close> bytes, appends to a log of up to \<open>2 ^ 48\<close> bytes, fewer
  than \<open>2 ^ 40\<close> huge pages.

  \<^bold>\<open>Not modelled.\<close> The drivers of the network (\<^verbatim>\<open>network/\<close>), the directory of servers and the
  probing of their endpoints, configuration files, SQLite, and the main programs beyond the loops
  named above: they are calls of the system and of libraries that are not in the tree (DPDK, Enso,
  Hyperscan, etcd) around what is modelled. Generators other than \<^verbatim>\<open>util/rand.h\<close> are vendored or
  compute with floating point, which for the rate limiters is a parameter: the bound on the rate is
  for exact arithmetic. Keys and values of the tables are whole 64-bit words; the server is modelled with
  \<^verbatim>\<open>SimpleProcessor\<close>, and the pipeline of \<^verbatim>\<open>Partitions\<close> with the array of requests. The constructor of the allocator of huge pages reads configuration, creates
  files and asks the kernel where their pages lie; its spin lock is left out, the runs being those of
  one thread; its striped blocks are modelled, but the properties are about contiguous ones; and \<^verbatim>\<open>find_free_address\<close>
  unmaps less than it maps, and the rest that stays mapped is not kept in the model. The
  concurrent versions of the table's locks are modelled as the code takes and gives them back on one
  core; the interleaving of threads is modelled for the queue. Vendored code is left aside.
\<close>

end
